(* ===== verification/Prelude.thy ===== *)
theory Prelude
  imports Main "HOL-Library.Word" "HOL-Library.Monad_Syntax"
begin

unbundle bit_operations_syntax

text \<open>
  Shared vocabulary of the development: the machine integer types of the arm64 build
  (little endian, 64-bit \<open>long\<close> and \<open>size_t\<close>), checked array accesses, checked C
  assertions, checked shifts, and generic facts on lists and words that the component
  theories use.

  A C function that may run into undefined behaviour or a failing \<^verbatim>\<open>assert\<close> is modelled
  by a function into \<open>option\<close>: \<open>None\<close> is the fault (an access outside an array, a shift
  by at least the width, a failed assertion), \<open>Some\<close> is a run without fault.
\<close>

section \<open>Machine integers\<close>

type_synonym u8 = "8 word"
type_synonym u16 = "16 word"
type_synonym u32 = "32 word"
type_synonym u64 = "64 word"
type_synonym bytes = "u8 list"

text \<open>\<^verbatim>\<open>-1ULL\<close>, the in-band error value of several \<^verbatim>\<open>uint64_t\<close> functions.\<close>

abbreviation u64_max :: u64 where
  "u64_max \<equiv> - 1"

section \<open>Checked accesses\<close>

definition rd :: "'a list \<Rightarrow> nat \<Rightarrow> 'a option" where
  "rd xs i = (if i < length xs then Some (xs ! i) else None)"

definition wr :: "'a list \<Rightarrow> nat \<Rightarrow> 'a \<Rightarrow> 'a list option" where
  "wr xs i x = (if i < length xs then Some (xs[i := x]) else None)"

definition c_assert :: "bool \<Rightarrow> unit option" where
  "c_assert b = (if b then Some () else None)"

text \<open>\<^verbatim>\<open>memcpy(dst + at, src, n)\<close> on byte arrays, faulting when it leaves either array.\<close>

definition memcpy_at :: "'a list \<Rightarrow> nat \<Rightarrow> 'a list \<Rightarrow> nat \<Rightarrow> 'a list option" where
  "memcpy_at dst at src n =
     (if at + n \<le> length dst \<and> n \<le> length src
      then Some (take at dst @ take n src @ drop (at + n) dst) else None)"

named_theorems checked \<comment> \<open>unfolding of checked accesses\<close>

lemmas [checked] = rd_def wr_def c_assert_def memcpy_at_def

lemma rd_Some [simp]: "i < length xs \<Longrightarrow> rd xs i = Some (xs ! i)"
  by (simp add: rd_def)

lemma rd_None [simp]: "length xs \<le> i \<Longrightarrow> rd xs i = None"
  by (simp add: rd_def)

lemma rd_eq_Some_iff: "rd xs i = Some x \<longleftrightarrow> i < length xs \<and> x = xs ! i"
  by (auto simp: rd_def)

lemma wr_Some [simp]: "i < length xs \<Longrightarrow> wr xs i x = Some (xs[i := x])"
  by (simp add: wr_def)

lemma wr_eq_Some_iff: "wr xs i x = Some ys \<longleftrightarrow> i < length xs \<and> ys = xs[i := x]"
  by (auto simp: wr_def)

lemma c_assert_True [simp]: "b \<Longrightarrow> c_assert b = Some ()"
  by (simp add: c_assert_def)

lemma memcpy_at_Some [simp]:
  "at + n \<le> length dst \<Longrightarrow> n \<le> length src \<Longrightarrow>
     memcpy_at dst at src n = Some (take at dst @ take n src @ drop (at + n) dst)"
  by (simp add: memcpy_at_def)

section \<open>Words and naturals\<close>

named_theorems nat_of_word \<comment> \<open>moving word arithmetic to \<open>nat\<close>\<close>

lemma unat_drop_bit [nat_of_word]: "unat (drop_bit n w) = unat w div 2 ^ n"
  for w :: "'a::len word"
  by (metis unat_drop_bit_eq drop_bit_eq_div)

lemma unat_and_mask [nat_of_word]: "unat (w AND mask n) = unat w mod 2 ^ n"
  for w :: "'a::len word"
  by (metis unsigned_take_bit_eq take_bit_eq_mod take_bit_eq_mask)

lemma unat_add_small [nat_of_word]:
  "unat a + unat b < 2 ^ LENGTH('a) \<Longrightarrow> unat (a + b) = unat a + unat b"
  for a b :: "'a::len word"
  by (simp add: unat_word_ariths)

lemma unat_add_le: "unat (a + b) \<le> unat a + unat b" for a b :: "'a::len word"
  by (simp add: unat_word_ariths)

lemma unat_pow2 [nat_of_word]: "n < LENGTH('a) \<Longrightarrow> unat (2 ^ n :: 'a::len word) = 2 ^ n"
proof -
  assume "n < LENGTH('a)"
  then have "(2 :: nat) ^ n < 2 ^ LENGTH('a)" by simp
  then have "unat (of_nat (2 ^ n) :: 'a word) = 2 ^ n"
    by (simp only: unsigned_of_nat take_bit_nat_eq_self of_nat_id)
  then show ?thesis by simp
qed

lemma unat_bound64: "unat (w :: u64) < 2 ^ 64"
  using unsigned_less [of w] by simp

lemma unat_bound32: "unat (w :: u32) < 2 ^ 32"
  using unsigned_less [of w] by simp

lemma unat_mult64: "unat a * unat b < 2 ^ 64 \<Longrightarrow> unat (a * b) = unat a * unat b" for a b :: u64
  by (simp add: unat_word_ariths)

lemma unat_add64: "unat a + unat b < 2 ^ 64 \<Longrightarrow> unat (a + b) = unat a + unat b" for a b :: u64
  by (simp add: unat_word_ariths)

lemma unat_min: "unat (min v w) = min (unat v) (unat w)" for v w :: "'a::len word"
  by (simp add: min_def word_le_nat_alt)

lemma unat_u64_max: "unat u64_max = 2 ^ 64 - 1"
  by (simp add: unsigned_minus_1_eq_mask mask_eq_exp_minus_1)

lemma word_unat_eqI: "unat v = unat w \<Longrightarrow> v = w"
  by (rule unsigned_word_eqI)

lemma unat_of_nat64: "n < 2 ^ 64 \<Longrightarrow> unat (of_nat n :: u64) = n"
  by (simp add: unsigned_of_nat take_bit_nat_eq_self)

lemma unat_of_nat32: "n < 2 ^ 32 \<Longrightarrow> unat (of_nat n :: u32) = n"
  by (simp add: unsigned_of_nat take_bit_nat_eq_self)

lemma bit_word_nat: "bit w n \<longleftrightarrow> bit (unat w) n" for w :: "'a::len word"
  by (simp add: bit_unsigned_iff)

lemma word_eq_minus_one_iff: "w = - 1 \<longleftrightarrow> (\<forall>n < LENGTH('a). bit w n)" for w :: "'a::len word"
  by (auto intro!: bit_word_eqI)

lemma word_eq_zero_iff_bits: "w = 0 \<longleftrightarrow> (\<forall>n < LENGTH('a). \<not> bit w n)" for w :: "'a::len word"
  by (auto intro!: bit_word_eqI)

section \<open>Naturals\<close>

lemma no_carry:
  fixes b d i :: nat
  assumes "b mod d + i < d"
  shows div_add_no_carry: "(b + i) div d = b div d" and mod_add_no_carry: "(b + i) mod d = b mod d + i"
proof -
  have eq: "b + i = (b mod d + i) + b div d * d"
    using mod_div_mult_eq [of b d] by linarith
  have "d \<noteq> 0" using assms by simp
  then show "(b + i) div d = b div d"
    using assms by (subst eq) (simp only: div_mult_self1 div_less add_0_right not_False_eq_True)
  show "(b + i) mod d = b mod d + i"
    using assms by (subst eq) (simp only: mod_mult_self1 mod_less)
qed

end
