(* ===== verification/Bits.thy ===== *)
theory Bits
  imports Prelude
begin

text \<open>
  Bit searching and counting: \<^verbatim>\<open>lib/ffz.h\<close>, \<^verbatim>\<open>arch/arch-aarch64.h\<close> (the instruction pair
  used instead on arm64), \<^verbatim>\<open>lib/fls.h\<close>, \<^verbatim>\<open>lib/roundup.h\<close>, \<^verbatim>\<open>lib/pow2.h\<close> and
  \<^verbatim>\<open>lib/hweight.c\<close>. The axmap and the pool allocator search their bitmaps with \<open>ffz\<close>.
\<close>

section \<open>Definitions\<close>

text \<open>\<^verbatim>\<open>ffs64\<close>: a binary search for the lowest set bit; the value at 0 is 63.\<close>

definition ffs64 :: "u64 \<Rightarrow> nat" where
  "ffs64 word = (let r = 0;
     (r, word) = (if word AND 0xffffffff = 0 then (r + 32, drop_bit 32 word) else (r, word));
     (r, word) = (if word AND 0xffff = 0 then (r + 16, drop_bit 16 word) else (r, word));
     (r, word) = (if word AND 0xff = 0 then (r + 8, drop_bit 8 word) else (r, word));
     (r, word) = (if word AND 0xf = 0 then (r + 4, drop_bit 4 word) else (r, word));
     (r, word) = (if word AND 3 = 0 then (r + 2, drop_bit 2 word) else (r, word))
   in if word AND 1 = 0 then r + 1 else r)"

definition ffz :: "u64 \<Rightarrow> nat" where
  "ffz bitmask = ffs64 (NOT bitmask)"

text \<open>The bits of a word, lowest first; \<^verbatim>\<open>rbit\<close> and \<^verbatim>\<open>clz\<close> of the arm64 instruction set.\<close>

definition bits_of :: "'a::len word \<Rightarrow> bool list" where
  "bits_of w = map (bit w) [0..<LENGTH('a)]"

definition rbit :: "u64 \<Rightarrow> u64" where
  "rbit w = horner_sum of_bool 2 (rev (bits_of w))"

definition clz :: "u64 \<Rightarrow> nat" where
  "clz w = length (takeWhile Not (rev (bits_of w)))"

definition arch_ffz :: "u64 \<Rightarrow> nat" where
  "arch_ffz bitmask = (if NOT bitmask = 0 then 63 else clz (rbit (NOT bitmask)))"

text \<open>\<^verbatim>\<open>__fls\<close>: position, from 1, of the highest set bit of an \<^verbatim>\<open>int\<close>; 0 at 0.\<close>

definition fls :: "u32 \<Rightarrow> nat" where
  "fls x = (let r = 32 in
     if x = 0 then 0 else
     (let (x, r) = (if x AND 0xffff0000 = 0 then (push_bit 16 x, r - 16) else (x, r));
          (x, r) = (if x AND 0xff000000 = 0 then (push_bit 8 x, r - 8) else (x, r));
          (x, r) = (if x AND 0xf0000000 = 0 then (push_bit 4 x, r - 4) else (x, r));
          (x, r) = (if x AND 0xc0000000 = 0 then (push_bit 2 x, r - 2) else (x, r))
      in if x AND 0x80000000 = 0 then r - 1 else r))"

text \<open>\<^verbatim>\<open>roundup_pow2\<close>: \<^verbatim>\<open>1UL << __fls(depth - 1)\<close>, returned as an \<^verbatim>\<open>unsigned\<close>.\<close>

definition roundup_pow2 :: "u32 \<Rightarrow> u32" where
  "roundup_pow2 depth = ucast (push_bit (fls (depth - 1)) (1 :: u64))"

definition is_power_of_2 :: "u64 \<Rightarrow> bool" where
  "is_power_of_2 val \<longleftrightarrow> val \<noteq> 0 \<and> val AND (val - 1) = 0"

text \<open>\<^verbatim>\<open>hweight8\<close>, \<^verbatim>\<open>hweight32\<close>, \<^verbatim>\<open>hweight64\<close>: population counts by parallel addition.\<close>

definition hweight8 :: "u8 \<Rightarrow> u32" where
  "hweight8 w = (let w = (ucast w :: u32);
     res = w - (drop_bit 1 w AND 0x55);
     res = (res AND 0x33) + (drop_bit 2 res AND 0x33)
   in (res + drop_bit 4 res) AND 0x0F)"

definition hweight32 :: "u32 \<Rightarrow> u32" where
  "hweight32 w = (let
     res = w - (drop_bit 1 w AND 0x55555555);
     res = (res AND 0x33333333) + (drop_bit 2 res AND 0x33333333);
     res = (res + drop_bit 4 res) AND 0x0F0F0F0F;
     res = res + drop_bit 8 res
   in (res + drop_bit 16 res) AND 0x000000FF)"

definition hweight64 :: "u64 \<Rightarrow> u32" where
  "hweight64 w = (let
     res = w - (drop_bit 1 w AND 0x5555555555555555);
     res = (res AND 0x3333333333333333) + (drop_bit 2 res AND 0x3333333333333333);
     res = (res + drop_bit 4 res) AND 0x0F0F0F0F0F0F0F0F;
     res = res + drop_bit 8 res;
     res = res + drop_bit 16 res
   in ucast ((res + drop_bit 32 res) AND 0x00000000000000FF))"

section \<open>Finding the lowest bit\<close>

text \<open>\<open>is_lsb w n\<close>: bit \<open>n\<close> is the lowest set bit of \<open>w\<close>.\<close>

definition is_lsb :: "'a::len word \<Rightarrow> nat \<Rightarrow> bool" where
  "is_lsb w n \<longleftrightarrow> bit w n \<and> (\<forall>i < n. \<not> bit w i)"

lemma is_lsb_unique: "is_lsb w m \<Longrightarrow> is_lsb w n \<Longrightarrow> m = n"
  unfolding is_lsb_def by (metis linorder_neqE_nat)

lemma is_lsb_bound: "is_lsb w n \<Longrightarrow> n < LENGTH('a)" for w :: "'a::len word"
  unfolding is_lsb_def by (auto dest: bit_imp_le_length)

lemma ex_is_lsb: "w \<noteq> 0 \<Longrightarrow> \<exists>n. is_lsb w n" for w :: "'a::len word"
proof -
  assume "w \<noteq> 0"
  then obtain k where "bit w k" by (auto simp: word_eq_zero_iff_bits)
  then have "is_lsb w (LEAST n. bit w n)"
    unfolding is_lsb_def by (auto intro: LeastI dest: not_less_Least)
  then show ?thesis ..
qed

text \<open>One halving step of the binary search.\<close>

lemma is_lsb_step:
  assumes "is_lsb w n" and "n < 2 * k"
  shows "w AND mask k = 0 \<longleftrightarrow> k \<le> n"
    and "k \<le> n \<Longrightarrow> is_lsb (drop_bit k w) (n - k)"
proof -
  have "(\<exists>i < k. bit w i) \<longleftrightarrow> n < k"
    using assms(1) unfolding is_lsb_def by (metis less_trans linorder_neqE_nat)
  moreover have "w AND mask k = 0 \<longleftrightarrow> \<not> (\<exists>i < k. bit w i)"
    by (metis (no_types, lifting) bit_and_iff bit_eq_iff bit_imp_le_length bit_mask_iff
        bit_0_eq bot_apply bot_bool_def min_less_iff_conj possible_bit_word)
  ultimately show "w AND mask k = 0 \<longleftrightarrow> k \<le> n" by auto
  show "k \<le> n \<Longrightarrow> is_lsb (drop_bit k w) (n - k)"
    using assms(1) unfolding is_lsb_def by (auto simp: bit_drop_bit_eq)
qed


definition halve :: "nat \<Rightarrow> nat \<times> 'a::len word \<Rightarrow> nat \<times> 'a word" where
  "halve k = (\<lambda>(r, w). if w AND mask k = 0 then (r + k, drop_bit k w) else (r, w))"

lemma halve_is_lsb:
  assumes "is_lsb w m" and "m < 2 * k"
  shows "\<exists>m'. is_lsb (snd (halve k (r, w))) m' \<and> m' < k \<and> fst (halve k (r, w)) + m' = r + m"
proof (cases "k \<le> m")
  case True
  with is_lsb_step [OF assms] assms show ?thesis
    by (intro exI [of _ "m - k"]) (auto simp: halve_def)
next
  case False
  with is_lsb_step [OF assms] assms show ?thesis
    by (auto simp: halve_def)
qed

lemma halve_zero: "halve k (r, 0) = (r + k, 0)"
  by (simp add: halve_def)

lemma halve_fold:
  "(if w AND mask k = 0 then (r + k, drop_bit k w) else (r, w)) = halve k (r, w)"
  by (simp add: halve_def)

lemma ffs64_halve:
  "ffs64 w = fst (halve 1 (halve 2 (halve 4 (halve 8 (halve 16 (halve 32 (0, w)))))))"
proof -
  have masks: "0xffffffff = (mask 32 :: u64)" "0xffff = (mask 16 :: u64)" "0xff = (mask 8 :: u64)"
    "0xf = (mask 4 :: u64)" "3 = (mask 2 :: u64)"
    by (simp_all add: mask_eq_exp_minus_1)
  have last: "(if w AND 1 = 0 then r + 1 else r) = fst (halve 1 (r, w))" for w :: u64 and r
    by (simp add: halve_def)
  show ?thesis
    unfolding ffs64_def masks
    by (simp only: Let_def halve_fold last case_prod_beta prod.collapse)
qed

theorem ffs64_is_lsb: "w \<noteq> 0 \<Longrightarrow> is_lsb w (ffs64 w)"
proof -
  assume "w \<noteq> 0"
  then obtain n where n: "is_lsb w n" using ex_is_lsb by blast
  then have "n < 2 * 32" using is_lsb_bound [OF n] by simp
  with n obtain a w1 r1 where 1: "halve 32 (0, w) = (r1, w1)" "is_lsb w1 a" "a < 2 * 16" "r1 + a = n"
    using halve_is_lsb [of w n 32 0] by (metis add_0 mult_2 numeral_Bit0 prod.collapse)
  obtain b w2 r2 where 2: "halve 16 (r1, w1) = (r2, w2)" "is_lsb w2 b" "b < 2 * 8" "r2 + b = n"
    using halve_is_lsb [OF 1(2,3), of r1] 1(4) by (metis mult_2 numeral_Bit0 prod.collapse)
  obtain c w3 r3 where 3: "halve 8 (r2, w2) = (r3, w3)" "is_lsb w3 c" "c < 2 * 4" "r3 + c = n"
    using halve_is_lsb [OF 2(2,3), of r2] 2(4) by (metis mult_2 numeral_Bit0 prod.collapse)
  obtain d w4 r4 where 4: "halve 4 (r3, w3) = (r4, w4)" "is_lsb w4 d" "d < 2 * 2" "r4 + d = n"
    using halve_is_lsb [OF 3(2,3), of r3] 3(4) by (metis mult_2 numeral_Bit0 prod.collapse)
  obtain e w5 r5 where 5: "halve 2 (r4, w4) = (r5, w5)" "is_lsb w5 e" "e < 2 * 1" "r5 + e = n"
    using halve_is_lsb [OF 4(2,3), of r4] 4(4) by (metis mult_1_right prod.collapse)
  obtain f where "f < 1" "fst (halve 1 (r5, w5)) + f = n"
    using halve_is_lsb [OF 5(2,3), of r5] 5(4) by metis
  then have "ffs64 w = n"
    by (simp add: ffs64_halve 1 2 3 4 5)
  with n show ?thesis by simp
qed

lemma ffs64_zero: "ffs64 0 = 63"
  by (simp add: ffs64_def)

lemma ffs64_less: "ffs64 w < 64"
  using is_lsb_bound [OF ffs64_is_lsb, of w] by (cases "w = 0") (simp_all add: ffs64_zero)

lemma ffz_is_lsb: "m \<noteq> - 1 \<Longrightarrow> is_lsb (NOT m) (ffz m)"
  unfolding ffz_def by (rule ffs64_is_lsb) (metis bit.compl_zero bit.double_compl)

lemma ffz_eqI: "\<not> bit m n \<Longrightarrow> n < 64 \<Longrightarrow> (\<And>i. i < n \<Longrightarrow> bit m i) \<Longrightarrow> ffz m = n"
proof -
  assume a: "\<not> bit m n" "n < 64" "\<And>i. i < n \<Longrightarrow> bit m i"
  then have "m \<noteq> - 1" by (auto simp: word_eq_minus_one_iff)
  moreover from a have "is_lsb (NOT m) n" by (simp add: is_lsb_def bit_not_iff)
  ultimately show ?thesis using ffz_is_lsb is_lsb_unique by blast
qed

lemma length_takeWhile_lsb:
  "is_lsb w n \<Longrightarrow> length (takeWhile Not (bits_of w)) = n" for w :: "'a::len word"
proof -
  assume n: "is_lsb w n"
  then have "n < LENGTH('a)" by (rule is_lsb_bound)
  with n have "takeWhile Not (bits_of w) = take n (bits_of w)"
    by (intro takeWhile_eq_take_P_nth) (auto simp: is_lsb_def bits_of_def)
  with \<open>n < LENGTH('a)\<close> show ?thesis by (simp add: bits_of_def)
qed

lemma bits_of_rbit: "bits_of (rbit w) = rev (bits_of w)"
  by (rule nth_equalityI)
    (simp_all add: bits_of_def rbit_def bit_horner_sum_bit_word_iff rev_nth)

lemma clz_rbit: "is_lsb w n \<Longrightarrow> clz (rbit w) = n"
  by (simp add: clz_def bits_of_rbit length_takeWhile_lsb)

text \<open>
  The arm64 instruction sequence \<^verbatim>\<open>rbit; clz\<close> of \<^verbatim>\<open>arch_ffz\<close> and the portable
  binary search of \<^verbatim>\<open>lib/ffz.h\<close> compute the same function on every 64-bit word.
\<close>

theorem arch_ffz_eq_ffz: "arch_ffz m = ffz m"
proof (cases "NOT m = 0")
  case True
  then show ?thesis by (simp add: arch_ffz_def ffz_def ffs64_zero)
next
  case False
  then show ?thesis
    by (simp add: arch_ffz_def ffz_def clz_rbit [OF ffs64_is_lsb])
qed


section \<open>Finding the highest bit\<close>

definition is_msb :: "'a::len word \<Rightarrow> nat \<Rightarrow> bool" where
  "is_msb w n \<longleftrightarrow> bit w n \<and> (\<forall>i. n < i \<longrightarrow> \<not> bit w i)"

lemma is_msb_bound: "is_msb w n \<Longrightarrow> n < LENGTH('a)" for w :: "'a::len word"
  unfolding is_msb_def by (auto dest: bit_imp_le_length)

lemma ex_is_msb: "w \<noteq> 0 \<Longrightarrow> \<exists>n. is_msb w n" for w :: "'a::len word"
proof -
  assume "w \<noteq> 0"
  then obtain k where k: "bit w k" by (auto simp: word_eq_zero_iff_bits)
  let ?S = "{n. bit w n}"
  have fin: "finite ?S"
    by (rule finite_subset [of _ "{..<LENGTH('a)}"]) (auto dest: bit_imp_le_length)
  from k fin have "is_msb w (Max ?S)"
    unfolding is_msb_def
    using Max_in [OF fin] Max_ge [OF fin] by (auto simp: not_less [symmetric])
  then show ?thesis ..
qed

lemma is_msb_unat: "is_msb w n \<Longrightarrow> 2 ^ n \<le> unat w \<and> unat w < 2 ^ Suc n" for w :: "'a::len word"
proof -
  assume m: "is_msb w n"
  then have n: "n < LENGTH('a)" by (rule is_msb_bound)
  have "take_bit (Suc n) w = w"
    using m by (intro bit_word_eqI) (auto simp: bit_take_bit_iff is_msb_def not_less_eq)
  then have "unat w = unat w mod 2 ^ Suc n"
    by (metis take_bit_eq_mod unsigned_take_bit_eq)
  then have "unat w < 2 ^ Suc n"
    by (metis mod_less_divisor zero_less_numeral zero_less_power)
  moreover have "drop_bit n w \<noteq> 0"
  proof
    assume "drop_bit n w = 0"
    then have "\<not> bit (drop_bit n w) 0" by simp
    with m show False by (simp add: bit_drop_bit_eq is_msb_def)
  qed
  then have "unat w div 2 ^ n \<noteq> 0"
    by (metis unat_drop_bit unat_eq_zero)
  then have "2 ^ n \<le> unat w" by (metis div_less not_less)
  ultimately show ?thesis by simp
qed

definition halve_top :: "nat \<Rightarrow> u32 \<times> nat \<Rightarrow> u32 \<times> nat" where
  "halve_top k = (\<lambda>(x, r). if x AND push_bit (32 - k) (mask k) = 0 then (push_bit k x, r - k) else (x, r))"

lemma halve_top_is_msb:
  assumes "is_msb x m" and "32 \<le> m + 2 * k" and "k \<le> 16" and "32 \<le> r + m"
  shows "\<exists>m'. is_msb (fst (halve_top k (x, r))) m' \<and> 32 \<le> m' + k \<and>
           snd (halve_top k (x, r)) + m' = r + m"
proof -
  have m: "bit x m" "\<And>i. m < i \<Longrightarrow> \<not> bit x i" "m < 32"
    using assms(1) is_msb_bound [OF assms(1)] by (auto simp: is_msb_def)
  have top: "x AND push_bit (32 - k) (mask k) = 0 \<longleftrightarrow> m < 32 - k"
  proof
    assume "x AND push_bit (32 - k) (mask k) = 0"
    then have "\<not> bit (x AND push_bit (32 - k) (mask k)) m" by simp
    with m show "m < 32 - k" by (auto simp: bit_simps)
  next
    assume "m < 32 - k"
    with m(2) show "x AND push_bit (32 - k) (mask k) = 0"
      by (intro bit_word_eqI) (auto simp: bit_simps)
  qed
  show ?thesis
  proof (cases "m < 32 - k")
    case True
    have "is_msb (push_bit k x) (m + k)"
      unfolding is_msb_def using m True by (auto simp: bit_simps)
    with True top assms show ?thesis
      by (intro exI [of _ "m + k"]) (auto simp: halve_top_def)
  next
    case False
    with top assms show ?thesis by (intro exI [of _ m]) (auto simp: halve_top_def)
  qed
qed

lemma halve_top_fold:
  "(if x AND push_bit (32 - k) (mask k) = 0 then (push_bit k x, r - k) else (x, r)) = halve_top k (x, r)"
  by (simp add: halve_top_def)

lemma fls_halve_top:
  "x \<noteq> 0 \<Longrightarrow> fls x = snd (halve_top 1 (halve_top 2 (halve_top 4 (halve_top 8 (halve_top 16 (x, 32))))))"
proof -
  assume x: "x \<noteq> 0"
  have masks: "0xffff0000 = push_bit (32 - 16) (mask 16 :: u32)"
    "0xff000000 = push_bit (32 - 8) (mask 8 :: u32)"
    "0xf0000000 = push_bit (32 - 4) (mask 4 :: u32)"
    "0xc0000000 = push_bit (32 - 2) (mask 2 :: u32)"
    by (simp_all add: mask_eq_exp_minus_1 push_bit_eq_mult)
  have last: "(if x AND 0x80000000 = 0 then r - 1 else r) = snd (halve_top 1 (x, r))" for x r
    by (simp add: halve_top_def push_bit_eq_mult)
  from x show ?thesis
    unfolding fls_def masks
    by (simp only: Let_def halve_top_fold last case_prod_beta prod.collapse if_False)
qed

lemma fls_is_msb: "x \<noteq> 0 \<Longrightarrow> \<exists>m. is_msb x m \<and> fls x = Suc m"
proof -
  assume x: "x \<noteq> 0"
  then obtain m where m: "is_msb x m" using ex_is_msb by blast
  then have m32: "m < 32" using is_msb_bound [OF m] by simp
  define x1 where "x1 = halve_top 16 (x, 32)"
  define x2 where "x2 = halve_top 8 x1"
  define x3 where "x3 = halve_top 4 x2"
  define x4 where "x4 = halve_top 2 x3"
  define x5 where "x5 = halve_top 1 x4"
  obtain a where a: "is_msb (fst x1) a" "16 \<le> a" "snd x1 + a = 32 + m"
    using halve_top_is_msb [OF m, of 16 32] by (auto simp: x1_def)
  have a32: "a < 32" using is_msb_bound [OF a(1)] by simp
  obtain b where b: "is_msb (fst x2) b" "24 \<le> b" "snd x2 + b = 32 + m"
    using halve_top_is_msb [OF a(1), of 8 "snd x1"] a m32 a32 by (auto simp: x2_def)
  have b32: "b < 32" using is_msb_bound [OF b(1)] by simp
  obtain c where c: "is_msb (fst x3) c" "28 \<le> c" "snd x3 + c = 32 + m"
    using halve_top_is_msb [OF b(1), of 4 "snd x2"] b m32 b32 by (auto simp: x3_def)
  have c32: "c < 32" using is_msb_bound [OF c(1)] by simp
  obtain d where d: "is_msb (fst x4) d" "30 \<le> d" "snd x4 + d = 32 + m"
    using halve_top_is_msb [OF c(1), of 2 "snd x3"] c m32 c32 by (auto simp: x4_def)
  have d32: "d < 32" using is_msb_bound [OF d(1)] by simp
  obtain e where e: "is_msb (fst x5) e" "31 \<le> e" "snd x5 + e = 32 + m"
    using halve_top_is_msb [OF d(1), of 1 "snd x4"] d m32 d32 by (auto simp: x5_def)
  have "e < 32" using is_msb_bound [OF e(1)] by simp
  with e have "snd x5 = Suc m" by simp
  with m x show ?thesis
    by (auto simp: fls_halve_top x1_def x2_def x3_def x4_def x5_def)
qed

text \<open>
  \<^verbatim>\<open>roundup_pow2\<close> returns the least power of two that is at least its argument,
  for every argument from 1 up to \<open>2^31\<close> (the largest power of two an \<^verbatim>\<open>unsigned\<close> holds).
\<close>

theorem roundup_pow2_least:
  assumes "1 \<le> unat depth" and "unat depth \<le> 2 ^ 31"
  shows "\<exists>k \<le> 31. unat (roundup_pow2 depth) = 2 ^ k \<and> unat depth \<le> 2 ^ k \<and>
           (\<forall>j. unat depth \<le> 2 ^ j \<longrightarrow> k \<le> j)"
proof -
  have val: "unat (ucast (push_bit k (1 :: u64)) :: u32) = 2 ^ k" if "k \<le> 31" for k
  proof -
    have "(2 :: nat) ^ k < 2 ^ 32" using that by (intro power_strict_increasing) auto
    moreover have "(2 :: nat) ^ k < 2 ^ 64" using that by (intro power_strict_increasing) auto
    ultimately show ?thesis
      using that by (simp add: push_bit_eq_mult unsigned_ucast_eq take_bit_nat_eq_self unat_pow2)
  qed
  have pred: "unat (depth - 1) = unat depth - 1"
    using assms(1) by (metis unat_minus_one unat_eq_zero not_one_le_zero)
  show ?thesis
  proof (cases "depth - 1 = 0")
    case True
    then have "unat depth = 1" "fls (depth - 1) = 0"
      using assms(1) pred by (auto simp: fls_def)
    then show ?thesis using val [of 0] by (auto simp: roundup_pow2_def)
  next
    case False
    then obtain m where m: "is_msb (depth - 1) m" "fls (depth - 1) = Suc m"
      using fls_is_msb by blast
    have bnd: "2 ^ m \<le> unat depth - 1" "unat depth - 1 < 2 ^ Suc m"
      using is_msb_unat [OF m(1)] pred by simp_all
    have "(2 :: nat) ^ m < 2 ^ 31" using bnd(1) assms by linarith
    then have "m < 31" by (rule power_less_imp_less_exp [rotated]) simp
    then have "Suc m \<le> 31" by simp
    moreover have "unat depth \<le> 2 ^ Suc m" using bnd(2) by simp
    moreover have "Suc m \<le> j" if "unat depth \<le> 2 ^ j" for j
    proof -
      have "(2 :: nat) ^ m < 2 ^ j" using bnd(1) assms(1) that by linarith
      then show ?thesis by (simp add: power_strict_increasing_iff Suc_le_eq)
    qed
    ultimately show ?thesis
      using val [of "Suc m"] m(2) by (intro exI [of _ "Suc m"]) (auto simp: roundup_pow2_def)
  qed
qed

theorem roundup_pow2_least_witness:
  "\<exists>k \<le> 31. unat (roundup_pow2 100) = 2 ^ k \<and> 100 \<le> (2 :: nat) ^ k \<and>
     (\<forall>j. 100 \<le> (2 :: nat) ^ j \<longrightarrow> k \<le> j)"
  using roundup_pow2_least [of 100] by simp

section \<open>Powers of two\<close>

text \<open>Subtracting one clears the lowest set bit and sets all below it.\<close>

lemma minus_one_lsb:
  fixes w :: "'a::len word"
  assumes "is_lsb w l"
  shows "w - 1 = mask l OR unset_bit l w"
proof -
  have "w = 2 ^ l OR unset_bit l w"
    using assms is_lsb_bound [OF assms]
    by (intro bit_word_eqI) (auto simp: bit_simps is_lsb_def bit_exp_iff)
  moreover have "2 ^ l AND unset_bit l w = 0"
    by (rule bit_word_eqI) (auto simp: bit_simps bit_exp_iff)
  ultimately have "w = 2 ^ l + unset_bit l w" by (simp add: disjunctive_add_eq_or)
  then have "w - 1 = mask l + unset_bit l w" by (simp add: mask_eq_exp_minus_1)
  moreover have "mask l AND unset_bit l w = 0"
    using assms by (intro bit_word_eqI) (auto simp: bit_simps is_lsb_def)
  ultimately show ?thesis by (simp add: disjunctive_add_eq_or)
qed

lemma and_minus_one_zero_iff:
  fixes w :: "'a::len word"
  assumes "w \<noteq> 0"
  shows "w AND (w - 1) = 0 \<longleftrightarrow> (\<exists>k < LENGTH('a). w = 2 ^ k)"
proof
  obtain l where l: "is_lsb w l" using ex_is_lsb [OF assms] ..
  assume z: "w AND (w - 1) = 0"
  have "\<not> bit w j" if "l < j" for j
  proof
    assume j: "bit w j"
    have "bit (w AND (w - 1)) j"
      unfolding minus_one_lsb [OF l] using j that
      by (auto simp: bit_simps bit_imp_le_length)
    then show False using z by simp
  qed
  then have "w = 2 ^ l"
    using l is_lsb_bound [OF l]
    by (intro bit_word_eqI) (auto simp: bit_exp_iff is_lsb_def, metis linorder_neqE_nat)
  then show "\<exists>k < LENGTH('a). w = 2 ^ k" using is_lsb_bound [OF l] by blast
next
  assume "\<exists>k < LENGTH('a). w = 2 ^ k"
  then obtain k where k: "k < LENGTH('a)" "w = 2 ^ k" by blast
  then have "w - 1 = mask k" by (simp add: mask_eq_exp_minus_1)
  with k show "w AND (w - 1) = 0"
    by (intro bit_word_eqI) (auto simp: bit_simps bit_exp_iff)
qed

text \<open>
  \<^verbatim>\<open>is_power_of_2\<close> accepts exactly the 64 powers of two of a \<^verbatim>\<open>uint64_t\<close>.
\<close>

theorem is_power_of_2_iff: "is_power_of_2 v \<longleftrightarrow> (\<exists>k < 64. v = 2 ^ k)"
  using and_minus_one_zero_iff [of v] by (auto simp: is_power_of_2_def)

text \<open>
  Smearing the highest bit to the right: \<open>window n w v\<close> says that bit \<open>i\<close> of \<open>v\<close> tells whether \<open>w\<close> has a
  bit among the \<open>n\<close> from \<open>i\<close> on; shifting by \<open>n\<close> and combining doubles the window.
\<close>

definition window :: "nat \<Rightarrow> 'a::len word \<Rightarrow> 'a word \<Rightarrow> bool" where
  "window n w v \<longleftrightarrow> (\<forall>i. bit v i \<longleftrightarrow> (\<exists>d < n. bit w (i + d)))"

lemma window_one: "window 1 w w"
  by (simp add: window_def)

lemma window_double:
  assumes "window n w v"
  shows "window (2 * n) w (v OR drop_bit n v)"
  unfolding window_def
proof (intro allI iffI)
  fix i
  assume "bit (v OR drop_bit n v) i"
  then obtain d where "d < n" "bit w (i + d) \<or> bit w (i + n + d)"
    using assms by (auto simp: bit_simps window_def ac_simps)
  then show "\<exists>d < 2 * n. bit w (i + d)"
    by (elim disjE) (auto intro: exI [of _ d] exI [of _ "n + d"] simp: ac_simps)
next
  fix i
  assume "\<exists>d < 2 * n. bit w (i + d)"
  then obtain d where d: "d < 2 * n" "bit w (i + d)" by blast
  show "bit (v OR drop_bit n v) i"
  proof (cases "d < n")
    case True
    then show ?thesis using d assms by (auto simp: bit_simps window_def)
  next
    case False
    then have "d - n < n" "bit w ((n + i) + (d - n))" using d by (auto simp: ac_simps)
    then have "bit v (n + i)" using assms unfolding window_def by blast
    then show ?thesis by (simp add: bit_simps)
  qed
qed

lemma window_full:
  fixes w v :: "'a::len word"
  assumes "window n w v" and "is_msb w m" and "m < n"
  shows "v = mask (Suc m)"
proof (rule bit_word_eqI)
  fix i
  assume "i < LENGTH('a)"
  have "(\<exists>d < n. bit w (i + d)) \<longleftrightarrow> i \<le> m"
  proof
    assume "\<exists>d < n. bit w (i + d)"
    then obtain d where "bit w (i + d)" by blast
    then have "\<not> m < i + d" using assms(2) unfolding is_msb_def by blast
    then show "i \<le> m" by simp
  next
    assume "i \<le> m"
    then have "m - i < n" "bit w (i + (m - i))" using assms(2,3) by (auto simp: is_msb_def)
    then show "\<exists>d < n. bit w (i + d)" by blast
  qed
  then show "bit v i \<longleftrightarrow> bit (mask (Suc m) :: 'a word) i"
    using assms(1) \<open>i < LENGTH('a)\<close> by (auto simp: window_def bit_mask_iff)
qed

end
