(* ===== verification/Axmap.thy ===== *)
theory Axmap
  imports Bits
begin

text \<open>
  \<^verbatim>\<open>lib/axmap.c\<close>: the multi-level bitmap behind fio's random map. Level 0 has one bit per
  block, a bit of level \<open>i + 1\<close> says that the word of level \<open>i\<close> at that index is full.
  The structs are records, the C loops are recursions over the list of level indices they
  visit, every array access and \<^verbatim>\<open>assert\<close> is checked (\<open>None\<close> is the fault).
  Block numbers and sizes are 64-bit words as in C; the \<^verbatim>\<open>unsigned int\<close> counts of bits inside
  one word (at most 64) are naturals.

  The development shows that the map refines a finite set of block numbers: a fresh map is
  empty, \<open>axmap_isset\<close> is membership, \<open>axmap_set_nr\<close> adds the longest free run that the
  request allows and returns its length, \<open>axmap_next_free\<close> finds the next free number
  cyclically; all of this without a fault as long as requests stay below \<open>nr_bits\<close>.
\<close>

section \<open>Definitions\<close>

definition UNIT_SHIFT :: nat where
  "UNIT_SHIFT = 6"

definition BLOCKS_PER_UNIT :: nat where
  "BLOCKS_PER_UNIT = 64"

definition BLOCKS_PER_UNIT_MASK :: u64 where
  "BLOCKS_PER_UNIT_MASK = 63"

definition bit_masks :: "u64 list" where
  "bit_masks = [
    0x0000000000000000, 0x0000000000000001, 0x0000000000000003, 0x0000000000000007,
    0x000000000000000f, 0x000000000000001f, 0x000000000000003f, 0x000000000000007f,
    0x00000000000000ff, 0x00000000000001ff, 0x00000000000003ff, 0x00000000000007ff,
    0x0000000000000fff, 0x0000000000001fff, 0x0000000000003fff, 0x0000000000007fff,
    0x000000000000ffff, 0x000000000001ffff, 0x000000000003ffff, 0x000000000007ffff,
    0x00000000000fffff, 0x00000000001fffff, 0x00000000003fffff, 0x00000000007fffff,
    0x0000000000ffffff, 0x0000000001ffffff, 0x0000000003ffffff, 0x0000000007ffffff,
    0x000000000fffffff, 0x000000001fffffff, 0x000000003fffffff, 0x000000007fffffff,
    0x00000000ffffffff,
    0x00000001ffffffff, 0x00000003ffffffff, 0x00000007ffffffff, 0x0000000fffffffff,
    0x0000001fffffffff, 0x0000003fffffffff, 0x0000007fffffffff, 0x000000ffffffffff,
    0x000001ffffffffff, 0x000003ffffffffff, 0x000007ffffffffff, 0x00000fffffffffff,
    0x00001fffffffffff, 0x00003fffffffffff, 0x00007fffffffffff, 0x0000ffffffffffff,
    0x0001ffffffffffff, 0x0003ffffffffffff, 0x0007ffffffffffff, 0x000fffffffffffff,
    0x001fffffffffffff, 0x003fffffffffffff, 0x007fffffffffffff, 0x00ffffffffffffff,
    0x01ffffffffffffff, 0x03ffffffffffffff, 0x07ffffffffffffff, 0x0fffffffffffffff,
    0x1fffffffffffffff, 0x3fffffffffffffff, 0x7fffffffffffffff, 0xffffffffffffffff]"

record axmap_level =
  level :: nat
  map_size :: u64
  lmap :: "u64 list"

record axmap =
  nr_levels :: nat
  levels :: "axmap_level list"
  nr_bits :: u64

definition axmap_reset :: "axmap \<Rightarrow> axmap" where
  "axmap_reset ax = ax\<lparr>levels :=
     map (\<lambda>al. al\<lparr>lmap := replicate (unat (map_size al)) 0\<rparr>) (levels ax)\<rparr>"

text \<open>
  The level count of \<^verbatim>\<open>axmap_new\<close>: the variable \<^verbatim>\<open>i\<close> is an \<^verbatim>\<open>unsigned int\<close>, so the first
  quotient is truncated to 32 bits.
\<close>

function count_levels :: "u32 \<Rightarrow> nat \<Rightarrow> nat" where
  "count_levels i lv = (if i > 1 then count_levels (drop_bit UNIT_SHIFT (i + 64 - 1)) (Suc lv) else lv)"
  by pat_completeness auto
termination
proof (relation "measure (unat \<circ> fst)")
  fix i :: u32 and lv :: nat
  assume "1 < i"
  then have "1 < unat i" by (simp add: word_less_nat_alt)
  moreover have "unat (63 + i) \<le> 63 + unat i"
    using unat_add_le [of 63 i] by simp
  ultimately show "((drop_bit UNIT_SHIFT (i + 64 - 1), Suc lv), i, lv) \<in> measure (unat \<circ> fst)"
    by (simp add: UNIT_SHIFT_def unat_drop_bit)
qed simp

declare count_levels.simps [simp del]


fun level_sizes :: "nat \<Rightarrow> u64 \<Rightarrow> u64 list" where
  "level_sizes 0 nr = []"
| "level_sizes (Suc n) nr =
     (let nr = drop_bit UNIT_SHIFT (nr + 64 - 1) in nr # level_sizes n nr)"

text \<open>
  The results of the calls to \<^verbatim>\<open>malloc\<close> and \<^verbatim>\<open>calloc\<close> are a parameter: \<open>mem k\<close> is the result of
  the \<open>k\<close>-th allocation, \<open>None\<close> for a null pointer, otherwise the (arbitrary) initial contents.
  A null result of \<open>axmap_new\<close> is \<open>None\<close>.
\<close>

definition axmap_new :: "(nat \<Rightarrow> (nat \<Rightarrow> u64) option) \<Rightarrow> u64 \<Rightarrow> axmap option" where
  "axmap_new mem nr =
     (if mem 0 = None then None
      else let n = count_levels (ucast (drop_bit UNIT_SHIFT (nr + 64 - 1))) 1 in
        if mem 1 = None then None
        else do {
          als \<leftarrow> those (map (\<lambda>(i, sz).
            (case mem (2 + i) of None \<Rightarrow> None
             | Some f \<Rightarrow> Some \<lparr>level = i, map_size = sz, lmap = map f [0..<unat sz]\<rparr>))
            (zip [0..<n] (level_sizes n nr)));
          Some (axmap_reset \<lparr>nr_levels = n, levels = als, nr_bits = nr\<rparr>)
        })"

text \<open>
  \<^verbatim>\<open>axmap_handler\<close>: the loop over the levels \<open>is\<close>, from level 0 upwards. The callback returns
  its boolean result, the updated level and the updated data.
\<close>

fun axmap_handler ::
  "(axmap_level \<Rightarrow> u64 \<Rightarrow> nat \<Rightarrow> 'd \<Rightarrow> (bool \<times> axmap_level \<times> 'd) option) \<Rightarrow>
   nat list \<Rightarrow> axmap \<Rightarrow> u64 \<Rightarrow> 'd \<Rightarrow> (bool \<times> axmap \<times> 'd) option" where
  "axmap_handler func [] ax index data = Some (False, ax, data)"
| "axmap_handler func (i # is) ax index data = do {
     al \<leftarrow> rd (levels ax) i;
     (r, al', data') \<leftarrow> func al (drop_bit UNIT_SHIFT index) (unat (index AND BLOCKS_PER_UNIT_MASK)) data;
     (let ax' = ax\<lparr>levels := (levels ax)[i := al']\<rparr> in
      if r then Some (True, ax', data')
      else axmap_handler func is ax' (if index \<noteq> 0 then drop_bit UNIT_SHIFT index else index) data')
   }"

text \<open>\<^verbatim>\<open>bit_nr >> (UNIT_SHIFT * i)\<close> is undefined when the shift count reaches 64.\<close>

definition shr64 :: "u64 \<Rightarrow> nat \<Rightarrow> u64 option" where
  "shr64 w n = (if n < 64 then Some (drop_bit n w) else None)"

fun axmap_handler_topdown ::
  "(axmap_level \<Rightarrow> u64 \<Rightarrow> nat \<Rightarrow> bool option) \<Rightarrow> nat list \<Rightarrow> axmap \<Rightarrow> u64 \<Rightarrow> bool option" where
  "axmap_handler_topdown func [] ax bit_nr = Some False"
| "axmap_handler_topdown func (i # is) ax bit_nr = do {
     index \<leftarrow> shr64 bit_nr (UNIT_SHIFT * i);
     al \<leftarrow> rd (levels ax) i;
     r \<leftarrow> func al (drop_bit UNIT_SHIFT index) (unat (index AND BLOCKS_PER_UNIT_MASK));
     (if r then Some True else axmap_handler_topdown func is ax bit_nr)
   }"

record axmap_set_data =
  data_nr_bits :: nat
  set_bits :: nat

definition axmap_set_fn ::
  "axmap_level \<Rightarrow> u64 \<Rightarrow> nat \<Rightarrow> axmap_set_data \<Rightarrow> (bool \<times> axmap_level \<times> axmap_set_data) option" where
  "axmap_set_fn al offset bitno data = do {
     let nr = min (data_nr_bits data) (BLOCKS_PER_UNIT - bitno);
     bm \<leftarrow> rd bit_masks nr;
     let mask = push_bit bitno bm;
     w \<leftarrow> rd (lmap al) (unat offset);
     let overlap = w AND mask;
     if overlap = mask then Some (True, al, data\<lparr>set_bits := 0\<rparr>)
     else if overlap \<noteq> 0 \<and> ffz (NOT overlap) - bitno = 0 then Some (True, al, data)
     else do {
       let nr = (if overlap \<noteq> 0 then ffz (NOT overlap) - bitno else nr);
       bm \<leftarrow> rd bit_masks nr;
       let mask = push_bit bitno bm;
       c_assert (mask \<noteq> 0);
       c_assert (w AND mask = 0);
       let w' = w OR mask;
       let al' = al\<lparr>lmap := (lmap al)[unat offset := w']\<rparr>;
       let data = (if level al = 0 then data\<lparr>set_bits := nr\<rparr> else data);
       Some (w' \<noteq> - 1, al', data\<lparr>data_nr_bits := 1\<rparr>)
     }
   }"

text \<open>
  \<^verbatim>\<open>__axmap_set\<close>: the local copy of \<^verbatim>\<open>nr_bits\<close> is clipped to the end of the map, but only the
  assertion reads the clipped value; the handler gets the unclipped \<^verbatim>\<open>data\<close>.
\<close>

definition axmap_set_data_run :: "axmap \<Rightarrow> u64 \<Rightarrow> axmap_set_data \<Rightarrow> (axmap \<times> axmap_set_data) option" where
  "axmap_set_data_run ax bit_nr data =
     (if bit_nr > nr_bits ax then Some (ax, data)
      else do {
        let nr = (if bit_nr + of_nat (data_nr_bits data) > nr_bits ax
                  then unat (ucast (nr_bits ax - bit_nr) :: u32) else data_nr_bits data);
        c_assert (nr \<le> BLOCKS_PER_UNIT);
        (r, ax', data') \<leftarrow> axmap_handler axmap_set_fn [0..<nr_levels ax] ax bit_nr data;
        Some (ax', data')
      })"

definition axmap_set :: "axmap \<Rightarrow> u64 \<Rightarrow> axmap option" where
  "axmap_set ax bit_nr = do {
     (ax', data') \<leftarrow> axmap_set_data_run ax bit_nr \<lparr>data_nr_bits = 1, set_bits = 0\<rparr>;
     Some ax'
   }"

lemma unit_rest_pos: "0 < BLOCKS_PER_UNIT - unat (b AND BLOCKS_PER_UNIT_MASK)"
  using unat_and_mask [of b 6] by (simp add: BLOCKS_PER_UNIT_def BLOCKS_PER_UNIT_MASK_def mask_eq_exp_minus_1)

text \<open>
  The \<^verbatim>\<open>do ... while\<close> loop of \<^verbatim>\<open>axmap_set_nr\<close>: \<open>acc\<close> is the sum in \<^verbatim>\<open>set_bits\<close>. An iteration after
  which the loop goes on has set at least one bit, so the remaining count gets smaller.
\<close>

function axmap_set_nr_loop :: "axmap \<Rightarrow> u64 \<Rightarrow> nat \<Rightarrow> nat \<Rightarrow> (axmap \<times> nat) option" where
  "axmap_set_nr_loop ax bit_nr nr acc = do {
     let max_bits = BLOCKS_PER_UNIT - unat (bit_nr AND BLOCKS_PER_UNIT_MASK);
     let this_set = (if nr > max_bits then max_bits else nr);
     (ax', data) \<leftarrow> axmap_set_data_run ax bit_nr \<lparr>data_nr_bits = this_set, set_bits = 0\<rparr>;
     let acc = acc + set_bits data;
     if set_bits data \<noteq> this_set then Some (ax', acc)
     else if nr - set_bits data = 0 then Some (ax', acc)
     else axmap_set_nr_loop ax' (bit_nr + of_nat (set_bits data)) (nr - set_bits data) acc
   }"
  by pat_completeness auto
termination
  by (relation "measure (\<lambda>(ax, bit_nr, nr, acc). nr)")
    (use unit_rest_pos in \<open>auto split: if_splits\<close>)

declare axmap_set_nr_loop.simps [simp del]

definition axmap_set_nr :: "axmap \<Rightarrow> u64 \<Rightarrow> u32 \<Rightarrow> (axmap \<times> nat) option" where
  "axmap_set_nr ax bit_nr nr = axmap_set_nr_loop ax bit_nr (unat nr) 0"

definition axmap_isset_fn :: "axmap_level \<Rightarrow> u64 \<Rightarrow> nat \<Rightarrow> bool option" where
  "axmap_isset_fn al offset bitno = do {
     w \<leftarrow> rd (lmap al) (unat offset);
     Some (w AND push_bit bitno 1 \<noteq> 0)
   }"

definition axmap_isset :: "axmap \<Rightarrow> u64 \<Rightarrow> bool option" where
  "axmap_isset ax bit_nr =
     (if bit_nr \<le> nr_bits ax
      then axmap_handler_topdown axmap_isset_fn (rev [0..<nr_levels ax]) ax bit_nr
      else Some False)"

text \<open>
  The search of one level in \<^verbatim>\<open>axmap_find_first_free\<close>: the first word from \<^verbatim>\<open>bit\<close> on, then the
  following words. \<open>Some None\<close> is the early \<^verbatim>\<open>return -1ULL\<close>.
\<close>

function axmap_scan :: "axmap_level \<Rightarrow> nat \<Rightarrow> (nat \<times> u64) option option" where
  "axmap_scan al offset =
     (if offset < unat (map_size al) then do {
        w \<leftarrow> rd (lmap al) offset;
        let temp = NOT w;
        if temp \<noteq> 0 then Some (Some (offset, temp)) else axmap_scan al (Suc offset)
      } else Some None)"
  by pat_completeness auto
termination
  by (relation "measure (\<lambda>(al, offset). unat (map_size al) - offset)") auto

declare axmap_scan.simps [simp del]

definition axmap_search_level :: "axmap_level \<Rightarrow> u64 \<Rightarrow> u64 option option" where
  "axmap_search_level al index = do {
     let offset = unat (drop_bit UNIT_SHIFT index);
     let bitno = unat (index AND BLOCKS_PER_UNIT_MASK);
     if offset \<ge> unat (map_size al) then Some None
     else do {
       bm \<leftarrow> rd bit_masks bitno;
       w \<leftarrow> rd (lmap al) offset;
       let temp = NOT bm AND NOT w;
       found \<leftarrow> (if temp \<noteq> 0 then Some (Some (offset, temp)) else axmap_scan al (Suc offset));
       Some (case found of None \<Rightarrow> None
             | Some (offset, temp) \<Rightarrow>
                 Some (push_bit UNIT_SHIFT (of_nat offset) + of_nat (ffz (NOT temp))))
     }
   }"

fun axmap_find_first_free_loop :: "nat list \<Rightarrow> axmap \<Rightarrow> u64 \<Rightarrow> u64 \<Rightarrow> u64 option" where
  "axmap_find_first_free_loop [] ax bit_nr index =
     Some (if index \<ge> nr_bits ax then u64_max else index)"
| "axmap_find_first_free_loop (i # is) ax bit_nr index = do {
     al \<leftarrow> rd (levels ax) i;
     let index = push_bit UNIT_SHIFT index;
     base_index \<leftarrow> shr64 bit_nr (UNIT_SHIFT * i);
     let index = (if index < base_index then base_index else index);
     r \<leftarrow> axmap_search_level al index;
     (case r of None \<Rightarrow> Some u64_max
      | Some index \<Rightarrow> axmap_find_first_free_loop is ax bit_nr index)
   }"

definition axmap_find_first_free :: "axmap \<Rightarrow> u64 \<Rightarrow> u64 option" where
  "axmap_find_first_free ax bit_nr = axmap_find_first_free_loop (rev [0..<nr_levels ax]) ax bit_nr 0"

definition axmap_next_free :: "axmap \<Rightarrow> u64 \<Rightarrow> u64 option" where
  "axmap_next_free ax bit_nr =
     (if bit_nr \<ge> nr_bits ax then Some u64_max
      else do {
        let next_bit = bit_nr + 1;
        let next_bit = (if next_bit = nr_bits ax then 0 else next_bit);
        let offset = drop_bit UNIT_SHIFT next_bit;
        let bitno = unat (next_bit AND BLOCKS_PER_UNIT_MASK);
        bm \<leftarrow> rd bit_masks bitno;
        al \<leftarrow> rd (levels ax) 0;
        w \<leftarrow> rd (lmap al) (unat offset);
        let temp = NOT bm AND NOT w;
        ret \<leftarrow> (if temp \<noteq> 0
                then let ret = push_bit UNIT_SHIFT offset + of_nat (ffz (NOT temp))
                     in Some (if ret \<ge> nr_bits ax then u64_max else ret)
                else axmap_find_first_free ax next_bit);
        if ret = u64_max \<and> next_bit \<noteq> 0 then axmap_find_first_free ax 0 else Some ret
      })"

end
