(* ===== verification/Axmap_Refine.thy ===== *)
theory Axmap_Refine
  imports Axmap
begin

text \<open>
  The axmap refines a finite set: invariant, abstraction function and the refinement lemmas
  for \<^verbatim>\<open>axmap_isset\<close>, \<^verbatim>\<open>axmap_set\<close> and \<^verbatim>\<open>axmap_set_nr\<close>.
\<close>

section \<open>Index arithmetic\<close>

lemmas unit_defs = UNIT_SHIFT_def BLOCKS_PER_UNIT_def BLOCKS_PER_UNIT_MASK_def

lemma unat_unit_div [simp]: "unat (drop_bit UNIT_SHIFT w) = unat w div 64" for w :: u64
  by (simp add: unit_defs unat_drop_bit)

lemma unat_unit_mod [simp]: "unat (w AND BLOCKS_PER_UNIT_MASK) = unat w mod 64"
  using unat_and_mask [of w 6] by (simp add: unit_defs mask_eq_exp_minus_1)

lemma bit_masks_eq: "bit_masks = map mask [0..<65]"
  by (simp add: bit_masks_def upt_rec mask_eq_exp_minus_1)

lemma rd_bit_masks [simp]: "n \<le> 64 \<Longrightarrow> rd bit_masks n = Some (mask n)"
  by (simp add: rd_def bit_masks_eq del: upt_Suc)

lemma shr64_Some [simp]: "n < 64 \<Longrightarrow> shr64 w n = Some (drop_bit n w)"
  by (simp add: shr64_def)

lemma unat_div_64_pow: "i < 10 \<Longrightarrow> unat (drop_bit (UNIT_SHIFT * i) w) = unat w div 64 ^ i" for w :: u64
  by (simp add: unit_defs unat_drop_bit power_mult)

lemma div_64_Suc: "(b :: nat) div 64 ^ Suc i = b div 64 ^ i div 64"
  by (metis div_mult2_eq mult.commute power_Suc)

lemma bit_push_mask: "bit (push_bit p (mask n) :: u64) j \<longleftrightarrow> p \<le> j \<and> j < p + n \<and> j < 64"
  by (auto simp: bit_simps)

section \<open>Abstraction and invariant\<close>

text \<open>\<open>bm_bit m j\<close>: bit \<open>j\<close> of the bitmap \<open>m\<close>, a list of words.\<close>

definition bm_bit :: "u64 list \<Rightarrow> nat \<Rightarrow> bool" where
  "bm_bit m j \<longleftrightarrow> j div 64 < length m \<and> bit (m ! (j div 64)) (j mod 64)"

definition bm_free :: "u64 list \<Rightarrow> nat \<Rightarrow> bool" where
  "bm_free m j \<longleftrightarrow> j div 64 < length m \<and> \<not> bit (m ! (j div 64)) (j mod 64)"

definition lmaps :: "axmap \<Rightarrow> u64 list list" where
  "lmaps ax = map lmap (levels ax)"

text \<open>The set a map stands for.\<close>

definition ax_set :: "axmap \<Rightarrow> nat set" where
  "ax_set ax = {j. bm_bit (lmaps ax ! 0) j}"

text \<open>Consecutive levels agree: a bit is set iff the word below it is full.\<close>

definition linked :: "u64 list \<Rightarrow> u64 list \<Rightarrow> nat \<Rightarrow> bool" where
  "linked lo hi w \<longleftrightarrow> (bm_bit hi w \<longleftrightarrow> lo ! w = - 1)"

definition shape :: "axmap \<Rightarrow> bool" where
  "shape ax \<longleftrightarrow> nr_levels ax = length (levels ax) \<and> 1 \<le> nr_levels ax \<and> nr_levels ax \<le> 10 \<and>
     (\<forall>i < nr_levels ax. level (levels ax ! i) = i \<and>
        unat (map_size (levels ax ! i)) = length (lmaps ax ! i)) \<and>
     length (lmaps ax ! 0) = (unat (nr_bits ax) + 63) div 64 \<and>
     64 * length (lmaps ax ! 0) + 4096 \<le> 2 ^ 64 \<and>
     (\<forall>i. Suc i < nr_levels ax \<longrightarrow> length (lmaps ax ! Suc i) = (length (lmaps ax ! i) + 63) div 64)"

definition ax_inv :: "axmap \<Rightarrow> bool" where
  "ax_inv ax \<longleftrightarrow> shape ax \<and>
     (\<forall>i w. Suc i < nr_levels ax \<and> w < length (lmaps ax ! i) \<longrightarrow>
        linked (lmaps ax ! i) (lmaps ax ! Suc i) w)"

lemma length_lmaps [simp]: "length (lmaps ax) = length (levels ax)"
  by (simp add: lmaps_def)

lemma lmaps_nth: "i < length (levels ax) \<Longrightarrow> lmaps ax ! i = lmap (levels ax ! i)"
  by (simp add: lmaps_def)

lemma bm_free_iff: "bm_free m j \<longleftrightarrow> j < 64 * length m \<and> \<not> bm_bit m j"
  unfolding bm_free_def bm_bit_def by (auto simp: less_mult_imp_div_less mult.commute div_less_iff_less_mult)

lemma bm_bit_bound: "bm_bit m j \<Longrightarrow> j < 64 * length m"
  unfolding bm_bit_def by (metis div_less_iff_less_mult mult.commute zero_less_numeral)

lemma div_64_less: "j < 64 * n \<longleftrightarrow> j div 64 < n" for j n :: nat
  by (metis div_less_iff_less_mult mult.commute zero_less_numeral)

lemma full_word_iff: "w < length m \<Longrightarrow> m ! w = - 1 \<longleftrightarrow> (\<forall>j. j div 64 = w \<longrightarrow> bm_bit m j)" for m :: "u64 list"
proof
  assume "w < length m" "m ! w = - 1"
  then show "\<forall>j. j div 64 = w \<longrightarrow> bm_bit m j" by (auto simp: bm_bit_def)
next
  assume w: "w < length m" and all: "\<forall>j. j div 64 = w \<longrightarrow> bm_bit m j"
  have "bit (m ! w) n" if "n < 64" for n
    using all [THEN spec, of "64 * w + n"] that by (simp add: bm_bit_def)
  then show "m ! w = - 1" by (simp add: word_eq_minus_one_iff)
qed

lemma shapeD:
  assumes "shape ax"
  shows "nr_levels ax = length (levels ax)" "0 < nr_levels ax" "nr_levels ax \<le> 10"
    "length (lmaps ax ! 0) = (unat (nr_bits ax) + 63) div 64"
    "64 * length (lmaps ax ! 0) + 4096 \<le> 2 ^ 64"
    "i < nr_levels ax \<Longrightarrow> level (levels ax ! i) = i"
    "i < nr_levels ax \<Longrightarrow> unat (map_size (levels ax ! i)) = length (lmaps ax ! i)"
    "Suc i < nr_levels ax \<Longrightarrow> length (lmaps ax ! Suc i) = (length (lmaps ax ! i) + 63) div 64"
  using assms unfolding shape_def by (blast intro: order.strict_trans2 [OF zero_less_one])+

lemma below_nr_bits: "shape ax \<Longrightarrow> b < unat (nr_bits ax) \<Longrightarrow> b div 64 < length (lmaps ax ! 0)"
  by (simp add: shapeD(4))

lemma level_length:
  assumes "shape ax" and "i < nr_levels ax" and "b div 64 < length (lmaps ax ! 0)"
  shows "b div 64 ^ i div 64 < length (lmaps ax ! i)"
  using assms(2)
proof (induction i)
  case 0
  then show ?case using assms(3) by simp
next
  case (Suc i)
  then show ?case using shapeD(8) [OF assms(1) Suc.prems] by (simp only: div_64_Suc) linarith
qed

text \<open>In a map that keeps the invariant, a set bit of level \<open>i\<close> covers \<open>64 ^ i\<close> members.\<close>

lemma upper_bit_full:
  assumes "ax_inv ax" and "i < nr_levels ax" and "bm_bit (lmaps ax ! i) (b div 64 ^ i)"
    and "b div 64 < length (lmaps ax ! 0)"
  shows "b \<in> ax_set ax"
  using assms(2,3)
proof (induction i)
  case 0
  then show ?case by (simp add: ax_set_def)
next
  case (Suc i)
  have len: "length (lmaps ax ! i) > b div 64 ^ i div 64"
    using level_length [OF _ _ assms(4)] assms(1) Suc.prems(1) by (simp add: ax_inv_def)
  then have "linked (lmaps ax ! i) (lmaps ax ! Suc i) (b div 64 ^ i div 64)"
    using assms(1) Suc.prems(1) by (simp add: ax_inv_def)
  then have "lmaps ax ! i ! (b div 64 ^ i div 64) = - 1"
    using Suc.prems(2) by (simp only: linked_def div_64_Suc)
  then have "bm_bit (lmaps ax ! i) (b div 64 ^ i)"
    using len by (simp add: bm_bit_def)
  then show ?case using Suc by simp
qed

section \<open>Membership\<close>

lemma topdown_isset:
  assumes inv: "ax_inv ax" and b: "unat b div 64 < length (lmaps ax ! 0)" and "n \<le> nr_levels ax"
  shows "axmap_handler_topdown axmap_isset_fn (rev [0..<n]) ax b =
           Some (\<exists>i < n. bm_bit (lmaps ax ! i) (unat b div 64 ^ i))"
  using assms(3)
proof (induction n)
  case 0
  then show ?case by simp
next
  case (Suc n)
  note sh = shapeD [of ax]
  from inv have s: "shape ax" by (simp add: ax_inv_def)
  have n: "n < length (levels ax)" "n < 10" using Suc.prems sh(1,3) [OF s] by simp_all
  have len: "unat b div 64 ^ n div 64 < length (lmap (levels ax ! n))"
    using level_length [OF s _ b, of n] Suc.prems lmaps_nth [OF n(1)] by simp
  have bit: "lmap (levels ax ! n) ! (unat b div 64 ^ n div 64) AND push_bit (unat b div 64 ^ n mod 64) 1 \<noteq> 0
      \<longleftrightarrow> bm_bit (lmaps ax ! n) (unat b div 64 ^ n)"
    using len by (simp add: bm_bit_def lmaps_nth [OF n(1)] push_bit_of_1 and_exp_eq_0_iff_not_bit)
  have "UNIT_SHIFT * n < 64" using n by (simp add: unit_defs)
  then show ?case
    using Suc n len bit
    by (auto simp: axmap_isset_fn_def unat_div_64_pow less_Suc_eq)
qed

lemma axmap_isset_refines:
  assumes inv: "ax_inv ax" and b: "unat b < unat (nr_bits ax)"
  shows "axmap_isset ax b = Some (unat b \<in> ax_set ax)"
proof -
  from inv have s: "shape ax" by (simp add: ax_inv_def)
  note len = below_nr_bits [OF s b]
  have "(\<exists>i < nr_levels ax. bm_bit (lmaps ax ! i) (unat b div 64 ^ i)) \<longleftrightarrow> unat b \<in> ax_set ax"
    using upper_bit_full [OF inv _ _ len] shapeD(2) [OF s]
    by (auto simp: ax_set_def intro: exI [of _ 0])
  moreover have "b \<le> nr_bits ax" using b by (simp add: word_le_nat_alt)
  ultimately show ?thesis
    by (simp add: axmap_isset_def topdown_isset [OF inv len])
qed


section \<open>Setting a run of bits\<close>

text \<open>\<open>run w p n\<close>: how many of the \<open>n\<close> bits of \<open>w\<close> from \<open>p\<close> on are free before the first set one.\<close>

fun run :: "u64 \<Rightarrow> nat \<Rightarrow> nat \<Rightarrow> nat" where
  "run w p 0 = 0"
| "run w p (Suc n) = (if p < 64 \<and> \<not> bit w p then Suc (run w (Suc p) n) else 0)"

lemma run_props:
  "run w p n \<le> n" "p \<le> 64 \<Longrightarrow> p + run w p n \<le> 64"
  "p \<le> j \<Longrightarrow> j < p + run w p n \<Longrightarrow> \<not> bit w j"
  "run w p n < n \<Longrightarrow> p + run w p n < 64 \<Longrightarrow> bit w (p + run w p n)"
proof (induction w p n rule: run.induct)
  case (2 w p n)
  {
    case 1 then show ?case using "2.IH"(1) by auto
  next
    case 2 then show ?case using "2.IH"(2) by auto
  next
    case 3
    then show ?case using "2.IH"(3) by (cases "j = p") (auto split: if_splits)
  next
    case 4 then show ?case using "2.IH"(4) by (auto split: if_splits)
  }
qed auto

lemma run_overlap:
  assumes p: "p < 64" and w: "overlap = w AND push_bit p (mask (min n (64 - p)))"
  shows "overlap = 0 \<Longrightarrow> run w p n = min n (64 - p)"
    and "overlap \<noteq> 0 \<Longrightarrow> ffz (NOT overlap) = p + run w p n"
proof -
  note rp = run_props [where w = w and p = p and n = n]
  have bits: "bit overlap j \<longleftrightarrow> bit w j \<and> p \<le> j \<and> j < p + min n (64 - p)" for j
    using p by (auto simp: w bit_push_mask bit_and_iff dest: bit_imp_le_length)
  have free: "\<not> bit overlap j" if "j < p + run w p n" for j
    using rp(3) [of j] that bits by auto
  show "run w p n = min n (64 - p)" if "overlap = 0"
  proof (rule ccontr)
    assume "run w p n \<noteq> min n (64 - p)"
    then have "run w p n < n" "p + run w p n < 64" using rp(1,2) p by linarith+
    then have "bit overlap (p + run w p n)" using rp(4) bits by auto
    with that show False by simp
  qed
  show "ffz (NOT overlap) = p + run w p n" if "overlap \<noteq> 0"
  proof -
    obtain j where "bit overlap j" using \<open>overlap \<noteq> 0\<close> by (auto simp: word_eq_zero_iff_bits)
    then have "p + run w p n \<le> j" "j < p + min n (64 - p)"
      using free [of j] bits [of j] not_less by blast+
    then have "run w p n < n" "p + run w p n < 64" using p by linarith+
    then have "bit overlap (p + run w p n)" using rp(4) bits by auto
    with free have "is_lsb overlap (p + run w p n)" by (simp add: is_lsb_def)
    with that show ?thesis
      using ffs64_is_lsb [OF that] is_lsb_unique by (simp add: ffz_def) blast
  qed
qed

lemma axmap_set_fn_run:
  assumes off: "unat off < length (lmap al)" and p: "p < 64" and n: "0 < data_nr_bits d"
    and k: "k = run (lmap al ! unat off) p (data_nr_bits d)"
    and w': "w' = (lmap al ! unat off) OR push_bit p (mask k)"
  shows "k = 0 \<Longrightarrow> set_bits d = 0 \<Longrightarrow> axmap_set_fn al off p d = Some (True, al, d)"
    and "0 < k \<Longrightarrow> axmap_set_fn al off p d =
       Some (w' \<noteq> - 1, al\<lparr>lmap := (lmap al)[unat off := w']\<rparr>,
         (if level al = 0 then d\<lparr>set_bits := k\<rparr> else d)\<lparr>data_nr_bits := 1\<rparr>)"
proof -
  let ?w = "lmap al ! unat off" and ?n = "data_nr_bits d"
  let ?nr = "min ?n (64 - p)"
  let ?ov = "?w AND push_bit p (mask ?nr)"
  note ov = run_overlap [OF p, of ?ov ?w ?n, OF refl, folded k]
  have nr: "?nr \<le> 64" "0 < ?nr" using n p by auto
  have full: "k = 0" if "?ov = push_bit p (mask ?nr)"
  proof -
    have "bit ?ov p" using p nr by (simp add: that bit_push_mask del: min_less_iff_conj)
    then have "bit ?w p" by (simp add: bit_and_iff)
    then show ?thesis using n by (cases ?n) (auto simp: k)
  qed
  have mask0: "push_bit p (mask ?nr) \<noteq> (0 :: u64)"
  proof -
    have "bit (push_bit p (mask ?nr) :: u64) p" using p nr by (simp add: bit_push_mask)
    then show ?thesis by (metis bit_0_eq bot_apply bot_bool_def)
  qed
  have neq0: "\<not> (?ov \<noteq> 0 \<and> ffz (NOT ?ov) - p = 0)" if "0 < k" using ov(2) that by auto
  have unf: "axmap_set_fn al off p d = (if ?ov = push_bit p (mask ?nr) then Some (True, al, d\<lparr>set_bits := 0\<rparr>)
     else if ?ov \<noteq> 0 \<and> ffz (NOT ?ov) - p = 0 then Some (True, al, d)
     else do {
       let nr = (if ?ov \<noteq> 0 then ffz (NOT ?ov) - p else ?nr);
       bm \<leftarrow> rd bit_masks nr;
       let mask = push_bit p bm;
       c_assert (mask \<noteq> 0);
       c_assert (?w AND mask = 0);
       let w' = ?w OR mask;
       let al' = al\<lparr>lmap := (lmap al)[unat off := w']\<rparr>;
       let data = (if level al = 0 then d\<lparr>set_bits := nr\<rparr> else d);
       Some (w' \<noteq> - 1, al', data\<lparr>data_nr_bits := 1\<rparr>)
     })"
    unfolding axmap_set_fn_def BLOCKS_PER_UNIT_def
    using off rd_bit_masks [OF nr(1)] by (simp only: Let_def rd_Some bind.bind_lunit)
  show "axmap_set_fn al off p d = Some (True, al, d)" if "k = 0" "set_bits d = 0"
  proof (cases "?ov = push_bit p (mask ?nr)")
    case True
    with that show ?thesis by (simp only: unf if_True) simp
  next
    case False
    have "?ov \<noteq> 0" using ov(1) nr that by auto
    moreover from this have "ffz (NOT ?ov) - p = 0" using ov(2) that by simp
    ultimately show ?thesis using False by (simp only: unf if_False if_True) simp
  qed
  show "axmap_set_fn al off p d = Some (w' \<noteq> - 1, al\<lparr>lmap := (lmap al)[unat off := w']\<rparr>,
         (if level al = 0 then d\<lparr>set_bits := k\<rparr> else d)\<lparr>data_nr_bits := 1\<rparr>)" if "0 < k"
  proof -
    have k64: "k \<le> 64" using run_props(2) [where w = ?w and p = p and n = ?n] p k by simp
    have "bit (push_bit p (mask k) :: u64) p" using p that by (simp add: bit_push_mask)
    then have m0: "push_bit p (mask k) \<noteq> (0 :: u64)" by (metis bit_0_eq bot_apply bot_bool_def)
    have dis: "?w AND push_bit p (mask k) = 0"
      using run_props(3) [where w = ?w and p = p and n = ?n] k
      by (intro bit_word_eqI) (auto simp: bit_and_iff bit_push_mask)
    have neq: "?ov \<noteq> push_bit p (mask ?nr)" using full that by auto
    have kk: "(if ?ov \<noteq> 0 then ffz (NOT ?ov) - p else ?nr) = k" using ov by auto
    show ?thesis
      by (simp only: unf neq neq0 [OF that] kk if_False Let_def rd_bit_masks [OF k64]
          bind.bind_lunit c_assert_True [OF m0] c_assert_True [OF dis] w' [symmetric])
  qed
qed


subsection \<open>Propagation to the upper levels\<close>

definition upd_word :: "axmap \<Rightarrow> nat \<Rightarrow> nat \<Rightarrow> u64 \<Rightarrow> axmap" where
  "upd_word ax i off w = ax\<lparr>levels := (levels ax)
     [i := (levels ax ! i)\<lparr>lmap := (lmap (levels ax ! i))[off := w]\<rparr>]\<rparr>"

lemma upd_word_fields [simp]:
  "nr_levels (upd_word ax i off w) = nr_levels ax" "nr_bits (upd_word ax i off w) = nr_bits ax"
  "length (levels (upd_word ax i off w)) = length (levels ax)"
  by (simp_all add: upd_word_def)

lemma lmaps_upd_word:
  "i < length (levels ax) \<Longrightarrow> lmaps (upd_word ax i off w) = (lmaps ax)[i := (lmaps ax ! i)[off := w]]"
  by (simp add: lmaps_def upd_word_def map_update)

lemma lmaps_upd_word_nth:
  "i < length (levels ax) \<Longrightarrow> j < length (levels ax) \<Longrightarrow>
     lmaps (upd_word ax i off w) ! j = (if j = i then (lmaps ax ! i)[off := w] else lmaps ax ! j)"
  by (simp add: lmaps_upd_word)

lemma shape_upd_word: "shape ax \<Longrightarrow> i < nr_levels ax \<Longrightarrow> shape (upd_word ax i off w)"
  unfolding shape_def
  by (auto simp: lmaps_upd_word nth_list_update) (auto simp: upd_word_def nth_list_update)

lemma bm_bit_or:
  assumes "off < length m" "p + k \<le> 64"
  shows "bm_bit (m[off := m ! off OR push_bit p (mask k)]) j \<longleftrightarrow>
           bm_bit m j \<or> (64 * off + p \<le> j \<and> j < 64 * off + p + k)"
proof (cases "j div 64 = off")
  case True
  then have "j = 64 * off + j mod 64" by (metis mult_div_mod_eq)
  then have "64 * off + p \<le> j \<and> j < 64 * off + p + k \<longleftrightarrow> p \<le> j mod 64 \<and> j mod 64 < p + k"
    by linarith
  with True assms show ?thesis by (auto simp: bm_bit_def bit_or_iff bit_push_mask)
next
  case False
  then have "\<not> (64 * off + p \<le> j \<and> j < 64 * off + p + k)" using assms(2) by auto
  with False assms show ?thesis by (auto simp: bm_bit_def)
qed

text \<open>
  \<open>pend ax i x\<close>: the state of the climb before level \<open>i\<close>: the word \<open>x\<close> of level \<open>i - 1\<close> has just
  become full and its bit of level \<open>i\<close> is not set yet; every other link holds.
\<close>

definition pend :: "axmap \<Rightarrow> nat \<Rightarrow> nat \<Rightarrow> bool" where
  "pend ax i x \<longleftrightarrow> shape ax \<and> 0 < i \<and> i \<le> nr_levels ax \<and>
     x < length (lmaps ax ! (i - 1)) \<and> lmaps ax ! (i - 1) ! x = - 1 \<and>
     (i < nr_levels ax \<longrightarrow> \<not> bm_bit (lmaps ax ! i) x) \<and>
     (\<forall>j w. Suc j < nr_levels ax \<and> w < length (lmaps ax ! j) \<and> (j, w) \<noteq> (i - 1, x) \<longrightarrow>
        linked (lmaps ax ! j) (lmaps ax ! Suc j) w)"

lemma pend_top: "pend ax (nr_levels ax) x \<Longrightarrow> ax_inv ax"
  unfolding pend_def ax_inv_def
  by (metis Pair_inject Suc_pred diff_Suc_1 less_irrefl)

text \<open>One step of the climb: level \<open>i\<close> gets bit \<open>x\<close>.\<close>

lemma pend_step:
  assumes P: "pend ax i x" and i: "i < nr_levels ax"
    and w: "w = lmaps ax ! i ! (x div 64)"
    and w': "w' = w OR push_bit (x mod 64) (mask 1)"
  shows "x div 64 < length (lmaps ax ! i)" "run w (x mod 64) 1 = 1"
    "w' \<noteq> - 1 \<Longrightarrow> ax_inv (upd_word ax i (x div 64) w')"
    "w' = - 1 \<Longrightarrow> pend (upd_word ax i (x div 64) w') (Suc i) (x div 64)"
proof -
  let ?ax = "upd_word ax i (x div 64) w'"
  from P have s: "shape ax" and i0: "0 < i" and x: "x < length (lmaps ax ! (i - 1))"
    and full: "lmaps ax ! (i - 1) ! x = - 1" and clr: "\<not> bm_bit (lmaps ax ! i) x"
    and lk: "\<And>j v. Suc j < nr_levels ax \<Longrightarrow> v < length (lmaps ax ! j) \<Longrightarrow> (j, v) \<noteq> (i - 1, x) \<Longrightarrow>
        linked (lmaps ax ! j) (lmaps ax ! Suc j) v"
    using i unfolding pend_def by auto
  note nl = shapeD(1) [OF s]
  have len: "length (lmaps ax ! i) = (length (lmaps ax ! (i - 1)) + 63) div 64"
    using shapeD(8) [OF s, of "i - 1"] i i0 by simp
  show off: "x div 64 < length (lmaps ax ! i)" using x len by linarith
  have wclr: "\<not> bit w (x mod 64)" using clr off by (simp add: bm_bit_def w)
  then show "run w (x mod 64) 1 = 1" by simp
  have wfull: "w \<noteq> - 1"
  proof
    assume "w = - 1"
    then have "bit w (x mod 64)" by simp
    with wclr show False ..
  qed
  have s': "shape ?ax" using s i by (rule shape_upd_word)
  have maps: "lmaps ?ax ! j = (if j = i then (lmaps ax ! i)[x div 64 := w'] else lmaps ax ! j)"
    if "j < nr_levels ax" for j
    using that i nl by (simp add: lmaps_upd_word_nth)
  have bits: "bm_bit (lmaps ?ax ! i) j \<longleftrightarrow> bm_bit (lmaps ax ! i) j \<or> j = x" for j
  proof -
    have "lmaps ?ax ! i = (lmaps ax ! i)[x div 64 := w']" using maps [OF i] by simp
    moreover have "x mod 64 + 1 \<le> 64" by simp
    moreover have "64 * (x div 64) + x mod 64 \<le> j \<and> j < 64 * (x div 64) + x mod 64 + 1 \<longleftrightarrow> j = x"
      by auto
    ultimately show ?thesis using bm_bit_or [OF off, of "x mod 64" 1 j, folded w, folded w'] by metis
  qed
  have links: "linked (lmaps ?ax ! j) (lmaps ?ax ! Suc j) v"
    if j: "Suc j < nr_levels ax" and v: "v < length (lmaps ?ax ! j)" and ne: "(j, v) \<noteq> (i, x div 64)" for j v
  proof -
    have v': "v < length (lmaps ax ! j)" using v j by (simp add: maps split: if_splits)
    consider "j = i - 1" | "j = i" "v \<noteq> x div 64" | "j \<noteq> i" "Suc j \<noteq> i"
      using ne i0 by fastforce
    then show ?thesis
    proof cases
      case 1
      then have Sj: "Suc j = i" "j \<noteq> i" using i0 by auto
      have eq: "lmaps ?ax ! j = lmaps ax ! j" using Sj j by (simp add: maps)
      show ?thesis
      proof (cases "v = x")
        case True
        have "lmaps ax ! j ! x = - 1" using full 1 by simp
        with True show ?thesis unfolding linked_def eq Sj(1) bits by simp
      next
        case False
        have "linked (lmaps ax ! j) (lmaps ax ! i) v" using lk [OF j v'] False Sj by simp
        with False show ?thesis unfolding linked_def eq Sj(1) bits by simp
      qed
    next
      case 2
      have "(j, v) \<noteq> (i - 1, x)" using 2(1) i0 by auto
      then have "linked (lmaps ax ! i) (lmaps ax ! Suc i) v" using lk [OF j v'] 2(1) by simp
      with 2 j show ?thesis by (simp add: linked_def maps)
    next
      case 3
      then have "(j, v) \<noteq> (i - 1, x)" using i0 by auto
      then have "linked (lmaps ax ! j) (lmaps ax ! Suc j) v" by (rule lk [OF j v'])
      with 3 j show ?thesis by (simp add: linked_def maps)
    qed
  qed
  have up: "\<not> bm_bit (lmaps ax ! Suc i) (x div 64)" if "Suc i < nr_levels ax"
  proof -
    have "(i, x div 64) \<noteq> (i - 1, x)" using i0 by auto
    with lk [OF that off] wfull show ?thesis by (simp add: linked_def w)
  qed
  have this_word: "lmaps ?ax ! i ! (x div 64) = w'" using i off by (simp add: maps)
  show "ax_inv ?ax" if "w' \<noteq> - 1"
    unfolding ax_inv_def
  proof (intro conjI allI impI s')
    fix j v assume jv: "Suc j < nr_levels ?ax \<and> v < length (lmaps ?ax ! j)"
    show "linked (lmaps ?ax ! j) (lmaps ?ax ! Suc j) v"
    proof (cases "(j, v) = (i, x div 64)")
      case True
      with jv up that this_word show ?thesis by (simp add: linked_def maps)
    next
      case False
      with jv show ?thesis by (simp add: links)
    qed
  qed
  show "pend ?ax (Suc i) (x div 64)" if "w' = - 1"
    unfolding pend_def
  proof (intro conjI allI impI s')
    fix j v assume "Suc j < nr_levels ?ax \<and> v < length (lmaps ?ax ! j) \<and> (j, v) \<noteq> (Suc i - 1, x div 64)"
    then show "linked (lmaps ?ax ! j) (lmaps ?ax ! Suc j) v" using links by simp
  qed (use i off up that this_word maps [OF i] maps [of "Suc i"] in simp_all)
qed


lemma handler_step:
  assumes s: "shape ax" and i: "i < nr_levels ax"
    and off: "unat index div 64 < length (lmaps ax ! i)" and n: "0 < data_nr_bits d"
    and w: "w = lmaps ax ! i ! (unat index div 64)"
    and k: "k = run w (unat index mod 64) (data_nr_bits d)"
    and w': "w' = w OR push_bit (unat index mod 64) (mask k)"
    and d': "d' = (if i = 0 then d\<lparr>set_bits := k\<rparr> else d)\<lparr>data_nr_bits := 1\<rparr>"
  shows "k = 0 \<Longrightarrow> set_bits d = 0 \<Longrightarrow>
           axmap_handler axmap_set_fn (i # is) ax index d = Some (True, ax, d)"
    and "0 < k \<Longrightarrow> axmap_handler axmap_set_fn (i # is) ax index d =
           (let ax' = upd_word ax i (unat index div 64) w' in
            if w' \<noteq> - 1 then Some (True, ax', d')
            else axmap_handler axmap_set_fn is ax' (drop_bit UNIT_SHIFT index) d')"
proof -
  have il: "i < length (levels ax)" using i shapeD(1) [OF s] by simp
  note eq = lmaps_nth [OF il]
  have lv: "level (levels ax ! i) = i" using shapeD(6) [OF s i] .
  let ?off = "drop_bit UNIT_SHIFT index"
  have off': "unat ?off < length (lmap (levels ax ! i))" using off by (simp add: eq)
  have k': "k = run (lmap (levels ax ! i) ! unat ?off) (unat index mod 64) (data_nr_bits d)"
    and w2: "w' = (lmap (levels ax ! i) ! unat ?off) OR push_bit (unat index mod 64) (mask k)"
    using k w w' by (simp_all add: eq)
  note fn = axmap_set_fn_run [OF off' _ n k' w2]
  have "(levels ax)[i := levels ax ! i] = levels ax" by simp
  then have id: "ax\<lparr>levels := (levels ax)[i := levels ax ! i]\<rparr> = ax" by (cases ax) simp
  show "axmap_handler axmap_set_fn (i # is) ax index d = Some (True, ax, d)" if "k = 0" "set_bits d = 0"
    using fn(1) that il id by simp
  have sh: "(if index \<noteq> 0 then drop_bit UNIT_SHIFT index else index) = drop_bit UNIT_SHIFT index"
    by simp
  show "axmap_handler axmap_set_fn (i # is) ax index d =
           (let ax' = upd_word ax i (unat index div 64) w' in
            if w' \<noteq> - 1 then Some (True, ax', d')
            else axmap_handler axmap_set_fn is ax' (drop_bit UNIT_SHIFT index) d')" if "0 < k"
    using fn(2) that il lv sh by (auto simp: Let_def upd_word_def d')
qed

lemma handler_climb:
  assumes "pend ax i (unat index)" and "data_nr_bits d = 1" and "n = nr_levels ax"
  shows "\<exists>r ax' d'. axmap_handler axmap_set_fn [i..<n] ax index d = Some (r, ax', d') \<and>
     ax_inv ax' \<and> set_bits d' = set_bits d \<and> nr_bits ax' = nr_bits ax \<and> nr_levels ax' = nr_levels ax \<and>
     (\<forall>j < i. lmaps ax' ! j = lmaps ax ! j)"
  using assms
proof (induction "n - i" arbitrary: i ax index d)
  case 0
  then have "i = n" by (auto simp: pend_def)
  with 0 show ?case using pend_top by auto
next
  case (Suc m)
  then have i: "i < nr_levels ax" by auto
  let ?x = "unat index"
  define w where "w = lmaps ax ! i ! (?x div 64)"
  define w' where "w' = w OR push_bit (?x mod 64) (mask 1)"
  let ?ax = "upd_word ax i (?x div 64) w'"
  from Suc.prems(1) have s: "shape ax" and i0: "0 < i" by (simp_all add: pend_def)
  note st = pend_step [OF Suc.prems(1) i w_def w'_def]
  define d' where "d' = (if i = 0 then d\<lparr>set_bits := 1\<rparr> else d)\<lparr>data_nr_bits := 1\<rparr>"
  have "1 = run w (?x mod 64) (data_nr_bits d)" using st(2) Suc.prems(2) by simp
  from handler_step(2) [OF s i st(1) _ w_def this w'_def d'_def, of "[Suc i..<n]"] Suc.prems(2)
  have hs: "axmap_handler axmap_set_fn [i..<n] ax index d =
      (if w' \<noteq> - 1 then Some (True, ?ax, d')
       else axmap_handler axmap_set_fn [Suc i..<n] ?ax (drop_bit UNIT_SHIFT index) d')"
    using i Suc.prems(3) by (simp add: Let_def upt_conv_Cons)
  have d'2: "set_bits d' = set_bits d" "data_nr_bits d' = 1" using i0 by (simp_all add: d'_def)
  have keep: "\<forall>j < i. lmaps ?ax ! j = lmaps ax ! j"
    using i shapeD(1) [OF s] by (auto simp: lmaps_upd_word_nth)
  show ?case
  proof (cases "w' = - 1")
    case False
    with hs st(3) d'2 keep show ?thesis by auto
  next
    case True
    have "m = n - Suc i" using Suc.hyps(2) by simp
    moreover have "pend ?ax (Suc i) (unat (drop_bit UNIT_SHIFT index))" using st(4) True by simp
    ultimately obtain r ax' d'' where
      "axmap_handler axmap_set_fn [Suc i..<n] ?ax (drop_bit UNIT_SHIFT index) d' = Some (r, ax', d'')"
      "ax_inv ax'" "set_bits d'' = set_bits d'" "nr_bits ax' = nr_bits ax" "nr_levels ax' = nr_levels ax"
      "\<forall>j < Suc i. lmaps ax' ! j = lmaps ?ax ! j"
      using Suc.hyps(1) [of "Suc i" ?ax "drop_bit UNIT_SHIFT index" d'] d'2(2) Suc.prems(3) by auto
    with hs True d'2 keep show ?thesis by auto
  qed
qed


subsection \<open>The whole operation\<close>

lemma level0_update:
  assumes inv: "ax_inv ax" and off: "off < length (lmaps ax ! 0)"
    and w: "w = lmaps ax ! 0 ! off" "w \<noteq> - 1"
  shows "w' \<noteq> - 1 \<Longrightarrow> ax_inv (upd_word ax 0 off w')"
    and "w' = - 1 \<Longrightarrow> pend (upd_word ax 0 off w') 1 off"
proof -
  let ?ax = "upd_word ax 0 off w'"
  from inv have s: "shape ax" by (simp add: ax_inv_def)
  note nl = shapeD(1,2) [OF s]
  have s': "shape ?ax" using s nl by (intro shape_upd_word) auto
  have maps: "lmaps ?ax ! j = (if j = 0 then (lmaps ax ! 0)[off := w'] else lmaps ax ! j)"
    if "j < nr_levels ax" for j
    using that nl by (simp add: lmaps_upd_word_nth)
  have old: "linked (lmaps ax ! j) (lmaps ax ! Suc j) v"
    if "Suc j < nr_levels ax" "v < length (lmaps ax ! j)" for j v
    using inv that by (simp add: ax_inv_def)
  have up: "\<not> bm_bit (lmaps ax ! 1) off" if "1 < nr_levels ax"
    using old [of 0 off] that off w by (simp add: linked_def)
  have links: "linked (lmaps ?ax ! j) (lmaps ?ax ! Suc j) v"
    if "Suc j < nr_levels ax" "v < length (lmaps ?ax ! j)" "(j, v) \<noteq> (0, off)" for j v
    using old [of j v] that by (auto simp: linked_def maps split: if_splits)
  show "ax_inv ?ax" if "w' \<noteq> - 1"
    unfolding ax_inv_def
  proof (intro conjI allI impI s')
    fix j v assume jv: "Suc j < nr_levels ?ax \<and> v < length (lmaps ?ax ! j)"
    show "linked (lmaps ?ax ! j) (lmaps ?ax ! Suc j) v"
    proof (cases "(j, v) = (0, off)")
      case True
      with jv up that off show ?thesis by (simp add: linked_def maps)
    next
      case False
      with jv show ?thesis by (simp add: links)
    qed
  qed
  have m0: "lmaps ?ax ! 0 = (lmaps ax ! 0)[off := w']" using maps [of 0] nl by simp
  have m1: "lmaps ?ax ! 1 = lmaps ax ! 1" if "1 < nr_levels ax" using maps [of 1] that by simp
  show "pend ?ax 1 off" if "w' = - 1"
    unfolding pend_def
  proof (intro conjI allI impI s')
    fix j v assume "Suc j < nr_levels ?ax \<and> v < length (lmaps ?ax ! j) \<and> (j, v) \<noteq> (1 - 1, off)"
    then show "linked (lmaps ?ax ! j) (lmaps ?ax ! Suc j) v" using links by simp
  qed (use nl up that m0 m1 off in \<open>simp_all add: Suc_le_eq\<close>)
qed

lemma ax_set_upd:
  assumes "shape ax" "off < length (lmaps ax ! 0)" "p + k \<le> 64"
  shows "ax_set (upd_word ax 0 off (lmaps ax ! 0 ! off OR push_bit p (mask k))) =
           ax_set ax \<union> {64 * off + p ..< 64 * off + p + k}"
proof -
  have "lmaps (upd_word ax 0 off w) ! 0 = (lmaps ax ! 0)[off := w]" for w
    using shapeD(1,2) [OF assms(1)] lmaps_upd_word_nth [of 0 ax 0 off w] by simp
  then show ?thesis by (simp only: ax_set_def bm_bit_or [OF assms(2,3)]) auto
qed

lemma axmap_set_data_run_spec:
  assumes inv: "ax_inv ax" and b: "unat b < unat (nr_bits ax)" and n: "0 < n" "n \<le> 64 - unat b mod 64"
    and k: "k = run (lmaps ax ! 0 ! (unat b div 64)) (unat b mod 64) n"
  shows "\<exists>ax' d'. axmap_set_data_run ax b \<lparr>data_nr_bits = n, set_bits = 0\<rparr> = Some (ax', d') \<and>
     ax_inv ax' \<and> set_bits d' = k \<and> nr_bits ax' = nr_bits ax \<and>
     ax_set ax' = ax_set ax \<union> {unat b ..< unat b + k}"
proof -
  from inv have s: "shape ax" by (simp add: ax_inv_def)
  let ?off = "unat b div 64" and ?p = "unat b mod 64"
  let ?d = "\<lparr>data_nr_bits = n, set_bits = 0\<rparr>"
  define w where "w = lmaps ax ! 0 ! ?off"
  define w' where "w' = w OR push_bit ?p (mask k)"
  have off: "?off < length (lmaps ax ! 0)" using below_nr_bits [OF s b] .
  have nl: "0 < nr_levels ax" using shapeD(2) [OF s] .
  define d' where "d' = (if (0::nat) = 0 then ?d\<lparr>set_bits := k\<rparr> else ?d)\<lparr>data_nr_bits := 1\<rparr>"
  have k': "k = run w ?p (data_nr_bits ?d)" using k by (simp add: w_def)
  have pos: "0 < data_nr_bits ?d" using n by simp
  note hs = handler_step [OF s nl off pos w_def k' w'_def d'_def, of "[1..<nr_levels ax]"]
  have bnd: "?p + k \<le> 64" using run_props(2) [where w = w and p = ?p and n = n] k' by simp
  have clip: "c_assert ((if nr_bits ax < b + of_nat n then unat (ucast (nr_bits ax - b) :: u32) else n) \<le> 64) = Some ()"
  proof (rule c_assert_True)
    have "unat b + n \<le> 64 * (?off + 1)"
      using n(2) mult_div_mod_eq [of 64 "unat b"] mod_less_divisor [of 64 "unat b", simplified] by arith
    also have "\<dots> \<le> 64 * length (lmaps ax ! 0)" using off by simp
    finally have "unat b + n < 2 ^ 64" using shapeD(5) [OF s] by simp
    then have "unat (b + of_nat n) = unat b + n"
      using n by (simp add: unat_word_ariths unsigned_of_nat take_bit_nat_eq_self)
    then have "unat (nr_bits ax - b) \<le> 64" if "nr_bits ax < b + of_nat n"
      using that b n by (simp add: word_less_nat_alt unat_sub word_le_nat_alt)
    moreover have "unat (ucast v :: u32) \<le> unat v" for v :: u64
      by (simp add: unsigned_ucast_eq take_bit_nat_less_eq_self)
    ultimately show "(if nr_bits ax < b + of_nat n then unat (ucast (nr_bits ax - b) :: u32) else n) \<le> 64"
      using n order_trans by fastforce
  qed
  have unf: "axmap_set_data_run ax b ?d =
      do { (r, ax', d') \<leftarrow> axmap_handler axmap_set_fn [0..<nr_levels ax] ax b ?d; Some (ax', d') }"
  proof -
    have "\<not> nr_bits ax < b" using b by (simp add: word_less_nat_alt)
    then show ?thesis
      by (simp only: axmap_set_data_run_def Let_def BLOCKS_PER_UNIT_def axmap_set_data.select_convs
          if_False clip bind.bind_lunit)
  qed
  have lst: "[0..<nr_levels ax] = 0 # [1..<nr_levels ax]" using nl by (simp add: upt_conv_Cons)
  show ?thesis
  proof (cases "k = 0")
    case True
    then show ?thesis using hs(1) inv by (simp add: unf lst)
  next
    case False
    let ?ax = "upd_word ax 0 ?off w'"
    have wf: "w \<noteq> - 1"
    proof
      assume "w = - 1"
      then have "run w ?p n = 0" by (cases n) simp_all
      with False k' show False by simp
    qed
    note up = level0_update [OF inv off w_def wf, of w']
    have set: "ax_set ?ax = ax_set ax \<union> {unat b ..< unat b + k}"
      using ax_set_upd [OF s off bnd] by (simp add: w'_def w_def)
    have d'2: "set_bits d' = k" "data_nr_bits d' = 1" by (simp_all add: d'_def)
    have hs2: "axmap_handler axmap_set_fn [0..<nr_levels ax] ax b ?d =
        (if w' \<noteq> - 1 then Some (True, ?ax, d')
         else axmap_handler axmap_set_fn [1..<nr_levels ax] ?ax (drop_bit UNIT_SHIFT b) d')"
      using hs(2) False by (simp add: lst Let_def)
    show ?thesis
    proof (cases "w' = - 1")
      case False
      with hs2 up(1) set d'2 show ?thesis by (simp add: unf)
    next
      case True
      then have "pend ?ax 1 (unat (drop_bit UNIT_SHIFT b))" using up(2) by simp
      from handler_climb [OF this d'2(2) refl] obtain r ax' d'' where
        h: "axmap_handler axmap_set_fn [1..<nr_levels ax] ?ax (drop_bit UNIT_SHIFT b) d' = Some (r, ax', d'')"
        "ax_inv ax'" "set_bits d'' = k" "nr_bits ax' = nr_bits ax" "lmaps ax' ! 0 = lmaps ?ax ! 0"
        using d'2 by auto
      then have "ax_set ax' = ax_set ?ax" by (simp add: ax_set_def)
      with h hs2 True set show ?thesis by (simp add: unf)
    qed
  qed
qed


lemma axmap_set_refines:
  assumes inv: "ax_inv ax" and b: "unat b < unat (nr_bits ax)"
  shows "\<exists>ax'. axmap_set ax b = Some ax' \<and> ax_inv ax' \<and> nr_bits ax' = nr_bits ax \<and>
           ax_set ax' = insert (unat b) (ax_set ax)"
proof -
  define k where "k = run (lmaps ax ! 0 ! (unat b div 64)) (unat b mod 64) 1"
  obtain ax' d' where r: "axmap_set_data_run ax b \<lparr>data_nr_bits = 1, set_bits = 0\<rparr> = Some (ax', d')"
    "ax_inv ax'" "nr_bits ax' = nr_bits ax" "ax_set ax' = ax_set ax \<union> {unat b ..< unat b + k}"
    using axmap_set_data_run_spec [OF inv b _ _ k_def] by (auto simp: Suc_le_eq)
  have "unat b \<in> ax_set ax \<or> k = 1"
    using below_nr_bits [OF _ b] inv
    by (auto simp: k_def ax_set_def bm_bit_def ax_inv_def)
  moreover have "k \<le> 1" using run_props(1) k_def by blast
  ultimately have "ax_set ax' = insert (unat b) (ax_set ax)"
    using r(4) by (cases "k = 1") auto
  with r show ?thesis by (simp add: axmap_set_def)
qed

text \<open>\<open>free_run S b n k\<close>: of the \<open>n\<close> numbers from \<open>b\<close> on, exactly the first \<open>k\<close> are free before one in \<open>S\<close>.\<close>

definition free_run :: "nat set \<Rightarrow> nat \<Rightarrow> nat \<Rightarrow> nat \<Rightarrow> bool" where
  "free_run S b n k \<longleftrightarrow> k \<le> n \<and> {b ..< b + k} \<inter> S = {} \<and> (k < n \<longrightarrow> b + k \<in> S)"

lemma run_free_run:
  assumes s: "shape ax" and b: "b div 64 < length (lmaps ax ! 0)" and n: "n \<le> 64 - b mod 64"
  shows "free_run (ax_set ax) b n (run (lmaps ax ! 0 ! (b div 64)) (b mod 64) n)"
proof -
  let ?w = "lmaps ax ! 0 ! (b div 64)" and ?p = "b mod 64"
  let ?k = "run ?w ?p n"
  note rp = run_props [where w = ?w and p = ?p and n = n]
  have here: "b + i \<in> ax_set ax \<longleftrightarrow> bit ?w (?p + i)" if "?p + i < 64" for i
  proof -
    have "(b + i) div 64 = b div 64" "(b + i) mod 64 = ?p + i"
      using that by (rule div_add_no_carry, rule mod_add_no_carry)
    then show ?thesis using b by (simp add: ax_set_def bm_bit_def)
  qed
  have pk: "?p + ?k \<le> 64" using rp(2) by simp
  have "j \<notin> ax_set ax" if "b \<le> j" "j < b + ?k" for j
  proof -
    define i where "i = j - b"
    have i: "j = b + i" "i < ?k" using that unfolding i_def by linarith+
    then have "?p + i < 64" using pk by linarith
    then have "b + i \<notin> ax_set ax"
      using here [of i] rp(3) [OF le_add1, of i] i(2) by (simp only: nat_add_left_cancel_less not_False_eq_True)
    then show ?thesis unfolding i(1) .
  qed
  then have "{b ..< b + ?k} \<inter> ax_set ax = {}" by auto
  moreover have "b + ?k \<in> ax_set ax" if "?k < n"
  proof -
    have "?p + ?k < 64" using that n by linarith
    then show ?thesis using here rp(4) that by simp
  qed
  ultimately show ?thesis using rp(1) by (simp add: free_run_def)
qed

lemma free_run_append:
  assumes "free_run S b m m" and "free_run (S \<union> {b ..< b + m}) (b + m) n k"
  shows "free_run S b (m + n) (m + k)"
proof -
  have "{b ..< b + (m + k)} = {b ..< b + m} \<union> {b + m ..< b + m + k}"
    by (simp add: ivl_disj_un add.assoc)
  with assms show ?thesis unfolding free_run_def by (auto simp: add.assoc)
qed


lemma axmap_set_nr_loop_spec:
  assumes "ax_inv ax" and "unat b + n \<le> unat (nr_bits ax)" and "0 < n"
  shows "\<exists>ax' k. axmap_set_nr_loop ax b n acc = Some (ax', acc + k) \<and> ax_inv ax' \<and>
     nr_bits ax' = nr_bits ax \<and> free_run (ax_set ax) (unat b) n k \<and>
     ax_set ax' = ax_set ax \<union> {unat b ..< unat b + k}"
  using assms
proof (induction n arbitrary: ax b acc rule: less_induct)
  case (less n)
  from less.prems have s: "shape ax" and b: "unat b < unat (nr_bits ax)" by (simp_all add: ax_inv_def)
  let ?m = "64 - unat b mod 64"
  define t where "t = (if n > ?m then ?m else n)"
  have "0 < ?m" by simp
  then have t: "0 < t" "t \<le> ?m" "t \<le> n" using less.prems(3) by (auto simp: t_def)
  define k where "k = run (lmaps ax ! 0 ! (unat b div 64)) (unat b mod 64) t"
  obtain ax' d where r: "axmap_set_data_run ax b \<lparr>data_nr_bits = t, set_bits = 0\<rparr> = Some (ax', d)"
    "ax_inv ax'" "set_bits d = k" "nr_bits ax' = nr_bits ax"
    "ax_set ax' = ax_set ax \<union> {unat b ..< unat b + k}"
    using axmap_set_data_run_spec [OF less.prems(1) b t(1,2) k_def] by blast
  have fr: "free_run (ax_set ax) (unat b) t k"
    unfolding k_def using run_free_run [OF s below_nr_bits [OF s b] t(2)] .
  have unf: "axmap_set_nr_loop ax b n acc =
     (if k \<noteq> t then Some (ax', acc + k)
      else if n - k = 0 then Some (ax', acc + k)
      else axmap_set_nr_loop ax' (b + of_nat k) (n - k) (acc + k))"
    using r by (subst axmap_set_nr_loop.simps) (simp add: Let_def t_def [symmetric] BLOCKS_PER_UNIT_def)
  show ?case
  proof (cases "k = t \<and> t < n")
    case False
    then have "axmap_set_nr_loop ax b n acc = Some (ax', acc + k)" using unf t by auto
    moreover have "free_run (ax_set ax) (unat b) n k"
      using fr False t unfolding free_run_def by auto
    ultimately show ?thesis using r by blast
  next
    case True
    have "unat b + k < 2 ^ 64" using less.prems(2) True unat_bound64 [of "nr_bits ax"] by linarith
    then have bk: "unat (b + of_nat k) = unat b + k"
      by (simp add: unat_word_ariths unsigned_of_nat take_bit_nat_eq_self)
    obtain ax'' k' where r': "axmap_set_nr_loop ax' (b + of_nat k) (n - k) (acc + k) = Some (ax'', acc + k + k')"
      "ax_inv ax''" "nr_bits ax'' = nr_bits ax'" "free_run (ax_set ax') (unat b + k) (n - k) k'"
      "ax_set ax'' = ax_set ax' \<union> {unat b + k ..< unat b + k + k'}"
      using less.IH [of "n - k" ax' "b + of_nat k" "acc + k"] True t r(2,4) less.prems(2) bk by auto
    have "free_run (ax_set ax) (unat b) (k + (n - k)) (k + k')"
      using free_run_append [of "ax_set ax" "unat b" k "n - k" k'] fr r' r(5) True by simp
    moreover have "ax_set ax'' = ax_set ax \<union> {unat b ..< unat b + (k + k')}"
      unfolding r'(5) r(5) by (auto simp: add.assoc)
    ultimately show ?thesis using unf r' r(4) True t by (auto simp: add.assoc)
  qed
qed

lemma axmap_set_nr_refines:
  assumes inv: "ax_inv ax" and b: "unat b + unat n \<le> unat (nr_bits ax)" and n: "0 < unat n"
  shows "\<exists>ax' k. axmap_set_nr ax b n = Some (ax', k) \<and> ax_inv ax' \<and> nr_bits ax' = nr_bits ax \<and>
     free_run (ax_set ax) (unat b) (unat n) k \<and> ax_set ax' = ax_set ax \<union> {unat b ..< unat b + k}"
  using axmap_set_nr_loop_spec [OF inv b n, of 0] by (simp add: axmap_set_nr_def)

end
