(* ===== verification/Axmap_Search.thy ===== *)
theory Axmap_Search
  imports Axmap_Refine
begin

text \<open>
  The search functions of \<^verbatim>\<open>lib/axmap.c\<close>: each level is scanned for its least free position, and
  going down from the top level the positions found lead to the least free block number.
\<close>

section \<open>Searching\<close>

text \<open>\<open>least_free m b r\<close>: \<open>r\<close> is the least free position of the bitmap \<open>m\<close> from \<open>b\<close> on, if any.\<close>

definition least_free :: "u64 list \<Rightarrow> nat \<Rightarrow> nat option \<Rightarrow> bool" where
  "least_free m b r \<longleftrightarrow> (case r of
     None \<Rightarrow> \<forall>j \<ge> b. \<not> bm_free m j
   | Some f \<Rightarrow> b \<le> f \<and> bm_free m f \<and> (\<forall>j. b \<le> j \<and> j < f \<longrightarrow> \<not> bm_free m j))"

lemma least_free_mono:
  assumes "least_free m b r" and "b' \<le> b" and "\<And>j. b' \<le> j \<Longrightarrow> j < b \<Longrightarrow> \<not> bm_free m j"
  shows "least_free m b' r"
  using assms unfolding least_free_def
  by (cases r) (simp_all, (metis not_le le_trans)+)

text \<open>The lowest free bit of one word from bit \<open>p\<close> on.\<close>

lemma word_search:
  assumes off: "off < length m" and p: "p \<le> 64" and temp: "temp = NOT (mask p) AND NOT (m ! off)"
  shows "temp \<noteq> 0 \<Longrightarrow> least_free m (64 * off + p) (Some (64 * off + ffz (NOT temp)))"
    and "temp = 0 \<Longrightarrow> 64 * off + p \<le> j \<Longrightarrow> j < 64 * Suc off \<Longrightarrow> \<not> bm_free m j"
proof -
  have bits: "bit temp i \<longleftrightarrow> p \<le> i \<and> i < 64 \<and> \<not> bit (m ! off) i" for i
    by (auto simp: temp bit_simps)
  have free: "bm_free m j \<longleftrightarrow> \<not> bit (m ! off) (j - 64 * off)" if "64 * off \<le> j" "j < 64 * Suc off" for j
  proof -
    define i where "i = j - 64 * off"
    then have "j = i + off * 64" "i < 64" using that by simp_all
    then show ?thesis using off by (simp add: bm_free_def)
  qed
  show "\<not> bm_free m j" if "temp = 0" "64 * off + p \<le> j" "j < 64 * Suc off"
  proof -
    have "\<not> bit temp (j - 64 * off)" using that(1) by simp
    moreover have "p \<le> j - 64 * off" "j - 64 * off < 64" using that(2,3) by auto
    ultimately show ?thesis using free [of j] bits that by auto
  qed
  show "least_free m (64 * off + p) (Some (64 * off + ffz (NOT temp)))" if "temp \<noteq> 0"
  proof -
    let ?f = "ffz (NOT temp)"
    have lsb: "is_lsb temp ?f" using ffs64_is_lsb [OF that] by (simp add: ffz_def)
    then have f: "p \<le> ?f" "?f < 64" "\<not> bit (m ! off) ?f" using bits by (auto simp: is_lsb_def)
    have "\<not> bm_free m j" if j: "64 * off + p \<le> j" "j < 64 * off + ?f" for j
    proof -
      have "\<not> bit temp (j - 64 * off)" using lsb j by (auto simp: is_lsb_def)
      moreover have "p \<le> j - 64 * off" "j - 64 * off < 64" using j f by auto
      ultimately show ?thesis using free [of j] bits j f by auto
    qed
    with f free [of "64 * off + ?f"] show ?thesis by (auto simp: least_free_def)
  qed
qed

lemma axmap_scan_spec:
  assumes sz: "unat (map_size al) = length (lmap al)"
  shows "\<exists>r. axmap_scan al off = Some r \<and> (case r of
     None \<Rightarrow> least_free (lmap al) (64 * off) None
   | Some (o', temp) \<Rightarrow> o' < length (lmap al) \<and> temp \<noteq> 0 \<and>
       least_free (lmap al) (64 * off) (Some (64 * o' + ffz (NOT temp))))"
  using sz
proof (induction al off rule: axmap_scan.induct)
  case (1 al off)
  show ?case
  proof (cases "off < length (lmap al)")
    case False
    then have "axmap_scan al off = Some None" using "1.prems" by (subst axmap_scan.simps) simp
    moreover have "least_free (lmap al) (64 * off) None"
      using False by (auto simp: least_free_def bm_free_iff)
    ultimately show ?thesis by simp
  next
    case True
    let ?t = "NOT (lmap al ! off)"
    have ws: "?t \<noteq> 0 \<Longrightarrow> least_free (lmap al) (64 * off) (Some (64 * off + ffz (NOT ?t)))"
      "?t = 0 \<Longrightarrow> 64 * off \<le> j \<Longrightarrow> j < 64 * Suc off \<Longrightarrow> \<not> bm_free (lmap al) j" for j
      using word_search [OF True, of 0 ?t] by simp_all
    show ?thesis
    proof (cases "?t = 0")
      case False
      then have "axmap_scan al off = Some (Some (off, ?t))"
        using True "1.prems" by (subst axmap_scan.simps) (simp add: Let_def)
      with False True ws(1) show ?thesis by simp
    next
      case True': True
      have "axmap_scan al off = axmap_scan al (Suc off)"
        using True True' "1.prems" by (subst axmap_scan.simps) (simp add: Let_def)
      moreover obtain r where r: "axmap_scan al (Suc off) = Some r" "case r of
          None \<Rightarrow> least_free (lmap al) (64 * Suc off) None
        | Some (o', temp) \<Rightarrow> o' < length (lmap al) \<and> temp \<noteq> 0 \<and>
            least_free (lmap al) (64 * Suc off) (Some (64 * o' + ffz (NOT temp)))"
        using "1.IH" True True' "1.prems" by auto
      moreover have "case r of
          None \<Rightarrow> least_free (lmap al) (64 * off) None
        | Some (o', temp) \<Rightarrow> o' < length (lmap al) \<and> temp \<noteq> 0 \<and>
            least_free (lmap al) (64 * off) (Some (64 * o' + ffz (NOT temp)))"
        using r(2) least_free_mono [of "lmap al" "64 * Suc off" _ "64 * off"] ws(2) True'
        by (auto split: option.splits prod.splits)
      ultimately show ?thesis by simp
    qed
  qed
qed

lemma unat_push_unit:
  "64 * unat w < 2 ^ 64 \<Longrightarrow> unat (push_bit UNIT_SHIFT w) = 64 * unat w" for w :: u64
  by (simp add: unit_defs push_bit_eq_mult unat_mult_lem [THEN iffD1] mult.commute unat_word_ariths)

lemma axmap_search_level_spec:
  assumes sz: "unat (map_size al) = length (lmap al)" and len: "64 * length (lmap al) < 2 ^ 64"
  shows "\<exists>r. axmap_search_level al index = Some (map_option of_nat r) \<and>
     least_free (lmap al) (unat index) r"
proof (cases "unat index div 64 < length (lmap al)")
  case False
  then have "axmap_search_level al index = Some None"
    using sz by (simp add: axmap_search_level_def)
  moreover have "least_free (lmap al) (unat index) None"
    using False by (auto simp: least_free_def bm_free_iff div_64_less)
  ultimately show ?thesis by (intro exI [of _ None]) simp
next
  case True
  let ?o = "unat index div 64" and ?p = "unat index mod 64"
  define temp where "temp = NOT (mask ?p) AND NOT (lmap al ! ?o)"
  have index: "unat index = 64 * ?o + ?p" by simp
  have p: "?p \<le> 64" by simp
  note ws = word_search [OF True p temp_def]
  have val: "push_bit UNIT_SHIFT (of_nat o') + of_nat f = (of_nat (64 * o' + f) :: u64)" for o' f
    by (simp add: unit_defs push_bit_eq_mult)
  have unf: "axmap_search_level al index =
    (case (if temp \<noteq> 0 then Some (Some (?o, temp)) else axmap_scan al (Suc ?o)) of
       None \<Rightarrow> None
     | Some found \<Rightarrow> Some (case found of None \<Rightarrow> None
         | Some (o', t) \<Rightarrow> Some (push_bit UNIT_SHIFT (of_nat o') + of_nat (ffz (NOT t)))))"
    using True sz p by (simp add: axmap_search_level_def Let_def temp_def split: option.splits)
  show ?thesis
  proof (cases "temp = 0")
    case False
    then have "axmap_search_level al index = Some (Some (of_nat (64 * ?o + ffz (NOT temp))))"
      using unf by (simp only: val if_True not_False_eq_True option.case prod.case)
    with ws(1) [OF False] index show ?thesis
      by (intro exI [of _ "Some (64 * ?o + ffz (NOT temp))"]) simp
  next
    case t0: True
    obtain r where r: "axmap_scan al (Suc ?o) = Some r" "case r of
          None \<Rightarrow> least_free (lmap al) (64 * Suc ?o) None
        | Some (o', temp) \<Rightarrow> o' < length (lmap al) \<and> temp \<noteq> 0 \<and>
            least_free (lmap al) (64 * Suc ?o) (Some (64 * o' + ffz (NOT temp)))"
      using axmap_scan_spec [OF sz] by blast
    define v where "v = (case r of None \<Rightarrow> None | Some (o', t) \<Rightarrow> Some (64 * o' + ffz (NOT t)))"
    have "least_free (lmap al) (64 * Suc ?o) v"
      using r(2) by (auto simp: v_def split: option.splits)
    then have "least_free (lmap al) (64 * ?o + ?p) v"
      by (rule least_free_mono) (use ws(2) [OF t0] in auto)
    moreover have "axmap_search_level al index = Some (map_option of_nat v)"
      using unf t0 r(1) by (simp add: v_def val split: option.splits)
    ultimately show ?thesis using index by (intro exI [of _ v]) simp
  qed
qed

text \<open>A free block number is free on every level.\<close>

lemma free_above:
  assumes inv: "ax_inv ax" and i: "i < nr_levels ax" and j: "bm_free (lmaps ax ! 0) j"
  shows "bm_free (lmaps ax ! i) (j div 64 ^ i)"
proof -
  have s: "shape ax" using inv by (simp add: ax_inv_def)
  have j0: "j div 64 < length (lmaps ax ! 0)" using j by (simp add: bm_free_def)
  have "j \<notin> ax_set ax" using j by (simp add: ax_set_def bm_free_iff)
  then have "\<not> bm_bit (lmaps ax ! i) (j div 64 ^ i)"
    using upper_bit_full [OF inv i _ j0] by blast
  then show ?thesis using level_length [OF s i j0] by (simp add: bm_free_iff div_64_less)
qed

lemma level_bound:
  assumes "shape ax" and "i < nr_levels ax"
  shows "0 < i \<Longrightarrow> 64 * (64 * length (lmaps ax ! i)) < 2 ^ 64"
    and "64 * length (lmaps ax ! i) < 2 ^ 64"
proof -
  have le: "length (lmaps ax ! i) \<le> length (lmaps ax ! 0)" if "i < nr_levels ax" for i
    using that
  proof (induction i)
    case (Suc i)
    then show ?case using shapeD(8) [OF assms(1) Suc.prems] by simp
  qed simp
  show "64 * length (lmaps ax ! i) < 2 ^ 64"
    using le [OF assms(2)] shapeD(5) [OF assms(1)] by simp
  show "64 * (64 * length (lmaps ax ! i)) < 2 ^ 64" if pos: "0 < i"
  proof -
    obtain i' where i': "i = Suc i'" using pos by (cases i) auto
    then have "length (lmaps ax ! i) = (length (lmaps ax ! i') + 63) div 64"
      using shapeD(8) [OF assms(1)] assms(2) by simp
    then have "64 * length (lmaps ax ! i) \<le> length (lmaps ax ! 0) + 63"
      using le [of i'] assms(2) i' by simp
    then show ?thesis using shapeD(5) [OF assms(1)] by simp
  qed
qed

text \<open>
  \<open>lead ax b n x\<close>: what the walk knows before it enters level \<open>n - 1\<close>; \<open>x\<close> is a free position of
  level \<open>n\<close> at or after the one of \<open>b\<close>, and no free block number from \<open>b\<close> on lies before it.
\<close>

definition lead :: "axmap \<Rightarrow> nat \<Rightarrow> nat \<Rightarrow> nat \<Rightarrow> bool" where
  "lead ax b n x \<longleftrightarrow>
     (n < nr_levels ax \<longrightarrow> b div 64 ^ n \<le> x \<and> bm_free (lmaps ax ! n) x) \<and>
     (n = nr_levels ax \<longrightarrow> x = 0) \<and>
     (\<forall>j \<ge> b. bm_free (lmaps ax ! 0) j \<longrightarrow> x \<le> j div 64 ^ n)"

lemma lead_step:
  assumes inv: "ax_inv ax" and i: "i < nr_levels ax" and x: "lead ax b (Suc i) x"
    and lf: "least_free (lmaps ax ! i) (max (64 * x) (b div 64 ^ i)) r"
  shows "case r of None \<Rightarrow> least_free (lmaps ax ! 0) b None | Some y \<Rightarrow> lead ax b i y"
proof -
  have "max (64 * x) (b div 64 ^ i) \<le> j div 64 ^ i" if "b \<le> j" "bm_free (lmaps ax ! 0) j" for j
  proof -
    have "x \<le> j div 64 ^ i div 64" using x that unfolding lead_def div_64_Suc by blast
    then have "64 * x \<le> j div 64 ^ i" by linarith
    then show ?thesis using that(1) by (simp add: div_le_mono)
  qed
  note low = this
  note fr = free_above [OF inv i]
  show ?thesis
  proof (cases r)
    case None
    then show ?thesis using lf low fr unfolding least_free_def by (simp del: max.bounded_iff) blast
  next
    case (Some y)
    then have y: "max (64 * x) (b div 64 ^ i) \<le> y" "bm_free (lmaps ax ! i) y"
      "\<And>j. max (64 * x) (b div 64 ^ i) \<le> j \<Longrightarrow> j < y \<Longrightarrow> \<not> bm_free (lmaps ax ! i) j"
      using lf unfolding least_free_def by (simp_all del: max.bounded_iff)
    have "y \<le> j div 64 ^ i" if "b \<le> j" "bm_free (lmaps ax ! 0) j" for j
      using y(3) [OF low [OF that]] fr [OF that(2)] not_le by blast
    then show ?thesis using Some y(1,2) i by (simp add: lead_def)
  qed
qed

definition first_free :: "nat set \<Rightarrow> nat \<Rightarrow> nat \<Rightarrow> nat option" where
  "first_free S n b = find (\<lambda>j. j \<notin> S) [b..<n]"

definition ret_u64 :: "nat option \<Rightarrow> u64" where
  "ret_u64 r = (case r of None \<Rightarrow> u64_max | Some f \<Rightarrow> of_nat f)"

lemma first_free_eqI:
  "b \<le> f \<Longrightarrow> f < n \<Longrightarrow> f \<notin> S \<Longrightarrow> (\<And>j. b \<le> j \<Longrightarrow> j < f \<Longrightarrow> j \<in> S) \<Longrightarrow> first_free S n b = Some f"
  unfolding first_free_def find_Some_iff by (intro exI [of _ "f - b"]) auto

lemma first_free_None: "first_free S n b = None \<longleftrightarrow> {b..<n} \<subseteq> S"
  by (auto simp: first_free_def find_None_iff)

lemma first_free_SomeD:
  "first_free S n b = Some f \<Longrightarrow> b \<le> f \<and> f < n \<and> f \<notin> S \<and> {b..<f} \<subseteq> S"
proof -
  assume "first_free S n b = Some f"
  then obtain i where i: "i < n - b" "f = b + i" "f \<notin> S" "\<And>j. j < i \<Longrightarrow> b + j \<in> S"
    unfolding first_free_def find_Some_iff by auto
  have "j \<in> S" if "b \<le> j" "j < f" for j
    using i(4) [of "j - b"] that i(2) by simp
  with i show ?thesis by auto
qed

lemma least_free_first_free:
  assumes s: "shape ax" and lf: "least_free (lmaps ax ! 0) b q"
  shows "first_free (ax_set ax) (unat (nr_bits ax)) b =
    (case q of None \<Rightarrow> None | Some f \<Rightarrow> if f < unat (nr_bits ax) then Some f else None)"
proof -
  have free: "bm_free (lmaps ax ! 0) j \<longleftrightarrow> j \<notin> ax_set ax" if "j < unat (nr_bits ax)" for j
    using below_nr_bits [OF s that] by (simp add: bm_free_iff ax_set_def div_64_less)
  show ?thesis
  proof (cases q)
    case None
    then have "{b..<unat (nr_bits ax)} \<subseteq> ax_set ax"
      using lf free by (auto simp: least_free_def)
    with None show ?thesis by (simp add: first_free_None)
  next
    case (Some f)
    then have f: "b \<le> f" "bm_free (lmaps ax ! 0) f"
      "\<And>j. b \<le> j \<Longrightarrow> j < f \<Longrightarrow> \<not> bm_free (lmaps ax ! 0) j" using lf by (auto simp: least_free_def)
    show ?thesis
    proof (cases "f < unat (nr_bits ax)")
      case True
      then have "first_free (ax_set ax) (unat (nr_bits ax)) b = Some f"
        using f free by (intro first_free_eqI) auto
      with True Some show ?thesis by simp
    next
      case False
      then have "{b..<unat (nr_bits ax)} \<subseteq> ax_set ax" using f(3) free by fastforce
      then have "first_free (ax_set ax) (unat (nr_bits ax)) b = None" by (simp only: first_free_None)
      with False Some show ?thesis by simp
    qed
  qed
qed

lemma find_first_free_loop_spec:
  assumes inv: "ax_inv ax" and n: "n \<le> nr_levels ax" and x: "lead ax (unat b) n (unat x)"
  shows "axmap_find_first_free_loop (rev [0..<n]) ax b x =
    Some (ret_u64 (first_free (ax_set ax) (unat (nr_bits ax)) (unat b)))"
  using n x
proof (induction n arbitrary: x)
  case 0
  have s: "shape ax" using inv by (simp add: ax_inv_def)
  have "least_free (lmaps ax ! 0) (unat b) (Some (unat x))"
    using "0.prems"(2) shapeD(2) [OF s] not_le by (auto simp: lead_def least_free_def)
  from least_free_first_free [OF s this] show ?case
    by (simp add: ret_u64_def word_le_nat_alt word_less_nat_alt)
next
  case (Suc i)
  have s: "shape ax" using inv by (simp add: ax_inv_def)
  have i: "i < nr_levels ax" using Suc.prems(1) by simp
  let ?al = "levels ax ! i"
  have al: "lmap ?al = lmaps ax ! i" using i shapeD(1) [OF s] by (simp add: lmaps_nth)
  have "64 * unat x < 2 ^ 64"
  proof (cases "Suc i < nr_levels ax")
    case True
    then have "unat x < 64 * length (lmaps ax ! Suc i)"
      using Suc.prems(2) by (simp add: lead_def bm_free_iff)
    then show ?thesis using level_bound(1) [OF s True] by simp
  next
    case False
    then show ?thesis using Suc.prems by (simp add: lead_def)
  qed
  note push = unat_push_unit [OF this]
  define y where "y = (let index = push_bit UNIT_SHIFT x; base = drop_bit (UNIT_SHIFT * i) b
     in if index < base then base else index)"
  have i10: "i < 10" using i shapeD(3) [OF s] by simp
  have y: "unat y = max (64 * unat x) (unat b div 64 ^ i)"
    using push by (simp add: y_def Let_def word_less_nat_alt unat_div_64_pow [OF i10])
  obtain r where r: "axmap_search_level ?al y = Some (map_option of_nat r)"
    "least_free (lmaps ax ! i) (unat y) r"
    using axmap_search_level_spec [of ?al y] shapeD(7) [OF s i] level_bound(2) [OF s i] al by auto
  note ls = lead_step [OF inv i Suc.prems(2) r(2) [unfolded y]]
  have rd: "rd (levels ax) i = Some ?al" using i shapeD(1) [OF s] by (simp add: rd_def)
  have unf: "axmap_find_first_free_loop (rev [0..<Suc i]) ax b x =
    (case map_option of_nat r of None \<Rightarrow> Some u64_max
     | Some index \<Rightarrow> axmap_find_first_free_loop (rev [0..<i]) ax b index)"
    using r(1) rd i10 by (simp add: Let_def y_def UNIT_SHIFT_def)
  show ?case
  proof (cases r)
    case None
    with ls least_free_first_free [OF s, of "unat b" None] unf show ?thesis by (simp add: ret_u64_def)
  next
    case (Some z)
    then have "z < 64 * length (lmaps ax ! i)" using r(2) by (simp add: least_free_def bm_free_iff)
    then have "z < 2 ^ 64" using level_bound(2) [OF s i] by simp
    then have "unat (of_nat z :: u64) = z" by (simp add: unsigned_of_nat take_bit_nat_eq_self)
    with ls Some have "lead ax (unat b) i (unat (of_nat z :: u64))" by simp
    from Suc.IH [OF _ this] Suc.prems(1) unf Some show ?thesis by simp
  qed
qed

lemma axmap_find_first_free_refines:
  assumes "ax_inv ax"
  shows "axmap_find_first_free ax b = Some (ret_u64 (first_free (ax_set ax) (unat (nr_bits ax)) (unat b)))"
proof -
  have "lead ax (unat b) (nr_levels ax) (unat (0 :: u64))" by (simp add: lead_def)
  from find_first_free_loop_spec [OF assms order_refl this] show ?thesis
    by (simp only: axmap_find_first_free_def)
qed

text \<open>The number \<^verbatim>\<open>axmap_next_free\<close> promises: the next free one after \<open>b\<close>, cyclically.\<close>

definition next_free :: "nat set \<Rightarrow> nat \<Rightarrow> nat \<Rightarrow> nat option" where
  "next_free S n b =
     (case first_free S n (Suc b) of Some f \<Rightarrow> Some f | None \<Rightarrow> first_free S n 0)"

lemma ret_u64_None_iff: "(\<And>f. r = Some f \<Longrightarrow> f < unat (m :: u64)) \<Longrightarrow> ret_u64 r = u64_max \<longleftrightarrow> r = None"
proof (cases r)
  case (Some f)
  assume "\<And>f. r = Some f \<Longrightarrow> f < unat m"
  then have f: "f < unat m" using Some by simp
  then have "unat (of_nat f :: u64) = f"
    using unat_bound64 [of m] by (simp add: unsigned_of_nat take_bit_nat_eq_self)
  moreover have "unat m \<le> unat (u64_max)"
    unfolding word_le_nat_alt [symmetric] by (simp add: word_order.extremum)
  ultimately have "of_nat f \<noteq> u64_max" using f by auto
  then show ?thesis using Some by (simp add: ret_u64_def)
qed (simp add: ret_u64_def)

lemma axmap_next_free_refines:
  assumes inv: "ax_inv ax" and b: "unat b < unat (nr_bits ax)"
  shows "axmap_next_free ax b = Some (ret_u64 (next_free (ax_set ax) (unat (nr_bits ax)) (unat b)))"
proof -
  have s: "shape ax" using inv by (simp add: ax_inv_def)
  let ?S = "ax_set ax" and ?n = "unat (nr_bits ax)"
  define nb where "nb = (if b + 1 = nr_bits ax then 0 else b + 1)"
  have b1: "unat (b + 1) = Suc (unat b)"
    using b unat_bound64 [of "nr_bits ax"] by (simp add: unat_word_ariths)
  have eq_iff: "b + 1 = nr_bits ax \<longleftrightarrow> Suc (unat b) = ?n" using b1 by (metis unsigned_word_eqI)
  have nb: "unat nb = (if Suc (unat b) = ?n then 0 else Suc (unat b))" by (simp add: nb_def eq_iff b1)
  then have nb_lt: "unat nb < ?n" using b by auto
  let ?o = "unat nb div 64" and ?p = "unat nb mod 64"
  have off: "?o < length (lmaps ax ! 0)" by (rule below_nr_bits [OF s nb_lt])
  define temp where "temp = NOT (mask ?p) AND NOT (lmaps ax ! 0 ! ?o)"
  define ret where "ret = ret_u64 (first_free ?S ?n (unat nb))"
  let ?v = "push_bit UNIT_SHIFT (drop_bit UNIT_SHIFT nb) + of_nat (ffz (NOT temp))"
  have this_word: "(if ?v \<ge> nr_bits ax then u64_max else ?v) = ret" if "temp \<noteq> 0"
  proof -
    let ?f = "64 * ?o + ffz (NOT temp)"
    have lf: "least_free (lmaps ax ! 0) (unat nb) (Some ?f)"
      using word_search(1) [OF off _ temp_def that] by simp
    then have "?f < 2 ^ 64"
      using shapeD(5) [OF s] by (auto simp: least_free_def bm_free_iff)
    moreover have v: "?v = of_nat ?f"
    proof -
      have "(of_nat (unat w) :: u64) = w" for w :: u64 by simp
      from this [of "drop_bit UNIT_SHIFT nb"] have "of_nat ?o = drop_bit UNIT_SHIFT nb"
        by (simp only: unat_unit_div)
      then show ?thesis
        by (simp only: of_nat_add of_nat_mult) (simp add: push_bit_eq_mult UNIT_SHIFT_def mult.commute)
    qed
    ultimately have "unat ?v = ?f" by (simp only: unat_of_nat64)
    then show ?thesis
      using least_free_first_free [OF s lf] v
      by (simp add: ret_def ret_u64_def word_le_nat_alt)
  qed
  have rd: "rd (levels ax) 0 = Some (levels ax ! 0)" "rd (lmap (levels ax ! 0)) ?o = Some (lmaps ax ! 0 ! ?o)"
    using off shapeD(1,2) [OF s] by (simp_all add: rd_def lmaps_nth)
  have "axmap_next_free ax b = (if ret = u64_max \<and> nb \<noteq> 0 then axmap_find_first_free ax 0 else Some ret)"
    using b rd this_word axmap_find_first_free_refines [OF inv, of nb]
    by (simp add: axmap_next_free_def word_le_nat_alt Let_def nb_def [symmetric] temp_def [symmetric] ret_def [symmetric])
  also have "\<dots> = Some (ret_u64 (next_free ?S ?n (unat b)))"
  proof (cases "Suc (unat b) = ?n")
    case True
    then have "nb = 0" "first_free ?S ?n (Suc (unat b)) = None" using nb by (simp_all add: first_free_None unat_eq_0)
    then show ?thesis by (simp add: ret_def next_free_def)
  next
    case False
    then have nb': "unat nb = Suc (unat b)" "nb \<noteq> 0" using nb by auto
    have "ret = u64_max \<longleftrightarrow> first_free ?S ?n (unat nb) = None"
      unfolding ret_def by (rule ret_u64_None_iff [of _ "nr_bits ax"]) (use first_free_SomeD in blast)
    then show ?thesis
      using nb' axmap_find_first_free_refines [OF inv, of 0]
      by (auto simp: ret_def next_free_def split: option.splits)
  qed
  finally show ?thesis .
qed

section \<open>A fresh map\<close>

lemma count_levels_bound: "unat i \<le> 64 ^ k \<Longrightarrow> lv \<le> count_levels i lv \<and> count_levels i lv \<le> lv + k"
proof (induction k arbitrary: i lv)
  case 0
  then show ?case by (subst (1 2) count_levels.simps) (simp add: word_less_nat_alt)
next
  case (Suc k)
  have "unat (i + 64 - 1) \<le> unat i + 63" using unat_add_le [of 63 i] by simp
  then have "unat (drop_bit UNIT_SHIFT (i + 64 - 1)) \<le> (unat i + 63) div 64"
    by (simp add: UNIT_SHIFT_def unat_drop_bit div_le_mono)
  also have "\<dots> \<le> 64 ^ k" using Suc.prems by simp
  finally show ?case
    using Suc.IH [of "drop_bit UNIT_SHIFT (i + 64 - 1)" "Suc lv"]
    by (subst (1 2) count_levels.simps) simp
qed

lemma length_level_sizes [simp]: "length (level_sizes n nr) = n"
  by (induction n nr rule: level_sizes.induct) (simp_all add: Let_def)

lemma level_sizes_bound:
  "unat nr + 64 \<le> 2 ^ 64 \<Longrightarrow> unat (drop_bit UNIT_SHIFT (nr + 64 - 1)) = (unat nr + 63) div 64" for nr :: u64
proof -
  assume "unat nr + 64 \<le> 2 ^ 64"
  then have "unat (nr + 63) = unat nr + 63" by (subst unat_add_small) simp_all
  then show ?thesis by (simp add: add.commute)
qed

lemma level_sizes_nth:
  assumes "unat nr + 64 \<le> 2 ^ 64" and "i < n"
  shows "unat (level_sizes n nr ! i) = (unat (if i = 0 then nr else level_sizes n nr ! (i - 1)) + 63) div 64"
  using assms
proof (induction n nr arbitrary: i rule: level_sizes.induct)
  case (2 n nr)
  let ?nr = "drop_bit UNIT_SHIFT (nr + 64 - 1) :: u64"
  have nr: "unat ?nr = (unat nr + 63) div 64" by (rule level_sizes_bound [OF "2.prems"(1)])
  then have small: "unat ?nr + 64 \<le> 2 ^ 64" using unat_bound64 [of nr] by simp
  show ?case
  proof (cases i)
    case 0
    then show ?thesis using nr by (simp add: Let_def)
  next
    case (Suc i')
    then have "unat (level_sizes n ?nr ! i') = (unat (if i' = 0 then ?nr else level_sizes n ?nr ! (i' - 1)) + 63) div 64"
      using "2.IH" [OF refl small, of i'] "2.prems"(2) by simp
    then show ?thesis using Suc by (cases i') (simp_all add: Let_def)
  qed
qed simp

lemma those_map_Some: "(\<And>x. x \<in> set xs \<Longrightarrow> f x = Some (g x)) \<Longrightarrow> those (map f xs) = Some (map g xs)"
  by (induction xs) auto

lemma axmap_new_refines:
  assumes nr: "unat nr + 8192 \<le> 2 ^ 64" and mem: "\<And>k. k < 12 \<Longrightarrow> mem k \<noteq> None"
  shows "\<exists>ax. axmap_new mem nr = Some ax \<and> ax_inv ax \<and> nr_bits ax = nr \<and> ax_set ax = {}"
proof -
  define n where "n = count_levels (ucast (drop_bit UNIT_SHIFT (nr + 64 - 1))) 1"
  have n: "1 \<le> n" "n \<le> 10"
    using count_levels_bound [of "ucast (drop_bit UNIT_SHIFT (nr + 64 - 1))" 6 1]
      unat_bound32 [of "ucast (drop_bit UNIT_SHIFT (nr + 64 - 1))"] by (auto simp: n_def)
  define lv where "lv i = (let sz = level_sizes n nr ! i in \<lparr>level = i, map_size = sz, lmap = replicate (unat sz) (0 :: u64)\<rparr>)" for i
  define ax where "ax = \<lparr>nr_levels = n, levels = map lv [0..<n], nr_bits = nr\<rparr>"
  have zip: "zip [0..<n] (level_sizes n nr) = map (\<lambda>i. (i, level_sizes n nr ! i)) [0..<n]"
    by (rule nth_equalityI) simp_all
  define raw where "raw i = \<lparr>level = i, map_size = level_sizes n nr ! i,
      lmap = map (the (mem (2 + i))) [0..<unat (level_sizes n nr ! i)]\<rparr>" for i
  have "those (map (\<lambda>(i, sz). case mem (2 + i) of None \<Rightarrow> None
          | Some f \<Rightarrow> Some \<lparr>level = i, map_size = sz, lmap = map f [0..<unat sz]\<rparr>)
        (zip [0..<n] (level_sizes n nr))) = Some (map raw [0..<n])"
    unfolding zip map_map
    by (rule those_map_Some) (use mem n in \<open>auto simp: raw_def split: option.splits\<close>)
  then have "axmap_new mem nr = Some (axmap_reset \<lparr>nr_levels = n, levels = map raw [0..<n], nr_bits = nr\<rparr>)"
    using mem [of 0] mem [of 1] unfolding axmap_new_def Let_def n_def [symmetric]
    by (simp del: One_nat_def add_2_eq_Suc)
  moreover have "axmap_reset \<lparr>nr_levels = n, levels = map raw [0..<n], nr_bits = nr\<rparr> = ax"
    by (simp add: axmap_reset_def ax_def lv_def raw_def Let_def)
  moreover have lm: "lmaps ax ! i = replicate (unat (level_sizes n nr ! i)) 0" if "i < n" for i
    using that by (simp add: lmaps_def ax_def lv_def Let_def)
  have lens: "unat (level_sizes n nr ! 0) = (unat nr + 63) div 64"
    "Suc i < n \<Longrightarrow> unat (level_sizes n nr ! Suc i) = (unat (level_sizes n nr ! i) + 63) div 64" for i
    using level_sizes_nth [of nr 0 n] level_sizes_nth [of nr "Suc i" n] nr n by simp_all
  have "shape ax"
    unfolding shape_def using n nr lens lm by (auto simp: ax_def lv_def Let_def)
  then have "ax_inv ax"
    unfolding ax_inv_def linked_def using lm by (auto simp: bm_bit_def ax_def lv_def)
  moreover have "ax_set ax = {}" using lm [of 0] n by (auto simp: ax_set_def bm_bit_def)
  moreover have "nr_bits ax = nr" by (simp add: ax_def)
  ultimately show ?thesis by auto
qed

lemma axmap_reset_refines:
  assumes "ax_inv ax"
  shows "ax_inv (axmap_reset ax) \<and> nr_bits (axmap_reset ax) = nr_bits ax \<and> ax_set (axmap_reset ax) = {}"
proof -
  have s: "shape ax" using assms by (simp add: ax_inv_def)
  have lm: "lmaps (axmap_reset ax) ! i = replicate (length (lmaps ax ! i)) 0" if "i < nr_levels ax" for i
    using that shapeD(1,7) [OF s] by (simp add: lmaps_def axmap_reset_def)
  have fields: "nr_levels (axmap_reset ax) = nr_levels ax" "nr_bits (axmap_reset ax) = nr_bits ax"
    "length (levels (axmap_reset ax)) = length (levels ax)"
    by (simp_all add: axmap_reset_def)
  have level_fields: "level (levels (axmap_reset ax) ! i) = level (levels ax ! i)"
    "map_size (levels (axmap_reset ax) ! i) = map_size (levels ax ! i)" if "i < nr_levels ax" for i
    using that shapeD(1) [OF s] by (simp_all add: axmap_reset_def)
  have "length (lmaps (axmap_reset ax) ! i) = length (lmaps ax ! i)" if "i < nr_levels ax" for i
    using lm [OF that] by simp
  then have "shape (axmap_reset ax)"
    using s shapeD(2) [OF s] unfolding shape_def fields by (simp add: level_fields Suc_le_eq)
  then show ?thesis using lm shapeD(2) [OF s]
    by (auto simp: ax_inv_def linked_def ax_set_def bm_bit_def fields)
qed

section \<open>Properties\<close>

text \<open>
  When its allocations succeed, \<^verbatim>\<open>axmap_new\<close> returns a map that satisfies the
  invariant, has the capacity asked for and no member; \<^verbatim>\<open>axmap_reset\<close> of any map that satisfies
  the invariant empties it and keeps its capacity.
\<close>

theorem axmap_new_empty:
  assumes "unat nr + 8192 \<le> 2 ^ 64" and "\<And>k. k < 12 \<Longrightarrow> mem k \<noteq> None" and "ax_inv ax0"
  shows "(\<exists>ax. axmap_new mem nr = Some ax \<and> ax_inv ax \<and> nr_bits ax = nr \<and> ax_set ax = {}) \<and>
    ax_inv (axmap_reset ax0) \<and> nr_bits (axmap_reset ax0) = nr_bits ax0 \<and> ax_set (axmap_reset ax0) = {}"
  by (rule conjI [OF axmap_new_refines axmap_reset_refines]) (use assms in auto)

text \<open>A map to evaluate the properties on: 1000 blocks, the allocator returns zeroed memory.\<close>

definition zero_mem :: "nat \<Rightarrow> (nat \<Rightarrow> u64) option" where
  "zero_mem k = Some (\<lambda>i. 0)"

lemma sample_map: "\<exists>ax. axmap_new zero_mem 1000 = Some ax \<and> ax_inv ax \<and> nr_bits ax = 1000 \<and> ax_set ax = {}"
  by (rule axmap_new_refines) (simp_all add: zero_mem_def)

theorem axmap_new_empty_witness:
  "\<exists>ax. axmap_new zero_mem 1000 = Some ax \<and> ax_inv (axmap_reset ax) \<and> ax_set (axmap_reset ax) = {}"
proof -
  obtain ax where "axmap_new zero_mem 1000 = Some ax" "ax_inv ax" using sample_map by blast
  then show ?thesis using axmap_new_empty [of 1000 zero_mem ax] by (auto simp: zero_mem_def)
qed

text \<open>
  \<^verbatim>\<open>axmap_isset\<close>, which walks down from the top level and stops at the first full
  word, is membership of the block number, without a fault, for every number below the capacity.
\<close>

theorem axmap_isset_member:
  assumes "ax_inv ax" and "unat b < unat (nr_bits ax)"
  shows "axmap_isset ax b = Some (unat b \<in> ax_set ax)"
  by (rule axmap_isset_refines [OF assms])

theorem axmap_isset_member_witness:
  "\<exists>ax. axmap_new zero_mem 1000 = Some ax \<and> axmap_isset ax 999 = Some False"
proof -
  obtain ax where "axmap_new zero_mem 1000 = Some ax" "ax_inv ax" "nr_bits ax = 1000" "ax_set ax = {}"
    using sample_map by blast
  then show ?thesis using axmap_isset_member [of ax 999] by simp
qed

text \<open>
  C15 (refinement): \<^verbatim>\<open>axmap_set_nr\<close> neither faults nor fails an assertion on a request inside the
  map; it adds the longest run of free blocks from the start of the request (cut at the request's
  length and at the first block already set), returns the length of that run, and keeps the
  invariant that ties the levels together.
\<close>

theorem axmap_set_nr_adds_free_run:
  assumes "ax_inv ax" and "unat b + unat n \<le> unat (nr_bits ax)" and "0 < unat n"
  shows "\<exists>ax' k. axmap_set_nr ax b n = Some (ax', k) \<and> ax_inv ax' \<and> nr_bits ax' = nr_bits ax \<and>
    k \<le> unat n \<and> {unat b ..< unat b + k} \<inter> ax_set ax = {} \<and>
    (k < unat n \<longrightarrow> unat b + k \<in> ax_set ax) \<and>
    ax_set ax' = ax_set ax \<union> {unat b ..< unat b + k}"
  using axmap_set_nr_refines [OF assms] unfolding free_run_def by blast

theorem axmap_set_nr_adds_free_run_witness:
  "\<exists>ax ax'. axmap_new zero_mem 1000 = Some ax \<and> axmap_set_nr ax 100 200 = Some (ax', 200) \<and>
    ax_set ax' = {100..<300}"
proof -
  obtain ax where ax: "axmap_new zero_mem 1000 = Some ax" "ax_inv ax" "nr_bits ax = 1000" "ax_set ax = {}"
    using sample_map by blast
  from axmap_set_nr_adds_free_run [OF ax(2), of 100 200] ax(3,4) obtain ax' k where
    "axmap_set_nr ax 100 200 = Some (ax', k)" "k \<le> 200" "\<not> k < 200" "ax_set ax' = {100..<100 + k}"
    by auto
  moreover from this have "k = 200" by simp
  ultimately show ?thesis using ax(1) by auto
qed

text \<open>
  C16 (functional): \<^verbatim>\<open>axmap_next_free\<close> returns a block that is not set exactly when there is one;
  the block returned is the first free one after the given block, and only when all later ones are
  taken the first free one of the whole map. It returns \<open>-1\<close> when every block is set.
\<close>

theorem axmap_next_free_cyclic:
  assumes "ax_inv ax" and "unat b < unat (nr_bits ax)"
  shows "\<exists>r. axmap_next_free ax b = Some (ret_u64 r) \<and>
    (case r of
       None \<Rightarrow> {0..<unat (nr_bits ax)} \<subseteq> ax_set ax
     | Some f \<Rightarrow> f < unat (nr_bits ax) \<and> f \<notin> ax_set ax \<and>
        (if unat b < f then {unat b <..< f} \<subseteq> ax_set ax
         else {unat b <..< unat (nr_bits ax)} \<union> {0..<f} \<subseteq> ax_set ax))"
proof -
  let ?S = "ax_set ax" and ?n = "unat (nr_bits ax)"
  define r where "r = next_free ?S ?n (unat b)"
  have "axmap_next_free ax b = Some (ret_u64 r)"
    unfolding r_def by (rule axmap_next_free_refines [OF assms])
  moreover have "case r of None \<Rightarrow> {0..<?n} \<subseteq> ?S
     | Some f \<Rightarrow> f < ?n \<and> f \<notin> ?S \<and> (if unat b < f then {unat b <..< f} \<subseteq> ?S
         else {unat b <..< ?n} \<union> {0..<f} \<subseteq> ?S)"
  proof (cases "first_free ?S ?n (Suc (unat b))")
    case None
    then have "r = first_free ?S ?n 0" by (simp add: r_def next_free_def)
    moreover have "{Suc (unat b)..<?n} \<subseteq> ?S" using None by (simp only: first_free_None)
    ultimately show ?thesis
      using first_free_None [of ?S ?n 0] first_free_SomeD [of ?S ?n 0 "the r"]
      by (cases r) (auto simp: Suc_le_eq subset_iff)
  next
    case (Some f)
    then have "r = Some f" by (simp add: r_def next_free_def)
    then show ?thesis using first_free_SomeD [OF Some] by (auto simp: Suc_le_eq)
  qed
  ultimately show ?thesis by blast
qed

theorem axmap_next_free_cyclic_witness:
  "\<exists>ax r. axmap_new zero_mem 1000 = Some ax \<and> axmap_next_free ax 7 = Some r \<and> r \<noteq> u64_max"
proof -
  obtain ax where ax: "axmap_new zero_mem 1000 = Some ax" "ax_inv ax" "nr_bits ax = 1000" "ax_set ax = {}"
    using sample_map by blast
  then obtain r where r: "axmap_next_free ax 7 = Some (ret_u64 r)"
    "case r of None \<Rightarrow> {0..<1000 :: nat} \<subseteq> {} | Some f \<Rightarrow> f < 1000"
    using axmap_next_free_cyclic [of ax 7] by (auto split: option.splits)
  then have "ret_u64 r \<noteq> u64_max"
    using ret_u64_None_iff [of r 1000] by (cases r) auto
  with ax(1) r(1) show ?thesis by blast
qed

end
