(* ===== verification/Random_Map.thy ===== *)
theory Random_Map
  imports Axmap_Search
begin

text \<open>
  The random map of \<^verbatim>\<open>io_u.c\<close>: \<^verbatim>\<open>random_map_free\<close>, \<^verbatim>\<open>mark_random_map\<close> and the part of
  \<^verbatim>\<open>__get_next_rand_offset\<close> that follows the generator. What they rely on is the locale
  \<open>block_map\<close>, a finite set of block numbers; it is interpreted on the axmap of \<^verbatim>\<open>lib/axmap.c\<close>.
  The main result: whatever numbers the generator yields, the blocks picked are all different,
  and after as many rounds as the file has blocks every block has been picked.
\<close>

section \<open>The interface\<close>

locale block_map =
  fixes inv :: "'m \<Rightarrow> bool" and cap :: "'m \<Rightarrow> nat" and blocks :: "'m \<Rightarrow> nat set"
    and isset :: "'m \<Rightarrow> u64 \<Rightarrow> bool option"
    and set_nr :: "'m \<Rightarrow> u64 \<Rightarrow> u32 \<Rightarrow> ('m \<times> nat) option"
    and next_unset :: "'m \<Rightarrow> u64 \<Rightarrow> u64 option"
  assumes cap_bound: "cap m < 2 ^ 64"
    and isset_law: "inv m \<Longrightarrow> unat b < cap m \<Longrightarrow> isset m b = Some (unat b \<in> blocks m)"
    and set_nr_law: "inv m \<Longrightarrow> unat b + unat n \<le> cap m \<Longrightarrow> 0 < unat n \<Longrightarrow>
      \<exists>m' k. set_nr m b n = Some (m', k) \<and> inv m' \<and> cap m' = cap m \<and>
        free_run (blocks m) (unat b) (unat n) k \<and> blocks m' = blocks m \<union> {unat b ..< unat b + k}"
    and next_law: "inv m \<Longrightarrow> unat b < cap m \<Longrightarrow>
      next_unset m b = Some (ret_u64 (next_free (blocks m) (cap m) (unat b)))"
begin

text \<open>From any start below the capacity, the block picked is fresh; a full map has none.\<close>

lemma pick_fresh:
  assumes m: "inv m" and r: "unat r < cap m" and room: "\<not> {0..<cap m} \<subseteq> blocks m"
    and busy: "unat r \<in> blocks m"
  shows "\<exists>b. next_unset m r = Some b \<and> b \<noteq> u64_max \<and> unat b < cap m \<and> unat b \<notin> blocks m"
proof -
  have "first_free (blocks m) (cap m) 0 \<noteq> None" using room by (simp add: first_free_None)
  then obtain f where nf: "next_free (blocks m) (cap m) (unat r) = Some f"
    by (cases "first_free (blocks m) (cap m) (Suc (unat r))") (auto simp: next_free_def)
  then have f: "next_free (blocks m) (cap m) (unat r) = Some f" "f < cap m" "f \<notin> blocks m"
    by (auto simp: next_free_def split: option.splits dest: first_free_SomeD)
  have "unat (of_nat f :: u64) = f" using f(2) cap_bound [of m] by (intro unat_of_nat64) simp
  moreover have "(of_nat f :: u64) \<noteq> u64_max"
  proof
    assume "(of_nat f :: u64) = u64_max"
    with \<open>unat (of_nat f :: u64) = f\<close> f(2) cap_bound [of m] unat_u64_max show False by simp
  qed
  ultimately show ?thesis using next_law [OF m r] f by (simp add: ret_u64_def)
qed

lemma pick_full:
  assumes "inv m" and "unat r < cap m" and "{0..<cap m} \<subseteq> blocks m"
  shows "next_unset m r = Some u64_max"
proof -
  have "first_free (blocks m) (cap m) b = None" for b
    unfolding first_free_None using assms(3) by auto
  then show ?thesis using next_law [OF assms(1,2)] by (simp add: next_free_def ret_u64_def)
qed

text \<open>Marking one fresh block always succeeds and adds just that block.\<close>

lemma mark_fresh:
  assumes "inv m" and "unat b < cap m" and "unat b \<notin> blocks m"
  shows "\<exists>m'. set_nr m b 1 = Some (m', 1) \<and> inv m' \<and> cap m' = cap m \<and>
    blocks m' = insert (unat b) (blocks m)"
proof -
  obtain m' k where r: "set_nr m b 1 = Some (m', k)" "inv m'" "cap m' = cap m"
    "free_run (blocks m) (unat b) 1 k" "blocks m' = blocks m \<union> {unat b ..< unat b + k}"
    using set_nr_law [OF assms(1), of b 1] assms(2) by auto
  have "k = 1" using r(4) assms(3) by (cases k) (auto simp: free_run_def)
  with r show ?thesis by auto
qed

end

interpretation axm: block_map ax_inv "\<lambda>ax. unat (nr_bits ax)" ax_set axmap_isset axmap_set_nr axmap_next_free
proof
  show "unat (nr_bits m) < 2 ^ 64" for m by (rule unat_bound64)
  show "\<exists>m' k. axmap_set_nr m b n = Some (m', k) \<and> ax_inv m' \<and> unat (nr_bits m') = unat (nr_bits m) \<and>
      free_run (ax_set m) (unat b) (unat n) k \<and> ax_set m' = ax_set m \<union> {unat b ..< unat b + k}"
    if "ax_inv m" "unat b + unat n \<le> unat (nr_bits m)" "0 < unat n" for m b n
    using axmap_set_nr_refines [OF that] by metis
qed (simp_all add: axmap_isset_refines axmap_next_free_refines)

section \<open>Definitions\<close>

text \<open>The fields of \<^verbatim>\<open>struct fio_file\<close> that the random map uses.\<close>

record fio_file =
  io_axmap :: axmap
  file_offset :: u64

definition random_map_free :: "fio_file \<Rightarrow> u64 \<Rightarrow> bool option" where
  "random_map_free f block = map_option Not (axmap_isset (io_axmap f) block)"

text \<open>
  \<open>mark_random_map min_bs busy_ok f offset buflen\<close>: \<open>min_bs\<close> is \<^verbatim>\<open>td->o.min_bs[io_u->ddir]\<close> and
  \<open>busy_ok\<close> the flag \<^verbatim>\<open>IO_U_F_BUSY_OK\<close>. A division by zero is a fault. The count is narrowed to the
  \<^verbatim>\<open>unsigned int\<close> parameter of \<^verbatim>\<open>axmap_set_nr\<close>.
\<close>

definition mark_random_map :: "u64 \<Rightarrow> bool \<Rightarrow> fio_file \<Rightarrow> u64 \<Rightarrow> u64 \<Rightarrow> (fio_file \<times> u64) option" where
  "mark_random_map min_bs busy_ok f offset buflen = do {
     c_assert (min_bs \<noteq> 0);
     let block = (offset - file_offset f) div min_bs;
     let nr_blocks = (buflen + min_bs - 1) div min_bs;
     c_assert (nr_blocks > 0);
     (f, nr_blocks) \<leftarrow>
       (if \<not> busy_ok then do {
          (ax, nr) \<leftarrow> axmap_set_nr (io_axmap f) block (ucast nr_blocks);
          c_assert (nr > 0);
          Some (f\<lparr>io_axmap := ax\<rparr>, of_nat nr)
        } else Some (f, nr_blocks));
     Some (f, if nr_blocks * min_bs < buflen then nr_blocks * min_bs else buflen)
   }"

text \<open>
  \<^verbatim>\<open>__get_next_rand_offset\<close> from the point where the generator has stored its number in \<^verbatim>\<open>*b\<close>, with
  \<open>randommap\<close> the result of \<^verbatim>\<open>file_randommap\<close>: \<open>None\<close> inside is the return value 1.
\<close>

definition get_next_rand_offset :: "bool \<Rightarrow> fio_file \<Rightarrow> u64 \<Rightarrow> u64 option option" where
  "get_next_rand_offset randommap f b =
     (if \<not> randommap then Some (Some b)
      else do {
        free \<leftarrow> random_map_free f b;
        if free then Some (Some b)
        else do {
          b \<leftarrow> axmap_next_free (io_axmap f) b;
          Some (if b = u64_max then None else Some b)
        }
      })"

text \<open>
  One round per generated number: pick a block, mark it with a transfer of \<open>min_bs\<close> bytes.
  The list holds the blocks picked; it ends early when the map is full.
\<close>

fun rand_rounds :: "u64 \<Rightarrow> fio_file \<Rightarrow> u64 list \<Rightarrow> (fio_file \<times> u64 list) option" where
  "rand_rounds min_bs f [] = Some (f, [])"
| "rand_rounds min_bs f (r # rs) = do {
     ob \<leftarrow> get_next_rand_offset True f r;
     (case ob of
        None \<Rightarrow> Some (f, [])
      | Some b \<Rightarrow> do {
          (f, len) \<leftarrow> mark_random_map min_bs False f (file_offset f + b * min_bs) min_bs;
          (f, bs) \<leftarrow> rand_rounds min_bs f rs;
          Some (f, b # bs)
        })
   }"

section \<open>One round\<close>

lemma get_next_rand_offset_fresh:
  assumes inv: "ax_inv (io_axmap f)" and r: "unat r < unat (nr_bits (io_axmap f))"
    and room: "\<not> {0..<unat (nr_bits (io_axmap f))} \<subseteq> ax_set (io_axmap f)"
  shows "\<exists>b. get_next_rand_offset True f r = Some (Some b) \<and>
    unat b < unat (nr_bits (io_axmap f)) \<and> unat b \<notin> ax_set (io_axmap f)"
proof (cases "unat r \<in> ax_set (io_axmap f)")
  case True
  with axm.pick_fresh [OF inv r room] axm.isset_law [OF inv r] show ?thesis
    by (auto simp: get_next_rand_offset_def random_map_free_def)
next
  case False
  with r axm.isset_law [OF inv r] show ?thesis
    by (auto simp: get_next_rand_offset_def random_map_free_def)
qed

lemma get_next_rand_offset_full:
  assumes inv: "ax_inv (io_axmap f)" and r: "unat r < unat (nr_bits (io_axmap f))"
    and full: "{0..<unat (nr_bits (io_axmap f))} \<subseteq> ax_set (io_axmap f)"
  shows "get_next_rand_offset True f r = Some None"
  using axm.pick_full [OF inv r full] axm.isset_law [OF inv r] full r
  by (auto simp: get_next_rand_offset_def random_map_free_def)

lemma mark_random_map_one:
  assumes inv: "ax_inv (io_axmap f)" and b: "unat b < unat (nr_bits (io_axmap f))"
    and fresh: "unat b \<notin> ax_set (io_axmap f)" and bs: "min_bs \<noteq> 0"
    and fits: "unat b * unat min_bs < 2 ^ 64" "unat min_bs < 2 ^ 63"
  shows "\<exists>f'. mark_random_map min_bs False f (file_offset f + b * min_bs) min_bs = Some (f', min_bs) \<and>
    ax_inv (io_axmap f') \<and> nr_bits (io_axmap f') = nr_bits (io_axmap f) \<and> file_offset f' = file_offset f \<and>
    ax_set (io_axmap f') = insert (unat b) (ax_set (io_axmap f))"
proof -
  obtain ax' where ax': "axmap_set_nr (io_axmap f) b 1 = Some (ax', 1)" "ax_inv ax'"
    "unat (nr_bits ax') = unat (nr_bits (io_axmap f))" "ax_set ax' = insert (unat b) (ax_set (io_axmap f))"
    using axm.mark_fresh [OF inv b fresh] by auto
  have pos: "0 < unat min_bs" using bs by (simp add: unat_gt_0)
  have "unat (b * min_bs) = unat b * unat min_bs" using fits(1) by (simp add: unat_mult_lem [THEN iffD1])
  then have "b * min_bs div min_bs = b"
    using pos by (intro word_unat_eqI) (simp add: unat_div_distrib)
  moreover have "(min_bs + min_bs - 1) div min_bs = 1"
  proof (rule word_unat_eqI)
    have "unat (min_bs + min_bs) = 2 * unat min_bs"
      using fits(2) by (subst unat_add_small) simp_all
    then have "unat (min_bs + min_bs - 1) = (unat min_bs - 1) + unat min_bs"
      using pos by (subst unat_minus_one) auto
    moreover have "(unat min_bs - 1 + unat min_bs) div unat min_bs = 1"
      by (rule div_nat_eqI) (use pos in auto)
    ultimately show "unat ((min_bs + min_bs - 1) div min_bs) = unat (1 :: u64)"
      by (simp only: unat_div_distrib unat_1)
  qed
  ultimately have "mark_random_map min_bs False f (file_offset f + b * min_bs) min_bs =
      Some (f\<lparr>io_axmap := ax'\<rparr>, min_bs)"
    using ax'(1) bs by (simp add: mark_random_map_def c_assert_def)
  with ax'(2-4) show ?thesis by (intro exI [of _ "f\<lparr>io_axmap := ax'\<rparr>"]) (simp add: word_unat_eqI [OF ax'(3)])
qed

lemma rand_rounds_spec:
  assumes "ax_inv (io_axmap f)" and "n = unat (nr_bits (io_axmap f))"
    and "\<And>r. r \<in> set rs \<Longrightarrow> unat r < n"
    and "length rs \<le> card ({0..<n} - ax_set (io_axmap f))"
    and "min_bs \<noteq> 0" and "n * unat min_bs < 2 ^ 63"
  shows "\<exists>f' bs. rand_rounds min_bs f rs = Some (f', bs) \<and> length bs = length rs \<and>
    distinct (map unat bs) \<and> unat ` set bs \<subseteq> {0..<n} - ax_set (io_axmap f) \<and>
    ax_inv (io_axmap f') \<and> nr_bits (io_axmap f') = nr_bits (io_axmap f) \<and>
    ax_set (io_axmap f') = ax_set (io_axmap f) \<union> unat ` set bs"
  using assms
proof (induction rs arbitrary: f)
  case Nil
  then show ?case by simp
next
  case (Cons r rs)
  let ?S = "ax_set (io_axmap f)"
  have "\<not> {0..<n} \<subseteq> ?S"
  proof
    assume "{0..<n} \<subseteq> ?S"
    then have "{0..<n} - ?S = {}" by auto
    with Cons.prems(4) show False by simp
  qed
  then obtain b where b: "get_next_rand_offset True f r = Some (Some b)" "unat b < n" "unat b \<notin> ?S"
    using get_next_rand_offset_fresh [OF Cons.prems(1)] Cons.prems(2,3) by auto
  have pos: "0 < n" using b(2) by simp
  have "unat b * unat min_bs \<le> n * unat min_bs" "unat min_bs \<le> n * unat min_bs"
    using b(2) pos by (simp_all only: mult_le_mono1 less_imp_le) simp
  then have small: "unat b * unat min_bs < 2 ^ 63" and fits2: "unat min_bs < 2 ^ 63"
    using Cons.prems(6) by (blast intro: le_less_trans)+
  from small have fits: "unat b * unat min_bs < 2 ^ 64" by simp
  obtain f1 where f1: "mark_random_map min_bs False f (file_offset f + b * min_bs) min_bs = Some (f1, min_bs)"
    "ax_inv (io_axmap f1)" "nr_bits (io_axmap f1) = nr_bits (io_axmap f)" "ax_set (io_axmap f1) = insert (unat b) ?S"
    using mark_random_map_one [OF Cons.prems(1) b(2) [unfolded Cons.prems(2)] b(3) Cons.prems(5) fits fits2] by blast
  have "{0..<n} - insert (unat b) ?S = ({0..<n} - ?S) - {unat b}" by auto
  then have "card ({0..<n} - insert (unat b) ?S) = card ({0..<n} - ?S) - 1"
    using b by (simp add: card_Diff_singleton)
  then have "length rs \<le> card ({0..<n} - ax_set (io_axmap f1))"
    using Cons.prems(4) f1(4) by simp
  then obtain f' bs where r: "rand_rounds min_bs f1 rs = Some (f', bs)" "length bs = length rs"
    "distinct (map unat bs)" "unat ` set bs \<subseteq> {0..<n} - ax_set (io_axmap f1)"
    "ax_inv (io_axmap f')" "nr_bits (io_axmap f') = nr_bits (io_axmap f1)"
    "ax_set (io_axmap f') = ax_set (io_axmap f1) \<union> unat ` set bs"
    using Cons.IH [OF f1(2)] Cons.prems f1(3) by auto
  have "rand_rounds min_bs f (r # rs) = Some (f', b # bs)"
    using b(1) f1(1) r(1) by simp
  moreover have "distinct (map unat (b # bs))" using r(3,4) f1(4) by auto
  ultimately show ?case using r f1(3,4) b by auto
qed

section \<open>Properties\<close>

text \<open>
  C1 (safety): with a random map, \<open>n\<close> rounds that transfer one block each, over a file of \<open>n\<close> blocks that starts with an empty map,
  pick every block exactly once, in whatever order the generator's numbers come and however often
  they repeat; then the map is full and the next pick reports that there is no block left.
\<close>

theorem rand_rounds_cover:
  assumes "ax_inv (io_axmap f)" and "n = unat (nr_bits (io_axmap f))" and "ax_set (io_axmap f) = {}"
    and "length rs = n" and "\<forall>r \<in> set rs. unat r < n"
    and "min_bs \<noteq> 0" and "n * unat min_bs < 2 ^ 63"
  shows "\<exists>f' bs. rand_rounds min_bs f rs = Some (f', bs) \<and> distinct bs \<and> unat ` set bs = {0..<n} \<and>
    (\<forall>r. unat r < n \<longrightarrow> get_next_rand_offset True f' r = Some None)"
proof -
  obtain f' bs where r: "rand_rounds min_bs f rs = Some (f', bs)" "length bs = n" "distinct (map unat bs)"
    "unat ` set bs \<subseteq> {0..<n}" "ax_inv (io_axmap f')" "nr_bits (io_axmap f') = nr_bits (io_axmap f)"
    "ax_set (io_axmap f') = unat ` set bs"
    using rand_rounds_spec [OF assms(1,2), of rs min_bs] assms by auto
  have "card (unat ` set bs) = n" using distinct_card [OF r(3)] r(2) by simp
  then have cover: "unat ` set bs = {0..<n}"
    using card_subset_eq [OF _ r(4)] by simp
  moreover have "get_next_rand_offset True f' r' = Some None" if "unat r' < n" for r'
    using get_next_rand_offset_full [OF r(5)] that r(6,7) assms(2) cover by simp
  moreover have "distinct bs" using r(3) distinct_map by blast
  ultimately show ?thesis using r(1) by blast
qed

theorem rand_rounds_cover_witness:
  "\<exists>ax f' bs. axmap_new zero_mem 3 = Some ax \<and>
    rand_rounds 512 \<lparr>io_axmap = ax, file_offset = 4096\<rparr> [1, 1, 1] = Some (f', bs) \<and> unat ` set bs = {0..<3}"
proof -
  obtain ax where "axmap_new zero_mem 3 = Some ax" "ax_inv ax" "nr_bits ax = 3" "ax_set ax = {}"
    using axmap_new_refines [of 3 zero_mem] by (auto simp: zero_mem_def)
  then show ?thesis
    using rand_rounds_cover [of "\<lparr>io_axmap = ax, file_offset = 4096\<rparr>" 3 "[1, 1, 1]" 512] by simp blast
qed

end
