(* ===== verification/Lfsr_Period.thy ===== *)
theory Lfsr_Period
  imports Lfsr "HOL-Library.Multiset"
begin

text \<open>
  The shift register of \<^verbatim>\<open>lib/lfsr.c\<close> as a permutation of its states, the walk that spins and
  cycle jumps make over a full period, and what the calls after \<^verbatim>\<open>lfsr_init\<close> return.
\<close>

section \<open>One step\<close>

text \<open>The fields that make a register of \<open>n\<close> bits.\<close>

definition lfsr_width :: "nat \<Rightarrow> fio_lfsr \<Rightarrow> bool" where
  "lfsr_width n fl \<longleftrightarrow> 3 \<le> n \<and> n < 64 \<and> cached_bit fl = push_bit (n - 1) 1 \<and>
     (\<forall>i. bit (xormask fl) i \<longrightarrow> i < n) \<and> bit (xormask fl) (n - 1)"

definition lfsr_state :: "nat \<Rightarrow> u64 set" where
  "lfsr_state n = {v. unat v < 2 ^ n - 1}"

lemma parity_mask: "(v AND 1) - 1 = (if bit v 0 then 0 else - 1)" for v :: u64
  by (cases "even v") (simp_all add: and_one_eq odd_iff_mod_2_eq_one even_iff_mod_2_eq_zero bit_0)

lemma bit_step:
  assumes "lfsr_width n fl" and "\<And>i. n \<le> i \<Longrightarrow> \<not> bit v i"
  shows "bit (LFSR_NEXT fl v) i \<longleftrightarrow>
    i < n \<and> ((bit v (Suc i) \<or> i = n - 1) \<noteq> (\<not> bit v 0 \<and> bit (xormask fl) i))"
proof (cases "i < n")
  case True
  then have "i < 64" using assms(1) by (simp add: lfsr_width_def)
  then show ?thesis using assms(1) True
    by (auto simp: LFSR_NEXT_def parity_mask lfsr_width_def bit_simps)
next
  case False
  then show ?thesis using assms
    by (auto simp: LFSR_NEXT_def parity_mask lfsr_width_def bit_simps)
qed

lemma below_width_iff: "n \<le> 64 \<Longrightarrow> unat v < 2 ^ n \<longleftrightarrow> (\<forall>i \<ge> n. \<not> bit v i)" for v :: u64
proof
  assume "unat v < 2 ^ n"
  then show "\<forall>i \<ge> n. \<not> bit v i"
    by (metis bit_word_nat bit_take_bit_iff not_le take_bit_nat_eq_self)
next
  assume n: "n \<le> 64" and zero: "\<forall>i \<ge> n. \<not> bit v i"
  have "take_bit n v = v" by (rule bit_word_eqI) (use zero not_le in \<open>auto simp: bit_simps\<close>)
  then have "unat v = take_bit n (unat v)" by (metis unsigned_take_bit_eq)
  then show "unat v < 2 ^ n" by (metis take_bit_nat_less_exp)
qed

lemma step_width:
  assumes "lfsr_width n fl" and "unat v < 2 ^ n"
  shows "unat (LFSR_NEXT fl v) < 2 ^ n"
proof -
  have n: "n \<le> 64" using assms(1) by (simp add: lfsr_width_def)
  then show ?thesis
    using bit_step [OF assms(1), of v] assms(2) by (simp add: below_width_iff)
qed

lemma step_inj:
  assumes w: "lfsr_width n fl" and v: "unat v < 2 ^ n" "unat v' < 2 ^ n"
    and eq: "LFSR_NEXT fl v = LFSR_NEXT fl v'"
  shows "v = v'"
proof (rule bit_word_eqI)
  have n: "n \<le> 64" "3 \<le> n" "bit (xormask fl) (n - 1)" using w by (auto simp: lfsr_width_def)
  have z: "\<And>i. n \<le> i \<Longrightarrow> \<not> bit v i" "\<And>i. n \<le> i \<Longrightarrow> \<not> bit v' i"
    using v n by (auto simp: below_width_iff)
  note b = bit_step [OF w z(1)] and b' = bit_step [OF w z(2)]
  have low: "bit v 0 = bit v' 0"
    using b [of "n - 1"] b' [of "n - 1"] n z by (simp add: eq)
  fix i
  show "bit v i \<longleftrightarrow> bit v' i"
  proof (cases i)
    case 0
    then show ?thesis using low by simp
  next
    case (Suc i')
    then show ?thesis
      using b [of i'] b' [of i'] low z [of i] by (cases "i' < n - 1") (auto simp: eq)
  qed
qed

lemma unat_mask64: "n \<le> 64 \<Longrightarrow> unat (mask n :: u64) = 2 ^ n - 1"
proof -
  assume "n \<le> 64"
  then have "unat (mask n :: u64) = mask n" by (intro bit_eqI) (auto simp: bit_unsigned_iff bit_mask_iff)
  then show ?thesis by (simp add: mask_eq_exp_minus_1)
qed

lemma step_ones: "lfsr_width n fl \<Longrightarrow> LFSR_NEXT fl (mask n) = mask n"
proof (rule bit_word_eqI)
  fix i
  assume w: "lfsr_width n fl"
  then show "bit (LFSR_NEXT fl (mask n)) i = bit (mask n :: u64) i"
    by (subst bit_step [OF w]) (auto simp: bit_mask_iff lfsr_width_def)
qed

lemma lfsr_state_iff:
  assumes "n \<le> 64" "0 < n"
  shows "v \<in> lfsr_state n \<longleftrightarrow> unat v < 2 ^ n \<and> v \<noteq> mask n"
proof -
  have "v = mask n \<longleftrightarrow> unat v = 2 ^ n - 1"
    using unat_mask64 [OF assms(1)] by (metis word_unat_eqI)
  moreover have "(0 :: nat) < 2 ^ n" by simp
  ultimately show ?thesis by (auto simp: lfsr_state_def)
qed

lemma step_state:
  assumes w: "lfsr_width n fl" and v: "v \<in> lfsr_state n"
  shows "LFSR_NEXT fl v \<in> lfsr_state n"
proof -
  have n: "n \<le> 64" "0 < n" using w by (auto simp: lfsr_width_def)
  note iff = lfsr_state_iff [OF n]
  have m: "unat (mask n :: u64) < 2 ^ n" using unat_mask64 [OF n(1)] by simp
  have "LFSR_NEXT fl v \<noteq> mask n"
    using step_inj [OF w _ m, of v] step_ones [OF w] v iff by auto
  then show ?thesis using step_width [OF w, of v] v iff by simp
qed

lemma finite_lfsr_state: "finite (lfsr_state n)" by simp

lemma card_lfsr_state: "n < 64 \<Longrightarrow> card (lfsr_state n) = 2 ^ n - 1"
proof -
  assume n: "n < 64"
  have pow: "(2 :: nat) ^ n < 2 ^ 64" by (rule power_strict_increasing [OF n]) simp
  have "inj_on (of_nat :: nat \<Rightarrow> u64) {0..<2 ^ n - 1}"
    by (rule inj_on_inverseI [where g = unat], rule unat_of_nat64) (use pow in auto)
  moreover have "lfsr_state n = of_nat ` {0..<2 ^ n - 1}"
  proof (intro equalityI subsetI)
    fix v :: u64
    assume "v \<in> lfsr_state n"
    then show "v \<in> of_nat ` {0..<2 ^ n - 1}"
      by (intro image_eqI [of _ _ "unat v"]) (simp_all add: lfsr_state_def)
  next
    fix v :: u64
    assume "v \<in> of_nat ` {0..<2 ^ n - 1}"
    then show "v \<in> lfsr_state n" using pow by (auto simp: lfsr_state_def unat_of_nat64)
  qed
  ultimately show ?thesis by (simp add: card_image)
qed

section \<open>Full cycles\<close>

text \<open>\<open>T\<close> permutes the finite set \<open>X\<close> and comes returns to \<open>z\<close> only after it has seen all of \<open>X\<close>.\<close>

definition full_cycle :: "('a \<Rightarrow> 'a) \<Rightarrow> 'a set \<Rightarrow> 'a \<Rightarrow> bool" where
  "full_cycle T X z \<longleftrightarrow> finite X \<and> T ` X \<subseteq> X \<and> inj_on T X \<and> z \<in> X \<and>
     (\<forall>k. 0 < k \<and> k < card X \<longrightarrow> (T ^^ k) z \<noteq> z)"

lemma funpow_split: "(T ^^ (a + b)) x = (T ^^ a) ((T ^^ b) x)"
  by (simp add: funpow_add)

lemma funpow_swap: "(T ^^ a) ((T ^^ b) x) = (T ^^ b) ((T ^^ a) x)"
  unfolding funpow_split [symmetric] by (simp only: add.commute)

lemma full_cycle_closed: "full_cycle T X z \<Longrightarrow> x \<in> X \<Longrightarrow> (T ^^ k) x \<in> X"
  by (induction k) (auto simp: full_cycle_def)

lemma full_cycle_cancel:
  assumes fc: "full_cycle T X z" and "x \<in> X" "y \<in> X" and "(T ^^ k) x = (T ^^ k) y"
  shows "x = y"
  using assms(4)
proof (induction k)
  case (Suc k)
  then have "(T ^^ k) x = (T ^^ k) y"
    using fc full_cycle_closed [OF fc] assms(2,3) by (auto simp: full_cycle_def dest: inj_onD)
  then show ?case by (rule Suc.IH)
qed simp

lemma full_cycle_distinct:
  assumes fc: "full_cycle T X z" and "i < j" "j < card X"
  shows "(T ^^ i) z \<noteq> (T ^^ j) z"
proof
  assume "(T ^^ i) z = (T ^^ j) z"
  also have "\<dots> = (T ^^ i) ((T ^^ (j - i)) z)" unfolding funpow_split [symmetric] using assms(2) by simp
  finally have "z = (T ^^ (j - i)) z"
    using full_cycle_cancel [OF fc, of z "(T ^^ (j - i)) z"] full_cycle_closed [OF fc] fc
    by (simp add: full_cycle_def)
  then show False using fc assms(2,3) unfolding full_cycle_def by (metis less_imp_diff_less zero_less_diff)
qed

lemma full_cycle_cover:
  assumes fc: "full_cycle T X z"
  shows "(\<lambda>k. (T ^^ k) z) ` {..<card X} = X"
proof (rule card_subset_eq)
  show "finite X" using fc by (simp add: full_cycle_def)
  show "(\<lambda>k. (T ^^ k) z) ` {..<card X} \<subseteq> X"
    using full_cycle_closed [OF fc] fc by (auto simp: full_cycle_def)
  have "inj_on (\<lambda>k. (T ^^ k) z) {..<card X}"
    using full_cycle_distinct [OF fc] by (auto intro!: inj_onI) (metis linorder_neqE_nat)
  then show "card ((\<lambda>k. (T ^^ k) z) ` {..<card X}) = card X" by (simp add: card_image)
qed

lemma full_cycle_period:
  assumes fc: "full_cycle T X z" and x: "x \<in> X"
  shows "(T ^^ card X) x = x"
proof -
  have zX: "z \<in> X" using fc by (simp add: full_cycle_def)
  have "(T ^^ card X) z \<in> (\<lambda>k. (T ^^ k) z) ` {..<card X}"
    unfolding full_cycle_cover [OF fc] by (rule full_cycle_closed [OF fc zX])
  then obtain i where i: "i < card X" "(T ^^ card X) z = (T ^^ i) z" by auto
  have "(T ^^ i) ((T ^^ (card X - i)) z) = (T ^^ i) z"
    unfolding funpow_split [symmetric] using i by simp
  then have returns: "(T ^^ (card X - i)) z = z"
    using full_cycle_cancel [OF fc] full_cycle_closed [OF fc zX] zX by blast
  have "i = 0"
  proof (rule ccontr)
    assume "i \<noteq> 0"
    then have "0 < card X - i" "card X - i < card X" using i(1) by auto
    with returns fc show False by (auto simp: full_cycle_def)
  qed
  with returns have z: "(T ^^ card X) z = z" by simp
  obtain a where a: "x = (T ^^ a) z" using full_cycle_cover [OF fc] x by blast
  have "(T ^^ card X) x = (T ^^ a) ((T ^^ card X) z)"
    unfolding a by (rule funpow_swap)
  then show ?thesis using z a by simp
qed

lemma full_cycle_mod:
  assumes fc: "full_cycle T X z" and x: "x \<in> X"
  shows "(T ^^ p) x = (T ^^ (p mod card X)) x"
proof -
  have "(T ^^ (card X * k)) x = x" for k
    by (induction k) (simp_all add: full_cycle_period [OF fc x] funpow_add)
  then have "(T ^^ (p mod card X)) ((T ^^ (card X * (p div card X))) x) = (T ^^ (p mod card X)) x" by simp
  then show ?thesis unfolding funpow_split [symmetric] by simp
qed

lemma full_cycle_eq_iff:
  assumes fc: "full_cycle T X z" and x: "x \<in> X"
  shows "(T ^^ p) x = (T ^^ q) x \<longleftrightarrow> p mod card X = q mod card X"
proof -
  have pos: "0 < card X" using fc by (auto simp: full_cycle_def card_gt_0_iff)
  obtain a where a: "x = (T ^^ a) z" using full_cycle_cover [OF fc] x by blast
  have zX: "z \<in> X" using fc by (simp add: full_cycle_def)
  have shift: "(T ^^ r) x = (T ^^ a) ((T ^^ r) z)" for r
    unfolding a by (rule funpow_swap)
  have "(T ^^ p) x = (T ^^ q) x \<longleftrightarrow> (T ^^ (p mod card X)) z = (T ^^ (q mod card X)) z"
    unfolding shift full_cycle_mod [OF fc zX, of p, symmetric] full_cycle_mod [OF fc zX, of q, symmetric]
    using full_cycle_cancel [OF fc, of "(T ^^ p) z" "(T ^^ q) z" a] full_cycle_closed [OF fc zX] by auto
  also have "\<dots> \<longleftrightarrow> p mod card X = q mod card X"
    using full_cycle_distinct [OF fc] pos by (metis linorder_neqE_nat mod_less_divisor)
  finally show ?thesis .
qed

section \<open>The walk of the loop body\<close>

text \<open>The steps of a jump: with spin 15 the switch has no case for 16.\<close>

definition jump_steps :: "nat \<Rightarrow> nat" where
  "jump_steps s = (if s + 1 \<le> 15 then s + 2 else 0)"

text \<open>The number of single steps after \<open>k > 0\<close> loop bodies, for the sub-cycle length \<open>c\<close>.\<close>

definition walk_pos :: "nat \<Rightarrow> nat \<Rightarrow> nat \<Rightarrow> nat" where
  "walk_pos s c k = (if c = 0 then jump_steps s + (k - 1) * (s + 1) else k * (s + 1) + (k - 1) div c)"

lemma lfsr_next_case_funpow: "lfsr_next_case fl s v = (LFSR_NEXT fl ^^ Suc s) v"
  by (induction fl s v rule: lfsr_next_case.induct) (simp_all add: funpow_swap1)

lemma LFSR_NEXT_fields [simp]:
  "LFSR_NEXT (fl\<lparr>last_val := v\<rparr>) = LFSR_NEXT fl" "LFSR_NEXT (fl\<lparr>cycle_length := c\<rparr>) = LFSR_NEXT fl"
  "LFSR_NEXT (fl\<lparr>num_vals := m\<rparr>) = LFSR_NEXT fl"
  by (simp_all add: LFSR_NEXT_def fun_eq_iff)

lemma lfsr_next_case_fields [simp]: "lfsr_next_case (fl\<lparr>cycle_length := c\<rparr>) s v = lfsr_next_case fl s v"
  by (simp add: lfsr_next_case_funpow)

lemma lfsr_body_jump:
  assumes "cycle_length fl = 1"
  shows "lfsr_body fl = fl\<lparr>last_val := (LFSR_NEXT fl ^^ jump_steps (spin fl)) (last_val fl),
    cycle_length := cached_cycle_length fl\<rparr>"
  using assms
  by (simp add: lfsr_body_def lfsr_next_switch_def lfsr_next_case_funpow jump_steps_def Let_def)

lemma lfsr_body_plain:
  assumes "cycle_length fl \<noteq> 1" and "spin fl \<le> 15"
  shows "lfsr_body fl = fl\<lparr>last_val := (LFSR_NEXT fl ^^ (spin fl + 1)) (last_val fl),
    cycle_length := (if cycle_length fl = 0 then 0 else cycle_length fl - 1)\<rparr>"
  using assms
  by (auto simp: lfsr_body_def lfsr_next_switch_def lfsr_next_case_funpow Let_def)

text \<open>The state after \<open>k > 0\<close> bodies.\<close>

definition walk_state :: "fio_lfsr \<Rightarrow> nat \<Rightarrow> nat \<Rightarrow> fio_lfsr" where
  "walk_state fl c k = fl\<lparr>last_val := (LFSR_NEXT fl ^^ walk_pos (spin fl) c k) (last_val fl),
     cycle_length := of_nat (if c = 0 then 0 else c - (k - 1) mod c)\<rparr>"

lemma funpow_join: "(T ^^ a) ((T ^^ b) x) = (T ^^ (b + a)) x"
  by (simp only: funpow_split [symmetric] add.commute)

lemma walk_pos_plain:
  "c = 0 \<or> Suc (k mod c) \<noteq> c \<Longrightarrow> walk_pos s c (Suc (Suc k)) = walk_pos s c (Suc k) + Suc s"
  by (auto simp: walk_pos_def div_Suc mod_Suc)

lemma walk_pos_jump:
  "Suc (k mod c) = c \<Longrightarrow> s < 15 \<Longrightarrow> walk_pos s c (Suc (Suc k)) = walk_pos s c (Suc k) + jump_steps s"
  by (auto simp: walk_pos_def div_Suc mod_Suc jump_steps_def)

lemma walk:
  assumes sp: "spin fl \<le> 15" and cl: "cycle_length fl = of_nat c + 1" "cached_cycle_length fl = of_nat c"
    and c: "c + 1 < 2 ^ 64" "c \<noteq> 0 \<Longrightarrow> spin fl < 15"
  shows "(lfsr_body ^^ Suc k) fl = walk_state fl c (Suc k)"
proof (induction k)
  case 0
  show ?case
  proof (cases "c = 0")
    case True
    then show ?thesis using lfsr_body_jump [of fl] cl by (simp add: walk_state_def walk_pos_def)
  next
    case False
    have "(of_nat c + 1 :: u64) \<noteq> 1" using False c(1) unat_of_nat64 [of c] by auto
    moreover have "(of_nat c + 1 :: u64) \<noteq> 0" using unat_of_nat64 [of "c + 1"] c(1) by (auto simp: add.commute)
    ultimately show ?thesis
      using lfsr_body_plain [of fl] cl sp False by (simp add: walk_state_def walk_pos_def)
  qed
next
  case (Suc k)
  let ?fl = "walk_state fl c (Suc k)"
  have step: "(lfsr_body ^^ Suc (Suc k)) fl = lfsr_body ?fl" using Suc.IH by simp
  have f: "spin ?fl = spin fl" "cached_cycle_length ?fl = of_nat c" "LFSR_NEXT ?fl = LFSR_NEXT fl"
    "last_val ?fl = (LFSR_NEXT fl ^^ walk_pos (spin fl) c (Suc k)) (last_val fl)"
    using cl by (simp_all add: walk_state_def)
  show ?case
  proof (cases "c = 0")
    case True
    then have "cycle_length ?fl = 0" by (simp add: walk_state_def)
    then have "lfsr_body ?fl = walk_state fl c (Suc (Suc k))"
      using lfsr_body_plain [of ?fl] sp f True walk_pos_plain [of c k "spin fl"]
      by (simp add: walk_state_def funpow_join del: funpow.simps)
    with step show ?thesis by simp
  next
    case False
    have c64: "c - k mod c < 2 ^ 64" using c(1) by simp
    have cyc: "cycle_length ?fl = of_nat (c - k mod c)" using False by (simp add: walk_state_def)
    show ?thesis
    proof (cases "Suc (k mod c) = c")
      case True
      then have next0: "Suc k mod c = 0" by (simp add: mod_Suc)
      have "c - k mod c = 1" using True by linarith
      then have "cycle_length ?fl = 1" using cyc by simp
      then have "lfsr_body ?fl = walk_state fl c (Suc (Suc k))"
        using lfsr_body_jump [of ?fl] f False next0 walk_pos_jump [OF True c(2) [OF False]]
        by (simp add: walk_state_def funpow_join del: funpow.simps)
      with step show ?thesis by simp
    next
      case F: False
      then have next1: "Suc k mod c = Suc (k mod c)" by (simp add: mod_Suc)
      have lt: "k mod c < c" using False by simp
      have "unat (cycle_length ?fl) = c - k mod c" using cyc unat_of_nat64 [OF c64] by simp
      moreover have "c - k mod c \<noteq> 1" "c - k mod c \<noteq> 0" using F lt by linarith+
      ultimately have ne: "cycle_length ?fl \<noteq> 1" "cycle_length ?fl \<noteq> 0" by auto
      have "c - k mod c = Suc (c - Suc (k mod c))" using lt by linarith
      then have "cycle_length ?fl - 1 = of_nat (c - Suc (k mod c))" using cyc by simp
      then have "lfsr_body ?fl = walk_state fl c (Suc (Suc k))"
        using lfsr_body_plain [OF ne(1)] ne(2) f sp False next1 walk_pos_plain [of c k "spin fl"] F
        by (simp add: walk_state_def funpow_join del: funpow.simps)
      with step show ?thesis by simp
    qed
  qed
qed

section \<open>Sub-cycles of a spin\<close>

text \<open>The length of the cycle that steps of \<open>s + 1\<close> make in a cycle of length \<open>m\<close>, 0 for \<open>m\<close> itself.\<close>

definition spin_cycle :: "nat \<Rightarrow> nat \<Rightarrow> nat" where
  "spin_cycle m s = (if gcd m (s + 1) = 1 then 0 else m div gcd m (s + 1))"

lemma spin_hit_iff: "(s + 1) dvd (m mod (s + 1)) * i \<longleftrightarrow> ((s + 1) div gcd m (s + 1)) dvd i" for m s i :: nat
proof -
  let ?g = "gcd m (s + 1)"
  have g: "0 < ?g" by simp
  obtain a b where ab: "m = ?g * a" "s + 1 = ?g * b" by (metis dvd_def gcd_dvd1 gcd_dvd2)
  have cop: "coprime b a"
  proof -
    have "?g * gcd a b = ?g" using ab by (metis gcd_mult_distrib_nat)
    then show ?thesis using g by (simp add: coprime_iff_gcd_eq_1 gcd.commute)
  qed
  have "(s + 1) dvd (m mod (s + 1)) * i \<longleftrightarrow> (s + 1) dvd m * i"
    by (metis dvd_eq_mod_eq_0 mod_mult_left_eq)
  also have "\<dots> \<longleftrightarrow> ?g * b dvd ?g * (a * i)" using ab by (metis mult.assoc)
  also have "\<dots> \<longleftrightarrow> b dvd i" using g cop by (simp add: coprime_dvd_mult_right_iff)
  also have "b = (s + 1) div ?g" using ab(2) g by (metis nonzero_mult_div_cancel_left not_gr_zero)
  finally show ?thesis .
qed

fun spin_search :: "nat \<Rightarrow> nat \<Rightarrow> nat list \<Rightarrow> nat" where
  "spin_search m s [] = 0"
| "spin_search m s (i # is) =
     (if (m mod (s + 1) * i) mod (s + 1) = 0
      then m div (s + 1) * i + (m mod (s + 1) * i) div (s + 1)
      else spin_search m s is)"

lemma spin_search_value:
  assumes "0 < j" and hit: "\<And>i. i \<in> set is \<Longrightarrow> (m mod (s + 1) * i) mod (s + 1) = 0 \<longleftrightarrow> j dvd i"
  shows "is = [a..<b] \<Longrightarrow> 0 < a \<Longrightarrow> a \<le> j \<Longrightarrow>
    spin_search m s is = (if j < b then m div (s + 1) * j + (m mod (s + 1) * j) div (s + 1) else 0)"
  using hit
proof (induction "is" arbitrary: a)
  case (Cons i "is")
  then have ab: "i = a" "is = [Suc a..<b]" "a < b"
    using Cons.prems(1) [symmetric, unfolded upt_eq_Cons_conv] by auto
  show ?case
  proof (cases "a = j")
    case True
    then show ?thesis using Cons.prems(4) [of a] ab assms(1) by simp
  next
    case False
    then have "a < j" using Cons.prems(3) by simp
    then have "\<not> j dvd a" using Cons.prems(2) by (auto dest: dvd_imp_le)
    then have "spin_search m s (i # is) = spin_search m s is" using Cons.prems(4) [of a] ab by simp
    then show ?thesis using Cons.IH [OF ab(2)] Cons.prems(4) \<open>a < j\<close> ab by simp
  qed
next
  case Nil
  from Nil.prems(1) have "[a..<b] = []" by (rule sym)
  then show ?case using Nil.prems(3) by auto
qed

lemma div_split: "(m :: nat) * j div (s + 1) = m div (s + 1) * j + (m mod (s + 1) * j) div (s + 1)"
proof -
  have mj: "m * j = (s + 1) * (m div (s + 1) * j) + m mod (s + 1) * j"
    by (metis add_mult_distrib mult.assoc mult_div_mod_eq)
  show ?thesis unfolding mj by (rule div_mult_self4) simp
qed

lemma spin_search_cycle: "spin_search m s [1..<Suc s] = spin_cycle m s"
proof -
  let ?g = "gcd m (s + 1)"
  let ?j = "(s + 1) div ?g"
  have "?g dvd s + 1" by (rule gcd_dvd2)
  then have gj: "s + 1 = ?g * ?j" by simp
  then have j: "0 < ?j" by (metis add_is_0 mult_is_0 neq0_conv zero_neq_one)
  have "spin_search m s [1..<Suc s] =
    (if ?j < Suc s then m div (s + 1) * ?j + (m mod (s + 1) * ?j) div (s + 1) else 0)"
    using spin_search_value [OF j, of "[1..<Suc s]" m s 1 "Suc s"] spin_hit_iff [of s m] j
    by (simp add: dvd_eq_mod_eq_0 [symmetric])
  moreover have "?j < Suc s \<longleftrightarrow> ?g \<noteq> 1"
  proof
    assume "?j < Suc s"
    then show "?g \<noteq> 1" by auto
  next
    assume "?g \<noteq> 1"
    moreover have "?g \<noteq> 0" by simp
    ultimately have "2 \<le> ?g" by linarith
    then have "2 * ?j \<le> s + 1" using gj by (metis mult_le_mono1)
    then show "?j < Suc s" using j by linarith
  qed
  moreover have "m div (s + 1) * ?j + (m mod (s + 1) * ?j) div (s + 1) = m div ?g"
  proof -
    have "m * ?j div (s + 1) = m div ?g"
      using gj j by (metis div_mult_mult2 neq0_conv)
    then show ?thesis unfolding div_split [symmetric] .
  qed
  ultimately show ?thesis by (simp add: spin_cycle_def)
qed

text \<open>A full period of the walk visits all positions.\<close>

lemma mod_eq_dvd_nat: "(a :: nat) \<le> b \<Longrightarrow> a mod m = b mod m \<longleftrightarrow> m dvd b - a"
  by (metis mod_eq_dvd_iff_nat)

lemma walk_pos_inj:
  assumes m: "0 < m" and k: "0 < k" "k \<le> k'" "k' \<le> m"
    and eq: "walk_pos s (spin_cycle m s) k mod m = walk_pos s (spin_cycle m s) k' mod m"
  shows "k = k'"
proof -
  let ?g = "gcd m (s + 1)"
  have dvd_small: "k = k'" if "d dvd k' - k" "k' - k < d" for d
    using that k(2) by (metis diff_is_0_eq' dvd_imp_le le_antisym not_le zero_less_diff)
  show ?thesis
  proof (cases "?g = 1")
    case True
    then have c: "spin_cycle m s = 0" by (simp add: spin_cycle_def)
    have le: "jump_steps s + (k - 1) * (s + 1) \<le> jump_steps s + (k' - 1) * (s + 1)"
      using k(2) by (intro add_left_mono mult_le_mono1 diff_le_mono)
    have "m dvd (k' - 1) * (s + 1) - (k - 1) * (s + 1)"
      using eq [unfolded walk_pos_def c] mod_eq_dvd_nat [OF le, of m] by simp
    moreover have "(k' - 1) - (k - 1) = k' - k" using k(1,2) by simp
    then have "(k' - 1) * (s + 1) - (k - 1) * (s + 1) = (k' - k) * (s + 1)"
      by (metis diff_mult_distrib)
    ultimately have "m dvd (k' - k) * (s + 1)" by simp
    moreover have "coprime m (s + 1)" using True by (simp only: coprime_iff_gcd_eq_1)
    ultimately have "m dvd k' - k" by (simp only: coprime_dvd_mult_left_iff)
    then show ?thesis using dvd_small k by auto
  next
    case False
    let ?L = "m div ?g"
    have g: "0 < ?g" "?g dvd m" "?g dvd s + 1" using m by auto
    have mL: "m = ?g * ?L" using g by simp
    have L: "0 < ?L" using mL m by (metis gr0I mult_0_right)
    have c: "spin_cycle m s = ?L" using False by (simp add: spin_cycle_def)
    have pos: "walk_pos s (spin_cycle m s) i = i * (s + 1) + (i - 1) div ?L" for i
      using L by (simp add: c walk_pos_def)
    have modg: "walk_pos s (spin_cycle m s) i mod m mod ?g = (i - 1) div ?L" if "0 < i" "i \<le> m" for i
    proof -
      have "i - 1 < ?g * ?L" using that mL by linarith
      then have "(i - 1) div ?L < ?g" by (simp add: less_mult_imp_div_less)
      moreover have "walk_pos s (spin_cycle m s) i mod m mod ?g = (i * (s + 1) + (i - 1) div ?L) mod ?g"
        unfolding pos using g(2) by (rule mod_mod_cancel)
      moreover have "i * (s + 1) mod ?g = 0" using g(3) by (metis dvd_eq_mod_eq_0 dvd_mult)
      ultimately show ?thesis by (metis add_0 mod_add_left_eq mod_less)
    qed
    have q: "(k - 1) div ?L = (k' - 1) div ?L" using modg [of k] modg [of k'] eq k by simp
    then have le: "walk_pos s (spin_cycle m s) k \<le> walk_pos s (spin_cycle m s) k'"
      unfolding pos using k(2) by (simp add: mult_le_mono1 add_le_mono)
    have "m dvd walk_pos s (spin_cycle m s) k' - walk_pos s (spin_cycle m s) k"
      using eq mod_eq_dvd_nat [OF le] by simp
    moreover have "walk_pos s (spin_cycle m s) k' - walk_pos s (spin_cycle m s) k = (k' - k) * (s + 1)"
      unfolding pos q by (simp only: add_diff_cancel_right diff_mult_distrib)
    ultimately have "?g * ?L dvd ?g * ((k' - k) * ((s + 1) div ?g))"
      using mL g(3) by (metis dvd_mult_div_cancel mult.left_commute)
    moreover have "?g \<noteq> 0" using g(1) by simp
    ultimately have "?L dvd (k' - k) * ((s + 1) div ?g)" using dvd_times_left_cancel_iff by blast
    moreover have "coprime ?L ((s + 1) div ?g)"
      using div_gcd_coprime [of m "s + 1"] m by simp
    ultimately have "?L dvd k' - k" by (simp add: coprime_dvd_mult_left_iff)
    moreover have "k' - k < ?L"
    proof -
      have "k' - 1 = ?L * ((k - 1) div ?L) + (k' - 1) mod ?L" "k - 1 = ?L * ((k - 1) div ?L) + (k - 1) mod ?L"
        using q by (metis mult_div_mod_eq)+
      moreover have "(k' - 1) mod ?L < ?L" using L by simp
      ultimately show ?thesis using k(1,2) by linarith
    qed
    ultimately show ?thesis by (rule dvd_small)
  qed
qed

section \<open>From \<open>lfsr_init\<close> to the numbers returned\<close>

lemma prepare_spin_loop_nat:
  assumes m: "unat mx = m" and s: "s \<le> 15" and "is": "\<And>i. i \<in> set is \<Longrightarrow> i \<le> s"
  shows "unat (prepare_spin_loop (mx div of_nat (s + 1)) (mx mod of_nat (s + 1)) s is) = spin_search m s is"
  using "is"
proof (induction "is")
  case (Cons i "is")
  let ?x = "mx div of_nat (s + 1)" and ?y = "mx mod of_nat (s + 1)"
  have i: "i \<le> s" using Cons.prems by simp
  have s1: "unat (of_nat (s + 1) :: u64) = s + 1" using s by (intro unat_of_nat64) simp
  have ii: "unat (of_nat i :: u64) = i" using i s by (intro unat_of_nat64) simp
  have x: "unat ?x = m div (s + 1)" and y: "unat ?y = m mod (s + 1)"
    by (simp_all only: unat_div_distrib unat_mod_distrib s1 m)
  have "m mod (s + 1) * i \<le> s * s" using i by (intro mult_le_mono) simp_all
  also have "\<dots> \<le> 15 * 15" using s by (intro mult_le_mono)
  finally have yi_le: "m mod (s + 1) * i \<le> 225" by simp
  then have "m mod (s + 1) * i < 2 ^ 64" by simp
  then have yi: "unat (?y * of_nat i) = m mod (s + 1) * i"
    using unat_mult64 [of ?y "of_nat i"] by (simp only: y ii)
  have bound: "m div (s + 1) * i + (m mod (s + 1) * i) div (s + 1) < 2 ^ 64"
  proof -
    have "m * i div (s + 1) \<le> m * (s + 1) div (s + 1)"
      using i by (intro div_le_mono mult_le_mono2) simp
    also have "\<dots> = m" by (rule nonzero_mult_div_cancel_right) simp
    finally have "m div (s + 1) * i + (m mod (s + 1) * i) div (s + 1) \<le> m"
      unfolding div_split [symmetric] .
    also have "\<dots> < 2 ^ 64" using m unat_bound64 by blast
    finally show ?thesis .
  qed
  then have "m div (s + 1) * i < 2 ^ 64" by linarith
  then have xi: "unat (?x * of_nat i) = m div (s + 1) * i"
    using unat_mult64 [of ?x "of_nat i"] by (simp only: x ii)
  have q: "unat (?y * of_nat i div of_nat (s + 1)) = (m mod (s + 1) * i) div (s + 1)"
    by (simp only: unat_div_distrib yi s1)
  have r: "?y * of_nat i mod of_nat (s + 1) = 0 \<longleftrightarrow> (m mod (s + 1) * i) mod (s + 1) = 0"
    unfolding unat_eq_0 [symmetric] by (simp only: unat_mod_distrib yi s1)
  have val: "unat (?x * of_nat i + ?y * of_nat i div of_nat (s + 1)) =
      m div (s + 1) * i + (m mod (s + 1) * i) div (s + 1)"
    using bound unat_add64 [of "?x * of_nat i" "?y * of_nat i div of_nat (s + 1)"] by (simp only: xi q)
  show ?case
    using Cons.IH Cons.prems r val by (simp only: prepare_spin_loop.simps spin_search.simps split: if_splits) auto
qed simp

text \<open>A register that has just been initialised for \<open>n\<close> bits with spin \<open>s\<close>.\<close>

definition lfsr_fresh :: "nat \<Rightarrow> nat \<Rightarrow> fio_lfsr \<Rightarrow> bool" where
  "lfsr_fresh n s fl \<longleftrightarrow> lfsr_width n fl \<and> s \<le> 15 \<and> spin fl = s \<and>
     cached_cycle_length fl = of_nat (spin_cycle (2 ^ n - 1) s) \<and>
     cycle_length fl = of_nat (spin_cycle (2 ^ n - 1) s) + 1 \<and>
     last_val fl \<in> lfsr_state n \<and> num_vals fl = 0 \<and> unat (max_val fl) < 2 ^ n - 1"

definition lfsr_maximal :: "nat \<Rightarrow> fio_lfsr \<Rightarrow> bool" where
  "lfsr_maximal n fl \<longleftrightarrow> (\<forall>k. 0 < k \<and> k < 2 ^ n - 1 \<longrightarrow> (LFSR_NEXT fl ^^ k) 0 \<noteq> 0)"

lemma lfsr_full_cycle:
  assumes w: "lfsr_width n fl" and mx: "lfsr_maximal n fl"
  shows "full_cycle (LFSR_NEXT fl) (lfsr_state n) 0"
proof -
  have n: "3 \<le> n" "n < 64" using w by (simp_all add: lfsr_width_def)
  have "(2 :: nat) ^ 3 \<le> 2 ^ n" using n(1) by (rule power_increasing) simp
  then have "0 \<in> lfsr_state n" by (simp add: lfsr_state_def)
  moreover have "inj_on (LFSR_NEXT fl) (lfsr_state n)"
    by (rule inj_onI, rule step_inj [OF w]) (auto simp: lfsr_state_def)
  ultimately show ?thesis
    using step_state [OF w] mx n(2) by (auto simp: full_cycle_def card_lfsr_state lfsr_maximal_def)
qed

lemma spin_cycle_le: "spin_cycle m s \<le> m"
  by (simp add: spin_cycle_def)

text \<open>\<open>lfsr_val fl k\<close>: the register after \<open>k\<close> loop bodies.\<close>

definition lfsr_val :: "fio_lfsr \<Rightarrow> nat \<Rightarrow> u64" where
  "lfsr_val fl k = last_val ((lfsr_body ^^ k) fl)"

lemma lfsr_fresh_walk:
  assumes fr: "lfsr_fresh n s fl"
  shows "(lfsr_body ^^ Suc k) fl = walk_state fl (spin_cycle (2 ^ n - 1) s) (Suc k)"
proof -
  let ?m = "2 ^ n - 1 :: nat"
  have n: "3 \<le> n" "n < 64" using fr by (simp_all add: lfsr_fresh_def lfsr_width_def)
  have "(2 :: nat) ^ n < 2 ^ 64" by (rule power_strict_increasing [OF n(2)]) simp
  then have small: "spin_cycle ?m s + 1 < 2 ^ 64" using spin_cycle_le [of ?m s] by simp
  have no_jump: "s < 15" if "spin_cycle ?m s \<noteq> 0"
  proof (rule ccontr)
    assume "\<not> s < 15"
    then have "s + 1 = 2 ^ 4" using fr by (simp add: lfsr_fresh_def)
    moreover have "odd ?m" using n(1) by simp
    ultimately have "coprime ?m (s + 1)" by (simp only: coprime_power_right_iff) (simp add: coprime_right_2_iff_odd)
    then show False using that by (simp add: spin_cycle_def coprime_iff_gcd_eq_1)
  qed
  show ?thesis
    by (rule walk) (use fr small no_jump in \<open>simp_all add: lfsr_fresh_def\<close>)
qed

lemma lfsr_val_eq:
  "lfsr_fresh n s fl \<Longrightarrow> 0 < k \<Longrightarrow>
    lfsr_val fl k = (LFSR_NEXT fl ^^ walk_pos s (spin_cycle (2 ^ n - 1) s) k) (last_val fl)"
  using lfsr_fresh_walk [of n s fl "k - 1"] by (simp add: lfsr_val_def walk_state_def lfsr_fresh_def)

text \<open>One period of the loop body visits every state exactly once.\<close>

lemma lfsr_val_bij:
  assumes fr: "lfsr_fresh n s fl" and mx: "lfsr_maximal n fl"
  shows "inj_on (lfsr_val fl) {1..2 ^ n - 1}" and "lfsr_val fl ` {1..2 ^ n - 1} = lfsr_state n"
proof -
  let ?m = "2 ^ n - 1 :: nat"
  have w: "lfsr_width n fl" and x: "last_val fl \<in> lfsr_state n" using fr by (simp_all add: lfsr_fresh_def)
  have n: "3 \<le> n" "n < 64" using w by (simp_all add: lfsr_width_def)
  note fc = lfsr_full_cycle [OF w mx]
  have card: "card (lfsr_state n) = ?m" by (rule card_lfsr_state [OF n(2)])
  have "(2 :: nat) ^ 3 \<le> 2 ^ n" using n(1) by (rule power_increasing) simp
  then have m: "0 < ?m" by simp
  have eqD: "k = k'" if "0 < k" "k \<le> k'" "k' \<le> ?m" "lfsr_val fl k = lfsr_val fl k'" for k k'
  proof (rule walk_pos_inj [OF m that(1-3)])
    show "walk_pos s (spin_cycle ?m s) k mod ?m = walk_pos s (spin_cycle ?m s) k' mod ?m"
      using that full_cycle_eq_iff [OF fc x] card by (simp add: lfsr_val_eq [OF fr])
  qed
  show inj: "inj_on (lfsr_val fl) {1..?m}"
  proof (rule inj_onI)
    fix k k'
    assume "k \<in> {1..?m}" "k' \<in> {1..?m}" "lfsr_val fl k = lfsr_val fl k'"
    then show "k = k'" using eqD [of k k'] eqD [of k' k] by (cases "k \<le> k'") auto
  qed
  show "lfsr_val fl ` {1..?m} = lfsr_state n"
  proof (rule card_subset_eq)
    show "lfsr_val fl ` {1..?m} \<subseteq> lfsr_state n"
      using full_cycle_closed [OF fc x] by (auto simp: lfsr_val_eq [OF fr])
    show "card (lfsr_val fl ` {1..?m}) = card (lfsr_state n)" using inj card by (simp add: card_image)
  qed simp
qed

lemma lfsr_body_fields:
  "max_val (lfsr_body fl) = max_val fl" "lfsr_body (fl\<lparr>num_vals := c\<rparr>) = (lfsr_body fl)\<lparr>num_vals := c\<rparr>"
  by (simp_all add: lfsr_body_def lfsr_next_switch_def Let_def lfsr_next_case_funpow)

lemma lfsr_bodies_fields: "max_val ((lfsr_body ^^ k) fl) = max_val fl"
  by (induction k) (simp_all add: lfsr_body_fields)

definition lfsr_at :: "fio_lfsr \<Rightarrow> nat \<Rightarrow> u64 \<Rightarrow> fio_lfsr" where
  "lfsr_at fl k c = ((lfsr_body ^^ k) fl)\<lparr>num_vals := c\<rparr>"

lemma lfsr_at_fields:
  "max_val (lfsr_at fl k c) = max_val fl" "last_val (lfsr_at fl k c) = lfsr_val fl k"
  "num_vals (lfsr_at fl k c) = c" "(lfsr_at fl k c)\<lparr>num_vals := c'\<rparr> = lfsr_at fl k c'"
  by (simp_all add: lfsr_at_def lfsr_bodies_fields lfsr_val_def)

lemma lfsr_loop_at:
  "lfsr_loop (lfsr_at fl k c) =
    (if lfsr_val fl (Suc k) > max_val fl then lfsr_loop (lfsr_at fl (Suc k) c)
     else Some (lfsr_at fl (Suc k) c))"
proof -
  have "lfsr_body (lfsr_at fl k c) = lfsr_at fl (Suc k) c" by (simp add: lfsr_at_def lfsr_body_fields)
  then show ?thesis by (subst lfsr_loop.simps) (simp add: lfsr_at_fields Let_def)
qed

lemma lfsr_next_at:
  assumes "c \<le> max_val fl"
  shows "lfsr_next (lfsr_at fl k c) =
    (if lfsr_val fl (Suc k) > max_val fl then lfsr_next (lfsr_at fl (Suc k) c)
     else Some (lfsr_at fl (Suc k) (c + 1), Some (lfsr_val fl (Suc k))))"
  using assms lfsr_loop_at [of fl k "c + 1"]
  by (simp add: lfsr_next_def lfsr_at_fields Let_def not_less [symmetric])

definition lfsr_hits :: "fio_lfsr \<Rightarrow> nat \<Rightarrow> nat \<Rightarrow> nat list" where
  "lfsr_hits fl k m = filter (\<lambda>i. lfsr_val fl i \<le> max_val fl) [Suc k..<Suc m]"

lemma lfsr_calls_at:
  assumes "unat c + length (lfsr_hits fl k m) \<le> Suc (unat (max_val fl))" and "max_val fl \<noteq> u64_max"
  shows "\<exists>k'. lfsr_calls (length (lfsr_hits fl k m)) (lfsr_at fl k c) =
    Some (lfsr_at fl k' (c + of_nat (length (lfsr_hits fl k m))), map (lfsr_val fl) (lfsr_hits fl k m))"
  using assms(1)
proof (induction "m - k" arbitrary: k c)
  case 0
  then have "lfsr_hits fl k m = []" by (simp add: lfsr_hits_def)
  then show ?case by auto
next
  case (Suc d)
  then have "Suc k < Suc m" and d: "d = m - Suc k" by linarith+
  then have upt: "[Suc k..<Suc m] = Suc k # [Suc (Suc k)..<Suc m]" by (simp only: upt_conv_Cons)
  show ?case
  proof (cases "lfsr_val fl (Suc k) \<le> max_val fl")
    case True
    let ?l = "length (lfsr_hits fl (Suc k) m)"
    have hits: "lfsr_hits fl k m = Suc k # lfsr_hits fl (Suc k) m"
      using True by (simp add: lfsr_hits_def upt del: upt_Suc)
    then have c: "unat c + Suc ?l \<le> Suc (unat (max_val fl))" using Suc.prems by simp
    then have le: "c \<le> max_val fl" by (simp add: word_le_nat_alt)
    have "unat (max_val fl) \<noteq> unat u64_max" using assms(2) word_unat_eqI by blast
    moreover have "unat (max_val fl) \<le> unat u64_max" using unat_bound64 [of "max_val fl"] unat_u64_max by simp
    ultimately have "unat (max_val fl) < unat u64_max" by (rule le_neq_trans [rotated])
    then have "unat c + unat (1 :: u64) < 2 ^ 64" using c unat_u64_max by simp
    then have "unat (c + 1) = Suc (unat c)" using unat_add64 [of c 1] by simp
    then have "unat (c + 1) + ?l \<le> Suc (unat (max_val fl))" using c by simp
    from Suc.hyps(1) [OF d this] obtain k' where
      "lfsr_calls ?l (lfsr_at fl (Suc k) (c + 1)) =
        Some (lfsr_at fl k' (c + 1 + of_nat ?l), map (lfsr_val fl) (lfsr_hits fl (Suc k) m))" by blast
    then show ?thesis
      using lfsr_next_at [OF le, of k] True hits by (auto simp: add.assoc)
  next
    case False
    have hits: "lfsr_hits fl k m = lfsr_hits fl (Suc k) m"
      using False by (simp add: lfsr_hits_def upt del: upt_Suc)
    show ?thesis
    proof (cases "length (lfsr_hits fl k m)")
      case 0
      then show ?thesis by auto
    next
      case (Suc n)
      then have le: "c \<le> max_val fl" using Suc.prems by (simp add: word_le_nat_alt)
      have "lfsr_calls (Suc n) (lfsr_at fl k c) = lfsr_calls (Suc n) (lfsr_at fl (Suc k) c)"
        using lfsr_next_at [OF le, of k] False by (simp add: not_le)
      then show ?thesis using Suc.hyps(1) [OF d, of c] Suc.prems hits Suc by metis
    qed
  qed
qed

lemma lfsr_hits_all:
  assumes fr: "lfsr_fresh n s fl" and mx: "lfsr_maximal n fl"
  shows "distinct (map (lfsr_val fl) (lfsr_hits fl 0 (2 ^ n - 1)))"
    and "set (map (lfsr_val fl) (lfsr_hits fl 0 (2 ^ n - 1))) = {v. v \<le> max_val fl}"
    and "length (lfsr_hits fl 0 (2 ^ n - 1)) = Suc (unat (max_val fl))"
proof -
  let ?m = "2 ^ n - 1 :: nat"
  note bij = lfsr_val_bij [OF fr mx]
  have range: "set [Suc 0..<Suc ?m] = {1..?m}" by auto
  have small: "{v. v \<le> max_val fl} \<subseteq> lfsr_state n"
    using fr by (auto simp: lfsr_fresh_def lfsr_state_def word_le_nat_alt)
  show d: "distinct (map (lfsr_val fl) (lfsr_hits fl 0 ?m))"
    unfolding lfsr_hits_def distinct_map
    using bij(1) range by (auto intro: inj_on_subset simp del: upt_Suc)
  have "set (map (lfsr_val fl) (lfsr_hits fl 0 ?m)) = {v \<in> lfsr_val fl ` {1..?m}. v \<le> max_val fl}"
    unfolding lfsr_hits_def set_map set_filter range by auto
  then show set: "set (map (lfsr_val fl) (lfsr_hits fl 0 ?m)) = {v. v \<le> max_val fl}"
    using bij(2) small by auto
  have "{v. v \<le> max_val fl} = of_nat ` {0..unat (max_val fl)}"
  proof (intro equalityI subsetI)
    fix v :: u64
    assume "v \<in> of_nat ` {0..unat (max_val fl)}"
    then obtain x where "v = of_nat x" "x \<le> unat (max_val fl)" by auto
    then show "v \<in> {v. v \<le> max_val fl}"
      using unat_of_nat64 [of x] unat_bound64 [of "max_val fl"] by (simp add: word_le_nat_alt)
  qed (auto intro!: image_eqI [of _ _ "unat _"] simp: word_le_nat_alt)
  moreover have "inj_on (of_nat :: nat \<Rightarrow> u64) {0..unat (max_val fl)}"
    by (rule inj_on_inverseI [where g = unat], rule unat_of_nat64)
      (use unat_bound64 [of "max_val fl"] in auto)
  ultimately have "card {v. v \<le> max_val fl} = Suc (unat (max_val fl))" by (simp add: card_image)
  then show "length (lfsr_hits fl 0 ?m) = Suc (unat (max_val fl))"
    using distinct_card [OF d] set by simp
qed

lemma lfsr_fresh_calls:
  assumes fr: "lfsr_fresh n s fl" and mx: "lfsr_maximal n fl"
  shows "\<exists>fl' offs. lfsr_calls (Suc (unat (max_val fl))) fl = Some (fl', offs) \<and> distinct offs \<and>
    set offs = {v. v \<le> max_val fl} \<and> lfsr_next fl' = Some (fl'\<lparr>num_vals := num_vals fl' + 1\<rparr>, None)"
proof -
  let ?h = "lfsr_hits fl 0 (2 ^ n - 1)"
  note hits = lfsr_hits_all [OF fr mx]
  have at0: "lfsr_at fl 0 0 = fl" using fr by (simp add: lfsr_at_def lfsr_fresh_def)
  have "unat (max_val fl) < 2 ^ n - 1" "n < 64" using fr by (simp_all add: lfsr_fresh_def lfsr_width_def)
  moreover have "(2 :: nat) ^ n < 2 ^ 64" by (rule power_strict_increasing [OF calculation(2)]) simp
  ultimately have small: "Suc (unat (max_val fl)) < 2 ^ 64" by linarith
  then have ne: "max_val fl \<noteq> u64_max" using unat_u64_max by auto
  obtain k where k: "lfsr_calls (length ?h) fl = Some (lfsr_at fl k (of_nat (length ?h)), map (lfsr_val fl) ?h)"
    using lfsr_calls_at [of 0 fl 0 "2 ^ n - 1"] ne hits(3) at0 by auto
  have "max_val fl < of_nat (length ?h)"
    using hits(3) unat_of_nat64 [OF small] by (simp add: word_less_nat_alt)
  then have "lfsr_next (lfsr_at fl k (of_nat (length ?h))) =
      Some (lfsr_at fl k (of_nat (length ?h) + 1), None)"
    by (simp add: lfsr_next_def lfsr_at_fields Let_def)
  with k hits show ?thesis by (metis lfsr_at_fields(3,4))
qed

section \<open>The table and \<open>lfsr_init\<close>\<close>

lemma bit_xormask_loop:
  "bit (lfsr_create_xormask_loop ts xm) i \<longleftrightarrow>
    bit xm i \<or> i < 64 \<and> Suc i \<in> set (takeWhile (\<lambda>t. t \<noteq> 0) ts)"
  by (induction ts xm rule: lfsr_create_xormask_loop.induct)
    (auto simp: bit_simps)

definition row_ok :: "nat \<Rightarrow> nat list \<Rightarrow> bool" where
  "row_ok n r \<longleftrightarrow> hd r = n \<and> r \<noteq> [] \<and> length r = FIO_MAX_TAPS \<and> 0 < n \<and>
     (\<forall>t \<in> set (takeWhile (\<lambda>t. t \<noteq> 0) r). t \<le> n)"

lemma lfsr_taps_ok: "list_all (\<lambda>n. row_ok n (lfsr_taps ! n)) [3..<64]"
  unfolding row_ok_def by code_simp

lemma row_ok_width:
  assumes "row_ok n r" and "3 \<le> n" "n < 64"
  shows "lfsr_width n (fl\<lparr>max_val := m, xormask := lfsr_create_xormask r, cached_bit := push_bit (hd r - 1) 1\<rparr>)"
proof -
  obtain r' where r: "r = n # r'" "n \<noteq> 0" using assms(1) by (cases r) (auto simp: row_ok_def)
  have "take FIO_MAX_TAPS r = r" using assms(1) by (simp add: row_ok_def)
  then have "bit (lfsr_create_xormask r) i \<longleftrightarrow> i < 64 \<and> Suc i \<in> set (takeWhile (\<lambda>t. t \<noteq> 0) r)" for i
    by (simp add: lfsr_create_xormask_def bit_xormask_loop)
  then show ?thesis using assms r by (auto simp: lfsr_width_def row_ok_def)
qed

lemma find_upt_SomeD:
  "find P [a..<b] = Some n \<Longrightarrow> a \<le> n \<and> n < b \<and> P n \<and> (\<forall>i. a \<le> i \<and> i < n \<longrightarrow> \<not> P i)"
proof -
  assume "find P [a..<b] = Some n"
  then obtain k where k: "k < b - a" "P (a + k)" "n = a + k" "\<And>j. j < k \<Longrightarrow> \<not> P (a + j)"
    unfolding find_Some_iff by auto
  then show ?thesis using k(4) by (auto, metis add_less_cancel_left le_iff_add)
qed

lemma find_lfsr_row:
  assumes "find_lfsr nums = Some taps"
  shows "\<exists>n. taps = lfsr_taps ! n \<and> row_ok n taps \<and> 3 \<le> n \<and> n < 64 \<and> unat nums < 2 ^ n \<and>
    (\<forall>i. 3 \<le> i \<and> i < n \<longrightarrow> 2 ^ i \<le> unat nums)"
proof -
  obtain n where n: "find (\<lambda>i. push_bit i 1 > nums) [3..<64] = Some n" "taps = lfsr_taps ! n"
    using assms unfolding find_lfsr_def map_option_eq_Some by blast
  note f = find_upt_SomeD [OF n(1)]
  then have "n \<in> set [3..<64]" by (simp only: set_upt atLeastLessThan_iff)
  then have "row_ok n taps" using lfsr_taps_ok n(2) unfolding list_all_iff by blast
  moreover have "unat nums < 2 ^ n"
    using f unat_pow2 [where 'a = 64 and n = n] by (simp add: word_less_nat_alt)
  moreover have "2 ^ i \<le> unat nums" if "3 \<le> i" "i < n" for i
    using f that unat_pow2 [where 'a = 64 and n = i] by (auto simp: word_less_nat_alt)
  ultimately show ?thesis using f n(2) by blast
qed

lemma lfsr_init_fresh:
  assumes nums: "0 < nums" and init: "lfsr_init fl nums seed s = (fl', False)"
  shows "\<exists>taps n. find_lfsr nums = Some taps \<and> n = hd taps \<and> lfsr_fresh n s fl' \<and> max_val fl' = nums - 1"
proof -
  obtain taps where taps: "find_lfsr nums = Some taps"
    using init by (auto simp: lfsr_init_def split: option.splits)
  then obtain n where n: "row_ok n taps" "3 \<le> n" "n < 64" "unat nums < 2 ^ n"
    using find_lfsr_row by blast
  define fl1 where "fl1 = fl\<lparr>max_val := nums - 1, xormask := lfsr_create_xormask taps,
      cached_bit := push_bit (hd taps - 1) 1\<rparr>"
  have w: "lfsr_width n fl1" unfolding fl1_def by (rule row_ok_width [OF n(1-3)])
  then have cb: "cached_bit fl1 = push_bit (n - 1) 1" by (simp add: lfsr_width_def)
  define mx where "mx = push_bit 1 (cached_bit fl1) - 1"
  have mask: "mx = mask n"
    using n(2) by (cases n) (simp_all add: mx_def cb push_bit_eq_mult mask_eq_exp_minus_1 mult.commute)
  then have m: "unat mx = 2 ^ n - 1" using n(3) by (simp add: unat_mask64)
  define c where "c = prepare_spin_loop (mx div of_nat (s + 1)) (mx mod of_nat (s + 1)) s [1..<Suc s]"
  define fl2 where "fl2 = fl1\<lparr>spin := s, cached_cycle_length := c, cycle_length := c + 1\<rparr>"
  have "prepare_spin fl1 s = (if s > 15 then (fl1, True) else (fl2, False))"
    unfolding prepare_spin_def Let_def mx_def [symmetric] c_def [symmetric] fl2_def ..
  then have s: "s \<le> 15" and reset: "lfsr_reset fl2 seed = (fl', False)"
    using init unfolding lfsr_init_def taps option.case Let_def fl1_def [symmetric]
    by (auto split: if_splits)
  have "unat c = spin_search (2 ^ n - 1) s [1..<Suc s]"
    unfolding c_def by (rule prepare_spin_loop_nat [OF m s]) auto
  then have c: "unat c = spin_cycle (2 ^ n - 1) s" by (simp only: spin_search_cycle)
  have "c = of_nat (unat c)" by simp
  then have c': "c = of_nat (spin_cycle (2 ^ n - 1) s)" by (simp only: c)
  have "push_bit 1 (cached_bit fl2) - 1 = mx" by (simp add: mx_def fl2_def)
  then have fl': "fl' = fl2\<lparr>num_vals := 0, last_val := seed AND mx\<rparr>" and ne: "seed AND mx \<noteq> mx"
    using reset unfolding lfsr_reset_def Let_def by simp_all
  have "unat (seed AND mx) < 2 ^ n"
    unfolding mask using n(3) by (subst below_width_iff) (auto simp: bit_simps)
  then have "seed AND mx \<in> lfsr_state n" using n ne mask by (subst lfsr_state_iff) auto
  moreover have "unat (nums - 1) < 2 ^ n - 1"
  proof -
    have "1 \<le> unat nums" using nums by (simp add: word_less_nat_alt)
    then have "unat nums - 1 < 2 ^ n - 1" by (rule diff_less_mono [OF n(4)])
    then show ?thesis using nums by (subst unat_minus_one) auto
  qed
  moreover have "lfsr_width n fl'" using w by (simp add: fl' fl2_def lfsr_width_def)
  ultimately have "lfsr_fresh n s fl'"
    using s c' by (simp add: lfsr_fresh_def fl' fl2_def fl1_def)
  moreover have "hd taps = n" using n(1) by (simp add: row_ok_def)
  moreover have "max_val fl' = nums - 1" by (simp add: fl' fl2_def fl1_def)
  ultimately show ?thesis using taps by blast
qed

section \<open>Maximal rows of the table\<close>

text \<open>The step on naturals, and a check that its orbit of 0 does not close within \<open>k\<close> steps.\<close>

definition nat_step :: "nat \<Rightarrow> nat \<Rightarrow> nat \<Rightarrow> nat" where
  "nat_step t x v = (if odd v then v div 2 OR t else (v div 2 OR t) XOR x)"

fun orbit_open :: "nat \<Rightarrow> nat \<Rightarrow> nat \<Rightarrow> nat \<Rightarrow> bool" where
  "orbit_open t x 0 v = True"
| "orbit_open t x (Suc k) v = (nat_step t x v \<noteq> 0 \<and> orbit_open t x k (nat_step t x v))"

lemma orbit_open_numeral:
  "orbit_open t x (numeral k) v =
    (nat_step t x v \<noteq> 0 \<and> orbit_open t x (pred_numeral k) (nat_step t x v))"
  by (simp add: numeral_eq_Suc)

lemma all_le_0_iff: "(\<forall>j \<le> k. P j) \<longleftrightarrow> P 0 \<and> (\<forall>j. 0 < j \<and> j \<le> k \<longrightarrow> P j)" for k :: nat
  by (metis le0 neq0_conv)

lemma all_pos_le_Suc_iff: "(\<forall>j. 0 < j \<and> j \<le> Suc k \<longrightarrow> P j) \<longleftrightarrow> (\<forall>j \<le> k. P (Suc j))" for k :: nat
  by (auto simp: gr0_conv_Suc)

lemma orbit_open_funpow: "orbit_open t x k v \<longleftrightarrow> (\<forall>j. 0 < j \<and> j \<le> k \<longrightarrow> (nat_step t x ^^ j) v \<noteq> 0)"
proof (induction t x k v rule: orbit_open.induct)
  case (2 t x k v)
  have "(\<forall>j. 0 < j \<and> j \<le> Suc k \<longrightarrow> (nat_step t x ^^ j) v \<noteq> 0) \<longleftrightarrow>
      (\<forall>j \<le> k. (nat_step t x ^^ Suc j) v \<noteq> 0)" by (rule all_pos_le_Suc_iff)
  also have "\<dots> \<longleftrightarrow> (\<forall>j \<le> k. (nat_step t x ^^ j) (nat_step t x v) \<noteq> 0)"
    by (simp only: funpow_Suc_right comp_apply)
  also have "\<dots> \<longleftrightarrow> nat_step t x v \<noteq> 0 \<and>
      (\<forall>j. 0 < j \<and> j \<le> k \<longrightarrow> (nat_step t x ^^ j) (nat_step t x v) \<noteq> 0)"
    by (subst all_le_0_iff) (simp only: funpow_0)
  finally show ?case using "2.IH" by simp
qed auto

lemma unat_step: "unat (LFSR_NEXT fl v) = nat_step (unat (cached_bit fl)) (unat (xormask fl)) (unat v)"
  by (simp add: LFSR_NEXT_def parity_mask nat_step_def bit_word_nat bit_0 unsigned_or_eq unsigned_xor_eq
      unat_drop_bit)

lemma unat_step_funpow:
  "unat ((LFSR_NEXT fl ^^ k) v) = (nat_step (unat (cached_bit fl)) (unat (xormask fl)) ^^ k) (unat v)"
  by (induction k) (simp_all add: unat_step)

lemma lfsr_maximalI:
  assumes "orbit_open (unat (cached_bit fl)) (unat (xormask fl)) (2 ^ n - 2) 0"
  shows "lfsr_maximal n fl"
  unfolding lfsr_maximal_def
proof (intro allI impI)
  fix k :: nat
  assume "0 < k \<and> k < 2 ^ n - 1"
  then have "(nat_step (unat (cached_bit fl)) (unat (xormask fl)) ^^ k) 0 \<noteq> 0"
    using assms unfolding orbit_open_funpow by auto
  then show "(LFSR_NEXT fl ^^ k) 0 \<noteq> 0" using unat_step_funpow [of k fl 0] by auto
qed

lemmas orbit_eval = orbit_open_numeral nat_step_def

lemma orbits_open:
  "orbit_open 4 6 6 0" "orbit_open 8 12 14 0" "orbit_open 16 20 30 0" "orbit_open 32 48 62 0"
  "orbit_open 64 96 126 0" "orbit_open 128 184 254 0" "orbit_open 256 272 510 0" "orbit_open 512 576 1022 0"
  by (simp_all add: orbit_eval)

lemma xormasks:
  "map (\<lambda>n. unat (lfsr_create_xormask (lfsr_taps ! n))) [3..<11] = [6, 12, 20, 48, 96, 184, 272, 576]"
  by code_simp

text \<open>The register that row \<open>n\<close> of the table defines.\<close>

definition lfsr_row :: "nat \<Rightarrow> fio_lfsr" where
  "lfsr_row n = \<lparr>xormask = lfsr_create_xormask (lfsr_taps ! n), last_val = 0, cached_bit = push_bit (n - 1) 1,
     max_val = 0, num_vals = 0, cycle_length = 0, cached_cycle_length = 0, spin = 0\<rparr>"

lemma lfsr_row_maximal: "n \<in> {3, 4, 5, 6, 7, 8, 9, 10} \<Longrightarrow> lfsr_maximal n (lfsr_row n)"
proof -
  assume "n \<in> {3, 4, 5, 6, 7, 8, 9, 10}"
  moreover have "unat (lfsr_create_xormask (lfsr_taps ! 3)) = 6" "unat (lfsr_create_xormask (lfsr_taps ! 4)) = 12"
    "unat (lfsr_create_xormask (lfsr_taps ! 5)) = 20" "unat (lfsr_create_xormask (lfsr_taps ! 6)) = 48"
    "unat (lfsr_create_xormask (lfsr_taps ! 7)) = 96" "unat (lfsr_create_xormask (lfsr_taps ! 8)) = 184"
    "unat (lfsr_create_xormask (lfsr_taps ! 9)) = 272" "unat (lfsr_create_xormask (lfsr_taps ! 10)) = 576"
    using xormasks by (simp_all add: upt_rec)
  ultimately show ?thesis
    unfolding insert_iff empty_iff
    by (elim disjE) (simp_all add: lfsr_maximalI lfsr_row_def orbits_open)
qed

lemma lfsr_maximal_cong:
  "cached_bit fl = cached_bit fl' \<Longrightarrow> xormask fl = xormask fl' \<Longrightarrow> lfsr_maximal n fl = lfsr_maximal n fl'"
  by (simp add: lfsr_maximal_def LFSR_NEXT_def [abs_def])

lemma lfsr_init_row:
  assumes "lfsr_init fl nums seed s = (fl', False)" and "find_lfsr nums = Some taps" and "taps = lfsr_taps ! n" "hd taps = n"
  shows "lfsr_maximal n fl' = lfsr_maximal n (lfsr_row n)"
  by (rule lfsr_maximal_cong)
    (use assms in \<open>auto simp: lfsr_init_def lfsr_row_def prepare_spin_def lfsr_reset_def Let_def split: if_splits\<close>)

lemma lfsr_init_calls:
  assumes "0 < nums" and "lfsr_init fl nums seed s = (fl', False)"
    and "find_lfsr nums = Some taps" and "lfsr_maximal (hd taps) fl'"
  shows "\<exists>fl'' offs. lfsr_calls (unat nums) fl' = Some (fl'', offs) \<and> distinct offs \<and>
    set offs = {v. v < nums} \<and> (\<exists>fl3. lfsr_next fl'' = Some (fl3, None))"
proof -
  have fr: "lfsr_fresh (hd taps) s fl'" and mx: "max_val fl' = nums - 1"
    using lfsr_init_fresh [OF assms(1,2)] assms(3) by auto
  have n1: "Suc (unat (nums - 1)) = unat nums"
    using assms(1) by (subst unat_minus_one) (auto simp: word_less_nat_alt)
  have "{v. v \<le> nums - 1} = {v. v < nums}"
    using n1 by (auto simp: word_le_nat_alt word_less_nat_alt)
  with lfsr_fresh_calls [OF fr assms(4)] mx n1 show ?thesis by (auto split: prod.splits)
qed

lemma find_lfsr_small:
  assumes "nums < 1024"
  shows "\<exists>n \<in> {3, 4, 5, 6, 7, 8, 9, 10}. find_lfsr nums = Some (lfsr_taps ! n) \<and> hd (lfsr_taps ! n) = n"
proof -
  have "nums < push_bit 10 1" using assms by simp
  then have "find (\<lambda>i. push_bit i 1 > nums) [3..<64] \<noteq> None"
    unfolding find_None_iff set_upt atLeastLessThan_iff by (intro notI) (simp add: exI [of _ 10])
  then obtain taps where taps: "find_lfsr nums = Some taps"
    unfolding find_lfsr_def by (metis not_None_eq option.simps(9))
  then obtain n where n: "taps = lfsr_taps ! n" "row_ok n taps" "3 \<le> n" "n < 64" "unat nums < 2 ^ n"
    "\<And>i. 3 \<le> i \<Longrightarrow> i < n \<Longrightarrow> 2 ^ i \<le> unat nums"
    using find_lfsr_row by blast
  have "n \<le> 10"
  proof (rule ccontr)
    assume "\<not> n \<le> 10"
    then have "2 ^ 10 \<le> unat nums" using n(6) [of 10] by simp
    then show False using assms by (simp add: word_less_nat_alt)
  qed
  with n(3) have "n \<in> {3, 4, 5, 6, 7, 8, 9, 10}" by auto
  with taps n show ?thesis by (auto simp: row_ok_def)
qed

section \<open>Properties\<close>

text \<open>
  C17 (functional): on a register of maximal period, and for every spin that \<^verbatim>\<open>lfsr_init\<close> accepts, the
  first \<^verbatim>\<open>nums\<close> calls of \<^verbatim>\<open>lfsr_next\<close> after a successful \<^verbatim>\<open>lfsr_init\<close> all return, and return every number
  below \<^verbatim>\<open>nums\<close> exactly once; the call after them returns 1. Spins that share a factor with the period are
  covered by the cycle length that \<^verbatim>\<open>prepare_spin\<close> computes.
\<close>

theorem lfsr_enumerates:
  assumes "0 < nums" and "lfsr_init fl nums seed s = (fl', False)"
    and "find_lfsr nums = Some taps" and "lfsr_maximal (hd taps) fl'"
  shows "\<exists>fl'' offs. lfsr_calls (unat nums) fl' = Some (fl'', offs) \<and> distinct offs \<and>
    set offs = {v. v < nums} \<and> (\<exists>fl3. lfsr_next fl'' = Some (fl3, None))"
  by (rule lfsr_init_calls [OF assms])

lemma sample_init: "snd (lfsr_init (lfsr_row 3) 5 1 6) = False" "snd (lfsr_init (lfsr_row 3) 700 9 10) = False"
  "find_lfsr 5 = Some [3, 2, 0, 0, 0, 0]"
  by code_simp+

theorem lfsr_enumerates_witness:
  "\<exists>fl' fl'' offs. lfsr_init (lfsr_row 3) 5 1 6 = (fl', False) \<and> lfsr_calls 5 fl' = Some (fl'', offs) \<and>
    distinct offs \<and> set offs = {v. v < 5}"
proof -
  obtain fl' where init: "lfsr_init (lfsr_row 3) 5 1 6 = (fl', False)"
    using sample_init(1) by (metis prod.collapse)
  have "lfsr_maximal 3 fl'"
    using lfsr_init_row [OF init sample_init(3), of 3] lfsr_row_maximal [of 3]
    by (simp add: lfsr_taps_def lfsr_taps_rows_def FIO_MAX_TAPS_def eval_nat_numeral)
  then show ?thesis
    using lfsr_enumerates [OF _ init sample_init(3)] init by (simp add: exI) blast
qed

text \<open>
  For up to 1023 numbers no assumption on the register is needed: the rows of the tap table
  for 3 to 10 bits are maximal, so a successful \<^verbatim>\<open>lfsr_init\<close> is followed by a complete enumeration.
\<close>

theorem lfsr_enumerates_1023:
  assumes "0 < nums" and "nums < 1024" and "lfsr_init fl nums seed s = (fl', False)"
  shows "\<exists>fl'' offs. lfsr_calls (unat nums) fl' = Some (fl'', offs) \<and> distinct offs \<and> set offs = {v. v < nums}"
proof -
  obtain n where n: "n \<in> {3, 4, 5, 6, 7, 8, 9, 10}" "find_lfsr nums = Some (lfsr_taps ! n)" "hd (lfsr_taps ! n) = n"
    using find_lfsr_small [OF assms(2)] by blast
  have "lfsr_maximal n fl'"
    using lfsr_init_row [OF assms(3) n(2) refl n(3)] lfsr_row_maximal [OF n(1)] by simp
  then show ?thesis using lfsr_init_calls [OF assms(1,3) n(2)] n(3) by auto
qed

theorem lfsr_enumerates_1023_witness:
  "\<exists>fl' fl'' offs. lfsr_init (lfsr_row 3) 700 9 10 = (fl', False) \<and> lfsr_calls 700 fl' = Some (fl'', offs) \<and>
    distinct offs \<and> set offs = {v. v < 700}"
proof -
  obtain fl' where init: "lfsr_init (lfsr_row 3) 700 9 10 = (fl', False)"
    using sample_init(2) by (metis prod.collapse)
  show ?thesis using lfsr_enumerates_1023 [OF _ _ init] init by simp
qed

text \<open>
  One step of the register is a permutation of its \<open>2^n\<close> states, for every register that
  \<^verbatim>\<open>lfsr_init\<close> sets up; the all-ones state is a fixed point, so no other state ever reaches it.
\<close>

theorem lfsr_step_permutes:
  assumes "0 < nums" and "lfsr_init fl nums seed s = (fl', False)" and "find_lfsr nums = Some taps"
  shows "bij_betw (LFSR_NEXT fl') {v. unat v < 2 ^ hd taps} {v. unat v < 2 ^ hd taps} \<and>
    LFSR_NEXT fl' (mask (hd taps)) = mask (hd taps) \<and>
    (\<forall>k. last_val ((lfsr_body ^^ k) fl') \<noteq> mask (hd taps))"
proof -
  let ?n = "hd taps"
  have fr: "lfsr_fresh ?n s fl'" using lfsr_init_fresh [OF assms(1,2)] assms(3) by auto
  then have w: "lfsr_width ?n fl'" and x: "last_val fl' \<in> lfsr_state ?n" by (simp_all add: lfsr_fresh_def)
  have n: "0 < ?n" "?n \<le> 64" using w by (simp_all add: lfsr_width_def)
  have inj: "inj_on (LFSR_NEXT fl') {v. unat v < 2 ^ ?n}"
    by (rule inj_onI) (use step_inj [OF w] in auto)
  have "LFSR_NEXT fl' ` {v. unat v < 2 ^ ?n} = {v. unat v < 2 ^ ?n}"
    by (rule endo_inj_surj [OF _ _ inj]) (use step_width [OF w] in auto)
  then have "bij_betw (LFSR_NEXT fl') {v. unat v < 2 ^ ?n} {v. unat v < 2 ^ ?n}"
    using inj by (simp add: bij_betw_def)
  moreover have "last_val ((lfsr_body ^^ k) fl') \<in> lfsr_state ?n" for k
  proof (cases k)
    case 0
    then show ?thesis using x by simp
  next
    case (Suc k')
    have "(LFSR_NEXT fl' ^^ j) (last_val fl') \<in> lfsr_state ?n" for j
      using x by (induction j) (simp_all add: step_state [OF w])
    then show ?thesis using lfsr_fresh_walk [OF fr, of k'] Suc by (simp add: walk_state_def)
  qed
  ultimately show ?thesis using step_ones [OF w] lfsr_state_iff [OF n(2,1)] by blast
qed

theorem lfsr_step_permutes_witness:
  "\<exists>fl'. lfsr_init (lfsr_row 3) 5 1 6 = (fl', False) \<and> LFSR_NEXT fl' 7 = 7 \<and>
    (\<forall>k. last_val ((lfsr_body ^^ k) fl') \<noteq> 7)"
proof -
  obtain fl' where init: "lfsr_init (lfsr_row 3) 5 1 6 = (fl', False)"
    using sample_init(1) by (metis prod.collapse)
  have "(mask 3 :: u64) = 7" by (simp add: mask_eq_exp_minus_1)
  then show ?thesis using lfsr_step_permutes [OF _ init sample_init(3)] init by auto
qed

end
