(* ===== verification/Queues.thy ===== *)
theory Queues
  imports Bits
begin

text \<open>
  The containers of \<^verbatim>\<open>io_u_queue.h\<close> and \<^verbatim>\<open>io_u_queue.c\<close>: the stack \<^verbatim>\<open>io_u_queue\<close> that recycles io_u
  structures and the ring \<^verbatim>\<open>io_u_ring\<close> that requeues them. Pointers are optional values, \<open>None\<close> inside an
  array is the null pointer; a failed assertion or an access outside the array is the result \<open>None\<close>.
  The contracts are the locales \<open>push_end\<close>, \<open>lifo\<close> and \<open>fifo_order\<close>; the stack is shown to be a bounded
  stack, the ring a first-in first-out queue as long as fewer than \<^verbatim>\<open>max\<close> entries are pending.
\<close>

section \<open>Contracts\<close>

text \<open>Sequences of pushes and pops.\<close>

fun push_all :: "('q \<Rightarrow> 'a \<Rightarrow> 'q option) \<Rightarrow> 'q \<Rightarrow> 'a list \<Rightarrow> 'q option" where
  "push_all push q [] = Some q"
| "push_all push q (x # xs) = do { q \<leftarrow> push q x; push_all push q xs }"

fun pop_n :: "('q \<Rightarrow> ('q \<times> 'a option) option) \<Rightarrow> nat \<Rightarrow> 'q \<Rightarrow> ('q \<times> 'a option list) option" where
  "pop_n pop 0 q = Some (q, [])"
| "pop_n pop (Suc n) q = do { (q, x) \<leftarrow> pop q; (q, xs) \<leftarrow> pop_n pop n q; Some (q, x # xs) }"

locale push_end =
  fixes inv :: "'q \<Rightarrow> bool" and items :: "'q \<Rightarrow> 'a list" and cap :: "'q \<Rightarrow> nat"
    and push :: "'q \<Rightarrow> 'a \<Rightarrow> 'q option"
  assumes push_law: "inv q \<Longrightarrow> length (items q) < cap q \<Longrightarrow>
      \<exists>q'. push q x = Some q' \<and> inv q' \<and> items q' = items q @ [x] \<and> cap q' = cap q"
begin

lemma push_all_law:
  "inv q \<Longrightarrow> length (items q) + length xs \<le> cap q \<Longrightarrow>
    \<exists>q'. push_all push q xs = Some q' \<and> inv q' \<and> items q' = items q @ xs \<and> cap q' = cap q"
proof (induction xs arbitrary: q)
  case (Cons x xs)
  then obtain q1 where q1: "push q x = Some q1" "inv q1" "items q1 = items q @ [x]" "cap q1 = cap q"
    using push_law [of q x] by auto
  then show ?case using Cons.IH [of q1] Cons.prems by auto
qed simp

end

locale lifo = push_end inv items cap push
  for inv :: "'q \<Rightarrow> bool" and items :: "'q \<Rightarrow> 'a list" and cap push +
  fixes pop :: "'q \<Rightarrow> ('q \<times> 'a option) option"
  assumes pop_last: "inv q \<Longrightarrow> items q = xs @ [x] \<Longrightarrow>
      \<exists>q'. pop q = Some (q', Some x) \<and> inv q' \<and> items q' = xs \<and> cap q' = cap q"
    and pop_empty: "inv q \<Longrightarrow> items q = [] \<Longrightarrow> pop q = Some (q, None)"
begin

lemma push_pop:
  assumes "inv q" and "length (items q) < cap q"
  shows "\<exists>q1 q2. push q x = Some q1 \<and> pop q1 = Some (q2, Some x) \<and> inv q2 \<and> items q2 = items q \<and> cap q2 = cap q"
  using push_law [OF assms, of x] pop_last by metis

end

locale fifo_order = push_end inv items cap push
  for inv :: "'q \<Rightarrow> bool" and items :: "'q \<Rightarrow> 'a list" and cap push +
  fixes pop :: "'q \<Rightarrow> ('q \<times> 'a option) option"
  assumes pop_first: "inv q \<Longrightarrow> items q = x # xs \<Longrightarrow>
      \<exists>q'. pop q = Some (q', Some x) \<and> inv q' \<and> items q' = xs \<and> cap q' = cap q"
    and pop_empty: "inv q \<Longrightarrow> items q = [] \<Longrightarrow> pop q = Some (q, None)"
begin

lemma pop_n_law:
  "inv q \<Longrightarrow> n \<le> length (items q) \<Longrightarrow>
    \<exists>q'. pop_n pop n q = Some (q', map Some (take n (items q))) \<and> inv q' \<and> items q' = drop n (items q) \<and> cap q' = cap q"
proof (induction n arbitrary: q)
  case (Suc n)
  then obtain x xs where "items q = x # xs" by (cases "items q") auto
  with Suc.prems obtain q1 where "pop q = Some (q1, Some x)" "inv q1" "items q1 = xs" "cap q1 = cap q"
    using pop_first by blast
  with Suc.IH [of q1] Suc.prems \<open>items q = x # xs\<close> show ?case by auto
qed simp

text \<open>What is pushed comes out in the same order, behind what was there before.\<close>

lemma push_all_pop_n:
  assumes "inv q" and "length (items q) + length xs \<le> cap q"
  shows "\<exists>q1 q2. push_all push q xs = Some q1 \<and>
    pop_n pop (length (items q) + length xs) q1 = Some (q2, map Some (items q @ xs)) \<and> inv q2 \<and> items q2 = []"
proof -
  obtain q1 where q1: "push_all push q xs = Some q1" "inv q1" "items q1 = items q @ xs"
    using push_all_law [OF assms] by blast
  then show ?thesis using pop_n_law [of q1 "length (items q) + length xs"] by auto
qed

end

section \<open>The stack\<close>

record 'p io_u_queue =
  io_us :: "'p option list"
  nr :: u32
  qmax :: u32

text \<open>\<open>alloc\<close> is the result of the allocation, zeroed memory or \<open>False\<close> for a null pointer.\<close>

definition io_u_qinit :: "bool \<Rightarrow> u32 \<Rightarrow> 'p io_u_queue option" where
  "io_u_qinit alloc n =
     (if \<not> alloc then None else Some \<lparr>io_us = replicate (unat n) None, nr = 0, qmax = n\<rparr>)"

definition io_u_qpop :: "'p io_u_queue \<Rightarrow> ('p io_u_queue \<times> 'p option) option" where
  "io_u_qpop q =
     (if nr q \<noteq> 0 then do {
        let nxt = nr q - 1;
        io_u \<leftarrow> rd (io_us q) (unat nxt);
        us \<leftarrow> wr (io_us q) (unat nxt) None;
        Some (q\<lparr>nr := nxt, io_us := us\<rparr>, io_u)
      } else Some (q, None))"

definition io_u_qpush :: "'p io_u_queue \<Rightarrow> 'p option \<Rightarrow> 'p io_u_queue option" where
  "io_u_qpush q io_u =
     (if nr q < qmax q then do {
        us \<leftarrow> wr (io_us q) (unat (nr q)) io_u;
        Some (q\<lparr>io_us := us, nr := nr q + 1\<rparr>)
      } else None)"

definition io_u_qempty :: "'p io_u_queue \<Rightarrow> bool" where
  "io_u_qempty q \<longleftrightarrow> nr q = 0"

definition q_inv :: "'p io_u_queue \<Rightarrow> bool" where
  "q_inv q \<longleftrightarrow> nr q \<le> qmax q \<and> length (io_us q) = unat (qmax q) \<and>
     (\<forall>i < unat (nr q). io_us q ! i \<noteq> None)"

definition q_items :: "'p io_u_queue \<Rightarrow> 'p list" where
  "q_items q = map the (take (unat (nr q)) (io_us q))"

lemma unat_Suc32: "unat (n :: u32) < unat (m :: u32) \<Longrightarrow> unat (n + 1) = Suc (unat n)"
  using unat_bound32 [of m] by (simp add: unat_word_ariths)

lemma q_push:
  assumes "q_inv q" and "nr q < qmax q"
  shows "\<exists>q'. io_u_qpush q (Some x) = Some q' \<and> q_inv q' \<and> q_items q' = q_items q @ [x] \<and> qmax q' = qmax q"
proof -
  have n: "unat (nr q) < unat (qmax q)" using assms(2) by (simp add: word_less_nat_alt)
  have len: "length (io_us q) = unat (qmax q)" using assms(1) by (simp add: q_inv_def)
  let ?q = "q\<lparr>io_us := (io_us q)[unat (nr q) := Some x], nr := nr q + 1\<rparr>"
  have "io_u_qpush q (Some x) = Some ?q"
    using assms(2) n len by (simp add: io_u_qpush_def)
  moreover have "q_inv ?q"
    using assms(1) n unat_Suc32 [OF n] by (auto simp: q_inv_def word_le_nat_alt nth_list_update less_Suc_eq)
  moreover have "q_items ?q = q_items q @ [x]"
    using n len unat_Suc32 [OF n] by (simp add: q_items_def take_Suc_conv_app_nth)
  ultimately show ?thesis by auto
qed

lemma length_q_items: "q_inv q \<Longrightarrow> length (q_items q) = unat (nr q)"
  by (simp add: q_items_def q_inv_def word_le_nat_alt)

lemma q_pop_last:
  assumes inv: "q_inv q" and it: "q_items q = xs @ [x]"
  shows "\<exists>q'. io_u_qpop q = Some (q', Some x) \<and> q_inv q' \<and> q_items q' = xs \<and> qmax q' = qmax q"
proof -
  have n: "unat (nr q) = Suc (length xs)" using length_q_items [OF inv] it by simp
  then have nz: "nr q \<noteq> 0" by auto
  then have n1: "unat (nr q - 1) = length xs" using n by (simp add: unat_minus_one)
  have len: "length xs < length (io_us q)" "length (io_us q) = unat (qmax q)"
    using inv n by (auto simp: q_inv_def word_le_nat_alt)
  have parts: "map the (take (length xs) (io_us q)) = xs" "the (io_us q ! length xs) = x"
    using it n len by (simp_all add: q_items_def take_Suc_conv_app_nth)
  moreover have "io_us q ! length xs \<noteq> None" using inv n by (simp add: q_inv_def)
  ultimately have top: "io_us q ! length xs = Some x" by auto
  let ?q = "q\<lparr>nr := nr q - 1, io_us := (io_us q)[length xs := None]\<rparr>"
  have "io_u_qpop q = Some (?q, Some x)" using nz n1 len top by (simp add: io_u_qpop_def)
  moreover have "q_inv ?q" using inv n n1 len by (auto simp: q_inv_def word_le_nat_alt)
  moreover have "q_items ?q = xs" using n1 parts by (simp add: q_items_def)
  ultimately show ?thesis by auto
qed

interpretation ioq: lifo q_inv q_items "\<lambda>q. unat (qmax q)" "\<lambda>q x. io_u_qpush q (Some x)" io_u_qpop
proof
  show "\<exists>q'. io_u_qpush q (Some x) = Some q' \<and> q_inv q' \<and> q_items q' = q_items q @ [x] \<and>
      unat (qmax q') = unat (qmax q)" if "q_inv q" "length (q_items q) < unat (qmax q)" for q :: "'a io_u_queue" and x
    using q_push [OF that(1), of x] that length_q_items [OF that(1)] by (metis word_less_nat_alt)
  show "\<exists>q'. io_u_qpop q = Some (q', Some x) \<and> q_inv q' \<and> q_items q' = xs \<and> unat (qmax q') = unat (qmax q)"
    if "q_inv q" "q_items q = xs @ [x]" for q :: "'a io_u_queue" and xs x
    using q_pop_last [OF that] by auto
  show "io_u_qpop q = Some (q, None)" if "q_inv q" "q_items q = []" for q :: "'a io_u_queue"
    using length_q_items [OF that(1)] that(2) by (simp add: io_u_qpop_def unat_eq_0)
qed

section \<open>The ring\<close>

record 'p io_u_ring =
  head :: u32
  tail :: u32
  rmax :: u32
  ring :: "'p option list"

text \<open>The rounding of \<^verbatim>\<open>io_u_rinit\<close> to a power of two.\<close>

definition ring_size :: "u32 \<Rightarrow> u32" where
  "ring_size n =
     (let m = n + 1 in
      if m AND (m - 1) \<noteq> 0 then
        let m = m - 1;
            m = m OR drop_bit 1 m;
            m = m OR drop_bit 2 m;
            m = m OR drop_bit 4 m;
            m = m OR drop_bit 8 m;
            m = m OR drop_bit 16 m
        in m + 1
      else m)"

definition io_u_rinit :: "bool \<Rightarrow> u32 \<Rightarrow> 'p io_u_ring option" where
  "io_u_rinit alloc n =
     (if \<not> alloc then None
      else Some \<lparr>head = 0, tail = 0, rmax = ring_size n, ring = replicate (unat (ring_size n)) None\<rparr>)"

definition io_u_rpush :: "'p io_u_ring \<Rightarrow> 'p option \<Rightarrow> 'p io_u_ring option" where
  "io_u_rpush r io_u =
     (if head r + 1 \<noteq> tail r then do {
        us \<leftarrow> wr (ring r) (unat (head r)) io_u;
        Some (r\<lparr>ring := us, head := (head r + 1) AND (rmax r - 1)\<rparr>)
      } else None)"

definition io_u_rpop :: "'p io_u_ring \<Rightarrow> ('p io_u_ring \<times> 'p option) option" where
  "io_u_rpop r =
     (if head r \<noteq> tail r then do {
        io_u \<leftarrow> rd (ring r) (unat (tail r));
        Some (r\<lparr>tail := (tail r + 1) AND (rmax r - 1)\<rparr>, io_u)
      } else Some (r, None))"

definition io_u_rempty :: "'p io_u_ring \<Rightarrow> bool" where
  "io_u_rempty r \<longleftrightarrow> head r = tail r"

text \<open>The number of pending entries, and the entries themselves from the oldest on.\<close>

definition r_count :: "'p io_u_ring \<Rightarrow> nat" where
  "r_count r = (unat (head r) + unat (rmax r) - unat (tail r)) mod unat (rmax r)"

definition r_items :: "'p io_u_ring \<Rightarrow> 'p list" where
  "r_items r = map (\<lambda>i. the (ring r ! ((unat (tail r) + i) mod unat (rmax r)))) [0..<r_count r]"

definition r_inv :: "'p io_u_ring \<Rightarrow> bool" where
  "r_inv r \<longleftrightarrow> (\<exists>k < 32. 0 < k \<and> rmax r = 2 ^ k) \<and> length (ring r) = unat (rmax r) \<and>
     head r < rmax r \<and> tail r < rmax r \<and>
     (\<forall>i < r_count r. ring r ! ((unat (tail r) + i) mod unat (rmax r)) \<noteq> None)"

lemma next_index:
  assumes "m = (2 :: u32) ^ k" "k < 32" "0 < k" "h < m"
  shows "unat ((h + 1) AND (m - 1)) = Suc (unat h) mod unat m"
proof -
  have m: "unat m = 2 ^ k" using assms(1,2) unat_pow2 [where 'a = 32 and n = k] by simp
  have "(2 :: nat) ^ k < 2 ^ 32" by (rule power_strict_increasing [OF assms(2)]) simp
  then have "unat (h + 1) = Suc (unat h)" using unat_Suc32 [of h m] assms(4) by (simp add: word_less_nat_alt)
  moreover have "m - 1 = mask k" using assms(1) by (simp add: mask_eq_exp_minus_1)
  ultimately show ?thesis using unat_and_mask [of "h + 1" k] m by simp
qed

text \<open>Positions on a circle of \<open>m\<close> slots.\<close>

lemma circle_count:
  fixes t c h m :: nat
  assumes "t < m" "c < m" "(t + c) mod m = h"
  shows "(h + m - t) mod m = c"
proof (cases "t + c < m")
  case True
  then have "h + m - t = c + m" using assms by simp
  then show ?thesis using assms(2) by simp
next
  case False
  then have "h = t + c - m" using assms by (simp add: le_mod_geq)
  then show ?thesis using False assms by simp
qed

lemma circle_head:
  fixes t h m :: nat
  assumes "t < m" "h < m"
  shows "(t + (h + m - t) mod m) mod m = h"
proof -
  have "(t + (h + m - t) mod m) mod m = (t + (h + m - t)) mod m" by (rule mod_add_right_eq)
  also have "t + (h + m - t) = h + m" using assms by simp
  finally show ?thesis using assms(2) by simp
qed

lemma circle_inj:
  fixes t i j m :: nat
  assumes "t < m" "i < m" "j < m" "(t + i) mod m = (t + j) mod m"
  shows "i = j"
proof -
  note i = circle_count [OF assms(1,2) refl] and j = circle_count [OF assms(1,3) refl]
  from i [unfolded assms(4)] j show ?thesis by (rule trans [OF sym])
qed

lemma r_facts:
  assumes "r_inv r"
  shows "unat (tail r) < unat (rmax r)" "unat (head r) < unat (rmax r)" "length (ring r) = unat (rmax r)"
    "r_count r < unat (rmax r)" "(unat (tail r) + r_count r) mod unat (rmax r) = unat (head r)"
    "unat ((head r + 1) AND (rmax r - 1)) = Suc (unat (head r)) mod unat (rmax r)"
    "unat ((tail r + 1) AND (rmax r - 1)) = Suc (unat (tail r)) mod unat (rmax r)"
proof -
  obtain k where k: "k < 32" "0 < k" "rmax r = 2 ^ k" using assms by (auto simp: r_inv_def)
  show th: "unat (tail r) < unat (rmax r)" "unat (head r) < unat (rmax r)" "length (ring r) = unat (rmax r)"
    using assms by (auto simp: r_inv_def word_less_nat_alt)
  show "r_count r < unat (rmax r)" using th(1) by (simp add: r_count_def)
  show "(unat (tail r) + r_count r) mod unat (rmax r) = unat (head r)"
    unfolding r_count_def by (rule circle_head [OF th(1,2)])
  show "unat ((head r + 1) AND (rmax r - 1)) = Suc (unat (head r)) mod unat (rmax r)"
    "unat ((tail r + 1) AND (rmax r - 1)) = Suc (unat (tail r)) mod unat (rmax r)"
    using next_index [OF k(3,1,2)] th(1,2) by (simp_all add: word_less_nat_alt)
qed

lemma length_r_items [simp]: "length (r_items r) = r_count r"
  by (simp add: r_items_def)

lemma mod_less_cong: "0 < (m :: nat) \<Longrightarrow> x mod m < m" by simp

lemma r_push:
  assumes inv: "r_inv r" and room: "Suc (r_count r) < unat (rmax r)"
  shows "\<exists>r'. io_u_rpush r (Some x) = Some r' \<and> r_inv r' \<and> r_items r' = r_items r @ [x] \<and> rmax r' = rmax r"
proof -
  note f = r_facts [OF inv]
  let ?m = "unat (rmax r)" and ?t = "unat (tail r)" and ?h = "unat (head r)" and ?c = "r_count r"
  define r' where "r' = r\<lparr>ring := (ring r)[?h := Some x], head := (head r + 1) AND (rmax r - 1)\<rparr>"
  have m: "0 < ?m" using room by simp
  have "head r + 1 \<noteq> tail r"
  proof
    assume "head r + 1 = tail r"
    then have "?t = Suc ?h" using unat_Suc32 [OF f(2)] by simp
    then have "(?t + (?m - 1)) mod ?m = ?h" using f(2) m by (simp add: mod_if)
    then have "?c = ?m - 1" using circle_count [OF f(1), of "?m - 1"] m by (simp add: r_count_def)
    then show False using room by simp
  qed
  then have push: "io_u_rpush r (Some x) = Some r'"
    using f(2,3) by (simp add: io_u_rpush_def r'_def)
  have "(?t + Suc ?c) mod ?m = Suc ?h mod ?m"
    using f(5) by (metis add_Suc_right mod_Suc_eq)
  then have "(unat (head r') + ?m - ?t) mod ?m = Suc ?c"
    using circle_count [OF f(1) room] f(6) by (simp add: r'_def)
  then have c': "r_count r' = Suc ?c" by (simp add: r_count_def r'_def)
  have old: "ring r' ! ((?t + i) mod ?m) = ring r ! ((?t + i) mod ?m)" if "i < ?c" for i
  proof -
    have "(?t + i) mod ?m \<noteq> ?h" using circle_inj [OF f(1), of i ?c] f(4,5) that by auto
    then show ?thesis by (simp add: r'_def)
  qed
  have new: "ring r' ! ((?t + ?c) mod ?m) = Some x" using f(2,3,5) by (simp add: r'_def)
  have fields: "tail r' = tail r" "rmax r' = rmax r" "length (ring r') = length (ring r)"
    by (simp_all add: r'_def)
  have "head r' < rmax r" using f(6) m by (simp add: r'_def word_less_nat_alt)
  then have "r_inv r'"
    using inv old new unfolding r_inv_def c' fields by (auto simp: less_Suc_eq)
  moreover have "r_items r' = r_items r @ [x]"
    using old new unfolding r_items_def c' fields by simp
  ultimately show ?thesis using push fields by blast
qed

lemma r_pop_first:
  assumes inv: "r_inv r" and it: "r_items r = x # xs"
  shows "\<exists>r'. io_u_rpop r = Some (r', Some x) \<and> r_inv r' \<and> r_items r' = xs \<and> rmax r' = rmax r"
proof -
  note f = r_facts [OF inv]
  let ?m = "unat (rmax r)" and ?t = "unat (tail r)" and ?h = "unat (head r)" and ?c = "r_count r"
  have m: "0 < ?m" using f(1) by simp
  define c where "c = length xs"
  have c: "?c = Suc c" using it length_r_items [of r] by (simp add: c_def)
  have ne: "head r \<noteq> tail r"
  proof
    assume "head r = tail r"
    then show False using f(1) c by (simp add: r_count_def)
  qed
  define r' where "r' = r\<lparr>tail := (tail r + 1) AND (rmax r - 1)\<rparr>"
  have t': "unat (tail r') = Suc ?t mod ?m" using f(7) by (simp add: r'_def)
  have shift: "(unat (tail r') + i) mod ?m = (?t + Suc i) mod ?m" for i
    unfolding t' by (simp add: mod_add_left_eq)
  have "(unat (tail r') + c) mod ?m = ?h" using shift [of c] f(5) c by simp
  then have "(?h + ?m - unat (tail r')) mod ?m = c"
    using circle_count [of "unat (tail r')" ?m c] t' m f(4) c by simp
  then have c': "r_count r' = c" by (simp add: r_count_def r'_def)
  have fields: "head r' = head r" "rmax r' = rmax r" "ring r' = ring r" by (simp_all add: r'_def)
  have nn: "ring r ! ((?t + i) mod ?m) \<noteq> None" if "i < ?c" for i using inv that by (simp add: r_inv_def)
  have "map (\<lambda>i. the (ring r ! ((?t + i) mod ?m))) [0..<Suc c] = x # xs"
    using it c by (simp add: r_items_def)
  then have its: "the (ring r ! (?t mod ?m)) = x" "map (\<lambda>i. the (ring r ! ((?t + Suc i) mod ?m))) [0..<c] = xs"
    unfolding upt_conv_Cons [OF zero_less_Suc] map_Suc_upt [symmetric] by (simp_all add: o_def)
  then have "ring r ! ?t = Some x" using nn [of 0] c f(1) by auto
  then have "io_u_rpop r = Some (r', Some x)"
    using ne f(1,3) by (simp add: io_u_rpop_def r'_def)
  moreover have "tail r' < rmax r" using t' m by (simp add: word_less_nat_alt)
  then have "r_inv r'"
    using inv nn c unfolding r_inv_def c' fields shift by (auto simp del: add_Suc_right)
  moreover have "r_items r' = xs" unfolding r_items_def c' fields shift by (rule its(2))
  ultimately show ?thesis using fields by blast
qed

interpretation ior: fifo_order r_inv r_items "\<lambda>r. unat (rmax r) - 1" "\<lambda>r x. io_u_rpush r (Some x)" io_u_rpop
proof
  show "\<exists>r'. io_u_rpush r (Some x) = Some r' \<and> r_inv r' \<and> r_items r' = r_items r @ [x] \<and>
      unat (rmax r') - 1 = unat (rmax r) - 1" if "r_inv r" "length (r_items r) < unat (rmax r) - 1"
    for r :: "'a io_u_ring" and x
  proof -
    have "Suc (r_count r) < unat (rmax r)" using that(2) by simp
    from r_push [OF that(1) this, of x] show ?thesis by metis
  qed
  show "\<exists>r'. io_u_rpop r = Some (r', Some x) \<and> r_inv r' \<and> r_items r' = xs \<and> unat (rmax r') - 1 = unat (rmax r) - 1"
    if "r_inv r" "r_items r = x # xs" for r :: "'a io_u_ring" and x xs
    using r_pop_first [OF that] by metis
  show "io_u_rpop r = Some (r, None)" if "r_inv r" "r_items r = []" for r :: "'a io_u_ring"
  proof -
    have "r_count r = 0" using that(2) length_r_items [of r] by simp
    then have "head r = tail r"
      using r_facts(1,5) [OF that(1)] by (simp add: word_unat_eqI)
    then show ?thesis by (simp add: io_u_rpop_def)
  qed
qed

section \<open>The size of a ring\<close>

lemma ring_size_spec:
  assumes "0 < unat n" and "unat n < 2 ^ 31"
  shows "\<exists>k < 32. 0 < k \<and> ring_size n = 2 ^ k \<and> unat n < 2 ^ k \<and> 2 ^ k \<le> 2 * unat n"
proof -
  have n1: "unat (n + 1) = Suc (unat n)" using assms(2) by (simp add: unat_word_ariths)
  then have nz: "n + 1 \<noteq> 0" by auto
  show ?thesis
  proof (cases "(n + 1) AND (n + 1 - 1) = 0")
    case True
    then have rs: "ring_size n = n + 1" by (simp add: ring_size_def Let_def)
    obtain k where k: "k < 32" "n + 1 = 2 ^ k"
      using True and_minus_one_zero_iff [OF nz] by auto
    then have pow: "Suc (unat n) = 2 ^ k" using n1 unat_pow2 [where 'a = 32 and n = k] by simp
    then have "0 < k" using assms(1) by (cases k) auto
    then show ?thesis using k rs pow assms(1) by (intro exI [of _ k]) auto
  next
    case False
    have "n \<noteq> 0" using assms(1) by auto
    then obtain m where m: "is_msb n m" using ex_is_msb by blast
    note um = is_msb_unat [OF m]
    have "m < 31"
    proof (rule ccontr)
      assume "\<not> m < 31"
      then have "(2 :: nat) ^ 31 \<le> 2 ^ m" by (intro power_increasing) simp_all
      then show False using um assms(2) by simp
    qed
    define v1 where "v1 = n OR drop_bit 1 n"
    define v2 where "v2 = v1 OR drop_bit 2 v1"
    define v3 where "v3 = v2 OR drop_bit 4 v2"
    define v4 where "v4 = v3 OR drop_bit 8 v3"
    define v5 where "v5 = v4 OR drop_bit 16 v4"
    have "window 32 n v5"
      using window_double [OF window_double [OF window_double [OF window_double [OF window_double [OF window_one [of n]]]]]]
      by (simp add: v1_def v2_def v3_def v4_def v5_def)
    then have "v5 = mask (Suc m)" using window_full [OF _ m] \<open>m < 31\<close> by simp
    then have "ring_size n = 2 ^ Suc m"
      using False by (simp add: ring_size_def Let_def v1_def v2_def v3_def v4_def v5_def mask_eq_exp_minus_1)
    then show ?thesis using um \<open>m < 31\<close> by (intro exI [of _ "Suc m"]) auto
  qed
qed

lemma io_u_rinit_inv:
  assumes "0 < unat n" and "unat n < 2 ^ 31"
  shows "\<exists>r :: 'p io_u_ring. io_u_rinit True n = Some r \<and> r_inv r \<and> r_items r = [] \<and> unat n < unat (rmax r)"
proof -
  obtain k where k: "k < 32" "0 < k" "ring_size n = 2 ^ k" "unat n < 2 ^ k"
    using ring_size_spec [OF assms] by blast
  then have m: "unat (ring_size n) = 2 ^ k" using unat_pow2 [where 'a = 32 and n = k] by simp
  define r :: "'p io_u_ring" where
    "r = \<lparr>head = 0, tail = 0, rmax = ring_size n, ring = replicate (unat (ring_size n)) None\<rparr>"
  have c: "r_count r = 0" by (simp add: r_count_def r_def)
  have "(0 :: u32) < ring_size n" using m by (simp add: word_less_nat_alt)
  then have "r_inv r" using k c by (auto simp: r_inv_def r_def)
  moreover have "r_items r = []" using c by (simp add: r_items_def)
  moreover have "io_u_rinit True n = Some r" by (simp add: io_u_rinit_def r_def)
  ultimately show ?thesis using k(4) m by (auto simp: r_def)
qed

section \<open>Properties\<close>

text \<open>
  C20 (refinement): a ring made by \<^verbatim>\<open>io_u_rinit\<close> for \<open>n\<close> entries accepts \<open>n\<close> pushes without a fault, and
  popping returns the pushed pointers in order, first in first out, across the wrap of the indices;
  its size is the power of two just above \<open>n\<close>.
\<close>

theorem ring_fifo:
  fixes xs :: "'p list"
  assumes "0 < unat n" and "unat n < 2 ^ 31" and "length xs \<le> unat n" and "length ys \<le> length xs"
    and "length zs \<le> unat n - (length xs - length ys)"
  shows "\<exists>r0 r1 r2 r3 r4. io_u_rinit True n = Some r0 \<and>
    push_all (\<lambda>r x. io_u_rpush r (Some x)) r0 xs = Some r1 \<and>
    pop_n io_u_rpop (length ys) r1 = Some (r2, map Some (take (length ys) xs)) \<and>
    push_all (\<lambda>r x. io_u_rpush r (Some x)) r2 zs = Some r3 \<and>
    pop_n io_u_rpop (length xs - length ys + length zs) r3 = Some (r4, map Some (drop (length ys) xs @ zs)) \<and>
    io_u_rempty r4"
proof -
  obtain r0 :: "'p io_u_ring" where r0: "io_u_rinit True n = Some r0" "r_inv r0" "r_items r0 = []" "unat n < unat (rmax r0)"
    using io_u_rinit_inv [OF assms(1,2)] by blast
  then have "length xs \<le> unat (rmax r0) - 1" using assms(3) by linarith
  then obtain r1 where r1: "push_all (\<lambda>r x. io_u_rpush r (Some x)) r0 xs = Some r1" "r_inv r1" "r_items r1 = xs"
    "unat (rmax r1) - 1 = unat (rmax r0) - 1"
    using ior.push_all_law [OF r0(2), of xs] r0(3) by auto
  then obtain r2 where r2: "pop_n io_u_rpop (length ys) r1 = Some (r2, map Some (take (length ys) xs))" "r_inv r2"
    "r_items r2 = drop (length ys) xs" "unat (rmax r2) - 1 = unat (rmax r0) - 1"
    using ior.pop_n_law [OF r1(2), of "length ys"] assms(4) by auto
  have "length (r_items r2) + length zs \<le> unat (rmax r2) - 1" using r2 r0(4) assms(5,3,4) by simp
  from ior.push_all_pop_n [OF r2(2) this] r2(3) obtain r3 r4 where
    "push_all (\<lambda>r x. io_u_rpush r (Some x)) r2 zs = Some r3"
    "pop_n io_u_rpop (length xs - length ys + length zs) r3 = Some (r4, map Some (drop (length ys) xs @ zs))"
    "r_inv r4" "r_items r4 = []" by auto
  moreover have "head r4 = tail r4"
  proof -
    have "r_count r4 = 0" using calculation(4) length_r_items [of r4] by simp
    then show ?thesis using r_facts(1,5) [OF calculation(3)] by (simp add: word_unat_eqI)
  qed
  ultimately show ?thesis using r0(1) r1(1) r2(1) by (auto simp: io_u_rempty_def)
qed

theorem ring_fifo_witness:
  "\<exists>r0 r1 r2. io_u_rinit True 3 = Some r0 \<and> push_all (\<lambda>r x. io_u_rpush r (Some x)) r0 [7, 8, 9 :: nat] = Some r1 \<and>
    pop_n io_u_rpop (Suc (Suc 0)) r1 = Some (r2, [Some 7, Some 8])"
  using ring_fifo [of 3 "[7, 8, 9 :: nat]" "[0, 0 :: nat]" "[1]"] by auto

text \<open>
  The full check of \<^verbatim>\<open>io_u_rpush\<close> compares \<^verbatim>\<open>head + 1\<close> with \<^verbatim>\<open>tail\<close> without wrapping it. On a ring
  of four slots whose three usable slots are taken, with \<^verbatim>\<open>tail\<close> at 0, a further push is not caught by the
  assertion: it succeeds and leaves a ring that reports itself empty, with all entries lost.
\<close>

theorem ring_overflow_undetected:
  "\<exists>r r'. do { r0 \<leftarrow> io_u_rinit True 3; push_all (\<lambda>r x. io_u_rpush r (Some x)) r0 [7, 8, 9 :: nat] } = Some r \<and>
    r_items r = [7, 8, 9] \<and> io_u_rpush r (Some 10) = Some r' \<and> io_u_rempty r' \<and> io_u_rpop r' = Some (r', None)"
proof -
  let ?r = "\<lparr>head = 3, tail = 0, rmax = 4, ring = [Some 7, Some 8, Some 9, None]\<rparr> :: nat io_u_ring"
  let ?r' = "\<lparr>head = 0, tail = 0, rmax = 4, ring = [Some 7, Some 8, Some 9, Some 10]\<rparr> :: nat io_u_ring"
  have "do { r0 \<leftarrow> io_u_rinit True 3; push_all (\<lambda>r x. io_u_rpush r (Some x)) r0 [7, 8, 9 :: nat] } = Some ?r"
    by code_simp
  moreover have "r_items ?r = [7, 8, 9]" by code_simp
  moreover have "io_u_rpush ?r (Some 10) = Some ?r'" by code_simp
  moreover have "io_u_rempty ?r'" "io_u_rpop ?r' = Some (?r', None)"
    by (simp_all add: io_u_rempty_def io_u_rpop_def)
  ultimately show ?thesis by blast
qed

text \<open>
  The io_u free list is a bounded stack: a push below the capacity followed by a pop
  returns the pushed pointer and restores the stack; a pop of the empty queue returns the null
  pointer; a push on a full queue is caught by the assertion.
\<close>

theorem queue_lifo:
  assumes "q_inv q"
  shows "(length (q_items q) < unat (qmax q) \<longrightarrow>
      (\<exists>q1 q2. io_u_qpush q (Some x) = Some q1 \<and> q_items q1 = q_items q @ [x] \<and>
        io_u_qpop q1 = Some (q2, Some x) \<and> q_inv q2 \<and> q_items q2 = q_items q)) \<and>
    (io_u_qempty q \<longrightarrow> io_u_qpop q = Some (q, None)) \<and>
    (length (q_items q) = unat (qmax q) \<longrightarrow> io_u_qpush q (Some x) = None)"
proof (intro conjI impI)
  assume room: "length (q_items q) < unat (qmax q)"
  show "\<exists>q1 q2. io_u_qpush q (Some x) = Some q1 \<and> q_items q1 = q_items q @ [x] \<and>
        io_u_qpop q1 = Some (q2, Some x) \<and> q_inv q2 \<and> q_items q2 = q_items q"
    using ioq.push_pop [OF assms room, of x] ioq.push_law [OF assms room, of x] by auto
next
  assume "io_u_qempty q"
  then have "q_items q = []" using length_q_items [OF assms] by (simp add: io_u_qempty_def)
  then show "io_u_qpop q = Some (q, None)" by (rule ioq.pop_empty [OF assms])
next
  assume "length (q_items q) = unat (qmax q)"
  then show "io_u_qpush q (Some x) = None"
    using length_q_items [OF assms] by (simp add: io_u_qpush_def word_less_nat_alt)
qed

theorem queue_lifo_witness:
  "\<exists>q q1. io_u_qinit True 2 = Some q \<and> io_u_qpush q (Some (5 :: nat)) = Some q1 \<and> q_items q1 = [5]"
proof -
  let ?q = "\<lparr>io_us = [None, None], nr = 0, qmax = 2\<rparr> :: nat io_u_queue"
  have "io_u_qinit True 2 = Some ?q" by code_simp
  moreover have "q_inv ?q" "q_items ?q = []" by (simp_all add: q_inv_def q_items_def)
  ultimately show ?thesis using queue_lifo [of ?q 5] by auto
qed

end
