(* ===== verification/Byte_Fifo.thy ===== *)
theory Byte_Fifo
  imports Queues
begin

text \<open>
  \<^verbatim>\<open>fifo.c\<close>: the byte fifo. The indices \<^verbatim>\<open>in\<close> and \<^verbatim>\<open>out\<close> are free-running 32-bit counters, masked with
  \<^verbatim>\<open>size - 1\<close> at every access, so the size has to be a power of two. The contract is the locale
  \<open>byte_pipe\<close>; the fifo is shown to refine a bounded byte queue, including the copies that wrap.
\<close>

section \<open>Definitions\<close>

record fifo =
  buffer :: bytes
  fsize :: u32
  fin :: u32
  fout :: u32

text \<open>\<open>mem\<close>: the contents of the buffer memory, \<open>None\<close> when the allocation of the struct fails.\<close>

definition fifo_alloc :: "(nat \<Rightarrow> u8) option \<Rightarrow> u32 \<Rightarrow> fifo option" where
  "fifo_alloc mem sz = (case mem of None \<Rightarrow> None
     | Some f \<Rightarrow> Some \<lparr>buffer = map f [0..<unat sz], fsize = sz, fin = 0, fout = 0\<rparr>)"

definition fifo_len :: "fifo \<Rightarrow> u32" where
  "fifo_len f = fin f - fout f"

definition fifo_room :: "fifo \<Rightarrow> u32" where
  "fifo_room f = fsize f - fin f + fout f"

definition fifo_put :: "fifo \<Rightarrow> bytes \<Rightarrow> u32 \<Rightarrow> (fifo \<times> u32) option" where
  "fifo_put f buf len = do {
     let len = min len (fifo_room f);
     let at = fin f AND (fsize f - 1);
     let l = min len (fsize f - at);
     b \<leftarrow> memcpy_at (buffer f) (unat at) buf (unat l);
     b \<leftarrow> memcpy_at b 0 (drop (unat l) buf) (unat (len - l));
     Some (f\<lparr>buffer := b, fin := fin f + len\<rparr>, len)
   }"

text \<open>\<open>want\<close>: the destination is not the null pointer; the bytes copied to it are the third result.\<close>

definition fifo_get :: "fifo \<Rightarrow> bool \<Rightarrow> u32 \<Rightarrow> (fifo \<times> u32 \<times> bytes) option" where
  "fifo_get f want len = do {
     let len = min len (fin f - fout f);
     out \<leftarrow> (if want then do {
        let at = fout f AND (fsize f - 1);
        let l = min len (fsize f - at);
        b \<leftarrow> memcpy_at (replicate (unat len) 0) 0 (drop (unat at) (buffer f)) (unat l);
        memcpy_at b (unat l) (buffer f) (unat (len - l))
      } else Some []);
     let f = f\<lparr>fout := fout f + len\<rparr>;
     let f = (if fin f = fout f then f\<lparr>fin := 0, fout := 0\<rparr> else f);
     Some (f, len, out)
   }"

section \<open>Copies that wrap\<close>

lemma circle_write:
  fixes buf data :: "'a list"
  assumes at: "at < m" and c: "c \<le> m" and len: "length buf = m" "c \<le> length data" and l: "l = min c (m - at)"
    and b1: "b1 = take at buf @ take l data @ drop (at + l) buf"
    and b2: "b2 = take (c - l) (drop l data) @ drop (c - l) b1"
  shows "length b2 = m" and "\<And>j. j < c \<Longrightarrow> b2 ! ((at + j) mod m) = data ! j"
    and "\<And>p. p < m \<Longrightarrow> (\<And>j. j < c \<Longrightarrow> p \<noteq> (at + j) mod m) \<Longrightarrow> b2 ! p = buf ! p"
proof -
  have l_le: "l \<le> c" "at + l \<le> m" using l at by auto
  have wrap: "l < c \<Longrightarrow> l = m - at" using l by auto
  have low: "c - l \<le> at" using wrap c at l_le(1) by (cases "l < c") auto
  have ld: "l \<le> length data" "c - l \<le> length data - l" using l_le(1) len(2) by auto
  have len1: "length b1 = m" using b1 len at l_le by auto
  then show "length b2 = m" using b2 len c low at by simp
  have nth1: "b1 ! p = (if at \<le> p \<and> p < at + l then data ! (p - at) else buf ! p)" if "p < m" for p
    using that len l_le at ld by (auto simp: b1 nth_append min_absorb2)
  have nth2: "b2 ! p = (if p < c - l then data ! (l + p) else b1 ! p)" if "p < m" for p
    using that len len1 l_le low at ld by (auto simp: b2 nth_append min_absorb2)
  show "b2 ! ((at + j) mod m) = data ! j" if "j < c" for j
  proof (cases "j < l")
    case True
    then have "(at + j) mod m = at + j" using l_le(2) by simp
    then show ?thesis using True nth1 [of "at + j"] nth2 [of "at + j"] l_le low by simp
  next
    case False
    then have lm: "l = m - at" using wrap that by simp
    then have "(at + j) mod m = j - l" using False that c at by (simp add: le_mod_geq)
    moreover have "j - l < c - l" "j - l < m" using False that c by auto
    ultimately show ?thesis using nth2 [of "j - l"] False by simp
  qed
  show "b2 ! p = buf ! p" if "p < m" and free: "\<And>j. j < c \<Longrightarrow> p \<noteq> (at + j) mod m" for p
  proof -
    have "\<not> p < c - l"
    proof
      assume p: "p < c - l"
      then have "l = m - at" using wrap by simp
      then have "(at + (l + p)) mod m = p" using at that(1) by simp
      moreover have "l + p < c" using p by linarith
      ultimately show False using free [of "l + p"] by simp
    qed
    moreover have "\<not> (at \<le> p \<and> p < at + l)"
    proof
      assume p: "at \<le> p \<and> p < at + l"
      then have "(at + (p - at)) mod m = p" using that(1) by simp
      moreover have "p - at < c" using p l_le(1) by linarith
      ultimately show False using free [of "p - at"] by simp
    qed
    ultimately show ?thesis using nth1 [OF that(1)] nth2 [OF that(1)] by auto
  qed
qed

lemma circle_read:
  fixes buf :: "'a list"
  assumes at: "at < m" and c: "c \<le> m" and len: "length buf = m" and l: "l = min c (m - at)"
  shows "take l (drop at buf) @ take (c - l) buf = map (\<lambda>i. buf ! ((at + i) mod m)) [0..<c]"
proof (rule nth_equalityI)
  have l_le: "l \<le> c" "at + l \<le> m" using l at by auto
  show "length (take l (drop at buf) @ take (c - l) buf) = length (map (\<lambda>i. buf ! ((at + i) mod m)) [0..<c])"
    using l_le len c by simp
  fix i
  assume "i < length (take l (drop at buf) @ take (c - l) buf)"
  then have i: "i < c" using l_le len c by simp
  show "(take l (drop at buf) @ take (c - l) buf) ! i = map (\<lambda>i. buf ! ((at + i) mod m)) [0..<c] ! i"
  proof (cases "i < l")
    case True
    then show ?thesis using i l_le len by (simp add: nth_append)
  next
    case False
    then have "(at + i) mod m = i - l" "length (take l (drop at buf)) = l"
      using l at c i len by (auto simp: le_mod_geq min_def split: if_splits)
    then show ?thesis using False i by (simp add: nth_append)
  qed
qed

section \<open>Refinement\<close>

locale byte_pipe =
  fixes inv :: "'f \<Rightarrow> bool" and content :: "'f \<Rightarrow> bytes" and cap :: "'f \<Rightarrow> nat"
    and put :: "'f \<Rightarrow> bytes \<Rightarrow> u32 \<Rightarrow> ('f \<times> u32) option"
    and get :: "'f \<Rightarrow> bool \<Rightarrow> u32 \<Rightarrow> ('f \<times> u32 \<times> bytes) option"
  assumes put_law: "inv f \<Longrightarrow> unat n \<le> length bs \<Longrightarrow>
      \<exists>f' k. put f bs n = Some (f', k) \<and> inv f' \<and> cap f' = cap f \<and>
        unat k = min (unat n) (cap f - length (content f)) \<and> content f' = content f @ take (unat k) bs"
    and get_law: "inv f \<Longrightarrow>
      \<exists>f' k. get f True n = Some (f', k, take (unat k) (content f)) \<and> inv f' \<and> cap f' = cap f \<and>
        unat k = min (unat n) (length (content f)) \<and> content f' = drop (unat k) (content f)"
begin

text \<open>A put of what fits, followed by a get of everything, hands the bytes over unchanged.\<close>

lemma put_get:
  assumes "inv f" and "unat n \<le> length bs" and "length (content f) + unat n \<le> cap f"
    and "unat m = length (content f) + unat n"
  shows "\<exists>f1 f2. put f bs n = Some (f1, n) \<and> get f1 True m = Some (f2, m, content f @ take (unat n) bs) \<and>
    inv f2 \<and> content f2 = []"
proof -
  obtain f1 k where f1: "put f bs n = Some (f1, k)" "inv f1" "unat k = unat n"
    "content f1 = content f @ take (unat n) bs"
    using put_law [OF assms(1,2)] assms(3) by auto
  obtain f2 j where f2: "get f1 True m = Some (f2, j, take (unat j) (content f1))" "inv f2"
    "unat j = unat m" "content f2 = drop (unat j) (content f1)"
    using get_law [OF f1(2), of m] f1(4) assms(2,4) by auto
  show ?thesis using f1 f2 assms(2,4) word_unat_eqI [OF f1(3)] word_unat_eqI [OF f2(3)] by auto
qed

end

definition fifo_inv :: "fifo \<Rightarrow> bool" where
  "fifo_inv f \<longleftrightarrow> (\<exists>k < 32. fsize f = 2 ^ k) \<and> length (buffer f) = unat (fsize f) \<and>
     unat (fifo_len f) \<le> unat (fsize f)"

definition fifo_content :: "fifo \<Rightarrow> bytes" where
  "fifo_content f = map (\<lambda>i. buffer f ! ((unat (fout f) + i) mod unat (fsize f))) [0..<unat (fifo_len f)]"

lemma length_fifo_content [simp]: "length (fifo_content f) = unat (fifo_len f)"
  by (simp add: fifo_content_def)

lemma mod_2_32: "k \<le> 32 \<Longrightarrow> x mod 4294967296 mod 2 ^ k = x mod 2 ^ k" for x :: nat
proof -
  assume "k \<le> 32"
  then have "(2 :: nat) ^ k dvd 2 ^ 32" by (rule le_imp_power_dvd)
  then have "x mod 2 ^ 32 mod 2 ^ k = x mod 2 ^ k" by (rule mod_mod_cancel)
  then show ?thesis by simp
qed

lemma fifo_facts:
  assumes "fifo_inv f"
  obtains k where "k < 32" "unat (fsize f) = 2 ^ k"
    "\<And>w. unat (w AND (fsize f - 1)) = unat w mod unat (fsize f)"
    "\<And>w. unat (fsize f - (w AND (fsize f - 1))) = unat (fsize f) - unat w mod unat (fsize f)"
    "(unat (fout f) + unat (fifo_len f)) mod unat (fsize f) = unat (fin f) mod unat (fsize f)"
    "unat (fifo_room f) = unat (fsize f) - unat (fifo_len f)"
    "0 < unat (fsize f)" "unat (fsize f) \<le> 2 ^ 31"
proof -
  obtain k where k: "k < 32" "fsize f = 2 ^ k" using assms by (auto simp: fifo_inv_def)
  have m: "unat (fsize f) = 2 ^ k" using k unat_pow2 [where 'a = 32 and n = k] by simp
  have s1: "fsize f - 1 = mask k" using k by (simp add: mask_eq_exp_minus_1)
  have and': "unat (w AND (fsize f - 1)) = unat w mod unat (fsize f)" for w
    unfolding s1 m by (rule unat_and_mask)
  have sub: "unat (fsize f - x) = unat (fsize f) - unat x" if "unat x \<le> unat (fsize f)" for x
    using that by (simp add: unat_sub word_le_nat_alt)
  have "unat (fsize f - (w AND (fsize f - 1))) = unat (fsize f) - unat w mod unat (fsize f)" for w
    using sub [of "w AND (fsize f - 1)"] and' [of w] by (simp add: m)
  moreover have "(unat (fout f) + unat (fifo_len f)) mod unat (fsize f) = unat (fin f) mod unat (fsize f)"
  proof -
    have "unat (fin f) = unat (fout f + fifo_len f)" by (simp add: fifo_len_def)
    also have "\<dots> = (unat (fout f) + unat (fifo_len f)) mod 4294967296" by (simp add: unat_word_ariths)
    finally show ?thesis using mod_2_32 [of k] k(1) m by simp
  qed
  moreover have "fifo_room f = fsize f - fifo_len f" by (simp add: fifo_room_def fifo_len_def)
  then have "unat (fifo_room f) = unat (fsize f) - unat (fifo_len f)"
    using sub [of "fifo_len f"] assms by (simp add: fifo_inv_def)
  moreover have "unat (fsize f) \<le> 2 ^ 31"
    unfolding m by (rule power_increasing) (use k in auto)
  ultimately show ?thesis using that k(1) m and' by simp
qed

lemma fifo_put_refines:
  assumes inv: "fifo_inv f" and n: "unat n \<le> length bs"
  shows "\<exists>f' k. fifo_put f bs n = Some (f', k) \<and> fifo_inv f' \<and> fsize f' = fsize f \<and>
    unat k = min (unat n) (unat (fsize f) - length (fifo_content f)) \<and>
    fifo_content f' = fifo_content f @ take (unat k) bs"
proof -
  let ?m = "unat (fsize f)" and ?len = "unat (fifo_len f)" and ?out = "unat (fout f)"
  obtain e where e: "e < 32" "?m = 2 ^ e"
    "\<And>w. unat (w AND (fsize f - 1)) = unat w mod ?m"
    "\<And>w. unat (fsize f - (w AND (fsize f - 1))) = ?m - unat w mod ?m"
    "(?out + ?len) mod ?m = unat (fin f) mod ?m"
    "unat (fifo_room f) = ?m - ?len" "0 < ?m" "?m \<le> 2 ^ 31"
    using fifo_facts [OF inv] by blast
  have len: "?len \<le> ?m" "length (buffer f) = ?m" using inv by (auto simp: fifo_inv_def)
  define k where "k = min n (fifo_room f)"
  define l where "l = min k (fsize f - (fin f AND (fsize f - 1)))"
  let ?c = "unat k" and ?l = "unat l" and ?at = "unat (fin f) mod ?m"
  have k: "?c = min (unat n) (?m - ?len)" by (simp add: k_def unat_min e(6))
  have l: "?l = min ?c (?m - ?at)" by (simp add: l_def unat_min e(4))
  have kl: "unat (k - l) = ?c - ?l" using l by (simp add: unat_sub word_le_nat_alt)
  have "?at < ?m" using e(7) by simp
  moreover have "?l \<le> ?m - ?at" using l by simp
  ultimately have at: "?at < ?m" "?at + ?l \<le> ?m" by linarith+
  have cm: "?c \<le> ?m" "?c \<le> length bs" using k n by auto
  define b1 where "b1 = take ?at (buffer f) @ take ?l bs @ drop (?at + ?l) (buffer f)"
  define b2 where "b2 = take (?c - ?l) (drop ?l bs) @ drop (?c - ?l) b1"
  note cw = circle_write [OF at(1) cm(1) len(2) cm(2) l b1_def b2_def]
  have "?l \<le> length bs" using l cm by simp
  then have len1: "length b1 = ?m" using len at by (simp add: b1_def)
  define f' where "f' = f\<lparr>buffer := b2, fin := fin f + k\<rparr>"
  have c1: "memcpy_at (buffer f) (unat (fin f AND (fsize f - 1))) bs ?l = Some b1"
    using at len cm l by (simp add: e(3) b1_def)
  have "?c - ?l \<le> ?m" using cm(1) by simp
  moreover have "?c - ?l \<le> length (drop ?l bs)" using cm(2) by simp
  ultimately have c2: "memcpy_at b1 0 (drop ?l bs) (unat (k - l)) = Some b2"
    by (simp add: kl b2_def len1)
  have put: "fifo_put f bs n = Some (f', k)"
    unfolding fifo_put_def Let_def k_def [symmetric] l_def [symmetric] c1
    by (simp add: c2 f'_def)
  have "fifo_len f' = fifo_len f + k" by (simp add: fifo_len_def f'_def)
  moreover have "?len + ?c \<le> ?m" using k len by auto
  ultimately have len': "unat (fifo_len f') = ?len + ?c"
    using e(8) by (simp add: unat_word_ariths)
  have idx: "(?out + (?len + j)) mod ?m = (?at + j) mod ?m" for j
    using e(5) by (metis add.assoc mod_add_left_eq)
  have fields: "fsize f' = fsize f" "fout f' = fout f" "buffer f' = b2" by (simp_all add: f'_def)
  have old: "b2 ! ((?out + i) mod ?m) = buffer f ! ((?out + i) mod ?m)" if "i < ?len" for i
  proof (rule cw(3))
    show "(?out + i) mod ?m < ?m" using e(7) by simp
    fix j
    assume "j < ?c"
    then have "i < ?m" "?len + j < ?m" "i \<noteq> ?len + j" using that \<open>?len + ?c \<le> ?m\<close> by auto
    then have "(?out mod ?m + i) mod ?m \<noteq> (?out mod ?m + (?len + j)) mod ?m"
      using circle_inj [of "?out mod ?m" ?m i "?len + j"] e(7) by auto
    then show "(?out + i) mod ?m \<noteq> (?at + j) mod ?m"
      unfolding idx [symmetric] by (simp only: mod_add_left_eq not_False_eq_True)
  qed
  have new: "b2 ! ((?out + (?len + j)) mod ?m) = bs ! j" if "j < ?c" for j
    unfolding idx by (rule cw(2) [OF that])
  have "b2 ! ((?out + i) mod ?m) = (if i < ?len then buffer f ! ((?out + i) mod ?m) else bs ! (i - ?len))"
    if "i < ?len + ?c" for i
    using old [of i] new [of "i - ?len"] that by (cases "i < ?len") auto
  then have "fifo_content f' = fifo_content f @ take ?c bs"
    unfolding fifo_content_def len' fields
    by (intro nth_equalityI) (auto simp: nth_append cm(2))
  moreover have "fifo_inv f'" using inv len' cw(1) \<open>?len + ?c \<le> ?m\<close> by (simp add: fifo_inv_def fields)
  ultimately show ?thesis using put k fields(1) by auto
qed

lemma fifo_get_refines:
  assumes inv: "fifo_inv f"
  shows "\<exists>f' k. fifo_get f True n = Some (f', k, take (unat k) (fifo_content f)) \<and> fifo_inv f' \<and>
    fsize f' = fsize f \<and> unat k = min (unat n) (length (fifo_content f)) \<and>
    fifo_content f' = drop (unat k) (fifo_content f)"
proof -
  let ?m = "unat (fsize f)" and ?len = "unat (fifo_len f)" and ?out = "unat (fout f)"
  obtain e where e: "e < 32" "?m = 2 ^ e"
    "\<And>w. unat (w AND (fsize f - 1)) = unat w mod ?m"
    "\<And>w. unat (fsize f - (w AND (fsize f - 1))) = ?m - unat w mod ?m"
    "(?out + ?len) mod ?m = unat (fin f) mod ?m"
    "unat (fifo_room f) = ?m - ?len" "0 < ?m" "?m \<le> 2 ^ 31"
    using fifo_facts [OF inv] by blast
  have len: "?len \<le> ?m" "length (buffer f) = ?m" using inv by (auto simp: fifo_inv_def)
  define k where "k = min n (fin f - fout f)"
  define l where "l = min k (fsize f - (fout f AND (fsize f - 1)))"
  let ?c = "unat k" and ?l = "unat l" and ?at = "?out mod ?m"
  have k: "?c = min (unat n) ?len" by (simp add: k_def unat_min fifo_len_def)
  have l: "?l = min ?c (?m - ?at)" by (simp add: l_def unat_min e(4))
  have kl: "unat (k - l) = ?c - ?l" using l by (simp add: unat_sub word_le_nat_alt)
  have "?at < ?m" using e(7) by simp
  moreover have l_le: "?l \<le> ?m - ?at" "?l \<le> ?c" using l by simp_all
  ultimately have at: "?at < ?m" "?at + ?l \<le> ?m" by linarith+
  have cm: "?c \<le> ?m" "?c \<le> ?len" using k len by auto
  have out: "do {
      b \<leftarrow> memcpy_at (replicate ?c 0) 0 (drop (unat (fout f AND (fsize f - 1))) (buffer f)) ?l;
      memcpy_at b ?l (buffer f) (unat (k - l)) } = Some (take ?l (drop ?at (buffer f)) @ take (?c - ?l) (buffer f))"
    using l_le at len cm by (simp add: e(3) kl)
  have rd: "take ?l (drop ?at (buffer f)) @ take (?c - ?l) (buffer f) = take ?c (fifo_content f)"
    unfolding circle_read [OF at(1) cm(1) len(2) l] using cm(2)
    by (simp add: fifo_content_def take_map mod_add_left_eq)
  define f1 where "f1 = f\<lparr>fout := fout f + k\<rparr>"
  define f2 where "f2 = (if fin f1 = fout f1 then f1\<lparr>fin := 0, fout := 0\<rparr> else f1)"
  have get: "fifo_get f True n = Some (f2, k, take ?c (fifo_content f))"
    unfolding fifo_get_def Let_def k_def [symmetric] l_def [symmetric] if_True out rd
    by (simp add: f2_def f1_def)
  have "fifo_len f1 = fifo_len f - k" by (simp add: fifo_len_def f1_def)
  then have len1: "unat (fifo_len f1) = ?len - ?c" using cm by (simp add: unat_sub word_le_nat_alt)
  have fields: "fsize f1 = fsize f" "buffer f1 = buffer f" by (simp_all add: f1_def)
  have "unat (fout f1) = (?out + ?c) mod 4294967296" by (simp add: f1_def unat_word_ariths)
  then have o1: "unat (fout f1) mod ?m = (?out + ?c) mod ?m" using mod_2_32 [of e] e(1,2) by simp
  have idx: "(unat (fout f1) + i) mod ?m = (?out + (?c + i)) mod ?m" for i
  proof -
    have "(unat (fout f1) + i) mod ?m = (unat (fout f1) mod ?m + i) mod ?m" by (simp only: mod_add_left_eq)
    also have "\<dots> = (?out + (?c + i)) mod ?m" unfolding o1 by (simp only: mod_add_left_eq add.assoc)
    finally show ?thesis .
  qed
  have content1: "fifo_content f1 = drop ?c (fifo_content f)"
    unfolding fifo_content_def len1 fields idx
    using cm(2) by (intro nth_equalityI) (simp_all add: less_diff_conv add.commute)
  have inv1: "fifo_inv f1" using inv len1 len by (simp add: fifo_inv_def fields)
  have "fifo_inv f2 \<and> fsize f2 = fsize f \<and> fifo_content f2 = drop ?c (fifo_content f)"
  proof (cases "fin f1 = fout f1")
    case True
    then have "unat (fifo_len f1) = 0" "fifo_len f2 = 0" by (simp_all add: fifo_len_def f2_def)
    then show ?thesis using True inv1 content1 len1 cm
      by (simp add: f2_def fields fifo_inv_def fifo_content_def)
  next
    case False
    then show ?thesis using inv1 content1 fields by (simp add: f2_def)
  qed
  then show ?thesis using get k by auto
qed

interpretation fpipe: byte_pipe fifo_inv fifo_content "\<lambda>f. unat (fsize f)" fifo_put fifo_get
proof
  show "\<exists>f' k. fifo_put f bs n = Some (f', k) \<and> fifo_inv f' \<and> unat (fsize f') = unat (fsize f) \<and>
      unat k = min (unat n) (unat (fsize f) - length (fifo_content f)) \<and>
      fifo_content f' = fifo_content f @ take (unat k) bs" if "fifo_inv f" "unat n \<le> length bs" for f n bs
    using fifo_put_refines [OF that] by metis
  show "\<exists>f' k. fifo_get f True n = Some (f', k, take (unat k) (fifo_content f)) \<and> fifo_inv f' \<and>
      unat (fsize f') = unat (fsize f) \<and> unat k = min (unat n) (length (fifo_content f)) \<and>
      fifo_content f' = drop (unat k) (fifo_content f)" if "fifo_inv f" for f n
    using fifo_get_refines [OF that, of n] by metis
qed

section \<open>Properties\<close>

text \<open>
  C21 (refinement): on a fifo whose size is a power of two, \<^verbatim>\<open>fifo_put\<close> appends as many of the offered bytes
  as there is room for and returns their number, \<^verbatim>\<open>fifo_get\<close> returns and removes the oldest bytes, both
  without leaving the buffer, however the free-running indices wrap.
\<close>

theorem fifo_refines_queue:
  assumes "fifo_inv f" and "unat n \<le> length bs"
  shows "(\<exists>f' k. fifo_put f bs n = Some (f', k) \<and> fifo_inv f' \<and> fsize f' = fsize f \<and>
      unat k = min (unat n) (unat (fsize f) - length (fifo_content f)) \<and>
      fifo_content f' = fifo_content f @ take (unat k) bs) \<and>
    (\<exists>f' k. fifo_get f True n = Some (f', k, take (unat k) (fifo_content f)) \<and> fifo_inv f' \<and>
      fsize f' = fsize f \<and> unat k = min (unat n) (length (fifo_content f)) \<and>
      fifo_content f' = drop (unat k) (fifo_content f))"
  using fifo_put_refines [OF assms] fifo_get_refines [OF assms(1)] by blast

lemma fifo_alloc_inv:
  "k < 32 \<Longrightarrow> \<exists>f. fifo_alloc (Some mem) (2 ^ k) = Some f \<and> fifo_inv f \<and> fifo_content f = []"
  by (auto simp: fifo_alloc_def fifo_inv_def fifo_content_def fifo_len_def)

theorem fifo_refines_queue_witness:
  "\<exists>f f'. fifo_alloc (Some (\<lambda>i. 0)) (2 ^ 3) = Some f \<and> fifo_put f [1, 2, 3] 3 = Some (f', 3) \<and>
    fifo_content f' = [1, 2, 3]"
proof -
  obtain f where f: "fifo_alloc (Some (\<lambda>i. 0)) (2 ^ 3) = Some f" "fifo_inv f" "fifo_content f = []"
    using fifo_alloc_inv [of 3 "\<lambda>i. 0"] by auto
  then have "unat (fsize f) = 8" by (auto simp: fifo_alloc_def)
  with fifo_refines_queue [OF f(2), of 3 "[1, 2, 3]"] f(3) obtain f' k where
    "fifo_put f [1, 2, 3] 3 = Some (f', k)" "unat k = 3" "fifo_content f' = take (unat k) [1, 2, 3]" by auto
  moreover from this have "k = 3" by (intro word_unat_eqI) simp
  ultimately show ?thesis using f(1) by auto
qed

text \<open>
  Bytes put into a fifo that has room for them come out of a following get unchanged,
  after the bytes that were in it before, and leave it empty.
\<close>

theorem fifo_put_get:
  assumes "fifo_inv f" and "unat n \<le> length bs" and "length (fifo_content f) + unat n \<le> unat (fsize f)"
    and "unat m = length (fifo_content f) + unat n"
  shows "\<exists>f1 f2. fifo_put f bs n = Some (f1, n) \<and>
    fifo_get f1 True m = Some (f2, m, fifo_content f @ take (unat n) bs) \<and> fifo_inv f2 \<and> fifo_content f2 = []"
  by (rule fpipe.put_get [OF assms])

theorem fifo_put_get_witness:
  "\<exists>f f1 f2. fifo_alloc (Some (\<lambda>i. 0)) (2 ^ 3) = Some f \<and> fifo_put f [1, 2, 3] 3 = Some (f1, 3) \<and>
    fifo_get f1 True 3 = Some (f2, 3, [1, 2, 3])"
proof -
  obtain f where f: "fifo_alloc (Some (\<lambda>i. 0)) (2 ^ 3) = Some f" "fifo_inv f" "fifo_content f = []"
    using fifo_alloc_inv [of 3 "\<lambda>i. 0"] by auto
  then have "unat (fsize f) = 8" by (auto simp: fifo_alloc_def)
  then show ?thesis using fifo_put_get [OF f(2), of 3 "[1, 2, 3]" 3] f by auto
qed

end
