(* ===== verification/Bytes.thy ===== *)
theory Bytes
  imports Prelude
begin

text \<open>
  Words as byte sequences: little-endian and big-endian loads and stores of any width, which stand for
  the pointer casts and the byte shuffling macros of the checksum and hash code, and rotations.
\<close>

section \<open>Loads and stores\<close>

fun le_word :: "u8 list \<Rightarrow> 'a::len word" where
  "le_word [] = 0"
| "le_word (d # ds) = ucast d XOR push_bit 8 (le_word ds)"

definition le_bytes :: "nat \<Rightarrow> 'a::len word \<Rightarrow> bytes" where
  "le_bytes n w = map (\<lambda>i. ucast (drop_bit (8 * i) w)) [0..<n]"

definition be_word :: "u8 list \<Rightarrow> 'a::len word" where
  "be_word ds = le_word (rev ds)"

definition be_bytes :: "nat \<Rightarrow> 'a::len word \<Rightarrow> bytes" where
  "be_bytes n w = rev (le_bytes n w)"

lemma bit_ucast8 [simp]: "bit (ucast (d :: u8) :: 'a::len word) i \<longleftrightarrow> bit d i \<and> i < LENGTH('a)"
  by (auto simp: bit_simps)

lemma bit_u8 [simp]: "8 \<le> i \<Longrightarrow> \<not> bit (d :: u8) i"
  by (auto dest: bit_imp_le_length)

lemma length_le_bytes [simp]: "length (le_bytes n w) = n"
  by (simp add: le_bytes_def)

lemma length_be_bytes [simp]: "length (be_bytes n w) = n"
  by (simp add: be_bytes_def)

lemma bit_le_word:
  "bit (le_word ds :: 'a::len word) i \<longleftrightarrow> i < LENGTH('a) \<and> i div 8 < length ds \<and> bit (ds ! (i div 8)) (i mod 8)"
proof (induction ds arbitrary: i)
  case (Cons d ds)
  show ?case
  proof (cases "i < 8")
    case True
    then show ?thesis by (auto simp: bit_simps)
  next
    case False
    then obtain j where j: "i = 8 + j" using le_Suc_ex not_less by blast
    then have "i div 8 = Suc (j div 8)" "i mod 8 = j mod 8" by simp_all
    with j Cons.IH [of j] show ?thesis by (auto simp: bit_simps)
  qed
qed simp

lemma nth_le_bytes: "i < n \<Longrightarrow> le_bytes n w ! i = ucast (drop_bit (8 * i) w)"
  by (simp add: le_bytes_def)

lemma le_bytes_le_word:
  assumes "8 * length ds \<le> LENGTH('a)"
  shows "le_bytes (length ds) (le_word ds :: 'a::len word) = ds"
proof (rule nth_equalityI)
  fix i
  assume "i < length (le_bytes (length ds) (le_word ds :: 'a word))"
  then have i: "i < length ds" by simp
  have "ucast (drop_bit (8 * i) (le_word ds :: 'a word)) = ds ! i"
  proof (rule bit_word_eqI)
    fix j
    assume "j < LENGTH(8)"
    then have j: "j < 8" by simp
    have "8 * i + j < LENGTH('a)" using assms i j by linarith
    with i j show "bit (ucast (drop_bit (8 * i) (le_word ds :: 'a word)) :: u8) j = bit (ds ! i) j"
      by (simp add: bit_simps bit_le_word)
  qed
  then show "le_bytes (length ds) (le_word ds :: 'a word) ! i = ds ! i" using i by (simp add: nth_le_bytes)
qed simp

lemma le_word_le_bytes:
  assumes "8 * n = LENGTH('a)"
  shows "le_word (le_bytes n w) = (w :: 'a::len word)"
proof (rule bit_word_eqI)
  fix i
  assume i: "i < LENGTH('a)"
  then have "i div 8 < n" using assms by (simp add: div_less_iff_less_mult mult.commute)
  then show "bit (le_word (le_bytes n w) :: 'a word) i = bit w i"
    using i by (simp add: bit_le_word nth_le_bytes bit_simps)
qed

lemma le_word_inj:
  "length ds = length es \<Longrightarrow> 8 * length ds \<le> LENGTH('a) \<Longrightarrow>
    (le_word ds :: 'a::len word) = le_word es \<Longrightarrow> ds = es"
  by (metis le_bytes_le_word)

lemma le_word_bound: "8 * length ds \<le> i \<Longrightarrow> \<not> bit (le_word ds :: 'a::len word) i"
  by (simp add: bit_le_word div_less_iff_less_mult mult.commute)

lemma be_bytes_be_word:
  "8 * length ds \<le> LENGTH('a) \<Longrightarrow> be_bytes (length ds) (be_word ds :: 'a::len word) = ds"
  using le_bytes_le_word [where 'a = 'a and ds = "rev ds"] by (simp add: be_bytes_def be_word_def)

lemma be_word_be_bytes: "8 * n = LENGTH('a) \<Longrightarrow> be_word (be_bytes n w) = (w :: 'a::len word)"
  by (simp add: be_bytes_def be_word_def le_word_le_bytes)

end
