(* ===== verification/Crc.thy ===== *)
theory Crc
  imports Bytes
begin

text \<open>
  The table-driven checksums of \<^verbatim>\<open>crc/\<close> as instances of two contracts. \<open>crc_reflected\<close> is the right-shifting
  form (CRC-16, CRC-32C, both CRC-64), \<open>crc_forward\<close> the left-shifting form (CRC-32, T10-DIF, and CRC-7
  kept one bit to the left). A contract fixes a generator polynomial and a table and assumes that each
  table entry is eight bit-serial division steps of its index; from that the contract derives that the
  byte step with the table is eight bit-serial steps, and that a change confined to a run of bytes no
  longer than the checksum always changes the checksum.
\<close>

section \<open>Bit-serial division\<close>

definition rbit_step :: "'a::len word \<Rightarrow> 'a word \<Rightarrow> 'a word" where
  "rbit_step p s = drop_bit 1 s XOR (if bit s 0 then p else 0)"

definition fbit_step :: "'a::len word \<Rightarrow> 'a word \<Rightarrow> 'a word" where
  "fbit_step p s = push_bit 1 s XOR (if bit s (LENGTH('a) - 1) then p else 0)"

definition rbyte_step :: "'a::len word \<Rightarrow> 'a word \<Rightarrow> u8 \<Rightarrow> 'a word" where
  "rbyte_step p s d = (rbit_step p ^^ 8) (s XOR ucast d)"

definition fbyte_step :: "'a::len word \<Rightarrow> 'a word \<Rightarrow> u8 \<Rightarrow> 'a word" where
  "fbyte_step p s d = (fbit_step p ^^ 8) (s XOR push_bit (LENGTH('a) - 8) (ucast d))"

lemma bit_push_1: "bit (push_bit 1 w) i \<longleftrightarrow> 1 \<le> i \<and> i < LENGTH('a) \<and> bit w (i - 1)" for w :: "'a::len word"
  by (auto simp only: bit_push_bit_iff possible_bit_word)

lemma bit_rbit_step: "bit (rbit_step p s) i \<longleftrightarrow> bit s (Suc i) \<noteq> (bit s 0 \<and> bit p i)"
  by (auto simp: rbit_step_def bit_simps)

lemma bit_fbit_step:
  "bit (fbit_step p s) i \<longleftrightarrow>
    i < LENGTH('a) \<and> ((0 < i \<and> bit s (i - 1)) \<noteq> (bit s (LENGTH('a) - 1) \<and> bit p i))" for p s :: "'a::len word"
proof (cases "i < LENGTH('a)")
  case True
  then show ?thesis
    by (auto simp only: fbit_step_def bit_xor_iff bit_push_bit_iff possible_bit_word Suc_le_eq One_nat_def
        bit_0_eq bot_apply bot_bool_def split: if_splits)
next
  case False
  then show ?thesis using bit_imp_le_length by blast
qed

lemma rbit_step_xor: "rbit_step p (a XOR b) = rbit_step p a XOR rbit_step p b"
  by (rule bit_word_eqI) (auto simp: rbit_step_def bit_simps)

lemma fbit_step_xor: "fbit_step p (a XOR b) = fbit_step p a XOR fbit_step p b"
  by (rule bit_word_eqI) (auto simp: bit_fbit_step bit_xor_iff)

lemma rbit_steps_xor: "(rbit_step p ^^ n) (a XOR b) = (rbit_step p ^^ n) a XOR (rbit_step p ^^ n) b"
  by (induction n) (simp_all add: rbit_step_xor)

lemma fbit_steps_xor: "(fbit_step p ^^ n) (a XOR b) = (fbit_step p ^^ n) a XOR (fbit_step p ^^ n) b"
  by (induction n) (simp_all add: fbit_step_xor)

lemma rbit_steps_shift: "take_bit n s = 0 \<Longrightarrow> (rbit_step p ^^ n) s = drop_bit n s"
proof (induction n arbitrary: s)
  case (Suc n)
  have z: "\<not> bit s i" if "i < Suc n" for i
    using Suc.prems that by (metis bit_0_eq bit_take_bit_iff bot_apply bot_bool_def)
  have "rbit_step p s = drop_bit 1 s" using z [of 0] by (simp add: rbit_step_def)
  moreover have "take_bit n (drop_bit 1 s) = 0"
    by (rule bit_word_eqI) (use z in \<open>auto simp: bit_simps\<close>)
  ultimately show ?case using Suc.IH [of "drop_bit 1 s"] by (simp add: funpow_swap1 drop_bit_drop_bit)
qed simp

lemma fbit_steps_shift: "drop_bit (LENGTH('a) - n) s = 0 \<Longrightarrow> n \<le> LENGTH('a) \<Longrightarrow>
    (fbit_step p ^^ n) s = push_bit n s" for s :: "'a::len word"
proof (induction n arbitrary: s)
  case (Suc n)
  have z: "\<not> bit s i" if "LENGTH('a) - Suc n \<le> i" for i
  proof
    assume "bit s i"
    then have "bit (drop_bit (LENGTH('a) - Suc n) s) (i - (LENGTH('a) - Suc n))"
      using that by (simp add: bit_drop_bit_eq)
    then show False using Suc.prems(1) by simp
  qed
  have step: "fbit_step p s = push_bit 1 s" using z [of "LENGTH('a) - 1"] by (simp add: fbit_step_def)
  have "drop_bit (LENGTH('a) - n) (fbit_step p s) = 0"
    by (rule bit_word_eqI) (use z Suc.prems(2) in \<open>auto simp: bit_drop_bit_eq bit_fbit_step\<close>)
  then have "(fbit_step p ^^ n) (fbit_step p s) = push_bit n (push_bit 1 s)"
    using Suc.IH [of "fbit_step p s"] Suc.prems(2) step by simp
  then show ?case by (simp only: funpow_Suc_right comp_apply push_bit_push_bit) simp
qed simp

lemma rbit_step_inj:
  fixes p :: "'a::len word"
  assumes "bit p (LENGTH('a) - 1)"
  shows "inj (rbit_step p)"
proof (rule injI)
  fix a b :: "'a word"
  assume eq: "rbit_step p a = rbit_step p b"
  have "bit (rbit_step p s) (LENGTH('a) - 1) = bit s 0" for s :: "'a word"
    using assms by (auto simp: rbit_step_def bit_simps dest: bit_imp_le_length)
  then have low: "bit a 0 = bit b 0" using eq by metis
  show "a = b"
  proof (rule bit_word_eqI)
    fix i
    assume "i < LENGTH('a)"
    have "bit (rbit_step p a) (i - 1) = bit (rbit_step p b) (i - 1)" using eq by simp
    then show "bit a i = bit b i"
      using low by (cases i) (auto simp: rbit_step_def bit_simps split: if_splits)
  qed
qed

lemma fbit_step_inj:
  fixes p :: "'a::len word"
  assumes "bit p 0"
  shows "inj (fbit_step p)"
proof (rule injI)
  fix a b :: "'a word"
  assume eq: "fbit_step p a = fbit_step p b"
  have "bit (fbit_step p s) 0 = bit s (LENGTH('a) - 1)" for s :: "'a word"
    using assms by (simp add: bit_fbit_step)
  then have top: "bit a (LENGTH('a) - 1) = bit b (LENGTH('a) - 1)" using eq by metis
  show "a = b"
  proof (rule bit_word_eqI)
    fix i
    assume i: "i < LENGTH('a)"
    have "bit (fbit_step p a) (Suc i) = bit (fbit_step p b) (Suc i)" using eq by simp
    then show "bit a i = bit b i"
      using top i by (cases "Suc i < LENGTH('a)") (auto simp: bit_fbit_step dest: less_antisym)
  qed
qed

lemma foldl_inj:
  assumes "\<And>d. inj (\<lambda>s. step s d)"
  shows "foldl step s ds = foldl step t ds \<longleftrightarrow> s = t"
  by (induction ds arbitrary: s t) (use assms in \<open>auto dest: injD\<close>)

section \<open>Bytes packed into a register\<close>

fun fpack :: "u8 list \<Rightarrow> 'a::len word" where
  "fpack [] = 0"
| "fpack (d # ds) = push_bit (LENGTH('a) - 8) (ucast d) XOR drop_bit 8 (fpack ds :: 'a word)"

lemma fpack_bound:
  "8 * length ds \<le> LENGTH('a) \<Longrightarrow> i < LENGTH('a) - 8 * length ds \<Longrightarrow> \<not> bit (fpack ds :: 'a::len word) i"
  by (induction ds arbitrary: i) (auto simp: bit_simps)

lemma fpack_inj:
  "length ds = length es \<Longrightarrow> 8 * length ds \<le> LENGTH('a) \<Longrightarrow>
    (fpack ds :: 'a::len word) = fpack es \<Longrightarrow> ds = es"
proof (induction ds es rule: list_induct2)
  case (Cons d ds e es)
  have bits: "bit (fpack (d # ds) :: 'a word) i = bit (fpack (e # es) :: 'a word) i" for i
    using Cons.prems(2) by simp
  have "d = e"
  proof (rule bit_word_eqI)
    fix i
    assume "i < LENGTH(8)"
    then have i: "i < 8" by simp
    let ?j = "LENGTH('a) - 8 + i"
    have j: "?j < LENGTH('a)" "\<not> bit (fpack ds :: 'a word) (8 + ?j)" "\<not> bit (fpack es :: 'a word) (8 + ?j)"
      using Cons.prems(1) i by (auto dest: bit_imp_le_length)
    then show "bit d i = bit e i" using bits [of ?j] by (simp add: bit_simps)
  qed
  moreover have "(fpack ds :: 'a word) = fpack es"
  proof (rule bit_word_eqI)
    fix i
    assume i: "i < LENGTH('a)"
    show "bit (fpack ds :: 'a word) i = bit (fpack es :: 'a word) i"
    proof (cases "8 \<le> i")
      case True
      then have "\<not> LENGTH('a) - 8 \<le> i - 8" using i by simp
      then show ?thesis using bits [of "i - 8"] True by (simp add: bit_simps)
    next
      case False
      then have "i < LENGTH('a) - 8 * length ds" using Cons.prems(1) by simp
      then show ?thesis using fpack_bound [where 'a = 'a and ds = ds and i = i] fpack_bound [where 'a = 'a and ds = es and i = i]
          Cons.hyps Cons.prems(1) by simp
    qed
  qed
  ultimately show ?case using Cons by simp
qed simp

lemma rbytes_pack:
  "8 * length ds \<le> LENGTH('a) \<Longrightarrow>
    foldl (rbyte_step p) s ds = (rbit_step p ^^ (8 * length ds)) (s XOR le_word ds)" for p s :: "'a::len word"
proof (induction ds arbitrary: s)
  case (Cons d ds)
  have "take_bit 8 (push_bit 8 (le_word ds :: 'a word)) = 0"
    by (rule bit_word_eqI) (auto simp: bit_simps)
  then have "(rbit_step p ^^ 8) (push_bit 8 (le_word ds)) = drop_bit 8 (push_bit 8 (le_word ds))"
    by (rule rbit_steps_shift)
  also have "\<dots> = le_word ds"
  proof (rule bit_word_eqI)
    fix i
    assume "i < LENGTH('a)"
    show "bit (drop_bit 8 (push_bit 8 (le_word ds :: 'a word))) i = bit (le_word ds :: 'a word) i"
      using le_word_bound [where 'a = 'a and ds = ds and i = i] Cons.prems by (cases "i + 8 < LENGTH('a)") (auto simp: bit_simps add.commute)
  qed
  finally have "rbyte_step p s d XOR le_word ds = (rbit_step p ^^ 8) (s XOR le_word (d # ds))"
    by (simp only: rbyte_step_def le_word.simps xor.assoc rbit_steps_xor)
  moreover have "foldl (rbyte_step p) s (d # ds) = (rbit_step p ^^ (8 * length ds)) (rbyte_step p s d XOR le_word ds)"
    using Cons.IH [of "rbyte_step p s d"] Cons.prems by simp
  moreover have "8 * length (d # ds) = 8 * length ds + 8" by simp
  ultimately show ?case by (simp only: funpow_add comp_apply)
qed simp

lemma fbytes_pack:
  "8 * length ds \<le> LENGTH('a) \<Longrightarrow>
    foldl (fbyte_step p) s ds = (fbit_step p ^^ (8 * length ds)) (s XOR fpack ds)" for p s :: "'a::len word"
proof (induction ds arbitrary: s)
  case (Cons d ds)
  have w: "8 \<le> LENGTH('a)" using Cons.prems by simp
  have z: "drop_bit (LENGTH('a) - 8) (drop_bit 8 (fpack ds :: 'a word)) = 0"
    using w by (intro bit_word_eqI) (auto simp: bit_drop_bit_eq dest: bit_imp_le_length)
  have "(fbit_step p ^^ 8) (drop_bit 8 (fpack ds)) = push_bit 8 (drop_bit 8 (fpack ds))"
    by (rule fbit_steps_shift [OF z w])
  also have "\<dots> = fpack ds"
  proof (rule bit_word_eqI)
    fix i
    assume i: "i < LENGTH('a)"
    show "bit (push_bit 8 (drop_bit 8 (fpack ds :: 'a word))) i = bit (fpack ds :: 'a word) i"
      using fpack_bound [where 'a = 'a and ds = ds and i = i] Cons.prems i
      by (cases "8 \<le> i") (auto simp: bit_simps)
  qed
  finally have "fbyte_step p s d XOR fpack ds = (fbit_step p ^^ 8) (s XOR fpack (d # ds))"
    by (simp only: fbyte_step_def fpack.simps xor.assoc fbit_steps_xor)
  moreover have "foldl (fbyte_step p) s (d # ds) = (fbit_step p ^^ (8 * length ds)) (fbyte_step p s d XOR fpack ds)"
    using Cons.IH [of "fbyte_step p s d"] Cons.prems by simp
  moreover have "8 * length (d # ds) = 8 * length ds + 8" by simp
  ultimately show ?case by (simp only: funpow_add comp_apply)
qed simp

lemma xor_left_cancel: "(a XOR b = a XOR c) = (b = c)" for a b c :: "'a::len word"
proof
  assume "a XOR b = a XOR c"
  then have "a XOR (a XOR b) = a XOR (a XOR c)" by simp
  then show "b = c" by (simp add: xor.assoc [symmetric])
qed simp

section \<open>The contracts\<close>

text \<open>\<open>burst step w\<close>: a change of at most \<open>w\<close> consecutive bytes changes the result.\<close>

definition burst_detected :: "('s \<Rightarrow> u8 \<Rightarrow> 's) \<Rightarrow> nat \<Rightarrow> bool" where
  "burst_detected step w \<longleftrightarrow> (\<forall>s a u v b. length u = length v \<longrightarrow> length u \<le> w \<longrightarrow>
     foldl step s (a @ u @ b) = foldl step s (a @ v @ b) \<longrightarrow> u = v)"

locale crc_reflected =
  fixes poly :: "'a::len word" and table :: "'a word list"
  assumes top: "bit poly (LENGTH('a) - 1)"
    and entries: "i < 256 \<Longrightarrow> table ! i = (rbit_step poly ^^ 8) (of_nat i)"
begin

lemma tab_step: "drop_bit 8 s XOR table ! unat ((s XOR ucast d) AND 0xff) = rbyte_step poly s d"
proof -
  let ?s = "s XOR ucast d"
  have m: "?s AND 0xff = take_bit 8 ?s" by (simp add: take_bit_eq_mask mask_eq_exp_minus_1)
  let ?hi = "?s AND NOT (mask 8)"
  have "?s = take_bit 8 ?s XOR ?hi"
    by (rule bit_word_eqI) (auto simp: bit_simps)
  then have "rbyte_step poly s d = (rbit_step poly ^^ 8) (take_bit 8 ?s) XOR (rbit_step poly ^^ 8) ?hi"
    unfolding rbyte_step_def by (subst (1) \<open>?s = _\<close>) (rule rbit_steps_xor)
  moreover have "take_bit 8 ?hi = 0" by (rule bit_word_eqI) (auto simp: bit_simps)
  then have "(rbit_step poly ^^ 8) ?hi = drop_bit 8 ?hi" by (rule rbit_steps_shift)
  moreover have "drop_bit 8 ?hi = drop_bit 8 s"
    by (rule bit_word_eqI) (auto simp: bit_simps dest: bit_imp_le_length)
  moreover have "unat (take_bit 8 ?s) < 256"
    using unat_and_mask [of ?s 8] by (simp add: take_bit_eq_mask)
  then have "table ! unat (take_bit 8 ?s) = (rbit_step poly ^^ 8) (take_bit 8 ?s)"
    using entries by simp
  ultimately show ?thesis using m by (simp add: xor.commute)
qed

lemma byte_step_inj: "inj (\<lambda>s. rbyte_step poly s d)"
proof (rule injI)
  fix s t
  assume "rbyte_step poly s d = rbyte_step poly t d"
  then have "ucast d XOR s = ucast d XOR t"
    using injD [OF inj_fn [OF rbit_step_inj [OF top], of 8]] by (simp add: rbyte_step_def xor.commute)
  then show "s = t" by (simp only: xor_left_cancel)
qed

lemma burst: "burst_detected (rbyte_step poly) (LENGTH('a) div 8)"
  unfolding burst_detected_def
proof (intro allI impI)
  fix s a u v b
  assume len: "length u = length v" "length u \<le> LENGTH('a) div 8"
    and eq: "foldl (rbyte_step poly) s (a @ u @ b) = foldl (rbyte_step poly) s (a @ v @ b)"
  let ?t = "foldl (rbyte_step poly) s a"
  have small: "8 * length u \<le> LENGTH('a)" using len(2) by simp
  have "foldl (rbyte_step poly) ?t u = foldl (rbyte_step poly) ?t v"
    using eq foldl_inj [of "rbyte_step poly", OF byte_step_inj] by simp
  then have "?t XOR le_word u = ?t XOR le_word v"
    using rbytes_pack [where p = poly and s = ?t and ds = u] rbytes_pack [where p = poly and s = ?t and ds = v]
      small len(1)
      injD [OF inj_fn [OF rbit_step_inj [OF top], of "8 * length u"]] by simp
  then have "(le_word u :: 'a word) = le_word v" by (simp only: xor_left_cancel)
  then show "u = v" by (rule le_word_inj [OF len(1) small])
qed

end

locale crc_forward =
  fixes poly :: "'a::len word" and table :: "'a word list"
  assumes width: "8 \<le> LENGTH('a)" and low: "bit poly 0"
    and entries: "i < 256 \<Longrightarrow> table ! i = (fbit_step poly ^^ 8) (push_bit (LENGTH('a) - 8) (of_nat i))"
begin

lemma tab_step:
  "push_bit 8 s XOR table ! unat ((drop_bit (LENGTH('a) - 8) s XOR ucast d) AND 0xff) = fbyte_step poly s d"
proof -
  let ?w = "LENGTH('a) - 8"
  let ?s = "s XOR push_bit ?w (ucast d)"
  let ?y = "drop_bit ?w s XOR ucast d :: 'a word"
  have "?y AND mask 8 = ?y"
    using width by (intro bit_word_eqI) (auto simp: bit_simps dest: bit_imp_le_length)
  moreover have "(0xff :: 'a word) = mask 8" by (simp add: mask_eq_exp_minus_1)
  ultimately have y: "?y AND 0xff = ?y" by simp
  have "?s = push_bit ?w ?y XOR take_bit ?w s"
    using width by (intro bit_word_eqI) (auto simp: bit_simps)
  then have "fbyte_step poly s d =
      (fbit_step poly ^^ 8) (push_bit ?w ?y) XOR (fbit_step poly ^^ 8) (take_bit ?w s)"
    unfolding fbyte_step_def by (simp only: fbit_steps_xor)
  moreover have z: "drop_bit ?w (take_bit ?w s) = 0" by (rule bit_word_eqI) (auto simp: bit_simps)
  then have "(fbit_step poly ^^ 8) (take_bit ?w s) = push_bit 8 (take_bit ?w s)"
    by (rule fbit_steps_shift [OF _ width])
  moreover have "push_bit 8 (take_bit ?w s) = push_bit 8 s"
    using width by (intro bit_word_eqI) (auto simp: bit_simps)
  moreover have "unat ?y < 256"
    using unat_and_mask [of ?y 8] y by (simp add: mask_eq_exp_minus_1)
  then have "table ! unat ?y = (fbit_step poly ^^ 8) (push_bit ?w ?y)"
    using entries by simp
  ultimately show ?thesis using y by (simp only: xor.commute)
qed

lemma byte_step_inj: "inj (\<lambda>s. fbyte_step poly s d)"
proof (rule injI)
  fix s t
  assume "fbyte_step poly s d = fbyte_step poly t d"
  then have "push_bit (LENGTH('a) - 8) (ucast d) XOR s = push_bit (LENGTH('a) - 8) (ucast d) XOR t"
    using injD [OF inj_fn [OF fbit_step_inj [OF low], of 8]] by (simp add: fbyte_step_def xor.commute)
  then show "s = t" by (simp only: xor_left_cancel)
qed

lemma burst: "burst_detected (fbyte_step poly) (LENGTH('a) div 8)"
  unfolding burst_detected_def
proof (intro allI impI)
  fix s a u v b
  assume len: "length u = length v" "length u \<le> LENGTH('a) div 8"
    and eq: "foldl (fbyte_step poly) s (a @ u @ b) = foldl (fbyte_step poly) s (a @ v @ b)"
  let ?t = "foldl (fbyte_step poly) s a"
  have small: "8 * length u \<le> LENGTH('a)" using len(2) by simp
  have "foldl (fbyte_step poly) ?t u = foldl (fbyte_step poly) ?t v"
    using eq foldl_inj [of "fbyte_step poly", OF byte_step_inj] by simp
  then have "?t XOR fpack u = ?t XOR fpack v"
    using fbytes_pack [where p = poly and s = ?t and ds = u] fbytes_pack [where p = poly and s = ?t and ds = v]
      small len(1)
      injD [OF inj_fn [OF fbit_step_inj [OF low], of "8 * length u"]] by simp
  then have "(fpack u :: 'a word) = fpack v" by (simp only: xor_left_cancel)
  then show "u = v" by (rule fpack_inj [OF len(1) small])
qed

end

end
