(* ===== verification/Crc_Funs.thy ===== *)
theory Crc_Funs
  imports Crc_Tables
begin

text \<open>
  The checksum functions of \<^verbatim>\<open>crc/\<close>, each as its C loop over the table of the file, the interpretation of
  the two contracts on the tables, and what follows for every function: equality with bit-serial
  division, detection of bursts, incremental use. A buffer and its length are a byte list.
\<close>

section \<open>Definitions\<close>

definition crc7_byte :: "u8 \<Rightarrow> u8 \<Rightarrow> u8 option" where
  "crc7_byte crc data = rd crc7_syndrome_table (unat (push_bit 1 (ucast crc :: u32) XOR ucast data))"

fun fio_crc7_loop :: "u8 \<Rightarrow> bytes \<Rightarrow> u8 option" where
  "fio_crc7_loop crc [] = Some crc"
| "fio_crc7_loop crc (b # bs) = do { crc \<leftarrow> crc7_byte crc b; fio_crc7_loop crc bs }"

definition fio_crc7 :: "bytes \<Rightarrow> u8 option" where
  "fio_crc7 buffer = fio_crc7_loop 0 buffer"

definition crc16_byte :: "u16 \<Rightarrow> u8 \<Rightarrow> u16" where
  "crc16_byte crc data = drop_bit 8 crc XOR crc16_table ! unat ((crc XOR ucast data) AND 0xff)"

definition fio_crc16 :: "bytes \<Rightarrow> u16" where
  "fio_crc16 buffer = foldl crc16_byte 0 buffer"

definition fio_crc32 :: "bytes \<Rightarrow> u32" where
  "fio_crc32 buffer =
     foldl (\<lambda>crc b. push_bit 8 crc XOR crctab ! unat ((drop_bit 24 crc XOR ucast b) AND 0xff)) 0 buffer"

definition crc32c_sw :: "bytes \<Rightarrow> u32" where
  "crc32c_sw data =
     foldl (\<lambda>crc b. crc32c_table ! unat ((crc XOR ucast b) AND 0xff) XOR drop_bit 8 crc) (NOT 0) data"

definition fio_crc64 :: "bytes \<Rightarrow> u64" where
  "fio_crc64 buffer =
     foldl (\<lambda>crc b. crctab64 ! unat ((crc XOR ucast b) AND 0xff) XOR drop_bit 8 crc) 0 buffer"

definition fio_crc64_nvme :: "u64 \<Rightarrow> bytes \<Rightarrow> u64" where
  "fio_crc64_nvme crc p =
     NOT (foldl (\<lambda>crc b. drop_bit 8 crc XOR crc64nvmetable ! unat ((crc AND 0xff) XOR ucast b)) (NOT crc) p)"

definition fio_crc_t10dif :: "u16 \<Rightarrow> bytes \<Rightarrow> u16" where
  "fio_crc_t10dif crc buffer =
     foldl (\<lambda>crc b. push_bit 8 crc XOR t10_dif_crc_table ! unat ((drop_bit 8 crc XOR ucast b) AND 0xff)) crc buffer"

section \<open>Interpretation of the contracts\<close>

interpretation crc16: crc_reflected "0xa001 :: u16" crc16_table
proof
  show "bit (0xa001 :: u16) (LENGTH(16) - 1)" by simp
  show "crc16_table ! i = (rbit_step 0xa001 ^^ 8) (of_nat i)" if "i < 256" for i
    by (rule r_entries [OF _ _ that]) (simp_all add: crc16_table_nat)
qed

interpretation crc32c: crc_reflected "0x82f63b78 :: u32" crc32c_table
proof
  show "bit (0x82f63b78 :: u32) (LENGTH(32) - 1)" by simp
  show "crc32c_table ! i = (rbit_step 0x82f63b78 ^^ 8) (of_nat i)" if "i < 256" for i
    by (rule r_entries [OF _ _ that]) (simp_all add: crc32c_table_nat)
qed

interpretation crc64: crc_reflected "0x95ac9329ac4bc9b5 :: u64" crctab64
proof
  show "bit (0x95ac9329ac4bc9b5 :: u64) (LENGTH(64) - 1)" by simp
  show "crctab64 ! i = (rbit_step 0x95ac9329ac4bc9b5 ^^ 8) (of_nat i)" if "i < 256" for i
    by (rule r_entries [OF _ _ that]) (simp_all add: crctab64_nat)
qed

interpretation crc64nvme: crc_reflected "0x9a6c9329ac4bc9b5 :: u64" crc64nvmetable
proof
  show "bit (0x9a6c9329ac4bc9b5 :: u64) (LENGTH(64) - 1)" by simp
  show "crc64nvmetable ! i = (rbit_step 0x9a6c9329ac4bc9b5 ^^ 8) (of_nat i)" if "i < 256" for i
    by (rule r_entries [OF _ _ that]) (simp_all add: crc64nvmetable_nat)
qed

interpretation crc32: crc_forward "0x04c11db7 :: u32" crctab
proof
  show "8 \<le> LENGTH(32)" "bit (0x04c11db7 :: u32) 0" by simp_all
  show "crctab ! i = (fbit_step 0x04c11db7 ^^ 8) (push_bit (LENGTH(32) - 8) (of_nat i))" if "i < 256" for i
    by (rule f_entries [OF _ _ _ _ that, of "0x80000000" "0x1000000"]) (simp_all add: crctab_nat)
qed

interpretation t10dif: crc_forward "0x8bb7 :: u16" t10_dif_crc_table
proof
  show "8 \<le> LENGTH(16)" "bit (0x8bb7 :: u16) 0" by simp_all
  show "t10_dif_crc_table ! i = (fbit_step 0x8bb7 ^^ 8) (push_bit (LENGTH(16) - 8) (of_nat i))" if "i < 256" for i
    by (rule f_entries [OF _ _ _ _ that, of "0x8000" "0x100"]) (simp_all add: t10_dif_crc_table_nat)
qed

section \<open>Bit-serial forms\<close>

lemma fio_crc16_serial: "fio_crc16 bs = foldl (rbyte_step 0xa001) 0 bs"
  unfolding fio_crc16_def crc16_byte_def crc16.tab_step ..

lemma fio_crc32_serial: "fio_crc32 bs = foldl (fbyte_step 0x04c11db7) 0 bs"
  using crc32.tab_step by (simp add: fio_crc32_def)

lemma crc32c_sw_serial: "crc32c_sw bs = foldl (rbyte_step 0x82f63b78) (NOT 0) bs"
  unfolding crc32c_sw_def by (subst xor.commute) (simp only: crc32c.tab_step)

lemma fio_crc64_serial: "fio_crc64 bs = foldl (rbyte_step 0x95ac9329ac4bc9b5) 0 bs"
  unfolding fio_crc64_def by (subst xor.commute) (simp only: crc64.tab_step)

lemma and_ff_xor: "(crc AND 0xff) XOR ucast (b :: u8) = (crc XOR ucast b) AND 0xff" for crc :: u64
proof -
  have "(crc AND mask 8) XOR ucast b = (crc XOR ucast b) AND mask 8"
    by (rule bit_word_eqI) (auto simp: bit_simps dest: bit_imp_le_length)
  then show ?thesis by (simp add: mask_eq_exp_minus_1)
qed

lemma fio_crc64_nvme_serial: "fio_crc64_nvme crc bs = NOT (foldl (rbyte_step 0x9a6c9329ac4bc9b5) (NOT crc) bs)"
  unfolding fio_crc64_nvme_def and_ff_xor crc64nvme.tab_step ..

lemma fio_crc_t10dif_serial: "fio_crc_t10dif crc bs = foldl (fbyte_step 0x8bb7) crc bs"
  using t10dif.tab_step by (simp add: fio_crc_t10dif_def)

text \<open>CRC-7 keeps its seven bits in the low part of a byte; shifted left by one it is the forward division.\<close>

lemma crc7_entries:
  assumes "i < 256"
  shows "push_bit 1 (crc7_syndrome_table ! i) = (fbit_step 0x12 ^^ 8) (of_nat i)"
    and "unat (crc7_syndrome_table ! i) < 128" and "length crc7_syndrome_table = 256"
proof -
  show len: "length crc7_syndrome_table = 256" by (simp add: crc7_syndrome_table_def)
  have "map (push_bit 1) crc7_syndrome_table ! i = (fbit_step 0x12 ^^ 8) (push_bit (LENGTH(8) - 8) (of_nat i))"
    by (rule f_entries [OF _ _ _ _ assms, of "0x80" "1"]) (use crc7_syndrome_table_nat(1) in simp_all)
  then show "push_bit 1 (crc7_syndrome_table ! i) = (fbit_step 0x12 ^^ 8) (of_nat i)"
    using assms len by simp
  show "unat (crc7_syndrome_table ! i) < 128"
    using crc7_syndrome_table_nat(2) assms len by (simp add: list_all_length)
qed

lemma crc7_byte_serial:
  assumes "unat crc < 128"
  shows "\<exists>c. crc7_byte crc d = Some c \<and> unat c < 128 \<and> push_bit 1 c = fbyte_step 0x12 (push_bit 1 crc) d"
proof -
  let ?i = "push_bit 1 (ucast crc :: u32) XOR ucast d"
  have c: "\<not> bit crc j" if "7 \<le> j" for j
    using assms that unat_and_mask [of crc 7] bit_take_bit_iff [of 7 "unat crc" j]
    by (simp add: bit_word_nat take_bit_nat_eq_self)
  have i8: "?i = ucast (push_bit 1 crc XOR d)"
  proof (rule bit_word_eqI)
    fix n
    assume "n < LENGTH(32)"
    moreover have "\<not> bit crc (n - 1)" if "8 \<le> n" using c [of "n - 1"] that by simp
    moreover have "bit (ucast (push_bit 1 crc XOR d) :: u32) n \<longleftrightarrow> bit (push_bit 1 crc) n \<noteq> bit d n"
      using calculation(1) bit_xor_iff [of "push_bit 1 crc" d n] by (simp only: bit_ucast8) blast
    moreover have "bit (ucast crc :: u32) (n - 1) = bit crc (n - 1)" using calculation(1) by auto
    ultimately show "bit ?i n = bit (ucast (push_bit 1 crc XOR d) :: u32) n"
      by (cases "n < 8") (simp_all only: bit_xor_iff bit_push_1 bit_ucast8, auto)
  qed
  then have ui: "unat ?i = unat (push_bit 1 crc XOR d)" by (simp add: unsigned_ucast_eq take_bit_nat_eq_self
      order.strict_trans [OF unsigned_less])
  have lt: "unat ?i < 256" using ui unsigned_less [of "push_bit 1 crc XOR d"] by simp
  have "crc7_byte crc d = Some (crc7_syndrome_table ! unat ?i)"
    unfolding crc7_byte_def using lt crc7_entries(3) by (intro rd_Some) simp
  moreover have "push_bit 1 (crc7_syndrome_table ! unat ?i) = fbyte_step 0x12 (push_bit 1 crc) d"
  proof -
    have "(of_nat (unat w) :: u8) = w" for w :: u8 by simp
    then have "(of_nat (unat ?i) :: u8) = push_bit 1 crc XOR d" unfolding ui .
    moreover have "fbyte_step 0x12 s d = (fbit_step 0x12 ^^ 8) (s XOR d)" for s :: u8
      by (simp add: fbyte_step_def)
    ultimately show ?thesis using crc7_entries(1) [OF lt] by (simp only:)
  qed
  ultimately show ?thesis using crc7_entries(2) [OF lt] by blast
qed

lemma fio_crc7_loop_serial:
  "unat crc < 128 \<Longrightarrow> \<exists>c. fio_crc7_loop crc bs = Some c \<and> unat c < 128 \<and>
    push_bit 1 c = foldl (fbyte_step 0x12) (push_bit 1 crc) bs"
proof (induction bs arbitrary: crc)
  case (Cons b bs)
  obtain c where "crc7_byte crc b = Some c" "unat c < 128" "push_bit 1 c = fbyte_step 0x12 (push_bit 1 crc) b"
    using crc7_byte_serial [OF Cons.prems] by blast
  with Cons.IH [of c] show ?case by auto
qed auto

section \<open>Properties\<close>

text \<open>
  C28 (equivalence): every table-driven checksum computes the remainder that bit-serial division by its
  generator polynomial computes, for every input: CRC-7 (without leaving its table), CRC-16, CRC-32,
  CRC-32C, CRC-64, the NVMe CRC-64 and the T10-DIF CRC-16. The initial values are those of the code: \<^verbatim>\<open>fio_crc64\<close> starts from 0, although the
  comment on its table says all ones, and \<^verbatim>\<open>fio_crc32\<close>, in spite of the name in \<^verbatim>\<open>crc32.c\<close>, is not the POSIX checksum, which appends the length and complements.
\<close>

theorem crc_table_serial:
  "(\<exists>c. fio_crc7 bs = Some c \<and> unat c < 128 \<and> push_bit 1 c = foldl (fbyte_step 0x12) 0 bs) \<and>
   fio_crc16 bs = foldl (rbyte_step 0xa001) 0 bs \<and>
   fio_crc32 bs = foldl (fbyte_step 0x04c11db7) 0 bs \<and>
   crc32c_sw bs = foldl (rbyte_step 0x82f63b78) (- 1) bs \<and>
   fio_crc64 bs = foldl (rbyte_step 0x95ac9329ac4bc9b5) 0 bs \<and>
   fio_crc64_nvme crc bs = NOT (foldl (rbyte_step 0x9a6c9329ac4bc9b5) (NOT crc) bs) \<and>
   fio_crc_t10dif crc' bs = foldl (fbyte_step 0x8bb7) crc' bs"
  using fio_crc7_loop_serial [of 0 bs] fio_crc16_serial fio_crc32_serial crc32c_sw_serial [of bs]
    fio_crc64_serial fio_crc64_nvme_serial fio_crc_t10dif_serial
  by (simp add: fio_crc7_def)

text \<open>
  C29 (safety): two buffers of the same length that differ only inside one run of consecutive bytes have
  different checksums whenever the run is no longer than the checksum: 2 bytes for CRC-16 and T10-DIF,
  4 for CRC-32 and CRC-32C, 8 for the CRC-64 variants.
\<close>

theorem crc_detects_bursts:
  assumes "length u = length v" and "u \<noteq> v"
  shows "(length u \<le> 2 \<longrightarrow> fio_crc16 (a @ u @ b) \<noteq> fio_crc16 (a @ v @ b)) \<and>
    (length u \<le> 2 \<longrightarrow> fio_crc_t10dif crc' (a @ u @ b) \<noteq> fio_crc_t10dif crc' (a @ v @ b)) \<and>
    (length u \<le> 4 \<longrightarrow> fio_crc32 (a @ u @ b) \<noteq> fio_crc32 (a @ v @ b)) \<and>
    (length u \<le> 4 \<longrightarrow> crc32c_sw (a @ u @ b) \<noteq> crc32c_sw (a @ v @ b)) \<and>
    (length u \<le> 8 \<longrightarrow> fio_crc64 (a @ u @ b) \<noteq> fio_crc64 (a @ v @ b)) \<and>
    (length u \<le> 8 \<longrightarrow> fio_crc64_nvme crc (a @ u @ b) \<noteq> fio_crc64_nvme crc (a @ v @ b))"
proof -
  have d: "foldl step s (a @ u @ b) \<noteq> foldl step s (a @ v @ b)"
    if "burst_detected step w" "length u \<le> w" for step :: "'s \<Rightarrow> u8 \<Rightarrow> 's" and s w
    using that assms unfolding burst_detected_def by blast
  show ?thesis
    unfolding fio_crc16_serial fio_crc_t10dif_serial fio_crc32_serial crc32c_sw_serial fio_crc64_serial
      fio_crc64_nvme_serial
    using d [OF crc16.burst] d [OF t10dif.burst] d [OF crc32.burst] d [OF crc32c.burst] d [OF crc64.burst]
      d [OF crc64nvme.burst] by simp
qed

theorem crc_detects_bursts_witness:
  "crc32c_sw ([1, 2] @ [3, 4, 5, 6] @ [7]) \<noteq> crc32c_sw ([1, 2] @ [3, 4, 5, 7] @ [7])"
  using crc_detects_bursts [of "[3, 4, 5, 6]" "[3, 4, 5, 7]" "[1, 2]" "[7]"] by simp

text \<open>
  The two checksums with a running value can be computed piecewise: feeding the value of a
  prefix back in and continuing with the rest gives the value of the whole buffer, as the comment on
  \<^verbatim>\<open>fio_crc64_nvme\<close> promises.
\<close>

lemma crc_incremental:
  "fio_crc64_nvme (fio_crc64_nvme crc a) b = fio_crc64_nvme crc (a @ b) \<and>
   fio_crc_t10dif (fio_crc_t10dif crc' a) b = fio_crc_t10dif crc' (a @ b)"
  by (simp add: fio_crc64_nvme_def fio_crc_t10dif_def)

end
