(* ===== verification/Smalloc.thy ===== *)
theory Smalloc
  imports Bits Bytes
begin

text \<open>
  \<^verbatim>\<open>smalloc.c\<close>: the allocator of shared memory. A pool is an area of 32-byte blocks with a bitmap of 32-bit
  words, one bit per block; an allocation is a run of blocks that starts with a header (its size and a
  guard word) and ends with a second guard word. Sizes are naturals with the truncations of the code
  written out, bitmap words are 32-bit words. The mapping of a pool is modelled as two arrays, the area of
  the blocks and the bitmap behind it. An operation under the pool's lock is one step.
\<close>

section \<open>Faults\<close>

text \<open>
  What can go wrong: a failed assertion, an access outside an array, a shift by at least the width, or a
  loop that uses more rounds than the fuel it is given.
\<close>

datatype fault = Assert_fail | Out_of_bounds | Bad_shift | No_fuel

type_synonym 'a res = "fault + 'a"

definition bindE :: "'a res \<Rightarrow> ('a \<Rightarrow> 'b res) \<Rightarrow> 'b res" where
  "bindE m f = (case m of Inl e \<Rightarrow> Inl e | Inr x \<Rightarrow> f x)"

definition assertE :: "bool \<Rightarrow> unit res" where
  "assertE b = (if b then Inr () else Inl Assert_fail)"

definition rdE :: "'a list \<Rightarrow> nat \<Rightarrow> 'a res" where
  "rdE xs i = (if i < length xs then Inr (xs ! i) else Inl Out_of_bounds)"

lemma bindE_simps [simp]: "bindE (Inl e) f = Inl e" "bindE (Inr x) f = f x"
  by (simp_all add: bindE_def)

lemma assertE_True [simp]: "b \<Longrightarrow> assertE b = Inr ()"
  by (simp add: assertE_def)

lemma rdE_Inr [simp]: "i < length xs \<Longrightarrow> rdE xs i = Inr (xs ! i)"
  by (simp add: rdE_def)

lemma bindE_cong [fundef_cong]:
  "m = m' \<Longrightarrow> (\<And>x. m' = Inr x \<Longrightarrow> f x = f' x) \<Longrightarrow> bindE m f = bindE m' f'"
  by (cases m') simp_all

text \<open>Loads and stores of little-endian words in the area of a pool.\<close>

definition loadE :: "nat \<Rightarrow> bytes \<Rightarrow> nat \<Rightarrow> 'a::len word res" where
  "loadE n mem at = (if at + n \<le> length mem then Inr (le_word (take n (drop at mem))) else Inl Out_of_bounds)"

definition storeE :: "bytes \<Rightarrow> nat \<Rightarrow> bytes \<Rightarrow> bytes res" where
  "storeE mem at ds =
     (if at + length ds \<le> length mem then Inr (take at mem @ ds @ drop (at + length ds) mem)
      else Inl Out_of_bounds)"

section \<open>Pools\<close>

record pool =
  map_base :: nat         \<comment> \<open>\<^verbatim>\<open>map\<close>: the address of the area\<close>
  area :: bytes           \<comment> \<open>the bytes at \<^verbatim>\<open>map\<close>\<close>
  bitmap :: "u32 list"
  free_blocks :: nat
  nr_blocks :: nat
  next_non_full :: nat
  mmap_size :: nat

definition hdr_size :: nat where \<comment> \<open>\<^verbatim>\<open>sizeof(struct block_hdr)\<close>\<close>
  "hdr_size = 16"

definition ptr_valid :: "pool \<Rightarrow> nat \<Rightarrow> bool" where
  "ptr_valid pool ptr = (let pool_size = nr_blocks pool * 1024 mod 2 ^ 32
     in map_base pool \<le> ptr \<and> ptr < map_base pool + pool_size)"

definition size_to_blocks :: "nat \<Rightarrow> nat" where
  "size_to_blocks sz = (sz + 32 - 1) mod 2 ^ 64 div 32"

text \<open>\<^verbatim>\<open>mask\<close> of \<^verbatim>\<open>blocks_iter\<close>; a shift by 32 or more is undefined.\<close>

definition blocks_mask :: "nat \<Rightarrow> nat \<Rightarrow> u32 res" where
  "blocks_mask this_blocks idx =
     (if this_blocks = 32 then Inr (- 1)
      else if this_blocks < 32 \<and> idx < 32 then Inr (push_bit idx (push_bit this_blocks 1 - 1))
      else Inl Bad_shift)"

text \<open>
  The part of a run in one word. \<^verbatim>\<open>SMALLOC_BPI\<close> is a \<^verbatim>\<open>size_t\<close>: the differences are taken modulo \<open>2 ^ 64\<close> and
  then truncated to \<^verbatim>\<open>unsigned int\<close>. A value of \<^verbatim>\<open>this_blocks\<close> above \<^verbatim>\<open>nr_blocks\<close> only occurs with an
  undefined shift.
\<close>

definition blocks_chunk :: "nat \<Rightarrow> nat \<Rightarrow> nat \<times> nat" where
  "blocks_chunk nr idx = (let this_blocks = nr mod 2 ^ 32 in
     if 32 < (this_blocks + idx) mod 2 ^ 32
     then let this_blocks = (2 ^ 64 + 32 - idx) mod 2 ^ 32 in (this_blocks, (2 ^ 64 + 32 - this_blocks) mod 2 ^ 32)
     else (this_blocks, idx))"

function blocks_iter :: "pool \<Rightarrow> nat \<Rightarrow> nat \<Rightarrow> nat \<Rightarrow> (u32 \<Rightarrow> u32 \<Rightarrow> (u32 \<times> bool) res) \<Rightarrow> (pool \<times> bool) res" where
  "blocks_iter pool pool_idx idx nr func =
     (if nr = 0 then Inr (pool, True)
      else if nr_blocks pool \<le> pool_idx then Inr (pool, False)
      else bindE (rdE (bitmap pool) pool_idx) (\<lambda>map.
        let (this_blocks, idx) = blocks_chunk nr idx
        in bindE (blocks_mask this_blocks idx) (\<lambda>mask.
           bindE (func map mask) (\<lambda>(map, ok).
             let pool = pool\<lparr>bitmap := (bitmap pool)[pool_idx := map]\<rparr>
             in if \<not> ok then Inr (pool, False)
                else blocks_iter pool (pool_idx + 1) 0 (nr - this_blocks) func))))"
  by pat_completeness auto
termination
  by (relation "measure (\<lambda>(pool, pool_idx, idx, nr, func). nr_blocks pool - pool_idx)") auto

declare blocks_iter.simps [simp del]

definition mask_cmp :: "u32 \<Rightarrow> u32 \<Rightarrow> (u32 \<times> bool) res" where
  "mask_cmp w m = Inr (w, w AND m = 0)"

definition mask_clear :: "u32 \<Rightarrow> u32 \<Rightarrow> (u32 \<times> bool) res" where
  "mask_clear w m = bindE (assertE (w AND m = m)) (\<lambda>_. Inr (w AND NOT m, True))"

definition mask_set :: "u32 \<Rightarrow> u32 \<Rightarrow> (u32 \<times> bool) res" where
  "mask_set w m = bindE (assertE (w AND m = 0)) (\<lambda>_. Inr (w OR m, True))"

definition blocks_free :: "pool \<Rightarrow> nat \<Rightarrow> nat \<Rightarrow> nat \<Rightarrow> bool res" where
  "blocks_free pool pool_idx idx nr = bindE (blocks_iter pool pool_idx idx nr mask_cmp) (\<lambda>(pool, ok). Inr ok)"

definition set_blocks :: "pool \<Rightarrow> nat \<Rightarrow> nat \<Rightarrow> nat \<Rightarrow> pool res" where
  "set_blocks pool pool_idx idx nr = bindE (blocks_iter pool pool_idx idx nr mask_set) (\<lambda>(pool, ok). Inr pool)"

definition clear_blocks :: "pool \<Rightarrow> nat \<Rightarrow> nat \<Rightarrow> nat \<Rightarrow> pool res" where
  "clear_blocks pool pool_idx idx nr = bindE (blocks_iter pool pool_idx idx nr mask_clear) (\<lambda>(pool, ok). Inr pool)"

text \<open>
  The word is an \<^verbatim>\<open>int\<close>: the right shift copies its sign bit, and the conversion to the argument of
  \<^verbatim>\<open>ffz\<close> extends it to 64 bits.
\<close>

definition find_next_zero :: "u32 \<Rightarrow> nat \<Rightarrow> nat res" where
  "find_next_zero word start =
     bindE (assertE (word \<noteq> - 1)) (\<lambda>_.
     if start < 32 then Inr (ffz (scast (signed_drop_bit start word)) + start) else Inl Bad_shift)"

section \<open>Setting up\<close>

text \<open>The outcome of \<^verbatim>\<open>mmap\<close> (an address, or a failure) and of \<^verbatim>\<open>fio_sem_init\<close> are arguments.\<close>

definition add_pool_size :: "nat \<Rightarrow> nat" where
  "add_pool_size alloc_size = (let
     alloc_size = (alloc_size + 4) mod 2 ^ 32;
     alloc_size = (alloc_size + hdr_size) mod 2 ^ 32;
     alloc_size = (if alloc_size < 16 * 1024 * 1024 then 16 * 1024 * 1024 else alloc_size)
   in (alloc_size + 1024 - 1) div 1024 * 1024 mod 2 ^ 32)"

definition add_pool :: "nat \<Rightarrow> nat option \<Rightarrow> bool \<Rightarrow> nat \<Rightarrow> pool option res" where
  "add_pool nr_pools mapped sem_ok alloc_size = (if nr_pools = 16 then Inr None else let
     alloc_size = add_pool_size alloc_size;
     bitmap_blocks = alloc_size div 1024;
     alloc_size = (alloc_size + bitmap_blocks * 4) mod 2 ^ 32
   in case mapped of
        None \<Rightarrow> Inr None
      | Some ptr \<Rightarrow>
          if bitmap_blocks * 1024 + bitmap_blocks * 4 \<le> alloc_size
          then Inr (if sem_ok
                    then Some \<lparr>map_base = ptr, area = replicate (bitmap_blocks * 1024) 0,
                      bitmap = replicate bitmap_blocks 0, free_blocks = bitmap_blocks * 32,
                      nr_blocks = bitmap_blocks, next_non_full = 0, mmap_size = alloc_size\<rparr>
                    else None)
          else Inl Out_of_bounds)"

section \<open>Freeing\<close>

text \<open>Accesses through a pointer into the area of a pool.\<close>

definition load_ptr :: "nat \<Rightarrow> pool \<Rightarrow> nat \<Rightarrow> 'a::len word res" where
  "load_ptr n pool ptr = (if map_base pool \<le> ptr then loadE n (area pool) (ptr - map_base pool) else Inl Out_of_bounds)"

definition store_ptr :: "pool \<Rightarrow> nat \<Rightarrow> bytes \<Rightarrow> pool res" where
  "store_ptr pool ptr ds =
     (if map_base pool \<le> ptr
      then bindE (storeE (area pool) (ptr - map_base pool) ds) (\<lambda>mem. Inr (pool\<lparr>area := mem\<rparr>))
      else Inl Out_of_bounds)"

definition postred_ptr :: "nat \<Rightarrow> nat \<Rightarrow> nat" where
  "postred_ptr hdr sz = ((hdr + sz + 2 ^ 64 - 4) mod 2 ^ 64 + 3) mod 2 ^ 64 div 4 * 4"

definition PRE_RED :: u32 where "PRE_RED = 0xdeadbeef"
definition POST_RED :: u32 where "POST_RED = 0x5aa55aa5"

definition fill_redzone :: "pool \<Rightarrow> nat \<Rightarrow> pool res" where
  "fill_redzone pool hdr =
     bindE (load_ptr 8 pool hdr :: u64 res) (\<lambda>sz.
     bindE (store_ptr pool (hdr + 8) (le_bytes 4 PRE_RED)) (\<lambda>pool.
     store_ptr pool (postred_ptr hdr (unat sz)) (le_bytes 4 POST_RED)))"

definition sfree_check_redzone :: "pool \<Rightarrow> nat \<Rightarrow> unit res" where
  "sfree_check_redzone pool hdr =
     bindE (load_ptr 8 pool hdr :: u64 res) (\<lambda>sz.
     bindE (load_ptr 4 pool (hdr + 8) :: u32 res) (\<lambda>prered.
     bindE (assertE (prered = PRE_RED)) (\<lambda>_.
     bindE (load_ptr 4 pool (postred_ptr hdr (unat sz)) :: u32 res) (\<lambda>postred.
     assertE (postred = POST_RED)))))"

definition sfree_pool :: "pool \<Rightarrow> nat \<Rightarrow> pool res" where
  "sfree_pool pool ptr =
     (if ptr = 0 then Inr pool
      else let ptr = (ptr + 2 ^ 64 - hdr_size) mod 2 ^ 64 in
        bindE (assertE (ptr_valid pool ptr)) (\<lambda>_.
        bindE (sfree_check_redzone pool ptr) (\<lambda>_.
        let offset = ptr - map_base pool; i = offset div 1024; idx = offset mod 1024 div 32 in
        bindE (load_ptr 8 pool ptr :: u64 res) (\<lambda>sz.
        bindE (clear_blocks pool i idx (size_to_blocks (unat sz))) (\<lambda>pool.
        let pool = (if i < next_non_full pool then pool\<lparr>next_non_full := i\<rparr> else pool)
        in Inr (pool\<lparr>free_blocks := (free_blocks pool + size_to_blocks (unat sz)) mod 2 ^ 64\<rparr>))))))"

section \<open>Allocating\<close>

fun first_non_full :: "u32 list \<Rightarrow> nat \<Rightarrow> nat option" where
  "first_non_full [] j = None"
| "first_non_full (w # ws) j = (if w \<noteq> - 1 then Some j else first_non_full ws (j + 1))"

function find_best_index_loop :: "pool \<Rightarrow> nat \<Rightarrow> nat res" where
  "find_best_index_loop pool i =
     bindE (rdE (bitmap pool) i) (\<lambda>w.
       if w = - 1
       then (if i + 1 = nr_blocks pool
             then (case first_non_full (take (nr_blocks pool) (bitmap pool)) 0 of
                     Some j \<Rightarrow> Inr j
                   | None \<Rightarrow> find_best_index_loop pool (i + 1))
             else find_best_index_loop pool (i + 1))
       else Inr i)"
  by pat_completeness auto
termination
  by (relation "measure (\<lambda>(pool, i). length (bitmap pool) - i)") (auto simp: rdE_def split: if_splits)

declare find_best_index_loop.simps [simp del]

definition find_best_index :: "pool \<Rightarrow> nat res" where
  "find_best_index pool =
     bindE (assertE (free_blocks pool \<noteq> 0)) (\<lambda>_. find_best_index_loop pool (next_non_full pool))"

text \<open>
  \<^verbatim>\<open>while (idx >= SMALLOC_BPI)\<close>; then the search loop: \<open>Inr (pool, Some offset)\<close> when a run is found,
  \<open>Inr (pool, None)\<close> when the bitmap is exhausted.
\<close>

fun skip_words :: "nat \<Rightarrow> nat \<Rightarrow> nat" where
  "skip_words i idx = (if 32 \<le> idx then skip_words (i + 1) (idx - 32) else i)"

declare skip_words.simps [simp del]

fun smalloc_search :: "nat \<Rightarrow> pool \<Rightarrow> nat \<Rightarrow> nat \<Rightarrow> nat \<Rightarrow> (pool \<times> nat option) res" where
  "smalloc_search 0 pool nr i last_idx = Inl No_fuel"
| "smalloc_search (Suc fuel) pool nr i last_idx =
     (if nr_blocks pool \<le> i then Inr (pool, None)
      else bindE (rdE (bitmap pool) i) (\<lambda>w.
        if w = - 1 then smalloc_search fuel pool nr (i + 1) 0
        else bindE (find_next_zero w last_idx) (\<lambda>idx.
          bindE (blocks_free pool i idx nr) (\<lambda>ok.
            if \<not> ok
            then let idx = (idx + nr) mod 2 ^ 32
                 in if idx < 32 then smalloc_search fuel pool nr i idx
                    else smalloc_search fuel pool nr (skip_words i idx) 0
            else bindE (set_blocks pool i idx nr) (\<lambda>pool.
              Inr (pool, Some ((i * 1024 + idx * 32) mod 2 ^ 32)))))))"

text \<open>Every round advances the position by one bit at least, so the number of bits is enough fuel.\<close>

definition smalloc_pool_blocks :: "pool \<Rightarrow> nat \<Rightarrow> (pool \<times> nat) res" where \<comment> \<open>\<^verbatim>\<open>__smalloc_pool\<close>\<close>
  "smalloc_pool_blocks pool sz =
     (let nr = size_to_blocks sz in
      if free_blocks pool < nr then Inr (pool, 0)
      else bindE (find_best_index pool) (\<lambda>best.
        let pool = pool\<lparr>next_non_full := best\<rparr> in
        bindE (smalloc_search (Suc (32 * nr_blocks pool)) pool nr best 0) (\<lambda>(pool, off).
          case off of
            None \<Rightarrow> Inr (pool, 0)
          | Some offset \<Rightarrow> Inr (pool\<lparr>free_blocks := free_blocks pool - nr\<rparr>, map_base pool + offset))))"

definition size_to_alloc_size :: "nat \<Rightarrow> nat" where
  "size_to_alloc_size sz = (let
     alloc_size = (sz + hdr_size) mod 2 ^ 64;
     alloc_size = (alloc_size + 4) mod 2 ^ 64
   in (alloc_size + 3) mod 2 ^ 64 div 4 * 4)"

definition smalloc_pool :: "pool \<Rightarrow> nat \<Rightarrow> (pool \<times> nat) res" where
  "smalloc_pool pool sz =
     (let alloc_size = size_to_alloc_size sz in
      bindE (smalloc_pool_blocks pool alloc_size) (\<lambda>(pool, ptr).
        if ptr = 0 then Inr (pool, 0)
        else bindE (store_ptr pool ptr (le_bytes 8 (of_nat alloc_size :: u64))) (\<lambda>pool.
          bindE (fill_redzone pool ptr) (\<lambda>pool.
          bindE (store_ptr pool (ptr + hdr_size) (replicate sz 0)) (\<lambda>pool.
          Inr (pool, ptr + hdr_size))))))"

section \<open>The set of pools\<close>

record smalloc_state =
  mp :: "pool list"   \<comment> \<open>the first \<^verbatim>\<open>nr_pools\<close> entries of \<^verbatim>\<open>mp\<close>\<close>
  last_pool :: nat

fun find_pool :: "pool list \<Rightarrow> nat \<Rightarrow> nat \<Rightarrow> nat option" where
  "find_pool [] ptr i = None"
| "find_pool (p # ps) ptr i = (if ptr_valid p ptr then Some i else find_pool ps ptr (i + 1))"

definition sfree :: "smalloc_state \<Rightarrow> nat \<Rightarrow> smalloc_state res" where
  "sfree s ptr =
     (if ptr = 0 then Inr s
      else case find_pool (mp s) ptr 0 of
        None \<Rightarrow> Inr s
      | Some i \<Rightarrow> bindE (sfree_pool (mp s ! i) ptr) (\<lambda>pool. Inr (s\<lparr>mp := (mp s)[i := pool]\<rparr>)))"

text \<open>\<^verbatim>\<open>sinit\<close> adds up to 8 pools; \<open>env\<close> lists the outcomes of \<^verbatim>\<open>mmap\<close> and \<^verbatim>\<open>fio_sem_init\<close> for the calls.\<close>

fun add_pools :: "(nat option \<times> bool) list \<Rightarrow> nat \<Rightarrow> smalloc_state \<Rightarrow> smalloc_state res" where
  "add_pools [] alloc_size s = Inr s"
| "add_pools ((mapped, sem_ok) # env) alloc_size s =
     bindE (add_pool (length (mp s)) mapped sem_ok alloc_size) (\<lambda>pool.
       case pool of
         None \<Rightarrow> Inr s
       | Some p \<Rightarrow> add_pools env alloc_size (s\<lparr>mp := mp s @ [p]\<rparr>))"

definition sinit :: "(nat option \<times> bool) list \<Rightarrow> nat \<Rightarrow> smalloc_state \<Rightarrow> smalloc_state res" where
  "sinit env smalloc_pool_size s =
     bindE (add_pools (take 8 env) smalloc_pool_size s) (\<lambda>s'.
     bindE (assertE (length (mp s') \<noteq> length (mp s))) (\<lambda>_. Inr s'))"

text \<open>\<^verbatim>\<open>for (; i < end_pool; i++)\<close> of \<^verbatim>\<open>smalloc\<close>: the first pool of \<open>is\<close> that has room.\<close>

fun smalloc_try :: "nat list \<Rightarrow> smalloc_state \<Rightarrow> nat \<Rightarrow> (smalloc_state \<times> nat) res" where
  "smalloc_try [] s sz = Inr (s, 0)"
| "smalloc_try (i # is) s sz =
     bindE (rdE (mp s) i) (\<lambda>pool.
     bindE (smalloc_pool pool sz) (\<lambda>(pool, ptr).
       let s = s\<lparr>mp := (mp s)[i := pool]\<rparr>
       in if ptr \<noteq> 0 then Inr (s\<lparr>last_pool := i\<rparr>, ptr) else smalloc_try is s sz))"

fun smalloc_debug_loop :: "nat list \<Rightarrow> smalloc_state \<Rightarrow> nat \<Rightarrow> smalloc_state res" where
  "smalloc_debug_loop [] s sz = Inr s"
| "smalloc_debug_loop (i # is) s sz =
     bindE (rdE (mp s) i) (\<lambda>pool.
       if sz \<noteq> 0 \<and> size_to_blocks (size_to_alloc_size sz) \<le> free_blocks pool
       then bindE (smalloc_pool pool sz) (\<lambda>(pool, ptr).
         let s = s\<lparr>mp := (mp s)[i := pool]\<rparr>
         in if ptr \<noteq> 0
            then bindE (sfree s ptr) (\<lambda>s. smalloc_debug_loop is (s\<lparr>last_pool := i\<rparr>) sz)
            else smalloc_debug_loop is s sz)
       else smalloc_debug_loop is s sz)"

definition smalloc_debug :: "smalloc_state \<Rightarrow> nat \<Rightarrow> smalloc_state res" where
  "smalloc_debug s sz = smalloc_debug_loop [0..<length (mp s)] s sz"

text \<open>
  The \<^verbatim>\<open>do ... while (1)\<close> of \<^verbatim>\<open>smalloc\<close> runs at most twice: from the last pool used to the end, then, when
  that was not pool 0, from pool 0 up to it.
\<close>

definition smalloc :: "smalloc_state \<Rightarrow> nat \<Rightarrow> (smalloc_state \<times> nat) res" where
  "smalloc s sz =
     (if sz \<noteq> sz mod 2 ^ 32 then Inr (s, 0)
      else bindE (smalloc_try [last_pool s..<length (mp s)] s sz) (\<lambda>(s, ptr).
        if ptr \<noteq> 0 then Inr (s, ptr)
        else bindE (if last_pool s \<noteq> 0 then smalloc_try [0..<last_pool s] (s\<lparr>last_pool := 0\<rparr>) sz else Inr (s, 0)) (\<lambda>(s, ptr).
          if ptr \<noteq> 0 then Inr (s, ptr)
          else bindE (smalloc_debug s sz) (\<lambda>s. Inr (s, 0)))))"

definition scalloc :: "smalloc_state \<Rightarrow> nat \<Rightarrow> nat \<Rightarrow> (smalloc_state \<times> nat) res" where
  "scalloc s nmemb sz = smalloc s (nmemb * sz mod 2 ^ 64)"

text \<open>\<open>str\<close> are the characters before the terminating 0.\<close>

definition smalloc_strdup :: "smalloc_state \<Rightarrow> bytes \<Rightarrow> (smalloc_state \<times> nat) res" where
  "smalloc_strdup s str =
     bindE (smalloc s ((length str + 1) mod 2 ^ 64)) (\<lambda>(s, ptr).
       if ptr = 0 then Inr (s, 0)
       else case find_pool (mp s) ptr 0 of
         None \<Rightarrow> Inl Out_of_bounds
       | Some i \<Rightarrow> bindE (store_ptr (mp s ! i) ptr (str @ [0])) (\<lambda>pool.
           Inr (s\<lparr>mp := (mp s)[i := pool]\<rparr>, ptr)))"

end
