(* ===== verification/Smalloc_Safe.thy ===== *)
theory Smalloc_Safe
  imports Smalloc
begin

text \<open>
  Safety of the pool allocator: the bitmap operations against the set of blocks they touch, the search for
  a free run, and the invariant that ties the bitmap, the headers and the guard words in the area to the
  allocations that are live.
\<close>

section \<open>Runs of blocks\<close>

definition used :: "u32 list \<Rightarrow> nat \<Rightarrow> bool" where
  "used bm b \<longleftrightarrow> bit (bm ! (b div 32)) (b mod 32)"

text \<open>\<open>flipped v bm bm' R\<close>: the blocks of \<open>R\<close> were in state \<open>v\<close>, are now in the other, and nothing else changed.\<close>

definition flipped :: "bool \<Rightarrow> u32 list \<Rightarrow> u32 list \<Rightarrow> nat set \<Rightarrow> bool" where
  "flipped v bm bm' R \<longleftrightarrow> length bm' = length bm \<and> (\<forall>b \<in> R. used bm b = v) \<and>
     (\<forall>b < 32 * length bm. used bm' b = (if b \<in> R then \<not> v else used bm b))"

abbreviation run :: "nat \<Rightarrow> nat \<Rightarrow> nat \<Rightarrow> nat set" where
  "run pool_idx idx n \<equiv> {32 * pool_idx + idx..<32 * pool_idx + idx + n}"

definition chunk_mask :: "nat \<Rightarrow> nat \<Rightarrow> u32" where
  "chunk_mask t idx = push_bit idx (mask t)"

lemma bit_chunk_mask: "idx + t \<le> 32 \<Longrightarrow> bit (chunk_mask t idx) j \<longleftrightarrow> idx \<le> j \<and> j < idx + t"
  by (auto simp: chunk_mask_def bit_simps)

lemma blocks_mask_chunk:
  assumes "idx < 32" and "0 < t" and "idx + t \<le> 32"
  shows "blocks_mask t idx = Inr (chunk_mask t idx)"
proof (cases "t = 32")
  case True
  then have "idx = 0" using assms by simp
  moreover have "(- 1 :: u32) = mask 32" by (rule bit_word_eqI) (auto simp: bit_simps)
  ultimately show ?thesis using True by (simp add: blocks_mask_def chunk_mask_def)
next
  case False
  then show ?thesis using assms by (simp add: blocks_mask_def chunk_mask_def mask_eq_exp_minus_1)
qed

text \<open>One round of \<^verbatim>\<open>blocks_iter\<close> treats the part of the run in one word of the bitmap.\<close>

lemma blocks_iter_step:
  assumes "0 < n" and "n + 32 < 2 ^ 32" and "idx < 32" and "pool_idx < nr_blocks p"
    and "length (bitmap p) = nr_blocks p" and t: "t = min n (32 - idx)"
  shows "blocks_iter p pool_idx idx n f =
    bindE (f (bitmap p ! pool_idx) (chunk_mask t idx)) (\<lambda>(w, ok).
      let p = p\<lparr>bitmap := (bitmap p)[pool_idx := w]\<rparr>
      in if \<not> ok then Inr (p, False) else blocks_iter p (pool_idx + 1) 0 (n - t) f)"
proof -
  have small: "n mod 2 ^ 32 = n" "(n + idx) mod 2 ^ 32 = n + idx" using assms by simp_all
  have wrap: "(2 ^ 64 + 32 - idx) mod 2 ^ 32 = 32 - idx" if "idx \<le> 32" for idx :: nat
  proof -
    have "2 ^ 64 + 32 - idx = (32 - idx) + 2 ^ 32 * 2 ^ 32" using that by simp
    then show ?thesis by (simp only: mod_mult_self2) simp
  qed
  have chunk: "blocks_chunk n idx = (t, idx)"
    using assms(3) by (simp only: blocks_chunk_def small wrap Let_def) (simp add: t wrap)
  have m: "blocks_mask t idx = Inr (chunk_mask t idx)"
    by (rule blocks_mask_chunk) (use assms in auto)
  show ?thesis
    using assms(1,4,5) by (subst blocks_iter.simps) (simp add: chunk m)
qed

lemma chunk_div_mod:
  fixes j pool_idx :: nat
  assumes "j < 32"
  shows "(32 * pool_idx + j) div 32 = pool_idx" "(32 * pool_idx + j) mod 32 = j"
  using assms by simp_all

lemma run_chunk:
  assumes "t \<le> n" and "idx + t = 32 \<or> t = n"
  shows "run pool_idx idx n = run pool_idx idx t \<union> run (pool_idx + 1) 0 (n - t)"
  using assms by auto

lemma run_word:
  assumes "idx + t \<le> 32"
  shows "b \<in> run pool_idx idx t \<longleftrightarrow> b div 32 = pool_idx \<and> idx \<le> b mod 32 \<and> b mod 32 < idx + t"
proof
  assume b: "b \<in> run pool_idx idx t"
  define j where "j = b - 32 * pool_idx"
  have "b = 32 * pool_idx + j" "idx \<le> j" "j < idx + t" "j < 32" using b assms by (auto simp: j_def)
  then show "b div 32 = pool_idx \<and> idx \<le> b mod 32 \<and> b mod 32 < idx + t"
    by (simp add: chunk_div_mod)
next
  assume b: "b div 32 = pool_idx \<and> idx \<le> b mod 32 \<and> b mod 32 < idx + t"
  have "b = 32 * (b div 32) + b mod 32" by simp
  then show "b \<in> run pool_idx idx t" using b by (metis add.assoc atLeastLessThan_iff nat_add_left_cancel_le nat_add_left_cancel_less)
qed

lemma used_update_other: "b div 32 \<noteq> i \<Longrightarrow> used (bm[i := w]) b = used bm b"
  by (simp add: used_def)

lemma used_update_same: "b div 32 = i \<Longrightarrow> i < length bm \<Longrightarrow> used (bm[i := w]) b = bit w (b mod 32)"
  by (auto simp: used_def)

text \<open>\<^verbatim>\<open>blocks_free\<close>: the run lies in the bitmap and none of its blocks is in use.\<close>

lemma and_mask_zero_iff:
  assumes "idx + t \<le> 32" and "pool_idx < length bm"
  shows "bm ! pool_idx AND chunk_mask t idx = 0 \<longleftrightarrow> (\<forall>b \<in> run pool_idx idx t. \<not> used bm b)"
proof -
  have "bm ! pool_idx AND chunk_mask t idx = 0 \<longleftrightarrow> (\<forall>j. idx \<le> j \<and> j < idx + t \<longrightarrow> \<not> bit (bm ! pool_idx) j)"
    unfolding word_eq_zero_iff_bits bit_and_iff bit_chunk_mask [OF assms(1)] using assms(1)
    by (auto dest: less_le_trans)
  also have "\<dots> \<longleftrightarrow> (\<forall>b \<in> run pool_idx idx t. \<not> used bm b)"
  proof
    assume "\<forall>j. idx \<le> j \<and> j < idx + t \<longrightarrow> \<not> bit (bm ! pool_idx) j"
    then show "\<forall>b \<in> run pool_idx idx t. \<not> used bm b" using run_word [OF assms(1)] by (auto simp: used_def)
  next
    assume free: "\<forall>b \<in> run pool_idx idx t. \<not> used bm b"
    show "\<forall>j. idx \<le> j \<and> j < idx + t \<longrightarrow> \<not> bit (bm ! pool_idx) j"
    proof (intro allI impI)
      fix j
      assume j: "idx \<le> j \<and> j < idx + t"
      then have "j < 32" using assms(1) by simp
      then show "\<not> bit (bm ! pool_idx) j"
        using free [rule_format, of "32 * pool_idx + j"] j by (simp add: used_def chunk_div_mod)
    qed
  qed
  finally show ?thesis .
qed

lemma blocks_iter_cmp:
  assumes "length (bitmap p) = nr_blocks p" and "n + 32 < 2 ^ 32" and "idx < 32"
    and "32 * pool_idx + idx \<le> 32 * nr_blocks p"
  shows "blocks_iter p pool_idx idx n mask_cmp = Inr (p,
    32 * pool_idx + idx + n \<le> 32 * nr_blocks p \<and> (\<forall>b \<in> run pool_idx idx n. \<not> used (bitmap p) b))"
  using assms(2-)
proof (induction n arbitrary: pool_idx idx rule: less_induct)
  case (less n)
  show ?case
  proof (cases "n = 0 \<or> nr_blocks p \<le> pool_idx")
    case True
    then show ?thesis using less.prems by (subst blocks_iter.simps) auto
  next
    case False
    define t where "t = min n (32 - idx)"
    have t: "0 < t" "t \<le> n" "idx + t \<le> 32" "idx + t = 32 \<or> t = n" using False less.prems by (auto simp: t_def)
    have split: "run pool_idx idx n = run pool_idx idx t \<union> run (pool_idx + 1) 0 (n - t)"
      by (rule run_chunk) (use t in auto)
    let ?ok = "bitmap p ! pool_idx AND chunk_mask t idx = 0"
    have ok: "?ok \<longleftrightarrow> (\<forall>b \<in> run pool_idx idx t. \<not> used (bitmap p) b)"
      by (rule and_mask_zero_iff) (use t False assms(1) in auto)
    have same: "p\<lparr>bitmap := (bitmap p)[pool_idx := bitmap p ! pool_idx]\<rparr> = p" by simp
    have "blocks_iter p pool_idx idx n mask_cmp =
        (if \<not> ?ok then Inr (p, False) else blocks_iter p (pool_idx + 1) 0 (n - t) mask_cmp)"
      using blocks_iter_step [of n idx pool_idx p t mask_cmp] less.prems False assms(1) t_def
      by (simp add: mask_cmp_def)
    also have "blocks_iter p (pool_idx + 1) 0 (n - t) mask_cmp = Inr (p,
        32 * (pool_idx + 1) + (n - t) \<le> 32 * nr_blocks p \<and> (\<forall>b \<in> run (pool_idx + 1) 0 (n - t). \<not> used (bitmap p) b))"
      using less.IH [of "n - t" 0 "pool_idx + 1"] t less.prems False by simp
    finally have iter: "blocks_iter p pool_idx idx n mask_cmp = (if \<not> ?ok then Inr (p, False) else Inr (p,
        32 * (pool_idx + 1) + (n - t) \<le> 32 * nr_blocks p \<and> (\<forall>b \<in> run (pool_idx + 1) 0 (n - t). \<not> used (bitmap p) b)))" .
    have "32 * (pool_idx + 1) + (n - t) \<le> 32 * nr_blocks p \<longleftrightarrow> 32 * pool_idx + idx + n \<le> 32 * nr_blocks p"
    proof -
      have "32 * pool_idx + 32 \<le> 32 * nr_blocks p" using False by simp
      then show ?thesis using t by auto
    qed
    then show ?thesis unfolding iter split ball_Un ok by (simp only: if_split) auto
  qed
qed


text \<open>\<^verbatim>\<open>set_blocks\<close> and \<^verbatim>\<open>clear_blocks\<close> flip the blocks of a run whose blocks are all in the same state.\<close>

definition flips :: "bool \<Rightarrow> (u32 \<Rightarrow> u32 \<Rightarrow> (u32 \<times> bool) res) \<Rightarrow> bool" where
  "flips v f \<longleftrightarrow> (\<forall>w m. (\<forall>j. bit m j \<longrightarrow> bit w j = v) \<longrightarrow>
     (\<exists>w'. f w m = Inr (w', True) \<and> (\<forall>j. bit w' j = (if bit m j then \<not> v else bit w j))))"

lemma flips_mask_set: "flips False mask_set"
proof -
  have "\<exists>w'. mask_set w m = Inr (w', True) \<and> (\<forall>j. bit w' j = (if bit m j then \<not> False else bit w j))"
    if "\<forall>j. bit m j \<longrightarrow> bit w j = False" for w m
  proof -
    have "w AND m = 0" by (rule bit_word_eqI) (use that in \<open>auto simp: bit_simps\<close>)
    then show ?thesis by (auto simp: mask_set_def bit_simps)
  qed
  then show ?thesis unfolding flips_def by blast
qed

lemma flips_mask_clear: "flips True mask_clear"
proof -
  have "\<exists>w'. mask_clear w m = Inr (w', True) \<and> (\<forall>j. bit w' j = (if bit m j then \<not> True else bit w j))"
    if "\<forall>j. bit m j \<longrightarrow> bit w j = True" for w m
  proof -
    have "w AND m = m" by (rule bit_word_eqI) (use that in \<open>auto simp: bit_simps\<close>)
    then show ?thesis by (auto simp: mask_clear_def bit_simps dest: bit_imp_le_length)
  qed
  then show ?thesis unfolding flips_def by blast
qed

lemma blocks_iter_flip:
  assumes "flips v f"
  shows "length (bitmap p) = nr_blocks p \<Longrightarrow> n + 32 < 2 ^ 32 \<Longrightarrow> idx < 32 \<Longrightarrow>
    32 * pool_idx + idx + n \<le> 32 * nr_blocks p \<Longrightarrow> \<forall>b \<in> run pool_idx idx n. used (bitmap p) b = v \<Longrightarrow>
    \<exists>bm'. blocks_iter p pool_idx idx n f = Inr (p\<lparr>bitmap := bm'\<rparr>, True) \<and>
      flipped v (bitmap p) bm' (run pool_idx idx n)"
proof (induction n arbitrary: p pool_idx idx rule: less_induct)
  case (less n)
  note prems = less.prems
  show ?case
  proof (cases "n = 0")
    case True
    then have "blocks_iter p pool_idx idx n f = Inr (p\<lparr>bitmap := bitmap p\<rparr>, True)"
      by (subst blocks_iter.simps) simp
    then show ?thesis using True by (intro exI [of _ "bitmap p"]) (simp add: flipped_def)
  next
    case False
    define t where "t = min n (32 - idx)"
    have t: "0 < t" "t \<le> n" "idx + t \<le> 32" "idx + t = 32 \<or> t = n" using False prems by (auto simp: t_def)
    have pi: "pool_idx < nr_blocks p" using prems(4) False by simp
    have split: "run pool_idx idx n = run pool_idx idx t \<union> run (pool_idx + 1) 0 (n - t)"
      by (rule run_chunk) (use t in auto)
    let ?w = "bitmap p ! pool_idx" and ?m = "chunk_mask t idx"
    have "bit ?w j = v" if "bit ?m j" for j
    proof -
      have j: "idx \<le> j" "j < idx + t" "j < 32" using that t by (simp_all add: bit_chunk_mask)
      then have "32 * pool_idx + j \<in> run pool_idx idx n" using t by auto
      then have "used (bitmap p) (32 * pool_idx + j) = v" using prems(5) by blast
      then show ?thesis using j by (simp add: used_def chunk_div_mod)
    qed
    then obtain w' where w': "f ?w ?m = Inr (w', True)" "\<And>j. bit w' j = (if bit ?m j then \<not> v else bit ?w j)"
      using assms unfolding flips_def by blast
    define p' where "p' = p\<lparr>bitmap := (bitmap p)[pool_idx := w']\<rparr>"
    have step: "blocks_iter p pool_idx idx n f = blocks_iter p' (pool_idx + 1) 0 (n - t) f"
      using blocks_iter_step [of n idx pool_idx p t f] prems False pi t_def w'(1) by (simp add: p'_def)
    have first: "flipped v (bitmap p) (bitmap p') (run pool_idx idx t)"
    proof -
      have "used (bitmap p') b = (if b \<in> run pool_idx idx t then \<not> v else used (bitmap p) b)" for b
        unfolding run_word [OF t(3)]
        using pi prems(1) w'(2) [of "b mod 32"] bit_chunk_mask [OF t(3), of "b mod 32"]
        by (cases "b div 32 = pool_idx") (auto simp: p'_def used_update_other used_update_same used_def)
      then show ?thesis using prems(5) split by (auto simp: flipped_def p'_def)
    qed
    have "\<forall>b \<in> run (pool_idx + 1) 0 (n - t). used (bitmap p') b = v"
      using first prems split t by (auto simp: flipped_def)
    moreover have "32 * pool_idx + 32 \<le> 32 * nr_blocks p" using pi by simp
    ultimately have "\<exists>bm'. blocks_iter p' (pool_idx + 1) 0 (n - t) f = Inr (p'\<lparr>bitmap := bm'\<rparr>, True) \<and>
        flipped v (bitmap p') bm' (run (pool_idx + 1) 0 (n - t))"
      using prems t by (intro less.IH) (auto simp: p'_def)
    then obtain bm' where rest: "blocks_iter p' (pool_idx + 1) 0 (n - t) f = Inr (p'\<lparr>bitmap := bm'\<rparr>, True)"
      "flipped v (bitmap p') bm' (run (pool_idx + 1) 0 (n - t))" by blast
    have "flipped v (bitmap p) bm' (run pool_idx idx n)"
      unfolding split using first rest(2) t prems(5) by (auto simp: flipped_def split)
    then show ?thesis using step rest(1) by (auto simp: p'_def)
  qed
qed

section \<open>Finding a free run\<close>

lemma bit_scast_shift:
  fixes w :: u32
  assumes "k < 64" and "start < 32"
  shows "bit (scast (signed_drop_bit start w) :: u64) k \<longleftrightarrow> bit w (min (k + start) 31)"
proof -
  have len: "LENGTH(32) = 32" "32 - Suc 0 = 31" "(32::nat) - 1 = 31" by simp_all
  have "bit (scast (signed_drop_bit start w) :: u64) k \<longleftrightarrow> bit (signed_drop_bit start w) (min 31 k)"
    using assms(1) unfolding bit_signed_iff len possible_bit_word by simp
  also have "\<dots> \<longleftrightarrow> bit w (if 32 - start \<le> min 31 k \<and> min 31 k < 32 then 31 else start + min 31 k)"
    unfolding bit_signed_drop_bit_iff len ..
  also have "(if 32 - start \<le> min 31 k \<and> min 31 k < 32 then 31 else start + min 31 k) = min (k + start) 31"
    using assms(2) by auto
  finally show ?thesis .
qed

lemma find_next_zero_spec:
  assumes "w \<noteq> - 1" and "start < 32"
  shows "find_next_zero w start = Inr (if \<forall>j. start \<le> j \<and> j < 32 \<longrightarrow> bit w j then 63 + start
    else (LEAST j. start \<le> j \<and> \<not> bit w j))"
proof -
  define x where "x = (scast (signed_drop_bit start w) :: u64)"
  have x: "bit x k \<longleftrightarrow> bit w (min (k + start) 31)" if "k < 64" for k
    unfolding x_def by (rule bit_scast_shift [OF that assms(2)])
  have fz: "find_next_zero w start = Inr (ffz x + start)"
    using assms by (simp add: find_next_zero_def x_def)
  show ?thesis
  proof (cases "\<forall>j. start \<le> j \<and> j < 32 \<longrightarrow> bit w j")
    case True
    have "x = - 1" unfolding word_eq_minus_one_iff using x True assms(2) by auto
    then show ?thesis using True fz by (simp add: ffz_def ffs64_zero)
  next
    case False
    define z where "z = (LEAST j. start \<le> j \<and> \<not> bit w j)"
    obtain j where j: "start \<le> j" "j < 32" "\<not> bit w j" using False by blast
    have z: "start \<le> z" "\<not> bit w z" "z \<le> j"
      unfolding z_def using LeastI [of "\<lambda>j. start \<le> j \<and> \<not> bit w j" j] Least_le [of "\<lambda>j. start \<le> j \<and> \<not> bit w j" j] j
      by auto
    have least: "bit w i" if "start \<le> i" "i < z" for i
      using not_less_Least [of i "\<lambda>j. start \<le> j \<and> \<not> bit w j"] that by (auto simp: z_def)
    have "ffz x = z - start"
    proof (rule ffz_eqI)
      show "\<not> bit x (z - start)" using x [of "z - start"] z j(2) by (simp add: min_def split: if_splits)
      show "z - start < 64" using z j(2) by simp
      show "bit x i" if "i < z - start" for i
      proof -
        have i: "i + start < z" "i < 64" "min (i + start) 31 = i + start" using that z j(2) by auto
        then show ?thesis using x [of i] least [of "i + start"] by simp
      qed
    qed
    then show ?thesis unfolding if_not_P [OF False] using fz z(1) by (simp add: z_def [symmetric])
  qed
qed


text \<open>The geometry of a pool: small enough for the 32-bit arithmetic of the code.\<close>

definition pool_geom :: "pool \<Rightarrow> bool" where
  "pool_geom p \<longleftrightarrow> 0 < nr_blocks p \<and> nr_blocks p < 2 ^ 22 \<and> length (bitmap p) = nr_blocks p \<and>
     length (area p) = 1024 * nr_blocks p \<and> next_non_full p < nr_blocks p \<and>
     0 < map_base p \<and> 32 dvd map_base p \<and> map_base p + 2 ^ 32 \<le> 2 ^ 64"

text \<open>
  What the search returns: it stops at a position beyond the bitmap, or takes a run of free blocks, or
  trips over the undefined shift; the latter needs a run of at least two blocks.
\<close>

inductive search_result :: "pool \<Rightarrow> nat \<Rightarrow> (pool \<times> nat option) res \<Rightarrow> bool" for p n where
  none: "search_result p n (Inr (p, None))"
| found: "b + n \<le> 32 * nr_blocks p \<Longrightarrow> flipped False (bitmap p) bm' {b..<b + n} \<Longrightarrow>
    search_result p n (Inr (p\<lparr>bitmap := bm'\<rparr>, Some (32 * b)))"
| fault: "1 < n \<Longrightarrow> search_result p n (Inl Bad_shift)"

lemma skip_words_gt: "i + idx div 32 = skip_words i idx"
  by (induction i idx rule: skip_words.induct) (subst skip_words.simps, auto simp: le_div_geq)

lemma blocks_free_fault:
  assumes "63 \<le> idx" and "idx < 95" and "0 < n" and "n \<le> 2 ^ 27" and "i < nr_blocks p" "length (bitmap p) = nr_blocks p"
  shows "blocks_free p i idx n = Inl Bad_shift"
proof -
  have "n mod 2 ^ 32 = n" "(n + idx) mod 2 ^ 32 = n + idx" using assms by simp_all
  moreover have "(2 ^ 64 + 32 - idx) mod 2 ^ 32 = 2 ^ 32 + 32 - idx"
  proof -
    have "2 ^ 64 + 32 - idx = (2 ^ 32 + 32 - idx) + 2 ^ 32 * (2 ^ 32 - 1)" using assms(1,2) by simp
    moreover have "2 ^ 32 + 32 - idx < 2 ^ 32" using assms(1) by simp
    ultimately show ?thesis by (simp only: mod_mult_self2 mod_less)
  qed
  ultimately have "fst (blocks_chunk n idx) = 2 ^ 32 + 32 - idx" using assms(1,3)
    by (simp only: blocks_chunk_def Let_def) simp
  moreover have "2 ^ 32 + 32 - idx > 32" using assms(2) by simp
  ultimately have "\<exists>t k. blocks_chunk n idx = (t, k) \<and> 32 < t" by (metis prod.collapse)
  then obtain t k where "blocks_chunk n idx = (t, k)" "32 < t" by blast
  then have "blocks_iter p i idx n mask_cmp = Inl Bad_shift"
    using assms by (subst blocks_iter.simps) (simp add: blocks_mask_def)
  then show ?thesis by (simp add: blocks_free_def)
qed

lemma smalloc_search_result:
  assumes geom: "pool_geom p" and n: "0 < n" "n \<le> 2 ^ 27"
  shows "start < 32 \<Longrightarrow> n = 1 \<longrightarrow> start = 0 \<Longrightarrow> 32 * nr_blocks p - (32 * i + start) < fuel \<Longrightarrow>
    search_result p n (smalloc_search fuel p n i start)"
proof (induction fuel arbitrary: i start)
  case 0
  then show ?case by simp
next
  case (Suc fuel)
  note prems = Suc.prems
  have len: "length (bitmap p) = nr_blocks p" and nr: "nr_blocks p < 2 ^ 22" using geom by (simp_all add: pool_geom_def)
  let ?w = "bitmap p ! i"
  show ?case
  proof (cases "nr_blocks p \<le> i")
    case True
    then show ?thesis by (simp add: search_result.none)
  next
    case False
    then have i: "i < nr_blocks p" "i < length (bitmap p)" using len by simp_all
    show ?thesis
    proof (cases "?w = - 1")
      case True
      have "search_result p n (smalloc_search fuel p n (i + 1) 0)"
        by (rule Suc.IH) (use prems i in auto)
      then show ?thesis using True False i by simp
    next
      case w: False
      note fz = find_next_zero_spec [OF w prems(1)]
      show ?thesis
      proof (cases "\<forall>j. start \<le> j \<and> j < 32 \<longrightarrow> bit ?w j")
        case True
        have "start \<noteq> 0" using True w by (auto simp: word_eq_minus_one_iff)
        then have "1 < n" using prems(2) n(1) by (cases "n = 1") auto
        moreover have "blocks_free p i (63 + start) n = Inl Bad_shift"
          by (rule blocks_free_fault) (use prems(1) n i len in auto)
        ultimately show ?thesis using True False w i fz by (simp add: search_result.fault)
      next
        case zero: False
        define idx where "idx = (LEAST j. start \<le> j \<and> \<not> bit ?w j)"
        obtain j where j: "start \<le> j" "j < 32" "\<not> bit ?w j" using zero by blast
        have idx: "start \<le> idx" "\<not> bit ?w idx" "idx < 32"
          unfolding idx_def
          using LeastI [of "\<lambda>j. start \<le> j \<and> \<not> bit ?w j" j] Least_le [of "\<lambda>j. start \<le> j \<and> \<not> bit ?w j" j] j
          by auto
        let ?ok = "32 * i + idx + n \<le> 32 * nr_blocks p \<and> (\<forall>b \<in> run i idx n. \<not> used (bitmap p) b)"
        have "32 * i + 32 \<le> 32 * nr_blocks p" using i by simp
        then have free: "blocks_free p i idx n = Inr ?ok"
          using blocks_iter_cmp [OF len, of n idx i] idx n by (simp add: blocks_free_def)
        have search: "smalloc_search (Suc fuel) p n i start = (if \<not> ?ok
            then let idx = (idx + n) mod 2 ^ 32 in if idx < 32 then smalloc_search fuel p n i idx
              else smalloc_search fuel p n (skip_words i idx) 0
            else bindE (set_blocks p i idx n) (\<lambda>p. Inr (p, Some ((i * 1024 + idx * 32) mod 2 ^ 32))))"
          using zero False w i fz free unfolding idx_def [symmetric]
          by (simp only: smalloc_search.simps rdE_Inr bindE_simps if_False simp_thms split: if_split)
        show ?thesis
        proof (cases ?ok)
          case True
          obtain bm' where bm': "blocks_iter p i idx n mask_set = Inr (p\<lparr>bitmap := bm'\<rparr>, True)"
            "flipped False (bitmap p) bm' (run i idx n)"
            using blocks_iter_flip [OF flips_mask_set len, of n idx i] True idx n by auto
          have "i * 1024 + idx * 32 < 2 ^ 32" using i(1) nr idx(3) by simp
          then have "(i * 1024 + idx * 32) mod 2 ^ 32 = 32 * (32 * i + idx)" by simp
          then show ?thesis
            using True bm' search_result.found [of "32 * i + idx" n p bm'] search
            by (simp add: set_blocks_def)
        next
          case no: False
          have "n \<noteq> 1"
          proof
            assume "n = 1"
            then have "run i idx n = {32 * i + idx}" by auto
            moreover have "\<not> used (bitmap p) (32 * i + idx)" using idx by (simp add: used_def chunk_div_mod)
            moreover have "32 * i + idx + 1 \<le> 32 * nr_blocks p" using i(1) idx(3) by simp
            ultimately show False using no \<open>n = 1\<close> by simp
          qed
          have m: "(idx + n) mod 2 ^ 32 = idx + n" using idx(3) n(2) by simp
          show ?thesis
          proof (cases "idx + n < 32")
            case True
            have "search_result p n (smalloc_search fuel p n i (idx + n))"
              by (rule Suc.IH) (use True prems(3) idx n \<open>n \<noteq> 1\<close> i in auto)
            then show ?thesis using search no True by (simp only: m Let_def if_True simp_thms split: if_split)
          next
            case far: False
            have "i + 1 \<le> skip_words i (idx + n)" using far skip_words_gt [of i "idx + n"] by simp
            then have "search_result p n (smalloc_search fuel p n (skip_words i (idx + n)) 0)"
              using mult_le_mono2 [of "i + 1" "skip_words i (idx + n)" 32] prems(1,3) i
              by (intro Suc.IH) auto
            then show ?thesis using search no far by (simp only: m Let_def simp_thms split: if_split)
          qed
        qed
      qed
    qed
  qed
qed


lemma first_non_full_Some:
  "\<exists>w \<in> set ws. w \<noteq> - 1 \<Longrightarrow> \<exists>k. first_non_full ws j = Some k \<and> j \<le> k \<and> k < j + length ws \<and> ws ! (k - j) \<noteq> - 1"
proof (induction ws arbitrary: j)
  case (Cons w ws)
  show ?case
  proof (cases "w = - 1")
    case True
    then obtain k where "first_non_full ws (j + 1) = Some k" "j + 1 \<le> k" "k < j + 1 + length ws" "ws ! (k - (j + 1)) \<noteq> - 1"
      using Cons.IH [of "j + 1"] Cons.prems by auto
    moreover from this have "k - j = Suc (k - (j + 1))" by simp
    ultimately show ?thesis using True by simp
  qed simp
qed simp

lemma find_best_index_loop_Inr:
  assumes "length (bitmap p) = nr_blocks p" and "\<exists>w \<in> set (bitmap p). w \<noteq> - 1"
  shows "i < nr_blocks p \<Longrightarrow> \<exists>k < nr_blocks p. find_best_index_loop p i = Inr k \<and> bitmap p ! k \<noteq> - 1"
proof (induction "nr_blocks p - i" arbitrary: i rule: less_induct)
  case less
  show ?case
  proof (cases "bitmap p ! i = - 1")
    case True
    show ?thesis
    proof (cases "i + 1 = nr_blocks p")
      case last: True
      obtain k where "first_non_full (bitmap p) 0 = Some k" "k < length (bitmap p)" "bitmap p ! k \<noteq> - 1"
        using first_non_full_Some [OF assms(2), of 0] by auto
      then show ?thesis using assms(1) True last less.prems by (subst find_best_index_loop.simps) simp
    next
      case False
      then obtain k where "k < nr_blocks p" "find_best_index_loop p (i + 1) = Inr k" "bitmap p ! k \<noteq> - 1"
        using less.hyps [of "i + 1"] less.prems by (auto simp: diff_less_mono2)
      then show ?thesis using assms(1) True False less.prems by (subst find_best_index_loop.simps) simp
    qed
  next
    case False
    then show ?thesis using assms(1) less.prems by (subst find_best_index_loop.simps) simp
  qed
qed

section \<open>Counting free blocks\<close>

definition free_set :: "u32 list \<Rightarrow> nat set" where
  "free_set bm = {b. b < 32 * length bm \<and> \<not> used bm b}"

definition pool_ok :: "pool \<Rightarrow> bool" where
  "pool_ok p \<longleftrightarrow> pool_geom p \<and> free_blocks p = card (free_set (bitmap p))"

lemma finite_free_set [simp]: "finite (free_set bm)"
  by (rule finite_subset [of _ "{..<32 * length bm}"]) (auto simp: free_set_def)

lemma card_free_set_le: "card (free_set bm) \<le> 32 * length bm"
  using card_mono [of "{..<32 * length bm}" "free_set bm"] by (auto simp: free_set_def)

lemma card_flipped_set:
  assumes "flipped False bm bm' {b..<b + n}" and "b + n \<le> 32 * length bm"
  shows "card (free_set bm') = card (free_set bm) - n" and "n \<le> card (free_set bm)"
proof -
  have sub: "{b..<b + n} \<subseteq> free_set bm" using assms by (auto simp: flipped_def free_set_def)
  have "free_set bm' = free_set bm - {b..<b + n}"
    using assms by (auto simp: flipped_def free_set_def split: if_splits)
  then show "card (free_set bm') = card (free_set bm) - n" using sub by (simp add: card_Diff_subset)
  show "n \<le> card (free_set bm)" using card_mono [OF finite_free_set sub] by simp
qed

lemma card_flipped_clear:
  assumes "flipped True bm bm' {b..<b + n}" and "b + n \<le> 32 * length bm"
  shows "card (free_set bm') = card (free_set bm) + n"
proof -
  have "free_set bm' = free_set bm \<union> {b..<b + n}" and "free_set bm \<inter> {b..<b + n} = {}"
    using assms by (auto simp: flipped_def free_set_def split: if_splits)
  then show ?thesis by (simp add: card_Un_disjoint)
qed

lemma not_full_word:
  assumes "0 < card (free_set bm)"
  shows "\<exists>w \<in> set bm. w \<noteq> - 1"
proof -
  obtain b where b: "b < 32 * length bm" "\<not> used bm b" using assms by (auto simp: free_set_def card_gt_0_iff)
  have "b div 32 < length bm" using b(1) by (simp add: less_mult_imp_div_less mult.commute)
  moreover have "bm ! (b div 32) \<noteq> - 1" using b(2) by (auto simp: used_def)
  ultimately show ?thesis using nth_mem by blast
qed

lemma find_best_index_Inr:
  assumes "pool_ok p" and "0 < free_blocks p"
  shows "\<exists>k < nr_blocks p. find_best_index p = Inr k \<and> bitmap p ! k \<noteq> - 1"
proof -
  have "length (bitmap p) = nr_blocks p" "0 < card (free_set (bitmap p))" "next_non_full p < nr_blocks p"
    using assms by (auto simp: pool_ok_def pool_geom_def)
  then obtain k where "k < nr_blocks p" "find_best_index_loop p (next_non_full p) = Inr k" "bitmap p ! k \<noteq> - 1"
    using find_best_index_loop_Inr [OF _ not_full_word] by blast
  then show ?thesis using assms(2) by (simp add: find_best_index_def)
qed

text \<open>The three outcomes of \<^verbatim>\<open>__smalloc_pool\<close>.\<close>

inductive blocks_result :: "pool \<Rightarrow> nat \<Rightarrow> (pool \<times> nat) res \<Rightarrow> bool" for p n where
  null: "k < nr_blocks p \<Longrightarrow> blocks_result p n (Inr (p\<lparr>next_non_full := k\<rparr>, 0))"
| found: "k < nr_blocks p \<Longrightarrow> b + n \<le> 32 * nr_blocks p \<Longrightarrow> flipped False (bitmap p) bm' {b..<b + n} \<Longrightarrow>
    blocks_result p n
      (Inr (p\<lparr>next_non_full := k, bitmap := bm', free_blocks := free_blocks p - n\<rparr>, map_base p + 32 * b))"
| fault: "1 < n \<Longrightarrow> blocks_result p n (Inl Bad_shift)"

lemma smalloc_pool_blocks_result:
  assumes ok: "pool_ok p" and n: "0 < size_to_blocks sz"
  shows "blocks_result p (size_to_blocks sz) (smalloc_pool_blocks p sz)"
proof (cases "free_blocks p < size_to_blocks sz")
  case True
  have "p\<lparr>next_non_full := next_non_full p\<rparr> = p" by simp
  then show ?thesis
    using True ok blocks_result.null [of "next_non_full p" p "size_to_blocks sz"]
    by (simp add: smalloc_pool_blocks_def pool_ok_def pool_geom_def)
next
  case False
  let ?n = "size_to_blocks sz"
  obtain k where k: "k < nr_blocks p" "find_best_index p = Inr k"
    using find_best_index_Inr [OF ok] n False by auto
  let ?p = "p\<lparr>next_non_full := k\<rparr>"
  have geom: "pool_geom ?p" using ok k by (simp add: pool_ok_def pool_geom_def)
  have "?n \<le> 32 * nr_blocks p"
    using False ok card_free_set_le [of "bitmap p"] by (simp add: pool_ok_def pool_geom_def)
  then have small: "?n \<le> 2 ^ 27" using ok by (simp add: pool_ok_def pool_geom_def)
  define r where "r = smalloc_search (Suc (32 * nr_blocks ?p)) ?p ?n k 0"
  have def: "smalloc_pool_blocks p sz = bindE r (\<lambda>(pool, off). case off of
      None \<Rightarrow> Inr (pool, 0)
    | Some offset \<Rightarrow> Inr (pool\<lparr>free_blocks := free_blocks pool - ?n\<rparr>, map_base pool + offset))"
    using False k by (simp only: smalloc_pool_blocks_def Let_def bindE_simps if_False r_def)
  have "search_result ?p ?n r"
    unfolding r_def by (rule smalloc_search_result [OF geom n small]) (use k in auto)
  then show ?thesis
  proof cases
    case none
    then show ?thesis using k blocks_result.null [of k p ?n] by (simp add: def)
  next
    case (found b bm')
    then show ?thesis using k blocks_result.found [of k p b ?n bm'] by (simp add: def)
  next
    case fault
    then show ?thesis using k blocks_result.fault [of ?n p] by (simp add: def)
  qed
qed


section \<open>Bytes of the area\<close>

text \<open>\<open>holds mem at ds\<close>: the bytes \<open>ds\<close> stand at offset \<open>at\<close>.\<close>

definition holds :: "bytes \<Rightarrow> nat \<Rightarrow> bytes \<Rightarrow> bool" where
  "holds mem at ds \<longleftrightarrow> at + length ds \<le> length mem \<and> (\<forall>i < length ds. mem ! (at + i) = ds ! i)"

lemma holds_slice: "holds mem at ds \<Longrightarrow> take (length ds) (drop at mem) = ds"
  by (rule nth_equalityI) (auto simp: holds_def)

lemma loadE_holds:
  assumes "holds mem at (le_bytes n w)" and "8 * n = LENGTH('a)"
  shows "loadE n mem at = Inr (w :: 'a::len word)"
  using holds_slice [OF assms(1)] assms le_word_le_bytes [OF assms(2), of w]
  by (simp add: loadE_def holds_def)

lemma storeE_Inr:
  assumes "at + length ds \<le> length mem"
  shows "\<exists>mem'. storeE mem at ds = Inr mem' \<and> length mem' = length mem \<and> holds mem' at ds \<and>
    (\<forall>i < length mem. i < at \<or> at + length ds \<le> i \<longrightarrow> mem' ! i = mem ! i)"
  using assms by (auto simp: storeE_def holds_def nth_append)

lemma holds_other:
  assumes "holds mem at ds" and "length mem' = length mem"
    and "\<forall>i < length mem. i < a \<or> a + n \<le> i \<longrightarrow> mem' ! i = mem ! i"
    and "at + length ds \<le> a \<or> a + n \<le> at"
  shows "holds mem' at ds"
  using assms by (auto simp: holds_def)

text \<open>The size of an allocation: header, contents, guard word, rounded up to a multiple of 4.\<close>

lemma alloc_size_bounds:
  assumes "s < 2 ^ 32"
  shows "s + 20 \<le> size_to_alloc_size s" "size_to_alloc_size s \<le> s + 23" "4 dvd size_to_alloc_size s"
proof -
  have "size_to_alloc_size s = (s + 23) div 4 * 4"
    using assms by (simp add: size_to_alloc_size_def hdr_size_def)
  then show "s + 20 \<le> size_to_alloc_size s" "size_to_alloc_size s \<le> s + 23" "4 dvd size_to_alloc_size s"
    by presburger+
qed

abbreviation blocks_of :: "nat \<Rightarrow> nat" where
  "blocks_of s \<equiv> size_to_blocks (size_to_alloc_size s)"

lemma blocks_of_bounds:
  assumes "s < 2 ^ 32"
  shows "size_to_alloc_size s \<le> 32 * blocks_of s" "0 < blocks_of s" "1 < blocks_of s \<longleftrightarrow> 12 < s"
proof -
  obtain k where k: "size_to_alloc_size s = 4 * k" using alloc_size_bounds(3) [OF assms] by (rule dvdE)
  let ?b = "(4 * k + 31) div 32"
  have b: "size_to_blocks (4 * k) = ?b"
    using alloc_size_bounds(2) [OF assms] assms k by (simp add: size_to_blocks_def)
  have d: "32 * ?b \<le> 4 * k + 31" "4 * k < 32 * ?b + 1"
    using mult_div_mod_eq [of 32 "4 * k + 31"] mod_less_divisor [of 32 "4 * k + 31"] by linarith+
  have s: "s + 20 \<le> 4 * k" "4 * k \<le> s + 23" using alloc_size_bounds(1,2) [OF assms] k by simp_all
  show "size_to_alloc_size s \<le> 32 * blocks_of s" using d unfolding k b by linarith
  show "0 < blocks_of s" using d s unfolding k b by linarith
  have "12 < s \<longleftrightarrow> 8 < k" using s by linarith
  also have "\<dots> \<longleftrightarrow> 1 < ?b" using d by linarith
  finally show "1 < blocks_of s \<longleftrightarrow> 12 < s" unfolding k b by simp
qed

lemma blocks_of_two:
  assumes "12 < s" and "s \<le> 44"
  shows "blocks_of s = 2"
proof -
  have "s < 2 ^ 32" using assms(2) by simp
  then have "1 < blocks_of s" using blocks_of_bounds(3) assms(1) by blast
  moreover have "size_to_alloc_size s \<le> 67" "4 dvd size_to_alloc_size s"
    using alloc_size_bounds [OF \<open>s < 2 ^ 32\<close>] assms(2) by linarith+
  then obtain k where "size_to_alloc_size s = 4 * k" "k \<le> 16" by (auto elim!: dvdE)
  then have "blocks_of s \<le> 2" by (simp add: size_to_blocks_def)
  ultimately show ?thesis by simp
qed

definition guarded :: "bytes \<Rightarrow> nat \<Rightarrow> nat \<Rightarrow> bool" where
  "guarded mem off s \<longleftrightarrow> holds mem off (le_bytes 8 (of_nat (size_to_alloc_size s) :: u64)) \<and>
     holds mem (off + 8) (le_bytes 4 PRE_RED) \<and> holds mem (off + size_to_alloc_size s - 4) (le_bytes 4 POST_RED)"

lemma guarded_other:
  assumes "guarded mem off s" and "s < 2 ^ 32" and "length mem' = length mem"
    and "\<forall>i < length mem. i < a \<or> a + n \<le> i \<longrightarrow> mem' ! i = mem ! i"
    and "off + size_to_alloc_size s \<le> a \<or> a + n \<le> off \<or> off + 16 \<le> a \<and> a + n \<le> off + 16 + s"
  shows "guarded mem' off s"
  using assms(1) alloc_size_bounds(1) [OF assms(2)] assms(5) unfolding guarded_def
  by (auto intro!: holds_other [OF _ assms(3,4)])

section \<open>The invariant\<close>

text \<open>\<open>blk p ptr\<close>: the first block of the allocation behind \<open>ptr\<close>.\<close>

definition blk :: "pool \<Rightarrow> nat \<Rightarrow> nat" where
  "blk p ptr = (ptr - 16 - map_base p) div 32"

definition blocks :: "pool \<Rightarrow> nat \<Rightarrow> nat \<Rightarrow> nat set" where
  "blocks p ptr s = {blk p ptr..<blk p ptr + blocks_of s}"

definition alloc_ok :: "pool \<Rightarrow> nat \<Rightarrow> nat \<Rightarrow> bool" where
  "alloc_ok p ptr s \<longleftrightarrow> s < 2 ^ 32 \<and> ptr = map_base p + 32 * blk p ptr + 16 \<and>
     blk p ptr + blocks_of s \<le> 32 * nr_blocks p \<and> guarded (area p) (32 * blk p ptr) s"

definition heap_inv :: "pool \<Rightarrow> (nat \<rightharpoonup> nat) \<Rightarrow> bool" where
  "heap_inv p L \<longleftrightarrow> pool_ok p \<and> (\<forall>ptr s. L ptr = Some s \<longrightarrow> alloc_ok p ptr s) \<and>
     (\<forall>x y s t. L x = Some s \<longrightarrow> L y = Some t \<longrightarrow> x \<noteq> y \<longrightarrow> blocks p x s \<inter> blocks p y t = {}) \<and>
     (\<forall>b < 32 * nr_blocks p. used (bitmap p) b \<longleftrightarrow> (\<exists>ptr s. L ptr = Some s \<and> b \<in> blocks p ptr s))"


lemma blk_of: "blk p (map_base p + 32 * b + 16) = b"
  by (simp add: blk_def)

lemma blk_cong: "map_base p' = map_base p \<Longrightarrow> blk p' ptr = blk p ptr" "map_base p' = map_base p \<Longrightarrow> blocks p' ptr s = blocks p ptr s"
  by (simp_all add: blk_def blocks_def)

text \<open>The contents of different allocations do not overlap.\<close>

lemma heap_inv_disjoint:
  assumes "heap_inv p L" and "L x = Some s" and "L y = Some t" and "x \<noteq> y"
  shows "{x..<x + s} \<inter> {y..<y + t} = {}"
proof -
  have x: "alloc_ok p x s" "alloc_ok p y t" using assms by (auto simp: heap_inv_def)
  have d: "blocks p x s \<inter> blocks p y t = {}" using assms unfolding heap_inv_def by blast
  have "x + s \<le> map_base p + 32 * (blk p x + blocks_of s)" "y + t \<le> map_base p + 32 * (blk p y + blocks_of t)"
    using x alloc_size_bounds(1) [of s] alloc_size_bounds(1) [of t] blocks_of_bounds(1) [of s] blocks_of_bounds(1) [of t]
    by (auto simp: alloc_ok_def)
  moreover have "blk p x + blocks_of s \<le> blk p y \<or> blk p y + blocks_of t \<le> blk p x"
    using d blocks_of_bounds(2) [of s] blocks_of_bounds(2) [of t] x
    by (auto simp: blocks_def alloc_ok_def ivl_disj_int)
  moreover have "x = map_base p + 32 * blk p x + 16" "y = map_base p + 32 * blk p y + 16"
    using x by (simp_all add: alloc_ok_def)
  ultimately show ?thesis by auto
qed

lemma postred_ptr_eq:
  assumes "hdr + sz < 2 ^ 64" and "4 dvd hdr" and "4 dvd sz" and "4 \<le> sz"
  shows "postred_ptr hdr sz = hdr + sz - 4"
proof -
  obtain k where k: "hdr + sz = 4 * k" using dvd_add [OF assms(2,3)] by (auto simp: dvd_def)
  then have "0 < k" using assms(4) by simp
  then obtain j where j: "hdr + sz = 4 * j + 4" using k by (cases k) auto
  have "(hdr + sz + 2 ^ 64 - 4) mod 2 ^ 64 = 4 * j"
    using assms(1) by (simp only: j) simp
  moreover have "(4 * j + 3) mod 2 ^ 64 = 4 * j + 3" using assms(1) j by simp
  moreover have "(4 * j + 3) div 4 * 4 = 4 * j" by simp
  ultimately show ?thesis unfolding postred_ptr_def by (simp only: j)
qed

lemma guarded_loads:
  assumes "alloc_ok p ptr s" and "pool_ok p"
  shows "load_ptr 8 p (ptr - 16) = Inr (of_nat (size_to_alloc_size s) :: u64)"
    and "load_ptr 4 p (ptr - 16 + 8) = Inr PRE_RED"
    and "load_ptr 4 p (postred_ptr (ptr - 16) (size_to_alloc_size s)) = Inr POST_RED"
proof -
  let ?a = "size_to_alloc_size s" and ?o = "32 * blk p ptr"
  have s: "s < 2 ^ 32" and ptr: "ptr - 16 = map_base p + ?o" and g: "guarded (area p) ?o s"
    using assms(1) by (auto simp: alloc_ok_def)
  note a = alloc_size_bounds [OF s]
  show "load_ptr 8 p (ptr - 16) = Inr (of_nat ?a :: u64)"
    using loadE_holds [of "area p" ?o 8 "of_nat ?a :: u64"] g by (simp add: load_ptr_def ptr guarded_def)
  show "load_ptr 4 p (ptr - 16 + 8) = Inr PRE_RED"
    using loadE_holds [of "area p" "?o + 8" 4 PRE_RED] g by (simp add: load_ptr_def ptr guarded_def)
  have "?o + 32 * blocks_of s \<le> 1024 * nr_blocks p" using assms(1) by (simp add: alloc_ok_def)
  then have "?o + ?a \<le> 1024 * nr_blocks p" using blocks_of_bounds(1) [OF s] by simp
  then have "map_base p + ?o + ?a < 2 ^ 64" using assms(2) by (auto simp: pool_ok_def pool_geom_def)
  moreover have "4 dvd map_base p + ?o"
    using assms(2) dvd_trans [of 4 32 "map_base p"] by (auto simp: pool_ok_def pool_geom_def)
  ultimately have "postred_ptr (ptr - 16) ?a = map_base p + (?o + ?a - 4)"
    unfolding ptr using a by (subst postred_ptr_eq) auto
  then show "load_ptr 4 p (postred_ptr (ptr - 16) ?a) = Inr POST_RED"
    using loadE_holds [of "area p" "?o + ?a - 4" 4 POST_RED] g by (simp add: load_ptr_def guarded_def)
qed


section \<open>Freeing a live allocation\<close>

lemma clear_blocks_Inr:
  assumes "pool_geom p" and "b + n \<le> 32 * nr_blocks p" and "n \<le> 2 ^ 27" and "\<forall>x \<in> {b..<b + n}. used (bitmap p) x"
  shows "\<exists>bm'. clear_blocks p (b div 32) (b mod 32) n = Inr (p\<lparr>bitmap := bm'\<rparr>) \<and>
    flipped True (bitmap p) bm' {b..<b + n}"
proof -
  have b: "32 * (b div 32) + b mod 32 = b" by simp
  have "length (bitmap p) = nr_blocks p" using assms(1) by (simp add: pool_geom_def)
  then have "\<exists>bm'. blocks_iter p (b div 32) (b mod 32) n mask_clear = Inr (p\<lparr>bitmap := bm'\<rparr>, True) \<and>
      flipped True (bitmap p) bm' (run (b div 32) (b mod 32) n)"
    by (rule blocks_iter_flip [OF flips_mask_clear]) (use assms b in auto)
  then show ?thesis unfolding b by (auto simp: clear_blocks_def)
qed

lemma sfree_pool_live:
  assumes inv: "heap_inv p L" and live: "L ptr = Some s"
  shows "\<exists>p'. sfree_pool p ptr = Inr p' \<and> heap_inv p' (L(ptr := None)) \<and> map_base p' = map_base p \<and>
    nr_blocks p' = nr_blocks p \<and> area p' = area p"
proof -
  let ?a = "size_to_alloc_size s" and ?b = "blk p ptr" and ?n = "blocks_of s"
  have ok: "pool_ok p" and al: "alloc_ok p ptr s" using assms by (auto simp: heap_inv_def)
  then have geom: "pool_geom p" by (simp add: pool_ok_def)
  have s: "s < 2 ^ 32" and ptr: "ptr = map_base p + 32 * ?b + 16" and fits: "?b + ?n \<le> 32 * nr_blocks p"
    using al by (auto simp: alloc_ok_def)
  have nr: "nr_blocks p < 2 ^ 22" using geom by (simp add: pool_geom_def)
  have hdr: "(ptr + 2 ^ 64 - hdr_size) mod 2 ^ 64 = ptr - 16"
  proof -
    have "map_base p + 4294967296 \<le> 18446744073709551616" "nr_blocks p < 4194304"
      using geom by (simp_all add: pool_geom_def)
    then have "ptr - 16 < 18446744073709551616" using ptr fits blocks_of_bounds(2) [OF s] by linarith
    then have "ptr - 16 < 2 ^ 64" by simp
    moreover have "ptr + 2 ^ 64 - hdr_size = (ptr - 16) + 2 ^ 64" using ptr by (simp add: hdr_size_def)
    ultimately show ?thesis by (simp only: mod_add_self2 mod_less)
  qed
  have valid: "ptr_valid p (ptr - 16)"
  proof -
    have "map_base p \<le> ptr - 16" "ptr - 16 < map_base p + nr_blocks p * 1024"
      using ptr fits blocks_of_bounds(2) [OF s] by linarith+
    then show ?thesis using nr by (simp add: ptr_valid_def)
  qed
  have un: "unat (of_nat ?a :: u64) = ?a"
    using alloc_size_bounds(2) [OF s] s by (intro unat_of_nat64) simp
  note loads = guarded_loads [OF al ok]
  have red: "sfree_check_redzone p (ptr - 16) = Inr ()"
    by (simp only: sfree_check_redzone_def loads un bindE_simps assertE_True)
  have off: "(ptr - 16 - map_base p) div 1024 = ?b div 32" "(ptr - 16 - map_base p) mod 1024 div 32 = ?b mod 32"
  proof -
    have o: "ptr - 16 - map_base p = 32 * ?b" using ptr by simp
    have "32 * ?b div (32 * 32) = ?b div 32" by (rule div_mult_mult1) simp
    then show "(ptr - 16 - map_base p) div 1024 = ?b div 32" unfolding o by simp
    have "32 * ?b mod (32 * 32) = 32 * (?b mod 32)" by (rule mult_mod_right [symmetric])
    then show "(ptr - 16 - map_base p) mod 1024 div 32 = ?b mod 32" unfolding o by simp
  qed
  have used: "\<forall>x \<in> {?b..<?b + ?n}. used (bitmap p) x"
    using inv live fits unfolding heap_inv_def blocks_def by (metis atLeastLessThan_iff order_less_le_trans)
  have small: "?n \<le> 2 ^ 27" using fits nr by simp
  obtain bm' where bm': "clear_blocks p (?b div 32) (?b mod 32) ?n = Inr (p\<lparr>bitmap := bm'\<rparr>)"
    "flipped True (bitmap p) bm' {?b..<?b + ?n}"
    using clear_blocks_Inr [OF geom fits small used] by blast
  have len: "length (bitmap p) = nr_blocks p" using geom by (simp add: pool_geom_def)
  have card: "card (free_set bm') = card (free_set (bitmap p)) + ?n"
    by (rule card_flipped_clear [OF bm'(2)]) (use fits len in simp)
  define k where "k = (if ?b div 32 < next_non_full p then ?b div 32 else next_non_full p)"
  define p' where "p' = p\<lparr>bitmap := bm', next_non_full := k, free_blocks := free_blocks p + ?n\<rparr>"
  have len': "length bm' = nr_blocks p" using bm'(2) len by (simp add: flipped_def)
  have "free_blocks p + ?n < 2 ^ 64"
    using card card_free_set_le [of bm'] ok nr len' by (simp add: pool_ok_def)
  moreover have "ptr \<noteq> 0" using ptr by simp
  ultimately have res: "sfree_pool p ptr = Inr p'"
    unfolding sfree_pool_def hdr Let_def off by (simp add: valid red loads un bm' p'_def k_def)
  have geom': "pool_geom p'" using geom len' by (auto simp: pool_geom_def p'_def k_def)
  have ok': "pool_ok p'" using geom' ok card by (simp add: pool_ok_def p'_def)
  have base: "map_base p' = map_base p" "nr_blocks p' = nr_blocks p" "area p' = area p" by (simp_all add: p'_def)
  have bl: "blocks p' x t = blocks p x t" "blk p' x = blk p x" for x t by (rule blk_cong [OF base(1)])+
  have "used bm' b \<longleftrightarrow> (\<exists>x t. (L(ptr := None)) x = Some t \<and> b \<in> blocks p x t)" if b: "b < 32 * nr_blocks p" for b
  proof -
    have "used bm' b \<longleftrightarrow> b \<notin> blocks p ptr s \<and> used (bitmap p) b"
      using bm'(2) b len by (auto simp: flipped_def blocks_def)
    also have "\<dots> \<longleftrightarrow> (\<exists>x t. x \<noteq> ptr \<and> L x = Some t \<and> b \<in> blocks p x t)"
      using inv live b unfolding heap_inv_def by (metis disjoint_iff option.inject)
    finally show ?thesis by auto
  qed
  then have "heap_inv p' (L(ptr := None))"
    using inv ok' unfolding heap_inv_def alloc_ok_def bl base by (auto simp: p'_def)
  then show ?thesis using res base by blast
qed


section \<open>Allocating\<close>

lemma store_ptr_Inr:
  assumes "off + length ds \<le> length (area p)" and "ptr = map_base p + off"
  shows "\<exists>mem'. store_ptr p ptr ds = Inr (p\<lparr>area := mem'\<rparr>) \<and> length mem' = length (area p) \<and> holds mem' off ds \<and>
    (\<forall>i < length (area p). i < off \<or> off + length ds \<le> i \<longrightarrow> mem' ! i = area p ! i)"
  using storeE_Inr [OF assms(1)] assms(2) by (auto simp: store_ptr_def)

text \<open>Writing the header, the guard words and zeros touches only the blocks of the allocation.\<close>

lemma init_alloc:
  assumes geom: "pool_geom p" and s: "s < 2 ^ 32" and fits: "32 * b + size_to_alloc_size s \<le> length (area p)"
    and ptr: "ptr = map_base p + 32 * b"
  shows "\<exists>mem'. bindE (store_ptr p ptr (le_bytes 8 (of_nat (size_to_alloc_size s) :: u64))) (\<lambda>pool.
          bindE (fill_redzone pool ptr) (\<lambda>pool.
          bindE (store_ptr pool (ptr + hdr_size) (replicate s 0)) (\<lambda>pool.
          Inr (pool, ptr + hdr_size)))) = Inr (p\<lparr>area := mem'\<rparr>, ptr + 16) \<and>
      length mem' = length (area p) \<and> guarded mem' (32 * b) s \<and> holds mem' (32 * b + 16) (replicate s 0) \<and>
      (\<forall>i < length (area p). i < 32 * b \<or> 32 * b + size_to_alloc_size s \<le> i \<longrightarrow> mem' ! i = area p ! i)"
proof -
  let ?a = "size_to_alloc_size s" and ?o = "32 * b"
  note a = alloc_size_bounds [OF s]
  have mb: "map_base p + 4294967296 \<le> 18446744073709551616" "4 dvd map_base p" "length (area p) < 4294967296"
    using geom dvd_trans [of 4 32 "map_base p"] by (auto simp: pool_geom_def)
  have un: "unat (of_nat ?a :: u64) = ?a" using a(2) s by (intro unat_of_nat64) simp
  have post: "postred_ptr ptr ?a = map_base p + (?o + ?a - 4)"
    unfolding ptr using a fits mb by (subst postred_ptr_eq) auto
  obtain m1 where m1: "store_ptr p ptr (le_bytes 8 (of_nat ?a :: u64)) = Inr (p\<lparr>area := m1\<rparr>)" "length m1 = length (area p)"
    "holds m1 ?o (le_bytes 8 (of_nat ?a :: u64))"
    "\<forall>i < length (area p). i < ?o \<or> ?o + 8 \<le> i \<longrightarrow> m1 ! i = area p ! i"
    using store_ptr_Inr [of ?o "le_bytes 8 (of_nat ?a :: u64)" p ptr] fits a(1) ptr by auto
  have ld: "load_ptr 8 (p\<lparr>area := m1\<rparr>) ptr = Inr (of_nat ?a :: u64)"
    using loadE_holds [OF m1(3)] by (simp add: load_ptr_def ptr)
  obtain m2 where m2: "store_ptr (p\<lparr>area := m1\<rparr>) (ptr + 8) (le_bytes 4 PRE_RED) = Inr (p\<lparr>area := m2\<rparr>)" "length m2 = length (area p)"
    "holds m2 (?o + 8) (le_bytes 4 PRE_RED)" "\<forall>i < length m1. i < ?o + 8 \<or> ?o + 8 + 4 \<le> i \<longrightarrow> m2 ! i = m1 ! i"
    using store_ptr_Inr [of "?o + 8" "le_bytes 4 PRE_RED" "p\<lparr>area := m1\<rparr>" "ptr + 8"] fits a(1) ptr m1(2) by auto
  obtain m3 where m3: "store_ptr (p\<lparr>area := m2\<rparr>) (map_base p + (?o + ?a - 4)) (le_bytes 4 POST_RED) = Inr (p\<lparr>area := m3\<rparr>)"
    "length m3 = length (area p)" "holds m3 (?o + ?a - 4) (le_bytes 4 POST_RED)"
    "\<forall>i < length m2. i < ?o + ?a - 4 \<or> ?o + ?a - 4 + 4 \<le> i \<longrightarrow> m3 ! i = m2 ! i"
    using store_ptr_Inr [of "?o + ?a - 4" "le_bytes 4 POST_RED" "p\<lparr>area := m2\<rparr>" "map_base p + (?o + ?a - 4)"]
      fits a(1) m2(2) by auto
  have fill: "fill_redzone (p\<lparr>area := m1\<rparr>) ptr = Inr (p\<lparr>area := m3\<rparr>)"
    by (simp only: fill_redzone_def ld un post m2(1) m3(1) bindE_simps)
  obtain m4 where m4: "store_ptr (p\<lparr>area := m3\<rparr>) (ptr + 16) (replicate s 0) = Inr (p\<lparr>area := m4\<rparr>)"
    "length m4 = length (area p)" "holds m4 (?o + 16) (replicate s 0)"
    "\<forall>i < length m3. i < ?o + 16 \<or> ?o + 16 + s \<le> i \<longrightarrow> m4 ! i = m3 ! i"
    using store_ptr_Inr [of "?o + 16" "replicate s 0" "p\<lparr>area := m3\<rparr>" "ptr + 16"] fits a(1) ptr m3(2) by auto
  have "holds m3 ?o (le_bytes 8 (of_nat ?a :: u64))"
    by (rule holds_other [OF _ _ m3(4)], rule holds_other [OF m1(3) _ m2(4)]) (use a(1) m1(2) m2(2) m3(2) in auto)
  moreover have "holds m3 (?o + 8) (le_bytes 4 PRE_RED)"
    by (rule holds_other [OF m2(3) _ m3(4)]) (use a(1) m2(2) m3(2) in auto)
  ultimately have "guarded m3 ?o s" using m3(3) by (simp add: guarded_def)
  then have "guarded m4 ?o s" by (rule guarded_other [OF _ s _ m4(4)]) (use m3(2) m4(2) in auto)
  moreover have "\<forall>i < length (area p). i < ?o \<or> ?o + ?a \<le> i \<longrightarrow> m4 ! i = area p ! i"
    using m1(2,4) m2(2,4) m3(2,4) m4(2,4) a(1) by auto
  ultimately show ?thesis using m4(2,3)
    by (intro exI [of _ m4]) (simp only: m1(1) fill m4(1) hdr_size_def bindE_simps simp_thms)
qed

text \<open>
  The outcomes of \<^verbatim>\<open>smalloc_pool\<close>: no memory, a new allocation that is zeroed and leaves the contents of
  the others alone, or the undefined shift, which needs a request of more than 12 bytes.
\<close>

inductive alloc_result :: "pool \<Rightarrow> (nat \<rightharpoonup> nat) \<Rightarrow> nat \<Rightarrow> (pool \<times> nat) res \<Rightarrow> bool" for p L s where
  null: "heap_inv p' L \<Longrightarrow> map_base p' = map_base p \<Longrightarrow> nr_blocks p' = nr_blocks p \<Longrightarrow> area p' = area p \<Longrightarrow>
    free_blocks p' = free_blocks p \<Longrightarrow> alloc_result p L s (Inr (p', 0))"
| new: "0 < ptr \<Longrightarrow> L ptr = None \<Longrightarrow> heap_inv p' (L(ptr \<mapsto> s)) \<Longrightarrow> map_base p' = map_base p \<Longrightarrow>
    nr_blocks p' = nr_blocks p \<Longrightarrow> holds (area p') (ptr - map_base p) (replicate s 0) \<Longrightarrow>
    (\<forall>x t. L x = Some t \<longrightarrow> (\<forall>i < t. area p' ! (x - map_base p + i) = area p ! (x - map_base p + i))) \<Longrightarrow>
    alloc_result p L s (Inr (p', ptr))"
| fault: "12 < s \<Longrightarrow> alloc_result p L s (Inl Bad_shift)"


lemma smalloc_pool_result:
  assumes inv: "heap_inv p L" and s: "s < 2 ^ 32"
  shows "alloc_result p L s (smalloc_pool p s)"
proof -
  let ?a = "size_to_alloc_size s" and ?n = "blocks_of s"
  have ok: "pool_ok p" and geom: "pool_geom p" using inv by (simp_all add: heap_inv_def pool_ok_def)
  have len: "length (bitmap p) = nr_blocks p" "length (area p) = 1024 * nr_blocks p" using geom by (simp_all add: pool_geom_def)
  note n = blocks_of_bounds [OF s]
  show ?thesis
    using smalloc_pool_blocks_result [OF ok n(2)]
  proof cases
    case (null k)
    have "heap_inv (p\<lparr>next_non_full := k\<rparr>) L"
      using inv null(2) unfolding heap_inv_def alloc_ok_def pool_ok_def pool_geom_def
      by (simp add: blk_def blocks_def)
    then show ?thesis using null(1) alloc_result.null [of "p\<lparr>next_non_full := k\<rparr>" L p s]
      by (simp add: smalloc_pool_def)
  next
    case fault
    then show ?thesis using n(3) by (simp add: smalloc_pool_def alloc_result.fault)
  next
    case (found k b bm')
    define q where "q = p\<lparr>next_non_full := k, bitmap := bm', free_blocks := free_blocks p - ?n\<rparr>"
    have len': "length bm' = nr_blocks p" using found(4) len by (simp add: flipped_def)
    have okq: "pool_ok q"
      using ok geom found(2) len' card_flipped_set(1) [OF found(4)] found(3) len
      by (simp add: pool_ok_def pool_geom_def q_def)
    have fits: "32 * b + ?a \<le> length (area q)" using found(3) n(1) len(2) by (simp add: q_def)
    have geomq: "pool_geom q" using okq by (simp add: pool_ok_def)
    obtain mem' where mem': "bindE (store_ptr q (map_base p + 32 * b) (le_bytes 8 (of_nat ?a :: u64))) (\<lambda>pool.
          bindE (fill_redzone pool (map_base p + 32 * b)) (\<lambda>pool.
          bindE (store_ptr pool (map_base p + 32 * b + hdr_size) (replicate s 0)) (\<lambda>pool.
          Inr (pool, map_base p + 32 * b + hdr_size)))) = Inr (q\<lparr>area := mem'\<rparr>, map_base p + 32 * b + 16)"
      "length mem' = length (area q)" "guarded mem' (32 * b) s" "holds mem' (32 * b + 16) (replicate s 0)"
      "\<forall>i < length (area q). i < 32 * b \<or> 32 * b + ?a \<le> i \<longrightarrow> mem' ! i = area q ! i"
      using init_alloc [OF geomq s fits refl] by (auto simp: q_def)
    define p' where "p' = q\<lparr>area := mem'\<rparr>"
    define ptr where "ptr = map_base p + 32 * b + 16"
    have mb: "0 < map_base p" using geom by (simp add: pool_geom_def)
    have res: "smalloc_pool p s = Inr (p', ptr)"
      using found(1) mem'(1) mb by (simp add: smalloc_pool_def q_def p'_def ptr_def)
    have base: "map_base p' = map_base p" "nr_blocks p' = nr_blocks p" by (simp_all add: p'_def q_def)
    have bl: "blocks p' x t = blocks p x t" "blk p' x = blk p x" for x t by (rule blk_cong [OF base(1)])+
    have blk: "blk p ptr = b" by (simp add: blk_of ptr_def)
    have new: "b' \<notin> {b..<b + ?n}" if "L x = Some t" "b' \<in> blocks p x t" for x t b'
    proof
      assume b': "b' \<in> {b..<b + ?n}"
      then have "\<not> used (bitmap p) b'" using found(4) by (auto simp: flipped_def)
      moreover have "b' < 32 * nr_blocks p" using b' found(3) by simp
      ultimately show False using inv that unfolding heap_inv_def by blast
    qed
    have apart: "blk p x + blocks_of t \<le> b \<or> b + ?n \<le> blk p x" if "L x = Some t" for x t
    proof -
      have "t < 2 ^ 32" using inv that by (auto simp: heap_inv_def alloc_ok_def)
      then have "0 < blocks_of t" by (rule blocks_of_bounds)
      moreover have "blocks p x t \<inter> {b..<b + ?n} = {}" using new [OF that] by blast
      ultimately show ?thesis using n(2) by (auto simp: blocks_def ivl_disj_int)
    qed
    have fresh: "L ptr = None"
    proof (rule ccontr)
      assume "L ptr \<noteq> None"
      then obtain t where t: "L ptr = Some t" by blast
      then have "t < 2 ^ 32" using inv by (auto simp: heap_inv_def alloc_ok_def)
      then have "0 < blocks_of t" by (rule blocks_of_bounds)
      then show False using apart [OF t] blk n(2) by simp
    qed
    have same: "mem' ! i = area p ! i"
      if "L x = Some t" "32 * blk p x \<le> i" "i < 32 * (blk p x + blocks_of t)" "i < length (area p)" for x t i
      using apart [OF that(1)] that(2-) n(1) mem'(5) by (auto simp: q_def)
    have old: "alloc_ok p' x t" if "L x = Some t" for x t
    proof -
      have al: "alloc_ok p x t" using inv that by (auto simp: heap_inv_def)
      then have t: "t < 2 ^ 32" by (simp add: alloc_ok_def)
      have "guarded mem' (32 * blk p x) t"
        using al apart [OF that] n(1) blocks_of_bounds(1) [OF t] mem'(2,5)
        by (intro guarded_other [of "area p" _ t mem' "32 * b" ?a]) (auto simp: alloc_ok_def q_def)
      then show ?thesis using al by (simp add: alloc_ok_def bl base) (simp add: p'_def)
    qed
    have cur: "alloc_ok p' ptr s"
      using s found(3) mem'(3) unfolding alloc_ok_def bl blk base by (simp add: ptr_def p'_def)
    have blocks_ptr: "blocks p ptr s = {b..<b + ?n}" by (simp add: blocks_def blk)
    have "pool_ok p'" using okq mem'(2) by (simp add: pool_ok_def pool_geom_def p'_def)
    moreover have "used (bitmap p') b' \<longleftrightarrow> (\<exists>x t. (L(ptr \<mapsto> s)) x = Some t \<and> b' \<in> blocks p x t)"
      if "b' < 32 * nr_blocks p" for b'
    proof -
      have "used (bitmap p') b' \<longleftrightarrow> b' \<in> blocks p ptr s \<or> used (bitmap p) b'"
        using found(4) that len by (auto simp: flipped_def p'_def q_def blocks_ptr)
      also have "\<dots> \<longleftrightarrow> b' \<in> blocks p ptr s \<or> (\<exists>x t. L x = Some t \<and> b' \<in> blocks p x t)"
        using inv that unfolding heap_inv_def by blast
      also have "\<dots> \<longleftrightarrow> (\<exists>x t. (L(ptr \<mapsto> s)) x = Some t \<and> b' \<in> blocks p x t)"
        using fresh by (metis fun_upd_apply option.distinct(1) option.inject)
      finally show ?thesis .
    qed
    moreover have "blocks p x u \<inter> blocks p y v = {}"
      if "(L(ptr \<mapsto> s)) x = Some u" "(L(ptr \<mapsto> s)) y = Some v" "x \<noteq> y" for x y u v
    proof (cases "x = ptr \<or> y = ptr")
      case True
      then show ?thesis using that new blocks_ptr by (auto split: if_splits)
    next
      case False
      then show ?thesis using that inv by (auto simp: heap_inv_def)
    qed
    ultimately have "heap_inv p' (L(ptr \<mapsto> s))"
      unfolding heap_inv_def bl base using old cur by (auto split: if_splits)
    moreover have "holds (area p') (ptr - map_base p) (replicate s 0)"
      using mem'(4) by (simp add: p'_def ptr_def)
    moreover have "\<forall>x t. L x = Some t \<longrightarrow> (\<forall>i < t. area p' ! (x - map_base p + i) = area p ! (x - map_base p + i))"
    proof (intro allI impI)
      fix x t i
      assume x: "L x = Some t" "i < t"
      then have al: "alloc_ok p x t" using inv by (auto simp: heap_inv_def)
      then have xx: "x - map_base p = 32 * blk p x + 16" and t: "t < 2 ^ 32" and ft: "blk p x + blocks_of t \<le> 32 * nr_blocks p"
        by (auto simp: alloc_ok_def)
      have "32 * blk p x + 16 + i < 32 * (blk p x + blocks_of t)"
        using x(2) alloc_size_bounds(1) [OF t] blocks_of_bounds(1) [OF t] by simp
      then show "area p' ! (x - map_base p + i) = area p ! (x - map_base p + i)"
        using same [OF x(1), of "32 * blk p x + 16 + i"] ft len(2) unfolding xx by (simp add: p'_def)
    qed
    ultimately show ?thesis
      unfolding res using fresh mb base by (intro alloc_result.new) (simp_all add: ptr_def)
  qed
qed

end
