(* ===== verification/Smalloc_Heap.thy ===== *)
theory Smalloc_Heap
  imports Smalloc_Safe
begin

text \<open>
  The contract of an allocator as a locale, interpreted for one pool and for the set of pools behind
  \<^verbatim>\<open>smalloc\<close> and \<^verbatim>\<open>sfree\<close>, and what follows for clients that only free what they were given.
\<close>

section \<open>The contract\<close>

text \<open>The requests of a client; a \<open>Free\<close> of a pointer that is not live is not issued.\<close>

datatype request = Alloc nat | Free nat

fun serve :: "('h \<Rightarrow> nat \<Rightarrow> ('h \<times> nat) res) \<Rightarrow> ('h \<Rightarrow> nat \<Rightarrow> 'h res) \<Rightarrow> request list \<Rightarrow> 'h \<times> (nat \<rightharpoonup> nat) \<Rightarrow>
    ('h \<times> (nat \<rightharpoonup> nat)) res" where
  "serve alloc dealloc [] (h, L) = Inr (h, L)"
| "serve alloc dealloc (Alloc sz # rs) (h, L) =
     bindE (alloc h sz) (\<lambda>(h, ptr). serve alloc dealloc rs (h, if ptr = 0 then L else L(ptr \<mapsto> sz)))"
| "serve alloc dealloc (Free ptr # rs) (h, L) =
     (if L ptr = None then serve alloc dealloc rs (h, L)
      else bindE (dealloc h ptr) (\<lambda>h. serve alloc dealloc rs (h, L(ptr := None))))"

text \<open>
  The contract: an allocation fails cleanly, or returns a pointer that is not live and makes it live, or
  stops with the fault that requests of more than 12 bytes can run into; freeing a live pointer always
  succeeds; the contents of live allocations are disjoint.
\<close>

locale allocator =
  fixes inv :: "'h \<Rightarrow> (nat \<rightharpoonup> nat) \<Rightarrow> bool"
    and alloc :: "'h \<Rightarrow> nat \<Rightarrow> ('h \<times> nat) res"
    and dealloc :: "'h \<Rightarrow> nat \<Rightarrow> 'h res"
  assumes alloc_cases: "inv h L \<Longrightarrow> sz < 2 ^ 32 \<Longrightarrow>
      (12 < sz \<and> alloc h sz = Inl Bad_shift) \<or> (\<exists>h'. alloc h sz = Inr (h', 0) \<and> inv h' L) \<or>
      (\<exists>h' ptr. alloc h sz = Inr (h', ptr) \<and> 0 < ptr \<and> L ptr = None \<and> inv h' (L(ptr \<mapsto> sz)))"
    and dealloc_live: "inv h L \<Longrightarrow> L ptr = Some sz \<Longrightarrow> \<exists>h'. dealloc h ptr = Inr h' \<and> inv h' (L(ptr := None))"
    and regions_disjoint: "inv h L \<Longrightarrow> L x = Some s \<Longrightarrow> L y = Some t \<Longrightarrow> x \<noteq> y \<Longrightarrow>
      {x..<x + s} \<inter> {y..<y + t} = {}"
begin

lemma serve_safe:
  assumes "inv h L" and "\<forall>sz. Alloc sz \<in> set rs \<longrightarrow> sz < 2 ^ 32"
  shows "(\<exists>sz. Alloc sz \<in> set rs \<and> 12 < sz) \<and> serve alloc dealloc rs (h, L) = Inl Bad_shift \<or>
    (\<exists>h' L'. serve alloc dealloc rs (h, L) = Inr (h', L') \<and> inv h' L')"
  using assms
proof (induction rs arbitrary: h L)
  case (Cons r rs)
  show ?case
  proof (cases r)
    case (Alloc sz)
    have "sz < 2 ^ 32" using Cons.prems(2) Alloc by simp
    from alloc_cases [OF Cons.prems(1) this] consider
        "12 < sz" "alloc h sz = Inl Bad_shift"
      | h' where "alloc h sz = Inr (h', 0)" "inv h' L"
      | h' ptr where "alloc h sz = Inr (h', ptr)" "0 < ptr" "inv h' (L(ptr \<mapsto> sz))" by blast
    then show ?thesis
    proof cases
      case 1
      then show ?thesis using Alloc by auto
    next
      case (2 h')
      then show ?thesis using Cons.IH [OF 2(2)] Cons.prems(2) Alloc by auto
    next
      case (3 h' ptr)
      then have "serve alloc dealloc (r # rs) (h, L) = serve alloc dealloc rs (h', L(ptr \<mapsto> sz))"
        using Alloc by simp
      then show ?thesis using Cons.IH [OF 3(3)] Cons.prems(2) by (simp del: fun_upd_apply) blast
    qed
  next
    case (Free ptr)
    show ?thesis
    proof (cases "L ptr")
      case None
      then show ?thesis using Cons Free by auto
    next
      case (Some sz)
      obtain h' where h': "dealloc h ptr = Inr h'" "inv h' (L(ptr := None))"
        using dealloc_live [OF Cons.prems(1) Some] by blast
      then have "serve alloc dealloc (r # rs) (h, L) = serve alloc dealloc rs (h', L(ptr := None))"
        using Free Some by simp
      then show ?thesis using Cons.IH [OF h'(2)] Cons.prems(2) by (simp del: fun_upd_apply) blast
    qed
  qed
qed simp

lemma serve_disjoint:
  assumes "inv h L" and "\<forall>sz. Alloc sz \<in> set rs \<longrightarrow> sz < 2 ^ 32"
    and "serve alloc dealloc rs (h, L) = Inr (h', L')" and "L' x = Some s" and "L' y = Some t" and "x \<noteq> y"
  shows "{x..<x + s} \<inter> {y..<y + t} = {}"
proof -
  have "inv h' L'" using serve_safe [OF assms(1,2)] assms(3) by auto
  then show ?thesis using assms(4-) by (rule regions_disjoint)
qed

end

section \<open>One pool\<close>

interpretation pool: allocator heap_inv smalloc_pool sfree_pool
proof
  fix p L and sz :: nat
  assume "heap_inv p L" "sz < 2 ^ 32"
  from smalloc_pool_result [OF this]
  show "(12 < sz \<and> smalloc_pool p sz = Inl Bad_shift) \<or> (\<exists>h'. smalloc_pool p sz = Inr (h', 0) \<and> heap_inv h' L) \<or>
      (\<exists>h' ptr. smalloc_pool p sz = Inr (h', ptr) \<and> 0 < ptr \<and> L ptr = None \<and> heap_inv h' (L(ptr \<mapsto> sz)))"
    by cases auto
next
  fix p L ptr sz
  assume "heap_inv p L" "L ptr = Some sz"
  then show "\<exists>h'. sfree_pool p ptr = Inr h' \<and> heap_inv h' (L(ptr := None))"
    using sfree_pool_live by blast
next
  fix p L x s y t
  assume "heap_inv p L" "L x = Some s" "L y = Some t" "x \<noteq> y"
  then show "{x..<x + s} \<inter> {y..<y + t} = {}" by (rule heap_inv_disjoint)
qed

section \<open>The set of pools\<close>

definition pool_range :: "pool \<Rightarrow> nat set" where
  "pool_range p = {map_base p..<map_base p + 1024 * nr_blocks p}"

text \<open>Every pool satisfies its invariant for the live pointers into it, and the pools do not overlap.\<close>

definition pools_inv :: "smalloc_state \<Rightarrow> (nat \<rightharpoonup> nat) \<Rightarrow> bool" where
  "pools_inv st L \<longleftrightarrow>
     (\<forall>i < length (mp st). heap_inv (mp st ! i) (L |` pool_range (mp st ! i))) \<and>
     (\<forall>i < length (mp st). \<forall>j < length (mp st). i \<noteq> j \<longrightarrow> pool_range (mp st ! i) \<inter> pool_range (mp st ! j) = {}) \<and>
     dom L \<subseteq> (\<Union>p \<in> set (mp st). pool_range p) \<and> last_pool st \<le> length (mp st)"

lemma ptr_valid_range: "heap_inv p L \<Longrightarrow> ptr_valid p ptr \<longleftrightarrow> ptr \<in> pool_range p"
  by (auto simp: heap_inv_def pool_ok_def pool_geom_def ptr_valid_def pool_range_def Let_def mult.commute)

lemma live_in_range:
  assumes "heap_inv p L" and "L ptr = Some s"
  shows "ptr \<in> pool_range p"
proof -
  have al: "alloc_ok p ptr s" using assms by (auto simp: heap_inv_def)
  then have "size_to_alloc_size s \<le> 32 * blocks_of s" "s + 20 \<le> size_to_alloc_size s"
    by (auto simp: alloc_ok_def blocks_of_bounds alloc_size_bounds)
  then show ?thesis using al by (auto simp: alloc_ok_def pool_range_def)
qed

lemma contents_in_range:
  assumes "heap_inv p L" and "L ptr = Some s"
  shows "{ptr..<ptr + s} \<subseteq> pool_range p"
proof -
  have al: "alloc_ok p ptr s" using assms by (auto simp: heap_inv_def)
  then have "size_to_alloc_size s \<le> 32 * blocks_of s" "s + 20 \<le> size_to_alloc_size s"
    by (auto simp: alloc_ok_def blocks_of_bounds alloc_size_bounds)
  then show ?thesis using al by (auto simp: alloc_ok_def pool_range_def)
qed

lemma find_pool_Some:
  "i < length ps \<Longrightarrow> ptr_valid (ps ! i) ptr \<Longrightarrow> \<forall>k < i. \<not> ptr_valid (ps ! k) ptr \<Longrightarrow> find_pool ps ptr j = Some (j + i)"
proof (induction ps arbitrary: i j)
  case (Cons p ps)
  show ?case
  proof (cases i)
    case 0
    then show ?thesis using Cons.prems by simp
  next
    case (Suc k)
    have "\<not> ptr_valid p ptr" using Cons.prems(3) Suc by (metis nth_Cons_0 zero_less_Suc)
    moreover have "\<forall>l < k. \<not> ptr_valid (ps ! l) ptr" using Cons.prems(3) Suc by (metis Suc_less_eq nth_Cons_Suc)
    ultimately show ?thesis using Cons.IH [of k "j + 1"] Cons.prems Suc by simp
  qed
qed simp

text \<open>Replacing the state of one pool.\<close>

lemma pools_inv_update:
  assumes inv: "pools_inv st L" and i: "i < length (mp st)" and p': "heap_inv p' (L' |` pool_range (mp st ! i))"
    and geom: "pool_range p' = pool_range (mp st ! i)"
    and other: "\<And>x. x \<notin> pool_range (mp st ! i) \<Longrightarrow> L' x = L x" and l: "l \<le> length (mp st)"
  shows "pools_inv (st\<lparr>mp := (mp st)[i := p'], last_pool := l\<rparr>) L'"
  unfolding pools_inv_def
proof (intro conjI allI impI)
  let ?st = "st\<lparr>mp := (mp st)[i := p'], last_pool := l\<rparr>"
  have range: "pool_range (mp ?st ! k) = pool_range (mp st ! k)" if "k < length (mp st)" for k
    using that geom by (cases "k = i") simp_all
  fix k
  assume "k < length (mp ?st)"
  then have k: "k < length (mp st)" by simp
  show "heap_inv (mp ?st ! k) (L' |` pool_range (mp ?st ! k))"
  proof (cases "k = i")
    case True
    then show ?thesis using i p' geom by simp
  next
    case False
    have "L' |` pool_range (mp st ! k) = L |` pool_range (mp st ! k)"
    proof (rule ext)
      fix x
      show "(L' |` pool_range (mp st ! k)) x = (L |` pool_range (mp st ! k)) x"
        using inv i k False other [of x] unfolding pools_inv_def restrict_map_def by (metis disjoint_iff)
    qed
    then show ?thesis using inv k False by (simp add: pools_inv_def)
  qed
  fix j
  assume "j < length (mp ?st)" "k \<noteq> j"
  then show "pool_range (mp ?st ! k) \<inter> pool_range (mp ?st ! j) = {}"
    using inv k range by (simp add: pools_inv_def del: range)
next
  let ?st = "st\<lparr>mp := (mp st)[i := p'], last_pool := l\<rparr>"
  show "dom L' \<subseteq> (\<Union>p \<in> set (mp ?st). pool_range p)"
  proof
    fix x
    assume "x \<in> dom L'"
    then have "x \<in> pool_range (mp st ! i) \<or> x \<in> dom L" 
      using other [of x] by (cases "x \<in> pool_range (mp st ! i)") (auto simp: dom_def)
    then have "x \<in> pool_range (mp st ! i) \<or> (\<exists>p \<in> set (mp st). x \<in> pool_range p)"
      using inv by (auto simp: pools_inv_def)
    then obtain k where k: "k < length (mp st)" "x \<in> pool_range (mp st ! k)" using i by (metis in_set_conv_nth)
    then have "x \<in> pool_range (mp ?st ! k)" using geom by (cases "k = i") simp_all
    then show "x \<in> (\<Union>p \<in> set (mp ?st). pool_range p)" using k(1) by (intro UN_I [of "mp ?st ! k"]) simp_all
  qed
qed (use l in simp)


lemma restrict_upd: "x \<in> R \<Longrightarrow> (L(x := v)) |` R = (L |` R)(x := v)"
  by (auto simp: restrict_map_def fun_eq_iff)

lemma live_pool:
  assumes "pools_inv st L" and "L ptr = Some s"
  shows "\<exists>i < length (mp st). ptr \<in> pool_range (mp st ! i)"
proof -
  have "ptr \<in> dom L" using assms(2) by blast
  then have "ptr \<in> (\<Union>p \<in> set (mp st). pool_range p)" using assms(1) unfolding pools_inv_def by blast
  then show ?thesis by (auto simp: in_set_conv_nth)
qed

lemma sfree_live:
  assumes inv: "pools_inv st L" and live: "L ptr = Some s"
  shows "\<exists>st'. sfree st ptr = Inr st' \<and> pools_inv st' (L(ptr := None)) \<and> length (mp st') = length (mp st)"
proof -
  obtain i where i: "i < length (mp st)" "ptr \<in> pool_range (mp st ! i)"
    using live_pool [OF inv live] by blast
  let ?p = "mp st ! i"
  have hi: "heap_inv (mp st ! k) (L |` pool_range (mp st ! k))" if "k < length (mp st)" for k
    using inv that by (simp add: pools_inv_def)
  have "find_pool (mp st) ptr 0 = Some (0 + i)"
  proof (rule find_pool_Some)
    show "ptr_valid ?p ptr" using ptr_valid_range [OF hi] i by simp
    show "\<forall>k < i. \<not> ptr_valid (mp st ! k) ptr"
      using ptr_valid_range [OF hi] i inv unfolding pools_inv_def by (metis disjoint_iff less_trans nat_neq_iff)
  qed (rule i)
  moreover obtain p' where p': "sfree_pool ?p ptr = Inr p'" "heap_inv p' ((L |` pool_range ?p)(ptr := None))"
    "map_base p' = map_base ?p" "nr_blocks p' = nr_blocks ?p"
    using sfree_pool_live [OF hi [OF i(1)], of ptr s] i(2) live by auto
  moreover have "0 < ptr"
    using hi [OF i(1)] i(2) by (auto simp: heap_inv_def pool_ok_def pool_geom_def pool_range_def)
  ultimately have "sfree st ptr = Inr (st\<lparr>mp := (mp st)[i := p']\<rparr>)" by (simp add: sfree_def)
  moreover have "pools_inv (st\<lparr>mp := (mp st)[i := p'], last_pool := last_pool st\<rparr>) (L(ptr := None))"
    by (rule pools_inv_update [OF inv i(1)]) (use p' i(2) inv in \<open>auto simp: restrict_upd pool_range_def pools_inv_def\<close>)
  ultimately show ?thesis by simp
qed

text \<open>The outcomes of the functions that try pools.\<close>

inductive pools_result :: "smalloc_state \<Rightarrow> (nat \<rightharpoonup> nat) \<Rightarrow> nat \<Rightarrow> (smalloc_state \<times> nat) res \<Rightarrow> bool" for st L s where
  null: "pools_inv st' L \<Longrightarrow> length (mp st') = length (mp st) \<Longrightarrow> pools_result st L s (Inr (st', 0))"
| new: "0 < ptr \<Longrightarrow> L ptr = None \<Longrightarrow> pools_inv st' (L(ptr \<mapsto> s)) \<Longrightarrow> length (mp st') = length (mp st) \<Longrightarrow>
    pools_result st L s (Inr (st', ptr))"
| fault: "12 < s \<Longrightarrow> pools_result st L s (Inl Bad_shift)"

text \<open>One attempt, in pool \<open>i\<close>.\<close>

lemma smalloc_pool_at:
  assumes inv: "pools_inv st L" and i: "i < length (mp st)" and s: "s < 2 ^ 32"
  shows "smalloc_pool (mp st ! i) s = Inl Bad_shift \<and> 12 < s \<or>
    (\<exists>p'. smalloc_pool (mp st ! i) s = Inr (p', 0) \<and> pools_inv (st\<lparr>mp := (mp st)[i := p']\<rparr>) L) \<or>
    (\<exists>p' ptr. smalloc_pool (mp st ! i) s = Inr (p', ptr) \<and> 0 < ptr \<and> L ptr = None \<and>
      (\<forall>l \<le> length (mp st). pools_inv (st\<lparr>mp := (mp st)[i := p'], last_pool := l\<rparr>) (L(ptr \<mapsto> s))))"
proof -
  let ?p = "mp st ! i"
  have hi: "heap_inv ?p (L |` pool_range ?p)" using inv i by (simp add: pools_inv_def)
  show ?thesis
    using smalloc_pool_result [OF hi s]
  proof cases
    case (null p')
    have "pools_inv (st\<lparr>mp := (mp st)[i := p'], last_pool := last_pool st\<rparr>) L"
      by (rule pools_inv_update [OF inv i]) (use null inv in \<open>auto simp: pool_range_def pools_inv_def\<close>)
    then show ?thesis using null(1) by auto
  next
    case (new ptr p')
    have range: "pool_range p' = pool_range ?p" using new by (simp add: pool_range_def)
    have "ptr \<in> pool_range ?p" using live_in_range [OF new(4), of ptr s] range by simp
    then have r: "heap_inv p' (L(ptr \<mapsto> s) |` pool_range ?p)" and fresh: "L ptr = None"
      using new(3,4) by (simp_all add: restrict_upd)
    have "pools_inv (st\<lparr>mp := (mp st)[i := p'], last_pool := l\<rparr>) (L(ptr \<mapsto> s))" if "l \<le> length (mp st)" for l
      by (rule pools_inv_update [OF inv i r range _ that]) (use \<open>ptr \<in> pool_range ?p\<close> in auto)
    then show ?thesis using new(1,2) fresh by blast
  next
    case fault
    then show ?thesis by simp
  qed
qed

lemma smalloc_try_result:
  assumes s: "s < 2 ^ 32"
  shows "pools_inv st L \<Longrightarrow> \<forall>i \<in> set is. i < length (mp st) \<Longrightarrow> pools_result st L s (smalloc_try is st s)"
proof (induction "is" arbitrary: st)
  case Nil
  then show ?case by (simp add: pools_result.null)
next
  case (Cons i "is")
  have i: "i < length (mp st)" using Cons.prems by simp
  from smalloc_pool_at [OF Cons.prems(1) i s] consider
      "smalloc_pool (mp st ! i) s = Inl Bad_shift" "12 < s"
    | p' where "smalloc_pool (mp st ! i) s = Inr (p', 0)" "pools_inv (st\<lparr>mp := (mp st)[i := p']\<rparr>) L"
    | p' ptr where "smalloc_pool (mp st ! i) s = Inr (p', ptr)" "0 < ptr" "L ptr = None"
        "pools_inv (st\<lparr>mp := (mp st)[i := p'], last_pool := i\<rparr>) (L(ptr \<mapsto> s))" using i by (metis less_imp_le)
  then show ?case
  proof cases
    case 1
    then show ?thesis using i by (simp add: pools_result.fault)
  next
    case (2 p')
    have "pools_result (st\<lparr>mp := (mp st)[i := p']\<rparr>) L s (smalloc_try is (st\<lparr>mp := (mp st)[i := p']\<rparr>) s)"
      by (rule Cons.IH [OF 2(2)]) (use Cons.prems(2) in simp)
    then show ?thesis using 2(1) i by (simp add: pools_result.simps [of st] pools_result.simps [of "st\<lparr>mp := _\<rparr>"])
  next
    case (3 p' ptr)
    then show ?thesis using i by (simp add: pools_result.new)
  qed
qed

lemma smalloc_debug_loop_Inr:
  assumes s: "s < 2 ^ 32"
  shows "pools_inv st L \<Longrightarrow> \<forall>i \<in> set is. i < length (mp st) \<Longrightarrow>
    (\<exists>st'. smalloc_debug_loop is st s = Inr st' \<and> pools_inv st' L \<and> length (mp st') = length (mp st)) \<or>
    12 < s \<and> smalloc_debug_loop is st s = Inl Bad_shift"
proof (induction "is" arbitrary: st)
  case (Cons i "is")
  have i: "i < length (mp st)" using Cons.prems by simp
  show ?case
  proof (cases "s \<noteq> 0 \<and> blocks_of s \<le> free_blocks (mp st ! i)")
    case False
    then show ?thesis using Cons.IH [OF Cons.prems(1)] Cons.prems(2) i by auto
  next
    case True
    have lp: "last_pool st \<le> length (mp st)" using Cons.prems(1) by (simp add: pools_inv_def)
    from smalloc_pool_at [OF Cons.prems(1) i s] consider
        "smalloc_pool (mp st ! i) s = Inl Bad_shift" "12 < s"
      | p' where "smalloc_pool (mp st ! i) s = Inr (p', 0)" "pools_inv (st\<lparr>mp := (mp st)[i := p']\<rparr>) L"
      | p' ptr where "smalloc_pool (mp st ! i) s = Inr (p', ptr)" "0 < ptr" "L ptr = None"
          "pools_inv (st\<lparr>mp := (mp st)[i := p'], last_pool := last_pool st\<rparr>) (L(ptr \<mapsto> s))"
      using lp by blast
    then show ?thesis
    proof cases
      case 1
      then show ?thesis using True i by simp
    next
      case (2 p')
      then show ?thesis using Cons.IH [OF 2(2)] Cons.prems(2) True i by simp
    next
      case (3 p' ptr)
      let ?st = "st\<lparr>mp := (mp st)[i := p']\<rparr>"
      have "pools_inv ?st (L(ptr \<mapsto> s))" using 3(4) by simp
      from sfree_live [OF this, of ptr s] obtain st' where st': "sfree ?st ptr = Inr st'"
        "pools_inv st' ((L(ptr \<mapsto> s))(ptr := None))" "length (mp st') = length (mp st)" by auto
      have "(L(ptr \<mapsto> s))(ptr := None) = L" using 3(3) by auto
      then have "pools_inv (st'\<lparr>last_pool := i\<rparr>) L" using st'(2,3) i by (simp add: pools_inv_def)
      from Cons.IH [OF this] show ?thesis using Cons.prems(2) True i 3 st' by simp
    qed
  qed
qed simp


lemma smalloc_result:
  assumes inv: "pools_inv st L"
  shows "pools_result st L s (smalloc st s)"
proof (cases "s < 2 ^ 32")
  case False
  then have "s \<noteq> s mod 2 ^ 32" by (metis mod_less_divisor zero_less_numeral zero_less_power)
  then show ?thesis using inv by (simp add: smalloc_def pools_result.null)
next
  case s: True
  have debug: "pools_result st L s (bindE (smalloc_debug st' s) (\<lambda>st. Inr (st, 0)))"
    if "pools_inv st' L" "length (mp st') = length (mp st)" for st'
    using smalloc_debug_loop_Inr [OF s that(1), of "[0..<length (mp st')]"] that(2)
    by (auto simp: smalloc_debug_def intro: pools_result.intros)
  have "pools_result st L s (smalloc_try [last_pool st..<length (mp st)] st s)"
    by (rule smalloc_try_result [OF s inv]) simp
  then show ?thesis
  proof cases
    case (null st')
    note st' = null
    let ?st = "st'\<lparr>last_pool := 0\<rparr>"
    have "pools_inv ?st L" using st' by (simp add: pools_inv_def)
    show ?thesis
    proof (cases "last_pool st' = 0")
      case True
      then show ?thesis using st' s debug [of st'] by (simp add: smalloc_def)
    next
      case False
      define js where "js = [0..<last_pool st']"
      have "\<forall>i \<in> set js. i < length (mp ?st)" using st'(2) by (simp add: js_def pools_inv_def)
      from smalloc_try_result [OF s \<open>pools_inv ?st L\<close> this] show ?thesis
      proof cases
        case (null st2)
        then show ?thesis using st' s False debug [of st2] by (simp add: smalloc_def js_def)
      next
        case (new ptr st2)
        then show ?thesis using st' s False by (simp add: smalloc_def js_def pools_result.new)
      next
        case fault
        then show ?thesis using st' s False by (simp add: smalloc_def js_def pools_result.fault)
      qed
    qed
  next
    case (new ptr st')
    then show ?thesis using s by (simp add: smalloc_def pools_result.new)
  next
    case fault
    then show ?thesis using s by (simp add: smalloc_def pools_result.fault)
  qed
qed


interpretation pools: allocator pools_inv smalloc sfree
proof
  fix st L and sz :: nat
  assume "pools_inv st L"
  from smalloc_result [OF this, of sz]
  show "(12 < sz \<and> smalloc st sz = Inl Bad_shift) \<or> (\<exists>h'. smalloc st sz = Inr (h', 0) \<and> pools_inv h' L) \<or>
      (\<exists>h' ptr. smalloc st sz = Inr (h', ptr) \<and> 0 < ptr \<and> L ptr = None \<and> pools_inv h' (L(ptr \<mapsto> sz)))"
    by cases auto
next
  fix st L ptr sz
  assume "pools_inv st L" "L ptr = Some sz"
  then show "\<exists>h'. sfree st ptr = Inr h' \<and> pools_inv h' (L(ptr := None))"
    using sfree_live by blast
next
  fix st L x s y t
  assume inv: "pools_inv st L" and xy: "L x = Some s" "L y = Some t" "x \<noteq> y"
  obtain i j where i: "i < length (mp st)" "x \<in> pool_range (mp st ! i)"
    and j: "j < length (mp st)" "y \<in> pool_range (mp st ! j)"
    using live_pool [OF inv xy(1)] live_pool [OF inv xy(2)] by blast
  have hi: "heap_inv (mp st ! i) (L |` pool_range (mp st ! i))" "heap_inv (mp st ! j) (L |` pool_range (mp st ! j))"
    using inv i j by (simp_all add: pools_inv_def)
  show "{x..<x + s} \<inter> {y..<y + t} = {}"
  proof (cases "i = j")
    case True
    then show ?thesis using heap_inv_disjoint [OF hi(1), of x s y t] i j xy by simp
  next
    case False
    then have "pool_range (mp st ! i) \<inter> pool_range (mp st ! j) = {}" using inv i j by (simp add: pools_inv_def)
    moreover have "{x..<x + s} \<subseteq> pool_range (mp st ! i)" "{y..<y + t} \<subseteq> pool_range (mp st ! j)"
      using contents_in_range [OF hi(1), of x s] contents_in_range [OF hi(2), of y t] i j xy by simp_all
    ultimately show ?thesis by blast
  qed
qed

section \<open>Fresh pools\<close>

lemma add_pool_size_bounds:
  assumes "a \<le> 4278189056"
  shows "add_pool_size a mod 1024 = 0" "2 ^ 24 \<le> add_pool_size a" "add_pool_size a \<le> 4278190080"
proof -
  define x where "x = (if a + 20 < 16777216 then 16777216 else a + 20)"
  have "add_pool_size a = (x + 1023) div 1024 * 1024"
    using assms by (simp add: add_pool_size_def hdr_size_def x_def Let_def)
  moreover have "16777216 \<le> x" "x \<le> 4278189076" using assms by (auto simp: x_def)
  moreover define q where "q = (x + 1023) div 1024"
  moreover have "q * 1024 + (x + 1023) mod 1024 = x + 1023" unfolding q_def by (rule div_mult_mod_eq)
  moreover have "(x + 1023) mod 1024 < 1024" by simp
  ultimately have q: "add_pool_size a = q * 1024" "x \<le> q * 1024" "q \<le> 4177920" "16777216 \<le> x" by linarith+
  then show "add_pool_size a mod 1024 = 0" "2 ^ 24 \<le> add_pool_size a" "add_pool_size a \<le> 4278190080"
    by simp_all
qed

text \<open>The size of the mapping of a pool; \<^verbatim>\<open>mmap\<close> is asked for so many bytes.\<close>

definition pool_bytes :: "nat \<Rightarrow> nat" where
  "pool_bytes a = add_pool_size a + add_pool_size a div 1024 * 4"

lemma used_zero: "b < 32 * n \<Longrightarrow> \<not> used (replicate n 0) b"
  by (simp add: used_def less_mult_imp_div_less mult.commute)

text \<open>A pool that \<^verbatim>\<open>add_pool\<close> sets up in a mapping at a page boundary is empty and well formed.\<close>

lemma add_pool_empty:
  assumes "n \<noteq> 16" and "a \<le> 4278189056" and "0 < ptr" and "4096 dvd ptr" and "ptr + 2 ^ 32 \<le> 2 ^ 64"
  shows "\<exists>p. add_pool n (Some ptr) True a = Inr (Some p) \<and> heap_inv p Map.empty \<and>
    pool_range p \<subseteq> {ptr..<ptr + pool_bytes a}"
proof -
  let ?A = "add_pool_size a"
  define bb where "bb = ?A div 1024"
  note A = add_pool_size_bounds [OF assms(2)]
  have bb1: "?A = 1024 * bb" using A(1) mult_div_mod_eq [of 1024 ?A] by (simp add: bb_def)
  then have bb: "?A = 1024 * bb" "0 < bb" "bb \<le> 4177920" using A(2,3) by simp_all
  define p where "p = \<lparr>map_base = ptr, area = replicate (bb * 1024) 0, bitmap = replicate bb 0,
    free_blocks = bb * 32, nr_blocks = bb, next_non_full = 0, mmap_size = (?A + bb * 4) mod 2 ^ 32\<rparr>"
  have "(?A + bb * 4) mod 2 ^ 32 = ?A + bb * 4" using bb by simp
  then have "bb * 1024 + bb * 4 \<le> (?A + bb * 4) mod 2 ^ 32" using bb1 by simp
  then have add: "add_pool n (Some ptr) True a = Inr (Some p)"
    using assms(1) unfolding add_pool_def Let_def bb_def [symmetric] p_def by simp
  have "free_set (replicate bb 0) = {..<32 * bb}" using used_zero by (auto simp: free_set_def)
  moreover have "32 dvd ptr" using dvd_trans [of 32 4096 ptr] assms(4) by simp
  ultimately have "pool_ok p" using bb assms by (simp add: pool_ok_def pool_geom_def p_def)
  then have "heap_inv p Map.empty" by (simp add: heap_inv_def) (simp add: p_def used_zero)
  moreover have "pool_range p \<subseteq> {ptr..<ptr + pool_bytes a}"
    using bb by (auto simp: pool_range_def p_def pool_bytes_def)
  ultimately show ?thesis using add by blast
qed

text \<open>What the operating system promises of \<^verbatim>\<open>mmap\<close>: page boundaries and no overlap with earlier mappings.\<close>

fun mappings_ok :: "nat \<Rightarrow> nat set \<Rightarrow> (nat option \<times> bool) list \<Rightarrow> bool" where
  "mappings_ok M taken [] \<longleftrightarrow> True"
| "mappings_ok M taken ((None, sem) # env) \<longleftrightarrow> mappings_ok M taken env"
| "mappings_ok M taken ((Some ptr, sem) # env) \<longleftrightarrow> 0 < ptr \<and> 4096 dvd ptr \<and> ptr + 2 ^ 32 \<le> 2 ^ 64 \<and>
     {ptr..<ptr + M} \<inter> taken = {} \<and> mappings_ok M (taken \<union> {ptr..<ptr + M}) env"

lemma mappings_ok_take: "mappings_ok M taken env \<Longrightarrow> mappings_ok M taken (take n env)"
  by (induction M taken env arbitrary: n rule: mappings_ok.induct) (auto simp: take_Cons split: nat.split)

lemma pools_inv_append:
  assumes inv: "pools_inv st Map.empty" and p: "heap_inv p Map.empty"
    and new: "\<And>q. q \<in> set (mp st) \<Longrightarrow> pool_range p \<inter> pool_range q = {}"
  shows "pools_inv (st\<lparr>mp := mp st @ [p]\<rparr>) Map.empty"
proof -
  have "pool_range p \<inter> pool_range (mp st ! i) = {}" if "i < length (mp st)" for i
    using new nth_mem [OF that] by blast
  then show ?thesis
    using inv p unfolding pools_inv_def by (auto simp: nth_append less_Suc_eq)
qed

lemma add_pools_inv:
  assumes a: "a \<le> 4278189056"
  shows "pools_inv st Map.empty \<Longrightarrow> mappings_ok (pool_bytes a) taken env \<Longrightarrow>
    (\<Union>p \<in> set (mp st). pool_range p) \<subseteq> taken \<Longrightarrow>
    \<exists>st'. add_pools env a st = Inr st' \<and> pools_inv st' Map.empty \<and> length (mp st) \<le> length (mp st')"
proof (induction env arbitrary: st taken)
  case (Cons e env)
  obtain mapped sem where e: "e = (mapped, sem)" by (cases e)
  show ?case
  proof (cases "length (mp st) = 16 \<or> mapped = None \<or> \<not> sem")
    case True
    have "add_pool (length (mp st)) mapped sem a = Inr None"
    proof (cases "length (mp st) \<noteq> 16 \<and> mapped \<noteq> None")
      case False
      then show ?thesis by (auto simp: add_pool_def)
    next
      case sem: True
      then obtain ptr where ptr: "mapped = Some ptr" by blast
      note A = add_pool_size_bounds [OF a]
      have "add_pool_size a div 1024 * 1024 = add_pool_size a" using A(1) by auto
      then show ?thesis using sem True ptr A(3) by (simp add: add_pool_def)
    qed
    then show ?thesis using Cons.prems e by simp
  next
    case False
    then obtain ptr where ptr: "mapped = Some ptr" and sem by auto
    then have m: "0 < ptr" "4096 dvd ptr" "ptr + 2 ^ 32 \<le> 2 ^ 64" "{ptr..<ptr + pool_bytes a} \<inter> taken = {}"
      "mappings_ok (pool_bytes a) (taken \<union> {ptr..<ptr + pool_bytes a}) env"
      using Cons.prems(2) e by simp_all
    obtain p where p: "add_pool (length (mp st)) (Some ptr) True a = Inr (Some p)" "heap_inv p Map.empty"
      "pool_range p \<subseteq> {ptr..<ptr + pool_bytes a}"
      using add_pool_empty [OF _ a m(1-3)] False by blast
    let ?st = "st\<lparr>mp := mp st @ [p]\<rparr>"
    have "pool_range p \<inter> pool_range q = {}" if "q \<in> set (mp st)" for q
      using that p(3) m(4) Cons.prems(3) by blast
    then have "pools_inv ?st Map.empty" by (rule pools_inv_append [OF Cons.prems(1) p(2)])
    moreover have "(\<Union>q \<in> set (mp ?st). pool_range q) \<subseteq> taken \<union> {ptr..<ptr + pool_bytes a}"
      using p(3) Cons.prems(3) by auto
    ultimately obtain st' where "add_pools env a ?st = Inr st'" "pools_inv st' Map.empty" "length (mp ?st) \<le> length (mp st')"
      using Cons.IH m(5) by blast
    then show ?thesis using e ptr \<open>sem\<close> p(1) by (intro exI [of _ st']) simp
  qed
qed simp


lemma sinit_inv:
  assumes "mappings_ok (pool_bytes a) {} ((Some ptr, True) # env)" and "a \<le> 4278189056"
  shows "\<exists>st. sinit ((Some ptr, True) # env) a \<lparr>mp = [], last_pool = 0\<rparr> = Inr st \<and> pools_inv st Map.empty"
proof -
  let ?st = "\<lparr>mp = [], last_pool = 0\<rparr>"
  let ?env = "take 7 env"
  have t8: "take 8 ((Some ptr, True) # env) = (Some ptr, True) # ?env" by simp
  have m: "mappings_ok (pool_bytes a) {} ((Some ptr, True) # ?env)"
    using mappings_ok_take [OF assms(1), of 8] by (simp only: t8)
  have "pools_inv ?st Map.empty" by (simp add: pools_inv_def)
  obtain p where p: "add_pool 0 (Some ptr) True a = Inr (Some p)" "heap_inv p Map.empty"
    "pool_range p \<subseteq> {ptr..<ptr + pool_bytes a}"
    using add_pool_empty [of 0 a ptr] m assms(2) by auto
  have "pools_inv \<lparr>mp = [p], last_pool = 0\<rparr> Map.empty"
    using pools_inv_append [OF \<open>pools_inv ?st Map.empty\<close> p(2)] by simp
  then have "\<exists>st'. add_pools ?env a \<lparr>mp = [p], last_pool = 0\<rparr> = Inr st' \<and> pools_inv st' Map.empty \<and>
      length (mp \<lparr>mp = [p], last_pool = 0\<rparr>) \<le> length (mp st')"
    by (rule add_pools_inv [OF assms(2), where taken = "{ptr..<ptr + pool_bytes a}"]) (use m p(3) in auto)
  then obtain st' where st': "add_pools ?env a \<lparr>mp = [p], last_pool = 0\<rparr> = Inr st'" "pools_inv st' Map.empty"
    "1 \<le> length (mp st')" by auto
  have "add_pools ((Some ptr, True) # ?env) a ?st = Inr st'" using p(1) st'(1) by simp
  then have "sinit ((Some ptr, True) # env) a ?st = Inr st'"
    using st'(3) unfolding sinit_def t8 by (cases "mp st'") simp_all
  then show ?thesis using st'(2) by blast
qed

section \<open>Properties\<close>

text \<open>
  C14 (safety): after \<^verbatim>\<open>sinit\<close> on mappings that do not overlap, every sequence of \<^verbatim>\<open>smalloc\<close> requests and of
  \<^verbatim>\<open>sfree\<close> calls on live pointers runs without a failed assertion and without leaving a pool or a bitmap, and
  the contents of the live allocations are pairwise disjoint at the end; the only fault that can occur is
  the undefined shift of \<^verbatim>\<open>blocks_iter\<close>, and only when a request exceeds 12 bytes.
\<close>

theorem smalloc_requests_safe:
  assumes "mappings_ok (pool_bytes a) {} ((Some ptr, True) # env)" and "a \<le> 4278189056"
    and "\<forall>sz. Alloc sz \<in> set rs \<longrightarrow> sz < 2 ^ 32"
  shows "\<exists>st. sinit ((Some ptr, True) # env) a \<lparr>mp = [], last_pool = 0\<rparr> = Inr st \<and>
    ((\<exists>sz. Alloc sz \<in> set rs \<and> 12 < sz) \<and> serve smalloc sfree rs (st, Map.empty) = Inl Bad_shift \<or>
     (\<exists>st' L. serve smalloc sfree rs (st, Map.empty) = Inr (st', L) \<and>
       (\<forall>x y s t. L x = Some s \<longrightarrow> L y = Some t \<longrightarrow> x \<noteq> y \<longrightarrow> {x..<x + s} \<inter> {y..<y + t} = {})))"
proof -
  obtain st where st: "sinit ((Some ptr, True) # env) a \<lparr>mp = [], last_pool = 0\<rparr> = Inr st" "pools_inv st Map.empty"
    using sinit_inv [OF assms(1,2)] by blast
  show ?thesis
    using st(1) pools.serve_safe [OF st(2) assms(3)] pools.regions_disjoint by metis
qed

lemma pool_bytes_default: "pool_bytes 16777216 = 16843780"
  by (simp add: pool_bytes_def add_pool_size_def hdr_size_def)

theorem smalloc_requests_safe_witness:
  "\<exists>st st' L. sinit [(Some 4096, True), (Some 33554432, True)] 16777216 \<lparr>mp = [], last_pool = 0\<rparr> = Inr st \<and>
    serve smalloc sfree [Alloc 1, Alloc 12, Free 4112, Alloc 8] (st, Map.empty) = Inr (st', L)"
  using smalloc_requests_safe [of 16777216 4096 "[(Some 33554432, True)]" "[Alloc 1, Alloc 12, Free 4112, Alloc 8]"]
  unfolding pool_bytes_default by auto

text \<open>The search for a single block ends in the word that \<^verbatim>\<open>find_best_index\<close> names.\<close>

lemma smalloc_search_one:
  assumes geom: "pool_geom p" and i: "i < nr_blocks p" and w: "bitmap p ! i \<noteq> - 1"
  shows "\<exists>p' off. smalloc_search (Suc fuel) p 1 i 0 = Inr (p', Some off)"
proof -
  have len: "length (bitmap p) = nr_blocks p" using geom by (simp add: pool_geom_def)
  let ?w = "bitmap p ! i"
  obtain j where j: "j < 32" "\<not> bit ?w j" using w by (auto simp: word_eq_minus_one_iff)
  define idx where "idx = (LEAST j. 0 \<le> j \<and> \<not> bit ?w j)"
  have idx: "\<not> bit ?w idx" "idx < 32"
    unfolding idx_def using LeastI [of "\<lambda>j. 0 \<le> j \<and> \<not> bit ?w j" j] Least_le [of "\<lambda>j. 0 \<le> j \<and> \<not> bit ?w j" j] j by auto
  have "\<not> (\<forall>j. 0 \<le> j \<and> j < 32 \<longrightarrow> bit ?w j)" using j by blast
  then have fz: "find_next_zero ?w 0 = Inr idx"
    unfolding idx_def by (subst find_next_zero_spec [OF w]) (simp, simp only: if_False)
  have "32 * i + 32 \<le> 32 * nr_blocks p" using i by simp
  then have b: "32 * i + idx + 1 \<le> 32 * nr_blocks p" using idx(2) by simp
  have free: "\<forall>x \<in> run i idx 1. used (bitmap p) x = False"
    using idx by (auto simp: used_def chunk_div_mod)
  have "blocks_free p i idx 1 = Inr True"
    using blocks_iter_cmp [OF len, of 1 idx i] b free idx(2) by (simp add: blocks_free_def)
  moreover obtain bm' where "blocks_iter p i idx 1 mask_set = Inr (p\<lparr>bitmap := bm'\<rparr>, True)"
    using blocks_iter_flip [OF flips_mask_set len _ idx(2) b free] by auto
  ultimately show ?thesis using i w len fz by (simp add: set_blocks_def)
qed

text \<open>
  A request of at most 12 bytes, which needs one block, succeeds in every pool that has a
  free block, and takes exactly one.
\<close>

theorem smalloc_pool_small_succeeds:
  assumes "heap_inv p L" and "s \<le> 12" and "0 < free_blocks p"
  shows "\<exists>p' ptr. smalloc_pool p s = Inr (p', ptr) \<and> 0 < ptr \<and> heap_inv p' (L(ptr \<mapsto> s))"
proof -
  have ok: "pool_ok p" and geom: "pool_geom p" using assms(1) by (simp_all add: heap_inv_def pool_ok_def)
  have s: "s < 2 ^ 32" using assms(2) by simp
  have n: "blocks_of s = 1" using blocks_of_bounds(2,3) [OF s] assms(2) by simp
  obtain k where k: "k < nr_blocks p" "find_best_index p = Inr k" "bitmap p ! k \<noteq> - 1"
    using find_best_index_Inr [OF ok assms(3)] by blast
  let ?p = "p\<lparr>next_non_full := k\<rparr>"
  have "pool_geom ?p" using geom k(1) by (simp add: pool_geom_def)
  then obtain p' off where "smalloc_search (Suc (32 * nr_blocks ?p)) ?p 1 k 0 = Inr (p', Some off)"
    using smalloc_search_one [of ?p k "32 * nr_blocks ?p"] k(1,3) by (auto simp del: smalloc_search.simps)
  then have "\<exists>q ptr. smalloc_pool_blocks p (size_to_alloc_size s) = Inr (q, map_base q + ptr)"
    using assms(3) k(2) unfolding smalloc_pool_blocks_def Let_def n by (simp del: smalloc_search.simps)
  then obtain q ptr where q: "smalloc_pool_blocks p (size_to_alloc_size s) = Inr (q, map_base q + ptr)" by blast
  have "blocks_result p (blocks_of s) (smalloc_pool_blocks p (size_to_alloc_size s))"
    by (rule smalloc_pool_blocks_result [OF ok]) (simp add: n)
  then have "map_base q = map_base p" unfolding q by cases auto
  then have nz: "0 < map_base q + ptr" using geom by (simp add: pool_geom_def)
  show ?thesis
    using smalloc_pool_result [OF assms(1) s]
  proof cases
    case (null p')
    then have "smalloc_pool p s = Inr (p', 0)" by simp
    then show ?thesis using q nz by (auto simp: smalloc_pool_def hdr_size_def bindE_def split: sum.splits)
  next
    case (new ptr p')
    then show ?thesis by blast
  next
    case fault
    then show ?thesis using assms(2) by simp
  qed
qed

theorem smalloc_pool_small_succeeds_witness:
  "\<exists>p p' ptr. add_pool 0 (Some 4096) True 16777216 = Inr (Some p) \<and> smalloc_pool p 5 = Inr (p', ptr) \<and> 0 < ptr"
proof -
  obtain p where p: "add_pool 0 (Some 4096) True 16777216 = Inr (Some p)" "heap_inv p Map.empty"
    using add_pool_empty [of 0 16777216 4096] by auto
  have "0 < free_blocks p"
    using p(1) by (auto simp: add_pool_def add_pool_size_def hdr_size_def)
  then show ?thesis using smalloc_pool_small_succeeds [OF p(2), of 5] p(1) by auto
qed


lemma bitmap_eqI:
  assumes "length bm = length bm'" and "\<And>b. b < 32 * length bm \<Longrightarrow> used bm b = used bm' b"
  shows "bm = bm'"
proof (rule nth_equalityI [OF assms(1)])
  fix i
  assume i: "i < length bm"
  show "bm ! i = bm' ! i"
  proof (rule bit_word_eqI)
    fix j
    assume "j < LENGTH(32)"
    then have j: "j < 32" by simp
    have "32 * i + 32 \<le> 32 * length bm" using i by simp
    then show "bit (bm ! i) j = bit (bm' ! i) j"
      using assms(2) [of "32 * i + j"] j by (simp add: used_def chunk_div_mod)
  qed
qed

lemma heap_inv_bitmap:
  assumes "heap_inv p L" and "heap_inv q L" and "map_base q = map_base p" and "nr_blocks q = nr_blocks p"
  shows "bitmap q = bitmap p" and "free_blocks q = free_blocks p"
proof -
  have bl: "blocks q x t = blocks p x t" for x t by (rule blk_cong(2) [OF assms(3)])
  show "bitmap q = bitmap p"
    by (rule bitmap_eqI) (use assms bl in \<open>auto simp: heap_inv_def pool_ok_def pool_geom_def\<close>)
  then show "free_blocks q = free_blocks p" using assms(1,2) by (simp add: heap_inv_def pool_ok_def)
qed

text \<open>
  An allocation that does not fit leaves the bitmap of the pool as it was; one that
  succeeds returns zeroed memory, and freeing it at once restores the bitmap and the number of free
  blocks.
\<close>

theorem smalloc_sfree_roundtrip:
  assumes "heap_inv p L" and "s < 2 ^ 32"
  shows "smalloc_pool p s = Inl Bad_shift \<and> 12 < s \<or>
    (\<exists>p'. smalloc_pool p s = Inr (p', 0) \<and> bitmap p' = bitmap p \<and> free_blocks p' = free_blocks p) \<or>
    (\<exists>p' ptr p''. smalloc_pool p s = Inr (p', ptr) \<and> 0 < ptr \<and>
      (\<forall>i < s. area p' ! (ptr - map_base p + i) = 0) \<and>
      sfree_pool p' ptr = Inr p'' \<and> bitmap p'' = bitmap p \<and> free_blocks p'' = free_blocks p)"
  using smalloc_pool_result [OF assms]
proof cases
  case (null p')
  then show ?thesis using heap_inv_bitmap [OF assms(1) null(2)] by simp
next
  case (new ptr p')
  obtain p'' where p'': "sfree_pool p' ptr = Inr p''" "heap_inv p'' ((L(ptr \<mapsto> s))(ptr := None))"
    "map_base p'' = map_base p'" "nr_blocks p'' = nr_blocks p'"
    using sfree_pool_live [OF new(4), of ptr s] by auto
  have "(L(ptr \<mapsto> s))(ptr := None) = L" using new(3) by auto
  then have "heap_inv p'' L" using p''(2) by simp
  from heap_inv_bitmap [OF assms(1) this] have "bitmap p'' = bitmap p" "free_blocks p'' = free_blocks p"
    using p'' new by simp_all
  moreover have "\<forall>i < s. area p' ! (ptr - map_base p + i) = 0" using new(7) by (simp add: holds_def)
  ultimately show ?thesis using new(1,2) p''(1) by blast
next
  case fault
  then show ?thesis by simp
qed

theorem smalloc_sfree_roundtrip_witness:
  "\<exists>p p' ptr p''. add_pool 0 (Some 4096) True 16777216 = Inr (Some p) \<and>
    (smalloc_pool p 5 = Inr (p', 0) \<or> smalloc_pool p 5 = Inr (p', ptr) \<and> sfree_pool p' ptr = Inr p'' \<and> bitmap p'' = bitmap p)"
proof -
  obtain p where p: "add_pool 0 (Some 4096) True 16777216 = Inr (Some p)" "heap_inv p Map.empty"
    using add_pool_empty [of 0 16777216 4096] by auto
  show ?thesis using smalloc_sfree_roundtrip [OF p(2), of 5] p(1) by auto
qed

text \<open>
  The fault is real. When the word of the bitmap at which the search starts has a single free
  block, below bit 30, a request for two blocks fails there, restarts behind it, finds only set bits
  copied from the sign bit, and shifts by more than the width: whatever room the rest of the pool has.
\<close>

theorem smalloc_shift_fault:
  assumes "length (bitmap p) = nr_blocks p" and "next_non_full p < nr_blocks p" and "2 \<le> free_blocks p"
    and "j < 30" and "bitmap p ! next_non_full p = NOT (2 ^ j)" and "12 < s" and "s \<le> 44"
  shows "smalloc_pool p s = Inl Bad_shift"
proof -
  let ?k = "next_non_full p" and ?w = "bitmap p ! next_non_full p"
  have bits: "bit ?w i \<longleftrightarrow> i \<noteq> j" if "i < 32" for i using that assms(4,5) by (simp add: bit_simps)
  have w: "?w \<noteq> - 1" using bits [of j] assms(4) by auto
  have n: "blocks_of s = 2" using assms(6,7) by (rule blocks_of_two)
  have best: "find_best_index p = Inr ?k"
    using assms(1-3) w by (simp add: find_best_index_def) (subst find_best_index_loop.simps, simp)
  have "(LEAST i. 0 \<le> i \<and> \<not> bit ?w i) = j"
  proof (rule Least_equality)
    show "0 \<le> j \<and> \<not> bit ?w j" using bits [of j] assms(4) by simp
    show "j \<le> i" if "0 \<le> i \<and> \<not> bit ?w i" for i
      using that bits [of i] assms(4) by (cases "i < 32") auto
  qed
  moreover have "\<not> (\<forall>i. 0 \<le> i \<and> i < 32 \<longrightarrow> bit ?w i)"
  proof
    assume "\<forall>i. 0 \<le> i \<and> i < 32 \<longrightarrow> bit ?w i"
    moreover have "j < 32" using assms(4) by simp
    ultimately show False using bits [of j] by blast
  qed
  ultimately have fz0: "find_next_zero ?w 0 = Inr j"
    by (subst find_next_zero_spec [OF w]) (simp, simp only: if_False)
  have all: "\<forall>i. j + 2 \<le> i \<and> i < 32 \<longrightarrow> bit ?w i" using bits by auto
  have "j + 2 < 32" using assms(4) by linarith
  from find_next_zero_spec [OF w this] have fz1: "find_next_zero ?w (j + 2) = Inr (63 + (j + 2))"
    unfolding if_P [OF all] .
  have "32 * ?k + 32 \<le> 32 * nr_blocks p" using assms(2) by simp
  moreover have "used (bitmap p) (32 * ?k + (j + 1))"
    using bits [of "j + 1"] assms(4) chunk_div_mod [of "j + 1" ?k] by (simp add: used_def)
  moreover have "32 * ?k + (j + 1) \<in> run ?k j 2" by simp
  ultimately have "blocks_iter p ?k j 2 mask_cmp = Inr (p, False)"
    using blocks_iter_cmp [OF assms(1), of 2 j ?k] assms(4) by auto
  then have bf0: "blocks_free p ?k j 2 = Inr False" by (simp add: blocks_free_def)
  have bf1: "blocks_free p ?k (63 + (j + 2)) 2 = Inl Bad_shift"
    by (rule blocks_free_fault) (use assms in auto)
  have "0 < nr_blocks p" using assms(2) by simp
  then obtain f where f: "32 * nr_blocks p = Suc f" by (cases "32 * nr_blocks p") auto
  have "smalloc_search (Suc (Suc f)) p 2 ?k 0 = Inl Bad_shift"
    using assms(1,2,4) w fz0 fz1 bf0 bf1 by (simp add: Let_def)
  then have "smalloc_pool_blocks p (size_to_alloc_size s) = Inl Bad_shift"
    using assms(3) best f unfolding smalloc_pool_blocks_def Let_def n
    by (simp del: smalloc_search.simps)
  then show ?thesis by (simp add: smalloc_pool_def)
qed

theorem smalloc_shift_fault_witness:
  "smalloc_pool \<lparr>map_base = 4096, area = [], bitmap = [NOT (2 ^ 1), 0], free_blocks = 33, nr_blocks = 2,
     next_non_full = 0, mmap_size = 2056\<rparr> 13 = Inl Bad_shift"
  using smalloc_shift_fault [of "\<lparr>map_base = 4096, area = [], bitmap = [NOT (2 ^ 1), 0], free_blocks = 33,
    nr_blocks = 2, next_non_full = 0, mmap_size = 2056\<rparr>" 1 13] by simp

text \<open>
  The size of a pool is computed in 32 bits. For every size between 4278254573 and 4294966252
  bytes the size of the mapping wraps around, and clearing the bitmap already writes outside of it.
\<close>

theorem add_pool_size_wraps:
  assumes "4278254573 \<le> a" and "a \<le> 4294966252" and "n \<noteq> 16"
  shows "add_pool n (Some ptr) sem a = Inl Out_of_bounds"
proof -
  define q where "q = (a + 20 + 1023) div 1024"
  have "q * 1024 + (a + 20 + 1023) mod 1024 = a + 20 + 1023" unfolding q_def by (rule div_mult_mod_eq)
  moreover have "(a + 20 + 1023) mod 1024 < 1024" by simp
  ultimately have q: "4177984 \<le> q" "q * 1024 < 4294967296" using assms(1,2) by linarith+
  have "(a + 20) mod 2 ^ 32 = a + 20" using assms(2) by simp
  then have A: "add_pool_size a = q * 1024"
    using assms(1,2) q by (simp add: add_pool_size_def hdr_size_def q_def)
  have "(q * 1024 + q * 4) mod 2 ^ 32 = q * 1028 - 4294967296" using q by (simp add: mod_if mult.commute)
  then have "\<not> q * 1024 + q * 4 \<le> (q * 1024 + q * 4) mod 2 ^ 32" using q by simp
  then show ?thesis using assms(3) unfolding add_pool_def A Let_def by simp
qed

theorem add_pool_size_wraps_witness:
  "add_pool 0 (Some 4096) True 4290000000 = Inl Out_of_bounds"
  by (rule add_pool_size_wraps) simp_all

end
