(* ===== verification/Digest.thy ===== *)
theory Digest
  imports Bytes
begin

text \<open>
  Message digests that work on blocks of a fixed size: what it means to absorb a message, and the contract
  of an update function that may be fed the message in pieces of any size. The digests of \<^verbatim>\<open>crc/\<close>
  (MD5, SHA-1, SHA-256, SHA-512, SHA-3 and xxHash) are shown to satisfy it one by one; that the result does
  not depend on how the message was cut then holds for each of them.
\<close>

section \<open>Absorbing blocks\<close>

text \<open>\<open>absorb B f s m\<close>: the state after the full blocks of \<open>m\<close>, and the bytes that are left.\<close>

function absorb :: "nat \<Rightarrow> ('s \<Rightarrow> bytes \<Rightarrow> 's) \<Rightarrow> 's \<Rightarrow> bytes \<Rightarrow> 's \<times> bytes" where
  "absorb B f s m = (if B = 0 \<or> length m < B then (s, m) else absorb B f (f s (take B m)) (drop B m))"
  by pat_completeness auto
termination by (relation "measure (\<lambda>(B, f, s, m). length m)") auto

declare absorb.simps [simp del]

lemma drop_shorter: "0 < B \<Longrightarrow> B \<le> length m \<Longrightarrow> length (drop B m) < length m"
  by simp

lemma absorb_short: "length m < B \<Longrightarrow> absorb B f s m = (s, m)"
  by (subst absorb.simps) simp

lemma absorb_step: "0 < B \<Longrightarrow> B \<le> length m \<Longrightarrow> absorb B f s m = absorb B f (f s (take B m)) (drop B m)"
  by (subst absorb.simps) simp

lemma absorb_block: "0 < B \<Longrightarrow> length b = B \<Longrightarrow> absorb B f s (b @ m) = absorb B f (f s b) m"
  by (simp add: absorb_step)

lemma absorb_append:
  "absorb B f s (m @ n) = absorb B f (fst (absorb B f s m)) (snd (absorb B f s m) @ n)"
proof (induction B f s m rule: absorb.induct)
  case (1 B f s m)
  show ?case
  proof (cases "B = 0 \<or> length m < B")
    case True
    then have "absorb B f s m = (s, m)" by (subst absorb.simps) simp
    then show ?thesis by simp
  next
    case False
    then have B: "0 < B" "B \<le> length m" by auto
    have "absorb B f s (m @ n) = absorb B f (f s (take B m)) (drop B m @ n)"
      using B absorb_step [of B "m @ n" f s] by simp
    also have "\<dots> = absorb B f (fst (absorb B f s m)) (snd (absorb B f s m) @ n)"
      using 1 [OF False] by (simp only: absorb_step [OF B])
    finally show ?thesis .
  qed
qed

lemma length_absorb_rest: "0 < B \<Longrightarrow> length (snd (absorb B f s m)) = length m mod B"
proof (induction B f s m rule: absorb.induct)
  case (1 B f s m)
  show ?case
  proof (cases "length m < B")
    case True
    then show ?thesis by (simp add: absorb_short)
  next
    case False
    then show ?thesis using 1 by (simp add: absorb_step le_mod_geq)
  qed
qed

lemma absorb_invariant: "P s \<Longrightarrow> (\<And>s b. P s \<Longrightarrow> P (f s b)) \<Longrightarrow> P (fst (absorb B f s m))"
proof (induction B f s m rule: absorb.induct)
  case (1 B f s m)
  then show ?case by (subst absorb.simps) simp
qed

lemma absorb_cong:
  assumes "\<And>s b. length b = B \<Longrightarrow> f s b = g s b"
  shows "absorb B f s m = absorb B g s m"
proof (induction "length m" arbitrary: s m rule: less_induct)
  case less
  show ?case
  proof (cases "B = 0 \<or> length m < B")
    case True
    then show ?thesis by (simp add: absorb.simps [of B])
  next
    case False
    then have "length (drop B m) < length m" by (intro drop_shorter) simp_all
    then show ?thesis using less [of "drop B m"] assms [of "take B m"] False by (simp add: absorb_step)
  qed
qed

section \<open>Counters\<close>

lemma unat_and_3f: "unat (w AND 0x3f) = unat w mod 64" for w :: "'a::len word"
  using unat_and_mask [of w 6] by (simp add: mask_eq_exp_minus_1)

lemma unat_add_of_nat: "unat (w + of_nat n) = (unat w + n) mod 2 ^ LENGTH('a)" for w :: "'a::len word"
  by (simp add: unat_word_ariths unsigned_of_nat take_bit_eq_mod mod_add_right_eq)

lemma mod_mod_64: "n mod 2 ^ 64 mod 64 = n mod (64::nat)" "n mod 2 ^ 32 mod 64 = n mod (64::nat)"
  by (rule mod_mod_cancel, simp)+

lemma le_bytes_8_split: "le_bytes 8 (w :: u64) = le_bytes 4 (ucast w :: u32) @ le_bytes 4 (ucast (drop_bit 32 w) :: u32)"
proof (rule nth_equalityI)
  fix i
  assume i: "i < length (le_bytes 8 w)"
  have "(ucast (drop_bit (8 * i) w) :: u8) = ucast (drop_bit (8 * i) (ucast w :: u32))" if "i < 4"
    by (rule bit_word_eqI) (use that in \<open>auto simp: bit_simps\<close>)
  moreover have "(ucast (drop_bit (8 * i) w) :: u8) = ucast (drop_bit (8 * (i - 4)) (ucast (drop_bit 32 w) :: u32))" if "\<not> i < 4"
  proof -
    have "8 * i = 32 + 8 * (i - 4)" using that by simp
    then show ?thesis using i by (intro bit_word_eqI) (auto simp: bit_simps add.assoc)
  qed
  ultimately show "le_bytes 8 w ! i = (le_bytes 4 (ucast w :: u32) @ le_bytes 4 (ucast (drop_bit 32 w) :: u32)) ! i"
    using i by (auto simp: nth_append nth_le_bytes)
qed simp

lemma unat_mod_64: "unat w mod 2 ^ 64 = unat w" for w :: u64
  by (rule mod_less [OF unat_bound64])

lemma mod_rest:
  fixes k n B :: nat
  assumes "k < B" and "B - k \<le> n"
  shows "(k + n) mod B = (n - (B - k)) mod B"
proof -
  have "k + n = (n - (B - k)) + B" using assms by simp
  then show ?thesis by (simp only: mod_add_self2)
qed

lemma memcpy_at_append:
  "at = length p \<Longrightarrow> n = length src \<Longrightarrow> n \<le> length q \<Longrightarrow> memcpy_at (p @ q) at src n = Some (p @ src @ drop n q)"
  by simp

section \<open>Unrolled rounds\<close>

lemma upt_64: "[0..<64] = [
    0, 1, 2, 3, 4, 5, 6, 7, 8, 9, 10, 11, 12, 13, 14, 15, 16, 17, 18, 19, 20, 21, 22, 23, 24, 25, 26,
    27, 28, 29, 30, 31, 32, 33, 34, 35, 36, 37, 38, 39, 40, 41, 42, 43, 44, 45, 46, 47, 48, 49, 50, 51,
    52, 53, 54, 55, 56, 57, 58, 59, 60, 61, 62, 63]"
  by (simp add: upt_conv_Cons)

lemma case_Let: "case_prod g (Let x f) = Let x (\<lambda>w. case_prod g (f w))"
  by (simp add: Let_def)

section \<open>Padding\<close>

text \<open>A 1 bit, zeros up to 56 modulo 64, and 8 bytes for the length.\<close>

definition md_pad :: "nat \<Rightarrow> bytes \<Rightarrow> bytes" where
  "md_pad n len = 0x80 # replicate ((119 - n mod 64) mod 64) 0 @ len"

lemma pad_zeros:
  fixes r :: nat
  shows "r \<le> 55 \<Longrightarrow> (119 - r) mod 64 = 55 - r" "55 < r \<Longrightarrow> r < 64 \<Longrightarrow> (119 - r) mod 64 = (63 - r) + 56"
  by (simp_all add: mod_if)

lemma length_md_pad:
  assumes "length len = 8"
  shows "(n + length (md_pad n len)) mod 64 = 0"
proof -
  define q r where "q = n div 64" and "r = n mod 64"
  have n: "n = 64 * q + r" and r: "r < 64" by (simp_all add: q_def r_def)
  have k: "(119 - r) mod 64 = (if r \<le> 55 then 55 - r else 119 - r)"
    using r by (simp add: mod_if)
  have "n + length (md_pad n len) = 64 * (q + (if r \<le> 55 then 1 else 2))"
    using r assms by (simp add: md_pad_def r_def [symmetric] k) (simp add: n)
  then show ?thesis by (simp only: mod_mult_self1_is_0)
qed

section \<open>The contract of an update function\<close>

fun feed :: "('c \<Rightarrow> bytes \<Rightarrow> 'c option) \<Rightarrow> 'c \<Rightarrow> bytes list \<Rightarrow> 'c option" where
  "feed update c [] = Some c"
| "feed update c (d # ds) = do { c \<leftarrow> update c d; feed update c ds }"

text \<open>
  \<open>inv\<close> is the invariant of a context, \<open>state\<close> its chaining state, \<open>pending\<close> the bytes of an incomplete
  block, \<open>total\<close> the number of bytes it has counted, modulo \<open>M\<close>; a piece may have at most \<open>N\<close> bytes.
\<close>

locale block_digest =
  fixes B :: nat and M :: nat and N :: nat and compress :: "'s \<Rightarrow> bytes \<Rightarrow> 's"
    and inv :: "'c \<Rightarrow> bool" and state :: "'c \<Rightarrow> 's" and pending :: "'c \<Rightarrow> bytes" and total :: "'c \<Rightarrow> nat"
    and update :: "'c \<Rightarrow> bytes \<Rightarrow> 'c option"
  assumes B_pos: "0 < B"
    and total_mod: "inv c \<Longrightarrow> total c mod M = total c"
    and update_absorbs: "inv c \<Longrightarrow> length d \<le> N \<Longrightarrow> \<exists>c'. update c d = Some c' \<and> inv c' \<and>
      (state c', pending c') = absorb B compress (state c) (pending c @ d) \<and> total c' = (total c + length d) mod M"
begin

lemma feed_absorbs:
  assumes "inv c" and "\<forall>d \<in> set ds. length d \<le> N"
  shows "\<exists>c'. feed update c ds = Some c' \<and> inv c' \<and>
    (state c', pending c') = absorb B compress (state c) (pending c @ concat ds) \<and>
    total c' = (total c + length (concat ds)) mod M \<or> ds = []"
  using assms
proof (induction ds arbitrary: c)
  case (Cons d ds)
  obtain c1 where c1: "update c d = Some c1" "inv c1"
    "(state c1, pending c1) = absorb B compress (state c) (pending c @ d)" "total c1 = (total c + length d) mod M"
    using update_absorbs [of c d] Cons.prems by auto
  show ?case
  proof (cases "ds = []")
    case True
    then show ?thesis using c1 by auto
  next
    case False
    obtain c2 where c2: "feed update c1 ds = Some c2" "inv c2"
      "(state c2, pending c2) = absorb B compress (state c1) (pending c1 @ concat ds)"
      "total c2 = (total c1 + length (concat ds)) mod M"
      using Cons.IH [OF c1(2)] Cons.prems False by auto
    have "absorb B compress (state c1) (pending c1 @ concat ds) =
        absorb B compress (state c) (pending c @ concat (d # ds))"
      using absorb_append [of B compress "state c" "pending c @ d" "concat ds"] by (simp flip: c1(3))
    then show ?thesis using c1 c2 by (auto simp: mod_add_left_eq add.assoc)
  qed
qed simp

text \<open>How the message was cut does not matter.\<close>

lemma feed_concat:
  assumes "inv c" and "pending c = []" and "\<forall>d \<in> set ds. length d \<le> N"
  shows "\<exists>c'. feed update c ds = Some c' \<and> inv c' \<and>
    (state c', pending c') = absorb B compress (state c) (concat ds) \<and>
    total c' = (total c + length (concat ds)) mod M"
proof (cases "ds = []")
  case True
  then show ?thesis using assms total_mod B_pos by (auto simp: absorb_short)
next
  case False
  then show ?thesis using feed_absorbs [OF assms(1,3)] assms(2) by auto
qed

end

section \<open>The update loop of SHA-256 and SHA-3\<close>

text \<open>
  \<^verbatim>\<open>fio_sha256_update\<close> and \<^verbatim>\<open>fio_sha3_update\<close> share their text. \<^verbatim>\<open>done\<close>, \<open>pos\<close> below, is an unsigned 32-bit
  position in the data that starts at \<^verbatim>\<open>-partial\<close>; \<open>bs\<close> is the block size, \<open>f\<close> takes one block. The loop is
  a partial function since nothing in its own text bounds it: the index may wrap.
\<close>

partial_function (option) block_loop ::
  "u32 \<Rightarrow> ('s \<Rightarrow> bytes \<Rightarrow> 's) \<Rightarrow> bytes \<Rightarrow> u32 \<Rightarrow> 's \<Rightarrow> u32 \<Rightarrow> bytes \<Rightarrow> ('s \<times> u32 \<times> bytes) option" where
  "block_loop bs f data len state pos src =
     (if length src < unat bs then None
      else let state = f state (take (unat bs) src);
               pos = pos + bs;
               src = drop (unat pos) data
           in if pos + (bs - 1) < len then block_loop bs f data len state pos src else Some (state, pos, src))"

definition block_update ::
  "u32 \<Rightarrow> ('s \<Rightarrow> bytes \<Rightarrow> 's) \<Rightarrow> 's \<Rightarrow> bytes \<Rightarrow> u32 \<Rightarrow> bytes \<Rightarrow> u32 \<Rightarrow> ('s \<times> bytes \<times> u32) option" where
  "block_update bs f state buf partial data len =
     (if bs - 1 < partial + len
      then do {
        (pos, buf, src) \<leftarrow>
          (if partial \<noteq> 0
           then do { buf \<leftarrow> memcpy_at buf (unat partial) data (unat (- partial + bs)); Some (- partial, buf, buf) }
           else Some (0, buf, data));
        (state, pos, src) \<leftarrow> block_loop bs f data len state pos src;
        buf \<leftarrow> memcpy_at buf 0 src (unat (len - pos));
        Some (state, buf, len - pos)
      }
      else do {
        buf \<leftarrow> memcpy_at buf (unat partial) data (unat len);
        Some (state, buf, partial + len)
      })"

lemma unat_pred: "0 < unat w \<Longrightarrow> unat (w - 1) = unat w - 1" for w :: "'a::len word"
  by (metis less_irrefl unat_eq_zero unat_minus_one)

text \<open>\<open>n\<close> is where the data continues after the block at \<open>src\<close>.\<close>

lemma block_loop_absorbs:
  assumes "0 < unat bs" "length data + unat bs \<le> 2 ^ 32" "len = of_nat (length data)"
    and "unat bs \<le> length src" "n \<le> length data" "pos + bs = of_nat n"
  shows "\<exists>m s. block_loop bs f data len state pos src = Some (s, of_nat m, drop m data) \<and> m \<le> length data \<and>
    length data - m < unat bs \<and> absorb (unat bs) f (f state (take (unat bs) src)) (drop n data) = (s, drop m data)"
  using assms(4-)
proof (induction "length data - n" arbitrary: n pos src state rule: less_induct)
  case less
  let ?s = "f state (take (unat bs) src)"
  have n32: "unat (of_nat n :: u32) = n" using less.prems assms(1,2) by (intro unat_of_nat32) linarith
  have len: "unat len = length data" using assms by (simp add: unat_of_nat32)
  have bs1: "unat (bs - 1) = unat bs - 1" using assms(1) by (rule unat_pred)
  have "unat (of_nat n + (bs - 1)) = n + (unat bs - 1)"
    using less.prems assms(1,2) n32 bs1 by (subst unat_add_small) simp_all
  then have test: "of_nat n + (bs - 1) < len \<longleftrightarrow> n + unat bs \<le> length data"
    using len assms(1) by (auto simp: word_less_nat_alt)
  have loop: "block_loop bs f data len state pos src =
      (if n + unat bs \<le> length data then block_loop bs f data len ?s (of_nat n) (drop n data)
       else Some (?s, of_nat n, drop n data))"
    using less.prems by (subst block_loop.simps) (simp add: Let_def test n32)
  show ?case
  proof (cases "n + unat bs \<le> length data")
    case True
    have step: "of_nat n + bs = (of_nat (n + unat bs) :: u32)" by simp
    have less: "length data - (n + unat bs) < length data - n" "unat bs \<le> length (drop n data)"
      using True assms(1) by simp_all
    obtain m s where "block_loop bs f data len ?s (of_nat n) (drop n data) = Some (s, of_nat m, drop m data)"
      "m \<le> length data" "length data - m < unat bs"
      "absorb (unat bs) f (f ?s (take (unat bs) (drop n data))) (drop (n + unat bs) data) = (s, drop m data)"
      using less.hyps [OF less True step, of ?s] by blast
    then show ?thesis
      using loop True assms(1) by (auto simp: absorb_step [of _ "drop n data"] add.commute)
  next
    case False
    then show ?thesis using loop less.prems by (auto simp: absorb_short)
  qed
qed

lemma block_update_absorbs:
  assumes "0 < unat bs" "length data + unat bs \<le> 2 ^ 32"
    and "unat partial < unat bs" "unat bs \<le> length buf"
  shows "\<exists>s b. block_update bs f state buf partial data (of_nat (length data)) =
      Some (s, b, of_nat ((unat partial + length data) mod unat bs)) \<and> length b = length buf \<and>
    (s, take ((unat partial + length data) mod unat bs) b) = absorb (unat bs) f state (take (unat partial) buf @ data)"
proof -
  let ?len = "of_nat (length data) :: u32" and ?p = "unat partial" and ?B = "unat bs"
  have len: "unat ?len = length data" using assms by (intro unat_of_nat32) linarith
  have bs1: "unat (bs - 1) = ?B - 1" using assms(1) by (rule unat_pred)
  have plen: "unat (partial + ?len) = ?p + length data"
    using assms len by (subst unat_add_small) simp_all
  then have test: "bs - 1 < partial + ?len \<longleftrightarrow> ?B \<le> ?p + length data"
    using bs1 assms(1) by (auto simp: word_less_nat_alt)
  show ?thesis
  proof (cases "?B \<le> ?p + length data")
    case False
    have "partial + ?len = of_nat (?p + length data)" by simp
    then show ?thesis
      using False test assms len by (simp add: block_update_def absorb_short)
  next
    case True
    define b1 where "b1 = (if partial \<noteq> 0 then take ?p buf @ take (?B - ?p) data @ drop ?B buf else buf)"
    define src where "src = (if partial \<noteq> 0 then b1 else data)"
    have p0: "partial = 0 \<longleftrightarrow> ?p = 0" by (simp add: unat_eq_0)
    have pb: "unat (- partial + bs) = ?B - ?p"
      using assms(3) by (metis add.commute diff_conv_add_uminus less_imp_le unat_sub word_le_nat_alt)
    have fits: "?B - ?p \<le> length data" using True by simp
    have pos: "- partial + bs = of_nat (?B - ?p)" by (simp flip: pb)
    have src: "?B \<le> length src" "take ?B src = take ?p buf @ take (?B - ?p) data"
      using True assms p0 by (auto simp: src_def b1_def)
    obtain m s where m: "block_loop bs f data ?len state (- partial) src = Some (s, of_nat m, drop m data)"
      "m \<le> length data" "length data - m < ?B"
      "absorb ?B f (f state (take ?B src)) (drop (?B - ?p) data) = (s, drop m data)"
      using block_loop_absorbs [OF assms(1,2) refl src(1) fits pos, of f state] by blast
    have rest: "?len - of_nat m = of_nat (length data - m)" using m(2) by (simp add: of_nat_diff)
    have urest: "unat (of_nat (length data - m) :: u32) = length data - m"
      using len assms(1,2) by (intro unat_of_nat32) linarith
    have b1: "length b1 = length buf" using True assms p0 by (auto simp: b1_def)
    have upd: "block_update bs f state buf partial data ?len =
        Some (s, drop m data @ drop (length data - m) b1, of_nat (length data - m))"
    proof (cases "partial = 0")
      case z: True
      then show ?thesis
        using True test m assms rest urest b1 unfolding block_update_def by (simp add: src_def b1_def)
    next
      case False
      have "memcpy_at buf ?p data (unat (bs - partial)) = Some b1" using True assms False pb by (simp add: b1_def)
      moreover have "memcpy_at b1 0 (drop m data) (length data - m) = Some (drop m data @ drop (length data - m) b1)"
        using m(2,3) assms(4) b1 by simp
      ultimately show ?thesis
        using True test m(1) False unfolding block_update_def
        by (simp add: src_def rest urest del: memcpy_at_Some)
    qed
    have ab: "absorb ?B f state (take ?p buf @ data) = (s, drop m data)"
    proof -
      have "absorb ?B f state ((take ?p buf @ take (?B - ?p) data) @ drop (?B - ?p) data) =
          absorb ?B f (f state (take ?p buf @ take (?B - ?p) data)) (drop (?B - ?p) data)"
        by (rule absorb_block) (use True assms in auto)
      then show ?thesis using m(4) src(2) by simp
    qed
    have "length data - m = (?p + length data) mod ?B"
      using length_absorb_rest [OF assms(1), of f state "take ?p buf @ data"] ab assms by simp
    then show ?thesis using upd ab b1 m(2,3) assms(4) by simp
  qed
qed

end
