(* ===== verification/Md5.thy ===== *)
theory Md5
  imports Digest
begin

text \<open>
  \<^verbatim>\<open>crc/md5.c\<close> and \<^verbatim>\<open>crc/md5.h\<close>: MD5 with its 64 unrolled steps. The transform is shown to be the loop of
  RFC 1321, the update function to satisfy the contract of a block digest, and the whole to compute the
  chaining value of the padded message. The pointer \<^verbatim>\<open>hash\<close> of the context is modelled by the words it
  points to, \<^verbatim>\<open>block\<close> by its 64 bytes in memory order.
\<close>

section \<open>Definitions\<close>

definition F1 :: "u32 \<Rightarrow> u32 \<Rightarrow> u32 \<Rightarrow> u32" where "F1 x y z = z XOR (x AND (y XOR z))"
definition F2 :: "u32 \<Rightarrow> u32 \<Rightarrow> u32 \<Rightarrow> u32" where "F2 x y z = F1 z x y"
definition F3 :: "u32 \<Rightarrow> u32 \<Rightarrow> u32 \<Rightarrow> u32" where "F3 x y z = x XOR y XOR z"
definition F4 :: "u32 \<Rightarrow> u32 \<Rightarrow> u32 \<Rightarrow> u32" where "F4 x y z = y XOR (x OR NOT z)"

definition MD5STEP :: "(u32 \<Rightarrow> u32 \<Rightarrow> u32 \<Rightarrow> u32) \<Rightarrow> u32 \<Rightarrow> u32 \<Rightarrow> u32 \<Rightarrow> u32 \<Rightarrow> u32 \<Rightarrow> nat \<Rightarrow> u32" where
  "MD5STEP f w x y z inp s = (let w = w + (f x y z + inp) in (push_bit s w OR drop_bit (32 - s) w) + x)"

definition md5_transform :: "u32 list \<Rightarrow> u32 list \<Rightarrow> u32 list" where
  "md5_transform hash inp = (let
     a = hash ! 0; b = hash ! 1; c = hash ! 2; d = hash ! 3;
     a = MD5STEP F1 a b c d (inp ! 0 + 0xd76aa478) 7;
     d = MD5STEP F1 d a b c (inp ! 1 + 0xe8c7b756) 12;
     c = MD5STEP F1 c d a b (inp ! 2 + 0x242070db) 17;
     b = MD5STEP F1 b c d a (inp ! 3 + 0xc1bdceee) 22;
     a = MD5STEP F1 a b c d (inp ! 4 + 0xf57c0faf) 7;
     d = MD5STEP F1 d a b c (inp ! 5 + 0x4787c62a) 12;
     c = MD5STEP F1 c d a b (inp ! 6 + 0xa8304613) 17;
     b = MD5STEP F1 b c d a (inp ! 7 + 0xfd469501) 22;
     a = MD5STEP F1 a b c d (inp ! 8 + 0x698098d8) 7;
     d = MD5STEP F1 d a b c (inp ! 9 + 0x8b44f7af) 12;
     c = MD5STEP F1 c d a b (inp ! 10 + 0xffff5bb1) 17;
     b = MD5STEP F1 b c d a (inp ! 11 + 0x895cd7be) 22;
     a = MD5STEP F1 a b c d (inp ! 12 + 0x6b901122) 7;
     d = MD5STEP F1 d a b c (inp ! 13 + 0xfd987193) 12;
     c = MD5STEP F1 c d a b (inp ! 14 + 0xa679438e) 17;
     b = MD5STEP F1 b c d a (inp ! 15 + 0x49b40821) 22;
     a = MD5STEP F2 a b c d (inp ! 1 + 0xf61e2562) 5;
     d = MD5STEP F2 d a b c (inp ! 6 + 0xc040b340) 9;
     c = MD5STEP F2 c d a b (inp ! 11 + 0x265e5a51) 14;
     b = MD5STEP F2 b c d a (inp ! 0 + 0xe9b6c7aa) 20;
     a = MD5STEP F2 a b c d (inp ! 5 + 0xd62f105d) 5;
     d = MD5STEP F2 d a b c (inp ! 10 + 0x02441453) 9;
     c = MD5STEP F2 c d a b (inp ! 15 + 0xd8a1e681) 14;
     b = MD5STEP F2 b c d a (inp ! 4 + 0xe7d3fbc8) 20;
     a = MD5STEP F2 a b c d (inp ! 9 + 0x21e1cde6) 5;
     d = MD5STEP F2 d a b c (inp ! 14 + 0xc33707d6) 9;
     c = MD5STEP F2 c d a b (inp ! 3 + 0xf4d50d87) 14;
     b = MD5STEP F2 b c d a (inp ! 8 + 0x455a14ed) 20;
     a = MD5STEP F2 a b c d (inp ! 13 + 0xa9e3e905) 5;
     d = MD5STEP F2 d a b c (inp ! 2 + 0xfcefa3f8) 9;
     c = MD5STEP F2 c d a b (inp ! 7 + 0x676f02d9) 14;
     b = MD5STEP F2 b c d a (inp ! 12 + 0x8d2a4c8a) 20;
     a = MD5STEP F3 a b c d (inp ! 5 + 0xfffa3942) 4;
     d = MD5STEP F3 d a b c (inp ! 8 + 0x8771f681) 11;
     c = MD5STEP F3 c d a b (inp ! 11 + 0x6d9d6122) 16;
     b = MD5STEP F3 b c d a (inp ! 14 + 0xfde5380c) 23;
     a = MD5STEP F3 a b c d (inp ! 1 + 0xa4beea44) 4;
     d = MD5STEP F3 d a b c (inp ! 4 + 0x4bdecfa9) 11;
     c = MD5STEP F3 c d a b (inp ! 7 + 0xf6bb4b60) 16;
     b = MD5STEP F3 b c d a (inp ! 10 + 0xbebfbc70) 23;
     a = MD5STEP F3 a b c d (inp ! 13 + 0x289b7ec6) 4;
     d = MD5STEP F3 d a b c (inp ! 0 + 0xeaa127fa) 11;
     c = MD5STEP F3 c d a b (inp ! 3 + 0xd4ef3085) 16;
     b = MD5STEP F3 b c d a (inp ! 6 + 0x04881d05) 23;
     a = MD5STEP F3 a b c d (inp ! 9 + 0xd9d4d039) 4;
     d = MD5STEP F3 d a b c (inp ! 12 + 0xe6db99e5) 11;
     c = MD5STEP F3 c d a b (inp ! 15 + 0x1fa27cf8) 16;
     b = MD5STEP F3 b c d a (inp ! 2 + 0xc4ac5665) 23;
     a = MD5STEP F4 a b c d (inp ! 0 + 0xf4292244) 6;
     d = MD5STEP F4 d a b c (inp ! 7 + 0x432aff97) 10;
     c = MD5STEP F4 c d a b (inp ! 14 + 0xab9423a7) 15;
     b = MD5STEP F4 b c d a (inp ! 5 + 0xfc93a039) 21;
     a = MD5STEP F4 a b c d (inp ! 12 + 0x655b59c3) 6;
     d = MD5STEP F4 d a b c (inp ! 3 + 0x8f0ccc92) 10;
     c = MD5STEP F4 c d a b (inp ! 10 + 0xffeff47d) 15;
     b = MD5STEP F4 b c d a (inp ! 1 + 0x85845dd1) 21;
     a = MD5STEP F4 a b c d (inp ! 8 + 0x6fa87e4f) 6;
     d = MD5STEP F4 d a b c (inp ! 15 + 0xfe2ce6e0) 10;
     c = MD5STEP F4 c d a b (inp ! 6 + 0xa3014314) 15;
     b = MD5STEP F4 b c d a (inp ! 13 + 0x4e0811a1) 21;
     a = MD5STEP F4 a b c d (inp ! 4 + 0xf7537e82) 6;
     d = MD5STEP F4 d a b c (inp ! 11 + 0xbd3af235) 10;
     c = MD5STEP F4 c d a b (inp ! 2 + 0x2ad7d2bb) 15;
     b = MD5STEP F4 b c d a (inp ! 9 + 0xeb86d391) 21
   in [hash ! 0 + a, hash ! 1 + b, hash ! 2 + c, hash ! 3 + d])"

record fio_md5_ctx =
  md5_hash :: "u32 list"
  md5_block :: bytes
  byte_count :: u64

text \<open>The 16 words of a block of 64 bytes on a little-endian machine.\<close>

definition words16 :: "bytes \<Rightarrow> u32 list" where
  "words16 blk = map (\<lambda>i. le_word (take 4 (drop (4 * i) blk))) [0..<16]"

definition fio_md5_init :: "fio_md5_ctx \<Rightarrow> fio_md5_ctx" where
  "fio_md5_init mctx = mctx\<lparr>md5_hash := [0x67452301, 0xefcdab89, 0x98badcfe, 0x10325476]\<rparr>"

text \<open>A call of \<^verbatim>\<open>md5_transform\<close> on the block of the context.\<close>

definition md5_block_step :: "fio_md5_ctx \<Rightarrow> fio_md5_ctx" where
  "md5_block_step mctx = mctx\<lparr>md5_hash := md5_transform (md5_hash mctx) (words16 (md5_block mctx))\<rparr>"

function md5_update_loop :: "fio_md5_ctx \<Rightarrow> bytes \<Rightarrow> fio_md5_ctx option" where
  "md5_update_loop mctx data =
     (if 64 \<le> length data
      then do {
        blk \<leftarrow> memcpy_at (md5_block mctx) 0 data 64;
        md5_update_loop (md5_block_step (mctx\<lparr>md5_block := blk\<rparr>)) (drop 64 data)
      }
      else do {
        blk \<leftarrow> memcpy_at (md5_block mctx) 0 data (length data);
        Some (mctx\<lparr>md5_block := blk\<rparr>)
      })"
  by pat_completeness auto
termination by (relation "measure (\<lambda>(mctx, data). length data)") auto

declare md5_update_loop.simps [simp del]

definition fio_md5_update :: "fio_md5_ctx \<Rightarrow> bytes \<Rightarrow> fio_md5_ctx option" where
  "fio_md5_update mctx data = (let
     avail = 64 - unat (byte_count mctx AND 0x3f);
     len = length data;
     mctx = mctx\<lparr>byte_count := byte_count mctx + of_nat len\<rparr>
   in if len < avail
      then do {
        blk \<leftarrow> memcpy_at (md5_block mctx) (64 - avail) data len;
        Some (mctx\<lparr>md5_block := blk\<rparr>)
      }
      else do {
        blk \<leftarrow> memcpy_at (md5_block mctx) (64 - avail) data avail;
        md5_update_loop (md5_block_step (mctx\<lparr>md5_block := blk\<rparr>)) (drop avail data)
      })"

definition fio_md5_final :: "fio_md5_ctx \<Rightarrow> fio_md5_ctx option" where
  "fio_md5_final mctx = (let
     offset = unat (byte_count mctx AND 0x3f);
     padding = 56 - (int offset + 1)
   in do {
     blk \<leftarrow> memcpy_at (md5_block mctx) offset [0x80] 1;
     (mctx, p, padding) \<leftarrow>
       (if padding < 0
        then do {
          blk \<leftarrow> memcpy_at blk (offset + 1) (replicate (nat (padding + 8)) 0) (nat (padding + 8));
          Some (md5_block_step (mctx\<lparr>md5_block := blk\<rparr>), 0, 56)
        }
        else Some (mctx\<lparr>md5_block := blk\<rparr>, offset + 1, nat padding));
     blk \<leftarrow> memcpy_at (md5_block mctx) p (replicate padding 0) padding;
     blk \<leftarrow> memcpy_at blk 56 (le_bytes 4 (ucast (push_bit 3 (byte_count mctx)) :: u32)) 4;
     blk \<leftarrow> memcpy_at blk 60 (le_bytes 4 (ucast (drop_bit 29 (byte_count mctx)) :: u32)) 4;
     Some (md5_block_step (mctx\<lparr>md5_block := blk\<rparr>))
   })"

section \<open>The transform is the loop of RFC 1321\<close>

definition md5_K :: "u32 list" where
  "md5_K = [
   0xd76aa478, 0xe8c7b756, 0x242070db, 0xc1bdceee, 0xf57c0faf, 0x4787c62a, 0xa8304613, 0xfd469501,
   0x698098d8, 0x8b44f7af, 0xffff5bb1, 0x895cd7be, 0x6b901122, 0xfd987193, 0xa679438e, 0x49b40821,
   0xf61e2562, 0xc040b340, 0x265e5a51, 0xe9b6c7aa, 0xd62f105d, 0x02441453, 0xd8a1e681, 0xe7d3fbc8,
   0x21e1cde6, 0xc33707d6, 0xf4d50d87, 0x455a14ed, 0xa9e3e905, 0xfcefa3f8, 0x676f02d9, 0x8d2a4c8a,
   0xfffa3942, 0x8771f681, 0x6d9d6122, 0xfde5380c, 0xa4beea44, 0x4bdecfa9, 0xf6bb4b60, 0xbebfbc70,
   0x289b7ec6, 0xeaa127fa, 0xd4ef3085, 0x04881d05, 0xd9d4d039, 0xe6db99e5, 0x1fa27cf8, 0xc4ac5665,
   0xf4292244, 0x432aff97, 0xab9423a7, 0xfc93a039, 0x655b59c3, 0x8f0ccc92, 0xffeff47d, 0x85845dd1,
   0x6fa87e4f, 0xfe2ce6e0, 0xa3014314, 0x4e0811a1, 0xf7537e82, 0xbd3af235, 0x2ad7d2bb, 0xeb86d391]"

definition md5_shift :: "nat \<Rightarrow> nat" where
  "md5_shift i = [7, 12, 17, 22, 5, 9, 14, 20, 4, 11, 16, 23, 6, 10, 15, 21] ! (4 * (i div 16) + i mod 4)"

definition md5_index :: "nat \<Rightarrow> nat" where
  "md5_index i = (if i < 16 then i else if i < 32 then (5 * i + 1) mod 16 else if i < 48 then (3 * i + 5) mod 16
     else 7 * i mod 16)"

definition md5_fun :: "nat \<Rightarrow> u32 \<Rightarrow> u32 \<Rightarrow> u32 \<Rightarrow> u32" where
  "md5_fun i = (if i < 16 then F1 else if i < 32 then F2 else if i < 48 then F3 else F4)"

definition md5_round :: "u32 list \<Rightarrow> u32 \<times> u32 \<times> u32 \<times> u32 \<Rightarrow> nat \<Rightarrow> u32 \<times> u32 \<times> u32 \<times> u32" where
  "md5_round inp = (\<lambda>(a, b, c, d) i.
     (d, MD5STEP (md5_fun i) a b c d (inp ! md5_index i + md5_K ! i) (md5_shift i), b, c))"

definition md5_rounds :: "u32 list \<Rightarrow> u32 list \<Rightarrow> u32 list" where
  "md5_rounds hash inp =
     (case foldl (md5_round inp) (hash ! 0, hash ! 1, hash ! 2, hash ! 3) [0..<64] of
        (a, b, c, d) \<Rightarrow> [hash ! 0 + a, hash ! 1 + b, hash ! 2 + c, hash ! 3 + d])"

lemma md5_round_Let:
  "foldl (md5_round inp) (a, b, c, d) (i # is) =
    (let w = MD5STEP (md5_fun i) a b c d (inp ! md5_index i + md5_K ! i) (md5_shift i)
     in foldl (md5_round inp) (d, w, b, c) is)"
  by (simp add: md5_round_def)

lemma md5_params:
  "md5_fun 0 = F1" "md5_index 0 = 0" "md5_K ! 0 = 0xd76aa478" "md5_shift 0 = 7"
  "md5_fun 1 = F1" "md5_index 1 = 1" "md5_K ! 1 = 0xe8c7b756" "md5_shift 1 = 12"
  "md5_fun 2 = F1" "md5_index 2 = 2" "md5_K ! 2 = 0x242070db" "md5_shift 2 = 17"
  "md5_fun 3 = F1" "md5_index 3 = 3" "md5_K ! 3 = 0xc1bdceee" "md5_shift 3 = 22"
  "md5_fun 4 = F1" "md5_index 4 = 4" "md5_K ! 4 = 0xf57c0faf" "md5_shift 4 = 7"
  "md5_fun 5 = F1" "md5_index 5 = 5" "md5_K ! 5 = 0x4787c62a" "md5_shift 5 = 12"
  "md5_fun 6 = F1" "md5_index 6 = 6" "md5_K ! 6 = 0xa8304613" "md5_shift 6 = 17"
  "md5_fun 7 = F1" "md5_index 7 = 7" "md5_K ! 7 = 0xfd469501" "md5_shift 7 = 22"
  "md5_fun 8 = F1" "md5_index 8 = 8" "md5_K ! 8 = 0x698098d8" "md5_shift 8 = 7"
  "md5_fun 9 = F1" "md5_index 9 = 9" "md5_K ! 9 = 0x8b44f7af" "md5_shift 9 = 12"
  "md5_fun 10 = F1" "md5_index 10 = 10" "md5_K ! 10 = 0xffff5bb1" "md5_shift 10 = 17"
  "md5_fun 11 = F1" "md5_index 11 = 11" "md5_K ! 11 = 0x895cd7be" "md5_shift 11 = 22"
  "md5_fun 12 = F1" "md5_index 12 = 12" "md5_K ! 12 = 0x6b901122" "md5_shift 12 = 7"
  "md5_fun 13 = F1" "md5_index 13 = 13" "md5_K ! 13 = 0xfd987193" "md5_shift 13 = 12"
  "md5_fun 14 = F1" "md5_index 14 = 14" "md5_K ! 14 = 0xa679438e" "md5_shift 14 = 17"
  "md5_fun 15 = F1" "md5_index 15 = 15" "md5_K ! 15 = 0x49b40821" "md5_shift 15 = 22"
  "md5_fun 16 = F2" "md5_index 16 = 1" "md5_K ! 16 = 0xf61e2562" "md5_shift 16 = 5"
  "md5_fun 17 = F2" "md5_index 17 = 6" "md5_K ! 17 = 0xc040b340" "md5_shift 17 = 9"
  "md5_fun 18 = F2" "md5_index 18 = 11" "md5_K ! 18 = 0x265e5a51" "md5_shift 18 = 14"
  "md5_fun 19 = F2" "md5_index 19 = 0" "md5_K ! 19 = 0xe9b6c7aa" "md5_shift 19 = 20"
  "md5_fun 20 = F2" "md5_index 20 = 5" "md5_K ! 20 = 0xd62f105d" "md5_shift 20 = 5"
  "md5_fun 21 = F2" "md5_index 21 = 10" "md5_K ! 21 = 0x02441453" "md5_shift 21 = 9"
  "md5_fun 22 = F2" "md5_index 22 = 15" "md5_K ! 22 = 0xd8a1e681" "md5_shift 22 = 14"
  "md5_fun 23 = F2" "md5_index 23 = 4" "md5_K ! 23 = 0xe7d3fbc8" "md5_shift 23 = 20"
  "md5_fun 24 = F2" "md5_index 24 = 9" "md5_K ! 24 = 0x21e1cde6" "md5_shift 24 = 5"
  "md5_fun 25 = F2" "md5_index 25 = 14" "md5_K ! 25 = 0xc33707d6" "md5_shift 25 = 9"
  "md5_fun 26 = F2" "md5_index 26 = 3" "md5_K ! 26 = 0xf4d50d87" "md5_shift 26 = 14"
  "md5_fun 27 = F2" "md5_index 27 = 8" "md5_K ! 27 = 0x455a14ed" "md5_shift 27 = 20"
  "md5_fun 28 = F2" "md5_index 28 = 13" "md5_K ! 28 = 0xa9e3e905" "md5_shift 28 = 5"
  "md5_fun 29 = F2" "md5_index 29 = 2" "md5_K ! 29 = 0xfcefa3f8" "md5_shift 29 = 9"
  "md5_fun 30 = F2" "md5_index 30 = 7" "md5_K ! 30 = 0x676f02d9" "md5_shift 30 = 14"
  "md5_fun 31 = F2" "md5_index 31 = 12" "md5_K ! 31 = 0x8d2a4c8a" "md5_shift 31 = 20"
  "md5_fun 32 = F3" "md5_index 32 = 5" "md5_K ! 32 = 0xfffa3942" "md5_shift 32 = 4"
  "md5_fun 33 = F3" "md5_index 33 = 8" "md5_K ! 33 = 0x8771f681" "md5_shift 33 = 11"
  "md5_fun 34 = F3" "md5_index 34 = 11" "md5_K ! 34 = 0x6d9d6122" "md5_shift 34 = 16"
  "md5_fun 35 = F3" "md5_index 35 = 14" "md5_K ! 35 = 0xfde5380c" "md5_shift 35 = 23"
  "md5_fun 36 = F3" "md5_index 36 = 1" "md5_K ! 36 = 0xa4beea44" "md5_shift 36 = 4"
  "md5_fun 37 = F3" "md5_index 37 = 4" "md5_K ! 37 = 0x4bdecfa9" "md5_shift 37 = 11"
  "md5_fun 38 = F3" "md5_index 38 = 7" "md5_K ! 38 = 0xf6bb4b60" "md5_shift 38 = 16"
  "md5_fun 39 = F3" "md5_index 39 = 10" "md5_K ! 39 = 0xbebfbc70" "md5_shift 39 = 23"
  "md5_fun 40 = F3" "md5_index 40 = 13" "md5_K ! 40 = 0x289b7ec6" "md5_shift 40 = 4"
  "md5_fun 41 = F3" "md5_index 41 = 0" "md5_K ! 41 = 0xeaa127fa" "md5_shift 41 = 11"
  "md5_fun 42 = F3" "md5_index 42 = 3" "md5_K ! 42 = 0xd4ef3085" "md5_shift 42 = 16"
  "md5_fun 43 = F3" "md5_index 43 = 6" "md5_K ! 43 = 0x04881d05" "md5_shift 43 = 23"
  "md5_fun 44 = F3" "md5_index 44 = 9" "md5_K ! 44 = 0xd9d4d039" "md5_shift 44 = 4"
  "md5_fun 45 = F3" "md5_index 45 = 12" "md5_K ! 45 = 0xe6db99e5" "md5_shift 45 = 11"
  "md5_fun 46 = F3" "md5_index 46 = 15" "md5_K ! 46 = 0x1fa27cf8" "md5_shift 46 = 16"
  "md5_fun 47 = F3" "md5_index 47 = 2" "md5_K ! 47 = 0xc4ac5665" "md5_shift 47 = 23"
  "md5_fun 48 = F4" "md5_index 48 = 0" "md5_K ! 48 = 0xf4292244" "md5_shift 48 = 6"
  "md5_fun 49 = F4" "md5_index 49 = 7" "md5_K ! 49 = 0x432aff97" "md5_shift 49 = 10"
  "md5_fun 50 = F4" "md5_index 50 = 14" "md5_K ! 50 = 0xab9423a7" "md5_shift 50 = 15"
  "md5_fun 51 = F4" "md5_index 51 = 5" "md5_K ! 51 = 0xfc93a039" "md5_shift 51 = 21"
  "md5_fun 52 = F4" "md5_index 52 = 12" "md5_K ! 52 = 0x655b59c3" "md5_shift 52 = 6"
  "md5_fun 53 = F4" "md5_index 53 = 3" "md5_K ! 53 = 0x8f0ccc92" "md5_shift 53 = 10"
  "md5_fun 54 = F4" "md5_index 54 = 10" "md5_K ! 54 = 0xffeff47d" "md5_shift 54 = 15"
  "md5_fun 55 = F4" "md5_index 55 = 1" "md5_K ! 55 = 0x85845dd1" "md5_shift 55 = 21"
  "md5_fun 56 = F4" "md5_index 56 = 8" "md5_K ! 56 = 0x6fa87e4f" "md5_shift 56 = 6"
  "md5_fun 57 = F4" "md5_index 57 = 15" "md5_K ! 57 = 0xfe2ce6e0" "md5_shift 57 = 10"
  "md5_fun 58 = F4" "md5_index 58 = 6" "md5_K ! 58 = 0xa3014314" "md5_shift 58 = 15"
  "md5_fun 59 = F4" "md5_index 59 = 13" "md5_K ! 59 = 0x4e0811a1" "md5_shift 59 = 21"
  "md5_fun 60 = F4" "md5_index 60 = 4" "md5_K ! 60 = 0xf7537e82" "md5_shift 60 = 6"
  "md5_fun 61 = F4" "md5_index 61 = 11" "md5_K ! 61 = 0xbd3af235" "md5_shift 61 = 10"
  "md5_fun 62 = F4" "md5_index 62 = 2" "md5_K ! 62 = 0x2ad7d2bb" "md5_shift 62 = 15"
  "md5_fun 63 = F4" "md5_index 63 = 9" "md5_K ! 63 = 0xeb86d391" "md5_shift 63 = 21"
  by (simp_all add: md5_fun_def md5_index_def md5_K_def md5_shift_def)

lemma md5_transform_rounds: "md5_transform hash inp = md5_rounds hash inp"
  unfolding md5_transform_def md5_rounds_def upt_64
  by (simp only: md5_round_Let md5_params foldl_Nil case_Let prod.case cong del: let_weak_cong)
     (simp only: Let_def [of "hash ! _"])

section \<open>The contract of a block digest\<close>

abbreviation md5_compress :: "u32 list \<Rightarrow> bytes \<Rightarrow> u32 list" where
  "md5_compress s blk \<equiv> md5_transform s (words16 blk)"

definition md5_inv :: "fio_md5_ctx \<Rightarrow> bool" where
  "md5_inv c \<longleftrightarrow> length (md5_block c) = 64"

definition md5_pending :: "fio_md5_ctx \<Rightarrow> bytes" where
  "md5_pending c = take (unat (byte_count c) mod 64) (md5_block c)"

lemma md5_update_loop_absorbs:
  "length (md5_block c) = 64 \<Longrightarrow> \<exists>c'. md5_update_loop c d = Some c' \<and> length (md5_block c') = 64 \<and>
    byte_count c' = byte_count c \<and>
    (md5_hash c', take (length d mod 64) (md5_block c')) = absorb 64 md5_compress (md5_hash c) d"
proof (induction c d rule: md5_update_loop.induct)
  case (1 c d)
  show ?case
  proof (cases "64 \<le> length d")
    case True
    have "memcpy_at (md5_block c) 0 d 64 = Some (take 64 d)" using True 1(2) by simp
    with 1(1) [OF True this] True show ?thesis
      by (subst md5_update_loop.simps) (simp add: md5_block_step_def absorb_step le_mod_geq)
  next
    case False
    then show ?thesis using 1(2) by (subst md5_update_loop.simps) (simp add: absorb_short)
  qed
qed

lemma md5_update_absorbs:
  assumes "md5_inv c" and "length d < 2 ^ 32"
  shows "\<exists>c'. fio_md5_update c d = Some c' \<and> md5_inv c' \<and>
    (md5_hash c', md5_pending c') = absorb 64 md5_compress (md5_hash c) (md5_pending c @ d) \<and>
    unat (byte_count c') = (unat (byte_count c) + length d) mod 2 ^ 64"
proof -
  let ?k = "unat (byte_count c) mod 64" and ?n = "length d"
  have k: "unat (byte_count c AND 0x3f) = ?k" by (rule unat_and_3f)
  have len: "length (md5_block c) = 64" using assms(1) by (simp add: md5_inv_def)
  have tot: "unat (byte_count c + of_nat ?n) = (unat (byte_count c) + ?n) mod 2 ^ 64"
    using unat_add_of_nat [of "byte_count c" ?n] by simp
  then have cnt: "unat (byte_count c + of_nat ?n) mod 64 = (?k + ?n) mod 64"
    by (simp only: mod_mod_64 mod_add_left_eq)
  show ?thesis
  proof (cases "?n < 64 - ?k")
    case True
    then show ?thesis
      using len cnt tot by (simp add: fio_md5_update_def k md5_inv_def md5_pending_def absorb_short Let_def)
  next
    case False
    define c1 where "c1 = md5_block_step (c\<lparr>byte_count := byte_count c + of_nat ?n,
      md5_block := take ?k (md5_block c) @ take (64 - ?k) d\<rparr>)"
    have c1: "length (md5_block c1) = 64" "byte_count c1 = byte_count c + of_nat ?n"
      "md5_hash c1 = md5_compress (md5_hash c) (take ?k (md5_block c) @ take (64 - ?k) d)"
      using False len by (simp_all add: c1_def md5_block_step_def)
    have k64: "?k < 64" by simp
    have upd: "fio_md5_update c d = md5_update_loop c1 (drop (64 - ?k) d)"
      using False len k64 by (simp add: fio_md5_update_def k c1_def Let_def)
    have "(?k + ?n) mod 64 = (?n - (64 - ?k)) mod 64"
      using False by (intro mod_rest [OF k64]) simp
    then have rest: "length (drop (64 - ?k) d) mod 64 = unat (byte_count c1) mod 64" by (simp add: c1 cnt)
    have "absorb 64 md5_compress (md5_hash c) ((take ?k (md5_block c) @ take (64 - ?k) d) @ drop (64 - ?k) d) =
        absorb 64 md5_compress (md5_hash c1) (drop (64 - ?k) d)"
      unfolding c1(3) by (rule absorb_block) (use False len in auto)
    then show ?thesis
      using md5_update_loop_absorbs [OF c1(1), of "drop (64 - ?k) d"] rest c1(2) tot
      by (auto simp: upd md5_inv_def md5_pending_def)
  qed
qed

interpretation md5: block_digest 64 "2 ^ 64" "2 ^ 32 - 1" md5_compress md5_inv md5_hash md5_pending
  "unat \<circ> byte_count" fio_md5_update
proof
  fix c and d :: bytes
  assume "md5_inv c" "length d \<le> 2 ^ 32 - 1"
  then show "\<exists>c'. fio_md5_update c d = Some c' \<and> md5_inv c' \<and>
      (md5_hash c', md5_pending c') = absorb 64 md5_compress (md5_hash c) (md5_pending c @ d) \<and>
      (unat \<circ> byte_count) c' = ((unat \<circ> byte_count) c + length d) mod 2 ^ 64"
    using md5_update_absorbs [of c d] by simp
qed (simp_all add: unat_mod_64 [simplified])

section \<open>The digest of a message\<close>

lemma md5_final_absorbs:
  assumes "md5_inv c"
  shows "\<exists>c'. fio_md5_final c = Some c' \<and> md5_hash c' = fst (absorb 64 md5_compress (md5_hash c)
    (md5_pending c @ md_pad (unat (byte_count c)) (le_bytes 8 (push_bit 3 (byte_count c)))))"
proof -
  let ?k = "unat (byte_count c) mod 64" and ?b = "md5_block c"
  define lo where "lo = le_bytes 4 (ucast (push_bit 3 (byte_count c)) :: u32)"
  define hi where "hi = le_bytes 4 (ucast (drop_bit 29 (byte_count c)) :: u32)"
  have k: "unat (byte_count c AND 0x3f) = ?k" by (rule unat_and_3f)
  have len: "length ?b = 64" using assms by (simp add: md5_inv_def)
  have lh: "length lo = 4" "length hi = 4" by (simp_all add: lo_def hi_def)
  have "(ucast (drop_bit 32 (push_bit 3 (byte_count c))) :: u32) = ucast (drop_bit 29 (byte_count c))"
    by (rule bit_word_eqI) (auto simp: bit_simps)
  then have bits: "le_bytes 8 (push_bit 3 (byte_count c)) = lo @ hi"
    by (simp add: le_bytes_8_split lo_def hi_def)
  have k64: "?k < 64" by simp
  show ?thesis
  proof (cases "?k \<le> 55")
    case True
    define blk where "blk = take ?k ?b @ 0x80 # replicate (55 - ?k) 0 @ lo @ hi"
    have len64: "length blk = 64" using True len by (simp add: blk_def lh)
    have "fio_md5_final c = Some (md5_block_step (c\<lparr>md5_block := blk\<rparr>))"
    proof -
      define p q where "p = take ?k ?b" and "q = drop ?k ?b"
      have b: "?b = p @ q" "length p = ?k" "length q = 64 - ?k" using len k64 by (simp_all add: p_def q_def)
      have m1: "memcpy_at ?b ?k [0x80] 1 = Some ((p @ [0x80]) @ drop 1 q)"
        unfolding b(1) using b k64 by (subst memcpy_at_append) simp_all
      have m2: "memcpy_at ((p @ [0x80]) @ drop 1 q) (?k + 1) (replicate (55 - ?k) 0) (55 - ?k) =
          Some ((p @ [0x80] @ replicate (55 - ?k) 0) @ drop (56 - ?k) q)"
      proof -
        have "56 - ?k = Suc (55 - ?k)" using True by simp
        then show ?thesis using b True by (subst memcpy_at_append) (simp_all add: diff_le_mono)
      qed
      have m3: "memcpy_at ((p @ [0x80] @ replicate (55 - ?k) 0) @ drop (56 - ?k) q) 56 lo 4 =
          Some ((p @ [0x80] @ replicate (55 - ?k) 0 @ lo) @ drop (60 - ?k) q)"
        using b True lh by (subst memcpy_at_append) simp_all
      have m4: "memcpy_at ((p @ [0x80] @ replicate (55 - ?k) 0 @ lo) @ drop (60 - ?k) q) 60 hi 4 = Some blk"
        using b True lh by (subst memcpy_at_append) (simp_all add: blk_def p_def)
      have pad: "\<not> 56 - (int ?k + 1) < 0" "nat (56 - (int ?k + 1)) = 55 - ?k" using True by linarith+
      show ?thesis
        unfolding fio_md5_final_def Let_def k if_not_P [OF pad(1)] pad(2)
        by (simp add: m1 m2 m3 m4 flip: lo_def hi_def del: append_assoc append_Cons append_Nil One_nat_def)
    qed
    moreover have "md5_pending c @ md_pad (unat (byte_count c)) (le_bytes 8 (push_bit 3 (byte_count c))) = blk @ []"
    proof -
      have "(119 - ?k) mod 64 = 55 - ?k" using True by (rule pad_zeros)
      then show ?thesis by (simp add: md5_pending_def md_pad_def bits blk_def)
    qed
    moreover have "absorb 64 md5_compress (md5_hash c) (blk @ []) = (md5_compress (md5_hash c) blk, [])"
      using absorb_block [of 64 blk md5_compress "md5_hash c" "[]"] len64
        absorb_short [of "[]" 64 md5_compress] by simp
    ultimately show ?thesis
      unfolding md5_block_step_def by (simp only: fst_conv option.inject ex_simps simp_thms) simp
  next
    case False
    define b1 where "b1 = take ?k ?b @ 0x80 # replicate (63 - ?k) 0"
    define b2 where "b2 = replicate 56 0 @ lo @ hi"
    have len64: "length b1 = 64" "length b2 = 64" using False len k64 by (simp_all add: b1_def b2_def lh)
    have "fio_md5_final c = Some (md5_block_step (md5_block_step (c\<lparr>md5_block := b1\<rparr>)\<lparr>md5_block := b2\<rparr>))"
    proof -
      define p q where "p = take ?k ?b" and "q = drop ?k ?b"
      have b: "?b = p @ q" "length p = ?k" "length q = 64 - ?k" using len k64 by (simp_all add: p_def q_def)
      have m1: "memcpy_at ?b ?k [0x80] 1 = Some ((p @ [0x80]) @ drop 1 q)"
        unfolding b(1) using b k64 by (subst memcpy_at_append) simp_all
      have m2: "memcpy_at ((p @ [0x80]) @ drop 1 q) (?k + 1) (replicate (63 - ?k) 0) (63 - ?k) = Some b1"
        using b k64 by (subst memcpy_at_append) (simp_all add: b1_def p_def)
      have m3: "memcpy_at b1 0 (replicate 56 0) 56 = Some (replicate 56 0 @ drop 56 b1)"
        using len64 by simp
      have m4: "memcpy_at (replicate 56 0 @ drop 56 b1) 56 lo 4 = Some ((replicate 56 0 @ lo) @ drop 60 b1)"
        using len64 lh by (subst memcpy_at_append) simp_all
      have m5: "memcpy_at ((replicate 56 0 @ lo) @ drop 60 b1) 60 hi 4 = Some b2"
        using len64 lh by (subst memcpy_at_append) (simp_all add: b2_def)
      have pad: "56 - (int ?k + 1) < 0" "nat (56 - (int ?k + 1) + 8) = 63 - ?k" using False k64 by linarith+
      show ?thesis
        unfolding fio_md5_final_def Let_def k if_P [OF pad(1)] pad(2)
        by (simp add: m1 m2 m3 m4 m5 md5_block_step_def flip: lo_def hi_def
            del: append_assoc append_Cons append_Nil One_nat_def)
    qed
    moreover have "md5_pending c @ md_pad (unat (byte_count c)) (le_bytes 8 (push_bit 3 (byte_count c))) = b1 @ b2 @ []"
    proof -
      have "(119 - ?k) mod 64 = (63 - ?k) + 56" using False k64 by (intro pad_zeros) simp_all
      then show ?thesis
        by (simp only: md5_pending_def md_pad_def bits b1_def b2_def replicate_add append_assoc append_Cons append_Nil2)
    qed
    moreover have "absorb 64 md5_compress (md5_hash c) (b1 @ b2 @ []) =
        (md5_compress (md5_compress (md5_hash c) b1) b2, [])"
      using absorb_block [of 64 b1 md5_compress "md5_hash c" "b2 @ []"] len64
        absorb_block [of 64 b2 md5_compress "md5_compress (md5_hash c) b1" "[]"]
        absorb_short [of "[]" 64 md5_compress] by simp
    ultimately show ?thesis
      unfolding md5_block_step_def by (simp only: fst_conv option.inject ex_simps simp_thms) simp
  qed
qed

lemma md5_message:
  assumes "length (md5_block c) = 64" and "byte_count c = 0" and "\<forall>d \<in> set ds. length d < 2 ^ 32"
  shows "\<exists>c1 c2. feed fio_md5_update (fio_md5_init c) ds = Some c1 \<and> fio_md5_final c1 = Some c2 \<and>
    md5_hash c2 = fst (absorb 64 (\<lambda>s blk. md5_rounds s (words16 blk)) [0x67452301, 0xefcdab89, 0x98badcfe, 0x10325476]
      (concat ds @ md_pad (length (concat ds)) (le_bytes 8 (of_nat (8 * length (concat ds)) :: u64))))"
proof -
  let ?m = "concat ds" and ?c = "fio_md5_init c"
  have inv: "md5_inv ?c" "md5_pending ?c = []" "(unat \<circ> byte_count) ?c = 0"
    using assms by (simp_all add: md5_inv_def md5_pending_def fio_md5_init_def)
  obtain c1 where c1: "feed fio_md5_update ?c ds = Some c1" "md5_inv c1"
    "(md5_hash c1, md5_pending c1) = absorb 64 md5_compress (md5_hash ?c) ?m"
    "unat (byte_count c1) = length ?m mod 2 ^ 64"
  proof -
    have "\<forall>d \<in> set ds. length d \<le> 2 ^ 32 - 1" using assms(3) by fastforce
    from md5.feed_concat [OF inv(1,2) this] show thesis using that inv(3) by auto
  qed
  obtain c2 where c2: "fio_md5_final c1 = Some c2" "md5_hash c2 = fst (absorb 64 md5_compress (md5_hash c1)
    (md5_pending c1 @ md_pad (unat (byte_count c1)) (le_bytes 8 (push_bit 3 (byte_count c1)))))"
    using md5_final_absorbs [OF c1(2)] by blast
  have "byte_count c1 = of_nat (length ?m)"
    by (rule word_unat_eqI) (simp add: c1(4) unsigned_of_nat take_bit_eq_mod)
  then have bits: "push_bit 3 (byte_count c1) = of_nat (8 * length ?m)"
    by (simp add: push_bit_eq_mult)
  have "md_pad (unat (byte_count c1)) x = md_pad (length ?m) x" for x
    by (simp only: md_pad_def c1(4) mod_mod_64)
  then have "md5_hash c2 = fst (absorb 64 md5_compress (md5_hash ?c) (?m @ md_pad (length ?m) (le_bytes 8 (of_nat (8 * length ?m) :: u64))))"
    using c2(2) absorb_append [of 64 md5_compress "md5_hash ?c" ?m] by (simp add: bits flip: c1(3))
  then show ?thesis using c1(1) c2(1) by (simp add: md5_transform_rounds fio_md5_init_def)
qed

text \<open>
  On a context whose byte count is zero, initialising it, feeding it a message in pieces
  of any size and finishing gives the chaining value of RFC 1321: the 64-round loop over the blocks of the
  message padded with a 1 bit, zeros and its length in bits, no access leaving the block buffer.
\<close>

theorem md5_digest:
  assumes "length (md5_block c) = 64" and "byte_count c = 0" and "\<forall>d \<in> set ds. length d < 2 ^ 32"
  shows "\<exists>c1 c2. feed fio_md5_update (fio_md5_init c) ds = Some c1 \<and> fio_md5_final c1 = Some c2 \<and>
    md5_hash c2 = fst (absorb 64 (\<lambda>s blk. md5_rounds s (words16 blk)) [0x67452301, 0xefcdab89, 0x98badcfe, 0x10325476]
      (concat ds @ md_pad (length (concat ds)) (le_bytes 8 (of_nat (8 * length (concat ds)) :: u64))))"
  using assms by (rule md5_message)

theorem md5_digest_witness:
  "\<exists>c1 c2. feed fio_md5_update (fio_md5_init \<lparr>md5_hash = [], md5_block = replicate 64 0, byte_count = 0\<rparr>) [[97], [98, 99]] = Some c1 \<and>
    fio_md5_final c1 = Some c2"
  using md5_digest [of "\<lparr>md5_hash = [], md5_block = replicate 64 0, byte_count = 0\<rparr>" "[[97], [98, 99]]"] by auto

end
