(* ===== verification/Sha1.thy ===== *)
theory Sha1
  imports Digest
begin

text \<open>
  \<^verbatim>\<open>crc/sha1.c\<close> and \<^verbatim>\<open>crc/sha1.h\<close>: SHA-1 with its 80 unrolled rounds and the 16-word rolling message schedule.
  The block function is shown to be that of FIPS 180-4, the update function to satisfy the contract of a
  block digest, and the whole to compute the standard chaining value. The pointer \<^verbatim>\<open>H\<close> of the context is
  modelled by the words it points to, \<^verbatim>\<open>W\<close> by its 64 bytes in memory order.
\<close>

section \<open>Definitions\<close>

record fio_sha1_ctx =
  sha1_H :: "u32 list"
  sha1_W :: bytes
  sha1_size :: u64

definition fio_sha1_init :: "fio_sha1_ctx \<Rightarrow> fio_sha1_ctx" where
  "fio_sha1_init ctx = ctx\<lparr>sha1_size := 0,
     sha1_H := [0x67452301, 0xefcdab89, 0x98badcfe, 0x10325476, 0xc3d2e1f0]\<rparr>"

definition SHA_ROT :: "u32 \<Rightarrow> nat \<Rightarrow> nat \<Rightarrow> u32" where
  "SHA_ROT x l r = push_bit l x OR drop_bit r x"

definition SHA_ROL :: "u32 \<Rightarrow> nat \<Rightarrow> u32" where
  "SHA_ROL x n = SHA_ROT x n (32 - n)"

definition SHA_ROR :: "u32 \<Rightarrow> nat \<Rightarrow> u32" where
  "SHA_ROR x n = SHA_ROT x (32 - n) n"

text \<open>\<^verbatim>\<open>htonl(data[t])\<close> reads four bytes, most significant first. \<open>arr\<close> is the local \<^verbatim>\<open>array\<close>.\<close>

definition SHA_SRC :: "bytes \<Rightarrow> u32 list \<Rightarrow> nat \<Rightarrow> u32" where
  "SHA_SRC data arr t = be_word (take 4 (drop (4 * t) data))"

definition SHA_MIX :: "bytes \<Rightarrow> u32 list \<Rightarrow> nat \<Rightarrow> u32" where
  "SHA_MIX data arr t = SHA_ROL (arr ! ((t + 13) mod 16) XOR arr ! ((t + 8) mod 16) XOR arr ! ((t + 2) mod 16) XOR
     arr ! (t mod 16)) 1"

definition SHA_ROUND :: "bytes \<Rightarrow> nat \<Rightarrow> (bytes \<Rightarrow> u32 list \<Rightarrow> nat \<Rightarrow> u32) \<Rightarrow> u32 \<Rightarrow> u32 \<Rightarrow>
    u32 \<Rightarrow> u32 \<Rightarrow> u32 \<Rightarrow> u32 list \<Rightarrow> u32 \<times> u32 \<times> u32 list" where
  "SHA_ROUND data t input fn const rA rB rE arr = (let
     TEMP = input data arr t;
     arr = arr[t mod 16 := TEMP];
     rE = rE + (TEMP + SHA_ROL rA 5 + fn + const);
     rB = SHA_ROR rB 2
   in (rB, rE, arr))"

definition T_0_15 :: "bytes \<Rightarrow> nat \<Rightarrow> u32 \<Rightarrow> u32 \<Rightarrow> u32 \<Rightarrow> u32 \<Rightarrow> u32 \<Rightarrow> u32 list \<Rightarrow> u32 \<times> u32 \<times> u32 list" where
  "T_0_15 data t rA rB rC rD rE arr = SHA_ROUND data t SHA_SRC (((rC XOR rD) AND rB) XOR rD) 0x5a827999 rA rB rE arr"

definition T_16_19 :: "bytes \<Rightarrow> nat \<Rightarrow> u32 \<Rightarrow> u32 \<Rightarrow> u32 \<Rightarrow> u32 \<Rightarrow> u32 \<Rightarrow> u32 list \<Rightarrow> u32 \<times> u32 \<times> u32 list" where
  "T_16_19 data t rA rB rC rD rE arr = SHA_ROUND data t SHA_MIX (((rC XOR rD) AND rB) XOR rD) 0x5a827999 rA rB rE arr"

definition T_20_39 :: "bytes \<Rightarrow> nat \<Rightarrow> u32 \<Rightarrow> u32 \<Rightarrow> u32 \<Rightarrow> u32 \<Rightarrow> u32 \<Rightarrow> u32 list \<Rightarrow> u32 \<times> u32 \<times> u32 list" where
  "T_20_39 data t rA rB rC rD rE arr = SHA_ROUND data t SHA_MIX (rB XOR rC XOR rD) 0x6ed9eba1 rA rB rE arr"

definition T_40_59 :: "bytes \<Rightarrow> nat \<Rightarrow> u32 \<Rightarrow> u32 \<Rightarrow> u32 \<Rightarrow> u32 \<Rightarrow> u32 \<Rightarrow> u32 list \<Rightarrow> u32 \<times> u32 \<times> u32 list" where
  "T_40_59 data t rA rB rC rD rE arr =
     SHA_ROUND data t SHA_MIX ((rB AND rC) + (rD AND (rB XOR rC))) 0x8f1bbcdc rA rB rE arr"

definition T_60_79 :: "bytes \<Rightarrow> nat \<Rightarrow> u32 \<Rightarrow> u32 \<Rightarrow> u32 \<Rightarrow> u32 \<Rightarrow> u32 \<Rightarrow> u32 list \<Rightarrow> u32 \<times> u32 \<times> u32 list" where
  "T_60_79 data t rA rB rC rD rE arr = SHA_ROUND data t SHA_MIX (rB XOR rC XOR rD) 0xca62c1d6 rA rB rE arr"

text \<open>The local array is written by the first 16 rounds before it is read; it starts as zeros here.\<close>

definition blk_SHA1Block :: "u32 list \<Rightarrow> bytes \<Rightarrow> u32 list" where
  "blk_SHA1Block H data = (let
     rA = H ! 0; rB = H ! 1; rC = H ! 2; rD = H ! 3; rE = H ! 4;
     arr = replicate 16 0;
     (rB, rE, arr) = T_0_15 data 0 rA rB rC rD rE arr;
     (rA, rD, arr) = T_0_15 data 1 rE rA rB rC rD arr;
     (rE, rC, arr) = T_0_15 data 2 rD rE rA rB rC arr;
     (rD, rB, arr) = T_0_15 data 3 rC rD rE rA rB arr;
     (rC, rA, arr) = T_0_15 data 4 rB rC rD rE rA arr;
     (rB, rE, arr) = T_0_15 data 5 rA rB rC rD rE arr;
     (rA, rD, arr) = T_0_15 data 6 rE rA rB rC rD arr;
     (rE, rC, arr) = T_0_15 data 7 rD rE rA rB rC arr;
     (rD, rB, arr) = T_0_15 data 8 rC rD rE rA rB arr;
     (rC, rA, arr) = T_0_15 data 9 rB rC rD rE rA arr;
     (rB, rE, arr) = T_0_15 data 10 rA rB rC rD rE arr;
     (rA, rD, arr) = T_0_15 data 11 rE rA rB rC rD arr;
     (rE, rC, arr) = T_0_15 data 12 rD rE rA rB rC arr;
     (rD, rB, arr) = T_0_15 data 13 rC rD rE rA rB arr;
     (rC, rA, arr) = T_0_15 data 14 rB rC rD rE rA arr;
     (rB, rE, arr) = T_0_15 data 15 rA rB rC rD rE arr;
     (rA, rD, arr) = T_16_19 data 16 rE rA rB rC rD arr;
     (rE, rC, arr) = T_16_19 data 17 rD rE rA rB rC arr;
     (rD, rB, arr) = T_16_19 data 18 rC rD rE rA rB arr;
     (rC, rA, arr) = T_16_19 data 19 rB rC rD rE rA arr;
     (rB, rE, arr) = T_20_39 data 20 rA rB rC rD rE arr;
     (rA, rD, arr) = T_20_39 data 21 rE rA rB rC rD arr;
     (rE, rC, arr) = T_20_39 data 22 rD rE rA rB rC arr;
     (rD, rB, arr) = T_20_39 data 23 rC rD rE rA rB arr;
     (rC, rA, arr) = T_20_39 data 24 rB rC rD rE rA arr;
     (rB, rE, arr) = T_20_39 data 25 rA rB rC rD rE arr;
     (rA, rD, arr) = T_20_39 data 26 rE rA rB rC rD arr;
     (rE, rC, arr) = T_20_39 data 27 rD rE rA rB rC arr;
     (rD, rB, arr) = T_20_39 data 28 rC rD rE rA rB arr;
     (rC, rA, arr) = T_20_39 data 29 rB rC rD rE rA arr;
     (rB, rE, arr) = T_20_39 data 30 rA rB rC rD rE arr;
     (rA, rD, arr) = T_20_39 data 31 rE rA rB rC rD arr;
     (rE, rC, arr) = T_20_39 data 32 rD rE rA rB rC arr;
     (rD, rB, arr) = T_20_39 data 33 rC rD rE rA rB arr;
     (rC, rA, arr) = T_20_39 data 34 rB rC rD rE rA arr;
     (rB, rE, arr) = T_20_39 data 35 rA rB rC rD rE arr;
     (rA, rD, arr) = T_20_39 data 36 rE rA rB rC rD arr;
     (rE, rC, arr) = T_20_39 data 37 rD rE rA rB rC arr;
     (rD, rB, arr) = T_20_39 data 38 rC rD rE rA rB arr;
     (rC, rA, arr) = T_20_39 data 39 rB rC rD rE rA arr;
     (rB, rE, arr) = T_40_59 data 40 rA rB rC rD rE arr;
     (rA, rD, arr) = T_40_59 data 41 rE rA rB rC rD arr;
     (rE, rC, arr) = T_40_59 data 42 rD rE rA rB rC arr;
     (rD, rB, arr) = T_40_59 data 43 rC rD rE rA rB arr;
     (rC, rA, arr) = T_40_59 data 44 rB rC rD rE rA arr;
     (rB, rE, arr) = T_40_59 data 45 rA rB rC rD rE arr;
     (rA, rD, arr) = T_40_59 data 46 rE rA rB rC rD arr;
     (rE, rC, arr) = T_40_59 data 47 rD rE rA rB rC arr;
     (rD, rB, arr) = T_40_59 data 48 rC rD rE rA rB arr;
     (rC, rA, arr) = T_40_59 data 49 rB rC rD rE rA arr;
     (rB, rE, arr) = T_40_59 data 50 rA rB rC rD rE arr;
     (rA, rD, arr) = T_40_59 data 51 rE rA rB rC rD arr;
     (rE, rC, arr) = T_40_59 data 52 rD rE rA rB rC arr;
     (rD, rB, arr) = T_40_59 data 53 rC rD rE rA rB arr;
     (rC, rA, arr) = T_40_59 data 54 rB rC rD rE rA arr;
     (rB, rE, arr) = T_40_59 data 55 rA rB rC rD rE arr;
     (rA, rD, arr) = T_40_59 data 56 rE rA rB rC rD arr;
     (rE, rC, arr) = T_40_59 data 57 rD rE rA rB rC arr;
     (rD, rB, arr) = T_40_59 data 58 rC rD rE rA rB arr;
     (rC, rA, arr) = T_40_59 data 59 rB rC rD rE rA arr;
     (rB, rE, arr) = T_60_79 data 60 rA rB rC rD rE arr;
     (rA, rD, arr) = T_60_79 data 61 rE rA rB rC rD arr;
     (rE, rC, arr) = T_60_79 data 62 rD rE rA rB rC arr;
     (rD, rB, arr) = T_60_79 data 63 rC rD rE rA rB arr;
     (rC, rA, arr) = T_60_79 data 64 rB rC rD rE rA arr;
     (rB, rE, arr) = T_60_79 data 65 rA rB rC rD rE arr;
     (rA, rD, arr) = T_60_79 data 66 rE rA rB rC rD arr;
     (rE, rC, arr) = T_60_79 data 67 rD rE rA rB rC arr;
     (rD, rB, arr) = T_60_79 data 68 rC rD rE rA rB arr;
     (rC, rA, arr) = T_60_79 data 69 rB rC rD rE rA arr;
     (rB, rE, arr) = T_60_79 data 70 rA rB rC rD rE arr;
     (rA, rD, arr) = T_60_79 data 71 rE rA rB rC rD arr;
     (rE, rC, arr) = T_60_79 data 72 rD rE rA rB rC arr;
     (rD, rB, arr) = T_60_79 data 73 rC rD rE rA rB arr;
     (rC, rA, arr) = T_60_79 data 74 rB rC rD rE rA arr;
     (rB, rE, arr) = T_60_79 data 75 rA rB rC rD rE arr;
     (rA, rD, arr) = T_60_79 data 76 rE rA rB rC rD arr;
     (rE, rC, arr) = T_60_79 data 77 rD rE rA rB rC arr;
     (rD, rB, arr) = T_60_79 data 78 rC rD rE rA rB arr;
     (rC, rA, arr) = T_60_79 data 79 rB rC rD rE rA arr
   in [H ! 0 + rA, H ! 1 + rB, H ! 2 + rC, H ! 3 + rD, H ! 4 + rE])"

function sha1_update_loop :: "fio_sha1_ctx \<Rightarrow> bytes \<Rightarrow> fio_sha1_ctx option" where
  "sha1_update_loop ctx data =
     (if 64 \<le> length data
      then sha1_update_loop (ctx\<lparr>sha1_H := blk_SHA1Block (sha1_H ctx) (take 64 data)\<rparr>) (drop 64 data)
      else if length data \<noteq> 0
      then do {
        W \<leftarrow> memcpy_at (sha1_W ctx) 0 data (length data);
        Some (ctx\<lparr>sha1_W := W\<rparr>)
      }
      else Some ctx)"
  by pat_completeness auto
termination by (relation "measure (\<lambda>(ctx, data). length data)") auto

declare sha1_update_loop.simps [simp del]

definition fio_sha1_update :: "fio_sha1_ctx \<Rightarrow> bytes \<Rightarrow> fio_sha1_ctx option" where
  "fio_sha1_update ctx data = (let
     lenW = unat (sha1_size ctx AND 63);
     len = length data;
     ctx = ctx\<lparr>sha1_size := sha1_size ctx + of_nat len\<rparr>
   in if lenW \<noteq> 0
      then let left = (if len < 64 - lenW then len else 64 - lenW) in do {
        W \<leftarrow> memcpy_at (sha1_W ctx) lenW data left;
        let ctx = ctx\<lparr>sha1_W := W\<rparr>;
        if (lenW + left) mod 64 \<noteq> 0 then Some ctx
        else sha1_update_loop (ctx\<lparr>sha1_H := blk_SHA1Block (sha1_H ctx) (sha1_W ctx)\<rparr>) (drop left data)
      }
      else sha1_update_loop ctx data)"

text \<open>\<^verbatim>\<open>htonl\<close> of the two halves of the length in bits, as they lie in memory.\<close>

definition fio_sha1_final :: "fio_sha1_ctx \<Rightarrow> fio_sha1_ctx option" where
  "fio_sha1_final ctx = (let
     pad = 0x80 # replicate 63 0;
     padlen = be_bytes 4 (ucast (drop_bit 29 (sha1_size ctx)) :: u32) @ be_bytes 4 (ucast (push_bit 3 (sha1_size ctx)) :: u32);
     i = unat (sha1_size ctx AND 63)
   in do {
     ctx \<leftarrow> fio_sha1_update ctx (take (1 + (119 - i) mod 64) pad);
     fio_sha1_update ctx padlen
   })"

section \<open>The block function of FIPS 180-4\<close>

function sha1_sched :: "bytes \<Rightarrow> nat \<Rightarrow> u32" where
  "sha1_sched m t = (if t < 16 then be_word (take 4 (drop (4 * t) m))
     else SHA_ROL (sha1_sched m (t - 3) XOR sha1_sched m (t - 8) XOR sha1_sched m (t - 14) XOR sha1_sched m (t - 16)) 1)"
  by pat_completeness auto
termination by (relation "measure snd") auto

declare sha1_sched.simps [simp del]

definition sha1_f :: "nat \<Rightarrow> u32 \<Rightarrow> u32 \<Rightarrow> u32 \<Rightarrow> u32" where
  "sha1_f t x y z = (if t < 20 then (x AND y) XOR (NOT x AND z)
     else if t < 40 then x XOR y XOR z
     else if t < 60 then (x AND y) XOR (x AND z) XOR (y AND z)
     else x XOR y XOR z)"

definition sha1_K :: "nat \<Rightarrow> u32" where
  "sha1_K t = (if t < 20 then 0x5a827999 else if t < 40 then 0x6ed9eba1 else if t < 60 then 0x8f1bbcdc else 0xca62c1d6)"

definition sha1_round :: "bytes \<Rightarrow> u32 \<times> u32 \<times> u32 \<times> u32 \<times> u32 \<Rightarrow> nat \<Rightarrow> u32 \<times> u32 \<times> u32 \<times> u32 \<times> u32" where
  "sha1_round m = (\<lambda>(a, b, c, d, e) t.
     (SHA_ROL a 5 + sha1_f t b c d + e + sha1_K t + sha1_sched m t, a, SHA_ROL b 30, c, d))"

definition sha1_block :: "u32 list \<Rightarrow> bytes \<Rightarrow> u32 list" where
  "sha1_block H m = (case foldl (sha1_round m) (H ! 0, H ! 1, H ! 2, H ! 3, H ! 4) [0..<80] of
     (a, b, c, d, e) \<Rightarrow> [H ! 0 + a, H ! 1 + b, H ! 2 + c, H ! 3 + d, H ! 4 + e])"

text \<open>The unrolled code as a loop that still uses the rolling array.\<close>

definition T_any :: "nat \<Rightarrow> bytes \<Rightarrow> nat \<Rightarrow> u32 \<Rightarrow> u32 \<Rightarrow> u32 \<Rightarrow> u32 \<Rightarrow> u32 \<Rightarrow> u32 list \<Rightarrow> u32 \<times> u32 \<times> u32 list" where
  "T_any t = (if t < 16 then T_0_15 else if t < 20 then T_16_19 else if t < 40 then T_20_39 else if t < 60 then T_40_59
     else T_60_79)"

type_synonym sha1_regs = "u32 \<times> u32 \<times> u32 \<times> u32 \<times> u32 \<times> u32 list"

definition sha1_roll :: "bytes \<Rightarrow> sha1_regs \<Rightarrow> nat \<Rightarrow> sha1_regs" where
  "sha1_roll m = (\<lambda>(a, b, c, d, e, arr) t. case T_any t m t a b c d e arr of (b, e, arr) \<Rightarrow> (e, a, b, c, d, arr))"

lemma sha1_roll_case:
  "foldl (sha1_roll m) (a, b, c, d, e, arr) (t # ts) =
    (case T_any t m t a b c d e arr of (b, e, arr) \<Rightarrow> foldl (sha1_roll m) (e, a, b, c, d, arr) ts)"
  by (simp add: sha1_roll_def split: prod.split)

lemma case_case: "case_prod g (case x of (b, e, arr) \<Rightarrow> f b e arr) = (case x of (b, e, arr) \<Rightarrow> case_prod g (f b e arr))"
  by (simp split: prod.split)

lemma upt_80: "[0..<80] = [0, 1, 2, 3, 4, 5, 6, 7, 8, 9, 10, 11, 12, 13, 14, 15, 16, 17, 18, 19, 20, 21, 22, 23, 24, 25, 26, 27, 28, 29, 30, 31, 32, 33, 34, 35, 36, 37, 38, 39, 40, 41, 42, 43, 44, 45, 46, 47, 48, 49, 50, 51, 52, 53, 54, 55, 56, 57, 58, 59, 60, 61, 62, 63, 64, 65, 66, 67, 68, 69, 70, 71, 72, 73, 74, 75, 76, 77, 78, 79]"
  by (simp add: upt_conv_Cons)

lemma T_any_eqs:
  "T_any 0 = T_0_15" "T_any 1 = T_0_15" "T_any 2 = T_0_15" "T_any 3 = T_0_15" "T_any 4 = T_0_15"
  "T_any 5 = T_0_15" "T_any 6 = T_0_15" "T_any 7 = T_0_15" "T_any 8 = T_0_15" "T_any 9 = T_0_15"
  "T_any 10 = T_0_15" "T_any 11 = T_0_15" "T_any 12 = T_0_15" "T_any 13 = T_0_15" "T_any 14 = T_0_15"
  "T_any 15 = T_0_15" "T_any 16 = T_16_19" "T_any 17 = T_16_19" "T_any 18 = T_16_19" "T_any 19 = T_16_19"
  "T_any 20 = T_20_39" "T_any 21 = T_20_39" "T_any 22 = T_20_39" "T_any 23 = T_20_39" "T_any 24 = T_20_39"
  "T_any 25 = T_20_39" "T_any 26 = T_20_39" "T_any 27 = T_20_39" "T_any 28 = T_20_39" "T_any 29 = T_20_39"
  "T_any 30 = T_20_39" "T_any 31 = T_20_39" "T_any 32 = T_20_39" "T_any 33 = T_20_39" "T_any 34 = T_20_39"
  "T_any 35 = T_20_39" "T_any 36 = T_20_39" "T_any 37 = T_20_39" "T_any 38 = T_20_39" "T_any 39 = T_20_39"
  "T_any 40 = T_40_59" "T_any 41 = T_40_59" "T_any 42 = T_40_59" "T_any 43 = T_40_59" "T_any 44 = T_40_59"
  "T_any 45 = T_40_59" "T_any 46 = T_40_59" "T_any 47 = T_40_59" "T_any 48 = T_40_59" "T_any 49 = T_40_59"
  "T_any 50 = T_40_59" "T_any 51 = T_40_59" "T_any 52 = T_40_59" "T_any 53 = T_40_59" "T_any 54 = T_40_59"
  "T_any 55 = T_40_59" "T_any 56 = T_40_59" "T_any 57 = T_40_59" "T_any 58 = T_40_59" "T_any 59 = T_40_59"
  "T_any 60 = T_60_79" "T_any 61 = T_60_79" "T_any 62 = T_60_79" "T_any 63 = T_60_79" "T_any 64 = T_60_79"
  "T_any 65 = T_60_79" "T_any 66 = T_60_79" "T_any 67 = T_60_79" "T_any 68 = T_60_79" "T_any 69 = T_60_79"
  "T_any 70 = T_60_79" "T_any 71 = T_60_79" "T_any 72 = T_60_79" "T_any 73 = T_60_79" "T_any 74 = T_60_79"
  "T_any 75 = T_60_79" "T_any 76 = T_60_79" "T_any 77 = T_60_79" "T_any 78 = T_60_79" "T_any 79 = T_60_79"
  by (simp_all add: T_any_def)

lemma blk_SHA1Block_roll:
  "blk_SHA1Block H m = (case foldl (sha1_roll m) (H ! 0, H ! 1, H ! 2, H ! 3, H ! 4, replicate 16 0) [0..<80] of
     (a, b, c, d, e, arr) \<Rightarrow> [H ! 0 + a, H ! 1 + b, H ! 2 + c, H ! 3 + d, H ! 4 + e])"
  unfolding blk_SHA1Block_def Let_def upt_80
  by (simp only: sha1_roll_case T_any_eqs foldl_Nil case_case prod.case)

lemma sha1_logic:
  fixes b c d :: u32
  shows "((c XOR d) AND b) XOR d = (b AND c) XOR (NOT b AND d)"
    and "(b AND c) + (d AND (b XOR c)) = (b AND c) XOR (b AND d) XOR (c AND d)"
proof -
  show "((c XOR d) AND b) XOR d = (b AND c) XOR (NOT b AND d)"
    by (rule bit_word_eqI) (auto simp: bit_simps)
  have "(b AND c) AND (d AND (b XOR c)) = 0" by (rule bit_word_eqI) (auto simp: bit_simps)
  then have "(b AND c) + (d AND (b XOR c)) = (b AND c) OR (d AND (b XOR c))" by (rule disjunctive_add_eq_or)
  also have "\<dots> = (b AND c) XOR (b AND d) XOR (c AND d)" by (rule bit_word_eqI) (auto simp: bit_simps)
  finally show "(b AND c) + (d AND (b XOR c)) = (b AND c) XOR (b AND d) XOR (c AND d)" .
qed

lemma T_any_round:
  assumes "t < 80" and "(if t < 16 then SHA_SRC m arr t else SHA_MIX m arr t) = sha1_sched m t"
  shows "T_any t m t a b c d e arr =
    (SHA_ROL b 30, SHA_ROL a 5 + sha1_f t b c d + e + sha1_K t + sha1_sched m t, arr[t mod 16 := sha1_sched m t])"
proof -
  have ror: "SHA_ROR b 2 = SHA_ROL b 30" by (simp add: SHA_ROR_def SHA_ROL_def)
  have sums: "e + (w + SHA_ROL a 5 + f + k) = SHA_ROL a 5 + f + e + k + w" for w f k :: u32
    by (simp only: ac_simps)
  consider "t < 16" | "16 \<le> t" "t < 20" | "20 \<le> t" "t < 40" | "40 \<le> t" "t < 60" | "60 \<le> t" using assms(1) by linarith
  then show ?thesis
  proof cases
    case 1
    then show ?thesis using assms(2) by (simp add: T_any_def T_0_15_def SHA_ROUND_def sha1_f_def sha1_K_def sha1_logic ror sums Let_def)
  next
    case 2
    then show ?thesis using assms(2) by (simp add: T_any_def T_16_19_def SHA_ROUND_def sha1_f_def sha1_K_def sha1_logic ror sums Let_def)
  next
    case 3
    then show ?thesis using assms(2) by (simp add: T_any_def T_20_39_def SHA_ROUND_def sha1_f_def sha1_K_def sha1_logic ror sums Let_def)
  next
    case 4
    then show ?thesis using assms(2) by (simp add: T_any_def T_40_59_def SHA_ROUND_def sha1_f_def sha1_K_def sha1_logic ror sums Let_def)
  next
    case 5
    then show ?thesis using assms(2) by (simp add: T_any_def T_60_79_def SHA_ROUND_def sha1_f_def sha1_K_def sha1_logic ror sums Let_def)
  qed
qed

lemma sha1_roll_round:
  "n \<le> 80 \<Longrightarrow> \<exists>a' b' c' d' e' arr'.
    foldl (sha1_roll m) (a, b, c, d, e, replicate 16 0) [0..<n] = (a', b', c', d', e', arr') \<and>
    foldl (sha1_round m) (a, b, c, d, e) [0..<n] = (a', b', c', d', e') \<and>
    length arr' = 16 \<and> (\<forall>j < n. n \<le> j + 16 \<longrightarrow> arr' ! (j mod 16) = sha1_sched m j)"
proof (induction n)
  case (Suc n)
  then obtain a' b' c' d' e' arr' where IH:
    "foldl (sha1_roll m) (a, b, c, d, e, replicate 16 0) [0..<n] = (a', b', c', d', e', arr')"
    "foldl (sha1_round m) (a, b, c, d, e) [0..<n] = (a', b', c', d', e')"
    "length arr' = 16" "\<And>j. j < n \<Longrightarrow> n \<le> j + 16 \<Longrightarrow> arr' ! (j mod 16) = sha1_sched m j" by auto
  have "SHA_MIX m arr' n = sha1_sched m n" if "\<not> n < 16"
  proof -
    have prev: "arr' ! ((n + (16 - k)) mod 16) = sha1_sched m (n - k)" if "0 < k" "k \<le> 16" for k
    proof -
      have "n + (16 - k) = (n - k) + 16" using that \<open>\<not> n < 16\<close> by simp
      then have "(n + (16 - k)) mod 16 = (n - k) mod 16" by (simp only: mod_add_self2)
      then show ?thesis using IH(4) [of "n - k"] that \<open>\<not> n < 16\<close> by simp
    qed
    show ?thesis
      using prev [of 3] prev [of 8] prev [of 14] prev [of 16] that
      by (subst sha1_sched.simps) (simp add: SHA_MIX_def)
  qed
  then have "(if n < 16 then SHA_SRC m arr' n else SHA_MIX m arr' n) = sha1_sched m n"
    using sha1_sched.simps [of m n] by (simp add: SHA_SRC_def split: if_splits)
  then have T: "T_any n m n a' b' c' d' e' arr' = (SHA_ROL b' 30,
      SHA_ROL a' 5 + sha1_f n b' c' d' + e' + sha1_K n + sha1_sched m n, arr'[n mod 16 := sha1_sched m n])"
    using Suc.prems by (intro T_any_round) simp_all
  have "arr'[n mod 16 := sha1_sched m n] ! (j mod 16) = sha1_sched m j" if j: "j < Suc n" "Suc n \<le> j + 16" for j
  proof (cases "j = n")
    case True
    then show ?thesis using IH(3) by simp
  next
    case False
    have "j mod 16 \<noteq> n mod 16"
    proof
      assume "j mod 16 = n mod 16"
      then have "(16::nat) dvd n - j" using j False by (metis less_SucE mod_eq_dvd_iff_nat less_imp_le)
      then show False using j False by (auto dest: dvd_imp_le)
    qed
    then show ?thesis using IH(4) [of j] j False by simp
  qed
  then show ?case using IH T by (simp add: sha1_roll_def sha1_round_def)
qed simp

lemma blk_SHA1Block_fips: "blk_SHA1Block H m = sha1_block H m"
  using sha1_roll_round [of 80 m "H ! 0" "H ! 1" "H ! 2" "H ! 3" "H ! 4"]
  unfolding blk_SHA1Block_roll sha1_block_def by auto

section \<open>The contract of a block digest\<close>

definition sha1_inv :: "fio_sha1_ctx \<Rightarrow> bool" where
  "sha1_inv c \<longleftrightarrow> length (sha1_W c) = 64"

definition sha1_pending :: "fio_sha1_ctx \<Rightarrow> bytes" where
  "sha1_pending c = take (unat (sha1_size c) mod 64) (sha1_W c)"

lemma sha1_update_loop_absorbs:
  "length (sha1_W c) = 64 \<Longrightarrow> \<exists>c'. sha1_update_loop c d = Some c' \<and> length (sha1_W c') = 64 \<and>
    sha1_size c' = sha1_size c \<and>
    (sha1_H c', take (length d mod 64) (sha1_W c')) = absorb 64 blk_SHA1Block (sha1_H c) d"
proof (induction c d rule: sha1_update_loop.induct)
  case (1 c d)
  show ?case
  proof (cases "64 \<le> length d")
    case True
    then show ?thesis
      using 1 by (subst sha1_update_loop.simps) (simp add: absorb_step le_mod_geq)
  next
    case False
    then show ?thesis using 1(2) by (subst sha1_update_loop.simps) (simp add: absorb_short)
  qed
qed

lemma sha1_update_absorbs:
  assumes "sha1_inv c"
  shows "\<exists>c'. fio_sha1_update c d = Some c' \<and> sha1_inv c' \<and>
    (sha1_H c', sha1_pending c') = absorb 64 blk_SHA1Block (sha1_H c) (sha1_pending c @ d) \<and>
    unat (sha1_size c') = (unat (sha1_size c) + length d) mod 2 ^ 64"
proof -
  let ?k = "unat (sha1_size c) mod 64" and ?n = "length d"
  have k: "unat (sha1_size c AND 63) = ?k" by (rule unat_and_3f)
  have k64: "?k < 64" by simp
  have len: "length (sha1_W c) = 64" using assms by (simp add: sha1_inv_def)
  have tot: "unat (sha1_size c + of_nat ?n) = (unat (sha1_size c) + ?n) mod 2 ^ 64"
    using unat_add_of_nat [of "sha1_size c" ?n] by simp
  then have cnt: "unat (sha1_size c + of_nat ?n) mod 64 = (?k + ?n) mod 64"
    by (simp only: mod_mod_64 mod_add_left_eq)
  show ?thesis
  proof (cases "?n < 64 - ?k")
    case True
    then have sum: "(?k + ?n) mod 64 = ?k + ?n" by simp
    show ?thesis
    proof (cases "?k = 0")
      case False
      then have "fio_sha1_update c d = Some (c\<lparr>sha1_size := sha1_size c + of_nat ?n,
          sha1_W := take ?k (sha1_W c) @ d @ drop (?k + ?n) (sha1_W c)\<rparr>)"
        using True len sum by (simp add: fio_sha1_update_def k Let_def)
      then show ?thesis
        using True len cnt tot sum by (simp add: sha1_inv_def sha1_pending_def absorb_short)
    next
      case zero: True
      then show ?thesis
        using True len cnt tot sha1_update_loop_absorbs [of "c\<lparr>sha1_size := sha1_size c + of_nat ?n\<rparr>" d]
        by (auto simp: fio_sha1_update_def k Let_def sha1_inv_def sha1_pending_def)
    qed
  next
    case False
    define c1 where "c1 = (if ?k = 0 then c\<lparr>sha1_size := sha1_size c + of_nat ?n\<rparr>
      else c\<lparr>sha1_size := sha1_size c + of_nat ?n, sha1_W := take ?k (sha1_W c) @ take (64 - ?k) d,
        sha1_H := blk_SHA1Block (sha1_H c) (take ?k (sha1_W c) @ take (64 - ?k) d)\<rparr>)"
    define d1 where "d1 = (if ?k = 0 then d else drop (64 - ?k) d)"
    have c1: "length (sha1_W c1) = 64" "sha1_size c1 = sha1_size c + of_nat ?n"
      using False len k64 by (simp_all add: c1_def)
    have upd: "fio_sha1_update c d = sha1_update_loop c1 d1"
      using False len k64 by (simp add: fio_sha1_update_def k c1_def d1_def Let_def)
    have "(?k + ?n) mod 64 = (?n - (64 - ?k)) mod 64"
      using False by (intro mod_rest [OF k64]) simp
    moreover have "(?n - 64) mod 64 = ?n mod 64" if "64 \<le> ?n" using that by (simp add: le_mod_geq)
    ultimately have rest: "length d1 mod 64 = unat (sha1_size c1) mod 64"
      using False by (cases "?k = 0") (simp_all add: c1 cnt d1_def)
    have "absorb 64 blk_SHA1Block (sha1_H c) (take ?k (sha1_W c) @ d) = absorb 64 blk_SHA1Block (sha1_H c1) d1"
    proof (cases "?k = 0")
      case True
      then show ?thesis by (simp add: c1_def d1_def)
    next
      case nz: False
      have "absorb 64 blk_SHA1Block (sha1_H c) ((take ?k (sha1_W c) @ take (64 - ?k) d) @ drop (64 - ?k) d) =
          absorb 64 blk_SHA1Block (blk_SHA1Block (sha1_H c) (take ?k (sha1_W c) @ take (64 - ?k) d)) (drop (64 - ?k) d)"
        by (rule absorb_block) (use False len in auto)
      then show ?thesis using nz by (simp add: c1_def d1_def)
    qed
    then show ?thesis
      using sha1_update_loop_absorbs [OF c1(1), of d1] rest c1(2) tot
      by (auto simp: upd sha1_inv_def sha1_pending_def)
  qed
qed

interpretation sha1: block_digest 64 "2 ^ 64" "2 ^ 64 - 1" blk_SHA1Block sha1_inv sha1_H sha1_pending
  "unat \<circ> sha1_size" fio_sha1_update
  using sha1_update_absorbs by unfold_locales (simp_all add: unat_mod_64 [simplified])

section \<open>The digest of a message\<close>

lemma be_bytes_8_split: "be_bytes 8 (w :: u64) = be_bytes 4 (ucast (drop_bit 32 w) :: u32) @ be_bytes 4 (ucast w :: u32)"
  by (simp add: be_bytes_def le_bytes_8_split)

lemma sha1_message:
  assumes "length (sha1_W c) = 64" and "\<forall>d \<in> set ds. length d < 2 ^ 64"
  shows "\<exists>c1 c2. feed fio_sha1_update (fio_sha1_init c) ds = Some c1 \<and> fio_sha1_final c1 = Some c2 \<and>
    sha1_H c2 = fst (absorb 64 sha1_block [0x67452301, 0xefcdab89, 0x98badcfe, 0x10325476, 0xc3d2e1f0]
      (concat ds @ md_pad (length (concat ds)) (be_bytes 8 (of_nat (8 * length (concat ds)) :: u64))))"
proof -
  let ?m = "concat ds" and ?c = "fio_sha1_init c"
  have inv: "sha1_inv ?c" "sha1_pending ?c = []" "(unat \<circ> sha1_size) ?c = 0"
    using assms by (simp_all add: sha1_inv_def sha1_pending_def fio_sha1_init_def)
  have small: "\<forall>d \<in> set ds. length d \<le> 2 ^ 64 - 1" using assms(2) by fastforce
  obtain c1 where c1: "feed fio_sha1_update ?c ds = Some c1" "sha1_inv c1"
    "(sha1_H c1, sha1_pending c1) = absorb 64 blk_SHA1Block (sha1_H ?c) ?m"
    "unat (sha1_size c1) = length ?m mod 2 ^ 64"
    using sha1.feed_concat [OF inv(1,2) small] inv(3) by auto
  let ?k = "unat (sha1_size c1) mod 64"
  define pad where "pad = 0x80 # replicate ((119 - ?k) mod 64) (0 :: u8)"
  define len where "len = be_bytes 8 (push_bit 3 (sha1_size c1))"
  have "(ucast (drop_bit 32 (push_bit 3 (sha1_size c1))) :: u32) = ucast (drop_bit 29 (sha1_size c1))"
    by (rule bit_word_eqI) (auto simp: bit_simps)
  then have len: "be_bytes 4 (ucast (drop_bit 29 (sha1_size c1)) :: u32) @ be_bytes 4 (ucast (push_bit 3 (sha1_size c1)) :: u32) = len"
    by (simp add: len_def be_bytes_8_split)
  have k: "unat (sha1_size c1 AND 63) = ?k" by (rule unat_and_3f)
  have "(119 - ?k) mod 64 \<le> 63" by simp
  then have take: "take (1 + (119 - ?k) mod 64) (0x80 # replicate 63 0) = pad" by (simp add: pad_def)
  have final: "fio_sha1_final c1 = feed fio_sha1_update c1 [pad, len]"
    unfolding fio_sha1_final_def Let_def k take len by simp
  have "length pad \<le> 2 ^ 64 - 1" using \<open>(119 - ?k) mod 64 \<le> 63\<close> by (simp add: pad_def del: mod_le_divisor)
  then have small_pad: "\<forall>d \<in> set [pad, len]. length d \<le> 2 ^ 64 - 1" by (simp add: len_def)
  obtain c2 where c2: "feed fio_sha1_update c1 [pad, len] = Some c2"
    "(sha1_H c2, sha1_pending c2) = absorb 64 blk_SHA1Block (sha1_H c1) (sha1_pending c1 @ concat [pad, len])"
    using sha1.feed_absorbs [OF c1(2), of "[pad, len]"] small_pad by auto
  have "sha1_size c1 = of_nat (length ?m)"
    by (rule word_unat_eqI) (simp add: c1(4) unsigned_of_nat take_bit_eq_mod)
  then have bits: "push_bit 3 (sha1_size c1) = of_nat (8 * length ?m)"
    by (simp add: push_bit_eq_mult)
  have "concat [pad, len] = md_pad (length ?m) (be_bytes 8 (of_nat (8 * length ?m) :: u64))"
    by (simp add: pad_def len_def md_pad_def bits) (simp only: c1(4) mod_mod_64)
  then have "sha1_H c2 = fst (absorb 64 blk_SHA1Block (sha1_H ?c) (?m @ md_pad (length ?m) (be_bytes 8 (of_nat (8 * length ?m) :: u64))))"
    using c2(2) absorb_append [of 64 blk_SHA1Block "sha1_H ?c" ?m] by (simp flip: c1(3)) (metis fst_conv)
  moreover have "blk_SHA1Block = sha1_block" by (intro ext) (rule blk_SHA1Block_fips)
  ultimately show ?thesis using c1(1) c2(1) final by (simp add: fio_sha1_init_def)
qed

text \<open>
  C24 (equivalence): initialising a context, feeding it a message in pieces of any size and finishing gives
  the SHA-1 chaining value of FIPS 180-4: the 80-round block function over the blocks of the message padded
  with a 1 bit, zeros and its length in bits, most significant byte first, no access leaving the buffer.
\<close>

theorem sha1_digest:
  assumes "length (sha1_W c) = 64" and "\<forall>d \<in> set ds. length d < 2 ^ 64"
  shows "\<exists>c1 c2. feed fio_sha1_update (fio_sha1_init c) ds = Some c1 \<and> fio_sha1_final c1 = Some c2 \<and>
    sha1_H c2 = fst (absorb 64 sha1_block [0x67452301, 0xefcdab89, 0x98badcfe, 0x10325476, 0xc3d2e1f0]
      (concat ds @ md_pad (length (concat ds)) (be_bytes 8 (of_nat (8 * length (concat ds)) :: u64))))"
  using assms by (rule sha1_message)

theorem sha1_digest_witness:
  "\<exists>c1 c2. feed fio_sha1_update (fio_sha1_init \<lparr>sha1_H = [], sha1_W = replicate 64 0, sha1_size = 0\<rparr>) [[97], [98, 99]] = Some c1 \<and>
    fio_sha1_final c1 = Some c2"
  using sha1_digest [of "\<lparr>sha1_H = [], sha1_W = replicate 64 0, sha1_size = 0\<rparr>" "[[97], [98, 99]]"] by auto

end
