(* ===== verification/Sha2.thy ===== *)
theory Sha2
  imports Digest
begin

text \<open>
  What SHA-256 and SHA-512 share: the byte swaps of \<^verbatim>\<open>lib/bswap.h\<close>, and the message schedule and the round of
  FIPS 180-4 for words of any width, against which the unrolled transforms of \<^verbatim>\<open>crc/sha256.c\<close> and
  \<^verbatim>\<open>crc/sha512.c\<close> are proved.
\<close>

section \<open>Byte swaps\<close>

definition be32_to_cpu :: "u32 \<Rightarrow> u32" where
  "be32_to_cpu val = (let
     c1 = drop_bit 24 val AND 0xff;
     c2 = drop_bit 16 val AND 0xff;
     c3 = drop_bit 8 val AND 0xff;
     c4 = val AND 0xff
   in c1 OR push_bit 8 c2 OR push_bit 16 c3 OR push_bit 24 c4)"

definition be64_to_cpu :: "u64 \<Rightarrow> u64" where
  "be64_to_cpu val = (let
     c1 = drop_bit 56 val AND 0xff;
     c2 = drop_bit 48 val AND 0xff;
     c3 = drop_bit 40 val AND 0xff;
     c4 = drop_bit 32 val AND 0xff;
     c5 = drop_bit 24 val AND 0xff;
     c6 = drop_bit 16 val AND 0xff;
     c7 = drop_bit 8 val AND 0xff;
     c8 = val AND 0xff
   in c1 OR push_bit 8 c2 OR push_bit 16 c3 OR push_bit 24 c4 OR push_bit 32 c5 OR push_bit 40 c6 OR
      push_bit 48 c7 OR push_bit 56 c8)"

lemma and_ff: "w AND 0xff = ucast (ucast w :: u8)" for w :: "'a::len word"
proof -
  have m: "(0xff :: 'a word) = mask 8" by (simp add: mask_eq_exp_minus_1)
  show ?thesis unfolding m by (rule bit_word_eqI) (auto simp: bit_simps)
qed

lemma le_byte: "i < length ds \<Longrightarrow> 8 * length ds \<le> LENGTH('a) \<Longrightarrow> ucast (drop_bit (8 * i) (le_word ds :: 'a::len word)) = ds ! i"
  using nth_le_bytes [of i "length ds" "le_word ds :: 'a word"] by (simp add: le_bytes_le_word)

lemma le_word_or: "le_word (d # ds) = ucast d OR push_bit 8 (le_word ds)"
  by (simp, rule bit_word_eqI) (auto simp: bit_simps)

lemma be32_to_cpu_load:
  assumes "length ds = 4"
  shows "be32_to_cpu (le_word ds) = be_word ds"
proof -
  obtain a b c d where ds: "ds = [a, b, c, d]" using assms by (auto simp: numeral_eq_Suc length_Suc_conv)
  have get: "drop_bit 24 (le_word ds :: u32) AND 0xff = ucast d" "drop_bit 16 (le_word ds :: u32) AND 0xff = ucast c"
    "drop_bit 8 (le_word ds :: u32) AND 0xff = ucast b" "(le_word ds :: u32) AND 0xff = ucast a"
    using le_byte [of 3 ds, where 'a = 32] le_byte [of 2 ds, where 'a = 32] le_byte [of 1 ds, where 'a = 32]
      le_byte [of 0 ds, where 'a = 32] by (simp_all add: ds and_ff del: le_word.simps)
  show ?thesis unfolding be32_to_cpu_def get Let_def
    by (simp add: ds be_word_def le_word_or push_bit_or del: le_word.simps(2))
qed

lemma be64_to_cpu_load:
  assumes "length ds = 8"
  shows "be64_to_cpu (le_word ds) = be_word ds"
proof -
  obtain a b c d e f g h where ds: "ds = [a, b, c, d, e, f, g, h]" using assms by (auto simp: numeral_eq_Suc length_Suc_conv)
  have get: "drop_bit (8 * i) (le_word ds :: u64) AND 0xff = ucast (ds ! i)" if "i < 8" for i
    using le_byte [of i ds, where 'a = 64] that assms by (simp add: and_ff)
  have "drop_bit 56 (le_word ds :: u64) AND 0xff = ucast h" "drop_bit 48 (le_word ds :: u64) AND 0xff = ucast g"
    "drop_bit 40 (le_word ds :: u64) AND 0xff = ucast f" "drop_bit 32 (le_word ds :: u64) AND 0xff = ucast e"
    "drop_bit 24 (le_word ds :: u64) AND 0xff = ucast d" "drop_bit 16 (le_word ds :: u64) AND 0xff = ucast c"
    "drop_bit 8 (le_word ds :: u64) AND 0xff = ucast b" "(le_word ds :: u64) AND 0xff = ucast a"
    using get [of 7] get [of 6] get [of 5] get [of 4] get [of 3] get [of 2] get [of 1] get [of 0]
    by (simp_all add: ds del: le_word.simps)
  then show ?thesis unfolding be64_to_cpu_def Let_def
    by (simp add: ds be_word_def le_word_or push_bit_or del: le_word.simps(2))
qed

section \<open>The schedule and the round of FIPS 180-4\<close>

function sha2_sched :: "('w::plus \<Rightarrow> 'w) \<Rightarrow> ('w \<Rightarrow> 'w) \<Rightarrow> (nat \<Rightarrow> 'w) \<Rightarrow> nat \<Rightarrow> 'w" where
  "sha2_sched sig0 sig1 M t = (if t < 16 then M t
     else sig1 (sha2_sched sig0 sig1 M (t - 2)) + sha2_sched sig0 sig1 M (t - 7) +
       sig0 (sha2_sched sig0 sig1 M (t - 15)) + sha2_sched sig0 sig1 M (t - 16))"
  by pat_completeness auto
termination by (relation "measure (\<lambda>(s0, s1, M, t). t)") auto

declare sha2_sched.simps [simp del]

type_synonym 'w regs8 = "'w \<times> 'w \<times> 'w \<times> 'w \<times> 'w \<times> 'w \<times> 'w \<times> 'w"

definition sha2_round :: "('w::len word \<Rightarrow> 'w word) \<Rightarrow> ('w word \<Rightarrow> 'w word) \<Rightarrow> (nat \<Rightarrow> 'w word) \<Rightarrow>
    (nat \<Rightarrow> 'w word) \<Rightarrow> 'w word regs8 \<Rightarrow> nat \<Rightarrow> 'w word regs8" where
  "sha2_round Sig0 Sig1 K W = (\<lambda>(a, b, c, d, e, f, g, h) t. let
     T1 = h + Sig1 e + ((e AND f) XOR (NOT e AND g)) + K t + W t;
     T2 = Sig0 a + ((a AND b) XOR (a AND c) XOR (b AND c))
   in (T1 + T2, a, b, c, d + T1, e, f, g))"

definition sha2_block :: "('w::len word \<Rightarrow> 'w word) \<Rightarrow> ('w word \<Rightarrow> 'w word) \<Rightarrow> (nat \<Rightarrow> 'w word) \<Rightarrow>
    (nat \<Rightarrow> 'w word) \<Rightarrow> nat \<Rightarrow> 'w word list \<Rightarrow> 'w word list" where
  "sha2_block Sig0 Sig1 K W n H =
     (case foldl (sha2_round Sig0 Sig1 K W) (H ! 0, H ! 1, H ! 2, H ! 3, H ! 4, H ! 5, H ! 6, H ! 7) [0..<n] of
        (a, b, c, d, e, f, g, h) \<Rightarrow>
          [H ! 0 + a, H ! 1 + b, H ! 2 + c, H ! 3 + d, H ! 4 + e, H ! 5 + f, H ! 6 + g, H ! 7 + h])"

text \<open>The forms of the choice and majority functions in the code.\<close>

lemma sha2_ch: "z XOR (x AND (y XOR z)) = (x AND y) XOR (NOT x AND z)" for x y z :: "'w::len word"
  by (rule bit_word_eqI) (auto simp: bit_simps)

lemma sha2_maj: "(x AND y) OR (z AND (x OR y)) = (x AND y) XOR (x AND z) XOR (y AND z)" for x y z :: "'w::len word"
  by (rule bit_word_eqI) (auto simp: bit_simps)

text \<open>The array the code fills in two loops holds the schedule.\<close>

lemma sha2_load:
  "k \<le> length W \<Longrightarrow> k \<le> 16 \<Longrightarrow>
    length (foldl (\<lambda>W i. W[i := M i]) W [0..<k]) = length W \<and>
    (\<forall>t < k. foldl (\<lambda>W i. W[i := M i]) W [0..<k] ! t = sha2_sched sig0 sig1 M t)"
proof (induction k)
  case (Suc k)
  then show ?case by (auto simp: nth_list_update less_Suc_eq sha2_sched.simps)
qed simp

lemma sha2_blend:
  fixes k :: nat and sig0 sig1 :: "'w::plus \<Rightarrow> 'w"
  defines "F \<equiv> foldl (\<lambda>W i. W[i := sig1 (W ! (i - 2)) + W ! (i - 7) + sig0 (W ! (i - 15)) + W ! (i - 16)])"
  assumes "\<forall>t < 16. W ! t = sha2_sched sig0 sig1 M t" and "16 \<le> k" "k \<le> length W"
  shows "length (F W [16..<k]) = length W \<and> (\<forall>t < k. F W [16..<k] ! t = sha2_sched sig0 sig1 M t)"
  using assms(3,4)
proof (induction k rule: dec_induct)
  case base
  then show ?case using assms(2) by (simp add: F_def)
next
  case (step k)
  let ?W = "F W [16..<k]"
  have IH: "length ?W = length W" "\<And>t. t < k \<Longrightarrow> ?W ! t = sha2_sched sig0 sig1 M t" using step by auto
  have "sha2_sched sig0 sig1 M k = sig1 (?W ! (k - 2)) + ?W ! (k - 7) + sig0 (?W ! (k - 15)) + ?W ! (k - 16)"
    using step.hyps IH(2) by (subst sha2_sched.simps) simp
  then have "F W [16..<Suc k] = ?W[k := sha2_sched sig0 sig1 M k]" using step.hyps by (simp add: F_def)
  then show ?case using IH step by (auto simp: nth_list_update less_Suc_eq)
qed

lemma sha2_array:
  fixes n :: nat and sig0 sig1 :: "'w::plus \<Rightarrow> 'w"
  defines "F \<equiv> foldl (\<lambda>W i. W[i := sig1 (W ! (i - 2)) + W ! (i - 7) + sig0 (W ! (i - 15)) + W ! (i - 16)])"
  assumes "length W = n" "16 \<le> n" "t < n"
  shows "F (foldl (\<lambda>W i. W[i := M i]) W [0..<16]) [16..<n] ! t = sha2_sched sig0 sig1 M t"
  unfolding F_def
  using sha2_load [of 16 W M sig0 sig1] assms(2-) sha2_blend [of "foldl (\<lambda>W i. W[i := M i]) W [0..<16]" sig0 sig1 M n]
  by auto

lemma sha2_block_cong:
  assumes "\<And>t. t < n \<Longrightarrow> W t = W' t"
  shows "sha2_block Sig0 Sig1 K W n H = sha2_block Sig0 Sig1 K W' n H"
proof -
  have "foldl (sha2_round Sig0 Sig1 K W) r [0..<n] = foldl (sha2_round Sig0 Sig1 K W') r [0..<n]" for r
    by (rule foldl_cong) (auto simp: sha2_round_def assms)
  then show ?thesis by (simp add: sha2_block_def)
qed

end
