(* ===== verification/Sha256.thy ===== *)
theory Sha256
  imports Sha2
begin

text \<open>
  \<^verbatim>\<open>crc/sha256.c\<close>: the transform with its 64 unrolled rounds, the update and the final step. The transform is the
  block function of FIPS 180-4 and the update satisfies the contract of a block digest. The final step is
  not that of the standard: it appends the length least significant byte first, and it returns the low byte
  of every word of the state instead of the words. The pointer \<^verbatim>\<open>buf\<close> of the context is modelled by the bytes it points to.
\<close>

section \<open>Definitions\<close>

definition Ch_256 :: "u32 \<Rightarrow> u32 \<Rightarrow> u32 \<Rightarrow> u32" where
  "Ch_256 x y z = z XOR (x AND (y XOR z))"

definition Maj_256 :: "u32 \<Rightarrow> u32 \<Rightarrow> u32 \<Rightarrow> u32" where
  "Maj_256 x y z = (x AND y) OR (z AND (x OR y))"

definition ror32 :: "u32 \<Rightarrow> nat \<Rightarrow> u32" where
  "ror32 word shift = drop_bit shift word OR push_bit (32 - shift) word"

definition e0_256 :: "u32 \<Rightarrow> u32" where "e0_256 x = ror32 x 2 XOR ror32 x 13 XOR ror32 x 22"
definition e1_256 :: "u32 \<Rightarrow> u32" where "e1_256 x = ror32 x 6 XOR ror32 x 11 XOR ror32 x 25"
definition s0_256 :: "u32 \<Rightarrow> u32" where "s0_256 x = ror32 x 7 XOR ror32 x 18 XOR drop_bit 3 x"
definition s1_256 :: "u32 \<Rightarrow> u32" where "s1_256 x = ror32 x 17 XOR ror32 x 19 XOR drop_bit 10 x"

definition LOAD_OP_256 :: "nat \<Rightarrow> u32 list \<Rightarrow> bytes \<Rightarrow> u32 list" where
  "LOAD_OP_256 I W input = W[I := be32_to_cpu (le_word (take 4 (drop (4 * I) input)))]"

definition BLEND_OP_256 :: "nat \<Rightarrow> u32 list \<Rightarrow> u32 list" where
  "BLEND_OP_256 I W = W[I := s1_256 (W ! (I - 2)) + W ! (I - 7) + s0_256 (W ! (I - 15)) + W ! (I - 16)]"

text \<open>The local array \<^verbatim>\<open>W\<close> is written before it is read; it starts as zeros here.\<close>

definition sha256_W :: "bytes \<Rightarrow> u32 list" where
  "sha256_W input =
     foldl (\<lambda>W i. BLEND_OP_256 i W) (foldl (\<lambda>W i. LOAD_OP_256 i W input) (replicate 64 0) [0..<16]) [16..<64]"

definition sha256_transform :: "u32 list \<Rightarrow> bytes \<Rightarrow> u32 list" where
  "sha256_transform state input = (let
     W = sha256_W input;
     a = state ! 0; b = state ! 1; c = state ! 2; d = state ! 3;
     e = state ! 4; f = state ! 5; g = state ! 6; h = state ! 7;
     t1 = h + e1_256 e + Ch_256 e f g + 0x428a2f98 + W ! 0;
     t2 = e0_256 a + Maj_256 a b c; d = d + t1; h = t1 + t2;
     t1 = g + e1_256 d + Ch_256 d e f + 0x71374491 + W ! 1;
     t2 = e0_256 h + Maj_256 h a b; c = c + t1; g = t1 + t2;
     t1 = f + e1_256 c + Ch_256 c d e + 0xb5c0fbcf + W ! 2;
     t2 = e0_256 g + Maj_256 g h a; b = b + t1; f = t1 + t2;
     t1 = e + e1_256 b + Ch_256 b c d + 0xe9b5dba5 + W ! 3;
     t2 = e0_256 f + Maj_256 f g h; a = a + t1; e = t1 + t2;
     t1 = d + e1_256 a + Ch_256 a b c + 0x3956c25b + W ! 4;
     t2 = e0_256 e + Maj_256 e f g; h = h + t1; d = t1 + t2;
     t1 = c + e1_256 h + Ch_256 h a b + 0x59f111f1 + W ! 5;
     t2 = e0_256 d + Maj_256 d e f; g = g + t1; c = t1 + t2;
     t1 = b + e1_256 g + Ch_256 g h a + 0x923f82a4 + W ! 6;
     t2 = e0_256 c + Maj_256 c d e; f = f + t1; b = t1 + t2;
     t1 = a + e1_256 f + Ch_256 f g h + 0xab1c5ed5 + W ! 7;
     t2 = e0_256 b + Maj_256 b c d; e = e + t1; a = t1 + t2;
     t1 = h + e1_256 e + Ch_256 e f g + 0xd807aa98 + W ! 8;
     t2 = e0_256 a + Maj_256 a b c; d = d + t1; h = t1 + t2;
     t1 = g + e1_256 d + Ch_256 d e f + 0x12835b01 + W ! 9;
     t2 = e0_256 h + Maj_256 h a b; c = c + t1; g = t1 + t2;
     t1 = f + e1_256 c + Ch_256 c d e + 0x243185be + W ! 10;
     t2 = e0_256 g + Maj_256 g h a; b = b + t1; f = t1 + t2;
     t1 = e + e1_256 b + Ch_256 b c d + 0x550c7dc3 + W ! 11;
     t2 = e0_256 f + Maj_256 f g h; a = a + t1; e = t1 + t2;
     t1 = d + e1_256 a + Ch_256 a b c + 0x72be5d74 + W ! 12;
     t2 = e0_256 e + Maj_256 e f g; h = h + t1; d = t1 + t2;
     t1 = c + e1_256 h + Ch_256 h a b + 0x80deb1fe + W ! 13;
     t2 = e0_256 d + Maj_256 d e f; g = g + t1; c = t1 + t2;
     t1 = b + e1_256 g + Ch_256 g h a + 0x9bdc06a7 + W ! 14;
     t2 = e0_256 c + Maj_256 c d e; f = f + t1; b = t1 + t2;
     t1 = a + e1_256 f + Ch_256 f g h + 0xc19bf174 + W ! 15;
     t2 = e0_256 b + Maj_256 b c d; e = e + t1; a = t1 + t2;
     t1 = h + e1_256 e + Ch_256 e f g + 0xe49b69c1 + W ! 16;
     t2 = e0_256 a + Maj_256 a b c; d = d + t1; h = t1 + t2;
     t1 = g + e1_256 d + Ch_256 d e f + 0xefbe4786 + W ! 17;
     t2 = e0_256 h + Maj_256 h a b; c = c + t1; g = t1 + t2;
     t1 = f + e1_256 c + Ch_256 c d e + 0x0fc19dc6 + W ! 18;
     t2 = e0_256 g + Maj_256 g h a; b = b + t1; f = t1 + t2;
     t1 = e + e1_256 b + Ch_256 b c d + 0x240ca1cc + W ! 19;
     t2 = e0_256 f + Maj_256 f g h; a = a + t1; e = t1 + t2;
     t1 = d + e1_256 a + Ch_256 a b c + 0x2de92c6f + W ! 20;
     t2 = e0_256 e + Maj_256 e f g; h = h + t1; d = t1 + t2;
     t1 = c + e1_256 h + Ch_256 h a b + 0x4a7484aa + W ! 21;
     t2 = e0_256 d + Maj_256 d e f; g = g + t1; c = t1 + t2;
     t1 = b + e1_256 g + Ch_256 g h a + 0x5cb0a9dc + W ! 22;
     t2 = e0_256 c + Maj_256 c d e; f = f + t1; b = t1 + t2;
     t1 = a + e1_256 f + Ch_256 f g h + 0x76f988da + W ! 23;
     t2 = e0_256 b + Maj_256 b c d; e = e + t1; a = t1 + t2;
     t1 = h + e1_256 e + Ch_256 e f g + 0x983e5152 + W ! 24;
     t2 = e0_256 a + Maj_256 a b c; d = d + t1; h = t1 + t2;
     t1 = g + e1_256 d + Ch_256 d e f + 0xa831c66d + W ! 25;
     t2 = e0_256 h + Maj_256 h a b; c = c + t1; g = t1 + t2;
     t1 = f + e1_256 c + Ch_256 c d e + 0xb00327c8 + W ! 26;
     t2 = e0_256 g + Maj_256 g h a; b = b + t1; f = t1 + t2;
     t1 = e + e1_256 b + Ch_256 b c d + 0xbf597fc7 + W ! 27;
     t2 = e0_256 f + Maj_256 f g h; a = a + t1; e = t1 + t2;
     t1 = d + e1_256 a + Ch_256 a b c + 0xc6e00bf3 + W ! 28;
     t2 = e0_256 e + Maj_256 e f g; h = h + t1; d = t1 + t2;
     t1 = c + e1_256 h + Ch_256 h a b + 0xd5a79147 + W ! 29;
     t2 = e0_256 d + Maj_256 d e f; g = g + t1; c = t1 + t2;
     t1 = b + e1_256 g + Ch_256 g h a + 0x06ca6351 + W ! 30;
     t2 = e0_256 c + Maj_256 c d e; f = f + t1; b = t1 + t2;
     t1 = a + e1_256 f + Ch_256 f g h + 0x14292967 + W ! 31;
     t2 = e0_256 b + Maj_256 b c d; e = e + t1; a = t1 + t2;
     t1 = h + e1_256 e + Ch_256 e f g + 0x27b70a85 + W ! 32;
     t2 = e0_256 a + Maj_256 a b c; d = d + t1; h = t1 + t2;
     t1 = g + e1_256 d + Ch_256 d e f + 0x2e1b2138 + W ! 33;
     t2 = e0_256 h + Maj_256 h a b; c = c + t1; g = t1 + t2;
     t1 = f + e1_256 c + Ch_256 c d e + 0x4d2c6dfc + W ! 34;
     t2 = e0_256 g + Maj_256 g h a; b = b + t1; f = t1 + t2;
     t1 = e + e1_256 b + Ch_256 b c d + 0x53380d13 + W ! 35;
     t2 = e0_256 f + Maj_256 f g h; a = a + t1; e = t1 + t2;
     t1 = d + e1_256 a + Ch_256 a b c + 0x650a7354 + W ! 36;
     t2 = e0_256 e + Maj_256 e f g; h = h + t1; d = t1 + t2;
     t1 = c + e1_256 h + Ch_256 h a b + 0x766a0abb + W ! 37;
     t2 = e0_256 d + Maj_256 d e f; g = g + t1; c = t1 + t2;
     t1 = b + e1_256 g + Ch_256 g h a + 0x81c2c92e + W ! 38;
     t2 = e0_256 c + Maj_256 c d e; f = f + t1; b = t1 + t2;
     t1 = a + e1_256 f + Ch_256 f g h + 0x92722c85 + W ! 39;
     t2 = e0_256 b + Maj_256 b c d; e = e + t1; a = t1 + t2;
     t1 = h + e1_256 e + Ch_256 e f g + 0xa2bfe8a1 + W ! 40;
     t2 = e0_256 a + Maj_256 a b c; d = d + t1; h = t1 + t2;
     t1 = g + e1_256 d + Ch_256 d e f + 0xa81a664b + W ! 41;
     t2 = e0_256 h + Maj_256 h a b; c = c + t1; g = t1 + t2;
     t1 = f + e1_256 c + Ch_256 c d e + 0xc24b8b70 + W ! 42;
     t2 = e0_256 g + Maj_256 g h a; b = b + t1; f = t1 + t2;
     t1 = e + e1_256 b + Ch_256 b c d + 0xc76c51a3 + W ! 43;
     t2 = e0_256 f + Maj_256 f g h; a = a + t1; e = t1 + t2;
     t1 = d + e1_256 a + Ch_256 a b c + 0xd192e819 + W ! 44;
     t2 = e0_256 e + Maj_256 e f g; h = h + t1; d = t1 + t2;
     t1 = c + e1_256 h + Ch_256 h a b + 0xd6990624 + W ! 45;
     t2 = e0_256 d + Maj_256 d e f; g = g + t1; c = t1 + t2;
     t1 = b + e1_256 g + Ch_256 g h a + 0xf40e3585 + W ! 46;
     t2 = e0_256 c + Maj_256 c d e; f = f + t1; b = t1 + t2;
     t1 = a + e1_256 f + Ch_256 f g h + 0x106aa070 + W ! 47;
     t2 = e0_256 b + Maj_256 b c d; e = e + t1; a = t1 + t2;
     t1 = h + e1_256 e + Ch_256 e f g + 0x19a4c116 + W ! 48;
     t2 = e0_256 a + Maj_256 a b c; d = d + t1; h = t1 + t2;
     t1 = g + e1_256 d + Ch_256 d e f + 0x1e376c08 + W ! 49;
     t2 = e0_256 h + Maj_256 h a b; c = c + t1; g = t1 + t2;
     t1 = f + e1_256 c + Ch_256 c d e + 0x2748774c + W ! 50;
     t2 = e0_256 g + Maj_256 g h a; b = b + t1; f = t1 + t2;
     t1 = e + e1_256 b + Ch_256 b c d + 0x34b0bcb5 + W ! 51;
     t2 = e0_256 f + Maj_256 f g h; a = a + t1; e = t1 + t2;
     t1 = d + e1_256 a + Ch_256 a b c + 0x391c0cb3 + W ! 52;
     t2 = e0_256 e + Maj_256 e f g; h = h + t1; d = t1 + t2;
     t1 = c + e1_256 h + Ch_256 h a b + 0x4ed8aa4a + W ! 53;
     t2 = e0_256 d + Maj_256 d e f; g = g + t1; c = t1 + t2;
     t1 = b + e1_256 g + Ch_256 g h a + 0x5b9cca4f + W ! 54;
     t2 = e0_256 c + Maj_256 c d e; f = f + t1; b = t1 + t2;
     t1 = a + e1_256 f + Ch_256 f g h + 0x682e6ff3 + W ! 55;
     t2 = e0_256 b + Maj_256 b c d; e = e + t1; a = t1 + t2;
     t1 = h + e1_256 e + Ch_256 e f g + 0x748f82ee + W ! 56;
     t2 = e0_256 a + Maj_256 a b c; d = d + t1; h = t1 + t2;
     t1 = g + e1_256 d + Ch_256 d e f + 0x78a5636f + W ! 57;
     t2 = e0_256 h + Maj_256 h a b; c = c + t1; g = t1 + t2;
     t1 = f + e1_256 c + Ch_256 c d e + 0x84c87814 + W ! 58;
     t2 = e0_256 g + Maj_256 g h a; b = b + t1; f = t1 + t2;
     t1 = e + e1_256 b + Ch_256 b c d + 0x8cc70208 + W ! 59;
     t2 = e0_256 f + Maj_256 f g h; a = a + t1; e = t1 + t2;
     t1 = d + e1_256 a + Ch_256 a b c + 0x90befffa + W ! 60;
     t2 = e0_256 e + Maj_256 e f g; h = h + t1; d = t1 + t2;
     t1 = c + e1_256 h + Ch_256 h a b + 0xa4506ceb + W ! 61;
     t2 = e0_256 d + Maj_256 d e f; g = g + t1; c = t1 + t2;
     t1 = b + e1_256 g + Ch_256 g h a + 0xbef9a3f7 + W ! 62;
     t2 = e0_256 c + Maj_256 c d e; f = f + t1; b = t1 + t2;
     t1 = a + e1_256 f + Ch_256 f g h + 0xc67178f2 + W ! 63;
     t2 = e0_256 b + Maj_256 b c d; e = e + t1; a = t1 + t2
   in [state ! 0 + a, state ! 1 + b, state ! 2 + c, state ! 3 + d,
       state ! 4 + e, state ! 5 + f, state ! 6 + g, state ! 7 + h])"

record fio_sha256_ctx =
  sha256_count :: u32
  sha256_state :: "u32 list"
  sha256_buf :: bytes

definition sha256_H :: "u32 list" where
  "sha256_H = [0x6a09e667, 0xbb67ae85, 0x3c6ef372, 0xa54ff53a, 0x510e527f, 0x9b05688c, 0x1f83d9ab, 0x5be0cd19]"

definition fio_sha256_init :: "fio_sha256_ctx \<Rightarrow> fio_sha256_ctx" where
  "fio_sha256_init sctx = sctx\<lparr>sha256_state := sha256_H, sha256_count := 0\<rparr>"

definition fio_sha256_update :: "fio_sha256_ctx \<Rightarrow> bytes \<Rightarrow> fio_sha256_ctx option" where
  "fio_sha256_update sctx data = (let
     len = of_nat (length data);
     partial = sha256_count sctx AND 0x3f;
     sctx = sctx\<lparr>sha256_count := sha256_count sctx + len\<rparr>
   in do {
     (state, buf, _) \<leftarrow> block_update 64 sha256_transform (sha256_state sctx) (sha256_buf sctx) partial data len;
     Some (sctx\<lparr>sha256_state := state, sha256_buf := buf\<rparr>)
   })"

definition store_state :: "u32 list \<Rightarrow> bytes \<Rightarrow> nat \<Rightarrow> bytes option" where
  "store_state state buf i = wr buf i (ucast (state ! i))"

fun store_states :: "u32 list \<Rightarrow> bytes \<Rightarrow> nat list \<Rightarrow> bytes option" where
  "store_states state buf [] = Some buf"
| "store_states state buf (i # is) = do { buf \<leftarrow> store_state state buf i; store_states state buf is }"

definition fio_sha256_final :: "fio_sha256_ctx \<Rightarrow> fio_sha256_ctx option" where
  "fio_sha256_final sctx = (let
     bits = push_bit 3 (ucast (sha256_count sctx) :: u64);
     index = sha256_count sctx AND 0x3f;
     pad_len = (if index < 56 then 56 - index else 64 + 56 - index)
   in do {
     sctx \<leftarrow> fio_sha256_update sctx (take (unat pad_len) (0x80 # replicate 63 0));
     sctx \<leftarrow> fio_sha256_update sctx (le_bytes 8 bits);
     buf \<leftarrow> store_states (sha256_state sctx) (sha256_buf sctx) [0..<8];
     Some (sctx\<lparr>sha256_buf := buf\<rparr>)
   })"

section \<open>The transform is the block function of FIPS 180-4\<close>

definition sha256_K :: "u32 list" where
  "sha256_K = concat [
    [0x428a2f98, 0x71374491, 0xb5c0fbcf, 0xe9b5dba5],
    [0x3956c25b, 0x59f111f1, 0x923f82a4, 0xab1c5ed5],
    [0xd807aa98, 0x12835b01, 0x243185be, 0x550c7dc3],
    [0x72be5d74, 0x80deb1fe, 0x9bdc06a7, 0xc19bf174],
    [0xe49b69c1, 0xefbe4786, 0x0fc19dc6, 0x240ca1cc],
    [0x2de92c6f, 0x4a7484aa, 0x5cb0a9dc, 0x76f988da],
    [0x983e5152, 0xa831c66d, 0xb00327c8, 0xbf597fc7],
    [0xc6e00bf3, 0xd5a79147, 0x06ca6351, 0x14292967],
    [0x27b70a85, 0x2e1b2138, 0x4d2c6dfc, 0x53380d13],
    [0x650a7354, 0x766a0abb, 0x81c2c92e, 0x92722c85],
    [0xa2bfe8a1, 0xa81a664b, 0xc24b8b70, 0xc76c51a3],
    [0xd192e819, 0xd6990624, 0xf40e3585, 0x106aa070],
    [0x19a4c116, 0x1e376c08, 0x2748774c, 0x34b0bcb5],
    [0x391c0cb3, 0x4ed8aa4a, 0x5b9cca4f, 0x682e6ff3],
    [0x748f82ee, 0x78a5636f, 0x84c87814, 0x8cc70208],
    [0x90befffa, 0xa4506ceb, 0xbef9a3f7, 0xc67178f2]]"

definition sha256_M :: "bytes \<Rightarrow> nat \<Rightarrow> u32" where
  "sha256_M input t = be_word (take 4 (drop (4 * t) input))"

definition sha256_block :: "u32 list \<Rightarrow> bytes \<Rightarrow> u32 list" where
  "sha256_block H input = sha2_block e0_256 e1_256 (\<lambda>t. sha256_K ! t) (sha2_sched s0_256 s1_256 (sha256_M input)) 64 H"

lemma sha256_round_Let:
  "foldl (sha2_round e0_256 e1_256 (\<lambda>t. sha256_K ! t) (\<lambda>t. W ! t)) (a, b, c, d, e, f, g, h) (i # is) =
    (let t1 = h + e1_256 e + Ch_256 e f g + sha256_K ! i + W ! i; t2 = e0_256 a + Maj_256 a b c; d = d + t1; h = t1 + t2
     in foldl (sha2_round e0_256 e1_256 (\<lambda>t. sha256_K ! t) (\<lambda>t. W ! t)) (h, a, b, c, d, e, f, g) is)"
  by (simp add: sha2_round_def Let_def Ch_256_def Maj_256_def sha2_ch sha2_maj)

lemma sha256_K_nth:
  "sha256_K ! 0 = 0x428a2f98" "sha256_K ! 1 = 0x71374491" "sha256_K ! 2 = 0xb5c0fbcf" "sha256_K ! 3 = 0xe9b5dba5"
  "sha256_K ! 4 = 0x3956c25b" "sha256_K ! 5 = 0x59f111f1" "sha256_K ! 6 = 0x923f82a4" "sha256_K ! 7 = 0xab1c5ed5"
  "sha256_K ! 8 = 0xd807aa98" "sha256_K ! 9 = 0x12835b01" "sha256_K ! 10 = 0x243185be" "sha256_K ! 11 = 0x550c7dc3"
  "sha256_K ! 12 = 0x72be5d74" "sha256_K ! 13 = 0x80deb1fe" "sha256_K ! 14 = 0x9bdc06a7" "sha256_K ! 15 = 0xc19bf174"
  "sha256_K ! 16 = 0xe49b69c1" "sha256_K ! 17 = 0xefbe4786" "sha256_K ! 18 = 0x0fc19dc6" "sha256_K ! 19 = 0x240ca1cc"
  "sha256_K ! 20 = 0x2de92c6f" "sha256_K ! 21 = 0x4a7484aa" "sha256_K ! 22 = 0x5cb0a9dc" "sha256_K ! 23 = 0x76f988da"
  "sha256_K ! 24 = 0x983e5152" "sha256_K ! 25 = 0xa831c66d" "sha256_K ! 26 = 0xb00327c8" "sha256_K ! 27 = 0xbf597fc7"
  "sha256_K ! 28 = 0xc6e00bf3" "sha256_K ! 29 = 0xd5a79147" "sha256_K ! 30 = 0x06ca6351" "sha256_K ! 31 = 0x14292967"
  "sha256_K ! 32 = 0x27b70a85" "sha256_K ! 33 = 0x2e1b2138" "sha256_K ! 34 = 0x4d2c6dfc" "sha256_K ! 35 = 0x53380d13"
  "sha256_K ! 36 = 0x650a7354" "sha256_K ! 37 = 0x766a0abb" "sha256_K ! 38 = 0x81c2c92e" "sha256_K ! 39 = 0x92722c85"
  "sha256_K ! 40 = 0xa2bfe8a1" "sha256_K ! 41 = 0xa81a664b" "sha256_K ! 42 = 0xc24b8b70" "sha256_K ! 43 = 0xc76c51a3"
  "sha256_K ! 44 = 0xd192e819" "sha256_K ! 45 = 0xd6990624" "sha256_K ! 46 = 0xf40e3585" "sha256_K ! 47 = 0x106aa070"
  "sha256_K ! 48 = 0x19a4c116" "sha256_K ! 49 = 0x1e376c08" "sha256_K ! 50 = 0x2748774c" "sha256_K ! 51 = 0x34b0bcb5"
  "sha256_K ! 52 = 0x391c0cb3" "sha256_K ! 53 = 0x4ed8aa4a" "sha256_K ! 54 = 0x5b9cca4f" "sha256_K ! 55 = 0x682e6ff3"
  "sha256_K ! 56 = 0x748f82ee" "sha256_K ! 57 = 0x78a5636f" "sha256_K ! 58 = 0x84c87814" "sha256_K ! 59 = 0x8cc70208"
  "sha256_K ! 60 = 0x90befffa" "sha256_K ! 61 = 0xa4506ceb" "sha256_K ! 62 = 0xbef9a3f7" "sha256_K ! 63 = 0xc67178f2"
  by (simp_all add: sha256_K_def)

lemma sha256_transform_rounds:
  "sha256_transform H input = sha2_block e0_256 e1_256 (\<lambda>t. sha256_K ! t) (\<lambda>t. sha256_W input ! t) 64 H"
  unfolding sha256_transform_def sha2_block_def upt_64
  by (simp only: sha256_round_Let sha256_K_nth foldl_Nil case_Let prod.case cong del: let_weak_cong)
     (simp only: Let_def [of "H ! _"] Let_def [of "sha256_W input"])

lemma sha256_W_sched:
  assumes "length input = 64" and "t < 64"
  shows "sha256_W input ! t = sha2_sched s0_256 s1_256 (sha256_M input) t"
proof -
  have "be32_to_cpu (le_word (take 4 (drop (4 * i) input))) = sha256_M input i" if "i \<in> set [0..<16]" for i
    using that assms(1) by (simp add: sha256_M_def be32_to_cpu_load)
  then have load: "foldl (\<lambda>W i. LOAD_OP_256 i W input) W [0..<16] = foldl (\<lambda>W i. W[i := sha256_M input i]) W [0..<16]" for W
    by (intro foldl_cong refl) (simp only: LOAD_OP_256_def)
  show ?thesis
    unfolding sha256_W_def BLEND_OP_256_def load by (rule sha2_array [OF length_replicate _ assms(2)]) simp
qed

lemma sha256_transform_fips: "length input = 64 \<Longrightarrow> sha256_transform H input = sha256_block H input"
  unfolding sha256_transform_rounds sha256_block_def
  by (intro sha2_block_cong) (simp add: sha256_W_sched)

section \<open>The contract of a block digest\<close>

definition sha256_inv :: "fio_sha256_ctx \<Rightarrow> bool" where
  "sha256_inv c \<longleftrightarrow> 64 \<le> length (sha256_buf c)"

definition sha256_pending :: "fio_sha256_ctx \<Rightarrow> bytes" where
  "sha256_pending c = take (unat (sha256_count c) mod 64) (sha256_buf c)"

lemma sha256_update_absorbs:
  assumes "64 \<le> length (sha256_buf c)" and "length d \<le> 2 ^ 32 - 64"
  shows "\<exists>c'. fio_sha256_update c d = Some c' \<and> length (sha256_buf c') = length (sha256_buf c) \<and>
    (sha256_state c', sha256_pending c') = absorb 64 sha256_transform (sha256_state c) (sha256_pending c @ d) \<and>
    unat (sha256_count c') = (unat (sha256_count c) + length d) mod 2 ^ 32"
proof -
  let ?k = "unat (sha256_count c) mod 64"
  have k: "unat (sha256_count c AND 0x3f) = ?k" by (rule unat_and_3f)
  have tot: "unat (sha256_count c + of_nat (length d)) = (unat (sha256_count c) + length d) mod 2 ^ 32"
    using unat_add_of_nat [of "sha256_count c" "length d"] by simp
  then have cnt: "unat (sha256_count c + of_nat (length d)) mod 64 = (?k + length d) mod 64"
    by (simp only: mod_mod_64 mod_add_left_eq)
  obtain s b where "block_update 64 sha256_transform (sha256_state c) (sha256_buf c) (sha256_count c AND 0x3f) d
      (of_nat (length d)) = Some (s, b, of_nat ((?k + length d) mod 64))" "length b = length (sha256_buf c)"
    "(s, take ((?k + length d) mod 64) b) = absorb 64 sha256_transform (sha256_state c) (take ?k (sha256_buf c) @ d)"
    using block_update_absorbs [of 64 d "sha256_count c AND 0x3f" "sha256_buf c" sha256_transform "sha256_state c"]
      assms k by auto
  then show ?thesis
    using tot cnt by (auto simp: fio_sha256_update_def Let_def sha256_pending_def)
qed

interpretation sha256: block_digest 64 "2 ^ 32" "2 ^ 32 - 64" sha256_transform sha256_inv sha256_state sha256_pending
  "unat \<circ> sha256_count" fio_sha256_update
proof
  fix c and d :: bytes
  assume "sha256_inv c" "length d \<le> 2 ^ 32 - 64"
  then show "\<exists>c'. fio_sha256_update c d = Some c' \<and> sha256_inv c' \<and>
      (sha256_state c', sha256_pending c') = absorb 64 sha256_transform (sha256_state c) (sha256_pending c @ d) \<and>
      (unat \<circ> sha256_count) c' = ((unat \<circ> sha256_count) c + length d) mod 2 ^ 32"
    using sha256_update_absorbs [of c d] by (auto simp: sha256_inv_def)
qed (simp_all add: mod_less [OF unat_bound32, simplified])

section \<open>The digest of a message\<close>

lemma store_states_low_bytes:
  "n \<le> length buf \<Longrightarrow> store_states st buf [0..<n] = Some (map (\<lambda>i. ucast (st ! i)) [0..<n] @ drop n buf)"
proof -
  have "i \<le> n \<Longrightarrow> n \<le> length buf \<Longrightarrow> length b = i \<Longrightarrow>
      store_states st (b @ drop i buf) [i..<n] = Some (b @ map (\<lambda>i. ucast (st ! i)) [i..<n] @ drop n buf)" for i b
  proof (induction "n - i" arbitrary: i b)
    case (Suc k)
    then have "[i..<n] = i # [Suc i..<n]" "drop i buf = buf ! i # drop (Suc i) buf"
      by (simp_all add: upt_conv_Cons Cons_nth_drop_Suc)
    then show ?case
      using Suc.hyps(1) [of "Suc i" "b @ [ucast (st ! i)]"] Suc.hyps(2) Suc.prems
      by (simp add: store_state_def wr_def list_update_append)
  qed simp
  from this [of 0 "[]"] show "n \<le> length buf \<Longrightarrow> ?thesis" by simp
qed

text \<open>The transform only ever sees whole blocks.\<close>

lemma absorb_sha256: "absorb 64 sha256_transform H m = absorb 64 sha256_block H m"
  by (rule absorb_cong) (simp add: sha256_transform_fips)

lemma sha256_pad_len:
  "unat (if w AND 0x3f < 56 then 56 - (w AND 0x3f) else 64 + 56 - (w AND 0x3f) :: u32) = Suc ((119 - unat w mod 64) mod 64)"
proof -
  have k: "unat (w AND 0x3f) = unat w mod 64" by (rule unat_and_3f)
  have k64: "unat w mod 64 < 64" by simp
  have lt: "w AND 0x3f < 56 \<longleftrightarrow> unat w mod 64 < 56" by (simp add: word_less_nat_alt k)
  show ?thesis
  proof (cases "unat w mod 64 < 56")
    case True
    then have "unat (56 - (w AND 0x3f)) = 56 - unat w mod 64" by (subst unat_sub) (simp_all add: word_le_nat_alt k)
    moreover have "(119 - unat w mod 64) mod 64 = 55 - unat w mod 64" using True by (intro pad_zeros) simp
    ultimately show ?thesis using True lt by (simp del: One_nat_def) linarith
  next
    case False
    then have "unat (120 - (w AND 0x3f)) = 120 - unat w mod 64"
      using k64 by (subst unat_sub) (simp_all add: word_le_nat_alt k)
    moreover have "(119 - unat w mod 64) mod 64 = (63 - unat w mod 64) + 56" using False k64 by (intro pad_zeros) simp_all
    ultimately show ?thesis using False lt k64 by simp
  qed
qed

text \<open>
  C25 (functional): initialising a context, feeding it a message in pieces of up to \<open>2 ^ 32 - 64\<close> bytes and
  finishing runs the block function of FIPS 180-4 over the message padded with a 1 bit, zeros and its length
  in bits, 32 bits of byte count wide and least significant byte first, without leaving the buffer; the
  result handed back is the low byte of each of the eight words of the state.
\<close>

theorem sha256_digest:
  assumes "64 \<le> length (sha256_buf c)" and "\<forall>d \<in> set ds. length d \<le> 2 ^ 32 - 64"
  shows "\<exists>c1 c2 H. feed fio_sha256_update (fio_sha256_init c) ds = Some c1 \<and> fio_sha256_final c1 = Some c2 \<and>
    H = fst (absorb 64 sha256_block sha256_H (concat ds @ md_pad (length (concat ds))
      (le_bytes 8 (of_nat (8 * (length (concat ds) mod 2 ^ 32)) :: u64)))) \<and>
    sha256_state c2 = H \<and> take 8 (sha256_buf c2) = map (\<lambda>i. ucast (H ! i)) [0..<8]"
proof -
  let ?m = "concat ds" and ?c = "fio_sha256_init c"
  have inv: "sha256_inv ?c" "sha256_pending ?c = []" "(unat \<circ> sha256_count) ?c = 0"
    using assms by (simp_all add: sha256_inv_def sha256_pending_def fio_sha256_init_def)
  obtain c1 where c1: "feed fio_sha256_update ?c ds = Some c1" "sha256_inv c1"
    "(sha256_state c1, sha256_pending c1) = absorb 64 sha256_transform (sha256_state ?c) ?m"
    "unat (sha256_count c1) = length ?m mod 2 ^ 32"
    using sha256.feed_concat [OF inv(1,2) assms(2)] inv(3) by auto
  let ?k = "unat (sha256_count c1) mod 64"
  define pad where "pad = 0x80 # replicate ((119 - ?k) mod 64) (0 :: u8)"
  define len where "len = le_bytes 8 (push_bit 3 (ucast (sha256_count c1) :: u64))"
  have k63: "(119 - ?k) mod 64 \<le> 63" by simp
  then have take: "take (Suc ((119 - ?k) mod 64)) (0x80 # replicate 63 0) = pad" by (simp add: pad_def)
  have "length pad \<le> 2 ^ 32 - 64" using k63 by (simp add: pad_def del: mod_le_divisor)
  then have small_pad: "\<forall>d \<in> set [pad, len]. length d \<le> 2 ^ 32 - 64" by (simp add: len_def)
  obtain c2 where c2: "feed fio_sha256_update c1 [pad, len] = Some c2" "sha256_inv c2"
    "(sha256_state c2, sha256_pending c2) = absorb 64 sha256_transform (sha256_state c1) (sha256_pending c1 @ concat [pad, len])"
    using sha256.feed_absorbs [OF c1(2) small_pad] by auto
  obtain b where b: "store_states (sha256_state c2) (sha256_buf c2) [0..<8] = Some b"
    "take 8 b = map (\<lambda>i. ucast (sha256_state c2 ! i)) [0..<8]"
    using store_states_low_bytes [of 8 "sha256_buf c2" "sha256_state c2"] c2(2) by (auto simp: sha256_inv_def)
  obtain c' where c': "fio_sha256_update c1 pad = Some c'" "fio_sha256_update c' len = Some c2"
    using c2(1) by (auto simp: bind_eq_Some_conv)
  have final: "fio_sha256_final c1 = Some (c2\<lparr>sha256_buf := b\<rparr>)"
    unfolding fio_sha256_final_def Let_def sha256_pad_len take len_def [symmetric]
    by (simp add: c' b(1) del: upt_rec_numeral)
  have "push_bit 3 (ucast (sha256_count c1) :: u64) = of_nat (8 * unat (sha256_count c1))"
    by (simp add: push_bit_eq_mult)
  then have "concat [pad, len] = md_pad (length ?m) (le_bytes 8 (of_nat (8 * (length ?m mod 2 ^ 32)) :: u64))"
    unfolding pad_def len_def md_pad_def by (simp only: c1(4) mod_mod_64 concat.simps append_Nil2 append_Cons)
  then have "sha256_state c2 = fst (absorb 64 sha256_transform (sha256_state ?c)
      (?m @ md_pad (length ?m) (le_bytes 8 (of_nat (8 * (length ?m mod 2 ^ 32)) :: u64))))"
    using c2(3) absorb_append [of 64 sha256_transform "sha256_state ?c" ?m] by (simp flip: c1(3)) (metis fst_conv)
  then show ?thesis
    using c1(1) final b(2) by (simp add: fio_sha256_init_def absorb_sha256 del: upt_rec_numeral)
qed

theorem sha256_digest_witness:
  "\<exists>c1 c2. feed fio_sha256_update (fio_sha256_init \<lparr>sha256_count = 5, sha256_state = [], sha256_buf = replicate 64 0\<rparr>)
      [[97], [98, 99]] = Some c1 \<and> fio_sha256_final c1 = Some c2 \<and> length (take 8 (sha256_buf c2)) = 8"
  using sha256_digest [of "\<lparr>sha256_count = 5, sha256_state = [], sha256_buf = replicate 64 0\<rparr>" "[[97], [98, 99]]"]
  by (fastforce simp del: upt_rec_numeral length_take dest: arg_cong [of _ _ length])

end
