(* ===== verification/Sha512.thy ===== *)
theory Sha512
  imports Sha2
begin

text \<open>
  \<^verbatim>\<open>crc/sha512.c\<close>: the transform and the update; there is no final step. The transform is the block function of
  FIPS 180-4 and the update satisfies the contract of a block digest. What \<^verbatim>\<open>verify=sha512\<close> stores and compares,
  however, is the buffer \<^verbatim>\<open>buf\<close> of the context, which never receives the state: it holds bytes of the data.
\<close>

section \<open>Definitions\<close>

definition Ch_512 :: "u64 \<Rightarrow> u64 \<Rightarrow> u64 \<Rightarrow> u64" where
  "Ch_512 x y z = z XOR (x AND (y XOR z))"

definition Maj_512 :: "u64 \<Rightarrow> u64 \<Rightarrow> u64 \<Rightarrow> u64" where
  "Maj_512 x y z = (x AND y) OR (z AND (x OR y))"

definition RORuint64_t :: "u64 \<Rightarrow> nat \<Rightarrow> u64" where
  "RORuint64_t x y = drop_bit y x OR push_bit (64 - y) x"

definition sha512_K :: "u64 list" where
  "sha512_K = concat [
    [0x428a2f98d728ae22, 0x7137449123ef65cd, 0xb5c0fbcfec4d3b2f],
    [0xe9b5dba58189dbbc, 0x3956c25bf348b538, 0x59f111f1b605d019],
    [0x923f82a4af194f9b, 0xab1c5ed5da6d8118, 0xd807aa98a3030242],
    [0x12835b0145706fbe, 0x243185be4ee4b28c, 0x550c7dc3d5ffb4e2],
    [0x72be5d74f27b896f, 0x80deb1fe3b1696b1, 0x9bdc06a725c71235],
    [0xc19bf174cf692694, 0xe49b69c19ef14ad2, 0xefbe4786384f25e3],
    [0x0fc19dc68b8cd5b5, 0x240ca1cc77ac9c65, 0x2de92c6f592b0275],
    [0x4a7484aa6ea6e483, 0x5cb0a9dcbd41fbd4, 0x76f988da831153b5],
    [0x983e5152ee66dfab, 0xa831c66d2db43210, 0xb00327c898fb213f],
    [0xbf597fc7beef0ee4, 0xc6e00bf33da88fc2, 0xd5a79147930aa725],
    [0x06ca6351e003826f, 0x142929670a0e6e70, 0x27b70a8546d22ffc],
    [0x2e1b21385c26c926, 0x4d2c6dfc5ac42aed, 0x53380d139d95b3df],
    [0x650a73548baf63de, 0x766a0abb3c77b2a8, 0x81c2c92e47edaee6],
    [0x92722c851482353b, 0xa2bfe8a14cf10364, 0xa81a664bbc423001],
    [0xc24b8b70d0f89791, 0xc76c51a30654be30, 0xd192e819d6ef5218],
    [0xd69906245565a910, 0xf40e35855771202a, 0x106aa07032bbd1b8],
    [0x19a4c116b8d2d0c8, 0x1e376c085141ab53, 0x2748774cdf8eeb99],
    [0x34b0bcb5e19b48a8, 0x391c0cb3c5c95a63, 0x4ed8aa4ae3418acb],
    [0x5b9cca4f7763e373, 0x682e6ff3d6b2b8a3, 0x748f82ee5defb2fc],
    [0x78a5636f43172f60, 0x84c87814a1f0ab72, 0x8cc702081a6439ec],
    [0x90befffa23631e28, 0xa4506cebde82bde9, 0xbef9a3f7b2c67915],
    [0xc67178f2e372532b, 0xca273eceea26619c, 0xd186b8c721c0c207],
    [0xeada7dd6cde0eb1e, 0xf57d4f7fee6ed178, 0x06f067aa72176fba],
    [0x0a637dc5a2c898a6, 0x113f9804bef90dae, 0x1b710b35131c471b],
    [0x28db77f523047d84, 0x32caab7b40c72493, 0x3c9ebe0a15c9bebc],
    [0x431d67c49c100d4c, 0x4cc5d4becb3e42b6, 0x597f299cfc657e2a],
    [0x5fcb6fab3ad6faec, 0x6c44198c4a475817]]"

definition e0_512 :: "u64 \<Rightarrow> u64" where "e0_512 x = RORuint64_t x 28 XOR RORuint64_t x 34 XOR RORuint64_t x 39"
definition e1_512 :: "u64 \<Rightarrow> u64" where "e1_512 x = RORuint64_t x 14 XOR RORuint64_t x 18 XOR RORuint64_t x 41"
definition s0_512 :: "u64 \<Rightarrow> u64" where "s0_512 x = RORuint64_t x 1 XOR RORuint64_t x 8 XOR drop_bit 7 x"
definition s1_512 :: "u64 \<Rightarrow> u64" where "s1_512 x = RORuint64_t x 19 XOR RORuint64_t x 61 XOR drop_bit 6 x"

definition LOAD_OP_512 :: "nat \<Rightarrow> u64 list \<Rightarrow> bytes \<Rightarrow> u64 list" where
  "LOAD_OP_512 I W input = W[I := be64_to_cpu (le_word (take 8 (drop (8 * I) input)))]"

definition BLEND_OP_512 :: "nat \<Rightarrow> u64 list \<Rightarrow> u64 list" where
  "BLEND_OP_512 I W = W[I := s1_512 (W ! (I - 2)) + W ! (I - 7) + s0_512 (W ! (I - 15)) + W ! (I - 16)]"

definition sha512_W :: "u64 list \<Rightarrow> bytes \<Rightarrow> u64 list" where
  "sha512_W W input =
     foldl (\<lambda>W i. BLEND_OP_512 i W) (foldl (\<lambda>W i. LOAD_OP_512 i W input) W [0..<16]) [16..<80]"

text \<open>The body of the loop: eight rounds.\<close>

definition sha512_iter :: "u64 list \<Rightarrow> u64 regs8 \<Rightarrow> nat \<Rightarrow> u64 regs8" where
  "sha512_iter W = (\<lambda>(a, b, c, d, e, f, g, h) i. let
     t1 = h + e1_512 e + Ch_512 e f g + sha512_K ! i + W ! i;
     t2 = e0_512 a + Maj_512 a b c; d = d + t1; h = t1 + t2;
     t1 = g + e1_512 d + Ch_512 d e f + sha512_K ! (i + 1) + W ! (i + 1);
     t2 = e0_512 h + Maj_512 h a b; c = c + t1; g = t1 + t2;
     t1 = f + e1_512 c + Ch_512 c d e + sha512_K ! (i + 2) + W ! (i + 2);
     t2 = e0_512 g + Maj_512 g h a; b = b + t1; f = t1 + t2;
     t1 = e + e1_512 b + Ch_512 b c d + sha512_K ! (i + 3) + W ! (i + 3);
     t2 = e0_512 f + Maj_512 f g h; a = a + t1; e = t1 + t2;
     t1 = d + e1_512 a + Ch_512 a b c + sha512_K ! (i + 4) + W ! (i + 4);
     t2 = e0_512 e + Maj_512 e f g; h = h + t1; d = t1 + t2;
     t1 = c + e1_512 h + Ch_512 h a b + sha512_K ! (i + 5) + W ! (i + 5);
     t2 = e0_512 d + Maj_512 d e f; g = g + t1; c = t1 + t2;
     t1 = b + e1_512 g + Ch_512 g h a + sha512_K ! (i + 6) + W ! (i + 6);
     t2 = e0_512 c + Maj_512 c d e; f = f + t1; b = t1 + t2;
     t1 = a + e1_512 f + Ch_512 f g h + sha512_K ! (i + 7) + W ! (i + 7);
     t2 = e0_512 b + Maj_512 b c d; e = e + t1; a = t1 + t2
   in (a, b, c, d, e, f, g, h))"

definition sha512_transform :: "u64 list \<Rightarrow> u64 list \<Rightarrow> bytes \<Rightarrow> u64 list \<times> u64 list" where
  "sha512_transform state W input = (let
     W = sha512_W W input;
     (a, b, c, d, e, f, g, h) = foldl (sha512_iter W)
       (state ! 0, state ! 1, state ! 2, state ! 3, state ! 4, state ! 5, state ! 6, state ! 7)
       [0, 8, 16, 24, 32, 40, 48, 56, 64, 72]
   in ([state ! 0 + a, state ! 1 + b, state ! 2 + c, state ! 3 + d,
        state ! 4 + e, state ! 5 + f, state ! 6 + g, state ! 7 + h], W))"

record fio_sha512_ctx =
  sha512_state :: "u64 list"
  sha512_count :: "u32 list"
  sha512_buf :: bytes
  sha512_Wk :: "u64 list"

definition sha512_H :: "u64 list" where
  "sha512_H = [0x6a09e667f3bcc908, 0xbb67ae8584caa73b, 0x3c6ef372fe94f82b, 0xa54ff53a5f1d36f1,
     0x510e527fade682d1, 0x9b05688c2b3e6c1f, 0x1f83d9abfb41bd6b, 0x5be0cd19137e2179]"

definition fio_sha512_init :: "fio_sha512_ctx \<Rightarrow> fio_sha512_ctx" where
  "fio_sha512_init sctx = sctx\<lparr>sha512_state := sha512_H, sha512_count := [0, 0, 0, 0]\<rparr>"

text \<open>The update of the number of bits.\<close>

definition sha512_add_bits :: "u32 list \<Rightarrow> u32 \<Rightarrow> u32 list" where
  "sha512_add_bits count len = (let
     count = count[0 := count ! 0 + push_bit 3 len]
   in if count ! 0 < push_bit 3 len
      then let
        count = count[1 := count ! 1 + 1];
        count = (if count ! 1 < 1
          then let count = count[2 := count ! 2 + 1] in
            (if count ! 2 < 1 then count[3 := count ! 3 + 1] else count)
          else count)
      in count[1 := count ! 1 + drop_bit 29 len]
      else count)"

partial_function (option) sha512_loop ::
  "u64 list \<Rightarrow> u64 list \<Rightarrow> bytes \<Rightarrow> u32 \<Rightarrow> u32 \<Rightarrow> (u64 list \<times> u64 list \<times> u32) option" where
  "sha512_loop state W data len i =
     (if i + 127 < len
      then if unat i + 128 \<le> length data
        then let (state, W) = sha512_transform state W (take 128 (drop (unat i) data))
             in sha512_loop state W data len (i + 128)
        else None
      else Some (state, W, i))"

definition fio_sha512_update :: "fio_sha512_ctx \<Rightarrow> bytes \<Rightarrow> fio_sha512_ctx option" where
  "fio_sha512_update sctx data = (let
     len = of_nat (length data) :: u32;
     idx = drop_bit 3 (sha512_count sctx ! 0) AND 0x7f;
     sctx = sctx\<lparr>sha512_count := sha512_add_bits (sha512_count sctx) len\<rparr>;
     part_len = 128 - idx
   in do {
     (sctx, i, idx) \<leftarrow>
       (if part_len \<le> len
        then do {
          buf \<leftarrow> memcpy_at (sha512_buf sctx) (unat idx) data (unat part_len);
          let (state, W) = sha512_transform (sha512_state sctx) (sha512_Wk sctx) (take 128 buf);
          (state, W, i) \<leftarrow> sha512_loop state W data len part_len;
          Some (sctx\<lparr>sha512_buf := buf, sha512_state := state, sha512_Wk := W\<rparr>, i, 0)
        }
        else Some (sctx, 0, idx));
     buf \<leftarrow> memcpy_at (sha512_buf sctx) (unat idx) (drop (unat i) data) (unat (len - i));
     Some (sctx\<lparr>sha512_buf := buf, sha512_Wk := replicate 80 0\<rparr>)
   })"

section \<open>The transform is the block function of FIPS 180-4\<close>

definition sha512_M :: "bytes \<Rightarrow> nat \<Rightarrow> u64" where
  "sha512_M input t = be_word (take 8 (drop (8 * t) input))"

definition sha512_block :: "u64 list \<Rightarrow> bytes \<Rightarrow> u64 list" where
  "sha512_block H input = sha2_block e0_512 e1_512 (\<lambda>t. sha512_K ! t) (sha2_sched s0_512 s1_512 (sha512_M input)) 80 H"

lemma sha512_round_Let:
  "sha2_round e0_512 e1_512 (\<lambda>t. sha512_K ! t) (\<lambda>t. W ! t) (a, b, c, d, e, f, g, h) i =
    (let t1 = h + e1_512 e + Ch_512 e f g + sha512_K ! i + W ! i; t2 = e0_512 a + Maj_512 a b c; d = d + t1; h = t1 + t2
     in (h, a, b, c, d, e, f, g))"
  by (simp add: sha2_round_def Let_def Ch_512_def Maj_512_def sha2_ch sha2_maj)

lemma sha512_iter_rounds:
  "sha512_iter W r i = foldl (sha2_round e0_512 e1_512 (\<lambda>t. sha512_K ! t) (\<lambda>t. W ! t)) r
     [i, i + 1, i + 2, i + 3, i + 4, i + 5, i + 6, i + 7]"
proof -
  obtain a b c d e f g h where r: "r = (a, b, c, d, e, f, g, h)" by (metis surj_pair)
  show ?thesis unfolding r by (simp only: sha512_iter_def prod.case foldl_Cons foldl_Nil sha512_round_Let Let_def)
qed

lemma upt_8: "[i..<i + 8] = [i, i + 1, i + 2, i + 3, i + 4, i + 5, i + 6, i + 7]"
  by (simp add: upt_conv_Cons)

lemma foldl_by_8:
  assumes "\<And>r i. F r i = foldl f r [i..<i + 8]"
  shows "foldl F r [0, 8, 16, 24, 32, 40, 48, 56, 64, 72] = foldl f r [0..<80]"
proof -
  have "foldl F r (map ((*) 8) [0..<k]) = foldl f r [0..<8 * k]" for k
  proof (induction k)
    case (Suc k)
    have "[0..<8 * Suc k] = [0..<8 * k] @ [8 * k..<8 * k + 8]"
      using upt_add_eq_append [of 0 "8 * k" 8] by (simp add: algebra_simps)
    with Suc show ?case by (simp add: assms)
  qed simp
  from this [of 10] show ?thesis by (simp add: upt_conv_Cons del: upt_rec_numeral)
qed

lemma sha512_W_sched:
  assumes "length input = 128" and "length W = 80" and "t < 80"
  shows "sha512_W W input ! t = sha2_sched s0_512 s1_512 (sha512_M input) t"
proof -
  have "be64_to_cpu (le_word (take 8 (drop (8 * i) input))) = sha512_M input i" if "i \<in> set [0..<16]" for i
    using that assms(1) by (simp add: sha512_M_def be64_to_cpu_load)
  then have load: "foldl (\<lambda>W i. LOAD_OP_512 i W input) W [0..<16] = foldl (\<lambda>W i. W[i := sha512_M input i]) W [0..<16]" for W
    by (intro foldl_cong refl) (simp only: LOAD_OP_512_def)
  show ?thesis
    unfolding sha512_W_def BLEND_OP_512_def load by (rule sha2_array [OF assms(2) _ assms(3)]) simp
qed

lemma length_sha512_W: "length (sha512_W W input) = length W"
proof -
  have "length (foldl (\<lambda>W i. W[i := F W i]) W js) = length W" for W :: "u64 list" and F js
    by (induction js arbitrary: W) auto
  then show ?thesis by (simp only: sha512_W_def LOAD_OP_512_def BLEND_OP_512_def)
qed

lemma sha512_transform_fips:
  assumes "length input = 128" and "length W = 80"
  shows "fst (sha512_transform H W input) = sha512_block H input" "length (snd (sha512_transform H W input)) = 80"
proof -
  have iter: "sha512_iter (sha512_W W input) r i =
      foldl (sha2_round e0_512 e1_512 (\<lambda>t. sha512_K ! t) (\<lambda>t. sha512_W W input ! t)) r [i..<i + 8]" for r i
    by (simp only: sha512_iter_rounds upt_8)
  have "sha512_transform H W input =
      (sha2_block e0_512 e1_512 (\<lambda>t. sha512_K ! t) (\<lambda>t. sha512_W W input ! t) 80 H, sha512_W W input)"
    unfolding sha512_transform_def sha2_block_def Let_def foldl_by_8 [OF iter] by (simp only: split_beta)
  moreover have "sha2_block e0_512 e1_512 (\<lambda>t. sha512_K ! t) (\<lambda>t. sha512_W W input ! t) 80 H = sha512_block H input"
    unfolding sha512_block_def by (intro sha2_block_cong) (simp add: sha512_W_sched assms)
  ultimately show "fst (sha512_transform H W input) = sha512_block H input"
    "length (snd (sha512_transform H W input)) = 80"
    using assms(2) by (simp_all add: length_sha512_W)
qed

section \<open>The contract of a block digest\<close>

definition sha512_inv :: "fio_sha512_ctx \<Rightarrow> bool" where
  "sha512_inv c \<longleftrightarrow> 128 \<le> length (sha512_buf c) \<and> length (sha512_Wk c) = 80 \<and> length (sha512_count c) = 4"

definition sha512_total :: "fio_sha512_ctx \<Rightarrow> nat" where
  "sha512_total c = unat (sha512_count c ! 0) div 8"

definition sha512_pending :: "fio_sha512_ctx \<Rightarrow> bytes" where
  "sha512_pending c = take (sha512_total c mod 128) (sha512_buf c)"

lemma sha512_add_bits_length: "length (sha512_add_bits count len) = length count"
  by (simp add: sha512_add_bits_def Let_def)

lemma mod_div_8: "(u mod 2 ^ 32) div 8 = u div 8 mod 2 ^ 29" for u :: nat
proof -
  have "u mod (8 * 2 ^ 29) = 8 * (u div 8 mod 2 ^ 29) + u mod 8" by (rule mod_mult2_eq)
  then show ?thesis by simp
qed

lemma sha512_add_bits_total:
  assumes "count \<noteq> []"
  shows "unat (sha512_add_bits count (of_nat n) ! 0) div 8 = (unat (count ! 0) div 8 + n) mod 2 ^ 29"
proof -
  let ?u = "unat (count ! 0)"
  have "push_bit 3 (of_nat n :: u32) = of_nat (8 * n)" by (simp add: push_bit_eq_mult)
  then have "unat (sha512_add_bits count (of_nat n) ! 0) = (?u + 8 * n) mod 2 ^ 32"
    using assms unat_add_of_nat [of "count ! 0" "8 * n"] by (simp add: sha512_add_bits_def Let_def)
  also have "\<dots> div 8 = (?u + 8 * n) div 8 mod 2 ^ 29" by (rule mod_div_8)
  finally show ?thesis by (simp add: add.commute)
qed

lemma sha512_idx: "unat (drop_bit 3 (w :: u32) AND 0x7f) = unat w div 8 mod 128"
  using unat_and_mask [of "drop_bit 3 w" 7] by (simp add: mask_eq_exp_minus_1 unat_drop_bit)

lemma sha512_loop_absorbs:
  assumes "length data + 128 \<le> 2 ^ 32" and "n \<le> length data" "length W = 80"
  shows "\<exists>m s W'. sha512_loop state W data (of_nat (length data)) (of_nat n) = Some (s, W', of_nat m) \<and>
    length W' = 80 \<and> m \<le> length data \<and> length data - m < 128 \<and>
    absorb 128 sha512_block state (drop n data) = (s, drop m data)"
  using assms(2,3)
proof (induction "length data - n" arbitrary: n state W rule: less_induct)
  case less
  have n32: "unat (of_nat n :: u32) = n" using less.prems assms(1) by (intro unat_of_nat32) linarith
  have "unat (of_nat n + 127 :: u32) = n + 127"
    using less.prems assms(1) n32 by (subst unat_add_small) simp_all
  then have test: "of_nat n + 127 < (of_nat (length data) :: u32) \<longleftrightarrow> n + 128 \<le> length data"
    using assms(1) by (auto simp: word_less_nat_alt unat_of_nat32)
  show ?case
  proof (cases "n + 128 \<le> length data")
    case True
    let ?b = "take 128 (drop n data)"
    obtain s1 W1 where tr: "sha512_transform state W ?b = (s1, W1)" by fastforce
    have s1: "s1 = sha512_block state ?b" "length W1 = 80"
      using sha512_transform_fips [of ?b W state] tr True less.prems by simp_all
    have "sha512_loop state W data (of_nat (length data)) (of_nat n) =
        sha512_loop s1 W1 data (of_nat (length data)) (of_nat (n + 128))"
      using True by (subst sha512_loop.simps) (simp add: test n32 tr)
    moreover have "absorb 128 sha512_block state (drop n data) = absorb 128 sha512_block s1 (drop (n + 128) data)"
      using True s1(1) by (simp add: absorb_step [of _ "drop n data"] add.commute)
    ultimately show ?thesis
      using less.hyps [of "n + 128" W1 s1] True s1(2) by simp
  next
    case False
    then have "sha512_loop state W data (of_nat (length data)) (of_nat n) = Some (state, W, of_nat n)"
      by (subst sha512_loop.simps) (simp add: test)
    then show ?thesis using False less.prems by (auto simp: absorb_short)
  qed
qed

text \<open>What one update leaves in the buffer, and in the state.\<close>

lemma sha512_update_result:
  assumes "sha512_inv c" and "length d \<le> 2 ^ 32 - 128"
  defines "k \<equiv> sha512_total c mod 128" and "r \<equiv> (sha512_total c + length d) mod 128"
  shows "\<exists>c'. fio_sha512_update c d = Some c' \<and> sha512_inv c' \<and>
    sha512_count c' = sha512_add_bits (sha512_count c) (of_nat (length d)) \<and>
    (sha512_state c', take r (sha512_buf c')) = absorb 128 sha512_block (sha512_state c) (sha512_pending c @ d) \<and>
    (128 \<le> k + length d \<longrightarrow> sha512_buf c' = drop (length d - r) d @ drop r (take k (sha512_buf c) @ take (128 - k) d @ drop 128 (sha512_buf c)))"
proof -
  let ?len = "of_nat (length d) :: u32" and ?idx = "drop_bit 3 (sha512_count c ! 0) AND 0x7f"
  have buf: "128 \<le> length (sha512_buf c)" "length (sha512_Wk c) = 80" "length (sha512_count c) = 4"
    using assms(1) by (simp_all add: sha512_inv_def)
  have k: "unat ?idx = k" by (simp add: k_def sha512_total_def sha512_idx)
  have k128: "k < 128" by (simp add: k_def)
  have r: "r = (k + length d) mod 128" by (simp add: r_def k_def mod_add_left_eq)
  have len: "unat ?len = length d" using assms(2) by (intro unat_of_nat32) simp
  have part: "unat (128 - ?idx) = 128 - k" using k128 k by (subst unat_sub) (simp_all add: word_le_nat_alt)
  have test: "128 - ?idx \<le> ?len \<longleftrightarrow> 128 \<le> k + length d" using part len by (auto simp: word_le_nat_alt)
  have pend: "sha512_pending c = take k (sha512_buf c)" by (simp add: sha512_pending_def k_def)
  show ?thesis
  proof (cases "128 \<le> k + length d")
    case False
    then have upd: "fio_sha512_update c d = Some (c\<lparr>sha512_count := sha512_add_bits (sha512_count c) ?len,
        sha512_buf := take k (sha512_buf c) @ d @ drop (k + length d) (sha512_buf c), sha512_Wk := replicate 80 0\<rparr>)"
      using buf k128 unfolding fio_sha512_update_def Let_def by (simp add: test k len)
    have "r = k + length d" using False r by simp
    with upd False buf show ?thesis
      by (simp add: sha512_inv_def sha512_add_bits_length pend absorb_short)
  next
    case True
    define b1 where "b1 = take k (sha512_buf c) @ take (128 - k) d @ drop 128 (sha512_buf c)"
    have b1: "memcpy_at (sha512_buf c) k d (128 - k) = Some b1" "length b1 = length (sha512_buf c)"
      "take 128 b1 = take k (sha512_buf c) @ take (128 - k) d"
      using True buf k128 by (simp_all add: b1_def)
    obtain s1 W1 where tr: "sha512_transform (sha512_state c) (sha512_Wk c) (take 128 b1) = (s1, W1)" by fastforce
    have s1: "s1 = sha512_block (sha512_state c) (take 128 b1)" "length W1 = 80"
      using sha512_transform_fips [of "take 128 b1" "sha512_Wk c" "sha512_state c"] tr buf b1(2) by simp_all
    have pos: "128 - ?idx = of_nat (128 - k)" using part by (metis of_nat_unat ucast_id)
    have fits: "128 - k \<le> length d" using True by simp
    obtain m s W' where loop: "sha512_loop s1 W1 d ?len (of_nat (128 - k)) = Some (s, W', of_nat m)"
      "length W' = 80" "m \<le> length d" "length d - m < 128" "absorb 128 sha512_block s1 (drop (128 - k) d) = (s, drop m d)"
      using sha512_loop_absorbs [OF _ fits s1(2), of s1] assms(2) by auto
    have ab: "absorb 128 sha512_block (sha512_state c) (sha512_pending c @ d) = (s, drop m d)"
    proof -
      have "absorb 128 sha512_block (sha512_state c) (take 128 b1 @ drop (128 - k) d) =
          absorb 128 sha512_block s1 (drop (128 - k) d)"
        unfolding s1(1) by (rule absorb_block) (use buf b1(2) in simp_all)
      then show ?thesis using loop(5) by (simp add: pend b1(3))
    qed
    have rm: "length d - m = r"
      using length_absorb_rest [of 128 sha512_block "sha512_state c" "sha512_pending c @ d"] ab buf k128
      by (simp add: r pend)
    have m: "m = length d - r" using rm loop(3) by simp
    have m32: "unat (of_nat m :: u32) = m" using loop(3) assms(2) by (intro unat_of_nat32) simp
    have rest: "unat (?len - of_nat m) = r" using loop(3) len m32 rm by (subst unat_sub) (simp_all add: word_le_nat_alt)
    have cp: "memcpy_at b1 0 (drop m d) r = Some (drop m d @ drop r b1)"
      using rm loop(3,4) b1(2) buf by simp
    have "fio_sha512_update c d = Some (c\<lparr>sha512_count := sha512_add_bits (sha512_count c) ?len,
        sha512_state := s, sha512_buf := drop m d @ drop r b1, sha512_Wk := replicate 80 0\<rparr>)"
      using True b1(1) tr loop(1) cp unfolding fio_sha512_update_def Let_def
      by (simp add: test [unfolded pos] k part [unfolded pos] pos m32 rest del: memcpy_at_Some of_nat_diff)
    moreover have "take r (drop m d @ drop r b1) = drop m d" using rm by simp
    moreover have "128 \<le> length (drop m d @ drop r b1)" using rm loop(4) b1(2) buf by simp
    ultimately show ?thesis
      unfolding b1_def [symmetric] m [symmetric]
      using ab buf(3) by (simp add: sha512_inv_def sha512_add_bits_length)
  qed
qed

interpretation sha512: block_digest 128 "2 ^ 29" "2 ^ 32 - 128" sha512_block sha512_inv sha512_state sha512_pending
  sha512_total fio_sha512_update
proof
  fix c :: fio_sha512_ctx and d :: bytes
  assume inv: "sha512_inv c" and d: "length d \<le> 2 ^ 32 - 128"
  have ne: "sha512_count c \<noteq> []" using inv by (auto simp: sha512_inv_def)
  obtain c' where c': "fio_sha512_update c d = Some c'" "sha512_inv c'"
    "sha512_count c' = sha512_add_bits (sha512_count c) (of_nat (length d))"
    "(sha512_state c', take ((sha512_total c + length d) mod 128) (sha512_buf c')) =
      absorb 128 sha512_block (sha512_state c) (sha512_pending c @ d)"
    using sha512_update_result [OF inv d] by auto
  have tot: "sha512_total c' = (sha512_total c + length d) mod 2 ^ 29"
    using sha512_add_bits_total [OF ne, of "length d"] c'(3) by (simp add: sha512_total_def)
  then have "sha512_total c' mod 128 = (sha512_total c + length d) mod 128"
    by (simp only:) (rule mod_mod_cancel, simp)
  with c' tot show "\<exists>c'. fio_sha512_update c d = Some c' \<and> sha512_inv c' \<and>
      (sha512_state c', sha512_pending c') = absorb 128 sha512_block (sha512_state c) (sha512_pending c @ d) \<and>
      sha512_total c' = (sha512_total c + length d) mod 2 ^ 29"
    by (simp add: sha512_pending_def)
next
  fix c :: fio_sha512_ctx
  have "unat (sha512_count c ! 0) < 2 ^ 32" by (rule unat_bound32)
  then have "sha512_total c < 2 ^ 29" by (simp add: sha512_total_def)
  then show "sha512_total c mod 2 ^ 29 = sha512_total c" by (rule mod_less)
qed simp

section \<open>The digest of a message\<close>

text \<open>
  Initialising a context and feeding it a message in pieces of up to \<open>2 ^ 32 - 128\<close> bytes
  leaves the chaining value of FIPS 180-4 over the whole blocks of the message, however it was cut.
\<close>

theorem sha512_state_fips:
  assumes "sha512_inv c" and "\<forall>d \<in> set ds. length d \<le> 2 ^ 32 - 128"
  shows "\<exists>c'. feed fio_sha512_update (fio_sha512_init c) ds = Some c' \<and>
    sha512_state c' = fst (absorb 128 sha512_block sha512_H (concat ds))"
proof -
  have "sha512_inv (fio_sha512_init c)" "sha512_pending (fio_sha512_init c) = []"
    using assms(1) by (simp_all add: sha512_inv_def sha512_pending_def sha512_total_def fio_sha512_init_def)
  then obtain c' where "feed fio_sha512_update (fio_sha512_init c) ds = Some c'"
    "(sha512_state c', sha512_pending c') = absorb 128 sha512_block (sha512_state (fio_sha512_init c)) (concat ds)"
    using sha512.feed_concat [OF _ _ assms(2)] by blast
  moreover have "sha512_state (fio_sha512_init c) = sha512_H" by (simp add: fio_sha512_init_def)
  ultimately show ?thesis by (auto dest: arg_cong [of _ _ fst])
qed

theorem sha512_state_fips_witness:
  "\<exists>c'. feed fio_sha512_update (fio_sha512_init \<lparr>sha512_state = [], sha512_count = [1, 2, 3, 4],
      sha512_buf = replicate 128 0, sha512_Wk = replicate 80 0\<rparr>) [[97], [98, 99]] = Some c'"
  using sha512_state_fips [of "\<lparr>sha512_state = [], sha512_count = [1, 2, 3, 4],
      sha512_buf = replicate 128 0, sha512_Wk = replicate 80 0\<rparr>" "[[97], [98, 99]]"]
  by (auto simp: sha512_inv_def)

text \<open>
  C22 (error): the buffer that \<^verbatim>\<open>verify=sha512\<close> stores and compares holds no digest. After one update with at
  least 128 bytes it is the last \<open>length d mod 128\<close> bytes of the data followed by the rest of its first 128
  bytes, so no byte in between has any influence on it.
\<close>

theorem sha512_buf_is_data:
  assumes "sha512_inv c" and "length (sha512_buf c) = 128" and "128 \<le> length d" and "length d \<le> 2 ^ 32 - 128"
  shows "\<exists>c'. fio_sha512_update (fio_sha512_init c) d = Some c' \<and>
    sha512_buf c' = drop (length d - length d mod 128) d @ drop (length d mod 128) (take 128 d)"
proof -
  have inv: "sha512_inv (fio_sha512_init c)" and zero: "sha512_total (fio_sha512_init c) = 0"
    and buf: "sha512_buf (fio_sha512_init c) = sha512_buf c"
    using assms(1) by (simp_all add: sha512_inv_def sha512_total_def fio_sha512_init_def)
  show ?thesis
    using sha512_update_result [OF inv assms(4)] assms(2,3) unfolding zero buf by auto
qed

theorem sha512_buf_is_data_witness:
  "\<exists>c'. fio_sha512_update (fio_sha512_init \<lparr>sha512_state = [], sha512_count = [0, 0, 0, 0],
      sha512_buf = replicate 128 0, sha512_Wk = replicate 80 0\<rparr>) (replicate 256 7) = Some c' \<and>
    sha512_buf c' = replicate 128 7"
  using sha512_buf_is_data [of "\<lparr>sha512_state = [], sha512_count = [0, 0, 0, 0],
      sha512_buf = replicate 128 0, sha512_Wk = replicate 80 0\<rparr>" "replicate 256 7"]
  by (simp add: sha512_inv_def)

end
