(* ===== verification/Sha3.thy ===== *)
theory Sha3
  imports Digest
begin

text \<open>
  \<^verbatim>\<open>crc/sha3.c\<close> and \<^verbatim>\<open>crc/sha3.h\<close>: the Keccak permutation on an array of 25 lanes, and the sponge around it with
  its four digest sizes. The permutation, whose loops work in place, is shown to be the composition of the
  five step mappings of FIPS 202 with round constants from the LFSR of the standard; the update satisfies the
  contract of a block digest, and the whole computes the sponge of the padded message. The pointer \<^verbatim>\<open>sha\<close> of
  the context is modelled by the bytes it points to.
\<close>

section \<open>Definitions\<close>

definition ROTL64 :: "u64 \<Rightarrow> nat \<Rightarrow> u64" where
  "ROTL64 x y = push_bit y x OR drop_bit (64 - y) x"

definition keccakf_rndc :: "u64 list" where
  "keccakf_rndc = [
     0x0000000000000001, 0x0000000000008082, 0x800000000000808a,
     0x8000000080008000, 0x000000000000808b, 0x0000000080000001,
     0x8000000080008081, 0x8000000000008009, 0x000000000000008a,
     0x0000000000000088, 0x0000000080008009, 0x000000008000000a,
     0x000000008000808b, 0x800000000000008b, 0x8000000000008089,
     0x8000000000008003, 0x8000000000008002, 0x8000000000000080,
     0x000000000000800a, 0x800000008000000a, 0x8000000080008081,
     0x8000000000008080, 0x0000000080000001, 0x8000000080008008]"

definition keccakf_rotc :: "nat list" where
  "keccakf_rotc = [1, 3, 6, 10, 15, 21, 28, 36, 45, 55, 2, 14, 27, 41, 56, 8, 25, 43, 62, 18, 39, 61, 20, 44]"

definition keccakf_piln :: "nat list" where
  "keccakf_piln = [10, 7, 11, 17, 18, 3, 5, 16, 8, 21, 24, 4, 15, 23, 19, 13, 12, 2, 20, 14, 22, 9, 6, 1]"

definition keccakf_theta :: "u64 list \<Rightarrow> u64 list" where
  "keccakf_theta st = (let
     bc = map (\<lambda>i. st ! i XOR st ! (i + 5) XOR st ! (i + 10) XOR st ! (i + 15) XOR st ! (i + 20)) [0, 1, 2, 3, 4]
   in foldl (\<lambda>st i. let t = bc ! ((i + 4) mod 5) XOR ROTL64 (bc ! ((i + 1) mod 5)) 1 in
        foldl (\<lambda>st j. st[j + i := st ! (j + i) XOR t]) st [0, 5, 10, 15, 20]) st [0, 1, 2, 3, 4])"

definition keccakf_rho_pi :: "u64 list \<Rightarrow> u64 list" where
  "keccakf_rho_pi st = snd (foldl (\<lambda>(t, st) i. let
       j = keccakf_piln ! i;
       bc0 = st ! j
     in (bc0, st[j := ROTL64 t (keccakf_rotc ! i)]))
     (st ! 1, st) [0, 1, 2, 3, 4, 5, 6, 7, 8, 9, 10, 11, 12, 13, 14, 15, 16, 17, 18, 19, 20, 21, 22, 23])"

definition keccakf_chi :: "u64 list \<Rightarrow> u64 list" where
  "keccakf_chi st = foldl (\<lambda>st j. let bc = map (\<lambda>i. st ! (j + i)) [0, 1, 2, 3, 4] in
     foldl (\<lambda>st i. st[j + i := st ! (j + i) XOR (NOT (bc ! ((i + 1) mod 5)) AND bc ! ((i + 2) mod 5))]) st [0, 1, 2, 3, 4])
     st [0, 5, 10, 15, 20]"

definition keccakf_iota :: "nat \<Rightarrow> u64 list \<Rightarrow> u64 list" where
  "keccakf_iota r st = st[0 := st ! 0 XOR keccakf_rndc ! r]"

definition keccakf :: "u64 list \<Rightarrow> u64 list" where
  "keccakf st = foldl (\<lambda>st r. keccakf_iota r (keccakf_chi (keccakf_rho_pi (keccakf_theta st)))) st [0..<24]"

record fio_sha3_ctx =
  sha3_st :: "u64 list"
  md_len :: u32
  rsiz :: u32
  rsizw :: u32
  sha3_partial :: u32
  sha3_buf :: bytes
  sha3_sha :: bytes

definition fio_sha3_init :: "fio_sha3_ctx \<Rightarrow> u32 \<Rightarrow> fio_sha3_ctx" where
  "fio_sha3_init sctx digest_sz = (let
     rs = 200 - 2 * digest_sz
   in sctx\<lparr>sha3_st := replicate 25 0, md_len := digest_sz, rsiz := rs, rsizw := rs div 8, sha3_partial := 0,
        sha3_buf := replicate 144 0\<rparr>)"

definition fio_sha3_224_init :: "fio_sha3_ctx \<Rightarrow> fio_sha3_ctx" where
  "fio_sha3_224_init sctx = fio_sha3_init sctx 28"

definition fio_sha3_256_init :: "fio_sha3_ctx \<Rightarrow> fio_sha3_ctx" where
  "fio_sha3_256_init sctx = fio_sha3_init sctx 32"

definition fio_sha3_384_init :: "fio_sha3_ctx \<Rightarrow> fio_sha3_ctx" where
  "fio_sha3_384_init sctx = fio_sha3_init sctx 48"

definition fio_sha3_512_init :: "fio_sha3_ctx \<Rightarrow> fio_sha3_ctx" where
  "fio_sha3_512_init sctx = fio_sha3_init sctx 64"

definition xor_lanes :: "nat \<Rightarrow> u64 list \<Rightarrow> bytes \<Rightarrow> u64 list" where
  "xor_lanes n st src = foldl (\<lambda>st i. st[i := st ! i XOR le_word (take 8 (drop (8 * i) src))]) st [0..<n]"

definition sha3_block :: "nat \<Rightarrow> u64 list \<Rightarrow> bytes \<Rightarrow> u64 list" where
  "sha3_block n st src = keccakf (xor_lanes n st src)"

definition fio_sha3_update :: "fio_sha3_ctx \<Rightarrow> bytes \<Rightarrow> fio_sha3_ctx option" where
  "fio_sha3_update sctx data = do {
     (st, buf, partial) \<leftarrow> block_update (rsiz sctx) (sha3_block (unat (rsizw sctx))) (sha3_st sctx) (sha3_buf sctx)
       (sha3_partial sctx) data (of_nat (length data));
     Some (sctx\<lparr>sha3_st := st, sha3_buf := buf, sha3_partial := partial\<rparr>)
   }"

definition fio_sha3_final :: "fio_sha3_ctx \<Rightarrow> fio_sha3_ctx option" where
  "fio_sha3_final sctx = (let
     inlen = sha3_partial sctx
   in do {
     buf \<leftarrow> wr (sha3_buf sctx) (unat inlen) 0x06;
     let inlen = inlen + 1;
     let n = unat (rsiz sctx - inlen);
     buf \<leftarrow> memcpy_at buf (unat inlen) (replicate n 0) n;
     l \<leftarrow> rd buf (unat (rsiz sctx - 1));
     buf \<leftarrow> wr buf (unat (rsiz sctx - 1)) (l OR 0x80);
     let st = keccakf (xor_lanes (unat (rsizw sctx)) (sha3_st sctx) buf);
     sha \<leftarrow> memcpy_at (sha3_sha sctx) 0 (concat (map (le_bytes 8) st)) (unat (md_len sctx));
     Some (sctx\<lparr>sha3_buf := buf, sha3_st := st, sha3_sha := sha\<rparr>)
   })"

section \<open>The permutation of FIPS 202\<close>

text \<open>A state is a function of the coordinates \<open>x\<close> and \<open>y\<close>; the code keeps lane \<open>(x, y)\<close> at index \<open>x + 5 * y\<close>.\<close>

type_synonym lanes = "nat \<Rightarrow> nat \<Rightarrow> u64"

definition step_theta :: "lanes \<Rightarrow> lanes" where
  "step_theta A = (let C = (\<lambda>x. A x 0 XOR A x 1 XOR A x 2 XOR A x 3 XOR A x 4)
     in (\<lambda>x y. A x y XOR C ((x + 4) mod 5) XOR ROTL64 (C ((x + 1) mod 5)) 1))"

text \<open>The rotation offsets, row by row.\<close>

definition rho_off :: "nat list" where
  "rho_off = [0, 1, 62, 28, 27, 36, 44, 6, 55, 20, 3, 10, 43, 25, 39, 41, 45, 15, 21, 8, 18, 2, 61, 56, 14]"

definition step_rho :: "lanes \<Rightarrow> lanes" where
  "step_rho A = (\<lambda>x y. ROTL64 (A x y) (rho_off ! (x + 5 * y)))"

definition step_pi :: "lanes \<Rightarrow> lanes" where
  "step_pi A = (\<lambda>x y. A ((x + 3 * y) mod 5) x)"

definition step_chi :: "lanes \<Rightarrow> lanes" where
  "step_chi A = (\<lambda>x y. A x y XOR (NOT (A ((x + 1) mod 5) y) AND A ((x + 2) mod 5) y))"

text \<open>The bits of the round constants come out of an 8-bit LFSR.\<close>

definition rc_step :: "bool list \<Rightarrow> bool list" where
  "rc_step R = (let R = False # R; b = R ! 8 in
     take 8 (R[0 := (R ! 0 \<noteq> b), 4 := (R ! 4 \<noteq> b), 5 := (R ! 5 \<noteq> b), 6 := (R ! 6 \<noteq> b)]))"

definition rc :: "nat \<Rightarrow> bool" where
  "rc t = ((rc_step ^^ (t mod 255)) [True, False, False, False, False, False, False, False]) ! 0"

definition RC :: "nat \<Rightarrow> u64" where
  "RC r = foldl (\<lambda>w j. if rc (j + 7 * r) then w OR push_bit (2 ^ j - 1) 1 else w) 0 [0..<7]"

definition step_iota :: "nat \<Rightarrow> lanes \<Rightarrow> lanes" where
  "step_iota r A = (\<lambda>x y. if x = 0 \<and> y = 0 then A x y XOR RC r else A x y)"

definition keccak_round :: "lanes \<Rightarrow> nat \<Rightarrow> lanes" where
  "keccak_round A r = step_iota r (step_chi (step_pi (step_rho (step_theta A))))"

definition to_list :: "lanes \<Rightarrow> u64 list" where
  "to_list A = map (\<lambda>i. A (i mod 5) (i div 5)) [0..<25]"

definition of_list :: "u64 list \<Rightarrow> lanes" where
  "of_list st = (\<lambda>x y. st ! (x + 5 * y))"

definition keccak_f :: "u64 list \<Rightarrow> u64 list" where
  "keccak_f st = to_list (foldl keccak_round (of_list st) [0..<24])"

text \<open>The constants, from one run of the LFSR.\<close>

fun rc_list :: "nat \<Rightarrow> bool list \<Rightarrow> bool list" where
  "rc_list 0 R = []"
| "rc_list (Suc n) R = R ! 0 # rc_list n (rc_step R)"

lemma nth_rc_list: "t < n \<Longrightarrow> rc_list n R ! t = ((rc_step ^^ t) R) ! 0"
proof (induction n R arbitrary: t rule: rc_list.induct)
  case (2 n R)
  then show ?case by (cases t) (simp_all add: funpow_swap1)
qed simp

definition rc0 :: "bool list" where
  "rc0 = rc_list 168 [True, False, False, False, False, False, False, False]"

lemma rc_rc0: "t < 168 \<Longrightarrow> rc t = rc0 ! t"
  by (simp add: rc_def rc0_def nth_rc_list)

lemma rc0_bits: "rc0 = [
    True, False, False, False, False, False, False, False, True, False, True, True, False, False, False, True,
    True, True, True, False, True, False, False, False, False, True, True, True, True, True, True, True, True,
    False, False, True, False, False, False, False, True, False, True, False, False, True, True, True, True, True,
    False, True, False, True, False, True, False, True, True, True, False, False, False, False, False, True, True,
    False, False, False, True, False, True, False, True, True, False, False, True, True, False, False, True,
    False, True, True, True, True, True, True, False, True, True, True, True, False, False, True, True, False,
    True, True, True, False, True, True, True, False, False, True, False, True, False, True, False, False, True,
    False, True, False, False, False, True, False, False, True, False, True, True, False, True, False, False,
    False, True, True, False, False, True, True, True, False, False, True, True, True, True, False, False, False,
    True, True, False, True, True, False, False, False, False, True, False, False, False, True, False, True, True,
    True]"
  by code_simp

lemma RC_rc0:
  assumes "r < 24"
  shows "RC r = foldl (\<lambda>w j. if rc0 ! (j + 7 * r) then w OR push_bit (2 ^ j - 1) 1 else w) 0 [0..<7]"
  unfolding RC_def by (rule foldl_cong) (use assms in \<open>auto simp: rc_rc0\<close>)

lemma rndc: "r < 24 \<Longrightarrow> keccakf_rndc ! r = RC r"
proof -
  have "map (\<lambda>r. foldl (\<lambda>w j. if rc0 ! (j + 7 * r) then w OR push_bit (2 ^ j - 1) 1 else w) 0 [0..<7]) [0..<24] =
    keccakf_rndc" unfolding rc0_bits by code_simp
  then show "r < 24 \<Longrightarrow> keccakf_rndc ! r = RC r"
    by (metis (no_types, lifting) RC_rc0 add_0 diff_zero length_upt nth_map nth_upt)
qed

lemma upt_25: "[0..<25] = [0, 1, 2, 3, 4, 5, 6, 7, 8, 9, 10, 11, 12, 13, 14, 15, 16, 17, 18, 19, 20, 21, 22, 23, 24]"
  by (simp add: upt_conv_Cons)

lemma list_25: "length st = 25 \<Longrightarrow> \<exists>a0 a1 a2 a3 a4 a5 a6 a7 a8 a9 a10 a11 a12 a13 a14 a15 a16 a17 a18 a19 a20 a21 a22 a23 a24. st = [a0, a1, a2, a3, a4, a5, a6, a7, a8, a9, a10, a11, a12, a13, a14, a15, a16, a17, a18, a19, a20, a21, a22, a23, a24]"
  by (simp add: numeral_eq_Suc length_Suc_conv) auto

lemma nth_below_5: "k < 5 \<Longrightarrow> [0, Suc 0, 2, 3, 4] ! k = k"
  by (auto simp: numeral_eq_Suc less_Suc_eq)

lemma ROTL64_0: "ROTL64 w 0 = w"
  unfolding ROTL64_def by (rule bit_word_eqI) (auto simp: bit_simps dest: bit_imp_le_length)

lemma theta_loop:
  assumes "length st = 25"
  shows "foldl (\<lambda>st i. foldl (\<lambda>st j. st[j + i := st ! (j + i) XOR t i]) st [0, 5, 10, 15, 20]) st [0, 1, 2, 3, 4] =
    map (\<lambda>i. st ! i XOR t (i mod 5)) [0..<25]"
  using list_25 [OF assms] by (elim exE) (simp add: upt_25 del: upt_rec_numeral)

lemma keccakf_theta_fips:
  assumes "length st = 25"
  shows "keccakf_theta st = to_list (step_theta (of_list st))"
  unfolding keccakf_theta_def Let_def theta_loop [OF assms] to_list_def step_theta_def of_list_def
  by (intro map_cong refl, simp only: nth_map list.size mod_less_divisor) (simp add: nth_below_5)

lemma keccakf_rho_pi_fips:
  assumes "length st = 25"
  shows "keccakf_rho_pi st = to_list (step_pi (step_rho (of_list st)))"
  using list_25 [OF assms]
  by (elim exE) (simp add: ROTL64_0 keccakf_rho_pi_def keccakf_piln_def keccakf_rotc_def rho_off_def to_list_def step_pi_def step_rho_def of_list_def upt_25 Let_def del: upt_rec_numeral)

lemma keccakf_chi_fips:
  assumes "length st = 25"
  shows "keccakf_chi st = to_list (step_chi (of_list st))"
  using list_25 [OF assms]
  by (elim exE) (simp add: keccakf_chi_def to_list_def step_chi_def of_list_def upt_25 Let_def del: upt_rec_numeral)

lemma keccakf_iota_fips:
  assumes "length st = 25" and "r < 24"
  shows "keccakf_iota r st = to_list (step_iota r (of_list st))"
  using list_25 [OF assms(1)]
  by (elim exE) (simp add: keccakf_iota_def rndc [OF assms(2)] to_list_def step_iota_def of_list_def upt_25 del: upt_rec_numeral)

text \<open>Composing the steps: lists of 25 lanes are functions on the 5 by 5 coordinates.\<close>

lemma length_to_list [simp]: "length (to_list A) = 25"
  by (simp add: to_list_def)

lemma of_list_to_list: "x < 5 \<Longrightarrow> y < 5 \<Longrightarrow> of_list (to_list A) x y = A x y"
  by (simp add: of_list_def to_list_def del: upt_rec_numeral)

lemma to_list_cong: "(\<And>x y. x < 5 \<Longrightarrow> y < 5 \<Longrightarrow> A x y = B x y) \<Longrightarrow> to_list A = to_list B"
  by (auto simp: to_list_def simp del: upt_rec_numeral)

lemma to_list_of_list: "length st = 25 \<Longrightarrow> to_list (of_list st) = st"
  by (rule nth_equalityI) (simp_all add: to_list_def of_list_def del: upt_rec_numeral)

definition lanes_eq :: "lanes \<Rightarrow> lanes \<Rightarrow> bool" where
  "lanes_eq A B \<longleftrightarrow> (\<forall>x < 5. \<forall>y < 5. A x y = B x y)"

lemma steps_cong:
  assumes "lanes_eq A B"
  shows "lanes_eq (step_theta A) (step_theta B)" "lanes_eq (step_rho A) (step_rho B)" "lanes_eq (step_pi A) (step_pi B)" "lanes_eq (step_chi A) (step_chi B)"
    "lanes_eq (step_iota r A) (step_iota r B)"
  using assms by (auto simp: lanes_eq_def step_theta_def step_rho_def step_pi_def step_chi_def step_iota_def)

lemma lanes_eq_list: "lanes_eq (of_list (to_list A)) A"
  by (simp add: lanes_eq_def of_list_to_list)

lemma lanes_eq_trans: "lanes_eq A B \<Longrightarrow> lanes_eq B C \<Longrightarrow> lanes_eq A C"
  by (simp add: lanes_eq_def)

lemma keccak_round_list:
  assumes "length st = 25" and "r < 24" and "lanes_eq (of_list st) A"
  shows "lanes_eq (of_list (keccakf_iota r (keccakf_chi (keccakf_rho_pi (keccakf_theta st))))) (keccak_round A r)"
proof -
  have "lanes_eq (of_list (keccakf_theta st)) (step_theta A)"
    unfolding keccakf_theta_fips [OF assms(1)] by (rule lanes_eq_trans [OF lanes_eq_list steps_cong(1) [OF assms(3)]])
  then have "lanes_eq (of_list (keccakf_rho_pi (keccakf_theta st))) (step_pi (step_rho (step_theta A)))"
    by (subst keccakf_rho_pi_fips) (auto simp: keccakf_theta_fips assms(1) intro: lanes_eq_trans [OF lanes_eq_list steps_cong(3)] steps_cong(2))
  then have "lanes_eq (of_list (keccakf_chi (keccakf_rho_pi (keccakf_theta st)))) (step_chi (step_pi (step_rho (step_theta A))))"
    by (subst keccakf_chi_fips) (auto simp: keccakf_theta_fips keccakf_rho_pi_fips assms(1) intro: lanes_eq_trans [OF lanes_eq_list steps_cong(4)])
  then show ?thesis
    unfolding keccak_round_def
    by (subst keccakf_iota_fips) (auto simp: keccakf_theta_fips keccakf_rho_pi_fips keccakf_chi_fips assms(1,2)
        intro: lanes_eq_trans [OF lanes_eq_list steps_cong(5)])
qed

lemma length_keccak_steps:
  assumes "length st = 25" and "r < 24"
  shows "length (keccakf_iota r (keccakf_chi (keccakf_rho_pi (keccakf_theta st)))) = 25"
  by (simp add: keccakf_theta_fips keccakf_rho_pi_fips keccakf_chi_fips keccakf_iota_fips assms)

lemma keccakf_fips:
  assumes "length st = 25"
  shows "keccakf st = keccak_f st"
proof -
  let ?F = "\<lambda>st r. keccakf_iota r (keccakf_chi (keccakf_rho_pi (keccakf_theta st)))"
  have "length (foldl ?F st [0..<n]) = 25 \<and> lanes_eq (of_list (foldl ?F st [0..<n])) (foldl keccak_round (of_list st) [0..<n])"
    if "n \<le> 24" for n
    using that
  proof (induction n)
    case 0
    then show ?case by (simp add: assms lanes_eq_def)
  next
    case (Suc n)
    then show ?case using keccak_round_list length_keccak_steps by simp
  qed
  from this [of 24] have "length (keccakf st) = 25" "lanes_eq (of_list (keccakf st)) (foldl keccak_round (of_list st) [0..<24])"
    by (simp_all only: keccakf_def order_refl simp_thms)
  then show ?thesis
    unfolding keccak_f_def by (metis lanes_eq_def to_list_cong to_list_of_list)
qed

lemma length_keccakf: "length st = 25 \<Longrightarrow> length (keccakf st) = 25"
  by (simp add: keccakf_fips keccak_f_def)

section \<open>The contract of a block digest\<close>

text \<open>\<open>md\<close> is the digest size in bytes.\<close>

definition sha3_size :: "nat \<Rightarrow> bool" where
  "sha3_size md \<longleftrightarrow> md \<in> {28, 32, 48, 64}"

definition sha3_inv :: "nat \<Rightarrow> fio_sha3_ctx \<Rightarrow> bool" where
  "sha3_inv md c \<longleftrightarrow> length (sha3_st c) = 25 \<and> unat (md_len c) = md \<and> unat (rsiz c) = 200 - 2 * md \<and>
     unat (rsizw c) = 25 - md div 4 \<and> unat (sha3_partial c) < 200 - 2 * md \<and> length (sha3_buf c) = 144 \<and>
     md \<le> length (sha3_sha c)"

definition sha3_pending :: "fio_sha3_ctx \<Rightarrow> bytes" where
  "sha3_pending c = take (unat (sha3_partial c)) (sha3_buf c)"

lemma sha3_sizeD: "sha3_size md \<Longrightarrow> 8 * (25 - md div 4) = 200 - 2 * md \<and> 0 < 200 - 2 * md \<and> 200 - 2 * md \<le> 144 \<and> md \<le> 64"
  by (auto simp: sha3_size_def)

lemma length_xor_lanes [simp]: "length (xor_lanes n st src) = length st"
proof -
  have "length (foldl (\<lambda>st i. st[i := f st i]) st is') = length st" for f is'
    by (induction is' arbitrary: st) auto
  then show ?thesis by (simp add: xor_lanes_def)
qed

lemma xor_lanes_cong:
  assumes "take (8 * n) src = take (8 * n) src'"
  shows "xor_lanes n st src = xor_lanes n st src'"
  unfolding xor_lanes_def
proof (rule foldl_cong)
  fix i st
  assume "i \<in> set [0..<n]"
  then have "take 8 (drop (8 * i) (take (8 * n) src)) = take 8 (drop (8 * i) src)"
    "take 8 (drop (8 * i) (take (8 * n) src')) = take 8 (drop (8 * i) src')"
    by (auto simp: drop_take min_def)
  then show "st[i := st ! i XOR le_word (take 8 (drop (8 * i) src))] = st[i := st ! i XOR le_word (take 8 (drop (8 * i) src'))]"
    using assms by simp
qed simp_all

lemma length_sha3_block: "length st = 25 \<Longrightarrow> length (sha3_block n st src) = 25"
  by (simp add: sha3_block_def length_keccakf)

lemma sha3_update_absorbs:
  assumes "sha3_size md" and "sha3_inv md c" and "length d \<le> 2 ^ 32 - 144"
  shows "\<exists>c'. fio_sha3_update c d = Some c' \<and> sha3_inv md c' \<and>
    (sha3_st c', sha3_pending c') = absorb (200 - 2 * md) (sha3_block (25 - md div 4)) (sha3_st c) (sha3_pending c @ d)"
proof -
  define r w where "r = 200 - 2 * md" and "w = 25 - md div 4"
  let ?f = "sha3_block w"
  let ?k = "(unat (sha3_partial c) + length d) mod r"
  have size: "8 * w = r" "0 < r" "r \<le> 144" "md \<le> 64" using sha3_sizeD [OF assms(1)] by (simp_all add: r_def w_def)
  have inv: "length (sha3_st c) = 25" "unat (md_len c) = md" "unat (rsiz c) = r" "unat (rsizw c) = w"
    "unat (sha3_partial c) < r" "length (sha3_buf c) = 144" "md \<le> length (sha3_sha c)"
    using assms(2) by (simp_all add: sha3_inv_def r_def w_def)
  have pre: "0 < unat (rsiz c)" "length d + unat (rsiz c) \<le> 2 ^ 32" "unat (sha3_partial c) < unat (rsiz c)"
    "unat (rsiz c) \<le> length (sha3_buf c)"
    using inv size assms(3) by simp_all
  obtain s b where upd: "block_update (rsiz c) ?f (sha3_st c) (sha3_buf c) (sha3_partial c) d (of_nat (length d)) =
      Some (s, b, of_nat ?k)" "length b = length (sha3_buf c)"
    "(s, take ?k b) = absorb r ?f (sha3_st c) (sha3_pending c @ d)"
    using block_update_absorbs [OF pre, of ?f "sha3_st c"] unfolding inv(3) sha3_pending_def by blast
  have k: "?k < r" using size by simp
  have k32: "unat (of_nat ?k :: u32) = ?k"
    by (rule unat_of_nat32, rule less_le_trans [OF k]) (use size in simp)
  have s: "length s = 25"
    using absorb_invariant [of "\<lambda>st. length st = 25" "sha3_st c" ?f r "sha3_pending c @ d"] inv(1) length_sha3_block
    by (simp flip: upd(3))
  have "fio_sha3_update c d = Some (c\<lparr>sha3_st := s, sha3_buf := b, sha3_partial := of_nat ?k\<rparr>)"
    by (simp add: fio_sha3_update_def inv(4) upd(1))
  then show ?thesis
    unfolding sha3_inv_def r_def [symmetric] w_def [symmetric]
    using upd(2,3) inv s k by (simp add: sha3_pending_def k32)
qed

lemma sha3_block_digest:
  assumes "sha3_size md"
  shows "block_digest (200 - 2 * md) 1 (2 ^ 32 - 144) (sha3_block (25 - md div 4)) (sha3_inv md) sha3_st sha3_pending
    (\<lambda>c. 0) fio_sha3_update"
  using sha3_update_absorbs [OF assms] sha3_sizeD [OF assms] by unfold_locales simp_all

interpretation sha3_224: block_digest 144 1 "2 ^ 32 - 144" "sha3_block 18" "sha3_inv 28" sha3_st sha3_pending "\<lambda>c. 0" fio_sha3_update
  using sha3_block_digest [of 28] by (simp add: sha3_size_def)

interpretation sha3_256: block_digest 136 1 "2 ^ 32 - 144" "sha3_block 17" "sha3_inv 32" sha3_st sha3_pending "\<lambda>c. 0" fio_sha3_update
  using sha3_block_digest [of 32] by (simp add: sha3_size_def)

interpretation sha3_384: block_digest 104 1 "2 ^ 32 - 144" "sha3_block 13" "sha3_inv 48" sha3_st sha3_pending "\<lambda>c. 0" fio_sha3_update
  using sha3_block_digest [of 48] by (simp add: sha3_size_def)

interpretation sha3_512: block_digest 72 1 "2 ^ 32 - 144" "sha3_block 9" "sha3_inv 64" sha3_st sha3_pending "\<lambda>c. 0" fio_sha3_update
  using sha3_block_digest [of 64] by (simp add: sha3_size_def)

section \<open>The sponge\<close>

text \<open>Domain separation and padding of FIPS 202 for a block of \<open>r\<close> bytes of which \<open>k\<close> are used.\<close>

definition sha3_pad :: "nat \<Rightarrow> nat \<Rightarrow> bytes" where
  "sha3_pad r k = (if r - k = 1 then [0x86] else 0x06 # replicate (r - k - 2) 0 @ [0x80])"

lemma length_sha3_pad: "k < r \<Longrightarrow> k + length (sha3_pad r k) = r"
  by (auto simp: sha3_pad_def)

lemma sha3_pad_block:
  assumes "k < r" and "r \<le> length buf"
  defines "b2 \<equiv> take (k + 1) (buf[k := 0x06]) @ replicate (r - (k + 1)) 0 @ drop r (buf[k := 0x06])"
  shows "take r (b2[r - 1 := b2 ! (r - 1) OR 0x80]) = take k buf @ sha3_pad r k"
proof -
  have b2: "b2 = take k buf @ 0x06 # replicate (r - (k + 1)) 0 @ drop r buf"
    using assms(1,2) by (simp add: b2_def take_update_swap take_Suc_conv_app_nth list_update_append)
  show ?thesis
  proof (cases "r = k + 1")
    case True
    then show ?thesis using assms(2) by (simp add: b2 list_update_append nth_append sha3_pad_def)
  next
    case False
    then have "k + 2 \<le> r" using assms(1) by simp
    then obtain q where q: "r = k + 2 + q" using le_Suc_ex by blast
    then have "replicate (r - (k + 1)) (0 :: u8) = replicate q 0 @ [0]" by (simp add: replicate_append_same)
    then show ?thesis using assms(2) q by (simp add: b2 list_update_append nth_append sha3_pad_def)
  qed
qed

lemma sha3_final_result:
  assumes "sha3_size md" and "sha3_inv md c"
  shows "\<exists>c'. fio_sha3_final c = Some c' \<and> take md (sha3_sha c') =
    take md (concat (map (le_bytes 8) (sha3_block (25 - md div 4) (sha3_st c)
      (sha3_pending c @ sha3_pad (200 - 2 * md) (length (sha3_pending c))))))"
proof -
  define r w where "r = 200 - 2 * md" and "w = 25 - md div 4"
  let ?k = "unat (sha3_partial c)" and ?buf = "sha3_buf c"
  have size: "8 * w = r" "0 < r" "r \<le> 144" "md \<le> 64" using sha3_sizeD [OF assms(1)] by (simp_all add: r_def w_def)
  have inv: "length (sha3_st c) = 25" "unat (md_len c) = md" "unat (rsiz c) = r" "unat (rsizw c) = w"
    "?k < r" "length ?buf = 144" "md \<le> length (sha3_sha c)"
    using assms(2) by (simp_all add: sha3_inv_def r_def w_def)
  define b1 where "b1 = ?buf[?k := 0x06]"
  define b2 where "b2 = take (?k + 1) b1 @ replicate (r - (?k + 1)) 0 @ drop r b1"
  define b3 where "b3 = b2[r - 1 := b2 ! (r - 1) OR 0x80]"
  define st where "st = keccakf (xor_lanes w (sha3_st c) b3)"
  have k1: "unat (sha3_partial c + 1) = ?k + 1" using inv(5) size by (subst unat_add_small) simp_all
  have n: "unat (rsiz c - (sha3_partial c + 1)) = r - (?k + 1)"
    using inv(3,5) k1 by (subst unat_sub) (simp_all add: word_le_nat_alt)
  have r1: "unat (rsiz c - 1) = r - 1" using unat_pred [of "rsiz c"] inv(3) size by simp
  have l2: "length b2 = 144" using inv(5,6) size by (simp add: b2_def b1_def)
  have w1: "wr ?buf ?k 0x06 = Some b1" using inv(5,6) size by (simp add: b1_def)
  have w2: "memcpy_at b1 (?k + 1) (replicate (r - (?k + 1)) 0) (r - (?k + 1)) = Some b2"
    using inv(5,6) size by (simp add: b1_def b2_def)
  have w3: "rd b2 (r - 1) = Some (b2 ! (r - 1))" "wr b2 (r - 1) (b2 ! (r - 1) OR 0x80) = Some b3"
    using l2 size by (simp_all add: b3_def)
  have "length (concat (map (le_bytes 8) st)) = 200"
    using inv(1) by (simp add: st_def length_concat comp_def length_keccakf sum_list_triv)
  then have w4: "memcpy_at (sha3_sha c) 0 (concat (map (le_bytes 8) st)) md =
      Some (take md (concat (map (le_bytes 8) st)) @ drop md (sha3_sha c))"
    using inv(7) size by simp
  have final: "fio_sha3_final c = Some (c\<lparr>sha3_buf := b3, sha3_st := st,
      sha3_sha := take md (concat (map (le_bytes 8) st)) @ drop md (sha3_sha c)\<rparr>)"
    unfolding fio_sha3_final_def Let_def k1 n r1 inv(2,4)
    by (simp add: w1 w2 w3 w4 flip: st_def del: memcpy_at_Some rd_Some wr_Some One_nat_def add_Suc_right)
  have "take r b3 = take ?k ?buf @ sha3_pad r ?k"
    using sha3_pad_block [of ?k r ?buf] inv(5,6) size unfolding b3_def b2_def b1_def by simp
  moreover have "length (take ?k ?buf @ sha3_pad r ?k) = r"
    using inv(5,6) size length_sha3_pad [OF inv(5)] by simp
  ultimately have "take (8 * w) b3 = take (8 * w) (take ?k ?buf @ sha3_pad r ?k)"
    using size by (metis take_all order_refl)
  then have "st = sha3_block w (sha3_st c) (take ?k ?buf @ sha3_pad r ?k)"
    unfolding st_def sha3_block_def using xor_lanes_cong by metis
  moreover have "length (sha3_pending c) = ?k" using inv(5,6) size by (simp add: sha3_pending_def)
  ultimately show ?thesis
    unfolding r_def [symmetric] w_def [symmetric]
    using final inv(7) \<open>length (concat (map (le_bytes 8) st)) = 200\<close> size by (simp add: sha3_pending_def)
qed


lemma sha3_init_inv:
  assumes "sha3_size md" and "md \<le> length (sha3_sha c)"
  shows "sha3_inv md (fio_sha3_init c (of_nat md))" "sha3_pending (fio_sha3_init c (of_nat md)) = []"
    "sha3_st (fio_sha3_init c (of_nat md)) = replicate 25 0"
proof -
  have "md \<in> {28, 32, 48, 64}" using assms(1) by (simp add: sha3_size_def)
  then have "unat (of_nat md :: u32) = md" "unat (200 - 2 * of_nat md :: u32) = 200 - 2 * md"
    "unat ((200 - 2 * of_nat md) div 8 :: u32) = 25 - md div 4" "0 < 200 - 2 * md"
    by auto
  then show "sha3_inv md (fio_sha3_init c (of_nat md))" "sha3_pending (fio_sha3_init c (of_nat md)) = []"
    "sha3_st (fio_sha3_init c (of_nat md)) = replicate 25 0"
    using assms(2) by (simp_all add: sha3_inv_def sha3_pending_def fio_sha3_init_def Let_def)
qed

text \<open>The permutation inside the sponge is that of the standard.\<close>

definition sponge_block :: "nat \<Rightarrow> u64 list \<Rightarrow> bytes \<Rightarrow> u64 list" where
  "sponge_block w st b = keccak_f (map (\<lambda>i. if i < w then st ! i XOR le_word (take 8 (drop (8 * i) b)) else st ! i) [0..<25])"

lemma nth_xor_lanes:
  "n \<le> length st \<Longrightarrow> i < length st \<Longrightarrow>
    xor_lanes n st b ! i = (if i < n then st ! i XOR le_word (take 8 (drop (8 * i) b)) else st ! i)"
proof (induction n)
  case (Suc n)
  have "xor_lanes (Suc n) st b = (xor_lanes n st b)[n := xor_lanes n st b ! n XOR le_word (take 8 (drop (8 * n) b))]"
    by (simp add: xor_lanes_def)
  with Suc show ?case by (auto simp: nth_list_update less_Suc_eq)
qed (simp add: xor_lanes_def)

lemma sha3_block_sponge:
  assumes "length st = 25" and "w \<le> 25"
  shows "sha3_block w st b = sponge_block w st b"
proof -
  have "xor_lanes w st b = map (\<lambda>i. if i < w then st ! i XOR le_word (take 8 (drop (8 * i) b)) else st ! i) [0..<25]"
    using assms by (intro nth_equalityI) (simp_all add: nth_xor_lanes del: upt_rec_numeral)
  then show ?thesis using assms(1) by (simp add: sha3_block_def sponge_block_def keccakf_fips del: upt_rec_numeral)
qed

lemma absorb_sha3_sponge:
  assumes "length st = 25" and "w \<le> 25"
  shows "absorb B (sha3_block w) st m = absorb B (sponge_block w) st m"
  using assms(1)
proof (induction "length m" arbitrary: st m rule: less_induct)
  case less
  show ?case
  proof (cases "B = 0 \<or> length m < B")
    case True
    then show ?thesis by (simp add: absorb.simps [of B])
  next
    case False
    then have "length (drop B m) < length m" by (simp, linarith)
    moreover have "length (sha3_block w st (take B m)) = 25" using less.prems by (rule length_sha3_block)
    ultimately show ?thesis
      using less.hyps False by (simp add: absorb_step flip: sha3_block_sponge [OF less.prems assms(2)])
  qed
qed

lemma sha3_message:
  assumes "sha3_size md" and "md \<le> length (sha3_sha c)" and "\<forall>d \<in> set ds. length d \<le> 2 ^ 32 - 144"
  shows "\<exists>c1 c2. feed fio_sha3_update (fio_sha3_init c (of_nat md)) ds = Some c1 \<and> fio_sha3_final c1 = Some c2 \<and>
    take md (sha3_sha c2) = take md (concat (map (le_bytes 8) (fst (absorb (200 - 2 * md) (sponge_block (25 - md div 4))
      (replicate 25 0) (concat ds @ sha3_pad (200 - 2 * md) (length (concat ds) mod (200 - 2 * md)))))))"
proof -
  let ?r = "200 - 2 * md" and ?w = "25 - md div 4" and ?m = "concat ds" and ?c = "fio_sha3_init c (of_nat md)"
  note init = sha3_init_inv [OF assms(1,2)]
  have r: "0 < ?r" using sha3_sizeD [OF assms(1)] by blast
  obtain c1 where c1: "feed fio_sha3_update ?c ds = Some c1" "sha3_inv md c1"
    "(sha3_st c1, sha3_pending c1) = absorb ?r (sha3_block ?w) (replicate 25 0) ?m"
    using block_digest.feed_concat [OF sha3_block_digest [OF assms(1)] init(1,2) assms(3)] unfolding init(3) by blast
  let ?p = "sha3_pad ?r (length ?m mod ?r)"
  have k: "length (sha3_pending c1) = length ?m mod ?r"
    using length_absorb_rest [OF r, of "sha3_block ?w" "replicate 25 0" ?m] by (simp flip: c1(3))
  obtain c2 where c2: "fio_sha3_final c1 = Some c2"
    "take md (sha3_sha c2) = take md (concat (map (le_bytes 8) (sha3_block ?w (sha3_st c1) (sha3_pending c1 @ ?p))))"
    using sha3_final_result [OF assms(1) c1(2)] unfolding k by blast
  have "length (sha3_pending c1 @ ?p) = ?r"
    using length_sha3_pad [OF mod_less_divisor [OF r, of "length ?m"]] k by simp
  then have "sha3_block ?w (sha3_st c1) (sha3_pending c1 @ ?p) = fst (absorb ?r (sha3_block ?w) (sha3_st c1) (sha3_pending c1 @ ?p))"
    using absorb_block [OF r, of "sha3_pending c1 @ ?p" "sha3_block ?w" "sha3_st c1" "[]"] r by (simp add: absorb_short)
  also have "\<dots> = fst (absorb ?r (sha3_block ?w) (replicate 25 0) (?m @ ?p))"
    using absorb_append [of ?r "sha3_block ?w" "replicate 25 0" ?m ?p] by (simp flip: c1(3))
  also have "\<dots> = fst (absorb ?r (sponge_block ?w) (replicate 25 0) (?m @ ?p))"
    by (subst absorb_sha3_sponge) simp_all
  finally show ?thesis using c1(1) c2 by simp
qed

text \<open>
  C23 (equivalence): for each of the four digest sizes, initialising a context, feeding it a message in pieces
  of any size up to \<open>2 ^ 32 - 144\<close> bytes and finishing stores the first bytes of the sponge of FIPS 202 over
  the padded message: the Keccak permutation with its five step mappings, absorbing blocks of the rate,
  domain bits 01 and padding 10*1. No access leaves the context's buffers.
\<close>

theorem sha3_digest:
  assumes "sha3_size md" and "md \<le> length (sha3_sha c)" and "\<forall>d \<in> set ds. length d \<le> 2 ^ 32 - 144"
  shows "\<exists>c1 c2. feed fio_sha3_update (fio_sha3_init c (of_nat md)) ds = Some c1 \<and> fio_sha3_final c1 = Some c2 \<and>
    take md (sha3_sha c2) = take md (concat (map (le_bytes 8) (fst (absorb (200 - 2 * md) (sponge_block (25 - md div 4))
      (replicate 25 0) (concat ds @ sha3_pad (200 - 2 * md) (length (concat ds) mod (200 - 2 * md)))))))"
  using assms by (rule sha3_message)

theorem sha3_digest_witness:
  "\<exists>c1 c2. feed fio_sha3_update (fio_sha3_init \<lparr>sha3_st = [], md_len = 0, rsiz = 0, rsizw = 0, sha3_partial = 0,
      sha3_buf = [], sha3_sha = replicate 28 0\<rparr> 28) [[97], [98, 99]] = Some c1 \<and> fio_sha3_final c1 = Some c2"
  using sha3_digest [of 28 "\<lparr>sha3_st = [], md_len = 0, rsiz = 0, rsizw = 0, sha3_partial = 0,
      sha3_buf = [], sha3_sha = replicate 28 0\<rparr>" "[[97], [98, 99]]"]
  by (auto simp: sha3_size_def)

end
