(* ===== verification/Xxhash.thy ===== *)
theory Xxhash
  imports Digest
begin

text \<open>
  \<^verbatim>\<open>crc/xxhash.c\<close>: the 32-bit xxHash, in one call and as a stream. The stream satisfies the contract of a block
  digest, and its digest after any number of updates is the one-call hash of what it was fed. On the little
  endian target \<^verbatim>\<open>XXH_readLE32\<close> is a plain load, whatever the alignment. The pointer pairs \<open>p\<close>, \<^verbatim>\<open>bEnd\<close> are
  modelled by the bytes between them. \<^verbatim>\<open>len\<close> is a signed int in the code.
\<close>

section \<open>Definitions\<close>

definition PRIME32_1 :: u32 where "PRIME32_1 = 2654435761"
definition PRIME32_2 :: u32 where "PRIME32_2 = 2246822519"
definition PRIME32_3 :: u32 where "PRIME32_3 = 3266489917"
definition PRIME32_4 :: u32 where "PRIME32_4 = 668265263"
definition PRIME32_5 :: u32 where "PRIME32_5 = 374761393"

definition XXH_rotl32 :: "u32 \<Rightarrow> nat \<Rightarrow> u32" where
  "XXH_rotl32 x r = push_bit r x OR drop_bit (32 - r) x"

definition XXH_readLE32 :: "bytes \<Rightarrow> u32" where
  "XXH_readLE32 p = le_word (take 4 p)"

type_synonym xxh_v = "u32 \<times> u32 \<times> u32 \<times> u32"

text \<open>One trip through the loop body: 16 bytes.\<close>

definition xxh_lane :: "u32 \<Rightarrow> bytes \<Rightarrow> u32" where
  "xxh_lane v p = (let v = v + XXH_readLE32 p * PRIME32_2; v = XXH_rotl32 v 13 in v * PRIME32_1)"

definition xxh_stripe :: "xxh_v \<Rightarrow> bytes \<Rightarrow> xxh_v" where
  "xxh_stripe = (\<lambda>(v1, v2, v3, v4) p. let
     v1 = xxh_lane v1 p; p = drop 4 p;
     v2 = xxh_lane v2 p; p = drop 4 p;
     v3 = xxh_lane v3 p; p = drop 4 p;
     v4 = xxh_lane v4 p
   in (v1, v2, v3, v4))"

function xxh_loop :: "xxh_v \<Rightarrow> bytes \<Rightarrow> xxh_v \<times> bytes" where
  "xxh_loop v p = (let v = xxh_stripe v (take 16 p); p = drop 16 p in if 16 \<le> length p then xxh_loop v p else (v, p))"
  by pat_completeness auto
termination by (relation "measure (\<lambda>(v, p). length p)") auto

definition xxh_init_v :: "u32 \<Rightarrow> xxh_v" where
  "xxh_init_v seed = (seed + PRIME32_1 + PRIME32_2, seed + PRIME32_2, seed + 0, seed - PRIME32_1)"

definition xxh_merge :: "xxh_v \<Rightarrow> u32" where
  "xxh_merge = (\<lambda>(v1, v2, v3, v4). XXH_rotl32 v1 1 + XXH_rotl32 v2 7 + XXH_rotl32 v3 12 + XXH_rotl32 v4 18)"

function xxh_tail4 :: "u32 \<Rightarrow> bytes \<Rightarrow> u32 \<times> bytes" where
  "xxh_tail4 h32 p =
     (if 4 \<le> length p
      then let h32 = h32 + XXH_readLE32 p * PRIME32_3; h32 = XXH_rotl32 h32 17 * PRIME32_4 in xxh_tail4 h32 (drop 4 p)
      else (h32, p))"
  by pat_completeness auto
termination by (relation "measure (\<lambda>(h, p). length p)") auto

fun xxh_tail1 :: "u32 \<Rightarrow> bytes \<Rightarrow> u32" where
  "xxh_tail1 h32 [] = h32"
| "xxh_tail1 h32 (b # p) = (let h32 = h32 + ucast b * PRIME32_5; h32 = XXH_rotl32 h32 11 * PRIME32_1 in xxh_tail1 h32 p)"

definition xxh_avalanche :: "u32 \<Rightarrow> u32" where
  "xxh_avalanche h32 = (let
     h32 = h32 XOR drop_bit 15 h32;
     h32 = h32 * PRIME32_2;
     h32 = h32 XOR drop_bit 13 h32;
     h32 = h32 * PRIME32_3
   in h32 XOR drop_bit 16 h32)"

text \<open>
  \<^verbatim>\<open>XXH32\<close> takes its length as \<^verbatim>\<open>uint32_t\<close> and hands it on as \<^verbatim>\<open>int\<close>: from \<open>2 ^ 31\<close> on it is negative, \<^verbatim>\<open>bEnd\<close> lies
  before the data and no loop reads any of it.
\<close>

definition XXH32_endian_align :: "bytes \<Rightarrow> int \<Rightarrow> u32 \<Rightarrow> u32" where
  "XXH32_endian_align input len seed = (let
     p = take (nat len) input;
     (h32, p) = (if 16 \<le> len
       then let (v, p) = xxh_loop (xxh_init_v seed) p in (xxh_merge v, p)
       else (seed + PRIME32_5, p));
     h32 = h32 + of_int len;
     (h32, p) = xxh_tail4 h32 p;
     h32 = xxh_tail1 h32 p
   in xxh_avalanche h32)"

definition XXH32 :: "bytes \<Rightarrow> u32 \<Rightarrow> u32" where
  "XXH32 input seed = XXH32_endian_align input (sint (of_nat (length input) :: u32)) seed"

record XXH_state32_t =
  total_len :: u64
  xxh_seed :: u32
  xxh_v :: xxh_v
  memsize :: nat
  xxh_memory :: bytes

definition XXH32_resetState :: "XXH_state32_t \<Rightarrow> u32 \<Rightarrow> XXH_state32_t" where
  "XXH32_resetState state seed = state\<lparr>xxh_seed := seed, xxh_v := xxh_init_v seed, total_len := 0, memsize := 0\<rparr>"

text \<open>The sum \<^verbatim>\<open>memsize + len\<close> is a signed int: an overflow is undefined.\<close>

definition XXH32_update :: "XXH_state32_t \<Rightarrow> bytes \<Rightarrow> XXH_state32_t option" where
  "XXH32_update state input = (let
     len = length input;
     state = state\<lparr>total_len := total_len state + of_nat len\<rparr>
   in do {
     c_assert (memsize state + len < 2 ^ 31);
     if memsize state + len < 16
     then do {
       memory \<leftarrow> memcpy_at (xxh_memory state) (memsize state) input len;
       Some (state\<lparr>xxh_memory := memory, memsize := memsize state + len\<rparr>)
     }
     else do {
       (state, p) \<leftarrow>
         (if memsize state \<noteq> 0
          then do {
            memory \<leftarrow> memcpy_at (xxh_memory state) (memsize state) input (16 - memsize state);
            Some (state\<lparr>xxh_memory := memory, xxh_v := xxh_stripe (xxh_v state) memory, memsize := 0\<rparr>,
                  drop (16 - memsize state) input)
          }
          else Some (state, input));
       let (state, p) =
         (if 16 \<le> length p then let (v, p) = xxh_loop (xxh_v state) p in (state\<lparr>xxh_v := v\<rparr>, p) else (state, p));
       if p \<noteq> []
       then do {
         memory \<leftarrow> memcpy_at (xxh_memory state) 0 p (length p);
         Some (state\<lparr>xxh_memory := memory, memsize := length p\<rparr>)
       }
       else Some state
     }
   })"

definition XXH32_intermediateDigest :: "XXH_state32_t \<Rightarrow> u32" where
  "XXH32_intermediateDigest state = (let
     p = take (memsize state) (xxh_memory state);
     h32 = (if 16 \<le> total_len state then xxh_merge (xxh_v state) else xxh_seed state + PRIME32_5);
     h32 = h32 + ucast (total_len state);
     (h32, p) = xxh_tail4 h32 p;
     h32 = xxh_tail1 h32 p
   in xxh_avalanche h32)"

section \<open>The contract of a block digest\<close>

declare xxh_loop.simps [simp del] xxh_tail4.simps [simp del]

lemma xxh_loop_absorb: "16 \<le> length p \<Longrightarrow> xxh_loop v p = absorb 16 xxh_stripe v p"
proof (induction v p rule: xxh_loop.induct)
  case (1 v p)
  show ?case
  proof (cases "32 \<le> length p")
    case True
    then have "xxh_loop v p = xxh_loop (xxh_stripe v (take 16 p)) (drop 16 p)"
      by (subst xxh_loop.simps) (simp add: Let_def le_diff_conv2)
    then show ?thesis using True 1 by (simp add: absorb_step)
  next
    case False
    then show ?thesis using 1(2) by (subst xxh_loop.simps) (simp add: absorb_step absorb_short Let_def le_diff_conv2)
  qed
qed

definition xxh_inv :: "XXH_state32_t \<Rightarrow> bool" where
  "xxh_inv s \<longleftrightarrow> memsize s < 16 \<and> length (xxh_memory s) = 16"

definition xxh_pending :: "XXH_state32_t \<Rightarrow> bytes" where
  "xxh_pending s = take (memsize s) (xxh_memory s)"

lemma xxh_update_absorbs:
  assumes "xxh_inv s" and "length d \<le> 2 ^ 31 - 16"
  shows "\<exists>s'. XXH32_update s d = Some s' \<and> xxh_inv s' \<and> xxh_seed s' = xxh_seed s \<and>
    (xxh_v s', xxh_pending s') = absorb 16 xxh_stripe (xxh_v s) (xxh_pending s @ d) \<and>
    unat (total_len s') = (unat (total_len s) + length d) mod 2 ^ 64"
proof -
  let ?k = "memsize s" and ?n = "length d"
  have inv: "?k < 16" "length (xxh_memory s) = 16" using assms(1) by (simp_all add: xxh_inv_def)
  have ok: "?k + ?n < 2147483648" using inv assms(2) by simp
  have tot: "unat (total_len s + of_nat ?n) = (unat (total_len s) + ?n) mod 2 ^ 64"
    using unat_add_of_nat [of "total_len s" ?n] by simp
  show ?thesis
  proof (cases "?k + ?n < 16")
    case True
    then show ?thesis
      using inv ok tot by (simp add: XXH32_update_def Let_def xxh_inv_def xxh_pending_def absorb_short)
  next
    case False
    define v1 p1 m1 where "v1 = (if ?k = 0 then xxh_v s else xxh_stripe (xxh_v s) (take ?k (xxh_memory s) @ take (16 - ?k) d))"
      and "p1 = drop (if ?k = 0 then 0 else 16 - ?k) d"
      and "m1 = (if ?k = 0 then xxh_memory s else take ?k (xxh_memory s) @ take (16 - ?k) d)"
    have m1: "length m1 = 16" using False inv by (simp add: m1_def)
    have first: "absorb 16 xxh_stripe (xxh_v s) (xxh_pending s @ d) = absorb 16 xxh_stripe v1 p1"
    proof (cases "?k = 0")
      case True
      then show ?thesis by (simp add: v1_def p1_def xxh_pending_def)
    next
      case nz: False
      have "absorb 16 xxh_stripe (xxh_v s) ((take ?k (xxh_memory s) @ take (16 - ?k) d) @ drop (16 - ?k) d) =
          absorb 16 xxh_stripe (xxh_stripe (xxh_v s) (take ?k (xxh_memory s) @ take (16 - ?k) d)) (drop (16 - ?k) d)"
        by (rule absorb_block) (use False inv in auto)
      then show ?thesis using nz by (simp add: v1_def p1_def xxh_pending_def)
    qed
    obtain v2 p2 where ab: "absorb 16 xxh_stripe v1 p1 = (v2, p2)" by fastforce
    have p2: "length p2 < 16" using length_absorb_rest [of 16 xxh_stripe v1 p1] ab by simp
    have "(if 16 \<le> length p1 then xxh_loop v1 p1 else (v1, p1)) = (v2, p2)"
      using ab by (auto simp: xxh_loop_absorb absorb_short not_le)
    then have upd: "XXH32_update s d = Some (s\<lparr>total_len := total_len s + of_nat ?n, xxh_v := v2,
        xxh_memory := p2 @ drop (length p2) m1, memsize := length p2\<rparr>)"
      using False inv ok p2 m1
      by (cases "?k = 0"; cases "16 \<le> length p1"; cases "p2 = []") (simp_all add: XXH32_update_def Let_def v1_def p1_def m1_def)
    then show ?thesis using first ab p2 m1 tot by (simp add: xxh_inv_def xxh_pending_def)
  qed
qed

interpretation xxh: block_digest 16 "2 ^ 64" "2 ^ 31 - 16" xxh_stripe xxh_inv xxh_v xxh_pending "unat \<circ> total_len" XXH32_update
proof
  fix s and d :: bytes
  assume "xxh_inv s" "length d \<le> 2 ^ 31 - 16"
  then show "\<exists>s'. XXH32_update s d = Some s' \<and> xxh_inv s' \<and>
      (xxh_v s', xxh_pending s') = absorb 16 xxh_stripe (xxh_v s) (xxh_pending s @ d) \<and>
      (unat \<circ> total_len) s' = ((unat \<circ> total_len) s + length d) mod 2 ^ 64"
    using xxh_update_absorbs [of s d] by auto
qed (simp_all add: unat_mod_64 [simplified])

lemma feed_xxh_seed: "feed XXH32_update s ds = Some s' \<Longrightarrow> xxh_seed s' = xxh_seed s"
proof (induction ds arbitrary: s)
  case (Cons d ds)
  have "XXH32_update s d = Some t \<Longrightarrow> xxh_seed t = xxh_seed s" for t
    by (auto simp: XXH32_update_def Let_def bind_eq_Some_conv split: if_splits prod.splits)
  with Cons show ?case by (auto simp: bind_eq_Some_conv)
qed simp

section \<open>Stream and one call\<close>

lemma XXH32_absorb:
  assumes "length m < 2 ^ 31" and "absorb 16 xxh_stripe (xxh_init_v seed) m = (v, r)"
  shows "XXH32 m seed = (let (h, q) = xxh_tail4 ((if 16 \<le> length m then xxh_merge v else seed + PRIME32_5) + of_nat (length m)) r
     in xxh_avalanche (xxh_tail1 h q))"
proof -
  have len: "sint (of_nat (length m) :: u32) = int (length m)"
    using assms(1) by (simp add: signed_of_nat signed_take_bit_int_eq_self)
  show ?thesis
  proof (cases "16 \<le> length m")
    case True
    then have "xxh_loop (xxh_init_v seed) m = (v, r)" using assms(2) by (simp add: xxh_loop_absorb)
    then show ?thesis using True by (simp add: XXH32_def XXH32_endian_align_def len Let_def split_beta)
  next
    case False
    then have "r = m" using assms(2) by (simp add: absorb_short)
    then show ?thesis using False by (simp add: XXH32_def XXH32_endian_align_def len Let_def split_beta)
  qed
qed

lemma xxh32_message:
  assumes "length (xxh_memory s) = 16" and "length (concat ds) \<le> 2 ^ 31 - 16"
  shows "\<exists>s'. feed XXH32_update (XXH32_resetState s seed) ds = Some s' \<and>
    XXH32_intermediateDigest s' = XXH32 (concat ds) seed"
proof -
  let ?s = "XXH32_resetState s seed" and ?m = "concat ds"
  have inv: "xxh_inv ?s" "xxh_pending ?s = []" "(unat \<circ> total_len) ?s = 0" "xxh_v ?s = xxh_init_v seed" "xxh_seed ?s = seed"
    using assms by (simp_all add: xxh_inv_def xxh_pending_def XXH32_resetState_def)
  have small: "\<forall>d \<in> set ds. length d \<le> 2 ^ 31 - 16"
    using assms(2) member_le_sum_list [of _ "map length ds"] by (fastforce simp: length_concat)
  obtain s' where s': "feed XXH32_update ?s ds = Some s'" "(xxh_v s', xxh_pending s') = absorb 16 xxh_stripe (xxh_init_v seed) ?m"
    "unat (total_len s') = length ?m mod 2 ^ 64"
    using xxh.feed_concat [OF inv(1,2) small] inv(3,4) by auto
  have seed: "xxh_seed s' = seed" using feed_xxh_seed [OF s'(1)] inv(5) by simp
  have tot: "unat (total_len s') = length ?m" using s'(3) assms(2) by simp
  then have "16 \<le> total_len s' \<longleftrightarrow> 16 \<le> length ?m" by (simp add: word_le_nat_alt)
  moreover have "(ucast (total_len s') :: u32) = of_nat (length ?m)"
    using tot by (metis of_nat_unat ucast_eq)
  moreover have "length ?m < 2 ^ 31" using assms(2) by simp
  ultimately have "XXH32_intermediateDigest s' = XXH32 ?m seed"
    using XXH32_absorb [OF _ s'(2) [symmetric]] seed
    by (simp add: XXH32_intermediateDigest_def xxh_pending_def Let_def)
  then show ?thesis using s'(1) by blast
qed

text \<open>
  C26 (equivalence): a state that was reset with a seed and fed a message of less than 2 GiB in pieces of any
  size digests to what the one-call \<^verbatim>\<open>XXH32\<close> returns for the whole message, however it was cut.
\<close>

theorem xxh32_stream:
  assumes "length (xxh_memory s) = 16" and "length (concat ds) \<le> 2 ^ 31 - 16"
  shows "\<exists>s'. feed XXH32_update (XXH32_resetState s seed) ds = Some s' \<and>
    XXH32_intermediateDigest s' = XXH32 (concat ds) seed"
  using assms by (rule xxh32_message)

theorem xxh32_stream_witness:
  "\<exists>s'. feed XXH32_update (XXH32_resetState \<lparr>total_len = 0, xxh_seed = 0, xxh_v = (0, 0, 0, 0), memsize = 3,
      xxh_memory = replicate 16 0\<rparr> 7) [[97], [98, 99]] = Some s' \<and>
    XXH32_intermediateDigest s' = XXH32 [97, 98, 99] 7"
  using xxh32_stream [of "\<lparr>total_len = 0, xxh_seed = 0, xxh_v = (0, 0, 0, 0), memsize = 3, xxh_memory = replicate 16 0\<rparr>"
      "[[97], [98, 99]]" 7] by simp

end
