(* ===== verification/Hashes.thy ===== *)
theory Hashes
  imports Xxhash
begin

text \<open>
  The one-call hash functions of \<^verbatim>\<open>crc/murmur3.c\<close>, \<^verbatim>\<open>crc/fnv.c\<close> and \<^verbatim>\<open>hash.h\<close>. Each mixing step of murmur3 and of fnv
  can be undone, so a change confined to one word of the key always changes the hash; jhash reads only one
  byte in four of all but the last block.
\<close>

section \<open>Steps that can be undone\<close>

named_theorems undo \<comment> \<open>injectivity of mixing steps\<close>

lemma mult_cancel_inverse [undo]: "c * d = (1 :: 'a::len word) \<Longrightarrow> x * c = y * c \<longleftrightarrow> x = y"
  by (metis mult.assoc mult.right_neutral)

lemma bit_rotl:
  assumes "0 < r" "r < LENGTH('a)" "i < LENGTH('a)"
  shows "bit (push_bit r x OR drop_bit (LENGTH('a) - r) (x :: 'a::len word)) i \<longleftrightarrow>
    bit x (if i < r then i + (LENGTH('a) - r) else i - r)"
  using assms by (auto simp: bit_simps add.commute dest: bit_imp_le_length)

lemma rotl_cancel:
  assumes "0 < r" "r < LENGTH('a)"
  shows "push_bit r x OR drop_bit (LENGTH('a) - r) (x :: 'a::len word) = push_bit r y OR drop_bit (LENGTH('a) - r) y \<longleftrightarrow> x = y"
proof
  assume eq: "push_bit r x OR drop_bit (LENGTH('a) - r) x = push_bit r y OR drop_bit (LENGTH('a) - r) y"
  show "x = y"
  proof (rule bit_word_eqI)
    fix i
    assume i: "i < LENGTH('a)"
    define j where "j = (if i + r < LENGTH('a) then i + r else i + r - LENGTH('a))"
    have j: "j < LENGTH('a)" "(if j < r then j + (LENGTH('a) - r) else j - r) = i"
      using i assms by (auto simp: j_def)
    show "bit x i = bit y i"
      using bit_rotl [OF assms j(1), of x] bit_rotl [OF assms j(1), of y] eq j(2) by simp
  qed
qed simp

lemma xorshift_cancel [undo]:
  assumes "0 < n"
  shows "x XOR drop_bit n x = y XOR drop_bit n (y :: 'a::len word) \<longleftrightarrow> x = y"
proof
  assume eq: "x XOR drop_bit n x = y XOR drop_bit n y"
  show "x = y"
  proof (rule bit_word_eqI)
    fix i
    assume "i < LENGTH('a)"
    then show "bit x i = bit y i"
    proof (induction "LENGTH('a) - i" arbitrary: i rule: less_induct)
      case less
      have "bit (x XOR drop_bit n x) i = bit (y XOR drop_bit n y) i" using eq by simp
      then have "(bit x i \<noteq> bit x (n + i)) = (bit y i \<noteq> bit y (n + i))" by (simp add: bit_simps)
      moreover have "bit x (n + i) = bit y (n + i)"
        using less.hyps [of "n + i"] less.prems assms by (cases "n + i < LENGTH('a)") (auto dest: bit_imp_le_length)
      ultimately show ?case by auto
    qed
  qed
qed simp

lemma xor_cancel [undo]: "x XOR w = y XOR w \<longleftrightarrow> x = y" "w XOR x = w XOR y \<longleftrightarrow> x = y" for x y w :: "'a::len word"
  by (metis xor.assoc xor_self_eq xor.right_neutral xor.left_neutral)+

section \<open>murmur3\<close>

definition rotl32 :: "u32 \<Rightarrow> nat \<Rightarrow> u32" where
  "rotl32 x r = push_bit r x OR drop_bit (32 - r) x"

definition fmix32 :: "u32 \<Rightarrow> u32" where
  "fmix32 h = (let
     h = h XOR drop_bit 16 h;
     h = h * 0x85ebca6b;
     h = h XOR drop_bit 13 h;
     h = h * 0xc2b2ae35
   in h XOR drop_bit 16 h)"

text \<open>The switch falls through; \<open>tail\<close> has \<open>len AND 3\<close> bytes.\<close>

definition murmur3_tail :: "bytes \<Rightarrow> u32 \<Rightarrow> u32 \<Rightarrow> u32 \<Rightarrow> u32 \<Rightarrow> u32" where
  "murmur3_tail tail len c1 c2 h1 = (let
     n = len AND 3;
     k1 = 0;
     k1 = (if n = 3 then k1 XOR push_bit 16 (ucast (tail ! 2)) else k1);
     k1 = (if n = 3 \<or> n = 2 then k1 XOR push_bit 8 (ucast (tail ! 1)) else k1);
     h1 = (if n = 3 \<or> n = 2 \<or> n = 1
       then let k1 = k1 XOR ucast (tail ! 0); k1 = k1 * c1; k1 = rotl32 k1 15; k1 = k1 * c2 in h1 XOR k1
       else h1)
   in fmix32 (h1 XOR len))"

definition murmur3_block :: "u32 \<Rightarrow> u32 \<Rightarrow> u32 \<Rightarrow> u32 \<Rightarrow> u32" where
  "murmur3_block c1 c2 h1 k1 = (let
     k1 = k1 * c1;
     k1 = rotl32 k1 15;
     k1 = k1 * c2;
     h1 = h1 XOR k1;
     h1 = rotl32 h1 13
   in h1 * 5 + 0xe6546b64)"

text \<open>\<^verbatim>\<open>blocks\<close> points behind the last whole word and is indexed from \<^verbatim>\<open>-nblocks\<close> up; \<^verbatim>\<open>nblocks * 4\<close> is a signed int.\<close>

definition murmurhash3 :: "bytes \<Rightarrow> u32 \<Rightarrow> u32 option" where
  "murmurhash3 key seed = (let
     nblocks = length key div 4;
     c1 = 0xcc9e2d51; c2 = 0x1b873593;
     h1 = foldl (\<lambda>h1 i. murmur3_block c1 c2 h1 (le_word (take 4 (drop (4 * i) key)))) seed [0..<nblocks]
   in do {
     c_assert (nblocks * 4 < 2 ^ 31);
     Some (murmur3_tail (drop (4 * nblocks) key) (of_nat (length key)) c1 c2 h1)
   })"

section \<open>fnv\<close>

definition FNV_PRIME :: u64 where "FNV_PRIME = 0x100000001b3"

definition fnv_tail :: "bytes \<Rightarrow> u64" where
  "fnv_tail ds = foldl (\<lambda>val d. push_bit 8 val OR ucast d) 0 ds"

function fnv :: "bytes \<Rightarrow> u64 \<Rightarrow> u64" where
  "fnv buf hval =
     (if buf = [] then hval
      else let hval = hval * FNV_PRIME in
        if 8 \<le> length buf then fnv (drop 8 buf) (hval XOR le_word (take 8 buf))
        else hval XOR fnv_tail buf)"
  by pat_completeness auto
termination by (relation "measure (length \<circ> fst)") auto

declare fnv.simps [simp del]

section \<open>jhash\<close>

definition GOLDEN_RATIO_32 :: u32 where "GOLDEN_RATIO_32 = 0x61C88647"
definition GOLDEN_RATIO_64 :: u64 where "GOLDEN_RATIO_64 = 0x61C8864680B583EB"

definition hash_long_full :: "u64 \<Rightarrow> u64" where
  "hash_long_full val = val * GOLDEN_RATIO_64"

definition hash_long :: "u64 \<Rightarrow> nat \<Rightarrow> u64" where
  "hash_long val bits = drop_bit (64 - bits) (hash_long_full val)"

definition hash_u64 :: "u64 \<Rightarrow> u64" where
  "hash_u64 val = val * GOLDEN_RATIO_64"

definition rol32 :: "u32 \<Rightarrow> nat \<Rightarrow> u32" where
  "rol32 word shift = push_bit shift word OR drop_bit (32 - shift) word"

definition jhash_mix :: "u32 \<Rightarrow> u32 \<Rightarrow> u32 \<Rightarrow> u32 \<times> u32 \<times> u32" where
  "jhash_mix a b c = (let
     a = a - c; a = a XOR rol32 c 4; c = c + b;
     b = b - a; b = b XOR rol32 a 6; a = a + c;
     c = c - b; c = c XOR rol32 b 8; b = b + a;
     a = a - c; a = a XOR rol32 c 16; c = c + b;
     b = b - a; b = b XOR rol32 a 19; a = a + c;
     c = c - b; c = c XOR rol32 b 4; b = b + a
   in (a, b, c))"

definition jhash_final :: "u32 \<Rightarrow> u32 \<Rightarrow> u32 \<Rightarrow> u32" where
  "jhash_final a b c = (let
     c = c XOR b; c = c - rol32 b 14;
     a = a XOR c; a = a - rol32 c 11;
     b = b XOR a; b = b - rol32 a 25;
     c = c XOR b; c = c - rol32 b 16;
     a = a XOR c; a = a - rol32 c 4;
     b = b XOR a; b = b - rol32 a 14;
     c = c XOR b
   in c - rol32 b 24)"

text \<open>The last switch, from the case of the remaining length on down to case 0.\<close>

definition jhash_last :: "u32 \<Rightarrow> u32 \<Rightarrow> u32 \<Rightarrow> bytes \<Rightarrow> u32" where
  "jhash_last a b c k = (let
     n = length k;
     c = (if 12 \<le> n then c + push_bit 24 (ucast (k ! 11)) else c);
     c = (if 11 \<le> n then c + push_bit 16 (ucast (k ! 10)) else c);
     c = (if 10 \<le> n then c + push_bit 8 (ucast (k ! 9)) else c);
     c = (if 9 \<le> n then c + ucast (k ! 8) else c);
     b = (if 8 \<le> n then b + push_bit 24 (ucast (k ! 7)) else b);
     b = (if 7 \<le> n then b + push_bit 16 (ucast (k ! 6)) else b);
     b = (if 6 \<le> n then b + push_bit 8 (ucast (k ! 5)) else b);
     b = (if 5 \<le> n then b + ucast (k ! 4) else b);
     a = (if 4 \<le> n then a + push_bit 24 (ucast (k ! 3)) else a);
     a = (if 3 \<le> n then a + push_bit 16 (ucast (k ! 2)) else a);
     a = (if 2 \<le> n then a + push_bit 8 (ucast (k ! 1)) else a)
   in if 1 \<le> n then jhash_final (a + ucast (k ! 0)) b c else c)"

function jhash_loop :: "u32 \<Rightarrow> u32 \<Rightarrow> u32 \<Rightarrow> bytes \<Rightarrow> u32" where
  "jhash_loop a b c k =
     (if 12 < length k
      then let a = a + ucast (k ! 0); b = b + ucast (k ! 4); c = c + ucast (k ! 8);
               (a, b, c) = jhash_mix a b c
           in jhash_loop a b c (drop 12 k)
      else jhash_last a b c k)"
  by pat_completeness auto
termination by (relation "measure (\<lambda>(a, b, c, k). length k)") auto

declare jhash_loop.simps [simp del]

definition jhash :: "bytes \<Rightarrow> u32 \<Rightarrow> u32" where
  "jhash key initval = (let a = GOLDEN_RATIO_32 + of_nat (length key) + initval in jhash_loop a a a key)"

section \<open>Changes that are always seen\<close>

lemma rotl32_cancel [undo]: "0 < r \<Longrightarrow> r < 32 \<Longrightarrow> rotl32 x r = rotl32 y r \<longleftrightarrow> x = y"
  using rotl_cancel [of r x y] by (simp add: rotl32_def)

lemma fmix32_cancel: "fmix32 x = fmix32 y \<longleftrightarrow> x = y"
  by (simp add: fmix32_def Let_def xorshift_cancel mult_cancel_inverse [of "0x85ebca6b" "0xa5cb9243"]
      mult_cancel_inverse [of "0xc2b2ae35" "0x7ed1b41d"])

lemmas murmur_consts = mult_cancel_inverse [of "0xcc9e2d51" "0xdee13bb1"] mult_cancel_inverse [of "0x1b873593" "0x56ed309b"]
  mult_cancel_inverse [of 5 "0xcccccccd"]

lemma murmur3_block_cancel:
  "murmur3_block 0xcc9e2d51 0x1b873593 h k = murmur3_block 0xcc9e2d51 0x1b873593 h' k \<longleftrightarrow> h = h'"
  "murmur3_block 0xcc9e2d51 0x1b873593 h k = murmur3_block 0xcc9e2d51 0x1b873593 h k' \<longleftrightarrow> k = k'"
  by (simp_all add: murmur3_block_def Let_def murmur_consts rotl32_cancel xor_cancel)

lemma and_3: "unat (w AND 3) = unat w mod 4" for w :: u32
  using unat_and_mask [of w 2] by (simp add: mask_eq_exp_minus_1)

lemma murmur3_tail_word:
  assumes "unat len mod 4 = length t"
  shows "murmur3_tail t len c1 c2 h = fmix32 ((if t = [] then h else h XOR rotl32 (le_word t * c1) 15 * c2) XOR len)"
proof -
  have "length t < 4" using assms by (metis mod_less_divisor zero_less_numeral)
  then consider "t = []" | x where "t = [x]" | x y where "t = [x, y]" | x y z where "t = [x, y, z]"
    by (auto simp: numeral_eq_Suc less_Suc_eq length_Suc_conv)
  then show ?thesis
  proof cases
    case 1
    then have "len AND 3 = 0" using assms by (intro word_unat_eqI) (simp add: and_3)
    then show ?thesis using 1 by (simp add: murmur3_tail_def)
  next
    case 2
    then have "len AND 3 = 1" using assms by (intro word_unat_eqI) (simp add: and_3)
    then show ?thesis using 2 by (simp add: murmur3_tail_def)
  next
    case 3
    then have "len AND 3 = 2" using assms by (intro word_unat_eqI) (simp add: and_3)
    then show ?thesis using 3 by (simp add: murmur3_tail_def xor.commute)
  next
    case 4
    then have "len AND 3 = 3" using assms by (intro word_unat_eqI) (simp add: and_3)
    then show ?thesis using 4 by (simp add: murmur3_tail_def push_bit_xor ac_simps)
  qed
qed

lemma foldl_absorb:
  assumes "0 < B"
  shows "foldl (\<lambda>s i. f s (take B (drop (B * i) m))) s [0..<length m div B] = fst (absorb B f s m)"
proof (induction "length m" arbitrary: s m rule: less_induct)
  case less
  show ?case
  proof (cases "length m < B")
    case True
    then show ?thesis by (simp add: absorb_short)
  next
    case False
    have d: "length m div B = Suc ((length m - B) div B)" using False assms by (simp add: le_div_geq)
    have "foldl (\<lambda>s i. f s (take B (drop (B * i) m))) s [0..<length m div B] =
        foldl (\<lambda>s i. f s (take B (drop (B * i) (drop B m)))) (f s (take B m)) [0..<length (drop B m) div B]"
      unfolding d by (simp add: upt_conv_Cons foldl_map flip: map_Suc_upt del: upt_Suc) (simp add: add.commute)
    moreover have "length (drop B m) < length m" using False assms by (simp add: drop_shorter)
    ultimately show ?thesis using less [of "drop B m"] False assms by (simp add: absorb_step)
  qed
qed

lemma absorb_rest:
  assumes "0 < B"
  shows "snd (absorb B f s m) = drop (B * (length m div B)) m"
proof (induction "length m" arbitrary: s m rule: less_induct)
  case less
  show ?case
  proof (cases "length m < B")
    case True
    then show ?thesis by (simp add: absorb_short)
  next
    case False
    have d: "length m div B = Suc ((length m - B) div B)" using False assms by (simp add: le_div_geq)
    have "length (drop B m) < length m" using False assms by (simp add: drop_shorter)
    then show ?thesis using less [of "drop B m"] False assms unfolding d by (simp add: absorb_step add.commute)
  qed
qed

lemma absorb_state_cancel:
  assumes "\<And>s s' b. f s b = f s' b \<Longrightarrow> s = s'" and "fst (absorb B f s m) = fst (absorb B f s' m)"
  shows "s = s'"
  using assms(2)
proof (induction "length m" arbitrary: s s' m rule: less_induct)
  case less
  show ?case
  proof (cases "B = 0 \<or> length m < B")
    case True
    then show ?thesis using less.prems by (simp add: absorb.simps [of B])
  next
    case False
    then have "length (drop B m) < length m" by (intro drop_shorter) simp_all
    moreover have "fst (absorb B f (f s (take B m)) (drop B m)) = fst (absorb B f (f s' (take B m)) (drop B m))"
      using less.prems False by (simp add: absorb_step)
    ultimately have "f s (take B m) = f s' (take B m)" by (rule less.hyps)
    then show ?thesis by (rule assms(1))
  qed
qed

abbreviation murmur_step :: "u32 \<Rightarrow> bytes \<Rightarrow> u32" where
  "murmur_step h b \<equiv> murmur3_block 0xcc9e2d51 0x1b873593 h (le_word b)"

lemma murmurhash3_absorb:
  assumes "length key < 2 ^ 31" and "absorb 4 murmur_step seed key = (h, t)"
  shows "murmurhash3 key seed = Some (fmix32 ((if t = [] then h else h XOR rotl32 (le_word t * 0xcc9e2d51) 15 * 0x1b873593)
    XOR of_nat (length key)))"
proof -
  have h: "h = foldl (\<lambda>s i. murmur_step s (take 4 (drop (4 * i) key))) seed [0..<length key div 4]"
    using foldl_absorb [of 4 murmur_step key seed] assms(2) by simp
  have t: "t = drop (4 * (length key div 4)) key" using absorb_rest [of 4 murmur_step seed key] assms(2) by simp
  have "length t = length key mod 4" using length_absorb_rest [of 4 murmur_step seed key] assms(2) by simp
  then have "unat (of_nat (length key) :: u32) mod 4 = length t" using assms(1) by (simp add: unat_of_nat32)
  moreover have "length key div 4 * 4 < 2147483648" using assms(1) by simp
  ultimately show ?thesis
    by (simp add: murmurhash3_def Let_def h [symmetric] t [symmetric] murmur3_tail_word)
qed

text \<open>
  Two keys of the same length below 2 GiB that differ in one aligned word only, or only in
  the bytes after the last whole word, have different murmur3 hashes.
\<close>

theorem murmurhash3_word_change:
  assumes "length a mod 4 = 0" and "length b = length b'" and "b \<noteq> b'"
    and "length b = 4 \<or> length b < 4 \<and> c = []" and "length (a @ b @ c) < 2 ^ 31"
  shows "murmurhash3 (a @ b @ c) seed \<noteq> murmurhash3 (a @ b' @ c) seed"
proof -
  obtain h where h: "absorb 4 murmur_step seed a = (h, [])"
    using length_absorb_rest [of 4 murmur_step seed a] assms(1) by (cases "absorb 4 murmur_step seed a") simp
  have app: "absorb 4 murmur_step seed (a @ m) = absorb 4 murmur_step h m" for m
    using absorb_append [of 4 murmur_step seed a m] h by simp
  have len: "length (a @ b' @ c) < 2 ^ 31" using assms(2,5) by simp
  show ?thesis
  proof (cases "length b = 4")
    case True
    have word: "(le_word b :: u32) \<noteq> le_word b'" using le_word_inj [of b b', where 'a = 32] assms(2,3) True by auto
    have step: "absorb 4 murmur_step h (x @ c) = absorb 4 murmur_step (murmur_step h x) c" if "length x = 4" for x
      using that by (intro absorb_block) simp_all
    obtain h1 t1 where 1: "absorb 4 murmur_step (murmur_step h b) c = (h1, t1)" by fastforce
    obtain h2 t2 where 2: "absorb 4 murmur_step (murmur_step h b') c = (h2, t2)" by fastforce
    have t: "t1 = t2" using absorb_rest [of 4 murmur_step _ c] 1 2 by (metis snd_conv zero_less_numeral)
    have "h1 \<noteq> h2"
      using absorb_state_cancel [of murmur_step 4 "murmur_step h b" c "murmur_step h b'"] 1 2 word
      by (auto simp: murmur3_block_cancel)
    then show ?thesis
      using murmurhash3_absorb [OF assms(5), of seed h1 t1] murmurhash3_absorb [OF len, of seed h2 t2] 1 2 t assms(2) True
      by (auto simp: app step fmix32_cancel xor_cancel)
  next
    case False
    then have c: "c = []" "length b < 4" using assms(4) by auto
    have ne: "b \<noteq> []" "b' \<noteq> []" using assms(2,3) by auto
    have "(le_word b :: u32) \<noteq> le_word b'" using le_word_inj [of b b', where 'a = 32] assms(2,3) c by auto
    moreover have "absorb 4 murmur_step h b = (h, b)" "absorb 4 murmur_step h b' = (h, b')"
      using c assms(2) by (simp_all add: absorb_short)
    ultimately show ?thesis
      using murmurhash3_absorb [OF assms(5), of seed h b] murmurhash3_absorb [OF len, of seed h b'] c assms(2) ne
      by (simp add: app fmix32_cancel xor_cancel murmur_consts rotl32_cancel)
  qed
qed

theorem murmurhash3_word_change_witness:
  "murmurhash3 ([1, 2, 3, 4] @ [5, 6, 7, 8] @ [9]) 0 \<noteq> murmurhash3 ([1, 2, 3, 4] @ [5, 6, 7, 0] @ [9]) 0"
  using murmurhash3_word_change [of "[1, 2, 3, 4]" "[5, 6, 7, 8]" "[5, 6, 7, 0]" "[9]" 0] by simp

lemma fnv_prime_cancel: "x * FNV_PRIME = y * FNV_PRIME \<longleftrightarrow> x = y"
  unfolding FNV_PRIME_def by (rule mult_cancel_inverse [of _ "0xce965057aff6957b"]) simp

lemma fnv_step: "length b = 8 \<Longrightarrow> fnv (b @ m) h = fnv m (h * FNV_PRIME XOR le_word b)"
  by (subst fnv.simps) (auto simp: Let_def)

lemma fnv_append: "length a mod 8 = 0 \<Longrightarrow> fnv (a @ m) h = fnv m (fnv a h)"
proof (induction "length a" arbitrary: a h rule: less_induct)
  case less
  show ?case
  proof (cases "a = []")
    case True
    then show ?thesis by (simp add: fnv.simps [of "[]"])
  next
    case False
    then have l: "8 \<le> length a" using less.prems by (metis dvd_imp_le length_greater_0_conv mod_0_imp_dvd)
    then have split: "a = take 8 a @ drop 8 a" "length (take 8 a) = 8" by simp_all
    have "length (drop 8 a) mod 8 = 0" using less.prems l by (simp add: le_mod_geq)
    then have "fnv (drop 8 a @ m) g = fnv m (fnv (drop 8 a) g)" for g using less.hyps [of "drop 8 a"] l by simp
    then have "fnv (take 8 a @ drop 8 a @ m) h = fnv m (fnv (take 8 a @ drop 8 a) h)"
      by (simp only: fnv_step [OF split(2)])
    then show ?thesis by (simp only: append_take_drop_id flip: append_assoc)
  qed
qed

lemma fnv_cancel: "fnv m x = fnv m y \<Longrightarrow> x = y"
proof (induction m x arbitrary: y rule: fnv.induct)
  case (1 m x)
  show ?case
  proof (cases "8 \<le> length m")
    case True
    then have "m \<noteq> []" by auto
    then have step: "fnv m z = fnv (drop 8 m) (z * FNV_PRIME XOR le_word (take 8 m))" for z
      using True by (simp add: fnv.simps [of m] Let_def)
    have "x * FNV_PRIME XOR le_word (take 8 m) = y * FNV_PRIME XOR le_word (take 8 m)"
      using 1(1) [OF \<open>m \<noteq> []\<close> refl True] 1(2) unfolding step by blast
    then show ?thesis by (simp add: xor_cancel fnv_prime_cancel)
  next
    case False
    then show ?thesis
      using 1(2) by (cases "m = []") (simp_all add: fnv.simps [of m] fnv.simps [of "[]"] Let_def xor_cancel fnv_prime_cancel)
  qed
qed

lemma fnv_tail_be_word: "fnv_tail ds = be_word ds"
proof (induction ds rule: rev_induct)
  case (snoc d ds)
  have "push_bit 8 w OR ucast d = ucast d XOR push_bit 8 w" for w :: u64
    by (rule bit_word_eqI) (auto simp: bit_simps)
  then show ?case using snoc by (simp add: fnv_tail_def be_word_def)
qed (simp add: fnv_tail_def be_word_def)

text \<open>
  Two buffers of the same length that differ in one aligned 64-bit word only, or only in the
  bytes after the last whole word, have different fnv hashes.
\<close>

theorem fnv_word_change:
  assumes "length a mod 8 = 0" and "length b = length b'" and "b \<noteq> b'"
    and "length b = 8 \<or> length b < 8 \<and> c = []"
  shows "fnv (a @ b @ c) h \<noteq> fnv (a @ b' @ c) h"
proof (cases "length b = 8")
  case True
  then have "(le_word b :: u64) \<noteq> le_word b'" using le_word_inj [of b b', where 'a = 64] assms(2,3) by auto
  moreover have "fnv (a @ x @ c) h = fnv c (fnv a h * FNV_PRIME XOR le_word x)" if "length x = 8" for x
    using that assms(1) by (simp add: fnv_append [OF assms(1)] fnv_step)
  ultimately show ?thesis
    using fnv_cancel True assms(2) by (metis xor_cancel(2))
next
  case False
  then have c: "c = []" "length b < 8" using assms(4) by auto
  have ne: "b \<noteq> []" "b' \<noteq> []" using assms(2,3) by auto
  have "(be_word b :: u64) \<noteq> be_word b'"
    using le_word_inj [of "rev b" "rev b'", where 'a = 64] assms(2,3) c by (auto simp: be_word_def)
  then show ?thesis
    using c ne assms(1,2) by (simp add: fnv_append fnv.simps [of b] fnv.simps [of b'] Let_def fnv_tail_be_word xor_cancel)
qed

theorem fnv_word_change_witness: "fnv ([] @ [1, 2, 3] @ []) 5 \<noteq> fnv ([] @ [1, 2, 4] @ []) 5"
  using fnv_word_change [of "[]" "[1, 2, 3]" "[1, 2, 4]" "[]" 5] by simp

text \<open>
  All but the last block of a key of more than 12 bytes enter jhash with one byte in four only: the
  other nine bytes of such a block can be anything. (A comment announces that the block affects 32 bits.)
\<close>

theorem jhash_ignores_bytes:
  assumes "length a mod 12 = 0" and "length b = 12" and "length b' = 12" and "c \<noteq> []"
    and "b ! 0 = b' ! 0" and "b ! 4 = b' ! 4" and "b ! 8 = b' ! 8"
  shows "jhash (a @ b @ c) iv = jhash (a @ b' @ c) iv"
proof -
  have block: "jhash_loop x y z (b @ c) = jhash_loop x y z (b' @ c)" for x y z
    using assms(2-) by (subst (1 2) jhash_loop.simps) (simp add: nth_append Let_def)
  have "jhash_loop x y z (a @ b @ c) = jhash_loop x y z (a @ b' @ c)" for x y z
    using assms(1)
  proof (induction "length a" arbitrary: a x y z rule: less_induct)
    case less
    show ?case
    proof (cases "a = []")
      case True
      then show ?thesis using block by simp
    next
      case False
      then have l: "12 \<le> length a" using less.prems by (metis dvd_imp_le length_greater_0_conv mod_0_imp_dvd)
      have "length (drop 12 a) mod 12 = 0" using less.prems l by (simp add: le_mod_geq)
      then have "jhash_loop x y z (drop 12 a @ b @ c) = jhash_loop x y z (drop 12 a @ b' @ c)" for x y z
        using less.hyps [of "drop 12 a"] l by simp
      moreover have "jhash_loop x y z (a @ m) = (case jhash_mix (x + ucast (a ! 0)) (y + ucast (a ! 4)) (z + ucast (a ! 8)) of
          (x, y, z) \<Rightarrow> jhash_loop x y z (drop 12 a @ m))" if "m \<noteq> []" for m
      proof -
        have "0 < length m" using that by simp
        then have "12 < length (a @ m)" using l unfolding length_append by linarith
        moreover have "(a @ m) ! 0 = a ! 0" "(a @ m) ! 4 = a ! 4" "(a @ m) ! 8 = a ! 8" "drop 12 (a @ m) = drop 12 a @ m"
          using l False by (simp_all add: nth_append)
        ultimately show ?thesis by (subst jhash_loop.simps) (simp add: Let_def)
      qed
      ultimately show ?thesis using assms(4) by simp
    qed
  qed
  then show ?thesis using assms(2,3) by (simp add: jhash_def Let_def)
qed

theorem jhash_ignores_bytes_witness:
  "jhash ([] @ [1, 2, 3, 4, 5, 6, 7, 8, 9, 10, 11, 12] @ [13]) 0 = jhash ([] @ [1, 0, 0, 0, 5, 0, 0, 0, 9, 0, 0, 0] @ [13]) 0"
  using jhash_ignores_bytes [of "[]" "[1, 2, 3, 4, 5, 6, 7, 8, 9, 10, 11, 12]" "[1, 0, 0, 0, 5, 0, 0, 0, 9, 0, 0, 0]" "[13]" 0]
  by simp

end
