(* ===== verification/Crc32c_Arm64.thy ===== *)
theory Crc32c_Arm64
  imports Crc_Funs
begin

text \<open>
  \<^verbatim>\<open>crc/crc32c-arm64.c\<close>, the version the arm64 build uses: blocks of 1024 bytes are split into three
  streams that the \<^verbatim>\<open>crc32cd\<close> instruction processes in parallel and that two carry-less multiplications
  with precomputed constants join again. The instructions \<^verbatim>\<open>__crc32cb/h/w/d\<close> and \<^verbatim>\<open>vmull_p64\<close> are defined
  as the architecture does: the former by the bytes of their operand, least significant first. The
  result is shown to equal the table-driven \<^verbatim>\<open>crc32c_sw\<close> on every buffer; the constants are checked by
  following one basis vector of the register through the zero bits it has to skip.
\<close>

section \<open>Instructions\<close>

abbreviation crc32c_poly :: u32 where
  "crc32c_poly \<equiv> 0x82f63b78"

definition crc32cb :: "u32 \<Rightarrow> u8 \<Rightarrow> u32" where
  "crc32cb crc v = rbyte_step crc32c_poly crc v"

definition crc32ch :: "u32 \<Rightarrow> u16 \<Rightarrow> u32" where
  "crc32ch crc v = foldl (rbyte_step crc32c_poly) crc (le_bytes 2 v)"

definition crc32cw :: "u32 \<Rightarrow> u32 \<Rightarrow> u32" where
  "crc32cw crc v = foldl (rbyte_step crc32c_poly) crc (le_bytes 4 v)"

definition crc32cd :: "u32 \<Rightarrow> u64 \<Rightarrow> u32" where
  "crc32cd crc v = foldl (rbyte_step crc32c_poly) crc (le_bytes 8 v)"

fun vmull_loop :: "nat list \<Rightarrow> u64 \<Rightarrow> u64 \<Rightarrow> 128 word" where
  "vmull_loop [] a b = 0"
| "vmull_loop (i # is) a b = (if bit a i then push_bit i (ucast b) else 0) XOR vmull_loop is a b"

definition vmull_p64 :: "u64 \<Rightarrow> u64 \<Rightarrow> 128 word" where
  "vmull_p64 a b = vmull_loop [0..<64] a b"

section \<open>Definitions\<close>

text \<open>A checked load of the \<open>k\<close>-th word of \<open>n\<close> bytes.\<close>

definition load :: "nat \<Rightarrow> bytes \<Rightarrow> nat \<Rightarrow> 'a::len word option" where
  "load n data k = (if n * k + n \<le> length data then Some (le_word (take n (drop (n * k) data))) else None)"

definition CRC32C3X8 :: "bytes \<Rightarrow> nat \<Rightarrow> u32 \<times> u32 \<times> u32 \<Rightarrow> (u32 \<times> u32 \<times> u32) option" where
  "CRC32C3X8 data itr = (\<lambda>(crc0, crc1, crc2). do {
     d1 \<leftarrow> load 8 data (42 * 1 + itr);
     let crc1 = crc32cd crc1 d1;
     d2 \<leftarrow> load 8 data (42 * 2 + itr);
     let crc2 = crc32cd crc2 d2;
     d0 \<leftarrow> load 8 data (42 * 0 + itr);
     let crc0 = crc32cd crc0 d0;
     Some (crc0, crc1, crc2)
   })"

fun CRC32C_run :: "bytes \<Rightarrow> nat list \<Rightarrow> u32 \<times> u32 \<times> u32 \<Rightarrow> (u32 \<times> u32 \<times> u32) option" where
  "CRC32C_run data [] c = Some c"
| "CRC32C_run data (itr # itrs) c = do { c \<leftarrow> CRC32C3X8 data itr c; CRC32C_run data itrs c }"

definition CRC32C7X3X8 :: "bytes \<Rightarrow> nat \<Rightarrow> u32 \<times> u32 \<times> u32 \<Rightarrow> (u32 \<times> u32 \<times> u32) option" where
  "CRC32C7X3X8 data itr c = CRC32C_run data [itr * 7 + 0, itr * 7 + 1, itr * 7 + 2, itr * 7 + 3,
     itr * 7 + 4, itr * 7 + 5, itr * 7 + 6] c"

definition k1 :: u64 where "k1 = 0xe417f38a"
definition k2 :: u64 where "k2 = 0x8f158014"

text \<open>One iteration of the loop over blocks of 1024 bytes.\<close>

definition crc32c_block :: "u32 \<Rightarrow> bytes \<Rightarrow> u32 option" where
  "crc32c_block crc data = do {
     d \<leftarrow> load 8 data 0;
     let data = drop 8 data;
     c \<leftarrow> CRC32C7X3X8 data 0 (crc32cd crc d, 0, 0);
     c \<leftarrow> CRC32C7X3X8 data 1 c;
     c \<leftarrow> CRC32C7X3X8 data 2 c;
     c \<leftarrow> CRC32C7X3X8 data 3 c;
     c \<leftarrow> CRC32C7X3X8 data 4 c;
     (crc0, crc1, crc2) \<leftarrow> CRC32C7X3X8 data 5 c;
     let data = drop (42 * 3 * 8) data;
     let t1 = (ucast (vmull_p64 (ucast crc1) k2) :: u64);
     let t0 = (ucast (vmull_p64 (ucast crc0) k1) :: u64);
     d \<leftarrow> load 8 data 0;
     let crc = crc32cd crc2 d;
     let crc = crc XOR crc32cd 0 t1;
     Some (crc XOR crc32cd 0 t0)
   }"

function crc32c_blocks :: "u32 \<Rightarrow> bytes \<Rightarrow> (u32 \<times> bytes) option" where
  "crc32c_blocks crc data =
     (if 1024 \<le> length data
      then do { crc \<leftarrow> crc32c_block crc data; crc32c_blocks crc (drop 1024 data) }
      else Some (crc, data))"
  by pat_completeness auto
termination by (relation "measure (\<lambda>(crc, data). length data)") auto

declare crc32c_blocks.simps [simp del]

function crc32c_dwords :: "u32 \<Rightarrow> bytes \<Rightarrow> (u32 \<times> bytes) option" where
  "crc32c_dwords crc data =
     (if 8 \<le> length data
      then do { d \<leftarrow> load 8 data 0; crc32c_dwords (crc32cd crc d) (drop 8 data) }
      else Some (crc, data))"
  by pat_completeness auto
termination by (relation "measure (\<lambda>(crc, data). length data)") auto

declare crc32c_dwords.simps [simp del]

text \<open>
  The rest: after the loop \<^verbatim>\<open>len\<close> is the number of bytes left minus 8, so its bits 2, 1 and 0 are those of
  the number of bytes left.
\<close>

definition crc32c_tail :: "u32 \<Rightarrow> bytes \<Rightarrow> u32 option" where
  "crc32c_tail crc data = do {
     let len = length data;
     (crc, data) \<leftarrow> (if bit len 2 then do { d \<leftarrow> load 4 data 0; Some (crc32cw crc d, drop 4 data) }
                    else Some (crc, data));
     (crc, data) \<leftarrow> (if bit len 1 then do { d \<leftarrow> load 2 data 0; Some (crc32ch crc d, drop 2 data) }
                    else Some (crc, data));
     if bit len 0 then do { d \<leftarrow> load 1 data 0; Some (crc32cb crc d) } else Some crc
   }"

definition crc32c_arm64 :: "bytes \<Rightarrow> u32 option" where
  "crc32c_arm64 data = do {
     (crc, data) \<leftarrow> crc32c_blocks (NOT 0) data;
     if length data = 0 then Some crc
     else do {
       (crc, data) \<leftarrow> crc32c_dwords crc data;
       crc32c_tail crc data
     }
   }"

text \<open>The choice of \<^verbatim>\<open>crc32c.h\<close>; this build has no SSE version, whose name is \<^verbatim>\<open>crc32c_sw\<close>.\<close>

definition fio_crc32c :: "bool \<Rightarrow> bool \<Rightarrow> bytes \<Rightarrow> u32 option" where
  "fio_crc32c crc32c_arm64_available crc32c_intel_available buf =
     (if crc32c_arm64_available then crc32c_arm64 buf
      else if crc32c_intel_available then Some (crc32c_sw buf)
      else Some (crc32c_sw buf))"

section \<open>Instructions on bytes\<close>

abbreviation crc_bytes :: "u32 \<Rightarrow> bytes \<Rightarrow> u32" where
  "crc_bytes \<equiv> foldl (rbyte_step crc32c_poly)"

lemma crc32cd_le: "length ds = 8 \<Longrightarrow> crc32cd crc (le_word ds) = crc_bytes crc ds"
  using le_bytes_le_word [where 'a = 64 and ds = ds] by (simp add: crc32cd_def)

lemma crc32cw_le: "length ds = 4 \<Longrightarrow> crc32cw crc (le_word ds) = crc_bytes crc ds"
  using le_bytes_le_word [where 'a = 32 and ds = ds] by (simp add: crc32cw_def)

lemma crc32ch_le: "length ds = 2 \<Longrightarrow> crc32ch crc (le_word ds) = crc_bytes crc ds"
  using le_bytes_le_word [where 'a = 16 and ds = ds] by (simp add: crc32ch_def)

lemma crc32cb_le: "length ds = 1 \<Longrightarrow> crc32cb crc (le_word ds) = crc_bytes crc ds"
  by (cases ds) (auto simp: crc32cb_def)

lemma rbyte_xor: "rbyte_step p (s XOR t) (d XOR e) = rbyte_step p s d XOR rbyte_step p t e"
proof -
  have "(s XOR t) XOR ucast (d XOR e) = (s XOR ucast d) XOR (t XOR ucast e)" for s t :: "'b::len word"
    by (rule bit_word_eqI) (auto simp: bit_simps)
  then show ?thesis unfolding rbyte_step_def by (metis rbit_steps_xor)
qed

lemma crc_bytes_xor:
  "length ds = length es \<Longrightarrow>
    crc_bytes (s XOR t) (map2 (XOR) ds es) = crc_bytes s ds XOR crc_bytes t es"
  by (induction ds es arbitrary: s t rule: list_induct2) (simp_all add: rbyte_xor)

abbreviation T :: "u32 \<Rightarrow> u32" where
  "T \<equiv> rbit_step crc32c_poly"

text \<open>The start value goes through as many zero bits as there are data bits.\<close>

lemma crc_bytes_split: "crc_bytes s ds = (T ^^ (8 * length ds)) s XOR crc_bytes 0 ds"
proof (induction ds arbitrary: s)
  case (Cons d ds)
  have "rbyte_step crc32c_poly s d = (T ^^ 8) s XOR rbyte_step crc32c_poly 0 d"
    by (simp only: rbyte_step_def rbit_steps_xor xor.left_neutral)
  then have "crc_bytes s (d # ds) = (T ^^ (8 * length ds)) ((T ^^ 8) s XOR rbyte_step crc32c_poly 0 d) XOR crc_bytes 0 ds"
    using Cons.IH [of "rbyte_step crc32c_poly s d"] by simp
  also have "\<dots> = (T ^^ (8 * length ds)) ((T ^^ 8) s) XOR
      ((T ^^ (8 * length ds)) (rbyte_step crc32c_poly 0 d) XOR crc_bytes 0 ds)"
    by (simp only: rbit_steps_xor xor.assoc)
  also have "(T ^^ (8 * length ds)) ((T ^^ 8) s) = (T ^^ (8 * length (d # ds))) s"
  proof -
    have "8 * length (d # ds) = 8 * length ds + 8" by simp
    then show ?thesis by (simp only: funpow_add comp_apply)
  qed
  also have "(T ^^ (8 * length ds)) (rbyte_step crc32c_poly 0 d) XOR crc_bytes 0 ds = crc_bytes 0 (d # ds)"
    using Cons.IH [of "rbyte_step crc32c_poly 0 d"] by simp
  finally show ?case .
qed simp

section \<open>The three streams\<close>

lemma load_Some:
  "8 * k + 8 \<le> length data \<Longrightarrow> (load 8 data k :: u64 option) = Some (le_word (take 8 (drop (8 * k) data)))"
  by (simp add: load_def)

text \<open>\<open>seg data k n\<close>: \<open>n\<close> words of 8 bytes from word \<open>k\<close> on.\<close>

definition seg :: "bytes \<Rightarrow> nat \<Rightarrow> nat \<Rightarrow> bytes" where
  "seg data k n = take (8 * n) (drop (8 * k) data)"

lemma seg_Suc: "seg data k (Suc n) = seg data k n @ take 8 (drop (8 * (k + n)) data)"
proof -
  have "8 * Suc n = 8 * n + 8" "8 * n + 8 * k = 8 * (k + n)" by simp_all
  then show ?thesis by (simp only: seg_def take_add drop_drop)
qed

lemma CRC32C3X8_step:
  assumes "1008 \<le> length data" and "n < 42"
  shows "CRC32C3X8 data n (crc_bytes c0 (seg data 0 n), crc_bytes c1 (seg data 42 n), crc_bytes c2 (seg data 84 n)) =
    Some (crc_bytes c0 (seg data 0 (Suc n)), crc_bytes c1 (seg data 42 (Suc n)), crc_bytes c2 (seg data 84 (Suc n)))"
proof -
  have ld: "(load 8 data (k + n) :: u64 option) = Some (le_word (take 8 (drop (8 * (k + n)) data)))"
    "crc32cd c (le_word (take 8 (drop (8 * (k + n)) data)) :: u64) = crc_bytes c (take 8 (drop (8 * (k + n)) data))"
    if "k \<le> 84" for k c
  proof -
    have "k + n \<le> 125" using assms(2) that by simp
    then have fits: "8 * (k + n) + 8 \<le> length data" using assms(1) by simp
    then show "(load 8 data (k + n) :: u64 option) = Some (le_word (take 8 (drop (8 * (k + n)) data)))" by (rule load_Some)
    show "crc32cd c (le_word (take 8 (drop (8 * (k + n)) data)) :: u64) = crc_bytes c (take 8 (drop (8 * (k + n)) data))"
      by (rule crc32cd_le) (use fits in simp)
  qed
  show ?thesis
    using ld(1) [of 42] ld(1) [of 84] ld(1) [of 0] ld(2) [of 42] ld(2) [of 84] ld(2) [of 0]
    by (simp add: CRC32C3X8_def seg_Suc Let_def)
qed

lemma CRC32C_run_upto:
  assumes "1008 \<le> length data" and "a + m \<le> 42"
  shows "CRC32C_run data [a..<a + m]
      (crc_bytes c0 (seg data 0 a), crc_bytes c1 (seg data 42 a), crc_bytes c2 (seg data 84 a)) =
    Some (crc_bytes c0 (seg data 0 (a + m)), crc_bytes c1 (seg data 42 (a + m)), crc_bytes c2 (seg data 84 (a + m)))"
  using assms(2)
proof (induction m arbitrary: a)
  case (Suc m)
  have "[a..<a + Suc m] = a # [Suc a..<Suc a + m]" by (simp add: upt_conv_Cons)
  then show ?case using CRC32C3X8_step [OF assms(1), of a] Suc.IH [of "Suc a"] Suc.prems by simp
qed simp

lemma CRC32C7X3X8_upto:
  assumes "1008 \<le> length data" and "i < 6"
  shows "CRC32C7X3X8 data i
      (crc_bytes c0 (seg data 0 (7 * i)), crc_bytes c1 (seg data 42 (7 * i)), crc_bytes c2 (seg data 84 (7 * i))) =
    Some (crc_bytes c0 (seg data 0 (7 * Suc i)), crc_bytes c1 (seg data 42 (7 * Suc i)),
      crc_bytes c2 (seg data 84 (7 * Suc i)))"
proof -
  have "[i * 7 + 0, i * 7 + 1, i * 7 + 2, i * 7 + 3, i * 7 + 4, i * 7 + 5, i * 7 + 6] = [7 * i..<7 * i + 7]"
    by (simp add: upt_conv_Cons mult.commute)
  then show ?thesis
    using CRC32C_run_upto [OF assms(1), of "7 * i" 7 c0 c1 c2] assms(2)
    by (simp add: CRC32C7X3X8_def add.commute)
qed

section \<open>Linear maps on the register\<close>

lemma linear_eqI:
  fixes F G :: "u32 \<Rightarrow> u32"
  assumes F: "\<And>a b. F (a XOR b) = F a XOR F b" and G: "\<And>a b. G (a XOR b) = G a XOR G b"
    and basis: "\<And>i. i < 32 \<Longrightarrow> F (2 ^ i) = G (2 ^ i)"
  shows "F w = G w"
proof -
  have zero: "F 0 = 0" "G 0 = 0" using F [of 0 0] G [of 0 0] by simp_all
  have "F (take_bit n w) = G (take_bit n w)" if "n \<le> 32" for n
    using that
  proof (induction n)
    case (Suc n)
    have "take_bit (Suc n) w = take_bit n w XOR (if bit w n then 2 ^ n else 0)"
      by (rule bit_word_eqI) (auto simp: bit_simps bit_exp_iff less_Suc_eq)
    then show ?case using Suc F G basis zero by auto
  qed (simp add: zero)
  moreover have "take_bit 32 w = w" by (rule bit_word_eqI) (auto simp: bit_simps)
  ultimately show ?thesis by (metis order_refl)
qed

lemma vmull_loop_xor: "vmull_loop is (a XOR b) k = vmull_loop is a k XOR vmull_loop is b k"
proof (induction "is" a k rule: vmull_loop.induct)
  case (2 i "is" a k)
  have "(if bit (a XOR b) i then x else 0) = (if bit a i then x else 0) XOR (if bit b i then x else 0)"
    for x :: "128 word" by (simp add: bit_xor_iff)
  then show ?case using 2 by (simp only: vmull_loop.simps ac_simps)
qed simp

lemma vmull_loop_pow:
  "distinct is \<Longrightarrow> i < 64 \<Longrightarrow> vmull_loop is (2 ^ i) k = (if i \<in> set is then push_bit i (ucast k) else 0)"
  by (induction "is") (auto simp: bit_exp_iff)

lemma vmull_pow: "i < 64 \<Longrightarrow> vmull_p64 (2 ^ i) k = push_bit i (ucast k)"
  unfolding vmull_p64_def by (subst vmull_loop_pow) simp_all

definition fold_const :: "u64 \<Rightarrow> u32 \<Rightarrow> u32" where
  "fold_const k x = crc32cd 0 (ucast (vmull_p64 (ucast x) k))"

lemma le_bytes_xor: "le_bytes n (v XOR w) = map2 (XOR) (le_bytes n v) (le_bytes n w)"
proof (rule nth_equalityI)
  fix i
  assume "i < length (le_bytes n (v XOR w))"
  then have i: "i < n" by simp
  have "(ucast (drop_bit (8 * i) (v XOR w)) :: u8) = ucast (drop_bit (8 * i) v) XOR ucast (drop_bit (8 * i) w)"
    by (rule bit_word_eqI) (auto simp: bit_simps)
  then show "le_bytes n (v XOR w) ! i = map2 (XOR) (le_bytes n v) (le_bytes n w) ! i"
    using i by (simp add: nth_le_bytes)
qed simp

lemma fold_const_xor: "fold_const k (a XOR b) = fold_const k a XOR fold_const k b"
proof -
  have "(ucast (a XOR b) :: u64) = ucast a XOR ucast b" by (rule bit_word_eqI) (auto simp: bit_simps)
  then have "vmull_p64 (ucast (a XOR b)) k = vmull_p64 (ucast a) k XOR vmull_p64 (ucast b) k"
    by (simp only: vmull_p64_def vmull_loop_xor)
  moreover have "(ucast (v XOR w) :: u64) = ucast v XOR ucast w" for v w :: "128 word"
    by (rule bit_word_eqI) (auto simp: bit_simps)
  ultimately have "(ucast (vmull_p64 (ucast (a XOR b)) k) :: u64) =
      ucast (vmull_p64 (ucast a) k) XOR ucast (vmull_p64 (ucast b) k)" by (simp only:)
  then show ?thesis
    using crc_bytes_xor [of "le_bytes 8 (ucast (vmull_p64 (ucast a) k) :: u64)"
        "le_bytes 8 (ucast (vmull_p64 (ucast b) k) :: u64)" 0 0]
    by (simp add: fold_const_def crc32cd_def le_bytes_xor)
qed

section \<open>The folding constants\<close>

text \<open>The register on naturals, \<open>n\<close> steps from \<open>x\<close>.\<close>

fun nat_iter :: "nat \<Rightarrow> nat \<Rightarrow> nat \<Rightarrow> nat" where
  "nat_iter p 0 x = x"
| "nat_iter p (Suc n) x = nat_iter p n (nat_rstep p x)"

lemma nat_iter_numeral: "nat_iter p (numeral k) x = nat_iter p (pred_numeral k) (nat_rstep p x)"
  by (simp add: numeral_eq_Suc)

lemma unat_rbit_funpow: "unat ((rbit_step p ^^ n) w) = nat_iter (unat p) n (unat w)"
proof (induction n arbitrary: w)
  case (Suc n)
  have "unat ((rbit_step p ^^ Suc n) w) = nat_iter (unat p) n (unat (rbit_step p w))"
    using Suc.IH [of "rbit_step p w"] by (simp only: funpow_Suc_right comp_apply)
  then show ?case by (simp only: unat_rbit_step nat_iter.simps)
qed simp

text \<open>
  Many steps at once: \<open>hmul\<close> combines the images of the basis vectors, so the image of \<open>w\<close> under \<open>n\<close>
  steps follows from that of the top basis vector.
\<close>

fun hmul :: "nat \<Rightarrow> u32 \<Rightarrow> u32 \<Rightarrow> u32 \<Rightarrow> u32" where
  "hmul 0 w v acc = acc"
| "hmul (Suc i) w v acc = hmul i w (T v) (if bit w i then acc XOR v else acc)"

fun nat_hmul :: "nat \<Rightarrow> nat \<Rightarrow> nat \<Rightarrow> nat \<Rightarrow> nat \<Rightarrow> nat" where
  "nat_hmul p 0 w v acc = acc"
| "nat_hmul p (Suc i) w v acc = nat_hmul p i w (nat_rstep p v) (if bit w i then acc XOR v else acc)"

lemma nat_hmul_numeral:
  "nat_hmul p (numeral k) w v acc = nat_hmul p (pred_numeral k) w (nat_rstep p v)
    (if bit w (pred_numeral k) then acc XOR v else acc)"
  by (simp add: numeral_eq_Suc)

lemma unat_hmul: "unat (hmul k w v acc) = nat_hmul (unat crc32c_poly) k (unat w) (unat v) (unat acc)"
proof (induction k arbitrary: v acc)
  case (Suc k)
  show ?case
    by (simp only: hmul.simps nat_hmul.simps Suc.IH unat_rbit_step bit_word_nat if_distrib [of unat]
        unsigned_xor_eq)
qed simp

lemma T_pow2: "0 < i \<Longrightarrow> i < 32 \<Longrightarrow> T (2 ^ i) = 2 ^ (i - 1)"
  by (rule bit_word_eqI) (auto simp: bit_rbit_step bit_exp_iff)

lemma hmul_steps:
  "k \<le> 32 \<Longrightarrow> hmul k w ((T ^^ n) (2 ^ (k - 1))) acc = acc XOR (T ^^ n) (take_bit k w)"
proof (induction k arbitrary: acc)
  case 0
  have "(T ^^ n) 0 = 0" by (induction n) (simp_all add: rbit_step_def)
  then show ?case by simp
next
  case (Suc i)
  have "take_bit (Suc i) w = take_bit i w XOR (if bit w i then 2 ^ i else 0)"
    by (rule bit_word_eqI) (auto simp: bit_simps bit_exp_iff less_Suc_eq)
  moreover have "(T ^^ n) 0 = 0" by (induction n) (simp_all add: rbit_step_def)
  ultimately have split: "(T ^^ n) (take_bit (Suc i) w) =
      (T ^^ n) (take_bit i w) XOR (if bit w i then (T ^^ n) (2 ^ i) else 0)"
    by (simp add: rbit_steps_xor)
  show ?case
  proof (cases i)
    case 0
    then show ?thesis using split by (simp add: \<open>(T ^^ n) 0 = 0\<close>)
  next
    case (Suc j)
    have "T ((T ^^ n) (2 ^ i)) = (T ^^ n) (2 ^ (i - 1))"
      using T_pow2 [of i] Suc Suc.prems by (simp add: funpow_swap1)
    then show ?thesis using Suc.IH Suc.prems split by (simp add: ac_simps)
  qed
qed

lemma steps_hmul: "(T ^^ n) w = hmul 32 w ((T ^^ n) (2 ^ 31)) 0"
proof -
  have "take_bit 32 w = w" by (rule bit_word_eqI) (auto simp: bit_simps)
  then show ?thesis using hmul_steps [of 32 w n 0] by simp
qed

lemma pow_add:
  assumes "unat ((T ^^ a) (2 ^ 31)) = x" and "unat ((T ^^ b) (2 ^ 31)) = y" and "nat_hmul (unat crc32c_poly) 32 y x 0 = z"
  shows "unat ((T ^^ (a + b)) (2 ^ 31)) = z"
proof -
  have "(T ^^ (a + b)) (2 ^ 31) = hmul 32 ((T ^^ b) (2 ^ 31)) ((T ^^ a) (2 ^ 31)) 0"
    using steps_hmul [of a "(T ^^ b) (2 ^ 31)"] by (simp only: funpow_add comp_apply)
  then have "unat ((T ^^ (a + b)) (2 ^ 31)) = nat_hmul (unat crc32c_poly) 32 y x (unat (0 :: u32))"
    by (simp only: unat_hmul assms(1,2))
  then show ?thesis using assms(3) by simp
qed

lemma unat_poly: "unat crc32c_poly = 0x82f63b78"
  by simp

lemma hmul_values:
  "nat_hmul 0x82f63b78 32 2197175160 2197175160 0 = 1856165212"
  "nat_hmul 0x82f63b78 32 1856165212 1856165212 0 = 414771736"
  "nat_hmul 0x82f63b78 32 414771736 414771736 0 = 1359660442"
  "nat_hmul 0x82f63b78 32 1359660442 1359660442 0 = 3089885525"
  "nat_hmul 0x82f63b78 32 3089885525 3089885525 0 = 3103633895"
  "nat_hmul 0x82f63b78 32 3103633895 3103633895 0 = 2296737650"
  "nat_hmul 0x82f63b78 32 2296737650 2296737650 0 = 1958961316"
  "nat_hmul 0x82f63b78 32 3089885525 2296737650 0 = 2419106972"
  "nat_hmul 0x82f63b78 32 414771736 2419106972 0 = 2113533461"
  "nat_hmul 0x82f63b78 32 1856165212 2113533461 0 = 3510814469"
  "nat_hmul 0x82f63b78 32 3103633895 1958961316 0 = 3026809423"
  "nat_hmul 0x82f63b78 32 1359660442 3026809423 0 = 649687713"
  "nat_hmul 0x82f63b78 32 1856165212 649687713 0 = 646291447"
  by (simp_all add: nat_hmul_numeral nat_rstep_def bit_0)

lemma skip_values:
  "unat ((T ^^ 2752) (2 ^ 31)) = 0xd142c705" "unat ((T ^^ 5440) (2 ^ 31)) = 0x26859ff7"
proof -
  note add = pow_add [unfolded unat_poly]
  have "unat ((T ^^ 32) (2 ^ 31)) = nat_iter 0x82f63b78 32 2147483648"
    unfolding unat_rbit_funpow by simp
  then have v32: "unat ((T ^^ 32) (2 ^ 31)) = 2197175160"
    by (simp add: nat_iter_numeral nat_rstep_def)
  have v64: "unat ((T ^^ 64) (2 ^ 31)) = 1856165212"
    using add [OF v32 v32 hmul_values(1)] by (simp only: numeral_plus_numeral add_num_simps)
  have v128: "unat ((T ^^ 128) (2 ^ 31)) = 414771736"
    using add [OF v64 v64 hmul_values(2)] by (simp only: numeral_plus_numeral add_num_simps)
  have v256: "unat ((T ^^ 256) (2 ^ 31)) = 1359660442"
    using add [OF v128 v128 hmul_values(3)] by (simp only: numeral_plus_numeral add_num_simps)
  have v512: "unat ((T ^^ 512) (2 ^ 31)) = 3089885525"
    using add [OF v256 v256 hmul_values(4)] by (simp only: numeral_plus_numeral add_num_simps)
  have v1024: "unat ((T ^^ 1024) (2 ^ 31)) = 3103633895"
    using add [OF v512 v512 hmul_values(5)] by (simp only: numeral_plus_numeral add_num_simps)
  have v2048: "unat ((T ^^ 2048) (2 ^ 31)) = 2296737650"
    using add [OF v1024 v1024 hmul_values(6)] by (simp only: numeral_plus_numeral add_num_simps)
  have v4096: "unat ((T ^^ 4096) (2 ^ 31)) = 1958961316"
    using add [OF v2048 v2048 hmul_values(7)] by (simp only: numeral_plus_numeral add_num_simps)
  have v2560: "unat ((T ^^ 2560) (2 ^ 31)) = 2419106972"
    using add [OF v2048 v512 hmul_values(8)] by (simp only: numeral_plus_numeral add_num_simps)
  have v2688: "unat ((T ^^ 2688) (2 ^ 31)) = 2113533461"
    using add [OF v2560 v128 hmul_values(9)] by (simp only: numeral_plus_numeral add_num_simps)
  have v2752: "unat ((T ^^ 2752) (2 ^ 31)) = 3510814469"
    using add [OF v2688 v64 hmul_values(10)] by (simp only: numeral_plus_numeral add_num_simps)
  have v5120: "unat ((T ^^ 5120) (2 ^ 31)) = 3026809423"
    using add [OF v4096 v1024 hmul_values(11)] by (simp only: numeral_plus_numeral add_num_simps)
  have v5376: "unat ((T ^^ 5376) (2 ^ 31)) = 649687713"
    using add [OF v5120 v256 hmul_values(12)] by (simp only: numeral_plus_numeral add_num_simps)
  have v5440: "unat ((T ^^ 5440) (2 ^ 31)) = 646291447"
    using add [OF v5376 v64 hmul_values(13)] by (simp only: numeral_plus_numeral add_num_simps)
  show "unat ((T ^^ 2752) (2 ^ 31)) = 0xd142c705" by (rule v2752)
  show "unat ((T ^^ 5440) (2 ^ 31)) = 0x26859ff7" by (rule v5440)
qed

text \<open>
  The same steps on a register of 64 bits: \<^verbatim>\<open>crc32cd\<close> is 64 of them, so shifting its operand right by
  one is one more step.
\<close>

abbreviation T64 :: "u64 \<Rightarrow> u64" where
  "T64 \<equiv> rbit_step (ucast crc32c_poly)"

lemma rbit_step_ucast: "rbit_step (ucast p) (ucast w :: u64) = ucast (rbit_step (p :: u32) w)"
  by (rule bit_word_eqI) (auto simp: bit_rbit_step bit_simps dest: bit_imp_le_length)

lemma T64_ucast: "T64 (ucast w) = ucast (T w)"
  by (rule rbit_step_ucast)

lemma ucast_ucast_u32: "(ucast (ucast (v :: u32) :: u64) :: u32) = v"
  by (rule bit_word_eqI) (auto simp: bit_simps)

lemma ucast_32_64_inj: "(ucast (v :: u32) :: u64) = ucast w \<longleftrightarrow> v = w"
  by (metis ucast_ucast_u32)

lemma T64_funpow_ucast: "(T64 ^^ n) (ucast w) = ucast ((T ^^ n) w)"
  by (induction n) (simp_all only: funpow.simps id_apply comp_apply T64_ucast)

lemma T64_byte:
  "(T64 ^^ 8) (ucast s XOR v) = ucast (rbyte_step crc32c_poly s (ucast v)) XOR drop_bit 8 v"
proof -
  let ?hi = "push_bit 8 (drop_bit 8 v)" and ?lo = "ucast (s XOR ucast (ucast v :: u8)) :: u64"
  have "ucast s XOR v = ?lo XOR ?hi"
    by (rule bit_word_eqI) (auto simp: bit_simps)
  moreover have "take_bit 8 ?hi = 0" by (rule bit_word_eqI) (auto simp: bit_simps)
  then have "(T64 ^^ 8) ?hi = drop_bit 8 ?hi" by (rule rbit_steps_shift)
  moreover have "drop_bit 8 ?hi = drop_bit 8 v"
    by (rule bit_word_eqI) (auto simp: bit_simps dest: bit_imp_le_length)
  ultimately show ?thesis by (simp only: rbit_steps_xor T64_funpow_ucast rbyte_step_def)
qed

lemma le_bytes_Suc: "le_bytes (Suc n) v = ucast v # le_bytes n (drop_bit 8 v)"
  by (rule nth_equalityI) (auto simp: nth_le_bytes nth_Cons drop_bit_drop_bit add.commute split: nat.split)

lemma T64_bytes:
  "(T64 ^^ (8 * n)) (ucast s XOR v) = ucast (crc_bytes s (le_bytes n v)) XOR drop_bit (8 * n) v"
proof (induction n arbitrary: s v)
  case 0
  then show ?case by (simp add: le_bytes_def)
next
  case (Suc n)
  have "8 * Suc n = 8 * n + 8" by simp
  then have "(T64 ^^ (8 * Suc n)) (ucast s XOR v) =
      (T64 ^^ (8 * n)) (ucast (rbyte_step crc32c_poly s (ucast v)) XOR drop_bit 8 v)"
    by (simp only: funpow_add comp_apply T64_byte)
  then show ?case
    using Suc.IH [of "rbyte_step crc32c_poly s (ucast v)" "drop_bit 8 v"]
    by (simp only: le_bytes_Suc foldl_Cons drop_bit_drop_bit \<open>8 * Suc n = 8 * n + 8\<close> add.commute)
qed

lemma ucast_crc32cd: "ucast (crc32cd 0 v) = (T64 ^^ 64) v"
proof -
  have "drop_bit 64 v = 0" by (rule bit_word_eqI) (auto simp: bit_simps dest: bit_imp_le_length)
  moreover have "8 * 8 = (64::nat)" by simp
  ultimately show ?thesis using T64_bytes [of 8 0 v] by (simp add: crc32cd_def)
qed

lemma bit_less_32:
  assumes "unat k < 2 ^ 32" and "bit (k :: u64) j"
  shows "j < 32"
proof (rule ccontr)
  assume "\<not> j < 32"
  then have "32 \<le> j" by simp
  then have "(2::nat) ^ 32 \<le> 2 ^ j" by (rule power_increasing) simp
  then have "unat k < 2 ^ j" using assms(1) by simp
  then have "unat k div 2 ^ j = 0" by (rule div_less)
  then show False using assms(2) unfolding bit_word_nat bit_iff_odd by simp
qed

lemma fold_const_pow:
  assumes "j < 32"
  shows "fold_const k (2 ^ j) = crc32cd 0 (push_bit j k)"
proof -
  have "(ucast (2 ^ j :: u32) :: u64) = 2 ^ j"
    by (rule bit_word_eqI) (use assms in \<open>auto simp: bit_simps bit_exp_iff\<close>)
  moreover have "(ucast (push_bit j (ucast k) :: 128 word) :: u64) = push_bit j k"
    by (rule bit_word_eqI) (auto simp: bit_simps)
  ultimately show ?thesis using vmull_pow [of j k] assms by (simp add: fold_const_def)
qed

text \<open>A constant is right when the top basis vector is: it must skip \<open>n\<close> zero bits.\<close>

lemma fold_const_basis:
  assumes "unat k < 2 ^ 32" and "fold_const k (2 ^ 31) = (T ^^ n) (2 ^ 31)" and "i < 32"
  shows "fold_const k (2 ^ i) = (T ^^ n) (2 ^ i)"
proof -
  have k: "j < 32" if "bit k j" for j
    using assms(1) that by (rule bit_less_32)
  have fc: "fold_const k (2 ^ j) = crc32cd 0 (push_bit j k)" if "j < 32" for j
    using that by (rule fold_const_pow)
  have "drop_bit (31 - i) (push_bit 31 k) = push_bit i k"
    by (rule bit_word_eqI) (use assms(3) in \<open>auto simp: bit_simps dest: k\<close>)
  moreover have "take_bit (31 - i) (push_bit 31 k) = 0"
    by (rule bit_word_eqI) (auto simp: bit_simps)
  ultimately have "push_bit i k = (T64 ^^ (31 - i)) (push_bit 31 k)" by (simp only: rbit_steps_shift)
  then have "ucast (fold_const k (2 ^ i)) = (T64 ^^ 64) ((T64 ^^ (31 - i)) (push_bit 31 k))"
    using assms(3) by (simp only: fc ucast_crc32cd)
  also have "\<dots> = (T64 ^^ (31 - i)) ((T64 ^^ 64) (push_bit 31 k))"
    by (simp only: funpow_add [THEN fun_cong, symmetric, unfolded comp_apply] add.commute)
  also have "(T64 ^^ 64) (push_bit 31 k) = ucast (fold_const k (2 ^ 31))"
    by (subst fc, simp, simp only: ucast_crc32cd)
  finally have "ucast (fold_const k (2 ^ i)) = (T64 ^^ (31 - i)) (ucast (fold_const k (2 ^ 31)))" .
  then have *: "fold_const k (2 ^ i) = (T ^^ (31 - i)) (fold_const k (2 ^ 31))"
    by (simp only: T64_funpow_ucast ucast_32_64_inj)
  moreover have "(2 ^ i :: u32) = (T ^^ (31 - i)) (2 ^ 31)"
  proof -
    have "take_bit (m - i) (2 ^ m :: u32) = 0" for m
      by (rule bit_word_eqI) (auto simp: bit_simps bit_exp_iff)
    then have "(T ^^ (31 - i)) (2 ^ 31) = drop_bit (31 - i) (2 ^ 31)" by (rule rbit_steps_shift)
    moreover have "drop_bit (m - i) (2 ^ m :: u32) = 2 ^ i" if "i \<le> m" "m < 32" for m
      by (rule bit_word_eqI) (use that in \<open>auto simp: bit_simps bit_exp_iff\<close>)
    then have "drop_bit (31 - i) (2 ^ 31 :: u32) = 2 ^ i" using assms(3) by (simp del: power_numeral)
    ultimately show ?thesis by (simp only:)
  qed
  ultimately show ?thesis
    using assms(2) funpow_add [of n "31 - i" T] funpow_add [of "31 - i" n T]
    by (simp only: add.commute comp_apply) (metis comp_apply)
qed

lemma fold_const_eq:
  assumes "unat k < 2 ^ 32" and "fold_const k (2 ^ 31) = (T ^^ n) (2 ^ 31)"
  shows "fold_const k w = (T ^^ n) w"
  by (rule linear_eqI [of "fold_const k" "T ^^ n"])
    (simp_all only: fold_const_xor rbit_steps_xor fold_const_basis [OF assms])

lemma fold_const_top:
  assumes "unat (push_bit 31 k) = m" and "nat_iter 0x82f63b78 64 m = v"
    and "unat ((T ^^ n) (2 ^ 31)) = v"
  shows "fold_const k (2 ^ 31) = (T ^^ n) (2 ^ 31)"
proof -
  have poly: "unat (ucast crc32c_poly :: u64) = 0x82f63b78" by simp
  have fc: "fold_const k (2 ^ 31) = crc32cd 0 (push_bit 31 k)" by (rule fold_const_pow) simp
  have u: "unat (ucast w :: u64) = unat w" for w :: u32
  proof -
    have "unat w < 2 ^ 64" by (rule order_less_le_trans [OF unsigned_less]) simp
    then show ?thesis by (simp add: unsigned_ucast_eq take_bit_nat_eq_self_iff)
  qed
  have "unat (fold_const k (2 ^ 31)) = unat ((T64 ^^ 64) (push_bit 31 k))"
    by (simp only: fc flip: u ucast_crc32cd)
  then have "unat (fold_const k (2 ^ 31)) = v"
    by (simp only: unat_rbit_funpow poly assms(1,2))
  then show ?thesis using assms(3) by (simp only: word_unat_eq_iff)
qed

lemma fold_const_k2: "fold_const k2 w = (T ^^ 2752) w"
proof (rule fold_const_eq, goal_cases)
  case 2
  show ?case by (rule fold_const_top [where m = 5155143872661159936, OF _ _ skip_values(1)])
    (simp_all add: k2_def nat_iter_numeral nat_rstep_def)
qed (simp add: k2_def)

lemma fold_const_k1: "fold_const k1 w = (T ^^ 5440) w"
proof (rule fold_const_eq, goal_cases)
  case 2
  show ?case by (rule fold_const_top [where m = 8217936569571475456, OF _ _ skip_values(2)])
    (simp_all add: k1_def nat_iter_numeral nat_rstep_def)
qed (simp add: k1_def)

section \<open>The whole function\<close>

lemma seg_append: "seg data k m @ seg data (k + m) n = seg data k (m + n)"
  by (simp only: seg_def distrib_left take_add drop_drop add.commute)

lemma crc32c_block_eq:
  assumes "1024 \<le> length data"
  shows "crc32c_block crc data = Some (crc_bytes crc (take 1024 data))"
proof -
  define d where "d = drop 8 data"
  define A where "A = seg d 0 42"
  define B where "B = seg d 42 42"
  define C where "C = seg d 84 42"
  define h where "h = take 8 data"
  define e where "e = take 8 (drop 1008 d)"
  have len: "1016 \<le> length d" using assms by (simp add: d_def)
  have lens: "length A = 336" "length B = 336" "length C = 336" "length h = 8" "length e = 8"
    using len assms by (simp_all add: A_def B_def C_def h_def e_def seg_def)
  have split: "take 1024 data = h @ A @ B @ C @ e"
  proof -
    have "A @ B @ C = seg d 0 126"
      using seg_append [of d 0 42 42] seg_append [of d 0 84 42]
      by (simp add: A_def B_def C_def flip: append.assoc)
    then have "A @ B @ C = take 1008 d" by (simp add: seg_def)
    moreover have "take 1008 d @ e = take 1016 d" using take_add [of 1008 8 d] by (simp add: e_def)
    moreover have "h @ take 1016 d = take 1024 data" using take_add [of 8 1016 data] by (simp add: h_def d_def)
    ultimately show ?thesis by (metis append.assoc)
  qed
  have ld: "(load 8 data 0 :: u64 option) = Some (le_word h)"
    "(load 8 (drop 1008 d) 0 :: u64 option) = Some (le_word e)"
    using load_Some [of 0 data] load_Some [of 0 "drop 1008 d"] assms len by (simp_all add: h_def e_def)
  have crcd: "crc32cd c (le_word h) = crc_bytes c h" "crc32cd c (le_word e) = crc_bytes c e" for c
    by (rule crc32cd_le, simp add: lens)+
  note run = CRC32C7X3X8_upto [of d _ "crc_bytes crc h" 0 0]
  have len': "1008 \<le> length d" using len by simp
  have seg0: "seg d k 0 = []" for k by (simp add: seg_def)
  have runs: "CRC32C7X3X8 d 0 (crc_bytes crc h, 0, 0) = Some (crc_bytes (crc_bytes crc h) (seg d 0 7), crc_bytes 0 (seg d 42 7), crc_bytes 0 (seg d 84 7))"
    using run [of 0] len' by (simp add: seg0)
  have comb: "crc_bytes crc (take 1024 data) =
      (crc_bytes (crc_bytes 0 C) e XOR (T ^^ 2752) (crc_bytes 0 B)) XOR (T ^^ 5440) (crc_bytes (crc_bytes crc h) A)"
  proof -
    have "crc_bytes crc (take 1024 data) = crc_bytes (crc_bytes (crc_bytes crc h) A) (B @ C @ e)"
      by (simp add: split)
    also have "\<dots> = (T ^^ 5440) (crc_bytes (crc_bytes crc h) A) XOR crc_bytes (crc_bytes 0 B) (C @ e)"
      by (subst crc_bytes_split) (simp add: lens)
    also have "crc_bytes (crc_bytes 0 B) (C @ e) = (T ^^ 2752) (crc_bytes 0 B) XOR crc_bytes (crc_bytes 0 C) e"
      by (subst crc_bytes_split) (simp add: lens)
    finally show ?thesis by (simp only: ac_simps)
  qed
  show ?thesis
    using run [of 1] run [of 2] run [of 3] run [of 4] run [of 5] len'
    unfolding crc32c_block_def Let_def
    by (simp add: ld crcd runs comb flip: d_def fold_const_def fold_const_k1 fold_const_k2 A_def B_def C_def)
qed

lemma crc_bytes_take_drop: "crc_bytes (crc_bytes c (take n ds)) (drop n ds) = crc_bytes c ds"
  by (metis append_take_drop_id foldl_append)

lemma crc32c_blocks_eq:
  "\<exists>c rest. crc32c_blocks crc data = Some (c, rest) \<and> crc_bytes c rest = crc_bytes crc data"
proof (induction crc data rule: crc32c_blocks.induct)
  case (1 crc data)
  show ?case
  proof (cases "1024 \<le> length data")
    case True
    have "crc32c_blocks crc data = crc32c_blocks (crc_bytes crc (take 1024 data)) (drop 1024 data)"
      using True by (subst crc32c_blocks.simps) (simp add: crc32c_block_eq)
    then show ?thesis
      using "1.IH" [OF True crc32c_block_eq [OF True]] crc_bytes_take_drop [of crc 1024 data] by simp
  next
    case False
    then show ?thesis by (subst crc32c_blocks.simps) simp
  qed
qed

lemma crc32c_dwords_eq:
  "\<exists>c rest. crc32c_dwords crc data = Some (c, rest) \<and> crc_bytes c rest = crc_bytes crc data \<and> length rest < 8"
proof (induction crc data rule: crc32c_dwords.induct)
  case (1 crc data)
  show ?case
  proof (cases "8 \<le> length data")
    case True
    have ld: "(load 8 data 0 :: u64 option) = Some (le_word (take 8 data))"
      using load_Some [of 0 data] True by simp
    have c: "crc32cd crc (le_word (take 8 data)) = crc_bytes crc (take 8 data)"
      by (rule crc32cd_le) (use True in simp)
    then have "crc32c_dwords crc data = crc32c_dwords (crc_bytes crc (take 8 data)) (drop 8 data)"
      using True by (subst crc32c_dwords.simps) (simp add: ld)
    then show ?thesis
      using "1.IH" [OF True ld] c crc_bytes_take_drop [of crc 8 data] by simp
  next
    case False
    then show ?thesis by (subst crc32c_dwords.simps) simp
  qed
qed

lemma tail_loads:
  "4 \<le> length ds \<Longrightarrow> (load 4 ds 0 :: u32 option) = Some (le_word (take 4 ds))"
  "2 \<le> length ds \<Longrightarrow> (load 2 ds 0 :: u16 option) = Some (le_word (take 2 ds))"
  "1 \<le> length ds \<Longrightarrow> (load 1 ds 0 :: u8 option) = Some (le_word (take 1 ds))"
  by (simp_all add: load_def)

lemma bits_below_8:
  assumes "n < (8::nat)"
  shows "bit n 2 \<longleftrightarrow> 4 \<le> n" "bit n 1 \<longleftrightarrow> 2 \<le> n mod 4" "bit n 0 \<longleftrightarrow> n mod 2 = 1"
proof -
  have "n \<in> {0, 1, 2, 3, 4, 5, 6, 7}" unfolding insert_iff empty_iff using assms by presburger
  then show "bit n 2 \<longleftrightarrow> 4 \<le> n" "bit n 1 \<longleftrightarrow> 2 \<le> n mod 4" "bit n 0 \<longleftrightarrow> n mod 2 = 1"
    by (auto simp: bit_iff_odd)
qed

lemma crc32c_tail_eq:
  assumes "length ds < 8"
  shows "crc32c_tail crc ds = Some (crc_bytes crc ds)"
proof -
  let ?n = "length ds"
  define n2 n1 where "n2 = (if 4 \<le> ?n then 4 else 0 :: nat)" and "n1 = (if 2 \<le> ?n mod 4 then 2 else 0 :: nat)"
  define c2 d2 where "c2 = crc_bytes crc (take n2 ds)" and "d2 = drop n2 ds"
  define c1 d1 where "c1 = crc_bytes c2 (take n1 d2)" and "d1 = drop n1 d2"
  have n: "?n mod 4 = ?n - n2" "?n mod 2 = ?n - n2 - n1" using assms by (simp_all add: n2_def n1_def) presburger+
  have s2: "(if bit ?n 2 then do { d \<leftarrow> load 4 ds 0; Some (crc32cw crc d, drop 4 ds) } else Some (crc, ds)) = Some (c2, d2)"
    by (simp add: bits_below_8 [OF assms] c2_def d2_def n2_def tail_loads crc32cw_le)
  have "2 \<le> length d2" if "n1 \<noteq> 0" using that n by (simp add: n1_def d2_def split: if_splits)
  then have s1: "(if bit ?n 1 then do { d \<leftarrow> load 2 d2 0; Some (crc32ch c2 d, drop 2 d2) } else Some (c2, d2)) = Some (c1, d1)"
    by (simp add: bits_below_8 [OF assms] c1_def d1_def n1_def tail_loads crc32ch_le del: One_nat_def)
  have len1: "length d1 = ?n mod 2" using n by (simp add: d1_def d2_def)
  have s0: "(if bit ?n 0 then do { d \<leftarrow> load 1 d1 0; Some (crc32cb c1 d) } else Some c1) = Some (crc_bytes c1 d1)"
  proof (cases "?n mod 2 = 1")
    case True
    then show ?thesis
      using len1 tail_loads(3) [of d1] by (simp add: bits_below_8 [OF assms] crc32cb_le del: One_nat_def)
  next
    case False
    then have "d1 = []" using len1 by simp
    then show ?thesis using False by (simp add: bits_below_8 [OF assms])
  qed
  have "crc_bytes c1 d1 = crc_bytes crc ds"
    by (simp only: c1_def d1_def c2_def d2_def crc_bytes_take_drop)
  then show ?thesis by (simp only: crc32c_tail_def Let_def s2 s1 s0 bind.bind_lunit prod.case)
qed

lemma crc32c_arm64_bytes: "crc32c_arm64 data = Some (crc_bytes (NOT 0) data)"
proof -
  obtain c rest where b: "crc32c_blocks (NOT 0) data = Some (c, rest)" "crc_bytes c rest = crc_bytes (NOT 0) data"
    using crc32c_blocks_eq by blast
  obtain c' rest' where d: "crc32c_dwords c rest = Some (c', rest')" "crc_bytes c' rest' = crc_bytes c rest"
      "length rest' < 8"
    using crc32c_dwords_eq by blast
  show ?thesis using b d crc32c_tail_eq [OF d(3)] by (cases "rest = []") (simp_all add: crc32c_arm64_def)
qed

text \<open>
  C27 (equivalence): whichever version the processor probe selects, \<^verbatim>\<open>fio_crc32c\<close> gives the check value of
  the table-driven \<^verbatim>\<open>crc32c_sw\<close>, on every buffer; in particular the accelerated routine, with its three
  interleaved streams, the carry-less multiplications that join them and the tail of words, half words
  and bytes, reads only inside the buffer.
\<close>

theorem fio_crc32c_eq_sw: "fio_crc32c arm64_available intel_available data = Some (crc32c_sw data)"
  by (simp only: fio_crc32c_def crc32c_arm64_bytes crc32c_sw_serial if_cancel)

end
