(* ===== verification/Bloom.thy ===== *)
theory Bloom
  imports Hashes Crc32c_Arm64
begin

text \<open>
  \<^verbatim>\<open>lib/bloom.c\<close>: a Bloom filter with five hash functions. It never misses a key that was added, and it answers by
  whether all bits of a key are set. \<open>arm64\<close> and \<open>intel\<close> say which accelerated crc32c the probes found.
\<close>

section \<open>Definitions\<close>

record bloom =
  nentries :: u64
  bloom_map :: "u32 list"

definition bloom_crc32c :: "bool \<Rightarrow> bool \<Rightarrow> bytes \<Rightarrow> u32 \<Rightarrow> u32 option" where
  "bloom_crc32c arm64 intel buf seed = fio_crc32c arm64 intel buf"

definition bloom_fnv :: "bytes \<Rightarrow> u32 \<Rightarrow> u32" where
  "bloom_fnv buf seed = ucast (fnv buf (ucast seed))"

definition BLOOM_SEED :: u32 where "BLOOM_SEED = 0x8989"

definition hashes :: "bool \<Rightarrow> bool \<Rightarrow> (u32 \<times> (bytes \<Rightarrow> u32 \<Rightarrow> u32 option)) list" where
  "hashes arm64 intel = [
     (BLOOM_SEED, \<lambda>buf seed. Some (jhash buf seed)),
     (BLOOM_SEED, \<lambda>buf seed. Some (XXH32 buf seed)),
     (BLOOM_SEED, murmurhash3),
     (BLOOM_SEED, bloom_crc32c arm64 intel),
     (BLOOM_SEED, \<lambda>buf seed. Some (bloom_fnv buf seed))]"

definition N_HASHES :: nat where "N_HASHES = 5"

text \<open>\<^verbatim>\<open>calloc\<close> may fail.\<close>

definition bloom_new :: "bool \<Rightarrow> u64 \<Rightarrow> bloom option" where
  "bloom_new calloc_ok entries = (let
     no_uints = (entries + 32 - 1) div 32
   in if calloc_ok then Some \<lparr>nentries = entries, bloom_map = replicate (unat no_uints) 0\<rparr> else None)"

text \<open>The first loop: the hash values, reduced modulo the number of entries.\<close>

fun bloom_hash_values :: "(u32 \<times> (bytes \<Rightarrow> u32 \<Rightarrow> u32 option)) list \<Rightarrow> u64 \<Rightarrow> bytes \<Rightarrow> u32 list option" where
  "bloom_hash_values [] n data = Some []"
| "bloom_hash_values ((seed, fn) # hs) n data = do {
     h \<leftarrow> fn data seed;
     c_assert (n \<noteq> 0);
     vs \<leftarrow> bloom_hash_values hs n data;
     Some (ucast (ucast h mod n :: u64) # vs)
   }"

text \<open>The second loop: the map and \<^verbatim>\<open>was_set\<close>.\<close>

fun bloom_loop :: "u32 list \<Rightarrow> u32 list \<Rightarrow> bool \<Rightarrow> nat \<Rightarrow> (u32 list \<times> nat) option" where
  "bloom_loop [] m add was_set = Some (m, was_set)"
| "bloom_loop (h # hs) m add was_set = (let
     index = unat (h div 32);
     b = unat (h AND 31)
   in do {
     w \<leftarrow> rd m index;
     if w AND push_bit b 1 \<noteq> 0 then bloom_loop hs m add (was_set + 1)
     else if add then do { m \<leftarrow> wr m index (w OR push_bit b 1); bloom_loop hs m add was_set }
     else Some (m, was_set)
   })"

definition bloom_check :: "bool \<Rightarrow> bool \<Rightarrow> bloom \<Rightarrow> bytes \<Rightarrow> bool \<Rightarrow> (bloom \<times> bool) option" where
  "bloom_check arm64 intel b data add = do {
     vs \<leftarrow> bloom_hash_values (hashes arm64 intel) (nentries b) data;
     (m, was_set) \<leftarrow> bloom_loop vs (bloom_map b) add 0;
     Some (b\<lparr>bloom_map := m\<rparr>, was_set = N_HASHES)
   }"

definition bloom_set :: "bool \<Rightarrow> bool \<Rightarrow> bloom \<Rightarrow> u32 list \<Rightarrow> (bloom \<times> bool) option" where
  "bloom_set arm64 intel b data = bloom_check arm64 intel b (concat (map (le_bytes 4) data)) True"

definition bloom_string :: "bool \<Rightarrow> bool \<Rightarrow> bloom \<Rightarrow> bytes \<Rightarrow> bool \<Rightarrow> (bloom \<times> bool) option" where
  "bloom_string arm64 intel b data add = bloom_check arm64 intel b data add"

section \<open>The bits of the map\<close>

definition map_bits :: "u32 list \<Rightarrow> nat set" where
  "map_bits m = {n. n div 32 < length m \<and> bit (m ! (n div 32)) (n mod 32)}"

lemma and_31: "unat (h AND 31) = unat h mod 32" for h :: u32
  using unat_and_mask [of h 5] by (simp add: mask_eq_exp_minus_1)

lemma div_32: "unat (h div 32) = unat h div 32" for h :: u32
  by (simp add: unat_div)

lemma test_bit: "w AND push_bit n 1 \<noteq> 0 \<longleftrightarrow> bit w n" if "n < 32" for w :: u32
proof -
  have "w AND push_bit n 1 = (if bit w n then push_bit n 1 else 0)"
    by (rule bit_word_eqI) (auto simp: bit_simps)
  moreover have "push_bit n 1 \<noteq> (0 :: u32)" using that by (simp add: push_bit_eq_mult exp_eq_zero_iff)
  ultimately show ?thesis by simp
qed

lemma map_bits_set:
  assumes "n div 32 < length m"
  shows "map_bits (m[n div 32 := m ! (n div 32) OR push_bit (n mod 32) 1]) = insert n (map_bits m)"
proof -
  have "k = n" if "k div 32 = n div 32" "k mod 32 = n mod 32" for k
    using that by (metis div_mod_decomp)
  moreover have "n mod 32 < 32" by simp
  ultimately show ?thesis
    using assms by (auto simp: map_bits_def nth_list_update bit_simps)
qed

lemma bloom_loop_bits:
  assumes "\<forall>h \<in> set hs. unat h div 32 < length m"
  shows "\<exists>m' n. bloom_loop hs m s k = Some (m', n) \<and> length m' = length m \<and> n \<le> k + length hs \<and>
    (n = k + length hs \<longleftrightarrow> (\<forall>h \<in> set hs. unat h \<in> map_bits m)) \<and>
    map_bits m' = (if s then map_bits m \<union> unat ` set hs else map_bits m) \<and> (\<not> s \<longrightarrow> m' = m)"
  using assms
proof (induction hs arbitrary: m k)
  case (Cons h hs)
  let ?n = "unat h"
  have n: "?n div 32 < length m" using Cons.prems by simp
  have mem: "?n \<in> map_bits m \<longleftrightarrow> bit (m ! (?n div 32)) (?n mod 32)" using n by (simp add: map_bits_def)
  have step: "bloom_loop (h # hs) m s k =
      (if ?n \<in> map_bits m then bloom_loop hs m s (k + 1)
       else if s then bloom_loop hs (m[?n div 32 := m ! (?n div 32) OR push_bit (?n mod 32) 1]) s k
       else Some (m, k))"
    using n by (simp add: and_31 div_32 test_bit mem Let_def del: push_bit_of_1)
  consider "?n \<in> map_bits m" | "?n \<notin> map_bits m" "s" | "?n \<notin> map_bits m" "\<not> s" by blast
  then show ?case
  proof cases
    case 1
    then show ?thesis using Cons.IH [of m "k + 1"] Cons.prems step by (auto simp del: bloom_loop.simps)
  next
    case 2
    define m1 where "m1 = m[?n div 32 := m ! (?n div 32) OR push_bit (?n mod 32) 1]"
    have "length m1 = length m" by (simp add: m1_def)
    moreover have "map_bits m1 = insert ?n (map_bits m)" unfolding m1_def by (rule map_bits_set [OF n])
    ultimately show ?thesis using Cons.IH [of m1 k] Cons.prems step 2 unfolding m1_def [symmetric] by (auto simp del: bloom_loop.simps)
  next
    case 3
    then show ?thesis using step by (auto simp del: bloom_loop.simps)
  qed
qed simp

section \<open>The filter\<close>

definition bloom_ok :: "bloom \<Rightarrow> bool" where
  "bloom_ok b \<longleftrightarrow> nentries b \<noteq> 0 \<and> unat (nentries b) \<le> 32 * length (bloom_map b)"

definition key_ok :: "bytes \<Rightarrow> bool" where
  "key_ok k \<longleftrightarrow> length k < 2 ^ 31"

text \<open>The positions of a key.\<close>

definition key_bits :: "bool \<Rightarrow> bool \<Rightarrow> bloom \<Rightarrow> bytes \<Rightarrow> nat set" where
  "key_bits arm64 intel b k = unat ` set (the (bloom_hash_values (hashes arm64 intel) (nentries b) k))"

definition bloom_mem :: "bool \<Rightarrow> bool \<Rightarrow> bloom \<Rightarrow> bytes \<Rightarrow> bool" where
  "bloom_mem arm64 intel b k \<longleftrightarrow> key_bits arm64 intel b k \<subseteq> map_bits (bloom_map b)"

lemma bloom_hash_values_bounded:
  "n \<noteq> 0 \<Longrightarrow> \<forall>(s, f) \<in> set hs. f k s \<noteq> None \<Longrightarrow>
    \<exists>vs. bloom_hash_values hs n k = Some vs \<and> length vs = length hs \<and> (\<forall>v \<in> set vs. unat v < unat n)"
proof (induction hs n k rule: bloom_hash_values.induct)
  case (2 s f hs n k)
  obtain h where h: "f k s = Some h" using 2 by auto
  obtain vs where vs: "bloom_hash_values hs n k = Some vs" "length vs = length hs" "\<forall>v \<in> set vs. unat v < unat n"
    using 2 h by auto
  have mod: "unat (ucast h mod n :: u64) = unat h mod unat n" by (simp add: unat_mod unsigned_ucast_eq take_bit_nat_eq_self less_le_trans [OF unat_bound32])
  have n: "0 < unat n" using 2 by (simp add: unat_gt_0)
  have "unat h mod unat n < 2 ^ 32" using unat_bound32 [of h] mod_less_eq_dividend [of "unat h" "unat n"] by linarith
  then have "unat (ucast (ucast h mod n :: u64) :: u32) = unat h mod unat n"
    by (simp add: unsigned_ucast_eq take_bit_nat_eq_self mod)
  then show ?case using vs h n 2(2) by simp
qed simp

lemma crc32c_total: "bloom_crc32c arm64 intel k s \<noteq> None"
  by (simp add: bloom_crc32c_def fio_crc32c_def crc32c_arm64_bytes)

lemma murmurhash3_total: "key_ok k \<Longrightarrow> murmurhash3 k s \<noteq> None"
  by (simp add: murmurhash3_def key_ok_def Let_def)

lemma N_HASHES: "length (hashes arm64 intel) = N_HASHES"
  by (simp add: hashes_def N_HASHES_def)

lemma bloom_check_result:
  assumes "bloom_ok b" and "key_ok k"
  shows "\<exists>m. bloom_check arm64 intel b k s = Some (b\<lparr>bloom_map := m\<rparr>, bloom_mem arm64 intel b k) \<and>
    length m = length (bloom_map b) \<and>
    map_bits m = (if s then map_bits (bloom_map b) \<union> key_bits arm64 intel b k else map_bits (bloom_map b)) \<and>
    (\<not> s \<longrightarrow> m = bloom_map b)"
proof -
  have ok: "nentries b \<noteq> 0" "unat (nentries b) \<le> 32 * length (bloom_map b)" using assms(1) by (simp_all add: bloom_ok_def)
  have "\<forall>(s, f) \<in> set (hashes arm64 intel). f k s \<noteq> None"
    using crc32c_total murmurhash3_total [OF assms(2)] by (auto simp: hashes_def)
  then obtain vs where vs: "bloom_hash_values (hashes arm64 intel) (nentries b) k = Some vs" "length vs = N_HASHES"
    "\<forall>v \<in> set vs. unat v < unat (nentries b)"
    using bloom_hash_values_bounded [OF ok(1)] N_HASHES by metis
  have "\<forall>v \<in> set vs. unat v div 32 < length (bloom_map b)" using vs(3) ok(2) by fastforce
  then obtain m n where "bloom_loop vs (bloom_map b) s 0 = Some (m, n)" "length m = length (bloom_map b)"
    "n = N_HASHES \<longleftrightarrow> unat ` set vs \<subseteq> map_bits (bloom_map b)"
    "map_bits m = (if s then map_bits (bloom_map b) \<union> unat ` set vs else map_bits (bloom_map b))" "\<not> s \<longrightarrow> m = bloom_map b"
    using bloom_loop_bits [of vs "bloom_map b" s 0] vs(2) by (auto simp: image_subset_iff)
  then show ?thesis using vs(1) by (auto simp: bloom_check_def bloom_mem_def key_bits_def)
qed

section \<open>The interface of an approximate set\<close>

text \<open>
  What a client may rely on: testing changes nothing, adding a key makes it a member, and members stay
  members. A key that was added is then found after any further sequence of operations.
\<close>

locale approx_set =
  fixes ok :: "'b \<Rightarrow> bool" and valid :: "'k \<Rightarrow> bool" and mem :: "'b \<Rightarrow> 'k \<Rightarrow> bool"
    and check :: "'b \<Rightarrow> 'k \<Rightarrow> bool \<Rightarrow> ('b \<times> bool) option"
  assumes check_test: "ok b \<Longrightarrow> valid k \<Longrightarrow> check b k False = Some (b, mem b k)"
    and check_add: "ok b \<Longrightarrow> valid k \<Longrightarrow> \<exists>b'. check b k True = Some (b', mem b k) \<and> ok b' \<and> mem b' k \<and> (\<forall>j. mem b j \<longrightarrow> mem b' j)"
begin

lemma check_step:
  assumes "ok b" and "valid k"
  shows "\<exists>b'. check b k s = Some (b', mem b k) \<and> ok b' \<and> (s \<longrightarrow> mem b' k) \<and> (\<forall>j. mem b j \<longrightarrow> mem b' j)"
  using check_test [OF assms] check_add [OF assms] assms by (cases s) auto

text \<open>A client that keeps all added keys in a list decides membership in the list behind the filter.\<close>

lemma filter_exact:
  assumes "\<forall>x \<in> set L. mem b x" and "ok b" and "valid k"
  shows "\<exists>b'. check b k s = Some (b', mem b k) \<and> (mem b k \<and> k \<in> set L \<longleftrightarrow> k \<in> set L) \<and> ok b' \<and>
    (\<forall>x \<in> set (if s then k # L else L). mem b' x)"
  using check_step [OF assms(2,3), of s] assms(1) by auto

end

lemma bloom_mem_update: "bloom_mem arm64 intel (b\<lparr>bloom_map := m\<rparr>) k \<longleftrightarrow> key_bits arm64 intel b k \<subseteq> map_bits m"
  by (simp add: bloom_mem_def key_bits_def)

interpretation bloom: approx_set bloom_ok key_ok "bloom_mem arm64 intel" "bloom_string arm64 intel" for arm64 intel
proof
  fix b k
  assume a: "bloom_ok b" "key_ok k"
  obtain m where m: "bloom_check arm64 intel b k True = Some (b\<lparr>bloom_map := m\<rparr>, bloom_mem arm64 intel b k)"
    "length m = length (bloom_map b)" "map_bits m = map_bits (bloom_map b) \<union> key_bits arm64 intel b k"
    using bloom_check_result [OF a, of arm64 intel True] by auto
  then show "\<exists>b'. bloom_string arm64 intel b k True = Some (b', bloom_mem arm64 intel b k) \<and> bloom_ok b' \<and>
      bloom_mem arm64 intel b' k \<and> (\<forall>j. bloom_mem arm64 intel b j \<longrightarrow> bloom_mem arm64 intel b' j)"
    using a by (auto simp: bloom_string_def bloom_ok_def bloom_mem_update) (auto simp: bloom_mem_def)
  show "bloom_string arm64 intel b k False = Some (b, bloom_mem arm64 intel b k)"
    using bloom_check_result [OF a, of arm64 intel False] by (auto simp: bloom_string_def)
qed

section \<open>No false negatives\<close>

lemma bloom_new_ok:
  assumes "bloom_new calloc_ok entries = Some b" and "entries \<noteq> 0" and "unat entries < 2 ^ 64 - 32"
  shows "bloom_ok b" "map_bits (bloom_map b) = {}"
proof -
  have b: "b = \<lparr>nentries = entries, bloom_map = replicate (unat ((entries + 32 - 1) div 32)) 0\<rparr>"
    using assms(1) by (auto simp: bloom_new_def Let_def split: if_splits)
  have "unat (entries + 32 - 1) = unat entries + 31"
    using assms(3) by (simp add: unat_add64)
  then have "unat ((entries + 32 - 1) div 32) = (unat entries + 31) div 32" by (simp add: unat_div)
  then show "bloom_ok b" "map_bits (bloom_map b) = {}"
    using assms(2) by (auto simp: b bloom_ok_def map_bits_def)
qed

text \<open>A sequence of operations: the key, and whether it is to be added.\<close>

fun bloom_run :: "bool \<Rightarrow> bool \<Rightarrow> bloom \<Rightarrow> (bytes \<times> bool) list \<Rightarrow> (bloom \<times> bool list) option" where
  "bloom_run arm64 intel b [] = Some (b, [])"
| "bloom_run arm64 intel b ((k, add) # ops) = do {
     (b, r) \<leftarrow> bloom_string arm64 intel b k add;
     (b, rs) \<leftarrow> bloom_run arm64 intel b ops;
     Some (b, r # rs)
   }"

lemma bloom_run_members:
  assumes "bloom_ok b" and "\<forall>(k, add) \<in> set ops. key_ok k"
  shows "\<exists>b' rs. bloom_run arm64 intel b ops = Some (b', rs) \<and> bloom_ok b' \<and> length rs = length ops \<and>
    (\<forall>k. bloom_mem arm64 intel b k \<or> (k, True) \<in> set ops \<longrightarrow> bloom_mem arm64 intel b' k) \<and>
    (\<forall>i < length ops. (\<exists>j < i. ops ! j = (fst (ops ! i), True)) \<or> bloom_mem arm64 intel b (fst (ops ! i)) \<longrightarrow> rs ! i)"
  using assms
proof (induction ops arbitrary: b)
  case (Cons op ops)
  obtain k add where op: "op = (k, add)" by fastforce
  obtain b1 where b1: "bloom_string arm64 intel b k add = Some (b1, bloom_mem arm64 intel b k)" "bloom_ok b1"
    "add \<longrightarrow> bloom_mem arm64 intel b1 k" "\<forall>j. bloom_mem arm64 intel b j \<longrightarrow> bloom_mem arm64 intel b1 j"
    using bloom.check_step [of b k arm64 intel add] Cons.prems op by auto
  obtain b2 rs where b2: "bloom_run arm64 intel b1 ops = Some (b2, rs)" "bloom_ok b2" "length rs = length ops"
    "\<forall>k. bloom_mem arm64 intel b1 k \<or> (k, True) \<in> set ops \<longrightarrow> bloom_mem arm64 intel b2 k"
    "\<forall>i < length ops. (\<exists>j < i. ops ! j = (fst (ops ! i), True)) \<or> bloom_mem arm64 intel b1 (fst (ops ! i)) \<longrightarrow> rs ! i"
    using Cons.IH [OF b1(2)] Cons.prems by auto
  have "(bloom_mem arm64 intel b k # rs) ! i"
    if i: "i < length (op # ops)"
      and c: "(\<exists>j < i. (op # ops) ! j = (fst ((op # ops) ! i), True)) \<or> bloom_mem arm64 intel b (fst ((op # ops) ! i))" for i
  proof (cases i)
    case 0
    then show ?thesis using c op by simp
  next
    case (Suc i')
    then have "(\<exists>j < i'. ops ! j = (fst (ops ! i'), True)) \<or> bloom_mem arm64 intel b1 (fst (ops ! i'))"
      using c op b1(3,4) by (auto simp: less_Suc_eq_0_disj)
    then show ?thesis using b2(5) i Suc by auto
  qed
  then show ?case using b1 b2 op by auto
qed simp

text \<open>
  C31 (safety): on a fresh filter no sequence of additions and tests with keys below 2 GiB leaves the bit map,
  and every operation on a key that was added before, at any earlier point, answers that it is there.
\<close>

theorem bloom_no_false_negatives:
  assumes "bloom_new calloc_ok entries = Some b" and "entries \<noteq> 0" and "unat entries < 2 ^ 64 - 32"
    and "\<forall>(k, add) \<in> set ops. length k < 2 ^ 31"
  shows "\<exists>b' rs. bloom_run arm64 intel b ops = Some (b', rs) \<and> length rs = length ops \<and>
    (\<forall>i < length ops. \<forall>j < i. ops ! j = (fst (ops ! i), True) \<longrightarrow> rs ! i)"
proof -
  have "\<forall>(k, add) \<in> set ops. key_ok k" using assms(4) by (auto simp: key_ok_def)
  from bloom_run_members [OF bloom_new_ok(1) [OF assms(1-3)] this, of arm64 intel]
  obtain b' rs where run: "bloom_run arm64 intel b ops = Some (b', rs)" "length rs = length ops"
    and seen: "\<forall>i < length ops. (\<exists>j < i. ops ! j = (fst (ops ! i), True)) \<or> bloom_mem arm64 intel b (fst (ops ! i)) \<longrightarrow> rs ! i" by blast
  have "\<forall>i < length ops. \<forall>j < i. ops ! j = (fst (ops ! i), True) \<longrightarrow> rs ! i" using seen by blast
  then show ?thesis using run by blast
qed

theorem bloom_no_false_negatives_witness:
  "\<exists>b' rs. bloom_run True False \<lparr>nentries = 64, bloom_map = [0, 0]\<rparr> [([97], True), ([98], False), ([97], False)] = Some (b', rs) \<and>
    rs ! 2"
proof -
  have new: "bloom_new True 64 = Some \<lparr>nentries = 64, bloom_map = [0, 0]\<rparr>"
    by code_simp
  have "\<forall>(k, add) \<in> set [([97] :: bytes, True), ([98], False), ([97], False)]. length k < 2 ^ 31" by simp
  from bloom_no_false_negatives [OF new _ _ this, of True False] obtain b' rs where
    "bloom_run True False \<lparr>nentries = 64, bloom_map = [0, 0]\<rparr> [([97], True), ([98], False), ([97], False)] = Some (b', rs)"
    "\<forall>i < 3. \<forall>j < i. [([97] :: bytes, True), ([98], False), ([97], False)] ! j = (fst ([([97], True), ([98], False), ([97], False)] ! i), True) \<longrightarrow> rs ! i"
    by (auto simp del: bloom_run.simps)
  moreover from this(2) [rule_format, of 2 0] have "rs ! 2" by simp
  ultimately show ?thesis by blast
qed

end
