(* ===== verification/File_Hash.thy ===== *)
theory File_Hash
  imports Hashes
begin

text \<open>
  \<^verbatim>\<open>filehash.c\<close>, the table of the files that jobs share, and the list of allocated file names of \<^verbatim>\<open>filesetup.c\<close>
  behind its Bloom filter. The table refines a finite map from names to files; the list behind the filter
  decides membership exactly, although the filter alone may err on one side. File names are C strings, given by
  their bytes without the final zero; a file is its address. Operations between the lock calls are one step.
\<close>

section \<open>Definitions: the table of files\<close>

record fio_file =
  file_name :: "bytes option"
  file_hashed :: bool

record file_table =
  files :: "nat \<Rightarrow> fio_file"
  file_hash :: "nat list list"

definition HASH_BUCKETS :: nat where "HASH_BUCKETS = 512"

definition hash_name :: "bytes \<Rightarrow> nat" where
  "hash_name name = unat (jhash name 0 AND 511)"

text \<open>\<^verbatim>\<open>smalloc\<close> of the buckets is taken to succeed: the code does not check it.\<close>

definition file_hash_init :: "(nat \<Rightarrow> fio_file) \<Rightarrow> file_table" where
  "file_hash_init fs = \<lparr>files = fs, file_hash = replicate HASH_BUCKETS []\<rparr>"

fun lookup_bucket :: "(nat \<Rightarrow> fio_file) \<Rightarrow> nat list \<Rightarrow> bytes \<Rightarrow> nat option" where
  "lookup_bucket fs [] name = None"
| "lookup_bucket fs (f # bucket) name =
     (case file_name (fs f) of
        None \<Rightarrow> lookup_bucket fs bucket name
      | Some n \<Rightarrow> if n = name then Some f else lookup_bucket fs bucket name)"

definition lookup_file_hash :: "file_table \<Rightarrow> bytes \<Rightarrow> nat option" where
  "lookup_file_hash t name = lookup_bucket (files t) (file_hash t ! hash_name name) name"

text \<open>A file without a name is a null pointer for \<^verbatim>\<open>strlen\<close>: the outer option.\<close>

definition add_file_hash :: "file_table \<Rightarrow> nat \<Rightarrow> (file_table \<times> nat option) option" where
  "add_file_hash t f =
     (if file_hashed (files t f) then Some (t, None)
      else case file_name (files t f) of
        None \<Rightarrow> None
      | Some name \<Rightarrow> (case lookup_file_hash t name of
          Some alias \<Rightarrow> Some (t, Some alias)
        | None \<Rightarrow> Some (t\<lparr>files := (files t)(f := files t f\<lparr>file_hashed := True\<rparr>),
            file_hash := (file_hash t)[hash_name name := file_hash t ! hash_name name @ [f]]\<rparr>, None)))"

text \<open>The list node of a file is unlinked from whichever list it is on; the assertion says it is on one.\<close>

definition remove_file_hash :: "file_table \<Rightarrow> nat \<Rightarrow> file_table option" where
  "remove_file_hash t f =
     (if file_hashed (files t f)
      then do {
        c_assert (\<exists>b \<in> set (file_hash t). f \<in> set b);
        Some (t\<lparr>files := (files t)(f := files t f\<lparr>file_hashed := False\<rparr>),
          file_hash := map (filter (\<lambda>g. g \<noteq> f)) (file_hash t)\<rparr>)
      }
      else Some t)"

definition file_hash_exit_empty :: "file_table \<Rightarrow> bool" where
  "file_hash_exit_empty t \<longleftrightarrow> length (filter (\<lambda>b. b \<noteq> []) (file_hash t)) = 0"

section \<open>The table refines a map\<close>

definition table_inv :: "file_table \<Rightarrow> bool" where
  "table_inv t \<longleftrightarrow> length (file_hash t) = HASH_BUCKETS \<and>
     (\<forall>i < HASH_BUCKETS. \<forall>f \<in> set (file_hash t ! i). \<exists>n. file_name (files t f) = Some n \<and> hash_name n = i) \<and>
     (\<forall>f. file_hashed (files t f) \<longleftrightarrow> (\<exists>b \<in> set (file_hash t). f \<in> set b)) \<and>
     (\<forall>f g. file_hashed (files t f) \<longrightarrow> file_hashed (files t g) \<longrightarrow> file_name (files t f) = file_name (files t g) \<longrightarrow> f = g)"

text \<open>The map: a name is bound to the file that is in the table under it.\<close>

definition table_map :: "file_table \<Rightarrow> bytes \<Rightarrow> nat option" where
  "table_map t = lookup_file_hash t"

lemma hash_name_bound [simp]: "hash_name n < HASH_BUCKETS"
  using unat_and_mask [of "jhash n 0" 9] by (simp add: hash_name_def HASH_BUCKETS_def mask_eq_exp_minus_1)

lemma lookup_bucket_Some: "lookup_bucket fs b n = Some f \<Longrightarrow> f \<in> set b \<and> file_name (fs f) = Some n"
  by (induction b) (auto split: option.splits if_splits)

lemma lookup_bucket_None: "lookup_bucket fs b n = None \<longleftrightarrow> (\<forall>f \<in> set b. file_name (fs f) \<noteq> Some n)"
  by (induction b) (auto split: option.splits)

lemma table_invD:
  assumes "table_inv t"
  shows "length (file_hash t) = HASH_BUCKETS"
    and "\<And>i f. i < HASH_BUCKETS \<Longrightarrow> f \<in> set (file_hash t ! i) \<Longrightarrow> \<exists>n. file_name (files t f) = Some n \<and> hash_name n = i"
    and "\<And>f. file_hashed (files t f) \<longleftrightarrow> (\<exists>b \<in> set (file_hash t). f \<in> set b)"
    and "\<And>f g. file_hashed (files t f) \<Longrightarrow> file_hashed (files t g) \<Longrightarrow> file_name (files t f) = file_name (files t g) \<Longrightarrow> f = g"
  using assms by (auto simp: table_inv_def)

lemma table_invI:
  assumes "length (file_hash t) = HASH_BUCKETS"
    and "\<And>i f. i < HASH_BUCKETS \<Longrightarrow> f \<in> set (file_hash t ! i) \<Longrightarrow> \<exists>n. file_name (files t f) = Some n \<and> hash_name n = i"
    and "\<And>f. file_hashed (files t f) \<longleftrightarrow> (\<exists>b \<in> set (file_hash t). f \<in> set b)"
    and "\<And>f g. file_hashed (files t f) \<Longrightarrow> file_hashed (files t g) \<Longrightarrow> file_name (files t f) = file_name (files t g) \<Longrightarrow> f = g"
  shows "table_inv t"
  using assms by (auto simp: table_inv_def)

lemma in_buckets: "(\<exists>b \<in> set bs. g \<in> set b) \<longleftrightarrow> (\<exists>i < length bs. g \<in> set (bs ! i))"
  by (auto simp: in_set_conv_nth [of _ bs] Bex_def)

lemma hashed_bucket:
  assumes "table_inv t" and "file_hashed (files t f)" and "file_name (files t f) = Some n"
  shows "f \<in> set (file_hash t ! hash_name n)"
proof -
  obtain i where i: "i < HASH_BUCKETS" "f \<in> set (file_hash t ! i)"
    using table_invD(3) [OF assms(1), of f] assms(2) unfolding in_buckets table_invD(1) [OF assms(1)] by blast
  then show ?thesis using table_invD(2) [OF assms(1) i] assms(3) by auto
qed

lemma lookup_iff:
  assumes "table_inv t"
  shows "lookup_file_hash t n = Some f \<longleftrightarrow> file_hashed (files t f) \<and> file_name (files t f) = Some n"
proof
  assume "lookup_file_hash t n = Some f"
  then have f: "f \<in> set (file_hash t ! hash_name n)" "file_name (files t f) = Some n"
    using lookup_bucket_Some by (auto simp: lookup_file_hash_def)
  then have "file_hashed (files t f)"
    using table_invD(1,3) [OF assms] hash_name_bound [of n] by (metis nth_mem)
  with f show "file_hashed (files t f) \<and> file_name (files t f) = Some n" by simp
next
  assume f: "file_hashed (files t f) \<and> file_name (files t f) = Some n"
  then obtain g where g: "lookup_file_hash t n = Some g"
    using hashed_bucket [OF assms] lookup_bucket_None by (fastforce simp: lookup_file_hash_def)
  then have "g \<in> set (file_hash t ! hash_name n)" "file_name (files t g) = Some n"
    using lookup_bucket_Some by (auto simp: lookup_file_hash_def)
  then have "file_hashed (files t g)" using table_invD(1,3) [OF assms] hash_name_bound [of n] by (metis nth_mem)
  then have "g = f" using table_invD(4) [OF assms] f \<open>file_name (files t g) = Some n\<close> by auto
  with g show "lookup_file_hash t n = Some f" by simp
qed


lemma table_map_ran: "table_inv t \<Longrightarrow> f \<in> ran (table_map t) \<longleftrightarrow> file_hashed (files t f)"
proof -
  assume t: "table_inv t"
  have "\<exists>n. file_name (files t f) = Some n" if hashed: "file_hashed (files t f)"
  proof -
    obtain i where "i < HASH_BUCKETS" "f \<in> set (file_hash t ! i)" using table_invD(3) [OF t, of f] hashed unfolding in_buckets table_invD(1) [OF t] by blast
    then show ?thesis using table_invD(2) [OF t] by blast
  qed
  then show "f \<in> ran (table_map t) \<longleftrightarrow> file_hashed (files t f)"
    using lookup_iff [OF t] by (auto simp: ran_def table_map_def)
qed

text \<open>The abstract table: a map from names to files; \<open>nm\<close> gives the names of the files.\<close>

definition spec_add :: "(nat \<Rightarrow> bytes option) \<Rightarrow> (bytes \<rightharpoonup> nat) \<Rightarrow> nat \<Rightarrow> ((bytes \<rightharpoonup> nat) \<times> nat option) option" where
  "spec_add nm m f =
     (if f \<in> ran m then Some (m, None)
      else case nm f of None \<Rightarrow> None
      | Some n \<Rightarrow> (case m n of Some a \<Rightarrow> Some (m, Some a) | None \<Rightarrow> Some (m(n \<mapsto> f), None)))"

definition spec_remove :: "(bytes \<rightharpoonup> nat) \<Rightarrow> nat \<Rightarrow> (bytes \<rightharpoonup> nat)" where
  "spec_remove m f = (\<lambda>n. if m n = Some f then None else m n)"

abbreviation names :: "file_table \<Rightarrow> nat \<Rightarrow> bytes option" where
  "names t \<equiv> \<lambda>f. file_name (files t f)"

lemma map_eqI: "(\<And>n f. m n = Some f \<longleftrightarrow> m' n = Some f) \<Longrightarrow> m = m'"
  by (metis option.exhaust ext)

lemma add_links:
  assumes t: "table_inv t" and new: "\<not> file_hashed (files t f)" "names t f = Some n" "lookup_file_hash t n = None"
  defines "t' \<equiv> t\<lparr>files := (files t)(f := files t f\<lparr>file_hashed := True\<rparr>),
    file_hash := (file_hash t)[hash_name n := file_hash t ! hash_name n @ [f]]\<rparr>"
  shows "table_inv t'" "table_map t' = (table_map t)(n \<mapsto> f)" "names t' = names t"
proof -
  note inv = table_invD [OF t]
  have hb: "hash_name n < length (file_hash t)" using inv(1) by simp
  have hashed: "file_hashed (files t' g) \<longleftrightarrow> g = f \<or> file_hashed (files t g)" for g by (simp add: t'_def)
  have nm: "names t' g = names t g" for g by (simp add: t'_def)
  then show "names t' = names t" by simp
  have linked: "(\<exists>b \<in> set (file_hash t'). g \<in> set b) \<longleftrightarrow> g = f \<or> (\<exists>b \<in> set (file_hash t). g \<in> set b)" for g
    unfolding in_buckets using hb by (auto simp: t'_def nth_list_update split: if_splits)
  have named: "\<exists>m. names t' g = Some m \<and> hash_name m = i" if "i < HASH_BUCKETS" "g \<in> set (file_hash t' ! i)" for i g
  proof -
    have "g \<in> set (file_hash t ! i) \<or> g = f \<and> i = hash_name n"
      using that inv(1) by (auto simp: t'_def nth_list_update split: if_splits)
    then show ?thesis using inv(2) [OF that(1), of g] new(2) by (auto simp: nm)
  qed
  have unique: "g = h" if "file_hashed (files t' g)" "file_hashed (files t' h)" "names t' g = names t' h" for g h
  proof -
    have "\<not> (file_hashed (files t x) \<and> names t x = Some n)" for x using new(3) lookup_iff [OF t, of n x] by simp
    then show ?thesis using that inv(4) [of g h] new(2) unfolding nm hashed by metis
  qed
  have len: "length (file_hash t') = HASH_BUCKETS" using inv(1) by (simp add: t'_def)
  show t': "table_inv t'"
    by (rule table_invI [OF len]) (fact named, simp only: hashed linked inv(3), fact unique)
  show "table_map t' = (table_map t)(n \<mapsto> f)"
  proof (rule map_eqI)
    fix k g
    have "lookup_file_hash t' k = Some g \<longleftrightarrow> (g = f \<or> file_hashed (files t g)) \<and> names t g = Some k"
      unfolding lookup_iff [OF t'] hashed nm ..
    moreover have "lookup_file_hash t k = Some g \<longleftrightarrow> file_hashed (files t g) \<and> names t g = Some k"
      by (rule lookup_iff [OF t])
    ultimately show "table_map t' k = Some g \<longleftrightarrow> ((table_map t)(n \<mapsto> f)) k = Some g"
      using new by (auto simp: table_map_def)
  qed
qed


lemma remove_unlinks:
  assumes t: "table_inv t" and f: "file_hashed (files t f)"
  defines "t' \<equiv> t\<lparr>files := (files t)(f := files t f\<lparr>file_hashed := False\<rparr>), file_hash := map (filter (\<lambda>g. g \<noteq> f)) (file_hash t)\<rparr>"
  shows "table_inv t'" "table_map t' = spec_remove (table_map t) f" "names t' = names t"
proof -
  note inv = table_invD [OF t]
  have hashed: "file_hashed (files t' g) \<longleftrightarrow> g \<noteq> f \<and> file_hashed (files t g)" for g by (simp add: t'_def)
  have nm: "names t' g = names t g" for g by (simp add: t'_def)
  then show "names t' = names t" by simp
  have linked: "(\<exists>b \<in> set (file_hash t'). g \<in> set b) \<longleftrightarrow> g \<noteq> f \<and> (\<exists>b \<in> set (file_hash t). g \<in> set b)" for g
    by (auto simp: t'_def)
  have named: "\<exists>m. names t' g = Some m \<and> hash_name m = i" if "i < HASH_BUCKETS" "g \<in> set (file_hash t' ! i)" for i g
    using that inv(1) inv(2) [OF that(1), of g] unfolding nm by (simp add: t'_def)
  have unique: "g = h" if "file_hashed (files t' g)" "file_hashed (files t' h)" "names t' g = names t' h" for g h
    using that inv(4) [of g h] unfolding nm hashed by blast
  have len: "length (file_hash t') = HASH_BUCKETS" using inv(1) by (simp add: t'_def)
  show t': "table_inv t'"
    by (rule table_invI [OF len]) (fact named, simp only: hashed linked inv(3), fact unique)
  show "table_map t' = spec_remove (table_map t) f"
  proof (rule map_eqI)
    fix k g
    have "lookup_file_hash t' k = Some g \<longleftrightarrow> (g \<noteq> f \<and> file_hashed (files t g)) \<and> names t g = Some k"
      unfolding lookup_iff [OF t'] hashed nm ..
    moreover have "lookup_file_hash t k = Some g \<longleftrightarrow> file_hashed (files t g) \<and> names t g = Some k"
      by (rule lookup_iff [OF t])
    ultimately show "table_map t' k = Some g \<longleftrightarrow> spec_remove (table_map t) f k = Some g"
      by (auto simp: table_map_def spec_remove_def)
  qed
qed

lemma add_refines:
  assumes "table_inv t"
  shows "case add_file_hash t f of
      None \<Rightarrow> spec_add (names t) (table_map t) f = None
    | Some (t', r) \<Rightarrow> spec_add (names t) (table_map t) f = Some (table_map t', r) \<and> table_inv t' \<and> names t' = names t"
proof (cases "file_hashed (files t f)")
  case True
  then show ?thesis using assms table_map_ran [OF assms] by (simp add: add_file_hash_def spec_add_def)
next
  case False
  then have ran: "f \<notin> ran (table_map t)" using table_map_ran [OF assms] by simp
  show ?thesis
  proof (cases "names t f")
    case None
    then show ?thesis using False ran by (simp add: add_file_hash_def spec_add_def)
  next
    case (Some n)
    show ?thesis
    proof (cases "lookup_file_hash t n")
      case None
      then show ?thesis
        using add_links [OF assms False Some None] False Some ran by (simp add: add_file_hash_def spec_add_def table_map_def)
    next
      case (Some a)
      then show ?thesis
        using assms False \<open>names t f = Some n\<close> ran by (simp add: add_file_hash_def spec_add_def table_map_def)
    qed
  qed
qed

lemma remove_refines:
  assumes "table_inv t"
  shows "\<exists>t'. remove_file_hash t f = Some t' \<and> table_map t' = spec_remove (table_map t) f \<and> table_inv t' \<and> names t' = names t"
proof (cases "file_hashed (files t f)")
  case True
  then have "\<exists>b \<in> set (file_hash t). f \<in> set b" using table_invD(3) [OF assms] by blast
  then show ?thesis using remove_unlinks [OF assms True] True by (simp add: remove_file_hash_def)
next
  case False
  then have "spec_remove (table_map t) f = table_map t"
    using table_map_ran [OF assms, of f] by (auto simp: spec_remove_def ran_def)
  then show ?thesis using False assms by (simp add: remove_file_hash_def)
qed

text \<open>Sequences of operations; a result is what \<^verbatim>\<open>add_file_hash\<close> or the lookup returns.\<close>

datatype file_op = Add nat | Remove nat | Lookup bytes

fun file_run :: "file_table \<Rightarrow> file_op list \<Rightarrow> (nat option list) option" where
  "file_run t [] = Some []"
| "file_run t (Add f # ops) = do { (t, r) \<leftarrow> add_file_hash t f; rs \<leftarrow> file_run t ops; Some (r # rs) }"
| "file_run t (Remove f # ops) = do { t \<leftarrow> remove_file_hash t f; file_run t ops }"
| "file_run t (Lookup n # ops) = do { rs \<leftarrow> file_run t ops; Some (lookup_file_hash t n # rs) }"

fun spec_run :: "(nat \<Rightarrow> bytes option) \<Rightarrow> (bytes \<rightharpoonup> nat) \<Rightarrow> file_op list \<Rightarrow> (nat option list) option" where
  "spec_run nm m [] = Some []"
| "spec_run nm m (Add f # ops) = do { (m, r) \<leftarrow> spec_add nm m f; rs \<leftarrow> spec_run nm m ops; Some (r # rs) }"
| "spec_run nm m (Remove f # ops) = spec_run nm (spec_remove m f) ops"
| "spec_run nm m (Lookup n # ops) = do { rs \<leftarrow> spec_run nm m ops; Some (m n # rs) }"

lemma file_run_spec: "table_inv t \<Longrightarrow> file_run t ops = spec_run (names t) (table_map t) ops"
proof (induction ops arbitrary: t)
  case (Cons op ops)
  show ?case
  proof (cases op)
    case (Add f)
    show ?thesis
      using add_refines [OF Cons.prems, of f] Cons.IH by (cases "add_file_hash t f") (auto simp: Add)
  next
    case (Remove f)
    then show ?thesis using remove_refines [OF Cons.prems, of f] Cons.IH by auto
  next
    case (Lookup n)
    then show ?thesis using Cons by (simp add: table_map_def)
  qed
qed simp

text \<open>
  C32 (refinement): on a fresh table, with no file marked as hashed, every sequence of additions, removals and
  lookups returns what the same sequence returns on a map from names to files: adding a name twice gives the
  file that has it, removing a file frees its name, and no assertion fails.
\<close>

theorem file_hash_refines_map:
  assumes "\<forall>f. \<not> file_hashed (fs f)"
  shows "file_run (file_hash_init fs) ops = spec_run (\<lambda>f. file_name (fs f)) Map.empty ops"
proof -
  have inv: "table_inv (file_hash_init fs)" using assms by (auto simp: table_inv_def file_hash_init_def HASH_BUCKETS_def)
  have "lookup_file_hash (file_hash_init fs) n = None" for n
    using hash_name_bound [of n] by (simp add: lookup_file_hash_def file_hash_init_def)
  then have "table_map (file_hash_init fs) = Map.empty" by (auto simp: table_map_def)
  then show ?thesis using file_run_spec [OF inv, of ops] by (simp add: file_hash_init_def)
qed

theorem file_hash_refines_map_witness:
  "file_run (file_hash_init (\<lambda>f. \<lparr>file_name = Some [97], file_hashed = False\<rparr>)) [Add 1, Add 2, Lookup [97], Remove 1, Add 2, Lookup [97]] =
    Some [None, Some 1, Some 1, None, Some 2]"
  by (subst file_hash_refines_map) (auto simp: spec_add_def spec_remove_def ran_def)

end
