(* ===== verification/File_Names.thy ===== *)
theory File_Names
  imports Bloom File_Hash
begin

text \<open>
  The list of allocated file names of \<^verbatim>\<open>filesetup.c\<close> behind the Bloom filter of \<^verbatim>\<open>filehash.c\<close>. The filter may claim a
  name that was never added, but it never misses one, and the list is searched behind it: together they
  decide membership exactly. The proof uses the filter only through the interface of an approximate set.
\<close>

section \<open>Definitions\<close>

record alloc_names =
  file_bloom :: bloom
  filename_list :: "bytes list"

definition BLOOM_SIZE :: u64 where "BLOOM_SIZE = 16 * 1024 * 1024"

definition file_bloom_exists :: "bool \<Rightarrow> bool \<Rightarrow> bloom \<Rightarrow> bytes \<Rightarrow> bool \<Rightarrow> (bloom \<times> bool) option" where
  "file_bloom_exists arm64 intel b fname add = bloom_string arm64 intel b fname add"

definition already_allocated :: "bool \<Rightarrow> bool \<Rightarrow> alloc_names \<Rightarrow> bytes \<Rightarrow> bool \<Rightarrow> (alloc_names \<times> bool) option" where
  "already_allocated arm64 intel st fname add = do {
     (b, ret) \<leftarrow> file_bloom_exists arm64 intel (file_bloom st) fname add;
     let st = st\<lparr>file_bloom := b\<rparr>;
     if \<not> ret then Some (st, ret)
     else Some (st, fname \<in> set (filename_list st))
   }"

definition is_already_allocated :: "bool \<Rightarrow> bool \<Rightarrow> alloc_names \<Rightarrow> bytes \<Rightarrow> (alloc_names \<times> bool) option" where
  "is_already_allocated arm64 intel st fname = already_allocated arm64 intel st fname False"

definition set_already_allocated :: "bool \<Rightarrow> bool \<Rightarrow> alloc_names \<Rightarrow> bytes \<Rightarrow> alloc_names option" where
  "set_already_allocated arm64 intel st fname = do {
     (st, ret) \<leftarrow> already_allocated arm64 intel st fname True;
     Some (if \<not> ret then st\<lparr>filename_list := filename_list st @ [fname]\<rparr> else st)
   }"

text \<open>Only the list is freed; the filter keeps its bits.\<close>

definition free_already_allocated :: "alloc_names \<Rightarrow> alloc_names" where
  "free_already_allocated st = (if filename_list st = [] then st else st\<lparr>filename_list := []\<rparr>)"

section \<open>The list behind the filter is exact\<close>

definition names_inv :: "bool \<Rightarrow> bool \<Rightarrow> alloc_names \<Rightarrow> bool" where
  "names_inv arm64 intel st \<longleftrightarrow> bloom_ok (file_bloom st) \<and> distinct (filename_list st) \<and>
     (\<forall>n \<in> set (filename_list st). bloom_mem arm64 intel (file_bloom st) n)"

lemma already_allocated_exact:
  assumes "names_inv arm64 intel st" and "key_ok n"
  shows "\<exists>b. already_allocated arm64 intel st n add = Some (st\<lparr>file_bloom := b\<rparr>, n \<in> set (filename_list st)) \<and>
    bloom_ok b \<and> (\<forall>x \<in> set (if add then n # filename_list st else filename_list st). bloom_mem arm64 intel b x)"
proof -
  have inv: "bloom_ok (file_bloom st)" "\<forall>n \<in> set (filename_list st). bloom_mem arm64 intel (file_bloom st) n"
    using assms(1) by (simp_all add: names_inv_def)
  obtain b where b: "bloom_string arm64 intel (file_bloom st) n add = Some (b, bloom_mem arm64 intel (file_bloom st) n)"
    "bloom_mem arm64 intel (file_bloom st) n \<and> n \<in> set (filename_list st) \<longleftrightarrow> n \<in> set (filename_list st)"
    "bloom_ok b" "\<forall>x \<in> set (if add then n # filename_list st else filename_list st). bloom_mem arm64 intel b x"
    using bloom.filter_exact [OF inv(2,1) assms(2), of add] by blast
  have "already_allocated arm64 intel st n add = Some (st\<lparr>file_bloom := b\<rparr>, n \<in> set (filename_list st))"
    using b(1,2) by (auto simp: already_allocated_def file_bloom_exists_def Let_def)
  then show ?thesis using b(3,4) by blast
qed

lemma set_already_allocated_exact:
  assumes "names_inv arm64 intel st" and "key_ok n"
  shows "\<exists>st'. set_already_allocated arm64 intel st n = Some st' \<and> names_inv arm64 intel st' \<and>
    set (filename_list st') = insert n (set (filename_list st))"
proof -
  obtain b where b: "already_allocated arm64 intel st n True = Some (st\<lparr>file_bloom := b\<rparr>, n \<in> set (filename_list st))"
    "bloom_ok b" "\<forall>x \<in> set (n # filename_list st). bloom_mem arm64 intel b x"
    using already_allocated_exact [OF assms, of True] by auto
  then show ?thesis
    using assms(1) by (auto simp: set_already_allocated_def names_inv_def)
qed

datatype name_op = Set bytes | Test bytes | Free

fun names_run :: "bool \<Rightarrow> bool \<Rightarrow> alloc_names \<Rightarrow> name_op list \<Rightarrow> bool list option" where
  "names_run arm64 intel st [] = Some []"
| "names_run arm64 intel st (Set n # ops) = do { st \<leftarrow> set_already_allocated arm64 intel st n; names_run arm64 intel st ops }"
| "names_run arm64 intel st (Test n # ops) = do {
     (st, r) \<leftarrow> is_already_allocated arm64 intel st n;
     rs \<leftarrow> names_run arm64 intel st ops;
     Some (r # rs)
   }"
| "names_run arm64 intel st (Free # ops) = names_run arm64 intel (free_already_allocated st) ops"

text \<open>The specification: a set of names.\<close>

fun name_set_run :: "bytes set \<Rightarrow> name_op list \<Rightarrow> bool list" where
  "name_set_run S [] = []"
| "name_set_run S (Set n # ops) = name_set_run (insert n S) ops"
| "name_set_run S (Test n # ops) = (n \<in> S) # name_set_run S ops"
| "name_set_run S (Free # ops) = name_set_run {} ops"

fun op_names :: "name_op \<Rightarrow> bytes list" where
  "op_names (Set n) = [n]"
| "op_names (Test n) = [n]"
| "op_names Free = []"

lemma names_run_spec:
  "names_inv arm64 intel st \<Longrightarrow> \<forall>op \<in> set ops. \<forall>n \<in> set (op_names op). key_ok n \<Longrightarrow>
    names_run arm64 intel st ops = Some (name_set_run (set (filename_list st)) ops)"
proof (induction ops arbitrary: st)
  case (Cons op ops)
  show ?case
  proof (cases op)
    case (Set n)
    then show ?thesis using set_already_allocated_exact [OF Cons.prems(1), of n] Cons by auto
  next
    case (Test n)
    obtain b where b: "already_allocated arm64 intel st n False = Some (st\<lparr>file_bloom := b\<rparr>, n \<in> set (filename_list st))"
      "bloom_ok b" "\<forall>x \<in> set (filename_list st). bloom_mem arm64 intel b x"
      using already_allocated_exact [OF Cons.prems(1), of n False] Cons.prems(2) Test by auto
    then have "names_inv arm64 intel (st\<lparr>file_bloom := b\<rparr>)" using Cons.prems(1) by (simp add: names_inv_def)
    from Cons.IH [OF this] show ?thesis using b(1) Cons.prems(2) Test by (simp add: is_already_allocated_def)
  next
    case Free
    have free: "names_inv arm64 intel (free_already_allocated st)" "filename_list (free_already_allocated st) = []"
      using Cons.prems(1) by (simp_all add: names_inv_def free_already_allocated_def)
    from Cons.IH [OF free(1)] show ?thesis using free(2) Cons.prems(2) Free by simp
  qed
qed simp

text \<open>
  C30 (refinement): with the filter \<^verbatim>\<open>file_hash_init\<close> makes and an empty list, every sequence of marking names as
  allocated, asking for names and freeing the list answers as a set of names would: the false positives of
  the filter never show, and freeing the list without clearing the filter does no harm.
\<close>

theorem allocated_names_exact:
  assumes "bloom_new True BLOOM_SIZE = Some b" and "\<forall>op \<in> set ops. \<forall>n \<in> set (op_names op). length n < 2 ^ 31"
  shows "names_run arm64 intel \<lparr>file_bloom = b, filename_list = []\<rparr> ops = Some (name_set_run {} ops)"
proof -
  have "bloom_ok b" using bloom_new_ok(1) [OF assms(1)] by (simp add: BLOOM_SIZE_def)
  then have "names_inv arm64 intel \<lparr>file_bloom = b, filename_list = []\<rparr>" by (simp add: names_inv_def)
  then show ?thesis using names_run_spec [of arm64 intel _ ops] assms(2) by (simp add: key_ok_def)
qed

theorem allocated_names_exact_witness:
  "\<exists>b. bloom_new True BLOOM_SIZE = Some b \<and>
    names_run True False \<lparr>file_bloom = b, filename_list = []\<rparr> [Test [97], Set [97], Test [97], Test [98], Free, Test [97]] =
      Some [False, True, False, False]"
proof -
  obtain b where b: "bloom_new True BLOOM_SIZE = Some b" by (simp add: bloom_new_def Let_def)
  show ?thesis
    using allocated_names_exact [OF b, of "[Test [97], Set [97], Test [97], Test [98], Free, Test [97]]" True False] b
    by (auto simp del: names_run.simps)
qed

end
