(* ===== verification/Pattern.thy ===== *)
theory Pattern
  imports Bytes
begin

text \<open>
  \<^verbatim>\<open>lib/pattern.c\<close>, the second half: copying a pattern over a buffer, comparing a buffer with a pattern
  that starts anywhere, and pasting formats (the block offset) into it. Lengths are \<^verbatim>\<open>unsigned int\<close>: naturals
  below \<open>2 ^ 32\<close>, with the doubling of \<^verbatim>\<open>dup_pattern\<close> written out modulo \<open>2 ^ 32\<close>. A null pointer is \<open>None\<close>
  only where the code tests for it; the callers in the model pass the arrays themselves, so these tests
  are tests of the lengths.
\<close>

section \<open>Error codes\<close>

definition EINVAL :: int where "EINVAL = 22"
definition EILSEQ :: int where "EILSEQ = 84"

section \<open>Copying\<close>

text \<open>
  The loop of \<^verbatim>\<open>dup_pattern\<close>. It copies the filled prefix behind itself; a copy of no bytes would repeat for
  ever, which the equation over \<open>option\<close> leaves open. \<^verbatim>\<open>memcpy\<close> requires regions that do not overlap.
\<close>

definition memcpy_within :: "bytes \<Rightarrow> nat \<Rightarrow> nat \<Rightarrow> nat \<Rightarrow> bytes option" where
  "memcpy_within mem dst src n = (do {
     c_assert (dst + n \<le> src \<or> src + n \<le> dst);
     c_assert (src + n \<le> length mem);
     memcpy_at mem dst (drop src mem) n })"

partial_function (option) dup_pattern_loop :: "bytes \<Rightarrow> nat \<Rightarrow> nat \<Rightarrow> nat \<Rightarrow> bytes option" where
  "dup_pattern_loop out left off len =
     (if left = 0 then Some out
      else do {
        out \<leftarrow> memcpy_within out off 0 len;
        dup_pattern_loop out (left - len) (off * 2 mod 2 ^ 32) (min (left - len) (off * 2 mod 2 ^ 32)) })"

definition dup_pattern :: "bytes \<Rightarrow> nat \<Rightarrow> (bytes \<times> int) option" where
  "dup_pattern out pattern_len =
     (if length out \<le> pattern_len then Some (out, 0)
      else do {
        out \<leftarrow> dup_pattern_loop out (length out - pattern_len) pattern_len (min (length out - pattern_len) pattern_len);
        Some (out, 0) })"

definition cpy_pattern :: "bytes \<Rightarrow> bytes \<Rightarrow> (bytes \<times> int) option" where
  "cpy_pattern pattern out =
     (if length pattern = 0 \<or> length out = 0 then Some (out, - EINVAL)
      else do {
        out \<leftarrow> memcpy_at out 0 pattern (min (length pattern) (length out));
        dup_pattern out (length pattern) })"

section \<open>Comparing\<close>

text \<open>\<^verbatim>\<open>memcmp(a, b, n) != 0\<close>, faulting when it would read outside either array.\<close>

definition memcmp_ne :: "bytes \<Rightarrow> bytes \<Rightarrow> nat \<Rightarrow> bool option" where
  "memcmp_ne a b n = (if n \<le> length a \<and> n \<le> length b then Some (take n a \<noteq> take n b) else None)"

definition cmp_pattern :: "bytes \<Rightarrow> nat \<Rightarrow> bytes \<Rightarrow> int option" where
  "cmp_pattern pattern off buf = (let pattern_size = length pattern; len = length buf in do {
     rc \<leftarrow> (if pattern_size < len then memcmp_ne buf (drop pattern_size buf) (len - pattern_size) else Some False);
     if rc then Some (- EILSEQ)
     else do {
       let size1 = (if off \<noteq> 0 then min len (pattern_size - off) else 0);
       rc \<leftarrow> (if off \<noteq> 0 then memcmp_ne buf (drop off pattern) size1 else Some False);
       if rc then Some (- EILSEQ)
       else (let buf = drop size1 buf; len = len - size1 in
         if len \<noteq> 0 then do {
           rc \<leftarrow> memcmp_ne buf pattern (min len (if off \<noteq> 0 then off else pattern_size));
           if rc then Some (- EILSEQ) else Some 0 }
         else Some 0) } })"

section \<open>Formats\<close>

text \<open>
  A format descriptor has the name it is written with, the number of bytes it reserves, and a callback
  that pastes into the buffer: given the bytes of the buffer from the position on and the length, it
  returns them changed with a return code.
\<close>

record 'priv pattern_fmt_desc =
  fmt_name :: string
  fmt_len :: nat
  fmt_paste :: "bytes \<Rightarrow> nat \<Rightarrow> 'priv \<Rightarrow> (bytes \<times> int) option"

record 'priv pattern_fmt =
  fmt_off :: nat
  fmt_desc :: "'priv pattern_fmt_desc"

fun paste_formats :: "bytes \<Rightarrow> 'priv pattern_fmt list \<Rightarrow> 'priv \<Rightarrow> (bytes \<times> int) option" where
  "paste_formats pattern [] priv = Some (pattern, 0)"
| "paste_formats pattern (f # fs) priv =
     (if length pattern \<le> fmt_off f then Some (pattern, 0)
      else do {
        (b, rc) \<leftarrow> fmt_paste (fmt_desc f) (drop (fmt_off f) pattern)
                    (min (length pattern - fmt_off f) (fmt_len (fmt_desc f))) priv;
        if rc \<noteq> 0 then Some (take (fmt_off f) pattern @ b, rc)
        else paste_formats (take (fmt_off f) pattern @ b) fs priv })"

definition paste_format_inplace :: "bytes \<Rightarrow> 'priv pattern_fmt list \<Rightarrow> 'priv \<Rightarrow> (bytes \<times> int) option" where
  "paste_format_inplace pattern fmt priv =
     (if length pattern = 0 then Some (pattern, - EINVAL) else paste_formats pattern fmt priv)"

definition paste_format :: "bytes \<Rightarrow> 'priv pattern_fmt list \<Rightarrow> bytes \<Rightarrow> 'priv \<Rightarrow> (bytes \<times> int) option" where
  "paste_format pattern fmt out priv =
     (if length pattern = 0 \<or> length out = 0 then Some (out, - EINVAL)
      else (let len = min (length pattern) (length out) in do {
        out \<leftarrow> memcpy_at out 0 pattern len;
        (b, rc) \<leftarrow> paste_format_inplace (take len out) fmt priv;
        let out = b @ drop len out;
        if rc \<noteq> 0 then Some (out, rc) else dup_pattern out (length pattern) }))"

section \<open>Periodic buffers\<close>

text \<open>What the buffer should hold: the pattern repeated, starting at offset \<open>off\<close> of it.\<close>

definition periodic :: "bytes \<Rightarrow> nat \<Rightarrow> nat \<Rightarrow> bytes" where
  "periodic p off n = map (\<lambda>i. p ! ((off + i) mod length p)) [0..<n]"

lemma length_periodic [simp]: "length (periodic p off n) = n"
  by (simp add: periodic_def)

lemma nth_periodic [simp]: "i < n \<Longrightarrow> periodic p off n ! i = p ! ((off + i) mod length p)"
  by (simp add: periodic_def)

lemma take_periodic [simp]: "take k (periodic p off n) = periodic p off (min k n)"
  by (rule nth_equalityI) simp_all

lemma periodic_mod: "periodic p (off mod length p) n = periodic p off n"
  by (rule nth_equalityI) (simp_all add: mod_simps)

lemma periodic_eq_take: "n \<le> length p \<Longrightarrow> periodic p 0 n = take n p"
  by (rule nth_equalityI) simp_all

lemma drop_periodic: "k \<le> n \<Longrightarrow> drop k (periodic p off n) = periodic p (off + k) (n - k)"
  by (rule nth_equalityI) (simp_all add: add.assoc)

lemma periodic_append: "periodic p off (m + n) = periodic p off m @ periodic p (off + m) n"
  using append_take_drop_id [of m "periodic p off (m + n)"] by (simp add: drop_periodic)

text \<open>
  Loop invariant of \<^verbatim>\<open>dup_pattern\<close>: the first \<open>off\<close> bytes are periodic, \<open>off\<close> is a multiple of the pattern length, and
  \<open>left\<close> bytes behind them are missing. Since \<open>off\<close> only doubles while bytes are missing, it stays below
  \<open>2 ^ 32\<close>, so the copies are never empty and the loop ends.
\<close>

lemma dup_pattern_loop_result:
  assumes "0 < length p" and "length out < 2 ^ 32" and "take off out = periodic p 0 off"
    and "length p dvd off" and "0 < off" and "left = length out - off" and "off \<le> length out"
  shows "dup_pattern_loop out left off (min left off) = Some (periodic p 0 (length out))"
  using assms(2-)
proof (induction left arbitrary: out off rule: less_induct)
  case (less left)
  show ?case
  proof (cases "left = 0")
    case True
    then show ?thesis using less.prems by (subst dup_pattern_loop.simps) simp
  next
    case False
    let ?len = "min left off"
    let ?out = "take off out @ take ?len out @ drop (off + ?len) out"
    have len: "off + ?len \<le> length out" "0 < ?len" using less.prems False by auto
    have cp: "memcpy_within out off 0 ?len = Some ?out"
      using len less.prems(6) by (simp add: memcpy_within_def)
    have lo: "length ?out = length out" using len by simp
    have "take ?len out = take ?len (take off out)" by (simp add: min.commute)
    also have "\<dots> = periodic p off ?len"
      using less.prems(2,3) by (simp add: min.commute)
        (subst periodic_mod [symmetric], use less.prems(3) in \<open>simp add: dvd_eq_mod_eq_0\<close>)
    finally have per: "take (off + ?len) ?out = periodic p 0 (off + ?len)"
      using less.prems(2) len by (simp add: periodic_append)
    show ?thesis
    proof (cases "left \<le> off")
      case True
      then have "off + ?len = length out" using less.prems(5,6) by simp
      then have "?out = periodic p 0 (length out)" using per lo by simp
      then show ?thesis
        using cp False True by (subst dup_pattern_loop.simps, simp) (subst dup_pattern_loop.simps, simp)
    next
      case big: False
      then have l: "?len = off" "off + off < length out" using less.prems(5,6) by auto
      then have off2: "off * 2 mod 2 ^ 32 = off + off" using less.prems(1) by simp
      have "dup_pattern_loop ?out (left - off) (off + off) (min (left - off) (off + off)) = Some (periodic p 0 (length ?out))"
      proof (rule less.IH)
        show "left - off < left" using False less.prems(4) by simp
        show "take (off + off) ?out = periodic p 0 (off + off)" using per l(1) by simp
      qed (use less.prems l lo in auto)
      then show ?thesis using cp False l lo off2 by (subst dup_pattern_loop.simps) simp
    qed
  qed
qed

lemma dup_pattern_result:
  assumes "0 < length p" and "length out < 2 ^ 32"
    and "take (min (length p) (length out)) out = take (length out) p"
  shows "dup_pattern out (length p) = Some (periodic p 0 (length out), 0)"
proof (cases "length out \<le> length p")
  case True
  then show ?thesis using assms by (simp add: dup_pattern_def periodic_eq_take)
next
  case False
  have "dup_pattern_loop out (length out - length p) (length p) (min (length out - length p) (length p)) =
      Some (periodic p 0 (length out))"
    by (rule dup_pattern_loop_result) (use assms False in \<open>auto simp: periodic_eq_take\<close>)
  then show ?thesis using False by (simp add: dup_pattern_def)
qed

lemma cpy_pattern_result:
  assumes "0 < length pattern" and "0 < length out" and "length out < 2 ^ 32"
  shows "cpy_pattern pattern out = Some (periodic pattern 0 (length out), 0)"
proof -
  let ?n = "min (length pattern) (length out)"
  let ?out = "take ?n pattern @ drop ?n out"
  have "memcpy_at out 0 pattern ?n = Some ?out" by simp
  moreover have "dup_pattern ?out (length pattern) = Some (periodic pattern 0 (length ?out), 0)"
    by (rule dup_pattern_result) (use assms in \<open>auto simp: min_def\<close>)
  ultimately show ?thesis using assms by (simp add: cpy_pattern_def)
qed

text \<open>
  C40 (termination): \<^verbatim>\<open>cpy_pattern\<close> ends on every pattern and every buffer that are not empty and whose length fits an \<^verbatim>\<open>unsigned int\<close>,
  never leaves either, and leaves the pattern repeated over the whole buffer. The doubling of the copied
  length does not wrap around to zero, where the loop would run for ever.
\<close>

theorem cpy_pattern_fills:
  assumes "0 < length pattern" and "0 < length out" and "length out < 2 ^ 32"
  shows "cpy_pattern pattern out = Some (periodic pattern 0 (length out), 0)"
  using assms by (rule cpy_pattern_result)

theorem cpy_pattern_fills_witness: "cpy_pattern [1, 2, 3] (replicate 8 0) = Some ([1, 2, 3, 1, 2, 3, 1, 2], 0)"
  using cpy_pattern_fills [of "[1, 2, 3]" "replicate 8 0"] by (simp add: periodic_def upt_rec)

text \<open>
  A buffer is periodic if it agrees with itself shifted by the pattern length and its first bytes are
  those of the pattern: the reason why \<^verbatim>\<open>cmp_pattern\<close> needs no loop.
\<close>

lemma self_shift_periodic:
  assumes "0 < k" and "k < length xs" and "take (length xs - k) xs = drop k xs" and "i < length xs"
  shows "xs ! i = xs ! (i mod k)"
  using assms(4)
proof (induction i rule: less_induct)
  case (less i)
  show ?case
  proof (cases "i < k")
    case False
    then have "xs ! i = drop k xs ! (i - k)" using less.prems assms(2) by simp
    also have "\<dots> = xs ! (i - k)" using False less.prems unfolding assms(3) [symmetric] by simp
    also have "\<dots> = xs ! ((i - k) mod k)" using less.IH [of "i - k"] False less.prems assms(1) by simp
    also have "(i - k) mod k = i mod k" using False by (simp add: le_mod_geq)
    finally show ?thesis .
  qed simp
qed

lemma periodic_shift:
  assumes "buf = periodic p off (length buf)" and "length p < length buf"
  shows "take (length buf - length p) buf = drop (length p) buf"
proof -
  have "take (length buf - length p) buf = periodic p off (length buf - length p)"
    by (subst assms(1)) simp
  also have "\<dots> = periodic p (off + length p) (length buf - length p)"
    by (subst (1 2) periodic_mod [symmetric]) simp
  also have "\<dots> = drop (length p) (periodic p off (length buf))" using assms(2) by (simp add: drop_periodic)
  finally show ?thesis using assms(1) by simp
qed

lemma periodic_iff_shift:
  assumes "0 < length p"
  shows "buf = periodic p off (length buf) \<longleftrightarrow>
    (length p < length buf \<longrightarrow> take (length buf - length p) buf = drop (length p) buf) \<and>
    take (length p) buf = periodic p off (min (length p) (length buf))" (is "?l \<longleftrightarrow> ?s \<and> ?t")
proof (intro iffI conjI)
  assume l: ?l
  show ?s using periodic_shift [OF l] by blast
  show ?t by (subst l) simp
next
  assume st: "?s \<and> ?t"
  have head: "buf ! i = p ! ((off + i) mod length p)" if "i < length p" "i < length buf" for i
    using st that nth_take [of i "length p" buf] by simp
  show ?l
  proof (rule nth_equalityI)
    fix i
    assume i: "i < length buf"
    have "buf ! i = buf ! (i mod length p)"
    proof (cases "length p < length buf")
      case True
      then show ?thesis using self_shift_periodic [OF assms True _ i] st by blast
    next
      case False
      then show ?thesis using i by simp
    qed
    also have "\<dots> = p ! ((off + i mod length p) mod length p)"
      using head [of "i mod length p"] assms i mod_less_eq_dividend [of i "length p"] by simp
    finally show "buf ! i = periodic p off (length buf) ! i" using i by (simp add: mod_simps)
  qed simp
qed

text \<open>The two comparisons with the pattern itself, from \<open>off\<close> to its end and from its beginning.\<close>

lemma periodic_wrap:
  assumes "off < length p" and "n \<le> length p"
  shows "periodic p off n = take n (drop off p) @ take (n - (length p - off)) p"
proof (rule nth_equalityI)
  fix i
  assume i: "i < length (periodic p off n)"
  show "periodic p off n ! i = (take n (drop off p) @ take (n - (length p - off)) p) ! i"
  proof (cases "off + i < length p")
    case True
    then have "i < length p - off" by linarith
    then show ?thesis using i True by (simp add: nth_append)
  next
    case False
    then have "(off + i) mod length p = off + i - length p" using i assms by (simp add: le_mod_geq)
    moreover have "min (length p - off) n = length p - off" "i - (length p - off) = off + i - length p"
      "\<not> i < length p - off" using False assms i by simp_all
    ultimately show ?thesis using i assms False by (simp add: nth_append)
  qed
qed (use assms in auto)

lemma cmp_pattern_result:
  assumes "off < length pattern"
  shows "cmp_pattern pattern off buf =
    Some (if \<forall>i < length buf. buf ! i = pattern ! ((off + i) mod length pattern) then 0 else - EILSEQ)"
proof -
  let ?k = "length pattern" and ?n = "length buf"
  have p: "0 < ?k" using assms by linarith
  have "(\<forall>i < ?n. buf ! i = pattern ! ((off + i) mod ?k)) \<longleftrightarrow> buf = periodic pattern off ?n"
    by (auto simp: list_eq_iff_nth_eq)
  also have "\<dots> \<longleftrightarrow> (?k < ?n \<longrightarrow> take (?n - ?k) buf = drop ?k buf) \<and>
      take ?k buf = take (min ?k ?n) (drop off pattern) @ take (min ?k ?n - (?k - off)) pattern"
    unfolding periodic_iff_shift [OF p] by (subst periodic_wrap [OF assms]) simp_all
  finally have spec: "(\<forall>i < ?n. buf ! i = pattern ! ((off + i) mod ?k)) \<longleftrightarrow> \<dots>" .
  define ok where "ok \<longleftrightarrow> (\<forall>i < ?n. buf ! i = pattern ! ((off + i) mod ?k))"
  define sh where "sh \<longleftrightarrow> (?k < ?n \<longrightarrow> take (?n - ?k) buf = drop ?k buf)"
  have rc: "(if ?k < ?n then memcmp_ne buf (drop ?k buf) (?n - ?k) else Some False) = Some (\<not> sh)"
    by (simp add: sh_def memcmp_ne_def)
  have "cmp_pattern pattern off buf = Some (if ok then 0 else - EILSEQ)"
  proof (cases "off = 0")
    case True
    have "ok \<longleftrightarrow> sh \<and> take (min ?n ?k) buf = take (min ?n ?k) pattern"
      unfolding ok_def spec sh_def using True by (simp add: min_def)
    then show ?thesis using True p rc by (cases sh) (auto simp: cmp_pattern_def memcmp_ne_def Let_def)
  next
    case False
    let ?s = "min ?n (?k - off)"
    have a: "take ?k buf = take ?s buf @ take (min (?n - ?s) off) (drop ?s buf)"
      using assms by (auto simp: min_def take_add [symmetric])
    have b: "take (min ?k ?n) (drop off pattern) = take ?s (drop off pattern)" by (auto simp: min_def)
    have c: "min ?k ?n - (?k - off) = min (?n - ?s) off" using assms by (auto simp: min_def)
    have "length (take ?s buf) = length (take ?s (drop off pattern))" by simp
    then have spec: "ok \<longleftrightarrow> sh \<and> take ?s buf = take ?s (drop off pattern) \<and>
        take (min (?n - ?s) off) (drop ?s buf) = take (min (?n - ?s) off) pattern"
      unfolding ok_def spec sh_def unfolding a b c by (simp only: append_eq_append_conv simp_thms)
    have r1: "memcmp_ne buf (drop off pattern) ?s = Some (take ?s buf \<noteq> take ?s (drop off pattern))"
      by (simp add: memcmp_ne_def)
    have r2: "memcmp_ne (drop ?s buf) pattern (min (?n - ?s) off) =
        Some (take (min (?n - ?s) off) (drop ?s buf) \<noteq> take (min (?n - ?s) off) pattern)"
      using assms by (simp add: memcmp_ne_def)
    have "cmp_pattern pattern off buf = (if \<not> sh then Some (- EILSEQ)
        else if take ?s buf \<noteq> take ?s (drop off pattern) then Some (- EILSEQ)
        else if ?n - ?s \<noteq> 0 then
          (if take (min (?n - ?s) off) (drop ?s buf) \<noteq> take (min (?n - ?s) off) pattern then Some (- EILSEQ) else Some 0)
        else Some 0)"
      unfolding cmp_pattern_def Let_def rc using False by (simp only: if_True if_False r1 r2 bind.bind_lunit not_False_eq_True)
    also have "\<dots> = Some (if ok then 0 else - EILSEQ)" unfolding spec by (simp split: if_split)
    finally show ?thesis .
  qed
  then show ?thesis unfolding ok_def .
qed

text \<open>
  \<^verbatim>\<open>cmp_pattern\<close>, which avoids every loop, accepts a buffer exactly if each of its bytes
  is the pattern's byte at that position counted cyclically from \<open>off\<close>, and it never reads outside the buffer
  or the pattern. In the other case it returns \<^verbatim>\<open>-EILSEQ\<close>.
\<close>

theorem cmp_pattern_iff:
  assumes "off < length pattern"
  shows "cmp_pattern pattern off buf =
    Some (if \<forall>i < length buf. buf ! i = pattern ! ((off + i) mod length pattern) then 0 else - EILSEQ)"
  using assms by (rule cmp_pattern_result)

theorem cmp_pattern_iff_witness:
  "cmp_pattern [1, 2, 3] 1 [2, 3, 1, 2] = Some 0 \<and> cmp_pattern [1, 2, 3] 1 [2, 3, 1, 9] = Some (- EILSEQ)"
proof -
  let ?p = "[1, 2, 3] :: bytes"
  have "\<forall>i < length [2, 3, 1, 2 :: u8]. [2, 3, 1, 2 :: u8] ! i = ?p ! ((1 + i) mod length ?p)"
    "\<not> (\<forall>i < length [2, 3, 1, 9 :: u8]. [2, 3, 1, 9 :: u8] ! i = ?p ! ((1 + i) mod length ?p))"
    by (simp_all add: All_less_Suc)
  then show ?thesis
    using cmp_pattern_iff [of 1 ?p "[2, 3, 1, 2]"] cmp_pattern_iff [of 1 ?p "[2, 3, 1, 9]"]
    by (simp only: if_True if_False length_Cons) simp
qed

end
