(* ===== verification/Pattern_Parse.thy ===== *)
theory Pattern_Parse
  imports Pattern
begin

text \<open>
  \<^verbatim>\<open>lib/pattern.c\<close>, the first half, and \<^verbatim>\<open>lib/strntol.c\<close>: turning the text of \<^verbatim>\<open>verify_pattern=\<close> or \<^verbatim>\<open>buffer_pattern=\<close>
  into bytes. A pattern is a sequence of quoted strings, files, numbers and formats. A pointer into the text is
  the rest of the text; a parser returns how many characters it took and how many bytes it filled.

  Two kinds of failure are kept apart: \<open>None\<close> is a failed assertion or an access outside a buffer,
  \<open>Some None\<close> is the null pointer a parser returns for a text it does not accept. The output buffer is
  \<open>None\<close> in the first of the two passes, which only computes the length.
\<close>

section \<open>The C library on text\<close>

definition isspace :: "char \<Rightarrow> bool" where
  "isspace c \<longleftrightarrow> of_char c = (32 :: nat) \<or> 9 \<le> (of_char c :: nat) \<and> (of_char c :: nat) \<le> 13"

definition digit_val :: "char \<Rightarrow> nat option" where
  "digit_val c = (let n = of_char c :: nat in
     if 48 \<le> n \<and> n \<le> 57 then Some (n - 48)
     else if 97 \<le> n \<and> n \<le> 102 then Some (n - 87)
     else if 65 \<le> n \<and> n \<le> 70 then Some (n - 55) else None)"

definition isdigit :: "char \<Rightarrow> bool" where
  "isdigit c \<longleftrightarrow> 48 \<le> (of_char c :: nat) \<and> (of_char c :: nat) \<le> 57"

definition isxdigit :: "char \<Rightarrow> bool" where
  "isxdigit c \<longleftrightarrow> digit_val c \<noteq> None"

definition is_x :: "char \<Rightarrow> bool" where
  "is_x c \<longleftrightarrow> of_char c = (120 :: nat) \<or> of_char c = (88 :: nat)"

definition num_value :: "nat \<Rightarrow> string \<Rightarrow> nat" where
  "num_value base = foldl (\<lambda>v c. v * base + (case digit_val c of Some d \<Rightarrow> d | None \<Rightarrow> 0)) 0"

text \<open>\<^verbatim>\<open>strtol(s, &end, 10)\<close>: the value, cut off at the limits of \<^verbatim>\<open>long\<close>, and the characters taken.\<close>

definition LONG_MAX :: int where "LONG_MAX = 2 ^ 63 - 1"
definition LONG_MIN :: int where "LONG_MIN = - (2 ^ 63)"

definition strtol10 :: "string \<Rightarrow> int \<times> nat" where
  "strtol10 s = (let
     ws = length (takeWhile isspace s);
     t = drop ws s;
     neg = (t \<noteq> [] \<and> of_char (hd t) = (45 :: nat));
     sg = (if t \<noteq> [] \<and> (of_char (hd t) = (45 :: nat) \<or> of_char (hd t) = (43 :: nat)) then 1 else 0);
     ds = takeWhile isdigit (drop sg t);
     v = int (num_value 10 ds)
   in if ds = [] then (0, 0)
      else (if neg then max LONG_MIN (- v) else min LONG_MAX v, ws + sg + length ds))"

text \<open>
  \<^verbatim>\<open>strntol\<close>: at most \<open>sz\<close> characters, copied into a local array of 24 bytes. The end position is
  \<open>None\<close> where the code leaves it pointing into that array.
\<close>

definition strntol :: "string \<Rightarrow> nat \<Rightarrow> int \<times> nat option" where
  "strntol str sz = (let
     sp = length (takeWhile (\<lambda>c. of_char c = (32 :: nat)) (take sz str));
     beg = drop sp str;
     sz = sz - sp
   in if sz = 0 \<or> 24 \<le> sz then (0, Some 0)
      else (let (ret, n) = strtol10 (take sz beg) in
        if ret = LONG_MIN \<or> ret = LONG_MAX then (ret, None) else (ret, Some (sp + n))))"

text \<open>\<^verbatim>\<open>strcasestr(s, "0x")\<close> as an index.\<close>

fun find_0x :: "string \<Rightarrow> nat option" where
  "find_0x (a # b # s) = (if of_char a = (48 :: nat) \<and> is_x b then Some 0 else map_option Suc (find_0x (b # s)))"
| "find_0x _ = None"

text \<open>\<^verbatim>\<open>sscanf(s, "0%*[xX]%*[0-9a-fA-F]%n", &num)\<close> with \<^verbatim>\<open>num\<close> zero before.\<close>

definition scan_hex_prefix :: "string \<Rightarrow> nat" where
  "scan_hex_prefix s = (case s of [] \<Rightarrow> 0 | c # r \<Rightarrow>
     (let x = takeWhile is_x r; h = takeWhile isxdigit (drop (length x) r) in
      if of_char c = (48 :: nat) \<and> x \<noteq> [] \<and> h \<noteq> [] then 1 + length x + length h else 0))"

text \<open>
  \<^verbatim>\<open>sscanf(s, "%2hhx", &b)\<close> and \<^verbatim>\<open>"%1hhx"\<close> on a text of hexadecimal digits, or of a letter \<^verbatim>\<open>x\<close>, which
  matches nothing.
\<close>

definition scan_hhx :: "nat \<Rightarrow> string \<Rightarrow> u8 option" where
  "scan_hhx w s = (let h = takeWhile isxdigit (take w s) in if h = [] then None else Some (of_nat (num_value 16 h)))"

section \<open>The parsers\<close>

type_synonym parsed = "nat \<times> nat \<times> bytes option"

text \<open>Stores behind the output pointer, nothing when it is null.\<close>

definition put :: "bytes option \<Rightarrow> nat \<Rightarrow> bytes \<Rightarrow> bytes option option" where
  "put out at ds = (case out of None \<Rightarrow> Some None | Some b \<Rightarrow> map_option Some (memcpy_at b at ds (length ds)))"

definition strchr :: "string \<Rightarrow> nat \<Rightarrow> nat option" where
  "strchr s q = (let n = length (takeWhile (\<lambda>c. of_char c \<noteq> q) s) in if n < length s then Some n else None)"

definition parse_file :: "(string \<Rightarrow> bytes option) \<Rightarrow> string \<Rightarrow> bytes option \<Rightarrow> nat \<Rightarrow> parsed option option" where
  "parse_file files beg out out_len =
     (if out_len = 0 then Some None
      else do {
        c_assert (beg \<noteq> [] \<and> of_char (hd beg) = (39 :: nat));
        let beg = drop 1 beg;
        case strchr beg 39 of
          None \<Rightarrow> Some None
        | Some n \<Rightarrow> (case files (take n beg) of
            None \<Rightarrow> Some None
          | Some content \<Rightarrow> do {
              out \<leftarrow> put out 0 (take out_len content);
              Some (Some (n + 2, min (length content) out_len, out)) }) })"

definition parse_string :: "string \<Rightarrow> bytes option \<Rightarrow> nat \<Rightarrow> parsed option option" where
  "parse_string beg out out_len =
     (if out_len = 0 then Some None
      else do {
        c_assert (beg \<noteq> [] \<and> of_char (hd beg) = (34 :: nat));
        let beg = drop 1 beg;
        case strchr beg 34 of
          None \<Rightarrow> Some None
        | Some n \<Rightarrow>
            if out_len < n then Some None
            else do {
              out \<leftarrow> put out 0 (map of_char (take n beg));
              Some (Some (n + 2, n, out)) } })"

function dec_loop :: "nat \<Rightarrow> nat \<Rightarrow> u32 \<Rightarrow> bytes option \<Rightarrow> (nat \<times> u32 \<times> bytes option) option" where
  "dec_loop i out_len val out =
     (if val = 0 \<or> out_len = 0 then Some (i, val, out)
      else do {
        out \<leftarrow> put out i [ucast val];
        dec_loop (Suc i) (out_len - 1) (drop_bit 8 val) out })"
  by pat_completeness auto
termination by (relation "measure (\<lambda>(i, out_len, val, out). out_len)") auto

function hex_loop :: "nat \<Rightarrow> nat \<Rightarrow> nat \<Rightarrow> string \<Rightarrow> bytes option \<Rightarrow> (nat \<times> nat \<times> bytes option) option" where
  "hex_loop i num out_len beg out =
     (if num = 0 \<or> out_len = 0 then Some (i, num, out)
      else do {
        out \<leftarrow> (case scan_hhx (if odd num then 1 else 2) beg of None \<Rightarrow> Some out | Some b \<Rightarrow> put out i [b]);
        if odd num then hex_loop (Suc i) (num + 1 - 2) (out_len - 1) (drop 1 beg) out
        else hex_loop (Suc i) (num - 2) (out_len - 1) (drop 2 beg) out })"
  by pat_completeness auto
termination by (relation "measure (\<lambda>(i, num, out_len, beg, out). out_len)") auto

declare dec_loop.simps [simp del] hex_loop.simps [simp del]

definition parse_decimal :: "string \<Rightarrow> bytes option \<Rightarrow> nat \<Rightarrow> parsed option option" where
  "parse_decimal beg out out_len = (let
     num = (case find_0x beg of Some n \<Rightarrow> n | None \<Rightarrow> 0);
     (lval, end) = (if num \<noteq> 0 then strntol beg num else map_prod id Some (strtol10 beg))
   in if end = Some 0 \<or> 2 ^ 31 - 1 < lval \<or> lval < - (2 ^ 31) then Some None
      else do {
        n \<leftarrow> end;
        if lval = 0 then do {
          out \<leftarrow> put out 0 [0];
          Some (Some (n, 1, out)) }
        else do {
          (i, val, out) \<leftarrow> dec_loop 0 out_len (word_of_int lval) out;
          if val \<noteq> 0 then Some None else Some (Some (n, i, out)) } })"

text \<open>The look back for a combined text such as \<^verbatim>\<open>0xff0x14\<close>: a last zero that starts the next number is given back.\<close>

definition hex_digits :: "string \<Rightarrow> nat \<Rightarrow> nat" where
  "hex_digits beg num =
     (if num < length beg \<and> of_char (beg ! (num - 1)) = (48 :: nat) \<and> is_x (beg ! num) then num - 1 else num)"

definition parse_number :: "string \<Rightarrow> bytes option \<Rightarrow> nat \<Rightarrow> parsed option option" where
  "parse_number beg out out_len =
     (if out_len = 0 then Some None
      else (let num = scan_hex_prefix beg in
        if num = 0 then parse_decimal beg out out_len
        else do {
          c_assert (2 < num);
          let beg = drop 2 beg;
          let num = hex_digits beg (num - 2);
          (i, left, out) \<leftarrow> hex_loop 0 num out_len beg out;
          if left \<noteq> 0 then Some None else Some (Some (num + 2, i, out)) }))"

definition parse_format ::
  "'priv pattern_fmt_desc list \<Rightarrow> string \<Rightarrow> bytes option \<Rightarrow> nat \<Rightarrow> nat \<Rightarrow> nat \<Rightarrow> (parsed \<times> 'priv pattern_fmt) option option" where
  "parse_format descs inp out parsed out_len fmt_sz =
     (if out_len = 0 \<or> fmt_sz = 0 then Some None
      else do {
        c_assert (inp \<noteq> [] \<and> of_char (hd inp) = (37 :: nat));
        case find (\<lambda>desc. take (length (fmt_name desc)) inp = fmt_name desc) descs of
          None \<Rightarrow> Some None
        | Some desc \<Rightarrow>
            if out_len < fmt_len desc then Some None
            else do {
              out \<leftarrow> put out 0 (replicate (fmt_len desc) 0);
              Some (Some ((length (fmt_name desc), fmt_len desc, out), \<lparr>fmt_off = parsed, fmt_desc = desc\<rparr>)) } })"

text \<open>One round of the loop: the parser chosen by the next character, and the format it found.\<close>

definition parse_item ::
  "(string \<Rightarrow> bytes option) \<Rightarrow> 'priv pattern_fmt_desc list \<Rightarrow> string \<Rightarrow> bytes option \<Rightarrow> nat \<Rightarrow> nat \<Rightarrow> nat \<Rightarrow>
     (parsed \<times> 'priv pattern_fmt list) option option" where
  "parse_item files descs beg out parsed out_len fmt_rem = (let
     c = (if beg = [] then 0 else of_char (hd beg) :: nat);
     plain = map_option (map_option (\<lambda>r. (r, [])))
   in if c = 39 then plain (parse_file files beg out out_len)
      else if c = 34 then plain (parse_string beg out out_len)
      else if c = 37 then map_option (map_option (\<lambda>(r, f). (r, [f]))) (parse_format descs beg out parsed out_len fmt_rem)
      else plain (parse_number beg out out_len))"

text \<open>
  The loop of \<^verbatim>\<open>parse_and_fill_pattern\<close>. \<open>out\<close> is the output from the current position on, \<open>pos\<close> the position (zero
  in the pass without a buffer, where both pointers are null); the result holds what was filled.
\<close>

function parse_loop ::
  "(string \<Rightarrow> bytes option) \<Rightarrow> 'priv pattern_fmt_desc list \<Rightarrow> string \<Rightarrow> nat \<Rightarrow> bytes option \<Rightarrow> nat \<Rightarrow> nat \<Rightarrow> nat \<Rightarrow>
     (nat \<times> bytes option \<times> 'priv pattern_fmt list) option option" where
  "parse_loop files descs beg in_len out pos out_len fmt_rem =
     (case parse_item files descs beg out pos out_len fmt_rem of
        None \<Rightarrow> None
      | Some None \<Rightarrow> Some None
      | Some (Some ((took, filled, out'), fs)) \<Rightarrow>
          if took \<le> in_len \<and> 0 < filled \<and> filled \<le> out_len \<and> length fs \<le> fmt_rem
          then (if in_len - took = 0 then Some (Some (filled, out', fs))
                else map_option (map_option (\<lambda>(tot, rest, fs').
                       (filled + tot, map_option (\<lambda>o'. take filled o' @ the rest) out', fs @ fs')))
                     (parse_loop files descs (drop took beg) (in_len - took) (map_option (drop filled) out')
                        (if out' = None then pos else pos + filled) (out_len - filled) (fmt_rem - length fs)))
          else None)"
  by pat_completeness auto
termination
  by (relation "measure (\<lambda>(files, descs, beg, in_len, out, pos, out_len, fmt_rem). out_len)") auto

declare parse_loop.simps [simp del]

text \<open>
  The return value, the buffer, the formats, and the number of formats stored back. What a failed parse has
  already written is dropped: the only caller frees the buffer.
\<close>

definition parse_and_fill_pattern ::
  "(string \<Rightarrow> bytes option) \<Rightarrow> 'priv pattern_fmt_desc list \<Rightarrow> string \<Rightarrow> nat \<Rightarrow> bytes option \<Rightarrow> nat \<Rightarrow> nat \<Rightarrow>
     (int \<times> bytes option \<times> 'priv pattern_fmt list \<times> nat) option" where
  "parse_and_fill_pattern files descs inp in_len out out_len fmt_sz =
     (if in_len = 0 \<or> out_len = 0 then Some (- EINVAL, None, [], fmt_sz)
      else (case parse_loop files descs inp in_len out 0 out_len fmt_sz of
          None \<Rightarrow> None
        | Some None \<Rightarrow> Some (- EINVAL, None, [], fmt_sz)
        | Some (Some (tot, out, fs)) \<Rightarrow> Some (int tot, out, fs, length fs)))"

definition MAX_PATTERN_SIZE :: nat where "MAX_PATTERN_SIZE = 134217728"

definition parse_and_fill_pattern_alloc ::
  "(nat \<Rightarrow> bytes) \<Rightarrow> (string \<Rightarrow> bytes option) \<Rightarrow> 'priv pattern_fmt_desc list \<Rightarrow> string \<Rightarrow> nat \<Rightarrow> nat \<Rightarrow>
     (int \<times> bytes option \<times> 'priv pattern_fmt list \<times> nat) option" where
  "parse_and_fill_pattern_alloc malloc files descs inp in_len fmt_sz = do {
     (count, _, fs, fmt_sz) \<leftarrow> parse_and_fill_pattern files descs inp in_len None MAX_PATTERN_SIZE fmt_sz;
     if count < 0 then Some (count, None, fs, fmt_sz)
     else do {
       (count, out, fs, fmt_sz) \<leftarrow> parse_and_fill_pattern files descs inp in_len (Some (malloc (nat count))) (nat count) fmt_sz;
       Some (count, if count < 0 then None else out, fs, fmt_sz) } }"

section \<open>The two passes agree\<close>

lemma put_simps [simp]:
  "put None at ds = Some None"
  "at + length ds \<le> length b \<Longrightarrow> put (Some b) at ds = Some (Some (take at b @ ds @ drop (at + length ds) b))"
  by (simp_all add: put_def)

text \<open>
  The contract of a parser: what it takes and fills without a buffer, it takes and fills with a buffer
  that has room for it, without touching what lies behind, as long as the room is not larger than the limit
  of the first pass.
\<close>

locale two_pass =
  fixes parse :: "bytes option \<Rightarrow> nat \<Rightarrow> parsed option option"
  assumes null: "parse None lim = Some (Some (n, f, out)) \<Longrightarrow> out = None"
    and refill: "parse None lim = Some (Some (n, f, out)) \<Longrightarrow> 0 < f \<Longrightarrow> f \<le> length b \<Longrightarrow> length b \<le> lim \<Longrightarrow>
      \<exists>b'. parse (Some b) (length b) = Some (Some (n, f, Some b')) \<and> length b' = length b \<and> drop f b' = drop f b"

interpretation string_pass: two_pass "parse_string beg" for beg
proof
  fix lim n f out and b :: bytes
  assume *: "parse_string beg None lim = Some (Some (n, f, out))"
  then show "out = None"
    by (auto simp: parse_string_def Let_def c_assert_def split: if_splits option.splits)
  assume "0 < f" "f \<le> length b" "length b \<le> lim"
  with * show "\<exists>b'. parse_string beg (Some b) (length b) = Some (Some (n, f, Some b')) \<and> length b' = length b \<and> drop f b' = drop f b"
    by (auto simp: parse_string_def Let_def c_assert_def strchr_def split: if_splits option.splits)
qed

interpretation file_pass: two_pass "parse_file files beg" for files beg
proof
  fix lim n f out and b :: bytes
  assume *: "parse_file files beg None lim = Some (Some (n, f, out))"
  then show "out = None"
    by (auto simp: parse_file_def Let_def c_assert_def split: if_splits option.splits)
  assume "0 < f" "f \<le> length b" "length b \<le> lim"
  with * show "\<exists>b'. parse_file files beg (Some b) (length b) = Some (Some (n, f, Some b')) \<and> length b' = length b \<and> drop f b' = drop f b"
    by (auto simp: parse_file_def Let_def c_assert_def min_def split: if_splits option.splits)
qed

lemma drop_behind_store:
  assumes "i < j" and "i < length b"
  shows "drop j (take i b @ [x] @ drop (Suc i) b) = drop j b"
  using assms upd_conv_take_nth_drop [of i b x] drop_update_cancel [of i j b x] by simp

lemma dec_loop_pass:
  "dec_loop i lim val None = Some (j, v, out) \<Longrightarrow> out = None \<and> i \<le> j \<and>
    (v = 0 \<longrightarrow> j - i \<le> m \<longrightarrow> m \<le> lim \<longrightarrow> i + m \<le> length b \<longrightarrow>
      (\<exists>b'. dec_loop i m val (Some b) = Some (j, 0, Some b') \<and> length b' = length b \<and> drop j b' = drop j b))"
proof (induction i lim val "None :: bytes option" arbitrary: m b rule: dec_loop.induct)
  case (1 i lim val)
  show ?case
  proof (cases "val = 0 \<or> lim = 0")
    case True
    with "1.prems" show ?thesis by (auto simp: dec_loop.simps)
  next
    case False
    with "1.prems" have d: "dec_loop (Suc i) (lim - 1) (drop_bit 8 val) None = Some (j, v, out)"
      by (simp add: dec_loop.simps [of i])
    note ih = "1.hyps" [OF False put_simps(1) d]
    show ?thesis
    proof (intro conjI impI)
      show "out = None" "i \<le> j" using ih [of 0 "[]"] by auto
    next
      assume v: "v = 0" "j - i \<le> m" "m \<le> lim" "i + m \<le> length b"
      let ?b = "take i b @ [ucast val] @ drop (Suc i) b"
      have ij: "Suc i \<le> j" using ih by blast
      then have m: "0 < m" using v(2) by simp
      then have p: "put (Some b) i [ucast val] = Some (Some ?b)" using v(4) by simp
      have len: "length ?b = length b" using m v(4) by simp
      obtain b' where b': "dec_loop (Suc i) (m - 1) (drop_bit 8 val) (Some ?b) = Some (j, 0, Some b')"
        "length b' = length ?b" "drop j b' = drop j ?b"
        using ih [of "m - 1" ?b] v m len by auto
      have "dec_loop i m val (Some b) = Some (j, 0, Some b')"
        using False m p b'(1) by (simp add: dec_loop.simps [of i m])
      moreover have "drop j ?b = drop j b" using ij v(4) m by (intro drop_behind_store) simp_all
      ultimately show "\<exists>b'. dec_loop i m val (Some b) = Some (j, 0, Some b') \<and> length b' = length b \<and> drop j b' = drop j b"
        using b'(2,3) len by auto
    qed
  qed
qed

lemma hex_loop_pass:
  "hex_loop i num lim s None = Some (j, left, out) \<Longrightarrow> out = None \<and> i \<le> j \<and>
    (left = 0 \<longrightarrow> j - i \<le> m \<longrightarrow> m \<le> lim \<longrightarrow> i + m \<le> length b \<longrightarrow>
      (\<exists>b'. hex_loop i num m s (Some b) = Some (j, 0, Some b') \<and> length b' = length b \<and> drop j b' = drop j b))"
proof (induction lim arbitrary: i num s m b)
  case 0
  then show ?case by (auto simp: hex_loop.simps)
next
  case (Suc lim)
  show ?case
  proof (cases "num = 0")
    case True
    with Suc.prems show ?thesis by (auto simp: hex_loop.simps)
  next
    case False
    let ?w = "if odd num then 1 else 2"
    let ?num = "if odd num then num + 1 - 2 else num - 2"
    have step: "hex_loop i num (Suc lm) s o1 = hex_loop (Suc i) ?num lm (drop ?w s) o2"
      if "(case scan_hhx ?w s of None \<Rightarrow> Some o1 | Some c \<Rightarrow> put o1 i [c]) = Some o2" for lm o1 o2
      using False that by (simp add: hex_loop.simps [of i num])
    have d: "hex_loop (Suc i) ?num lim (drop ?w s) None = Some (j, left, out)"
      using Suc.prems step [of None None lim] by (simp split: option.splits)
    note ih = Suc.IH [OF d]
    show ?thesis
    proof (intro conjI impI)
      show "out = None" "i \<le> j" using ih [of 0 "[]"] by auto
    next
      assume v: "left = 0" "j - i \<le> m" "m \<le> Suc lim" "i + m \<le> length b"
      have ij: "Suc i \<le> j" using ih by blast
      then obtain m' where m: "m = Suc m'" using v(2) by (cases m) auto
      define b1 where "b1 = (case scan_hhx ?w s of None \<Rightarrow> b | Some c \<Rightarrow> take i b @ [c] @ drop (Suc i) b)"
      have p: "(case scan_hhx ?w s of None \<Rightarrow> Some (Some b) | Some c \<Rightarrow> put (Some b) i [c]) = Some (Some b1)"
        using v(4) m by (simp add: b1_def split: option.split)
      have len: "length b1 = length b" using m v(4) by (auto simp: b1_def split: option.split)
      have dr: "drop j b1 = drop j b"
        using drop_behind_store [of i j b] m v(4) ij by (simp add: b1_def split: option.split)
      obtain b' where b': "hex_loop (Suc i) ?num m' (drop ?w s) (Some b1) = Some (j, 0, Some b')"
        "length b' = length b1" "drop j b' = drop j b1"
        using ih [of m' b1] v m len by auto
      have "hex_loop i num m s (Some b) = Some (j, 0, Some b')"
        unfolding m step [OF p] by (rule b'(1))
      then show "\<exists>b'. hex_loop i num m s (Some b) = Some (j, 0, Some b') \<and> length b' = length b \<and> drop j b' = drop j b"
        using b'(2,3) len dr by auto
    qed
  qed
qed

lemma parse_decimal_pass:
  assumes "parse_decimal beg None lim = Some (Some (n, f, out))"
  shows "out = None" and "0 < f \<Longrightarrow> f \<le> length b \<Longrightarrow> length b \<le> lim \<Longrightarrow>
      \<exists>b'. parse_decimal beg (Some b) (length b) = Some (Some (n, f, Some b')) \<and> length b' = length b \<and> drop f b' = drop f b"
proof -
  obtain lval e where le: "(if (case find_0x beg of Some n \<Rightarrow> n | None \<Rightarrow> 0) \<noteq> 0
      then strntol beg (case find_0x beg of Some n \<Rightarrow> n | None \<Rightarrow> 0) else map_prod id Some (strtol10 beg)) = (lval, e)"
    by (rule prod.exhaust)
  have e: "e = Some n" "n \<noteq> 0" and ok: "\<not> (e = Some 0 \<or> 2 ^ 31 - 1 < lval \<or> lval < - (2 ^ 31))"
    using assms unfolding parse_decimal_def Let_def le prod.case
    by (auto split: if_splits bind_splits)
  have unf: "parse_decimal beg out' m = (if lval = 0 then do { out \<leftarrow> put out' 0 [0]; Some (Some (n, 1, out)) }
        else do { (i, val, out) \<leftarrow> dec_loop 0 m (word_of_int lval) out';
                  if val \<noteq> 0 then Some None else Some (Some (n, i, out)) })" for out' m
    using ok unfolding parse_decimal_def Let_def le prod.case by (simp add: e)
  show "out = None"
    using assms dec_loop_pass [of 0 lim "word_of_int lval"] unfolding unf
    by (auto split: if_splits bind_splits)
  assume f: "0 < f" "f \<le> length b" "length b \<le> lim"
  show "\<exists>b'. parse_decimal beg (Some b) (length b) = Some (Some (n, f, Some b')) \<and> length b' = length b \<and> drop f b' = drop f b"
  proof (cases "lval = 0")
    case True
    then have "f = 1" using assms unfolding unf by simp
    with f True show ?thesis unfolding unf by simp
  next
    case False
    then have "dec_loop 0 lim (word_of_int lval) None = Some (f, 0, out)"
      using assms unfolding unf by (auto split: if_splits bind_splits)
    with False dec_loop_pass [OF this, of "length b" b] f show ?thesis unfolding unf by auto
  qed
qed

interpretation number_pass: two_pass "parse_number beg" for beg
proof
  fix lim n f out and b :: bytes
  assume *: "parse_number beg None lim = Some (Some (n, f, out))"
  then have lim: "lim \<noteq> 0" by (cases "lim = 0") (simp_all add: parse_number_def)
  define num where "num = hex_digits (drop 2 beg) (scan_hex_prefix beg - 2)"
  have unf: "parse_number beg out' m = (if m = 0 then Some None
      else if scan_hex_prefix beg = 0 then parse_decimal beg out' m
      else if 2 < scan_hex_prefix beg then do {
          (i, left, out) \<leftarrow> hex_loop 0 num m (drop 2 beg) out';
          if left \<noteq> 0 then Some None else Some (Some (num + 2, i, out)) }
      else None)" for out' m
    unfolding num_def by (simp add: parse_number_def Let_def c_assert_def)
  show "out = None"
  proof (cases "scan_hex_prefix beg = 0")
    case True
    then have "parse_decimal beg None lim = Some (Some (n, f, out))" using * lim unfolding unf by simp
    then show ?thesis by (rule parse_decimal_pass)
  next
    case False
    then show ?thesis using * lim hex_loop_pass [of 0 num lim "drop 2 beg"] unfolding unf
      by (auto split: if_splits bind_splits)
  qed
  assume f: "0 < f" "f \<le> length b" "length b \<le> lim"
  show "\<exists>b'. parse_number beg (Some b) (length b) = Some (Some (n, f, Some b')) \<and> length b' = length b \<and> drop f b' = drop f b"
  proof (cases "scan_hex_prefix beg = 0")
    case True
    then have "parse_decimal beg None lim = Some (Some (n, f, out))" using * lim unfolding unf by simp
    from parse_decimal_pass(2) [OF this f] show ?thesis using True f unfolding unf by auto
  next
    case False
    then have "hex_loop 0 num lim (drop 2 beg) None = Some (f, 0, out)" "n = num + 2" "2 < scan_hex_prefix beg"
      using * lim unfolding unf by (auto split: if_splits bind_splits)
    with False hex_loop_pass [OF this(1), of "length b" b] f show ?thesis unfolding unf by auto
  qed
qed

lemma parse_format_pass:
  assumes "parse_format descs beg None pos lim rem = Some (Some ((n, f, out), fm))"
  shows "out = None" and "0 < rem' \<Longrightarrow> 0 < f \<Longrightarrow> f \<le> length b \<Longrightarrow> length b \<le> lim \<Longrightarrow>
      \<exists>b' fm'. parse_format descs beg (Some b) pos' (length b) rem' = Some (Some ((n, f, Some b'), fm')) \<and>
        length b' = length b \<and> drop f b' = drop f b"
  using assms by (auto simp: parse_format_def c_assert_def split: if_splits option.splits)

lemma parse_item_pass:
  assumes "parse_item files descs beg None pos lim rem = Some (Some ((n, f, out), fs))"
  shows "out = None" and "0 < f \<Longrightarrow> f \<le> length b \<Longrightarrow> length b \<le> lim \<Longrightarrow> length fs \<le> rem' \<Longrightarrow>
      \<exists>b' fs'. parse_item files descs beg (Some b) pos' (length b) rem' = Some (Some ((n, f, Some b'), fs')) \<and>
        length b' = length b \<and> drop f b' = drop f b \<and> length fs' = length fs"
proof -
  let ?c = "if beg = [] then 0 else of_char (hd beg) :: nat"
  consider "?c = 39" | "?c = 34" | "?c = 37" | "?c \<noteq> 39" "?c \<noteq> 34" "?c \<noteq> 37" by blast
  note cs = this
  show "out = None"
    using cs assms string_pass.null file_pass.null number_pass.null parse_format_pass(1)
    unfolding parse_item_def Let_def by cases auto
  assume f: "0 < f" "f \<le> length b" "length b \<le> lim" "length fs \<le> rem'"
  from cs show "\<exists>b' fs'. parse_item files descs beg (Some b) pos' (length b) rem' = Some (Some ((n, f, Some b'), fs')) \<and>
        length b' = length b \<and> drop f b' = drop f b \<and> length fs' = length fs"
  proof cases
    case 1
    then have "parse_file files beg None lim = Some (Some (n, f, out))" "fs = []"
      using assms unfolding parse_item_def Let_def by auto
    from file_pass.refill [OF this(1) f(1-3)] 1 this(2) show ?thesis
      unfolding parse_item_def Let_def by auto
  next
    case 2
    then have "parse_string beg None lim = Some (Some (n, f, out))" "fs = []"
      using assms unfolding parse_item_def Let_def by auto
    from string_pass.refill [OF this(1) f(1-3)] 2 this(2) show ?thesis
      unfolding parse_item_def Let_def by auto
  next
    case 3
    then obtain fm where fm: "parse_format descs beg None pos lim rem = Some (Some ((n, f, out), fm))" "fs = [fm]"
      using assms unfolding parse_item_def Let_def by auto
    then have "0 < rem'" using f(4) by simp
    from parse_format_pass(2) [OF fm(1) this f(1-3)] 3 fm(2) show ?thesis
      unfolding parse_item_def Let_def by fastforce
  next
    case 4
    then have "parse_number beg None lim = Some (Some (n, f, out))" "fs = []"
      using assms unfolding parse_item_def Let_def by auto
    from number_pass.refill [OF this(1) f(1-3)] 4 this(2) show ?thesis
      unfolding parse_item_def Let_def by auto
  qed
qed

lemma parse_loop_pass:
  "parse_loop files descs beg in_len None pos lim rem = Some (Some (n, out, fs)) \<Longrightarrow> 0 < n \<and> n \<le> lim \<and>
    (length b = n \<longrightarrow> length fs \<le> rem' \<longrightarrow>
      (\<exists>b' fs'. parse_loop files descs beg in_len (Some b) pos' n rem' = Some (Some (n, Some b', fs')) \<and>
        length b' = n \<and> length fs' = length fs))"
proof (induction lim arbitrary: beg in_len pos rem n out fs b pos' rem' rule: less_induct)
  case (less lim)
  obtain took f out' fm where it: "parse_item files descs beg None pos lim rem = Some (Some ((took, f, out'), fm))"
    and g: "took \<le> in_len" "0 < f" "f \<le> lim" "length fm \<le> rem"
    using less.prems unfolding parse_loop.simps [of files descs beg in_len None]
    by (auto split: option.splits if_splits)
  note out' = parse_item_pass(1) [OF it]
  have item: "\<exists>c fm'. parse_item files descs beg (Some b) pos' (length b) rem' = Some (Some ((took, f, Some c), fm')) \<and>
      length c = length b \<and> length fm' = length fm" if "f \<le> length b" "length b \<le> lim" "length fm \<le> rem'" for b pos' rem'
    using parse_item_pass(2) [OF it g(2) that] by blast
  have unf: "parse_loop files descs beg in_len None pos lim rem =
      (if in_len - took = 0 then Some (Some (f, out', fm))
       else map_option (map_option (\<lambda>(tot, rest, fs'). (f + tot, None, fm @ fs')))
         (parse_loop files descs (drop took beg) (in_len - took) None pos (lim - f) (rem - length fm)))"
    using g by (subst parse_loop.simps) (simp add: it out')
  have unf': "parse_loop files descs beg in_len (Some b) pos' m rem' =
      (if in_len - took = 0 then Some (Some (f, Some c, fm'))
       else map_option (map_option (\<lambda>(tot, rest, fs'). (f + tot, Some (take f c @ the rest), fm' @ fs')))
         (parse_loop files descs (drop took beg) (in_len - took) (Some (drop f c)) (pos' + f) (m - f) (rem' - length fm')))"
    if "parse_item files descs beg (Some b) pos' m rem' = Some (Some ((took, f, Some c), fm'))"
      "f \<le> m" "length fm' \<le> rem'" for b c pos' m rem' fm'
    using g that by (subst parse_loop.simps) simp
  show ?case
  proof (cases "in_len - took = 0")
    case True
    then have n: "n = f" "fs = fm" using less.prems unfolding unf by auto
    show ?thesis
    proof (intro conjI impI)
      assume b: "length b = n" "length fs \<le> rem'"
      obtain c fm' where c: "parse_item files descs beg (Some b) pos' n rem' = Some (Some ((took, f, Some c), fm'))"
        "length c = length b" "length fm' = length fm"
        using item [of b rem' pos'] b n g(3) by auto
      have "parse_loop files descs beg in_len (Some b) pos' n rem' = Some (Some (n, Some c, fm'))"
        using c(3) b n True by (subst unf' [OF c(1)]) simp_all
      then show "\<exists>b' fs'. parse_loop files descs beg in_len (Some b) pos' n rem' = Some (Some (n, Some b', fs')) \<and>
          length b' = n \<and> length fs' = length fs" using c(2,3) b(1) n by auto
    qed (use n g in auto)
  next
    case False
    then obtain k rest fs1 where k: "parse_loop files descs (drop took beg) (in_len - took) None pos (lim - f) (rem - length fm) =
        Some (Some (k, rest, fs1))" and n: "n = f + k" "fs = fm @ fs1"
      using less.prems unfolding unf by auto
    have "lim - f < lim" using g by linarith
    note ih = less.IH [OF this k]
    have "k \<le> lim - f" using ih by blast
    then have kl: "f + k \<le> lim" using g by linarith
    show ?thesis
    proof (intro conjI impI)
      show "n \<le> lim" using kl n by simp
    next
      assume b: "length b = n" "length fs \<le> rem'"
      obtain c fm' where c: "parse_item files descs beg (Some b) pos' n rem' = Some (Some ((took, f, Some c), fm'))"
        "length c = length b" "length fm' = length fm"
        using item [of b rem' pos'] b n kl by auto
      obtain d fs2 where d: "parse_loop files descs (drop took beg) (in_len - took) (Some (drop f c)) (pos' + f) k (rem' - length fm') =
          Some (Some (k, Some d, fs2))" "length d = k" "length fs2 = length fs1"
        using ih [of "drop f c" "rem' - length fm'" "pos' + f"] c(2,3) b n by auto
      have "parse_loop files descs beg in_len (Some b) pos' n rem' = Some (Some (n, Some (take f c @ d), fm' @ fs2))"
        using c(3) b n False d(1) by (subst unf' [OF c(1)]) simp_all
      then show "\<exists>b' fs'. parse_loop files descs beg in_len (Some b) pos' n rem' = Some (Some (n, Some b', fs')) \<and>
          length b' = n \<and> length fs' = length fs" using c(2,3) d(2,3) b(1) n by auto
    qed (use n g in auto)
  qed
qed

text \<open>
  The length computed without a buffer is the length the second pass fills. If the first
  pass accepts a pattern with \<open>n\<close> bytes, then \<^verbatim>\<open>parse_and_fill_pattern_alloc\<close> stays inside the buffer of exactly \<open>n\<close>
  bytes it allocates, whatever that holds, fails no assertion, does not reject the pattern in the second pass, and
  returns \<open>n\<close> with as many formats as the first pass found, although that pass has lowered the limit on formats
  to the number it found.
\<close>

theorem pattern_two_passes:
  assumes "parse_and_fill_pattern files descs inp in_len None MAX_PATTERN_SIZE fmt_sz = Some (int n, out, fs, k)"
    and "\<And>n. length (malloc n) = n"
  shows "\<exists>b fs'. parse_and_fill_pattern_alloc malloc files descs inp in_len fmt_sz = Some (int n, Some b, fs', k) \<and>
    length b = n \<and> length fs' = k \<and> 0 < n \<and> n \<le> MAX_PATTERN_SIZE"
proof -
  have lim: "0 < MAX_PATTERN_SIZE" by (simp add: MAX_PATTERN_SIZE_def)
  have l: "in_len \<noteq> 0" and p: "parse_loop files descs inp in_len None 0 MAX_PATTERN_SIZE fmt_sz = Some (Some (n, out, fs))"
    and k: "k = length fs"
    using assms(1) by (auto simp: parse_and_fill_pattern_def EINVAL_def split: if_splits option.splits)
  note pass = parse_loop_pass [OF p, of "malloc n" k 0]
  obtain b fs' where b: "parse_loop files descs inp in_len (Some (malloc n)) 0 n k = Some (Some (n, Some b, fs'))"
    "length b = n" "length fs' = k"
    using pass assms(2) k by auto
  have "parse_and_fill_pattern files descs inp in_len (Some (malloc n)) n k = Some (int n, Some b, fs', k)"
    using l b pass by (simp add: parse_and_fill_pattern_def)
  then have "parse_and_fill_pattern_alloc malloc files descs inp in_len fmt_sz = Some (int n, Some b, fs', k)"
    by (simp add: parse_and_fill_pattern_alloc_def assms(1))
  with b pass show ?thesis by blast
qed

theorem pattern_two_passes_witness:
  "\<exists>b. parse_and_fill_pattern_alloc (\<lambda>n. replicate n 7) (\<lambda>f. None) ([] :: unit pattern_fmt_desc list) [CHR 0x22, CHR ''a'', CHR ''b'', CHR 0x22] 4 0 =
    Some (int 2, Some b, [], 0) \<and> length b = 2"
proof -
  have "parse_and_fill_pattern (\<lambda>f. None) ([] :: unit pattern_fmt_desc list) [CHR 0x22, CHR ''a'', CHR ''b'', CHR 0x22] 4 None MAX_PATTERN_SIZE 0 =
      Some (int 2, None, [], 0)"
    by (simp add: parse_and_fill_pattern_def MAX_PATTERN_SIZE_def parse_loop.simps parse_item_def parse_string_def strchr_def)
  from pattern_two_passes [OF this, of "\<lambda>n. replicate n 7"] show ?thesis by auto
qed

section \<open>Hexadecimal text\<close>

text \<open>Bytes written as hexadecimal digits, two for each.\<close>

definition hex_char :: "nat \<Rightarrow> char" where
  "hex_char d = char_of (if d < 10 then 48 + d else 87 + d)"

definition hex_text :: "bytes \<Rightarrow> string" where
  "hex_text ds = concat (map (\<lambda>d. [hex_char (unat d div 16), hex_char (unat d mod 16)]) ds)"

lemma of_char_hex_char: "d < 16 \<Longrightarrow> (of_char (hex_char d) :: nat) = (if d < 10 then 48 + d else 87 + d)"
  by (simp add: hex_char_def)

lemma digit_val_hex_char: "d < 16 \<Longrightarrow> digit_val (hex_char d) = Some d"
  by (auto simp: digit_val_def of_char_hex_char Let_def)

lemma hex_text_Cons: "hex_text (d # ds) = hex_char (unat d div 16) # hex_char (unat d mod 16) # hex_text ds"
  by (simp add: hex_text_def)

lemma length_hex_text: "length (hex_text ds) = 2 * length ds"
  by (induction ds) (simp_all add: hex_text_def)

lemma nibbles: "unat (d :: u8) div 16 < 16" "unat d mod 16 < 16"
proof -
  have "unat d < 256" using unsigned_less [of d] by simp
  then show "unat d div 16 < 16" by (simp add: div_less_iff_less_mult)
qed simp

lemma hex_text_digits: "c \<in> set (hex_text ds) \<Longrightarrow> isxdigit c"
  using digit_val_hex_char nibbles by (fastforce simp: hex_text_def isxdigit_def)

lemma scan_hex_text: "scan_hhx 2 (hex_text (d # ds)) = Some d"
proof -
  have n: "num_value 16 [hex_char (unat d div 16), hex_char (unat d mod 16)] = unat d"
    by (simp add: num_value_def digit_val_hex_char nibbles div_mult_mod_eq [of "unat d" 16, simplified])
  show ?thesis
    by (simp add: scan_hhx_def hex_text_Cons Let_def isxdigit_def digit_val_hex_char nibbles n numeral_2_eq_2)
qed

lemma hex_loop_text:
  assumes "length ds \<le> m" and "i + length ds \<le> length b"
  shows "hex_loop i (2 * length ds) m (hex_text ds) (Some b) =
    Some (i + length ds, 0, Some (take i b @ ds @ drop (i + length ds) b))"
  using assms
proof (induction ds arbitrary: i m b)
  case Nil
  then show ?case by (simp add: hex_loop.simps hex_text_def)
next
  case (Cons d ds)
  let ?b = "take i b @ [d] @ drop (Suc i) b"
  have p: "put (Some b) i [d] = Some (Some ?b)" using Cons.prems by simp
  have "hex_loop i (2 * length (d # ds)) m (hex_text (d # ds)) (Some b) =
      hex_loop (Suc i) (2 * length ds) (m - 1) (hex_text ds) (Some ?b)"
    using Cons.prems by (subst hex_loop.simps) (simp add: scan_hex_text p del: put_simps, simp add: hex_text_Cons)
  also have "\<dots> = Some (Suc i + length ds, 0, Some (take (Suc i) ?b @ ds @ drop (Suc i + length ds) ?b))"
    by (rule Cons.IH) (use Cons.prems in auto)
  also have "take (Suc i) ?b = take i b @ [d]" using Cons.prems by simp
  also have "drop (Suc i + length ds) ?b = drop (i + length (d # ds)) b"
    using Cons.prems drop_behind_store [of i "Suc i + length ds" b d] by simp
  finally show ?case by simp
qed

lemma hex_loop_text_null:
  "length ds \<le> m \<Longrightarrow> hex_loop i (2 * length ds) m (hex_text ds) None = Some (i + length ds, 0, None)"
proof (induction ds arbitrary: i m)
  case Nil
  then show ?case by (simp add: hex_loop.simps hex_text_def)
next
  case (Cons d ds)
  have "hex_loop i (2 * length (d # ds)) m (hex_text (d # ds)) None = hex_loop (Suc i) (2 * length ds) (m - 1) (hex_text ds) None"
    using Cons.prems by (subst hex_loop.simps) (simp add: scan_hex_text, simp add: hex_text_Cons)
  also have "\<dots> = Some (Suc i + length ds, 0, None)" by (rule Cons.IH) (use Cons.prems in simp)
  finally show ?case by simp
qed

lemma parse_number_hex:
  assumes "ds \<noteq> []" and "m \<noteq> 0"
  shows "parse_number (CHR ''0'' # CHR ''x'' # hex_text ds) out m = do {
    (i, left, out) \<leftarrow> hex_loop 0 (2 * length ds) m (hex_text ds) out;
    if left \<noteq> 0 then Some None else Some (Some (2 * length ds + 2, i, out)) }"
proof -
  obtain c cs where cs: "hex_text ds = c # cs" using assms(1) by (cases ds) (simp_all add: hex_text_Cons)
  have "\<not> is_x c" using hex_text_digits [of c ds] cs
    by (auto simp: is_x_def isxdigit_def digit_val_def Let_def split: if_splits)
  then have x: "takeWhile is_x (CHR ''x'' # hex_text ds) = [CHR ''x'']" by (simp add: cs is_x_def)
  have h: "takeWhile isxdigit (drop (length [CHR ''x'']) (CHR ''x'' # hex_text ds)) = hex_text ds"
    using hex_text_digits by simp
  have "scan_hex_prefix (CHR ''0'' # CHR ''x'' # hex_text ds) = 2 + 2 * length ds"
    unfolding scan_hex_prefix_def list.case Let_def x h length_hex_text using cs by simp
  then have "parse_number (CHR ''0'' # CHR ''x'' # hex_text ds) out m = (let num = hex_digits (hex_text ds) (2 * length ds) in do {
      (i, left, out) \<leftarrow> hex_loop 0 num m (hex_text ds) out;
      if left \<noteq> 0 then Some None else Some (Some (num + 2, i, out)) })"
    using assms by (simp add: parse_number_def Let_def)
  moreover have "hex_digits (hex_text ds) (2 * length ds) = 2 * length ds"
    by (simp add: hex_digits_def length_hex_text)
  ultimately show ?thesis by (simp only: Let_def)
qed

text \<open>
  Bytes written in hexadecimal after \<^verbatim>\<open>0x\<close> are parsed back to these bytes, for every non-empty
  sequence up to the largest pattern size, whatever the allocated buffer held before.
\<close>

theorem pattern_hex_roundtrip:
  assumes "ds \<noteq> []" and "length ds \<le> MAX_PATTERN_SIZE" and "\<And>n. length (malloc n) = n"
  shows "parse_and_fill_pattern_alloc malloc files descs (CHR ''0'' # CHR ''x'' # hex_text ds) (2 + 2 * length ds) fmt_sz =
    Some (int (length ds), Some ds, [], 0)"
proof -
  let ?t = "CHR ''0'' # CHR ''x'' # hex_text ds" and ?n = "length ds"
  have lim: "MAX_PATTERN_SIZE \<noteq> 0" by (simp add: MAX_PATTERN_SIZE_def)
  have n: "0 < ?n" using assms(1) by simp
  have item: "parse_item files descs ?t out pos m rem = map_option (map_option (\<lambda>r. (r, []))) (parse_number ?t out m)" for out pos m rem
    by (simp add: parse_item_def)
  have p1: "parse_loop files descs ?t (2 + 2 * ?n) None 0 MAX_PATTERN_SIZE fmt_sz = Some (Some (?n, None, []))"
    using n assms(2) by (subst parse_loop.simps)
      (simp add: item parse_number_hex [OF assms(1) lim] hex_loop_text_null)
  have p2: "parse_loop files descs ?t (2 + 2 * ?n) (Some (malloc ?n)) 0 ?n 0 = Some (Some (?n, Some ds, []))"
    using n assms(3) by (subst parse_loop.simps)
      (simp add: item parse_number_hex [OF assms(1)] hex_loop_text)
  have "parse_and_fill_pattern files descs ?t (2 + 2 * ?n) None MAX_PATTERN_SIZE fmt_sz = Some (int ?n, None, [], 0)"
    using lim p1 by (simp add: parse_and_fill_pattern_def)
  moreover have "parse_and_fill_pattern files descs ?t (2 + 2 * ?n) (Some (malloc ?n)) ?n 0 = Some (int ?n, Some ds, [], 0)"
    using n p2 by (simp add: parse_and_fill_pattern_def)
  ultimately show ?thesis by (simp add: parse_and_fill_pattern_alloc_def)
qed

theorem pattern_hex_roundtrip_witness:
  "parse_and_fill_pattern_alloc (\<lambda>n. replicate n 7) (\<lambda>f. None) ([] :: unit pattern_fmt_desc list) ''0xdeadbeef'' 10 0 =
    Some (4, Some [0xde, 0xad, 0xbe, 0xef], [], 0)"
proof -
  have "CHR ''0'' # CHR ''x'' # hex_text [0xde, 0xad, 0xbe, 0xef] = ''0xdeadbeef''"
    by (simp add: hex_text_def hex_char_def char_of_def bit_0)
  with pattern_hex_roundtrip [of "[0xde, 0xad, 0xbe, 0xef]" "\<lambda>n. replicate n 7" "\<lambda>f. None" "[] :: unit pattern_fmt_desc list" 0]
  show ?thesis by (simp add: MAX_PATTERN_SIZE_def)
qed

section \<open>Two texts the parser mishandles\<close>

text \<open>The empty string fills no byte, which the loop asserts against: \<^verbatim>\<open>verify_pattern=""\<close> aborts the program.\<close>

lemma empty_string_aborts:
  "parse_and_fill_pattern_alloc malloc files descs [CHR 0x22, CHR 0x22] 2 fmt_sz = None"
  by (simp add: parse_and_fill_pattern_alloc_def parse_and_fill_pattern_def MAX_PATTERN_SIZE_def parse_loop.simps
      parse_item_def parse_string_def strchr_def)

text \<open>
  A second \<^verbatim>\<open>x\<close> after the prefix passes the first scan, and the conversion of the digits then leaves a byte of the
  allocated buffer as it was.
\<close>

lemma double_x_uninitialised:
  assumes "malloc 2 = [g, h]"
  shows "parse_and_fill_pattern_alloc malloc files descs ''0xxff'' 5 fmt_sz = Some (2, Some [g, 0xff], [], 0)"
proof -
  have s: "scan_hex_prefix ''0xxff'' = 5" "hex_digits ''xff'' 3 = 3" "scan_hhx (Suc 0) ''xff'' = None" "scan_hhx 2 ''ff'' = Some 0xff"
    by (simp_all add: scan_hex_prefix_def is_x_def isxdigit_def digit_val_def hex_digits_def scan_hhx_def num_value_def numeral_2_eq_2)
  show ?thesis using assms s
    by (simp add: parse_and_fill_pattern_alloc_def parse_and_fill_pattern_def MAX_PATTERN_SIZE_def parse_loop.simps
      parse_item_def parse_number_def hex_loop.simps Let_def)
qed

end
