(* ===== verification/Rand.thy ===== *)
theory Rand
  imports Pattern Hashes
begin

text \<open>
  \<^verbatim>\<open>lib/rand.c\<close> and \<^verbatim>\<open>lib/rand.h\<close>: the combined Tausworthe generators with 32 and 64 bit words, their seeding, and
  the functions that fill buffers from a seed. The conversions through \<^verbatim>\<open>double\<close> (\<^verbatim>\<open>__rand_0_1\<close>, \<^verbatim>\<open>rand_between\<close>) are
  left out.
\<close>

section \<open>Generators\<close>

text \<open>
  The mask is an \<^verbatim>\<open>unsigned long\<close> in the 32-bit generator, so the left shift there is a 64-bit one; the
  assignment to an \<^verbatim>\<open>unsigned int\<close> drops the upper half, and the shift of the narrow word is the same.
\<close>

definition TAUSWORTHE :: "'w::len word \<Rightarrow> nat \<Rightarrow> nat \<Rightarrow> 'w word \<Rightarrow> nat \<Rightarrow> 'w word" where
  "TAUSWORTHE s a b c d = push_bit d (s AND c) XOR drop_bit b (push_bit a s XOR s)"

record taus88_state =
  taus_s1 :: u32
  taus_s2 :: u32
  taus_s3 :: u32

record taus258_state =
  taus64_s1 :: u64
  taus64_s2 :: u64
  taus64_s3 :: u64
  taus64_s4 :: u64
  taus64_s5 :: u64

text \<open>The union with its tag \<^verbatim>\<open>use64\<close>.\<close>

datatype frand_state = State32 taus88_state | State64 taus258_state

definition rand_max :: "frand_state \<Rightarrow> u64" where
  "rand_max st = (case st of State64 _ \<Rightarrow> - 1 | State32 _ \<Rightarrow> ucast (- 1 :: u32))"

definition rand32 :: "taus88_state \<Rightarrow> taus88_state \<times> u32" where
  "rand32 st = (let
     a = TAUSWORTHE (taus_s1 st) 13 19 4294967294 12;
     b = TAUSWORTHE (taus_s2 st) 2 25 4294967288 4;
     c = TAUSWORTHE (taus_s3 st) 3 11 4294967280 17
   in (\<lparr>taus_s1 = a, taus_s2 = b, taus_s3 = c\<rparr>, a XOR b XOR c))"

definition rand64 :: "taus258_state \<Rightarrow> taus258_state \<times> u64" where
  "rand64 st = (let
     xval = drop_bit 53 (push_bit 1 (taus64_s1 st) XOR taus64_s1 st);
     a = push_bit 10 (taus64_s1 st AND 18446744073709551614) XOR xval;
     xval = drop_bit 50 (push_bit 24 (taus64_s2 st) XOR taus64_s2 st);
     b = push_bit 5 (taus64_s2 st AND 18446744073709551104) XOR xval;
     xval = drop_bit 23 (push_bit 3 (taus64_s3 st) XOR taus64_s3 st);
     c = push_bit 29 (taus64_s3 st AND 18446744073709547520) XOR xval;
     xval = drop_bit 24 (push_bit 5 (taus64_s4 st) XOR taus64_s4 st);
     d = push_bit 23 (taus64_s4 st AND 18446744073709420544) XOR xval;
     xval = drop_bit 33 (push_bit 3 (taus64_s5 st) XOR taus64_s5 st);
     e = push_bit 8 (taus64_s5 st AND 18446744073701163008) XOR xval
   in (\<lparr>taus64_s1 = a, taus64_s2 = b, taus64_s3 = c, taus64_s4 = d, taus64_s5 = e\<rparr>, a XOR b XOR c XOR d XOR e))"

definition rand_next :: "frand_state \<Rightarrow> frand_state \<times> u64" where \<comment> \<open>\<^verbatim>\<open>__rand\<close>\<close>
  "rand_next st = (case st of
     State64 t \<Rightarrow> (let (t, v) = rand64 t in (State64 t, v))
   | State32 s \<Rightarrow> (let (s, v) = rand32 s in (State32 s, ucast v)))"

definition get_next_seed :: "frand_state \<Rightarrow> frand_state \<times> u64" where
  "get_next_seed st = (let (st, r) = rand_next st; (st, r') = rand_next st in (st, r * r'))"

section \<open>Seeding\<close>

definition seed_min :: "'w::len word \<Rightarrow> 'w word \<Rightarrow> 'w word" where \<comment> \<open>\<^verbatim>\<open>__seed\<close>\<close>
  "seed_min x m = (if x < m then x + m else x)"

text \<open>\<^verbatim>\<open>2^31\<close> in C is an exclusive or: the first multiplicand is \<open>29 + 19 + 5\<close>.\<close>

definition LCG :: "u32 \<Rightarrow> u32 \<Rightarrow> u32" where
  "LCG x seed = x * 69069 XOR seed"

definition LCG64 :: "u64 \<Rightarrow> u64 \<Rightarrow> u64" where
  "LCG64 x seed = x * 6906969069 XOR seed"

definition init_rand32 :: "u32 \<Rightarrow> taus88_state" where
  "init_rand32 seed = (let
     a = seed_min (LCG ((2 XOR 31) + (2 XOR 17) + (2 XOR 7)) seed) 1;
     b = seed_min (LCG a seed) 7;
     c = seed_min (LCG b seed) 15
   in ((fst \<circ> rand32) ^^ 6) \<lparr>taus_s1 = a, taus_s2 = b, taus_s3 = c\<rparr>)"

definition init_rand64 :: "u64 \<Rightarrow> taus258_state" where
  "init_rand64 seed = (let
     a = seed_min (LCG64 ((2 XOR 31) + (2 XOR 17) + (2 XOR 7)) seed) 1;
     b = seed_min (LCG64 a seed) 7;
     c = seed_min (LCG64 b seed) 15;
     d = seed_min (LCG64 c seed) 33;
     e = seed_min (LCG64 d seed) 49
   in ((fst \<circ> rand64) ^^ 6) \<lparr>taus64_s1 = a, taus64_s2 = b, taus64_s3 = c, taus64_s4 = d, taus64_s5 = e\<rparr>)"

definition init_rand_seed :: "u64 \<Rightarrow> bool \<Rightarrow> frand_state" where
  "init_rand_seed seed use64 = (if use64 then State64 (init_rand64 seed) else State32 (init_rand32 (ucast seed)))"

definition init_rand :: "bool \<Rightarrow> frand_state" where
  "init_rand use64 = (if use64 then State64 (init_rand64 1) else State32 (init_rand32 1))"

section \<open>Filling buffers\<close>

text \<open>
  \<open>at\<close> is the position of the pointer in the buffer. The loops store whole words; the functions return the buffer.
\<close>

definition store64 :: "bytes \<Rightarrow> nat \<Rightarrow> u64 \<Rightarrow> bytes option" where
  "store64 buf at w = memcpy_at buf at (le_bytes 8 w) 8"

fun fill_small_loop :: "nat \<Rightarrow> bytes \<Rightarrow> nat \<Rightarrow> u64 \<Rightarrow> (bytes \<times> u64) option" where
  "fill_small_loop 0 buf at seed = Some (buf, seed)"
| "fill_small_loop (Suc n) buf at seed = do {
     buf \<leftarrow> store64 buf at seed;
     fill_small_loop n buf (at + 8) (hash_u64 seed) }"

definition fill_random_buf_small :: "bytes \<Rightarrow> nat \<Rightarrow> nat \<Rightarrow> u64 \<Rightarrow> bytes option" where
  "fill_random_buf_small buf at len seed = do {
     (buf, seed) \<leftarrow> fill_small_loop (len div 8) buf at seed;
     let rest = len mod 8;
     if rest \<noteq> 0 then memcpy_at buf (at + len div 8 * 8) (le_bytes 8 seed) rest else Some buf }"

definition CONFIG_SEED_BUCKETS :: nat where "CONFIG_SEED_BUCKETS = 4"

definition seed_primes :: "u64 list" where
  "seed_primes = [1, 2, 3, 5, 7, 11, 13, 17, 19, 23, 29, 31, 37, 41, 43, 47]"

fun fill_bucket :: "u64 list \<Rightarrow> bytes \<Rightarrow> nat \<Rightarrow> bytes option" where
  "fill_bucket [] buf at = Some buf"
| "fill_bucket (s # ss) buf at = do {
     buf \<leftarrow> store64 buf at s;
     fill_bucket ss buf (at + 8) }"

fun fill_buckets :: "nat \<Rightarrow> u64 list \<Rightarrow> bytes \<Rightarrow> nat \<Rightarrow> (bytes \<times> u64 list) option" where
  "fill_buckets 0 ss buf at = Some (buf, ss)"
| "fill_buckets (Suc n) ss buf at = do {
     buf \<leftarrow> fill_bucket ss buf at;
     fill_buckets n (map hash_u64 ss) buf (at + 8 * CONFIG_SEED_BUCKETS) }"

definition fill_random_buf_from :: "bytes \<Rightarrow> nat \<Rightarrow> nat \<Rightarrow> u64 \<Rightarrow> bytes option" where \<comment> \<open>\<^verbatim>\<open>__fill_random_buf\<close>\<close>
  "fill_random_buf_from buf at len seed = (let
     rest = len div 8 div CONFIG_SEED_BUCKETS * CONFIG_SEED_BUCKETS;
     ss = map (\<lambda>p. seed * p) (take CONFIG_SEED_BUCKETS seed_primes)
   in do {
     (buf, ss) \<leftarrow> fill_buckets (rest div CONFIG_SEED_BUCKETS) ss buf at;
     s0 \<leftarrow> rd ss 0;
     fill_random_buf_small buf (at + rest * 8) (len - rest * 8) s0 })"

definition fill_random_buf :: "frand_state \<Rightarrow> bytes \<Rightarrow> (frand_state \<times> bytes \<times> u64) option" where
  "fill_random_buf fs buf = (let (fs, r) = get_next_seed fs in do {
     buf \<leftarrow> fill_random_buf_from buf 0 (length buf) r;
     Some (fs, buf, r) })"

text \<open>\<^verbatim>\<open>cpy_pattern\<close> or \<^verbatim>\<open>memset\<close> on \<open>n\<close> bytes from position \<open>at\<close>, the return code dropped.\<close>

definition fill_rest :: "bytes \<Rightarrow> bytes \<Rightarrow> nat \<Rightarrow> nat \<Rightarrow> bytes option" where
  "fill_rest pattern buf at n = do {
     c_assert (at + n \<le> length buf);
     r \<leftarrow> (if pattern \<noteq> [] then map_option fst (cpy_pattern pattern (take n (drop at buf))) else Some (replicate n 0));
     memcpy_at buf at r n }"

text \<open>
  The loop over segments: a random chunk, then the pattern. A segment of no bytes would make no progress,
  so the loop is an equation over \<open>option\<close>.
\<close>

partial_function (option) fill_percentage_loop ::
  "u64 \<Rightarrow> nat \<Rightarrow> nat \<Rightarrow> bytes \<Rightarrow> bytes \<Rightarrow> nat \<Rightarrow> nat \<Rightarrow> bytes option" where
  "fill_percentage_loop seed percentage segment pattern buf at len =
     (if len = 0 then Some buf
      else (let this_len = min (segment * ((2 ^ 32 + 100 - percentage) mod 2 ^ 32) mod 2 ^ 64 div 100 mod 2 ^ 32) len in do {
        buf \<leftarrow> fill_random_buf_from buf at this_len seed;
        if len - this_len = 0 then Some buf
        else (let at = at + this_len; len = len - this_len;
                  n = (2 ^ 32 + segment - this_len) mod 2 ^ 32;
                  n = (if len < n then len else if len - n \<le> 8 then len else n)
          in do {
          buf \<leftarrow> fill_rest pattern buf at n;
          fill_percentage_loop seed percentage segment pattern buf (at + n) (len - n) }) }))"

definition fill_random_buf_percentage_from :: \<comment> \<open>\<^verbatim>\<open>__fill_random_buf_percentage\<close>\<close>
  "u64 \<Rightarrow> bytes \<Rightarrow> nat \<Rightarrow> nat \<Rightarrow> bytes \<Rightarrow> bytes option" where
  "fill_random_buf_percentage_from seed buf percentage segment pattern =
     (if percentage = 100 then fill_rest pattern buf 0 (length buf)
      else fill_percentage_loop seed percentage (min segment (length buf)) pattern buf 0 (length buf))"

definition fill_random_buf_percentage ::
  "frand_state \<Rightarrow> bytes \<Rightarrow> nat \<Rightarrow> nat \<Rightarrow> bytes \<Rightarrow> (frand_state \<times> bytes \<times> u64) option" where
  "fill_random_buf_percentage fs buf percentage segment pattern = (let (fs, r) = get_next_seed fs in do {
     buf \<leftarrow> fill_random_buf_percentage_from r buf percentage segment pattern;
     Some (fs, buf, r) })"

section \<open>The components never die\<close>

text \<open>
  One component of a generator, for words of any width: the mask clears the lowest \<open>k\<close> bits, and the two
  shifted parts meet without overlap. A word whose bits from \<open>k\<close> on are all zero is mapped to such a word for
  ever; the laws exclude that any other word gets there.
\<close>

locale tausworthe =
  fixes a b k d :: nat and c :: "'w::len word"
  assumes meet: "k + d + b = LENGTH('w)" and apart: "k + d + a \<le> LENGTH('w)" and a_pos: "0 < a"
    and mask_not: "c = NOT (mask k)"
begin

lemma mask_bits: "i < LENGTH('w) \<Longrightarrow> bit c i \<longleftrightarrow> k \<le> i"
  by (auto simp: mask_not bit_simps)

abbreviation step :: "'w word \<Rightarrow> 'w word" where
  "step s \<equiv> TAUSWORTHE s a b c d"

lemma bit_step_high: "k + d \<le> i \<Longrightarrow> i < LENGTH('w) \<Longrightarrow> bit (step s) i \<longleftrightarrow> bit s (i - d)"
  using meet mask_bits [of "i - d"] by (auto simp: TAUSWORTHE_def bit_simps dest: bit_imp_le_length)

lemma bit_step_mid:
  assumes "k \<le> i" and "i < k + d"
  shows "bit (step s) i \<longleftrightarrow> bit s (b + i - a) \<noteq> bit s (b + i)"
proof -
  have "\<not> bit (push_bit d (s AND c)) i" using assms meet mask_bits [of "i - d"] by (auto simp: bit_simps)
  moreover have "a \<le> b + i" "b + i < LENGTH('w)" using assms meet apart by linarith+
  then have "bit (drop_bit b (push_bit a s XOR s)) i \<longleftrightarrow> bit s (b + i - a) \<noteq> bit s (b + i)"
    by (simp add: bit_simps)
  ultimately show ?thesis by (simp only: TAUSWORTHE_def bit_xor_iff simp_thms)
qed

lemma step_dead:
  assumes dead: "\<And>i. k \<le> i \<Longrightarrow> \<not> bit (step s) i" and "k \<le> j"
  shows "\<not> bit s j"
  using assms(2)
proof (induction j rule: less_induct)
  case (less j)
  show ?case
  proof (cases "j < LENGTH('w)")
    case True
    show ?thesis
    proof (cases "j + d < LENGTH('w)")
      case low: True
      then show ?thesis using bit_step_high [of "j + d" s] dead [of "j + d"] less.prems by simp
    next
      case False
      have "\<not> bit s (j - a)" using less.IH [of "j - a"] False apart a_pos less.prems by linarith
      moreover have "k \<le> j - b" "j - b < k + d" "b + (j - b) = j" using False True meet by linarith+
      ultimately show ?thesis using bit_step_mid [of "j - b" s] dead [of "j - b"] by simp
    qed
  qed (auto dest: bit_imp_le_length)
qed

lemma alive_iff: "drop_bit k (s :: 'w word) \<noteq> 0 \<longleftrightarrow> (\<exists>i \<ge> k. bit s i)"
proof -
  have "drop_bit k s \<noteq> 0 \<longleftrightarrow> (\<exists>i. bit (drop_bit k s) i)"
    by (auto simp: bit_eq_iff dest: bit_imp_le_length)
  also have "\<dots> \<longleftrightarrow> (\<exists>i \<ge> k. bit s i)" unfolding bit_drop_bit_eq comp_def by (metis le_Suc_ex le_add1)
  finally show ?thesis .
qed

lemma step_alive: "drop_bit k s \<noteq> 0 \<Longrightarrow> drop_bit k (step s) \<noteq> 0"
  unfolding alive_iff using step_dead by blast

end

interpretation a1: tausworthe 13 19 1 12 "4294967294 :: u32"
  by unfold_locales (simp_all add: mask_eq_exp_minus_1)

interpretation a2: tausworthe 2 25 3 4 "4294967288 :: u32"
  by unfold_locales (simp_all add: mask_eq_exp_minus_1)

interpretation a3: tausworthe 3 11 4 17 "4294967280 :: u32"
  by unfold_locales (simp_all add: mask_eq_exp_minus_1)

interpretation b1: tausworthe 1 53 1 10 "18446744073709551614 :: u64"
  by unfold_locales (simp_all add: mask_eq_exp_minus_1)

interpretation b2: tausworthe 24 50 9 5 "18446744073709551104 :: u64"
  by unfold_locales (simp_all add: mask_eq_exp_minus_1)

interpretation b3: tausworthe 3 23 12 29 "18446744073709547520 :: u64"
  by unfold_locales (simp_all add: mask_eq_exp_minus_1)

interpretation b4: tausworthe 5 24 17 23 "18446744073709420544 :: u64"
  by unfold_locales (simp_all add: mask_eq_exp_minus_1)

interpretation b5: tausworthe 3 33 23 8 "18446744073701163008 :: u64"
  by unfold_locales (simp_all add: mask_eq_exp_minus_1)

lemma drop_bit_zero_iff: "drop_bit k (s :: 'w::len word) \<noteq> 0 \<longleftrightarrow> 2 ^ k \<le> unat s"
  by (simp add: unat_drop_bit div_greater_zero_iff flip: unat_gt_0)

definition alive32 :: "taus88_state \<Rightarrow> bool" where
  "alive32 st \<longleftrightarrow> 1 < taus_s1 st \<and> 7 < taus_s2 st \<and> 15 < taus_s3 st"

definition alive64 :: "taus258_state \<Rightarrow> bool" where
  "alive64 st \<longleftrightarrow> 1 < taus64_s1 st \<and> 511 < taus64_s2 st \<and> 4095 < taus64_s3 st \<and> 131071 < taus64_s4 st \<and> 8388607 < taus64_s5 st"

lemma alive32_iff:
  "alive32 st \<longleftrightarrow> drop_bit 1 (taus_s1 st) \<noteq> 0 \<and> drop_bit 3 (taus_s2 st) \<noteq> 0 \<and> drop_bit 4 (taus_s3 st) \<noteq> 0"
  by (auto simp: alive32_def drop_bit_zero_iff word_less_nat_alt)

lemma alive64_iff:
  "alive64 st \<longleftrightarrow> drop_bit 1 (taus64_s1 st) \<noteq> 0 \<and> drop_bit 9 (taus64_s2 st) \<noteq> 0 \<and> drop_bit 12 (taus64_s3 st) \<noteq> 0 \<and>
    drop_bit 17 (taus64_s4 st) \<noteq> 0 \<and> drop_bit 23 (taus64_s5 st) \<noteq> 0"
  by (auto simp: alive64_def drop_bit_zero_iff word_less_nat_alt)

lemma rand64_steps:
  "fst (rand64 st) = \<lparr>taus64_s1 = b1.step (taus64_s1 st), taus64_s2 = b2.step (taus64_s2 st), taus64_s3 = b3.step (taus64_s3 st),
    taus64_s4 = b4.step (taus64_s4 st), taus64_s5 = b5.step (taus64_s5 st)\<rparr>"
  by (simp add: rand64_def TAUSWORTHE_def Let_def)

lemma alive32_step: "alive32 st \<Longrightarrow> alive32 (fst (rand32 st))"
  unfolding alive32_iff using a1.step_alive a2.step_alive a3.step_alive by (simp add: rand32_def Let_def)

lemma alive64_step: "alive64 st \<Longrightarrow> alive64 (fst (rand64 st))"
  unfolding alive64_iff rand64_steps
  using b1.step_alive b2.step_alive b3.step_alive b4.step_alive b5.step_alive by simp

text \<open>
  Once the components of a generator satisfy the bounds that the comment in \<^verbatim>\<open>lib/rand.c\<close> requires of a seed
  (for the 32-bit generator; the wider one has bounds of its own), they satisfy them after any number of
  calls: no component ever becomes the constant zero.
\<close>

theorem rand_components_alive:
  assumes "alive32 s" and "alive64 t"
  shows "alive32 (((fst \<circ> rand32) ^^ n) s) \<and> alive64 (((fst \<circ> rand64) ^^ n) t)"
  using assms by (induction n) (simp_all add: alive32_step alive64_step)

theorem rand_components_alive_witness:
  "\<exists>s t. alive32 (((fst \<circ> rand32) ^^ 1000) s) \<and> alive64 (((fst \<circ> rand64) ^^ 1000) t)"
  using rand_components_alive [of "\<lparr>taus_s1 = 2, taus_s2 = 8, taus_s3 = 16\<rparr>"
      "\<lparr>taus64_s1 = 2, taus64_s2 = 512, taus64_s3 = 4096, taus64_s4 = 131072, taus64_s5 = 8388608\<rparr>" 1000]
  by (auto simp: alive32_def alive64_def)

lemma rand32_s1: "taus_s1 (((fst \<circ> rand32) ^^ n) st) = (a1.step ^^ n) (taus_s1 st)"
  by (induction n) (simp_all add: rand32_def Let_def)

lemma a1_alive: "drop_bit 1 s \<noteq> 0 \<Longrightarrow> drop_bit 1 ((a1.step ^^ n) s) \<noteq> 0"
  using a1.step_alive by (induction n) simp_all

lemma a1_dead: "0 < n \<Longrightarrow> (a1.step ^^ n) 1 = 0"
proof (induction n)
  case (Suc n)
  have "a1.step 1 = 0" "a1.step 0 = 0" by (simp_all add: TAUSWORTHE_def)
  then show ?case using Suc by (cases n) simp_all
qed simp

text \<open>
  The seeding does not establish these bounds. The first component of the 32-bit generator turns zero,
  and stays so, for exactly two seeds: \<^verbatim>\<open>__seed\<close> replaces \<open>0\<close> by \<open>1\<close> and leaves \<open>1\<close>, where the generator needs more than \<open>1\<close>.
\<close>

theorem rand32_dead_seeds:
  "(\<exists>n. taus_s1 (((fst \<circ> rand32) ^^ n) (init_rand32 seed)) = 0) \<longleftrightarrow> seed = 3660657 \<or> seed = 3660656"
proof -
  let ?x = "3660657 XOR seed"
  define a where "a = seed_min ?x 1"
  have s1: "taus_s1 (((fst \<circ> rand32) ^^ n) (init_rand32 seed)) = (a1.step ^^ (n + 6)) a" for n
    by (simp add: init_rand32_def Let_def LCG_def a_def rand32_s1 funpow_add)
  have small: "drop_bit 1 a = 0 \<longleftrightarrow> a = 0 \<or> a = 1"
    using drop_bit_zero_iff [of 1 a] by (auto simp: word_unat_eq_iff)
  also have "\<dots> \<longleftrightarrow> ?x = 0 \<or> ?x = 1"
    by (auto simp: a_def seed_min_def word_less_nat_alt unat_eq_0)
  also have "\<dots> \<longleftrightarrow> seed = 3660657 \<or> seed = 3660656"
  proof -
    have "k XOR s = y \<longleftrightarrow> s = k XOR y" for k s y :: u32 by (auto simp flip: xor.assoc)
    from this [of 3660657 seed 0] this [of 3660657 seed 1] show ?thesis by simp
  qed
  finally have dead: "drop_bit 1 a = 0 \<longleftrightarrow> seed = 3660657 \<or> seed = 3660656" .
  have "(\<exists>n. (a1.step ^^ (n + 6)) a = 0) \<longleftrightarrow> drop_bit 1 a = 0"
  proof
    assume "\<exists>n. (a1.step ^^ (n + 6)) a = 0"
    then obtain n where "(a1.step ^^ (n + 6)) a = 0" by blast
    then show "drop_bit 1 a = 0" using a1_alive [of a "n + 6"] by auto
  next
    assume "drop_bit 1 a = 0"
    then have "a = 0 \<or> a = 1" using small by blast
    moreover have "a \<noteq> 0" by (auto simp: a_def seed_min_def)
    ultimately show "\<exists>n. (a1.step ^^ (n + 6)) a = 0" using a1_dead [of "0 + 6"] by (metis zero_less_numeral add_0)
  qed
  then show ?thesis using dead by (simp add: s1)
qed

text \<open>The minima used for the 64-bit generator are those of the narrow one: with this seed the second component is 53.\<close>

lemma rand64_dead_seed: "seed_min (LCG64 (seed_min (LCG64 53 366069360676) 1) 366069360676) 7 = 53" "b2.step 53 = 0" "b2.step 0 = 0"
  by (simp_all add: seed_min_def LCG64_def TAUSWORTHE_def)

section \<open>Filled buffers\<close>

text \<open>
  A store of a known sequence: the buffer afterwards is the old one with that sequence at the position.
\<close>

definition patch :: "bytes \<Rightarrow> nat \<Rightarrow> bytes \<Rightarrow> bytes" where
  "patch buf at ds = take at buf @ ds @ drop (at + length ds) buf"

lemma length_patch [simp]: "at + length ds \<le> length buf \<Longrightarrow> length (patch buf at ds) = length buf"
  by (simp add: patch_def)

lemma patch_Nil [simp]: "at \<le> length buf \<Longrightarrow> patch buf at [] = buf"
  by (simp add: patch_def)

lemma patch_patch:
  "at + length ds + length es \<le> length buf \<Longrightarrow> n = at + length ds \<Longrightarrow> patch (patch buf at ds) n es = patch buf at (ds @ es)"
  by (simp add: patch_def ac_simps)

lemma patch_all: "length ds = length buf \<Longrightarrow> patch buf 0 ds = ds"
  by (simp add: patch_def)

lemma memcpy_at_patch:
  "at + n \<le> length buf \<Longrightarrow> n \<le> length ds \<Longrightarrow> memcpy_at buf at ds n = Some (patch buf at (take n ds))"
  by (simp add: patch_def min_def)

lemma store64_patch: "at + 8 \<le> length buf \<Longrightarrow> store64 buf at w = Some (patch buf at (le_bytes 8 w))"
  by (simp add: store64_def patch_def)

text \<open>The bytes each function writes, as a function of the seed and the length alone.\<close>

fun word_run :: "nat \<Rightarrow> u64 \<Rightarrow> bytes \<times> u64" where
  "word_run 0 s = ([], s)"
| "word_run (Suc n) s = (le_bytes 8 s @ fst (word_run n (hash_u64 s)), snd (word_run n (hash_u64 s)))"

definition small_bytes :: "nat \<Rightarrow> u64 \<Rightarrow> bytes" where
  "small_bytes len seed = fst (word_run (len div 8) seed) @ take (len mod 8) (le_bytes 8 (snd (word_run (len div 8) seed)))"

fun bucket_run :: "nat \<Rightarrow> u64 list \<Rightarrow> bytes \<times> u64 list" where
  "bucket_run 0 ss = ([], ss)"
| "bucket_run (Suc n) ss = (concat (map (le_bytes 8) ss) @ fst (bucket_run n (map hash_u64 ss)), snd (bucket_run n (map hash_u64 ss)))"

definition random_bytes :: "nat \<Rightarrow> u64 \<Rightarrow> bytes" where
  "random_bytes len seed = (let n = len div 32; r = bucket_run n [seed, seed * 2, seed * 3, seed * 5] in
     fst r @ small_bytes (len - 32 * n) (hd (snd r)))"

lemma length_word_run [simp]: "length (fst (word_run n s)) = 8 * n"
  by (induction n arbitrary: s) simp_all

lemma length_small_bytes [simp]: "length (small_bytes len seed) = len"
  by (simp add: small_bytes_def)

lemma length_concat_words: "length (concat (map (le_bytes 8) ss)) = 8 * length ss"
  by (induction ss) simp_all

lemma length_bucket_run: "length (fst (bucket_run n ss)) = 8 * length ss * n"
  by (induction n arbitrary: ss) (simp_all add: length_concat_words)

lemma length_bucket_seeds [simp]: "length (snd (bucket_run n ss)) = length ss"
  by (induction n arbitrary: ss) simp_all

lemma length_random_bytes [simp]: "length (random_bytes len seed) = len"
  by (simp add: random_bytes_def Let_def length_bucket_run)

lemma fill_small_loop_patch:
  "at + 8 * n \<le> length buf \<Longrightarrow> fill_small_loop n buf at seed = Some (patch buf at (fst (word_run n seed)), snd (word_run n seed))"
  by (induction n arbitrary: buf at seed) (simp_all add: store64_patch patch_patch)

lemma fill_random_buf_small_patch:
  assumes "at + len \<le> length buf"
  shows "fill_random_buf_small buf at len seed = Some (patch buf at (small_bytes len seed))"
proof -
  obtain q r where qr: "len div 8 = q" "len mod 8 = r" "at + 8 * q + r \<le> length buf" "r < 8"
    using assms mult_div_mod_eq [of 8 len] mod_less_divisor [of 8 len] by auto
  have "fill_small_loop q buf at seed = Some (patch buf at (fst (word_run q seed)), snd (word_run q seed))"
    by (rule fill_small_loop_patch) (use qr in simp)
  moreover have "memcpy_at (patch buf at (fst (word_run q seed))) (at + q * 8) (le_bytes 8 (snd (word_run q seed))) r =
      Some (patch buf at (fst (word_run q seed) @ take r (le_bytes 8 (snd (word_run q seed)))))"
    using qr by (subst memcpy_at_patch) (simp_all add: patch_patch)
  ultimately show ?thesis
    unfolding fill_random_buf_small_def small_bytes_def qr(1,2) by simp
qed

lemma fill_bucket_patch:
  "at + 8 * length ss \<le> length buf \<Longrightarrow> fill_bucket ss buf at = Some (patch buf at (concat (map (le_bytes 8) ss)))"
  by (induction ss arbitrary: buf at) (simp_all add: store64_patch patch_patch length_concat_words)

lemma fill_buckets_patch:
  "length ss = 4 \<Longrightarrow> at + 32 * n \<le> length buf \<Longrightarrow>
    fill_buckets n ss buf at = Some (patch buf at (fst (bucket_run n ss)), snd (bucket_run n ss))"
  by (induction n arbitrary: ss buf at)
    (simp_all add: fill_bucket_patch CONFIG_SEED_BUCKETS_def patch_patch length_concat_words length_bucket_run)

lemma fill_random_buf_from_patch:
  assumes "at + len \<le> length buf"
  shows "fill_random_buf_from buf at len seed = Some (patch buf at (random_bytes len seed))"
proof -
  let ?n = "len div 32" and ?ss = "[seed, seed * 2, seed * 3, seed * 5]"
  have len: "32 * ?n \<le> len" by simp
  have n: "len div 8 div 4 = ?n" by (simp add: div_mult2_eq [symmetric])
  have b: "fill_buckets ?n ?ss buf at = Some (patch buf at (fst (bucket_run ?n ?ss)), snd (bucket_run ?n ?ss))"
    by (rule fill_buckets_patch) (use assms len in simp_all)
  have s0: "rd (snd (bucket_run ?n ?ss)) 0 = Some (hd (snd (bucket_run ?n ?ss)))"
    using length_bucket_seeds [of ?n ?ss] by (cases "snd (bucket_run ?n ?ss)") simp_all
  let ?p = "patch buf at (fst (bucket_run ?n ?ss))"
  have l: "length (fst (bucket_run ?n ?ss)) = 32 * ?n" by (simp add: length_bucket_run)
  then have "length ?p = length buf" using assms len by simp
  then have "fill_random_buf_small ?p (at + 32 * ?n) (len - 32 * ?n) (hd (snd (bucket_run ?n ?ss))) =
      Some (patch ?p (at + 32 * ?n) (small_bytes (len - 32 * ?n) (hd (snd (bucket_run ?n ?ss)))))"
    using assms len by (intro fill_random_buf_small_patch) simp
  also have "\<dots> = Some (patch buf at (random_bytes len seed))"
    using assms len l by (simp add: patch_patch random_bytes_def Let_def)
  finally show ?thesis
    using b s0 by (simp add: fill_random_buf_from_def CONFIG_SEED_BUCKETS_def seed_primes_def n Let_def mult.commute)
qed

lemma fill_rest_patch:
  assumes "at + n \<le> length buf" and "n < 2 ^ 32"
  shows "fill_rest pattern buf at n = Some (patch buf at (if pattern \<noteq> [] then periodic pattern 0 n else replicate n 0))"
proof (cases "pattern = []")
  case True
  then show ?thesis using assms by (simp add: fill_rest_def patch_def)
next
  case False
  have "map_option fst (cpy_pattern pattern (take n (drop at buf))) = Some (periodic pattern 0 n)"
  proof (cases "n = 0")
    case True
    then show ?thesis by (simp add: cpy_pattern_def periodic_def)
  next
    case n: False
    then show ?thesis using assms False cpy_pattern_result [of pattern "take n (drop at buf)"] by simp
  qed
  then obtain rc where "cpy_pattern pattern (take n (drop at buf)) = Some (periodic pattern 0 n, rc)" by auto
  then show ?thesis using assms False by (simp add: fill_rest_def patch_def)
qed

lemma fill_percentage_loop_patch:
  assumes "0 < segment" and "segment < 2 ^ 32" and "percentage \<le> 100" and "len < 2 ^ 32"
  shows "\<exists>ds. length ds = len \<and> (\<forall>buf at. at + len \<le> length buf \<longrightarrow>
    fill_percentage_loop seed percentage segment pattern buf at len = Some (patch buf at ds))"
  using assms(4)
proof (induction len rule: less_induct)
  case (less len)
  show ?case
  proof (cases "len = 0")
    case True
    then show ?thesis by (intro exI [of _ "[]"]) (simp add: fill_percentage_loop.simps)
  next
    case False
    define k where "k = segment * ((2 ^ 32 + 100 - percentage) mod 2 ^ 32) mod 2 ^ 64 div 100 mod 2 ^ 32"
    have "(2 ^ 32 + 100 - percentage) mod 2 ^ 32 = 100 - percentage"
      using assms(3) by (simp add: mod_if)
    then have "k = segment * (100 - percentage) div 100"
    proof -
      have "segment * (100 - percentage) \<le> segment * 100" by (intro mult_left_mono) simp_all
      moreover have "segment * 100 < 429496729600" using assms(2) by simp
      ultimately have "segment * (100 - percentage) < 429496729600" by linarith
      then have "segment * (100 - percentage) < 2 ^ 64" "segment * (100 - percentage) div 100 < 2 ^ 32"
        by (simp_all add: div_less_iff_less_mult)
      then show ?thesis unfolding k_def \<open>_ mod _ = 100 - percentage\<close> by simp
    qed
    then have k: "k \<le> segment" using div_le_mono [of "segment * (100 - percentage)" "segment * 100" 100] by simp
    define c where "c = min k len"
    show ?thesis
    proof (cases "len - c = 0")
      case True
      then have "c = len" by (simp add: c_def)
      show ?thesis
      proof (intro exI [of _ "random_bytes len seed"] conjI allI impI)
        fix buf at assume "at + len \<le> length (buf :: bytes)"
        then show "fill_percentage_loop seed percentage segment pattern buf at len = Some (patch buf at (random_bytes len seed))"
          using False \<open>c = len\<close> unfolding c_def k_def
          by (subst fill_percentage_loop.simps) (simp add: Let_def fill_random_buf_from_patch)
      qed simp
    next
      case more: False
      define n0 where "n0 = (2 ^ 32 + segment - c) mod 2 ^ 32"
      define n where "n = (if len - c < n0 then len - c else if len - c - n0 \<le> 8 then len - c else n0)"
      have unf: "fill_percentage_loop seed percentage segment pattern buf at len =
          (if len = 0 then Some buf
           else do {
             buf \<leftarrow> fill_random_buf_from buf at c seed;
             if len - c = 0 then Some buf
             else do {
               buf \<leftarrow> fill_rest pattern buf (at + c) n;
               fill_percentage_loop seed percentage segment pattern buf (at + c + n) (len - c - n) } })" for buf at
        unfolding n_def n0_def c_def k_def by (subst fill_percentage_loop.simps) (simp only: Let_def)
      have n0: "n0 = segment - c" using k assms(2) by (simp add: n0_def c_def mod_if)
      have n: "0 < c + n" "c + n \<le> len" using more False n0 assms(1) by (auto simp: n_def c_def)
      have "len - (c + n) < len" "len - (c + n) < 2 ^ 32" using n less.prems by linarith+
      then obtain ds where ds: "length ds = len - (c + n)" "\<And>buf at. at + (len - (c + n)) \<le> length buf \<Longrightarrow>
          fill_percentage_loop seed percentage segment pattern buf at (len - (c + n)) = Some (patch buf at ds)"
        using less.IH by blast
      define es where "es = random_bytes c seed @ (if pattern \<noteq> [] then periodic pattern 0 n else replicate n 0)"
      have es: "length es = c + n" by (simp add: es_def)
      have step: "fill_percentage_loop seed percentage segment pattern buf at len = Some (patch buf at (es @ ds))"
        if b: "at + len \<le> length buf" for buf at
      proof -
        have f: "fill_random_buf_from buf at c seed = Some (patch buf at (random_bytes c seed))"
          by (rule fill_random_buf_from_patch) (use b n in simp)
        have r: "fill_rest pattern (patch buf at (random_bytes c seed)) (at + c) n = Some (patch buf at es)"
          using b n less.prems by (subst fill_rest_patch) (simp_all add: patch_patch es_def)
        have "fill_percentage_loop seed percentage segment pattern buf at len =
            fill_percentage_loop seed percentage segment pattern (patch buf at es) (at + c + n) (len - c - n)"
          unfolding unf f using False more by (simp add: r)
        also have "\<dots> = Some (patch (patch buf at es) (at + c + n) ds)"
          using ds(2) [of "at + c + n" "patch buf at es"] b n es by (simp add: diff_diff_left)
        finally show ?thesis using b n es ds(1) by (simp add: patch_patch)
      qed
      then show ?thesis using es ds(1) n by (intro exI [of _ "es @ ds"]) simp
    qed
  qed
qed

lemma fill_percentage_result:
  assumes "0 < segment" and "percentage \<le> 100" and "0 < len" and "len < 2 ^ 32"
  shows "\<exists>ds. length ds = len \<and> (\<forall>buf. length buf = len \<longrightarrow>
    fill_random_buf_percentage_from seed buf percentage segment pattern = Some ds)"
proof (cases "percentage = 100")
  case True
  then show ?thesis using assms
    by (intro exI [of _ "if pattern \<noteq> [] then periodic pattern 0 len else replicate len 0"])
      (auto simp: fill_random_buf_percentage_from_def fill_rest_patch patch_all)
next
  case False
  have "0 < min segment len" "min segment len < 2 ^ 32" using assms by auto
  from fill_percentage_loop_patch [OF this assms(2,4)] obtain ds where "length ds = len"
    "\<And>buf at. at + len \<le> length buf \<Longrightarrow>
      fill_percentage_loop seed percentage (min segment len) pattern buf at len = Some (patch buf at ds)" by blast
  then show ?thesis using False
    by (intro exI [of _ ds]) (auto simp: fill_random_buf_percentage_from_def patch_all)
qed

text \<open>
  The contents of a buffer filled with a given share of compressible bytes is determined by the
  seed, the percentage, the segment size, the pattern and the length: the function ends, stays inside the
  buffer, overwrites all of it and ignores what it held. Data can therefore be regenerated from the seed in a
  block header. A segment of no bytes is excluded: the loop would not end.
\<close>

theorem fill_percentage_deterministic:
  assumes "0 < segment" and "percentage \<le> 100" and "0 < len" and "len < 2 ^ 32"
  shows "\<exists>ds. length ds = len \<and> (\<forall>buf. length buf = len \<longrightarrow>
    fill_random_buf_percentage_from seed buf percentage segment pattern = Some ds)"
  using assms by (rule fill_percentage_result)

theorem fill_percentage_deterministic_witness:
  "\<exists>ds. length ds = 4096 \<and> fill_random_buf_percentage_from 99 (replicate 4096 0) 40 512 [1, 2] = Some ds \<and>
    fill_random_buf_percentage_from 99 (replicate 4096 255) 40 512 [1, 2] = Some ds"
  using fill_percentage_deterministic [of 512 40 4096 99 "[1, 2]"] by auto

end
