(* ===== verification/Verify.thy ===== *)
theory Verify
  imports Rand Crc_Funs Crc32c_Arm64 Md5 Sha1 Sha256 Sha512 Sha3 Xxhash
begin

text \<open>
  \<^verbatim>\<open>verify.c\<close> and \<^verbatim>\<open>verify.h\<close>: headers and checksums. \<^verbatim>\<open>populate_verify_io_u\<close> fills the buffer of a write with random data
  or a pattern and puts a header with a checksum in front of each interval; \<^verbatim>\<open>verify_io_u\<close> checks a buffer that
  was read. The state is the I/O unit with its buffer and the part of the thread these functions use. \<open>None\<close> is
  a failed assertion, an access outside the buffer, or a loop that does not end. Messages and dumps are left out.
\<close>

section \<open>Data\<close>

datatype verify_type =
    VERIFY_NONE | VERIFY_HDR_ONLY | VERIFY_MD5 | VERIFY_CRC64 | VERIFY_CRC32 | VERIFY_CRC32C
  | VERIFY_CRC32C_INTEL | VERIFY_CRC16 | VERIFY_CRC7 | VERIFY_SHA256 | VERIFY_SHA512 | VERIFY_SHA3_224
  | VERIFY_SHA3_256 | VERIFY_SHA3_384 | VERIFY_SHA3_512 | VERIFY_XXHASH | VERIFY_SHA1 | VERIFY_PATTERN
  | VERIFY_PATTERN_NO_HDR | VERIFY_NULL

text \<open>The enumeration as numbers, the way it is stored in a header, and back.\<close>

definition verify_types :: "verify_type list" where
  "verify_types = [VERIFY_NONE, VERIFY_HDR_ONLY, VERIFY_MD5, VERIFY_CRC64, VERIFY_CRC32, VERIFY_CRC32C,
     VERIFY_CRC32C_INTEL, VERIFY_CRC16, VERIFY_CRC7, VERIFY_SHA256, VERIFY_SHA512, VERIFY_SHA3_224,
     VERIFY_SHA3_256, VERIFY_SHA3_384, VERIFY_SHA3_512, VERIFY_XXHASH, VERIFY_SHA1, VERIFY_PATTERN,
     VERIFY_PATTERN_NO_HDR, VERIFY_NULL]"

definition verify_code :: "verify_type \<Rightarrow> u16" where
  "verify_code vt = of_nat (length (takeWhile (\<lambda>v. v \<noteq> vt) verify_types))"

definition verify_of :: "u16 \<Rightarrow> verify_type option" where
  "verify_of c = (if unat c < length verify_types then Some (verify_types ! unat c) else None)"

definition FIO_HDR_MAGIC :: u16 where "FIO_HDR_MAGIC = 0xacca"

text \<open>\<^verbatim>\<open>struct verify_header\<close>: 40 bytes, the checksum of the first 36 at the end.\<close>

definition sizeof_verify_header :: nat where "sizeof_verify_header = 40"

record io_u =
  iou_buf :: bytes
  iou_buflen :: nat
  iou_offset :: u64
  iou_verify_offset :: u64
  iou_rand_seed :: u64
  iou_buf_filled_len :: nat
  iou_numberio :: u16
  iou_start_sec :: u32
  iou_start_nsec :: u32
  iou_read :: bool           \<comment> \<open>\<^verbatim>\<open>ddir == DDIR_READ\<close>\<close>
  iou_ver_in_dev :: bool     \<comment> \<open>\<^verbatim>\<open>IO_U_F_VER_IN_DEV\<close>\<close>
  iou_trimmed :: bool        \<comment> \<open>\<^verbatim>\<open>IO_U_F_TRIMMED\<close>\<close>

record thread_options =
  opt_verify :: verify_type
  opt_verify_interval :: nat
  opt_verify_offset :: nat
  opt_verify_pattern :: bytes
  opt_verify_fmt :: "io_u pattern_fmt list"
  opt_verify_fatal :: bool
  opt_bs_unaligned :: bool
  opt_compress_percentage :: nat
  opt_buffer_pattern :: bytes
  opt_trim_zero :: bool
  opt_verify_write_sequence :: bool
  opt_time_based :: bool
  opt_zrf :: bool            \<comment> \<open>\<^verbatim>\<open>zrf.u.f\<close> is not zero\<close>

record thread_data =
  td_o :: thread_options
  td_verify_state :: frand_state
  td_thread_number :: u16    \<comment> \<open>as cut off by the header field\<close>
  td_write :: bool
  td_rw :: bool
  td_fixed_bs :: bool        \<comment> \<open>\<^verbatim>\<open>td_min_bs(td) == td_max_bs(td)\<close>\<close>
  td_ver_backlog :: bool     \<comment> \<open>\<^verbatim>\<open>TD_F_VER_BACKLOG\<close>\<close>
  td_fakeio :: bool          \<comment> \<open>\<^verbatim>\<open>FIO_FAKEIO\<close>\<close>
  td_arm64 :: bool           \<comment> \<open>\<^verbatim>\<open>crc32c_arm64_available\<close>\<close>
  td_intel :: bool
  td_error :: int
  td_terminate :: bool

text \<open>Checked slices of the buffer and stores into it.\<close>

definition slice :: "bytes \<Rightarrow> nat \<Rightarrow> nat \<Rightarrow> bytes option" where
  "slice buf at n = (if at + n \<le> length buf then Some (take n (drop at buf)) else None)"

definition store :: "bytes \<Rightarrow> nat \<Rightarrow> bytes \<Rightarrow> bytes option" where
  "store buf at ds = memcpy_at buf at ds (length ds)"

definition field :: "nat \<Rightarrow> bytes \<Rightarrow> nat \<Rightarrow> 'a::len word option" where
  "field n buf at = map_option le_word (slice buf at n)"

section \<open>Filling\<close>

definition fill_buffer_pattern :: "thread_data \<Rightarrow> bytes \<Rightarrow> bytes option" where
  "fill_buffer_pattern td p = map_option fst (cpy_pattern (opt_buffer_pattern (td_o td)) p)"

definition fill_buffer :: "thread_options \<Rightarrow> u64 \<Rightarrow> bytes \<Rightarrow> bytes option" where
  "fill_buffer opts seed p =
     fill_random_buf_percentage_from seed p (opt_compress_percentage opts) (length p) (opt_buffer_pattern opts)"

definition fill_verify_pattern :: "thread_data \<Rightarrow> nat \<Rightarrow> io_u \<Rightarrow> u64 \<Rightarrow> bool \<Rightarrow> (thread_data \<times> io_u) option" where
  "fill_verify_pattern td len iou seed use_seed = (let opts = td_o td in
     if length (opt_verify_pattern opts) = 0
     then (let (st, seed) = (if \<not> use_seed then get_next_seed (td_verify_state td) else (td_verify_state td, seed)) in do {
       p \<leftarrow> slice (iou_buf iou) 0 len;
       p \<leftarrow> fill_buffer opts seed p;
       buf \<leftarrow> store (iou_buf iou) 0 p;
       Some (td\<lparr>td_verify_state := st\<rparr>, iou\<lparr>iou_rand_seed := seed, iou_buf := buf\<rparr>) })
     else if length (opt_verify_fmt opts) = 0 \<and> len \<le> iou_buf_filled_len iou then Some (td, iou)
     else do {
       p \<leftarrow> slice (iou_buf iou) 0 len;
       (p, rc) \<leftarrow> paste_format (opt_verify_pattern opts) (opt_verify_fmt opts) p iou;
       buf \<leftarrow> store (iou_buf iou) 0 p;
       Some (td, iou\<lparr>iou_buf := buf, iou_buf_filled_len := len\<rparr>) })"

definition get_hdr_inc :: "thread_data \<Rightarrow> io_u \<Rightarrow> nat" where
  "get_hdr_inc td iou = (let opts = td_o td in
     if opt_verify_interval opts \<noteq> 0 \<and> opt_verify_interval opts \<le> iou_buflen iou \<and> \<not> opt_bs_unaligned opts
     then opt_verify_interval opts else iou_buflen iou mod 2 ^ 32)"

definition memswp :: "bytes \<Rightarrow> nat \<Rightarrow> nat \<Rightarrow> nat \<Rightarrow> bytes option" where
  "memswp buf a b len = do {
     c_assert (len \<le> 200);
     swap \<leftarrow> slice buf a len;
     buf \<leftarrow> memcpy_within buf a b len;
     store buf b swap }"

fun verify_hdr_size :: "verify_type \<Rightarrow> nat" where \<comment> \<open>\<^verbatim>\<open>__hdr_size\<close>\<close>
  "verify_hdr_size VERIFY_PATTERN_NO_HDR = 0"
| "verify_hdr_size vt = sizeof_verify_header + (case vt of
     VERIFY_MD5 \<Rightarrow> 16
   | VERIFY_CRC64 \<Rightarrow> 8
   | VERIFY_CRC32C \<Rightarrow> 4 | VERIFY_CRC32 \<Rightarrow> 4 | VERIFY_CRC32C_INTEL \<Rightarrow> 4
   | VERIFY_CRC16 \<Rightarrow> 2
   | VERIFY_CRC7 \<Rightarrow> 1
   | VERIFY_SHA256 \<Rightarrow> 64
   | VERIFY_SHA512 \<Rightarrow> 128
   | VERIFY_SHA3_224 \<Rightarrow> 28
   | VERIFY_SHA3_256 \<Rightarrow> 32
   | VERIFY_SHA3_384 \<Rightarrow> 48
   | VERIFY_SHA3_512 \<Rightarrow> 64
   | VERIFY_XXHASH \<Rightarrow> 4
   | VERIFY_SHA1 \<Rightarrow> 20
   | _ \<Rightarrow> 0)"

definition io_hdr_size :: "thread_data \<Rightarrow> bytes \<Rightarrow> nat \<Rightarrow> nat option" where \<comment> \<open>\<^verbatim>\<open>hdr_size\<close>\<close>
  "io_hdr_size td buf p =
     (if opt_verify (td_o td) = VERIFY_PATTERN_NO_HDR then Some 0
      else do {
        c \<leftarrow> field 2 buf (p + 2);
        vt \<leftarrow> verify_of c;
        Some (verify_hdr_size vt) })"

text \<open>
  The checksums: \<open>vh\<close> is what lies behind the header before, which some contexts use as their buffer, \<open>data\<close> the
  data of the interval, and the result what lies there afterwards. The rest of a context is zero.
\<close>

definition fill_xxhash :: "bytes \<Rightarrow> bytes \<Rightarrow> bytes option" where
  "fill_xxhash mem data = do {
     state \<leftarrow> XXH32_update (XXH32_resetState
       \<lparr>total_len = 0, xxh_seed = 0, xxh_v = (0, 0, 0, 0), memsize = 0, xxh_memory = mem\<rparr> 1) data;
     Some (le_bytes 4 (XXH32_intermediateDigest state)) }"

definition sha3_ctx :: "bytes \<Rightarrow> fio_sha3_ctx" where
  "sha3_ctx sha = \<lparr>sha3_st = replicate 25 0, md_len = 0, rsiz = 0, rsizw = 0, sha3_partial = 0,
     sha3_buf = replicate 144 0, sha3_sha = sha\<rparr>"

definition fill_sha3 :: "fio_sha3_ctx \<Rightarrow> bytes \<Rightarrow> bytes option" where
  "fill_sha3 ctx data = do {
     ctx \<leftarrow> fio_sha3_update ctx data;
     ctx \<leftarrow> fio_sha3_final ctx;
     Some (sha3_sha ctx) }"

definition fill_sha3_224 :: "bytes \<Rightarrow> bytes \<Rightarrow> bytes option" where
  "fill_sha3_224 vh data = fill_sha3 (fio_sha3_224_init (sha3_ctx vh)) data"

definition fill_sha3_256 :: "bytes \<Rightarrow> bytes \<Rightarrow> bytes option" where
  "fill_sha3_256 vh data = fill_sha3 (fio_sha3_256_init (sha3_ctx vh)) data"

definition fill_sha3_384 :: "bytes \<Rightarrow> bytes \<Rightarrow> bytes option" where
  "fill_sha3_384 vh data = fill_sha3 (fio_sha3_384_init (sha3_ctx vh)) data"

definition fill_sha3_512 :: "bytes \<Rightarrow> bytes \<Rightarrow> bytes option" where
  "fill_sha3_512 vh data = fill_sha3 (fio_sha3_512_init (sha3_ctx vh)) data"

definition fill_sha512 :: "bytes \<Rightarrow> bytes \<Rightarrow> bytes option" where
  "fill_sha512 vh data = do {
     ctx \<leftarrow> fio_sha512_update (fio_sha512_init
       \<lparr>sha512_state = replicate 8 0, sha512_count = [0, 0, 0, 0], sha512_buf = vh, sha512_Wk = replicate 80 0\<rparr>) data;
     Some (sha512_buf ctx) }"

definition fill_sha256 :: "bytes \<Rightarrow> bytes \<Rightarrow> bytes option" where
  "fill_sha256 vh data = do {
     ctx \<leftarrow> fio_sha256_update (fio_sha256_init
       \<lparr>sha256_count = 0, sha256_state = replicate 8 0, sha256_buf = vh\<rparr>) data;
     ctx \<leftarrow> fio_sha256_final ctx;
     Some (sha256_buf ctx) }"

definition fill_sha1 :: "bytes \<Rightarrow> bytes option" where
  "fill_sha1 data = do {
     ctx \<leftarrow> fio_sha1_update (fio_sha1_init
       \<lparr>sha1_H = replicate 5 0, sha1_W = replicate 64 0, sha1_size = 0\<rparr>) data;
     ctx \<leftarrow> fio_sha1_final ctx;
     Some (concat (map (le_bytes 4) (sha1_H ctx))) }"

definition fill_crc7 :: "bytes \<Rightarrow> bytes option" where
  "fill_crc7 data = map_option (le_bytes 1) (fio_crc7 data)"

definition fill_crc16 :: "bytes \<Rightarrow> bytes option" where
  "fill_crc16 data = Some (le_bytes 2 (fio_crc16 data))"

definition fill_crc32 :: "bytes \<Rightarrow> bytes option" where
  "fill_crc32 data = Some (le_bytes 4 (fio_crc32 data))"

definition fill_crc32c :: "thread_data \<Rightarrow> bytes \<Rightarrow> bytes option" where
  "fill_crc32c td data = map_option (le_bytes 4) (fio_crc32c (td_arm64 td) (td_intel td) data)"

definition fill_crc64 :: "bytes \<Rightarrow> bytes option" where
  "fill_crc64 data = Some (le_bytes 8 (fio_crc64 data))"

definition fill_md5 :: "bytes \<Rightarrow> bytes option" where
  "fill_md5 data = do {
     ctx \<leftarrow> fio_md5_update (fio_md5_init \<lparr>md5_hash = replicate 4 0, md5_block = replicate 64 0, byte_count = 0\<rparr>) data;
     ctx \<leftarrow> fio_md5_final ctx;
     Some (concat (map (le_bytes 4) (md5_hash ctx))) }"

section \<open>Headers\<close>

definition fill_hdr_at :: "thread_data \<Rightarrow> io_u \<Rightarrow> bytes \<Rightarrow> nat \<Rightarrow> nat \<Rightarrow> nat \<Rightarrow> u64 \<Rightarrow> bytes option" where \<comment> \<open>\<^verbatim>\<open>__fill_hdr\<close>\<close>
  "fill_hdr_at td iou buf p header_num header_len rand_seed = do {
     buf \<leftarrow> store buf p (le_bytes 2 FIO_HDR_MAGIC);
     buf \<leftarrow> store buf (p + 2) (le_bytes 2 (verify_code (opt_verify (td_o td))));
     buf \<leftarrow> store buf (p + 4) (le_bytes 4 (of_nat header_len :: u32));
     buf \<leftarrow> store buf (p + 8) (le_bytes 8 rand_seed);
     buf \<leftarrow> store buf (p + 16) (le_bytes 8 (iou_verify_offset iou + ucast (of_nat header_num * of_nat (opt_verify_interval (td_o td)) :: u32)));
     buf \<leftarrow> store buf (p + 24) (le_bytes 4 (iou_start_sec iou));
     buf \<leftarrow> store buf (p + 28) (le_bytes 4 (iou_start_nsec iou));
     buf \<leftarrow> store buf (p + 32) (le_bytes 2 (td_thread_number td));
     buf \<leftarrow> store buf (p + 34) (le_bytes 2 (iou_numberio iou));
     h \<leftarrow> slice buf p 36;
     crc \<leftarrow> fio_crc32c (td_arm64 td) (td_intel td) h;
     store buf (p + 36) (le_bytes 4 crc) }"

definition fill_hdr :: "thread_data \<Rightarrow> io_u \<Rightarrow> bytes \<Rightarrow> nat \<Rightarrow> nat \<Rightarrow> nat \<Rightarrow> u64 \<Rightarrow> bytes option" where
  "fill_hdr td iou buf p header_num header_len rand_seed =
     (if opt_verify (td_o td) \<noteq> VERIFY_PATTERN_NO_HDR then fill_hdr_at td iou buf p header_num header_len rand_seed
      else Some buf)"

text \<open>
  The checksum of the chosen type: \<open>mem\<close> is the memory \<^verbatim>\<open>XXH32_init\<close> allocates, \<open>vh\<close> what is behind the header. The
  types without a checksum store nothing.
\<close>

definition fill_vhdr :: "thread_data \<Rightarrow> bytes \<Rightarrow> bytes \<Rightarrow> bytes \<Rightarrow> bytes option" where
  "fill_vhdr td mem vh data = (case opt_verify (td_o td) of
     VERIFY_MD5 \<Rightarrow> fill_md5 data
   | VERIFY_CRC64 \<Rightarrow> fill_crc64 data
   | VERIFY_CRC32C \<Rightarrow> fill_crc32c td data
   | VERIFY_CRC32C_INTEL \<Rightarrow> fill_crc32c td data
   | VERIFY_CRC32 \<Rightarrow> fill_crc32 data
   | VERIFY_CRC16 \<Rightarrow> fill_crc16 data
   | VERIFY_CRC7 \<Rightarrow> fill_crc7 data
   | VERIFY_SHA256 \<Rightarrow> fill_sha256 vh data
   | VERIFY_SHA512 \<Rightarrow> fill_sha512 vh data
   | VERIFY_SHA3_224 \<Rightarrow> fill_sha3_224 vh data
   | VERIFY_SHA3_256 \<Rightarrow> fill_sha3_256 vh data
   | VERIFY_SHA3_384 \<Rightarrow> fill_sha3_384 vh data
   | VERIFY_SHA3_512 \<Rightarrow> fill_sha3_512 vh data
   | VERIFY_XXHASH \<Rightarrow> fill_xxhash mem data
   | VERIFY_SHA1 \<Rightarrow> fill_sha1 data
   | VERIFY_HDR_ONLY \<Rightarrow> Some [] | VERIFY_PATTERN \<Rightarrow> Some [] | VERIFY_PATTERN_NO_HDR \<Rightarrow> Some []
   | VERIFY_NONE \<Rightarrow> None | VERIFY_NULL \<Rightarrow> None)"

definition populate_hdr :: "bytes \<Rightarrow> thread_data \<Rightarrow> io_u \<Rightarrow> nat \<Rightarrow> nat \<Rightarrow> nat \<Rightarrow> (thread_data \<times> io_u) option" where
  "populate_hdr mem td iou p header_num header_len = do {
     buf \<leftarrow> fill_hdr td iou (iou_buf iou) p header_num header_len (iou_rand_seed iou);
     hs \<leftarrow> io_hdr_size td buf p;
     if header_len \<le> hs then Some (td\<lparr>td_error := EINVAL\<rparr>, iou\<lparr>iou_buf := buf\<rparr>)
     else do {
       data \<leftarrow> slice buf (p + hs) (header_len - hs);
       vh \<leftarrow> (if hs = 0 then Some [] else slice buf (p + sizeof_verify_header) (hs - sizeof_verify_header));
       vh \<leftarrow> fill_vhdr td mem vh data;
       buf \<leftarrow> (if vh = [] then Some buf else store buf (p + sizeof_verify_header) vh);
       buf \<leftarrow> (if opt_verify_offset (td_o td) \<noteq> 0 \<and> hs \<noteq> 0
               then memswp buf p (p + opt_verify_offset (td_o td)) hs else Some buf);
       Some (td, iou\<lparr>iou_buf := buf\<rparr>) } }"

text \<open>The loop over the intervals; with an increment of zero it would not end.\<close>

function populate_loop :: "bytes \<Rightarrow> thread_data \<Rightarrow> io_u \<Rightarrow> nat \<Rightarrow> nat \<Rightarrow> nat \<Rightarrow> nat \<Rightarrow> (thread_data \<times> io_u) option" where
  "populate_loop mem td iou buflen p header_num hdr_inc =
     (if buflen \<le> p then Some (td, iou)
      else if hdr_inc = 0 then None
      else do {
        (td, iou) \<leftarrow> populate_hdr mem td iou p header_num hdr_inc;
        populate_loop mem td iou buflen (p + hdr_inc) (header_num + 1) hdr_inc })"
  by pat_completeness auto
termination by (relation "measure (\<lambda>(mem, td, iou, buflen, p, n, inc). buflen - p)") auto

declare populate_loop.simps [simp del]

definition fill_pattern_headers :: "bytes \<Rightarrow> thread_data \<Rightarrow> io_u \<Rightarrow> u64 \<Rightarrow> bool \<Rightarrow> (thread_data \<times> io_u) option" where
  "fill_pattern_headers mem td iou seed use_seed = do {
     (td, iou) \<leftarrow> fill_verify_pattern td (iou_buflen iou mod 2 ^ 32) iou seed use_seed;
     populate_loop mem td iou (iou_buflen iou) 0 0 (get_hdr_inc td iou) }"

definition populate_verify_io_u :: "bytes \<Rightarrow> thread_data \<Rightarrow> io_u \<Rightarrow> (thread_data \<times> io_u) option" where
  "populate_verify_io_u mem td iou =
     (if opt_verify (td_o td) = VERIFY_NULL then Some (td, iou) else fill_pattern_headers mem td iou 0 False)"

text \<open>The format \<^verbatim>\<open>%o\<close>: the offset of the block.\<close>

definition paste_blockoff :: "bytes \<Rightarrow> nat \<Rightarrow> io_u \<Rightarrow> (bytes \<times> int) option" where
  "paste_blockoff buf len iou = map_option (\<lambda>b. (b, 0)) (memcpy_at buf 0 (le_bytes 8 (iou_offset iou)) (min len 8))"

section \<open>Checking\<close>

definition mem_is_zero :: "bytes \<Rightarrow> bool option" where
  "mem_is_zero data =
     (if \<exists>b \<in> set (take 16 data). b \<noteq> 0 then Some False
      else if length data \<le> 16 then Some True
      else map_option Not (memcmp_ne data (drop 16 data) (length data - 16)))"

definition verify_trimmed_io_u :: "thread_data \<Rightarrow> io_u \<Rightarrow> int option" where
  "verify_trimmed_io_u td iou =
     (if \<not> opt_trim_zero (td_o td) then Some 0
      else do {
        d \<leftarrow> slice (iou_buf iou) 0 (iou_buflen iou);
        z \<leftarrow> mem_is_zero d;
        Some (if z then 0 else EILSEQ) })"

text \<open>
  Each checksum is computed with the calls of the corresponding filling function, on a context of its own: \<open>stk\<close> is
  the uninitialised local array it uses as a buffer, or the memory allocated for the hash state.
\<close>

definition sum_matches :: "bytes option \<Rightarrow> bytes \<Rightarrow> int option" where
  "sum_matches s vh = map_option (\<lambda>s. if s = vh then 0 else EILSEQ) s"

definition verify_io_u_md5 :: "bytes \<Rightarrow> bytes \<Rightarrow> int option" where
  "verify_io_u_md5 vh data = sum_matches (fill_md5 data) vh"

definition verify_io_u_crc64 :: "bytes \<Rightarrow> bytes \<Rightarrow> int option" where
  "verify_io_u_crc64 vh data = sum_matches (fill_crc64 data) vh"

definition verify_io_u_crc32 :: "bytes \<Rightarrow> bytes \<Rightarrow> int option" where
  "verify_io_u_crc32 vh data = sum_matches (fill_crc32 data) vh"

definition verify_io_u_crc16 :: "bytes \<Rightarrow> bytes \<Rightarrow> int option" where
  "verify_io_u_crc16 vh data = sum_matches (fill_crc16 data) vh"

definition verify_io_u_crc7 :: "bytes \<Rightarrow> bytes \<Rightarrow> int option" where
  "verify_io_u_crc7 vh data = sum_matches (fill_crc7 data) vh"

definition verify_io_u_sha1 :: "bytes \<Rightarrow> bytes \<Rightarrow> int option" where
  "verify_io_u_sha1 vh data = sum_matches (fill_sha1 data) vh"

definition verify_io_u_crc32c :: "thread_data \<Rightarrow> bytes \<Rightarrow> bytes \<Rightarrow> int option" where
  "verify_io_u_crc32c td vh data = sum_matches (fill_crc32c td data) vh"

definition verify_io_u_sha256 :: "bytes \<Rightarrow> bytes \<Rightarrow> bytes \<Rightarrow> int option" where
  "verify_io_u_sha256 stk vh data = sum_matches (fill_sha256 (take 64 stk) data) vh"

definition verify_io_u_sha512 :: "bytes \<Rightarrow> bytes \<Rightarrow> bytes \<Rightarrow> int option" where
  "verify_io_u_sha512 stk vh data = sum_matches (fill_sha512 (take 128 stk) data) vh"

definition verify_io_u_sha3_224 :: "bytes \<Rightarrow> bytes \<Rightarrow> bytes \<Rightarrow> int option" where
  "verify_io_u_sha3_224 stk vh data = sum_matches (fill_sha3_224 (take 28 stk) data) vh"

definition verify_io_u_sha3_256 :: "bytes \<Rightarrow> bytes \<Rightarrow> bytes \<Rightarrow> int option" where
  "verify_io_u_sha3_256 stk vh data = sum_matches (fill_sha3_256 (take 32 stk) data) vh"

definition verify_io_u_sha3_384 :: "bytes \<Rightarrow> bytes \<Rightarrow> bytes \<Rightarrow> int option" where
  "verify_io_u_sha3_384 stk vh data = sum_matches (fill_sha3_384 (take 48 stk) data) vh"

definition verify_io_u_sha3_512 :: "bytes \<Rightarrow> bytes \<Rightarrow> bytes \<Rightarrow> int option" where
  "verify_io_u_sha3_512 stk vh data = sum_matches (fill_sha3_512 (take 64 stk) data) vh"

definition verify_io_u_xxhash :: "bytes \<Rightarrow> bytes \<Rightarrow> bytes \<Rightarrow> int option" where
  "verify_io_u_xxhash stk vh data = sum_matches (fill_xxhash (take 16 stk) data) vh"

text \<open>The checksum cases of the switch in \<^verbatim>\<open>verify_io_u\<close>.\<close>

definition verify_sum :: "thread_data \<Rightarrow> bytes \<Rightarrow> verify_type \<Rightarrow> bytes \<Rightarrow> bytes \<Rightarrow> int option" where
  "verify_sum td stk vt vh data = (case vt of
     VERIFY_MD5 \<Rightarrow> verify_io_u_md5 vh data
   | VERIFY_CRC64 \<Rightarrow> verify_io_u_crc64 vh data
   | VERIFY_CRC32C \<Rightarrow> verify_io_u_crc32c td vh data
   | VERIFY_CRC32C_INTEL \<Rightarrow> verify_io_u_crc32c td vh data
   | VERIFY_CRC32 \<Rightarrow> verify_io_u_crc32 vh data
   | VERIFY_CRC16 \<Rightarrow> verify_io_u_crc16 vh data
   | VERIFY_CRC7 \<Rightarrow> verify_io_u_crc7 vh data
   | VERIFY_SHA256 \<Rightarrow> verify_io_u_sha256 stk vh data
   | VERIFY_SHA512 \<Rightarrow> verify_io_u_sha512 stk vh data
   | VERIFY_SHA3_224 \<Rightarrow> verify_io_u_sha3_224 stk vh data
   | VERIFY_SHA3_256 \<Rightarrow> verify_io_u_sha3_256 stk vh data
   | VERIFY_SHA3_384 \<Rightarrow> verify_io_u_sha3_384 stk vh data
   | VERIFY_SHA3_512 \<Rightarrow> verify_io_u_sha3_512 stk vh data
   | VERIFY_XXHASH \<Rightarrow> verify_io_u_xxhash stk vh data
   | VERIFY_SHA1 \<Rightarrow> verify_io_u_sha1 vh data
   | _ \<Rightarrow> Some EINVAL)"

text \<open>The data of interval \<open>hdr_num\<close>, found through the length and type in its header, and what lies behind the header.\<close>

definition verify_io_u_sum :: "thread_data \<Rightarrow> bytes \<Rightarrow> verify_type \<Rightarrow> bytes \<Rightarrow> nat \<Rightarrow> nat \<Rightarrow> int option" where
  "verify_io_u_sum td stk vt buf p hdr_num = do {
     len \<leftarrow> field 4 buf (p + 4);
     hs \<leftarrow> io_hdr_size td buf p;
     let off = unat (of_nat hdr_num * len :: u32);
     data \<leftarrow> slice buf (off + hs) (unat (len - of_nat hs));
     vh \<leftarrow> slice buf (p + sizeof_verify_header) (verify_hdr_size vt - sizeof_verify_header);
     verify_sum td stk vt vh data }"

fun pattern_slow :: "bytes \<Rightarrow> bytes \<Rightarrow> nat \<Rightarrow> int option" where
  "pattern_slow pattern [] md = None"
| "pattern_slow pattern (b # bs) md = do {
     w \<leftarrow> rd pattern md;
     if b \<noteq> w then Some EILSEQ
     else pattern_slow pattern bs (if md + 1 = length pattern then 0 else md + 1) }"

definition verify_io_u_pattern :: "thread_data \<Rightarrow> io_u \<Rightarrow> nat \<Rightarrow> nat \<Rightarrow> (thread_data \<times> int) option" where
  "verify_io_u_pattern td iou p hdr_num = (let header_size = verify_hdr_size (opt_verify (td_o td)) in do {
     c_assert (opt_verify_pattern (td_o td) \<noteq> []);
     (pattern, _) \<leftarrow> paste_format_inplace (opt_verify_pattern (td_o td)) (opt_verify_fmt (td_o td)) iou;
     let td = td\<lparr>td_o := (td_o td)\<lparr>opt_verify_pattern := pattern\<rparr>\<rparr>;
     let inc = (of_nat (get_hdr_inc td iou) :: u32);
     buf \<leftarrow> slice (iou_buf iou) (p + header_size) (unat (inc - of_nat header_size));
     let md = unat (inc * of_nat hdr_num + of_nat header_size) mod length pattern;
     rc \<leftarrow> cmp_pattern pattern md buf;
     if rc = 0 then Some (td, 0)
     else do {
       rc \<leftarrow> pattern_slow pattern buf md;
       Some (td, rc) } })"

definition verify_header :: "io_u \<Rightarrow> thread_data \<Rightarrow> nat \<Rightarrow> nat \<Rightarrow> nat \<Rightarrow> int option" where
  "verify_header iou td p hdr_num hdr_len = (let buf = iou_buf iou in do {
     magic \<leftarrow> field 2 buf p;
     len \<leftarrow> field 4 buf (p + 4);
     seed \<leftarrow> field 8 buf (p + 8);
     off \<leftarrow> field 8 buf (p + 16);
     numberio \<leftarrow> field 2 buf (p + 34);
     crc32 \<leftarrow> field 4 buf (p + 36);
     if magic \<noteq> FIO_HDR_MAGIC then Some EILSEQ
     else if len \<noteq> (of_nat hdr_len :: u32) then Some EILSEQ
     else if seed \<noteq> iou_rand_seed iou then Some EILSEQ
     else if off \<noteq> iou_verify_offset iou + ucast (of_nat hdr_num * of_nat (opt_verify_interval (td_o td)) :: u32) then Some EILSEQ
     else if td_write td \<and> td_fixed_bs td \<and> \<not> opt_time_based (td_o td) \<and> opt_verify_write_sequence (td_o td) \<and>
          numberio \<noteq> iou_numberio iou then Some EILSEQ
     else do {
       h \<leftarrow> slice buf p 36;
       crc \<leftarrow> fio_crc32c (td_arm64 td) (td_intel td) h;
       Some (if crc \<noteq> crc32 then EILSEQ else 0) } })"

text \<open>
  One round of the loop of \<^verbatim>\<open>verify_io_u\<close>. The flag says that the function returns at once, as it does when a
  header is bad.
\<close>

definition verify_block :: "bytes \<Rightarrow> thread_data \<Rightarrow> io_u \<Rightarrow> nat \<Rightarrow> nat \<Rightarrow> nat \<Rightarrow> (thread_data \<times> io_u \<times> int \<times> bool) option" where
  "verify_block stk td iou p hdr_num hdr_inc = (let opts = td_o td; header_size = verify_hdr_size (opt_verify opts) in do {
     buf \<leftarrow> (if opt_verify_offset opts \<noteq> 0 then memswp (iou_buf iou) p (p + opt_verify_offset opts) header_size
             else Some (iou_buf iou));
     let iou = iou\<lparr>iou_buf := buf\<rparr>;
     iou \<leftarrow> (if \<not> td_rw td \<or> td_ver_backlog td \<or> opt_zrf opts
             then map_option (\<lambda>seed. iou\<lparr>iou_rand_seed := seed\<rparr>) (field 8 buf (p + 8)) else Some iou);
     ret \<leftarrow> (if opt_verify opts \<noteq> VERIFY_PATTERN_NO_HDR then verify_header iou td p hdr_num hdr_inc else Some 0);
     if ret \<noteq> 0 then Some (td, iou, ret, True)
     else do {
       vt \<leftarrow> (if opt_verify opts \<noteq> VERIFY_NONE then Some (opt_verify opts)
              else do { c \<leftarrow> field 2 buf (p + 2); Some (case verify_of c of Some v \<Rightarrow> v | None \<Rightarrow> VERIFY_NONE) });
       (td, ret) \<leftarrow> (case vt of
           VERIFY_HDR_ONLY \<Rightarrow> if opt_verify_pattern opts \<noteq> [] then verify_io_u_pattern td iou p hdr_num else Some (td, 0)
         | VERIFY_PATTERN \<Rightarrow> verify_io_u_pattern td iou p hdr_num
         | VERIFY_PATTERN_NO_HDR \<Rightarrow> verify_io_u_pattern td iou p hdr_num
         | VERIFY_NONE \<Rightarrow> Some (td, EINVAL)
         | VERIFY_NULL \<Rightarrow> Some (td, EINVAL)
         | _ \<Rightarrow> map_option (Pair td) (verify_io_u_sum td stk vt buf p hdr_num));
       Some (td, iou, ret, False) } })"

function verify_loop :: "bytes \<Rightarrow> thread_data \<Rightarrow> io_u \<Rightarrow> nat \<Rightarrow> nat \<Rightarrow> nat \<Rightarrow> nat \<Rightarrow> int \<Rightarrow> (thread_data \<times> io_u \<times> int \<times> bool) option" where
  "verify_loop stk td iou buflen p hdr_num hdr_inc ret =
     (if buflen \<le> p \<or> ret \<noteq> 0 \<and> opt_verify_fatal (td_o td) then Some (td, iou, ret, False)
      else if hdr_inc = 0 then None
      else do {
        (td, iou, ret, stop) \<leftarrow> verify_block stk td iou p hdr_num hdr_inc;
        if stop then Some (td, iou, ret, True)
        else verify_loop stk td iou buflen (p + hdr_inc) (hdr_num + 1) hdr_inc ret })"
  by pat_completeness auto
termination by (relation "measure (\<lambda>(stk, td, iou, buflen, p, n, inc, ret). buflen - p)") auto

declare verify_loop.simps [simp del]

definition verify_io_u :: "bytes \<Rightarrow> thread_data \<Rightarrow> io_u \<Rightarrow> (thread_data \<times> io_u \<times> int) option" where
  "verify_io_u stk td iou =
     (if opt_verify (td_o td) = VERIFY_NULL \<or> \<not> iou_read iou then Some (td, iou, 0)
      else if td_fakeio td then Some (td, iou, 0)
      else if iou_ver_in_dev iou then Some (td, iou, 0)
      else do {
        (td, iou, ret, stop) \<leftarrow>
          (if iou_trimmed iou then map_option (\<lambda>ret. (td, iou, ret, False)) (verify_trimmed_io_u td iou)
           else verify_loop stk td iou (iou_buflen iou) 0 0 (get_hdr_inc td iou) 0);
        let td = (if \<not> stop \<and> ret \<noteq> 0 \<and> opt_verify_fatal (td_o td) then td\<lparr>td_terminate := True\<rparr> else td);
        Some (td, iou, ret) })"

lemmas verify_sum_defs = verify_sum_def verify_io_u_md5_def verify_io_u_crc64_def verify_io_u_crc32_def verify_io_u_crc16_def verify_io_u_crc7_def verify_io_u_sha1_def verify_io_u_crc32c_def verify_io_u_sha256_def verify_io_u_sha512_def verify_io_u_sha3_224_def verify_io_u_sha3_256_def verify_io_u_sha3_384_def verify_io_u_sha3_512_def verify_io_u_xxhash_def

end
