(* ===== verification/Verify_Sums.thy ===== *)
theory Verify_Sums
  imports Verify
begin

text \<open>
  The contract of a checksum method of \<^verbatim>\<open>verify.c\<close>: on data of the lengths it supports it returns a sum of fixed length
  that does not depend on the memory it uses as a buffer, the old bytes behind the header when filling and an
  uninitialised array when checking. Every method is shown to satisfy it; SHA-512 does so for 128 bytes of
  data and more.
\<close>

locale sum_method =
  fixes fill :: "bytes \<Rightarrow> bytes \<Rightarrow> bytes option" and m n lo :: nat
  assumes sum_fixed: "lo \<le> length data \<Longrightarrow> length data < 2 ^ 31 - 16 \<Longrightarrow>
    \<exists>s. length s = n \<and> (\<forall>b. length b = m \<longrightarrow> fill b data = Some s)"
begin

lemma refill:
  assumes "lo \<le> length data" and "length data < 2 ^ 31 - 16" and "length b = m" and "length b' = m"
  shows "\<exists>s. fill b data = Some s \<and> length s = n \<and> sum_matches (fill b' data) s = Some 0"
  using sum_fixed [OF assms(1,2)] assms(3,4) by (auto simp: sum_matches_def)

end

lemma sum_method_const:
  assumes "\<And>data. length data < 2 ^ 31 - 16 \<Longrightarrow> \<exists>s. length s = n \<and> f data = Some s"
  shows "sum_method (\<lambda>_. f) m n 0"
  using assms by unfold_locales blast

text \<open>Lengths of the chaining values.\<close>

lemma length_absorb_state:
  assumes "length s = n" and "\<And>s b. length (f s b) = n"
  shows "length (fst (absorb k f s d)) = n"
  using assms
proof (induction k f s d rule: absorb.induct)
  case (1 k f s d)
  then show ?case by (subst absorb.simps) auto
qed

lemma length_concat_le: "length (concat (map (le_bytes k) ws)) = k * length ws"
  by (induction ws) simp_all

interpretation md5_sum: sum_method "\<lambda>_. fill_md5" m 16 0 for m
proof (rule sum_method_const)
  fix data :: bytes
  assume "length data < 2 ^ 31 - 16"
  then have "\<forall>d \<in> set [data]. length d < 2 ^ 32" by simp
  from md5_message [OF _ _ this, of "\<lparr>md5_hash = replicate 4 0, md5_block = replicate 64 0, byte_count = 0\<rparr>"]
  obtain c1 c2 where c: "fio_md5_update (fio_md5_init \<lparr>md5_hash = replicate 4 0, md5_block = replicate 64 0, byte_count = 0\<rparr>) data = Some c1"
    "fio_md5_final c1 = Some c2" "\<exists>d. md5_hash c2 = fst (absorb 64 (\<lambda>s blk. md5_rounds s (words16 blk)) [0x67452301, 0xefcdab89, 0x98badcfe, 0x10325476] d)"
    by auto
  have "length (md5_hash c2) = 4"
    using c(3) length_absorb_state [of "[0x67452301, 0xefcdab89, 0x98badcfe, 0x10325476] :: u32 list" 4 "\<lambda>s blk. md5_rounds s (words16 blk)" 64]
    by (auto simp: md5_rounds_def split: prod.split)
  with c(1,2) show "\<exists>s. length s = 16 \<and> fill_md5 data = Some s"
    by (simp add: fill_md5_def length_concat_le)
qed

interpretation sha1_sum: sum_method "\<lambda>_. fill_sha1" m 20 0 for m
proof (rule sum_method_const)
  fix data :: bytes
  assume "length data < 2 ^ 31 - 16"
  then have "\<forall>d \<in> set [data]. length d < 2 ^ 64" by simp
  from sha1_message [OF _ this, of "\<lparr>sha1_H = replicate 5 0, sha1_W = replicate 64 0, sha1_size = 0\<rparr>"]
  obtain c1 c2 where c: "fio_sha1_update (fio_sha1_init \<lparr>sha1_H = replicate 5 0, sha1_W = replicate 64 0, sha1_size = 0\<rparr>) data = Some c1"
    "fio_sha1_final c1 = Some c2" "\<exists>d. sha1_H c2 = fst (absorb 64 sha1_block [0x67452301, 0xefcdab89, 0x98badcfe, 0x10325476, 0xc3d2e1f0] d)"
    by auto
  have "length (sha1_H c2) = 5"
    using c(3) length_absorb_state [of "[0x67452301, 0xefcdab89, 0x98badcfe, 0x10325476, 0xc3d2e1f0] :: u32 list" 5 sha1_block 64]
    by (auto simp: sha1_block_def split: prod.split)
  with c(1,2) show "\<exists>s. length s = 20 \<and> fill_sha1 data = Some s"
    by (simp add: fill_sha1_def length_concat_le)
qed

interpretation xxhash_sum: sum_method fill_xxhash 16 4 0
proof
  fix data :: bytes
  assume "length data < 2 ^ 31 - 16"
  then have l: "length (concat [data]) \<le> 2 ^ 31 - 16" by simp
  have "fill_xxhash b data = Some (le_bytes 4 (XXH32 data 1))" if "length b = 16" for b
    using xxh32_message [OF _ l, of "\<lparr>total_len = 0, xxh_seed = 0, xxh_v = (0, 0, 0, 0), memsize = 0, xxh_memory = b\<rparr>" 1] that
    by (auto simp: fill_xxhash_def)
  then show "\<exists>s. length s = 4 \<and> (\<forall>b. length b = 16 \<longrightarrow> fill_xxhash b data = Some s)"
    by (intro exI [of _ "le_bytes 4 (XXH32 data 1)"]) simp
qed

interpretation crc16_sum: sum_method "\<lambda>_. fill_crc16" m 2 0 for m
  by (rule sum_method_const) (simp add: fill_crc16_def)

interpretation crc32_sum: sum_method "\<lambda>_. fill_crc32" m 4 0 for m
  by (rule sum_method_const) (simp add: fill_crc32_def)

interpretation crc64_sum: sum_method "\<lambda>_. fill_crc64" m 8 0 for m
  by (rule sum_method_const) (simp add: fill_crc64_def)

interpretation crc7_sum: sum_method "\<lambda>_. fill_crc7" m 1 0 for m
proof (rule sum_method_const)
  fix data :: bytes
  obtain c where "fio_crc7 data = Some c" using fio_crc7_loop_serial [of 0 data] by (auto simp: fio_crc7_def)
  then show "\<exists>s. length s = 1 \<and> fill_crc7 data = Some s" by (simp add: fill_crc7_def)
qed

lemma fio_crc32c_value: "fio_crc32c arm64 intel data = Some (crc32c_sw data)"
  by (simp only: fio_crc32c_def crc32c_arm64_bytes crc32c_sw_serial if_cancel)

interpretation crc32c_sum: sum_method "\<lambda>_. fill_crc32c td" m 4 0 for td m
  by (rule sum_method_const) (simp add: fill_crc32c_def fio_crc32c_value)

text \<open>SHA-3: the state and the buffer are cleared, and the digest overwrites the whole result array.\<close>

lemma fill_sha3_sum:
  assumes "sha3_size md" and "length data < 2 ^ 31 - 16"
  shows "\<exists>s. length s = md \<and> (\<forall>b. length b = md \<longrightarrow> fill_sha3 (fio_sha3_init (sha3_ctx b) (of_nat md)) data = Some s)"
proof -
  have small: "\<forall>d \<in> set [data]. length d \<le> 2 ^ 32 - 144" using assms(2) by simp
  define s where "s = take md (concat (map (le_bytes 8) (fst (absorb (200 - 2 * md) (sponge_block (25 - md div 4))
      (replicate 25 0) (data @ sha3_pad (200 - 2 * md) (length data mod (200 - 2 * md)))))))"
  have fill: "\<exists>sha. fill_sha3 (fio_sha3_init (sha3_ctx b) (of_nat md)) data = Some sha \<and> length sha = md \<and> take md sha = s"
    if b: "length b = md" for b
  proof -
    obtain c1 c2 where c: "fio_sha3_update (fio_sha3_init (sha3_ctx b) (of_nat md)) data = Some c1" "fio_sha3_final c1 = Some c2"
      "take md (sha3_sha c2) = s"
      using sha3_message [OF assms(1) _ small, of "sha3_ctx b"] b by (auto simp: sha3_ctx_def s_def)
    have "sha3_sha c1 = b"
      using c(1) by (auto simp: fio_sha3_update_def fio_sha3_init_def sha3_ctx_def Let_def split: bind_splits)
    then have "length (sha3_sha c2) = md"
      using c(2) b by (auto simp: fio_sha3_final_def Let_def memcpy_at_def split: bind_splits if_splits)
    with c show ?thesis by (auto simp: fill_sha3_def)
  qed
  have "length s = md" using fill [of "replicate md 0"] by auto
  with fill show ?thesis by (intro exI [of _ s]) fastforce
qed

interpretation sha3_224_sum: sum_method fill_sha3_224 28 28 0
  using fill_sha3_sum [of 28] by unfold_locales (simp add: sha3_size_def fill_sha3_224_def fio_sha3_224_init_def)

interpretation sha3_256_sum: sum_method fill_sha3_256 32 32 0
  using fill_sha3_sum [of 32] by unfold_locales (simp add: sha3_size_def fill_sha3_256_def fio_sha3_256_init_def)

interpretation sha3_384_sum: sum_method fill_sha3_384 48 48 0
  using fill_sha3_sum [of 48] by unfold_locales (simp add: sha3_size_def fill_sha3_384_def fio_sha3_384_init_def)

interpretation sha3_512_sum: sum_method fill_sha3_512 64 64 0
  using fill_sha3_sum [of 64] by unfold_locales (simp add: sha3_size_def fill_sha3_512_def fio_sha3_512_init_def)

text \<open>SHA-512: what is stored is the buffer itself.\<close>

abbreviation sha512_start :: "bytes \<Rightarrow> fio_sha512_ctx" where
  "sha512_start b \<equiv> fio_sha512_init
     \<lparr>sha512_state = replicate 8 0, sha512_count = [0, 0, 0, 0], sha512_buf = b, sha512_Wk = replicate 80 0\<rparr>"

lemma fill_sha512_long:
  assumes "length b = 128" and "128 \<le> length data" and "length data \<le> 2 ^ 32 - 128"
  shows "fill_sha512 b data = Some (drop (length data - length data mod 128) data @ drop (length data mod 128) (take 128 data))"
proof -
  have c: "sha512_inv (sha512_start b)" "sha512_total (sha512_start b) = 0" "sha512_buf (sha512_start b) = b"
    using assms(1) by (simp_all add: sha512_inv_def sha512_total_def fio_sha512_init_def)
  show ?thesis using sha512_update_result [OF c(1) assms(3)] assms(1,2) unfolding c(2,3) by (auto simp: fill_sha512_def)
qed

lemma fill_sha512_short:
  assumes "length b = 128" and "length data < 128"
  shows "fill_sha512 b data = Some (data @ drop (length data) b)"
proof -
  have len: "unat (of_nat (length data) :: u32) = length data" using assms(2) by (intro unat_of_nat32) simp
  then have "\<not> 128 \<le> (of_nat (length data) :: u32)" using assms(2) by (simp add: word_le_nat_alt)
  then show ?thesis using assms len by (simp add: fill_sha512_def fio_sha512_update_def fio_sha512_init_def Let_def)
qed

interpretation sha512_sum: sum_method fill_sha512 128 128 128
proof
  fix data :: bytes
  assume l: "128 \<le> length data" "length data < 2 ^ 31 - 16"
  let ?s = "drop (length data - length data mod 128) data @ drop (length data mod 128) (take 128 data)"
  have "length data mod 128 < 128" by simp
  then have "length ?s = 128" using l(1) by simp
  then show "\<exists>s. length s = 128 \<and> (\<forall>b. length b = 128 \<longrightarrow> fill_sha512 b data = Some s)"
    using fill_sha512_long l by (intro exI [of _ ?s]) simp
qed

text \<open>SHA-256: the last block is assembled in the buffer, so all of it is determined when the message ends.\<close>

lemma sha256_update_last:
  assumes "length (sha256_buf c) = 64" and "unat (sha256_count c) mod 64 = 56" and "length d = 8"
  shows "\<exists>c'. fio_sha256_update c d = Some c' \<and> sha256_buf c' = take 56 (sha256_buf c) @ d"
proof -
  have "unat (sha256_count c AND 0x3f) = 56" using unat_and_3f [of "sha256_count c"] assms(2) by simp
  then have p: "sha256_count c AND 0x3f = 56" by (simp add: word_unat_eq_iff)
  have "block_loop 64 sha256_transform d 8 st (- 56) (take 56 (sha256_buf c) @ d) = Some (sha256_transform st (take 56 (sha256_buf c) @ d), 8, [])" for st
    using assms by (subst block_loop.simps) simp
  then have "block_update 64 sha256_transform (sha256_state c) (sha256_buf c) 56 d 8 =
      Some (sha256_transform (sha256_state c) (take 56 (sha256_buf c) @ d), take 56 (sha256_buf c) @ d, 0)"
    using assms by (simp add: block_update_def)
  then show ?thesis using assms(3) by (simp add: fio_sha256_update_def Let_def p)
qed

definition sha256_sum :: "bytes \<Rightarrow> bytes" where
  "sha256_sum data = (let
     k = length data mod 64;
     r1 = absorb 64 sha256_transform sha256_H data;
     r2 = absorb 64 sha256_transform (fst r1) (snd r1 @ 0x80 # replicate ((119 - k) mod 64) 0);
     len = le_bytes 8 (push_bit 3 (ucast (of_nat (length data) :: u32) :: u64));
     r3 = absorb 64 sha256_transform (fst r2) (snd r2 @ len)
   in map (\<lambda>i. ucast (fst r3 ! i)) [0..<8] @ drop 8 (snd r2 @ len))"

lemma pad_56: "(k mod 64 + Suc ((119 - k mod 64) mod 64)) mod 64 = (56 :: nat)"
proof -
  have k: "k mod 64 < 64" by simp
  show ?thesis
  proof (cases "k mod 64 < 56")
    case True
    then have "(119 - k mod 64) mod 64 = 55 - k mod 64" by (intro pad_zeros) simp
    then show ?thesis using True by simp
  next
    case False
    then have "(119 - k mod 64) mod 64 = 63 - k mod 64 + 56" using k by (intro pad_zeros) simp_all
    then show ?thesis using False k by simp
  qed
qed

lemma fill_sha256_sum:
  assumes "length b = 64" and "length data \<le> 2 ^ 32 - 64"
  shows "fill_sha256 b data = Some (sha256_sum data)" and "length (sha256_sum data) = 64"
proof -
  let ?c = "fio_sha256_init \<lparr>sha256_count = 0, sha256_state = replicate 8 0, sha256_buf = b\<rparr>"
  have c: "64 \<le> length (sha256_buf ?c)" "sha256_pending ?c = []" "sha256_state ?c = sha256_H"
    "length (sha256_buf ?c) = 64" "unat (sha256_count ?c) = 0"
    using assms(1) by (simp_all add: sha256_pending_def fio_sha256_init_def)
  have small: "length data < 2 ^ 32" using assms(2) by simp
  obtain c1 where c1: "fio_sha256_update ?c data = Some c1" "length (sha256_buf c1) = 64"
    "(sha256_state c1, sha256_pending c1) = absorb 64 sha256_transform sha256_H data" "unat (sha256_count c1) = length data"
    using sha256_update_absorbs [OF c(1) assms(2)] unfolding c(2-5) using small by auto
  define pad where "pad = 0x80 # replicate ((119 - length data mod 64) mod 64) (0 :: u8)"
  define len where "len = le_bytes 8 (push_bit 3 (ucast (of_nat (length data) :: u32) :: u64))"
  have k63: "(119 - length data mod 64) mod 64 \<le> 63" by simp
  then have padl: "length pad \<le> 2 ^ 32 - 64" and tk: "take (Suc ((119 - length data mod 64) mod 64)) (0x80 # replicate 63 0) = pad"
    by (simp_all add: pad_def del: mod_le_divisor)
  obtain c2 where c2: "fio_sha256_update c1 pad = Some c2" "length (sha256_buf c2) = 64"
    "(sha256_state c2, sha256_pending c2) = absorb 64 sha256_transform (sha256_state c1) (sha256_pending c1 @ pad)"
    "unat (sha256_count c2) = (length data + length pad) mod 2 ^ 32"
    using sha256_update_absorbs [of c1 pad] c1(2,4) padl by auto
  have m56: "unat (sha256_count c2) mod 64 = 56"
    using pad_56 [of "length data"] unfolding c2(4) mod_mod_64 mod_add_left_eq by (simp add: pad_def)
  obtain c3 where c3: "fio_sha256_update c2 len = Some c3" "sha256_buf c3 = take 56 (sha256_buf c2) @ len"
    using sha256_update_last [OF c2(2) m56, of len] by (auto simp: len_def)
  have p2: "sha256_pending c2 = take 56 (sha256_buf c2)" by (simp add: sha256_pending_def m56)
  have "fst (absorb 64 sha256_transform (sha256_state c2) (sha256_pending c2 @ len)) = sha256_state c3"
    using sha256_update_absorbs [of c2 len] c2(2) c3(1) by (auto simp: len_def dest: arg_cong [of _ _ fst])
  then have "sha256_sum data = map (\<lambda>i. ucast (sha256_state c3 ! i)) [0..<8] @ drop 8 (sha256_buf c3)"
    unfolding sha256_sum_def Let_def c1(3) [symmetric] c2(3) [symmetric] fst_conv snd_conv pad_def [symmetric] len_def [symmetric]
      c3(2) p2 by simp
  moreover have "store_states (sha256_state c3) (sha256_buf c3) [0..<8] =
      Some (map (\<lambda>i. ucast (sha256_state c3 ! i)) [0..<8] @ drop 8 (sha256_buf c3))"
    using c2(2) by (intro store_states_low_bytes) (simp add: c3(2) len_def)
  ultimately have store: "store_states (sha256_state c3) (sha256_buf c3) [0..<8] = Some (sha256_sum data)"
    and "length (sha256_sum data) = 64"
    using c2(2) by (simp_all add: c3(2) len_def del: upt_rec_numeral)
  then show "length (sha256_sum data) = 64" by blast
  have cnt: "sha256_count c1 = of_nat (length data)"
    using c1(4) small by (simp add: word_unat_eq_iff unsigned_of_nat take_bit_nat_eq_self)
  have "fio_sha256_final c1 = Some (c3\<lparr>sha256_buf := sha256_sum data\<rparr>)"
    unfolding fio_sha256_final_def Let_def sha256_pad_len c1(4) tk unfolding cnt len_def [symmetric]
    by (simp add: c2(1) c3(1) store del: upt_rec_numeral)
  then show "fill_sha256 b data = Some (sha256_sum data)" using c1(1) by (simp add: fill_sha256_def)
qed

interpretation sha256_sum: sum_method fill_sha256 64 64 0
proof
  fix data :: bytes
  assume "length data < 2 ^ 31 - 16"
  then have "length data \<le> 2 ^ 32 - 64" by simp
  then show "\<exists>s. length s = 64 \<and> (\<forall>b. length b = 64 \<longrightarrow> fill_sha256 b data = Some s)"
    using fill_sha256_sum [of _ data] fill_sha256_sum(2) [of "replicate 64 0" data]
    by (intro exI [of _ "sha256_sum data"]) simp
qed

end
