(* ===== verification/Verify_Blocks.thy ===== *)
theory Verify_Blocks
  imports Verify_Sums
begin

text \<open>
  One interval of a written buffer: what \<^verbatim>\<open>populate_hdr\<close> leaves in it, and that \<^verbatim>\<open>verify_io_u\<close> accepts it. The lemmas
  speak of an interval \<open>x\<close> between a part \<open>a\<close> before and a part \<open>c\<close> behind it.
\<close>

section \<open>Stores and slices\<close>

lemma store_patch: "at + length ds \<le> length buf \<Longrightarrow> store buf at ds = Some (patch buf at ds)"
  by (simp add: store_def patch_def)

lemma slice_patch:
  "p + length ds \<le> length buf \<Longrightarrow> i + n \<le> length ds \<Longrightarrow> slice (patch buf p ds) (p + i) n = Some (take n (drop i ds))"
  by (simp add: slice_def patch_def)

lemma slice_patch0: "p + length ds \<le> length buf \<Longrightarrow> n \<le> length ds \<Longrightarrow> slice (patch buf p ds) p n = Some (take n ds)"
  using slice_patch [of p ds buf 0 n] by simp

lemma slice_behind:
  "p + length ds \<le> q \<Longrightarrow> p + length ds \<le> length buf \<Longrightarrow> slice (patch buf p ds) q n = slice buf q n"
  by (simp add: slice_def patch_def)

lemma field_patch:
  assumes "p + length ds \<le> length buf" and "i + n \<le> length ds" and "take n (drop i ds) = le_bytes n w" and "8 * n = LENGTH('a)"
  shows "field n (patch buf p ds) (p + i) = Some (w :: 'a::len word)"
  using assms slice_patch [of p ds buf i n] by (simp add: field_def le_word_le_bytes)

lemma patch_mid: "length x = length y \<Longrightarrow> p = length a \<Longrightarrow> patch (a @ x @ c) p y = a @ y @ c"
  by (simp add: patch_def)

lemma patch_over: "length ds = length es \<Longrightarrow> p + length ds \<le> length buf \<Longrightarrow> patch (patch buf p ds) p es = patch buf p es"
  by (simp add: patch_def)

lemma patch_same:
  assumes "slice buf (p + length ds) n = Some es"
  shows "patch buf p ds = patch buf p (ds @ es)"
proof -
  have es: "p + length ds + n \<le> length buf" "es = take n (drop (p + length ds) buf)"
    using assms by (auto simp: slice_def split: if_splits)
  have "drop (p + length ds) buf = es @ drop (p + length ds + length es) buf"
    using es append_take_drop_id [of n "drop (p + length ds) buf"] by (simp add: add.commute)
  then show ?thesis by (simp add: patch_def ac_simps)
qed

section \<open>Moving the header\<close>

text \<open>\<^verbatim>\<open>verify_offset\<close> exchanges the header with the bytes at the offset.\<close>

definition swp :: "nat \<Rightarrow> nat \<Rightarrow> bytes \<Rightarrow> bytes" where
  "swp n off x = take n (drop off x) @ drop n (take off x) @ take n x @ drop (off + n) x"

lemma length_swp [simp]: "n \<le> off \<Longrightarrow> off + n \<le> length x \<Longrightarrow> length (swp n off x) = length x"
  by (simp add: swp_def)

lemma swp_swp:
  assumes "n \<le> off" and "off + n \<le> length x"
  shows "swp n off (swp n off x) = x"
proof -
  obtain u v w z where x: "x = u @ v @ w @ z" "length u = n" "length v = off - n" "length w = n"
  proof
    show "x = take n x @ take (off - n) (drop n x) @ take n (drop off x) @ drop (off + n) x"
      using assms(1) by (metis append_take_drop_id drop_drop le_add_diff_inverse2 add.commute)
  qed (use assms in auto)
  then have "swp n off x = w @ v @ u @ z" using assms(1) by (simp add: swp_def)
  moreover have "swp n off (w @ v @ u @ z) = u @ v @ w @ z" using x assms(1) by (simp add: swp_def)
  ultimately show ?thesis using x(1) by simp
qed

lemma memswp_patch:
  assumes "n \<le> off" and "off + n \<le> length x" and "n \<le> 200" and "p + length x \<le> length buf"
  shows "memswp (patch buf p x) p (p + off) n = Some (patch buf p (swp n off x))"
proof -
  let ?b = "patch buf p x"
  have s: "slice ?b p n = Some (take n x)" using assms by (intro slice_patch0) simp_all
  have d: "take n (drop (p + off) ?b) = take n (drop off x)" using assms by (simp add: patch_def)
  have "memcpy_within ?b p (p + off) n = Some (patch ?b p (take n (drop off x)))"
    using assms d by (simp add: memcpy_within_def memcpy_at_patch del: memcpy_at_Some)
  moreover have "patch ?b p (take n (drop off x)) = patch buf p (take n (drop off x) @ drop n x)"
    using assms by (simp add: patch_def)
  moreover have "store (patch buf p (take n (drop off x) @ drop n x)) (p + off) (take n x) = Some (patch buf p (swp n off x))"
    using assms by (subst store_patch) (simp_all add: patch_def swp_def drop_take)
  ultimately show ?thesis using assms(3) s by (simp add: memswp_def)
qed

section \<open>The header of an interval\<close>

definition hdr_offset :: "thread_data \<Rightarrow> io_u \<Rightarrow> nat \<Rightarrow> u64" where
  "hdr_offset td iou k = iou_verify_offset iou + ucast (of_nat k * of_nat (opt_verify_interval (td_o td)) :: u32)"

definition hdr36 :: "thread_data \<Rightarrow> io_u \<Rightarrow> nat \<Rightarrow> nat \<Rightarrow> bytes" where
  "hdr36 td iou k len =
     le_bytes 2 FIO_HDR_MAGIC @ le_bytes 2 (verify_code (opt_verify (td_o td))) @ le_bytes 4 (of_nat len :: u32) @
     le_bytes 8 (iou_rand_seed iou) @ le_bytes 8 (hdr_offset td iou k) @ le_bytes 4 (iou_start_sec iou) @
     le_bytes 4 (iou_start_nsec iou) @ le_bytes 2 (td_thread_number td) @ le_bytes 2 (iou_numberio iou)"

definition hdr40 :: "thread_data \<Rightarrow> io_u \<Rightarrow> nat \<Rightarrow> nat \<Rightarrow> bytes" where
  "hdr40 td iou k len = hdr36 td iou k len @ le_bytes 4 (crc32c_sw (hdr36 td iou k len))"

lemma length_hdr36 [simp]: "length (hdr36 td iou k len) = 36"
  by (simp add: hdr36_def)

lemma length_hdr40 [simp]: "length (hdr40 td iou k len) = 40"
  by (simp add: hdr40_def)

lemma store_next:
  "p + length ds + length es \<le> length buf \<Longrightarrow> q = p + length ds \<Longrightarrow>
    store (patch buf p ds) q es = Some (patch buf p (ds @ es))"
  by (simp add: store_patch patch_patch)

lemma fill_hdr_at_patch:
  assumes "p + 40 \<le> length buf"
  shows "fill_hdr_at td iou buf p k len (iou_rand_seed iou) = Some (patch buf p (hdr40 td iou k len))"
proof -
  have "slice (patch buf p (hdr36 td iou k len)) p 36 = Some (hdr36 td iou k len)"
    using assms by (subst slice_patch0) simp_all
  moreover have "store (patch buf p (hdr36 td iou k len)) (p + 36) (le_bytes 4 w) = Some (patch buf p (hdr36 td iou k len @ le_bytes 4 w))"
    for w :: u32 using assms by (intro store_next) simp_all
  ultimately show ?thesis using assms
    by (simp add: fill_hdr_at_def store_patch patch_patch fio_crc32c_value hdr40_def
        hdr36_def [symmetric] hdr_offset_def [symmetric])
qed

lemma verify_of_code: "verify_of (verify_code vt) = Some vt"
  by (cases vt) (simp_all add: verify_of_def verify_code_def verify_types_def)

text \<open>The fields of a header, read from a buffer in which it stands at \<open>p\<close>.\<close>

lemma hdr_fields:
  fixes td :: thread_data and iou :: io_u and k len :: nat
  assumes "p + 40 + length ds \<le> length buf"
  defines "b \<equiv> patch buf p (hdr40 td iou k len @ ds)"
  shows "field 2 b p = Some FIO_HDR_MAGIC"
    and "field 2 b (p + 2) = Some (verify_code (opt_verify (td_o td)))"
    and "field 4 b (p + 4) = Some (of_nat len :: u32)"
    and "field 8 b (p + 8) = Some (iou_rand_seed iou)"
    and "field 8 b (p + 16) = Some (hdr_offset td iou k)"
    and "field 2 b (p + 34) = Some (iou_numberio iou)"
    and "field 4 b (p + 36) = Some (crc32c_sw (hdr36 td iou k len))"
    and "slice b p 36 = Some (hdr36 td iou k len)"
proof -
  have l: "p + length (hdr40 td iou k len @ ds) \<le> length buf" using assms by simp
  show "field 2 b p = Some FIO_HDR_MAGIC"
    using field_patch [OF l, of 0 2 FIO_HDR_MAGIC] by (simp add: b_def hdr40_def hdr36_def)
  show "field 2 b (p + 2) = Some (verify_code (opt_verify (td_o td)))"
    unfolding b_def using l by (rule field_patch) (simp_all add: hdr40_def hdr36_def)
  show "field 4 b (p + 4) = Some (of_nat len :: u32)"
    unfolding b_def using l by (rule field_patch) (simp_all add: hdr40_def hdr36_def)
  show "field 8 b (p + 8) = Some (iou_rand_seed iou)"
    unfolding b_def using l by (rule field_patch) (simp_all add: hdr40_def hdr36_def)
  show "field 8 b (p + 16) = Some (hdr_offset td iou k)"
    unfolding b_def using l by (rule field_patch) (simp_all add: hdr40_def hdr36_def)
  show "field 2 b (p + 34) = Some (iou_numberio iou)"
    unfolding b_def using l by (rule field_patch) (simp_all add: hdr40_def hdr36_def)
  show "field 4 b (p + 36) = Some (crc32c_sw (hdr36 td iou k len))"
    unfolding b_def using l by (rule field_patch) (simp_all add: hdr40_def)
  show "slice b p 36 = Some (hdr36 td iou k len)"
    unfolding b_def using l by (subst slice_patch0) (simp_all add: hdr40_def)
qed

section \<open>Filling an interval\<close>

definition sum_type :: "verify_type \<Rightarrow> bool" where
  "sum_type vt \<longleftrightarrow> vt \<notin> {VERIFY_NONE, VERIFY_HDR_ONLY, VERIFY_PATTERN, VERIFY_PATTERN_NO_HDR, VERIFY_NULL}"

definition hdr_type :: "verify_type \<Rightarrow> bool" where
  "hdr_type vt \<longleftrightarrow> vt \<notin> {VERIFY_NONE, VERIFY_PATTERN_NO_HDR, VERIFY_NULL}"

definition min_data :: "verify_type \<Rightarrow> nat" where
  "min_data vt = (if vt = VERIFY_SHA512 then 128 else 0)"

lemma fill_vhdr_sum:
  assumes "sum_type vt" and "opt_verify (td_o td) = vt" and "length mem = 16" and "128 \<le> length stk"
    and "length vh = verify_hdr_size vt - 40" and "min_data vt \<le> length data" and "length data < 2 ^ 31 - 16"
  shows "\<exists>s. fill_vhdr td mem vh data = Some s \<and> length s = verify_hdr_size vt - 40 \<and> verify_sum td' stk vt s data = Some 0"
proof -
  have d: "0 \<le> length data" by simp
  note const = this assms(7) list.size(3) list.size(3)
  have stk: "length (take n stk) = n" if "n \<le> 128" for n using that assms(4) by simp
  show ?thesis
  proof (cases vt)
    case VERIFY_MD5
    then show ?thesis using md5_sum.refill [OF const] assms(2) by (simp add: fill_vhdr_def verify_sum_defs sizeof_verify_header_def)
  next
    case VERIFY_CRC64
    then show ?thesis using crc64_sum.refill [OF const] assms(2) by (simp add: fill_vhdr_def verify_sum_defs sizeof_verify_header_def)
  next
    case VERIFY_CRC32
    then show ?thesis using crc32_sum.refill [OF const] assms(2) by (simp add: fill_vhdr_def verify_sum_defs sizeof_verify_header_def)
  next
    case VERIFY_CRC32C
    then show ?thesis using assms(2)
      by (simp add: fill_vhdr_def verify_sum_defs sizeof_verify_header_def fill_crc32c_def fio_crc32c_value sum_matches_def)
  next
    case VERIFY_CRC32C_INTEL
    then show ?thesis using assms(2)
      by (simp add: fill_vhdr_def verify_sum_defs sizeof_verify_header_def fill_crc32c_def fio_crc32c_value sum_matches_def)
  next
    case VERIFY_CRC16
    then show ?thesis using crc16_sum.refill [OF const] assms(2) by (simp add: fill_vhdr_def verify_sum_defs sizeof_verify_header_def)
  next
    case VERIFY_CRC7
    then show ?thesis using crc7_sum.refill [OF const] assms(2) by (simp add: fill_vhdr_def verify_sum_defs sizeof_verify_header_def)
  next
    case VERIFY_SHA256
    then show ?thesis using sha256_sum.refill [OF d assms(7) _ stk, of vh] assms(2,5)
      by (simp add: fill_vhdr_def verify_sum_defs sizeof_verify_header_def)
  next
    case VERIFY_SHA512
    then show ?thesis using sha512_sum.refill [OF _ assms(7) _ stk, of vh] assms(2,5,6)
      by (simp add: fill_vhdr_def verify_sum_defs sizeof_verify_header_def min_data_def)
  next
    case VERIFY_SHA3_224
    then show ?thesis using sha3_224_sum.refill [OF d assms(7) _ stk, of vh] assms(2,5)
      by (simp add: fill_vhdr_def verify_sum_defs sizeof_verify_header_def)
  next
    case VERIFY_SHA3_256
    then show ?thesis using sha3_256_sum.refill [OF d assms(7) _ stk, of vh] assms(2,5)
      by (simp add: fill_vhdr_def verify_sum_defs sizeof_verify_header_def)
  next
    case VERIFY_SHA3_384
    then show ?thesis using sha3_384_sum.refill [OF d assms(7) _ stk, of vh] assms(2,5)
      by (simp add: fill_vhdr_def verify_sum_defs sizeof_verify_header_def)
  next
    case VERIFY_SHA3_512
    then show ?thesis using sha3_512_sum.refill [OF d assms(7) _ stk, of vh] assms(2,5)
      by (simp add: fill_vhdr_def verify_sum_defs sizeof_verify_header_def)
  next
    case VERIFY_XXHASH
    then show ?thesis using xxhash_sum.refill [OF d assms(7) assms(3) stk] assms(2)
      by (simp add: fill_vhdr_def verify_sum_defs sizeof_verify_header_def)
  next
    case VERIFY_SHA1
    then show ?thesis using sha1_sum.refill [OF const] assms(2) by (simp add: fill_vhdr_def verify_sum_defs sizeof_verify_header_def)
  qed (use assms(1) in \<open>simp_all add: sum_type_def\<close>)
qed


text \<open>
  What \<^verbatim>\<open>populate_hdr\<close> makes of interval \<open>k\<close> whose bytes are \<open>x\<close>: the header, the sum of the data, the data; then
  the header is moved to \<^verbatim>\<open>verify_offset\<close>.
\<close>

definition data_of :: "thread_data \<Rightarrow> bytes \<Rightarrow> bytes" where
  "data_of td x = drop (verify_hdr_size (opt_verify (td_o td))) x"

definition sum_of :: "bytes \<Rightarrow> thread_data \<Rightarrow> bytes \<Rightarrow> bytes" where
  "sum_of mem td x =
     the (fill_vhdr td mem (drop 40 (take (verify_hdr_size (opt_verify (td_o td))) x)) (data_of td x))"

definition plain :: "bytes \<Rightarrow> thread_data \<Rightarrow> io_u \<Rightarrow> nat \<Rightarrow> bytes \<Rightarrow> bytes" where
  "plain mem td iou k x = hdr40 td iou k (length x) @ sum_of mem td x @ data_of td x"

definition placed :: "thread_data \<Rightarrow> bytes \<Rightarrow> bytes" where
  "placed td x = (if opt_verify_offset (td_o td) \<noteq> 0
     then swp (verify_hdr_size (opt_verify (td_o td))) (opt_verify_offset (td_o td)) x else x)"

text \<open>The conditions on the options: the header fits in an interval of \<open>L\<close> bytes, at its place and where it is moved to.\<close>

definition fits :: "thread_data \<Rightarrow> nat \<Rightarrow> bool" where
  "fits td L \<longleftrightarrow> (let hs = verify_hdr_size (opt_verify (td_o td)); off = opt_verify_offset (td_o td) in
     hs + min_data (opt_verify (td_o td)) \<le> L \<and> hs < L \<and> (off = 0 \<or> hs \<le> off \<and> off + hs \<le> L))"

lemma hdr_size_bounds: "hdr_type vt \<Longrightarrow> 40 \<le> verify_hdr_size vt \<and> verify_hdr_size vt \<le> 168"
  by (cases vt) (simp_all add: hdr_type_def sizeof_verify_header_def)

lemma sum_of_sum:
  assumes "hdr_type (opt_verify (td_o td))" and "length mem = 16" and "128 \<le> length stk"
    and "fits td (length x)" and "length x < 2 ^ 31 - 16"
  shows "fill_vhdr td mem (drop 40 (take (verify_hdr_size (opt_verify (td_o td))) x)) (data_of td x) = Some (sum_of mem td x)"
    and "length (sum_of mem td x) = verify_hdr_size (opt_verify (td_o td)) - 40"
    and "sum_type (opt_verify (td_o td)) \<Longrightarrow> verify_sum td' stk (opt_verify (td_o td)) (sum_of mem td x) (data_of td x) = Some 0"
proof -
  let ?vt = "opt_verify (td_o td)" let ?vh = "drop 40 (take (verify_hdr_size ?vt) x)"
  have fit: "verify_hdr_size ?vt + min_data ?vt \<le> length x" using assms(4) by (simp add: fits_def Let_def)
  have "\<exists>s. fill_vhdr td mem ?vh (data_of td x) = Some s \<and> length s = verify_hdr_size ?vt - 40 \<and>
      (sum_type ?vt \<longrightarrow> verify_sum td' stk ?vt s (data_of td x) = Some 0)"
  proof (cases "sum_type ?vt")
    case True
    have vh: "length ?vh = verify_hdr_size ?vt - 40" using fit by simp
    have "min_data ?vt \<le> length (data_of td x)" "length (data_of td x) < 2 ^ 31 - 16"
      using fit assms(5) by (simp_all add: data_of_def)
    from fill_vhdr_sum [OF True refl assms(2,3) vh this] show ?thesis by blast
  next
    case False
    then have "?vt = VERIFY_HDR_ONLY \<or> ?vt = VERIFY_PATTERN" using assms(1) by (auto simp: sum_type_def hdr_type_def)
    then show ?thesis using False by (auto simp: fill_vhdr_def sizeof_verify_header_def)
  qed
  then show "fill_vhdr td mem ?vh (data_of td x) = Some (sum_of mem td x)"
    "length (sum_of mem td x) = verify_hdr_size ?vt - 40"
    "sum_type ?vt \<Longrightarrow> verify_sum td' stk ?vt (sum_of mem td x) (data_of td x) = Some 0"
    by (auto simp: sum_of_def)
qed

lemma length_plain:
  assumes "hdr_type (opt_verify (td_o td))" and "length mem = 16" and "fits td (length x)" and "length x < 2 ^ 31 - 16"
  shows "length (plain mem td iou k x) = length x"
  using sum_of_sum(2) [OF assms(1,2) _ assms(3,4), of "replicate 128 0"] hdr_size_bounds [OF assms(1)] assms(3)
  by (simp add: plain_def data_of_def fits_def Let_def)

lemma length_placed:
  "fits td (length x) \<Longrightarrow> length (placed td x) = length x"
  by (auto simp: placed_def fits_def Let_def)

lemma placed_placed: "fits td (length x) \<Longrightarrow> placed td (placed td x) = x"
  by (auto simp: placed_def fits_def Let_def swp_swp)

lemma memswp_placed:
  assumes "hdr_type (opt_verify (td_o td))" and "fits td (length x)"
  shows "(if opt_verify_offset (td_o td) \<noteq> 0
      then memswp (a @ x @ c) (length a) (length a + opt_verify_offset (td_o td)) (verify_hdr_size (opt_verify (td_o td)))
      else Some (a @ x @ c)) = Some (a @ placed td x @ c)"
proof (cases "opt_verify_offset (td_o td) = 0")
  case False
  let ?hs = "verify_hdr_size (opt_verify (td_o td))"
  have "memswp (patch (a @ x @ c) (length a) x) (length a) (length a + opt_verify_offset (td_o td)) ?hs =
      Some (patch (a @ x @ c) (length a) (swp ?hs (opt_verify_offset (td_o td)) x))"
    using assms(2) False hdr_size_bounds [OF assms(1)] by (intro memswp_patch) (auto simp: fits_def Let_def)
  moreover have "length (placed td x) = length x" using assms(2) by (rule length_placed)
  ultimately show ?thesis using False by (simp add: patch_mid placed_def)
qed (simp add: placed_def)

lemma populate_block:
  assumes vt: "hdr_type (opt_verify (td_o td))" and mem: "length mem = 16"
    and fit: "fits td (length x)" and len: "length x < 2 ^ 31 - 16" and buf: "iou_buf iou = a @ x @ c"
  shows "populate_hdr mem td iou (length a) k (length x) =
    Some (td, iou\<lparr>iou_buf := a @ placed td (plain mem td iou k x) @ c\<rparr>)"
proof -
  let ?p = "length a" and ?L = "length x"
  define hs where "hs = verify_hdr_size (opt_verify (td_o td))"
  define h where "h = hdr40 td iou k ?L"
  let ?b = "patch (iou_buf iou) ?p h"
  note sum = sum_of_sum [OF vt mem _ fit len, of "replicate 128 0", folded hs_def, simplified]
  have hs: "40 \<le> hs" "hs \<le> 168" "hs < ?L" using hdr_size_bounds [OF vt] fit by (simp_all add: hs_def fits_def Let_def)
  have l: "length h = 40" "?p + ?L \<le> length (iou_buf iou)" by (simp_all add: h_def buf)
  have nohdr: "opt_verify (td_o td) \<noteq> VERIFY_PATTERN_NO_HDR" using vt by (simp add: hdr_type_def)
  have hdr: "fill_hdr td iou (iou_buf iou) ?p k ?L (iou_rand_seed iou) = Some ?b"
    using fill_hdr_at_patch [of ?p "iou_buf iou" td iou k ?L] nohdr hs l by (simp add: fill_hdr_def h_def)
  have size: "io_hdr_size td ?b ?p = Some hs"
    using hdr_fields(2) [of ?p "[]" "iou_buf iou" td iou k ?L] hs l nohdr
    by (simp add: io_hdr_size_def h_def hs_def verify_of_code)
  have data: "slice ?b (?p + hs) (?L - hs) = Some (data_of td x)"
    using hs l by (subst slice_behind) (simp_all add: slice_def buf data_of_def hs_def)
  have vh: "slice ?b (?p + 40) (hs - 40) = Some (drop 40 (take hs x))"
    using hs l by (subst slice_behind) (simp_all add: slice_def buf drop_take)
  let ?s = "sum_of mem td x"
  have "store ?b (?p + 40) ?s = Some (patch (iou_buf iou) ?p (h @ ?s))"
    using hs l sum(2) by (intro store_next) simp_all
  moreover have "patch (iou_buf iou) ?p (h @ ?s) = patch (iou_buf iou) ?p ((h @ ?s) @ data_of td x)"
    by (rule patch_same [of _ _ _ "?L - hs"]) (use hs l sum(2) in \<open>simp add: slice_def buf data_of_def hs_def\<close>)
  moreover have "patch (iou_buf iou) ?p ((h @ ?s) @ data_of td x) = a @ plain mem td iou k x @ c"
    unfolding buf by (subst patch_mid) (use length_plain [OF vt mem fit len, of iou k] in \<open>simp_all add: plain_def h_def\<close>)
  ultimately have sto: "(if ?s = [] then Some ?b else store ?b (?p + 40) ?s) = Some (a @ plain mem td iou k x @ c)"
    by (cases "?s = []") simp_all
  have fit': "fits td (length (plain mem td iou k x))" using fit length_plain [OF vt mem fit len] by simp
  have sw: "(if opt_verify_offset (td_o td) \<noteq> 0 \<and> hs \<noteq> 0
      then memswp (a @ plain mem td iou k x @ c) ?p (?p + opt_verify_offset (td_o td)) hs
      else Some (a @ plain mem td iou k x @ c)) = Some (a @ placed td (plain mem td iou k x) @ c)"
    using memswp_placed [OF vt fit', of a c] hs(1) unfolding hs_def [symmetric] by (simp split del: if_split)
  show ?thesis
    unfolding populate_hdr_def sizeof_verify_header_def hdr Option.bind.simps size
    using hs data vh sum(1) sto sw by simp
qed


section \<open>Checking an interval\<close>

text \<open>
  The request \<open>iou'\<close> of thread \<open>td'\<close> reads what \<open>iou\<close> of \<open>td\<close> wrote: same options and offset; the seed is the same or
  taken from the header, the sequence number is the same or not compared.
\<close>

definition copies_seed :: "thread_data \<Rightarrow> bool" where
  "copies_seed td \<longleftrightarrow> \<not> td_rw td \<or> td_ver_backlog td \<or> opt_zrf (td_o td)"

definition checks_numberio :: "thread_data \<Rightarrow> bool" where
  "checks_numberio td \<longleftrightarrow> td_write td \<and> td_fixed_bs td \<and> \<not> opt_time_based (td_o td) \<and> opt_verify_write_sequence (td_o td)"

definition matches :: "thread_data \<Rightarrow> io_u \<Rightarrow> thread_data \<Rightarrow> io_u \<Rightarrow> bool" where
  "matches td iou td' iou' \<longleftrightarrow>
     opt_verify (td_o td') = opt_verify (td_o td) \<and> opt_verify_interval (td_o td') = opt_verify_interval (td_o td) \<and>
     opt_verify_offset (td_o td') = opt_verify_offset (td_o td) \<and>
     iou_verify_offset iou' = iou_verify_offset iou \<and>
     (iou_rand_seed iou' = iou_rand_seed iou \<or> copies_seed td') \<and>
     (iou_numberio iou' = iou_numberio iou \<or> \<not> checks_numberio td')"

lemma verify_header_accepts:
  assumes "iou_buf iou' = patch buf p (hdr40 td iou k L @ ds)" and "p + 40 + length ds \<le> length buf"
    and "matches td iou td' iou'" and "iou_rand_seed iou' = iou_rand_seed iou"
  shows "verify_header iou' td' p k L = Some 0"
  using assms(3,4) hdr_fields [OF assms(2), of td iou k L]
  by (auto simp: verify_header_def Let_def assms(1) matches_def checks_numberio_def hdr_offset_def fio_crc32c_value)

text \<open>
  The state in which the checksum or pattern of interval \<open>k\<close> is checked, and what is then left to show.
\<close>

lemma verify_block_header:
  assumes vt: "hdr_type (opt_verify (td_o td))" and y: "y = hdr40 td iou k (length y) @ ds"
    and fit: "fits td (length y)" and m: "matches td iou td' iou'"
    and buf: "iou_buf iou' = a @ placed td y @ c"
    and iou2: "iou2 = iou'\<lparr>iou_buf := a @ y @ c, iou_rand_seed := iou_rand_seed iou\<rparr>"
    and check: "(case opt_verify (td_o td) of
           VERIFY_HDR_ONLY \<Rightarrow> if opt_verify_pattern (td_o td') \<noteq> [] then verify_io_u_pattern td' iou2 (length a) k else Some (td', 0)
         | VERIFY_PATTERN \<Rightarrow> verify_io_u_pattern td' iou2 (length a) k
         | _ \<Rightarrow> map_option (Pair td') (verify_io_u_sum td' stk (opt_verify (td_o td)) (a @ y @ c) (length a) k)) = Some (td2, r)"
  shows "verify_block stk td' iou' (length a) k (length y) = Some (td2, iou2, r, False)"
proof -
  let ?p = "length a"
  have opts: "opt_verify (td_o td') = opt_verify (td_o td)" "opt_verify_offset (td_o td') = opt_verify_offset (td_o td)"
    using m by (simp_all add: matches_def)
  have fit': "fits td (length (placed td y))" using fit length_placed [of td y] by simp
  have sw: "(if opt_verify_offset (td_o td') \<noteq> 0
      then memswp (iou_buf iou') ?p (?p + opt_verify_offset (td_o td')) (verify_hdr_size (opt_verify (td_o td')))
      else Some (iou_buf iou')) = Some (a @ y @ c)"
    using memswp_placed [OF vt fit', of a c] placed_placed [of td y] fit unfolding opts buf by (simp split del: if_split)
  have p: "a @ y @ c = patch (a @ y @ c) ?p (hdr40 td iou k (length y) @ ds)"
    unfolding y [symmetric] by (simp add: patch_mid)
  have "length y = 40 + length ds" by (subst y) simp
  then have lp: "?p + 40 + length ds \<le> length (a @ y @ c)" by simp
  have seed: "field 8 (a @ y @ c) (?p + 8) = Some (iou_rand_seed iou)"
    using hdr_fields(4) [OF lp, of td iou k "length y"] p by simp
  have cp: "(if \<not> td_rw td' \<or> td_ver_backlog td' \<or> opt_zrf (td_o td')
      then map_option (\<lambda>seed. iou'\<lparr>iou_buf := a @ y @ c\<rparr>\<lparr>iou_rand_seed := seed\<rparr>) (field 8 (a @ y @ c) (?p + 8))
      else Some (iou'\<lparr>iou_buf := a @ y @ c\<rparr>)) = Some iou2"
    using m by (auto simp: seed iou2 matches_def copies_seed_def)
  have h: "verify_header iou2 td' ?p k (length y) = Some 0"
    using p lp m by (intro verify_header_accepts [where ds = ds])
      (auto simp: iou2 matches_def copies_seed_def checks_numberio_def)
  have nohdr: "opt_verify (td_o td') \<noteq> VERIFY_PATTERN_NO_HDR" "opt_verify (td_o td') \<noteq> VERIFY_NONE"
    using vt opts by (simp_all add: hdr_type_def)
  show ?thesis
    unfolding verify_block_def Let_def sw Option.bind.simps cp
    by (cases "opt_verify (td_o td)") (use h nohdr check vt opts in \<open>auto simp: hdr_type_def\<close>)
qed

text \<open>The sum that is compared is that of the data behind the header of the interval.\<close>

lemma verify_sum_at:
  assumes vt: "hdr_type (opt_verify (td_o td))" and y: "y = hdr40 td iou k (length y) @ s @ d"
    and s: "length s = verify_hdr_size (opt_verify (td_o td)) - 40"
    and len: "(k + 1) * length y < 2 ^ 31"
    and a: "length a = k * length y" and opts: "opt_verify (td_o td') = opt_verify (td_o td)"
  shows "verify_io_u_sum td' stk (opt_verify (td_o td)) (a @ y @ c) (length a) k = verify_sum td' stk (opt_verify (td_o td)) s d"
proof -
  let ?p = "length a"
  define hs where "hs = verify_hdr_size (opt_verify (td_o td))"
  have vt': "opt_verify (td_o td') \<noteq> VERIFY_PATTERN_NO_HDR" using vt opts by (auto simp: hdr_type_def)
  have L: "length y < 2 ^ 31" using len by simp
  have "length y = 40 + length s + length d" by (subst y) simp
  then have hs: "40 \<le> hs" "length y - hs = length d" "hs \<le> length y" "length s = hs - 40"
    using hdr_size_bounds [OF vt] s by (simp_all add: hs_def)
  have p: "a @ y @ c = patch (a @ y @ c) ?p (hdr40 td iou k (length y) @ s @ d)"
    unfolding y [symmetric] by (simp add: patch_mid)
  have lp: "?p + 40 + length (s @ d) \<le> length (a @ y @ c)" using hs by simp
  have f: "field 4 (a @ y @ c) (?p + 4) = Some (of_nat (length y) :: u32)"
    "field 2 (a @ y @ c) (?p + 2) = Some (verify_code (opt_verify (td_o td)))"
    using hdr_fields(2,3) [OF lp, of td iou k "length y"] p by simp_all
  have size: "io_hdr_size td' (a @ y @ c) ?p = Some hs" using f(2) vt' by (simp add: io_hdr_size_def hs_def verify_of_code)
  have "of_nat k * of_nat (length y) = (of_nat (k * length y) :: u32)" by simp
  then have off: "unat (of_nat k * of_nat (length y) :: u32) = ?p" using len a by (simp only: unat_of_nat) simp
  have "(of_nat (length y) - of_nat hs :: u32) = of_nat (length d)" using hs by (simp add: of_nat_diff flip: hs(2))
  then have dl: "unat (of_nat (length y) - of_nat hs :: u32) = length d" using L hs(2) by (simp only: unat_of_nat) simp
  have data: "slice (a @ y @ c) (?p + hs) (length d) = Some d"
    using hs by (subst y) (simp add: slice_def)
  have vh: "slice (a @ y @ c) (?p + 40) (hs - 40) = Some s"
    using hs by (subst y) (simp add: slice_def)
  show ?thesis
    unfolding verify_io_u_sum_def f(1) Option.bind.simps size Let_def off dl data sizeof_verify_header_def hs_def [symmetric] vh ..
qed

section \<open>The loops\<close>

fun written :: "bytes \<Rightarrow> thread_data \<Rightarrow> io_u \<Rightarrow> nat \<Rightarrow> bytes list \<Rightarrow> bytes list" where
  "written mem td iou k [] = []"
| "written mem td iou k (x # xs) = placed td (plain mem td iou k x) # written mem td iou (Suc k) xs"

lemma length_written [simp]: "length (written mem td iou k xs) = length xs"
  by (induction xs arbitrary: k) simp_all

lemma nth_written: "i < length xs \<Longrightarrow> written mem td iou k xs ! i = placed td (plain mem td iou (k + i) (xs ! i))"
proof (induction xs arbitrary: k i)
  case (Cons x xs)
  then show ?case by (cases i) simp_all
qed simp

lemma plain_buf [simp]: "plain mem td (iou\<lparr>iou_buf := b\<rparr>) k x = plain mem td iou k x"
  by (simp add: plain_def hdr40_def hdr36_def hdr_offset_def)

lemma populate_loop_written:
  assumes "hdr_type (opt_verify (td_o td))" and "length mem = 16" and "fits td L" and "L < 2 ^ 31 - 16"
    and "\<forall>x \<in> set xs. length x = L"
  shows "populate_loop mem td (iou\<lparr>iou_buf := a @ concat xs\<rparr>) (length a + length xs * L) (length a) k L =
    Some (td, iou\<lparr>iou_buf := a @ concat (written mem td iou k xs)\<rparr>)"
  using assms(5)
proof (induction xs arbitrary: a k)
  case Nil
  then show ?case by (subst populate_loop.simps) simp
next
  case (Cons x xs)
  have L: "0 < L" using assms(3) by (auto simp: fits_def Let_def)
  have x: "length x = L" "fits td (length x)" "length x < 2 ^ 31 - 16" using Cons.prems assms(3,4) by simp_all
  let ?w = "placed td (plain mem td iou k x)"
  have w: "length ?w = L"
    using length_plain [OF assms(1,2) x(2,3), of iou k] x length_placed [of td "plain mem td iou k x"] by simp
  have "populate_hdr mem td (iou\<lparr>iou_buf := a @ x @ concat xs\<rparr>) (length a) k L =
      Some (td, iou\<lparr>iou_buf := a @ ?w @ concat xs\<rparr>)"
    using populate_block [OF assms(1,2) x(2,3), of "iou\<lparr>iou_buf := a @ x @ concat xs\<rparr>" a "concat xs" k] x(1) by simp
  moreover have "populate_loop mem td (iou\<lparr>iou_buf := (a @ ?w) @ concat xs\<rparr>) (length (a @ ?w) + length xs * L) (length (a @ ?w)) (Suc k) L =
      Some (td, iou\<lparr>iou_buf := (a @ ?w) @ concat (written mem td iou (Suc k) xs)\<rparr>)"
    using Cons.prems by (intro Cons.IH) simp
  ultimately show ?case using L w by (subst populate_loop.simps) (simp add: add.assoc)
qed

text \<open>
  A loop over intervals whose check returns \<open>R i\<close>, whatever stands before and behind them, in any state with
  property \<open>P\<close>. The result of an interval replaces that of the one before unless \<^verbatim>\<open>verify_fatal\<close> is set.
\<close>

definition loop_ret :: "bool \<Rightarrow> (nat \<Rightarrow> int) \<Rightarrow> int \<Rightarrow> nat list \<Rightarrow> int" where
  "loop_ret fatal R = foldl (\<lambda>r i. if r \<noteq> 0 \<and> fatal then r else R i)"

lemma loop_ret_stop: "r \<noteq> 0 \<Longrightarrow> loop_ret True R r xs = r"
  unfolding loop_ret_def by (induction xs) simp_all

lemma loop_ret_0: "\<forall>i \<in> set xs. R i = 0 \<Longrightarrow> loop_ret fatal R 0 xs = 0"
  unfolding loop_ret_def by (induction xs) simp_all

lemma loop_ret_one:
  assumes "k < n" and "r \<noteq> 0"
  shows "loop_ret fatal (\<lambda>i. if i = k then r else 0) 0 [0..<n] = (if fatal \<or> n = Suc k then r else 0)"
proof -
  let ?R = "\<lambda>i. if i = k then r else 0"
  have n: "[0..<n] = [0..<k] @ k # [Suc k..<n]"
    using assms(1) by (metis less_imp_le_nat upt_add_eq_append upt_conv_Cons le_add_diff_inverse zero_le)
  have "loop_ret fatal ?R 0 [0..<k] = 0" by (rule loop_ret_0) simp
  then have "loop_ret fatal ?R 0 [0..<n] = loop_ret fatal ?R r [Suc k..<n]"
    unfolding n by (simp add: loop_ret_def)
  also have "\<dots> = (if fatal \<or> n = Suc k then r else 0)"
  proof (cases "fatal \<or> n = Suc k")
    case True
    then show ?thesis using assms(2) loop_ret_stop [of r ?R] by (auto simp: loop_ret_def)
  next
    case False
    then have "[Suc k..<n] = Suc k # [Suc (Suc k)..<n]" using assms(1) by (intro upt_conv_Cons) simp
    then have "loop_ret fatal ?R r [Suc k..<n] = loop_ret fatal ?R 0 [Suc (Suc k)..<n]" using False by (simp add: loop_ret_def)
    also have "\<dots> = 0" by (rule loop_ret_0) simp
    finally show ?thesis using False by simp
  qed
  finally show ?thesis .
qed

lemma verify_loop_result:
  assumes "0 < L" and "\<forall>w \<in> set ws. length w = L"
    and step: "\<And>td iou a c i. P td iou \<Longrightarrow> i < length ws \<Longrightarrow> length a = i * L \<Longrightarrow> iou_buf iou = a @ ws ! i @ c \<Longrightarrow>
      \<exists>td' iou' y. verify_block stk td iou (i * L) i L = Some (td', iou', R i, False) \<and> P td' iou' \<and>
        iou_buf iou' = a @ y @ c \<and> length y = L"
    and fatal: "\<And>td iou. P td iou \<Longrightarrow> opt_verify_fatal (td_o td) = fatal"
    and "P td iou" and "k \<le> length ws" and "length a = k * L" and "iou_buf iou = a @ concat (drop k ws)"
  shows "\<exists>td' iou'. verify_loop stk td iou (length ws * L) (k * L) k L r =
    Some (td', iou', loop_ret fatal R r [k..<length ws], False)"
  using assms(5-)
proof (induction "length ws - k" arbitrary: td iou a k r)
  case 0
  then show ?case by (subst verify_loop.simps) (simp add: loop_ret_def)
next
  case (Suc n)
  then have k: "k < length ws" by simp
  then have d: "drop k ws = ws ! k # drop (Suc k) ws" "[k..<length ws] = k # [Suc k..<length ws]"
    by (simp_all add: Cons_nth_drop_Suc upt_conv_Cons)
  show ?case
  proof (cases "r \<noteq> 0 \<and> fatal")
    case True
    then show ?thesis using fatal [OF Suc.prems(1)] loop_ret_stop [of r R] by (subst verify_loop.simps) simp
  next
    case False
    obtain td' iou' y where y: "verify_block stk td iou (k * L) k L = Some (td', iou', R k, False)" "P td' iou'"
      "iou_buf iou' = a @ y @ concat (drop (Suc k) ws)" "length y = L"
      using step [OF Suc.prems(1) k Suc.prems(3)] Suc.prems(4) by (auto simp: d)
    have "\<exists>td'' iou''. verify_loop stk td' iou' (length ws * L) (Suc k * L) (Suc k) L (R k) =
        Some (td'', iou'', loop_ret fatal R (R k) [Suc k..<length ws], False)"
      by (rule Suc.hyps(1) [of _ _ _ "a @ y"]) (use Suc y k in auto)
    moreover have "loop_ret fatal R r [k..<length ws] = loop_ret fatal R (R k) [Suc k..<length ws]"
      using False unfolding d(2) by (auto simp: loop_ret_def)
    moreover have "\<not> length ws * L \<le> k * L" using k assms(1) by simp
    ultimately show ?thesis using y(1) assms(1) False fatal [OF Suc.prems(1)]
      by (subst verify_loop.simps, cases "r = 0") (simp_all add: add.commute)
  qed
qed

end
