(* ===== verification/Verify_Accept.thy ===== *)
theory Verify_Accept
  imports Verify_Blocks
begin

text \<open>
  Whole buffers: every request that reads what was written is accepted, for all types with a header, and a
  request whose data is damaged is rejected where the checksum can see the damage.
\<close>

section \<open>Pasting formats\<close>

text \<open>The block offset is pasted at fixed positions, so pasting a second time changes nothing.\<close>

definition overlay :: "(nat \<Rightarrow> u8 option) \<Rightarrow> bytes \<Rightarrow> bytes" where
  "overlay G p = map (\<lambda>i. case G i of None \<Rightarrow> p ! i | Some c \<Rightarrow> c) [0..<length p]"

lemma length_overlay [simp]: "length (overlay G p) = length p"
  by (simp add: overlay_def)

lemma nth_overlay [simp]: "i < length p \<Longrightarrow> overlay G p ! i = (case G i of None \<Rightarrow> p ! i | Some c \<Rightarrow> c)"
  by (simp add: overlay_def split: option.split)

lemma overlay_overlay [simp]: "overlay G (overlay G p) = overlay G p"
  by (rule nth_equalityI) (simp_all split: option.split)

lemma overlay_None [simp]: "overlay (\<lambda>_. None) p = p"
  by (rule nth_equalityI) simp_all

lemma paste_formats_overlay:
  assumes "\<forall>f \<in> set fs. fmt_paste (fmt_desc f) = paste_blockoff"
  shows "\<exists>G. \<forall>p iou. length p = n \<longrightarrow> iou_offset iou = w \<longrightarrow> paste_formats p fs iou = Some (overlay G p, 0)"
  using assms
proof (induction fs)
  case Nil
  show ?case by (intro exI [of _ "\<lambda>_. None"]) simp
next
  case (Cons f fs)
  obtain G where G: "\<And>p iou. length p = n \<Longrightarrow> iou_offset iou = w \<Longrightarrow> paste_formats p fs iou = Some (overlay G p, 0)"
    using Cons by auto
  show ?case
  proof (cases "n \<le> fmt_off f")
    case True
    then show ?thesis by (intro exI [of _ "\<lambda>_. None"]) simp
  next
    case False
    define m where "m = min (min (n - fmt_off f) (fmt_len (fmt_desc f))) 8"
    define H where "H = (\<lambda>i. if G i = None \<and> fmt_off f \<le> i \<and> i < fmt_off f + m
        then Some (le_bytes 8 w ! (i - fmt_off f)) else G i)"
    have "paste_formats p (f # fs) iou = Some (overlay H p, 0)" if p: "length p = n" "iou_offset iou = w" for p iou
    proof -
      let ?q = "take (fmt_off f) p @ take m (le_bytes 8 w) @ drop (fmt_off f + m) p"
      have m: "m \<le> n - fmt_off f" "m \<le> 8" by (simp_all add: m_def)
      have "fmt_paste (fmt_desc f) (drop (fmt_off f) p) (min (length p - fmt_off f) (fmt_len (fmt_desc f))) iou =
          Some (take m (le_bytes 8 w) @ drop m (drop (fmt_off f) p), 0)"
        using Cons.prems p m by (simp add: paste_blockoff_def m_def [symmetric])
      moreover have "overlay G ?q = overlay H p"
      proof (rule nth_equalityI)
        fix i
        assume "i < length (overlay G ?q)"
        then have i: "i < n" "i < length ?q" using p m False by auto
        consider "i < fmt_off f" | "fmt_off f \<le> i" "i < fmt_off f + m" | "fmt_off f + m \<le> i" by linarith
        then have "?q ! i = (if fmt_off f \<le> i \<and> i < fmt_off f + m then le_bytes 8 w ! (i - fmt_off f) else p ! i)"
          using i p m False by cases (auto simp: nth_append)
        then show "overlay G ?q ! i = overlay H p ! i" using i p by (auto simp: H_def split: option.split)
      qed (use p m False in auto)
      moreover have "length ?q = n" using p m False by auto
      ultimately show ?thesis using p False G [of ?q iou] by (simp add: add.commute)
    qed
    then show ?thesis by blast
  qed
qed

lemma paste_format_result:
  assumes "length pattern \<le> length out" and "0 < length pattern" and "length out < 2 ^ 32"
    and "paste_format_inplace pattern fs priv = Some (q, 0)" and "length q = length pattern"
  shows "paste_format pattern fs out priv = Some (periodic q 0 (length out), 0)"
proof -
  have "dup_pattern (q @ drop (length pattern) out) (length q) = Some (periodic q 0 (length (q @ drop (length pattern) out)), 0)"
    using assms by (intro dup_pattern_result) simp_all
  then show ?thesis using assms by (auto simp: paste_format_def Let_def)
qed

section \<open>Filling the whole buffer\<close>

text \<open>The pattern with the formats pasted for offset \<open>w\<close>.\<close>

definition pasted :: "thread_options \<Rightarrow> io_u \<Rightarrow> bytes" where
  "pasted opts iou = fst (the (paste_formats (opt_verify_pattern opts) (opt_verify_fmt opts) iou))"

definition block_formats :: "thread_options \<Rightarrow> bool" where
  "block_formats opts \<longleftrightarrow> (\<forall>f \<in> set (opt_verify_fmt opts). fmt_paste (fmt_desc f) = paste_blockoff)"

lemma paste_pasted:
  assumes "block_formats opts" and "iou_offset iou' = iou_offset iou"
  shows "paste_formats (opt_verify_pattern opts) (opt_verify_fmt opts) iou' = Some (pasted opts iou, 0)"
    and "paste_formats (pasted opts iou) (opt_verify_fmt opts) iou' = Some (pasted opts iou, 0)"
    and "length (pasted opts iou) = length (opt_verify_pattern opts)"
proof -
  obtain G where G: "\<And>p iou'. length p = length (opt_verify_pattern opts) \<Longrightarrow> iou_offset iou' = iou_offset iou \<Longrightarrow>
      paste_formats p (opt_verify_fmt opts) iou' = Some (overlay G p, 0)"
    using paste_formats_overlay [of "opt_verify_fmt opts" "length (opt_verify_pattern opts)" "iou_offset iou"] assms(1)
    by (auto simp: block_formats_def)
  have q: "pasted opts iou = overlay G (opt_verify_pattern opts)" using G by (simp add: pasted_def)
  show "paste_formats (opt_verify_pattern opts) (opt_verify_fmt opts) iou' = Some (pasted opts iou, 0)"
    "paste_formats (pasted opts iou) (opt_verify_fmt opts) iou' = Some (pasted opts iou, 0)"
    "length (pasted opts iou) = length (opt_verify_pattern opts)"
    using G assms(2) by (simp_all add: q)
qed

lemma fill_verify_pattern_result:
  assumes "length (iou_buf iou) = n" and "0 < n" and "n < 2 ^ 32" and "opt_compress_percentage (td_o td) \<le> 100"
    and "block_formats (td_o td)" and "length (opt_verify_pattern (td_o td)) \<le> n"
  shows "\<exists>st seed buf m. fill_verify_pattern td n iou 0 False =
      Some (td\<lparr>td_verify_state := st\<rparr>, iou\<lparr>iou_buf := buf, iou_rand_seed := seed, iou_buf_filled_len := m\<rparr>) \<and>
      length buf = n \<and> (opt_verify_pattern (td_o td) \<noteq> [] \<longrightarrow> iou_buf_filled_len iou < n \<longrightarrow> buf = periodic (pasted (td_o td) iou) 0 n)"
proof (cases "opt_verify_pattern (td_o td) = []")
  case True
  obtain st seed where s: "get_next_seed (td_verify_state td) = (st, seed)" by fastforce
  obtain ds where ds: "length ds = n" "fill_buffer (td_o td) seed (iou_buf iou) = Some ds"
    using fill_percentage_result [OF assms(2,4,2,3), of seed "opt_buffer_pattern (td_o td)"] assms(1)
    by (auto simp: fill_buffer_def)
  have "fill_verify_pattern td n iou 0 False =
      Some (td\<lparr>td_verify_state := st\<rparr>, iou\<lparr>iou_rand_seed := seed, iou_buf := ds\<rparr>)"
    using True s ds assms(1) by (simp add: fill_verify_pattern_def slice_def store_patch patch_all)
  then show ?thesis using True ds(1)
    by (intro exI [of _ st] exI [of _ seed] exI [of _ ds] exI [of _ "iou_buf_filled_len iou"]) simp
next
  case False
  have unchanged: "td = td\<lparr>td_verify_state := td_verify_state td\<rparr>" by simp
  show ?thesis
  proof (cases "length (opt_verify_fmt (td_o td)) = 0 \<and> n \<le> iou_buf_filled_len iou")
    case stale: True
    then have "fill_verify_pattern td n iou 0 False = Some (td, iou)" using False by (simp add: fill_verify_pattern_def)
    then show ?thesis using stale assms(1)
      by (intro exI [of _ "td_verify_state td"] exI [of _ "iou_rand_seed iou"] exI [of _ "iou_buf iou"]
          exI [of _ "iou_buf_filled_len iou"]) simp
  next
    case fresh: False
    have "paste_format (opt_verify_pattern (td_o td)) (opt_verify_fmt (td_o td)) (iou_buf iou) iou =
        Some (periodic (pasted (td_o td) iou) 0 n, 0)"
      using paste_format_result [of "opt_verify_pattern (td_o td)" "iou_buf iou" "opt_verify_fmt (td_o td)" iou "pasted (td_o td) iou"]
        paste_pasted [OF assms(5) refl, of iou] assms False by (simp add: paste_format_inplace_def)
    then have "fill_verify_pattern td n iou 0 False =
        Some (td, iou\<lparr>iou_buf := periodic (pasted (td_o td) iou) 0 n, iou_buf_filled_len := n\<rparr>)"
      using False fresh assms(1) by (auto simp: fill_verify_pattern_def slice_def store_patch patch_all Let_def)
    then show ?thesis
      by (intro exI [of _ "td_verify_state td"] exI [of _ "iou_rand_seed iou"]
          exI [of _ "periodic (pasted (td_o td) iou) 0 n"] exI [of _ n]) simp
  qed
qed


section \<open>Written buffers are accepted\<close>

lemma get_hdr_inc_update [simp]:
  "get_hdr_inc td (iou\<lparr>iou_buf := b\<rparr>) = get_hdr_inc td iou"
  "get_hdr_inc td (iou\<lparr>iou_rand_seed := s\<rparr>) = get_hdr_inc td iou"
  "get_hdr_inc td (iou\<lparr>iou_buf_filled_len := n\<rparr>) = get_hdr_inc td iou"
  "get_hdr_inc (td\<lparr>td_o := (td_o td)\<lparr>opt_verify_pattern := q\<rparr>\<rparr>) iou = get_hdr_inc td iou"
  "get_hdr_inc (td\<lparr>td_verify_state := st\<rparr>) iou = get_hdr_inc td iou"
  unfolding get_hdr_inc_def Let_def by simp_all

text \<open>A pattern, checked in interval \<open>k\<close> of a buffer that was filled with it.\<close>

lemma verify_pattern_block:
  assumes vt: "hdr_type (opt_verify (td_o td'))"
    and L: "get_hdr_inc td' iou' = L" "verify_hdr_size (opt_verify (td_o td')) < L" "(k + 1) * L < 2 ^ 31"
    and q: "opt_verify_pattern (td_o td') \<noteq> []" "q \<noteq> []"
      "paste_formats (opt_verify_pattern (td_o td')) (opt_verify_fmt (td_o td')) iou' = Some (q, 0)"
    and d: "slice (iou_buf iou') (k * L + verify_hdr_size (opt_verify (td_o td'))) (L - verify_hdr_size (opt_verify (td_o td'))) =
      Some (periodic q (k * L + verify_hdr_size (opt_verify (td_o td'))) (L - verify_hdr_size (opt_verify (td_o td'))))"
  shows "verify_io_u_pattern td' iou' (k * L) k = Some (td'\<lparr>td_o := (td_o td')\<lparr>opt_verify_pattern := q\<rparr>\<rparr>, 0)"
proof -
  define hs where "hs = verify_hdr_size (opt_verify (td_o td'))"
  have l: "hs < L" "L < 2 ^ 32" using L(2,3) by (simp_all add: hs_def)
  have "(of_nat L - of_nat hs :: u32) = of_nat (L - hs)" using l by (simp add: of_nat_diff)
  then have n: "unat (of_nat L - of_nat hs :: u32) = L - hs" using l by (simp only: unat_of_nat) simp
  have "(of_nat L * of_nat k + of_nat hs :: u32) = of_nat (k * L + hs)" by (simp add: mult.commute)
  moreover have "k * L + hs < 2 ^ 32" using L(3) l(1) by simp
  ultimately have md: "unat (of_nat L * of_nat k + of_nat hs :: u32) = k * L + hs" by (simp only: unat_of_nat) simp
  have p: "paste_format_inplace (opt_verify_pattern (td_o td')) (opt_verify_fmt (td_o td')) iou' = Some (q, 0)"
    using q by (simp add: paste_format_inplace_def)
  have "cmp_pattern q ((k * L + hs) mod length q) (periodic q (k * L + hs) (L - hs)) = Some 0"
    using q(2) cmp_pattern_result [of "(k * L + hs) mod length q" q "periodic q (k * L + hs) (L - hs)"]
    by (simp add: mod_simps)
  then show ?thesis
    using q(1) d unfolding verify_io_u_pattern_def Let_def hs_def [symmetric]
    by (simp add: p L(1) n md)
qed

text \<open>What a reading request has in common with the writing one.\<close>

definition reads_back :: "thread_data \<Rightarrow> io_u \<Rightarrow> thread_data \<Rightarrow> io_u \<Rightarrow> bool" where
  "reads_back td iou td' iou' \<longleftrightarrow>
     td_o td' = td_o td \<and> iou_buf iou' = iou_buf iou \<and> iou_buflen iou' = iou_buflen iou \<and>
     iou_offset iou' = iou_offset iou \<and> iou_verify_offset iou' = iou_verify_offset iou \<and>
     (iou_rand_seed iou' = iou_rand_seed iou \<or> copies_seed td') \<and>
     (iou_numberio iou' = iou_numberio iou \<or> \<not> checks_numberio td') \<and> \<not> iou_trimmed iou'"

text \<open>
  The conditions on a writing request: intervals of \<open>L\<close> bytes divide the buffer and leave room for the header. A
  pattern is checked only against a freshly filled buffer.
\<close>

definition writable :: "thread_data \<Rightarrow> io_u \<Rightarrow> bool" where
  "writable td iou \<longleftrightarrow> (let L = get_hdr_inc td iou in
     length (iou_buf iou) = iou_buflen iou \<and> 0 < iou_buflen iou \<and> iou_buflen iou < 2 ^ 31 - 16 \<and> L dvd iou_buflen iou \<and>
     fits td L \<and> opt_compress_percentage (td_o td) \<le> 100 \<and> block_formats (td_o td) \<and>
     length (opt_verify_pattern (td_o td)) \<le> iou_buflen iou \<and>
     (opt_verify (td_o td) = VERIFY_PATTERN \<longrightarrow> opt_verify_pattern (td_o td) \<noteq> []) \<and>
     (sum_type (opt_verify (td_o td)) \<or> iou_buf_filled_len iou < iou_buflen iou))"

lemma concat_intervals:
  assumes "L dvd length buf" and "0 < L"
  shows "\<exists>xs. buf = concat xs \<and> (\<forall>x \<in> set xs. length x = L) \<and> length xs * L = length buf"
proof -
  from assms(1) obtain m where "length buf = L * m" ..
  then have "length buf = m * L" by (simp add: mult.commute)
  then show ?thesis
  proof (induction m arbitrary: buf)
    case (Suc m)
    have d: "length (drop L buf) = m * L" using Suc.prems by simp
    obtain xs where "drop L buf = concat xs" "\<forall>x \<in> set xs. length x = L" "length xs * L = m * L"
      using Suc.IH [OF d] d by metis
    then show ?case using Suc.prems append_take_drop_id [of L buf]
      by (intro exI [of _ "take L buf # xs"]) (simp del: append_take_drop_id)
  qed (auto intro: exI [of _ "[]"])
qed

lemma nth_interval:
  assumes "\<forall>x \<in> set xs. length x = L" and "i < length xs"
  shows "xs ! i = take L (drop (i * L) (concat xs))"
  using assms
proof (induction xs arbitrary: i)
  case (Cons x xs)
  then show ?case by (cases i) auto
qed simp


text \<open>
  The state while a buffer is checked: the pattern of the options has its formats pasted from the first interval on.
\<close>

definition being_checked :: "thread_data \<Rightarrow> io_u \<Rightarrow> nat \<Rightarrow> bytes \<Rightarrow> thread_data \<Rightarrow> io_u \<Rightarrow> bool" where
  "being_checked td iou L q td' iou' \<longleftrightarrow> matches td iou td' iou' \<and> get_hdr_inc td' iou' = L \<and>
     (opt_verify_pattern (td_o td') = [] \<longleftrightarrow> q = []) \<and> iou_offset iou' = iou_offset iou \<and>
     opt_verify_fatal (td_o td') = opt_verify_fatal (td_o td) \<and>
     paste_formats (opt_verify_pattern (td_o td')) (opt_verify_fmt (td_o td')) iou' = Some (q, 0) \<and>
     (\<forall>iou'. iou_offset iou' = iou_offset iou \<longrightarrow> paste_formats q (opt_verify_fmt (td_o td')) iou' = Some (q, 0))"

lemma being_checked_iou:
  assumes "being_checked td iou L q td' iou'" and "block_formats (td_o td')"
  shows "being_checked td iou L q td' (iou'\<lparr>iou_buf := b, iou_rand_seed := iou_rand_seed iou\<rparr>)"
proof -
  let ?iou = "iou'\<lparr>iou_buf := b, iou_rand_seed := iou_rand_seed iou\<rparr>"
  have "paste_formats (opt_verify_pattern (td_o td')) (opt_verify_fmt (td_o td')) ?iou = Some (q, 0)"
    using paste_pasted(1) [OF assms(2), of ?iou iou'] paste_pasted(1) [OF assms(2), of iou' iou'] assms(1)
    by (simp add: being_checked_def)
  then show ?thesis using assms(1) by (auto simp: being_checked_def matches_def)
qed

lemma verify_step_sum:
  assumes vt: "sum_type (opt_verify (td_o td))"
    and fit: "fits td L" and len: "(k + 1) * L < 2 ^ 31" and y: "y = hdr40 td iou k L @ s @ d" "length y = L"
    and s: "length s = verify_hdr_size (opt_verify (td_o td)) - 40" and a: "length a = k * L"
    and m: "matches td iou td' iou'" and buf: "iou_buf iou' = a @ placed td y @ c"
    and r: "verify_sum td' stk (opt_verify (td_o td)) s d = Some r"
  shows "verify_block stk td' iou' (k * L) k L =
    Some (td', iou'\<lparr>iou_buf := a @ y @ c, iou_rand_seed := iou_rand_seed iou\<rparr>, r, False)"
proof -
  have vt': "hdr_type (opt_verify (td_o td))" using vt by (auto simp: sum_type_def hdr_type_def)
  have "verify_io_u_sum td' stk (opt_verify (td_o td)) (a @ y @ c) (length a) k = Some r"
    using verify_sum_at [OF vt' _ s, of y iou k d a td' stk c] y a len m r by (simp add: matches_def)
  then have "verify_block stk td' iou' (length a) k (length y) =
      Some (td', iou'\<lparr>iou_buf := a @ y @ c, iou_rand_seed := iou_rand_seed iou\<rparr>, r, False)"
    using vt y fit m buf
    by (intro verify_block_header [OF vt', where ds = "s @ d"]) (simp, simp, simp, simp, simp, cases "opt_verify (td_o td)", simp_all add: sum_type_def)
  then show ?thesis using y(2) a by simp
qed

lemma verify_step:
  assumes vt: "hdr_type (opt_verify (td_o td))" and mem: "length mem = 16" and stk: "128 \<le> length stk"
    and fit: "fits td L" and len: "(k + 1) * L < 2 ^ 31 - 16" and x: "length x = L" and a: "length a = k * L"
    and C: "being_checked td iou L q td' iou'" and fm: "block_formats (td_o td')"
    and data: "sum_type (opt_verify (td_o td)) \<or> (if q = [] then opt_verify (td_o td) = VERIFY_HDR_ONLY else x = periodic q (k * L) L)"
    and buf: "iou_buf iou' = a @ placed td (plain mem td iou k x) @ c"
  shows "\<exists>td'' iou'' y. verify_block stk td' iou' (k * L) k L = Some (td'', iou'', 0, False) \<and>
    (being_checked td iou L q td'' iou'' \<and> block_formats (td_o td'')) \<and> iou_buf iou'' = a @ y @ c \<and> length y = L"
proof -
  let ?x = "plain mem td iou k x"
  define iou2 where "iou2 = iou'\<lparr>iou_buf := a @ ?x @ c, iou_rand_seed := iou_rand_seed iou\<rparr>"
  define hs where "hs = verify_hdr_size (opt_verify (td_o td))"
  have fx: "fits td (length x)" "length x < 2 ^ 31 - 16" using fit x len by simp_all
  have lx: "length ?x = L" using length_plain [OF vt mem fx] x by simp
  have px: "?x = hdr40 td iou k L @ sum_of mem td x @ data_of td x" using x by (simp add: plain_def)
  note sum = sum_of_sum [OF vt mem stk fx]
  have L31: "(k + 1) * L < 2 ^ 31" using len by simp
  have m: "matches td iou td' iou'" "opt_verify (td_o td') = opt_verify (td_o td)" using C by (simp_all add: being_checked_def matches_def)
  have C2: "being_checked td iou L q td' iou2" unfolding iou2_def by (rule being_checked_iou [OF C fm])
  then have pf: "paste_formats (opt_verify_pattern (td_o td')) (opt_verify_fmt (td_o td')) iou2 = Some (q, 0)"
    by (simp add: being_checked_def)
  note block = verify_block_header [OF vt, of ?x iou k "sum_of mem td x @ data_of td x", unfolded lx,
      OF px fit m(1) buf iou2_def, of stk, unfolded a]
  show ?thesis
  proof (cases "sum_type (opt_verify (td_o td)) \<or> q = []")
    case True
    have "verify_block stk td' iou' (k * L) k L = Some (td', iou2, 0, False)"
    proof (cases "sum_type (opt_verify (td_o td))")
      case st: True
      show ?thesis unfolding iou2_def by (rule verify_step_sum [OF st fit L31 px lx sum(2) a m(1) buf sum(3) [OF st]])
    next
      case False
      then show ?thesis using True data C by (intro block) (simp add: being_checked_def)
    qed
    then show ?thesis using C2 fm lx
      by (intro exI [of _ td'] exI [of _ iou2] exI [of _ ?x]) (simp add: iou2_def)
  next
    case False
    define td2 where "td2 = td'\<lparr>td_o := (td_o td')\<lparr>opt_verify_pattern := q\<rparr>\<rparr>"
    have h: "40 \<le> hs" "hs < L" using hdr_size_bounds [OF vt] fit by (simp_all add: hs_def fits_def Let_def)
    have "data_of td x = periodic q (k * L + hs) (L - hs)"
      using data False h by (simp add: data_of_def hs_def [symmetric] drop_periodic)
    then have d: "slice (iou_buf iou2) (k * L + hs) (L - hs) = Some (periodic q (k * L + hs) (L - hs))"
      using sum(2) h a x by (simp add: iou2_def slice_def plain_def hs_def [symmetric] data_of_def)
    have "verify_io_u_pattern td' iou2 (k * L) k = Some (td2, 0)"
      unfolding td2_def
      by (rule verify_pattern_block [where L = L]) (use vt m(2) C2 h L31 pf d False in \<open>simp_all add: hs_def being_checked_def\<close>)
    moreover have "opt_verify (td_o td) = VERIFY_HDR_ONLY \<or> opt_verify (td_o td) = VERIFY_PATTERN"
      using vt False by (auto simp: hdr_type_def sum_type_def)
    ultimately have "verify_block stk td' iou' (k * L) k L = Some (td2, iou2, 0, False)"
      using False C by (intro block) (auto simp: being_checked_def)
    moreover have "being_checked td iou L q td2 iou2 \<and> block_formats (td_o td2)"
      using C2 fm by (auto simp: being_checked_def td2_def matches_def copies_seed_def checks_numberio_def block_formats_def)
    ultimately show ?thesis using lx
      by (intro exI [of _ td2] exI [of _ iou2] exI [of _ ?x]) (simp add: iou2_def)
  qed
qed

lemma verify_io_u_loop:
  assumes "\<exists>td' iou'. verify_loop stk td iou (iou_buflen iou) 0 0 (get_hdr_inc td iou) 0 = Some (td', iou', r, False)"
    and "\<not> iou_trimmed iou" and "r = 0 \<or> iou_read iou \<and> \<not> td_fakeio td \<and> \<not> iou_ver_in_dev iou"
    and "opt_verify (td_o td) \<noteq> VERIFY_NULL"
  shows "\<exists>td2 iou2. verify_io_u stk td iou = Some (td2, iou2, r)"
  using assms by (auto simp: verify_io_u_def)

lemma written_lengths:
  assumes "hdr_type (opt_verify (td_o td))" and "length mem = 16" and "fits td L" and "L < 2 ^ 31 - 16"
    and "\<forall>x \<in> set xs. length x = L"
  shows "\<forall>w \<in> set (written mem td iou k xs). length w = L"
  using assms(5)
proof (induction xs arbitrary: k)
  case (Cons x xs)
  then have "length (placed td (plain mem td iou k x)) = L"
    using length_plain [OF assms(1,2), of x iou k] length_placed [of td "plain mem td iou k x"] assms(3,4) by simp
  then show ?case using Cons by simp
qed simp

lemma length_concat_same: "\<forall>x \<in> set xs. length x = n \<Longrightarrow> length (concat xs) = length xs * n"
  by (induction xs) simp_all

text \<open>
  A whole buffer of intervals \<open>ws\<close>, each the written one or one whose check gives \<open>R i\<close>.
\<close>

definition bad_interval :: "bytes \<Rightarrow> thread_data \<Rightarrow> io_u \<Rightarrow> nat \<Rightarrow> bytes \<Rightarrow> int \<Rightarrow> nat \<Rightarrow> bool" where
  "bad_interval stk td iou L w r i \<longleftrightarrow> (\<exists>s d. sum_type (opt_verify (td_o td)) \<and> w = placed td (hdr40 td iou i L @ s @ d) \<and>
     length s = verify_hdr_size (opt_verify (td_o td)) - 40 \<and> 40 + length s + length d = L \<and>
     (\<forall>td'. verify_sum td' stk (opt_verify (td_o td)) s d = Some r))"

lemma written_result:
  assumes vt: "hdr_type (opt_verify (td_o td))" and mem: "length mem = 16" and stk: "128 \<le> length stk"
    and fit: "fits td L" and xs: "\<forall>x \<in> set xs. length x = L" "length xs * L < 2 ^ 31 - 16"
    and C: "being_checked td iou L q td' iou'" and fm: "block_formats (td_o td')"
    and data: "sum_type (opt_verify (td_o td)) \<or> (if q = [] then opt_verify (td_o td) = VERIFY_HDR_ONLY
        else concat xs = periodic q 0 (length xs * L))"
    and ws: "length ws = length xs" "\<forall>w \<in> set ws. length w = L"
    and bad: "\<And>i. i < length xs \<Longrightarrow> ws ! i = written mem td iou 0 xs ! i \<and> R i = 0 \<or> bad_interval stk td iou L (ws ! i) (R i) i"
    and buf: "iou_buf iou' = concat ws"
  shows "\<exists>td2 iou2. verify_loop stk td' iou' (length xs * L) 0 0 L 0 =
    Some (td2, iou2, loop_ret (opt_verify_fatal (td_o td)) R 0 [0..<length xs], False)"
proof -
  let ?P = "\<lambda>td' iou'. being_checked td iou L q td' iou' \<and> block_formats (td_o td')"
  have L: "0 < L" using fit by (auto simp: fits_def Let_def)
  have bound: "(i + 1) * L < 2 ^ 31 - 16" if "i < length xs" for i
    using that xs(2) mult_le_mono1 [of "i + 1" "length xs" L] by simp
  have "\<exists>td2 iou2. verify_loop stk td' iou' (length ws * L) (0 * L) 0 L 0 =
      Some (td2, iou2, loop_ret (opt_verify_fatal (td_o td)) R 0 [0..<length ws], False)"
  proof (rule verify_loop_result [where a = "[]" and P = ?P])
    fix td' iou' a c i
    assume P: "?P td' iou'" and i: "i < length ws" and a: "length a = i * L" and b: "iou_buf iou' = a @ ws ! i @ c"
    then have i': "i < length xs" "length (xs ! i) = L" using xs(1) ws(1) by simp_all
    show "\<exists>td'' iou'' y. verify_block stk td' iou' (i * L) i L = Some (td'', iou'', R i, False) \<and> ?P td'' iou'' \<and>
        iou_buf iou'' = a @ y @ c \<and> length y = L"
      using bad [OF i'(1), unfolded bad_interval_def]
    proof (elim disjE exE conjE)
      assume w: "ws ! i = written mem td iou 0 xs ! i" "R i = 0"
      have "xs ! i = periodic q (i * L) L" if "concat xs = periodic q 0 (length xs * L)"
      proof -
        have "L + i * L \<le> length xs * L" using i'(1) mult_le_mono1 [of "Suc i" "length xs" L] by simp
        then have "i * L \<le> length xs * L" "min L (length xs * L - i * L) = L" by linarith+
        then show ?thesis using nth_interval [OF xs(1) i'(1)] unfolding that by (simp only: drop_periodic take_periodic add_0)
      qed
      then show ?thesis unfolding w(2)
        using P b w(1) data nth_written [OF i'(1), of mem td iou 0]
        by (intro verify_step [OF vt mem stk fit bound [OF i'(1)] i'(2) a]) (auto split: if_splits)
    next
      fix s d
      assume sd: "sum_type (opt_verify (td_o td))" "ws ! i = placed td (hdr40 td iou i L @ s @ d)"
        "length s = verify_hdr_size (opt_verify (td_o td)) - 40"
        "40 + length s + length d = L" "\<forall>td'. verify_sum td' stk (opt_verify (td_o td)) s d = Some (R i)"
      let ?y = "hdr40 td iou i L @ s @ d"
      let ?iou = "iou'\<lparr>iou_buf := a @ ?y @ c, iou_rand_seed := iou_rand_seed iou\<rparr>"
      have l31: "(i + 1) * L < 2 ^ 31" using bound [OF i'(1)] by simp
      have "verify_block stk td' iou' (i * L) i L = Some (td', ?iou, R i, False)"
        using sd(4,5) P b sd(2) by (intro verify_step_sum [OF sd(1) fit l31 refl _ sd(3) a]) (simp_all add: being_checked_def)
      moreover have "?P td' ?iou" using P by (blast intro: being_checked_iou)
      ultimately show ?thesis using sd(4) by (intro exI [of _ td'] exI [of _ ?iou] exI [of _ ?y]) simp
    qed
  qed (use L ws C fm buf in \<open>auto simp: being_checked_def\<close>)
  then show ?thesis using ws(1) by simp
qed

text \<open>The buffer after filling, and what a request that reads it has.\<close>

lemma populate_result:
  assumes "hdr_type (opt_verify (td_o td))" and "writable td iou" and mem: "length mem = 16"
  defines "L \<equiv> get_hdr_inc td iou"
  shows "\<exists>td1 iou0 xs q. populate_verify_io_u mem td iou = Some (td1, iou0\<lparr>iou_buf := concat (written mem td1 iou0 0 xs)\<rparr>) \<and>
    td_o td1 = td_o td \<and> (\<forall>x \<in> set xs. length x = L) \<and> length xs * L = iou_buflen iou \<and>
    (sum_type (opt_verify (td_o td)) \<or> (if q = [] then opt_verify (td_o td) = VERIFY_HDR_ONLY
        else concat xs = periodic q 0 (length xs * L))) \<and>
    (\<forall>td' iou' buf. reads_back td1 (iou0\<lparr>iou_buf := buf\<rparr>) td' iou' \<longrightarrow>
      being_checked td1 iou0 L q td' iou' \<and> iou_buflen iou' = iou_buflen iou)"
proof -
  let ?n = "iou_buflen iou" and ?q = "pasted (td_o td) iou"
  note w = assms(2) [unfolded writable_def Let_def]
  obtain st seed buf m where f: "fill_verify_pattern td ?n iou 0 False =
      Some (td\<lparr>td_verify_state := st\<rparr>, iou\<lparr>iou_buf := buf, iou_rand_seed := seed, iou_buf_filled_len := m\<rparr>)"
    "length buf = ?n" "opt_verify_pattern (td_o td) \<noteq> [] \<longrightarrow> iou_buf_filled_len iou < ?n \<longrightarrow> buf = periodic ?q 0 ?n"
    using fill_verify_pattern_result [of iou ?n td] w by auto
  define td1 where "td1 = td\<lparr>td_verify_state := st\<rparr>"
  define iou0 where "iou0 = iou\<lparr>iou_rand_seed := seed, iou_buf_filled_len := m\<rparr>"
  have L: "0 < L" "fits td1 L" "L < 2 ^ 31 - 16"
    using w by (auto simp: fits_def Let_def td1_def L_def dest: dvd_imp_le)
  obtain xs where xs: "buf = concat xs" "\<forall>x \<in> set xs. length x = L" "length xs * L = length buf"
    using concat_intervals [of L buf] L(1) w f(2) by (auto simp: L_def)
  have vt: "hdr_type (opt_verify (td_o td1))" "opt_verify (td_o td) \<noteq> VERIFY_NULL"
    using assms(1) by (auto simp: td1_def hdr_type_def)
  have "populate_loop mem td1 (iou0\<lparr>iou_buf := [] @ concat xs\<rparr>) (length ([] :: bytes) + length xs * L) (length ([] :: bytes)) 0 L =
      Some (td1, iou0\<lparr>iou_buf := [] @ concat (written mem td1 iou0 0 xs)\<rparr>)"
    by (rule populate_loop_written) (use vt mem L xs(2) in auto)
  moreover have "iou\<lparr>iou_buf := buf, iou_rand_seed := seed, iou_buf_filled_len := m\<rparr> = iou0\<lparr>iou_buf := concat xs\<rparr>"
    using xs(1) by (simp add: iou0_def)
  ultimately have pop: "populate_verify_io_u mem td iou = Some (td1, iou0\<lparr>iou_buf := concat (written mem td1 iou0 0 xs)\<rparr>)"
    using f(1,2) vt(2) w xs(3) by (simp add: populate_verify_io_u_def fill_pattern_headers_def td1_def L_def) (simp add: iou0_def)
  have q: "?q = [] \<longleftrightarrow> opt_verify_pattern (td_o td) = []"
    using paste_pasted(3) [of "td_o td" iou iou] w by (metis length_0_conv)
  have "being_checked td1 iou0 L ?q td' iou' \<and> iou_buflen iou' = ?n"
    if r: "reads_back td1 (iou0\<lparr>iou_buf := b\<rparr>) td' iou'" for td' iou' b
  proof -
    note r' = r [unfolded reads_back_def]
    have o: "td_o td' = td_o td" "iou_offset iou' = iou_offset iou" "block_formats (td_o td)" "iou_buflen iou' = ?n"
      using r' w by (simp_all add: td1_def iou0_def)
    have "get_hdr_inc td' iou' = L" unfolding get_hdr_inc_def L_def Let_def o ..
    then show ?thesis
      using r' o q paste_pasted(1,2) [OF o(3)] by (auto simp: being_checked_def matches_def td1_def iou0_def)
  qed
  moreover have "sum_type (opt_verify (td_o td)) \<or> (if ?q = [] then opt_verify (td_o td) = VERIFY_HDR_ONLY
      else concat xs = periodic ?q 0 (length xs * L))"
    using q w assms(1) f xs by (auto simp: sum_type_def hdr_type_def)
  ultimately show ?thesis using pop xs(2,3) f(2)
    by (intro exI [of _ td1] exI [of _ iou0] exI [of _ xs] exI [of _ ?q]) (simp add: td1_def)
qed

lemma populate_read:
  assumes "hdr_type (opt_verify (td_o td))" and "writable td iou" and mem: "length mem = 16" and stk: "128 \<le> length stk"
  defines "L \<equiv> get_hdr_inc td iou"
  shows "\<exists>td1 iou0 xs. populate_verify_io_u mem td iou = Some (td1, iou0\<lparr>iou_buf := concat (written mem td1 iou0 0 xs)\<rparr>) \<and>
    td_o td1 = td_o td \<and> (\<forall>x \<in> set xs. length x = L) \<and> length xs * L = iou_buflen iou \<and>
    (\<forall>w \<in> set (written mem td1 iou0 0 xs). length w = L) \<and>
    (\<forall>ws R td' iou'. length ws = length xs \<longrightarrow> (\<forall>w \<in> set ws. length w = L) \<longrightarrow>
      (\<forall>i < length xs. ws ! i = written mem td1 iou0 0 xs ! i \<and> R i = 0 \<or> bad_interval stk td1 iou0 L (ws ! i) (R i) i) \<longrightarrow>
      reads_back td1 (iou0\<lparr>iou_buf := concat ws\<rparr>) td' iou' \<longrightarrow>
      (\<forall>i < length xs. R i = 0) \<or> iou_read iou' \<and> \<not> td_fakeio td' \<and> \<not> iou_ver_in_dev iou' \<longrightarrow>
      (\<exists>td2 iou2. verify_io_u stk td' iou' = Some (td2, iou2, loop_ret (opt_verify_fatal (td_o td)) R 0 [0..<length xs])))"
proof -
  obtain td1 iou0 xs q where p: "populate_verify_io_u mem td iou = Some (td1, iou0\<lparr>iou_buf := concat (written mem td1 iou0 0 xs)\<rparr>)"
    "td_o td1 = td_o td" "\<forall>x \<in> set xs. length x = L" "length xs * L = iou_buflen iou"
    "sum_type (opt_verify (td_o td)) \<or> (if q = [] then opt_verify (td_o td) = VERIFY_HDR_ONLY else concat xs = periodic q 0 (length xs * L))"
    "\<And>td' iou' buf. reads_back td1 (iou0\<lparr>iou_buf := buf\<rparr>) td' iou' \<Longrightarrow>
      being_checked td1 iou0 L q td' iou' \<and> iou_buflen iou' = iou_buflen iou"
    using populate_result [OF assms(1-3)] unfolding L_def by blast
  have w: "fits td1 L" "L < 2 ^ 31 - 16" "iou_buflen iou < 2 ^ 31 - 16" "block_formats (td_o td)"
    using assms(2) p(2) by (auto simp: writable_def Let_def fits_def L_def dest: dvd_imp_le)
  have vt: "hdr_type (opt_verify (td_o td1))" using assms(1) p(2) by simp
  have "\<exists>td2 iou2. verify_io_u stk td' iou' = Some (td2, iou2, loop_ret (opt_verify_fatal (td_o td)) R 0 [0..<length xs])"
    if ws: "length ws = length xs" "\<forall>w \<in> set ws. length w = L"
      and bad: "\<forall>i < length xs. ws ! i = written mem td1 iou0 0 xs ! i \<and> R i = 0 \<or> bad_interval stk td1 iou0 L (ws ! i) (R i) i"
      and r: "reads_back td1 (iou0\<lparr>iou_buf := concat ws\<rparr>) td' iou'"
      and rd: "(\<forall>i < length xs. R i = 0) \<or> iou_read iou' \<and> \<not> td_fakeio td' \<and> \<not> iou_ver_in_dev iou'" for ws R td' iou'
  proof -
    have C: "being_checked td1 iou0 L q td' iou'" "iou_buflen iou' = length xs * L" "get_hdr_inc td' iou' = L"
      "td_o td' = td_o td" "iou_buf iou' = concat ws" "\<not> iou_trimmed iou'"
      using p(2,4) p(6) [OF r] r by (simp_all add: being_checked_def reads_back_def)
    have "\<exists>td2 iou2. verify_loop stk td' iou' (iou_buflen iou') 0 0 (get_hdr_inc td' iou') 0 =
        Some (td2, iou2, loop_ret (opt_verify_fatal (td_o td1)) R 0 [0..<length xs], False)"
      unfolding C(2,3) using w p bad C
      by (intro written_result [OF vt mem stk w(1) p(3) _ C(1) _ _ ws]) auto
    moreover have "loop_ret (opt_verify_fatal (td_o td)) R 0 [0..<length xs] = 0 \<or> iou_read iou' \<and> \<not> td_fakeio td' \<and> \<not> iou_ver_in_dev iou'"
      using rd loop_ret_0 [of "[0..<length xs]" R] by auto
    ultimately show ?thesis using C(4,6) p(2) assms(1) by (intro verify_io_u_loop) (auto simp: hdr_type_def)
  qed
  then show ?thesis using p(1-4) written_lengths [OF vt mem w(1,2) p(3), of iou0 0]
    by (intro exI [of _ td1] exI [of _ iou0] exI [of _ xs]) blast
qed

text \<open>
  C12 (roundtrip): what \<^verbatim>\<open>populate_verify_io_u\<close> writes, \<^verbatim>\<open>verify_io_u\<close> accepts. For every verify type with a header, any number of
  intervals, with or without \<^verbatim>\<open>verify_offset\<close>, random data or a pattern with block offsets in it: filling ends without
  leaving the buffer, and every later request that reads the same bytes for the same offset returns 0, whatever
  the uninitialised memory the checksums use holds. The seed must be that of the write unless it is taken from the
  header, and the sequence number that of the write unless it is not compared. The conditions are those of
  \<^const>\<open>writable\<close>; for SHA-512 the interval must have 128 bytes of data.
\<close>

theorem verify_accepts_written:
  assumes "hdr_type (opt_verify (td_o td))" and "writable td iou" and "length mem = 16" and "128 \<le> length stk"
  shows "\<exists>td1 iou1. populate_verify_io_u mem td iou = Some (td1, iou1) \<and> length (iou_buf iou1) = iou_buflen iou \<and>
    (\<forall>td' iou'. reads_back td1 iou1 td' iou' \<longrightarrow> (\<exists>td2 iou2. verify_io_u stk td' iou' = Some (td2, iou2, 0)))"
proof -
  let ?L = "get_hdr_inc td iou"
  obtain td1 iou0 xs where p: "populate_verify_io_u mem td iou = Some (td1, iou0\<lparr>iou_buf := concat (written mem td1 iou0 0 xs)\<rparr>)"
    "length xs * ?L = iou_buflen iou" "\<forall>w \<in> set (written mem td1 iou0 0 xs). length w = ?L"
    and read: "\<And>ws R td' iou'. length ws = length xs \<Longrightarrow> \<forall>w \<in> set ws. length w = ?L \<Longrightarrow>
      \<forall>i < length xs. ws ! i = written mem td1 iou0 0 xs ! i \<and> R i = 0 \<or> bad_interval stk td1 iou0 ?L (ws ! i) (R i) i \<Longrightarrow>
      reads_back td1 (iou0\<lparr>iou_buf := concat ws\<rparr>) td' iou' \<Longrightarrow>
      (\<forall>i < length xs. R i = 0) \<or> iou_read iou' \<and> \<not> td_fakeio td' \<and> \<not> iou_ver_in_dev iou' \<Longrightarrow>
      \<exists>td2 iou2. verify_io_u stk td' iou' = Some (td2, iou2, loop_ret (opt_verify_fatal (td_o td)) R 0 [0..<length xs])"
    using populate_read [OF assms] by blast
  have "\<exists>td2 iou2. verify_io_u stk td' iou' = Some (td2, iou2, 0)"
    if "reads_back td1 (iou0\<lparr>iou_buf := concat (written mem td1 iou0 0 xs)\<rparr>) td' iou'" for td' iou'
    using read [of "written mem td1 iou0 0 xs" "\<lambda>_. 0", OF _ p(3) _ that] loop_ret_0 [of "[0..<length xs]" "\<lambda>_. 0"] by simp
  then show ?thesis using p(1,2) length_concat_same [OF p(3)] by auto
qed


definition demo_opts :: thread_options where
  "demo_opts = \<lparr>opt_verify = VERIFY_CRC32C, opt_verify_interval = 128, opt_verify_offset = 64, opt_verify_pattern = [],
     opt_verify_fmt = [], opt_verify_fatal = False, opt_bs_unaligned = False, opt_compress_percentage = 0, opt_buffer_pattern = [],
     opt_trim_zero = False, opt_verify_write_sequence = True, opt_time_based = False, opt_zrf = False\<rparr>"

definition demo_td :: thread_data where
  "demo_td = \<lparr>td_o = demo_opts, td_verify_state = State32 \<lparr>taus_s1 = 17, taus_s2 = 35, taus_s3 = 70\<rparr>, td_thread_number = 1, td_write = True,
     td_rw = True, td_fixed_bs = True, td_ver_backlog = False, td_fakeio = False, td_arm64 = True, td_intel = False,
     td_error = 0, td_terminate = False\<rparr>"

definition demo_iou :: io_u where
  "demo_iou = \<lparr>iou_buf = replicate 256 0, iou_buflen = 256, iou_offset = 4096, iou_verify_offset = 4096, iou_rand_seed = 0,
     iou_buf_filled_len = 0, iou_numberio = 5, iou_start_sec = 1, iou_start_nsec = 2, iou_read = False, iou_ver_in_dev = False,
     iou_trimmed = False\<rparr>"

lemma demo_writable: "writable demo_td demo_iou"
  by (simp add: writable_def fits_def min_data_def get_hdr_inc_def block_formats_def demo_td_def demo_opts_def demo_iou_def sizeof_verify_header_def)

theorem verify_accepts_written_witness:
  "\<exists>td1 iou1 td2 iou2. populate_verify_io_u (replicate 16 0) demo_td demo_iou = Some (td1, iou1) \<and>
     verify_io_u (replicate 128 170) td1 (iou1\<lparr>iou_read := True, iou_trimmed := False\<rparr>) = Some (td2, iou2, 0)"
proof -
  obtain td1 iou1 where p: "populate_verify_io_u (replicate 16 0) demo_td demo_iou = Some (td1, iou1)"
    "\<forall>td' iou'. reads_back td1 iou1 td' iou' \<longrightarrow> (\<exists>td2 iou2. verify_io_u (replicate 128 170) td' iou' = Some (td2, iou2, 0))"
    using verify_accepts_written [of demo_td demo_iou "replicate 16 0" "replicate 128 170"] demo_writable
    by (auto simp: hdr_type_def demo_td_def demo_opts_def)
  moreover have "reads_back td1 iou1 td1 (iou1\<lparr>iou_read := True, iou_trimmed := False\<rparr>)" by (simp add: reads_back_def)
  ultimately show ?thesis by blast
qed

section \<open>Damaged data is reported\<close>

definition crc_type :: "verify_type \<Rightarrow> bool" where
  "crc_type vt \<longleftrightarrow> vt \<in> {VERIFY_CRC16, VERIFY_CRC32, VERIFY_CRC32C, VERIFY_CRC32C_INTEL, VERIFY_CRC64}"

lemma crc_sum_burst:
  assumes vt: "crc_type vt" "opt_verify (td_o td) = vt" and u: "length u = length v" "u \<noteq> v" "length u \<le> verify_hdr_size vt - 40"
    and s: "fill_vhdr td mem vh (a @ u @ b) = Some s"
  shows "verify_sum td' stk vt s (a @ v @ b) = Some EILSEQ"
proof -
  have d: "foldl step z (a @ v @ b) \<noteq> foldl step z (a @ u @ b)"
    if "burst_detected step w" "length u \<le> w" for step :: "'s \<Rightarrow> u8 \<Rightarrow> 's" and z w
    using that u unfolding burst_detected_def by metis
  have le: "le_bytes n x = le_bytes n y \<longleftrightarrow> x = y" if "8 * n = LENGTH('a)" for x y :: "'a::len word" and n
    using that by (metis le_word_le_bytes)
  note defs = fill_vhdr_def verify_sum_defs sum_matches_def sizeof_verify_header_def le
  show ?thesis
  proof (cases vt)
    case VERIFY_CRC16
    then show ?thesis using vt u(3) s d [OF crc16.burst, of 0] by (auto simp: defs fill_crc16_def fio_crc16_serial)
  next
    case VERIFY_CRC32
    then show ?thesis using vt u(3) s d [OF crc32.burst, of 0] by (auto simp: defs fill_crc32_def fio_crc32_serial)
  next
    case VERIFY_CRC32C
    then show ?thesis using vt u(3) s d [OF crc32c.burst, of "- 1"]
      by (auto simp: defs fill_crc32c_def fio_crc32c_value crc32c_sw_serial)
  next
    case VERIFY_CRC32C_INTEL
    then show ?thesis using vt u(3) s d [OF crc32c.burst, of "- 1"]
      by (auto simp: defs fill_crc32c_def fio_crc32c_value crc32c_sw_serial)
  next
    case VERIFY_CRC64
    then show ?thesis using vt u(3) s d [OF crc64.burst, of 0] by (auto simp: defs fill_crc64_def fio_crc64_serial)
  qed (use vt in \<open>auto simp: crc_type_def\<close>)
qed


lemma patch_concat:
  assumes "\<forall>w \<in> set ws. length w = L" and "k < length ws" and "k * L \<le> i" and "i + length v \<le> (k + 1) * L"
  shows "patch (concat ws) i v = concat (ws[k := patch (ws ! k) (i - k * L) v])"
proof -
  let ?a = "concat (take k ws)" and ?c = "concat (drop (Suc k) ws)"
  have la: "length ?a = k * L" using assms(1,2) length_concat_same [of "take k ws" L] by (auto dest: in_set_takeD)
  have lk: "length (ws ! k) = L" using assms(1,2) by simp
  have "concat ws = ?a @ ws ! k @ ?c" using assms(2) by (metis concat.simps(2) concat_append id_take_nth_drop)
  moreover have "patch (?a @ ws ! k @ ?c) i v = ?a @ patch (ws ! k) (i - k * L) v @ ?c"
    using la lk assms(3,4) by (simp add: patch_def)
  ultimately show ?thesis using assms(2) by (simp add: upd_conv_take_nth_drop)
qed

lemma patch_split:
  assumes "m + length v \<le> length d"
  obtains a u b where "d = a @ u @ b" "length u = length v" "patch d m v = a @ v @ b"
proof
  show "d = take m d @ take (length v) (drop m d) @ drop (m + length v) d"
    by (metis add.commute append_take_drop_id drop_drop)
qed (use assms in \<open>auto simp: patch_def\<close>)

lemma burst_interval:
  assumes vt: "crc_type (opt_verify (td_o td))" and off: "opt_verify_offset (td_o td) = 0" and mem: "length mem = 16"
    and fit: "fits td (length x)" and len: "length x < 2 ^ 31 - 16"
    and v: "verify_hdr_size (opt_verify (td_o td)) \<le> j" "j + length v \<le> length x" "length v \<le> verify_hdr_size (opt_verify (td_o td)) - 40"
    and ne: "patch (placed td (plain mem td iou k x)) j v \<noteq> placed td (plain mem td iou k x)"
  shows "bad_interval stk td iou (length x) (patch (placed td (plain mem td iou k x)) j v) EILSEQ k"
proof -
  let ?vt = "opt_verify (td_o td)" let ?hs = "verify_hdr_size ?vt" and ?s = "sum_of mem td x" and ?h = "hdr40 td iou k (length x)"
  have vt': "sum_type ?vt" "hdr_type ?vt" using vt by (auto simp: crc_type_def sum_type_def hdr_type_def)
  note sum = sum_of_sum [OF vt'(2) mem _ fit len, of "replicate 128 0", simplified]
  have hs: "40 \<le> ?hs" "?hs < length x" using hdr_size_bounds [OF vt'(2)] fit by (simp_all add: fits_def Let_def)
  have ld: "length (data_of td x) = length x - ?hs" by (simp add: data_of_def)
  have pl: "placed td (plain mem td iou k x) = ?h @ ?s @ data_of td x" using off by (simp add: placed_def plain_def)
  have "j - ?hs + length v \<le> length (data_of td x)" using v ld by simp
  then obtain a u b where d: "data_of td x = a @ u @ b" "length u = length v" "patch (data_of td x) (j - ?hs) v = a @ v @ b"
    by (rule patch_split)
  have "length (?h @ ?s) = ?hs" using sum(2) hs by simp
  then have pp: "patch (placed td (plain mem td iou k x)) j v = ?h @ ?s @ a @ v @ b"
    unfolding pl d(3) [symmetric] using v(1) by (simp add: patch_def)
  then have "u \<noteq> v" using ne pl d(1) by auto
  have "verify_sum td' stk ?vt ?s (a @ v @ b) = Some EILSEQ" for td'
    by (rule crc_sum_burst [OF vt refl d(2) \<open>u \<noteq> v\<close> _ sum(1) [unfolded d(1)]]) (use v(3) d(2) in simp)
  moreover have "placed td (?h @ ?s @ a @ v @ b) = ?h @ ?s @ a @ v @ b" using off by (simp add: placed_def)
  moreover have "length (a @ v @ b) = length x - ?hs" using d(1,2) ld by simp
  ultimately show ?thesis
    unfolding bad_interval_def pp using vt'(1) sum(2) hs
    by (intro exI [of _ ?s] exI [of _ "a @ v @ b"]) simp
qed

text \<open>
  C13 (safety): damage in the data of a written buffer is found. With a CRC-16, CRC-32, CRC-32C or CRC-64 checksum and the header at the
  start of each interval (no \<^verbatim>\<open>verify_offset\<close>, which would split the data), if a run of bytes in the data of interval \<open>k\<close>, no longer than the checksum, has been changed, the check of the
  interval fails. \<^verbatim>\<open>verify_io_u\<close> returns \<^verbatim>\<open>EILSEQ\<close> if \<^verbatim>\<open>verify_fatal\<close> is set or the interval is the last one; in the other
  case the next intact interval overwrites the return value and the caller is told that the buffer is good.
\<close>

theorem verify_reports_burst:
  assumes "crc_type (opt_verify (td_o td))" and "opt_verify_offset (td_o td) = 0" and "writable td iou"
    and "length mem = 16" and "128 \<le> length stk"
  shows "\<exists>td1 iou1. populate_verify_io_u mem td iou = Some (td1, iou1) \<and>
    (\<forall>td' iou' k i v. k * get_hdr_inc td iou + verify_hdr_size (opt_verify (td_o td)) \<le> i \<longrightarrow>
      i + length v \<le> (k + 1) * get_hdr_inc td iou \<longrightarrow> (k + 1) * get_hdr_inc td iou \<le> iou_buflen iou \<longrightarrow>
      length v \<le> verify_hdr_size (opt_verify (td_o td)) - sizeof_verify_header \<longrightarrow> patch (iou_buf iou1) i v \<noteq> iou_buf iou1 \<longrightarrow>
      reads_back td1 (iou1\<lparr>iou_buf := patch (iou_buf iou1) i v\<rparr>) td' iou' \<longrightarrow>
      iou_read iou' \<and> \<not> td_fakeio td' \<and> \<not> iou_ver_in_dev iou' \<longrightarrow>
      (\<exists>td2 iou2. verify_io_u stk td' iou' = Some (td2, iou2,
        if opt_verify_fatal (td_o td) \<or> (k + 1) * get_hdr_inc td iou = iou_buflen iou then EILSEQ else 0)))"
proof -
  let ?L = "get_hdr_inc td iou" and ?hs = "verify_hdr_size (opt_verify (td_o td))"
  have vt: "hdr_type (opt_verify (td_o td))" using assms(1) by (auto simp: crc_type_def hdr_type_def)
  obtain td1 iou0 xs where p: "populate_verify_io_u mem td iou = Some (td1, iou0\<lparr>iou_buf := concat (written mem td1 iou0 0 xs)\<rparr>)"
    "td_o td1 = td_o td" "\<forall>x \<in> set xs. length x = ?L"
    "length xs * ?L = iou_buflen iou" "\<forall>w \<in> set (written mem td1 iou0 0 xs). length w = ?L"
    and read: "\<And>ws R td' iou'. length ws = length xs \<Longrightarrow> \<forall>w \<in> set ws. length w = ?L \<Longrightarrow>
      \<forall>i < length xs. ws ! i = written mem td1 iou0 0 xs ! i \<and> R i = 0 \<or> bad_interval stk td1 iou0 ?L (ws ! i) (R i) i \<Longrightarrow>
      reads_back td1 (iou0\<lparr>iou_buf := concat ws\<rparr>) td' iou' \<Longrightarrow>
      (\<forall>i < length xs. R i = 0) \<or> iou_read iou' \<and> \<not> td_fakeio td' \<and> \<not> iou_ver_in_dev iou' \<Longrightarrow>
      \<exists>td2 iou2. verify_io_u stk td' iou' = Some (td2, iou2, loop_ret (opt_verify_fatal (td_o td)) R 0 [0..<length xs])"
    using populate_read [OF vt assms(3-5)] by blast
  let ?ws = "written mem td1 iou0 0 xs"
  have w: "fits td1 ?L" "?L < 2 ^ 31 - 16" "0 < ?L"
    using assms(3) p(2) by (auto simp: writable_def Let_def fits_def dest: dvd_imp_le)
  have "\<exists>td2 iou2. verify_io_u stk td' iou' = Some (td2, iou2,
      if opt_verify_fatal (td_o td) \<or> (k + 1) * ?L = iou_buflen iou then EILSEQ else 0)"
    if i: "k * ?L + ?hs \<le> i" "i + length v \<le> (k + 1) * ?L" "(k + 1) * ?L \<le> iou_buflen iou" "length v \<le> ?hs - 40"
      and ne: "patch (concat ?ws) i v \<noteq> concat ?ws"
      and r: "reads_back td1 (iou0\<lparr>iou_buf := patch (concat ?ws) i v\<rparr>) td' iou'"
      and rd: "iou_read iou' \<and> \<not> td_fakeio td' \<and> \<not> iou_ver_in_dev iou'" for td' iou' k i v
  proof -
    let ?R = "\<lambda>n. if n = k then EILSEQ else 0" and ?y = "patch (?ws ! k) (i - k * ?L) v"
    have "(k + 1) * ?L \<le> length xs * ?L" using i(3) p(4) by simp
    then have k: "k < length xs" using w(3) by (simp only: mult_le_cancel2) simp
    have x: "length (xs ! k) = ?L" "?ws ! k = placed td1 (plain mem td1 iou0 k (xs ! k))" using k p(3) nth_written [OF k, of mem td1 iou0 0] by simp_all
    have pc: "patch (concat ?ws) i v = concat (?ws[k := ?y])"
      by (rule patch_concat [OF p(5)]) (use k i in simp_all)
    then have "?y \<noteq> ?ws ! k" using ne by (metis list_update_id)
    then have bad: "bad_interval stk td1 iou0 ?L ?y EILSEQ k"
      using burst_interval [of td1 mem "xs ! k" "i - k * ?L" v iou0 k stk] assms(1,2,4) i w p(2) x by simp
    have "length ?y = ?L" using i k p(5) by (subst length_patch) simp_all
    then have "\<exists>td2 iou2. verify_io_u stk td' iou' = Some (td2, iou2, loop_ret (opt_verify_fatal (td_o td)) ?R 0 [0..<length xs])"
      using bad p(5) r rd k unfolding pc
      by (intro read [of "?ws[k := ?y]"]) (auto simp: nth_list_update dest!: set_update_subset_insert [THEN subsetD])
    moreover have "length xs = Suc k \<longleftrightarrow> (k + 1) * ?L = iou_buflen iou"
      using w(3) unfolding p(4) [symmetric] mult_cancel2 by auto
    ultimately show ?thesis using loop_ret_one [OF k, of EILSEQ "opt_verify_fatal (td_o td)"] by (simp add: EILSEQ_def)
  qed
  then show ?thesis unfolding p(1) sizeof_verify_header_def by simp
qed


theorem verify_reports_burst_witness:
  "\<exists>td1 iou1 td2 iou2. populate_verify_io_u (replicate 16 0) (demo_td\<lparr>td_o := demo_opts\<lparr>opt_verify_offset := 0\<rparr>\<rparr>) demo_iou = Some (td1, iou1) \<and>
     verify_io_u (replicate 128 170) (td1\<lparr>td_fakeio := False\<rparr>)
       (iou1\<lparr>iou_buf := patch (iou_buf iou1) 100 [iou_buf iou1 ! 100 + 1], iou_read := True, iou_ver_in_dev := False, iou_trimmed := False\<rparr>) =
       Some (td2, iou2, 0)"
proof -
  let ?td = "demo_td\<lparr>td_o := demo_opts\<lparr>opt_verify_offset := 0\<rparr>\<rparr>"
  have L: "get_hdr_inc ?td demo_iou = 128" by (simp add: get_hdr_inc_def demo_opts_def demo_iou_def)
  have wr: "writable ?td demo_iou"
    unfolding writable_def L Let_def
    by (simp add: fits_def min_data_def block_formats_def demo_opts_def demo_iou_def sizeof_verify_header_def)
  have ne: "patch b i [b ! i + 1] \<noteq> b" for b :: bytes and i
  proof (cases "i < length b")
    case True
    then have "patch b i [b ! i + 1] ! i \<noteq> b ! i" by (simp add: patch_def nth_append)
    then show ?thesis by metis
  next
    case False
    then have "length (patch b i [b ! i + 1]) \<noteq> length b" by (simp add: patch_def)
    then show ?thesis by metis
  qed
  note burst = verify_reports_burst [of ?td demo_iou "replicate 16 0" "replicate 128 170", unfolded L, OF _ _ wr]
  obtain td1 iou1 where p: "populate_verify_io_u (replicate 16 0) ?td demo_iou = Some (td1, iou1)"
    "\<And>td' iou' k i v. k * 128 + 44 \<le> i \<Longrightarrow> i + length v \<le> (k + 1) * 128 \<Longrightarrow> (k + 1) * 128 \<le> 256 \<Longrightarrow>
      length v \<le> 4 \<Longrightarrow> patch (iou_buf iou1) i v \<noteq> iou_buf iou1 \<Longrightarrow>
      reads_back td1 (iou1\<lparr>iou_buf := patch (iou_buf iou1) i v\<rparr>) td' iou' \<Longrightarrow>
      iou_read iou' \<and> \<not> td_fakeio td' \<and> \<not> iou_ver_in_dev iou' \<Longrightarrow>
      \<exists>td2 iou2. verify_io_u (replicate 128 170) td' iou' = Some (td2, iou2, if (k + 1) * 128 = (256 :: nat) then EILSEQ else 0)"
    using burst by (simp add: crc_type_def demo_opts_def demo_iou_def sizeof_verify_header_def) blast
  show ?thesis
    using p(1) p(2) [of 0 100 "[iou_buf iou1 ! 100 + 1]" "td1\<lparr>td_fakeio := False\<rparr>"
        "iou1\<lparr>iou_buf := patch (iou_buf iou1) 100 [iou_buf iou1 ! 100 + 1], iou_read := True, iou_ver_in_dev := False, iou_trimmed := False\<rparr>"]
      ne [of "iou_buf iou1" 100] by (simp add: reads_back_def)
qed


section \<open>Trimmed blocks\<close>

text \<open>
  \<^verbatim>\<open>mem_is_zero\<close> looks at 16 bytes and then compares the memory with itself 16 bytes further on; this tells whether
  all of it is zero.
\<close>

lemma mem_is_zero_iff: "mem_is_zero data = Some (\<forall>b \<in> set data. b = 0)"
proof (cases "(\<exists>b \<in> set (take 16 data). b \<noteq> 0) \<or> length data \<le> 16")
  case True
  then show ?thesis using set_take_subset [of 16 data] by (auto simp: mem_is_zero_def)
next
  case False
  then have z: "data ! i = 0" if "i < 16" for i
    using that nth_mem [of i "take 16 data"] by simp
  have "take (length data - 16) data = drop 16 data \<longleftrightarrow> (\<forall>b \<in> set data. b = 0)"
  proof
    assume s: "take (length data - 16) data = drop 16 data"
    have "data ! i = 0" if "i < length data" for i
      using self_shift_periodic [of 16 data i] s that False z [of "i mod 16"] by simp
    then show "\<forall>b \<in> set data. b = 0" by (auto simp: in_set_conv_nth)
  next
    assume "\<forall>b \<in> set data. b = 0"
    then have "data = replicate (length data) 0" by (simp add: replicate_eqI)
    then show "take (length data - 16) data = drop 16 data" by (metis take_replicate drop_replicate min_def diff_le_self)
  qed
  then show ?thesis using False by (simp add: mem_is_zero_def memcmp_ne_def)
qed

lemma verify_trimmed_result:
  assumes "opt_trim_zero (td_o td)" and "length (iou_buf iou) = iou_buflen iou"
  shows "verify_trimmed_io_u td iou = Some (if \<forall>b \<in> set (iou_buf iou). b = 0 then 0 else EILSEQ)"
  using assms by (simp add: verify_trimmed_io_u_def slice_def mem_is_zero_iff)

end
