(* ===== verification/Post.thy ===== *)
theory Post
  imports Prelude
begin

text \<open>
  Postconditions of fallible operations: a rule per construct of the option monad, so that a property of the result is
  shown along the text of the operation.
\<close>

text \<open>\<open>post m P\<close>: if \<open>m\<close> returns, its result has the property \<open>P\<close>. The rules follow the program text.\<close>

definition post :: "'a option \<Rightarrow> ('a \<Rightarrow> bool) \<Rightarrow> bool" where
  "post m P \<longleftrightarrow> (\<forall>x. m = Some x \<longrightarrow> P x)"

named_theorems posts \<comment> \<open>rules for \<open>post\<close>\<close>

lemma post_Some [posts]: "P x \<Longrightarrow> post (Some x) P"
  by (simp add: post_def)

lemma post_bind [posts]: "post m (\<lambda>x. post (k x) P) \<Longrightarrow> post (m \<bind> k) P"
  by (cases m) (simp_all add: post_def)

lemma post_if [posts]: "(c \<Longrightarrow> post m P) \<Longrightarrow> (\<not> c \<Longrightarrow> post n P) \<Longrightarrow> post (if c then m else n) P"
  by simp

lemma post_option [posts]: "(x = None \<Longrightarrow> post m P) \<Longrightarrow> (\<And>y. x = Some y \<Longrightarrow> post (k y) P) \<Longrightarrow> post (case x of None \<Rightarrow> m | Some y \<Rightarrow> k y) P"
  by (cases x) simp_all

lemma post_prod [posts]: "(\<And>a b. x = (a, b) \<Longrightarrow> post (k a b) P) \<Longrightarrow> post (case x of (a, b) \<Rightarrow> k a b) P"
  by (cases x) simp

lemma post_prod_pred [posts]: "(\<And>a b. x = (a, b) \<Longrightarrow> k a b) \<Longrightarrow> case x of (a, b) \<Rightarrow> k a b"
  by (cases x) simp

lemma post_assert [posts]: "(b \<Longrightarrow> P ()) \<Longrightarrow> post (c_assert b) P"
  by (simp add: post_def c_assert_def)

lemma post_let: "Q e \<Longrightarrow> (\<And>x. Q x \<Longrightarrow> post (k x) P) \<Longrightarrow> post (let x = e in k x) P"
  by simp

lemma post_weaken: "post m Q \<Longrightarrow> (\<And>x. Q x \<Longrightarrow> P x) \<Longrightarrow> post m P"
  by (simp add: post_def)

lemma post_conj: "post m P \<Longrightarrow> post m Q \<Longrightarrow> post m (\<lambda>x. P x \<and> Q x)"
  by (simp add: post_def)

lemma post_skip: "(\<And>x. post (k x) P) \<Longrightarrow> post m (\<lambda>x. post (k x) P)"
  by (simp add: post_def)

end
