(* ===== verification/Zbd.thy ===== *)
theory Zbd
  imports Post Bits
begin

text \<open>
  \<^verbatim>\<open>zbd.c\<close>: the zones of a zoned block device, or of a file that emulates one, and the zones that are being written. A
  zone is named by its index where the code has a pointer into \<^verbatim>\<open>zone_info\<close>; the list of zones ends with the sentinel. The array
  \<^verbatim>\<open>write_zones\<close> is the list of its first \<^verbatim>\<open>num_write_zones\<close> entries. An operation under a lock is one step. \<open>None\<close> is a failed
  assertion or an access outside an array.
\<close>

section \<open>Data\<close>

datatype zoned_model = ZBD_NONE | ZBD_HOST_AWARE | ZBD_HOST_MANAGED

datatype zone_cond = ZBD_ZONE_COND_NOT_WP | ZBD_ZONE_COND_EMPTY | ZBD_ZONE_COND_IMP_OPEN | ZBD_ZONE_COND_EXP_OPEN
  | ZBD_ZONE_COND_CLOSED | ZBD_ZONE_COND_READONLY | ZBD_ZONE_COND_FULL | ZBD_ZONE_COND_OFFLINE

record fio_zone_info =
  zstart :: u64
  zwp :: u64
  zcapacity :: u64
  zcond :: zone_cond
  zhas_wp :: bool
  zwrite :: bool
  zreset :: bool       \<comment> \<open>\<^verbatim>\<open>reset_zone\<close>\<close>

record zbd_info =
  zmodel :: zoned_model
  max_write_zones :: nat
  max_active_zones :: nat
  zone_size :: u64
  wp_valid_data_bytes :: u64
  write_min_zone :: nat
  write_max_zone :: nat
  zone_size_log2 :: nat
  nr_zones :: u32
  write_zones :: "nat list"
  zone_info :: "fio_zone_info list"

text \<open>The entry behind the zones, of which only the start is set.\<close>

definition sentinel :: "u64 \<Rightarrow> fio_zone_info" where
  "sentinel start = \<lparr>zstart = start, zwp = 0, zcapacity = 0, zcond = ZBD_ZONE_COND_NOT_WP, zhas_wp = False, zwrite = False, zreset = False\<rparr>"

text \<open>The fields of the file and of the job that are used.\<close>

record zbd_file =
  zf_offset :: u64
  zf_io_size :: u64
  min_zone :: nat
  max_zone :: nat

record zbd_job =
  zj_min_bs :: "u64"           \<comment> \<open>of writes\<close>
  zj_verify :: bool            \<comment> \<open>\<^verbatim>\<open>o.verify != VERIFY_NONE\<close>\<close>
  zj_account :: bool           \<comment> \<open>\<^verbatim>\<open>accounting_vdb\<close>\<close>
  job_max_open_zones :: u32
  num_write_zones :: u32

definition ZBD_MAX_WRITE_ZONES :: nat where "ZBD_MAX_WRITE_ZONES = 4096"

section \<open>Zones\<close>

definition is_valid_offset :: "zbd_file \<Rightarrow> u64 \<Rightarrow> bool" where
  "is_valid_offset f offset \<longleftrightarrow> offset - zf_offset f < zf_io_size f"

definition zbd_offset_to_zone_idx :: "zbd_info \<Rightarrow> u64 \<Rightarrow> nat option" where
  "zbd_offset_to_zone_idx zi offset = do {
     c_assert (zone_size_log2 zi > 0 \<or> zone_size zi \<noteq> 0);
     let zone_idx = (ucast (if zone_size_log2 zi > 0 then drop_bit (zone_size_log2 zi) offset else offset div zone_size zi) :: u32);
     Some (unat (min zone_idx (nr_zones zi))) }"

definition zbd_zone_end :: "zbd_info \<Rightarrow> nat \<Rightarrow> u64 option" where
  "zbd_zone_end zi z = map_option zstart (rd (zone_info zi) (z + 1))"

definition zbd_zone_capacity_end :: "fio_zone_info \<Rightarrow> u64" where
  "zbd_zone_capacity_end z = zstart z + zcapacity z"

definition zbd_zone_remainder :: "fio_zone_info \<Rightarrow> u64" where
  "zbd_zone_remainder z = (if zbd_zone_capacity_end z \<le> zwp z then 0 else zbd_zone_capacity_end z - zwp z)"

definition zbd_zone_full :: "fio_zone_info \<Rightarrow> u64 \<Rightarrow> bool option" where
  "zbd_zone_full z required = do {
     c_assert (required AND 511 = 0);
     Some (zhas_wp z \<and> zbd_zone_remainder z < required) }"

definition set_zone :: "zbd_info \<Rightarrow> nat \<Rightarrow> fio_zone_info \<Rightarrow> zbd_info" where
  "set_zone zi z v = zi\<lparr>zone_info := (zone_info zi)[z := v]\<rparr>"

section \<open>Write pointers\<close>

text \<open>\<open>dev\<close> says whether the device has done what it was told. The return value is 0 or an error.\<close>

definition zbd_reset_wp_zone :: "bool \<Rightarrow> zbd_job \<Rightarrow> zbd_file \<Rightarrow> zbd_info \<Rightarrow> nat \<Rightarrow> (zbd_info \<times> bool) option" where \<comment> \<open>\<^verbatim>\<open>__zbd_reset_zone\<close>\<close>
  "zbd_reset_wp_zone dev td f zi n = do {
     z \<leftarrow> rd (zone_info zi) n;
     e \<leftarrow> zbd_zone_end zi n;
     let offset = zstart z;
     let length = e - offset;
     let data_in_zone = zwp z - zstart z;
     if data_in_zone = 0 then Some (zi, True)
     else do {
       c_assert (is_valid_offset f (offset + length - 1));
       if (zmodel zi = ZBD_HOST_AWARE \<or> zmodel zi = ZBD_HOST_MANAGED) \<and> \<not> dev then Some (zi, False)
       else do {
         let zi = (if zj_account td then zi\<lparr>wp_valid_data_bytes := wp_valid_data_bytes zi - data_in_zone\<rparr> else zi);
         Some (set_zone zi n (z\<lparr>zwp := zstart z\<rparr>), True) } } }"

definition zbd_finish_zone :: "bool \<Rightarrow> zbd_info \<Rightarrow> nat \<Rightarrow> (zbd_info \<times> bool) option" where
  "zbd_finish_zone dev zi n = do {
     z \<leftarrow> rd (zone_info zi) n;
     if (zmodel zi = ZBD_HOST_AWARE \<or> zmodel zi = ZBD_HOST_MANAGED) \<and> \<not> dev then Some (zi, False)
     else do {
       e \<leftarrow> zbd_zone_end zi n;
       Some (set_zone zi n (z\<lparr>zwp := e\<rparr>), True) } }"

section \<open>Write target zones\<close>

definition zbd_write_zone_put :: "zbd_job \<Rightarrow> zbd_info \<Rightarrow> nat \<Rightarrow> (zbd_job \<times> zbd_info) option" where
  "zbd_write_zone_put td zi n = do {
     z \<leftarrow> rd (zone_info zi) n;
     if \<not> zwrite z then Some (td, zi)
     else (let i = length (takeWhile (\<lambda>m. m \<noteq> n) (write_zones zi)) in
       if i = length (write_zones zi) then Some (td, zi)
       else Some (td\<lparr>num_write_zones := num_write_zones td - 1\<rparr>,
         (set_zone zi n (z\<lparr>zwrite := False\<rparr>))\<lparr>write_zones := take i (write_zones zi) @ drop (i + 1) (write_zones zi)\<rparr>)) }"

definition zbd_reset_zone :: "bool \<Rightarrow> zbd_job \<Rightarrow> zbd_file \<Rightarrow> zbd_info \<Rightarrow> nat \<Rightarrow> (zbd_job \<times> zbd_info \<times> bool) option" where
  "zbd_reset_zone dev td f zi n = do {
     (zi, ok) \<leftarrow> zbd_reset_wp_zone dev td f zi n;
     if \<not> ok then Some (td, zi, False)
     else do {
       (td, zi) \<leftarrow> zbd_write_zone_put td zi n;
       Some (td, zi, True) } }"

text \<open>The loop of \<^verbatim>\<open>zbd_reset_zones\<close> over the zones from \<open>n\<close> on; \<open>res\<close> is whether no reset failed.\<close>

fun reset_zones_loop :: "(nat \<Rightarrow> bool) \<Rightarrow> zbd_job \<Rightarrow> zbd_file \<Rightarrow> zbd_info \<Rightarrow> nat \<Rightarrow> nat \<Rightarrow> bool \<Rightarrow> (zbd_job \<times> zbd_info \<times> bool) option" where
  "reset_zones_loop dev td f zi n 0 res = Some (td, zi, res)"
| "reset_zones_loop dev td f zi n (Suc k) res = do {
     z \<leftarrow> rd (zone_info zi) n;
     if \<not> zhas_wp z then reset_zones_loop dev td f zi (Suc n) k res
     else do {
       c_assert (min_zone f \<le> n \<and> n < max_zone f);
       (td, zi, ok) \<leftarrow> (if zwp z \<noteq> zstart z then zbd_reset_zone (dev n) td f zi n else Some (td, zi, True));
       reset_zones_loop dev td f zi (Suc n) k (res \<and> ok) } }"

definition zbd_reset_zones :: "(nat \<Rightarrow> bool) \<Rightarrow> zbd_job \<Rightarrow> zbd_file \<Rightarrow> zbd_info \<Rightarrow> nat \<Rightarrow> nat \<Rightarrow> (zbd_job \<times> zbd_info \<times> bool) option" where
  "zbd_reset_zones dev td f zi zb ze =
     (if zj_min_bs td = 0 then Some (td, zi, False) else reset_zones_loop dev td f zi zb (ze - zb) True)"

definition zbd_write_zone_add :: "zbd_job \<Rightarrow> zbd_info \<Rightarrow> nat \<Rightarrow> (zbd_job \<times> zbd_info \<times> bool) option" where \<comment> \<open>\<^verbatim>\<open>__zbd_write_zone_get\<close>\<close>
  "zbd_write_zone_add td zi n = do {
     z \<leftarrow> rd (zone_info zi) n;
     if zcond z = ZBD_ZONE_COND_OFFLINE then Some (td, zi, False)
     else if zj_verify td \<and> zbd_zone_remainder z = 0 then Some (td, zi, False)
     else if max_write_zones zi = 0 then Some (td, zi, True)
     else if zwrite z then Some (td, zi, zbd_zone_remainder z \<noteq> 0)
     else if 0 < job_max_open_zones td \<and> job_max_open_zones td \<le> num_write_zones td then Some (td, zi, False)
     else if max_write_zones zi \<le> length (write_zones zi) then Some (td, zi, False)
     else do {
       c_assert (length (write_zones zi) < ZBD_MAX_WRITE_ZONES);
       Some (td\<lparr>num_write_zones := num_write_zones td + 1\<rparr>,
         (set_zone zi n (z\<lparr>zwrite := True\<rparr>))\<lparr>write_zones := write_zones zi @ [n]\<rparr>, True) } }"

definition zbd_write_zone_get :: "zbd_job \<Rightarrow> zbd_info \<Rightarrow> nat \<Rightarrow> (zbd_job \<times> zbd_info \<times> bool) option" where
  "zbd_write_zone_get td zi n = do {
     z \<leftarrow> rd (zone_info zi) n;
     full \<leftarrow> (if zj_verify td then zbd_zone_full z (zj_min_bs td) else Some False);
     if full then Some (td, zi, False) else zbd_write_zone_add td zi n }"

section \<open>Completion\<close>

text \<open>\<open>off\<close> and \<open>len\<close> are those of the I/O unit, \<open>wrt\<close> says that it is a write.\<close>

definition zbd_end_zone_io :: "bool \<Rightarrow> u64 \<Rightarrow> u64 \<Rightarrow> zbd_job \<Rightarrow> zbd_info \<Rightarrow> nat \<Rightarrow> (zbd_job \<times> zbd_info) option" where
  "zbd_end_zone_io wrt off len td zi n = do {
     z \<leftarrow> rd (zone_info zi) n;
     if wrt \<and> zbd_zone_capacity_end z \<le> off + len then zbd_write_zone_put td zi n else Some (td, zi) }"

text \<open>\<open>completed\<close>: the status is \<^verbatim>\<open>FIO_Q_COMPLETED\<close> and there is no error.\<close>

definition zbd_queue_io :: "bool \<Rightarrow> bool \<Rightarrow> bool \<Rightarrow> u64 \<Rightarrow> u64 \<Rightarrow> zbd_job \<Rightarrow> zbd_info \<Rightarrow> (zbd_job \<times> zbd_info) option" where
  "zbd_queue_io success completed wrt off len td zi = do {
     n \<leftarrow> zbd_offset_to_zone_idx zi off;
     z \<leftarrow> rd (zone_info zi) n;
     c_assert (zhas_wp z);
     if \<not> success then Some (td, zi)
     else do {
       let zone_end = min (off + len) (zbd_zone_capacity_end z);
       let zi = (if wrt \<and> zj_account td \<and> zwp z \<le> zone_end
         then zi\<lparr>wp_valid_data_bytes := wp_valid_data_bytes zi + (zone_end - zwp z)\<rparr> else zi);
       let zi = (if wrt then set_zone zi n (z\<lparr>zwp := zone_end\<rparr>) else zi);
       if completed then zbd_end_zone_io wrt off len td zi n else Some (td, zi) } }"

definition zbd_put_io :: "bool \<Rightarrow> u64 \<Rightarrow> u64 \<Rightarrow> zbd_job \<Rightarrow> zbd_info \<Rightarrow> (zbd_job \<times> zbd_info) option" where
  "zbd_put_io wrt off len td zi = do {
     n \<leftarrow> zbd_offset_to_zone_idx zi off;
     z \<leftarrow> rd (zone_info zi) n;
     c_assert (zhas_wp z);
     zbd_end_zone_io wrt off len td zi n }"

section \<open>A device shared by jobs\<close>

text \<open>One step: a job carries out one of the operations.\<close>

inductive zbd_step :: "zbd_job list \<times> zbd_info \<Rightarrow> zbd_job list \<times> zbd_info \<Rightarrow> bool" where
  get: "i < length js \<Longrightarrow> zbd_write_zone_get (js ! i) zi n = Some (td, zi', r) \<Longrightarrow> zbd_step (js, zi) (js[i := td], zi')"
| reset: "i < length js \<Longrightarrow> zbd_reset_zone dev (js ! i) f zi n = Some (td, zi', r) \<Longrightarrow> zbd_step (js, zi) (js[i := td], zi')"
| reset_wp: "i < length js \<Longrightarrow> zbd_reset_wp_zone dev (js ! i) f zi n = Some (zi', r) \<Longrightarrow> zbd_step (js, zi) (js, zi')"
| put: "i < length js \<Longrightarrow> zbd_write_zone_put (js ! i) zi n = Some (td, zi') \<Longrightarrow> zbd_step (js, zi) (js[i := td], zi')"
| finish: "zbd_finish_zone dev zi n = Some (zi', r) \<Longrightarrow> zbd_step (js, zi) (js, zi')"
| queue: "i < length js \<Longrightarrow> zbd_queue_io success completed wrt off len (js ! i) zi = Some (td, zi') \<Longrightarrow> zbd_step (js, zi) (js[i := td], zi')"
| complete: "i < length js \<Longrightarrow> zbd_put_io wrt off len (js ! i) zi = Some (td, zi') \<Longrightarrow> zbd_step (js, zi) (js[i := td], zi')"

text \<open>The array of write target zones and the flags of the zones agree, within the limit of the device.\<close>

definition wz_inv :: "zbd_info \<Rightarrow> bool" where
  "wz_inv zi \<longleftrightarrow> distinct (write_zones zi) \<and> set (write_zones zi) = {n. n < length (zone_info zi) \<and> zwrite (zone_info zi ! n)} \<and>
     length (write_zones zi) \<le> max_write_zones zi \<and> max_write_zones zi \<le> ZBD_MAX_WRITE_ZONES"

text \<open>Operations that only move write pointers.\<close>

definition same_write :: "zbd_info \<Rightarrow> zbd_info \<Rightarrow> bool" where
  "same_write zi zi' \<longleftrightarrow> write_zones zi' = write_zones zi \<and> max_write_zones zi' = max_write_zones zi \<and>
     map zwrite (zone_info zi') = map zwrite (zone_info zi)"

lemma same_write_refl [simp]: "same_write zi zi"
  by (simp add: same_write_def)

lemma same_write_vdb [simp]: "same_write zi (zi'\<lparr>wp_valid_data_bytes := v\<rparr>) = same_write zi zi'"
  by (simp add: same_write_def)

lemma same_write_zone:
  assumes "same_write zi zi'" and "n < length (zone_info zi')" and "zwrite v = zwrite (zone_info zi' ! n)"
  shows "same_write zi (set_zone zi' n v)"
proof -
  have "map zwrite ((zone_info zi')[n := v]) = map zwrite (zone_info zi')"
    by (rule nth_equalityI) (use assms(2,3) in \<open>simp_all add: nth_list_update\<close>)
  then show ?thesis using assms(1) by (simp add: same_write_def set_zone_def)
qed

lemma same_write_inv:
  assumes "same_write zi zi'" and "wz_inv zi"
  shows "wz_inv zi'" "length (write_zones zi') = length (write_zones zi)"
proof -
  have l: "length (zone_info zi') = length (zone_info zi)"
    using assms(1) unfolding same_write_def by (metis length_map)
  have "zwrite (zone_info zi' ! n) = zwrite (zone_info zi ! n)" if "n < length (zone_info zi)" for n
    using that assms(1) l unfolding same_write_def by (metis nth_map)
  then show "wz_inv zi'" "length (write_zones zi') = length (write_zones zi)"
    using assms l by (auto simp: wz_inv_def same_write_def)
qed

lemma rd_zone: "post (rd (zone_info zi) n) (\<lambda>z. n < length (zone_info zi) \<and> z = zone_info zi ! n)"
  by (simp add: post_def rd_eq_Some_iff)

lemma reset_wp_same: "post (zbd_reset_wp_zone dev td f zi n) (\<lambda>(zi', r). same_write zi zi')"
  unfolding zbd_reset_wp_zone_def Let_def
  by (intro posts post_skip post_weaken [OF rd_zone]) (auto intro!: same_write_zone)

lemma finish_same: "post (zbd_finish_zone dev zi n) (\<lambda>(zi', r). same_write zi zi')"
  unfolding zbd_finish_zone_def
  by (intro posts post_skip post_weaken [OF rd_zone]) (auto intro!: same_write_zone)

text \<open>Taking a zone out of the array and putting one into it.\<close>

definition wz_effect :: "zbd_job \<times> zbd_info \<Rightarrow> zbd_job \<times> zbd_info \<Rightarrow> bool" where
  "wz_effect s s' \<longleftrightarrow> (wz_inv (snd s) \<longrightarrow> wz_inv (snd s') \<and>
     num_write_zones (fst s') - num_write_zones (fst s) = of_nat (length (write_zones (snd s'))) - of_nat (length (write_zones (snd s))))"

lemma wz_effect_refl [simp]: "wz_effect s s"
  by (simp add: wz_effect_def)

lemma wz_effect_same: "same_write zi zi' \<Longrightarrow> wz_effect (td, zi) (td, zi')"
  using same_write_inv by (auto simp: wz_effect_def)

lemma wz_effect_trans:
  assumes "wz_effect s t" and "wz_effect t u"
  shows "wz_effect s u"
  unfolding wz_effect_def
proof (intro impI)
  assume inv: "wz_inv (snd s)"
  have *: "c - a = (c - b) + (b - a)" for a b c :: u32 by simp
  show "wz_inv (snd u) \<and> num_write_zones (fst u) - num_write_zones (fst s) =
      of_nat (length (write_zones (snd u))) - of_nat (length (write_zones (snd s)))"
    using assms inv * [of "num_write_zones (fst u)" "num_write_zones (fst s)" "num_write_zones (fst t)"] by (simp add: wz_effect_def)
qed

lemma drop_first:
  "take (length (takeWhile (\<lambda>m. m \<noteq> n) ws)) ws @ drop (length (takeWhile (\<lambda>m. m \<noteq> n) ws) + 1) ws = remove1 n ws"
  "length (takeWhile (\<lambda>m. m \<noteq> n) ws) = length ws \<longleftrightarrow> n \<notin> set ws"
  by (induction ws) auto

lemma put_result:
  assumes "wz_inv zi" and "n < length (zone_info zi)"
  shows "zbd_write_zone_put td zi n =
    (if n \<in> set (write_zones zi) then Some (td\<lparr>num_write_zones := num_write_zones td - 1\<rparr>,
       (set_zone zi n ((zone_info zi ! n)\<lparr>zwrite := False\<rparr>))\<lparr>write_zones := remove1 n (write_zones zi)\<rparr>)
     else Some (td, zi))"
proof -
  have "zwrite (zone_info zi ! n) \<longleftrightarrow> n \<in> set (write_zones zi)" using assms by (auto simp: wz_inv_def)
  then show ?thesis using assms(2) drop_first [of n "write_zones zi"] by (simp add: zbd_write_zone_put_def Let_def)
qed

lemma length_remove: "n \<in> set ws \<Longrightarrow> (of_nat (length (remove1 n ws)) :: u32) = of_nat (length ws) - 1"
  by (induction ws) (auto simp: length_remove1)

lemma put_effect: "post (zbd_write_zone_put td zi n) (wz_effect (td, zi))"
proof (cases "wz_inv zi \<and> n < length (zone_info zi)")
  case True
  let ?ws = "write_zones zi"
  have inv: "distinct ?ws" "set ?ws = {n. n < length (zone_info zi) \<and> zwrite (zone_info zi ! n)}" "length ?ws \<le> max_write_zones zi"
    "max_write_zones zi \<le> ZBD_MAX_WRITE_ZONES" using True by (simp_all add: wz_inv_def)
  let ?zi = "(set_zone zi n ((zone_info zi ! n)\<lparr>zwrite := False\<rparr>))\<lparr>write_zones := remove1 n ?ws\<rparr>"
  have "set (remove1 n ?ws) = {m. m < length (zone_info zi) \<and> zwrite ((zone_info zi)[n := (zone_info zi ! n)\<lparr>zwrite := False\<rparr>] ! m)}"
    unfolding set_remove1_eq [OF inv(1)] inv(2) using True by (auto simp: nth_list_update split: if_splits)
  moreover have "length (remove1 n ?ws) \<le> max_write_zones zi" using inv(3) by (auto simp: length_remove1)
  ultimately have "wz_inv ?zi" using inv(4) distinct_remove1 [OF inv(1), of n] by (simp add: wz_inv_def set_zone_def)
  then show ?thesis using put_result [of zi n td] True length_remove [of n ?ws]
    by (auto simp: post_def wz_effect_def)
next
  case False
  then show ?thesis by (auto simp: post_def wz_effect_def zbd_write_zone_put_def rd_eq_Some_iff bind_eq_Some_conv)
qed

lemma add_effect: "post (zbd_write_zone_add td zi n) (\<lambda>(td', zi', r). wz_effect (td, zi) (td', zi'))"
proof -
  have add: "wz_effect (td, zi) (td\<lparr>num_write_zones := num_write_zones td + 1\<rparr>,
      (set_zone zi n ((zone_info zi ! n)\<lparr>zwrite := True\<rparr>))\<lparr>write_zones := write_zones zi @ [n]\<rparr>)"
    if "n < length (zone_info zi)" "\<not> zwrite (zone_info zi ! n)" "\<not> max_write_zones zi \<le> length (write_zones zi)"
    using that by (auto simp: wz_effect_def wz_inv_def set_zone_def nth_list_update)
  show ?thesis unfolding zbd_write_zone_add_def
    by (intro posts post_weaken [OF rd_zone]) (use add in auto)
qed

lemma get_effect: "post (zbd_write_zone_get td zi n) (\<lambda>(td', zi', r). wz_effect (td, zi) (td', zi'))"
  unfolding zbd_write_zone_get_def
  by (intro posts post_skip post_weaken [OF add_effect]) auto

lemma reset_effect: "post (zbd_reset_zone dev td f zi n) (\<lambda>(td', zi', r). wz_effect (td, zi) (td', zi'))"
  unfolding zbd_reset_zone_def
  by (intro posts post_weaken [OF reset_wp_same] post_weaken [OF put_effect])
    (auto intro: wz_effect_same wz_effect_trans)

lemma end_effect: "post (zbd_end_zone_io wrt off len td zi n) (wz_effect (td, zi))"
  unfolding zbd_end_zone_io_def by (intro posts post_skip put_effect) simp

lemma put_io_effect: "post (zbd_put_io wrt off len td zi) (wz_effect (td, zi))"
  unfolding zbd_put_io_def by (intro posts post_skip end_effect)

lemma queue_effect: "post (zbd_queue_io success completed wrt off len td zi) (wz_effect (td, zi))"
proof -
  have same: "same_write zi (if wrt then set_zone (if c then zi\<lparr>wp_valid_data_bytes := v\<rparr> else zi) n (z\<lparr>zwp := e\<rparr>)
      else (if c then zi\<lparr>wp_valid_data_bytes := v\<rparr> else zi))"
    if "n < length (zone_info zi)" "z = zone_info zi ! n" for n z c v e
    using that by (auto intro!: same_write_zone)
  show ?thesis unfolding zbd_queue_io_def Let_def
    apply (rule post_bind, rule post_skip)
    apply (rule post_bind, rule post_weaken [OF rd_zone])
    apply (intro posts post_weaken [OF end_effect])
    apply simp
    apply (erule wz_effect_trans [rotated])
    apply (rule wz_effect_same, rule same, simp, simp)
    apply (rule wz_effect_same, rule same, simp, simp)
    done
qed

lemma sum_list_replace:
  "i < length xs \<Longrightarrow> (\<Sum>x\<leftarrow>xs[i := y]. f x) = (\<Sum>x\<leftarrow>xs. f x) + (f y - f (xs ! i))" for f :: "'a \<Rightarrow> u32"
  by (induction xs arbitrary: i) (auto simp: nth_Cons split: nat.splits)

definition zbd_inv :: "zbd_job list \<times> zbd_info \<Rightarrow> bool" where
  "zbd_inv s \<longleftrightarrow> wz_inv (snd s) \<and> (\<Sum>td\<leftarrow>fst s. num_write_zones td) = of_nat (length (write_zones (snd s)))"

lemma inv_effect:
  assumes "zbd_inv (js, zi)" and "i < length js" and "wz_effect (js ! i, zi) (td, zi')"
  shows "zbd_inv (js[i := td], zi')"
  using assms sum_list_replace [OF assms(2), of num_write_zones td] by (simp add: zbd_inv_def wz_effect_def)

lemma inv_same: "zbd_inv (js, zi) \<Longrightarrow> same_write zi zi' \<Longrightarrow> zbd_inv (js, zi')"
  using same_write_inv [of zi zi'] by (simp add: zbd_inv_def)

lemma zbd_step_inv:
  assumes "zbd_step s s'" and "zbd_inv s"
  shows "zbd_inv s'"
  using assms
proof (induction rule: zbd_step.induct)
  case (get i js zi n td zi' r)
  then show ?case using get_effect [of "js ! i" zi n] by (intro inv_effect) (auto simp: post_def)
next
  case (reset i js dev f zi n td zi' r)
  then show ?case using reset_effect [of dev "js ! i" f zi n] by (intro inv_effect) (auto simp: post_def)
next
  case (reset_wp i js dev f zi n zi' r)
  then show ?case using reset_wp_same [of dev "js ! i" f zi n] by (auto simp: post_def intro: inv_same)
next
  case (put i js zi n td zi')
  then show ?case using put_effect [of "js ! i" zi n] by (intro inv_effect) (auto simp: post_def)
next
  case (finish dev zi n zi' r js)
  then show ?case using finish_same [of dev zi n] by (auto simp: post_def intro: inv_same)
next
  case (queue i js success completed wrt off len zi td zi')
  then show ?case using queue_effect [of success completed wrt off len "js ! i" zi] by (intro inv_effect) (auto simp: post_def)
next
  case (complete i js wrt off len zi td zi')
  then show ?case using put_io_effect [of wrt off len "js ! i" zi] by (intro inv_effect) (auto simp: post_def)
qed

abbreviation zbd_reach :: "zbd_job list \<times> zbd_info \<Rightarrow> zbd_job list \<times> zbd_info \<Rightarrow> bool" where
  "zbd_reach \<equiv> zbd_step\<^sup>*\<^sup>*"

lemma zbd_reach_inv: "zbd_reach s s' \<Longrightarrow> zbd_inv s \<Longrightarrow> zbd_inv s'"
  by (induction rule: rtranclp_induct) (auto intro: zbd_step_inv)

text \<open>A device before the jobs start.\<close>

definition fresh :: "zbd_job list \<Rightarrow> zbd_info \<Rightarrow> bool" where
  "fresh js zi \<longleftrightarrow> (\<forall>td \<in> set js. num_write_zones td = 0) \<and> write_zones zi = [] \<and> (\<forall>z \<in> set (zone_info zi). \<not> zwrite z) \<and>
     max_write_zones zi \<le> ZBD_MAX_WRITE_ZONES"

lemma fresh_inv: "fresh js zi \<Longrightarrow> zbd_inv (js, zi)"
  by (auto simp: fresh_def zbd_inv_def wz_inv_def) (induction js; simp)

text \<open>
  C8 (invariant): whatever the jobs do, the array of write target zones has no zone twice and holds exactly the zones marked as
  write targets, never more than the limit of the device allows, and adding a zone stays inside the array. The counters of
  the jobs add up to its length, modulo \<open>2 ^ 32\<close>.
\<close>

theorem write_zones_invariant:
  assumes "fresh js zi" and "zbd_reach (js, zi) (js', zi')"
  shows "distinct (write_zones zi') \<and> set (write_zones zi') = {n. n < length (zone_info zi') \<and> zwrite (zone_info zi' ! n)} \<and>
    length (write_zones zi') \<le> max_write_zones zi' \<and> (\<forall>td n. n < length (zone_info zi') \<longrightarrow> zbd_write_zone_add td zi' n \<noteq> None) \<and>
    (\<Sum>td\<leftarrow>js'. num_write_zones td) = of_nat (length (write_zones zi'))"
proof -
  have inv: "zbd_inv (js', zi')" using zbd_reach_inv [OF assms(2) fresh_inv [OF assms(1)]] .
  have "zbd_write_zone_add td zi' n \<noteq> None" if "n < length (zone_info zi')" for td n
    using that inv by (auto simp: zbd_write_zone_add_def zbd_inv_def wz_inv_def)
  then show ?thesis using inv by (simp add: zbd_inv_def wz_inv_def)
qed

section \<open>A sample\<close>

definition sample_zone :: "u64 \<Rightarrow> fio_zone_info" where
  "sample_zone start = \<lparr>zstart = start, zwp = start, zcapacity = 4096, zcond = ZBD_ZONE_COND_EMPTY, zhas_wp = True, zwrite = False, zreset = False\<rparr>"

definition sample_device :: zbd_info where
  "sample_device = \<lparr>zmodel = ZBD_NONE, max_write_zones = 2, max_active_zones = 0, zone_size = 4096, wp_valid_data_bytes = 0,
     write_min_zone = 0, write_max_zone = 0, zone_size_log2 = 12,
     nr_zones = 2, write_zones = [], zone_info = [sample_zone 0, sample_zone 4096, sentinel 8192]\<rparr>"

definition sample_zjob :: zbd_job where
  "sample_zjob = \<lparr>zj_min_bs = 512, zj_verify = False, zj_account = False, job_max_open_zones = 1, num_write_zones = 0\<rparr>"

lemma sample_fresh: "fresh [sample_zjob, sample_zjob] sample_device"
  by (simp add: fresh_def sample_zjob_def sample_device_def sample_zone_def sentinel_def ZBD_MAX_WRITE_ZONES_def)

definition one_open :: zbd_info where
  "one_open = sample_device\<lparr>write_zones := [0],
     zone_info := [(sample_zone 0)\<lparr>zwrite := True\<rparr>, sample_zone 4096, sentinel 8192]\<rparr>"

lemma sample_get:
  "zbd_step ([sample_zjob, sample_zjob], sample_device) ([sample_zjob\<lparr>num_write_zones := 1\<rparr>, sample_zjob], one_open)"
  using zbd_step.get [of 0 "[sample_zjob, sample_zjob]" sample_device 0 "sample_zjob\<lparr>num_write_zones := 1\<rparr>" one_open True]
  by (simp add: zbd_write_zone_get_def zbd_write_zone_add_def sample_zjob_def sample_device_def sample_zone_def sentinel_def one_open_def set_zone_def
      ZBD_MAX_WRITE_ZONES_def)

theorem write_zones_invariant_witness:
  "fresh [sample_zjob, sample_zjob] sample_device \<and>
    zbd_reach ([sample_zjob, sample_zjob], sample_device) ([sample_zjob\<lparr>num_write_zones := 1\<rparr>, sample_zjob], one_open) \<and>
    set (write_zones one_open) = {n. n < length (zone_info one_open) \<and> zwrite (zone_info one_open ! n)} \<and>
    length (write_zones one_open) \<le> max_write_zones one_open"
proof -
  have r: "zbd_reach ([sample_zjob, sample_zjob], sample_device) ([sample_zjob\<lparr>num_write_zones := 1\<rparr>, sample_zjob], one_open)"
    using sample_get by blast
  show ?thesis using write_zones_invariant [OF sample_fresh r] sample_fresh r
    by blast
qed

section \<open>Two faults\<close>

text \<open>
  The counter that limits the write target zones of a job belongs to the job that removes a zone, not to the one that
  added it. When a job fills a zone another job has opened, its counter wraps around to the largest value and the job may not open
  any zone, although none is open.
\<close>

theorem job_count_wraps:
  "\<exists>js zi. zbd_reach ([sample_zjob, sample_zjob], sample_device) (js, zi) \<and> write_zones zi = [] \<and>
    num_write_zones (js ! 1) = 0xffffffff \<and> (\<forall>n < 2. map_option (snd \<circ> snd) (zbd_write_zone_get (js ! 1) zi n) = Some False)"
proof -
  let ?a = "sample_zjob\<lparr>num_write_zones := 1\<rparr>" and ?b = "sample_zjob\<lparr>num_write_zones := 0xffffffff\<rparr>"
  have put: "zbd_put_io True 0 4096 sample_zjob one_open = Some (?b, sample_device)"
    by (simp add: zbd_put_io_def zbd_offset_to_zone_idx_def zbd_end_zone_io_def zbd_zone_capacity_end_def zbd_write_zone_put_def
        one_open_def sample_device_def sample_zone_def sentinel_def sample_zjob_def set_zone_def Let_def)
  have "zbd_step ([?a, sample_zjob], one_open) ([?a, ?b], sample_device)"
    using zbd_step.complete [of 1 "[?a, sample_zjob]" True 0 4096 one_open ?b sample_device] put by simp
  then have "zbd_reach ([sample_zjob, sample_zjob], sample_device) ([?a, ?b], sample_device)"
    using sample_get by (meson converse_rtranclp_into_rtranclp r_into_rtranclp)
  moreover have "map_option (snd \<circ> snd) (zbd_write_zone_get ?b sample_device n) = Some False" if "n < 2" for n
  proof -
    have "n = 0 \<or> n = 1" using that by linarith
    then show ?thesis
      by (auto simp: zbd_write_zone_get_def zbd_write_zone_add_def sample_device_def sample_zone_def sentinel_def sample_zjob_def)
  qed
  ultimately show ?thesis
    by (intro exI [of _ "[?a, ?b]"] exI [of _ sample_device]) (simp add: sample_device_def)
qed

text \<open>The bytes between the start of the zones and their write pointers.\<close>

definition data_in :: "fio_zone_info \<Rightarrow> u64" where
  "data_in z = (if zhas_wp z then zwp z - zstart z else 0)"

definition vdb_sum :: "zbd_info \<Rightarrow> u64" where
  "vdb_sum zi = (\<Sum>z\<leftarrow>zone_info zi. data_in z)"

lemma vdb_set_zone:
  assumes "n < length (zone_info zi)"
  shows "vdb_sum (set_zone zi n v) = vdb_sum zi + (data_in v - data_in (zone_info zi ! n))"
proof -
  have "(\<Sum>z\<leftarrow>zs[n := v]. data_in z) = (\<Sum>z\<leftarrow>zs. data_in z) + (data_in v - data_in (zs ! n))" if "n < length zs" for zs
    using that by (induction zs arbitrary: n) (auto simp: nth_Cons split: nat.splits)
  then show ?thesis using assms by (simp add: vdb_sum_def set_zone_def)
qed

text \<open>A write at or behind the write pointer and a reset keep the count exact.\<close>

lemma queue_accounts:
  assumes "zbd_offset_to_zone_idx zi off = Some n" and "n < length (zone_info zi)" and "zhas_wp (zone_info zi ! n)" and "zj_account td"
    and "zwp (zone_info zi ! n) \<le> min (off + len) (zbd_zone_capacity_end (zone_info zi ! n))"
    and "zbd_queue_io True False True off len td zi = Some (td', zi')"
  shows "wp_valid_data_bytes zi' - vdb_sum zi' = wp_valid_data_bytes zi - vdb_sum zi"
  using assms vdb_set_zone [of n "zi\<lparr>wp_valid_data_bytes := v\<rparr>" for v]
  by (auto simp: zbd_queue_io_def Let_def data_in_def vdb_sum_def set_zone_def)

lemma reset_result:
  assumes "zbd_reset_wp_zone dev td f zi n = Some (zi', True)" and "n < length (zone_info zi)" and "z = zone_info zi ! n"
  shows "zi' = zi \<and> zwp z = zstart z \<or>
    zi' = set_zone (if zj_account td then zi\<lparr>wp_valid_data_bytes := wp_valid_data_bytes zi - (zwp z - zstart z)\<rparr> else zi) n (z\<lparr>zwp := zstart z\<rparr>)"
  using assms by (auto simp: zbd_reset_wp_zone_def Let_def bind_eq_Some_conv split: if_splits)

lemma vdb_sum_bytes [simp]: "vdb_sum (zi\<lparr>wp_valid_data_bytes := v\<rparr>) = vdb_sum zi" "wp_valid_data_bytes (set_zone zi n z) = wp_valid_data_bytes zi"
  by (simp_all add: vdb_sum_def set_zone_def)

lemma reset_accounts:
  assumes "zbd_reset_wp_zone dev td f zi n = Some (zi', True)" and "n < length (zone_info zi)" and "zhas_wp (zone_info zi ! n)" and "zj_account td"
  shows "wp_valid_data_bytes zi' - vdb_sum zi' = wp_valid_data_bytes zi - vdb_sum zi"
proof -
  let ?z = "zone_info zi ! n"
  let ?zi = "zi\<lparr>wp_valid_data_bytes := wp_valid_data_bytes zi - (zwp ?z - zstart ?z)\<rparr>"
  have "vdb_sum (set_zone ?zi n (?z\<lparr>zwp := zstart ?z\<rparr>)) = vdb_sum zi - (zwp ?z - zstart ?z)"
    using vdb_set_zone [of n ?zi "?z\<lparr>zwp := zstart ?z\<rparr>"] assms(2,3) by (simp add: data_in_def)
  then show ?thesis using reset_result [OF assms(1,2) refl] assms(4) by auto
qed

text \<open>
  Finishing a zone moves its write pointer to the end of the zone without counting the bytes, so that the reset that
  follows subtracts bytes that were never added: the count of valid data falls short by the part of the zone that was not written,
  and wraps around if there is less data than that.
\<close>

theorem finish_unaccounted:
  assumes "wp_valid_data_bytes zi = vdb_sum zi" and "zj_account td" and "n < length (zone_info zi)" and "zhas_wp (zone_info zi ! n)"
    and "zbd_zone_end zi n = Some e" and "zbd_finish_zone dev zi n = Some (zi1, True)" and "zbd_reset_wp_zone dev' td f zi1 n = Some (zi2, True)"
  shows "wp_valid_data_bytes zi2 = vdb_sum zi2 - (e - zwp (zone_info zi ! n))"
proof -
  let ?z = "zone_info zi ! n"
  have zi1: "zi1 = set_zone zi n (?z\<lparr>zwp := e\<rparr>)"
    using assms(3,5,6) by (auto simp: zbd_finish_zone_def split: if_splits)
  then have n: "n < length (zone_info zi1)" "zhas_wp (zone_info zi1 ! n)" using assms(3,4) by (simp_all add: set_zone_def)
  have "vdb_sum zi1 = vdb_sum zi + (e - zwp ?z)" using vdb_set_zone [OF assms(3), of "?z\<lparr>zwp := e\<rparr>"] assms(4) zi1 by (simp add: data_in_def)
  moreover have "wp_valid_data_bytes zi1 = vdb_sum zi" using zi1 assms(1) by simp
  moreover have "wp_valid_data_bytes zi2 = (wp_valid_data_bytes zi1 - vdb_sum zi1) + vdb_sum zi2"
    using reset_accounts [OF assms(7) n assms(2)] by (metis diff_add_cancel)
  ultimately show ?thesis by simp
qed

theorem finish_unaccounted_witness:
  "\<exists>zi1 zi2. zbd_finish_zone True (sample_device\<lparr>wp_valid_data_bytes := 0\<rparr>) 0 = Some (zi1, True) \<and>
    zbd_reset_wp_zone True (sample_zjob\<lparr>zj_account := True\<rparr>) \<lparr>zf_offset = 0, zf_io_size = 8192, min_zone = 0, max_zone = 2\<rparr> zi1 0 = Some (zi2, True) \<and>
    vdb_sum zi2 = 0 \<and> wp_valid_data_bytes zi2 = - 4096"
proof -
  let ?f = "\<lparr>zf_offset = 0, zf_io_size = 8192, min_zone = 0, max_zone = 2\<rparr>" and ?td = "sample_zjob\<lparr>zj_account := True\<rparr>"
  let ?d = "sample_device\<lparr>wp_valid_data_bytes := 0\<rparr>"
  let ?zi1 = "set_zone ?d 0 ((sample_zone 0)\<lparr>zwp := 4096\<rparr>)"
  let ?zi2 = "?d\<lparr>wp_valid_data_bytes := - 4096\<rparr>"
  have d: "wp_valid_data_bytes ?d = vdb_sum ?d" "0 < length (zone_info ?d)" "zhas_wp (zone_info ?d ! 0)" "zbd_zone_end ?d 0 = Some 4096"
    "zwp (zone_info ?d ! 0) = 0"
    by (simp_all add: sample_device_def sample_zone_def sentinel_def vdb_sum_def data_in_def zbd_zone_end_def)
  have fin: "zbd_finish_zone True ?d 0 = Some (?zi1, True)"
    using d(4) by (simp add: zbd_finish_zone_def sample_device_def)
  have res: "zbd_reset_wp_zone True ?td ?f ?zi1 0 = Some (?zi2, True)"
    by (simp add: zbd_reset_wp_zone_def zbd_zone_end_def is_valid_offset_def set_zone_def sample_device_def sample_zone_def sentinel_def sample_zjob_def)
  have "zj_account ?td" by simp
  from finish_unaccounted [OF d(1) this d(2,3,4) fin res] fin res show ?thesis
    by (intro exI [of _ ?zi1] exI [of _ ?zi2]) (simp add: d(5) sample_device_def sample_zone_def sentinel_def vdb_sum_def data_in_def)
qed

end
