(* ===== verification/Io_Offset.thy ===== *)
theory Io_Offset
  imports Post Random_Map Bits Zbd
begin

text \<open>
  \<^verbatim>\<open>io_u.c\<close>: what a job does next. The data direction with the read/write mix and the sync intervals, the offset for
  random, sequential and holed I/O, the block size, and \<^verbatim>\<open>fill_io_u\<close>, which puts them together. Offsets and sizes are
  \<^verbatim>\<open>uint64_t\<close> with their wrap-around. The numbers the generators return for one call, some of them scaled in floating
  point, are a record of draws. For zoned block devices \<^verbatim>\<open>zbd_adjust_ddir\<close> and \<^verbatim>\<open>setup_zbd_zone_mode\<close> of \<^verbatim>\<open>zbd.c\<close> are here, and \<^verbatim>\<open>zbd_adjust_block\<close>, whose
  cases are in the theories that follow, is an argument. Messages are not modelled.
\<close>

section \<open>Data\<close>

datatype fio_ddir = DDIR_READ | DDIR_WRITE | DDIR_TRIM | DDIR_SYNC | DDIR_DATASYNC | DDIR_SYNC_FILE_RANGE
  | DDIR_WAIT | DDIR_LAST | DDIR_INVAL | DDIR_TIMEOUT

definition ddir_rw :: "fio_ddir \<Rightarrow> bool" where
  "ddir_rw ddir \<longleftrightarrow> ddir = DDIR_READ \<or> ddir = DDIR_WRITE \<or> ddir = DDIR_TRIM"

definition ddir_sync :: "fio_ddir \<Rightarrow> bool" where
  "ddir_sync ddir \<longleftrightarrow> ddir = DDIR_SYNC \<or> ddir = DDIR_DATASYNC \<or> ddir = DDIR_SYNC_FILE_RANGE"

datatype zone_mode = ZONE_MODE_NOT_SPECIFIED | ZONE_MODE_NONE | ZONE_MODE_STRIDED | ZONE_MODE_ZBD

datatype rand_dist = FIO_RAND_DIST_RANDOM | FIO_RAND_DIST_ZIPF | FIO_RAND_DIST_PARETO | FIO_RAND_DIST_GAUSS
  | FIO_RAND_DIST_ZONED | FIO_RAND_DIST_ZONED_ABS

datatype rw_seq = RW_SEQ_SEQ | RW_SEQ_IDENT

record zone_split_index =
  size_perc :: u8
  size_perc_prev :: u8
  zsi_size :: u64
  zsi_size_prev :: u64

record io_file = fio_file +
  real_file_size :: u64
  io_size :: u64
  last_pos :: "fio_ddir \<Rightarrow> u64"
  last_start :: "fio_ddir \<Rightarrow> u64"
  file_axmap :: bool      \<comment> \<open>\<^verbatim>\<open>fio_file_axmap(f)\<close>\<close>
  file_regular :: bool    \<comment> \<open>\<^verbatim>\<open>filetype == FIO_TYPE_FILE\<close>\<close>
  file_zbd :: zbd_info    \<comment> \<open>\<^verbatim>\<open>zbd_info\<close>, used with \<^verbatim>\<open>zonemode=zbd\<close> only\<close>

record job_options =
  td_ddir :: u32
  o_ba :: "fio_ddir \<Rightarrow> u64"
  o_min_bs :: "fio_ddir \<Rightarrow> u64"
  o_max_bs :: "fio_ddir \<Rightarrow> u64"
  o_bssplit :: "fio_ddir \<Rightarrow> (u64 \<times> u64) list"   \<comment> \<open>size and percentage\<close>
  o_bs_is_seq_rand :: bool
  o_bs_unaligned :: bool
  o_time_based :: bool
  o_nonuniform :: bool    \<comment> \<open>\<^verbatim>\<open>file_service_type & __FIO_FSERVICE_NONUNIFORM\<close>\<close>
  o_nr_files :: nat
  o_io_size :: u64
  o_size :: u64
  o_ddir_seq_nr :: u32
  o_ddir_seq_add :: u64   \<comment> \<open>a \<^verbatim>\<open>long long\<close>\<close>
  o_rw_seq :: rw_seq
  o_perc_rand :: "fio_ddir \<Rightarrow> nat"
  o_random_distribution :: rand_dist
  o_norandommap :: bool
  o_zone_split_nr :: "fio_ddir \<Rightarrow> nat"
  o_zone_mode :: zone_mode
  o_zone_range :: u64
  o_zone_size :: u64
  o_zone_skip :: u64
  o_read_beyond_wp :: bool
  o_num_range :: nat
  o_file_append :: bool
  o_offset_increment_percent :: u64
  o_offset_increment :: u64
  o_start_offset_percent :: u64
  o_start_offset :: u64
  o_start_offset_align :: "u64 option"
  o_rwmix :: "fio_ddir \<Rightarrow> nat"
  o_fsync_blocks :: u64
  o_fdatasync_blocks :: u64
  o_override_sync :: bool

record job =
  job_o :: job_options
  job_noio :: bool         \<comment> \<open>\<^verbatim>\<open>td_ioengine_flagged(td, FIO_NOIO)\<close>\<close>
  job_ddir_seq_nr :: u32
  job_subjob_number :: u64
  job_min_bs :: u64        \<comment> \<open>\<^verbatim>\<open>td_min_bs(td)\<close>\<close>
  job_zone_bytes :: u64
  job_io_skip_bytes :: u64
  job_zones :: "fio_ddir \<Rightarrow> zone_split_index list"
  job_rwmix_ddir :: fio_ddir
  job_rwmix_issues :: u64
  job_io_issues :: "fio_ddir \<Rightarrow> u64"
  job_last_ddir_issued :: fio_ddir
  job_sync_file_range_nr :: u64

record unit_io =
  u_ddir :: fio_ddir
  u_offset :: u64
  u_verify_offset :: u64
  u_buflen :: u64
  u_busy_ok :: bool        \<comment> \<open>\<^verbatim>\<open>IO_U_F_BUSY_OK\<close>\<close>
  u_ranges :: "(u64 \<times> u64) list"   \<comment> \<open>the first \<^verbatim>\<open>number_trim\<close> entries of type \<^verbatim>\<open>struct trim_range\<close> in the buffer\<close>

text \<open>What the generators yield for one call: the number below a block count (\<open>None\<close>: the LFSR is at its end), again after
  a reset, the zipf, pareto or gauss number, the zone and the sequential/random draw between 1 and 100, and the numbers drawn one
  after the other for the block size.\<close>

record draws =
  dr_gen :: "u64 \<Rightarrow> u64 option"
  dr_gen_reset :: "u64 \<Rightarrow> u64 option"
  dr_dist :: u64
  dr_zone :: nat
  dr_seq :: nat
  dr_bs :: "nat \<Rightarrow> u64"

definition TD_DDIR_READ :: u32 where "TD_DDIR_READ = 1"
definition TD_DDIR_WRITE :: u32 where "TD_DDIR_WRITE = 2"
definition TD_DDIR_RAND :: u32 where "TD_DDIR_RAND = 4"
definition TD_DDIR_TRIM :: u32 where "TD_DDIR_TRIM = 8"

definition td_read :: "job \<Rightarrow> bool" where "td_read td \<longleftrightarrow> td_ddir (job_o td) AND TD_DDIR_READ \<noteq> 0"
definition td_write :: "job \<Rightarrow> bool" where "td_write td \<longleftrightarrow> td_ddir (job_o td) AND TD_DDIR_WRITE \<noteq> 0"
definition td_trim :: "job \<Rightarrow> bool" where "td_trim td \<longleftrightarrow> td_ddir (job_o td) AND TD_DDIR_TRIM \<noteq> 0"
definition td_random :: "job \<Rightarrow> bool" where "td_random td \<longleftrightarrow> td_ddir (job_o td) AND TD_DDIR_RAND \<noteq> 0"

definition td_rw :: "job \<Rightarrow> bool" where
  "td_rw td \<longleftrightarrow> td_ddir (job_o td) AND (TD_DDIR_READ OR TD_DDIR_WRITE) = TD_DDIR_READ OR TD_DDIR_WRITE"

definition td_trimwrite :: "job \<Rightarrow> bool" where
  "td_trimwrite td \<longleftrightarrow> td_ddir (job_o td) AND (TD_DDIR_TRIM OR TD_DDIR_WRITE) = TD_DDIR_TRIM OR TD_DDIR_WRITE"

definition td_randtrimwrite :: "job \<Rightarrow> bool" where
  "td_randtrimwrite td \<longleftrightarrow> td_ddir (job_o td) AND (TD_DDIR_TRIM OR TD_DDIR_RAND OR TD_DDIR_WRITE) =
     TD_DDIR_TRIM OR TD_DDIR_RAND OR TD_DDIR_WRITE"

definition file_randommap :: "job \<Rightarrow> io_file \<Rightarrow> bool" where
  "file_randommap td f \<longleftrightarrow> \<not> o_norandommap (job_o td) \<and> file_axmap f"

definition multi_range_trim :: "job \<Rightarrow> unit_io \<Rightarrow> bool" where
  "multi_range_trim td u \<longleftrightarrow> u_ddir u = DDIR_TRIM \<and> 1 < o_num_range (job_o td)"

section \<open>Start of the region\<close>

definition get_start_offset :: "job \<Rightarrow> io_file \<Rightarrow> u64 option" where
  "get_start_offset td f = (let opts = job_o td in
     if o_file_append opts \<and> file_regular f then Some (real_file_size f)
     else do {
       c_assert (o_offset_increment_percent opts = 0 \<or> o_offset_increment opts = 0);
       let increment = (if o_offset_increment_percent opts \<noteq> 0 then o_offset_increment_percent opts * real_file_size f div 100
         else o_offset_increment opts);
       let align = (o_offset_increment_percent opts \<noteq> 0 \<or> o_start_offset_percent opts > 0);
       let offset = (if o_start_offset_percent opts > 0
         then real_file_size f * o_start_offset_percent opts div 100 + job_subjob_number td * increment
         else o_start_offset opts + job_subjob_number td * increment);
       if align then (let align_bs = (case o_start_offset_align opts of Some a \<Rightarrow> a | None \<Rightarrow> job_min_bs td) in do {
         c_assert (align_bs \<noteq> 0);
         Some ((offset div align_bs + (if offset mod align_bs \<noteq> 0 then 1 else 0)) * align_bs) })
       else Some offset })"

section \<open>Random offsets\<close>

definition last_block :: "job \<Rightarrow> io_file \<Rightarrow> fio_ddir \<Rightarrow> u64 option" where
  "last_block td f ddir = (let opts = job_o td in do {
     c_assert (ddir_rw ddir);
     let max_size = (if real_file_size f < io_size f then real_file_size f else io_size f);
     let max_size = (if o_zone_mode opts = ZONE_MODE_STRIDED \<and> o_zone_range opts \<noteq> 0 then o_zone_range opts else max_size);
     let max_size = (if o_ba opts ddir < o_min_bs opts ddir then max_size - (o_min_bs opts ddir - o_ba opts ddir) else max_size);
     c_assert (o_ba opts ddir \<noteq> 0);
     Some (max_size div o_ba opts ddir) })"

text \<open>\<^verbatim>\<open>__get_next_rand_offset\<close>: the inner \<open>None\<close> is the return value 1.\<close>

definition rand_offset :: "(u64 \<Rightarrow> u64 option) \<Rightarrow> job \<Rightarrow> io_file \<Rightarrow> u64 \<Rightarrow> u64 option option" where
  "rand_offset gen td f lastb = (case gen lastb of None \<Rightarrow> Some None
     | Some b \<Rightarrow> Random_Map.get_next_rand_offset (file_randommap td f) (fio_file.truncate f) b)"

definition rand_offset_zoned_abs :: "(u64 \<Rightarrow> u64 option) \<Rightarrow> nat \<Rightarrow> job \<Rightarrow> io_file \<Rightarrow> fio_ddir \<Rightarrow> u64 option option" where
  "rand_offset_zoned_abs gen v td f ddir = do {
     lastb \<leftarrow> last_block td f ddir;
     if lastb = 0 then Some None
     else if o_zone_split_nr (job_o td) ddir = 0 then rand_offset gen td f lastb
     else do {
       zsi \<leftarrow> rd (job_zones td ddir) (v - 1);
       let stotal = zsi_size_prev zsi div o_ba (job_o td) ddir;
       let send = zsi_size zsi div o_ba (job_o td) ddir;
       if send = 0xffffffff then rand_offset gen td f lastb
       else if lastb < send then Some None
       else do {
         b \<leftarrow> rand_offset gen td f (send - stotal);
         Some (map_option (\<lambda>b. b + stotal) b) } } }"

definition rand_offset_zoned :: "(u64 \<Rightarrow> u64 option) \<Rightarrow> nat \<Rightarrow> job \<Rightarrow> io_file \<Rightarrow> fio_ddir \<Rightarrow> u64 option option" where
  "rand_offset_zoned gen v td f ddir = do {
     lastb \<leftarrow> last_block td f ddir;
     if lastb = 0 then Some None
     else if o_zone_split_nr (job_o td) ddir = 0 then rand_offset gen td f lastb
     else do {
       zsi \<leftarrow> rd (job_zones td ddir) (v - 1);
       let stotal = (ucast (size_perc_prev zsi) :: u64);
       let send = (ucast (size_perc zsi) :: u64);
       if send = 0xffffffff then rand_offset gen td f lastb
       else do {
         let offset = (if stotal \<noteq> 0 then stotal * lastb div 100 else 0);
         let lastb = lastb * ucast (ucast (send - stotal) :: u32) div 100;
         b \<leftarrow> rand_offset gen td f lastb;
         Some (map_option (\<lambda>b. if offset \<noteq> 0 then b + offset else b) b) } } }"

definition get_next_rand_offset :: "(u64 \<Rightarrow> u64 option) \<Rightarrow> draws \<Rightarrow> job \<Rightarrow> io_file \<Rightarrow> fio_ddir \<Rightarrow> u64 option option" where
  "get_next_rand_offset gen dr td f ddir = (case o_random_distribution (job_o td) of
     FIO_RAND_DIST_RANDOM \<Rightarrow> do {
       lastb \<leftarrow> last_block td f ddir;
       if lastb = 0 then Some None else rand_offset gen td f lastb }
   | FIO_RAND_DIST_ZIPF \<Rightarrow> Some (Some (dr_dist dr))
   | FIO_RAND_DIST_PARETO \<Rightarrow> Some (Some (dr_dist dr))
   | FIO_RAND_DIST_GAUSS \<Rightarrow> Some (Some (dr_dist dr))
   | FIO_RAND_DIST_ZONED \<Rightarrow> rand_offset_zoned gen (dr_zone dr) td f ddir
   | FIO_RAND_DIST_ZONED_ABS \<Rightarrow> rand_offset_zoned_abs gen (dr_zone dr) td f ddir)"

definition should_do_random :: "draws \<Rightarrow> job \<Rightarrow> fio_ddir \<Rightarrow> bool" where
  "should_do_random dr td ddir \<longleftrightarrow> o_perc_rand (job_o td) ddir = 100 \<or> dr_seq dr \<le> o_perc_rand (job_o td) ddir"

definition fio_file_reset :: "io_file \<Rightarrow> io_file" where
  "fio_file_reset f = f\<lparr>
     last_pos := (\<lambda>d. if ddir_rw d then file_offset f else last_pos f d),
     last_start := (\<lambda>d. if ddir_rw d then u64_max else last_start f d),
     io_axmap := (if file_axmap f then axmap_reset (io_axmap f) else io_axmap f)\<rparr>"

definition get_next_rand_block :: "draws \<Rightarrow> job \<Rightarrow> io_file \<Rightarrow> fio_ddir \<Rightarrow> (io_file \<times> u64 option) option" where
  "get_next_rand_block dr td f ddir = do {
     b \<leftarrow> get_next_rand_offset (dr_gen dr) dr td f ddir;
     if b \<noteq> None then Some (f, b)
     else if o_time_based (job_o td) \<or> o_nonuniform (job_o td) then do {
       let f = fio_file_reset f;
       b \<leftarrow> get_next_rand_offset (dr_gen_reset dr) dr td f ddir;
       Some (f, b) }
     else Some (f, None) }"

section \<open>Sequential offsets\<close>

definition get_next_seq_offset :: "job \<Rightarrow> io_file \<Rightarrow> fio_ddir \<Rightarrow> (io_file \<times> u64 option) option" where
  "get_next_seq_offset td f ddir = (let opts = job_o td in do {
     c_assert (ddir_rw ddir);
     start \<leftarrow> get_start_offset td f;
     let f = (if io_size f + start \<le> last_pos f ddir \<and> o_time_based opts \<and> o_nr_files opts = 1
       then f\<lparr>last_pos := (last_pos f)(ddir := file_offset f)\<rparr> else f);
     let f = (if td_rw td \<and> o_size opts < o_io_size opts \<and> io_size f + start \<le> last_pos f ddir
       then f\<lparr>last_pos := (last_pos f)(ddir := file_offset f)\<rparr> else f);
     if \<not> last_pos f ddir < real_file_size f then Some (f, None)
     else do {
       let size = (if io_size f < real_file_size f then io_size f else real_file_size f);
       let f = (if last_pos f ddir = file_offset f \<and> file_offset f \<noteq> 0 \<and> sint (o_ddir_seq_add opts) < 0
         then f\<lparr>last_pos := (last_pos f)(ddir := size)\<rparr> else f);
       let pos = last_pos f ddir - file_offset f;
       let pos = (if pos \<noteq> 0 \<and> o_ddir_seq_add opts \<noteq> 0
         then (let pos = pos + o_ddir_seq_add opts in
           if real_file_size f \<le> pos
           then (if 0 < sint (o_ddir_seq_add opts) then file_offset f else size + o_ddir_seq_add opts)
           else pos)
         else pos);
       Some (f, Some pos) } })"

section \<open>The next block\<close>

text \<open>\<^verbatim>\<open>get_next_block\<close>; the results are the file, the I/O unit, \<^verbatim>\<open>is_random\<close> and the return value.\<close>

definition get_next_block ::
  "draws \<Rightarrow> job \<Rightarrow> io_file \<Rightarrow> unit_io \<Rightarrow> fio_ddir \<Rightarrow> bool \<Rightarrow> (io_file \<times> unit_io \<times> bool \<times> nat) option" where
  "get_next_block dr td f u ddir rw_seq = do {
     c_assert (ddir_rw ddir);
     (f, u, is_random, offset, b, ret) \<leftarrow>
       (if td_randtrimwrite td \<and> ddir = DDIR_WRITE
        then Some (f, u\<lparr>u_busy_ok := True\<rparr>, True, last_start f DDIR_TRIM, u64_max, 0)
        else if rw_seq then
          (if td_random td then
             (if should_do_random dr td ddir then do {
                (f, b) \<leftarrow> get_next_rand_block dr td f ddir;
                Some (f, u, True, u64_max, (case b of Some b \<Rightarrow> b | None \<Rightarrow> u64_max), if b = None then 1 else 0) }
              else do {
                (f, off) \<leftarrow> get_next_seq_offset td f ddir;
                case off of Some off \<Rightarrow> Some (f, u\<lparr>u_busy_ok := True\<rparr>, False, off, u64_max, 0)
                | None \<Rightarrow> do {
                  (f, b) \<leftarrow> get_next_rand_block dr td f ddir;
                  Some (f, u\<lparr>u_busy_ok := True\<rparr>, False, u64_max, (case b of Some b \<Rightarrow> b | None \<Rightarrow> u64_max), if b = None then 1 else 0) } })
           else do {
             (f, off) \<leftarrow> get_next_seq_offset td f ddir;
             Some (f, u, False, (case off of Some off \<Rightarrow> off | None \<Rightarrow> u64_max), u64_max, if off = None then 1 else 0) })
        else case o_rw_seq (job_o td) of
          RW_SEQ_SEQ \<Rightarrow> do {
            (f, off) \<leftarrow> get_next_seq_offset td f ddir;
            case off of Some off \<Rightarrow> Some (f, u\<lparr>u_busy_ok := True\<rparr>, False, off, u64_max, 0)
            | None \<Rightarrow> do {
              (f, b) \<leftarrow> get_next_rand_block dr td f ddir;
              Some (f, u\<lparr>u_busy_ok := True\<rparr>, False, u64_max, (case b of Some b \<Rightarrow> b | None \<Rightarrow> u64_max), if b = None then 1 else 0) } }
        | RW_SEQ_IDENT \<Rightarrow> Some (f, u\<lparr>u_busy_ok := True\<rparr>, False,
            (if last_start f ddir \<noteq> u64_max then last_start f ddir - file_offset f else 0), u64_max, 0));
     if ret = 0 then
       (if offset \<noteq> u64_max then Some (f, u\<lparr>u_offset := offset, u_verify_offset := offset\<rparr>, is_random, 0)
        else if b \<noteq> u64_max then
          Some (f, u\<lparr>u_offset := b * o_ba (job_o td) ddir, u_verify_offset := b * o_ba (job_o td) ddir\<rparr>, is_random, 0)
        else Some (f, u\<lparr>u_verify_offset := u_offset u\<rparr>, is_random, 1))
     else Some (f, u, is_random, ret) }"

text \<open>The sequence count: every \<^verbatim>\<open>ddir_seq_nr\<close>-th call is a hit.\<close>

definition seq_count :: "job \<Rightarrow> job \<times> bool" where
  "seq_count td = (let nr = o_ddir_seq_nr (job_o td); left = job_ddir_seq_nr td - 1 in
     if nr = 0 then (td, False)
     else if left = 0 then (td\<lparr>job_ddir_seq_nr := nr\<rparr>, True)
     else (td\<lparr>job_ddir_seq_nr := left\<rparr>, False))"

definition get_next_offset :: "draws \<Rightarrow> job \<Rightarrow> io_file \<Rightarrow> unit_io \<Rightarrow> (job \<times> io_file \<times> unit_io \<times> bool \<times> nat) option" where
  "get_next_offset dr td f u = (let ddir = u_ddir u in do {
     c_assert (ddir_rw ddir);
     let (td, hit) = seq_count td;
     (f, u, is_random, ret) \<leftarrow> get_next_block dr td f u ddir hit;
     if ret \<noteq> 0 then Some (td, f, u, is_random, 1)
     else if io_size f \<le> u_offset u then Some (td, f, u, is_random, 1)
     else do {
       let u = u\<lparr>u_offset := u_offset u + file_offset f\<rparr>;
       if real_file_size f \<le> u_offset u then Some (td, f, u, is_random, 1)
       else do {
         let f = (if td_randtrimwrite td \<and> ddir = DDIR_TRIM \<and> last_start f DDIR_TRIM = u_offset u
           then f\<lparr>last_start := (last_start f)(DDIR_WRITE := last_start f DDIR_WRITE - 1)\<rparr> else f);
         Some (td, f, u\<lparr>u_verify_offset := u_offset u\<rparr>, is_random, 0) } } })"


section \<open>The block size\<close>

definition io_u_fits :: "job \<Rightarrow> io_file \<Rightarrow> unit_io \<Rightarrow> u64 \<Rightarrow> bool option" where
  "io_u_fits td f u buflen = do {
     start \<leftarrow> get_start_offset td f;
     Some (u_offset u + buflen \<le> io_size f + start) }"

text \<open>
  The search of a split: sizes whose percentages, added up, reach the drawn number, the last one tried if none
  does. \<open>below r perc\<close> is the comparison \<^verbatim>\<open>r / perc <= frand_max / 100ULL\<close>.
\<close>

fun bssplit_loop :: "(u64 \<Rightarrow> bool) \<Rightarrow> (u64 \<Rightarrow> bool option) \<Rightarrow> (u64 \<times> u64) list \<Rightarrow> u64 \<Rightarrow> u64 \<Rightarrow> u64 option" where
  "bssplit_loop below fit [] perc buflen = Some buflen"
| "bssplit_loop below fit ((bs, p) # rest) perc buflen =
     (if p = 0 then bssplit_loop below fit rest perc buflen
      else do {
        let perc = perc + p;
        fits \<leftarrow> (if below perc then fit bs else Some False);
        if fits then Some bs else bssplit_loop below fit rest perc bs })"

text \<open>
  The loop draws numbers \<open>rs\<close>, from position \<open>n\<close> on, until the size fits; it may never do. \<open>scale maxbs r\<close> is \<^verbatim>\<open>(double) maxbs * (r /
  (frand_max + 1.0))\<close> cut to an integer.
\<close>

definition buflen_round :: "(u64 \<Rightarrow> u64 \<Rightarrow> u64) \<Rightarrow> u64 \<Rightarrow> job \<Rightarrow> io_file \<Rightarrow> unit_io \<Rightarrow> fio_ddir \<Rightarrow> u64 \<Rightarrow> u64 option" where
  "buflen_round scale frand_max td f u ddir r = (let opts = job_o td; minbs = o_min_bs opts ddir; maxbs = o_max_bs opts ddir in do {
     buflen \<leftarrow> (if o_bssplit opts ddir = [] then Some (minbs + scale maxbs r)
       else bssplit_loop (\<lambda>perc. r div perc \<le> frand_max div 100) (io_u_fits td f u) (o_bssplit opts ddir) 0 0);
     c_assert (o_bs_unaligned opts \<or> is_power_of_2 minbs \<or> minbs \<noteq> 0);
     let buflen = (if \<not> o_bs_unaligned opts \<and> is_power_of_2 minbs then buflen AND NOT (minbs - 1)
       else if \<not> o_bs_unaligned opts then buflen - buflen mod minbs else buflen);
     Some (if maxbs < buflen then maxbs else buflen) })"

partial_function (option) buflen_loop ::
  "(u64 \<Rightarrow> u64 \<Rightarrow> u64) \<Rightarrow> u64 \<Rightarrow> (nat \<Rightarrow> u64) \<Rightarrow> nat \<Rightarrow> job \<Rightarrow> io_file \<Rightarrow> unit_io \<Rightarrow> fio_ddir \<Rightarrow> u64 option" where
  "buflen_loop scale frand_max rs n td f u ddir = do {
     buflen \<leftarrow> buflen_round scale frand_max td f u ddir (rs n);
     fits \<leftarrow> io_u_fits td f u buflen;
     if fits then Some buflen else buflen_loop scale frand_max rs (n + 1) td f u ddir }"

definition get_next_buflen ::
  "(u64 \<Rightarrow> u64 \<Rightarrow> u64) \<Rightarrow> u64 \<Rightarrow> (nat \<Rightarrow> u64) \<Rightarrow> job \<Rightarrow> io_file \<Rightarrow> unit_io \<Rightarrow> bool \<Rightarrow> u64 option" where
  "get_next_buflen scale frand_max rs td f u is_random = (let ddir = u_ddir u; opts = job_o td in do {
     c_assert (ddir_rw ddir);
     if td_randtrimwrite td \<and> ddir = DDIR_WRITE then Some (last_pos f DDIR_TRIM - last_start f DDIR_TRIM)
     else do {
       let ddir = (if o_bs_is_seq_rand opts then (if is_random then DDIR_WRITE else DDIR_READ) else ddir);
       let minbs = o_min_bs opts ddir;
       if minbs = o_max_bs opts ddir then Some minbs
       else do {
         fits \<leftarrow> io_u_fits td f u minbs;
         if \<not> fits then Some 0 else buflen_loop scale frand_max rs 0 td f u ddir } } })"

section \<open>The data direction\<close>

definition should_fsync :: "job \<Rightarrow> bool" where
  "should_fsync td \<longleftrightarrow> \<not> ddir_sync (job_last_ddir_issued td) \<and> (td_write td \<or> o_override_sync (job_o td))"

text \<open>\<^verbatim>\<open>ddir ^ 1\<close>: the values of the enumeration are 0 to 7, -1 and -2, which the lowest bit pairs up.\<close>

fun other_ddir :: "fio_ddir \<Rightarrow> fio_ddir" where
  "other_ddir DDIR_READ = DDIR_WRITE"
| "other_ddir DDIR_WRITE = DDIR_READ"
| "other_ddir DDIR_TRIM = DDIR_SYNC"
| "other_ddir DDIR_SYNC = DDIR_TRIM"
| "other_ddir DDIR_DATASYNC = DDIR_SYNC_FILE_RANGE"
| "other_ddir DDIR_SYNC_FILE_RANGE = DDIR_DATASYNC"
| "other_ddir DDIR_WAIT = DDIR_LAST"
| "other_ddir DDIR_LAST = DDIR_WAIT"
| "other_ddir DDIR_INVAL = DDIR_TIMEOUT"
| "other_ddir DDIR_TIMEOUT = DDIR_INVAL"

definition set_rwmix_bytes :: "job \<Rightarrow> job" where
  "set_rwmix_bytes td = td\<lparr>job_rwmix_issues :=
     job_io_issues td (job_rwmix_ddir td) * of_nat (o_rwmix (job_o td) (other_ddir (job_rwmix_ddir td))) div 100\<rparr>"

definition get_rand_ddir :: "nat \<Rightarrow> job \<Rightarrow> fio_ddir" where
  "get_rand_ddir v td = (if v \<le> o_rwmix (job_o td) DDIR_READ then DDIR_READ else DDIR_WRITE)"

text \<open>\<open>v\<close> is the number drawn for the mix and \<open>rate\<close> the effect of \<^verbatim>\<open>rate_ddir\<close>, if a rate is to be kept.\<close>

definition get_rw_ddir :: "nat \<Rightarrow> (fio_ddir \<Rightarrow> fio_ddir) option \<Rightarrow> job \<Rightarrow> job \<times> fio_ddir" where
  "get_rw_ddir v rate td = (let opts = job_o td; writes = job_io_issues td DDIR_WRITE;
     due = (\<lambda>n. n \<noteq> 0 \<and> writes \<noteq> 0 \<and> writes mod n = 0);
     fsync = should_fsync td \<and> job_last_ddir_issued td = DDIR_WRITE in
     if fsync \<and> due (o_fsync_blocks opts) then (td, DDIR_SYNC)
     else if fsync \<and> due (o_fdatasync_blocks opts) then (td, DDIR_DATASYNC)
     else if fsync \<and> due (job_sync_file_range_nr td) then (td, DDIR_SYNC_FILE_RANGE)
     else (let
       (td, ddir) = (if td_rw td then (let
            td = (if job_rwmix_issues td \<le> job_io_issues td (job_rwmix_ddir td)
              then (let d = get_rand_ddir v td; td = (if d \<noteq> job_rwmix_ddir td then set_rwmix_bytes td else td) in
                td\<lparr>job_rwmix_ddir := d\<rparr>)
              else td) in (td, job_rwmix_ddir td))
          else (td, if td_read td then DDIR_READ else if td_write td then DDIR_WRITE else if td_trim td then DDIR_TRIM else DDIR_INVAL));
       td = td\<lparr>job_rwmix_ddir := (case rate of None \<Rightarrow> ddir | Some rate \<Rightarrow> rate ddir)\<rparr>
     in (td, job_rwmix_ddir td)))"

text \<open>With \<^verbatim>\<open>zonemode=zbd\<close> a mixed job writes before it reads.\<close>

definition zbd_adjust_ddir :: "job \<Rightarrow> io_file \<Rightarrow> fio_ddir \<Rightarrow> fio_ddir" where
  "zbd_adjust_ddir td f ddir =
     (if ddir \<noteq> DDIR_READ \<or> \<not> td_rw td then ddir
      else if last_start f DDIR_WRITE \<noteq> u64_max \<or> o_read_beyond_wp (job_o td) \<or> o_rwmix (job_o td) DDIR_WRITE = 0 then DDIR_READ
      else DDIR_WRITE)"

text \<open>\<^verbatim>\<open>set_rw_ddir\<close>, without the barrier flag.\<close>

definition set_rw_ddir :: "nat \<Rightarrow> (fio_ddir \<Rightarrow> fio_ddir) option \<Rightarrow> job \<Rightarrow> io_file \<Rightarrow> unit_io \<Rightarrow> job \<times> unit_io" where
  "set_rw_ddir v rate td f u = (let (td, ddir) = get_rw_ddir v rate td;
     ddir = (if o_zone_mode (job_o td) = ZONE_MODE_ZBD then zbd_adjust_ddir td f ddir else ddir);
     ddir = (if td_trimwrite td \<and> \<not> ddir_sync ddir
       then (if last_start f DDIR_WRITE = last_start f DDIR_TRIM then DDIR_TRIM else DDIR_WRITE) else ddir)
     in (td, u\<lparr>u_ddir := ddir\<rparr>))"

section \<open>Filling an I/O unit\<close>

definition setup_strided_zone_mode :: "job \<Rightarrow> io_file \<Rightarrow> unit_io \<Rightarrow> (job \<times> io_file) option" where
  "setup_strided_zone_mode td f u = (let opts = job_o td; ddir = u_ddir u in do {
     c_assert (o_zone_mode opts = ZONE_MODE_STRIDED);
     c_assert (o_zone_size opts \<noteq> 0);
     c_assert (o_zone_range opts \<noteq> 0);
     (td, f) \<leftarrow> (if o_zone_size opts \<le> job_zone_bytes td then do {
         let off = file_offset f + (o_zone_range opts + o_zone_skip opts);
         off \<leftarrow> (if real_file_size f \<le> off then get_start_offset td f else Some off);
         Some (td\<lparr>job_zone_bytes := 0, job_io_skip_bytes := job_io_skip_bytes td + o_zone_skip opts\<rparr>,
           f\<lparr>file_offset := off, last_pos := (last_pos f)(ddir := off)\<rparr>) }
       else Some (td, f));
     let f = (if file_offset f + o_zone_range opts \<le> last_pos f ddir
       then f\<lparr>last_pos := (last_pos f)(ddir := file_offset f)\<rparr> else f);
     Some (td, if job_zone_bytes td mod o_zone_range opts = 0 then fio_file_reset f else f) })"

definition setup_zbd_zone_mode :: "job \<Rightarrow> io_file \<Rightarrow> unit_io \<Rightarrow> (job \<times> io_file) option" where
  "setup_zbd_zone_mode td f u = (let ddir = u_ddir u; zi = file_zbd f in do {
     c_assert (o_zone_mode (job_o td) = ZONE_MODE_ZBD);
     c_assert (o_zone_size (job_o td) \<noteq> 0);
     n \<leftarrow> zbd_offset_to_zone_idx zi (last_pos f ddir);
     z \<leftarrow> rd (zone_info zi) n;
     e \<leftarrow> zbd_zone_end zi n;
     let jump = (zcapacity z < zone_size zi \<and> \<not> td_random td \<and> ddir = DDIR_WRITE \<and> zbd_zone_capacity_end z \<le> last_pos f ddir);
     let td = (if jump then td\<lparr>job_io_skip_bytes := job_io_skip_bytes td + (e - last_pos f ddir)\<rparr> else td);
     let f = (if jump then f\<lparr>last_pos := (last_pos f)(ddir := e)\<rparr> else f);
     if td_random td \<or> o_zone_skip (job_o td) = 0 then Some (td, f)
     else if o_zone_size (job_o td) \<le> job_zone_bytes td \<or> e \<le> last_pos f ddir \<or>
       ddir = DDIR_READ \<and> \<not> o_read_beyond_wp (job_o td) \<and> zwp z \<le> last_pos f ddir
     then do {
       let off = file_offset f + (o_zone_size (job_o td) + o_zone_skip (job_o td));
       off \<leftarrow> (if real_file_size f \<le> off then get_start_offset td f else Some off);
       Some (td\<lparr>job_zone_bytes := 0, job_io_skip_bytes := job_io_skip_bytes td + o_zone_skip (job_o td)\<rparr>,
         f\<lparr>file_offset := off, last_pos := (last_pos f)(ddir := off)\<rparr>) }
     else Some (td, f) })"

text \<open>\<open>mark_random_map\<close> on the file of this theory.\<close>

definition mark_map :: "job \<Rightarrow> io_file \<Rightarrow> unit_io \<Rightarrow> u64 \<Rightarrow> u64 \<Rightarrow> (io_file \<times> u64) option" where
  "mark_map td f u offset buflen = do {
     (m, buflen) \<leftarrow> mark_random_map (o_min_bs (job_o td) (u_ddir u)) (u_busy_ok u) (fio_file.truncate f) offset buflen;
     Some (f\<lparr>io_axmap := io_axmap m\<rparr>, buflen) }"

text \<open>What \<^verbatim>\<open>get_io_u\<close> and \<^verbatim>\<open>fill_multi_range_io_u\<close> record of an I/O.\<close>

definition record_pos :: "io_file \<Rightarrow> unit_io \<Rightarrow> io_file" where
  "record_pos f u = f\<lparr>last_start := (last_start f)(u_ddir u := u_offset u),
     last_pos := (last_pos f)(u_ddir u := u_offset u + u_buflen u)\<rparr>"

text \<open>The \<^verbatim>\<open>while\<close> loop of \<^verbatim>\<open>fill_multi_range_io_u\<close>, with the number of ranges left and the sum of their lengths.\<close>

fun multi_range_loop ::
  "(u64 \<Rightarrow> u64 \<Rightarrow> u64) \<Rightarrow> u64 \<Rightarrow> (nat \<Rightarrow> draws) \<Rightarrow> nat \<Rightarrow> job \<Rightarrow> io_file \<Rightarrow> unit_io \<Rightarrow> u64 \<Rightarrow>
     (job \<times> io_file \<times> unit_io \<times> u64) option" where
  "multi_range_loop scale frand_max drs 0 td f u buflen = Some (td, f, u, buflen)"
| "multi_range_loop scale frand_max drs (Suc n) td f u buflen = do {
     (td, f, u, is_random, ret) \<leftarrow> get_next_offset (drs n) td f u;
     if ret \<noteq> 0 then Some (td, f, u, buflen)
     else do {
       len \<leftarrow> get_next_buflen scale frand_max (dr_bs (drs n)) td f u is_random;
       let u = u\<lparr>u_buflen := len\<rparr>;
       if len = 0 \<or> real_file_size f < u_offset u + u_buflen u then Some (td, f, u, buflen)
       else do {
         let u = u\<lparr>u_ranges := u_ranges u @ [(u_offset u, u_buflen u)]\<rparr>;
         let f = record_pos f u;
         (f, _) \<leftarrow> (if td_random td \<and> file_randommap td f then mark_map td f u (u_offset u) (u_buflen u)
           else Some (f, u_buflen u));
         multi_range_loop scale frand_max drs n td f u (buflen + len) } } }"

definition fill_multi_range_io_u ::
  "(u64 \<Rightarrow> u64 \<Rightarrow> u64) \<Rightarrow> u64 \<Rightarrow> (nat \<Rightarrow> draws) \<Rightarrow> job \<Rightarrow> io_file \<Rightarrow> unit_io \<Rightarrow> (job \<times> io_file \<times> unit_io \<times> nat) option" where
  "fill_multi_range_io_u scale frand_max drs td f u = do {
     (td, f, u, buflen) \<leftarrow> multi_range_loop scale frand_max drs (o_num_range (job_o td)) td f (u\<lparr>u_ranges := []\<rparr>) 0;
     Some (if buflen \<noteq> 0 then (td, f, u\<lparr>u_buflen := buflen\<rparr>, 0) else (td, f, u, 1)) }"

text \<open>The \<^verbatim>\<open>else\<close> branch of \<^verbatim>\<open>fill_io_u\<close>: one offset and one block size.\<close>

definition fill_one_range ::
  "(u64 \<Rightarrow> u64 \<Rightarrow> u64) \<Rightarrow> u64 \<Rightarrow> draws \<Rightarrow> job \<Rightarrow> io_file \<Rightarrow> unit_io \<Rightarrow> (job \<times> io_file \<times> unit_io \<times> nat) option" where
  "fill_one_range scale frand_max dr td f u = do {
     (td, f, u, is_random, ret) \<leftarrow> get_next_offset dr td f u;
     if ret \<noteq> 0 then Some (td, f, u, 1)
     else do {
       buflen \<leftarrow> get_next_buflen scale frand_max (dr_bs dr) td f u is_random;
       Some (td, f, u\<lparr>u_buflen := buflen\<rparr>, if buflen = 0 then 1 else 0) } }"

text \<open>
  \<^verbatim>\<open>fill_io_u\<close>, without data placement. \<open>v\<close> is the number drawn for the read/write mix; \<open>adjust\<close> is \<^verbatim>\<open>zbd_adjust_block\<close>, with the flag for \<^verbatim>\<open>io_u_eof\<close>; the last
  component is the return value.
\<close>

type_synonym adjust_fn = "job \<Rightarrow> io_file \<Rightarrow> unit_io \<Rightarrow> (job \<times> io_file \<times> unit_io \<times> bool) option"

definition fill_io_u ::
  "adjust_fn \<Rightarrow> (u64 \<Rightarrow> u64 \<Rightarrow> u64) \<Rightarrow> u64 \<Rightarrow> (nat \<Rightarrow> draws) \<Rightarrow> nat \<Rightarrow> (fio_ddir \<Rightarrow> fio_ddir) option \<Rightarrow>
     job \<Rightarrow> io_file \<Rightarrow> unit_io \<Rightarrow> (job \<times> io_file \<times> unit_io \<times> nat) option" where
  "fill_io_u adjust scale frand_max drs v rate td f u = (let
     out = (\<lambda>td f u. Some (td\<lparr>job_zone_bytes := job_zone_bytes td + u_buflen u\<rparr>, f, u\<lparr>u_verify_offset := u_offset u\<rparr>, 0)) in
     if job_noio td then out td f u
     else (let (td, u) = set_rw_ddir v rate td f u in
       if u_ddir u = DDIR_INVAL \<or> u_ddir u = DDIR_TIMEOUT then Some (td, f, u, 1)
       else if \<not> ddir_rw (u_ddir u) then out td f u
       else do {
         (td, f) \<leftarrow> (if o_zone_mode (job_o td) = ZONE_MODE_STRIDED then setup_strided_zone_mode td f u
           else if o_zone_mode (job_o td) = ZONE_MODE_ZBD then setup_zbd_zone_mode td f u
           else Some (td, f));
         (td, f, u, ret) \<leftarrow> (if multi_range_trim td u then fill_multi_range_io_u scale frand_max drs td f u
           else fill_one_range scale frand_max (drs 0) td f u);
         if ret \<noteq> 0 then Some (td, f, u, 1)
         else do {
           let offset = u_offset u;
           (td, f, u, eof) \<leftarrow> (if o_zone_mode (job_o td) = ZONE_MODE_ZBD then adjust td f u else Some (td, f, u, False));
           if eof \<or> real_file_size f < u_offset u + u_buflen u then Some (td, f, u, 1)
           else do {
             (f, buflen) \<leftarrow> (if \<not> multi_range_trim td u \<and> td_random td \<and> file_randommap td f
               then mark_map td f u offset (u_buflen u) else Some (f, u_buflen u));
             out td f (u\<lparr>u_buflen := buflen\<rparr>) } } }))"

section \<open>Sequential jobs\<close>

text \<open>
  A plain sequential job: its engine does I/O, it only reads or only writes, in one block size, without zones, holes, syncs or rates, and it is not
  restarted at the end of the file.
\<close>

definition plain_seq :: "u64 \<Rightarrow> job \<Rightarrow> bool" where
  "plain_seq bs td \<longleftrightarrow> (let opts = job_o td in \<not> job_noio td \<and>
     (td_ddir opts = TD_DDIR_READ \<or> td_ddir opts = TD_DDIR_WRITE) \<and> o_ddir_seq_nr opts = 1 \<and> job_ddir_seq_nr td = 1 \<and>
     o_ddir_seq_add opts = 0 \<and> \<not> o_time_based opts \<and> \<not> o_bs_is_seq_rand opts \<and> o_zone_mode opts = ZONE_MODE_NONE \<and>
     o_fsync_blocks opts = 0 \<and> o_fdatasync_blocks opts = 0 \<and> job_sync_file_range_nr td = 0 \<and>
     (\<forall>d. o_min_bs opts d = bs \<and> o_max_bs opts d = bs) \<and> 0 < bs)"

definition seq_ddir :: "job \<Rightarrow> fio_ddir" where
  "seq_ddir td = (if td_ddir (job_o td) = TD_DDIR_READ then DDIR_READ else DDIR_WRITE)"

lemma plain_seq_flags:
  assumes "plain_seq bs td"
  shows "\<not> td_random td" "\<not> td_randtrimwrite td" "\<not> td_trimwrite td" "\<not> td_rw td" "ddir_rw (seq_ddir td)"
    "td_read td \<longleftrightarrow> seq_ddir td = DDIR_READ" "td_write td \<longleftrightarrow> seq_ddir td = DDIR_WRITE"
  using assms
  by (auto simp: plain_seq_def Let_def td_random_def td_randtrimwrite_def td_trimwrite_def td_rw_def td_read_def td_write_def
      ddir_rw_def seq_ddir_def TD_DDIR_READ_def TD_DDIR_WRITE_def TD_DDIR_RAND_def TD_DDIR_TRIM_def)

lemma seq_ddir_choice:
  assumes "plain_seq bs td"
  shows "set_rw_ddir v None td f u = (td\<lparr>job_rwmix_ddir := seq_ddir td\<rparr>, u\<lparr>u_ddir := seq_ddir td\<rparr>)"
proof -
  have "get_rw_ddir v None td = (td\<lparr>job_rwmix_ddir := seq_ddir td\<rparr>, seq_ddir td)"
    using assms plain_seq_flags [OF assms] by (simp add: get_rw_ddir_def plain_seq_def Let_def seq_ddir_def)
  moreover have "\<not> td_trimwrite (td\<lparr>job_rwmix_ddir := seq_ddir td\<rparr>)"
    using plain_seq_flags(3) [OF assms] by (simp add: td_trimwrite_def)
  moreover have "o_zone_mode (job_o td) \<noteq> ZONE_MODE_ZBD" using assms by (simp add: plain_seq_def Let_def)
  ultimately show ?thesis by (simp add: set_rw_ddir_def Let_def)
qed

lemma seq_offset_plain:
  assumes "plain_seq bs td" and "get_start_offset td f = Some start" and "ddir_rw d"
  shows "get_next_seq_offset td f d =
    Some (f, if last_pos f d < real_file_size f then Some (last_pos f d - file_offset f) else None)"
  using assms plain_seq_flags(4) [OF assms(1)] by (simp add: get_next_seq_offset_def plain_seq_def Let_def)

text \<open>The next offset of a sequential job is where the last I/O ended.\<close>

lemma seq_next_offset:
  assumes p: "plain_seq bs td" and st: "get_start_offset td f = Some start" and d: "ddir_rw (u_ddir u)"
    and pos: "last_pos f (u_ddir u) = file_offset f + x" "unat (file_offset f) + unat x < 2 ^ 64"
      "unat (file_offset f) + unat (io_size f) \<le> unat (real_file_size f)"
  shows "\<exists>u' r. get_next_offset dr td f u = Some (td, f, u', False, r) \<and>
    (if x < io_size f then r = 0 \<and> u' = u\<lparr>u_offset := file_offset f + x, u_verify_offset := file_offset f + x\<rparr> else r \<noteq> 0)"
proof -
  note fl = plain_seq_flags [OF p]
  have nr: "o_ddir_seq_nr (job_o td) = 1" "job_ddir_seq_nr td = 1" using p by (simp_all add: plain_seq_def Let_def)
  have off: "unat (file_offset f + x) = unat (file_offset f) + unat x" using pos(2) by (rule unat_add64)
  have seq: "get_next_seq_offset td f (u_ddir u) = Some (f, if file_offset f + x < real_file_size f then Some x else None)"
    using seq_offset_plain [OF p st d] pos(1) by simp
  have td: "seq_count td = (td, True)" using nr by (simp add: seq_count_def)
  show ?thesis
  proof (cases "file_offset f + x < real_file_size f")
    case True
    have x: "x \<noteq> u64_max \<or> \<not> x < io_size f" using unat_u64_max unat_bound64 [of "io_size f"] by (auto simp: word_less_nat_alt)
    have blk: "get_next_block dr td f u (u_ddir u) True =
        Some (f, if x \<noteq> u64_max then u\<lparr>u_offset := x, u_verify_offset := x\<rparr> else u\<lparr>u_verify_offset := u_offset u\<rparr>, False,
          if x \<noteq> u64_max then 0 else 1)"
      using seq True d fl by (simp add: get_next_block_def)
    show ?thesis
    proof (cases "x < io_size f")
      case lt: True
      then have "x \<noteq> u64_max" using x by blast
      then show ?thesis using blk lt True d fl nr td
        by (simp add: get_next_offset_def Let_def not_le add.commute)
    next
      case False
      then show ?thesis using blk d fl nr td
        by (cases "x = u64_max") (auto simp: get_next_offset_def Let_def)
    qed
  next
    case False
    then have "\<not> x < io_size f" using off pos(3) by (simp add: word_less_nat_alt)
    moreover have "get_next_block dr td f u (u_ddir u) True = Some (f, u, False, 1)"
      using seq False d fl by (simp add: get_next_block_def)
    ultimately show ?thesis using d nr td by (auto simp: get_next_offset_def Let_def)
  qed
qed


lemma plain_seq_update [simp]:
  "plain_seq bs (td\<lparr>job_rwmix_ddir := d\<rparr>) = plain_seq bs td" "plain_seq bs (td\<lparr>job_zone_bytes := n\<rparr>) = plain_seq bs td"
  "seq_ddir (td\<lparr>job_rwmix_ddir := d\<rparr>) = seq_ddir td" "seq_ddir (td\<lparr>job_zone_bytes := n\<rparr>) = seq_ddir td"
  unfolding plain_seq_def seq_ddir_def Let_def by simp_all

lemma start_offset_update [simp]:
  "get_start_offset (td\<lparr>job_rwmix_ddir := d\<rparr>) f = get_start_offset td f"
  "get_start_offset (td\<lparr>job_zone_bytes := n\<rparr>) f = get_start_offset td f"
  "get_start_offset td (record_pos f u) = get_start_offset td f"
  by (cases "o_start_offset_align (job_o td)"; simp add: get_start_offset_def record_pos_def Let_def)+

lemma seq_fill:
  assumes p: "plain_seq bs td" and st: "get_start_offset td f = Some start"
    and pos: "last_pos f (seq_ddir td) = file_offset f + x" "unat (file_offset f) + unat x < 2 ^ 64"
      "unat (file_offset f) + unat (io_size f) \<le> unat (real_file_size f)"
    and room: "x < io_size f \<Longrightarrow> unat x + unat bs \<le> unat (io_size f)"
  shows "\<exists>td' u' r. fill_io_u adj sc fm drs v None td f u = Some (td', f, u', r) \<and> plain_seq bs td' \<and> seq_ddir td' = seq_ddir td \<and>
    get_start_offset td' f = Some start \<and>
    (if x < io_size f then r = 0 \<and> u_ddir u' = seq_ddir td \<and> u_offset u' = file_offset f + x \<and> u_buflen u' = bs else r \<noteq> 0)"
proof -
  let ?td = "td\<lparr>job_rwmix_ddir := seq_ddir td\<rparr>" and ?u = "u\<lparr>u_ddir := seq_ddir td\<rparr>"
  have p': "plain_seq bs ?td" and st': "get_start_offset ?td f = Some start" using p st by simp_all
  note fl = plain_seq_flags [OF p']
  have d: "ddir_rw (seq_ddir td)" using plain_seq_flags(5) [OF p] .
  have dd: "seq_ddir td \<noteq> DDIR_INVAL" "seq_ddir td \<noteq> DDIR_TIMEOUT" by (simp_all add: seq_ddir_def)
  have pd: "last_pos f (u_ddir ?u) = file_offset f + x" "ddir_rw (u_ddir ?u)" using pos(1) d by simp_all
  have o: "o_zone_mode (job_o ?td) = ZONE_MODE_NONE" "\<not> o_bs_is_seq_rand (job_o ?td)"
    "\<And>d. o_min_bs (job_o ?td) d = bs" "\<And>d. o_max_bs (job_o ?td) d = bs" "bs \<noteq> 0"
    using p' by (auto simp: plain_seq_def Let_def)
  have io: "\<not> job_noio td" using p by (simp add: plain_seq_def Let_def)
  have nm: "u_ddir w = seq_ddir td \<Longrightarrow> \<not> multi_range_trim ?td w" for w :: unit_io
    by (simp add: multi_range_trim_def seq_ddir_def)
  obtain u' r where n: "get_next_offset (drs 0) ?td f ?u = Some (?td, f, u', False, r)"
    "if x < io_size f then r = 0 \<and> u' = ?u\<lparr>u_offset := file_offset f + x, u_verify_offset := file_offset f + x\<rparr> else r \<noteq> 0"
    using seq_next_offset [OF p' st' pd(2,1) pos(2,3)] by blast
  show ?thesis
  proof (cases "x < io_size f")
    case True
    let ?v = "?u\<lparr>u_offset := file_offset f + x, u_verify_offset := file_offset f + x\<rparr>"
    have bl: "get_next_buflen sc fm (dr_bs (drs 0)) ?td f ?v False = Some bs"
      using fl(2) o d by (simp add: get_next_buflen_def Let_def)
    have xs: "unat x + unat bs \<le> unat (io_size f)" by (rule room [OF True])
    have a: "unat (file_offset f + x) = unat (file_offset f) + unat x" using pos(2) by (rule unat_add64)
    have "unat (file_offset f + x) + unat bs < 2 ^ 64" using xs pos(3) unat_bound64 [of "real_file_size f"] unfolding a by linarith
    then have "unat (file_offset f + x + bs) = unat (file_offset f) + unat x + unat bs" using a by (simp add: unat_add64)
    then have "\<not> real_file_size f < file_offset f + x + bs" using xs pos(3) by (simp add: word_less_nat_alt)
    then show ?thesis
      using n True bl o fl d dd seq_ddir_choice [OF p, of v f u] p st nm io by (simp add: fill_io_u_def fill_one_range_def Let_def)
  next
    case False
    then show ?thesis using n o(1) d dd seq_ddir_choice [OF p, of v f u] p st nm io by (simp add: fill_io_u_def fill_one_range_def Let_def)
  qed
qed

text \<open>A job: one I/O unit after the other is filled, and its position recorded, until \<^verbatim>\<open>fill_io_u\<close> fails.\<close>

fun run_job ::
  "adjust_fn \<Rightarrow> (u64 \<Rightarrow> u64 \<Rightarrow> u64) \<Rightarrow> u64 \<Rightarrow> (nat \<Rightarrow> nat \<Rightarrow> draws) \<Rightarrow> (nat \<Rightarrow> nat) \<Rightarrow> nat \<Rightarrow> job \<Rightarrow> io_file \<Rightarrow> unit_io \<Rightarrow> (u64 \<times> u64) list option" where
  "run_job adj sc fm dr v 0 td f u = Some []"
| "run_job adj sc fm dr v (Suc n) td f u = do {
     (td, f, u, ret) \<leftarrow> fill_io_u adj sc fm (dr n) (v n) None td f u;
     if ret \<noteq> 0 then Some []
     else do {
       ios \<leftarrow> run_job adj sc fm dr v n td (record_pos f u) u;
       Some ((u_offset u, u_buflen u) # ios) } }"

lemma run_seq:
  assumes "plain_seq bs td" and "get_start_offset td f = Some start"
    and "last_pos f (seq_ddir td) = file_offset f + of_nat k * bs" and "k \<le> n"
    and "unat (file_offset f) + unat (io_size f) \<le> unat (real_file_size f)" and "unat (io_size f) = n * unat bs"
  shows "run_job adj sc fm dr v m td f u = Some (map (\<lambda>i. (file_offset f + of_nat i * bs, bs)) [k..<min (k + m) n])"
  using assms
proof (induction m arbitrary: td f u k)
  case (Suc m)
  let ?x = "of_nat k * bs"
  have real: "unat (real_file_size f) < 2 ^ 64" by (rule unat_bound64)
  have kb: "k * unat bs \<le> n * unat bs" using Suc.prems(4) by simp
  have bs: "0 < unat bs" using Suc.prems(1) by (simp add: plain_seq_def Let_def unat_gt_0 word_neq_0_conv)
  have x: "unat ?x = k * unat bs"
  proof -
    have "?x = of_nat (k * unat bs)" by simp
    moreover have "k * unat bs < 2 ^ 64" using kb Suc.prems(5,6) real by linarith
    ultimately show ?thesis by (simp only: unat_of_nat64)
  qed
  have lt: "?x < io_size f \<longleftrightarrow> k < n" using bs by (simp add: word_less_nat_alt x Suc.prems(6))
  have "unat ?x + unat bs \<le> unat (io_size f)" if "?x < io_size f"
  proof -
    have "Suc k * unat bs \<le> n * unat bs" using that lt by (intro mult_le_mono1) simp
    then show ?thesis by (simp add: x Suc.prems(6))
  qed
  moreover have "unat (file_offset f) + unat ?x < 2 ^ 64" unfolding x using kb Suc.prems(5,6) real by linarith
  ultimately obtain td' u' r where fill: "fill_io_u adj sc fm (dr m) (v m) None td f u = Some (td', f, u', r)" "plain_seq bs td'"
    "seq_ddir td' = seq_ddir td" "get_start_offset td' f = Some start"
    "if ?x < io_size f then r = 0 \<and> u_ddir u' = seq_ddir td \<and> u_offset u' = file_offset f + ?x \<and> u_buflen u' = bs else r \<noteq> 0"
    using seq_fill [OF Suc.prems(1-3) _ Suc.prems(5), of adj sc fm "dr m" "v m" u] by blast
  show ?case
  proof (cases "k < n")
    case True
    then have u: "r = 0" "u_ddir u' = seq_ddir td" "u_offset u' = file_offset f + ?x" "u_buflen u' = bs" using fill(5) lt by simp_all
    have f: "file_offset (record_pos f u') = file_offset f" "io_size (record_pos f u') = io_size f"
      "real_file_size (record_pos f u') = real_file_size f" by (simp_all add: record_pos_def)
    have lp: "last_pos (record_pos f u') (seq_ddir td') = file_offset (record_pos f u') + of_nat (Suc k) * bs"
      using u fill(3) by (simp add: record_pos_def algebra_simps)
    have st: "get_start_offset td' (record_pos f u') = Some start" using fill(4) by simp
    have "run_job adj sc fm dr v m td' (record_pos f u') u' =
        Some (map (\<lambda>i. (file_offset (record_pos f u') + of_nat i * bs, bs)) [Suc k..<min (Suc k + m) n])"
      by (rule Suc.IH [OF fill(2) st lp]) (use True Suc.prems(5,6) f in simp_all)
    moreover have "[k..<min (k + Suc m) n] = k # [Suc k..<min (Suc k + m) n]" using True by (simp add: upt_conv_Cons)
    ultimately show ?thesis using fill(1) u f by simp
  next
    case False
    then show ?thesis using fill(1,5) lt by simp
  qed
qed simp

text \<open>
  C3 (liveness): a plain sequential job does I/O to the blocks of its region in order, each exactly once, without a gap, and
  then stops. \<open>m\<close> is the number of times an I/O unit is requested; from the number of blocks on the list stays complete.
\<close>

theorem seq_job_tiles:
  assumes "plain_seq bs td" and "get_start_offset td f = Some start" and "last_pos f (seq_ddir td) = file_offset f"
    and "unat (file_offset f) + unat (io_size f) \<le> unat (real_file_size f)" and "unat (io_size f) = n * unat bs"
  shows "run_job adj sc fm dr v m td f u = Some (map (\<lambda>i. (file_offset f + of_nat i * bs, bs)) [0..<min m n])"
  using run_seq [OF assms(1,2), of 0 n] assms(3-5) by simp


section \<open>I/O stays within the file\<close>

definition same_extent :: "io_file \<Rightarrow> io_file \<Rightarrow> bool" where
  "same_extent f f' \<longleftrightarrow> file_offset f' = file_offset f \<and> io_size f' = io_size f \<and> real_file_size f' = real_file_size f"

lemma same_extent_refl [simp]: "same_extent f f" by (simp add: same_extent_def)

lemma same_extent_trans: "same_extent f g \<Longrightarrow> same_extent g h \<Longrightarrow> same_extent f h" by (simp add: same_extent_def)

lemma same_extent_reset [simp]: "same_extent f (fio_file_reset f)"
  by (simp add: same_extent_def fio_file_reset_def)

lemma same_extent_record [simp]: "same_extent f (record_pos f u)"
  by (simp add: same_extent_def record_pos_def)

lemma same_extent_pos [simp]:
  "same_extent f (g\<lparr>last_pos := p\<rparr>) = same_extent f g" "same_extent f (g\<lparr>last_start := p\<rparr>) = same_extent f g"
  by (simp_all add: same_extent_def)

lemma seq_offset_extent: "post (get_next_seq_offset td f d) (\<lambda>(f', off). same_extent f f')"
proof -
  have tail: "post (do {
       let size = (if io_size g < real_file_size g then io_size g else real_file_size g);
       let g = (if c g then g\<lparr>last_pos := (last_pos g)(d := size)\<rparr> else g);
       Some (g, Some (pos g size)) }) (\<lambda>(f', off). same_extent f f')" if "same_extent f g" for g and pos c :: "io_file \<Rightarrow> _"
    using that by (simp add: Let_def post_def)
  show ?thesis unfolding get_next_seq_offset_def Let_def [of "job_o td"]
    apply (rule post_bind, rule post_assert, rule post_bind, rule post_skip)
    apply (rule post_let [where Q = "same_extent f"], simp)
    apply (rule post_let [where Q = "same_extent f"], simp)
    subgoal for st g h
      using tail [of h] by (simp add: post_def Let_def)
    done
qed

lemma rand_block_extent: "post (get_next_rand_block dr td f d) (\<lambda>(f', b). same_extent f f')"
  unfolding get_next_rand_block_def Let_def by (auto intro!: posts post_skip)

lemma post_rw_seq [posts]:
  "(x = RW_SEQ_SEQ \<Longrightarrow> post m P) \<Longrightarrow> (x = RW_SEQ_IDENT \<Longrightarrow> post n P) \<Longrightarrow> post (case x of RW_SEQ_SEQ \<Rightarrow> m | RW_SEQ_IDENT \<Rightarrow> n) P"
  by (cases x) simp_all

lemma block_extent:
  "post (get_next_block dr td f u d hit) (\<lambda>(f', u', r, ret). same_extent f f' \<and> u_ddir u' = u_ddir u \<and> u_ranges u' = u_ranges u)"
  unfolding get_next_block_def
  by (intro posts post_weaken [OF seq_offset_extent] post_weaken [OF rand_block_extent])
    (auto intro: same_extent_trans split: if_splits)

lemma mark_random_map_len: "post (mark_random_map bs ok f off len) (\<lambda>(f', len'). len' \<le> len)"
  unfolding mark_random_map_def Let_def by (intro posts post_skip) auto

lemma mark_map_extent: "post (mark_map td f u off len) (\<lambda>(f', len'). same_extent f f' \<and> len' \<le> len)"
  unfolding mark_map_def by (intro posts post_weaken [OF mark_random_map_len]) (auto simp: same_extent_def)

lemma seq_count_keeps: "job_o (fst (seq_count td)) = job_o td"
  by (simp add: seq_count_def Let_def)

lemma next_offset_extent:
  "post (get_next_offset dr td f u) (\<lambda>(td', f', u', r, ret).
     same_extent f f' \<and> u_ddir u' = u_ddir u \<and> u_ranges u' = u_ranges u \<and> job_o td' = job_o td \<and>
     (ret = 0 \<longrightarrow> u_offset u' < real_file_size f \<and> (\<exists>x. x < io_size f \<and> u_offset u' = x + file_offset f)))"
  unfolding get_next_offset_def Let_def
  using seq_count_keeps [of td]
  by (intro posts post_weaken [OF block_extent]) (auto simp: same_extent_def not_le)

text \<open>No block is larger than the largest block size.\<close>

lemma buflen_round_max: "post (buflen_round sc fm td f u d r) (\<lambda>len. len \<le> o_max_bs (job_o td) d)"
  unfolding buflen_round_def Let_def by (intro posts post_skip) auto

lemma buflen_loop_max: "post (buflen_loop sc fm rs n td f u d) (\<lambda>len. len \<le> o_max_bs (job_o td) d)"
proof -
  have "len \<le> o_max_bs (job_o td) d" if "buflen_loop sc fm rs n td f u d = Some len" for len
    using that
  proof (rule buflen_loop.raw_induct [where P = "\<lambda>sc fm rs n td f u d len. len \<le> o_max_bs (job_o td) d", rotated])
    fix loop sc fm rs n td f u d len
    assume IH: "\<And>sc fm rs n td f u d len. loop sc fm rs n td f u d = Some len \<Longrightarrow> len \<le> o_max_bs (job_o td) d"
      and step: "buflen_round sc fm td f u d (rs n) \<bind>
        (\<lambda>buflen. io_u_fits td f u buflen \<bind> (\<lambda>fits. if fits then Some buflen else loop sc fm rs (n + 1) td f u d)) = Some len"
    then show "len \<le> o_max_bs (job_o td) d" using buflen_round_max [of sc fm td f u d "rs n"]
      by (auto simp: post_def bind_eq_Some_conv split: if_splits)
  qed
  then show ?thesis by (simp add: post_def)
qed

lemma next_buflen_max:
  assumes "\<And>d. o_max_bs (job_o td) d \<le> B"
  shows "post (get_next_buflen sc fm rs td f u r) (\<lambda>len.
    len \<le> B \<or> td_randtrimwrite td \<and> u_ddir u = DDIR_WRITE \<and> len = last_pos f DDIR_TRIM - last_start f DDIR_TRIM)"
  unfolding get_next_buflen_def Let_def
  by (intro posts post_skip post_weaken [OF buflen_loop_max]) (use assms in \<open>auto intro: order_trans\<close>)

text \<open>The write that follows a trim has its offset, and fails if there was no trim.\<close>

lemma trimwrite_offset:
  assumes "td_randtrimwrite td" and "u_ddir u = DDIR_WRITE"
  shows "post (get_next_offset dr td f u) (\<lambda>(td', f', u', r, ret). ret = 0 \<longrightarrow> f' = f \<and> last_start f DDIR_TRIM \<noteq> u64_max)"
proof -
  have "td_randtrimwrite (fst (seq_count td))" using assms(1) seq_count_keeps [of td] by (simp add: td_randtrimwrite_def)
  then have "post (get_next_block dr (fst (seq_count td)) f u DDIR_WRITE hit) (\<lambda>(f', u', r, ret). ret = 0 \<longrightarrow> f' = f \<and> last_start f DDIR_TRIM \<noteq> u64_max)" for hit
    by (auto simp: get_next_block_def post_def ddir_rw_def)
  then show ?thesis
    unfolding get_next_offset_def Let_def assms(2)
    by (intro posts) (use assms(2) in \<open>auto simp: post_def bind_eq_Some_conv split: if_splits\<close>)
qed

text \<open>
  What is issued lies in the file: it ends within the file, and it does not begin in front of the region (unless the end of the region itself is beyond 64 bits).
\<close>

definition in_file :: "io_file \<Rightarrow> u64 \<times> u64 \<Rightarrow> bool" where
  "in_file f r \<longleftrightarrow> unat (fst r) + unat (snd r) \<le> unat (real_file_size f) \<and>
     (unat (file_offset f) + unat (io_size f) < 2 ^ 64 \<longrightarrow> file_offset f \<le> fst r)"

text \<open>
  No block size, added to the size of the file, exceeds 64 bits; and neither does the length of the last trim of the file, if there was one, which a
  write that follows a random trim takes over.
\<close>

definition room :: "u64 \<Rightarrow> job \<Rightarrow> io_file \<Rightarrow> bool" where
  "room B td f \<longleftrightarrow> (\<forall>d. o_max_bs (job_o td) d \<le> B) \<and> unat B + unat (real_file_size f) < 2 ^ 64"

definition trim_room :: "u64 \<Rightarrow> io_file \<Rightarrow> bool" where
  "trim_room B f \<longleftrightarrow> last_start f DDIR_TRIM = u64_max \<or> last_pos f DDIR_TRIM - last_start f DDIR_TRIM \<le> B"

definition roomy :: "job \<Rightarrow> io_file \<Rightarrow> bool" where
  "roomy td f \<longleftrightarrow> (\<exists>B. room B td f \<and> trim_room B f)"

lemma in_file_I:
  assumes "off < real_file_size f" and "\<exists>x. x < io_size f \<and> off = x + file_offset f"
    and "len \<le> B" and "unat B + unat (real_file_size f) < 2 ^ 64" and "\<not> real_file_size f < off + len" and "len' \<le> len"
  shows "in_file f (off, len')"
proof -
  have "unat off + unat len < 2 ^ 64" using assms(1,3,4) by (simp add: word_less_nat_alt word_le_nat_alt)
  then have "unat (off + len) = unat off + unat len" by (rule unat_add64)
  then have upper: "unat off + unat len' \<le> unat (real_file_size f)" using assms(5,6) by (simp add: word_le_nat_alt not_less)
  have "file_offset f \<le> off" if "unat (file_offset f) + unat (io_size f) < 2 ^ 64"
  proof -
    obtain x where x: "x < io_size f" "off = x + file_offset f" using assms(2) by blast
    then have "unat x + unat (file_offset f) < 2 ^ 64" using that by (simp add: word_less_nat_alt)
    then show ?thesis unfolding x(2) word_le_nat_alt by (simp add: unat_add64)
  qed
  then show ?thesis using upper by (simp add: in_file_def)
qed

lemma same_extent_cong:
  assumes "same_extent f f'" and "job_o td' = job_o td"
  shows "room B td' f' = room B td f" "td_randtrimwrite td' = td_randtrimwrite td" "in_file f' = in_file f"
    "same_extent g f' = same_extent g f" "td_random td' = td_random td"
  using assms by (auto simp: room_def td_randtrimwrite_def in_file_def same_extent_def td_random_def fun_eq_iff)

text \<open>An offset and a block size that passes the check of the file size.\<close>

lemma offset_len_in_file:
  assumes ok: "room B td f" "same_extent f f'" "job_o td' = job_o td"
    and off: "u_offset u' < real_file_size f" "\<exists>x. x < io_size f \<and> u_offset u' = x + file_offset f"
    and tw: "td_randtrimwrite td \<Longrightarrow> u_ddir u' = DDIR_WRITE \<Longrightarrow> last_pos f' DDIR_TRIM - last_start f' DDIR_TRIM \<le> B"
  shows "post (get_next_buflen sc fm rs td' f' u' r) (\<lambda>len. \<not> real_file_size f' < u_offset u' + len \<longrightarrow>
    (\<forall>len' \<le> len. in_file f (u_offset u', len')))"
proof -
  have B: "o_max_bs (job_o td') d \<le> B" "unat B + unat (real_file_size f) < 2 ^ 64" for d
    using ok(1,3) by (simp_all add: room_def)
  have "post (get_next_buflen sc fm rs td' f' u' r) (\<lambda>len. len \<le> B)"
    by (rule post_weaken [OF next_buflen_max [OF B(1)]]) (use tw same_extent_cong(2) [OF ok(2,3)] in auto)
  then show ?thesis
  proof (rule post_weaken, intro impI allI)
    fix len len' assume "len \<le> B" "\<not> real_file_size f' < u_offset u' + len" "len' \<le> len"
    then show "in_file f (u_offset u', len')"
      using in_file_I [OF off _ B(2)] ok(2) by (simp add: same_extent_def)
  qed
qed

lemma multi_range_in_file:
  assumes "room B td f" and "u_ddir u = DDIR_TRIM" and "\<forall>r \<in> set (u_ranges u). in_file f r"
  shows "post (multi_range_loop sc fm drs n td f u b) (\<lambda>(td', f', u', b').
    same_extent f f' \<and> job_o td' = job_o td \<and> u_ddir u' = u_ddir u \<and> (\<forall>r \<in> set (u_ranges u'). in_file f r))"
    (is "post _ (?Q td f u)")
  using assms
proof (induction n arbitrary: td f u b)
  case (Suc n)
  have rec: "post (multi_range_loop sc fm drs n td' f' u' b) (?Q td f u)"
    if "same_extent f f'" "job_o td' = job_o td" "u_ddir u' = u_ddir u"
      "\<forall>r \<in> set (u_ranges u'). in_file f r" for td' f' u' b
  proof -
    have "post (multi_range_loop sc fm drs n td' f' u' b) (?Q td' f' u')"
      using Suc.IH [of td' f' u' b] Suc.prems(1,2) that same_extent_cong [OF that(1,2)] by simp
    then show ?thesis
      by (rule post_weaken) (use that same_extent_cong(3) [OF that(1,2)] in \<open>auto intro: same_extent_trans\<close>)
  qed
  show ?case
    apply (simp only: multi_range_loop.simps Let_def)
    apply (intro posts post_weaken [OF next_offset_extent])
    subgoal by (use Suc.prems in auto)
    subgoal for x td' y f' z u' w is_random ret
      apply (rule post_weaken [OF offset_len_in_file [OF Suc.prems(1), of f' td' u']])
      apply (simp, simp, simp, simp)
      subgoal using Suc.prems(2) by simp
      apply (intro posts post_weaken [OF mark_map_extent] rec)
      using Suc.prems
      by (auto simp: same_extent_def record_pos_def)
    done
qed (simp add: post_def)

lemma strided_keeps:
  "post (setup_strided_zone_mode td f u) (\<lambda>(td', f'). job_o td' = job_o td \<and> real_file_size f' = real_file_size f \<and>
     (u_ddir u = DDIR_WRITE \<longrightarrow> trim_room B f \<longrightarrow> trim_room B f'))"
  unfolding setup_strided_zone_mode_def Let_def
  by (intro posts post_skip) (auto simp: fio_file_reset_def trim_room_def ddir_rw_def)

lemma rw_ddir_keeps:
  "job_o (fst (set_rw_ddir v rate td f u)) = job_o td"
proof -
  have "job_o (fst (get_rw_ddir v rate td)) = job_o td"
    by (simp add: get_rw_ddir_def set_rwmix_bytes_def Let_def split_beta)
  then show ?thesis by (simp add: set_rw_ddir_def Let_def split_beta)
qed

lemma one_range_in_file:
  assumes "room B td f" and "u_ddir u = DDIR_WRITE \<Longrightarrow> trim_room B f"
  shows "post (fill_one_range sc fm dr td f u) (\<lambda>(td', f', u', ret). same_extent f f' \<and> job_o td' = job_o td \<and> u_ddir u' = u_ddir u \<and>
    (ret = 0 \<longrightarrow> \<not> real_file_size f' < u_offset u' + u_buflen u' \<longrightarrow>
      (\<forall>len' \<le> u_buflen u'. in_file f (u_offset u', len'))))"
proof -
  have "post (get_next_offset dr td f u) (\<lambda>(td', f', u', r, ret). ret = 0 \<longrightarrow> td_randtrimwrite td \<longrightarrow> u_ddir u = DDIR_WRITE \<longrightarrow>
      last_pos f' DDIR_TRIM - last_start f' DDIR_TRIM \<le> B)"
  proof (cases "td_randtrimwrite td \<and> u_ddir u = DDIR_WRITE")
    case True
    then show ?thesis
      by (intro post_weaken [OF trimwrite_offset]) (use assms(2) in \<open>auto simp: trim_room_def\<close>)
  qed (auto simp: post_def)
  then have next_offset: "post (get_next_offset dr td f u) (\<lambda>(td', f', u', r, ret).
     same_extent f f' \<and> u_ddir u' = u_ddir u \<and> job_o td' = job_o td \<and>
     (ret = 0 \<longrightarrow> u_offset u' < real_file_size f \<and> (\<exists>x. x < io_size f \<and> u_offset u' = x + file_offset f) \<and>
       (td_randtrimwrite td \<longrightarrow> u_ddir u = DDIR_WRITE \<longrightarrow> last_pos f' DDIR_TRIM - last_start f' DDIR_TRIM \<le> B)))"
    by (rule post_weaken [OF post_conj [OF next_offset_extent]]) auto
  show ?thesis unfolding fill_one_range_def
    apply (intro posts post_weaken [OF next_offset])
    subgoal by auto
    subgoal for x td' y f' z u' w is_random ret
      apply (rule post_weaken [OF offset_len_in_file [OF assms(1), of f' td' u']])
      apply (simp, simp, simp, simp, simp)
      by (intro posts) auto
    done
qed

text \<open>What \<^verbatim>\<open>fill_io_u\<close> puts into an I/O unit.\<close>

definition targets :: "job \<Rightarrow> unit_io \<Rightarrow> (u64 \<times> u64) list" where
  "targets td u = (if multi_range_trim td u then u_ranges u else [(u_offset u, u_buflen u)])"

text \<open>The part of \<^verbatim>\<open>fill_io_u\<close> behind the setup of the zones.\<close>

lemma fill_rest_in_file:
  assumes "room B td f" and "u_ddir u = DDIR_WRITE \<Longrightarrow> trim_room B f"
  shows "post (if multi_range_trim td u then fill_multi_range_io_u sc fm drs td f u else fill_one_range sc fm dr td f u)
    (\<lambda>(td', f', u', ret). same_extent f f' \<and> job_o td' = job_o td \<and> u_ddir u' = u_ddir u \<and>
      (ret = 0 \<longrightarrow> \<not> real_file_size f' < u_offset u' + u_buflen u' \<longrightarrow>
        (\<forall>len' \<le> u_buflen u'. \<forall>r \<in> set (targets td (u'\<lparr>u_buflen := len', u_verify_offset := u_offset u'\<rparr>)). in_file f r)))"
proof (cases "multi_range_trim td u")
  case True
  then have d: "u_ddir u = DDIR_TRIM" by (simp add: multi_range_trim_def)
  have "post (fill_multi_range_io_u sc fm drs td f u) (\<lambda>(td', f', u', ret). same_extent f f' \<and> job_o td' = job_o td \<and>
      u_ddir u' = u_ddir u \<and> (\<forall>r \<in> set (u_ranges u'). in_file f r))"
    unfolding fill_multi_range_io_u_def
    by (intro posts post_weaken [OF multi_range_in_file [OF assms(1)]]) (auto simp: d split: if_splits)
  then show ?thesis unfolding if_P [OF True]
    by (rule post_weaken) (use True in \<open>auto simp: targets_def multi_range_trim_def\<close>)
next
  case False
  show ?thesis unfolding if_not_P [OF False]
    by (rule post_weaken [OF one_range_in_file [OF assms]]) (use False in \<open>auto simp: targets_def multi_range_trim_def\<close>)
qed

text \<open>The check of the size and what follows it.\<close>

lemma fill_tail:
  assumes "same_extent f f1"
    and "\<not> real_file_size f1 < u_offset u + u_buflen u \<Longrightarrow>
      \<forall>len \<le> u_buflen u. \<forall>r \<in> set (targets td (u\<lparr>u_buflen := len, u_verify_offset := u_offset u\<rparr>)). in_file f r"
  shows "post (if real_file_size f1 < u_offset u + u_buflen u then Some (td1, f1, u, 1 :: nat)
      else do {
        (f1, len) \<leftarrow> (if c then mark_map td1 f1 u off (u_buflen u) else Some (f1, u_buflen u));
        Some (td1\<lparr>job_zone_bytes := job_zone_bytes td1 + len\<rparr>, f1, u\<lparr>u_buflen := len, u_verify_offset := u_offset u\<rparr>, 0) })
    (\<lambda>(td', f', u', ret). ret = 0 \<longrightarrow> same_extent f f' \<and> (\<forall>r \<in> set (targets td u'). in_file f' r))"
proof (cases "real_file_size f1 < u_offset u + u_buflen u")
  case False
  have mark: "post (if c then mark_map td1 f1 u off (u_buflen u) else Some (f1, u_buflen u)) (\<lambda>(f2, len). same_extent f1 f2 \<and> len \<le> u_buflen u)"
    by (intro posts mark_map_extent) auto
  show ?thesis unfolding if_not_P [OF False]
  proof (rule post_bind, rule post_weaken [OF mark], rule post_prod, rule post_Some, clarify)
    fix f2 len assume e: "same_extent f1 f2" "len \<le> u_buflen u"
    then have "same_extent f f2" using assms(1) same_extent_trans by blast
    moreover have "in_file f2 = in_file f" using same_extent_cong(3) [OF \<open>same_extent f f2\<close> refl] .
    ultimately show "same_extent f f2 \<and> (\<forall>r \<in> set (targets td (u\<lparr>u_buflen := len, u_verify_offset := u_offset u\<rparr>)). in_file f2 r)"
      using assms(2) [OF False] e(2) by simp
  qed
qed (simp add: post_def)

lemma fill_in_file:
  assumes io: "\<not> job_noio td" and zm: "o_zone_mode (job_o td) \<noteq> ZONE_MODE_ZBD" and B: "room B td f" "trim_room B f"
  shows "post (fill_io_u adj sc fm drs v rate td f u) (\<lambda>(td', f', u', ret). ret = 0 \<longrightarrow> ddir_rw (u_ddir u') \<longrightarrow>
    real_file_size f' = real_file_size f \<and> (o_zone_mode (job_o td) \<noteq> ZONE_MODE_STRIDED \<longrightarrow> same_extent f f') \<and>
    (\<forall>r \<in> set (targets td u'). in_file f' r))"
proof -
  obtain td1 u1 where s: "set_rw_ddir v rate td f u = (td1, u1)" by fastforce
  have o: "job_o td1 = job_o td" using rw_ddir_keeps [of v rate td f u] s by simp
  have zoned: "post (if o_zone_mode (job_o td) = ZONE_MODE_STRIDED then setup_strided_zone_mode td1 f u1 else Some (td1, f))
    (\<lambda>(td2, f2). job_o td2 = job_o td \<and> real_file_size f2 = real_file_size f \<and> (o_zone_mode (job_o td) \<noteq> ZONE_MODE_STRIDED \<longrightarrow> f2 = f) \<and>
      (u_ddir u1 = DDIR_WRITE \<longrightarrow> trim_room B f2))"
    by (intro posts post_weaken [OF strided_keeps [where B = B]]) (use B(2) o in auto)
  have t: "targets td2 u2 = targets td u2" if "job_o td2 = job_o td" for td2 u2
    using that by (simp add: multi_range_trim_def targets_def)
  show ?thesis
    unfolding fill_io_u_def Let_def if_not_P [OF io] s prod.case o if_not_P [OF zm]
    apply (rule post_if, rule post_Some, simp)
    apply (rule post_if, rule post_Some, simp)
    apply (rule post_bind, rule post_weaken [OF zoned], rule post_prod)
    subgoal for x td2 f2
      apply (rule post_bind, rule post_weaken [OF fill_rest_in_file [where B = B and td = td2 and f = f2 and u = u1]])
      subgoal using B(1) by (simp add: room_def)
      subgoal by simp
      subgoal for y
        apply (rule post_prod, rule post_prod, rule post_prod, rule post_if, rule post_Some, simp)
        apply (simp add: zm cong: if_cong split del: if_split)
        apply (rule post_weaken [OF fill_tail [unfolded One_nat_def, where f = f2 and td = td]])
        subgoal by simp
        subgoal using t [of td2] by simp
        by (auto simp: same_extent_def)
      done
    done
qed

text \<open>
  C2 (safety): let the engine do I/O, let the job not use a zoned block device, and let no block size and no length of an earlier trim, added to the size of the
  file, exceed 64 bits. Then every I/O that \<^verbatim>\<open>fill_io_u\<close> fills in, and every range of a trim, ends within the file, whatever the generators draw. It does not begin in front of
  the region, which is that of the file before unless zones are strided, if the end of the region fits 64 bits.
\<close>

theorem fill_io_u_in_file:
  assumes "fill_io_u adj sc fm drs v rate td f u = Some (td', f', u', 0)" and "ddir_rw (u_ddir u')"
    and "\<not> job_noio td" and "o_zone_mode (job_o td) \<noteq> ZONE_MODE_ZBD" and "roomy td f"
  shows "real_file_size f' = real_file_size f \<and> (o_zone_mode (job_o td) \<noteq> ZONE_MODE_STRIDED \<longrightarrow> same_extent f f') \<and>
    (\<forall>r \<in> set (targets td u'). in_file f' r)"
proof -
  obtain B where "room B td f" "trim_room B f" using assms(5) unfolding roomy_def by blast
  from fill_in_file [OF assms(3,4) this, of adj sc fm drs v rate u] show ?thesis using assms(1,2) by (simp add: post_def)
qed

section \<open>Samples\<close>

text \<open>A job in direction \<open>ddir\<close> with one block size and \<open>nr\<close> ranges, and a file with nothing done yet.\<close>

definition sample_job :: "u32 \<Rightarrow> u64 \<Rightarrow> u64 \<Rightarrow> nat \<Rightarrow> job" where
  "sample_job ddir bs add nr = \<lparr>job_o = \<lparr>td_ddir = ddir, o_ba = (\<lambda>_. bs), o_min_bs = (\<lambda>_. bs), o_max_bs = (\<lambda>_. bs),
     o_bssplit = (\<lambda>_. []), o_bs_is_seq_rand = False, o_bs_unaligned = False, o_time_based = False, o_nonuniform = False,
     o_nr_files = 1, o_io_size = 0, o_size = 0, o_ddir_seq_nr = 1, o_ddir_seq_add = add, o_rw_seq = RW_SEQ_SEQ,
     o_perc_rand = (\<lambda>_. 100), o_random_distribution = FIO_RAND_DIST_RANDOM, o_norandommap = True,
     o_zone_split_nr = (\<lambda>_. 0), o_zone_mode = ZONE_MODE_NONE, o_zone_range = 0, o_zone_size = 0, o_zone_skip = 0, o_read_beyond_wp = False,
     o_num_range = nr, o_file_append = False, o_offset_increment_percent = 0, o_offset_increment = 0,
     o_start_offset_percent = 0, o_start_offset = 0, o_start_offset_align = None, o_rwmix = (\<lambda>_. 50),
     o_fsync_blocks = 0, o_fdatasync_blocks = 0, o_override_sync = False\<rparr>, job_noio = False,
     job_ddir_seq_nr = 1, job_subjob_number = 0, job_min_bs = bs, job_zone_bytes = 0, job_io_skip_bytes = 0,
     job_zones = (\<lambda>_. []), job_rwmix_ddir = DDIR_READ, job_rwmix_issues = 0, job_io_issues = (\<lambda>_. 0),
     job_last_ddir_issued = DDIR_INVAL, job_sync_file_range_nr = 0\<rparr>"

definition no_device :: zbd_info where
  "no_device = \<lparr>zmodel = ZBD_NONE, max_write_zones = 0, max_active_zones = 0, zone_size = 0, wp_valid_data_bytes = 0,
     write_min_zone = 0, write_max_zone = 0, zone_size_log2 = 0, nr_zones = 0, write_zones = [], zone_info = []\<rparr>"

definition sample_file :: "u64 \<Rightarrow> u64 \<Rightarrow> u64 \<Rightarrow> u64 \<Rightarrow> io_file" where
  "sample_file off len fsize pos = \<lparr>io_axmap = \<lparr>nr_levels = 0, levels = [], nr_bits = 0\<rparr>, file_offset = off, real_file_size = fsize,
     io_size = len, last_pos = (\<lambda>_. pos), last_start = (\<lambda>_. u64_max), file_axmap = False, file_regular = True, file_zbd = no_device\<rparr>"

definition sample_unit :: unit_io where
  "sample_unit = \<lparr>u_ddir = DDIR_INVAL, u_offset = 0, u_verify_offset = 0, u_buflen = 0, u_busy_ok = False, u_ranges = []\<rparr>"

lemmas sample_defs = sample_job_def sample_file_def sample_unit_def td_read_def td_write_def td_trim_def td_random_def td_rw_def
  td_trimwrite_def td_randtrimwrite_def TD_DDIR_READ_def TD_DDIR_WRITE_def TD_DDIR_TRIM_def TD_DDIR_RAND_def ddir_rw_def

theorem seq_job_tiles_witness:
  "\<forall>adj sc fm dr v. run_job adj sc fm dr v 5 (sample_job TD_DDIR_READ 512 0 1) (sample_file 4096 1536 8192 4096) sample_unit =
    Some [(4096, 512), (4608, 512), (5120, 512)]"
proof (intro allI)
  fix adj sc fm dr v
  have "plain_seq 512 (sample_job TD_DDIR_READ 512 0 1)" by (simp add: plain_seq_def sample_job_def Let_def)
  moreover have "get_start_offset (sample_job TD_DDIR_READ 512 0 1) (sample_file 4096 1536 8192 4096) = Some 0"
    by (simp add: get_start_offset_def sample_job_def Let_def)
  ultimately show "run_job adj sc fm dr v 5 (sample_job TD_DDIR_READ 512 0 1) (sample_file 4096 1536 8192 4096) sample_unit =
    Some [(4096, 512), (4608, 512), (5120, 512)]"
    using seq_job_tiles [of 512 "sample_job TD_DDIR_READ 512 0 1" "sample_file 4096 1536 8192 4096" 0 3 adj sc fm dr v 5 sample_unit]
    by (simp add: sample_file_def upt_rec)
qed

theorem fill_io_u_in_file_witness:
  "\<forall>adj dr. \<exists>td' f' u'. fill_io_u adj (\<lambda>_ _. 0) 1 (\<lambda>_. dr) 0 None (sample_job TD_DDIR_WRITE 512 0 1) (sample_file 4096 1536 8192 4608) sample_unit =
      Some (td', f', u', 0) \<and> u_ddir u' = DDIR_WRITE \<and> same_extent (sample_file 4096 1536 8192 4608) f' \<and>
    (\<forall>r \<in> set (targets (sample_job TD_DDIR_WRITE 512 0 1) u'). in_file f' r)"
proof (intro allI)
  fix adj dr
  let ?td = "sample_job TD_DDIR_WRITE 512 0 1" and ?f = "sample_file 4096 1536 8192 4608"
  have p: "plain_seq 512 ?td" by (simp add: plain_seq_def sample_job_def Let_def)
  have "get_start_offset ?td ?f = Some 0" by (simp add: get_start_offset_def sample_job_def Let_def)
  from seq_fill [OF p this, of 512 adj "\<lambda>_ _. 0" 1 "\<lambda>_. dr" 0 sample_unit]
  obtain td' u' where r: "fill_io_u adj (\<lambda>_ _. 0) 1 (\<lambda>_. dr) 0 None ?td ?f sample_unit = Some (td', ?f, u', 0)"
    "u_ddir u' = DDIR_WRITE" by (auto simp: sample_file_def sample_job_def seq_ddir_def TD_DDIR_READ_def TD_DDIR_WRITE_def)
  moreover have "roomy ?td ?f"
    unfolding roomy_def by (rule exI [of _ 512]) (simp add: room_def trim_room_def sample_job_def sample_file_def)
  moreover have "\<not> job_noio ?td" "o_zone_mode (job_o ?td) = ZONE_MODE_NONE" "ddir_rw (u_ddir u')"
    using r(2) by (simp_all add: sample_job_def ddir_rw_def)
  ultimately show "\<exists>td' f' u'. fill_io_u adj (\<lambda>_ _. 0) 1 (\<lambda>_. dr) 0 None ?td ?f sample_unit = Some (td', f', u', 0) \<and> u_ddir u' = DDIR_WRITE \<and>
    same_extent ?f f' \<and> (\<forall>r \<in> set (targets ?td u'). in_file f' r)"
    using fill_io_u_in_file [OF r(1)] by auto
qed

section \<open>Three faults\<close>

text \<open>
  A trim of several ranges at the end of a file is refused although every range fits: the sum of the lengths is
  checked from the start of the last range. A file of two blocks is never trimmed in one I/O of two ranges.
\<close>

theorem multi_range_end_refused:
  "\<exists>td' f' u'. fill_io_u adj sc fm drs v None (sample_job TD_DDIR_TRIM 4096 0 2) (sample_file 0 8192 8192 0) sample_unit = Some (td', f', u', 1) \<and>
    u_ranges u' = [(0, 4096), (4096, 4096)] \<and> u_buflen u' = 8192 \<and> u_offset u' = 4096"
proof -
  let ?td = "sample_job TD_DDIR_TRIM 4096 0 2" and ?f = "sample_file 0 8192 8192 0"
  have d: "set_rw_ddir v None ?td ?f sample_unit = (?td\<lparr>job_rwmix_ddir := DDIR_TRIM\<rparr>, sample_unit\<lparr>u_ddir := DDIR_TRIM\<rparr>)"
    by (simp add: set_rw_ddir_def get_rw_ddir_def should_fsync_def Let_def sample_defs)
  show ?thesis unfolding fill_io_u_def d unfolding numeral_2_eq_2
    by (simp add: fill_multi_range_io_u_def multi_range_trim_def get_next_offset_def seq_count_def get_next_block_def
        get_next_seq_offset_def get_start_offset_def get_next_buflen_def record_pos_def Let_def sample_defs)
qed

text \<open>
  Holed sequential I/O that reaches the end of the file goes on at twice the offset of the region and not, as
  intended, at its beginning: the position is relative to \<^verbatim>\<open>file_offset\<close>, which is added again.
\<close>

theorem holed_wrap_offset:
  assumes "\<not> td_random td" and "\<not> td_randtrimwrite td" and "\<not> td_rw td" and "\<not> o_time_based (job_o td)"
    and "o_ddir_seq_nr (job_o td) = 1" and "job_ddir_seq_nr td = 1" and "get_start_offset td f = Some start"
    and "ddir_rw (u_ddir u)" and "0 < sint (o_ddir_seq_add (job_o td))"
    and "last_pos f (u_ddir u) < real_file_size f" and "last_pos f (u_ddir u) \<noteq> file_offset f"
    and "real_file_size f \<le> last_pos f (u_ddir u) - file_offset f + o_ddir_seq_add (job_o td)"
    and "file_offset f < io_size f" and "file_offset f + file_offset f < real_file_size f"
  shows "\<exists>td' f' u'. get_next_offset dr td f u = Some (td', f', u', False, 0) \<and> u_offset u' = file_offset f + file_offset f"
proof -
  have seq: "get_next_seq_offset td f (u_ddir u) = Some (f, Some (file_offset f))"
    using assms by (auto simp: get_next_seq_offset_def Let_def)
  have c: "seq_count td = (td, True)" using assms(5,6) by (simp add: seq_count_def)
  have "file_offset f \<noteq> u64_max" using assms(13) unat_u64_max unat_bound64 [of "io_size f"] by (auto simp: word_less_nat_alt)
  then have "get_next_block dr td f u (u_ddir u) True =
      Some (f, u\<lparr>u_offset := file_offset f, u_verify_offset := file_offset f\<rparr>, False, 0)"
    using seq assms(1,2,8) by (simp add: get_next_block_def)
  then show ?thesis using assms(2,8,13,14) c by (simp add: get_next_offset_def Let_def not_le)
qed

theorem holed_wrap_offset_witness:
  "\<forall>dr. \<exists>td' f' u'. get_next_offset dr (sample_job TD_DDIR_READ 512 8192 1) (sample_file 1024 8192 16384 9216)
      (sample_unit\<lparr>u_ddir := DDIR_READ\<rparr>) = Some (td', f', u', False, 0) \<and> u_offset u' = 2048"
proof
  fix dr
  let ?td = "sample_job TD_DDIR_READ 512 8192 1" and ?f = "sample_file 1024 8192 16384 9216" and ?u = "sample_unit\<lparr>u_ddir := DDIR_READ\<rparr>"
  have "get_start_offset ?td ?f = Some 0" by (simp add: get_start_offset_def sample_job_def Let_def)
  from holed_wrap_offset [of ?td ?f 0 ?u dr, OF _ _ _ _ _ _ this]
  show "\<exists>td' f' u'. get_next_offset dr ?td ?f ?u = Some (td', f', u', False, 0) \<and> u_offset u' = 2048" by (simp add: sample_defs)
qed

text \<open>
  The write that follows a random trim goes to the start of the trim, an offset in the file, plus \<^verbatim>\<open>file_offset\<close>: unless the region starts at 0, another place than
  the one that was trimmed.
\<close>

theorem trimwrite_offset_twice:
  assumes "td_randtrimwrite td" and "u_ddir u = DDIR_WRITE" and "get_next_offset dr td f u = Some (td', f', u', r, 0)"
  shows "u_offset u' = last_start f DDIR_TRIM + file_offset f"
proof -
  have "td_randtrimwrite (fst (seq_count td))" using assms(1) seq_count_keeps [of td] by (simp add: td_randtrimwrite_def)
  then show ?thesis using assms(2,3)
    by (auto simp: get_next_offset_def get_next_block_def ddir_rw_def Let_def bind_eq_Some_conv split_beta split: if_splits)
qed

end
