(* ===== verification/Semaphore.thy ===== *)
theory Semaphore
  imports Prelude
begin

text \<open>
  \<^verbatim>\<open>fio_sem.c\<close>: counting semaphores on a mutex and a condition variable. Every critical section is one step of a
  system of threads: a call runs until it returns or until \<^verbatim>\<open>pthread_cond_wait\<close> gives the mutex up, and a woken
  thread continues in a later step. \<^verbatim>\<open>pthread_cond_signal\<close> wakes one thread that is asleep; a thread may wake up without
  a signal, and a timed wait may time out. The fields are of type \<^verbatim>\<open>int\<close> in the code; the theorems give the ranges in which they stay.
\<close>

section \<open>The semaphore\<close>

definition FIO_SEM_MAGIC :: int where "FIO_SEM_MAGIC = 0x4d555445"

record fio_sem =
  sem_value :: int
  sem_waiters :: int
  sem_magic :: int

definition fio_sem_init :: "int \<Rightarrow> fio_sem" where \<comment> \<open>\<^verbatim>\<open>__fio_sem_init\<close>\<close>
  "fio_sem_init value = \<lparr>sem_value = value, sem_waiters = 0, sem_magic = FIO_SEM_MAGIC\<rparr>"

definition fio_sem_remove :: "fio_sem \<Rightarrow> fio_sem option" where \<comment> \<open>\<^verbatim>\<open>__fio_sem_remove\<close>\<close>
  "fio_sem_remove sem = (if sem_magic sem = FIO_SEM_MAGIC
     then Some \<lparr>sem_value = 0, sem_waiters = 0, sem_magic = 0\<rparr> else None)"

text \<open>
  One round of the loop of \<^verbatim>\<open>fio_sem_down\<close>: the flag says that the value was taken; in the other case the thread
  is counted as a waiter and goes to sleep.
\<close>

definition sem_down_round :: "fio_sem \<Rightarrow> fio_sem \<times> bool" where
  "sem_down_round sem = (if sem_value sem = 0
     then (sem\<lparr>sem_waiters := sem_waiters sem + 1\<rparr>, False)
     else (sem\<lparr>sem_value := sem_value sem - 1\<rparr>, True))"

definition fio_sem_down :: "fio_sem \<Rightarrow> (fio_sem \<times> bool) option" where
  "fio_sem_down sem = (if sem_magic sem = FIO_SEM_MAGIC then Some (sem_down_round sem) else None)"

text \<open>What follows the wait: one waiter less, then the next round.\<close>

definition sem_down_woken :: "fio_sem \<Rightarrow> fio_sem \<times> bool" where
  "sem_down_woken sem = sem_down_round (sem\<lparr>sem_waiters := sem_waiters sem - 1\<rparr>)"

definition fio_sem_down_trylock :: "fio_sem \<Rightarrow> (fio_sem \<times> bool) option" where
  "fio_sem_down_trylock sem = (if sem_magic sem \<noteq> FIO_SEM_MAGIC then None
     else if sem_value sem \<noteq> 0 then Some (sem\<lparr>sem_value := sem_value sem - 1\<rparr>, False)
     else Some (sem, True))"

text \<open>
  \<^verbatim>\<open>fio_sem_down_timeout\<close> counts itself as a waiter from the start to the end. The second result is \<open>None\<close> if the
  thread goes to sleep, otherwise whether it timed out. \<open>ret\<close> is the timeout the last wait reported, after the
  second look at the clock.
\<close>

definition sem_timed_round :: "fio_sem \<Rightarrow> bool \<Rightarrow> fio_sem \<times> bool option" where
  "sem_timed_round sem ret = (if sem_value sem = 0 \<and> \<not> ret then (sem, None)
     else (let sem = sem\<lparr>sem_waiters := sem_waiters sem - 1\<rparr> in
       if \<not> ret then (sem\<lparr>sem_value := sem_value sem - 1\<rparr>, Some False) else (sem, Some True)))"

definition fio_sem_down_timeout :: "fio_sem \<Rightarrow> (fio_sem \<times> bool option) option" where
  "fio_sem_down_timeout sem = (if sem_magic sem = FIO_SEM_MAGIC
     then Some (sem_timed_round (sem\<lparr>sem_waiters := sem_waiters sem + 1\<rparr>) False) else None)"

definition fio_sem_up :: "fio_sem \<Rightarrow> (fio_sem \<times> bool) option" where
  "fio_sem_up sem = (if sem_magic sem = FIO_SEM_MAGIC
     then Some (sem\<lparr>sem_value := sem_value sem + 1\<rparr>, sem_value sem = 0 \<and> sem_waiters sem \<noteq> 0) else None)"

section \<open>Threads\<close>

datatype thread_at =
    Outside
  | Sleeping        \<comment> \<open>in \<^verbatim>\<open>pthread_cond_wait\<close>\<close>
  | Woken           \<comment> \<open>about to get the mutex back\<close>
  | Timed_sleeping
  | Timed_woken bool \<comment> \<open>whether the wait timed out\<close>
  | Holding         \<comment> \<open>a down has returned\<close>

fun asleep :: "thread_at \<Rightarrow> bool" where
  "asleep Sleeping = True" | "asleep Timed_sleeping = True" | "asleep _ = False"

fun coming :: "thread_at \<Rightarrow> bool" where
  "coming Woken = True" | "coming (Timed_woken ret) = (\<not> ret)" | "coming _ = False"

fun waiting :: "thread_at \<Rightarrow> bool" where
  "waiting Outside = False" | "waiting Holding = False" | "waiting _ = True"

fun wake :: "thread_at \<Rightarrow> thread_at" where
  "wake Sleeping = Woken" | "wake Timed_sleeping = Timed_woken False" | "wake p = p"

definition signalled :: "thread_at list \<Rightarrow> thread_at list \<Rightarrow> bool" where
  "signalled ps ps' \<longleftrightarrow> (if \<exists>p \<in> set ps. asleep p
     then \<exists>j < length ps. asleep (ps ! j) \<and> ps' = ps[j := wake (ps ! j)] else ps' = ps)"

text \<open>
  The steps. With \<open>own\<close> the semaphore is used as a lock: only the thread that took it gives it back. Without, any
  thread may post, and the value a thread took is used up.
\<close>

inductive sem_step :: "bool \<Rightarrow> fio_sem \<times> thread_at list \<Rightarrow> fio_sem \<times> thread_at list \<Rightarrow> bool" for own where
  down: "i < length ps \<Longrightarrow> ps ! i = Outside \<Longrightarrow> fio_sem_down sem = Some (sem', got) \<Longrightarrow>
    sem_step own (sem, ps) (sem', ps[i := if got then Holding else Sleeping])"
| down_woken: "i < length ps \<Longrightarrow> ps ! i = Woken \<Longrightarrow> sem_down_woken sem = (sem', got) \<Longrightarrow>
    sem_step own (sem, ps) (sem', ps[i := if got then Holding else Sleeping])"
| trylock: "i < length ps \<Longrightarrow> ps ! i = Outside \<Longrightarrow> fio_sem_down_trylock sem = Some (sem', failed) \<Longrightarrow>
    sem_step own (sem, ps) (sem', ps[i := if failed then Outside else Holding])"
| timed: "i < length ps \<Longrightarrow> ps ! i = Outside \<Longrightarrow> fio_sem_down_timeout sem = Some (sem', r) \<Longrightarrow>
    sem_step own (sem, ps) (sem', ps[i := case r of None \<Rightarrow> Timed_sleeping | Some t \<Rightarrow> if t then Outside else Holding])"
| timed_woken: "i < length ps \<Longrightarrow> ps ! i = Timed_woken ret \<Longrightarrow> sem_timed_round sem ret = (sem', r) \<Longrightarrow>
    sem_step own (sem, ps) (sem', ps[i := case r of None \<Rightarrow> Timed_sleeping | Some t \<Rightarrow> if t then Outside else Holding])"
| release: "i < length ps \<Longrightarrow> ps ! i = Holding \<Longrightarrow> fio_sem_up sem = Some (sem', w) \<Longrightarrow>
    (if w then signalled (ps[i := Outside]) ps' else ps' = ps[i := Outside]) \<Longrightarrow> sem_step own (sem, ps) (sem', ps')"
| post: "\<not> own \<Longrightarrow> i < length ps \<Longrightarrow> ps ! i = Outside \<Longrightarrow> fio_sem_up sem = Some (sem', w) \<Longrightarrow>
    (if w then signalled ps ps' else ps' = ps) \<Longrightarrow> sem_step own (sem, ps) (sem', ps')"
| consume: "\<not> own \<Longrightarrow> i < length ps \<Longrightarrow> ps ! i = Holding \<Longrightarrow> sem_step own (sem, ps) (sem, ps[i := Outside])"
| spurious: "i < length ps \<Longrightarrow> asleep (ps ! i) \<Longrightarrow> sem_step own (sem, ps) (sem, ps[i := wake (ps ! i)])"
| timeout: "i < length ps \<Longrightarrow> ps ! i = Timed_sleeping \<Longrightarrow> sem_step own (sem, ps) (sem, ps[i := Timed_woken True])"

abbreviation sem_reach :: "bool \<Rightarrow> fio_sem \<times> thread_at list \<Rightarrow> fio_sem \<times> thread_at list \<Rightarrow> bool" where
  "sem_reach own \<equiv> (sem_step own)\<^sup>*\<^sup>*"

section \<open>Counting\<close>

definition count_if :: "('a \<Rightarrow> bool) \<Rightarrow> 'a list \<Rightarrow> int" where
  "count_if P xs = int (length (filter P xs))"

lemma count_if_Cons [simp]: "count_if P [] = 0" "count_if P (x # xs) = (if P x then 1 else 0) + count_if P xs"
  by (simp_all add: count_if_def)

lemma count_if_update:
  "i < length xs \<Longrightarrow> count_if P (xs[i := x]) = count_if P xs - (if P (xs ! i) then 1 else 0) + (if P x then 1 else 0)"
proof (induction xs arbitrary: i)
  case (Cons a xs)
  then show ?case by (cases i) simp_all
qed simp

lemma count_if_0: "count_if P xs = 0 \<longleftrightarrow> (\<forall>x \<in> set xs. \<not> P x)"
  by (simp add: count_if_def filter_empty_conv)

lemma count_if_nonneg [simp]: "0 \<le> count_if P xs"
  by (simp add: count_if_def)

lemma wake_simps [simp]:
  "asleep p \<Longrightarrow> waiting p" "asleep p \<Longrightarrow> waiting (wake p)" "asleep p \<Longrightarrow> coming (wake p)" "asleep p \<Longrightarrow> p \<noteq> Holding"
  "wake p = Holding \<longleftrightarrow> p = Holding" "coming p \<Longrightarrow> waiting p"
  by (cases p; simp)+

text \<open>A signal changes neither the number of waiters nor that of holders.\<close>

lemma signalled_count:
  assumes "signalled ps ps'"
  shows "count_if waiting ps' = count_if waiting ps" and "count_if (\<lambda>p. p = Holding) ps' = count_if (\<lambda>p. p = Holding) ps"
    and "count_if asleep ps \<noteq> 0 \<Longrightarrow> count_if coming ps' \<noteq> 0" and "count_if asleep ps = 0 \<Longrightarrow> ps' = ps"
proof -
  show "count_if waiting ps' = count_if waiting ps" "count_if (\<lambda>p. p = Holding) ps' = count_if (\<lambda>p. p = Holding) ps"
    using assms by (auto simp: signalled_def count_if_update split: if_splits)
  show "ps' = ps" if "count_if asleep ps = 0" using that assms by (auto simp: signalled_def count_if_0 split: if_splits)
  assume "count_if asleep ps \<noteq> 0"
  then obtain j where "j < length ps" "asleep (ps ! j)" "ps' = ps[j := wake (ps ! j)]"
    using assms by (auto simp: signalled_def count_if_0 split: if_splits)
  then have "coming (wake (ps ! j))" "wake (ps ! j) \<in> set ps'" by (auto intro: set_update_memI)
  then show "count_if coming ps' \<noteq> 0" by (auto simp: count_if_0)
qed

lemma signalled_one: "j < length ps \<Longrightarrow> asleep (ps ! j) \<Longrightarrow> signalled ps (ps[j := wake (ps ! j)])"
  unfolding signalled_def using nth_mem by auto

lemma asleep_le_waiting: "count_if asleep ps \<le> count_if waiting ps"
  by (induction ps) simp_all

lemma nth_count: "i < length xs \<Longrightarrow> P (xs ! i) \<Longrightarrow> 1 \<le> count_if P xs"
proof (induction xs arbitrary: i)
  case (Cons x xs)
  then show ?case by (cases i) (auto simp: add_increasing)
qed simp

section \<open>Invariants\<close>

text \<open>The number of waiters is that of the threads between entering and leaving a wait; the value is never negative.\<close>

definition sem_inv :: "fio_sem \<times> thread_at list \<Rightarrow> bool" where
  "sem_inv = (\<lambda>(sem, ps). sem_magic sem = FIO_SEM_MAGIC \<and> sem_waiters sem = count_if waiting ps \<and> 0 \<le> sem_value sem)"

lemmas sem_ops = fio_sem_down_def fio_sem_down_trylock_def fio_sem_down_timeout_def fio_sem_up_def
  sem_down_round_def sem_down_woken_def sem_timed_round_def

lemma sem_inv_step:
  assumes "sem_step own s s'" and "sem_inv s"
  shows "sem_inv s'"
  using assms
  by (induction rule: sem_step.induct)
    (auto simp: sem_inv_def sem_ops count_if_update signalled_count Let_def split: if_splits option.splits)

text \<open>As a lock: one holder or a free value, and a free lock with sleepers has a thread on its way to it.\<close>

definition lock_inv :: "fio_sem \<times> thread_at list \<Rightarrow> bool" where
  "lock_inv = (\<lambda>(sem, ps). sem_value sem + count_if (\<lambda>p. p = Holding) ps = 1 \<and>
     (sem_value sem \<noteq> 0 \<longrightarrow> count_if asleep ps \<noteq> 0 \<longrightarrow> count_if coming ps \<noteq> 0))"

lemma lock_inv_step:
  assumes "sem_step True s s'" and "sem_inv s" and "lock_inv s"
  shows "lock_inv s'"
  using assms
proof (induction rule: sem_step.induct)
  case (release i ps sem sem' w ps')
  let ?ps = "ps[i := Outside]"
  have h: "1 \<le> count_if (\<lambda>p. p = Holding) ps" using release(1,2) by (rule nth_count)
  then have v: "sem_value sem = 0" "sem_value sem' = 1" "count_if (\<lambda>p. p = Holding) ps = 1"
    using release by (auto simp: sem_inv_def lock_inv_def fio_sem_up_def split: if_splits)
  have hold: "count_if (\<lambda>p. p = Holding) ?ps = 0" using release(1,2) v(3) by (simp add: count_if_update)
  show ?case
  proof (cases "count_if asleep ?ps = 0")
    case True
    then have "ps' = ?ps" using release(4) signalled_count(4) by (auto split: if_splits)
    then show ?thesis using v hold True by (simp add: lock_inv_def)
  next
    case False
    have "count_if waiting ?ps = count_if waiting ps" using release(1,2) by (simp add: count_if_update)
    moreover have "0 \<le> count_if asleep ?ps" by simp
    ultimately have "0 < count_if waiting ps" using asleep_le_waiting [of ?ps] False by linarith
    then have w using release v by (auto simp: sem_inv_def fio_sem_up_def split: if_splits)
    then show ?thesis using release(4) v hold signalled_count [of ?ps ps'] False by (simp add: lock_inv_def)
  qed
next
  case (spurious i ps sem)
  then have "wake (ps ! i) \<in> set (ps[i := wake (ps ! i)])" "coming (wake (ps ! i))" by (simp_all add: set_update_memI)
  then have "count_if coming (ps[i := wake (ps ! i)]) \<noteq> 0" unfolding count_if_0 by blast
  then show ?case using spurious by (auto simp: lock_inv_def count_if_update)
next
  case (timeout i ps sem)
  then have "1 \<le> count_if asleep ps" using nth_count [of i ps asleep] by simp
  then show ?case using timeout by (auto simp: lock_inv_def count_if_update)
next
  case (down_woken i ps sem sem' got)
  then have "sem_value sem \<le> 1" using count_if_nonneg [of "\<lambda>p. p = Holding" ps] by (simp add: lock_inv_def del: count_if_nonneg)
  then show ?case using down_woken by (auto simp: sem_inv_def lock_inv_def sem_ops count_if_update split: if_splits)
next
  case (timed_woken i ps ret sem sem' r)
  then have "sem_value sem \<le> 1" using count_if_nonneg [of "\<lambda>p. p = Holding" ps] by (simp add: lock_inv_def del: count_if_nonneg)
  then show ?case using timed_woken by (auto simp: sem_inv_def lock_inv_def sem_ops count_if_update Let_def split: if_splits)
qed (auto simp: sem_inv_def lock_inv_def sem_ops count_if_update Let_def split: if_splits option.splits)


lemma sem_reach_inv: "sem_reach own s s' \<Longrightarrow> sem_inv s \<Longrightarrow> sem_inv s'"
  by (induction rule: rtranclp_induct) (auto intro: sem_inv_step)

lemma lock_reach_inv: "sem_reach True s s' \<Longrightarrow> sem_inv s \<Longrightarrow> lock_inv s \<Longrightarrow> lock_inv s'"
proof (induction rule: rtranclp_induct)
  case (step s' s'')
  then show ?case using sem_reach_inv [OF step(1) step.prems(1)] by (blast intro: lock_inv_step)
qed simp

lemma count_if_replicate: "\<not> P x \<Longrightarrow> count_if P (replicate n x) = 0"
  by (simp add: count_if_0)

text \<open>
  C7 (invariant): a semaphore that starts with value 1 and is used as a lock, by any number of threads with plain,
  timed and failing attempts in any interleaving, with spurious wake-ups and timeouts: at most one thread holds it,
  the value is 1 exactly while nobody does, \<^verbatim>\<open>waiters\<close> is the number of threads that wait, and a free lock with
  sleepers always has a thread that has been woken and will try to take it.
\<close>

theorem sem_lock_safe:
  assumes "sem_reach True (fio_sem_init 1, replicate n Outside) (sem, ps)"
  shows "length (filter (\<lambda>p. p = Holding) ps) \<le> 1 \<and> (sem_value sem = 1 \<longleftrightarrow> Holding \<notin> set ps) \<and>
    sem_waiters sem = int (length (filter waiting ps)) \<and>
    (Holding \<notin> set ps \<longrightarrow> (\<exists>p \<in> set ps. asleep p) \<longrightarrow> (\<exists>p \<in> set ps. coming p))"
proof -
  have i: "sem_inv (fio_sem_init 1, replicate n Outside)" "lock_inv (fio_sem_init 1, replicate n Outside)"
    by (simp_all add: sem_inv_def lock_inv_def fio_sem_init_def count_if_replicate)
  have inv: "sem_waiters sem = count_if waiting ps" "0 \<le> sem_value sem" "sem_value sem + count_if (\<lambda>p. p = Holding) ps = 1"
    "sem_value sem \<noteq> 0 \<longrightarrow> count_if asleep ps \<noteq> 0 \<longrightarrow> count_if coming ps \<noteq> 0"
    using sem_reach_inv [OF assms i(1)] lock_reach_inv [OF assms i] by (simp_all add: sem_inv_def lock_inv_def)
  have h: "count_if (\<lambda>p. p = Holding) ps = 0 \<longleftrightarrow> Holding \<notin> set ps" by (auto simp: count_if_0)
  then have v: "sem_value sem = 1 \<longleftrightarrow> Holding \<notin> set ps" using inv(3) by linarith
  have "(\<exists>p \<in> set ps. asleep p) \<longrightarrow> (\<exists>p \<in> set ps. coming p)" if "Holding \<notin> set ps"
    using inv(4) v that by (auto simp: count_if_0)
  then show ?thesis using inv(1-3) v by (simp add: count_if_def)
qed

text \<open>A contended lock: the second thread sleeps, is woken by the release, and gets the lock.\<close>

theorem sem_lock_safe_witness:
  "\<exists>sem ps. sem_reach True (fio_sem_init 1, replicate 2 Outside) (sem, ps) \<and> ps = [Outside, Holding] \<and>
    length (filter (\<lambda>p. p = Holding) ps) \<le> 1 \<and> sem_waiters sem = 0"
proof -
  let ?s = "\<lambda>v w. \<lparr>sem_value = v, sem_waiters = w, sem_magic = FIO_SEM_MAGIC\<rparr>"
  have "sem_step True (?s 1 0, [Outside, Outside]) (?s 0 0, [Holding, Outside])"
    using sem_step.down [of 0 "[Outside, Outside]" "?s 1 0" "?s 0 0" True] by (simp add: sem_ops)
  moreover have "sem_step True (?s 0 0, [Holding, Outside]) (?s 0 1, [Holding, Sleeping])"
    using sem_step.down [of 1 "[Holding, Outside]" "?s 0 0" "?s 0 1" False] by (simp add: sem_ops)
  moreover have "sem_step True (?s 0 1, [Holding, Sleeping]) (?s 1 1, [Outside, Woken])"
    using sem_step.release [of 0 "[Holding, Sleeping]" "?s 0 1" "?s 1 1" True "[Outside, Woken]"]
    signalled_one [of 1 "[Outside, Sleeping]"] by (simp add: sem_ops)
  moreover have "sem_step True (?s 1 1, [Outside, Woken]) (?s 0 0, [Outside, Holding])"
    using sem_step.down_woken [of 1 "[Outside, Woken]" "?s 1 1" "?s 0 0" True] by (simp add: sem_ops)
  ultimately have "sem_reach True (?s 1 0, [Outside, Outside]) (?s 0 0, [Outside, Holding])"
    by (meson rtranclp.rtrancl_refl rtranclp.rtrancl_into_rtrancl)
  then have r: "sem_reach True (fio_sem_init 1, replicate 2 Outside) (?s 0 0, [Outside, Holding])"
    by (simp add: fio_sem_init_def numeral_2_eq_2)
  show ?thesis using r sem_lock_safe [OF r] by (intro exI [of _ "?s 0 0"] exI [of _ "[Outside, Holding]"]) simp
qed

text \<open>\<open>n\<close> posts in a row that no down comes between: the semaphore afterwards, and whether any of them signalled.\<close>

fun posts_in_a_row :: "nat \<Rightarrow> fio_sem \<Rightarrow> (fio_sem \<times> bool) option" where
  "posts_in_a_row 0 sem = Some (sem, False)"
| "posts_in_a_row (Suc n) sem = do {
     (sem, w) \<leftarrow> fio_sem_up sem;
     (sem, w') \<leftarrow> posts_in_a_row n sem;
     Some (sem, w \<or> w') }"

lemma posts_silent:
  assumes "sem_magic sem = FIO_SEM_MAGIC" and "0 < sem_value sem"
  shows "posts_in_a_row n sem = Some (sem\<lparr>sem_value := sem_value sem + int n\<rparr>, False)"
  using assms by (induction n arbitrary: sem) (simp_all add: fio_sem_up_def algebra_simps)

text \<open>
  C39 (error): used as a counter the semaphore loses a wake-up. \<^verbatim>\<open>fio_sem_up\<close> signals only if the value is zero, so of two
  posts in a row for two sleeping threads only the first wakes one. There is a run of three threads after which one of them has taken the value,
  another is left asleep with a value of 1 and nobody on the way to it, and any number of posts that no down comes between, as long as the
  \<^verbatim>\<open>int\<close> does not overflow, wakes nobody. (A down that brings the value back to zero ends this: the next post then signals.)
\<close>

theorem sem_lost_wakeup:
  "\<exists>sem ps. sem_reach False (fio_sem_init 0, [Outside, Outside, Outside]) (sem, ps) \<and>
    sem_value sem = 1 \<and> ps = [Holding, Sleeping, Outside] \<and>
    (\<forall>n. int n < 2 ^ 31 - 1 \<longrightarrow> posts_in_a_row n sem = Some (sem\<lparr>sem_value := 1 + int n\<rparr>, False))"
proof -
  let ?s = "\<lambda>v w. \<lparr>sem_value = v, sem_waiters = w, sem_magic = FIO_SEM_MAGIC\<rparr>"
  have "sem_step False (?s 0 0, [Outside, Outside, Outside]) (?s 0 1, [Sleeping, Outside, Outside])"
    using sem_step.down [of 0 "[Outside, Outside, Outside]" "?s 0 0" "?s 0 1" False] by (simp add: sem_ops)
  moreover have "sem_step False (?s 0 1, [Sleeping, Outside, Outside]) (?s 0 2, [Sleeping, Sleeping, Outside])"
    using sem_step.down [of 1 "[Sleeping, Outside, Outside]" "?s 0 1" "?s 0 2" False] by (simp add: sem_ops)
  moreover have "sem_step False (?s 0 2, [Sleeping, Sleeping, Outside]) (?s 1 2, [Woken, Sleeping, Outside])"
    using sem_step.post [of False 2 "[Sleeping, Sleeping, Outside]" "?s 0 2" "?s 1 2" True "[Woken, Sleeping, Outside]"]
    signalled_one [of 0 "[Sleeping, Sleeping, Outside]"] by (simp add: sem_ops)
  moreover have "sem_step False (?s 1 2, [Woken, Sleeping, Outside]) (?s 2 2, [Woken, Sleeping, Outside])"
    using sem_step.post [of False 2 "[Woken, Sleeping, Outside]" "?s 1 2" "?s 2 2" False "[Woken, Sleeping, Outside]"]
    by (simp add: sem_ops)
  moreover have "sem_step False (?s 2 2, [Woken, Sleeping, Outside]) (?s 1 1, [Holding, Sleeping, Outside])"
    using sem_step.down_woken [of 0 "[Woken, Sleeping, Outside]" "?s 2 2" "?s 1 1" True] by (simp add: sem_ops)
  ultimately have "sem_reach False (?s 0 0, [Outside, Outside, Outside]) (?s 1 1, [Holding, Sleeping, Outside])"
    by (meson rtranclp.rtrancl_refl rtranclp.rtrancl_into_rtrancl)
  then show ?thesis
    by (intro exI [of _ "?s 1 1"] exI [of _ "[Holding, Sleeping, Outside]"]) (simp add: fio_sem_init_def posts_silent)
qed

theorem sem_lost_wakeup_witness:
  "\<exists>sem ps. sem_reach False (fio_sem_init 0, [Outside, Outside, Outside]) (sem, ps) \<and> ps ! 1 = Sleeping \<and> sem_waiters sem = 1 \<and>
    posts_in_a_row 1000 sem = Some (sem\<lparr>sem_value := 1001\<rparr>, False)"
proof -
  obtain sem ps where r: "sem_reach False (fio_sem_init 0, [Outside, Outside, Outside]) (sem, ps)" "ps = [Holding, Sleeping, Outside]"
    "\<forall>n. int n < 2 ^ 31 - 1 \<longrightarrow> posts_in_a_row n sem = Some (sem\<lparr>sem_value := 1 + int n\<rparr>, False)"
    using sem_lost_wakeup by blast
  have "sem_inv (fio_sem_init 0, [Outside, Outside, Outside])" by (simp add: sem_inv_def fio_sem_init_def)
  then have "sem_waiters sem = 1" using sem_reach_inv [OF r(1)] r(2) by (simp add: sem_inv_def)
  moreover have "posts_in_a_row 1000 sem = Some (sem\<lparr>sem_value := 1001\<rparr>, False)" using spec [OF r(3), of 1000] by simp
  ultimately show ?thesis using r(1,2) by (intro exI [of _ sem] exI [of _ ps]) simp
qed

end
