(* ===== verification/Latency.thy ===== *)
theory Latency
  imports Prelude
begin

text \<open>
  Latency accounting: the percentile histogram of \<^verbatim>\<open>stat.c\<close> with its buckets of growing width and the search for
  percentiles, and the coarse distributions of depth, batch size and latency of \<^verbatim>\<open>io_u.c\<close>. Values are naturals below
  \<open>2 ^ 64\<close>, counters are \<^verbatim>\<open>uint64_t\<close>.
\<close>

section \<open>The percentile histogram\<close>

definition FIO_IO_U_PLAT_BITS :: nat where "FIO_IO_U_PLAT_BITS = 6"
definition FIO_IO_U_PLAT_VAL :: nat where "FIO_IO_U_PLAT_VAL = 64"
definition FIO_IO_U_PLAT_GROUP_NR :: nat where "FIO_IO_U_PLAT_GROUP_NR = 29"
definition FIO_IO_U_PLAT_NR :: nat where "FIO_IO_U_PLAT_NR = FIO_IO_U_PLAT_GROUP_NR * FIO_IO_U_PLAT_VAL"

lemmas plat_consts = FIO_IO_U_PLAT_BITS_def FIO_IO_U_PLAT_VAL_def FIO_IO_U_PLAT_GROUP_NR_def FIO_IO_U_PLAT_NR_def

fun bit_len :: "nat \<Rightarrow> nat" where
  "bit_len n = (if n = 0 then 0 else Suc (bit_len (n div 2)))"

declare bit_len.simps [simp del]

definition builtin_clzll :: "nat \<Rightarrow> nat" where
  "builtin_clzll val = 64 - bit_len val"

definition plat_val_to_idx :: "nat \<Rightarrow> nat" where
  "plat_val_to_idx val = (let msb = (if val = 0 then 0 else 64 - builtin_clzll val - 1) in
     if msb \<le> FIO_IO_U_PLAT_BITS then val
     else (let
       error_bits = msb - FIO_IO_U_PLAT_BITS;
       base = push_bit FIO_IO_U_PLAT_BITS (error_bits + 1);
       offset = (FIO_IO_U_PLAT_VAL - 1) AND drop_bit error_bits val
     in if base + offset < FIO_IO_U_PLAT_NR - 1 then base + offset else FIO_IO_U_PLAT_NR - 1))"

text \<open>
  The mean of the bucket is computed as a \<^verbatim>\<open>double\<close>, \<^verbatim>\<open>base + ((k + 0.5) * (1 << error_bits))\<close>. At least one bit is
  discarded here and all values stay below \<open>2 ^ 34\<close>, so the result is the integer below, without rounding.
\<close>

definition plat_idx_to_val :: "nat \<Rightarrow> nat option" where
  "plat_idx_to_val idx = do {
     c_assert (idx < FIO_IO_U_PLAT_NR);
     if idx < push_bit 1 FIO_IO_U_PLAT_VAL then Some idx
     else (let
       error_bits = drop_bit FIO_IO_U_PLAT_BITS idx - 1;
       base = push_bit (error_bits + FIO_IO_U_PLAT_BITS) 1;
       k = idx mod FIO_IO_U_PLAT_VAL
     in Some (base + (2 * k + 1) * 2 ^ error_bits div 2)) }"

definition add_sync_clat_sample :: "u64 list \<Rightarrow> nat \<Rightarrow> u64 list option" where
  "add_sync_clat_sample plat nsec = (let idx = plat_val_to_idx nsec in do {
     c_assert (idx < FIO_IO_U_PLAT_NR);
     c \<leftarrow> rd plat idx;
     wr plat idx (c + 1) })"

definition add_lat_percentile_sample :: "(nat \<Rightarrow> nat \<Rightarrow> u64 list) \<Rightarrow> nat \<Rightarrow> nat \<Rightarrow> nat \<Rightarrow> (nat \<Rightarrow> nat \<Rightarrow> u64 list) option" where
  "add_lat_percentile_sample plat nsec ddir lat = (let idx = plat_val_to_idx nsec in do {
     c_assert (idx < FIO_IO_U_PLAT_NR);
     c \<leftarrow> rd (plat lat ddir) idx;
     p \<leftarrow> wr (plat lat ddir) idx (c + 1);
     Some (plat(lat := (plat lat)(ddir := p))) })"

section \<open>Percentiles\<close>

text \<open>
  \<^verbatim>\<open>calc_clat_percentiles\<close> after the list has been measured and sorted: \<open>reached j tot\<close> is the floating point
  comparison \<^verbatim>\<open>sum >= plist[j].u.f / 100.0 * nr\<close> and \<open>valid j\<close> the assertion \<^verbatim>\<open>plist[j].u.f <= 100.0\<close>. The state is \<open>j\<close>, the
  values found so far, and the smallest and largest of them.
\<close>

record clat_state =
  cl_j :: nat
  cl_ovals :: "nat list"
  cl_minv :: nat
  cl_maxv :: nat
  cl_is_last :: bool

function clat_while :: "(nat \<Rightarrow> nat \<Rightarrow> bool) \<Rightarrow> (nat \<Rightarrow> bool) \<Rightarrow> nat \<Rightarrow> nat \<Rightarrow> clat_state \<Rightarrow> clat_state option" where
  "clat_while reached valid i tot s =
     (if \<not> reached (cl_j s) tot then Some s
      else if \<not> valid (cl_j s) then None
      else case plat_idx_to_val i of None \<Rightarrow> None | Some v \<Rightarrow>
        if length (cl_ovals s) \<le> cl_j s then None
        else (let s = s\<lparr>cl_ovals := (cl_ovals s)[cl_j s := v], cl_minv := min v (cl_minv s), cl_maxv := max v (cl_maxv s)\<rparr> in
          if cl_j s = length (cl_ovals s) - 1 then Some (s\<lparr>cl_is_last := True\<rparr>)
          else clat_while reached valid i tot (s\<lparr>cl_j := cl_j s + 1\<rparr>)))"
  by pat_completeness auto
termination by (relation "measure (\<lambda>(_, _, _, _, s). length (cl_ovals s) - cl_j s)") auto

declare clat_while.simps [simp del]

fun clat_for :: "(nat \<Rightarrow> nat \<Rightarrow> bool) \<Rightarrow> (nat \<Rightarrow> bool) \<Rightarrow> u64 list \<Rightarrow> nat \<Rightarrow> u64 \<Rightarrow> clat_state \<Rightarrow> clat_state option" where
  "clat_for reached valid [] i tot s = Some s"
| "clat_for reached valid (c # cs) i tot s =
     (if cl_is_last s then Some s
      else do {
        let tot = tot + c;
        s \<leftarrow> clat_while reached valid i (unat tot) s;
        clat_for reached valid cs (i + 1) tot s })"

definition calc_clat_percentiles ::
  "(nat \<Rightarrow> nat \<Rightarrow> bool) \<Rightarrow> (nat \<Rightarrow> bool) \<Rightarrow> u64 list \<Rightarrow> nat \<Rightarrow> clat_state option" where
  "calc_clat_percentiles reached valid io_u_plat len =
     (let s = \<lparr>cl_j = 0, cl_ovals = replicate len 0, cl_minv = 2 ^ 64 - 1, cl_maxv = 0, cl_is_last = False\<rparr> in
      if len = 0 then Some s else clat_for reached valid io_u_plat 0 0 s)"

section \<open>Coarse distributions\<close>

definition FIO_IO_U_MAP_NR :: nat where "FIO_IO_U_MAP_NR = 7"
definition FIO_IO_U_LAT_N_NR :: nat where "FIO_IO_U_LAT_N_NR = 10"
definition FIO_IO_U_LAT_U_NR :: nat where "FIO_IO_U_LAT_U_NR = 10"
definition FIO_IO_U_LAT_M_NR :: nat where "FIO_IO_U_LAT_M_NR = 12"

record thread_stat =
  io_u_map :: "u64 list"
  io_u_submit :: "u64 list"
  io_u_complete :: "u64 list"
  io_u_lat_n :: "u64 list"
  io_u_lat_u :: "u64 list"
  io_u_lat_m :: "u64 list"
  total_submit :: u64
  total_complete :: u64

definition bump :: "u64 list \<Rightarrow> nat \<Rightarrow> u64 \<Rightarrow> u64 list option" where
  "bump m idx d = do { c \<leftarrow> rd m idx; wr m idx (c + d) }"

definition io_u_mark_map :: "u64 list \<Rightarrow> nat \<Rightarrow> u64 list option" where \<comment> \<open>\<^verbatim>\<open>__io_u_mark_map\<close>\<close>
  "io_u_mark_map m nr = bump m
     (if 33 \<le> nr \<and> nr \<le> 64 then 5 else if 17 \<le> nr \<and> nr \<le> 32 then 4 else if 9 \<le> nr \<and> nr \<le> 16 then 3
      else if 5 \<le> nr \<and> nr \<le> 8 then 2 else if 1 \<le> nr \<and> nr \<le> 4 then 1 else if nr = 0 then 0 else 6) 1"

definition io_u_mark_submit :: "thread_stat \<Rightarrow> nat \<Rightarrow> thread_stat option" where
  "io_u_mark_submit ts nr = do {
     m \<leftarrow> io_u_mark_map (io_u_submit ts) nr;
     Some (ts\<lparr>io_u_submit := m, total_submit := total_submit ts + 1\<rparr>) }"

definition io_u_mark_complete :: "thread_stat \<Rightarrow> nat \<Rightarrow> thread_stat option" where
  "io_u_mark_complete ts nr = do {
     m \<leftarrow> io_u_mark_map (io_u_complete ts) nr;
     Some (ts\<lparr>io_u_complete := m, total_complete := total_complete ts + 1\<rparr>) }"

definition io_u_mark_depth :: "thread_stat \<Rightarrow> nat \<Rightarrow> nat \<Rightarrow> thread_stat option" where
  "io_u_mark_depth ts cur_depth nr = do {
     m \<leftarrow> bump (io_u_map ts)
       (if 32 \<le> cur_depth \<and> cur_depth \<le> 63 then 5 else if 16 \<le> cur_depth \<and> cur_depth \<le> 31 then 4
        else if 8 \<le> cur_depth \<and> cur_depth \<le> 15 then 3 else if 4 \<le> cur_depth \<and> cur_depth \<le> 7 then 2
        else if 2 \<le> cur_depth \<and> cur_depth \<le> 3 then 1 else if cur_depth = 1 then 0 else 6) (of_nat nr);
     Some (ts\<lparr>io_u_map := m\<rparr>) }"

text \<open>The ranges the three latency functions have in common.\<close>

definition lat_idx :: "nat \<Rightarrow> nat" where
  "lat_idx v = (if 750 \<le> v \<and> v \<le> 999 then 9 else if 500 \<le> v \<and> v \<le> 749 then 8 else if 250 \<le> v \<and> v \<le> 499 then 7
     else if 100 \<le> v \<and> v \<le> 249 then 6 else if 50 \<le> v \<and> v \<le> 99 then 5 else if 20 \<le> v \<and> v \<le> 49 then 4
     else if 10 \<le> v \<and> v \<le> 19 then 3 else if 4 \<le> v \<and> v \<le> 9 then 2 else if 2 \<le> v \<and> v \<le> 3 then 1 else 0)"

definition io_u_mark_lat_nsec :: "thread_stat \<Rightarrow> nat \<Rightarrow> thread_stat option" where
  "io_u_mark_lat_nsec ts nsec = do {
     c_assert (nsec < 1000);
     let idx = lat_idx nsec;
     c_assert (idx < FIO_IO_U_LAT_N_NR);
     m \<leftarrow> bump (io_u_lat_n ts) idx 1;
     Some (ts\<lparr>io_u_lat_n := m\<rparr>) }"

definition io_u_mark_lat_usec :: "thread_stat \<Rightarrow> nat \<Rightarrow> thread_stat option" where
  "io_u_mark_lat_usec ts usec = do {
     c_assert (usec < 1000 \<and> 1 \<le> usec);
     let idx = lat_idx usec;
     c_assert (idx < FIO_IO_U_LAT_U_NR);
     m \<leftarrow> bump (io_u_lat_u ts) idx 1;
     Some (ts\<lparr>io_u_lat_u := m\<rparr>) }"

definition io_u_mark_lat_msec :: "thread_stat \<Rightarrow> nat \<Rightarrow> thread_stat option" where
  "io_u_mark_lat_msec ts msec = do {
     c_assert (1 \<le> msec);
     let idx = (if 1000 \<le> msec \<and> msec \<le> 1999 then 10 else if 2000 \<le> msec then 11 else lat_idx msec);
     c_assert (idx < FIO_IO_U_LAT_M_NR);
     m \<leftarrow> bump (io_u_lat_m ts) idx 1;
     Some (ts\<lparr>io_u_lat_m := m\<rparr>) }"

definition io_u_mark_latency :: "thread_stat \<Rightarrow> nat \<Rightarrow> thread_stat option" where
  "io_u_mark_latency ts nsec =
     (if nsec < 1000 then io_u_mark_lat_nsec ts nsec
      else if nsec < 1000000 then io_u_mark_lat_usec ts (nsec div 1000)
      else io_u_mark_lat_msec ts (nsec div 1000000))"

section \<open>Precision of the buckets\<close>

lemma bit_len_bounds: "n \<noteq> 0 \<Longrightarrow> 0 < bit_len n \<and> 2 ^ (bit_len n - 1) \<le> n \<and> n < 2 ^ bit_len n"
proof (induction n rule: bit_len.induct)
  case (1 n)
  have b: "bit_len n = Suc (bit_len (n div 2))" using "1.prems" by (simp add: bit_len.simps [of n])
  show ?case
  proof (cases "n div 2 = 0")
    case True
    then have "n = 1" using "1.prems" by linarith
    then show ?thesis using b True by (simp add: bit_len.simps [of 0])
  next
    case False
    have ih: "0 < bit_len (n div 2)" "2 ^ (bit_len (n div 2) - 1) \<le> n div 2" "n div 2 < 2 ^ bit_len (n div 2)"
      using "1.IH" "1.prems" False by auto
    then have "2 ^ bit_len (n div 2) = 2 * (2 :: nat) ^ (bit_len (n div 2) - 1)"
      by (metis Suc_diff_1 power_Suc)
    then have "2 ^ bit_len (n div 2) \<le> n" using ih(2) by linarith
    moreover have "n < 2 * 2 ^ bit_len (n div 2)" using ih(3) by linarith
    ultimately show ?thesis by (simp add: b)
  qed
qed

lemma bit_len_le: "n < 2 ^ k \<Longrightarrow> bit_len n \<le> k"
proof (cases "n = 0")
  case False
  assume "n < 2 ^ k"
  then have "2 ^ (bit_len n - 1) < (2 :: nat) ^ k" using bit_len_bounds [OF False] by linarith
  then show ?thesis using bit_len_bounds [OF False] by simp
qed (simp add: bit_len.simps)

text \<open>A value above 127 as quotient and remainder of its bucket width.\<close>

lemma plat_split:
  assumes "128 \<le> val" and "val < 2 ^ 64"
  obtains e q r where "1 \<le> e" "64 \<le> q" "q < 128" "r < 2 ^ e" "val = q * 2 ^ e + r"
    "plat_val_to_idx val = min (e * 64 + q) 1855"
proof -
  define m where "m = bit_len val - 1"
  have m: "2 ^ m \<le> val" "val < 2 ^ (m + 1)" "bit_len val = m + 1"
    using bit_len_bounds [of val] assms(1) by (auto simp: m_def)
  have m64: "m \<le> 63" using bit_len_le [OF assms(2)] m(3) by simp
  have "(2 :: nat) ^ 7 < 2 ^ (m + 1)" using assms(1) m(2) by simp
  then have m7: "7 \<le> m" using power_strict_increasing_iff [of "2 :: nat" 7 "m + 1"] by simp
  define e where "e = m - 6"
  have p: "(2 :: nat) ^ m = 64 * 2 ^ e" "(2 :: nat) ^ (m + 1) = 128 * 2 ^ e"
  proof -
    have "m = 6 + e" using m7 by (simp add: e_def)
    then show "(2 :: nat) ^ m = 64 * 2 ^ e" "(2 :: nat) ^ (m + 1) = 128 * 2 ^ e" by (simp_all add: power_add)
  qed
  let ?q = "val div 2 ^ e" and ?r = "val mod 2 ^ e"
  have q: "64 \<le> ?q" "?q < 128"
    using m(1,2) unfolding p by (simp_all add: less_mult_imp_div_less less_eq_div_iff_mult_less_eq)
  have msb: "64 - builtin_clzll val - 1 = m" using m(3) m64 by (simp add: builtin_clzll_def)
  have "(63 :: nat) AND drop_bit e val = ?q mod 64"
    using take_bit_eq_mask [of 6 "drop_bit e val"]
    by (simp add: and.commute mask_eq_exp_minus_1 take_bit_eq_mod drop_bit_eq_div)
  also have "\<dots> = ?q - 64" using q by (simp add: le_mod_geq)
  finally have off: "(63 :: nat) AND drop_bit e val = ?q - 64" .
  have base: "push_bit 6 (Suc e) + (?q - 64) = e * 64 + ?q" using q(1) by (simp add: push_bit_eq_mult)
  have "plat_val_to_idx val = (if e * 64 + ?q < 1855 then e * 64 + ?q else 1855)"
    using assms(1) m7 msb unfolding plat_val_to_idx_def plat_consts Let_def msb e_def [symmetric]
    by (simp add: off base e_def [symmetric])
  then have "plat_val_to_idx val = min (e * 64 + ?q) 1855" by simp
  moreover have "1 \<le> e" using m7 by (simp add: e_def)
  moreover have "val = ?q * 2 ^ e + ?r" by (rule div_mult_mod_eq [symmetric])
  moreover have "?r < 2 ^ e" by simp
  ultimately show ?thesis using that q by blast
qed


text \<open>Conversely the value of a bucket above 127.\<close>

lemma plat_idx_val:
  assumes "idx = e * 64 + q" and "1 \<le> e" and "64 \<le> q" and "q < 128" and "e \<le> 27"
  shows "plat_idx_to_val idx = Some (q * 2 ^ e + 2 ^ (e - 1))"
proof -
  define k where "k = q - 64"
  have k: "q = k + 64" "k < 64" using assms(3,4) by (simp_all add: k_def)
  have i: "idx = k + 64 * (e + 1)" using assms(1) k(1) by simp
  have d: "idx div 64 = e + 1" "idx mod 64 = k"
    using k(2) div_mult_self2 [of 64 k "e + 1"] mod_mult_self2 [of k 64 "e + 1"] unfolding i by auto
  have e: "(2 :: nat) ^ e = 2 * 2 ^ (e - 1)" using assms(2) by (metis Suc_diff_1 less_le_trans power_Suc zero_less_one)
  have "(2 * k + 1) * 2 ^ e div 2 = k * 2 ^ e + 2 ^ (e - 1)" unfolding e by (simp add: algebra_simps)
  moreover have "push_bit (e + 6) (1 :: nat) = 64 * 2 ^ e" by (simp add: push_bit_eq_mult power_add)
  moreover have "idx < 1856" "\<not> idx < 128" using assms by simp_all
  ultimately show ?thesis
    using d k(1) by (simp add: plat_idx_to_val_def plat_consts push_bit_eq_mult drop_bit_eq_div Let_def algebra_simps)
qed

lemma plat_small: "val < 128 \<Longrightarrow> plat_val_to_idx val = val"
  using bit_len_le [of val 7] by (auto simp: plat_val_to_idx_def plat_consts builtin_clzll_def Let_def)

lemma plat_idx_small: "idx < 128 \<Longrightarrow> plat_idx_to_val idx = Some idx"
  by (simp add: plat_idx_to_val_def plat_consts push_bit_eq_mult)

lemma plat_group_bound:
  fixes val :: nat
  assumes "val = q * 2 ^ e + r" and "64 \<le> q" and "val < 2 ^ 34"
  shows "e \<le> 27"
proof (rule ccontr)
  assume "\<not> e \<le> 27"
  then have "(2 :: nat) ^ 28 \<le> 2 ^ e" by (intro power_increasing) auto
  then have "64 * 2 ^ 28 \<le> q * 2 ^ e" using assms(2) by (intro mult_le_mono)
  then show False using assms(1,3) by simp
qed

text \<open>Values from \<open>2 ^ 34\<close> on are beyond the last group.\<close>

lemma plat_group_overflow:
  fixes val :: nat
  assumes "val = q * 2 ^ e + r" and "q < 128" and "r < 2 ^ e" and "2 ^ 34 \<le> val"
  shows "28 \<le> e"
proof (rule ccontr)
  assume "\<not> 28 \<le> e"
  then have "(2 :: nat) ^ e \<le> 2 ^ 27" by (intro power_increasing) auto
  then have "Suc q * 2 ^ e \<le> 128 * 2 ^ 27" using assms(2) by (intro mult_le_mono) auto
  then show False using assms(1,3,4) by simp
qed

text \<open>
  C33 (bounds): every 64-bit latency gets a bucket inside the histogram. For latencies below \<open>2 ^ 34\<close> nanoseconds the value
  reported for the bucket differs from the latency by at most one part in 128, the bound the comment in \<^verbatim>\<open>stat.h\<close> gives; all others are counted
  in the last bucket and reported as \<open>17112760320\<close> nanoseconds, about 17 seconds, however long they were.
\<close>

theorem plat_precision:
  assumes "val < 2 ^ 64"
  shows "plat_val_to_idx val < FIO_IO_U_PLAT_NR \<and>
    (if val < 2 ^ 34 then \<exists>v. plat_idx_to_val (plat_val_to_idx val) = Some v \<and> 128 * \<bar>int v - int val\<bar> \<le> int val
     else plat_val_to_idx val = FIO_IO_U_PLAT_NR - 1 \<and> plat_idx_to_val (plat_val_to_idx val) = Some 17112760320)"
proof (cases "val < 128")
  case True
  then show ?thesis by (simp add: plat_small plat_idx_small plat_consts)
next
  case False
  then obtain e q r where v: "1 \<le> e" "64 \<le> q" "q < 128" "r < 2 ^ e" "val = q * 2 ^ e + r"
    "plat_val_to_idx val = min (e * 64 + q) 1855" using plat_split [of val] assms by auto
  have "\<exists>v. plat_idx_to_val (plat_val_to_idx val) = Some v \<and> 128 * \<bar>int v - int val\<bar> \<le> int val" if "val < 2 ^ 34"
  proof -
    have e27: "e \<le> 27" using plat_group_bound [OF v(5,2) that] .
    have h: "(2 :: nat) ^ e = 2 * 2 ^ (e - 1)" using v(1) by (metis Suc_diff_1 less_le_trans power_Suc zero_less_one)
    define w where "w = (2 :: nat) ^ (e - 1)"
    have i: "plat_idx_to_val (plat_val_to_idx val) = Some (q * (2 * w) + w)"
      using plat_idx_val [OF refl v(1-3) e27] v(3,6) e27 by (simp add: h w_def)
    have "int (q * (2 * w) + w) - int val = int w - int r" unfolding v(5) h w_def by simp
    moreover have "int r < 2 * int w" using v(4) unfolding h w_def [symmetric] by simp
    ultimately have "\<bar>int (q * (2 * w) + w) - int val\<bar> \<le> int w" by linarith
    moreover have "64 * (2 * w) \<le> q * (2 * w)" using v(2) by (intro mult_le_mono1)
    moreover have "val = q * (2 * w) + r" unfolding v(5) h w_def ..
    ultimately have "\<bar>int (q * (2 * w) + w) - int val\<bar> \<le> int w" "128 * w \<le> val" by (blast, linarith)
    then have "128 * \<bar>int (q * (2 * w) + w) - int val\<bar> \<le> int (128 * w)" "int (128 * w) \<le> int val"
      by (simp, simp only: of_nat_le_iff)
    then have "128 * \<bar>int (q * (2 * w) + w) - int val\<bar> \<le> int val" by (rule order_trans)
    then show ?thesis using i by blast
  qed
  moreover have "plat_val_to_idx val = 1855 \<and> plat_idx_to_val 1855 = Some 17112760320" if "\<not> val < 2 ^ 34"
  proof -
    have "28 \<le> e" using plat_group_overflow [OF v(5,3,4)] that by simp
    then have "plat_val_to_idx val = 1855" using v(2,6) by simp
    then show ?thesis using plat_idx_val [of 1855 27 127] by simp
  qed
  ultimately show ?thesis using v(6) by (auto simp: plat_consts)
qed

theorem plat_precision_witness:
  "plat_val_to_idx 1000000 = 954 \<and> (\<exists>v. plat_idx_to_val (plat_val_to_idx 1000000) = Some v \<and> 128 * \<bar>int v - 1000000\<bar> \<le> 1000000) \<and>
    plat_val_to_idx (2 ^ 40) = 1855 \<and> plat_idx_to_val (plat_val_to_idx (2 ^ 40)) = Some 17112760320"
  using plat_precision [of 1000000] plat_precision [of "2 ^ 40"]
  by (auto simp: plat_val_to_idx_def [of 1000000] plat_consts builtin_clzll_def bit_len.simps)

text \<open>The group of a value is determined: \<open>2 ^ (e + 6)\<close> is the largest power of two up to it.\<close>

lemma same_group:
  fixes q q' r r' e e' :: nat
  assumes "q * 2 ^ e + r = q' * 2 ^ e' + r'" and "64 \<le> q'" and "q' < 128" and "r' < 2 ^ e'" and "64 \<le> q" and "q < 128" and "r < 2 ^ e"
  shows "e' = e"
proof -
  have b: "64 * 2 ^ n \<le> p * 2 ^ n + s \<and> p * 2 ^ n + s < 128 * 2 ^ n" if "64 \<le> p" "p < 128" "s < 2 ^ n" for p n s :: nat
  proof -
    have "p * 2 ^ n + s < (p + 1) * 2 ^ n" using that(3) by simp
    also have "\<dots> \<le> 128 * 2 ^ n" using that(2) by (intro mult_le_mono1) simp
    finally show ?thesis using that(1) by (simp add: trans_le_add1)
  qed
  have lt: False if "n < m" "64 * 2 ^ m \<le> v" "v < 128 * 2 ^ n" for m n v :: nat
  proof -
    have "(2 :: nat) ^ (n + 1) \<le> 2 ^ m" using that(1) by (intro power_increasing) simp_all
    then show False using that(2,3) by simp
  qed
  show ?thesis
  proof (rule linorder_cases [of e e'])
    assume "e < e'"
    then show ?thesis using lt [of e e' "q * 2 ^ e + r"] b [OF assms(5-7)] b [OF assms(2-4)] assms(1) by simp
  next
    assume "e' < e"
    then show ?thesis using lt [of e' e "q * 2 ^ e + r"] b [OF assms(5-7)] b [OF assms(2-4)] assms(1) by simp
  qed simp
qed

text \<open>The bucket of the value a bucket stands for is that bucket.\<close>

lemma plat_idx_roundtrip:
  assumes "idx < FIO_IO_U_PLAT_NR"
  shows "\<exists>v. plat_idx_to_val idx = Some v \<and> plat_val_to_idx v = idx"
proof (cases "idx < 128")
  case True
  then show ?thesis by (simp add: plat_small plat_idx_small)
next
  case False
  define e q where "e = idx div 64 - 1" and "q = idx mod 64 + 64"
  have d: "64 * (idx div 64) + idx mod 64 = idx" "idx mod 64 < 64" by simp_all
  have e: "1 \<le> e" "e \<le> 27" "idx = e * 64 + q" "64 \<le> q" "q < 128"
    using d False assms unfolding e_def q_def plat_consts by linarith+
  let ?v = "q * 2 ^ e + 2 ^ (e - 1)"
  have h: "(2 :: nat) ^ e = 2 * 2 ^ (e - 1)" using e(1) by (metis Suc_diff_1 less_le_trans power_Suc zero_less_one)
  have p: "(2 :: nat) ^ (e - 1) < 2 ^ e" "(2 :: nat) ^ e \<le> 2 ^ 27"
    using e(1) power_increasing [OF e(2), of "2 :: nat"] by (simp add: h, simp)
  have "q * 2 ^ e \<le> 127 * 2 ^ 27" using p(2) e(5) by (intro mult_le_mono) simp_all
  moreover have "127 * 2 ^ 27 + 2 ^ 27 = (2 :: nat) ^ 34" by simp
  ultimately have v: "?v < 2 ^ 34" using p by linarith
  have "64 * 2 \<le> q * 2 ^ e" using e(4) h by (intro mult_le_mono) simp_all
  then obtain e' q' r' where s: "1 \<le> e'" "64 \<le> q'" "q' < 128" "r' < 2 ^ e'" "?v = q' * 2 ^ e' + r'"
    "plat_val_to_idx ?v = min (e' * 64 + q') 1855" using plat_split [of ?v] v by auto
  have "e' = e"
    using same_group [OF s(5) s(2-4) e(4,5) p(1)] by simp
  have dv: "(n * 2 ^ e + t) div 2 ^ e = n" if "t < 2 ^ e" for n t :: nat using that by simp
  have "q' = ?v div 2 ^ e" unfolding s(5) using dv [of r' q'] s(4) \<open>e' = e\<close> by (simp del: div_mult_self3)
  then have "q' = q" using dv [OF p(1), of q] by (simp del: div_mult_self3)
  then show ?thesis using s(6) e \<open>e' = e\<close> plat_idx_val [OF e(3,1,4,5,2)] by simp
qed


section \<open>The search for percentiles\<close>

text \<open>The inner loop, with \<open>G j\<close> the value entry \<open>j\<close> is to get.\<close>

lemma clat_while_result:
  assumes "cl_j s < n" and "length (cl_ovals s) = n" and "\<not> cl_is_last s" and "\<forall>j < n. valid j"
    and "\<And>j. cl_j s \<le> j \<Longrightarrow> j < n \<Longrightarrow> reached j tot \<Longrightarrow> plat_idx_to_val i = Some (G j)"
    and "\<forall>j < cl_j s. cl_ovals s ! j = G j"
  shows "\<exists>s'. clat_while reached valid i tot s = Some s' \<and> length (cl_ovals s') = n \<and> cl_j s \<le> cl_j s' \<and> cl_j s' < n \<and>
    (if cl_is_last s' then \<forall>j < n. cl_ovals s' ! j = G j
     else (\<forall>j < cl_j s'. cl_ovals s' ! j = G j) \<and> \<not> reached (cl_j s') tot)"
  using assms
proof (induction "n - cl_j s" arbitrary: s rule: less_induct)
  case less
  show ?case
  proof (cases "reached (cl_j s) tot")
    case False
    then show ?thesis using less.prems by (subst clat_while.simps) simp
  next
    case True
    have v: "plat_idx_to_val i = Some (G (cl_j s))" using less.prems True by blast
    let ?s = "s\<lparr>cl_ovals := (cl_ovals s)[cl_j s := G (cl_j s)], cl_minv := min (G (cl_j s)) (cl_minv s), cl_maxv := max (G (cl_j s)) (cl_maxv s)\<rparr>"
    have upd: "\<forall>j < Suc (cl_j s). cl_ovals ?s ! j = G j" using less.prems(1,2,6) by (auto simp: less_Suc_eq)
    show ?thesis
    proof (cases "cl_j s = n - 1")
      case last: True
      then have "clat_while reached valid i tot s = Some (?s\<lparr>cl_is_last := True\<rparr>)"
        using True last less.prems(1,2,4) by (subst clat_while.simps) (simp add: v Let_def)
      moreover have "Suc (cl_j s) = n" using last less.prems(1) by simp
      ultimately show ?thesis using upd less.prems by auto
    next
      case False
      let ?t = "?s\<lparr>cl_j := cl_j s + 1\<rparr>"
      have "\<exists>s'. clat_while reached valid i tot ?t = Some s' \<and> length (cl_ovals s') = n \<and> cl_j ?t \<le> cl_j s' \<and> cl_j s' < n \<and>
          (if cl_is_last s' then \<forall>j < n. cl_ovals s' ! j = G j
           else (\<forall>j < cl_j s'. cl_ovals s' ! j = G j) \<and> \<not> reached (cl_j s') tot)"
        by (rule less.hyps) (use False less.prems upd in auto)
      moreover have "clat_while reached valid i tot s = clat_while reached valid i tot ?t"
        using True False less.prems(1,2,4) by (subst clat_while.simps) (simp add: v Let_def)
      ultimately show ?thesis by auto
    qed
  qed
qed

definition samples :: "u64 list \<Rightarrow> nat \<Rightarrow> nat" where
  "samples plat i = sum_list (map unat (take (Suc i) plat))"

lemma samples_Suc: "i < length plat \<Longrightarrow> samples plat i = sum_list (map unat (take i plat)) + unat (plat ! i)"
  by (simp add: samples_def take_Suc_conv_app_nth)

lemma samples_mono: "i \<le> k \<Longrightarrow> samples plat i \<le> samples plat k"
proof (induction rule: inc_induct)
  case (step n)
  have "samples plat n \<le> samples plat (Suc n)" by (cases "Suc n < length plat") (simp_all add: samples_def take_Suc_conv_app_nth)
  then show ?case using step by simp
qed simp

text \<open>
  The search is described by its results: entry \<open>j\<close> gets the value of the first bucket at which the percentile is reached.
\<close>

definition first_bucket :: "(nat \<Rightarrow> nat \<Rightarrow> bool) \<Rightarrow> u64 list \<Rightarrow> nat \<Rightarrow> nat" where
  "first_bucket reached plat j = (LEAST i. reached j (samples plat i))"

lemma clat_for_result:
  assumes mono: "\<And>j a b. reached j a \<Longrightarrow> a \<le> b \<Longrightarrow> reached j b"
    and asc: "\<And>j k a. j \<le> k \<Longrightarrow> k < n \<Longrightarrow> reached k a \<Longrightarrow> reached j a"
    and valid: "\<forall>j < n. valid j" and nr: "length plat = FIO_IO_U_PLAT_NR"
    and fits: "sum_list (map unat plat) < 2 ^ 64"
    and whole: "reached (n - 1) (sum_list (map unat plat))"
    and G: "\<And>j. G j = the (plat_idx_to_val (first_bucket reached plat j))"
    and st: "cl_j s < n" "length (cl_ovals s) = n" "\<not> cl_is_last s" "\<forall>j < cl_j s. cl_ovals s ! j = G j"
    and i: "i \<le> length plat" "unat tot = sum_list (map unat (take i plat))" "\<forall>k < i. \<not> reached (cl_j s) (samples plat k)"
  shows "\<exists>s'. clat_for reached valid (drop i plat) i tot s = Some s' \<and> cl_is_last s' \<and> length (cl_ovals s') = n \<and>
    (\<forall>j < n. cl_ovals s' ! j = G j)"
  using st i
proof (induction "length plat - i" arbitrary: s i tot)
  case 0
  then have "i = length plat" by simp
  then have "samples plat (i - 1) = sum_list (map unat plat)" "0 < i" using nr by (simp_all add: samples_def plat_consts)
  then have "\<not> reached (cl_j s) (sum_list (map unat plat))" using "0.prems"(7) by (metis diff_less zero_less_one)
  then show ?case using asc [OF _ _ assms(6), of "cl_j s"] "0.prems"(1) by auto
next
  case (Suc m)
  then have il: "i < length plat" by simp
  have d: "drop i plat = plat ! i # drop (Suc i) plat" using il by (rule Cons_nth_drop_Suc [symmetric])
  have "samples plat i \<le> sum_list (map unat plat)"
    using samples_mono [of i "length plat" plat] il by (simp add: samples_def)
  then have tot: "unat (tot + plat ! i) = samples plat i"
    using Suc.prems(6) fits il by (subst unat_add64) (simp_all add: samples_Suc)
  have now: "plat_idx_to_val i = Some (G j)" if "cl_j s \<le> j" "j < n" "reached j (samples plat i)" for j
  proof -
    have "first_bucket reached plat j = i"
      unfolding first_bucket_def
    proof (rule Least_equality)
      fix k
      assume "reached j (samples plat k)"
      then have "reached (cl_j s) (samples plat k)" using asc that(1,2) by blast
      then show "i \<le> k" using Suc.prems(7) by (metis not_le)
    qed (rule that(3))
    then show ?thesis using plat_idx_roundtrip [of i] il nr G [of j] by auto
  qed
  obtain s' where s': "clat_while reached valid i (samples plat i) s = Some s'" "length (cl_ovals s') = n" "cl_j s \<le> cl_j s'"
    "cl_j s' < n" "if cl_is_last s' then \<forall>j < n. cl_ovals s' ! j = G j
      else (\<forall>j < cl_j s'. cl_ovals s' ! j = G j) \<and> \<not> reached (cl_j s') (samples plat i)"
    using clat_while_result [OF Suc.prems(1-3) valid now Suc.prems(4)] by blast
  have step: "clat_for reached valid (drop i plat) i tot s = clat_for reached valid (drop (Suc i) plat) (Suc i) (tot + plat ! i) s'"
    using Suc.prems(3) s'(1) tot by (simp add: d)
  show ?case
  proof (cases "cl_is_last s'")
    case True
    then have "clat_for reached valid (drop (Suc i) plat) (Suc i) (tot + plat ! i) s' = Some s'" by (cases "drop (Suc i) plat") simp_all
    then show ?thesis using True s' step by auto
  next
    case False
    have "\<not> reached (cl_j s') (samples plat k)" if "k < Suc i" for k
      using that s'(5) False mono [of "cl_j s'" "samples plat k" "samples plat i"] samples_mono [of k i plat] by auto
    then show ?thesis unfolding step
      by (intro Suc.hyps(1)) (use Suc s' False il tot in \<open>auto simp: samples_def\<close>)
  qed
qed

text \<open>
  For percentiles in ascending order whose thresholds the samples reach, \<^verbatim>\<open>calc_clat_percentiles\<close> ends without
  leaving its arrays or failing an assertion and gives for every percentile the value of the first bucket at which
  the running count reaches it. The comparison with the threshold is floating point arithmetic; all that is
  used of it is that a larger count still reaches a threshold and that a higher percentile implies a lower one.
\<close>

theorem percentiles_first_bucket:
  assumes "\<And>j a b. reached j a \<Longrightarrow> a \<le> b \<Longrightarrow> reached j b"
    and "\<And>j k a. j \<le> k \<Longrightarrow> k < n \<Longrightarrow> reached k a \<Longrightarrow> reached j a"
    and "\<forall>j < n. valid j" and "length plat = FIO_IO_U_PLAT_NR" and "sum_list (map unat plat) < 2 ^ 64"
    and "reached (n - 1) (sum_list (map unat plat))" and "0 < n"
  shows "\<exists>s. calc_clat_percentiles reached valid plat n = Some s \<and> cl_is_last s \<and> length (cl_ovals s) = n \<and>
    (\<forall>j < n. plat_idx_to_val (LEAST i. reached j (sum_list (map unat (take (Suc i) plat)))) = Some (cl_ovals s ! j))"
proof -
  let ?G = "\<lambda>j. the (plat_idx_to_val (first_bucket reached plat j))"
  let ?s = "\<lparr>cl_j = 0, cl_ovals = replicate n 0, cl_minv = 2 ^ 64 - 1, cl_maxv = 0, cl_is_last = False\<rparr>"
  have "\<exists>s'. clat_for reached valid (drop 0 plat) 0 0 ?s = Some s' \<and> cl_is_last s' \<and> length (cl_ovals s') = n \<and>
      (\<forall>j < n. cl_ovals s' ! j = ?G j)"
    by (rule clat_for_result [where reached = reached and valid = valid and n = n and plat = plat and G = ?G, OF assms(1-6)])
      (use assms(7) in auto)
  moreover have "\<exists>v. plat_idx_to_val (first_bucket reached plat j) = Some v" if "j < n" for j
  proof -
    have "length plat = Suc (length plat - 1)" using assms(4) by (simp add: plat_consts)
    then have "reached j (samples plat (length plat - 1))" using assms(2) [OF _ _ assms(6), of j] that by (simp add: samples_def)
    then have "first_bucket reached plat j \<le> length plat - 1" unfolding first_bucket_def by (rule Least_le)
    then show ?thesis using plat_idx_roundtrip [of "first_bucket reached plat j"] assms(4) by (auto simp: plat_consts)
  qed
  ultimately show ?thesis using assms(7)
    by (auto simp: calc_clat_percentiles_def first_bucket_def samples_def)
qed


theorem percentiles_first_bucket_witness:
  "\<exists>s. calc_clat_percentiles (\<lambda>j a. [5, 9] ! j \<le> a) (\<lambda>_. True)
      (replicate 100 0 @ [6] @ replicate 853 0 @ [4] @ replicate 901 0) 2 = Some s \<and> length (cl_ovals s) = 2"
proof -
  let ?p = "replicate 100 0 @ [6] @ replicate 853 0 @ [4] @ replicate 901 (0 :: u64)"
  have "\<exists>s. calc_clat_percentiles (\<lambda>j a. [5, 9] ! j \<le> a) (\<lambda>_. True) ?p 2 = Some s \<and> cl_is_last s \<and> length (cl_ovals s) = 2 \<and>
      (\<forall>j < 2. plat_idx_to_val (LEAST i. [5, 9] ! j \<le> sum_list (map unat (take (Suc i) ?p))) = Some (cl_ovals s ! j))"
  proof (rule percentiles_first_bucket)
    fix j k a :: nat
    assume "j \<le> k" "k < 2" "[5, 9] ! k \<le> a"
    then show "[5, 9] ! j \<le> a" by (cases k; cases j) auto
  qed (simp_all add: plat_consts sum_list_replicate)
  then show ?thesis by blast
qed

section \<open>Every sample is counted once\<close>

definition wf_stat :: "thread_stat \<Rightarrow> bool" where
  "wf_stat ts \<longleftrightarrow> length (io_u_map ts) = FIO_IO_U_MAP_NR \<and> length (io_u_submit ts) = FIO_IO_U_MAP_NR \<and>
     length (io_u_complete ts) = FIO_IO_U_MAP_NR \<and> length (io_u_lat_n ts) = FIO_IO_U_LAT_N_NR \<and>
     length (io_u_lat_u ts) = FIO_IO_U_LAT_U_NR \<and> length (io_u_lat_m ts) = FIO_IO_U_LAT_M_NR"

lemmas nr_consts = FIO_IO_U_MAP_NR_def FIO_IO_U_LAT_N_NR_def FIO_IO_U_LAT_U_NR_def FIO_IO_U_LAT_M_NR_def

lemma bump_Some: "idx < length m \<Longrightarrow> bump m idx d = Some (m[idx := m ! idx + d])"
  by (simp add: bump_def)

lemma sum_list_bump: "idx < length m \<Longrightarrow> sum_list (m[idx := m ! idx + d]) = sum_list m + (d :: u64)"
proof (induction m arbitrary: idx)
  case (Cons x m)
  then show ?case by (cases idx) simp_all
qed simp

lemma lat_idx_less: "lat_idx v < 10"
  by (simp add: lat_idx_def)

lemma mark_latency_counts:
  assumes "wf_stat ts"
  shows "\<exists>ts'. io_u_mark_latency ts nsec = Some ts' \<and> wf_stat ts' \<and>
    sum_list (io_u_lat_n ts') + sum_list (io_u_lat_u ts') + sum_list (io_u_lat_m ts') =
    sum_list (io_u_lat_n ts) + sum_list (io_u_lat_u ts) + sum_list (io_u_lat_m ts) + 1"
proof -
  consider "nsec < 1000" | "1000 \<le> nsec" "nsec < 1000000" | "1000000 \<le> nsec" by linarith
  then show ?thesis
  proof cases
    case 1
    then show ?thesis using assms lat_idx_less [of nsec]
      by (simp add: io_u_mark_latency_def io_u_mark_lat_nsec_def wf_stat_def nr_consts bump_Some sum_list_bump Let_def)
  next
    case 2
    then have u: "nsec div 1000 < 1000" "1 \<le> nsec div 1000" by linarith+
    then show ?thesis using 2 assms lat_idx_less [of "nsec div 1000"]
      by (simp add: io_u_mark_latency_def io_u_mark_lat_usec_def wf_stat_def nr_consts bump_Some sum_list_bump Let_def)
  next
    case 3
    let ?idx = "if 1000 \<le> nsec div 1000000 \<and> nsec div 1000000 \<le> 1999 then 10 else if 2000 \<le> nsec div 1000000 then 11
      else lat_idx (nsec div 1000000)"
    have u: "1 \<le> nsec div 1000000" "?idx < 12" using 3 lat_idx_less [of "nsec div 1000000"] by (linarith, simp)
    then show ?thesis using 3 assms
      by (simp add: io_u_mark_latency_def io_u_mark_lat_msec_def wf_stat_def nr_consts bump_Some sum_list_bump Let_def split del: if_split)
  qed
qed

end
