(* ===== verification/String_Distance.thy ===== *)
theory String_Distance
  imports Prelude
begin

text \<open>
  \<^verbatim>\<open>string_distance\<close> of \<^verbatim>\<open>parse.c\<close>, with which a mistyped option is matched against the known ones. The two rows of the
  table are arrays of 32-bit words that are read and written with checks. For strings shorter than \<open>2 ^ 31\<close> the result is the least number
  of characters to insert, delete or replace that leads from one string to the other. \<open>None\<close> is an access outside an array, or a loop that does not end.
\<close>

section \<open>The code\<close>

text \<open>The first row: \<^verbatim>\<open>p[i] = p[i - 1] + 1\<close>, \<open>n\<close> times.\<close>

fun init_row :: "u32 list \<Rightarrow> nat \<Rightarrow> nat \<Rightarrow> u32 list option" where
  "init_row p i 0 = Some p"
| "init_row p i (Suc n) = do {
     v \<leftarrow> rd p (i - 1);
     p \<leftarrow> wr p i (v + 1);
     init_row p (Suc i) n }"

text \<open>The loop over \<open>j\<close>: \<open>c\<close> is \<^verbatim>\<open>s1[i - 1]\<close>, the list what is left of \<^verbatim>\<open>s2\<close>.\<close>

fun next_row :: "char \<Rightarrow> string \<Rightarrow> nat \<Rightarrow> u32 list \<Rightarrow> u32 list \<Rightarrow> u32 list option" where
  "next_row c [] j p q = Some q"
| "next_row c (d # s2) j p q = do {
     sub \<leftarrow> rd p (j - 1);
     let sub = (if c \<noteq> d then sub + 1 else sub);
     l \<leftarrow> rd q (j - 1);
     let pmin = min (l + 1) sub;
     u \<leftarrow> rd p j;
     q \<leftarrow> wr q j (min (u + 1) pmin);
     next_row c s2 (Suc j) p q }"

text \<open>The loop over \<open>i\<close>; the rows change places after each round.\<close>

fun rows :: "string \<Rightarrow> string \<Rightarrow> u32 list \<Rightarrow> u32 list \<Rightarrow> (u32 list \<times> u32 list) option" where
  "rows [] s2 p q = Some (p, q)"
| "rows (c # s1) s2 p q = do {
     v \<leftarrow> rd p 0;
     q \<leftarrow> wr q 0 (v + 1);
     q \<leftarrow> next_row c s2 1 p q;
     rows s1 s2 q p }"

text \<open>
  \<open>p0\<close> and \<open>q0\<close> are the contents of fresh memory. The lengths are cut to 32 bits, and so is the size \<^verbatim>\<open>s2_len + 1\<close> of the arrays; with the largest \<^verbatim>\<open>s1_len\<close> the
  condition \<^verbatim>\<open>i <= s1_len\<close> is always true. The result is converted to \<^verbatim>\<open>int\<close>.
\<close>

definition string_distance :: "(nat \<Rightarrow> u32) \<Rightarrow> (nat \<Rightarrow> u32) \<Rightarrow> string \<Rightarrow> string \<Rightarrow> int option" where
  "string_distance p0 q0 s1 s2 = (let
     s1_len = (of_nat (length s1) :: u32);
     s2_len = (of_nat (length s2) :: u32);
     p = map p0 [0..<unat (s2_len + 1)];
     q = map q0 [0..<unat (s2_len + 1)] in do {
       p \<leftarrow> wr p 0 0;
       p \<leftarrow> init_row p 1 (unat s2_len);
       c_assert (s1_len \<noteq> - 1);
       (p, q) \<leftarrow> rows (take (unat s1_len) s1) (take (unat s2_len) s2) p q;
       i \<leftarrow> rd p (unat s2_len);
       Some (sint i) })"

text \<open>The distance is converted to \<^verbatim>\<open>size_t\<close> to be compared.\<close>

definition string_distance_ok :: "string \<Rightarrow> int \<Rightarrow> bool" where
  "string_distance_ok opt distance \<longleftrightarrow> word_of_int distance \<le> ((of_nat (length opt) + 1) div 2 :: u64)"

section \<open>The table\<close>

text \<open>Entry of the full table: distance of the prefixes, by the last characters; strings are reversed to have these first.\<close>

fun lev :: "'a list \<Rightarrow> 'a list \<Rightarrow> nat" where
  "lev [] ys = length ys"
| "lev xs [] = length xs"
| "lev (x # xs) (y # ys) = min (lev xs (y # ys) + 1) (min (lev (x # xs) ys + 1) (if x \<noteq> y then lev xs ys + 1 else lev xs ys))"

lemma lev_Nil2 [simp]: "lev xs [] = length xs"
  by (cases xs) simp_all

lemma min3_cases: "min a (min b c) = a \<or> min a (min b c) = b \<or> min a (min b c) = c" for a b c :: nat
  by (simp add: min_def)

lemma lev_upper:
  "lev (x # xs) (y # ys) \<le> lev xs (y # ys) + 1" "lev (x # xs) (y # ys) \<le> lev (x # xs) ys + 1"
  "lev (x # xs) (y # ys) \<le> lev xs ys + (if x \<noteq> y then 1 else 0)"
  unfolding lev.simps by (simp_all only: min_le_iff_disj) simp_all

lemma lev_cases:
  "lev (x # xs) (y # ys) = lev xs (y # ys) + 1 \<or> lev (x # xs) (y # ys) = lev (x # xs) ys + 1 \<or>
   lev (x # xs) (y # ys) = lev xs ys + (if x \<noteq> y then 1 else 0)"
  using min3_cases [of "lev xs (y # ys) + 1" "lev (x # xs) ys + 1" "if x \<noteq> y then lev xs ys + 1 else lev xs ys"]
  unfolding lev.simps(3) [of x xs y ys] by (cases "x = y") simp_all

text \<open>The row of \<open>xs\<close> (reversed) against the prefixes of \<open>s2\<close>.\<close>

definition row :: "string \<Rightarrow> string \<Rightarrow> nat \<Rightarrow> nat" where
  "row xs s2 j = lev xs (rev (take j s2))"

lemma row_0: "row xs s2 0 = length xs"
  by (simp add: row_def)

lemma row_Suc:
  assumes "j < length s2"
  shows "row (c # xs) s2 (Suc j) = min (row xs s2 (Suc j) + 1)
    (min (row (c # xs) s2 j + 1) (if c \<noteq> s2 ! j then row xs s2 j + 1 else row xs s2 j))"
  using assms by (simp add: row_def take_Suc_conv_app_nth)

definition is_row :: "string \<Rightarrow> string \<Rightarrow> u32 list \<Rightarrow> bool" where
  "is_row xs s2 p \<longleftrightarrow> length p = Suc (length s2) \<and> (\<forall>j \<le> length s2. unat (p ! j) = row xs s2 j)"

text \<open>No entry exceeds the longer of the two strings, so none wraps around.\<close>

lemma lev_bound: "lev xs ys \<le> max (length xs) (length ys)"
proof (induction xs ys rule: lev.induct)
  case (3 x xs y ys)
  have "lev xs ys \<le> max (length xs) (length ys)" using 3(3,4) by blast
  then show ?case using lev_upper(3) [of x xs y ys] by (simp add: max_def del: lev.simps split: if_splits)
qed simp_all

lemma row_bound: "j \<le> length s2 \<Longrightarrow> row xs s2 j \<le> max (length xs) (length s2)"
  using lev_bound [of xs "rev (take j s2)"] by (simp add: row_def)

lemma unat_inc32: "unat w < 2 ^ 32 - 1 \<Longrightarrow> unat (w + 1) = unat w + 1" for w :: u32
  using unat_add_small [of w 1] by simp

lemma init_row_result:
  assumes "length p = Suc (i - 1 + n)" and "0 < i" and "\<forall>j < i. unat (p ! j) = j" and "length p < 2 ^ 32"
  shows "\<exists>p'. init_row p i n = Some p' \<and> length p' = length p \<and> (\<forall>j < length p. unat (p' ! j) = j)"
  using assms
proof (induction n arbitrary: p i)
  case (Suc n)
  let ?v = "p ! (i - 1) + 1"
  have i: "i < length p" using Suc.prems by linarith
  have "unat (p ! (i - 1)) = i - 1" using Suc.prems(2,3) by simp
  then have v: "unat ?v = i" using unat_inc32 [of "p ! (i - 1)"] i Suc.prems(2,4) by simp
  have "init_row p i (Suc n) = init_row (p[i := ?v]) (Suc i) n" using Suc.prems by simp
  moreover have "\<forall>j < Suc i. unat (p[i := ?v] ! j) = j"
    using Suc.prems(3) i v by (metis less_antisym nth_list_update_eq nth_list_update_neq)
  ultimately show ?case using Suc.IH [of "p[i := ?v]" "Suc i"] Suc.prems by simp
qed simp

lemma next_row_result:
  assumes "is_row xs s2 p" and "length q = Suc (length s2)" and "s2 = done @ rest" and "j = Suc (length done)"
    and "\<forall>k < j. unat (q ! k) = row (c # xs) s2 k" and "Suc (max (length xs) (length s2)) < 2 ^ 32 - 1"
  shows "\<exists>q'. next_row c rest j p q = Some q' \<and> is_row (c # xs) s2 q'"
  using assms
proof (induction rest arbitrary: "done" j q)
  case Nil
  then show ?case by (simp add: is_row_def le_eq_less_or_eq less_Suc_eq)
next
  case (Cons d rest)
  let ?k = "length done"
  have k: "?k < length s2" "s2 ! ?k = d" using Cons.prems(3) by simp_all
  have p: "length p = Suc (length s2)" "unat (p ! ?k) = row xs s2 ?k" "unat (p ! Suc ?k) = row xs s2 (Suc ?k)"
    using Cons.prems(1) k(1) by (simp_all add: is_row_def)
  have q: "unat (q ! ?k) = row (c # xs) s2 ?k" using Cons.prems(4,5) by simp
  have b: "row xs s2 ?k < 2 ^ 32 - 1" "row xs s2 (Suc ?k) < 2 ^ 32 - 1" "row (c # xs) s2 ?k < 2 ^ 32 - 1"
  proof -
    have "max (length xs) (length s2) < 2 ^ 32 - 1" "max (length (c # xs)) (length s2) < 2 ^ 32 - 1" using Cons.prems(6) by simp_all
    then show "row xs s2 ?k < 2 ^ 32 - 1" "row xs s2 (Suc ?k) < 2 ^ 32 - 1" "row (c # xs) s2 ?k < 2 ^ 32 - 1"
      using row_bound [of ?k s2 xs] row_bound [of "Suc ?k" s2 xs] row_bound [of ?k s2 "c # xs"] k(1) by linarith+
  qed
  define v where "v = min (p ! Suc ?k + 1) (min (q ! ?k + 1) (if c \<noteq> d then p ! ?k + 1 else p ! ?k))"
  have v: "unat v = row (c # xs) s2 (Suc ?k)"
    unfolding v_def row_Suc [OF k(1)] unat_min k(2) using p(2,3) q b by (simp add: unat_inc32)
  have "next_row c (d # rest) j p q = next_row c rest (Suc j) p (q[j := v])"
    using Cons.prems(2,4) p(1) k by (simp add: v_def Let_def)
  moreover have "\<forall>i < Suc j. unat (q[j := v] ! i) = row (c # xs) s2 i"
  proof (intro allI impI)
    fix i assume "i < Suc j"
    then show "unat (q[j := v] ! i) = row (c # xs) s2 i"
      using Cons.prems(2,4,5) k(1) v by (cases "i = j") simp_all
  qed
  ultimately show ?case
    using Cons.IH [of "q[j := v]" "done @ [d]" "Suc j"] Cons.prems by simp
qed

lemma rows_result:
  assumes "is_row xs s2 p" and "length q = Suc (length s2)" and "Suc (max (length s1 + length xs) (length s2)) < 2 ^ 32 - 1"
  shows "\<exists>p' q'. rows s1 s2 p q = Some (p', q') \<and> is_row (rev s1 @ xs) s2 p'"
  using assms
proof (induction s1 arbitrary: xs p q)
  case (Cons c s1)
  let ?q = "q[0 := p ! 0 + 1]"
  have p: "length p = Suc (length s2)" "unat (p ! 0) = length xs" using Cons.prems(1) by (auto simp: is_row_def row_0)
  have "unat (p ! 0 + 1) = row (c # xs) s2 0" using unat_inc32 [of "p ! 0"] p(2) Cons.prems(3) by (simp add: row_0)
  then obtain q' where q': "next_row c s2 1 p ?q = Some q'" "is_row (c # xs) s2 q'"
    using next_row_result [OF Cons.prems(1), of ?q "[]" s2 1 c] Cons.prems(2,3) by auto
  have "rows (c # s1) s2 p q = rows s1 s2 q' p" using p(1) q'(1) Cons.prems(2) by simp
  then show ?case using Cons.IH [OF q'(2), of p] p(1) Cons.prems(3) by simp
qed simp

lemma string_distance_lev:
  assumes "length s1 < 2 ^ 31" and "length s2 < 2 ^ 31"
  shows "string_distance p0 q0 s1 s2 = Some (int (lev (rev s1) (rev s2)))"
proof -
  let ?n = "Suc (length s2)" and ?d = "lev (rev s1) (rev s2)"
  have len: "unat (of_nat (length s1) :: u32) = length s1" "unat (of_nat (length s2) :: u32) = length s2"
    "unat (of_nat (length s2) + 1 :: u32) = ?n"
    using assms unat_of_nat32 [of "length s1"] unat_of_nat32 [of "length s2"] unat_of_nat32 [of ?n] by (simp_all add: add.commute)
  have max: "(of_nat (length s1) :: u32) \<noteq> - 1"
  proof
    assume "(of_nat (length s1) :: u32) = - 1"
    then have "unat (- 1 :: u32) = length s1" using len(1) by simp
    then show False using assms(1) by (simp add: unsigned_minus_1_eq_mask mask_eq_exp_minus_1)
  qed
  let ?p = "(map p0 [0..<?n])[0 := 0]"
  obtain p' where p': "init_row ?p 1 (length s2) = Some p'" "length p' = ?n" "\<forall>j < ?n. unat (p' ! j) = j"
    using init_row_result [of ?p 1 "length s2"] assms(2) by auto
  then have "is_row [] s2 p'" by (simp add: is_row_def row_def)
  then obtain p'' q'' where r: "rows s1 s2 p' (map q0 [0..<?n]) = Some (p'', q'')" "is_row (rev s1) s2 p''"
    using rows_result [of "[]" s2 p' "map q0 [0..<?n]" s1] assms by auto
  have d: "unat (p'' ! length s2) = ?d" "length p'' = ?n" using r(2) by (simp_all add: is_row_def row_def)
  have "?d < 2 ^ 31" using lev_bound [of "rev s1" "rev s2"] assms by simp
  then have "sint (p'' ! length s2) = int ?d" using d(1) by (simp add: sint_uint uint_nat signed_take_bit_int_eq_self)
  then show ?thesis using p'(1) r(1) d(2) max by (simp add: string_distance_def Let_def len)
qed

section \<open>Edits\<close>

text \<open>One edit anywhere in the string: insert, delete or replace a character.\<close>

inductive edit :: "'a list \<Rightarrow> 'a list \<Rightarrow> bool" where
  ins: "edit (xs @ ys) (xs @ y # ys)"
| del: "edit (xs @ x # ys) (xs @ ys)"
| repl: "edit (xs @ x # ys) (xs @ y # ys)"

lemma edit_Cons: "edit xs ys \<Longrightarrow> edit (z # xs) (z # ys)"
  by (erule edit.cases) (metis append_Cons edit.intros)+

lemma edits_Cons: "(edit ^^ n) xs ys \<Longrightarrow> (edit ^^ n) (z # xs) (z # ys)"
  by (induction n arbitrary: ys) (auto intro: edit_Cons)

lemma edits_ins: "(edit ^^ length ys) [] ys"
proof (induction ys)
  case (Cons y ys)
  then have "(edit ^^ length ys) [] ys" .
  then show ?case using edit.ins [of "[]" ys y] by auto
qed simp

lemma edits_del: "(edit ^^ length xs) xs []"
proof (induction xs)
  case (Cons x xs)
  then show ?case using edit.del [of "[]" x xs] by (auto simp: relpowp_Suc_I2 simp del: relpowp.simps)
qed simp

text \<open>There is a way of this length.\<close>

lemma lev_edits: "(edit ^^ lev xs ys) xs ys"
proof (induction xs ys rule: lev.induct)
  case (3 x xs y ys)
  consider "lev (x # xs) (y # ys) = lev xs (y # ys) + 1" | "lev (x # xs) (y # ys) = lev (x # xs) ys + 1"
    | "x \<noteq> y" "lev (x # xs) (y # ys) = lev xs ys + 1" | "x = y" "lev (x # xs) (y # ys) = lev xs ys"
    using lev_cases [of x xs y ys] by (cases "x = y") auto
  then show ?case
  proof cases
    case 1
    have "edit (x # xs) xs" using edit.del [of "[]" x xs] by simp
    with 3(1) show ?thesis unfolding 1 by (simp add: relpowp_Suc_I2 del: relpowp.simps)
  next
    case 2
    have "edit ys (y # ys)" using edit.ins [of "[]" ys y] by simp
    with 3(2) show ?thesis unfolding 2 by auto
  next
    case c3: 3
    have "(edit ^^ lev xs ys) (x # xs) (x # ys)" by (rule edits_Cons) (use 3(3) c3 in simp)
    moreover have "edit (x # ys) (y # ys)" using edit.repl [of "[]" x ys y] by simp
    ultimately show ?thesis unfolding c3(2) by auto
  next
    case 4
    then show ?thesis using edits_Cons [of "lev xs ys" xs ys x] 3(4) by simp
  qed
next
  case (2 x xs)
  show ?case using edits_del [of "x # xs"] by (simp del: relpowp.simps list.size)
qed (simp add: edits_ins)

text \<open>And no shorter one: an edit changes the distance to any string by at most one.\<close>

lemma lev_Cons_le: "lev (x # xs) zs \<le> lev xs zs + 1" "lev xs (z # zs) \<le> lev xs zs + 1"
proof -
  show "lev (x # xs) zs \<le> lev xs zs + 1" using lev_upper(1) [of x xs] by (cases zs) simp_all
  show "lev xs (z # zs) \<le> lev xs zs + 1" using lev_upper(2) [of _ _ z zs] by (cases xs) simp_all
qed

lemma lev_le_Cons: "lev xs zs \<le> lev (x # xs) zs + 1"
proof (induction zs)
  case (Cons z zs)
  then show ?case using lev_Cons_le(2) [of xs z zs] lev_cases [of x xs z zs] by linarith
qed simp

lemma lev_repl: "lev (x # xs) zs \<le> lev (y # xs) zs + 1"
proof (induction zs)
  case (Cons z zs)
  then show ?case using lev_upper [of x xs z zs] lev_cases [of y xs z zs] by (auto split: if_splits simp del: lev.simps)
qed simp

lemma lev_context: "\<forall>zs. lev us zs \<le> lev vs zs + 1 \<Longrightarrow> lev (a # us) zs \<le> lev (a # vs) zs + 1"
proof (induction zs)
  case Nil
  then show ?case using spec [of "\<lambda>zs. lev us zs \<le> lev vs zs + 1" "[]"] by simp
next
  case (Cons z zs)
  have h: "lev us (z # zs) \<le> lev vs (z # zs) + 1" "lev us zs \<le> lev vs zs + 1" using Cons.prems by blast+
  show ?case using Cons.IH [OF Cons.prems] h lev_upper [of a us z zs] lev_cases [of a vs z zs] by (auto split: if_splits simp del: lev.simps)
qed

lemma edit_lev: "edit xs ys \<Longrightarrow> lev xs zs \<le> lev ys zs + 1"
proof (induction arbitrary: zs rule: edit.induct)
  case (ins xs ys y)
  show ?case by (induction xs arbitrary: zs) (simp_all only: append.simps lev_le_Cons, rule lev_context, blast)
next
  case (del xs x ys)
  show ?case by (induction xs arbitrary: zs) (simp_all only: append.simps lev_Cons_le(1), rule lev_context, blast)
next
  case (repl xs x ys y)
  show ?case by (induction xs arbitrary: zs) (simp_all only: append.simps lev_repl, rule lev_context, blast)
qed

lemma lev_same [simp]: "lev xs xs = 0"
proof (induction xs)
  case (Cons x xs)
  then show ?case using lev_upper(3) [of x xs x xs] by (simp del: lev.simps)
qed simp

lemma edits_lev: "(edit ^^ n) xs ys \<Longrightarrow> lev xs ys \<le> n"
proof (induction n arbitrary: xs)
  case (Suc n)
  obtain zs where "edit xs zs" "(edit ^^ n) zs ys" using Suc.prems by (rule relpowp_Suc_E2)
  then show ?case using Suc.IH [of zs] edit_lev [of xs zs ys] by linarith
qed simp

lemma edit_rev: "edit xs ys \<Longrightarrow> edit (rev xs) (rev ys)"
proof (induction rule: edit.induct)
  case (ins xs ys y)
  show ?case using edit.ins [of "rev ys" "rev xs" y] by simp
next
  case (del xs x ys)
  show ?case using edit.del [of "rev ys" x "rev xs"] by simp
next
  case (repl xs x ys y)
  show ?case using edit.repl [of "rev ys" x "rev xs" y] by simp
qed

lemma edits_rev: "(edit ^^ n) xs ys \<Longrightarrow> (edit ^^ n) (rev xs) (rev ys)"
  by (induction n arbitrary: ys) (auto intro: edit_rev)

text \<open>
  C36 (refinement): for strings shorter than \<open>2 ^ 31\<close> characters the table of two rows of 32-bit words stays inside its arrays, no entry wraps around, and
  the \<^verbatim>\<open>int\<close> it yields is the edit distance, the least number of insertions, deletions and replacements that turn the first string into the second.
\<close>

theorem string_distance_edits:
  assumes "length s1 < 2 ^ 31" and "length s2 < 2 ^ 31"
  shows "string_distance p0 q0 s1 s2 = Some (int (LEAST n. (edit ^^ n) s1 s2))"
proof -
  let ?d = "lev (rev s1) (rev s2)"
  have "(LEAST n. (edit ^^ n) s1 s2) = ?d"
  proof (rule Least_equality)
    show "(edit ^^ ?d) s1 s2" using edits_rev [OF lev_edits [of "rev s1" "rev s2"]] by simp
    show "?d \<le> n" if "(edit ^^ n) s1 s2" for n using edits_lev [OF edits_rev [OF that]] .
  qed
  then show ?thesis using string_distance_lev [OF assms] by simp
qed

theorem string_distance_edits_witness:
  "string_distance (\<lambda>_. 7) (\<lambda>_. 9) ''bcd'' ''ad'' = Some 2 \<and> (LEAST n. (edit ^^ n) ''bcd'' ''ad'') = 2"
proof -
  have "string_distance (\<lambda>_. 7) (\<lambda>_. 9) ''bcd'' ''ad'' = Some 2"
    by code_simp
  then show ?thesis using string_distance_edits [of "''bcd''" "''ad''" "\<lambda>_. 7" "\<lambda>_. 9"] by simp
qed

end
