(* ===== verification/Parse_Values.thy ===== *)
theory Parse_Values
  imports Pattern_Parse
begin

text \<open>
  The values of options: \<^verbatim>\<open>parse.c\<close> from the multipliers of units to \<^verbatim>\<open>str_to_decimal\<close>. Strings are lists of characters
  without the terminating zero. The build has no \<^verbatim>\<open>CONFIG_ARITHMETIC\<close>. Values are \<^verbatim>\<open>long long\<close> as 64-bit words, and \<open>None\<close> is the
  return value 1.
\<close>

section \<open>The C library\<close>

definition isalpha :: "char \<Rightarrow> bool" where
  "isalpha c \<longleftrightarrow> 65 \<le> (of_char c :: nat) \<and> (of_char c :: nat) \<le> 90 \<or> 97 \<le> (of_char c :: nat) \<and> (of_char c :: nat) \<le> 122"

definition tolower :: "char \<Rightarrow> char" where
  "tolower c = (if 65 \<le> (of_char c :: nat) \<and> (of_char c :: nat) \<le> 90 then char_of (of_char c + 32 :: nat) else c)"

text \<open>\<^verbatim>\<open>strncmp(a, s, strlen(a)) == 0\<close>\<close>

definition starts :: "string \<Rightarrow> string \<Rightarrow> bool" where
  "starts a s \<longleftrightarrow> take (length a) s = a"

text \<open>\<^verbatim>\<open>strtoll(s, &end, base)\<close> for the bases 10 and 16: the value, the characters taken, and whether it is out of range.\<close>

definition strtoll :: "nat \<Rightarrow> string \<Rightarrow> int \<times> nat \<times> bool" where
  "strtoll base s = (let
     ws = length (takeWhile isspace s);
     t = drop ws s;
     neg = (t \<noteq> [] \<and> hd t = CHR ''-'');
     sg = (if t \<noteq> [] \<and> (hd t = CHR ''-'' \<or> hd t = CHR ''+'') then 1 else 0);
     r = drop sg t;
     px = (if base = 16 \<and> 2 < length r \<and> r ! 0 = CHR ''0'' \<and> is_x (r ! 1) \<and> isxdigit (r ! 2) then 2 else 0);
     ds = takeWhile (if base = 16 then isxdigit else isdigit) (drop px r);
     v = (if neg then - 1 else 1) * int (num_value base ds)
   in if ds = [] then (0, 0, False)
      else (max LONG_MIN (min LONG_MAX v), ws + sg + px + length ds, v < LONG_MIN \<or> LONG_MAX < v))"

section \<open>Units\<close>

definition get_mult_time :: "string \<Rightarrow> bool \<Rightarrow> u64" where
  "get_mult_time str is_seconds = (let p = dropWhile (\<lambda>c. isdigit c \<or> c = CHR ''+'' \<or> c = CHR ''-'') str in
     if p = [] \<or> \<not> isalpha (hd p) then (if is_seconds then 1000000 else 1)
     else (let c = map tolower p in
       if starts ''us'' c \<or> starts ''usec'' c then 1
       else if starts ''ms'' c \<or> starts ''msec'' c then 1000
       else if c = ''s'' then 1000000
       else if c = ''m'' then 60 * 1000000
       else if c = ''h'' then 60 * 60 * 1000000
       else if c = ''d'' then 24 * 60 * 60 * 1000000
       else 1))"

definition is_separator :: "char \<Rightarrow> bool" where
  "is_separator c \<longleftrightarrow> c = CHR '':'' \<or> c = CHR ''-'' \<or> c = CHR '','' \<or> c = CHR ''/''"

text \<open>\<^verbatim>\<open>__get_mult_bytes\<close>: the multiplier, and whether the unit is a percent sign. \<open>None\<close> is the null pointer.\<close>

definition opposite_base :: "nat \<Rightarrow> nat" where
  "opposite_base kb_base = (if kb_base = 1000 then 1024 else if kb_base = 1024 then 1000 else kb_base)"

definition unit_mult :: "nat \<Rightarrow> string \<Rightarrow> u64 \<times> bool" where
  "unit_mult kb_base c = (let opp = of_nat (opposite_base kb_base); base = of_nat kb_base in
     if starts ''pib'' c then (opp ^ 5, False)
     else if starts ''tib'' c then (opp ^ 4, False)
     else if starts ''gib'' c then (opp ^ 3, False)
     else if starts ''mib'' c then (opp ^ 2, False)
     else if starts ''kib'' c then (opp ^ 1, False)
     else if starts ''p'' c \<or> starts ''pb'' c then (base ^ 5, False)
     else if starts ''t'' c \<or> starts ''tb'' c then (base ^ 4, False)
     else if starts ''g'' c \<or> starts ''gb'' c then (base ^ 3, False)
     else if starts ''m'' c \<or> starts ''mb'' c then (base ^ 2, False)
     else if starts ''k'' c \<or> starts ''kb'' c then (base ^ 1, False)
     else if starts ''%'' c then (1, True)
     else (1, False))"

definition lower_unit :: "string \<Rightarrow> string" where
  "lower_unit p = map tolower (takeWhile (\<lambda>c. \<not> is_separator (tolower c)) p)"

definition mult_bytes_at :: "nat \<Rightarrow> string option \<Rightarrow> u64 \<times> bool" where
  "mult_bytes_at kb_base p = (case p of None \<Rightarrow> (1, False) | Some p \<Rightarrow> unit_mult kb_base (lower_unit p))"

text \<open>The walk over digits and the sign in front of them.\<close>

fun behind_number :: "bool \<Rightarrow> string \<Rightarrow> string" where
  "behind_number digit_seen [] = []"
| "behind_number digit_seen (c # s) =
     (if \<not> isdigit c \<and> (c \<noteq> CHR ''+'' \<and> c \<noteq> CHR ''-'' \<or> digit_seen) then c # s
      else behind_number (digit_seen \<or> isdigit c) s)"

definition get_mult_bytes :: "nat \<Rightarrow> string \<Rightarrow> u64 \<times> bool" where
  "get_mult_bytes kb_base str =
     (if length str < 2 then mult_bytes_at kb_base (Some str)
      else (let p = behind_number False str in
        mult_bytes_at kb_base (if p = [] \<or> \<not> isalpha (hd p) \<and> hd p \<noteq> CHR ''%'' then None else Some p)))"

text \<open>\<open>erange\<close>: \<^verbatim>\<open>errno\<close> is \<^verbatim>\<open>ERANGE\<close> already before the call, which does not reset it.\<close>

definition str_to_decimal :: "bool \<Rightarrow> nat \<Rightarrow> string \<Rightarrow> bool \<Rightarrow> bool \<Rightarrow> u64 option" where
  "str_to_decimal erange kb_base str kilo is_seconds =
     (if str = [] then None
      else (let
        base = (if find_0x str \<noteq> None then 16 else 10);
        (v, n, over) = strtoll base str
      in if v = 0 \<and> n = 0 then None
        else if v = LONG_MAX \<and> (over \<or> erange) then None
        else if kilo
        then (let (mult, perc) = get_mult_bytes kb_base str in Some (if perc then - 1 - of_int v else of_int v * mult))
        else Some (of_int v * get_mult_time str is_seconds)))"

definition check_str_bytes :: "bool \<Rightarrow> nat \<Rightarrow> string \<Rightarrow> u64 option" where
  "check_str_bytes erange kb_base p = str_to_decimal erange kb_base p True False"

definition check_str_time :: "bool \<Rightarrow> string \<Rightarrow> bool \<Rightarrow> u64 option" where
  "check_str_time erange p is_seconds = str_to_decimal erange 0 p False is_seconds"

section \<open>Decimal texts\<close>

function dec_text :: "nat \<Rightarrow> string" where
  "dec_text n = (if n < 10 then [char_of (48 + n)] else dec_text (n div 10) @ [char_of (48 + n mod 10)])"
  by pat_completeness auto
termination by (relation "measure id") auto

declare dec_text.simps [simp del]

lemma of_char_digit: "d < 10 \<Longrightarrow> of_char (char_of (48 + d) :: char) = 48 + d" for d :: nat
  by simp

lemma dec_text_digits: "c \<in> set (dec_text n) \<Longrightarrow> isdigit c"
proof (induction n rule: dec_text.induct)
  case (1 n)
  then show ?case by (subst (asm) (2) dec_text.simps) (auto simp: isdigit_def split: if_splits)
qed

lemma dec_text_Nil [simp]: "dec_text n \<noteq> []"
  by (simp add: dec_text.simps)

lemma num_value_snoc: "num_value base (s @ [c]) = num_value base s * base + (case digit_val c of Some d \<Rightarrow> d | None \<Rightarrow> 0)"
  by (simp add: num_value_def)

lemma digit_val_digit: "d < 10 \<Longrightarrow> digit_val (char_of (48 + d)) = Some d" for d :: nat
  by (simp add: digit_val_def)

lemma num_value_dec_text [simp]: "num_value 10 (dec_text n) = n"
proof (induction n rule: dec_text.induct)
  case (1 n)
  show ?case
  proof (cases "n < 10")
    case True
    then show ?thesis using digit_val_digit [OF True] by (simp add: dec_text.simps num_value_def)
  next
    case False
    then show ?thesis using 1 [OF False] digit_val_digit [of "n mod 10"]
      by (subst dec_text.simps) (simp add: num_value_snoc)
  qed
qed

text \<open>What the parts of the parser make of a number with a unit.\<close>

definition unit_text :: "string \<Rightarrow> bool" where
  "unit_text sfx \<longleftrightarrow> (sfx = [] \<or> isalpha (hd sfx) \<and> \<not> is_x (hd sfx) \<or> hd sfx = CHR ''%'') \<and> find_0x sfx = None"

lemma unit_not_digit: "unit_text sfx \<Longrightarrow> sfx \<noteq> [] \<Longrightarrow> \<not> isdigit (hd sfx)"
  by (auto simp: unit_text_def isalpha_def isdigit_def)

lemma digit_not_special:
  assumes "isdigit c"
  shows "\<not> isspace c" "c \<noteq> CHR ''-''" "c \<noteq> CHR ''+''" "\<not> is_x c" "\<not> is_separator c" "\<not> isalpha c" "c \<noteq> CHR ''%''"
  using assms by (auto simp: isdigit_def isspace_def is_x_def is_separator_def isalpha_def)

lemma find_0x_digits:
  assumes "\<forall>c \<in> set ds. isdigit c" and "unit_text sfx"
  shows "find_0x (ds @ sfx) = None"
  using assms(1)
proof (induction ds)
  case Nil
  then show ?case using assms(2) by (simp add: unit_text_def)
next
  case (Cons d ds)
  show ?case
  proof (cases "ds @ sfx")
    case e: (Cons e r)
    have "\<not> is_x e"
      using e Cons.prems digit_not_special(4) assms(2) by (cases ds) (auto simp: unit_text_def is_x_def)
    then show ?thesis using Cons.IH Cons.prems e by simp
  qed simp
qed

lemma takeWhile_digits:
  assumes "unit_text sfx" and "\<forall>c \<in> set ds. isdigit c"
  shows "takeWhile isdigit (ds @ sfx) = ds"
  using assms unit_not_digit [OF assms(1)] by (cases sfx) (simp_all add: takeWhile_append2)

lemma strtoll_dec:
  assumes "unit_text sfx" and "int n \<le> LONG_MAX"
  shows "strtoll 10 (dec_text n @ sfx) = (int n, length (dec_text n), False)"
proof -
  obtain c cs where c: "dec_text n = c # cs" by (cases "dec_text n") simp_all
  have d: "\<forall>c \<in> set (dec_text n). isdigit c" using dec_text_digits by blast
  then have cd: "isdigit c" using c by simp
  have "takeWhile isspace (dec_text n @ sfx) = []" using digit_not_special(1) [OF cd] c by simp
  moreover have "takeWhile isdigit (dec_text n @ sfx) = dec_text n" by (rule takeWhile_digits [OF assms(1) d])
  ultimately show ?thesis
    using digit_not_special(2,3) [OF cd] c assms(2) num_value_dec_text [of n]
    by (simp add: strtoll_def Let_def LONG_MAX_def LONG_MIN_def)
qed

lemma behind_number_dec:
  assumes "unit_text sfx" and "\<forall>c \<in> set ds. isdigit c" and "ds \<noteq> []"
  shows "behind_number b (ds @ sfx) = sfx"
proof -
  have "behind_number True (ds @ sfx) = sfx" if "\<forall>c \<in> set ds. isdigit c" for ds
    using that unit_not_digit [OF assms(1)] by (induction ds) (cases sfx; simp)+
  then show ?thesis using assms(2,3) by (cases ds) simp_all
qed

lemma mult_dec:
  assumes "unit_text sfx"
  shows "get_mult_bytes kb (dec_text n @ sfx) = mult_bytes_at kb (if sfx = [] then None else Some sfx)"
proof (cases "length (dec_text n @ sfx) < 2")
  case True
  then obtain c where c: "dec_text n = [c]" "sfx = []"
    using dec_text_Nil [of n] by (cases "dec_text n") auto
  then have "isdigit c" using dec_text_digits [of c n] by simp
  then have "tolower c = c" "c \<notin> {CHR ''p'', CHR ''t'', CHR ''g'', CHR ''m'', CHR ''k'', CHR ''%''}"
    by (auto simp: isdigit_def tolower_def)
  then show ?thesis using c using \<open>isdigit c\<close> digit_not_special(5)
    by (simp add: get_mult_bytes_def mult_bytes_at_def unit_mult_def lower_unit_def starts_def Let_def)
next
  case False
  have "behind_number False (dec_text n @ sfx) = sfx"
    by (rule behind_number_dec [OF assms]) (use dec_text_digits in auto)
  then show ?thesis using False assms by (auto simp: get_mult_bytes_def unit_text_def Let_def)
qed

text \<open>The documented units, with the power of the base and whether it is the base or the opposite one.\<close>

definition byte_units :: "(string \<times> nat \<times> bool) list" where
  "byte_units = [([], 0, True), (''k'', 1, True), (''K'', 1, True), (''kb'', 1, True), (''KB'', 1, True), (''m'', 2, True), (''M'', 2, True),
     (''mb'', 2, True), (''g'', 3, True), (''G'', 3, True), (''gb'', 3, True), (''t'', 4, True), (''T'', 4, True), (''tb'', 4, True),
     (''p'', 5, True), (''P'', 5, True), (''pb'', 5, True), (''kib'', 1, False), (''KiB'', 1, False),
     (''mib'', 2, False), (''MiB'', 2, False), (''gib'', 3, False), (''GiB'', 3, False), (''tib'', 4, False), (''TiB'', 4, False),
     (''pib'', 5, False), (''PiB'', 5, False)]"

definition lower_units :: "(string \<times> nat \<times> bool) list" where
  "lower_units = [(''k'', 1, True), (''kb'', 1, True), (''m'', 2, True), (''mb'', 2, True), (''g'', 3, True), (''gb'', 3, True),
     (''t'', 4, True), (''tb'', 4, True), (''p'', 5, True), (''pb'', 5, True), (''kib'', 1, False), (''mib'', 2, False),
     (''gib'', 3, False), (''tib'', 4, False), (''pib'', 5, False)]"

lemma byte_units_lower:
  "list_all (\<lambda>(sfx, k, own). unit_text sfx \<and> (if sfx = [] then k = 0 else (lower_unit sfx, k, own) \<in> set lower_units)) byte_units"
  by code_simp

lemma lower_units_mult:
  assumes "(c, k, own) \<in> set lower_units"
  shows "unit_mult kb c = (of_nat (if own then kb else opposite_base kb) ^ k, False)"
  using assms unfolding lower_units_def by (auto simp: unit_mult_def starts_def)

lemma byte_units_mult:
  assumes "(sfx, k, own) \<in> set byte_units"
  shows "unit_text sfx \<and> mult_bytes_at kb (if sfx = [] then None else Some sfx) =
    (of_nat (if own then kb else opposite_base kb) ^ k, False)"
  using byte_units_lower assms lower_units_mult [of "lower_unit sfx" k own kb]
  by (auto simp: list_all_iff mult_bytes_at_def split: if_splits)

lemma decimal_unit_value:
  assumes "(sfx, k, own) \<in> set byte_units" and "n < 2 ^ 63 - 1"
  shows "check_str_bytes erange kb (dec_text n @ sfx) = Some (of_nat (n * (if own then kb else opposite_base kb) ^ k))"
proof -
  have u: "unit_text sfx" "mult_bytes_at kb (if sfx = [] then None else Some sfx) = (of_nat (if own then kb else opposite_base kb) ^ k, False)"
    using byte_units_mult [OF assms(1), of kb] by blast+
  have n: "int n < LONG_MAX" using assms(2) by (simp add: LONG_MAX_def)
  have "find_0x (dec_text n @ sfx) = None" by (rule find_0x_digits [OF _ u(1)]) (use dec_text_digits in blast)
  moreover have "strtoll 10 (dec_text n @ sfx) = (int n, length (dec_text n), False)" by (rule strtoll_dec [OF u(1)]) (use n in simp)
  ultimately show ?thesis
    using mult_dec [OF u(1), of kb n] u(2) n by (simp add: check_str_bytes_def str_to_decimal_def)
qed

text \<open>
  C35 (roundtrip): a number written in decimal, followed by one of the units, is read as the number times the power of the base
  that the unit stands for, modulo \<open>2 ^ 64\<close>.
\<close>

theorem decimal_with_unit:
  assumes "(sfx, k, own) \<in> set byte_units" and "n < 2 ^ 63 - 1"
  shows "check_str_bytes erange kb (dec_text n @ sfx) = Some (of_nat (n * (if own then kb else opposite_base kb) ^ k))"
  by (rule decimal_unit_value [OF assms])

theorem decimal_with_unit_witness:
  "check_str_bytes False 1024 ''4k'' = Some 4096 \<and> check_str_bytes False 1024 ''2MiB'' = Some 2000000"
proof -
  have "dec_text 4 = ''4''" "dec_text 2 = ''2''" by (simp_all add: dec_text.simps) code_simp+
  then show ?thesis
    using decimal_with_unit [of "''k''" 1 True 4 False 1024] decimal_with_unit [of "''MiB''" 2 False 2 False 1024]
    by (simp add: byte_units_def opposite_base_def)
qed

section \<open>Hexadecimal times\<close>

text \<open>
  The letter of the prefix \<^verbatim>\<open>0x\<close> is taken for a unit: a hexadecimal time is in microseconds even where the unit is the
  second, and so is a decimal number.
\<close>

lemma strtoll_hex:
  assumes "h \<noteq> []" and "\<forall>c \<in> set h. isxdigit c" and "int (num_value 16 h) \<le> LONG_MAX"
  shows "strtoll 16 (''0x'' @ h) = (int (num_value 16 h), 2 + length h, False)"
proof -
  obtain c cs where c: "h = c # cs" "isxdigit c" using assms(1,2) by (cases h) auto
  have tw: "takeWhile isxdigit cs = cs" using assms(2) c(1) by (simp add: takeWhile_eq_all_conv)
  have "\<not> isspace CHR ''0''" "is_x CHR ''x''" by (simp_all add: isspace_def is_x_def)
  then show ?thesis using assms(3) c
    by (simp add: tw strtoll_def Let_def LONG_MAX_def LONG_MIN_def)
qed

lemma time_mult_hex: "get_mult_time (''0x'' @ h) is_seconds = 1"
proof -
  have "isdigit CHR ''0''" "\<not> isdigit CHR ''x''" "isalpha CHR ''x''" "tolower CHR ''x'' = CHR ''x''"
    by (simp_all add: isdigit_def isalpha_def tolower_def)
  then show ?thesis by (simp add: get_mult_time_def starts_def Let_def)
qed

lemma time_mult_dec: "get_mult_time (dec_text n) is_seconds = (if is_seconds then 1000000 else 1)"
proof -
  have "dropWhile (\<lambda>c. isdigit c \<or> c = CHR ''+'' \<or> c = CHR ''-'') (dec_text n) = []"
    using dec_text_digits by (simp add: dropWhile_eq_Nil_conv)
  then show ?thesis by (simp add: get_mult_time_def)
qed

text \<open>
  In an option whose unit is the second, a decimal number is read in seconds, but the same number in hexadecimal
  in microseconds.
\<close>

theorem hex_time_unit:
  assumes "h \<noteq> []" and "\<forall>c \<in> set h. isxdigit c" and "num_value 16 h = n" and "n < 2 ^ 63 - 1"
  shows "check_str_time erange (dec_text n) True = Some (of_nat n * 1000000) \<and> check_str_time erange (''0x'' @ h) True = Some (of_nat n)"
proof
  have n: "int n < LONG_MAX" using assms(4) by (simp add: LONG_MAX_def)
  have u: "unit_text []" by (simp add: unit_text_def)
  have "find_0x (dec_text n) = None" using find_0x_digits [OF _ u, of "dec_text n"] dec_text_digits by auto
  moreover have "strtoll 10 (dec_text n) = (int n, length (dec_text n), False)" using strtoll_dec [OF u, of n] n by simp
  ultimately show "check_str_time erange (dec_text n) True = Some (of_nat n * 1000000)"
    using n by (simp add: check_str_time_def str_to_decimal_def time_mult_dec)
  have "find_0x (''0x'' @ h) = Some 0" by (simp add: is_x_def)
  moreover have "strtoll 16 (''0x'' @ h) = (int n, 2 + length h, False)" using strtoll_hex [OF assms(1,2)] assms(3) n by simp
  ultimately show "check_str_time erange (''0x'' @ h) True = Some (of_nat n)"
    using n time_mult_hex [of h True] by (simp add: check_str_time_def str_to_decimal_def)
qed

theorem hex_time_unit_witness:
  "check_str_time False ''16'' True = Some 16000000 \<and> check_str_time False ''0x10'' True = Some 16"
proof -
  have "dec_text 16 = ''16''" by code_simp
  moreover have "num_value 16 ''10'' = 16" "isxdigit CHR ''1''" "isxdigit CHR ''0''"
    by (simp_all add: num_value_def digit_val_def isxdigit_def Let_def)
  ultimately show ?thesis
    using hex_time_unit [of "''10''" 16 False] by simp
qed

text \<open>Sizes are multiplied without a check: the result is only right modulo \<open>2 ^ 64\<close>.\<close>

lemma size_wraps: "check_str_bytes False 1024 (dec_text 16384 @ ''p'') = Some 0"
  using decimal_unit_value [of "''p''" 5 True 16384 False 1024] by (simp add: byte_units_def)

end
