(* ===== verification/Option_Values.thy ===== *)
theory Option_Values
  imports Parse_Values Bits
begin

text \<open>
  \<^verbatim>\<open>handle_option\<close> of \<^verbatim>\<open>parse.c\<close> for the options that hold numbers: the branches of \<^verbatim>\<open>__handle_option\<close> for numeric options
  and ranges, and the loop over the values between commas. The job's options are a memory from offsets to values. A result is
  the memory and the return value.
\<close>

section \<open>Options\<close>

datatype fio_opt_type = FIO_OPT_INVALID | FIO_OPT_STR | FIO_OPT_STR_ULL | FIO_OPT_STR_MULTI | FIO_OPT_STR_VAL | FIO_OPT_STR_VAL_TIME
  | FIO_OPT_STR_STORE | FIO_OPT_RANGE | FIO_OPT_INT | FIO_OPT_ULL | FIO_OPT_BOOL | FIO_OPT_FLOAT_LIST | FIO_OPT_STR_SET
  | FIO_OPT_STR_VAL_ZONE | FIO_OPT_DEPRECATED | FIO_OPT_SOFT_DEPRECATED | FIO_OPT_UNSUPPORTED

type_synonym option_data = "nat \<Rightarrow> u64"

record fio_option =
  opt_type :: fio_opt_type
  off1 :: nat
  off2 :: nat
  off3 :: nat
  off4 :: nat
  off5 :: nat
  off6 :: nat
  maxval :: u64
  minval :: int
  posval :: "(string \<times> u64) list"
  opt_cb :: "(option_data \<Rightarrow> u64 \<Rightarrow> option_data \<times> nat) option"
  opt_verify :: "(option_data \<Rightarrow> nat) option"
  opt_is_seconds :: bool
  opt_is_time :: bool
  opt_pow2 :: bool

definition val_too_large :: "fio_option \<Rightarrow> u64 \<Rightarrow> bool \<Rightarrow> bool" where
  "val_too_large opt val is_uint \<longleftrightarrow>
     (if maxval opt = 0 then False
      else if is_uint then
        (if sint (ucast val :: u32) < 0 then sint (ucast (maxval opt) :: u32) < sint (ucast val :: u32)
         else maxval opt < ucast (ucast val :: u32))
      else maxval opt < val)"

definition val_too_small :: "fio_option \<Rightarrow> u64 \<Rightarrow> bool \<Rightarrow> bool" where
  "val_too_small opt val is_uint \<longleftrightarrow>
     (if minval opt = 0 then False
      else if is_uint then sint (ucast val :: u32) < minval opt
      else val < of_int (minval opt))"

text \<open>\<^verbatim>\<open>val_store\<close> to an \<^verbatim>\<open>int\<close> and to an \<^verbatim>\<open>unsigned long long\<close>.\<close>

definition store_int :: "option_data \<Rightarrow> nat \<Rightarrow> u64 \<Rightarrow> option_data" where
  "store_int data off val = data(off := ucast (ucast val :: u32))"

definition store_ull :: "option_data \<Rightarrow> nat \<Rightarrow> u64 \<Rightarrow> option_data" where
  "store_ull data off val = data(off := val)"

text \<open>The stores of \<^verbatim>\<open>FIO_OPT_INT\<close> and \<^verbatim>\<open>FIO_OPT_ULL\<close>, which differ in the width only.\<close>

definition store_three ::
  "(option_data \<Rightarrow> nat \<Rightarrow> u64 \<Rightarrow> option_data) \<Rightarrow> fio_option \<Rightarrow> bool \<Rightarrow> bool \<Rightarrow> nat \<Rightarrow> u64 \<Rightarrow> option_data \<Rightarrow> option_data" where
  "store_three st opt first further cur ull data = (let
     data = (if first then st data (off1 opt) ull else data);
     data = (if cur = 1 \<and> off2 opt \<noteq> 0 then st data (off2 opt) ull else data);
     data = (if cur = 2 \<and> off3 opt \<noteq> 0 then st data (off3 opt) ull else data);
     data = (if \<not> further \<and> cur < 1 \<and> off2 opt \<noteq> 0 then st data (off2 opt) ull else data)
   in if \<not> further \<and> cur < 2 \<and> off3 opt \<noteq> 0 then st data (off3 opt) ull else data)"

text \<open>\<^verbatim>\<open>strtoul(s, &end, 10)\<close>\<close>

definition strtoul10 :: "string \<Rightarrow> u64 \<times> nat \<times> bool" where
  "strtoul10 s = (let
     ws = length (takeWhile isspace s);
     t = drop ws s;
     neg = (t \<noteq> [] \<and> hd t = CHR ''-'');
     sg = (if t \<noteq> [] \<and> (hd t = CHR ''-'' \<or> hd t = CHR ''+'') then 1 else 0);
     ds = takeWhile isdigit (drop sg t);
     n = num_value 10 ds
   in if ds = [] then (0, 0, False)
      else if 2 ^ 64 \<le> n then (u64_max, ws + sg + length ds, True)
      else (if neg then - of_nat n else of_nat n, ws + sg + length ds, False))"

definition ZONE_BASE_VAL :: u64 where "ZONE_BASE_VAL = 0x8000000000000000"

text \<open>From the label \<^verbatim>\<open>store_option_value\<close> on.\<close>

definition store_option_value :: "fio_option \<Rightarrow> bool \<Rightarrow> bool \<Rightarrow> nat \<Rightarrow> u64 \<Rightarrow> option_data \<Rightarrow> option_data \<times> nat" where
  "store_option_value opt first further cur ull data = (case opt_cb opt of
     Some fn \<Rightarrow> fn data ull
   | None \<Rightarrow>
      (if opt_type opt = FIO_OPT_INT then store_three store_int opt first further cur ull data
       else if opt_type opt = FIO_OPT_ULL then store_three store_ull opt first further cur ull data
       else (let data = (if first then store_ull data (off1 opt) ull else data) in
         if \<not> further \<and> off2 opt \<noteq> 0 then store_ull data (off2 opt) ull else data), 0))"

definition check_value :: "bool \<Rightarrow> nat \<Rightarrow> fio_option \<Rightarrow> string \<Rightarrow> u64 option" where
  "check_value erange kb_base opt tmp = (if opt_type opt = FIO_OPT_STR_VAL_TIME \<or> opt_is_time opt
     then check_str_time erange tmp (opt_is_seconds opt) else check_str_bytes erange kb_base tmp)"

definition handle_number ::
  "bool \<Rightarrow> nat \<Rightarrow> fio_option \<Rightarrow> string \<Rightarrow> bool \<Rightarrow> bool \<Rightarrow> nat \<Rightarrow> option_data \<Rightarrow> option_data \<times> nat" where
  "handle_number erange kb_base opt ptr first further cur data =
     (if ptr \<noteq> [] \<and> last ptr = CHR ''z'' then
        (if opt_type opt = FIO_OPT_STR_VAL_ZONE then
           (let (val, ep, over) = strtoul10 ptr in
            if \<not> over \<and> ep \<noteq> 0 \<and> ep < length ptr \<and> ptr ! ep = CHR ''z''
            then store_option_value opt first further cur (ZONE_BASE_VAL + ucast (ucast val :: u32)) data
            else (data, 1))
         else (data, 1))
      else (case check_value erange kb_base opt (takeWhile (\<lambda>c. c \<noteq> CHR '','') (take 127 ptr)) of
        None \<Rightarrow> (data, 1)
      | Some ull \<Rightarrow>
         if opt_pow2 opt \<and> \<not> is_power_of_2 ull then (data, 1)
         else if val_too_large opt ull (opt_type opt = FIO_OPT_INT) then (data, 1)
         else if val_too_small opt ull (opt_type opt = FIO_OPT_INT) then (data, 1)
         else if posval opt \<noteq> [] \<and> (\<forall>(ival, oval) \<in> set (posval opt). ival = [] \<or> oval \<noteq> ull) then (data, 1)
         else store_option_value opt first further cur ull data))"

definition check_range_bytes :: "bool \<Rightarrow> nat \<Rightarrow> string \<Rightarrow> u64 option" where
  "check_range_bytes erange kb_base str = str_to_decimal erange kb_base str True False"

definition store_pair :: "nat \<Rightarrow> nat \<Rightarrow> u64 \<Rightarrow> u64 \<Rightarrow> option_data \<Rightarrow> option_data" where
  "store_pair a b ull1 ull2 data = (if a \<noteq> 0 \<and> b \<noteq> 0 then store_ull (store_ull data a ull1) b ull2 else data)"

definition handle_range ::
  "bool \<Rightarrow> nat \<Rightarrow> fio_option \<Rightarrow> string \<Rightarrow> bool \<Rightarrow> bool \<Rightarrow> nat \<Rightarrow> option_data \<Rightarrow> option_data \<times> nat" where
  "handle_range erange kb_base opt ptr first further cur data =
     (let tmp = takeWhile (\<lambda>c. c \<noteq> CHR '','') (take 127 ptr) in
      case (case strchr tmp 45 of Some i \<Rightarrow> Some i | None \<Rightarrow> strchr tmp 58) of
        None \<Rightarrow> (data, 1)
      | Some i \<Rightarrow> (case (check_range_bytes erange kb_base (take i tmp), check_range_bytes erange kb_base (drop (Suc i) tmp)) of
          (Some ull1, Some ull2) \<Rightarrow> (let
            (ull1, ull2) = (if sint ull2 < sint ull1 then (ull2, ull1) else (ull1, ull2));
            data = (if first then store_ull (store_ull data (off1 opt) ull1) (off2 opt) ull2 else data);
            data = (if cur = 1 then store_pair (off3 opt) (off4 opt) ull1 ull2 data else data);
            data = (if cur = 2 then store_pair (off5 opt) (off6 opt) ull1 ull2 data else data);
            data = (if \<not> further \<and> cur < 1 then store_pair (off3 opt) (off4 opt) ull1 ull2 data else data);
            data = (if \<not> further \<and> cur < 2 then store_pair (off5 opt) (off6 opt) ull1 ull2 data else data)
          in (data, 0))
        | _ \<Rightarrow> (data, 1)))"

text \<open>\<^verbatim>\<open>__handle_option\<close> for these options: the branch, then the check of the option.\<close>

definition is_number :: "fio_opt_type \<Rightarrow> bool" where
  "is_number t \<longleftrightarrow> t = FIO_OPT_STR_VAL_TIME \<or> t = FIO_OPT_ULL \<or> t = FIO_OPT_INT \<or> t = FIO_OPT_STR_VAL \<or> t = FIO_OPT_STR_VAL_ZONE"

definition handle_one ::
  "bool \<Rightarrow> nat \<Rightarrow> fio_option \<Rightarrow> string \<Rightarrow> bool \<Rightarrow> bool \<Rightarrow> nat \<Rightarrow> option_data \<Rightarrow> option_data \<times> nat" where
  "handle_one erange kb_base opt ptr first further cur data = (let
     (data, ret) = (if is_number (opt_type opt) then handle_number erange kb_base opt ptr first further cur data
       else handle_range erange kb_base opt ptr first further cur data)
   in if ret \<noteq> 0 then (data, ret)
      else (case opt_verify opt of None \<Rightarrow> (data, 0) | Some verify \<Rightarrow> (data, verify data)))"

text \<open>
  The text handed to \<^verbatim>\<open>__handle_option\<close> in one round, and what follows the separator. A comma at the end is cut off,
  but still counts as a separator.
\<close>

definition split_arg :: "fio_option \<Rightarrow> string \<Rightarrow> string \<times> string option" where
  "split_arg opt ptr = (case strchr ptr 44 of
     Some i \<Rightarrow> (if Suc i = length ptr then take i ptr else ptr, Some (drop (Suc i) ptr))
   | None \<Rightarrow>
      (if opt_type opt = FIO_OPT_RANGE then (ptr, None)
       else case strchr ptr 58 of Some i \<Rightarrow> (ptr, Some (drop (Suc i) ptr))
       | None \<Rightarrow> (case strchr ptr 45 of Some i \<Rightarrow> (ptr, Some (drop (Suc i) ptr)) | None \<Rightarrow> (ptr, None))))"

lemma split_arg_shorter: "split_arg opt ptr = (s, Some rest) \<Longrightarrow> length rest < length ptr"
  by (auto simp: split_arg_def strchr_def Let_def split: option.splits if_splits)

text \<open>The \<^verbatim>\<open>do\<close> loop; \<open>k\<close> is \<^verbatim>\<open>done\<close>.\<close>

function handle_rounds :: "bool \<Rightarrow> nat \<Rightarrow> fio_option \<Rightarrow> string \<Rightarrow> nat \<Rightarrow> nat \<Rightarrow> option_data \<Rightarrow> option_data \<times> nat" where
  "handle_rounds erange kb_base opt ptr k ret data = (case split_arg opt ptr of (s, ptr2) \<Rightarrow>
     case handle_one erange kb_base opt s (k = 0) (ptr2 \<noteq> None) k data of (data, r) \<Rightarrow>
       let ret = (if ret \<noteq> 0 then r else ret) in
       case ptr2 of None \<Rightarrow> (data, ret) | Some ptr \<Rightarrow> handle_rounds erange kb_base opt ptr (Suc k) ret data)"
  by pat_completeness auto
termination
  by (relation "measure (\<lambda>(_, _, _, ptr, _). length ptr)") (auto dest!: split_arg_shorter [OF sym])

declare handle_rounds.simps [simp del]

definition handle_option :: "bool \<Rightarrow> nat \<Rightarrow> fio_option \<Rightarrow> string \<Rightarrow> option_data \<Rightarrow> option_data \<times> nat" where
  "handle_option erange kb_base opt ptr data = handle_rounds erange kb_base opt ptr 0 1 data"

section \<open>Up to three values\<close>

text \<open>An option that stores a value for reads, writes and trims each, and has neither a callback nor a check of its own, as \<^verbatim>\<open>bs\<close> and \<^verbatim>\<open>percentage_random\<close>.\<close>

definition three_option :: "fio_option \<Rightarrow> bool" where
  "three_option opt \<longleftrightarrow> (opt_type opt = FIO_OPT_INT \<or> opt_type opt = FIO_OPT_ULL) \<and> opt_cb opt = None \<and> opt_verify opt = None \<and>
     distinct [0, off1 opt, off2 opt, off3 opt]"

text \<open>The number a text stands for, if the limits of the option allow it.\<close>

definition allowed :: "fio_option \<Rightarrow> u64 \<Rightarrow> bool" where
  "allowed opt v \<longleftrightarrow> (opt_pow2 opt \<longrightarrow> is_power_of_2 v) \<and>
     \<not> val_too_large opt v (opt_type opt = FIO_OPT_INT) \<and> \<not> val_too_small opt v (opt_type opt = FIO_OPT_INT) \<and>
     (posval opt = [] \<or> (\<exists>(ival, oval) \<in> set (posval opt). ival \<noteq> [] \<and> oval = v))"

definition valid_value :: "bool \<Rightarrow> nat \<Rightarrow> fio_option \<Rightarrow> string \<Rightarrow> u64 option" where
  "valid_value erange kb opt s = (case check_value erange kb opt s of None \<Rightarrow> None | Some v \<Rightarrow> if allowed opt v then Some v else None)"

definition stored :: "fio_option \<Rightarrow> u64 \<Rightarrow> u64" where
  "stored opt v = (if opt_type opt = FIO_OPT_INT then ucast (ucast v :: u32) else v)"

text \<open>A text without separators that is short enough for the buffer and does not name a zone.\<close>

definition arg_text :: "string \<Rightarrow> bool" where
  "arg_text s \<longleftrightarrow> (\<forall>c \<in> set s. c \<noteq> CHR '','' \<and> c \<noteq> CHR '':'' \<and> c \<noteq> CHR ''-'') \<and> length s < 128 \<and> s \<noteq> [] \<and> last s \<noteq> CHR ''z''"

fun join_args :: "string list \<Rightarrow> string" where
  "join_args [] = []"
| "join_args [s] = s"
| "join_args (s # ss) = s @ CHR '','' # join_args ss"

lemma strchr_None: "strchr s q = None \<longleftrightarrow> (\<forall>c \<in> set s. of_char c \<noteq> q)"
proof -
  have "length (takeWhile (\<lambda>c. of_char c \<noteq> q) s) = length s \<longleftrightarrow> takeWhile (\<lambda>c. of_char c \<noteq> q) s = s"
    by (metis takeWhile_eq_take take_all_iff order_refl)
  moreover have "length (takeWhile (\<lambda>c. of_char c \<noteq> q) s) \<le> length s" by (rule length_takeWhile_le)
  ultimately show ?thesis by (auto simp: strchr_def Let_def takeWhile_eq_all_conv not_less)
qed

lemma strchr_first:
  assumes "\<forall>c \<in> set s. of_char c \<noteq> q" and "of_char d = q"
  shows "strchr (s @ d # r) q = Some (length s)"
  using assms by (simp add: strchr_def takeWhile_append2)

lemma arg_text_codes:
  assumes "arg_text s" and "c \<in> set s"
  shows "of_char c \<noteq> (44 :: nat)" "of_char c \<noteq> (58 :: nat)" "of_char c \<noteq> (45 :: nat)"
proof -
  have "c \<noteq> CHR '',''" "c \<noteq> CHR '':''" "c \<noteq> CHR ''-''" using assms by (auto simp: arg_text_def)
  moreover have "of_char CHR '','' = (44 :: nat)" "of_char CHR '':'' = (58 :: nat)" "of_char CHR ''-'' = (45 :: nat)" by simp_all
  ultimately show "of_char c \<noteq> (44 :: nat)" "of_char c \<noteq> (58 :: nat)" "of_char c \<noteq> (45 :: nat)"
    by (metis of_char_eq_iff)+
qed

lemma split_arg_last:
  assumes "arg_text s"
  shows "split_arg opt s = (s, None)"
proof -
  have "strchr s 44 = None" "strchr s 58 = None" "strchr s 45 = None" using arg_text_codes [OF assms] strchr_None by blast+
  then show ?thesis by (simp add: split_arg_def)
qed

lemma split_arg_comma:
  assumes "arg_text s" and "r \<noteq> []"
  shows "split_arg opt (s @ CHR '','' # r) = (s @ CHR '','' # r, Some r)"
proof -
  have "strchr (s @ CHR '','' # r) 44 = Some (length s)"
    by (rule strchr_first) (use arg_text_codes(1) [OF assms(1)] in auto)
  then show ?thesis using assms(2) by (simp add: split_arg_def)
qed

lemma tmp_text:
  assumes "arg_text s"
  shows "takeWhile (\<lambda>c. c \<noteq> CHR '','') (take 127 (s @ CHR '','' # r)) = s" "takeWhile (\<lambda>c. c \<noteq> CHR '','') (take 127 s) = s"
proof -
  have s: "takeWhile (\<lambda>c. c \<noteq> CHR '','') s = s" using assms by (auto simp: arg_text_def takeWhile_eq_all_conv)
  have l: "length s \<le> 127" using assms by (simp add: arg_text_def)
  show "takeWhile (\<lambda>c. c \<noteq> CHR '','') (take 127 s) = s" using s l by simp
  show "takeWhile (\<lambda>c. c \<noteq> CHR '','') (take 127 (s @ CHR '','' # r)) = s"
  proof (cases "length s = 127")
    case False
    then obtain n where "127 - length s = Suc n" using l by (cases "127 - length s") auto
    then show ?thesis using l s by (simp add: takeWhile_append2 arg_text_def)
  qed (use s in simp)
qed

lemma arg_text_last: "arg_text s \<Longrightarrow> s \<noteq> [] \<and> last s \<noteq> CHR ''z''"
  by (simp add: arg_text_def)

text \<open>One round of such an option.\<close>

lemma plain_stores:
  assumes "three_option opt"
  shows "store_option_value opt first further cur ull data = (let v = stored opt ull;
     data = (if first then data(off1 opt := v) else data);
     data = (if cur = 1 \<or> \<not> further \<and> cur < 1 then data(off2 opt := v) else data)
   in if cur = 2 \<or> \<not> further \<and> cur < 2 then data(off3 opt := v) else data, 0)"
proof -
  have o: "off2 opt \<noteq> 0" "off3 opt \<noteq> 0" "opt_cb opt = None" "opt_type opt = FIO_OPT_INT \<or> opt_type opt = FIO_OPT_ULL"
    using assms by (auto simp: three_option_def)
  have "store_int = (\<lambda>d off v. d(off := stored opt v))" if "opt_type opt = FIO_OPT_INT"
    using that by (simp add: fun_eq_iff store_int_def stored_def)
  moreover have "store_ull = (\<lambda>d off v. d(off := stored opt v))" if "opt_type opt = FIO_OPT_ULL"
    using that by (simp add: fun_eq_iff store_ull_def stored_def)
  ultimately have "store_option_value opt first further cur ull data = (store_three (\<lambda>d off v. d(off := stored opt v)) opt first further cur ull data, 0)"
    using o(3,4) by (cases "opt_type opt = FIO_OPT_INT") (simp_all add: store_option_value_def)
  then show ?thesis using o(1,2)
    by (cases "cur = 0"; cases "cur = 1"; cases "cur = 2"; cases further; cases first; simp add: store_three_def Let_def)
qed

lemma plain_store_ret:
  assumes "three_option opt"
  obtains d where "store_option_value opt first further cur ull data = (d, 0)"
  using plain_stores [OF assms] by blast

lemma plain_round:
  assumes opt: "three_option opt" and s: "arg_text s" and tail: "ptr = s \<or> (\<exists>r. ptr = s @ CHR '','' # r \<and> r \<noteq> [] \<and> last r \<noteq> CHR ''z'')"
  shows "handle_one erange kb opt ptr first further cur data = (case valid_value erange kb opt s of
    None \<Rightarrow> (data, 1) | Some v \<Rightarrow> store_option_value opt first further cur v data)"
proof -
  have t: "takeWhile (\<lambda>c. c \<noteq> CHR '','') (take 127 ptr) = s" using tail tmp_text [OF s] by (elim disjE exE conjE) simp_all
  have z: "\<not> (ptr \<noteq> [] \<and> last ptr = CHR ''z'')" using tail arg_text_last [OF s] by (elim disjE exE conjE) simp_all
  have o: "is_number (opt_type opt)" "opt_verify opt = None" using opt by (auto simp: three_option_def is_number_def)
  have eq: "handle_number erange kb opt ptr first further cur data = (case valid_value erange kb opt s of
      None \<Rightarrow> (data, 1) | Some v \<Rightarrow> store_option_value opt first further cur v data)"
    unfolding handle_number_def if_not_P [OF z] t valid_value_def
    by (cases "check_value erange kb opt s") (auto simp: allowed_def)
  show ?thesis
  proof (cases "valid_value erange kb opt s")
    case None
    then show ?thesis using o eq by (simp add: handle_one_def)
  next
    case (Some v)
    obtain d where "store_option_value opt first further cur v data = (d, 0)" using opt by (rule plain_store_ret)
    then show ?thesis using Some o eq by (simp add: handle_one_def)
  qed
qed

lemma round_last:
  assumes "three_option opt" and "arg_text s"
  shows "handle_rounds erange kb opt s k ret data = (case valid_value erange kb opt s of
    None \<Rightarrow> (data, if ret \<noteq> 0 then 1 else 0)
  | Some v \<Rightarrow> (fst (store_option_value opt (k = 0) False k v data), 0))"
proof (cases "valid_value erange kb opt s")
  case None
  then show ?thesis using plain_round [OF assms, of s]
    by (subst handle_rounds.simps) (simp add: split_arg_last [OF assms(2)] Let_def)
next
  case (Some v)
  obtain d where "store_option_value opt (k = 0) False k v data = (d, 0)" using assms(1) by (rule plain_store_ret)
  then show ?thesis using Some plain_round [OF assms, of s]
    by (subst handle_rounds.simps) (simp add: split_arg_last [OF assms(2)] Let_def)
qed

lemma round_comma:
  assumes "three_option opt" and "arg_text s" and "r \<noteq> []" "last r \<noteq> CHR ''z''"
  shows "handle_rounds erange kb opt (s @ CHR '','' # r) k ret data = (case valid_value erange kb opt s of
    None \<Rightarrow> handle_rounds erange kb opt r (Suc k) (if ret \<noteq> 0 then 1 else 0) data
  | Some v \<Rightarrow> handle_rounds erange kb opt r (Suc k) 0 (fst (store_option_value opt (k = 0) True k v data)))"
proof (cases "valid_value erange kb opt s")
  case None
  then show ?thesis using plain_round [OF assms(1,2), of "s @ CHR '','' # r"] assms(3,4)
    by (subst handle_rounds.simps) (simp add: split_arg_comma [OF assms(2,3)] Let_def)
next
  case (Some v)
  obtain d where "store_option_value opt (k = 0) True k v data = (d, 0)" using assms(1) by (rule plain_store_ret)
  then show ?thesis using Some plain_round [OF assms(1,2), of "s @ CHR '','' # r"] assms(3,4)
    by (subst handle_rounds.simps) (simp add: split_arg_comma [OF assms(2,3)] Let_def)
qed

text \<open>
  C34 (functional): for an option that holds a value for reads, writes and trims each, without a callback or a check of its own, one, two or three values
  separated by commas, each a text that parses to a number within the limits of the option, are stored for reads, writes and trims; the last one given stands
  for those that follow.
\<close>

theorem handle_option_three:
  assumes "three_option opt" and "list_all2 (\<lambda>s v. arg_text s \<and> valid_value erange kb opt s = Some v) ss vs"
    and "0 < length ss" and "length ss \<le> 3"
  shows "handle_option erange kb opt (join_args ss) data =
    (data(off1 opt := stored opt (vs ! 0), off2 opt := stored opt (vs ! min 1 (length vs - 1)),
      off3 opt := stored opt (vs ! min 2 (length vs - 1))), 0)"
proof -
  consider a where "ss = [a]" | a b where "ss = [a, b]" | a b c where "ss = [a, b, c]"
    using assms(3,4) by (cases ss rule: join_args.cases; cases "tl (tl ss)") (auto simp: Suc_le_eq)
  then show ?thesis
  proof cases
    case 1
    then obtain va where "vs = [va]" "arg_text a" "valid_value erange kb opt a = Some va"
      using assms(2) by (auto simp: list_all2_Cons1)
    then show ?thesis using 1 assms(1) by (simp add: handle_option_def round_last plain_stores Let_def)
  next
    case 2
    then obtain va vb where v: "vs = [va, vb]" "arg_text a" "arg_text b" "valid_value erange kb opt a = Some va"
        "valid_value erange kb opt b = Some vb"
      using assms(2) by (auto simp: list_all2_Cons1)
    then show ?thesis using 2 assms(1) arg_text_last [OF v(3)]
      by (simp add: handle_option_def round_comma round_last plain_stores Let_def)
  next
    case 3
    then obtain va vb vc where v: "vs = [va, vb, vc]" "arg_text a" "arg_text b" "arg_text c" "valid_value erange kb opt a = Some va"
        "valid_value erange kb opt b = Some vb" "valid_value erange kb opt c = Some vc"
      using assms(2) by (auto simp: list_all2_Cons1)
    then show ?thesis using 3 assms(1) arg_text_last [OF v(4)]
      by (simp add: handle_option_def round_comma round_last plain_stores Let_def)
  qed
qed

text \<open>
  A value behind the first that does not parse or is out of range is ignored: the option is accepted, and the values for writes and
  trims are left as they were.
\<close>

theorem later_error_ignored:
  assumes "three_option opt" and "arg_text a" and "valid_value erange kb opt a = Some v"
    and "arg_text b" and "valid_value erange kb opt b = None"
  shows "handle_option erange kb opt (a @ CHR '','' # b) data = (data(off1 opt := stored opt v), 0)"
  using assms arg_text_last [OF assms(4)] by (simp add: handle_option_def round_comma round_last plain_stores Let_def)

text \<open>The option \<^verbatim>\<open>bs\<close> of \<^verbatim>\<open>options.c\<close>, with its least value 1; the offsets are examples.\<close>

definition bs_option :: fio_option where
  "bs_option = \<lparr>opt_type = FIO_OPT_ULL, off1 = 8, off2 = 16, off3 = 24, off4 = 0, off5 = 0, off6 = 0, maxval = 0, minval = 1, posval = [],
     opt_cb = None, opt_verify = None, opt_is_seconds = False, opt_is_time = False, opt_pow2 = False\<rparr>"

lemma bs_option_plain: "three_option bs_option"
  by (simp add: three_option_def bs_option_def)

lemma bs_texts:
  "arg_text ''4k''" "valid_value False 1024 bs_option ''4k'' = Some 4096" "arg_text ''8''" "valid_value False 1024 bs_option ''8'' = Some 8"
  "arg_text ''0''" "valid_value False 1024 bs_option ''0'' = None"
  by code_simp+

theorem handle_option_three_witness:
  "handle_option False 1024 bs_option ''4k,8'' (\<lambda>_. 0) = ((\<lambda>_. 0)(8 := 4096, 16 := 8, 24 := 8), 0)"
  using handle_option_three [OF bs_option_plain, of False 1024 "[''4k'', ''8'']" "[4096, 8]" "\<lambda>_. 0"] bs_texts
  by (simp add: bs_option_def stored_def)

theorem later_error_ignored_witness:
  "handle_option False 1024 bs_option ''4k,0'' (\<lambda>_. 0) = ((\<lambda>_. 0)(8 := 4096), 0)"
  using later_error_ignored [OF bs_option_plain bs_texts(1,2,5,6), of "\<lambda>_. 0"] by (simp add: bs_option_def stored_def)

end
