(* ===== verification/Zbd_Adjust.thy ===== *)
theory Zbd_Adjust
  imports Zbd Io_Offset
begin

text \<open>
  \<^verbatim>\<open>zbd.c\<close>, how an I/O is fitted to the zones: the zones emulated on a file, the search for a zone with data, and the
  adjustment of reads, of writes to conventional zones and of writes to a zone that has been chosen. \<open>None\<close> is a failed assertion.
\<close>

section \<open>Emulated zones\<close>

fun ilog2_loop :: "nat \<Rightarrow> u64 \<Rightarrow> int" where
  "ilog2_loop 0 i = - 1"
| "ilog2_loop (Suc n) i = (if i = 0 then - 1 else 1 + ilog2_loop n (drop_bit 1 i))"

text \<open>Sixty-five rounds are enough: each drops a bit.\<close>

definition ilog2 :: "u64 \<Rightarrow> int" where
  "ilog2 i = ilog2_loop 65 i"

definition emulated_zone :: "u64 \<Rightarrow> u64 \<Rightarrow> nat \<Rightarrow> fio_zone_info" where
  "emulated_zone zsize zcap i = \<lparr>zstart = of_nat i * zsize, zwp = of_nat i * zsize, zcapacity = zcap,
     zcond = ZBD_ZONE_COND_EMPTY, zhas_wp = True, zwrite = False, zreset = False\<rparr>"

text \<open>\<open>mem\<close>: the allocation succeeds. The result is an error or the zones, with the limit of the write targets still to be set.\<close>

definition init_zone_info :: "bool \<Rightarrow> u64 \<Rightarrow> u64 \<Rightarrow> u64 \<Rightarrow> zbd_info option" where
  "init_zone_info mem zsize zcap real_size =
     (if zsize = 0 then None
      else if zsize < 512 then None
      else (let zcap = (if zcap = 0 then zsize else zcap) in
        if zsize < zcap then None
        else if real_size < zsize then None
        else (let nrz = (ucast ((real_size + zsize - 1) div zsize) :: u32) in
          if \<not> mem then None
          else Some \<lparr>zmodel = ZBD_NONE, max_write_zones = 0, max_active_zones = 0, zone_size = zsize,
            wp_valid_data_bytes = 0, write_min_zone = 0, write_max_zone = 0,
            zone_size_log2 = (if is_power_of_2 zsize then nat (ilog2 zsize) else 0), nr_zones = nrz, write_zones = [],
            zone_info = map (emulated_zone zsize zcap) [0..<unat nrz] @ [sentinel (ucast nrz * zsize)]\<rparr>)))"

section \<open>Finding a zone with data\<close>

definition zone_online :: "zbd_info \<Rightarrow> nat \<Rightarrow> bool option" where
  "zone_online zi n = map_option (\<lambda>z. zcond z \<noteq> ZBD_ZONE_COND_OFFLINE) (rd (zone_info zi) n)"

text \<open>The zone is locked if it has a write pointer; \<^verbatim>\<open>zone_lock\<close> asserts that it belongs to the file's range.\<close>

definition zone_readable :: "zbd_info \<Rightarrow> zbd_file \<Rightarrow> u64 \<Rightarrow> nat \<Rightarrow> bool option" where
  "zone_readable zi f min_bytes n = do {
     z \<leftarrow> rd (zone_info zi) n;
     c_assert (zhas_wp z \<longrightarrow> min_zone f \<le> n \<and> n < max_zone f);
     Some (zstart z + min_bytes \<le> zwp z) }"

function find_zone_loop :: "bool \<Rightarrow> zbd_info \<Rightarrow> zbd_file \<Rightarrow> u64 \<Rightarrow> nat \<Rightarrow> nat \<Rightarrow> int \<Rightarrow> nat option option" where
  "find_zone_loop rand zi f min_bytes zl z1 z2 =
     (if \<not> (z1 < zl \<or> int (min_zone f) \<le> z2) then Some None
      else do {
        on1 \<leftarrow> (if z1 < zl then zone_online zi z1 else Some False);
        hit1 \<leftarrow> (if on1 then zone_readable zi f min_bytes z1 else Some False);
        if hit1 then Some (Some z1)
        else if \<not> on1 \<and> \<not> rand then Some None
        else do {
          on2 \<leftarrow> (if rand \<and> int (min_zone f) \<le> z2 then zone_online zi (nat z2) else Some False);
          hit2 \<leftarrow> (if on2 then zone_readable zi f min_bytes (nat z2) else Some False);
          if hit2 then Some (Some (nat z2)) else find_zone_loop rand zi f min_bytes zl (z1 + 1) (z2 - 1) } })"
  by pat_completeness auto
termination
  by (relation "measure (\<lambda>(_, _, f, _, zl, z1, z2). (zl - z1) + nat (z2 - int (min_zone f) + 1))") auto

declare find_zone_loop.simps [simp del]

definition zbd_find_zone :: "bool \<Rightarrow> zbd_info \<Rightarrow> zbd_file \<Rightarrow> u64 \<Rightarrow> nat \<Rightarrow> nat \<Rightarrow> nat option option" where
  "zbd_find_zone rand zi f min_bytes zb zl = find_zone_loop rand zi f min_bytes zl (zb + 1) (int zb - 1)"

section \<open>Reads\<close>

text \<open>The outcome: the I/O goes ahead with an offset and a length, the file has ended for this job, or the I/O has become a verify.\<close>

datatype adjusted = Accept u64 u64 | Eof | Verify_instead

definition round_down :: "u64 \<Rightarrow> u64 \<Rightarrow> u64" where
  "round_down len min_bs = len div min_bs * min_bs"

text \<open>
  The case \<^verbatim>\<open>DDIR_READ\<close> of \<^verbatim>\<open>zbd_adjust_block\<close>; \<open>verifying\<close> stands for \<^verbatim>\<open>td->runstate == TD_VERIFYING && td_write(td)\<close>.
  First the zone that is read, the bytes written there, and the offset so far.
\<close>

definition read_zone :: "bool \<Rightarrow> u64 \<Rightarrow> zbd_info \<Rightarrow> zbd_file \<Rightarrow> nat \<Rightarrow> u64 \<Rightarrow> (fio_zone_info \<times> u64 \<times> u64) option option" where
  "read_zone rand min_bs zi f zb off = do {
     z \<leftarrow> rd (zone_info zi) zb;
     let rng = (if zcond z \<noteq> ZBD_ZONE_COND_OFFLINE then zwp z - zstart z else 0);
     if rng < min_bs \<or> \<not> rand \<and> zwp z < off + min_bs then do {
       r \<leftarrow> zbd_find_zone rand zi f min_bs zb (max_zone f);
       case r of None \<Rightarrow> Some None | Some n \<Rightarrow> do {
         z \<leftarrow> rd (zone_info zi) n;
         let rng = zwp z - zstart z;
         c_assert (min_bs \<le> rng);
         Some (Some (z, rng, if rand then off else zstart z)) } }
     else Some (Some (z, rng, off)) }"

definition accept_zone :: "fio_zone_info \<Rightarrow> u64 \<Rightarrow> u64 \<Rightarrow> adjusted option" where
  "accept_zone z off len = do {
     c_assert (zhas_wp z);
     c_assert (zcond z \<noteq> ZBD_ZONE_COND_OFFLINE);
     Some (Accept off len) }"

definition adjust_read :: "bool \<Rightarrow> bool \<Rightarrow> u64 \<Rightarrow> zbd_info \<Rightarrow> zbd_file \<Rightarrow> nat \<Rightarrow> u64 \<Rightarrow> u64 \<Rightarrow> adjusted option" where
  "adjust_read rand verifying min_bs zi f zb off len = do {
     orig_zb \<leftarrow> rd (zone_info zi) zb;
     if verifying then accept_zone orig_zb off len
     else do {
       r \<leftarrow> read_zone rand min_bs zi f zb off;
       case r of None \<Rightarrow> Some Eof | Some (z, rng, off) \<Rightarrow> do {
         c_assert (min_bs \<noteq> 0);
         let off = (if rng \<le> len then zstart z
           else if rand then zstart z + round_down ((off - zstart orig_zb) mod (rng - len)) min_bs else off);
         if \<not> zhas_wp z then Some (Accept off len)
         else do {
           let new_len = round_down (min len (zwp z - off)) min_bs;
           let len = (if new_len < len then new_len else len);
           c_assert (zstart z \<le> off);
           c_assert (off + len \<le> zwp z);
           accept_zone z off len } } } }"

section \<open>Writes\<close>

text \<open>Writes to a conventional zone in front of a sequential one.\<close>

definition adjust_conventional :: "u64 \<Rightarrow> zbd_info \<Rightarrow> nat \<Rightarrow> u64 \<Rightarrow> u64 \<Rightarrow> adjusted option" where
  "adjust_conventional min_bs zi zb off len = do {
     z \<leftarrow> rd (zone_info zi) zb;
     next \<leftarrow> rd (zone_info zi) (zb + 1);
     if \<not> zhas_wp next \<or> off + len \<le> zstart next then Some (Accept off len)
     else do {
       c_assert (min_bs \<noteq> 0);
       let (off, new_len) = (if zstart next < off + min_bs
         then (let off = zstart z + zstart next - off in (off, min len (zstart next - off)))
         else (off, zstart next - off));
       Some (Accept off (round_down new_len min_bs)) } }"

text \<open>The end of the case \<^verbatim>\<open>DDIR_WRITE\<close>: the write is put at the write pointer and shortened to what is left of the zone.\<close>

definition write_at_wp :: "zbd_job \<Rightarrow> zbd_file \<Rightarrow> zbd_info \<Rightarrow> nat \<Rightarrow> u64 \<Rightarrow> adjusted option" where
  "write_at_wp td f zi zb len = (let min_bs = zj_min_bs td in do {
     z \<leftarrow> rd (zone_info zi) zb;
     full \<leftarrow> zbd_zone_full z min_bs;
     c_assert (\<not> full);
     let off = zwp z;
     if \<not> is_valid_offset f off then Some Eof
     else do {
       c_assert (min_bs \<noteq> 0);
       let new_len = round_down (min len (zbd_zone_capacity_end z - off)) min_bs;
       if new_len = len \<or> min_bs \<le> new_len then accept_zone z off new_len else Some Eof } })"

text \<open>
  The case \<^verbatim>\<open>DDIR_WRITE\<close> from the check of the reset threshold on, with the zone chosen: \<open>threshold\<close> is whether it calls for
  a reset, \<open>verify\<close> whether a block to verify is found, and \<open>dev\<close> whether the device resets the zone.
\<close>

definition adjust_write ::
  "bool \<Rightarrow> bool \<Rightarrow> bool \<Rightarrow> zbd_job \<Rightarrow> zbd_file \<Rightarrow> zbd_info \<Rightarrow> nat \<Rightarrow> u64 \<Rightarrow> (zbd_info \<times> adjusted) option" where
  "adjust_write threshold verify dev td f zi zb len = do {
     z \<leftarrow> rd (zone_info zi) zb;
     let z = (if threshold then z\<lparr>zreset := True\<rparr> else z);
     let zi = set_zone zi zb z;
     full \<leftarrow> (if zreset z then Some True else zbd_zone_full z (zj_min_bs td));
     if full \<and> zj_verify td \<and> verify then Some (zi, Verify_instead)
     else do {
       (zi, ok) \<leftarrow> (if full then zbd_reset_wp_zone dev td f (set_zone zi zb (z\<lparr>zreset := False\<rparr>)) zb else Some (zi, True));
       if \<not> ok \<or> full \<and> zcapacity z < zj_min_bs td then Some (zi, Eof)
       else do {
         a \<leftarrow> write_at_wp td f zi zb len;
         Some (zi, a) } } }"

section \<open>The search\<close>

text \<open>A zone that \<^verbatim>\<open>zbd_find_zone\<close> may return.\<close>

definition readable :: "zbd_info \<Rightarrow> u64 \<Rightarrow> nat \<Rightarrow> bool" where
  "readable zi min_bytes n \<longleftrightarrow> n < length (zone_info zi) \<and> zcond (zone_info zi ! n) \<noteq> ZBD_ZONE_COND_OFFLINE \<and>
     zstart (zone_info zi ! n) + min_bytes \<le> zwp (zone_info zi ! n)"

lemma probe:
  assumes "n < length (zone_info zi)" and "min_zone f \<le> n" and "n < max_zone f"
  shows "zone_online zi n = Some (zcond (zone_info zi ! n) \<noteq> ZBD_ZONE_COND_OFFLINE)"
    "zone_readable zi f min_bytes n = Some (zstart (zone_info zi ! n) + min_bytes \<le> zwp (zone_info zi ! n))"
  using assms by (simp_all add: zone_online_def zone_readable_def)

lemma probe_both:
  assumes "c \<Longrightarrow> n < length (zone_info zi)" and "c \<Longrightarrow> min_zone f \<le> n" and "c \<Longrightarrow> n < max_zone f"
  shows "(if c then zone_online zi n else Some False) = Some (c \<and> zcond (zone_info zi ! n) \<noteq> ZBD_ZONE_COND_OFFLINE)"
    "(if c \<and> zcond (zone_info zi ! n) \<noteq> ZBD_ZONE_COND_OFFLINE then zone_readable zi f min_bytes n else Some False) =
      Some (c \<and> readable zi min_bytes n)"
  using assms by (auto simp: readable_def probe)

lemma find_zone_loop_step:
  assumes "max_zone f \<le> length (zone_info zi)" and "min_zone f \<le> z1" and "z2 < int (max_zone f)"
    and "z1 < max_zone f \<or> int (min_zone f) \<le> z2"
  shows "find_zone_loop rand zi f min_bytes (max_zone f) z1 z2 =
    (if z1 < max_zone f \<and> readable zi min_bytes z1 then Some (Some z1)
     else if \<not> (z1 < max_zone f \<and> zcond (zone_info zi ! z1) \<noteq> ZBD_ZONE_COND_OFFLINE) \<and> \<not> rand then Some None
     else if (rand \<and> int (min_zone f) \<le> z2) \<and> readable zi min_bytes (nat z2) then Some (Some (nat z2))
     else find_zone_loop rand zi f min_bytes (max_zone f) (z1 + 1) (z2 - 1))"
proof -
  have a: "(if z1 < max_zone f then zone_online zi z1 else Some False) = Some (z1 < max_zone f \<and> zcond (zone_info zi ! z1) \<noteq> ZBD_ZONE_COND_OFFLINE)"
    "(if z1 < max_zone f \<and> zcond (zone_info zi ! z1) \<noteq> ZBD_ZONE_COND_OFFLINE then zone_readable zi f min_bytes z1 else Some False) =
      Some (z1 < max_zone f \<and> readable zi min_bytes z1)"
    by (rule probe_both [where f = f]; use assms in linarith)+
  have b: "(if rand \<and> int (min_zone f) \<le> z2 then zone_online zi (nat z2) else Some False) =
      Some ((rand \<and> int (min_zone f) \<le> z2) \<and> zcond (zone_info zi ! nat z2) \<noteq> ZBD_ZONE_COND_OFFLINE)"
    "(if (rand \<and> int (min_zone f) \<le> z2) \<and> zcond (zone_info zi ! nat z2) \<noteq> ZBD_ZONE_COND_OFFLINE then zone_readable zi f min_bytes (nat z2) else Some False) =
      Some ((rand \<and> int (min_zone f) \<le> z2) \<and> readable zi min_bytes (nat z2))"
    by (rule probe_both [where f = f]; use assms in linarith)+
  show ?thesis
    by (subst find_zone_loop.simps) (simp only: assms(4) not_True_eq_False if_False a b Option.bind.simps)
qed

lemma find_zone_found:
  assumes "max_zone f \<le> length (zone_info zi)" and "min_zone f \<le> z1" and "z2 < int (max_zone f)"
  shows "\<exists>r. find_zone_loop rand zi f min_bytes (max_zone f) z1 z2 = Some r \<and>
    (case r of Some n \<Rightarrow> min_zone f \<le> n \<and> n < max_zone f \<and> readable zi min_bytes n
     | None \<Rightarrow> rand \<longrightarrow> (\<forall>n. z1 \<le> n \<and> n < max_zone f \<or> min_zone f \<le> n \<and> int n \<le> z2 \<longrightarrow> \<not> readable zi min_bytes n))"
  using assms(2,3)
proof (induction "(max_zone f - z1) + nat (z2 - int (min_zone f) + 1)" arbitrary: z1 z2 rule: less_induct)
  case less
  show ?case
  proof (cases "z1 < max_zone f \<or> int (min_zone f) \<le> z2")
    case False
    then show ?thesis by (subst find_zone_loop.simps) auto
  next
    case True
    have m: "(max_zone f - (z1 + 1)) + nat (z2 - 1 - int (min_zone f) + 1) < (max_zone f - z1) + nat (z2 - int (min_zone f) + 1)"
      using True by linarith
    have "min_zone f \<le> z1 + 1" "z2 - 1 < int (max_zone f)" using less.prems by simp_all
    from less.hyps [OF m this] obtain r where
      r: "find_zone_loop rand zi f min_bytes (max_zone f) (z1 + 1) (z2 - 1) = Some r"
      "case r of Some n \<Rightarrow> min_zone f \<le> n \<and> n < max_zone f \<and> readable zi min_bytes n
       | None \<Rightarrow> rand \<longrightarrow> (\<forall>n. z1 + 1 \<le> n \<and> n < max_zone f \<or> min_zone f \<le> n \<and> int n \<le> z2 - 1 \<longrightarrow> \<not> readable zi min_bytes n)"
      by blast
    have split: "z1 + 1 \<le> n \<or> n = z1" if "z1 \<le> n" for n using that by linarith
    have split': "int n \<le> z2 - 1 \<or> n = nat z2 \<and> int (min_zone f) \<le> z2" if "int n \<le> z2" "min_zone f \<le> n" for n using that by linarith
    show ?thesis
      unfolding find_zone_loop_step [OF assms(1) less.prems True] r(1)
      using less.prems r(2) split split'
      by (cases r) (auto split: if_splits)
  qed
qed

lemma zbd_find_zone_found:
  assumes "max_zone f \<le> length (zone_info zi)" and "min_zone f \<le> zb" and "zb < max_zone f"
  obtains r where "zbd_find_zone rand zi f min_bytes zb (max_zone f) = Some r"
    and "\<And>n. r = Some n \<Longrightarrow> min_zone f \<le> n \<and> n < max_zone f \<and> readable zi min_bytes n"
    and "\<And>n. r = None \<Longrightarrow> rand \<Longrightarrow> min_zone f \<le> n \<Longrightarrow> n < max_zone f \<Longrightarrow> n \<noteq> zb \<Longrightarrow> \<not> readable zi min_bytes n"
proof -
  have "min_zone f \<le> zb + 1" "int zb - 1 < int (max_zone f)" using assms by simp_all
  from find_zone_found [OF assms(1) this, of rand min_bytes] obtain r where
    r: "find_zone_loop rand zi f min_bytes (max_zone f) (zb + 1) (int zb - 1) = Some r"
    "case r of Some n \<Rightarrow> min_zone f \<le> n \<and> n < max_zone f \<and> readable zi min_bytes n
     | None \<Rightarrow> rand \<longrightarrow> (\<forall>n. zb + 1 \<le> n \<and> n < max_zone f \<or> min_zone f \<le> n \<and> int n \<le> int zb - 1 \<longrightarrow> \<not> readable zi min_bytes n)"
    by blast
  show ?thesis
  proof (rule that [of r])
    show "zbd_find_zone rand zi f min_bytes zb (max_zone f) = Some r" using r(1) by (simp add: zbd_find_zone_def)
    show "min_zone f \<le> n \<and> n < max_zone f \<and> readable zi min_bytes n" if "r = Some n" for n using r(2) that by simp
    show "\<not> readable zi min_bytes n" if "r = None" "rand" "min_zone f \<le> n" "n < max_zone f" "n \<noteq> zb" for n
    proof -
      have "zb + 1 \<le> n \<or> int n \<le> int zb - 1" using that(5) by linarith
      then show ?thesis using r(2) that by auto
    qed
  qed
qed

section \<open>Reads stay in the data\<close>

lemma round_down_nat: "unat (round_down len m) = unat len div unat m * unat m"
proof -
  have "unat (len div m) * unat m < 2 ^ 64"
    using order.strict_trans1 [OF div_times_less_eq_dividend [of "unat len" "unat m"] unsigned_less] by (simp add: unat_div)
  then show ?thesis by (simp add: round_down_def unat_mult_lem [THEN iffD1] unat_div)
qed

lemma round_down_bounds:
  assumes "m \<noteq> 0"
  shows "round_down len m \<le> len" "m \<le> len \<Longrightarrow> m \<le> round_down len m" "unat m dvd unat (round_down len m)"
proof -
  have m: "0 < unat m" using assms by (simp add: unat_gt_0)
  show "round_down len m \<le> len" using assms by (simp add: word_le_nat_alt round_down_nat)
  show "unat m dvd unat (round_down len m)" using assms by (simp add: round_down_nat)
  have "unat m \<le> unat len div unat m * unat m" if "m \<le> len"
  proof -
    have "1 \<le> unat len div unat m" using that m by (simp add: word_le_nat_alt Suc_leI div_greater_zero_iff)
    from mult_le_mono1 [OF this, of "unat m"] show ?thesis by simp
  qed
  then show "m \<le> len \<Longrightarrow> m \<le> round_down len m" using assms by (simp add: word_le_nat_alt round_down_nat)
qed

text \<open>The zones of the file have room for the smallest block behind their start, and a write pointer that is not in front of it. The sentinel is not one of them.\<close>

definition sane_zones :: "zbd_info \<Rightarrow> zbd_file \<Rightarrow> u64 \<Rightarrow> bool" where
  "sane_zones zi f min_bs \<longleftrightarrow> (\<forall>n \<in> {min_zone f..<max_zone f}.
     unat (zstart (zone_info zi ! n)) + unat min_bs < 2 ^ 64 \<and> zstart (zone_info zi ! n) \<le> zwp (zone_info zi ! n))"

lemma readable_data:
  assumes "sane_zones zi f min_bs" and "n < length (zone_info zi)" and "z = zone_info zi ! n" and "min_zone f \<le> n" and "n < max_zone f"
  shows "readable zi min_bs n \<longleftrightarrow> zcond z \<noteq> ZBD_ZONE_COND_OFFLINE \<and> min_bs \<le> zwp z - zstart z"
    "unat (zwp z - zstart z) = unat (zwp z) - unat (zstart z)" "unat (zstart z) \<le> unat (zwp z)"
proof -
  have z: "unat (zstart z) + unat min_bs < 2 ^ 64" "zstart z \<le> zwp z"
    using assms by (auto simp: sane_zones_def)
  show d: "unat (zwp z - zstart z) = unat (zwp z) - unat (zstart z)" using z(2) by (simp add: unat_sub)
  show le: "unat (zstart z) \<le> unat (zwp z)" using z(2) by (simp add: word_le_nat_alt)
  have "zstart z + min_bs \<le> zwp z \<longleftrightarrow> min_bs \<le> zwp z - zstart z"
    unfolding word_le_nat_alt unat_add64 [OF z(1)] d using le by linarith
  then show "readable zi min_bs n \<longleftrightarrow> zcond z \<noteq> ZBD_ZONE_COND_OFFLINE \<and> min_bs \<le> zwp z - zstart z"
    using assms(2,3) by (simp add: readable_def)
qed

text \<open>What the choice of the zone gives.\<close>

definition chosen :: "bool \<Rightarrow> u64 \<Rightarrow> zbd_info \<Rightarrow> zbd_file \<Rightarrow> fio_zone_info \<times> u64 \<times> u64 \<Rightarrow> bool" where
  "chosen rand min_bs zi f c \<longleftrightarrow> (case c of (z, rng, off) \<Rightarrow>
     (\<exists>n. min_zone f \<le> n \<and> n < max_zone f \<and> z = zone_info zi ! n \<and> readable zi min_bs n) \<and> rng = zwp z - zstart z \<and>
     (rand \<or> unat (zstart z) \<le> unat off \<and> unat off + unat min_bs \<le> unat (zwp z)))"

lemma read_zone_chosen:
  assumes "max_zone f \<le> length (zone_info zi)" and "min_zone f \<le> zb" and "zb < max_zone f" and "sane_zones zi f min_bs" and "min_bs \<noteq> 0"
    and "zstart (zone_info zi ! zb) \<le> off" and "unat off + unat min_bs < 2 ^ 64"
  shows "\<exists>r. read_zone rand min_bs zi f zb off = Some r \<and> (case r of Some c \<Rightarrow> chosen rand min_bs zi f c
    | None \<Rightarrow> rand \<longrightarrow> (\<forall>n. min_zone f \<le> n \<and> n < max_zone f \<longrightarrow> \<not> readable zi min_bs n))"
proof -
  let ?z = "zone_info zi ! zb"
  let ?rng = "if zcond ?z \<noteq> ZBD_ZONE_COND_OFFLINE then zwp ?z - zstart ?z else 0"
  have zb: "zb < length (zone_info zi)" using assms(1,3) by simp
  note sane = readable_data [OF assms(4) zb refl assms(2,3)]
  have rd: "rd (zone_info zi) zb = Some ?z" using zb by simp
  show ?thesis
  proof (cases "?rng < min_bs \<or> \<not> rand \<and> zwp ?z < off + min_bs")
    case True
    obtain r where r: "zbd_find_zone rand zi f min_bs zb (max_zone f) = Some r"
      and hit: "\<And>n. r = Some n \<Longrightarrow> min_zone f \<le> n \<and> n < max_zone f \<and> readable zi min_bs n"
      and miss: "\<And>n. r = None \<Longrightarrow> rand \<Longrightarrow> min_zone f \<le> n \<Longrightarrow> n < max_zone f \<Longrightarrow> n \<noteq> zb \<Longrightarrow> \<not> readable zi min_bs n"
      using zbd_find_zone_found [OF assms(1-3)] by metis
    show ?thesis
    proof (cases r)
      case None
      have "read_zone rand min_bs zi f zb off = Some None"
        unfolding read_zone_def Let_def rd Option.bind.simps using True r None by simp
      moreover have "\<not> readable zi min_bs zb" if "rand"
        using True that sane(1) by (auto simp: not_le)
      ultimately show ?thesis using miss [OF None] by auto
    next
      case (Some n)
      have n: "n < length (zone_info zi)" using hit [OF Some] assms(1) by simp
      have nf: "min_zone f \<le> n" "n < max_zone f" using hit [OF Some] by simp_all
      note data = readable_data [OF assms(4) n refl nf]
      have ge: "min_bs \<le> zwp (zone_info zi ! n) - zstart (zone_info zi ! n)" using hit [OF Some] data(1) by simp
      have "read_zone rand min_bs zi f zb off =
        Some (Some (zone_info zi ! n, zwp (zone_info zi ! n) - zstart (zone_info zi ! n), if rand then off else zstart (zone_info zi ! n)))"
        unfolding read_zone_def Let_def rd Option.bind.simps using True r Some n ge by simp
      moreover have "unat min_bs \<le> unat (zwp (zone_info zi ! n)) - unat (zstart (zone_info zi ! n))"
        using ge data(2) by (simp add: word_le_nat_alt)
      ultimately show ?thesis using hit [OF Some] data(3) by (auto simp: chosen_def)
    qed
  next
    case False
    have "unat (off + min_bs) = unat off + unat min_bs" using unat_add64 [OF assms(7)] .
    then have le: "rand \<or> unat off + unat min_bs \<le> unat (zwp ?z)" using False by (simp add: word_le_nat_alt not_less)
    have on: "zcond ?z \<noteq> ZBD_ZONE_COND_OFFLINE" using False assms(5) by (auto simp: word_less_nat_alt unat_gt_0)
    have "read_zone rand min_bs zi f zb off = Some (Some (?z, zwp ?z - zstart ?z, off))"
      unfolding read_zone_def Let_def rd Option.bind.simps if_not_P [OF False] using on by simp
    moreover have "readable zi min_bs zb" using sane(1) on False by (simp add: not_less)
    ultimately show ?thesis using le assms(2,3,6) by (auto simp: chosen_def word_le_nat_alt)
  qed
qed

text \<open>The offset inside the data of the chosen zone.\<close>

definition read_offset :: "bool \<Rightarrow> u64 \<Rightarrow> u64 \<Rightarrow> fio_zone_info \<Rightarrow> u64 \<Rightarrow> u64 \<Rightarrow> u64 \<Rightarrow> u64" where
  "read_offset rand min_bs orig z rng off len =
     (if rng \<le> len then zstart z
      else if rand then zstart z + round_down ((off - orig) mod (rng - len)) min_bs else off)"

lemma read_offset_in_zone:
  assumes "rng = zwp z - zstart z" and "zstart z \<le> zwp z" and "min_bs \<noteq> 0" and "min_bs \<le> rng" and "min_bs \<le> len"
    and "rand \<or> unat (zstart z) \<le> unat off \<and> unat off + unat min_bs \<le> unat (zwp z)"
  shows "unat (zstart z) \<le> unat (read_offset rand min_bs orig z rng off len) \<and>
    unat (read_offset rand min_bs orig z rng off len) + unat min_bs \<le> unat (zwp z)"
proof -
  have r: "unat rng = unat (zwp z) - unat (zstart z)" "unat (zstart z) \<le> unat (zwp z)"
    using assms(1,2) by (simp_all add: unat_sub word_le_nat_alt)
  consider "rng \<le> len" | "\<not> rng \<le> len" "rand" | "\<not> rng \<le> len" "\<not> rand" by blast
  then show ?thesis
  proof cases
    case 1
    then show ?thesis using assms(4) r by (simp add: read_offset_def word_le_nat_alt)
  next
    case 2
    let ?k = "(off - orig) mod (rng - len)"
    have gap: "unat (rng - len) = unat rng - unat len" "0 < unat (rng - len)" using 2(1) by (simp_all add: unat_sub word_le_nat_alt)
    have "unat ?k < unat (rng - len)" using gap(2) by (simp add: unat_mod)
    moreover have "unat (round_down ?k min_bs) \<le> unat ?k" using round_down_bounds(1) [OF assms(3), of ?k] by (simp add: word_le_nat_alt)
    ultimately have k: "unat (round_down ?k min_bs) + unat len < unat rng" using gap(1) by linarith
    have len: "unat min_bs \<le> unat len" using assms(5) by (simp add: word_le_nat_alt)
    have "unat (zstart z + round_down ?k min_bs) = unat (zstart z) + unat (round_down ?k min_bs)"
      by (rule unat_add64) (use k r unsigned_less [of "zwp z", where 'a = nat] in simp)
    then show ?thesis using 2 k r len by (simp add: read_offset_def)
  next
    case 3
    then show ?thesis using assms(6) by (simp add: read_offset_def)
  qed
qed

lemma shrink:
  assumes "unat off + unat min_bs \<le> unat e" and "min_bs \<noteq> 0" and "min_bs \<le> len"
  defines "new_len \<equiv> round_down (min len (e - off)) min_bs"
  shows "unat off + unat new_len \<le> unat e" "min_bs \<le> new_len" "new_len \<le> len" "unat min_bs dvd unat new_len" "off + new_len \<le> e"
proof -
  have d: "unat (e - off) = unat e - unat off" using assms(1) by (intro unat_sub) (simp add: word_le_nat_alt)
  have "min_bs \<le> min len (e - off)" using assms(1,3) d by (simp add: word_le_nat_alt)
  then show "min_bs \<le> new_len" unfolding new_len_def by (rule round_down_bounds(2) [OF assms(2)])
  show "unat min_bs dvd unat new_len" unfolding new_len_def by (rule round_down_bounds(3) [OF assms(2)])
  have le: "new_len \<le> min len (e - off)" unfolding new_len_def by (rule round_down_bounds(1) [OF assms(2)])
  then show "new_len \<le> len" by simp
  have "new_len \<le> e - off" using le by simp
  then have "unat new_len \<le> unat e - unat off" using d by (simp add: word_le_nat_alt)
  then show sum: "unat off + unat new_len \<le> unat e" using assms(1) by linarith
  have "unat (off + new_len) = unat off + unat new_len"
    by (rule unat_add64) (use sum unsigned_less [of e, where 'a = nat] in simp)
  then show "off + new_len \<le> e" using sum by (simp add: word_le_nat_alt)
qed

lemma adjust_read_eq:
  fixes len :: u64
  assumes "zb < length (zone_info zi)" and "read_zone rand min_bs zi f zb off = Some (Some (z, rng, off1))" and "min_bs \<noteq> 0"
  defines "off2 \<equiv> read_offset rand min_bs (zstart (zone_info zi ! zb)) z rng off1 len"
  defines "new_len \<equiv> round_down (min len (zwp z - off2)) min_bs"
  shows "adjust_read rand False min_bs zi f zb off len = (if \<not> zhas_wp z then Some (Accept off2 len)
    else do {
      let len = (if new_len < len then new_len else len);
      c_assert (zstart z \<le> off2);
      c_assert (off2 + len \<le> zwp z);
      accept_zone z off2 len })"
  using assms(1-3) by (simp add: adjust_read_def read_offset_def off2_def new_len_def Let_def)

lemma adjust_read_data:
  assumes "max_zone f \<le> length (zone_info zi)" and "min_zone f \<le> zb" and "zb < max_zone f" and "sane_zones zi f min_bs"
    and "min_bs \<noteq> 0" and "min_bs \<le> len" and "zstart (zone_info zi ! zb) \<le> off" and "unat off + unat min_bs < 2 ^ 64"
  shows "\<exists>r. adjust_read rand False min_bs zi f zb off len = Some r \<and> (case r of
      Accept off' len' \<Rightarrow> \<exists>n. min_zone f \<le> n \<and> n < max_zone f \<and> readable zi min_bs n \<and>
        zstart (zone_info zi ! n) \<le> off' \<and> unat off' + unat min_bs \<le> unat (zwp (zone_info zi ! n)) \<and>
        (zhas_wp (zone_info zi ! n) \<longrightarrow> unat off' + unat len' \<le> unat (zwp (zone_info zi ! n)) \<and>
          min_bs \<le> len' \<and> len' \<le> len \<and> unat min_bs dvd unat len')
    | Eof \<Rightarrow> rand \<longrightarrow> (\<forall>n. min_zone f \<le> n \<and> n < max_zone f \<longrightarrow> \<not> readable zi min_bs n)
    | Verify_instead \<Rightarrow> False)"
proof -
  have zb: "zb < length (zone_info zi)" using assms(1,3) by simp
  obtain r where r: "read_zone rand min_bs zi f zb off = Some r" and c: "case r of Some c \<Rightarrow> chosen rand min_bs zi f c
      | None \<Rightarrow> rand \<longrightarrow> (\<forall>n. min_zone f \<le> n \<and> n < max_zone f \<longrightarrow> \<not> readable zi min_bs n)"
    using read_zone_chosen [OF assms(1-5,7,8)] by blast
  show ?thesis
  proof (cases r)
    case None
    then show ?thesis using zb r c by (simp add: adjust_read_def)
  next
    case (Some x)
    obtain z rng off1 where x: "x = (z, rng, off1)" by (cases x)
    obtain n where n: "min_zone f \<le> n" "n < max_zone f" "z = zone_info zi ! n" "readable zi min_bs n"
      and rng: "rng = zwp z - zstart z" and seq: "rand \<or> unat (zstart z) \<le> unat off1 \<and> unat off1 + unat min_bs \<le> unat (zwp z)"
      using c Some x by (auto simp: chosen_def)
    have len: "n < length (zone_info zi)" using n(2) assms(1) by simp
    note data = readable_data [OF assms(4) len n(3,1,2)]
    have online: "zcond z \<noteq> ZBD_ZONE_COND_OFFLINE" and ge: "min_bs \<le> rng" and le: "zstart z \<le> zwp z"
      using data n(4) rng by (simp_all add: word_le_nat_alt)
    let ?o = "read_offset rand min_bs (zstart (zone_info zi ! zb)) z rng off1 len"
    let ?l = "round_down (min len (zwp z - ?o)) min_bs"
    have o: "unat (zstart z) \<le> unat ?o" "unat ?o + unat min_bs \<le> unat (zwp z)"
      using read_offset_in_zone [OF rng le assms(5) ge assms(6) seq] by blast+
    note l = shrink [OF o(2) assms(5,6)]
    have short: "(if ?l < len then ?l else len) = ?l" using l(3) by (simp add: order.order_iff_strict split: if_splits) auto
    have eq: "adjust_read rand False min_bs zi f zb off len = Some (Accept ?o (if zhas_wp z then ?l else len))"
      unfolding adjust_read_eq [OF zb r [unfolded Some x] assms(5)] short Let_def
      using o(1) l(5) online by (simp add: accept_zone_def word_le_nat_alt)
    show ?thesis unfolding eq using n o l by (auto simp: word_le_nat_alt)
  qed
qed

text \<open>
  C10 (safety): let the write pointers of the zones of the file not be in front of their starts. A read of at least the smallest block that is adjusted to the zones finds the zone
  to read without a failed assertion. If it goes ahead, it is in
  a zone of the job's range that is not offline and has at least the smallest block of data; in a sequential zone it ends at or in front of the
  write pointer, and its length is a multiple of the smallest block, at least one and not longer than asked for. A random job gives up only if none of
  its zones has that much data.
\<close>

theorem adjust_read_in_data:
  assumes "max_zone f \<le> length (zone_info zi)" and "min_zone f \<le> zb" and "zb < max_zone f" and "sane_zones zi f min_bs"
    and "min_bs \<noteq> 0" and "min_bs \<le> len" and "zstart (zone_info zi ! zb) \<le> off" and "unat off + unat min_bs < 2 ^ 64"
  shows "\<exists>r. adjust_read rand False min_bs zi f zb off len = Some r \<and> (case r of
      Accept off' len' \<Rightarrow> \<exists>n. min_zone f \<le> n \<and> n < max_zone f \<and> readable zi min_bs n \<and>
        zstart (zone_info zi ! n) \<le> off' \<and> unat off' + unat min_bs \<le> unat (zwp (zone_info zi ! n)) \<and>
        (zhas_wp (zone_info zi ! n) \<longrightarrow> unat off' + unat len' \<le> unat (zwp (zone_info zi ! n)) \<and>
          min_bs \<le> len' \<and> len' \<le> len \<and> unat min_bs dvd unat len')
    | Eof \<Rightarrow> rand \<longrightarrow> (\<forall>n. min_zone f \<le> n \<and> n < max_zone f \<longrightarrow> \<not> readable zi min_bs n)
    | Verify_instead \<Rightarrow> False)"
  by (rule adjust_read_data [OF assms])

definition sample_zfile :: zbd_file where
  "sample_zfile = \<lparr>zf_offset = 0, zf_io_size = 8192, min_zone = 0, max_zone = 2\<rparr>"

definition one_written :: zbd_info where
  "one_written = sample_device\<lparr>zone_info := [sample_zone 0, (sample_zone 4096)\<lparr>zwp := 5632\<rparr>, sentinel 8192]\<rparr>"

text \<open>The device of two zones that is set up on a file of 8192 bytes, after a write of 1536 bytes to the second zone has been queued.\<close>

lemma sample_device_init: "init_zone_info True 4096 0 8192 = Some (sample_device\<lparr>max_write_zones := 0\<rparr>)"
  by code_simp

lemma one_written_queue: "zbd_queue_io True False True 4096 1536 sample_zjob sample_device = Some (sample_zjob, one_written)"
  by (simp add: zbd_queue_io_def zbd_offset_to_zone_idx_def zbd_zone_capacity_end_def set_zone_def one_written_def sample_device_def sample_zone_def
      sample_zjob_def Let_def)

theorem adjust_read_in_data_witness:
  "init_zone_info True 4096 0 8192 = Some (sample_device\<lparr>max_write_zones := 0\<rparr>) \<and>
    zbd_queue_io True False True 4096 1536 sample_zjob sample_device = Some (sample_zjob, one_written) \<and>
    sane_zones one_written sample_zfile 512 \<and> adjust_read True False 512 one_written sample_zfile 0 1024 2048 = Some (Accept 4096 1536) \<and>
    (\<exists>n. readable one_written 512 n \<and> unat (4096 :: u64) + unat (1536 :: u64) \<le> unat (zwp (zone_info one_written ! n)))"
proof -
  have sane: "sane_zones one_written sample_zfile 512"
    unfolding sane_zones_def
  proof
    fix n assume "n \<in> {min_zone sample_zfile..<max_zone sample_zfile}"
    then have "n = 0 \<or> n = 1" by (auto simp: sample_zfile_def)
    then show "unat (zstart (zone_info one_written ! n)) + unat (512 :: u64) < 2 ^ 64 \<and> zstart (zone_info one_written ! n) \<le> zwp (zone_info one_written ! n)"
      by (auto simp: one_written_def sample_device_def sample_zone_def)
  qed
  have "zbd_find_zone True one_written sample_zfile 512 0 2 = Some (Some 1)"
    by (simp add: zbd_find_zone_def find_zone_loop.simps zone_online_def zone_readable_def one_written_def sample_device_def sample_zone_def sentinel_def sample_zfile_def)
  then have eq: "adjust_read True False 512 one_written sample_zfile 0 1024 2048 = Some (Accept 4096 1536)"
    by (simp add: adjust_read_def read_zone_def one_written_def sample_device_def sample_zone_def sentinel_def sample_zfile_def accept_zone_def round_down_def Let_def)
  have all: "zhas_wp (zone_info one_written ! n)" if "n < 2" for n
  proof -
    have "n = 0 \<or> n = 1" using that by linarith
    then show ?thesis by (auto simp: one_written_def sample_device_def sample_zone_def sentinel_def)
  qed
  have "max_zone sample_zfile \<le> length (zone_info one_written)" "min_zone sample_zfile \<le> 0" "0 < max_zone sample_zfile" "(512 :: u64) \<noteq> 0"
    "(512 :: u64) \<le> 2048" "zstart (zone_info one_written ! 0) \<le> 1024" "unat (1024 :: u64) + unat (512 :: u64) < 2 ^ 64"
    by (simp_all add: sample_zfile_def one_written_def sample_device_def sample_zone_def sentinel_def)
  from adjust_read_in_data [OF this(1-3) sane this(4-7), of True] eq obtain n where
    "n < max_zone sample_zfile" "readable one_written 512 n"
    "zhas_wp (zone_info one_written ! n) \<longrightarrow> unat (4096 :: u64) + unat (1536 :: u64) \<le> unat (zwp (zone_info one_written ! n))"
    by auto
  then show ?thesis using sane eq all [of n] sample_device_init one_written_queue by (auto simp: sample_zfile_def)
qed

section \<open>Writes go to the write pointer\<close>

lemma reset_wp_cases:
  assumes "n < length (zone_info zi)" and "zbd_zone_end zi n = Some e" and "is_valid_offset f (e - 1)"
  shows "zbd_reset_wp_zone dev td f zi n = Some (zi, False) \<and> \<not> dev \<or>
    (\<exists>zi'. zbd_reset_wp_zone dev td f zi n = Some (zi', True) \<and> zone_info zi' = (zone_info zi)[n := (zone_info zi ! n)\<lparr>zwp := zstart (zone_info zi ! n)\<rparr>])"
proof -
  have v: "is_valid_offset f (zstart z + (e - zstart z) - 1)" for z using assms(3) by simp
  have same: "(zone_info zi)[n := (zone_info zi ! n)\<lparr>zwp := zstart (zone_info zi ! n)\<rparr>] = zone_info zi"
    if "zwp (zone_info zi ! n) - zstart (zone_info zi ! n) = 0"
    using that by (simp add: right_minus_eq) (metis list_update_id fio_zone_info.surjective fio_zone_info.update_convs(2))
  show ?thesis
    using assms(1,2) v same by (auto simp: zbd_reset_wp_zone_def set_zone_def Let_def)
qed

lemma not_full:
  assumes "zbd_zone_full z min_bs = Some False" and "zhas_wp z" and "min_bs \<noteq> 0"
  shows "unat (zwp z) + unat min_bs \<le> unat (zbd_zone_capacity_end z)"
proof -
  have full: "\<not> zbd_zone_remainder z < min_bs" using assms(1,2) by (simp add: zbd_zone_full_def c_assert_def split: if_splits)
  moreover have "0 < min_bs" using assms(3) by (simp add: word_gt_0)
  ultimately have lt: "zwp z < zbd_zone_capacity_end z" and "min_bs \<le> zbd_zone_capacity_end z - zwp z"
    by (auto simp: zbd_zone_remainder_def split: if_splits)
  then show ?thesis using unat_sub [OF less_imp_le [OF lt]] by (simp add: word_le_nat_alt word_less_nat_alt)
qed

text \<open>What is known of the zone when the write is put at its write pointer.\<close>

definition open_zone :: "u64 \<Rightarrow> fio_zone_info \<Rightarrow> bool" where
  "open_zone min_bs z \<longleftrightarrow> zhas_wp z \<and> zcond z \<noteq> ZBD_ZONE_COND_OFFLINE \<and> zbd_zone_full z min_bs = Some False"

lemma write_at_wp_fits:
  assumes "zb < length (zone_info zi)" and "z = zone_info zi ! zb" and "open_zone (zj_min_bs td) z" and "zj_min_bs td \<noteq> 0" and "zj_min_bs td \<le> len"
  shows "if is_valid_offset f (zwp z)
    then \<exists>len'. write_at_wp td f zi zb len = Some (Accept (zwp z) len') \<and> unat (zwp z) + unat len' \<le> unat (zbd_zone_capacity_end z) \<and>
      zj_min_bs td \<le> len' \<and> len' \<le> len \<and> unat (zj_min_bs td) dvd unat len'
    else write_at_wp td f zi zb len = Some Eof"
proof -
  let ?m = "zj_min_bs td" and ?e = "zbd_zone_capacity_end z"
  have z: "zhas_wp z" "zcond z \<noteq> ZBD_ZONE_COND_OFFLINE" "zbd_zone_full z ?m = Some False" using assms(3) by (simp_all add: open_zone_def)
  note l = shrink [OF not_full [OF z(3,1) assms(4)] assms(4,5)]
  have "write_at_wp td f zi zb len = (if \<not> is_valid_offset f (zwp z) then Some Eof else Some (Accept (zwp z) (round_down (min len (?e - zwp z)) ?m)))"
    using assms(1,2,4) z l(2) by (simp add: write_at_wp_def accept_zone_def Let_def)
  then show ?thesis using l(1-4) by simp
qed

text \<open>The reset leaves an open zone, if its capacity is at least the smallest block.\<close>

lemma reset_open:
  assumes "zhas_wp z" and "zcond z \<noteq> ZBD_ZONE_COND_OFFLINE" and "m AND 511 = 0" and "m \<le> zcapacity z" and "m \<noteq> 0"
    and "unat (zstart z) + unat (zcapacity z) < 2 ^ 64"
  shows "open_zone m (z\<lparr>zreset := r, zwp := zstart z\<rparr>)"
proof -
  have c: "unat (zstart z + zcapacity z) = unat (zstart z) + unat (zcapacity z)" by (rule unat_add64 [OF assms(6)])
  have "0 < unat (zcapacity z)" using assms(4,5) by (simp add: word_le_nat_alt) (metis unat_gt_0 gr_zeroI le_zero_eq)
  then have "\<not> zstart z + zcapacity z \<le> zstart z" using c by (simp add: word_le_nat_alt)
  then show ?thesis using assms(1-4) by (simp add: open_zone_def zbd_zone_full_def zbd_zone_remainder_def zbd_zone_capacity_end_def not_less)
qed

lemma queue_moves_wp:
  assumes "zbd_offset_to_zone_idx zi off = Some n" and "n < length (zone_info zi)" and "zhas_wp (zone_info zi ! n)"
    and "unat off + unat len \<le> unat (zbd_zone_capacity_end (zone_info zi ! n))"
  shows "\<exists>zi'. zbd_queue_io True False True off len td zi = Some (td, zi') \<and> zwp (zone_info zi' ! n) = off + len"
proof -
  have "unat (off + len) = unat off + unat len"
    by (rule unat_add64) (use assms(4) unsigned_less [of "zbd_zone_capacity_end (zone_info zi ! n)", where 'a = nat] in simp)
  then have "min (off + len) (zbd_zone_capacity_end (zone_info zi ! n)) = off + len" using assms(4) by (simp add: min_def word_le_nat_alt)
  then show ?thesis using assms(1-3) by (simp add: zbd_queue_io_def set_zone_def Let_def)
qed

lemma adjust_write_cases:
  fixes threshold verify dev :: bool and len :: u64
  assumes "zb < length (zone_info zi)" and "zhas_wp (zone_info zi ! zb)" and "zcond (zone_info zi ! zb) \<noteq> ZBD_ZONE_COND_OFFLINE"
    and "zbd_zone_end zi zb = Some e" and "is_valid_offset f (e - 1)" and "zj_min_bs td \<noteq> 0" and "zj_min_bs td AND 511 = 0"
    and "unat (zstart (zone_info zi ! zb)) + unat (zcapacity (zone_info zi ! zb)) < 2 ^ 64"
  defines "go \<equiv> adjust_write threshold verify dev td f zi zb len"
  shows "(\<exists>zi'. go = Some (zi', Verify_instead)) \<and> zj_verify td \<and> verify \<or>
    (\<exists>zi'. go = Some (zi', Eof)) \<and> (\<not> dev \<or> zcapacity (zone_info zi ! zb) < zj_min_bs td) \<or>
    (\<exists>zi'. go = map_option (Pair zi') (write_at_wp td f zi' zb len) \<and> zb < length (zone_info zi') \<and> open_zone (zj_min_bs td) (zone_info zi' ! zb))"
proof -
  define z where "z = (if threshold then (zone_info zi ! zb)\<lparr>zreset := True\<rparr> else zone_info zi ! zb)"
  define zi1 where "zi1 = set_zone zi zb z"
  have z: "zhas_wp z" "zcond z \<noteq> ZBD_ZONE_COND_OFFLINE" "zcapacity z = zcapacity (zone_info zi ! zb)" "zstart z = zstart (zone_info zi ! zb)"
    using assms(2,3) by (simp_all add: z_def)
  have rd_zb: "rd (zone_info zi) zb = Some (zone_info zi ! zb)" using assms(1) by simp
  have go: "go = do {
     full \<leftarrow> (if zreset z then Some True else zbd_zone_full z (zj_min_bs td));
     if full \<and> zj_verify td \<and> verify then Some (zi1, Verify_instead)
     else do {
       (zi, ok) \<leftarrow> (if full then zbd_reset_wp_zone dev td f (set_zone zi1 zb (z\<lparr>zreset := False\<rparr>)) zb else Some (zi1, True));
       if \<not> ok \<or> full \<and> zcapacity z < zj_min_bs td then Some (zi, Eof)
       else do {
         a \<leftarrow> write_at_wp td f zi zb len;
         Some (zi, a) } } }"
    by (simp only: go_def adjust_write_def rd_zb Option.bind.simps Let_def zi1_def z_def)
  obtain full where full: "(if zreset z then Some True else zbd_zone_full z (zj_min_bs td)) = Some full"
    by (cases "zreset z") (use assms(7) in \<open>simp_all add: zbd_zone_full_def\<close>)
  show ?thesis
  proof (cases full)
    case False
    then have "open_zone (zj_min_bs td) z" using full z by (simp add: open_zone_def split: if_splits)
    moreover have "go = map_option (Pair zi1) (write_at_wp td f zi1 zb len)"
      using go full False by (simp add: map_conv_bind_option comp_def)
    ultimately show ?thesis using assms(1) by (auto simp: zi1_def set_zone_def)
  next
    case True
    let ?zi = "set_zone zi1 zb (z\<lparr>zreset := False\<rparr>)"
    have len: "zb < length (zone_info ?zi)" "zone_info ?zi ! zb = z\<lparr>zreset := False\<rparr>" using assms(1) by (simp_all add: zi1_def set_zone_def)
    have "zbd_zone_end ?zi zb = Some e" using assms(4) by (simp add: zbd_zone_end_def zi1_def set_zone_def rd_eq_Some_iff)
    from reset_wp_cases [OF len(1) this assms(5), of dev td] show ?thesis
    proof (elim disjE exE conjE)
      assume "zbd_reset_wp_zone dev td f ?zi zb = Some (?zi, False)" "\<not> dev"
      then show ?thesis using go full True by auto
    next
      fix zi' assume r: "zbd_reset_wp_zone dev td f ?zi zb = Some (zi', True)"
        "zone_info zi' = (zone_info ?zi)[zb := (zone_info ?zi ! zb)\<lparr>zwp := zstart (zone_info ?zi ! zb)\<rparr>]"
      have z': "zb < length (zone_info zi')" "zone_info zi' ! zb = z\<lparr>zreset := False, zwp := zstart z\<rparr>" using r(2) len by simp_all
      show ?thesis
      proof (cases "zcapacity z < zj_min_bs td")
        case small: True
        then show ?thesis using go full True r(1) z(3) by auto
      next
        case False
        then have "open_zone (zj_min_bs td) (zone_info zi' ! zb)"
          unfolding z'(2) using z assms(6-8) by (intro reset_open) (simp_all add: not_less)
        moreover have "go = Some (zi1, Verify_instead) \<and> zj_verify td \<and> verify \<or> go = map_option (Pair zi') (write_at_wp td f zi' zb len)"
          using go full True r(1) False by (simp add: map_conv_bind_option comp_def)
        ultimately show ?thesis using z'(1) by blast
      qed
    qed
  qed
qed

text \<open>
  C9 (safety): let the smallest block be a multiple of 512 bytes, as an assertion demands, and let the zone be sequential, not offline, and end inside the region of the file.
  A write of at least the smallest block that is adjusted to the zone never fails an assertion. If it goes ahead, it starts at the write pointer of the zone and ends
  at or in front of the zone's capacity, its length is a multiple of the smallest block, at least one and not longer than asked for, and once it is
  queued the write pointer is exactly at its end. It does not go ahead only if the device fails to reset the zone, the capacity is less than
  the smallest block, or the write pointer is outside the file's range.
\<close>

theorem adjust_write_at_wp:
  assumes "zb < length (zone_info zi)" and "zhas_wp (zone_info zi ! zb)" and "zcond (zone_info zi ! zb) \<noteq> ZBD_ZONE_COND_OFFLINE"
    and "zbd_zone_end zi zb = Some e" and "is_valid_offset f (e - 1)" and "zj_min_bs td \<noteq> 0" and "zj_min_bs td AND 511 = 0"
    and "unat (zstart (zone_info zi ! zb)) + unat (zcapacity (zone_info zi ! zb)) < 2 ^ 64" and "zj_min_bs td \<le> len"
  shows "\<exists>zi' r. adjust_write threshold verify dev td f zi zb len = Some (zi', r) \<and> (case r of
      Accept off len' \<Rightarrow> off = zwp (zone_info zi' ! zb) \<and> unat off + unat len' \<le> unat (zbd_zone_capacity_end (zone_info zi' ! zb)) \<and>
        zj_min_bs td \<le> len' \<and> len' \<le> len \<and> unat (zj_min_bs td) dvd unat len' \<and>
        (zbd_offset_to_zone_idx zi' off = Some zb \<longrightarrow>
          (\<exists>zi''. zbd_queue_io True False True off len' td zi' = Some (td, zi'') \<and> zwp (zone_info zi'' ! zb) = off + len'))
    | Eof \<Rightarrow> \<not> dev \<or> zcapacity (zone_info zi ! zb) < zj_min_bs td \<or> \<not> is_valid_offset f (zwp (zone_info zi' ! zb))
    | Verify_instead \<Rightarrow> zj_verify td \<and> verify)"
  using adjust_write_cases [OF assms(1-8), of threshold verify dev len]
proof (elim disjE exE conjE)
  fix zi' assume go: "adjust_write threshold verify dev td f zi zb len = map_option (Pair zi') (write_at_wp td f zi' zb len)"
    and zb: "zb < length (zone_info zi')" and z: "open_zone (zj_min_bs td) (zone_info zi' ! zb)"
  show ?thesis
  proof (cases "is_valid_offset f (zwp (zone_info zi' ! zb))")
    case True
    then obtain len' where "write_at_wp td f zi' zb len = Some (Accept (zwp (zone_info zi' ! zb)) len')"
      "unat (zwp (zone_info zi' ! zb)) + unat len' \<le> unat (zbd_zone_capacity_end (zone_info zi' ! zb))"
      "zj_min_bs td \<le> len'" "len' \<le> len" "unat (zj_min_bs td) dvd unat len'"
      using write_at_wp_fits [OF zb refl z assms(6,9), of f] by auto
    then show ?thesis using go queue_moves_wp [OF _ zb, of "zwp (zone_info zi' ! zb)" len' td] z by (auto simp: open_zone_def)
  next
    case False
    then show ?thesis using go write_at_wp_fits [OF zb refl z assms(6,9), of f] by auto
  qed
qed auto

theorem adjust_write_at_wp_witness:
  "adjust_write False False True sample_zjob sample_zfile one_written 1 8192 = Some (one_written, Accept 5632 2560) \<and>
    (\<exists>zi. zbd_queue_io True False True 5632 2560 sample_zjob one_written = Some (sample_zjob, zi) \<and> zwp (zone_info zi ! 1) = 8192)"
proof -
  have eq: "adjust_write False False True sample_zjob sample_zfile one_written 1 8192 = Some (one_written, Accept 5632 2560)"
    by (simp add: adjust_write_def write_at_wp_def accept_zone_def round_down_def set_zone_def zbd_zone_full_def zbd_zone_remainder_def
        zbd_zone_capacity_end_def is_valid_offset_def sample_zjob_def sample_zfile_def one_written_def sample_device_def sample_zone_def sentinel_def)
  have idx: "zbd_offset_to_zone_idx one_written 5632 = Some 1"
    by (simp add: zbd_offset_to_zone_idx_def one_written_def sample_device_def)
  have "1 < length (zone_info one_written)" "zhas_wp (zone_info one_written ! 1)" "zcond (zone_info one_written ! 1) \<noteq> ZBD_ZONE_COND_OFFLINE"
    "zbd_zone_end one_written 1 = Some 8192" "is_valid_offset sample_zfile (8192 - 1)" "zj_min_bs sample_zjob \<noteq> 0" "zj_min_bs sample_zjob AND 511 = 0"
    "unat (zstart (zone_info one_written ! 1)) + unat (zcapacity (zone_info one_written ! 1)) < 2 ^ 64" "zj_min_bs sample_zjob \<le> 8192"
    by (simp_all add: one_written_def sample_device_def sample_zone_def sentinel_def zbd_zone_end_def is_valid_offset_def sample_zfile_def sample_zjob_def)
  from adjust_write_at_wp [OF this, of False False True] show ?thesis using eq idx by simp
qed

section \<open>The zones of a file\<close>

lemma ilog2_loop_power: "k < n \<Longrightarrow> k < 64 \<Longrightarrow> ilog2_loop n (2 ^ k) = int k"
proof (induction k arbitrary: n)
  case 0
  have "ilog2_loop m 0 = - 1" for m by (cases m) simp_all
  then show ?case using 0 by (cases n) simp_all
next
  case (Suc k)
  have "drop_bit 1 (2 ^ Suc k :: u64) = 2 ^ k" using Suc.prems(2) by (simp add: drop_bit_exp_eq del: power_Suc)
  moreover have "(2 :: u64) ^ Suc k \<noteq> 0" using Suc.prems(2) by (simp add: exp_eq_zero_iff del: power_Suc)
  ultimately show ?case using Suc by (cases n) (simp_all del: power_Suc)
qed

lemma ilog2_power: "k < 64 \<Longrightarrow> ilog2 (2 ^ k) = int k"
  unfolding ilog2_def by (rule ilog2_loop_power) simp_all

lemma zone_number:
  assumes "zone_size zi \<noteq> 0" and "zone_size_log2 zi = (if is_power_of_2 (zone_size zi) then nat (ilog2 (zone_size zi)) else 0)"
  shows "zbd_offset_to_zone_idx zi off = Some (unat (min (ucast (off div zone_size zi)) (nr_zones zi)))"
proof (cases "0 < zone_size_log2 zi")
  case True
  then have pow: "is_power_of_2 (zone_size zi)" using assms(2) by (simp split: if_splits)
  then obtain k where k: "k < 64" "zone_size zi = 2 ^ k"
    using and_minus_one_zero_iff [of "zone_size zi"] by (auto simp: is_power_of_2_def)
  have "zone_size_log2 zi = k" using assms(2) pow k ilog2_power [OF k(1)] by simp
  then have "drop_bit (zone_size_log2 zi) off = off div zone_size zi" using k(2) by (simp add: drop_bit_eq_div)
  then show ?thesis using True by (simp add: zbd_offset_to_zone_idx_def)
next
  case False
  then show ?thesis using assms(1) by (simp add: zbd_offset_to_zone_idx_def)
qed

lemma init_zone_info_result:
  assumes "init_zone_info mem zsize zcap real_size = Some zi"
  defines "nrz \<equiv> ucast ((real_size + zsize - 1) div zsize) :: u32"
  shows "zone_size zi = zsize" "512 \<le> zsize" "zsize \<le> real_size" "nr_zones zi = nrz"
    "zone_size_log2 zi = (if is_power_of_2 zsize then nat (ilog2 zsize) else 0)"
    "length (zone_info zi) = unat nrz + 1" "\<And>n. n \<le> unat nrz \<Longrightarrow> zstart (zone_info zi ! n) = of_nat n * zsize"
  using assms by (auto simp: init_zone_info_def emulated_zone_def sentinel_def nth_append not_less Let_def split: if_splits)

lemma zone_count:
  fixes real_size zsize :: u64
  assumes "unat real_size + unat zsize \<le> 2 ^ 64" and "unat real_size \<le> 2 ^ 31 * unat zsize" and "zsize \<noteq> 0"
  shows "unat (ucast ((real_size + zsize - 1) div zsize) :: u32) = (unat real_size + unat zsize - 1) div unat zsize"
proof -
  have pos: "0 < unat zsize" using assms(3) by (simp add: unat_gt_0)
  have "unat (zsize - 1) = unat zsize - 1" using assms(3) by (simp add: unat_minus_one)
  then have "unat (real_size + (zsize - 1)) = unat real_size + (unat zsize - 1)"
    using unat_add64 [of real_size "zsize - 1"] assms(1) pos by simp
  then have s: "unat (real_size + zsize - 1) = unat real_size + unat zsize - 1" using pos by (simp add: algebra_simps)
  have "unat real_size + unat zsize - 1 < 2 ^ 32 * unat zsize" using assms(2) pos by simp
  then have "(unat real_size + unat zsize - 1) div unat zsize < 2 ^ 32" using pos by (simp add: div_less_iff_less_mult)
  then show ?thesis using s by (simp add: unsigned_ucast_eq take_bit_nat_eq_self unat_div)
qed

text \<open>
  The zones emulated on a file of at most \<open>2 ^ 31\<close> zones, whose size and one more zone can be counted in 64 bits, cover it: each offset in the
  file has a zone, whether its number is found by a shift or by a division, and lies between the start and the end of that zone.
\<close>

theorem emulated_zones_cover:
  assumes "init_zone_info mem zsize zcap real_size = Some zi" and "unat real_size + unat zsize \<le> 2 ^ 64"
    and "unat real_size \<le> 2 ^ 31 * unat zsize" and "off < real_size"
  shows "\<exists>n e. zbd_offset_to_zone_idx zi off = Some n \<and> n < unat (nr_zones zi) \<and> zbd_zone_end zi n = Some e \<and>
    zstart (zone_info zi ! n) \<le> off \<and> off < e"
proof -
  note zi = init_zone_info_result [OF assms(1)]
  have z: "zsize \<noteq> 0" using zi(2) by auto
  have pos: "0 < unat zsize" using z by (simp add: unat_gt_0)
  let ?n = "unat off div unat zsize"
  have lt: "unat off < unat real_size" using assms(4) by (simp add: word_less_nat_alt)
  have nr: "unat (nr_zones zi) = (unat real_size + unat zsize - 1) div unat zsize"
    unfolding zi(4) by (rule zone_count [OF assms(2,3) z])
  have lo: "?n * unat zsize \<le> unat off" by simp
  have hi: "unat off < Suc ?n * unat zsize"
    unfolding mult_Suc using div_mult_mod_eq [of "unat off" "unat zsize"] mod_less_divisor [OF pos, of "unat off"] by linarith
  have "Suc ?n * unat zsize \<le> unat real_size + unat zsize - 1" unfolding mult_Suc using lo lt pos by linarith
  then have n: "Suc ?n \<le> unat (nr_zones zi)" unfolding nr using pos by (simp add: less_eq_div_iff_mult_less_eq)
  have mult: "unat (of_nat i * zsize) = i * unat zsize" if "i \<le> Suc ?n" for i
  proof -
    have "i * unat zsize \<le> Suc ?n * unat zsize" using that by (rule mult_le_mono1)
    then have b: "i * unat zsize < 2 ^ 64" unfolding mult_Suc using lo lt assms(2) by linarith
    have "of_nat i * zsize = of_nat (i * unat zsize)" by simp
    then show ?thesis using b by (simp add: unat_of_nat take_bit_nat_eq_self del: of_nat_mult)
  qed
  have u: "unat (ucast (off div zsize) :: u32) = ?n"
    using n unsigned_less [of "nr_zones zi", where 'a = nat] by (simp add: unsigned_ucast_eq take_bit_nat_eq_self unat_div)
  have idx: "zbd_offset_to_zone_idx zi off = Some ?n"
    using zone_number [of zi off] zi(1,5) z u n by (simp add: min_def word_le_nat_alt)
  moreover have "zbd_zone_end zi ?n = Some (of_nat (Suc ?n) * zsize)"
    using zi(6) zi(7) [of "Suc ?n"] n zi(4) by (simp add: zbd_zone_end_def)
  moreover have "zstart (zone_info zi ! ?n) \<le> off" "off < of_nat (Suc ?n) * zsize"
    using zi(7) [of ?n] n zi(4) mult [of ?n] mult [of "Suc ?n"] lo hi by (simp_all add: word_le_nat_alt word_less_nat_alt del: of_nat_Suc)
  ultimately show ?thesis using n by auto
qed

theorem emulated_zones_cover_witness:
  "\<exists>zi n e. init_zone_info True 3072 0 10000 = Some zi \<and> zbd_offset_to_zone_idx zi 9999 = Some n \<and> zbd_zone_end zi n = Some e \<and> 9999 < e"
proof -
  obtain zi where zi: "init_zone_info True 3072 0 10000 = Some zi" by (simp add: init_zone_info_def Let_def)
  from emulated_zones_cover [OF zi, of 9999] show ?thesis using zi by auto
qed

end
