(* ===== verification/Zbd_Setup.thy ===== *)
theory Zbd_Setup
  imports Zbd_Adjust
begin

text \<open>
  \<^verbatim>\<open>zbd.c\<close>, before and around the I/O: the entry of a zone report, the limit of the write target zones, the alignment of the file's region to
  zones, the range of zones of a file, and trims. The region is not changed while jobs run, so the model is sequential. \<open>None\<close> is a failed assertion
  or an access outside the zones; a return value \<^verbatim>\<open>false\<close> or an error code is \<open>False\<close>.
\<close>

section \<open>Reports and limits\<close>

datatype zone_type = ZBD_ZONE_TYPE_CNV | ZBD_ZONE_TYPE_SWR | ZBD_ZONE_TYPE_SWP

record zbd_zone =
  rz_start :: u64
  rz_wp :: u64
  rz_len :: u64
  rz_capacity :: u64
  rz_type :: zone_type
  rz_cond :: zone_cond

text \<open>The body of the loop of \<^verbatim>\<open>parse_zone_info\<close> for one zone of a report.\<close>

definition report_zone :: "u64 \<Rightarrow> zbd_zone \<Rightarrow> fio_zone_info option" where
  "report_zone zsize z = do {
     wp \<leftarrow> (if rz_cond z = ZBD_ZONE_COND_NOT_WP \<or> rz_cond z = ZBD_ZONE_COND_FULL then Some (rz_start z + rz_capacity z)
       else do {
         c_assert (rz_start z \<le> rz_wp z);
         c_assert (rz_wp z \<le> rz_start z + zsize);
         Some (rz_wp z) });
     Some \<lparr>zstart = rz_start z, zwp = wp, zcapacity = rz_capacity z, zcond = rz_cond z, zhas_wp = (rz_type z = ZBD_ZONE_TYPE_SWR),
       zwrite = False, zreset = False\<rparr> }"

text \<open>\<open>dev\<close>: the limit of the device, if it can be read.\<close>

definition zbd_set_max_write_zones :: "bool \<Rightarrow> nat \<Rightarrow> nat option \<Rightarrow> zbd_info \<Rightarrow> zbd_info \<times> bool" where
  "zbd_set_max_write_zones ignore_limits user dev zi =
     (let limit = (\<lambda>n. (zi\<lparr>max_write_zones := n\<rparr>, n \<le> ZBD_MAX_WRITE_ZONES)) in
      if zmodel zi \<noteq> ZBD_HOST_MANAGED \<or> ignore_limits then limit user
      else case dev of None \<Rightarrow> (zi, False)
        | Some max_open \<Rightarrow>
           if max_open = 0 then limit user
           else if user = 0 then limit max_open
           else if user \<le> max_open then limit user
           else (zi, False))"

section \<open>The region of a file\<close>

fun any_seq :: "zbd_info \<Rightarrow> nat \<Rightarrow> nat \<Rightarrow> bool option" where
  "any_seq zi n 0 = Some False"
| "any_seq zi n (Suc k) = do {
     z \<leftarrow> rd (zone_info zi) n;
     if zhas_wp z then Some True else any_seq zi (Suc n) k }"

definition zbd_is_seq_job :: "zbd_file \<Rightarrow> zbd_info \<Rightarrow> bool option" where
  "zbd_is_seq_job f zi =
     (if zf_io_size f = 0 then Some False
      else do {
        b \<leftarrow> zbd_offset_to_zone_idx zi (zf_offset f);
        e \<leftarrow> zbd_offset_to_zone_idx zi (zf_offset f + zf_io_size f - 1);
        any_seq zi b (Suc e - b) })"

definition zbd_offset_to_zone :: "zbd_info \<Rightarrow> u64 \<Rightarrow> (nat \<times> fio_zone_info) option" where
  "zbd_offset_to_zone zi off = do {
     n \<leftarrow> zbd_offset_to_zone_idx zi off;
     z \<leftarrow> rd (zone_info zi) n;
     Some (n, z) }"

text \<open>The options that are used; \<open>zo_read\<close> is \<^verbatim>\<open>td_ddir == TD_DDIR_READ\<close>.\<close>

record zone_opts =
  zo_size :: u64
  zo_skip :: u64
  zo_read :: bool

text \<open>The last part rounds the end of the region down.\<close>

definition round_end :: "zbd_file \<Rightarrow> zbd_info \<Rightarrow> (zbd_file \<times> bool) option" where
  "round_end f zi = do {
     (_, z) \<leftarrow> zbd_offset_to_zone zi (zf_offset f + zf_io_size f);
     let new_end = zstart z;
     if zf_offset f + zf_io_size f \<noteq> new_end then
       if new_end \<le> zf_offset f then Some (f, False)
       else Some (f\<lparr>zf_io_size := new_end - zf_offset f\<rparr>, True)
     else Some (f, True) }"

text \<open>The part for jobs that write: the start of the region is rounded up first.\<close>

definition round_region :: "zbd_file \<Rightarrow> zbd_info \<Rightarrow> (zbd_file \<times> bool) option" where
  "round_region f zi = do {
     (n, z) \<leftarrow> zbd_offset_to_zone zi (zf_offset f);
     new_offset \<leftarrow> (if zf_offset f \<noteq> zstart z then zbd_zone_end zi n else Some (zf_offset f));
     if zf_offset f \<noteq> zstart z \<and> zf_offset f + zf_io_size f \<le> new_offset then Some (f, False)
     else round_end (f\<lparr>zf_offset := new_offset, zf_io_size := zf_io_size f - (new_offset - zf_offset f)\<rparr>) zi }"

definition zbd_zone_align_file_sizes :: "zone_opts \<Rightarrow> u64 \<Rightarrow> zbd_file \<Rightarrow> zbd_info \<Rightarrow> (zone_opts \<times> zbd_file \<times> bool) option" where
  "zbd_zone_align_file_sizes opts real_size f zi =
     (if real_size \<le> zf_offset f then Some (opts, f, True)
      else do {
        seq \<leftarrow> zbd_is_seq_job f zi;
        if \<not> seq then Some (opts, f, True)
        else do {
          let given = zo_size opts;
          let opts = (if given = 0 then opts\<lparr>zo_size := zone_size zi\<rparr> else opts);
          if zo_size opts = 0 \<or> given \<noteq> 0 \<and> given \<noteq> zone_size zi then Some (opts, f, False)
          else if zo_skip opts mod zo_size opts \<noteq> 0 then Some (opts, f, False)
          else if zo_read opts then do {
            (_, z) \<leftarrow> zbd_offset_to_zone zi (zf_offset f + zf_io_size f);
            Some (opts, if zstart z < zf_offset f + zf_io_size f then f\<lparr>zf_io_size := zstart z - zf_offset f\<rparr> else f, True) }
          else do {
            (f, ok) \<leftarrow> round_region f zi;
            Some (opts, f, ok) } } })"

section \<open>The zones of the region\<close>

fun sum_data :: "zbd_info \<Rightarrow> nat \<Rightarrow> nat \<Rightarrow> u64 \<Rightarrow> u64 option" where
  "sum_data zi n 0 vdb = Some vdb"
| "sum_data zi n (Suc k) vdb = do {
     z \<leftarrow> rd (zone_info zi) n;
     sum_data zi (Suc n) k (if zhas_wp z then vdb + (zwp z - zstart z) else vdb) }"

text \<open>The second result says that the ranges of the jobs differ, which is reported as the job's error.\<close>

definition zbd_verify_and_set_vdb :: "zbd_job \<Rightarrow> zbd_file \<Rightarrow> zbd_info \<Rightarrow> (zbd_info \<times> bool \<times> u64) option" where
  "zbd_verify_and_set_vdb td f zi =
     (if \<not> zj_account td then Some (zi, False, 0)
      else do {
        seq \<leftarrow> zbd_is_seq_job f zi;
        if \<not> seq then Some (zi, False, 0)
        else if write_min_zone zi \<noteq> write_max_zone zi
        then Some (zi, write_min_zone zi \<noteq> min_zone f \<or> write_max_zone zi \<noteq> max_zone f, 0)
        else do {
          vdb \<leftarrow> sum_data zi (min_zone f) (max_zone f - min_zone f) 0;
          Some (zi\<lparr>write_min_zone := min_zone f, write_max_zone := max_zone f, wp_valid_data_bytes := vdb\<rparr>, False, vdb) } })"

text \<open>Zones that are open already become write targets.\<close>

fun get_open_zones :: "zbd_job \<Rightarrow> zbd_info \<Rightarrow> nat \<Rightarrow> nat \<Rightarrow> (zbd_job \<times> zbd_info \<times> bool) option" where
  "get_open_zones td zi n 0 = Some (td, zi, True)"
| "get_open_zones td zi n (Suc k) = do {
     z \<leftarrow> rd (zone_info zi) n;
     if zcond z \<noteq> ZBD_ZONE_COND_IMP_OPEN \<and> zcond z \<noteq> ZBD_ZONE_COND_EXP_OPEN \<and> zcond z \<noteq> ZBD_ZONE_COND_CLOSED \<or>
       max_active_zones zi = 0 \<and> zcond z = ZBD_ZONE_COND_CLOSED
     then get_open_zones td zi (Suc n) k
     else do {
       (td, zi, got) \<leftarrow> zbd_write_zone_add td zi n;
       if got then get_open_zones td zi (Suc n) k else Some (td, zi, False) } }"

text \<open>One round of the loop of \<^verbatim>\<open>zbd_setup_files\<close>; \<open>max_open\<close> is the option \<^verbatim>\<open>max_open_zones\<close>.\<close>

definition zbd_setup_file :: "nat \<Rightarrow> zbd_job \<Rightarrow> zbd_file \<Rightarrow> zbd_info \<Rightarrow> (nat \<times> zbd_job \<times> zbd_file \<times> zbd_info \<times> bool) option" where
  "zbd_setup_file max_open td f zi = do {
     b \<leftarrow> zbd_offset_to_zone_idx zi (zf_offset f);
     e \<leftarrow> zbd_offset_to_zone_idx zi (zf_offset f + zf_io_size f);
     let f = f\<lparr>min_zone := b, max_zone := e\<rparr>;
     (zi, _, _) \<leftarrow> zbd_verify_and_set_vdb td f zi;
     seq \<leftarrow> zbd_is_seq_job f zi;
     c_assert (seq \<longrightarrow> b < e);
     if 0 < max_open \<and> max_write_zones zi \<noteq> max_open then Some (max_open, td, f, zi, False)
     else if job_max_open_zones td \<noteq> 0 \<and> max_write_zones zi = 0 then Some (max_open, td, f, zi, False)
     else do {
       (td, zi, ok) \<leftarrow> get_open_zones td zi b (e - b);
       Some (max_write_zones zi, td, f, zi, ok) } }"

section \<open>Trims\<close>

text \<open>The case \<^verbatim>\<open>DDIR_TRIM\<close> of \<^verbatim>\<open>zbd_adjust_block\<close>.\<close>

definition adjust_trim :: "bool \<Rightarrow> zbd_info \<Rightarrow> zbd_file \<Rightarrow> nat \<Rightarrow> u64 \<Rightarrow> u64 \<Rightarrow> adjusted option" where
  "adjust_trim rand zi f zb off len = do {
     z \<leftarrow> rd (zone_info zi) zb;
     if \<not> rand \<or> zstart z < zwp z then accept_zone z off len
     else do {
       r \<leftarrow> zbd_find_zone rand zi f 1 zb (max_zone f);
       case r of None \<Rightarrow> Some Eof
       | Some n \<Rightarrow> do {
           z \<leftarrow> rd (zone_info zi) n;
           accept_zone z (zstart z) len } } }"

datatype trim_result = Not_zoned | Trim_error | Trim_completed

definition zbd_do_io_u_trim :: "bool \<Rightarrow> zbd_job \<Rightarrow> zbd_file \<Rightarrow> zbd_info \<Rightarrow> u64 \<Rightarrow> (zbd_job \<times> zbd_info \<times> trim_result) option" where
  "zbd_do_io_u_trim dev td f zi off = do {
     (n, z) \<leftarrow> zbd_offset_to_zone zi off;
     if \<not> zhas_wp z then Some (td, zi, Not_zoned)
     else if off \<noteq> zstart z then Some (td, zi, Trim_error)
     else do {
       (td, zi, ok) \<leftarrow> zbd_reset_zone dev td f zi n;
       Some (td, zi, if ok then Trim_completed else Trim_error) } }"

section \<open>Regular zones\<close>

text \<open>Zones of one size from the start of the device on, up to the sentinel.\<close>

definition regular :: "zbd_info \<Rightarrow> bool" where
  "regular zi \<longleftrightarrow> zone_size zi \<noteq> 0 \<and> zone_size_log2 zi = (if is_power_of_2 (zone_size zi) then nat (ilog2 (zone_size zi)) else 0) \<and>
     length (zone_info zi) = unat (nr_zones zi) + 1 \<and> unat (nr_zones zi) * unat (zone_size zi) < 2 ^ 64 \<and>
     (\<forall>n \<le> unat (nr_zones zi). unat (zstart (zone_info zi ! n)) = n * unat (zone_size zi))"

lemma regular_init:
  assumes "init_zone_info mem zsize zcap real_size = Some zi" and "unat real_size + unat zsize \<le> 2 ^ 64"
    and "unat real_size \<le> 2 ^ 31 * unat zsize"
  shows "regular zi" "unat real_size \<le> unat (nr_zones zi) * unat zsize"
proof -
  note zi = init_zone_info_result [OF assms(1)]
  have z: "zsize \<noteq> 0" using zi(2) by auto
  have pos: "0 < unat zsize" using z by (simp add: unat_gt_0)
  let ?r = "unat real_size + unat zsize - 1"
  have nr: "unat (nr_zones zi) = ?r div unat zsize"
    unfolding zi(4) by (rule zone_count [OF assms(2,3) z])
  have le: "unat (nr_zones zi) * unat zsize \<le> ?r" unfolding nr by simp
  then have lt: "unat (nr_zones zi) * unat zsize < 2 ^ 64" using assms(2) pos by linarith
  have start: "unat (zstart (zone_info zi ! n)) = n * unat zsize" if "n \<le> unat (nr_zones zi)" for n
  proof -
    have b: "n * unat zsize < 2 ^ 64" using mult_le_mono1 [OF that, of "unat zsize"] lt by linarith
    have "of_nat n * zsize = of_nat (n * unat zsize)" by simp
    then have "unat (of_nat n * zsize) = n * unat zsize" using b by (simp add: unat_of_nat take_bit_nat_eq_self del: of_nat_mult)
    then show ?thesis using zi(7) [of n] that zi(4) by simp
  qed
  show "regular zi" unfolding regular_def using zi(1,4-6) z lt start by simp
  have "?r < Suc (?r div unat zsize) * unat zsize"
    unfolding mult_Suc using div_mult_mod_eq [of ?r "unat zsize"] mod_less_divisor [OF pos, of ?r] by linarith
  then show "unat real_size \<le> unat (nr_zones zi) * unat zsize" unfolding nr mult_Suc using pos by linarith
qed

text \<open>The zones of a region of such a device are sane: they are empty, and the smallest block is not larger than a zone.\<close>

lemma sane_init:
  assumes "init_zone_info mem zsize zcap real_size = Some zi" and "unat real_size + unat zsize \<le> 2 ^ 64"
    and "unat real_size \<le> 2 ^ 31 * unat zsize" and "max_zone f \<le> unat (nr_zones zi)" and "min_bs \<le> zsize"
  shows "sane_zones zi f min_bs"
  unfolding sane_zones_def
proof
  fix n assume "n \<in> {min_zone f..<max_zone f}"
  then have n: "n < unat (nr_zones zi)" using assms(4) by simp
  note r = regular_init(1) [OF assms(1-3)] and zi = init_zone_info_result [OF assms(1)]
  have "Suc n * unat zsize \<le> unat (nr_zones zi) * unat zsize" using n by (intro mult_le_mono1) simp
  then have "unat (zstart (zone_info zi ! n)) + unat min_bs < 2 ^ 64" using r zi(1) n assms(5) by (simp add: regular_def word_le_nat_alt)
  moreover have "zstart (zone_info zi ! n) \<le> zwp (zone_info zi ! n)"
    using assms(1) n by (auto simp: init_zone_info_def emulated_zone_def nth_append Let_def split: if_splits)
  ultimately show "unat (zstart (zone_info zi ! n)) + unat min_bs < 2 ^ 64 \<and> zstart (zone_info zi ! n) \<le> zwp (zone_info zi ! n)" by simp
qed

lemma regular_zone:
  assumes "regular zi" and "unat off \<le> unat (nr_zones zi) * unat (zone_size zi)"
  defines "n \<equiv> unat off div unat (zone_size zi)"
  shows "n \<le> unat (nr_zones zi)" "zbd_offset_to_zone zi off = Some (n, zone_info zi ! n)" "zbd_offset_to_zone_idx zi off = Some n"
    "unat (zstart (zone_info zi ! n)) = n * unat (zone_size zi)"
proof -
  have pos: "0 < unat (zone_size zi)" using assms(1) by (simp add: regular_def unat_gt_0)
  show n: "n \<le> unat (nr_zones zi)" unfolding n_def using div_le_mono [OF assms(2), of "unat (zone_size zi)"] pos by simp
  have u: "unat (ucast (off div zone_size zi) :: u32) = n"
    using n unsigned_less [of "nr_zones zi", where 'a = nat] by (simp add: unsigned_ucast_eq take_bit_nat_eq_self unat_div n_def)
  show idx: "zbd_offset_to_zone_idx zi off = Some n"
    using zone_number [of zi off] assms(1) u n by (simp add: min_def word_le_nat_alt regular_def)
  show "zbd_offset_to_zone zi off = Some (n, zone_info zi ! n)" using idx n assms(1) by (simp add: zbd_offset_to_zone_def regular_def)
  show "unat (zstart (zone_info zi ! n)) = n * unat (zone_size zi)" using assms(1) n by (simp add: regular_def)
qed

lemma regular_end: "regular zi \<Longrightarrow> n < unat (nr_zones zi) \<Longrightarrow> \<exists>e. zbd_zone_end zi n = Some e \<and> unat e = Suc n * unat (zone_size zi)"
  by (simp add: zbd_zone_end_def regular_def)

text \<open>A region of whole zones, the zones from \<open>b\<close> up to \<open>e\<close>.\<close>

definition whole_zones :: "zbd_info \<Rightarrow> zbd_file \<Rightarrow> nat \<Rightarrow> nat \<Rightarrow> bool" where
  "whole_zones zi f b e \<longleftrightarrow> b < e \<and> e \<le> unat (nr_zones zi) \<and> unat (zf_offset f) = b * unat (zone_size zi) \<and>
     unat (zf_offset f) + unat (zf_io_size f) = e * unat (zone_size zi)"

lemma whole_zones_range:
  assumes "regular zi" and "whole_zones zi f b e"
  shows "zbd_offset_to_zone_idx zi (zf_offset f) = Some b" "zbd_offset_to_zone_idx zi (zf_offset f + zf_io_size f) = Some e"
proof -
  let ?Z = "unat (zone_size zi)" and ?N = "unat (nr_zones zi)"
  have pos: "0 < ?Z" and lt: "?N * ?Z < 2 ^ 64" using assms(1) by (simp_all add: regular_def unat_gt_0)
  have w: "b < e" "e \<le> ?N" "unat (zf_offset f) = b * ?Z" "unat (zf_offset f) + unat (zf_io_size f) = e * ?Z"
    using assms(2) by (simp_all add: whole_zones_def)
  have eN: "e * ?Z \<le> ?N * ?Z" using w(2) by (rule mult_le_mono1)
  have bN: "b * ?Z \<le> ?N * ?Z" by (rule mult_le_mono1) (use w in simp)
  have sum: "unat (zf_offset f + zf_io_size f) = e * ?Z" using unat_add64 [of "zf_offset f" "zf_io_size f"] w(4) eN lt by linarith
  show "zbd_offset_to_zone_idx zi (zf_offset f) = Some b"
    using regular_zone(3) [OF assms(1), of "zf_offset f"] w(3) bN pos by simp
  show "zbd_offset_to_zone_idx zi (zf_offset f + zf_io_size f) = Some e"
    using regular_zone(3) [OF assms(1), of "zf_offset f + zf_io_size f"] sum eN pos by simp
qed

lemma round_end_whole:
  assumes "regular zi" and "unat (zf_offset f) = b * unat (zone_size zi)" and "zf_io_size f \<noteq> 0"
    and "unat (zf_offset f) + unat (zf_io_size f) \<le> unat (nr_zones zi) * unat (zone_size zi)" and "round_end f zi = Some (f', True)"
  shows "zf_offset f' = zf_offset f \<and> (\<exists>e. whole_zones zi f' b e \<and> e * unat (zone_size zi) \<le> unat (zf_offset f) + unat (zf_io_size f) \<and>
    unat (zf_offset f) + unat (zf_io_size f) < Suc e * unat (zone_size zi))"
proof -
  let ?Z = "unat (zone_size zi)" and ?N = "unat (nr_zones zi)" and ?e = "zf_offset f + zf_io_size f"
  have pos: "0 < ?Z" and lt: "?N * ?Z < 2 ^ 64" using assms(1) by (simp_all add: regular_def unat_gt_0)
  have sum: "unat ?e = unat (zf_offset f) + unat (zf_io_size f)" using unat_add64 [of "zf_offset f" "zf_io_size f"] assms(4) lt by linarith
  have le: "unat ?e \<le> ?N * ?Z" using sum assms(4) by simp
  define n where "n = unat ?e div ?Z"
  note z = regular_zone [OF assms(1) le, folded n_def]
  have lo: "n * ?Z \<le> unat ?e" unfolding n_def by simp
  have hi: "unat ?e < Suc n * ?Z"
    unfolding n_def mult_Suc using div_mult_mod_eq [of "unat ?e" ?Z] mod_less_divisor [OF pos, of "unat ?e"] by linarith
  have sz: "0 < unat (zf_io_size f)" using assms(3) by (simp add: unat_gt_0)
  show ?thesis
  proof (cases "?e = zstart (zone_info zi ! n)")
    case True
    have f': "f' = f" using assms(5) z(2) True by (simp add: round_end_def)
    have "unat ?e = n * ?Z" using True z(4) by simp
    moreover from this have "b * ?Z < n * ?Z" using sum assms(2) sz by linarith
    then have "b < n" using mult_less_cancel2 by blast
    ultimately show ?thesis using f' z(1) assms(2) sum hi by (auto simp: whole_zones_def)
  next
    case False
    then have gt: "\<not> zstart (zone_info zi ! n) \<le> zf_offset f" and f': "f' = f\<lparr>zf_io_size := zstart (zone_info zi ! n) - zf_offset f\<rparr>"
      using assms(5) z(2) by (auto simp: round_end_def Let_def split: if_splits)
    have bn: "b * ?Z < n * ?Z" using gt z(4) assms(2) by (simp add: word_le_nat_alt)
    then have "b < n" using mult_less_cancel2 by blast
    moreover have "unat (zstart (zone_info zi ! n) - zf_offset f) = n * ?Z - b * ?Z"
      using gt z(4) assms(2) by (simp add: unat_sub word_le_nat_alt)
    ultimately have "whole_zones zi f' b n" using f' z(1) assms(2) bn by (simp add: whole_zones_def)
    then show ?thesis using f' lo hi sum by auto
  qed
qed

lemma align_start:
  assumes "regular zi" and "unat (zf_offset f) + unat (zf_io_size f) \<le> unat (nr_zones zi) * unat (zone_size zi)" and "zf_io_size f \<noteq> 0"
    and "zbd_offset_to_zone zi (zf_offset f) = Some (n, z)"
    and "(if zf_offset f \<noteq> zstart z then zbd_zone_end zi n else Some (zf_offset f)) = Some new_offset"
    and "\<not> (zf_offset f \<noteq> zstart z \<and> zf_offset f + zf_io_size f \<le> new_offset)"
  defines "f' \<equiv> f\<lparr>zf_offset := new_offset, zf_io_size := zf_io_size f - (new_offset - zf_offset f)\<rparr>"
  shows "\<exists>b. unat (zf_offset f') = b * unat (zone_size zi) \<and> zf_io_size f' \<noteq> 0 \<and> unat (zf_offset f) \<le> unat (zf_offset f') \<and>
    unat (zf_offset f') < unat (zf_offset f) + unat (zone_size zi) \<and>
    unat (zf_offset f') + unat (zf_io_size f') = unat (zf_offset f) + unat (zf_io_size f)"
proof -
  let ?Z = "unat (zone_size zi)" and ?N = "unat (nr_zones zi)" and ?o = "unat (zf_offset f)" and ?s = "unat (zf_io_size f)"
  have pos: "0 < ?Z" and lt: "?N * ?Z < 2 ^ 64" using assms(1) by (simp_all add: regular_def unat_gt_0)
  have sz: "0 < ?s" using assms(3) by (simp add: unat_gt_0)
  have le: "?o \<le> ?N * ?Z" using assms(2) by simp
  have nz: "n = ?o div ?Z" "z = zone_info zi ! n" "n \<le> ?N" "unat (zstart z) = n * ?Z" using regular_zone [OF assms(1) le] assms(4) by auto
  have lo: "n * ?Z \<le> ?o" unfolding nz(1) by simp
  have hi: "?o < Suc n * ?Z"
    unfolding nz(1) mult_Suc using div_mult_mod_eq [of ?o ?Z] mod_less_divisor [OF pos, of ?o] by linarith
  show ?thesis
  proof (cases "zf_offset f = zstart z")
    case True
    then have "f' = f" using assms(5) by (simp add: f'_def)
    then show ?thesis using True nz(4) assms(3) pos by auto
  next
    case False
    have "n * ?Z < ?N * ?Z" using lo assms(2) sz by linarith
    then have "n < ?N" using mult_less_cancel2 by blast
    then obtain e where e: "zbd_zone_end zi n = Some e" "unat e = Suc n * ?Z" using regular_end [OF assms(1)] by blast
    have off: "new_offset = e" using False assms(5) e(1) by simp
    have sum: "unat (zf_offset f + zf_io_size f) = ?o + ?s" by (rule unat_add64) (use assms(2) lt in linarith)
    have lt_end: "Suc n * ?Z < ?o + ?s" using False assms(6) off e(2) sum by (simp add: word_le_nat_alt)
    have d: "unat (e - zf_offset f) = Suc n * ?Z - ?o" using hi e(2) by (simp add: unat_sub word_le_nat_alt)
    have "unat (zf_io_size f - (e - zf_offset f)) = ?s - (Suc n * ?Z - ?o)"
      using d lt_end hi by (subst unat_sub) (simp_all add: word_le_nat_alt)
    moreover have "?s - (Suc n * ?Z - ?o) \<noteq> 0" "Suc n * ?Z < ?o + ?Z \<or> ?o = n * ?Z" using lt_end hi lo by (simp_all, linarith)
    moreover have "?o \<noteq> n * ?Z" using False nz(4) by (metis word_unat_eq_iff)
    ultimately show ?thesis using e(2) off hi lt_end
      by (intro exI [of _ "Suc n"]) (auto simp: f'_def)
  qed
qed

lemma align_whole:
  assumes "regular zi" and "zf_offset f < real_size" and "unat (zf_offset f) + unat (zf_io_size f) \<le> unat (nr_zones zi) * unat (zone_size zi)"
    and "zbd_is_seq_job f zi = Some True" and "\<not> zo_read opts" and "zbd_zone_align_file_sizes opts real_size f zi = Some (opts', f', True)"
  shows "\<exists>b e. whole_zones zi f' b e \<and> unat (zf_offset f) \<le> unat (zf_offset f') \<and> unat (zf_offset f') < unat (zf_offset f) + unat (zone_size zi) \<and>
    e * unat (zone_size zi) \<le> unat (zf_offset f) + unat (zf_io_size f) \<and>
    unat (zf_offset f) + unat (zf_io_size f) < Suc e * unat (zone_size zi)"
proof -
  have sz: "zf_io_size f \<noteq> 0" using assms(4) by (auto simp: zbd_is_seq_job_def)
  have "round_region f zi = Some (f', True)"
    using assms(2,4,5,6) by (auto simp: zbd_zone_align_file_sizes_def Let_def bind_eq_Some_conv not_le split: if_splits)
  then obtain n z new_offset where s: "zbd_offset_to_zone zi (zf_offset f) = Some (n, z)"
    "(if zf_offset f \<noteq> zstart z then zbd_zone_end zi n else Some (zf_offset f)) = Some new_offset"
    "\<not> (zf_offset f \<noteq> zstart z \<and> zf_offset f + zf_io_size f \<le> new_offset)"
    and r: "round_end (f\<lparr>zf_offset := new_offset, zf_io_size := zf_io_size f - (new_offset - zf_offset f)\<rparr>) zi = Some (f', True)"
    unfolding round_region_def bind_eq_Some_conv split_paired_Ex prod.case by (metis (no_types, lifting) Pair_inject option.inject)
  let ?f = "f\<lparr>zf_offset := new_offset, zf_io_size := zf_io_size f - (new_offset - zf_offset f)\<rparr>"
  obtain b where b: "unat (zf_offset ?f) = b * unat (zone_size zi)" "zf_io_size ?f \<noteq> 0" "unat (zf_offset f) \<le> unat (zf_offset ?f)"
    "unat (zf_offset ?f) < unat (zf_offset f) + unat (zone_size zi)"
    "unat (zf_offset ?f) + unat (zf_io_size ?f) = unat (zf_offset f) + unat (zf_io_size f)"
    using align_start [OF assms(1,3) sz s] by blast
  from round_end_whole [OF assms(1) b(1,2) _ r] b(5) assms(3) obtain e where
    "zf_offset f' = zf_offset ?f" "whole_zones zi f' b e" "e * unat (zone_size zi) \<le> unat (zf_offset f) + unat (zf_io_size f)"
    "unat (zf_offset f) + unat (zf_io_size f) < Suc e * unat (zone_size zi)"
    by (simp only: b(5)) blast
  then show ?thesis using b(3,4) by metis
qed

text \<open>
  C11 (functional): the region of a job on sequential zones that is not a sequential read is cut to whole zones: it starts and ends at a zone boundary, has at least one zone,
  lies inside the region that was asked for (the start is rounded up and the end down) and loses less than a zone on either side. The range of zones set up for the file is then not
  empty and is exactly this region. The comment above \<^verbatim>\<open>zbd_zone_align_file_sizes\<close> says the opposite, that the offset is aligned down and the size up.
\<close>

theorem aligned_zone_range:
  assumes "regular zi" and "zf_offset f < real_size" and "unat (zf_offset f) + unat (zf_io_size f) \<le> unat (nr_zones zi) * unat (zone_size zi)"
    and "zbd_is_seq_job f zi = Some True" and "\<not> zo_read opts" and "zbd_zone_align_file_sizes opts real_size f zi = Some (opts', f', True)"
  shows "\<exists>b e. b < e \<and> zbd_offset_to_zone_idx zi (zf_offset f') = Some b \<and> zbd_offset_to_zone_idx zi (zf_offset f' + zf_io_size f') = Some e \<and>
    unat (zf_offset f') = b * unat (zone_size zi) \<and> unat (zf_offset f') + unat (zf_io_size f') = e * unat (zone_size zi) \<and>
    unat (zf_offset f) \<le> unat (zf_offset f') \<and> unat (zf_offset f') < unat (zf_offset f) + unat (zone_size zi) \<and>
    unat (zf_offset f') + unat (zf_io_size f') \<le> unat (zf_offset f) + unat (zf_io_size f) \<and>
    unat (zf_offset f) + unat (zf_io_size f) < unat (zf_offset f') + unat (zf_io_size f') + unat (zone_size zi)"
proof -
  obtain b e where be: "whole_zones zi f' b e" "unat (zf_offset f) \<le> unat (zf_offset f')" "unat (zf_offset f') < unat (zf_offset f) + unat (zone_size zi)"
    "e * unat (zone_size zi) \<le> unat (zf_offset f) + unat (zf_io_size f)"
    "unat (zf_offset f) + unat (zf_io_size f) < Suc e * unat (zone_size zi)"
    using align_whole [OF assms] by blast
  show ?thesis using whole_zones_range [OF assms(1) be(1)] be
    by (intro exI [of _ b] exI [of _ e]) (simp add: whole_zones_def)
qed

lemma sample_zones: "zone_info sample_device = [sample_zone 0, sample_zone 4096, sentinel 8192]" "nr_zones sample_device = 2"
  "zone_size sample_device = 4096" "zone_size_log2 sample_device = 12"
  by (simp_all add: sample_device_def)

lemma sample_regular: "regular sample_device"
proof -
  have "unat (zstart (zone_info sample_device ! n)) = n * 4096" if "n \<le> 2" for n
  proof -
    have "n = 0 \<or> n = 1 \<or> n = 2" using that by linarith
    then show ?thesis by (auto simp: sample_zones sample_zone_def sentinel_def)
  qed
  moreover have "is_power_of_2 4096" "nat (ilog2 4096) = 12"
    using ilog2_power [of 12] by (simp_all add: is_power_of_2_def)
  ultimately show ?thesis by (simp add: regular_def sample_zones)
qed

theorem aligned_zone_range_witness:
  "\<exists>f' b e. zbd_zone_align_file_sizes \<lparr>zo_size = 0, zo_skip = 0, zo_read = False\<rparr> 8192 \<lparr>zf_offset = 512, zf_io_size = 7680, min_zone = 0, max_zone = 0\<rparr>
      sample_device = Some (\<lparr>zo_size = 4096, zo_skip = 0, zo_read = False\<rparr>, f', True) \<and>
    b < e \<and> unat (zf_offset f') = b * 4096 \<and> unat (zf_offset f') + unat (zf_io_size f') = e * 4096"
proof -
  let ?f = "\<lparr>zf_offset = 512, zf_io_size = 7680, min_zone = 0, max_zone = 0\<rparr>" and ?opts = "\<lparr>zo_size = 0, zo_skip = 0, zo_read = False\<rparr>"
  let ?f' = "\<lparr>zf_offset = 4096, zf_io_size = 4096, min_zone = 0, max_zone = 0\<rparr>"
  have idx: "zbd_offset_to_zone_idx sample_device 512 = Some 0" "zbd_offset_to_zone_idx sample_device 8191 = Some 1"
    "zbd_offset_to_zone_idx sample_device 8192 = Some 2"
    by (simp_all add: zbd_offset_to_zone_idx_def sample_device_def)
  have any: "any_seq sample_device 0 (Suc (Suc 0)) = Some True" by (simp add: sample_zones sample_zone_def sentinel_def)
  have seq: "zbd_is_seq_job ?f sample_device = Some True"
    using idx any by (simp add: zbd_is_seq_job_def del: any_seq.simps)
  have align: "zbd_zone_align_file_sizes ?opts 8192 ?f sample_device = Some (?opts\<lparr>zo_size := 4096\<rparr>, ?f', True)"
    using seq idx by (simp add: zbd_zone_align_file_sizes_def round_region_def round_end_def zbd_offset_to_zone_def sample_zones sample_zone_def sentinel_def zbd_zone_end_def)
  have "zf_offset ?f < 8192" "unat (zf_offset ?f) + unat (zf_io_size ?f) \<le> unat (nr_zones sample_device) * unat (zone_size sample_device)" "\<not> zo_read ?opts"
    by (simp_all add: sample_zones)
  from aligned_zone_range [OF sample_regular this(1,2) seq this(3) align] align show ?thesis
    by (simp add: sample_zones)
qed

section \<open>Reads inside one zone\<close>

text \<open>
  C37 (error): a job that only reads a part of the first zone, not from its start, has the end of its region rounded down in front of its start: the size
  wraps around, and the set-up of the file fails the assertion that the range of zones is not empty.
\<close>

theorem read_region_wraps:
  assumes "regular zi" and "0 < nr_zones zi" and "zhas_wp (zone_info zi ! 0)" and "zf_offset f < real_size" and "0 < zf_offset f" and "0 < zf_io_size f"
    and "unat (zf_offset f) + unat (zf_io_size f) < unat (zone_size zi)" and "zo_read opts" and "zo_size opts = zone_size zi" and "zo_skip opts = 0"
  shows "zbd_zone_align_file_sizes opts real_size f zi = Some (opts, f\<lparr>zf_io_size := - zf_offset f\<rparr>, True) \<and>
    zbd_setup_file max_open td (f\<lparr>zf_io_size := - zf_offset f\<rparr>) zi = None"
proof -
  let ?Z = "unat (zone_size zi)" and ?N = "unat (nr_zones zi)"
  have N: "1 \<le> ?N" using assms(2) by (simp add: word_less_nat_alt)
  have zone: "zbd_offset_to_zone zi off = Some (0, zone_info zi ! 0)" "zbd_offset_to_zone_idx zi off = Some 0" "zstart (zone_info zi ! 0) = 0"
    if "unat off < ?Z" for off
  proof -
    have "unat off \<le> ?N * ?Z" using that N mult_le_mono1 [of 1 ?N ?Z] by linarith
    note r = regular_zone [OF assms(1) this]
    have "unat off div ?Z = 0" using that by simp
    then show "zbd_offset_to_zone zi off = Some (0, zone_info zi ! 0)" "zbd_offset_to_zone_idx zi off = Some 0" "zstart (zone_info zi ! 0) = 0"
      using r(2,3,4) by (simp_all add: unat_eq_0)
  qed
  have lt: "?N * ?Z < 2 ^ 64" and z0: "zone_size zi \<noteq> 0" and len: "0 < length (zone_info zi)" using assms(1) by (simp_all add: regular_def)
  have "?Z \<le> ?N * ?Z" using N by simp
  then have sum: "unat (zf_offset f + zf_io_size f) = unat (zf_offset f) + unat (zf_io_size f)"
    using assms(7) lt by (intro unat_add64) linarith
  have idx: "\<exists>n. zbd_offset_to_zone_idx zi off = Some n" for off using z0 by (simp add: zbd_offset_to_zone_idx_def)
  have off: "unat (zf_offset f) < ?Z" "unat (zf_offset f + zf_io_size f) < ?Z" "unat (0 :: u64) < ?Z"
    using assms(7) sum z0 by (simp_all add: unat_gt_0)
  have seq: "zbd_is_seq_job (f\<lparr>zf_io_size := s, min_zone := a, max_zone := c\<rparr>) zi' = Some True"
    if "s \<noteq> 0" "zi' = zi\<lparr>write_min_zone := x, write_max_zone := y, wp_valid_data_bytes := v\<rparr>" for s a c x y v zi'
  proof -
    have i: "zbd_offset_to_zone_idx zi' o' = zbd_offset_to_zone_idx zi o'" for o' by (simp add: that(2) zbd_offset_to_zone_idx_def)
    have a: "any_seq zi' 0 (Suc k) = Some True" for k using len assms(3) by (simp add: that(2))
    show ?thesis using that(1) idx [of "zf_offset f + s - 1"] zone(2) [OF off(1)] a by (auto simp: zbd_is_seq_job_def i)
  qed
  have same: "zi = zi\<lparr>write_min_zone := write_min_zone zi, write_max_zone := write_max_zone zi, wp_valid_data_bytes := wp_valid_data_bytes zi\<rparr>" by simp
  have seq0: "zbd_is_seq_job f zi = Some True" using seq [OF _ same, where s = "zf_io_size f" and a = "min_zone f" and c = "max_zone f"] assms(6) by (simp add: word_gt_0)
  have pos: "0 < zf_offset f + zf_io_size f" using sum assms(5) by (simp add: word_less_nat_alt)
  have align: "zbd_zone_align_file_sizes opts real_size f zi = Some (opts, f\<lparr>zf_io_size := - zf_offset f\<rparr>, True)"
    using assms(4,8-10) seq0 zone(1,3) [OF off(2)] pos z0 by (simp add: zbd_zone_align_file_sizes_def Let_def not_le)
  let ?f = "f\<lparr>zf_io_size := - zf_offset f, min_zone := 0, max_zone := 0\<rparr>"
  have neg: "- zf_offset f \<noteq> 0" using assms(5) by auto
  have "post (zbd_verify_and_set_vdb td ?f zi) (\<lambda>(zi', _). zbd_is_seq_job ?f zi' = Some True)"
    unfolding zbd_verify_and_set_vdb_def
    by (intro posts post_skip) (use seq [OF neg same] seq [OF neg refl] in auto)
  then have "zbd_setup_file max_open td (f\<lparr>zf_io_size := - zf_offset f\<rparr>) zi = None"
    using zone(2) [OF off(1)] zone(2) [OF off(3)]
    by (cases "zbd_verify_and_set_vdb td ?f zi") (auto simp: zbd_setup_file_def post_def c_assert_def Let_def)
  then show ?thesis using align by blast
qed

theorem read_region_wraps_witness:
  "zbd_setup_file 0 sample_zjob \<lparr>zf_offset = 512, zf_io_size = - 512, min_zone = 0, max_zone = 0\<rparr> sample_device = None"
proof -
  let ?f = "\<lparr>zf_offset = 512, zf_io_size = 512, min_zone = 0, max_zone = 0\<rparr>" and ?opts = "\<lparr>zo_size = 4096, zo_skip = 0, zo_read = True\<rparr>"
  have "0 < nr_zones sample_device" "zhas_wp (zone_info sample_device ! 0)" "zf_offset ?f < 8192" "0 < zf_offset ?f" "0 < zf_io_size ?f"
    "unat (zf_offset ?f) + unat (zf_io_size ?f) < unat (zone_size sample_device)" "zo_read ?opts" "zo_size ?opts = zone_size sample_device" "zo_skip ?opts = 0"
    by (simp_all add: sample_device_def sample_zone_def sentinel_def)
  from read_region_wraps [OF sample_regular this] show ?thesis by simp
qed

section \<open>Setting up the write targets\<close>

text \<open>The limit is checked against the size of the array, and the zones that are open when the job starts keep the invariant of the write targets.\<close>

lemma set_max_write_zones_bound: "zbd_set_max_write_zones ignore user dev zi = (zi', True) \<Longrightarrow> max_write_zones zi' \<le> ZBD_MAX_WRITE_ZONES"
  by (auto simp: zbd_set_max_write_zones_def Let_def split: if_splits option.splits)

lemma get_open_effect: "post (get_open_zones td zi n k) (\<lambda>(td', zi', ok). wz_effect (td, zi) (td', zi'))"
proof (induction k arbitrary: td zi n)
  case (Suc k)
  have step: "post (get_open_zones td' zi' (Suc n) k) (\<lambda>(td'', zi'', ok). wz_effect (td, zi) (td'', zi''))"
    if "wz_effect (td, zi) (td', zi')" for td' zi'
    by (rule post_weaken [OF Suc.IH]) (use wz_effect_trans [OF that] in auto)
  show ?case unfolding get_open_zones.simps
    apply (rule post_bind, rule post_skip, rule post_if)
     apply (rule Suc.IH)
    apply (rule post_bind, rule post_weaken [OF add_effect])
    apply (intro posts step)
      apply auto
    done
qed (simp add: post_def)

lemma vdb_same: "post (zbd_verify_and_set_vdb td f zi) (\<lambda>(zi', _). same_write zi zi')"
  unfolding zbd_verify_and_set_vdb_def by (intro posts post_skip) (auto simp: same_write_def)

lemma open_effect:
  assumes "same_write zi zi1"
  shows "post (get_open_zones td zi1 n k \<bind> (\<lambda>(td', zi', ok). Some (max_write_zones zi', td', f, zi', ok)))
    (\<lambda>(_, td', _, zi', _). wz_effect (td, zi) (td', zi'))"
  by (rule post_bind, rule post_weaken [OF get_open_effect], intro posts)
    (use wz_effect_trans [OF wz_effect_same [OF assms]] in auto)

lemma setup_effect: "post (zbd_setup_file max_open td f zi) (\<lambda>(_, td', _, zi', _). wz_effect (td, zi) (td', zi'))"
  unfolding zbd_setup_file_def Let_def
  apply (rule post_bind, rule post_skip, rule post_bind, rule post_skip)
  apply (rule post_bind, rule post_weaken [OF vdb_same])
  apply (intro open_effect posts post_skip)
    apply (auto intro: wz_effect_same)
  done

section \<open>Trims and conventional zones\<close>

lemma conventional_readable:
  assumes "report_zone zsize r = Some z" and "rz_type r = ZBD_ZONE_TYPE_CNV" and "rz_cond r = ZBD_ZONE_COND_NOT_WP"
    and "unat (rz_start r) + unat (rz_capacity r) < 2 ^ 64" and "0 < rz_capacity r"
  shows "\<not> zhas_wp z" "zcond z \<noteq> ZBD_ZONE_COND_OFFLINE" "zstart z + 1 \<le> zwp z"
proof -
  have z: "zstart z = rz_start r" "zwp z = rz_start r + rz_capacity r" "\<not> zhas_wp z" "zcond z = ZBD_ZONE_COND_NOT_WP"
    using assms(1-3) by (auto simp: report_zone_def)
  have "unat (rz_start r + rz_capacity r) = unat (rz_start r) + unat (rz_capacity r)" by (rule unat_add64 [OF assms(4)])
  moreover have "0 < unat (rz_capacity r)" using assms(5) by (simp add: word_less_nat_alt)
  ultimately have "rz_start r < rz_start r + rz_capacity r" by (simp add: word_less_nat_alt)
  then have "rz_start r + 1 \<le> rz_start r + rz_capacity r" by (rule inc_le)
  then show "\<not> zhas_wp z" "zcond z \<noteq> ZBD_ZONE_COND_OFFLINE" "zstart z + 1 \<le> zwp z" using z by simp_all
qed

text \<open>
  A random trim of an empty sequential zone looks for a zone with data. If the sequential zones of the job are all empty and there is a
  conventional zone, the search returns it, because a conventional zone counts as full, and the trim fails the assertion that the zone has a write pointer.
\<close>

theorem trim_conventional_fails:
  assumes "max_zone f \<le> length (zone_info zi)" and "min_zone f \<le> zb" and "zb < max_zone f"
    and "\<forall>n. min_zone f \<le> n \<and> n < max_zone f \<and> zhas_wp (zone_info zi ! n) \<longrightarrow>
      zwp (zone_info zi ! n) = zstart (zone_info zi ! n) \<and> zstart (zone_info zi ! n) \<noteq> u64_max"
    and "zhas_wp (zone_info zi ! zb)" and "min_zone f \<le> c" and "c < max_zone f" and "report_zone zsize r = Some (zone_info zi ! c)"
    and "rz_type r = ZBD_ZONE_TYPE_CNV" and "rz_cond r = ZBD_ZONE_COND_NOT_WP" and "unat (rz_start r) + unat (rz_capacity r) < 2 ^ 64" and "0 < rz_capacity r"
  shows "adjust_trim True zi f zb off len = None"
proof -
  have c: "readable zi 1 c" "c \<noteq> zb"
    using conventional_readable [OF assms(8-12)] assms(1,5,7) by (auto simp: readable_def)
  have empty: "\<not> readable zi 1 n" if "min_zone f \<le> n" "n < max_zone f" "zhas_wp (zone_info zi ! n)" for n
  proof -
    have "\<not> s + 1 \<le> s" if "s \<noteq> u64_max" for s :: u64
    proof -
      have "unat s \<noteq> 2 ^ 64 - 1" using that unat_u64_max by (metis word_unat_eq_iff)
      then have "unat s + unat (1 :: u64) < 2 ^ 64" using unsigned_less [of s, where 'a = nat] by simp
      then show ?thesis using unat_add64 [of s 1] by (simp add: word_le_nat_alt)
    qed
    then show ?thesis using assms(4) that by (simp add: readable_def)
  qed
  obtain r' where r': "zbd_find_zone True zi f 1 zb (max_zone f) = Some r'"
    "\<And>n. r' = Some n \<Longrightarrow> min_zone f \<le> n \<and> n < max_zone f \<and> readable zi 1 n"
    "\<And>n. r' = None \<Longrightarrow> True \<Longrightarrow> min_zone f \<le> n \<Longrightarrow> n < max_zone f \<Longrightarrow> n \<noteq> zb \<Longrightarrow> \<not> readable zi 1 n"
    using zbd_find_zone_found [OF assms(1-3), of True 1] by metis
  obtain n where n: "r' = Some n" using r'(3) c assms(6,7) by (cases r') auto
  then have "\<not> zhas_wp (zone_info zi ! n)" "n < length (zone_info zi)" using r'(2) [OF n] empty assms(1) by auto
  then show ?thesis using r'(1) n assms(1,3,4,2,5) by (simp add: adjust_trim_def accept_zone_def c_assert_def)
qed

definition mixed_device :: zbd_info where
  "mixed_device = sample_device\<lparr>zone_info := [(sample_zone 0)\<lparr>zwp := 4096, zhas_wp := False, zcond := ZBD_ZONE_COND_NOT_WP\<rparr>, sample_zone 4096, sentinel 8192]\<rparr>"

theorem trim_conventional_fails_witness: "adjust_trim True mixed_device sample_zfile 1 4096 4096 = None"
proof -
  let ?r = "\<lparr>rz_start = 0, rz_wp = 0, rz_len = 4096, rz_capacity = 4096, rz_type = ZBD_ZONE_TYPE_CNV, rz_cond = ZBD_ZONE_COND_NOT_WP\<rparr>"
  have z: "zone_info mixed_device = [(sample_zone 0)\<lparr>zwp := 4096, zhas_wp := False, zcond := ZBD_ZONE_COND_NOT_WP\<rparr>, sample_zone 4096, sentinel 8192]"
    by (simp add: mixed_device_def)
  have seq: "\<forall>n. min_zone sample_zfile \<le> n \<and> n < max_zone sample_zfile \<and> zhas_wp (zone_info mixed_device ! n) \<longrightarrow>
      zwp (zone_info mixed_device ! n) = zstart (zone_info mixed_device ! n) \<and> zstart (zone_info mixed_device ! n) \<noteq> u64_max"
  proof (intro allI impI)
    fix n assume n: "min_zone sample_zfile \<le> n \<and> n < max_zone sample_zfile \<and> zhas_wp (zone_info mixed_device ! n)"
    have "n = 0 \<or> n = 1" using n by (auto simp: sample_zfile_def)
    then show "zwp (zone_info mixed_device ! n) = zstart (zone_info mixed_device ! n) \<and> zstart (zone_info mixed_device ! n) \<noteq> u64_max"
      using n by (auto simp: z sample_zone_def sentinel_def)
  qed
  show ?thesis
    by (rule trim_conventional_fails [OF _ _ _ seq, where c = 0 and r = ?r and zsize = 4096])
      (simp_all add: z sample_zone_def sentinel_def sample_zfile_def report_zone_def)
qed

end
