(* ===== verification/Rbtree.thy ===== *)
theory Rbtree
  imports Prelude
begin

text \<open>
  \<^verbatim>\<open>lib/rbtree.c\<close>. A node with its parent pointers is a subtree and the path to the root: one frame per ancestor, with the side on which the
  path goes on, the color and entry of the ancestor, and its other child. The two halves of each loop of the code differ only in left and right,
  so they are one definition over the side. \<open>None\<close> is an access through a null pointer.
\<close>

section \<open>Nodes\<close>

datatype rb_color = RB_RED | RB_BLACK

datatype 'a rb_node = Rb_Null | Rb_Node rb_color "'a rb_node" 'a "'a rb_node"

datatype side = Rb_Left | Rb_Right

datatype 'a frame = Frame side rb_color 'a "'a rb_node"

fun opp :: "side \<Rightarrow> side" where
  "opp Rb_Left = Rb_Right"
| "opp Rb_Right = Rb_Left"

fun rb_is_red :: "'a rb_node \<Rightarrow> bool" where
  "rb_is_red Rb_Null = False"
| "rb_is_red (Rb_Node c _ _ _) = (c = RB_RED)"

fun rb_set_color :: "rb_color \<Rightarrow> 'a rb_node \<Rightarrow> 'a rb_node" where
  "rb_set_color c Rb_Null = Rb_Null"
| "rb_set_color c (Rb_Node _ l x r) = Rb_Node c l x r"

text \<open>A node with the child \<open>t\<close> on side \<open>d\<close> and \<open>s\<close> on the other, the child on a side, and the tree of a path.\<close>

fun join :: "side \<Rightarrow> rb_color \<Rightarrow> 'a rb_node \<Rightarrow> 'a \<Rightarrow> 'a rb_node \<Rightarrow> 'a rb_node" where
  "join Rb_Left c t x s = Rb_Node c t x s"
| "join Rb_Right c t x s = Rb_Node c s x t"

fun kid :: "side \<Rightarrow> 'a rb_node \<Rightarrow> 'a rb_node" where
  "kid d Rb_Null = Rb_Null"
| "kid Rb_Left (Rb_Node c l x r) = l"
| "kid Rb_Right (Rb_Node c l x r) = r"

fun plug :: "'a frame list \<Rightarrow> 'a rb_node \<Rightarrow> 'a rb_node" where
  "plug [] t = t"
| "plug (Frame d c x s # ps) t = plug ps (join d c t x s)"

fun rb_rotate :: "side \<Rightarrow> 'a rb_node \<Rightarrow> 'a rb_node option" where
  "rb_rotate Rb_Left (Rb_Node c l x (Rb_Node d rl y rr)) = Some (Rb_Node d (Rb_Node c l x rl) y rr)"
| "rb_rotate Rb_Right (Rb_Node c (Rb_Node d ll y lr) x r) = Some (Rb_Node d ll y (Rb_Node c lr x r))"
| "rb_rotate _ _ = None"

section \<open>Insertion\<close>

text \<open>
  A loop round moves up by two ancestors. After a rotation the parent of the node is black, and the loop ends. The parent of a red node is read
  without a test for a null pointer.
\<close>

fun rb_insert_color :: "'a rb_node \<Rightarrow> 'a frame list \<Rightarrow> 'a rb_node option" where
  "rb_insert_color node [] = Some (rb_set_color RB_BLACK node)"
| "rb_insert_color node [Frame d c x s] =
     (if c = RB_RED then None else Some (rb_set_color RB_BLACK (join d c node x s)))"
| "rb_insert_color node (Frame d c x s # Frame gd gc g uncle # ps) =
     (if c = RB_BLACK then Some (rb_set_color RB_BLACK (plug (Frame d c x s # Frame gd gc g uncle # ps) node))
      else if rb_is_red uncle
      then rb_insert_color (join gd RB_RED (join d RB_BLACK node x s) g (rb_set_color RB_BLACK uncle)) ps
      else do {
        parent \<leftarrow> (if d \<noteq> gd then rb_rotate gd (join d c node x s) else Some (join d c node x s));
        top \<leftarrow> rb_rotate (opp gd) (join gd RB_RED (rb_set_color RB_BLACK parent) g uncle);
        Some (rb_set_color RB_BLACK (plug ps top)) })"

text \<open>\<^verbatim>\<open>rb_link_node\<close> makes a red node without children.\<close>

definition rb_link_node :: "'a \<Rightarrow> 'a rb_node" where
  "rb_link_node x = Rb_Node RB_RED Rb_Null x Rb_Null"

section \<open>Removal\<close>

fun black_kid :: "side \<Rightarrow> 'a rb_node \<Rightarrow> 'a rb_node" where
  "black_kid d Rb_Null = Rb_Null"
| "black_kid Rb_Left (Rb_Node c l x r) = Rb_Node c (rb_set_color RB_BLACK l) x r"
| "black_kid Rb_Right (Rb_Node c l x r) = Rb_Node c l x (rb_set_color RB_BLACK r)"

text \<open>The rotation that puts a red sibling above the parent: the new color of the parent, its new sibling, and the ancestors.\<close>

fun lift_red :: "side \<Rightarrow> rb_color \<Rightarrow> 'a rb_node \<Rightarrow> 'a frame list \<Rightarrow> rb_color \<times> 'a rb_node \<times> 'a frame list" where
  "lift_red d c (Rb_Node RB_RED l y r) ps =
     (RB_RED, kid d (Rb_Node RB_RED l y r), Frame d RB_BLACK y (kid (opp d) (Rb_Node RB_RED l y r)) # ps)"
| "lift_red d c other ps = (c, other, ps)"

lemma rb_is_red_join [simp]: "rb_is_red (join d c t x s) = (c = RB_RED)"
  by (cases d) simp_all

lemma lift_red_cases: "lift_red d c s qs = (c, s, qs) \<and> \<not> rb_is_red s \<or>
    (\<exists>l y r. s = Rb_Node RB_RED l y r \<and> lift_red d c s qs = (RB_RED, kid d s, Frame d RB_BLACK y (kid (opp d) s) # qs))"
  by (cases "(d, c, s, qs)" rule: lift_red.cases) auto

text \<open>
  The code tells the side from \<^verbatim>\<open>parent->rb_left == node\<close>, for a null pointer too: its sibling is then not null, as the theorems below show.
\<close>

function rb_erase_color :: "'a rb_node \<Rightarrow> 'a frame list \<Rightarrow> 'a rb_node option" where
  "rb_erase_color node [] = Some (rb_set_color RB_BLACK node)"
| "rb_erase_color node (Frame d c x s # qs) =
     (if rb_is_red node then Some (plug (Frame d c x s # qs) (rb_set_color RB_BLACK node))
      else (case lift_red d c s qs of (c, other, ps) \<Rightarrow>
        if other = Rb_Null then None
        else if \<not> rb_is_red (kid Rb_Left other) \<and> \<not> rb_is_red (kid Rb_Right other)
        then rb_erase_color (join d c node x (rb_set_color RB_RED other)) ps
        else do {
          other \<leftarrow> (if \<not> rb_is_red (kid (opp d) other)
            then rb_rotate (opp d) (rb_set_color RB_RED (black_kid d other)) else Some other);
          top \<leftarrow> rb_rotate d (join d RB_BLACK node x (black_kid (opp d) (rb_set_color c other)));
          Some (rb_set_color RB_BLACK (plug ps top)) }))"
  by pat_completeness auto

termination
proof (relation "measure (\<lambda>(node, ps). 2 * length ps + (if rb_is_red node then 0 else 1))", goal_cases)
  case (2 node d c x s qs c' y other ps)
  then show ?case using lift_red_cases [of d c s qs] by auto
qed simp

fun descend :: "'a rb_node \<Rightarrow> 'a frame list \<Rightarrow> (rb_color \<times> 'a \<times> 'a rb_node \<times> 'a frame list) option" where
  "descend Rb_Null ps = None"
| "descend (Rb_Node c l x r) ps = (if l = Rb_Null then Some (c, x, r, ps) else descend l (Frame Rb_Left c x r # ps))"

definition unlink :: "rb_color \<Rightarrow> 'a rb_node \<Rightarrow> 'a frame list \<Rightarrow> 'a rb_node option" where
  "unlink color child ps = (if color = RB_BLACK then rb_erase_color child ps else Some (plug ps child))"

text \<open>The node is the root of the first argument. With two children, its successor takes its place and its color.\<close>

fun rb_erase :: "'a rb_node \<Rightarrow> 'a frame list \<Rightarrow> 'a rb_node option" where
  "rb_erase Rb_Null ps = None"
| "rb_erase (Rb_Node color l x r) ps =
     (if l = Rb_Null then unlink color r ps
      else if r = Rb_Null then unlink color l ps
      else do {
        (c, y, child, qs) \<leftarrow> descend r [];
        unlink c child (qs @ Frame Rb_Right color y l # ps) })"

section \<open>Traversal\<close>

fun rb_first :: "'a rb_node \<Rightarrow> 'a option" where
  "rb_first Rb_Null = None"
| "rb_first (Rb_Node c l x r) = (if l = Rb_Null then Some x else rb_first l)"

fun climb :: "'a frame list \<Rightarrow> 'a option" where
  "climb [] = None"
| "climb (Frame Rb_Right c x s # ps) = climb ps"
| "climb (Frame Rb_Left c x s # ps) = Some x"

definition rb_next :: "'a rb_node \<Rightarrow> 'a frame list \<Rightarrow> 'a option" where
  "rb_next node ps = (if kid Rb_Right node \<noteq> Rb_Null then rb_first (kid Rb_Right node) else climb ps)"

section \<open>The order of the entries\<close>

fun entries :: "'a rb_node \<Rightarrow> 'a list" where
  "entries Rb_Null = []"
| "entries (Rb_Node c l x r) = entries l @ x # entries r"

text \<open>The entries in front of and behind the hole of a path.\<close>

fun before :: "'a frame list \<Rightarrow> 'a list" where
  "before [] = []"
| "before (Frame Rb_Left c x s # ps) = before ps"
| "before (Frame Rb_Right c x s # ps) = before ps @ entries s @ [x]"

fun behind :: "'a frame list \<Rightarrow> 'a list" where
  "behind [] = []"
| "behind (Frame Rb_Left c x s # ps) = x # entries s @ behind ps"
| "behind (Frame Rb_Right c x s # ps) = behind ps"

lemma entries_plug [simp]: "entries (plug ps t) = before ps @ entries t @ behind ps"
proof (induction ps arbitrary: t)
  case (Cons p ps)
  then show ?case by (cases p; cases "case p of Frame d c x s \<Rightarrow> d") auto
qed simp

lemma entries_color [simp]: "entries (rb_set_color c t) = entries t" "entries (black_kid d t) = entries t"
proof -
  show c: "entries (rb_set_color c t) = entries t" for c and t :: "'a rb_node" by (cases t) simp_all
  show "entries (black_kid d t) = entries t" by (cases "(d, t)" rule: black_kid.cases) (simp_all add: c)
qed

lemma entries_rotate: "rb_rotate d t = Some t' \<Longrightarrow> entries t' = entries t"
  by (cases "(d, t)" rule: rb_rotate.cases) auto

lemma plug_Cons_entries: "before (Frame d c x s # ps) @ entries t @ behind (Frame d c x s # ps) = before ps @ entries (join d c t x s) @ behind ps"
  by (cases d) simp_all

lemma join_cong: "entries t = entries t' \<Longrightarrow> entries s = entries s' \<Longrightarrow> entries (join d c t x s) = entries (join d c' t' x s')"
  by (cases d) simp_all

lemma insert_color_entries: "rb_insert_color node ps = Some t \<Longrightarrow> entries t = before ps @ entries node @ behind ps"
proof (induction node ps arbitrary: t rule: rb_insert_color.induct)
  case (2 node d c x s)
  then show ?case using plug_Cons_entries [of d c x s "[]" node] by (auto split: if_splits)
next
  case (3 node d c x s gd gc g uncle ps)
  have g: "before (Frame d c x s # Frame gd gc g uncle # ps) @ entries node @ behind (Frame d c x s # Frame gd gc g uncle # ps) =
    before ps @ entries (join gd gc (join d c node x s) g uncle) @ behind ps"
    by (simp only: plug_Cons_entries)
  consider "c = RB_BLACK" | "c = RB_RED" "rb_is_red uncle" | "c = RB_RED" "\<not> rb_is_red uncle" by (cases c) auto
  then show ?case
  proof cases
    case 1
    then show ?thesis using "3.prems" by (auto simp del: plug.simps before.simps behind.simps)
  next
    case 2
    then show ?thesis using "3.IH" [of t] "3.prems" g join_cong [of "join d RB_BLACK node x s" "join d c node x s" "rb_set_color RB_BLACK uncle" uncle gd RB_RED g gc]
        join_cong [of node node s s d RB_BLACK x c] by simp
  next
    case c: 3
    obtain parent top where p: "(if d \<noteq> gd then rb_rotate gd (join d c node x s) else Some (join d c node x s)) = Some parent"
      and top: "rb_rotate (opp gd) (join gd RB_RED (rb_set_color RB_BLACK parent) g uncle) = Some top" and t: "t = rb_set_color RB_BLACK (plug ps top)"
      using "3.prems" c by (auto simp: bind_eq_Some_conv)
    have "entries parent = entries (join d c node x s)" using p entries_rotate by (auto split: if_splits)
    then have "entries top = entries (join gd gc (join d c node x s) g uncle)"
      using entries_rotate [OF top] join_cong [of "rb_set_color RB_BLACK parent" "join d c node x s" uncle uncle gd RB_RED g gc] by simp
    then show ?thesis using t g by simp
  qed
qed simp

lemma lift_red_entries:
  assumes "lift_red d c s qs = (c', other, ps)"
  shows "before ps @ entries (join d c' node x other) @ behind ps = before qs @ entries (join d c node x s) @ behind qs"
  using assms by (cases "(d, c, s, qs)" rule: lift_red.cases; cases d) auto

lemma erase_color_entries: "rb_erase_color node ps = Some t \<Longrightarrow> entries t = before ps @ entries node @ behind ps"
proof (induction node ps arbitrary: t rule: rb_erase_color.induct)
  case (2 node d c x s qs)
  obtain c' other ps where l: "lift_red d c s qs = (c', other, ps)" by (cases "lift_red d c s qs")
  note e = lift_red_entries [OF l, of node x]
  show ?case
  proof (cases "rb_is_red node")
    case True
    then show ?thesis
      using "2.prems" plug_Cons_entries [of d c x s qs node] join_cong [of "rb_set_color RB_BLACK node" node s s d c x c] by auto
  next
    case False
    have other: "other \<noteq> Rb_Null" using "2.prems" False l by (auto split: if_splits)
    show ?thesis
    proof (cases "\<not> rb_is_red (kid Rb_Left other) \<and> \<not> rb_is_red (kid Rb_Right other)")
      case True
      then have "rb_erase_color (join d c' node x (rb_set_color RB_RED other)) ps = Some t" using "2.prems" False l other by simp
      from "2.IH" [OF False l [symmetric] refl other True this]
      have "entries t = before ps @ entries (join d c' node x (rb_set_color RB_RED other)) @ behind ps" .
      also have "\<dots> = before ps @ entries (join d c' node x other) @ behind ps" by (simp add: join_cong)
      finally show ?thesis using e plug_Cons_entries [of d c x s qs node] by simp
    next
      case two: False
      obtain o1 top where o1: "(if \<not> rb_is_red (kid (opp d) other) then rb_rotate (opp d) (rb_set_color RB_RED (black_kid d other)) else Some other) = Some o1"
        and top: "rb_rotate d (join d RB_BLACK node x (black_kid (opp d) (rb_set_color c' o1))) = Some top" and t: "t = rb_set_color RB_BLACK (plug ps top)"
        using "2.prems" False l other two by (auto simp: bind_eq_Some_conv)
      have "entries o1 = entries other" using o1 entries_rotate by (fastforce split: if_splits)
      then have "entries top = entries (join d c' node x other)"
        using entries_rotate [OF top] join_cong [of node node "black_kid (opp d) (rb_set_color c' o1)" other d RB_BLACK x c'] by simp
      then show ?thesis using t e plug_Cons_entries [of d c x s qs node] by simp
    qed
  qed
qed simp

lemma unlink_entries: "unlink color child ps = Some t \<Longrightarrow> entries t = before ps @ entries child @ behind ps"
  using erase_color_entries by (auto simp: unlink_def split: if_splits)

lemma append_path: "before (ps @ qs) = before qs @ before ps" "behind (ps @ qs) = behind ps @ behind qs"
proof -
  show "before (ps @ qs) = before qs @ before ps" by (induction ps rule: before.induct) simp_all
  show "behind (ps @ qs) = behind ps @ behind qs" by (induction ps rule: behind.induct) simp_all
qed

lemma descend_entries: "descend t ps = Some (c, y, child, qs) \<Longrightarrow> before qs = before ps \<and> y # entries child @ behind qs = entries t @ behind ps"
  by (induction t ps rule: descend.induct) (auto split: if_splits)

lemma rb_erase_entries: "rb_erase (Rb_Node color l x r) ps = Some t \<Longrightarrow> entries t = before ps @ entries l @ entries r @ behind ps"
  by (auto simp: append_path bind_eq_Some_conv dest!: unlink_entries descend_entries split: if_splits)

lemma rb_first_entries: "rb_first t = (if entries t = [] then None else Some (hd (entries t)))"
  by (induction t rule: rb_first.induct) (auto simp: hd_append neq_Nil_conv elim: entries.elims)

lemma entries_Nil [simp]: "entries t = [] \<longleftrightarrow> t = Rb_Null"
  by (cases t) simp_all

lemma climb_behind: "climb ps = (if behind ps = [] then None else Some (hd (behind ps)))"
  by (induction ps rule: climb.induct) simp_all

text \<open>\<^verbatim>\<open>rb_next\<close> is the entry that follows in the order.\<close>

lemma rb_next_entries: "rb_next (Rb_Node c l x r) ps = (let xs = entries r @ behind ps in if xs = [] then None else Some (hd xs))"
  by (simp add: rb_next_def rb_first_entries climb_behind Let_def)

section \<open>Balance\<close>

fun black_height :: "'a rb_node \<Rightarrow> nat" where
  "black_height Rb_Null = 0"
| "black_height (Rb_Node c l x r) = black_height l + (if c = RB_BLACK then 1 else 0)"

text \<open>No red node has a red child, and all paths down have the same number of black nodes.\<close>

fun balanced :: "'a rb_node \<Rightarrow> bool" where
  "balanced Rb_Null = True"
| "balanced (Rb_Node c l x r) = (balanced l \<and> balanced r \<and> black_height l = black_height r \<and>
     (c = RB_RED \<longrightarrow> \<not> rb_is_red l \<and> \<not> rb_is_red r))"

definition rb_tree :: "'a rb_node \<Rightarrow> bool" where
  "rb_tree t \<longleftrightarrow> balanced t \<and> \<not> rb_is_red t"

text \<open>A path whose hole fits a balanced tree of black height \<open>h\<close>, red or not.\<close>

fun fits :: "nat \<Rightarrow> bool \<Rightarrow> 'a frame list \<Rightarrow> bool" where
  "fits h red [] = (\<not> red)"
| "fits h red (Frame d c x s # ps) = (balanced s \<and> black_height s = h \<and> (c = RB_RED \<longrightarrow> \<not> red \<and> \<not> rb_is_red s) \<and>
     fits (h + (if c = RB_BLACK then 1 else 0)) (c = RB_RED) ps)"

lemma join_balanced [simp]:
  "balanced (join d c t x s) \<longleftrightarrow> balanced t \<and> balanced s \<and> black_height t = black_height s \<and> (c = RB_RED \<longrightarrow> \<not> rb_is_red t \<and> \<not> rb_is_red s)"
  by (cases d) auto

lemma join_height: "black_height t = black_height s \<Longrightarrow> black_height (join d c t x s) = black_height t + (if c = RB_BLACK then 1 else 0)"
  by (cases d) simp_all

lemma plug_balanced: "balanced t \<Longrightarrow> fits (black_height t) (rb_is_red t) ps \<Longrightarrow> rb_tree (plug ps t)"
proof (induction ps arbitrary: t)
  case Nil
  then show ?case by (simp add: rb_tree_def)
next
  case (Cons p ps)
  obtain d c x s where p: "p = Frame d c x s" by (cases p)
  show ?case using Cons.IH [of "join d c t x s"] Cons.prems by (simp add: p join_height split: if_splits)
qed

lemma set_black_balanced [simp]: "balanced t \<Longrightarrow> balanced (rb_set_color RB_BLACK t)" "\<not> rb_is_red (rb_set_color RB_BLACK t)"
  by (cases t; simp)+

lemma not_color [simp]: "c \<noteq> RB_BLACK \<longleftrightarrow> c = RB_RED" "c \<noteq> RB_RED \<longleftrightarrow> c = RB_BLACK"
  by (cases c; simp)+

lemma set_black_id [simp]: "\<not> rb_is_red t \<Longrightarrow> rb_set_color RB_BLACK t = t"
  by (cases t) auto

lemma set_black_height: "black_height (rb_set_color RB_BLACK t) = black_height t + (if rb_is_red t then 1 else 0)"
  by (cases t) auto

lemma set_black_tree: "balanced t \<Longrightarrow> rb_tree (rb_set_color RB_BLACK t)"
  by (simp add: rb_tree_def)

lemma fits_black: "fits h red ps \<Longrightarrow> fits h False ps"
  by (cases ps; cases "hd ps") auto

lemma insert_color_balanced:
  "rb_is_red node \<Longrightarrow> balanced node \<Longrightarrow> fits (black_height node) False ps \<Longrightarrow> \<exists>t. rb_insert_color node ps = Some t \<and> rb_tree t"
proof (induction node ps rule: rb_insert_color.induct)
  case (1 node)
  then show ?case by (simp add: set_black_tree)
next
  case (2 node d c x s)
  then show ?case by (cases c) (auto simp: rb_tree_def)
next
  case (3 node d c x s gd gc g uncle ps)
  consider "c = RB_BLACK" | "c = RB_RED" "rb_is_red uncle" | "c = RB_RED" "\<not> rb_is_red uncle" by (cases c) auto
  then show ?case
  proof cases
    case 1
    then have "fits (black_height node) (rb_is_red node) (Frame d c x s # Frame gd gc g uncle # ps)" using "3.prems"(3) by simp
    from plug_balanced [OF "3.prems"(2) this] show ?thesis using 1 by (simp add: rb_tree_def)
  next
    case 2
    have gc: "gc = RB_BLACK" using "3.prems"(3) 2 by (cases gc) auto
    let ?t = "join gd RB_RED (join d RB_BLACK node x s) g (rb_set_color RB_BLACK uncle)"
    have "balanced ?t \<and> black_height ?t = black_height node + 1"
      using "3.prems" 2 gc by (simp add: join_height set_black_height)
    moreover have "fits (black_height node + 1) False ps" using "3.prems"(3) 2 gc by simp
    ultimately show ?thesis using "3.IH" 2 by simp
  next
    case c: 3
    have gc: "gc = RB_BLACK" using "3.prems"(3) c by (cases gc) auto
    obtain nl k nr where node: "node = Rb_Node RB_RED nl k nr" using "3.prems"(1) by (cases node) auto
    have sub: "balanced nl" "balanced nr" "balanced s" "balanced uncle" "\<not> rb_is_red nl" "\<not> rb_is_red nr" "\<not> rb_is_red s"
      "black_height nr = black_height nl" "black_height s = black_height nl" "black_height uncle = black_height nl"
      using "3.prems"(2,3) c gc by (simp_all add: node)
    have ps: "fits (black_height nl + 1) False ps" using "3.prems"(3) c gc by (simp add: node)
    have "\<exists>top. (if d \<noteq> gd then rb_rotate gd (join d RB_RED node x s) else Some (join d RB_RED node x s)) \<bind>
        (\<lambda>parent. rb_rotate (opp gd) (join gd RB_RED (rb_set_color RB_BLACK parent) g uncle)) = Some top \<and>
        balanced top \<and> \<not> rb_is_red top \<and> black_height top = black_height nl + 1"
      using sub c(2) by (cases d; cases gd) (simp_all add: node)
    then obtain parent top where "(if d \<noteq> gd then rb_rotate gd (join d RB_RED node x s) else Some (join d RB_RED node x s)) = Some parent"
      "rb_rotate (opp gd) (join gd RB_RED (rb_set_color RB_BLACK parent) g uncle) = Some top"
      "balanced top" "\<not> rb_is_red top" "black_height top = black_height nl + 1"
      by (auto simp: bind_eq_Some_conv)
    moreover from this have "rb_tree (plug ps top)" using plug_balanced [of top ps] ps by simp
    ultimately show ?thesis using c by (simp add: rb_tree_def)
  qed
qed

text \<open>What the code finds when a red sibling has been lifted: a black sibling with at least one more black level.\<close>

lemma lift_red_fits:
  assumes "fits (Suc h) False (Frame d c x s # qs)" and "lift_red d c s qs = (c', other, ps)"
  shows "fits (Suc h) False (Frame d c' x other # ps)" "\<not> rb_is_red other" "other \<noteq> Rb_Null"
proof -
  have "fits (Suc h) False (Frame d c' x other # ps) \<and> \<not> rb_is_red other"
    using lift_red_cases [of d c s qs]
  proof (elim disjE exE conjE)
    fix l y r assume s: "s = Rb_Node RB_RED l y r" "lift_red d c s qs = (RB_RED, kid d s, Frame d RB_BLACK y (kid (opp d) s) # qs)"
    have "c = RB_BLACK" using assms(1) s(1) by (cases c) auto
    then show ?thesis using assms s by (cases d) auto
  qed (use assms in auto)
  then show "fits (Suc h) False (Frame d c' x other # ps)" "\<not> rb_is_red other" "other \<noteq> Rb_Null" by auto
qed

text \<open>The last rotations: the black height is made up for, and the color of the parent is that of the new top.\<close>

lemma rotate_up:
  assumes "balanced node" and "\<not> rb_is_red node" and "balanced other" and "\<not> rb_is_red other" and "black_height other = Suc (black_height node)"
    and "rb_is_red (kid Rb_Left other) \<or> rb_is_red (kid Rb_Right other)"
  shows "\<exists>o1 top. (if \<not> rb_is_red (kid (opp d) other) then rb_rotate (opp d) (rb_set_color RB_RED (black_kid d other)) else Some other) = Some o1 \<and>
    rb_rotate d (join d RB_BLACK node x (black_kid (opp d) (rb_set_color c o1))) = Some top \<and>
    balanced top \<and> rb_is_red top = (c = RB_RED) \<and> black_height top = Suc (black_height node) + (if c = RB_BLACK then 1 else 0)"
proof -
  obtain l y r where other: "other = Rb_Node RB_BLACK l y r" using assms(4,5) by (cases other; cases "rb_is_red other") auto
  have sub: "balanced l" "balanced r" "black_height l = black_height node" "black_height r = black_height node"
    using assms(3,5) by (simp_all add: other)
  have red: "\<exists>tl k tr. t = Rb_Node RB_RED tl k tr \<and> balanced tl \<and> balanced tr \<and> \<not> rb_is_red tl \<and> \<not> rb_is_red tr \<and>
      black_height tl = black_height node \<and> black_height tr = black_height node"
    if "rb_is_red t" "balanced t" "black_height t = black_height node" for t :: "'a rb_node"
    using that by (cases t) auto
  show ?thesis
  proof (cases d)
    case Rb_Left
    show ?thesis
    proof (cases "rb_is_red r")
      case True
      from red [OF this sub(2,4)] obtain tl k tr where "r = Rb_Node RB_RED tl k tr" "balanced tl" "balanced tr" "black_height tl = black_height node"
        "black_height tr = black_height node" by blast
      then show ?thesis using Rb_Left assms(1,2) sub by (cases c) (simp_all add: other)
    next
      case False
      then have "rb_is_red l" using assms(6) by (simp add: other)
      from red [OF this sub(1,3)] obtain tl k tr where "l = Rb_Node RB_RED tl k tr" "balanced tl" "balanced tr" "black_height tl = black_height node"
        "black_height tr = black_height node" by blast
      then show ?thesis using Rb_Left False assms(1,2) sub by (cases c) (simp_all add: other)
    qed
  next
    case Rb_Right
    show ?thesis
    proof (cases "rb_is_red l")
      case True
      from red [OF this sub(1,3)] obtain tl k tr where "l = Rb_Node RB_RED tl k tr" "balanced tl" "balanced tr" "black_height tl = black_height node"
        "black_height tr = black_height node" by blast
      then show ?thesis using Rb_Right assms(1,2) sub by (cases c) (simp_all add: other)
    next
      case False
      then have "rb_is_red r" using assms(6) by (simp add: other)
      from red [OF this sub(2,4)] obtain tl k tr where "r = Rb_Node RB_RED tl k tr" "balanced tl" "balanced tr" "black_height tl = black_height node"
        "black_height tr = black_height node" by blast
      then show ?thesis using Rb_Right False assms(1,2) sub by (cases c) (simp_all add: other)
    qed
  qed
qed

lemma erase_color_balanced:
  "balanced (rb_set_color RB_BLACK node) \<Longrightarrow> fits (Suc (black_height node)) False ps \<Longrightarrow> \<exists>t. rb_erase_color node ps = Some t \<and> rb_tree t"
proof (induction node ps rule: rb_erase_color.induct)
  case (1 node)
  then show ?case by (simp add: rb_tree_def)
next
  case (2 node d c x s qs)
  show ?case
  proof (cases "rb_is_red node")
    case True
    have "rb_tree (plug (Frame d c x s # qs) (rb_set_color RB_BLACK node))"
      by (rule plug_balanced) (use "2.prems" True in \<open>simp_all add: set_black_height\<close>)
    then show ?thesis using True by simp
  next
    case False
    have node: "balanced node" using "2.prems"(1) False by simp
    obtain c' other ps where l: "lift_red d c s qs = (c', other, ps)" by (cases "lift_red d c s qs")
    note f = lift_red_fits [OF "2.prems"(2) l]
    have o: "balanced other" "black_height other = Suc (black_height node)" "fits (Suc (black_height node) + (if c' = RB_BLACK then 1 else 0)) (c' = RB_RED) ps"
      using f(1) by simp_all
    show ?thesis
    proof (cases "\<not> rb_is_red (kid Rb_Left other) \<and> \<not> rb_is_red (kid Rb_Right other)")
      case True
      obtain ol y or where other: "other = Rb_Node RB_BLACK ol y or" using f(2,3) by (cases other) auto
      let ?t = "join d c' node x (rb_set_color RB_RED other)"
      have t: "balanced (rb_set_color RB_BLACK ?t)" "black_height ?t = black_height node + (if c' = RB_BLACK then 1 else 0)"
        using node False True o(1,2) by (cases d; simp add: other)+
      have "fits (Suc (black_height ?t)) False ps" using o(3) t(2) fits_black by auto
      from "2.IH" [OF False l [symmetric] refl f(3) True t(1) this] show ?thesis using False l f(3) True by simp
    next
      case two: False
      then have "rb_is_red (kid Rb_Left other) \<or> rb_is_red (kid Rb_Right other)" by blast
      from rotate_up [OF node False o(1) f(2) o(2) this, of d x c'] obtain o1 top where
        o1: "(if \<not> rb_is_red (kid (opp d) other) then rb_rotate (opp d) (rb_set_color RB_RED (black_kid d other)) else Some other) = Some o1"
        "rb_rotate d (join d RB_BLACK node x (black_kid (opp d) (rb_set_color c' o1))) = Some top"
        "balanced top" "rb_is_red top = (c' = RB_RED)" "black_height top = Suc (black_height node) + (if c' = RB_BLACK then 1 else 0)" by blast
      have "rb_tree (plug ps top)" by (rule plug_balanced) (use o1 o(3) in simp_all)
      then show ?thesis using False l f(3) two o1(1,2) by (auto simp: rb_tree_def)
    qed
  qed
qed

text \<open>Unlinking a node from its place.\<close>

lemma unlink_balanced:
  assumes "balanced child" and "\<not> (color = RB_RED \<and> rb_is_red child)" and "fits (black_height child + (if color = RB_BLACK then 1 else 0)) (color = RB_RED) ps"
  shows "\<exists>t. unlink color child ps = Some t \<and> rb_tree t"
proof (cases color)
  case RB_BLACK
  then show ?thesis using erase_color_balanced [of child ps] assms by (simp add: unlink_def)
next
  case RB_RED
  have "rb_tree (plug ps child)" by (rule plug_balanced) (use assms RB_RED fits_black in auto)
  then show ?thesis using RB_RED by (simp add: unlink_def)
qed

lemma descend_balanced:
  assumes "descend t ps = Some (c, y, child, qs)" and "balanced t" and "fits (black_height t) (rb_is_red t) ps"
  shows "balanced child \<and> \<not> (c = RB_RED \<and> rb_is_red child) \<and> fits (black_height child + (if c = RB_BLACK then 1 else 0)) (c = RB_RED) qs"
  using assms
proof (induction t ps rule: descend.induct)
  case (2 c0 l x r ps)
  then show ?case by (cases "l = Rb_Null") (auto split: if_splits)
qed simp

lemma descend_append: "descend t ps = Some (c, y, child, qs) \<Longrightarrow> descend t (ps @ rs) = Some (c, y, child, qs @ rs)"
  by (induction t ps rule: descend.induct) (auto split: if_splits)

lemma descend_exists: "t \<noteq> Rb_Null \<Longrightarrow> \<exists>c y child qs. descend t ps = Some (c, y, child, qs)"
  by (induction t ps rule: descend.induct) auto

lemma erase_balanced:
  assumes "balanced (Rb_Node color l x r)" and "fits (black_height (Rb_Node color l x r)) (color = RB_RED) ps"
  shows "\<exists>t. rb_erase (Rb_Node color l x r) ps = Some t \<and> rb_tree t"
proof -
  consider "l = Rb_Null" | "l \<noteq> Rb_Null" "r = Rb_Null" | "l \<noteq> Rb_Null" "r \<noteq> Rb_Null" by blast
  then show ?thesis
  proof cases
    case 3
    obtain c y child qs where d: "descend r [] = Some (c, y, child, qs)" using descend_exists [OF 3(2)] by blast
    have "fits (black_height r) (rb_is_red r) (Frame Rb_Right color y l # ps)" using assms by auto
    from descend_balanced [OF descend_append [OF d, of "Frame Rb_Right color y l # ps", simplified] _ this] assms(1)
    have "balanced child \<and> \<not> (c = RB_RED \<and> rb_is_red child) \<and>
      fits (black_height child + (if c = RB_BLACK then 1 else 0)) (c = RB_RED) (qs @ Frame Rb_Right color y l # ps)" by simp
    then show ?thesis using 3 d unlink_balanced [of child c "qs @ Frame Rb_Right color y l # ps"] by simp
  qed (use assms unlink_balanced [of _ color ps] in auto)
qed

section \<open>Correctness\<close>

lemma plug_fits: "rb_tree (plug ps t) \<Longrightarrow> balanced t \<and> fits (black_height t) (rb_is_red t) ps"
proof (induction ps arbitrary: t)
  case (Cons p ps)
  obtain d c x s where p: "p = Frame d c x s" by (cases p)
  have j: "balanced (join d c t x s)" "fits (black_height (join d c t x s)) (c = RB_RED) ps"
    using Cons.IH [of "join d c t x s"] Cons.prems by (simp_all add: p)
  then show ?case by (auto simp: p join_height)
qed (simp add: rb_tree_def)

lemma rb_insert_tree:
  assumes "rb_tree (plug ps Rb_Null)"
  shows "\<exists>t. rb_insert_color (rb_link_node x) ps = Some t \<and> rb_tree t \<and> entries t = before ps @ x # behind ps"
proof -
  have "fits (black_height (rb_link_node x)) False ps" using plug_fits [OF assms] by (simp add: rb_link_node_def)
  then show ?thesis
    using insert_color_balanced [of "rb_link_node x" ps] insert_color_entries [of "rb_link_node x" ps] by (auto simp: rb_link_node_def)
qed

lemma rb_erase_tree:
  assumes "rb_tree (plug ps (Rb_Node c l x r))"
  shows "\<exists>t. rb_erase (Rb_Node c l x r) ps = Some t \<and> rb_tree t \<and> entries t = before ps @ entries l @ entries r @ behind ps"
  using erase_balanced [of c l x r ps] plug_fits [OF assms] rb_erase_entries [of c l x r ps] by auto

text \<open>
  C18 (refinement): adding an entry at a free place of a red-black tree goes through no null pointer, keeps the tree red-black, and puts the
  entry at that place of the order.
\<close>

theorem rb_insert_refines:
  assumes "rb_tree (plug ps Rb_Null)"
  shows "\<exists>t. rb_insert_color (rb_link_node x) ps = Some t \<and> rb_tree t \<and> entries t = before ps @ x # behind ps"
  by (rule rb_insert_tree [OF assms])

theorem rb_insert_refines_witness:
  "\<exists>t. rb_insert_color (rb_link_node (3 :: nat)) [Frame Rb_Left RB_RED 5 Rb_Null, Frame Rb_Left RB_BLACK 7 Rb_Null] = Some t \<and> rb_tree t \<and> entries t = [3, 5, 7]"
  using rb_insert_refines [of "[Frame Rb_Left RB_RED 5 Rb_Null, Frame Rb_Left RB_BLACK 7 Rb_Null]" 3] by (simp add: rb_tree_def)

text \<open>
  C19 (refinement): removing a node from a red-black tree goes through no null pointer, keeps the tree red-black, and takes its entry, and no other,
  out of the order.
\<close>

theorem rb_erase_refines:
  assumes "rb_tree (plug ps (Rb_Node c l x r))"
  shows "\<exists>t. rb_erase (Rb_Node c l x r) ps = Some t \<and> rb_tree t \<and> entries t = before ps @ entries l @ entries r @ behind ps"
  by (rule rb_erase_tree [OF assms])

theorem rb_erase_refines_witness:
  "\<exists>t. rb_erase (Rb_Node RB_BLACK Rb_Null (3 :: nat) Rb_Null) [Frame Rb_Left RB_BLACK 5 (Rb_Node RB_BLACK Rb_Null 7 (Rb_Node RB_RED Rb_Null 9 Rb_Null))] = Some t \<and>
    rb_tree t \<and> entries t = [5, 7, 9]"
  using rb_erase_refines [of "[Frame Rb_Left RB_BLACK 5 (Rb_Node RB_BLACK Rb_Null 7 (Rb_Node RB_RED Rb_Null 9 Rb_Null))]" RB_BLACK Rb_Null 3 Rb_Null]
  by (simp add: rb_tree_def)

fun rb_height :: "'a rb_node \<Rightarrow> nat" where
  "rb_height Rb_Null = 0"
| "rb_height (Rb_Node c l x r) = Suc (max (rb_height l) (rb_height r))"

lemma height_black: "balanced t \<Longrightarrow> rb_height t \<le> 2 * black_height t + (if rb_is_red t then 1 else 0)"
  by (induction t) (auto split: if_splits)

lemma black_entries: "balanced t \<Longrightarrow> 2 ^ black_height t \<le> length (entries t) + 1"
  by (induction t) (auto split: if_splits)

text \<open>
  A walk from the root of a red-black tree with \<open>n\<close> entries takes at most twice the logarithm of \<open>n + 1\<close> steps.
\<close>

theorem rb_height_bound:
  assumes "rb_tree t"
  shows "2 ^ ((rb_height t + 1) div 2) \<le> length (entries t) + 1"
proof -
  have "rb_height t \<le> 2 * black_height t" using assms height_black [of t] by (auto simp: rb_tree_def)
  then have "(rb_height t + 1) div 2 \<le> black_height t" by linarith
  then have "(2 :: nat) ^ ((rb_height t + 1) div 2) \<le> 2 ^ black_height t" by (rule power_increasing) simp
  also have "\<dots> \<le> length (entries t) + 1" using assms by (intro black_entries) (simp add: rb_tree_def)
  finally show ?thesis .
qed

theorem rb_height_bound_witness:
  "rb_tree (Rb_Node RB_BLACK Rb_Null (1 :: nat) (Rb_Node RB_RED Rb_Null 2 Rb_Null)) \<and>
    (2 :: nat) ^ ((rb_height (Rb_Node RB_BLACK Rb_Null (1 :: nat) (Rb_Node RB_RED Rb_Null 2 Rb_Null)) + 1) div 2) \<le> 3"
  using rb_height_bound [of "Rb_Node RB_BLACK Rb_Null (1 :: nat) (Rb_Node RB_RED Rb_Null 2 Rb_Null)"] by (simp add: rb_tree_def)

end
