(* ===== verification/Io_History.thy ===== *)
theory Io_History
  imports Rbtree Post
begin

text \<open>
  The history of writes that are to be verified: \<^verbatim>\<open>log_io_piece\<close>, \<^verbatim>\<open>unlog_io_piece\<close> and \<^verbatim>\<open>prune_io_piece_log\<close> of \<^verbatim>\<open>iolog.c\<close>,
  \<^verbatim>\<open>remove_trim_entry\<close> of \<^verbatim>\<open>trim.h\<close>, and the parts of \<^verbatim>\<open>get_next_verify\<close>, \<^verbatim>\<open>get_next_trim\<close> and \<^verbatim>\<open>io_completed\<close> that touch it. A piece is an
  address in a store, since the tree, the lists and the I/O units share the pieces and their flags change; a piece that has been freed is not
  in the store any more. \<open>None\<close> is an access to a freed piece, the removal of a node that is not in the tree, or a failed assertion.
\<close>

section \<open>Data\<close>

record io_piece =
  ip_file :: nat           \<comment> \<open>the address of the file\<close>
  ip_offset :: u64
  ip_len :: u64
  ip_numberio :: u16
  f_onrb :: bool
  f_onlist :: bool
  f_trimmed :: bool
  f_in_flight :: bool

type_synonym store = "nat \<Rightarrow> io_piece option"

record history =
  h_store :: store
  io_hist_tree :: "nat rb_node"
  io_hist_list :: "nat list"
  io_hist_len :: u64
  trim_list :: "nat list"
  trim_entries :: u64

definition change :: "(io_piece \<Rightarrow> io_piece) \<Rightarrow> nat \<Rightarrow> history \<Rightarrow> history option" where
  "change g a h = map_option (\<lambda>p. h\<lparr>h_store := (h_store h)(a \<mapsto> g p)\<rparr>) (h_store h a)"

definition free :: "nat \<Rightarrow> history \<Rightarrow> history" where
  "free a h = h\<lparr>h_store := (h_store h)(a := None)\<rparr>"

definition remove_trim_entry :: "nat \<Rightarrow> history \<Rightarrow> history" where
  "remove_trim_entry a h = (if a \<in> set (trim_list h) then h\<lparr>trim_list := remove1 a (trim_list h), trim_entries := trim_entries h - 1\<rparr> else h)"

section \<open>Adding a piece\<close>

text \<open>The side on which the search goes on, and whether the pieces overlap.\<close>

definition compare_piece :: "io_piece \<Rightarrow> io_piece \<Rightarrow> side \<times> bool" where
  "compare_piece p q =
     (if ip_file p < ip_file q then (Rb_Left, False)
      else if ip_file q < ip_file p then (Rb_Right, False)
      else if ip_offset p < ip_offset q then (Rb_Left, ip_offset q < ip_offset p + ip_len p)
      else if ip_offset q < ip_offset p then (Rb_Right, ip_offset p < ip_offset q + ip_len q)
      else (Rb_Left, True))"

datatype walk = Overlap "nat rb_node" "nat frame list" | Free "nat frame list"

fun ipo_walk :: "store \<Rightarrow> io_piece \<Rightarrow> nat rb_node \<Rightarrow> nat frame list \<Rightarrow> walk option" where
  "ipo_walk st p Rb_Null ps = Some (Free ps)"
| "ipo_walk st p (Rb_Node c l b r) ps = do {
     q \<leftarrow> st b;
     case compare_piece p q of (d, overlap) \<Rightarrow>
       if overlap then Some (Overlap (Rb_Node c l b r) ps)
       else if d = Rb_Left then ipo_walk st p l (Frame Rb_Left c b r # ps)
       else ipo_walk st p r (Frame Rb_Right c b l # ps) }"

lemma ipo_walk_plug:
  "ipo_walk st p t ps = Some w \<Longrightarrow> (case w of Overlap n qs \<Rightarrow> plug qs n = plug ps t \<and> n \<noteq> Rb_Null | Free qs \<Rightarrow> plug qs Rb_Null = plug ps t)"
proof (induction st p t ps rule: ipo_walk.induct)
  case (2 st p c l b r ps)
  obtain q where q: "st b = Some q" using "2.prems" by (auto simp: bind_eq_Some_conv)
  obtain d ov where cmp: "compare_piece p q = (d, ov)" by fastforce
  show ?case using "2.IH" [OF q cmp [symmetric]] "2.prems" q cmp by (cases ov; cases d) (auto split: walk.splits)
qed auto

text \<open>The overlapping piece leaves the tree. It is freed unless its write is still in flight.\<close>

fun drop_piece :: "nat rb_node \<Rightarrow> nat frame list \<Rightarrow> history \<Rightarrow> history option" where
  "drop_piece Rb_Null ps h = None"
| "drop_piece (Rb_Node c l b r) ps h = do {
     q \<leftarrow> h_store h b;
     t \<leftarrow> rb_erase (Rb_Node c l b r) ps;
     let h = remove_trim_entry b (h\<lparr>io_hist_len := io_hist_len h - 1, io_hist_tree := t\<rparr>);
     Some (if f_in_flight q then h else free b h) }"

lemma drop_piece_shorter:
  assumes "drop_piece n ps h = Some h'" and "plug ps n = io_hist_tree h"
  shows "length (entries (io_hist_tree h')) < length (entries (io_hist_tree h))"
proof -
  obtain c l b r where n: "n = Rb_Node c l b r" using assms(1) by (cases n) auto
  obtain t where t: "rb_erase n ps = Some t" "io_hist_tree h' = t"
    using assms(1) by (auto simp: n free_def remove_trim_entry_def Let_def bind_eq_Some_conv split: if_splits)
  have "entries (io_hist_tree h) = before ps @ entries n @ behind ps" using assms(2) entries_plug by metis
  then show ?thesis using rb_erase_entries [OF t(1) [unfolded n]] t(2) by (simp add: n)
qed

text \<open>From the label \<^verbatim>\<open>restart\<close> on.\<close>

function sort_piece :: "nat \<Rightarrow> history \<Rightarrow> history option" where
  "sort_piece a h = do {
     p \<leftarrow> h_store h a;
     w \<leftarrow> ipo_walk (h_store h) p (io_hist_tree h) [];
     case w of
       Overlap n ps \<Rightarrow> (case drop_piece n ps h of None \<Rightarrow> None | Some h \<Rightarrow> sort_piece a h)
     | Free ps \<Rightarrow> do {
         t \<leftarrow> rb_insert_color (rb_link_node a) ps;
         change (\<lambda>p. p\<lparr>f_onrb := True\<rparr>) a (h\<lparr>io_hist_tree := t, io_hist_len := io_hist_len h + 1\<rparr>) } }"
  by pat_completeness auto
termination
  by (relation "measure (\<lambda>(a, h). length (entries (io_hist_tree h)))")
    (auto dest!: ipo_walk_plug dest: drop_piece_shorter)

declare sort_piece.simps [simp del]

definition new_piece :: "nat \<Rightarrow> u64 \<Rightarrow> u64 \<Rightarrow> u16 \<Rightarrow> io_piece" where
  "new_piece file offset len numberio = \<lparr>ip_file = file, ip_offset = offset, ip_len = len, ip_numberio = numberio,
     f_onrb = False, f_onlist = False, f_trimmed = False, f_in_flight = True\<rparr>"

text \<open>\<open>a\<close> is the address \<^verbatim>\<open>calloc\<close> returns; \<open>trim\<close> is the result of \<^verbatim>\<open>io_u_should_trim\<close>, \<open>random_map\<close> that of \<^verbatim>\<open>file_randommap\<close>.\<close>

definition log_io_piece :: "bool \<Rightarrow> bool \<Rightarrow> nat \<Rightarrow> io_piece \<Rightarrow> history \<Rightarrow> history option" where
  "log_io_piece trim random_map a p h = do {
     let h = h\<lparr>h_store := (h_store h)(a \<mapsto> p)\<rparr>;
     let h = (if trim then h\<lparr>trim_list := trim_list h @ [a], trim_entries := trim_entries h + 1\<rparr> else h);
     if random_map
     then change (\<lambda>p. p\<lparr>f_onlist := True\<rparr>) a (h\<lparr>io_hist_list := io_hist_list h @ [a], io_hist_len := io_hist_len h + 1\<rparr>)
     else sort_piece a h }"

section \<open>Removing pieces\<close>

fun locate :: "nat \<Rightarrow> nat rb_node \<Rightarrow> nat frame list \<Rightarrow> (nat rb_node \<times> nat frame list) option" where
  "locate a Rb_Null ps = None"
| "locate a (Rb_Node c l b r) ps =
     (if a = b then Some (Rb_Node c l b r, ps)
      else case locate a l (Frame Rb_Left c b r # ps) of
        Some z \<Rightarrow> Some z
      | None \<Rightarrow> locate a r (Frame Rb_Right c b l # ps))"

text \<open>\<^verbatim>\<open>rb_erase\<close> and \<^verbatim>\<open>flist_del\<close> of a piece given by its address, which must be linked.\<close>

definition tree_del :: "nat \<Rightarrow> history \<Rightarrow> history option" where
  "tree_del a h = do {
     (n, ps) \<leftarrow> locate a (io_hist_tree h) [];
     t \<leftarrow> rb_erase n ps;
     Some (h\<lparr>io_hist_tree := t\<rparr>) }"

definition list_del :: "nat \<Rightarrow> history \<Rightarrow> history option" where
  "list_del a h = do {
     c_assert (a \<in> set (io_hist_list h));
     Some (h\<lparr>io_hist_list := remove1 a (io_hist_list h)\<rparr>) }"

text \<open>The states of blocks, which are kept for trims that fail, are not modelled.\<close>

definition unlog_io_piece :: "nat \<Rightarrow> history \<Rightarrow> history option" where
  "unlog_io_piece a h = do {
     p \<leftarrow> h_store h a;
     h \<leftarrow> (if f_onrb p then tree_del a h else if f_onlist p then list_del a h else Some h);
     Some ((free a h)\<lparr>io_hist_len := io_hist_len h - 1\<rparr>) }"

text \<open>What \<^verbatim>\<open>io_completed\<close> does to the piece of its unit.\<close>

definition complete_piece :: "bool \<Rightarrow> nat \<Rightarrow> history \<Rightarrow> history option" where
  "complete_piece error a h = (if error then unlog_io_piece a h else change (\<lambda>p. p\<lparr>f_in_flight := False\<rparr>) a h)"

text \<open>\<^verbatim>\<open>get_next_verify\<close> as far as the history goes: the piece to be read back, if there is one.\<close>

definition next_verify :: "history \<Rightarrow> (history \<times> io_piece option) option" where
  "next_verify h = (case rb_first (io_hist_tree h) of
     Some a \<Rightarrow> do {
       p \<leftarrow> h_store h a;
       if f_in_flight p then Some (h, None)
       else do {
         h \<leftarrow> tree_del a h;
         c_assert (f_onrb p);
         Some (free a (remove_trim_entry a (h\<lparr>io_hist_len := io_hist_len h - 1\<rparr>)), Some p) } }
   | None \<Rightarrow> (case io_hist_list h of
       [] \<Rightarrow> Some (h, None)
     | a # _ \<Rightarrow> do {
         p \<leftarrow> h_store h a;
         if f_in_flight p then Some (h, None)
         else do {
           h \<leftarrow> list_del a h;
           c_assert (f_onlist p);
           Some (free a (remove_trim_entry a (h\<lparr>io_hist_len := io_hist_len h - 1\<rparr>)), Some p) } }))"

text \<open>\<^verbatim>\<open>get_next_trim\<close>, likewise.\<close>

definition next_trim :: "bool \<Rightarrow> history \<Rightarrow> (history \<times> io_piece option) option" where
  "next_trim trim_zero h = (case trim_list h of
     [] \<Rightarrow> Some (h, None)
   | a # _ \<Rightarrow> do {
       c_assert (trim_entries h \<noteq> 0);
       p \<leftarrow> h_store h a;
       let h = remove_trim_entry a h;
       if trim_zero then do {
         h \<leftarrow> change (\<lambda>p. p\<lparr>f_trimmed := True\<rparr>) a h;
         Some (h, Some p) }
       else do {
         h \<leftarrow> (if f_onlist p then list_del a h
           else do { c_assert (f_onrb p); tree_del a h });
         Some (free a (h\<lparr>io_hist_len := io_hist_len h - 1\<rparr>), Some p) } })"

section \<open>The invariant\<close>

text \<open>One piece ends in front of the other, or belongs to another file.\<close>

definition apart :: "io_piece \<Rightarrow> io_piece \<Rightarrow> bool" where
  "apart p q \<longleftrightarrow> ip_file p < ip_file q \<or> ip_file p = ip_file q \<and> unat (ip_offset p) + unat (ip_len p) \<le> unat (ip_offset q)"

definition disjoint :: "io_piece \<Rightarrow> io_piece \<Rightarrow> bool" where
  "disjoint p q \<longleftrightarrow> apart p q \<or> apart q p"

definition sane :: "io_piece \<Rightarrow> bool" where
  "sane p \<longleftrightarrow> 0 < unat (ip_len p) \<and> unat (ip_offset p) + unat (ip_len p) < 2 ^ 64"

abbreviation piece :: "store \<Rightarrow> nat \<Rightarrow> io_piece" where
  "piece st a \<equiv> the (st a)"

text \<open>The tree is a red-black tree of pieces that do not overlap, in the order of files and offsets.\<close>

definition tree_ok :: "store \<Rightarrow> nat rb_node \<Rightarrow> bool" where
  "tree_ok st t \<longleftrightarrow> rb_tree t \<and> distinct (entries t) \<and> (\<forall>a \<in> set (entries t). \<exists>p. st a = Some p \<and> sane p \<and> f_onrb p) \<and>
     sorted_wrt (\<lambda>a b. apart (piece st a) (piece st b)) (entries t)"

definition list_ok :: "store \<Rightarrow> nat list \<Rightarrow> bool" where
  "list_ok st as \<longleftrightarrow> distinct as \<and> (\<forall>a \<in> set as. \<exists>p. st a = Some p \<and> f_onlist p \<and> \<not> f_onrb p)"

definition hist_ok :: "history \<Rightarrow> bool" where
  "hist_ok h \<longleftrightarrow> tree_ok (h_store h) (io_hist_tree h) \<and> list_ok (h_store h) (io_hist_list h) \<and>
     io_hist_len h = of_nat (length (entries (io_hist_tree h)) + length (io_hist_list h))"

lemma apart_trans: "apart p q \<Longrightarrow> apart q r \<Longrightarrow> apart p r"
  by (auto simp: apart_def)

lemma apart_irrefl: "sane p \<Longrightarrow> \<not> apart p p"
  by (simp add: apart_def sane_def)

lemma sane_end: "sane p \<Longrightarrow> unat (ip_offset p + ip_len p) = unat (ip_offset p) + unat (ip_len p)"
  by (simp add: sane_def unat_add_lem [THEN iffD1])

lemma compare_piece_apart:
  assumes "sane p" and "sane q"
  shows "compare_piece p q = (Rb_Left, False) \<Longrightarrow> apart p q" "compare_piece p q = (Rb_Right, False) \<Longrightarrow> apart q p"
    "compare_piece p q = (d, True) \<Longrightarrow> \<not> disjoint q p"
proof -
  have pos: "0 < unat (ip_len p)" "0 < unat (ip_len q)" using assms by (simp_all add: sane_def)
  note e = sane_end [OF assms(1)] sane_end [OF assms(2)]
  have eq: "unat (ip_offset p) = unat (ip_offset q)" if "\<not> ip_offset p < ip_offset q" "\<not> ip_offset q < ip_offset p"
    using that by (simp add: word_less_nat_alt)
  show "compare_piece p q = (Rb_Left, False) \<Longrightarrow> apart p q" "compare_piece p q = (Rb_Right, False) \<Longrightarrow> apart q p"
    by (auto simp: compare_piece_def apart_def word_less_nat_alt e split: if_splits)
  show "compare_piece p q = (d, True) \<Longrightarrow> \<not> disjoint q p"
    using pos eq by (auto simp: compare_piece_def disjoint_def apart_def word_less_nat_alt e split: if_splits)
qed

text \<open>Where the walk ends.\<close>

definition walk_ok :: "store \<Rightarrow> io_piece \<Rightarrow> nat list \<Rightarrow> walk \<Rightarrow> bool" where
  "walk_ok st p as w \<longleftrightarrow> (case w of
     Overlap n qs \<Rightarrow> (\<exists>c l b r. n = Rb_Node c l b r \<and> b \<in> set as \<and> \<not> disjoint (piece st b) p)
   | Free qs \<Rightarrow> (\<forall>a \<in> set (before qs). apart (piece st a) p) \<and> (\<forall>a \<in> set (behind qs). apart p (piece st a)))"

lemma ipo_walk_ok:
  assumes "sane p" and "\<forall>a \<in> set (entries t). \<exists>q. st a = Some q \<and> sane q" and "sorted_wrt (\<lambda>a b. apart (piece st a) (piece st b)) (entries t)"
    and "\<forall>a \<in> set (before ps). apart (piece st a) p" and "\<forall>a \<in> set (behind ps). apart p (piece st a)"
  shows "\<exists>w. ipo_walk st p t ps = Some w \<and> walk_ok st p (entries t) w"
  using assms
proof (induction st p t ps rule: ipo_walk.induct)
  case (1 st p ps)
  then show ?case by (simp add: walk_ok_def)
next
  case (2 st p c l b r ps)
  obtain q where q: "st b = Some q" "sane q" using "2.prems"(2) by auto
  obtain d ov where cmp: "compare_piece p q = (d, ov)" by fastforce
  have sorted: "sorted_wrt (\<lambda>a b. apart (piece st a) (piece st b)) (entries l)" "sorted_wrt (\<lambda>a b. apart (piece st a) (piece st b)) (entries r)"
    "\<forall>a \<in> set (entries l). apart (piece st a) q" "\<forall>a \<in> set (entries r). apart q (piece st a)"
    using "2.prems"(3) q(1) by (simp_all add: sorted_wrt_append)
  consider "ov" | "\<not> ov" "d = Rb_Left" | "\<not> ov" "d = Rb_Right" by (cases d) auto
  then show ?case
  proof cases
    case 1
    then show ?thesis using q cmp compare_piece_apart(3) [OF "2.prems"(1) q(2), of d] by (simp add: walk_ok_def)
  next
    case 2
    have "apart p q" using compare_piece_apart(1) [OF "2.prems"(1) q(2)] cmp 2 by simp
    then have "\<forall>a \<in> set (behind (Frame Rb_Left c b r # ps)). apart p (piece st a)"
      using "2.prems"(5) sorted(4) q(1) by (auto intro: apart_trans)
    then obtain w where "ipo_walk st p l (Frame Rb_Left c b r # ps) = Some w" "walk_ok st p (entries l) w"
      using "2.IH"(1) [OF q(1) cmp [symmetric] 2] "2.prems" sorted(1) by auto
    then show ?thesis using q(1) cmp 2 by (auto simp: walk_ok_def split: walk.splits)
  next
    case 3
    have "apart q p" using compare_piece_apart(2) [OF "2.prems"(1) q(2)] cmp 3 by simp
    then have "\<forall>a \<in> set (before (Frame Rb_Right c b l # ps)). apart (piece st a) p"
      using "2.prems"(4) sorted(3) q(1) by (auto intro: apart_trans)
    then obtain w where "ipo_walk st p r (Frame Rb_Right c b l # ps) = Some w" "walk_ok st p (entries r) w"
      using "2.IH"(2) [OF q(1) cmp [symmetric] 3(1)] "2.prems" sorted(2) 3 by auto
    then show ?thesis using q(1) cmp 3 by (auto simp: walk_ok_def split: walk.splits)
  qed
qed

section \<open>Operations on the tree\<close>

declare rb_erase.simps [simp del] rb_insert_color.simps [simp del]

lemma sorted_wrt_store:
  "sorted_wrt (\<lambda>a b. apart (piece st a) (piece st b)) as \<Longrightarrow> (\<And>a. a \<in> set as \<Longrightarrow> st' a = st a) \<Longrightarrow>
    sorted_wrt (\<lambda>a b. apart (piece st' a) (piece st' b)) as"
  by (erule sorted_wrt_mono_rel [rotated]) simp

lemma erase_ok:
  assumes "tree_ok st t" and "plug ps (Rb_Node c l b r) = t" and "\<And>a. a \<in> set (entries t) \<Longrightarrow> a \<noteq> b \<Longrightarrow> st' a = st a"
  shows "\<exists>t'. rb_erase (Rb_Node c l b r) ps = Some t' \<and> tree_ok st' t' \<and> entries t' = remove1 b (entries t)"
proof -
  let ?A = "before ps @ entries l" and ?B = "entries r @ behind ps"
  have e: "entries t = ?A @ b # ?B" using assms(2) entries_plug [of ps "Rb_Node c l b r"] by simp
  have dist: "distinct (?A @ b # ?B)" and ok: "\<forall>a \<in> set (entries t). \<exists>p. st a = Some p \<and> sane p \<and> f_onrb p"
    and sorted: "sorted_wrt (\<lambda>a b. apart (piece st a) (piece st b)) (?A @ b # ?B)"
    using assms(1) unfolding tree_ok_def e by blast+
  have "rb_tree (plug ps (Rb_Node c l b r))" using assms(1,2) by (simp add: tree_ok_def)
  then obtain t' where t': "rb_erase (Rb_Node c l b r) ps = Some t'" "rb_tree t'" "entries t' = ?A @ ?B"
    using rb_erase_tree [of ps c l b r] by auto
  have same: "st' a = st a" if "a \<in> set (?A @ ?B)" for a
    using assms(3) [of a] that dist e by auto
  have "sorted_wrt (\<lambda>a b. apart (piece st a) (piece st b)) (?A @ ?B)" using sorted by (simp add: sorted_wrt_append)
  then have "sorted_wrt (\<lambda>a b. apart (piece st' a) (piece st' b)) (?A @ ?B)" using same by (rule sorted_wrt_store)
  moreover have "\<forall>a \<in> set (?A @ ?B). \<exists>p. st' a = Some p \<and> sane p \<and> f_onrb p" using ok same e by auto
  moreover have "distinct (?A @ ?B)" using dist by auto
  ultimately have "tree_ok st' t'" unfolding tree_ok_def t'(3) using t'(2) by blast
  moreover have "entries t' = remove1 b (entries t)" unfolding t'(3) e using dist by (simp add: remove1_append)
  ultimately show ?thesis using t'(1) by blast
qed

lemma locate_node:
  "a \<in> set (entries t) \<Longrightarrow> \<exists>c l r qs. locate a t ps = Some (Rb_Node c l a r, qs) \<and> plug qs (Rb_Node c l a r) = plug ps t"
  "a \<notin> set (entries t) \<Longrightarrow> locate a t ps = None"
proof (induction a t ps rule: locate.induct)
  case (2 a c l b r ps)
  {
    case 1
    show ?case
    proof (cases "a = b")
      case False
      show ?thesis
      proof (cases "a \<in> set (entries l)")
        case True
        then show ?thesis using "2.IH"(1) [OF False True] False by fastforce
      next
        case nl: False
        then have "locate a l (Frame Rb_Left c b r # ps) = None" "a \<in> set (entries r)" using "2.IH"(2) [OF False nl] 1 False by auto
        then show ?thesis using "2.IH"(3) False by fastforce
      qed
    qed simp
  next
    case 2
    then show ?case using "2.IH"(2,4) by auto
  }
qed simp_all

lemma tree_del_ok:
  assumes "tree_ok (h_store h) (io_hist_tree h)" and "a \<in> set (entries (io_hist_tree h))"
    and "\<And>b. b \<in> set (entries (io_hist_tree h)) \<Longrightarrow> b \<noteq> a \<Longrightarrow> st' b = h_store h b"
  shows "\<exists>t. tree_del a h = Some (h\<lparr>io_hist_tree := t\<rparr>) \<and> tree_ok st' t \<and> entries t = remove1 a (entries (io_hist_tree h))"
proof -
  obtain c l r qs where "locate a (io_hist_tree h) [] = Some (Rb_Node c l a r, qs)" "plug qs (Rb_Node c l a r) = io_hist_tree h"
    using locate_node(1) [OF assms(2), of "[]"] by auto
  then show ?thesis using erase_ok [OF assms(1), of qs c l a r st'] assms(3) by (auto simp: tree_del_def)
qed

text \<open>A piece in the tree is not in the list.\<close>

lemma hist_apart: "hist_ok h \<Longrightarrow> a \<in> set (entries (io_hist_tree h)) \<Longrightarrow> a \<notin> set (io_hist_list h)"
  by (fastforce simp: hist_ok_def tree_ok_def list_ok_def)

lemma tree_ok_store:
  assumes "tree_ok st t" and "\<And>a. a \<in> set (entries t) \<Longrightarrow> st' a = st a"
  shows "tree_ok st' t"
proof -
  have "sorted_wrt (\<lambda>a b. apart (piece st' a) (piece st' b)) (entries t)"
    by (rule sorted_wrt_store [OF _ assms(2)]) (use assms(1) in \<open>simp_all add: tree_ok_def\<close>)
  then show ?thesis using assms by (simp add: tree_ok_def)
qed

lemma list_ok_store: "list_ok st as \<Longrightarrow> (\<And>a. a \<in> set as \<Longrightarrow> st' a = st a) \<Longrightarrow> list_ok st' as"
  by (simp add: list_ok_def)

lemma length_del: "a \<in> set xs \<Longrightarrow> (of_nat (length (remove1 a xs) + k) :: u64) = of_nat (length xs + k) - 1"
  by (induction xs) (auto simp: length_remove1)

definition dropped :: "nat \<Rightarrow> history \<Rightarrow> history \<Rightarrow> bool" where
  "dropped b h h' \<longleftrightarrow> hist_ok h' \<and> entries (io_hist_tree h') = remove1 b (entries (io_hist_tree h)) \<and> io_hist_list h' = io_hist_list h \<and>
     (\<forall>x. x \<noteq> b \<longrightarrow> h_store h' x = h_store h x) \<and>
     (\<forall>q. h_store h b = Some q \<longrightarrow> f_in_flight q \<longrightarrow> h_store h' b = Some q)"

lemma drop_piece_ok:
  assumes "hist_ok h" and "plug ps (Rb_Node c l b r) = io_hist_tree h"
  shows "\<exists>h'. drop_piece (Rb_Node c l b r) ps h = Some h' \<and> dropped b h h'"
proof -
  have b: "b \<in> set (entries (io_hist_tree h))" using entries_plug [of ps "Rb_Node c l b r"] assms(2) by simp
  obtain q where q: "h_store h b = Some q" using assms(1) b by (fastforce simp: hist_ok_def tree_ok_def)
  have tok: "tree_ok (h_store h) (io_hist_tree h)" using assms(1) by (simp add: hist_ok_def)
  let ?st = "if f_in_flight q then h_store h else (h_store h)(b := None)"
  have "?st a = h_store h a" if "a \<noteq> b" for a using that by simp
  then obtain t where t: "rb_erase (Rb_Node c l b r) ps = Some t" "tree_ok ?st t" "entries t = remove1 b (entries (io_hist_tree h))"
    using erase_ok [OF tok assms(2), of ?st] by blast
  have list: "list_ok ?st (io_hist_list h)"
    by (rule list_ok_store [of "h_store h"]) (use assms(1) hist_apart [OF assms(1) b] in \<open>auto simp: hist_ok_def\<close>)
  let ?h = "remove_trim_entry b (h\<lparr>io_hist_len := io_hist_len h - 1, io_hist_tree := t\<rparr>)"
  let ?h' = "if f_in_flight q then ?h else free b ?h"
  have f: "h_store ?h' = ?st" "io_hist_tree ?h' = t" "io_hist_list ?h' = io_hist_list h" "io_hist_len ?h' = io_hist_len h - 1"
    by (auto simp: free_def remove_trim_entry_def)
  have "io_hist_len ?h' = of_nat (length (entries t) + length (io_hist_list h))"
    unfolding t(3) length_del [OF b] f(4) using assms(1) by (simp add: hist_ok_def)
  then have "dropped b h ?h'" unfolding dropped_def hist_ok_def f using t(2,3) list q by simp
  then show ?thesis using q t(1) by (simp add: Let_def)
qed

text \<open>What adding a piece does to the history.\<close>

definition added :: "nat \<Rightarrow> io_piece \<Rightarrow> history \<Rightarrow> history \<Rightarrow> bool" where
  "added a p h h' \<longleftrightarrow> hist_ok h' \<and> io_hist_list h' = io_hist_list h \<and> h_store h' a = Some (p\<lparr>f_onrb := True\<rparr>) \<and>
     set (entries (io_hist_tree h')) = insert a {b \<in> set (entries (io_hist_tree h)). disjoint (piece (h_store h) b) p} \<and>
     (\<forall>b \<in> set (entries (io_hist_tree h')). b \<noteq> a \<longrightarrow> h_store h' b = h_store h b) \<and>
     (\<forall>b q. b \<noteq> a \<longrightarrow> h_store h b = Some q \<longrightarrow> f_in_flight q \<longrightarrow> h_store h' b = Some q)"

lemma apart_flag [simp]: "apart (p\<lparr>f_onrb := v\<rparr>) q = apart p q" "apart p (q\<lparr>f_onrb := v\<rparr>) = apart p q" "sane (p\<lparr>f_onrb := v\<rparr>) = sane p"
  by (simp_all add: apart_def sane_def)

lemma insert_free:
  assumes "hist_ok h" and "h_store h a = Some p" and "a \<notin> set (entries (io_hist_tree h))" and "a \<notin> set (io_hist_list h)" and "sane p"
    and "plug ps Rb_Null = io_hist_tree h" and "\<forall>b \<in> set (before ps). apart (piece (h_store h) b) p" and "\<forall>b \<in> set (behind ps). apart p (piece (h_store h) b)"
  shows "\<exists>t h'. rb_insert_color (rb_link_node a) ps = Some t \<and>
    change (\<lambda>p. p\<lparr>f_onrb := True\<rparr>) a (h\<lparr>io_hist_tree := t, io_hist_len := io_hist_len h + 1\<rparr>) = Some h' \<and> added a p h h'"
proof -
  let ?st = "(h_store h)(a \<mapsto> p\<lparr>f_onrb := True\<rparr>)"
  have e: "entries (io_hist_tree h) = before ps @ behind ps" using assms(6) entries_plug [of ps Rb_Null] by simp
  have tok: "tree_ok (h_store h) (io_hist_tree h)" and list: "list_ok (h_store h) (io_hist_list h)" using assms(1) by (simp_all add: hist_ok_def)
  have "rb_tree (plug ps Rb_Null)" using tok assms(6) by (simp add: tree_ok_def)
  from rb_insert_tree [OF this, of a] obtain t where t: "rb_insert_color (rb_link_node a) ps = Some t" "rb_tree t" "entries t = before ps @ a # behind ps"
    by blast
  have ok: "\<forall>b \<in> set (before ps @ behind ps). \<exists>q. h_store h b = Some q \<and> sane q \<and> f_onrb q" "distinct (before ps @ behind ps)"
    "sorted_wrt (\<lambda>a b. apart (piece (h_store h) a) (piece (h_store h) b)) (before ps @ behind ps)" "a \<notin> set (before ps @ behind ps)"
    using tok assms(3) unfolding tree_ok_def e by blast+
  have same: "?st b = h_store h b" if "b \<in> set (before ps @ behind ps)" for b using that ok(4) by auto
  have "sorted_wrt (\<lambda>a b. apart (piece ?st a) (piece ?st b)) (before ps @ behind ps)" by (rule sorted_wrt_store [OF ok(3) same])
  moreover have "\<forall>b \<in> set (before ps). apart (piece ?st b) (piece ?st a)" "\<forall>b \<in> set (behind ps). apart (piece ?st a) (piece ?st b)"
    using assms(7,8) same by auto
  ultimately have "sorted_wrt (\<lambda>a b. apart (piece ?st a) (piece ?st b)) (entries t)" unfolding t(3) by (simp add: sorted_wrt_append)
  moreover have "\<forall>b \<in> set (entries t). \<exists>q. ?st b = Some q \<and> sane q \<and> f_onrb q" using ok(1) same assms(5) by (auto simp: t(3))
  moreover have "distinct (entries t)" using ok(2,4) by (auto simp: t(3))
  ultimately have tok': "tree_ok ?st t" unfolding tree_ok_def using t(2) by blast
  have lok': "list_ok ?st (io_hist_list h)" by (rule list_ok_store [OF list]) (use assms(4) in auto)
  let ?h = "h\<lparr>io_hist_tree := t, io_hist_len := io_hist_len h + 1, h_store := ?st\<rparr>"
  have "io_hist_len h + 1 = of_nat (length (entries t) + length (io_hist_list h))" using assms(1) by (simp add: hist_ok_def e t(3))
  then have "hist_ok ?h" using tok' lok' by (simp add: hist_ok_def)
  moreover have "set (entries t) = insert a {b \<in> set (entries (io_hist_tree h)). disjoint (piece (h_store h) b) p}"
    unfolding e t(3) using assms(7,8) by (auto simp: disjoint_def)
  ultimately have "added a p h ?h" using ok(4) same by (auto simp: added_def t(3))
  moreover have "change (\<lambda>p. p\<lparr>f_onrb := True\<rparr>) a (h\<lparr>io_hist_tree := t, io_hist_len := io_hist_len h + 1\<rparr>) = Some ?h"
    using assms(2) by (simp add: change_def)
  ultimately show ?thesis using t(1) by blast
qed

lemma sort_piece_added:
  "hist_ok h \<Longrightarrow> h_store h a = Some p \<Longrightarrow> a \<notin> set (entries (io_hist_tree h)) \<Longrightarrow> a \<notin> set (io_hist_list h) \<Longrightarrow> sane p \<Longrightarrow>
    \<exists>h'. sort_piece a h = Some h' \<and> added a p h h'"
proof (induction a h rule: sort_piece.induct)
  case (1 a h)
  have tok: "tree_ok (h_store h) (io_hist_tree h)" using "1.prems"(1) by (simp add: hist_ok_def)
  then obtain w where w: "ipo_walk (h_store h) p (io_hist_tree h) [] = Some w" "walk_ok (h_store h) p (entries (io_hist_tree h)) w"
    using ipo_walk_ok [OF "1.prems"(5), of "io_hist_tree h" "h_store h" "[]"] by (auto simp: tree_ok_def)
  show ?case
  proof (cases w)
    case (Free ps)
    have "plug ps Rb_Null = io_hist_tree h" using ipo_walk_plug [OF w(1)] by (simp add: Free)
    from insert_free [OF "1.prems" this] w(2) show ?thesis
      using w(1) "1.prems"(2) by (subst sort_piece.simps) (auto simp: Free walk_ok_def)
  next
    case (Overlap n ps)
    have plug: "plug ps n = io_hist_tree h" using ipo_walk_plug [OF w(1)] by (simp add: Overlap)
    obtain c l b r where n: "n = Rb_Node c l b r" "b \<in> set (entries (io_hist_tree h))" "\<not> disjoint (piece (h_store h) b) p"
      using w(2) by (auto simp: Overlap walk_ok_def)
    obtain h1 where h1: "drop_piece n ps h = Some h1" "dropped b h h1" using drop_piece_ok [OF "1.prems"(1) plug [unfolded n(1)]] n(1) by blast
    have ab: "a \<noteq> b" using n(2) "1.prems"(3) by blast
    have dist: "distinct (entries (io_hist_tree h))" using tok by (simp add: tree_ok_def)
    have set1: "set (entries (io_hist_tree h1)) = set (entries (io_hist_tree h)) - {b}" using h1(2) dist by (simp add: dropped_def)
    have "hist_ok h1" "h_store h1 a = Some p" "a \<notin> set (entries (io_hist_tree h1))" "a \<notin> set (io_hist_list h1)"
      using h1(2) ab "1.prems"(2,3,4) set1 by (auto simp: dropped_def)
    from "1.IH" [OF "1.prems"(2) w(1) Overlap h1(1) this "1.prems"(5)] obtain h' where h': "sort_piece a h1 = Some h'" "added a p h1 h'" by blast
    have same: "h_store h1 x = h_store h x" if "x \<noteq> b" for x using h1(2) that by (simp add: dropped_def)
    have "{x \<in> set (entries (io_hist_tree h1)). disjoint (piece (h_store h1) x) p} = {x \<in> set (entries (io_hist_tree h)). disjoint (piece (h_store h) x) p}"
      (is "?L = ?R")
    proof (rule set_eqI)
      show "x \<in> ?L \<longleftrightarrow> x \<in> ?R" for x using n(3) same [of x] set1 by (cases "x = b") simp_all
    qed
    moreover have "h_store h' x = Some q" if "x \<noteq> a" "h_store h x = Some q" "f_in_flight q" for x q
      using that h1(2) h'(2) unfolding added_def dropped_def by metis
    ultimately have "added a p h h'" using h'(2) h1(2) same set1 ab unfolding added_def dropped_def by auto
    moreover have "sort_piece a h = Some h'" by (subst sort_piece.simps) (simp add: "1.prems"(2) w(1) Overlap h1(1) h'(1))
    ultimately show ?thesis by blast
  qed
qed

section \<open>Adding pieces\<close>

lemma hist_in_store: "hist_ok h \<Longrightarrow> h_store h a = None \<Longrightarrow> a \<notin> set (entries (io_hist_tree h)) \<and> a \<notin> set (io_hist_list h)"
  by (fastforce simp: hist_ok_def tree_ok_def list_ok_def)

lemma hist_ok_frame:
  assumes "hist_ok h" and "io_hist_tree h' = io_hist_tree h" and "io_hist_list h' = io_hist_list h" and "io_hist_len h' = io_hist_len h"
    and "\<And>a. a \<in> set (entries (io_hist_tree h)) \<or> a \<in> set (io_hist_list h) \<Longrightarrow> h_store h' a = h_store h a"
  shows "hist_ok h'"
proof -
  have "tree_ok (h_store h') (io_hist_tree h)"
    by (rule tree_ok_store [of "h_store h"]) (use assms(1,5) in \<open>auto simp: hist_ok_def\<close>)
  moreover have "list_ok (h_store h') (io_hist_list h)" using assms(1,5) by (auto simp: hist_ok_def list_ok_def)
  ultimately show ?thesis using assms(1-4) by (simp add: hist_ok_def)
qed

lemma log_tree:
  assumes "hist_ok h" and "h_store h a = None" and "sane p"
  shows "\<exists>h'. log_io_piece trim False a p h = Some h' \<and> hist_ok h' \<and> h_store h' a = Some (p\<lparr>f_onrb := True\<rparr>) \<and> io_hist_list h' = io_hist_list h \<and>
    set (entries (io_hist_tree h')) = insert a {b \<in> set (entries (io_hist_tree h)). disjoint (piece (h_store h) b) p} \<and>
    (\<forall>b \<in> set (entries (io_hist_tree h')). b \<noteq> a \<longrightarrow> h_store h' b = h_store h b) \<and>
    (\<forall>b q. b \<noteq> a \<longrightarrow> h_store h b = Some q \<longrightarrow> f_in_flight q \<longrightarrow> h_store h' b = Some q)"
proof -
  let ?h0 = "h\<lparr>h_store := (h_store h)(a \<mapsto> p)\<rparr>"
  let ?h = "if trim then ?h0\<lparr>trim_list := trim_list h @ [a], trim_entries := trim_entries h + 1\<rparr> else ?h0"
  have a: "a \<notin> set (entries (io_hist_tree h))" "a \<notin> set (io_hist_list h)" using hist_in_store [OF assms(1,2)] by simp_all
  have ok: "hist_ok ?h" by (rule hist_ok_frame [OF assms(1)]) (use a in auto)
  have h: "io_hist_tree ?h = io_hist_tree h" "io_hist_list ?h = io_hist_list h" "h_store ?h = (h_store h)(a \<mapsto> p)" by simp_all
  obtain h' where h': "sort_piece a ?h = Some h'" "added a p ?h h'"
    using sort_piece_added [OF ok _ _ _ assms(3), of a] a unfolding h by auto
  have "{b \<in> set (entries (io_hist_tree h)). disjoint (piece ((h_store h)(a \<mapsto> p)) b) p} = {b \<in> set (entries (io_hist_tree h)). disjoint (piece (h_store h) b) p}"
    using a(1) by auto
  moreover have "log_io_piece trim False a p h = sort_piece a ?h" by (simp add: log_io_piece_def)
  ultimately show ?thesis using h' unfolding added_def h by auto
qed

text \<open>With a random map the piece goes to the list.\<close>

lemma log_list:
  assumes "hist_ok h" and "h_store h a = None" and "\<not> f_onrb p"
  shows "\<exists>h'. log_io_piece trim True a p h = Some h' \<and> hist_ok h' \<and> io_hist_tree h' = io_hist_tree h \<and> io_hist_list h' = io_hist_list h @ [a] \<and>
    h_store h' = (h_store h)(a \<mapsto> p\<lparr>f_onlist := True\<rparr>)"
proof -
  have a: "a \<notin> set (entries (io_hist_tree h))" "a \<notin> set (io_hist_list h)" using hist_in_store [OF assms(1,2)] by simp_all
  let ?st = "(h_store h)(a \<mapsto> p\<lparr>f_onlist := True\<rparr>)"
  obtain h' where h': "log_io_piece trim True a p h = Some h'" "io_hist_tree h' = io_hist_tree h" "io_hist_list h' = io_hist_list h @ [a]"
    "io_hist_len h' = io_hist_len h + 1" "h_store h' = ?st"
    by (cases trim) (auto simp: log_io_piece_def change_def)
  have "tree_ok ?st (io_hist_tree h)" by (rule tree_ok_store [of "h_store h"]) (use assms(1) a in \<open>auto simp: hist_ok_def\<close>)
  moreover have "list_ok ?st (io_hist_list h @ [a])" using assms(1,3) a by (auto simp: hist_ok_def list_ok_def)
  ultimately show ?thesis using h' assms(1) by (simp add: hist_ok_def)
qed

text \<open>
  C4 (refinement): logging a write ends, frees no piece it still uses, and leaves a red-black tree of disjoint pieces in the order of files and offsets and a list
  whose numbers add up to the length of the history. Without a random map the new piece is put into the tree and exactly the pieces of the tree that overlap it are taken out, all others stay as
  they are; with a random map, where no block is written twice, it is appended to the list and nothing is taken out.
\<close>

theorem log_io_piece_replaces:
  assumes "hist_ok h" and "h_store h a = None" and "sane p" and "\<not> f_onrb p"
  shows "\<exists>h'. log_io_piece trim random_map a p h = Some h' \<and> hist_ok h' \<and>
    (if random_map then io_hist_tree h' = io_hist_tree h \<and> io_hist_list h' = io_hist_list h @ [a] \<and>
       h_store h' = (h_store h)(a \<mapsto> p\<lparr>f_onlist := True\<rparr>)
     else h_store h' a = Some (p\<lparr>f_onrb := True\<rparr>) \<and> io_hist_list h' = io_hist_list h \<and>
       set (entries (io_hist_tree h')) = insert a {b \<in> set (entries (io_hist_tree h)). disjoint (piece (h_store h) b) p} \<and>
       (\<forall>b \<in> set (entries (io_hist_tree h')). b \<noteq> a \<longrightarrow> h_store h' b = h_store h b))"
proof (cases random_map)
  case True
  then show ?thesis using log_list [OF assms(1,2,4), of trim] by auto
next
  case False
  then show ?thesis using log_tree [OF assms(1-3), of trim] by auto
qed

definition no_history :: history where
  "no_history = \<lparr>h_store = (\<lambda>_. None), io_hist_tree = Rb_Null, io_hist_list = [], io_hist_len = 0, trim_list = [], trim_entries = 0\<rparr>"

lemma no_history_ok: "hist_ok no_history"
  by (simp add: hist_ok_def tree_ok_def list_ok_def no_history_def rb_tree_def)

text \<open>The history after writes of 512 bytes at 4096 and at 8192.\<close>

definition two_writes :: history where
  "two_writes = no_history\<lparr>h_store := [7 \<mapsto> (new_piece 1 4096 512 0)\<lparr>f_onrb := True\<rparr>, 8 \<mapsto> (new_piece 1 8192 512 1)\<lparr>f_onrb := True\<rparr>],
     io_hist_tree := Rb_Node RB_BLACK Rb_Null 7 (Rb_Node RB_RED Rb_Null 8 Rb_Null), io_hist_len := 2\<rparr>"

lemma two_writes_log:
  "\<exists>h. log_io_piece False False 7 (new_piece 1 4096 512 0) no_history = Some h \<and> log_io_piece False False 8 (new_piece 1 8192 512 1) h = Some two_writes \<and> hist_ok two_writes"
proof -
  define h where "h = no_history\<lparr>h_store := [7 \<mapsto> (new_piece 1 4096 512 0)\<lparr>f_onrb := True\<rparr>], io_hist_tree := Rb_Node RB_BLACK Rb_Null 7 Rb_Null, io_hist_len := 1\<rparr>"
  have s: "sane (new_piece 1 4096 512 0)" "sane (new_piece 1 8192 512 1)" by (simp_all add: sane_def new_piece_def)
  have f: "h_store no_history 7 = None" "h_store h 8 = None" by (simp_all add: no_history_def h_def)
  have l1: "log_io_piece False False 7 (new_piece 1 4096 512 0) no_history = Some h"
    by (simp add: log_io_piece_def sort_piece.simps no_history_def rb_insert_color.simps rb_link_node_def change_def h_def)
  have l2: "log_io_piece False False 8 (new_piece 1 8192 512 1) h = Some two_writes"
    by (simp add: log_io_piece_def sort_piece.simps no_history_def rb_insert_color.simps rb_link_node_def change_def h_def two_writes_def
        compare_piece_def new_piece_def)
  have "hist_ok h" using log_tree [OF no_history_ok f(1) s(1), of False] l1 by auto
  then have "hist_ok two_writes" using log_tree [OF _ f(2) s(2), of False] l2 by auto
  then show ?thesis using l1 l2 by blast
qed

text \<open>A third write overlaps the first of them.\<close>

theorem log_io_piece_replaces_witness:
  "(\<exists>h. log_io_piece False False 9 (new_piece 1 4352 512 2) two_writes = Some h \<and> hist_ok h \<and> set (entries (io_hist_tree h)) = {8, 9}) \<and>
    (\<exists>h. log_io_piece False True 9 (new_piece 1 4352 512 2) two_writes = Some h \<and> hist_ok h \<and> io_hist_list h = [9] \<and> io_hist_tree h = io_hist_tree two_writes)"
proof -
  let ?p = "new_piece 1 4352 512 2"
  have s: "sane ?p" "\<not> f_onrb ?p" by (simp_all add: sane_def new_piece_def)
  have ok: "hist_ok two_writes" using two_writes_log by blast
  have f: "h_store two_writes 9 = None" by (simp add: two_writes_def)
  have "insert 9 {b \<in> set (entries (io_hist_tree two_writes)). disjoint (piece (h_store two_writes) b) ?p} = {8, 9}"
    by (auto simp: two_writes_def disjoint_def apart_def new_piece_def)
  then have "\<exists>h. log_io_piece False False 9 ?p two_writes = Some h \<and> hist_ok h \<and> set (entries (io_hist_tree h)) = {8, 9}"
    using log_io_piece_replaces [OF ok f s, of False False] by auto
  moreover have "io_hist_list two_writes = []" by (simp add: two_writes_def no_history_def)
  ultimately show ?thesis using log_io_piece_replaces [OF ok f s, of False True] by auto
qed

section \<open>Reading back\<close>

lemma free_trim [simp]: "io_hist_tree (free a (remove_trim_entry a h)) = io_hist_tree h" "io_hist_list (free a (remove_trim_entry a h)) = io_hist_list h"
  "io_hist_len (free a (remove_trim_entry a h)) = io_hist_len h" "h_store (free a (remove_trim_entry a h)) = (h_store h)(a := None)"
  by (simp_all add: free_def remove_trim_entry_def)

lemma next_verify_tree:
  assumes "hist_ok h" and "entries (io_hist_tree h) = a # as" and "h_store h a = Some p" and "\<not> f_in_flight p"
  shows "\<exists>h'. next_verify h = Some (h', Some p) \<and> hist_ok h' \<and> entries (io_hist_tree h') = as \<and> io_hist_list h' = io_hist_list h \<and>
    (\<forall>x. x \<noteq> a \<longrightarrow> h_store h' x = h_store h x)"
proof -
  have a: "a \<in> set (entries (io_hist_tree h))" "rb_first (io_hist_tree h) = Some a" using assms(2) by (simp_all add: rb_first_entries)
  have tok: "tree_ok (h_store h) (io_hist_tree h)" using assms(1) by (simp add: hist_ok_def)
  then have onrb: "f_onrb p" using a(1) assms(3) by (fastforce simp: tree_ok_def)
  let ?st = "(h_store h)(a := None)"
  obtain t where t: "tree_del a h = Some (h\<lparr>io_hist_tree := t\<rparr>)" "tree_ok ?st t" "entries t = remove1 a (entries (io_hist_tree h))"
    using tree_del_ok [OF tok a(1), of ?st] by auto
  have as: "entries t = as" using t(3) assms(2) by simp
  let ?h = "free a (remove_trim_entry a (h\<lparr>io_hist_tree := t, io_hist_len := io_hist_len h - 1\<rparr>))"
  have "list_ok ?st (io_hist_list h)"
    by (rule list_ok_store [of "h_store h"]) (use assms(1) hist_apart [OF assms(1) a(1)] in \<open>auto simp: hist_ok_def\<close>)
  then have "hist_ok ?h" using t(2) assms(1,2) as by (simp add: hist_ok_def)
  moreover have "next_verify h = Some (?h, Some p)" using a(2) assms(3,4) onrb t(1) by (simp add: next_verify_def)
  ultimately show ?thesis using as by (intro exI [of _ ?h]) simp
qed

lemma next_verify_list:
  assumes "hist_ok h" and "entries (io_hist_tree h) = []" and "io_hist_list h = a # as" and "h_store h a = Some p" and "\<not> f_in_flight p"
  shows "\<exists>h'. next_verify h = Some (h', Some p) \<and> hist_ok h' \<and> entries (io_hist_tree h') = [] \<and> io_hist_list h' = as \<and>
    (\<forall>x. x \<noteq> a \<longrightarrow> h_store h' x = h_store h x)"
proof -
  have tree: "io_hist_tree h = Rb_Null" using assms(2) by simp
  have list: "list_ok (h_store h) (a # as)" using assms(1,3) by (simp add: hist_ok_def)
  then have fl: "f_onlist p" "a \<notin> set as" using assms(4) by (auto simp: list_ok_def)
  let ?h = "free a (remove_trim_entry a (h\<lparr>io_hist_list := as, io_hist_len := io_hist_len h - 1\<rparr>))"
  have "list_ok ((h_store h)(a := None)) as" by (rule list_ok_store [of "h_store h"]) (use list fl in \<open>auto simp: list_ok_def\<close>)
  then have "hist_ok ?h" using assms(1,3) tree by (simp add: hist_ok_def tree_ok_def rb_tree_def)
  moreover have "next_verify h = Some (?h, Some p)" using assms(3-5) fl(1) tree by (simp add: next_verify_def list_del_def)
  ultimately show ?thesis using tree by (intro exI [of _ ?h]) simp
qed

text \<open>The loop that reads back until there is nothing left, for at most \<open>n\<close> rounds.\<close>

fun drain :: "nat \<Rightarrow> history \<Rightarrow> (history \<times> io_piece list) option" where
  "drain 0 h = Some (h, [])"
| "drain (Suc n) h = do {
     (h, r) \<leftarrow> next_verify h;
     case r of None \<Rightarrow> Some (h, [])
     | Some p \<Rightarrow> do {
         (h, ps) \<leftarrow> drain n h;
         Some (h, p # ps) } }"

definition pending :: "history \<Rightarrow> nat list" where
  "pending h = entries (io_hist_tree h) @ io_hist_list h"

lemma pending_store: "hist_ok h \<Longrightarrow> a \<in> set (pending h) \<Longrightarrow> \<exists>p. h_store h a = Some p"
  by (fastforce simp: pending_def hist_ok_def tree_ok_def list_ok_def)

lemma pending_distinct: "hist_ok h \<Longrightarrow> distinct (pending h)"
  using hist_apart [of h] by (auto simp: pending_def hist_ok_def tree_ok_def list_ok_def)

lemma next_verify_pending:
  assumes "hist_ok h" and "pending h = a # as" and "h_store h a = Some p" and "\<not> f_in_flight p"
  shows "\<exists>h'. next_verify h = Some (h', Some p) \<and> hist_ok h' \<and> pending h' = as \<and> (\<forall>x. x \<noteq> a \<longrightarrow> h_store h' x = h_store h x)"
proof (cases "entries (io_hist_tree h)")
  case Nil
  then show ?thesis using next_verify_list [OF assms(1) Nil _ assms(3,4), of as] assms(2) by (auto simp: pending_def)
next
  case (Cons b bs)
  then show ?thesis using next_verify_tree [OF assms(1), of a bs p] assms by (auto simp: pending_def)
qed

lemma drain_all:
  "hist_ok h \<Longrightarrow> pending h = as \<Longrightarrow> \<forall>a \<in> set as. \<not> f_in_flight (piece (h_store h) a) \<Longrightarrow> length as < n \<Longrightarrow>
    \<exists>h'. drain n h = Some (h', map (piece (h_store h)) as) \<and> hist_ok h' \<and> pending h' = []"
proof (induction as arbitrary: n h)
  case Nil
  then have "io_hist_tree h = Rb_Null" "io_hist_list h = []" by (simp_all add: pending_def)
  then have "next_verify h = Some (h, None)" by (simp add: next_verify_def)
  then show ?case using Nil by (cases n) auto
next
  case (Cons a as)
  obtain m where n: "n = Suc m" "length as < m" using Cons.prems(4) by (cases n) auto
  obtain p where p: "h_store h a = Some p" using pending_store [OF Cons.prems(1), of a] Cons.prems(2) by auto
  have "\<not> f_in_flight p" using Cons.prems(3) p by simp
  from next_verify_pending [OF Cons.prems(1,2) p this] obtain h1 where
    h1: "next_verify h = Some (h1, Some p)" "hist_ok h1" "pending h1 = as" "\<forall>x. x \<noteq> a \<longrightarrow> h_store h1 x = h_store h x" by blast
  have "a \<notin> set as" using pending_distinct [OF Cons.prems(1)] Cons.prems(2) by simp
  then have same: "\<forall>x \<in> set as. piece (h_store h1) x = piece (h_store h) x" using h1(4) by auto
  have "\<forall>x \<in> set as. \<not> f_in_flight (piece (h_store h1) x)" using same Cons.prems(3) by simp
  from Cons.IH [OF h1(2,3) this n(2)] obtain h' where h': "drain m h1 = Some (h', map (piece (h_store h1)) as)" "hist_ok h'" "pending h' = []" by blast
  have "map (piece (h_store h1)) as = map (piece (h_store h)) as" using same by (simp cong: map_cong)
  then show ?case using n(1) h1(1) h' p by auto
qed

text \<open>
  C6 (functional): once all writes have completed, reading back goes through the pieces of the tree in the order of files and offsets and then through those of
  the list in the order in which they were written, each exactly once, and leaves the history empty.
\<close>

theorem verify_reads_all:
  assumes "hist_ok h" and "\<forall>a \<in> set (entries (io_hist_tree h) @ io_hist_list h). \<not> f_in_flight (piece (h_store h) a)"
    and "length (entries (io_hist_tree h)) + length (io_hist_list h) < n"
  shows "\<exists>h'. drain n h = Some (h', map (piece (h_store h)) (entries (io_hist_tree h) @ io_hist_list h)) \<and> hist_ok h' \<and>
    entries (io_hist_tree h') = [] \<and> io_hist_list h' = [] \<and> io_hist_len h' = 0"
  using drain_all [OF assms(1) refl, of n] assms(2,3) by (auto simp: pending_def hist_ok_def)

definition one_piece :: history where
  "one_piece = \<lparr>h_store = [7 \<mapsto> (new_piece 1 4096 512 0)\<lparr>f_onrb := True, f_in_flight := False\<rparr>], io_hist_tree = Rb_Node RB_BLACK Rb_Null 7 Rb_Null,
     io_hist_list = [], io_hist_len = 1, trim_list = [], trim_entries = 0\<rparr>"

theorem verify_reads_all_witness:
  "\<exists>h. drain 2 one_piece = Some (h, [(new_piece 1 4096 512 0)\<lparr>f_onrb := True, f_in_flight := False\<rparr>]) \<and> hist_ok h \<and> io_hist_len h = 0"
proof -
  have ok: "hist_ok one_piece"
    by (simp add: hist_ok_def tree_ok_def list_ok_def rb_tree_def one_piece_def sane_def new_piece_def)
  have "\<forall>a \<in> set (entries (io_hist_tree one_piece) @ io_hist_list one_piece). \<not> f_in_flight (piece (h_store one_piece) a)"
    "length (entries (io_hist_tree one_piece)) + length (io_hist_list one_piece) < 2"
    by (simp_all add: one_piece_def)
  from verify_reads_all [OF ok this] show ?thesis by (auto simp: one_piece_def)
qed

section \<open>Two faults\<close>

lemma tree_del_absent: "a \<notin> set (entries (io_hist_tree h)) \<Longrightarrow> tree_del a h = None"
  using locate_node(2) [of a "io_hist_tree h" "[]"] by (simp add: tree_del_def)

text \<open>
  C38 (error): a write that overlaps one still in flight takes the older piece out of the tree but leaves its mark that it is there. If the older write then fails,
  its piece is removed from the tree a second time, a node that is not in the tree any more.
\<close>

theorem unlog_removed_piece:
  assumes "hist_ok h" and "h_store h a = None" and "sane p" and "f_in_flight p" and "log_io_piece tr False a p h = Some h1"
    and "h_store h1 b = None" and "sane q" and "\<not> disjoint p q" and "log_io_piece tr' False b q h1 = Some h2"
  shows "h_store h2 a = Some (p\<lparr>f_onrb := True\<rparr>) \<and> a \<notin> set (entries (io_hist_tree h2)) \<and> complete_piece True a h2 = None"
proof -
  have h1: "hist_ok h1" "h_store h1 a = Some (p\<lparr>f_onrb := True\<rparr>)" using log_tree [OF assms(1-3), of tr] assms(5) by auto
  have ab: "a \<noteq> b" using h1(2) assms(6) by auto
  have dis: "\<not> disjoint (p\<lparr>f_onrb := True\<rparr>) q" using assms(8) by (simp add: disjoint_def)
  have "h_store h2 a = Some (p\<lparr>f_onrb := True\<rparr>)" "a \<notin> set (entries (io_hist_tree h2))"
    using log_tree [OF h1(1) assms(6,7), of tr'] assms(4,9) ab h1(2) dis by auto
  then show ?thesis by (simp add: complete_piece_def unlog_io_piece_def tree_del_absent)
qed

theorem unlog_removed_piece_witness:
  "\<exists>h1 h2. log_io_piece False False 7 (new_piece 1 4096 512 0) no_history = Some h1 \<and> log_io_piece False False 8 (new_piece 1 4096 512 1) h1 = Some h2 \<and>
    complete_piece True 7 h2 = None"
proof -
  let ?p = "new_piece 1 4096 512 0" and ?q = "new_piece 1 4096 512 1"
  have s: "sane ?p" "sane ?q" "f_in_flight ?p" "\<not> disjoint ?p ?q" by (simp_all add: sane_def new_piece_def disjoint_def apart_def)
  have f: "h_store no_history 7 = None" by (simp add: no_history_def)
  define h1 where "h1 = no_history\<lparr>h_store := [7 \<mapsto> ?p\<lparr>f_onrb := True\<rparr>], io_hist_tree := Rb_Node RB_BLACK Rb_Null 7 Rb_Null, io_hist_len := 1\<rparr>"
  have l1: "log_io_piece False False 7 ?p no_history = Some h1"
    by (simp add: log_io_piece_def sort_piece.simps no_history_def rb_insert_color.simps rb_link_node_def change_def h1_def)
  have f1: "h_store h1 8 = None" by (simp add: h1_def)
  have ok1: "hist_ok h1" using log_tree [OF no_history_ok f s(1), of False] l1 by auto
  obtain h2 where l2: "log_io_piece False False 8 ?q h1 = Some h2" using log_tree [OF ok1 f1 s(2), of False] by blast
  show ?thesis using unlog_removed_piece [OF no_history_ok f s(1,3) l1 f1 s(2,4) l2] l1 l2 by blast
qed

text \<open>
  A failed write frees its piece without taking it off the list of trims, so the next trim reads a piece that has been freed.
\<close>

theorem unlog_leaves_trim:
  "\<exists>h1 h2. log_io_piece True False a (new_piece file offset len numberio) no_history = Some h1 \<and> complete_piece True a h1 = Some h2 \<and>
    trim_list h2 = [a] \<and> h_store h2 a = None \<and> next_trim trim_zero h2 = None"
proof -
  let ?p = "new_piece file offset len numberio"
  let ?h1 = "no_history\<lparr>h_store := [a \<mapsto> ?p\<lparr>f_onrb := True\<rparr>], io_hist_tree := Rb_Node RB_BLACK Rb_Null a Rb_Null, io_hist_len := 1,
    trim_list := [a], trim_entries := 1\<rparr>"
  let ?h2 = "no_history\<lparr>trim_list := [a], trim_entries := 1\<rparr>"
  have "log_io_piece True False a ?p no_history = Some ?h1"
    by (simp add: log_io_piece_def sort_piece.simps no_history_def rb_insert_color.simps rb_link_node_def change_def)
  moreover have "complete_piece True a ?h1 = Some ?h2"
    by (simp add: complete_piece_def unlog_io_piece_def tree_del_def rb_erase.simps unlink_def free_def no_history_def)
  moreover have "next_trim trim_zero ?h2 = None" by (simp add: next_trim_def no_history_def)
  ultimately show ?thesis by (intro exI [of _ ?h1] exI [of _ ?h2]) (simp add: no_history_def)
qed

section \<open>Pruning\<close>

lemma tree_del_shorter:
  assumes "tree_del a h = Some h'"
  shows "length (entries (io_hist_tree h')) < length (entries (io_hist_tree h))"
proof -
  have a: "a \<in> set (entries (io_hist_tree h))" using assms tree_del_absent by fastforce
  obtain c l r qs where z: "locate a (io_hist_tree h) [] = Some (Rb_Node c l a r, qs)" "plug qs (Rb_Node c l a r) = io_hist_tree h"
    using locate_node(1) [OF a, of "[]"] by auto
  obtain t where t: "rb_erase (Rb_Node c l a r) qs = Some t" "io_hist_tree h' = t"
    using assms z(1) by (auto simp: tree_del_def bind_eq_Some_conv)
  show ?thesis using rb_erase_entries [OF t(1)] t(2) entries_plug [of qs "Rb_Node c l a r"] z(2) by simp
qed

function prune_tree :: "history \<Rightarrow> history option" where
  "prune_tree h = (case rb_first (io_hist_tree h) of
     None \<Rightarrow> Some h
   | Some a \<Rightarrow> (case tree_del a h of None \<Rightarrow> None | Some h \<Rightarrow> prune_tree (free a ((remove_trim_entry a h)\<lparr>io_hist_len := io_hist_len h - 1\<rparr>))))"
  by pat_completeness auto
termination
  by (relation "measure (\<lambda>h. length (entries (io_hist_tree h)))") (auto simp: free_def remove_trim_entry_def dest: tree_del_shorter)

declare prune_tree.simps [simp del]

fun prune_list :: "nat list \<Rightarrow> history \<Rightarrow> history option" where
  "prune_list [] h = Some h"
| "prune_list (a # as) h = do {
     h \<leftarrow> list_del a h;
     prune_list as (free a ((remove_trim_entry a h)\<lparr>io_hist_len := io_hist_len h - 1\<rparr>)) }"

definition prune_io_piece_log :: "history \<Rightarrow> history option" where
  "prune_io_piece_log h = do {
     h \<leftarrow> prune_tree h;
     prune_list (io_hist_list h) h }"

definition trim_io_piece :: "u64 \<Rightarrow> nat \<Rightarrow> history \<Rightarrow> history option" where
  "trim_io_piece n a h = change (\<lambda>p. p\<lparr>ip_len := n\<rparr>) a h"

section \<open>All operations keep the invariant\<close>

text \<open>A change of a piece that leaves its place as it is, or makes it shorter.\<close>

lemma change_ok:
  assumes "hist_ok h" and "change g a h = Some h'" and "h_store h a = Some p" and "ip_file (g p) = ip_file p" and "ip_offset (g p) = ip_offset p"
    and "ip_len (g p) \<le> ip_len p" and "f_onrb (g p) = f_onrb p" and "f_onlist (g p) = f_onlist p" and "ip_len (g p) \<noteq> 0 \<or> ip_len (g p) = ip_len p"
  shows "hist_ok h'"
proof -
  let ?st = "(h_store h)(a \<mapsto> g p)"
  have h': "h' = h\<lparr>h_store := ?st\<rparr>" using assms(2,3) by (simp add: change_def)
  have len: "unat (ip_len (g p)) \<le> unat (ip_len p)" using assms(6) by (simp add: word_le_nat_alt)
  have ap: "apart (piece ?st x) (piece ?st y)" if "apart (piece (h_store h) x) (piece (h_store h) y)" for x y
    using that assms(3-5) len by (auto simp: apart_def)
  have "sorted_wrt (\<lambda>x y. apart (piece ?st x) (piece ?st y)) xs" if "sorted_wrt (\<lambda>x y. apart (piece (h_store h) x) (piece (h_store h) y)) xs" for xs
    using that by (rule sorted_wrt_mono_rel [rotated]) (use ap in blast)
  moreover have "sane (g p)" if "sane p"
    using that assms(5,9) len by (auto simp: sane_def unat_gt_0)
  ultimately have "tree_ok ?st (io_hist_tree h)" using assms(1,3,7) by (auto simp: hist_ok_def tree_ok_def)
  moreover have "list_ok ?st (io_hist_list h)" using assms(1,3,7,8) by (auto simp: hist_ok_def list_ok_def)
  ultimately show ?thesis using assms(1) by (simp add: h' hist_ok_def)
qed

lemma free_simps [simp]: "io_hist_tree (free a h) = io_hist_tree h" "io_hist_list (free a h) = io_hist_list h" "io_hist_len (free a h) = io_hist_len h"
  "h_store (free a h) = (h_store h)(a := None)"
  by (simp_all add: free_def)

lemma remove_trim_simps [simp]: "io_hist_tree (remove_trim_entry a h) = io_hist_tree h" "io_hist_list (remove_trim_entry a h) = io_hist_list h"
  "io_hist_len (remove_trim_entry a h) = io_hist_len h" "h_store (remove_trim_entry a h) = h_store h"
  by (simp_all add: remove_trim_entry_def)

lemma hist_ok_cong:
  "io_hist_tree h' = io_hist_tree h \<Longrightarrow> io_hist_list h' = io_hist_list h \<Longrightarrow> io_hist_len h' = io_hist_len h \<Longrightarrow> h_store h' = h_store h \<Longrightarrow> hist_ok h' = hist_ok h"
  by (simp add: hist_ok_def)

lemma tree_del_free:
  assumes "hist_ok h" and "tree_del a h = Some h1"
  shows "hist_ok (free a (h1\<lparr>io_hist_len := io_hist_len h1 - 1\<rparr>))"
proof -
  have a: "a \<in> set (entries (io_hist_tree h))" using assms(2) tree_del_absent by fastforce
  have tok: "tree_ok (h_store h) (io_hist_tree h)" using assms(1) by (simp add: hist_ok_def)
  let ?st = "(h_store h)(a := None)"
  obtain t where t: "h1 = h\<lparr>io_hist_tree := t\<rparr>" "tree_ok ?st t" "entries t = remove1 a (entries (io_hist_tree h))"
    using tree_del_ok [OF tok a, of ?st] assms(2) by auto
  have "list_ok ?st (io_hist_list h)"
    by (rule list_ok_store [of "h_store h"]) (use assms(1) hist_apart [OF assms(1) a] in \<open>auto simp: hist_ok_def\<close>)
  then show ?thesis using t length_del [OF a, of "length (io_hist_list h)"] assms(1) by (simp add: hist_ok_def)
qed

lemma list_del_free:
  assumes "hist_ok h" and "list_del a h = Some h1"
  shows "hist_ok (free a (h1\<lparr>io_hist_len := io_hist_len h1 - 1\<rparr>))"
proof -
  have a: "a \<in> set (io_hist_list h)" and h1: "h1 = h\<lparr>io_hist_list := remove1 a (io_hist_list h)\<rparr>"
    using assms(2) by (auto simp: list_del_def c_assert_def split: if_splits)
  have nt: "a \<notin> set (entries (io_hist_tree h))" using hist_apart [OF assms(1)] a by blast
  let ?st = "(h_store h)(a := None)"
  have dist: "distinct (io_hist_list h)" using assms(1) by (simp add: hist_ok_def list_ok_def)
  have "list_ok ?st (remove1 a (io_hist_list h))" using assms(1) dist by (auto simp: hist_ok_def list_ok_def)
  moreover have "tree_ok ?st (io_hist_tree h)"
    by (rule tree_ok_store [of "h_store h"]) (use assms(1) nt in \<open>auto simp: hist_ok_def\<close>)
  ultimately show ?thesis using h1 length_del [OF a, of "length (entries (io_hist_tree h))"] assms(1) by (simp add: hist_ok_def add.commute)
qed

lemma unlog_ok:
  assumes "hist_ok h" and "a \<in> set (pending h)" and "unlog_io_piece a h = Some h'"
  shows "hist_ok h'"
proof -
  obtain p where p: "h_store h a = Some p" using pending_store [OF assms(1,2)] by blast
  have eq: "(free a h1)\<lparr>io_hist_len := io_hist_len h1 - 1\<rparr> = free a (h1\<lparr>io_hist_len := io_hist_len h1 - 1\<rparr>)" for h1 by (simp add: free_def)
  have "f_onrb p \<or> f_onlist p" using assms(1,2) p by (fastforce simp: pending_def hist_ok_def tree_ok_def list_ok_def)
  then show ?thesis using assms(1,3) p tree_del_free list_del_free
    by (auto simp: unlog_io_piece_def bind_eq_Some_conv eq split: if_splits)
qed

lemma next_verify_ok:
  assumes "hist_ok h" and "next_verify h = Some (h', r)"
  shows "hist_ok h'"
proof (cases "pending h")
  case Nil
  then have "io_hist_tree h = Rb_Null" "io_hist_list h = []" by (simp_all add: pending_def)
  then show ?thesis using assms by (simp add: next_verify_def)
next
  case (Cons a as)
  obtain p where p: "h_store h a = Some p" using pending_store [OF assms(1), of a] Cons by auto
  show ?thesis
  proof (cases "f_in_flight p")
    case False
    then show ?thesis using next_verify_pending [OF assms(1) Cons p] assms(2) by auto
  next
    case True
    have "rb_first (io_hist_tree h) = Some a \<or> rb_first (io_hist_tree h) = None \<and> io_hist_list h = a # as"
      using Cons by (cases "entries (io_hist_tree h)") (auto simp: pending_def rb_first_entries)
    then show ?thesis using assms True p by (auto simp: next_verify_def)
  qed
qed

lemma next_trim_ok:
  assumes "hist_ok h" and "next_trim trim_zero h = Some (h', r)"
  shows "hist_ok h'"
proof (cases "trim_list h")
  case Nil
  then show ?thesis using assms by (simp add: next_trim_def)
next
  case (Cons a as)
  let ?h = "remove_trim_entry a h"
  have ok: "hist_ok ?h" using assms(1) hist_ok_cong [of ?h h] by simp
  obtain p where p: "h_store h a = Some p" using assms(2) Cons by (auto simp: next_trim_def bind_eq_Some_conv)
  show ?thesis
  proof (cases trim_zero)
    case True
    then have "change (\<lambda>p. p\<lparr>f_trimmed := True\<rparr>) a ?h = Some h'" using assms(2) Cons by (auto simp: next_trim_def bind_eq_Some_conv Let_def)
    then show ?thesis using change_ok [OF ok, of "\<lambda>p. p\<lparr>f_trimmed := True\<rparr>" a h' p] p by simp
  next
    case False
    then obtain h1 where "list_del a ?h = Some h1 \<or> tree_del a ?h = Some h1" "h' = free a (h1\<lparr>io_hist_len := io_hist_len h1 - 1\<rparr>)"
      using assms(2) Cons p by (auto simp: next_trim_def bind_eq_Some_conv Let_def split: if_splits)
    then show ?thesis using tree_del_free [OF ok] list_del_free [OF ok] by blast
  qed
qed

lemma prune_tree_ok: "hist_ok h \<Longrightarrow> \<exists>h'. prune_tree h = Some h' \<and> hist_ok h' \<and> io_hist_tree h' = Rb_Null"
proof (induction h rule: prune_tree.induct)
  case (1 h)
  show ?case
  proof (cases "entries (io_hist_tree h)")
    case Nil
    then show ?thesis using 1 by (subst prune_tree.simps) (simp add: rb_first_entries)
  next
    case (Cons a as)
    have first: "rb_first (io_hist_tree h) = Some a" using Cons by (auto simp: rb_first_entries)
    have a: "a \<in> set (entries (io_hist_tree h))" using Cons by simp
    have tok: "tree_ok (h_store h) (io_hist_tree h)" using "1.prems" by (simp add: hist_ok_def)
    obtain t where t: "tree_del a h = Some (h\<lparr>io_hist_tree := t\<rparr>)" using tree_del_ok [OF tok a, of "h_store h"] by auto
    let ?h = "h\<lparr>io_hist_tree := t\<rparr>"
    let ?h' = "free a ((remove_trim_entry a ?h)\<lparr>io_hist_len := io_hist_len ?h - 1\<rparr>)"
    have "hist_ok ?h'" using tree_del_free [OF "1.prems" t] hist_ok_cong [of ?h' "free a (?h\<lparr>io_hist_len := io_hist_len ?h - 1\<rparr>)"] by simp
    from "1.IH" [OF first t this] show ?thesis by (subst prune_tree.simps) (simp add: first t)
  qed
qed

lemma prune_list_ok: "hist_ok h \<Longrightarrow> io_hist_list h = as \<Longrightarrow> \<exists>h'. prune_list as h = Some h' \<and> hist_ok h' \<and> io_hist_tree h' = io_hist_tree h \<and> io_hist_list h' = []"
proof (induction as arbitrary: h)
  case (Cons a as)
  let ?h = "h\<lparr>io_hist_list := remove1 a (io_hist_list h)\<rparr>"
  let ?h' = "free a ((remove_trim_entry a ?h)\<lparr>io_hist_len := io_hist_len ?h - 1\<rparr>)"
  have d: "list_del a h = Some ?h" using Cons.prems(2) by (simp add: list_del_def)
  have "hist_ok ?h'" using list_del_free [OF Cons.prems(1) d] hist_ok_cong [of ?h' "free a (?h\<lparr>io_hist_len := io_hist_len ?h - 1\<rparr>)"] by simp
  from Cons.IH [OF this] show ?case using d Cons.prems(2) by simp
qed simp

lemma prune_ok:
  assumes "hist_ok h"
  shows "\<exists>h'. prune_io_piece_log h = Some h' \<and> hist_ok h' \<and> io_hist_tree h' = Rb_Null \<and> io_hist_list h' = [] \<and> io_hist_len h' = 0"
proof -
  obtain h1 where h1: "prune_tree h = Some h1" "hist_ok h1" "io_hist_tree h1 = Rb_Null" using prune_tree_ok [OF assms] by blast
  obtain h' where "prune_list (io_hist_list h1) h1 = Some h'" "hist_ok h'" "io_hist_tree h' = Rb_Null" "io_hist_list h' = []"
    using prune_list_ok [OF h1(2) refl] h1(3) by auto
  then show ?thesis using h1(1) by (auto simp: prune_io_piece_log_def hist_ok_def)
qed

text \<open>One step of a job: a failed write is one whose piece has not been replaced.\<close>

inductive hist_step :: "history \<Rightarrow> history \<Rightarrow> bool" where
  log: "h_store h a = None \<Longrightarrow> sane p \<Longrightarrow> \<not> f_onrb p \<Longrightarrow> log_io_piece trim random_map a p h = Some h' \<Longrightarrow> hist_step h h'"
| success: "complete_piece False a h = Some h' \<Longrightarrow> hist_step h h'"
| failure: "a \<in> set (entries (io_hist_tree h)) \<or> a \<in> set (io_hist_list h) \<Longrightarrow> complete_piece True a h = Some h' \<Longrightarrow> hist_step h h'"
| shorter: "h_store h a = Some p \<Longrightarrow> n \<noteq> 0 \<Longrightarrow> n \<le> ip_len p \<Longrightarrow> trim_io_piece n a h = Some h' \<Longrightarrow> hist_step h h'"
| verify: "next_verify h = Some (h', r) \<Longrightarrow> hist_step h h'"
| trim: "next_trim trim_zero h = Some (h', r) \<Longrightarrow> hist_step h h'"
| prune: "prune_io_piece_log h = Some h' \<Longrightarrow> hist_step h h'"

lemma hist_step_ok: "hist_step h h' \<Longrightarrow> hist_ok h \<Longrightarrow> hist_ok h'"
proof (induction rule: hist_step.induct)
  case (log h a p trim random_map h')
  then show ?case using log_tree [of h a p trim] log_list [of h a p trim] by (cases random_map) auto
next
  case (success a h h')
  then obtain p where "h_store h a = Some p" "change (\<lambda>p. p\<lparr>f_in_flight := False\<rparr>) a h = Some h'" by (auto simp: complete_piece_def change_def)
  then show ?case using change_ok [OF success.prems, of "\<lambda>p. p\<lparr>f_in_flight := False\<rparr>" a h' p] by simp
next
  case (failure a h h')
  then show ?case using unlog_ok [of h a h'] by (auto simp: complete_piece_def pending_def)
next
  case (shorter h a p n h')
  then show ?case using change_ok [OF shorter.prems, of "\<lambda>p. p\<lparr>ip_len := n\<rparr>" a h' p] by (simp add: trim_io_piece_def)
next
  case (prune h h')
  then show ?case using prune_ok [of h] by auto
qed (auto intro: next_verify_ok next_trim_ok)

text \<open>
  C5 (invariant): whatever a job does, as long as no write fails after a newer one has replaced its piece, the tree stays a red-black tree of disjoint pieces in
  order, the marks of the pieces say where they are linked, and the length of the history is the number of pieces in the tree and the list.
\<close>

theorem history_invariant:
  assumes "hist_step\<^sup>*\<^sup>* no_history h"
  shows "rb_tree (io_hist_tree h) \<and> sorted_wrt (\<lambda>a b. apart (piece (h_store h) a) (piece (h_store h) b)) (entries (io_hist_tree h)) \<and>
    (\<forall>a \<in> set (entries (io_hist_tree h)). \<exists>p. h_store h a = Some p \<and> f_onrb p) \<and> (\<forall>a \<in> set (io_hist_list h). \<exists>p. h_store h a = Some p \<and> f_onlist p) \<and>
    io_hist_len h = of_nat (length (entries (io_hist_tree h)) + length (io_hist_list h))"
proof -
  have "hist_ok h" using assms by (induction rule: rtranclp_induct) (auto intro: no_history_ok hist_step_ok)
  then show ?thesis by (fastforce simp: hist_ok_def tree_ok_def list_ok_def)
qed

theorem history_invariant_witness:
  "\<exists>h. hist_step\<^sup>*\<^sup>* no_history h \<and> set (entries (io_hist_tree h)) = {7} \<and> rb_tree (io_hist_tree h) \<and>
    io_hist_len h = of_nat (length (entries (io_hist_tree h)) + length (io_hist_list h))"
proof -
  have s: "sane (new_piece 1 4096 512 0)" "\<not> f_onrb (new_piece 1 4096 512 0)" by (simp_all add: sane_def new_piece_def)
  have f: "h_store no_history 7 = None" by (simp add: no_history_def)
  obtain h where h: "log_io_piece False False 7 (new_piece 1 4096 512 0) no_history = Some h" "set (entries (io_hist_tree h)) = {7}"
    using log_tree [OF no_history_ok f s(1), of False] by (auto simp: no_history_def)
  have r: "hist_step\<^sup>*\<^sup>* no_history h" using hist_step.log [OF f s h(1)] by blast
  show ?thesis using history_invariant [OF r] r h(2) by blast
qed

end
