(* ===== verification/Memalign.thy ===== *)
theory Memalign
  imports Bits
begin

text \<open>
  \<^verbatim>\<open>lib/memalign.c\<close>: aligned blocks inside larger ones, with a footer behind the data that says how far the block was moved. Pointers are
  64-bit words; \<open>fn\<close> is the allocator. The footer is the 32-bit value the result carries along.
\<close>

unbundle bit_operations_syntax

definition PTR_ALIGN :: "u64 \<Rightarrow> u64 \<Rightarrow> u64" where
  "PTR_ALIGN ptr m = (ptr + m) AND NOT m"

definition sizeof_footer :: u64 where "sizeof_footer = 4"

text \<open>The aligned pointer and the footer, or the null pointer and no footer.\<close>

definition fio_memalign :: "u64 \<Rightarrow> u64 \<Rightarrow> (u64 \<Rightarrow> u64) \<Rightarrow> (u64 \<times> u32 option) option" where \<comment> \<open>\<^verbatim>\<open>__fio_memalign\<close>\<close>
  "fio_memalign alignment bytes fn = do {
     c_assert (alignment AND (alignment - 1) = 0);
     let ptr = fn (bytes + alignment + sizeof_footer - 1);
     if ptr = 0 then Some (0, None)
     else (let ret = PTR_ALIGN ptr (alignment - 1) in Some (ret, Some (ucast (ret - ptr)))) }"

text \<open>The pointer given to the free function; \<open>f\<close> is the footer.\<close>

definition fio_memfree :: "u64 \<Rightarrow> u32 \<Rightarrow> u64" where \<comment> \<open>\<^verbatim>\<open>__fio_memfree\<close>\<close>
  "fio_memfree ptr f = ptr - ucast f"

lemma PTR_ALIGN_nat:
  assumes "unat ptr + 2 ^ k \<le> 2 ^ 64" and "k < 64"
  shows "unat (PTR_ALIGN ptr (mask k)) = (unat ptr + (2 ^ k - 1)) div 2 ^ k * 2 ^ k"
proof -
  let ?x = "ptr + mask k"
  have m: "unat (mask k :: u64) = 2 ^ k - 1" using assms(2) by (simp add: mask_eq_exp_minus_1 unat_minus_one unat_pow2)
  have "unat ptr + unat (mask k :: u64) < 2 ^ 64" using assms(1) m by (simp add: less_eq_Suc_le)
  then have x: "unat ?x = unat ptr + (2 ^ k - 1)" using m by (simp add: unat_add_lem [THEN iffD1])
  have le: "?x AND mask k \<le> ?x" by (simp add: word_and_le2)
  have "unat (PTR_ALIGN ptr (mask k)) = unat ?x - unat ?x mod 2 ^ k"
  proof -
    have "(?x AND mask k) OR (?x AND NOT (mask k)) = ?x" by (rule bit_word_eqI) (auto simp: bit_simps)
    moreover have "(?x AND mask k) AND (?x AND NOT (mask k)) = 0" by (rule bit_word_eqI) (auto simp: bit_simps)
    ultimately have "?x = (?x AND NOT (mask k)) + (?x AND mask k)"
      using word_plus_and_or [of "?x AND mask k" "?x AND NOT (mask k)"] by (simp only: add_0) (simp only: add.commute)
    then have "PTR_ALIGN ptr (mask k) = ?x - (?x AND mask k)" unfolding PTR_ALIGN_def by (simp only: eq_diff_eq)
    then show ?thesis using unat_sub [OF le] unat_and_mask [of ?x k] by simp
  qed
  also have "\<dots> = unat ?x div 2 ^ k * 2 ^ k" by (simp add: minus_mod_eq_div_mult)
  finally show ?thesis by (simp only: x)
qed

lemma round_up_bounds:
  fixes p a :: nat
  assumes "0 < a"
  shows "p \<le> (p + (a - 1)) div a * a" "(p + (a - 1)) div a * a \<le> p + (a - 1)"
proof -
  show "(p + (a - 1)) div a * a \<le> p + (a - 1)" by simp
  show "p \<le> (p + (a - 1)) div a * a"
    using div_mult_mod_eq [of "p + (a - 1)" a] mod_less_divisor [OF assms, of "p + (a - 1)"] assms by linarith
qed

text \<open>
  A block aligned to a power of two below \<open>2 ^ 32\<close> is aligned, its data and the footer behind it lie inside the block of the allocator, and
  freeing it gives the allocator its own pointer back.
\<close>

lemma memalign_inside:
  assumes "k < 32" and "ptr = fn (bytes + 2 ^ k + 4 - 1)" and "ptr \<noteq> 0" and "unat ptr + (unat bytes + 2 ^ k + 4) \<le> 2 ^ 64"
  shows "\<exists>ret f. fio_memalign (2 ^ k) bytes fn = Some (ret, Some f) \<and> 2 ^ k dvd unat ret \<and> unat ptr \<le> unat ret \<and>
    unat ret + unat bytes + 4 \<le> unat ptr + unat (bytes + 2 ^ k + 4 - 1) \<and> fio_memfree ret f = ptr"
proof -
  let ?a = "2 ^ k :: nat" and ?ret = "PTR_ALIGN ptr (mask k)"
  have pow: "(2 ^ k :: u64) - 1 = mask k" by (simp add: mask_eq_exp_minus_1)
  have kk: "k < 64" using assms(1) by simp
  have "(2 ^ k :: u64) AND (2 ^ k - 1) = 0" by (rule and_minus_one_zero_iff [THEN iffD2]) (use kk in \<open>auto\<close>)
  then have run: "fio_memalign (2 ^ k) bytes fn = Some (?ret, Some (ucast (?ret - ptr)))"
    using assms(2,3) by (simp add: fio_memalign_def sizeof_footer_def pow Let_def)
  have ret: "unat ?ret = (unat ptr + (?a - 1)) div ?a * ?a" using PTR_ALIGN_nat [of ptr k] assms(1,4) by simp
  note b = round_up_bounds [of ?a "unat ptr"]
  have ge: "unat ptr \<le> unat ?ret" and le: "unat ?ret \<le> unat ptr + (?a - 1)" using b unfolding ret by simp_all
  have sum: "unat (bytes + 2 ^ k + 4 - 1) = unat bytes + ?a + 3"
  proof -
    have "bytes + 2 ^ k + 4 - 1 = (of_nat (unat bytes + ?a + 3) :: u64)" by simp
    then show ?thesis using assms(4) by (simp add: unat_of_nat take_bit_nat_eq_self del: of_nat_add)
  qed
  have "unat (?ret - ptr) < 2 ^ 32"
  proof -
    have "unat (?ret - ptr) = unat ?ret - unat ptr" using ge by (simp add: unat_sub word_le_nat_alt)
    moreover have "?a \<le> 2147483648" using power_increasing [of k 31 "2 :: nat"] assms(1) by simp
    ultimately show ?thesis using le by simp
  qed
  then have "(ucast (ucast (?ret - ptr) :: u32) :: u64) = ?ret - ptr"
    by (simp add: word_eq_iff_unsigned word_unat_eq_iff unsigned_ucast_eq unsigned_take_bit_eq take_bit_nat_eq_self)
  then have "fio_memfree ?ret (ucast (?ret - ptr)) = ptr" by (simp add: fio_memfree_def)
  moreover have "2 ^ k dvd unat ?ret" unfolding ret by simp
  moreover have "unat ?ret + unat bytes + 4 \<le> unat ptr + unat (bytes + 2 ^ k + 4 - 1)"
  proof -
    have "unat ?ret < unat ptr + ?a" using le by (rule le_less_trans) simp
    then show ?thesis unfolding sum by linarith
  qed
  ultimately show ?thesis using run ge by blast
qed

lemma memalign_inside_example:
  "\<exists>ret f. fio_memalign (2 ^ 9) 100 (\<lambda>n. 1000) = Some (ret, Some f) \<and> 2 ^ 9 dvd unat ret \<and> unat ret + unat (100 :: u64) + 4 \<le> 1000 + unat (100 + 2 ^ 9 + 4 - 1 :: u64) \<and>
    fio_memfree ret f = 1000"
  using memalign_inside [of 9 1000 "\<lambda>n. 1000" 100] by auto

end
