(* ===== verification/Spec2Isabelle.thy ===== *)
theory Spec2Isabelle
  imports Random_Map Lfsr_Period Byte_Fifo Crc_Funs Smalloc_Heap Md5 Sha1 Sha256 Sha512 Sha3 File_Names
    Pattern_Parse Verify_Accept Io_Offset Semaphore Latency
    String_Distance Option_Values Zbd_Setup Io_History Memalign
begin

text \<open>
  A verification development for the C core of RaptorMark, an Android storage benchmark that embeds the I/O
  tester fio (\<^verbatim>\<open>src/app/src/main/cpp/fio\<close>; paths below are relative to it). The target is arm64: little endian,
  64-bit \<^verbatim>\<open>long\<close> and pointers.

  \<^bold>\<open>The program.\<close> Options are parsed (\<^verbatim>\<open>parse.c\<close>) into the settings of jobs. A job picks a data direction, an offset and a length
  (\<^verbatim>\<open>io_u.c\<close>), sequential or random, and a random block either from a random generator with a
  random map (\<^verbatim>\<open>lib/axmap.c\<close>) that remembers the blocks already used, or from a linear feedback shift register
  (\<^verbatim>\<open>lib/lfsr.c\<close>) that enumerates them. I/O units are recycled through a stack and a ring (\<^verbatim>\<open>io_u_queue.c\<close>). Jobs are
  processes that share one allocator (\<^verbatim>\<open>smalloc.c\<close>), a table of files (\<^verbatim>\<open>filehash.c\<close>) with a Bloom filter
  (\<^verbatim>\<open>lib/bloom.c\<close>) for the names already allocated (\<^verbatim>\<open>filesetup.c\<close>). Data written with \<^verbatim>\<open>verify=\<close> carries a checksum or
  digest (\<^verbatim>\<open>crc/\<close>) in a header (\<^verbatim>\<open>verify.c\<close>) that is checked when it is read back; the data itself is random
  (\<^verbatim>\<open>lib/rand.c\<close>) or a pattern (\<^verbatim>\<open>lib/pattern.c\<close>). What is to be checked is kept in a history of writes (\<^verbatim>\<open>iolog.c\<close>) in a red-black tree
  (\<^verbatim>\<open>lib/rbtree.c\<close>). Replay of block traces reads through a byte fifo
  (\<^verbatim>\<open>fifo.c\<close>). On a zoned device an I/O is fitted to the zones and their write pointers (\<^verbatim>\<open>zbd.c\<close>). Processes wait for
  each other with semaphores in shared memory (\<^verbatim>\<open>fio_sem.c\<close>), and the latency of each I/O is counted in a histogram
  (\<^verbatim>\<open>stat.c\<close>).

  \<^bold>\<open>Conventions.\<close> Structs are records, machine integers are words of their width (or naturals with the modulus
  written out where a value is mostly an index), arrays are lists. A function that may run into undefined
  behaviour or a failed assertion returns an option, or in the allocator a sum with the kind of fault, so a
  theorem that a result is \<open>Some\<close> also says that every access stayed inside its array. Buffers behind a pointer are the bytes they point to.
  Results of the system (allocation, probes of the processor, the contents of files) are arguments.

  \<^bold>\<open>Theories.\<close>
  \<^item> \<open>Prelude\<close>, \<open>Bytes\<close>: machine types, checked accesses, words and naturals, loads and stores of either endianness.
  \<^item> \<open>Bits\<close>: \<^verbatim>\<open>lib/ffz.h\<close>, \<^verbatim>\<open>lib/fls.h\<close>, \<^verbatim>\<open>lib/roundup.h\<close>, \<^verbatim>\<open>lib/pow2.h\<close>, \<^verbatim>\<open>lib/hweight.c\<close> and \<^verbatim>\<open>arch_ffz\<close>, each against its meaning.
  \<^item> \<open>Axmap\<close>, \<open>Axmap_Refine\<close>, \<open>Axmap_Search\<close>, \<open>Random_Map\<close>: the multi-level bitmap refines a set of block numbers;
    used through an interface (a locale), it makes the random rounds of \<^verbatim>\<open>io_u.c\<close> pick every block exactly once.
  \<^item> \<open>Lfsr\<close>, \<open>Lfsr_Period\<close>: the generator returns every number of its range exactly once; the period of the tap table
    is computed for the small rows and the step is a permutation for all.
  \<^item> \<open>Queues\<close>, \<open>Byte_Fifo\<close>: stack, ring and byte fifo refine lists, with the overflow the ring fails to notice.
  \<^item> \<open>Crc\<close>, \<open>Crc_Tables\<close>, \<open>Crc_Funs\<close>, \<open>Crc32c_Arm64\<close>: the table-driven checksums are polynomial division, detect bursts,
    and the accelerated crc32c with its interleaved streams agrees with the plain one.
  \<^item> \<open>Smalloc\<close>, \<open>Smalloc_Safe\<close>, \<open>Smalloc_Heap\<close>: pools, bitmap search, red zones and headers of the shared allocator;
    sequences of requests keep live blocks disjoint and intact. The search takes fuel: one more than the number
    of bits of the pool, enough since every round advances by a bit; running out would be a fault of its own kind,
    which the theorems exclude.
  \<^item> \<open>Digest\<close>: blocks, padding, the update loop shared by two digests, and the interface \<open>block_digest\<close> of an update
    function that may be fed in pieces. \<open>Md5\<close>, \<open>Sha1\<close>, \<open>Sha2\<close>, \<open>Sha256\<close>, \<open>Sha512\<close>, \<open>Sha3\<close>, \<open>Xxhash\<close>: the unrolled transforms are the
    loops of the standards, the updates satisfy the interface, and the digest of a message is that of the
    standard, or provably is not (SHA-256, SHA-512).
  \<^item> \<open>Hashes\<close>: murmur3, fnv and jhash. \<open>Bloom\<close>, \<open>File_Hash\<close>, \<open>File_Names\<close>: the filter never misses a key (interface \<open>approx_set\<close>), the
    table of files refines a map, and the list of names behind the filter is an exact set.
  \<^item> \<open>Pattern\<close>, \<open>Pattern_Parse\<close>: \<^verbatim>\<open>lib/pattern.c\<close> and \<^verbatim>\<open>lib/strntol.c\<close>: the doubling copy ends and repeats the pattern, the comparison
    without a loop is the bytewise one, and the two passes of the parser agree.
  \<^item> \<open>Rand\<close>: the generators of \<^verbatim>\<open>lib/rand.c\<close> and the filling of buffers, which depends on nothing but its arguments.
  \<^item> \<open>Verify\<close>, \<open>Verify_Sums\<close>, \<open>Verify_Blocks\<close>, \<open>Verify_Accept\<close>: \<^verbatim>\<open>verify.c\<close>. Every checksum satisfies one contract (the
    locale \<open>sum_method\<close>), the header of an interval is written and read back, and a whole buffer that was written is
    accepted; a damaged one is reported, with the case in which the report is lost.
  \<^item> \<open>Post\<close>: rules for postconditions of fallible operations, used along the program text by the next theories.
  \<^item> \<open>Io_Offset\<close>: \<^verbatim>\<open>io_u.c\<close> from the draw of a direction to \<^verbatim>\<open>fill_io_u\<close>, with \<^verbatim>\<open>setup_zbd_zone_mode\<close> and \<^verbatim>\<open>zbd_adjust_ddir\<close> of \<^verbatim>\<open>zbd.c\<close>
    (\<^verbatim>\<open>zbd_adjust_block\<close> is an argument): whatever the generators draw, every I/O of a job without zoned devices lies in its file and not in front of its
    region, and a sequential job covers its region in order without a gap and then stops. The loop of \<^verbatim>\<open>get_next_buflen\<close> may not end,
    so it is a partial function; the theorems about it show what it returns, and termination for the jobs they are about.
  \<^item> \<open>Semaphore\<close>: \<^verbatim>\<open>fio_sem.c\<close> as a step relation over any number of threads: a binary semaphore excludes all but one, and the wake-up
    that is lost when the signal is skipped.
  \<^item> \<open>Latency\<close>: the buckets of the histogram of \<^verbatim>\<open>stat.c\<close> and their relative error below \<open>2 ^ 34\<close>, and the walk that finds the percentiles.
  \<^item> \<open>String_Distance\<close>, \<open>Parse_Values\<close>, \<open>Option_Values\<close>: \<^verbatim>\<open>parse.c\<close>. The two-row table computes the least number of edits, a number
    with a unit is read back, and the loop over the values of an option stores one per direction.
  \<^item> \<open>Zbd\<close>, \<open>Zbd_Adjust\<close>, \<open>Zbd_Setup\<close>: \<^verbatim>\<open>zbd.c\<close>. The write target zones of a device shared by jobs are a step relation with an
    invariant; adjusted reads stay below the write pointer and adjusted writes start at it; the region of a file is cut to whole zones.
    The theories also prove where counters wrap around and assertions fail.
  \<^item> \<open>Memalign\<close>: \<^verbatim>\<open>lib/memalign.c\<close>, aligned blocks with a footer inside the blocks of an allocator.
  \<^item> \<open>Rbtree\<close>, \<open>Io_History\<close>: \<^verbatim>\<open>lib/rbtree.c\<close> on a cursor with the path to the root, and the history of writes built on it (\<^verbatim>\<open>iolog.c\<close>, \<^verbatim>\<open>trim.c\<close> and
    \<^verbatim>\<open>get_next_verify\<close>) with an explicit store, since tree, lists and I/O units share the pieces: a new write replaces what it overlaps, reading back
    visits each piece once, and two faults when a write fails.

  \<^bold>\<open>Not modelled.\<close> System calls, processes and sockets (\<^verbatim>\<open>backend.c\<close>, \<^verbatim>\<open>client.c\<close>, \<^verbatim>\<open>server.c\<close>, \<^verbatim>\<open>engines/\<close>), the option table and
  its conversion (\<^verbatim>\<open>options.c\<close>, \<^verbatim>\<open>cconv.c\<close>), floating point (\<^verbatim>\<open>lib/gauss.c\<close>, \<^verbatim>\<open>lib/zipf.c\<close>, most of \<^verbatim>\<open>stat.c\<close>) and the Java side.
  Of \<^verbatim>\<open>zbd.c\<close>, the commands to the device and \<^verbatim>\<open>zbd_convert_to_write_zone\<close>, which waits for other threads; of \<^verbatim>\<open>io_u.c\<close>, rates, completion and
  accounting; of \<^verbatim>\<open>verify.c\<close>, the state files; of \<^verbatim>\<open>iolog.c\<close>, the log files. Locks are not modelled, except the mutex inside
  the semaphore: an operation under a lock is one step.

  \<^bold>\<open>Plan.\<close> What could come next are \<^verbatim>\<open>zbd_convert_to_write_zone\<close> as a step relation, the completion of I/Os in \<^verbatim>\<open>io_u.c\<close>,
  \<^verbatim>\<open>lib/num2str.c\<close>, and the parser and printer of \<^verbatim>\<open>cjson/cJSON.c\<close>.
\<close>

end
